(* ===== verification/Prelude.thy ===== *)
theory Prelude
  imports Main "HOL-Library.Word"
begin

text \<open>
  The shared layer of the development: the machine types of the C sources
  (\<^verbatim>\<open>unsigned char\<close>, \<^verbatim>\<open>unsigned short\<close>, \<^verbatim>\<open>unsigned int\<close>, and for the
  C++ library \<^verbatim>\<open>int\<close> read as signed and \<^verbatim>\<open>size_t\<close>), memory as a list
  of octets with little-endian loads and stores at an offset (the overlay of a packed
  C struct on a packet buffer), and the byte-order helpers of
  \<^verbatim>\<open>tapip/include/netif.h\<close> with their round trips. The collection
  \<open>octet_simps\<close> holds the load-after-store laws all components use.
\<close>

unbundle bit_operations_syntax

named_theorems octet_simps

type_synonym u8 = "8 word"
type_synonym u16 = "16 word"
type_synonym u32 = "32 word"
type_synonym i32 = "32 word"
type_synonym u64 = "64 word"
type_synonym octets = "u8 list"

section \<open>Byte order\<close>

definition htons :: "u16 \<Rightarrow> u16" where
  "htons host = drop_bit 8 host OR (push_bit 8 host AND 0xff00)"

definition htonl :: "u32 \<Rightarrow> u32" where
  "htonl host =
     push_bit 24 (host AND 0x000000ff) OR
     push_bit 8 (host AND 0x0000ff00) OR
     drop_bit 8 (host AND 0x00ff0000) OR
     drop_bit 24 (host AND 0xff000000)"

abbreviation ntohs :: "u16 \<Rightarrow> u16" where
  "ntohs net \<equiv> htons net"

abbreviation ntohl :: "u32 \<Rightarrow> u32" where
  "ntohl net \<equiv> htonl net"

section \<open>Memory as octets\<close>

text \<open>
  A load beyond the end of a buffer is undefined in C; the model reads 0 there, and a
  store beyond the end changes nothing. The handlers modelled later guard their accesses
  by length checks, which their theorems state.
\<close>

definition mk16 :: "u8 \<Rightarrow> u8 \<Rightarrow> u16" where
  "mk16 lo hi = ucast lo OR push_bit 8 (ucast hi)"

definition mk32 :: "u16 \<Rightarrow> u16 \<Rightarrow> u32" where
  "mk32 lo hi = ucast lo OR push_bit 16 (ucast hi)"

definition rd8 :: "octets \<Rightarrow> nat \<Rightarrow> u8" where
  "rd8 b i = (if i < length b then b ! i else 0)"

definition rd16 :: "octets \<Rightarrow> nat \<Rightarrow> u16" where
  "rd16 b i = mk16 (rd8 b i) (rd8 b (i + 1))"

definition rd32 :: "octets \<Rightarrow> nat \<Rightarrow> u32" where
  "rd32 b i = mk32 (rd16 b i) (rd16 b (i + 2))"

definition wr8 :: "nat \<Rightarrow> u8 \<Rightarrow> octets \<Rightarrow> octets" where
  "wr8 i v b = b[i := v]"

definition wr16 :: "nat \<Rightarrow> u16 \<Rightarrow> octets \<Rightarrow> octets" where
  "wr16 i v b = wr8 (i + 1) (ucast (drop_bit 8 v)) (wr8 i (ucast v) b)"

definition wr32 :: "nat \<Rightarrow> u32 \<Rightarrow> octets \<Rightarrow> octets" where
  "wr32 i v b = wr16 (i + 2) (ucast (drop_bit 16 v)) (wr16 i (ucast v) b)"

definition sub_octets :: "octets \<Rightarrow> nat \<Rightarrow> nat \<Rightarrow> octets" where
  "sub_octets b off n = take n (drop off b)"

text \<open>
  An \<^verbatim>\<open>int\<close> compared with a \<^verbatim>\<open>sizeof\<close> is converted to an unsigned type first: a
  negative length is not below any size.
\<close>

definition sz_less :: "int \<Rightarrow> nat \<Rightarrow> bool" where
  "sz_less len n \<longleftrightarrow> 0 \<le> len \<and> len < int n"

definition memcpy_at :: "nat \<Rightarrow> octets \<Rightarrow> octets \<Rightarrow> octets" where
  "memcpy_at off src b = take off b @ src @ drop (off + length src) b"

text \<open>Text as octets.\<close>

definition str :: "string \<Rightarrow> octets" where
  "str s = map of_char s"

definition CRLF :: octets where "CRLF = [13, 10]"

section \<open>Words as bits\<close>

lemma bit_word8_less: "bit (x::u8) n \<Longrightarrow> n < 8"
  using bit_imp_le_length [of x n] by simp

lemma bit_word16_less: "bit (x::u16) n \<Longrightarrow> n < 16"
  using bit_imp_le_length [of x n] by simp

lemma bit_byte_mask_16: "bit (0xff00::u16) n = (8 \<le> n \<and> n < 16)"
proof -
  have eq: "(0xff00::u16) = push_bit 8 (mask 8)"
    by (simp add: mask_eq_exp_minus_1 push_bit_eq_mult)
  show ?thesis unfolding eq by (simp only: bit_push_bit_iff bit_mask_iff) auto
qed

lemma bit_byte_mask_32:
  "bit (0x000000ff::u32) n = (n < 8)"
  "bit (0x0000ff00::u32) n = (8 \<le> n \<and> n < 16)"
  "bit (0x00ff0000::u32) n = (16 \<le> n \<and> n < 24)"
  "bit (0xff000000::u32) n = (24 \<le> n \<and> n < 32)"
proof -
  have masks: "(0xff::u32) = push_bit 0 (mask 8)" "(0xff00::u32) = push_bit 8 (mask 8)"
      "(0xff0000::u32) = push_bit 16 (mask 8)" "(0xff000000::u32) = push_bit 24 (mask 8)"
    by (simp_all add: mask_eq_exp_minus_1 push_bit_eq_mult)
  have bits: "bit (push_bit k (mask 8) :: u32) n = (k \<le> n \<and> n < k + 8 \<and> n < 32)" for k
    by (simp only: bit_push_bit_iff bit_mask_iff) auto
  show "bit (0x000000ff::u32) n = (n < 8)"
    "bit (0x0000ff00::u32) n = (8 \<le> n \<and> n < 16)"
    "bit (0x00ff0000::u32) n = (16 \<le> n \<and> n < 24)"
    "bit (0xff000000::u32) n = (24 \<le> n \<and> n < 32)"
    unfolding masks bits by auto
qed

lemma bit_htons: "n < 16 \<Longrightarrow> bit (htons x) n = (if n < 8 then bit x (n + 8) else bit x (n - 8))"
  by (simp only: htons_def bit_or_iff bit_and_iff bit_push_bit_iff bit_drop_bit_eq
      bit_byte_mask_16 o_def)
    (auto simp: add.commute dest: bit_imp_le_length)

lemma bit_htonl:
  "n < 32 \<Longrightarrow> bit (htonl x) n =
     (if n < 8 then bit x (n + 24) else if n < 16 then bit x (n + 8)
      else if n < 24 then bit x (n - 8) else bit x (n - 24))"
  by (simp only: htonl_def bit_or_iff bit_and_iff bit_push_bit_iff bit_drop_bit_eq
      bit_byte_mask_32 o_def)
    (auto simp: add.commute dest: bit_imp_le_length)

lemma htons_htons [simp]: "htons (htons x) = x"
  by (rule bit_word_eqI) (auto simp: bit_htons)

lemma htonl_htonl [simp]: "htonl (htonl x) = x"
  by (rule bit_word_eqI) (auto simp: bit_htonl)

lemma bit_mk16: "n < 16 \<Longrightarrow> bit (mk16 lo hi) n = (if n < 8 then bit lo n else bit hi (n - 8))"
  by (auto simp: mk16_def bit_or_iff bit_push_bit_iff bit_ucast_iff dest: bit_word8_less)

lemma bit_mk32: "n < 32 \<Longrightarrow> bit (mk32 lo hi) n = (if n < 16 then bit lo n else bit hi (n - 16))"
  by (auto simp: mk32_def bit_or_iff bit_push_bit_iff bit_ucast_iff dest: bit_word16_less)

lemma mk16_split [simp]: "mk16 (ucast v) (ucast (drop_bit 8 v)) = v"
  by (rule bit_word_eqI) (auto simp: bit_ucast_iff bit_drop_bit_eq bit_mk16)

lemma mk32_split [simp]: "mk32 (ucast v) (ucast (drop_bit 16 v)) = v"
  by (rule bit_word_eqI) (auto simp: bit_ucast_iff bit_drop_bit_eq bit_mk32)

lemma htons_mk16: "htons (mk16 a b) = mk16 b a"
  by (rule bit_word_eqI) (auto simp: bit_htons bit_mk16 dest: bit_word8_less)

lemma uint_mk16: "uint (mk16 lo hi) = uint lo + 256 * uint hi"
proof -
  have lo: "take_bit 16 (uint lo) = uint lo"
    using uint_bounded [of lo] by (simp add: take_bit_int_eq_self_iff)
  have hi: "take_bit 8 (uint hi) = uint hi"
    using uint_bounded [of hi] by (simp add: take_bit_int_eq_self_iff)
  have "uint (mk16 lo hi) = uint lo OR push_bit 8 (uint hi)"
    unfolding mk16_def
    by (simp add: unsigned_or_eq unsigned_push_bit_eq unsigned_ucast_eq take_bit_push_bit lo hi)
  also have "\<dots> = uint lo + push_bit 8 (uint hi)"
    by (rule disjunctive_add [symmetric]) (auto simp: bit_simps dest: bit_word8_less)
  finally show ?thesis by (simp add: push_bit_eq_mult)
qed

lemma uint_mk16_less: "uint (mk16 lo hi) < 65536"
  using uint_bounded [of "mk16 lo hi"] by simp

section \<open>Loads after stores\<close>

lemma length_wr [simp, octet_simps]:
  "length (wr8 i v8 b) = length b"
  "length (wr16 i v16 b) = length b"
  "length (wr32 i v32 b) = length b"
  by (simp_all add: wr8_def wr16_def wr32_def)

lemma rd8_wr8 [octet_simps]: "rd8 (wr8 i v b) j = (if i = j \<and> j < length b then v else rd8 b j)"
  by (auto simp: rd8_def wr8_def)

lemma rd8_wr16 [octet_simps]:
  "rd8 (wr16 i v b) j =
     (if i = j \<and> j < length b then ucast v
      else if i + 1 = j \<and> j < length b then ucast (drop_bit 8 v) else rd8 b j)"
  by (auto simp: wr16_def rd8_wr8)

lemma rd16_wr16_same [octet_simps]: "i + 1 < length b \<Longrightarrow> rd16 (wr16 i v b) i = v"
  by (simp add: rd16_def rd8_wr16)

lemma rd16_wr16_other [octet_simps]: "i + 2 \<le> j \<or> j + 2 \<le> i \<Longrightarrow> rd16 (wr16 i v b) j = rd16 b j"
  by (auto simp: rd16_def rd8_wr16)

lemma rd16_wr8_other [octet_simps]: "i < j \<or> j + 2 \<le> i \<Longrightarrow> rd16 (wr8 i v b) j = rd16 b j"
  by (auto simp: rd16_def rd8_wr8)

lemma rd8_wr32_other [octet_simps]: "i + 4 \<le> j \<or> j < i \<Longrightarrow> rd8 (wr32 i v b) j = rd8 b j"
  by (auto simp: wr32_def rd8_wr16)

lemma rd16_wr32_other [octet_simps]: "i + 4 \<le> j \<or> j + 2 \<le> i \<Longrightarrow> rd16 (wr32 i v b) j = rd16 b j"
  by (auto simp: rd16_def rd8_wr32_other)

lemma rd32_wr32_same [octet_simps]: "i + 3 < length b \<Longrightarrow> rd32 (wr32 i v b) i = v"
  by (simp add: rd32_def wr32_def rd16_wr16_same rd16_wr16_other)

lemma rd32_wr32_other [octet_simps]: "i + 4 \<le> j \<or> j + 4 \<le> i \<Longrightarrow> rd32 (wr32 i v b) j = rd32 b j"
  by (auto simp: rd32_def rd16_wr32_other)

lemma rd32_wr16_other [octet_simps]: "i + 2 \<le> j \<or> j + 4 \<le> i \<Longrightarrow> rd32 (wr16 i v b) j = rd32 b j"
  by (auto simp: rd32_def rd16_wr16_other)

lemma rd32_wr8_other [octet_simps]: "i < j \<or> j + 4 \<le> i \<Longrightarrow> rd32 (wr8 i v b) j = rd32 b j"
  by (auto simp: rd32_def rd16_wr8_other)

lemma length_memcpy_at [simp, octet_simps]:
  "off + length src \<le> length b \<Longrightarrow> length (memcpy_at off src b) = length b"
  by (simp add: memcpy_at_def)

lemma nth_memcpy_at:
  "off + length src \<le> length b \<Longrightarrow> j < length b \<Longrightarrow>
     memcpy_at off src b ! j = (if off \<le> j \<and> j < off + length src then src ! (j - off) else b ! j)"
  by (auto simp: memcpy_at_def nth_append)

lemma length_sub_octets [simp, octet_simps]:
  "off + n \<le> length b \<Longrightarrow> length (sub_octets b off n) = n"
  by (simp add: sub_octets_def)

end
