(* ===== verification/Packet.thy ===== *)
theory Packet
  imports Prelude
begin

text \<open>
  The packed protocol headers of \<^verbatim>\<open>tapip/include/ether.h\<close>, \<^verbatim>\<open>ip.h\<close>,
  \<^verbatim>\<open>tcp.h\<close>, \<^verbatim>\<open>udp.h\<close>, \<^verbatim>\<open>icmp.h\<close> and \<^verbatim>\<open>arp.h\<close> as loads and
  stores at fixed offsets of a packet buffer. The Ethernet header starts at octet 0 and
  the IP and ARP headers at octet 14 (\<^verbatim>\<open>pkb2ip\<close>); a transport header starts where
  the caller says. Fields hold exactly what is in memory: whether that is network or host
  order is the business of \<open>htons\<close>, \<open>htonl\<close> and \<open>ip_ntoh\<close>, as in the sources.
\<close>

section \<open>Constants\<close>

abbreviation (input) ETH_HRD_SZ :: nat where "ETH_HRD_SZ \<equiv> 14"
abbreviation (input) IP_HRD_SZ :: nat where "IP_HRD_SZ \<equiv> 20"
abbreviation (input) TCP_HRD_SZ :: nat where "TCP_HRD_SZ \<equiv> 20"
abbreviation (input) UDP_HRD_SZ :: nat where "UDP_HRD_SZ \<equiv> 8"
abbreviation (input) ICMP_HRD_SZ :: nat where "ICMP_HRD_SZ \<equiv> 8"
abbreviation (input) ARP_HRD_SZ :: nat where "ARP_HRD_SZ \<equiv> 28"

abbreviation (input) ETH_P_IP :: u16 where "ETH_P_IP \<equiv> 0x0800"
abbreviation (input) ETH_P_ARP :: u16 where "ETH_P_ARP \<equiv> 0x0806"
abbreviation (input) ETH_P_RARP :: u16 where "ETH_P_RARP \<equiv> 0x8035"

abbreviation (input) IP_FRAG_DF :: u16 where "IP_FRAG_DF \<equiv> 0x4000"
abbreviation (input) IP_FRAG_MF :: u16 where "IP_FRAG_MF \<equiv> 0x2000"
abbreviation (input) IP_FRAG_OFF :: u16 where "IP_FRAG_OFF \<equiv> 0x1fff"

abbreviation (input) IP_P_ICMP :: u8 where "IP_P_ICMP \<equiv> 1"
abbreviation (input) IP_P_TCP :: u8 where "IP_P_TCP \<equiv> 6"
abbreviation (input) IP_P_UDP :: u8 where "IP_P_UDP \<equiv> 17"

section \<open>Ethernet\<close>

definition eth_dst :: "octets \<Rightarrow> octets" where "eth_dst b = sub_octets b 0 6"
definition eth_src :: "octets \<Rightarrow> octets" where "eth_src b = sub_octets b 6 6"
definition eth_pro :: "octets \<Rightarrow> u16" where "eth_pro b = rd16 b 12"

definition hwacpy :: "nat \<Rightarrow> octets \<Rightarrow> octets \<Rightarrow> octets" where
  "hwacpy off hwa b = memcpy_at off (take 6 hwa) b"

definition hwacmp :: "octets \<Rightarrow> octets \<Rightarrow> bool" where
  "hwacmp a b \<longleftrightarrow> take 6 a \<noteq> take 6 b"

definition is_eth_multicast :: "octets \<Rightarrow> bool" where
  "is_eth_multicast hwa \<longleftrightarrow> rd8 hwa 0 AND 1 \<noteq> 0"

definition is_eth_broadcast :: "octets \<Rightarrow> bool" where
  "is_eth_broadcast hwa \<longleftrightarrow>
     (rd8 hwa 0 AND rd8 hwa 1 AND rd8 hwa 2 AND rd8 hwa 3 AND rd8 hwa 4 AND rd8 hwa 5) = 0xff"

section \<open>IP\<close>

definition ip_hlen :: "octets \<Rightarrow> u8" where "ip_hlen b = rd8 b 14 AND 0xf"
definition ipver :: "octets \<Rightarrow> u8" where "ipver b = drop_bit 4 (rd8 b 14)"
definition ip_len :: "octets \<Rightarrow> u16" where "ip_len b = rd16 b 16"
definition ip_id :: "octets \<Rightarrow> u16" where "ip_id b = rd16 b 18"
definition ip_fragoff :: "octets \<Rightarrow> u16" where "ip_fragoff b = rd16 b 20"
definition ip_ttl :: "octets \<Rightarrow> u8" where "ip_ttl b = rd8 b 22"
definition ip_pro :: "octets \<Rightarrow> u8" where "ip_pro b = rd8 b 23"
definition ip_cksum :: "octets \<Rightarrow> u16" where "ip_cksum b = rd16 b 24"
definition ip_src :: "octets \<Rightarrow> u32" where "ip_src b = rd32 b 26"
definition ip_dst :: "octets \<Rightarrow> u32" where "ip_dst b = rd32 b 30"

definition set_ip_ver_hlen :: "u8 \<Rightarrow> u8 \<Rightarrow> octets \<Rightarrow> octets" where
  "set_ip_ver_hlen ver hlen b = wr8 14 (push_bit 4 ver OR (hlen AND 0xf)) b"

definition set_ip_tos :: "u8 \<Rightarrow> octets \<Rightarrow> octets" where "set_ip_tos v b = wr8 15 v b"
definition set_ip_len :: "u16 \<Rightarrow> octets \<Rightarrow> octets" where "set_ip_len v b = wr16 16 v b"
definition set_ip_id :: "u16 \<Rightarrow> octets \<Rightarrow> octets" where "set_ip_id v b = wr16 18 v b"
definition set_ip_fragoff :: "u16 \<Rightarrow> octets \<Rightarrow> octets" where "set_ip_fragoff v b = wr16 20 v b"
definition set_ip_ttl :: "u8 \<Rightarrow> octets \<Rightarrow> octets" where "set_ip_ttl v b = wr8 22 v b"
definition set_ip_pro :: "u8 \<Rightarrow> octets \<Rightarrow> octets" where "set_ip_pro v b = wr8 23 v b"
definition set_ip_cksum :: "u16 \<Rightarrow> octets \<Rightarrow> octets" where "set_ip_cksum v b = wr16 24 v b"
definition set_ip_src :: "u32 \<Rightarrow> octets \<Rightarrow> octets" where "set_ip_src v b = wr32 26 v b"
definition set_ip_dst :: "u32 \<Rightarrow> octets \<Rightarrow> octets" where "set_ip_dst v b = wr32 30 v b"

definition iphlen :: "octets \<Rightarrow> nat" where
  "iphlen b = unat (ip_hlen b) * 4"

text \<open>\<^verbatim>\<open>ipdlen\<close> and \<^verbatim>\<open>ipndlen\<close> subtract in \<^verbatim>\<open>int\<close>.\<close>

definition ipdlen :: "octets \<Rightarrow> int" where
  "ipdlen b = uint (ip_len b) - int (iphlen b)"

definition ipndlen :: "octets \<Rightarrow> int" where
  "ipndlen b = uint (ntohs (ip_len b)) - int (iphlen b)"

definition ipdata_off :: "octets \<Rightarrow> nat" where
  "ipdata_off b = ETH_HRD_SZ + iphlen b"

definition ipoff :: "octets \<Rightarrow> int" where
  "ipoff b = uint (ip_fragoff b AND IP_FRAG_OFF) * 8"

definition ip_ntoh :: "octets \<Rightarrow> octets" where
  "ip_ntoh b =
     set_ip_fragoff (ntohs (ip_fragoff b))
       (set_ip_id (ntohs (ip_id b)) (set_ip_len (ntohs (ip_len b)) b))"

definition MULTICAST :: "u32 \<Rightarrow> bool" where
  "MULTICAST netip \<longleftrightarrow> 0x000000f0 AND netip = 0x000000e0"

definition BROADCAST :: "u32 \<Rightarrow> bool" where
  "BROADCAST netip \<longleftrightarrow> 0xff000000 AND netip = 0xff000000 \<or> 0xff000000 AND netip = 0x00000000"

definition equsubnet :: "u32 \<Rightarrow> u32 \<Rightarrow> u32 \<Rightarrow> bool" where
  "equsubnet nmask ip1 ip2 \<longleftrightarrow> nmask AND ip1 = nmask AND ip2"

section \<open>TCP, UDP, ICMP and ARP\<close>

definition tcp_src :: "nat \<Rightarrow> octets \<Rightarrow> u16" where "tcp_src t b = rd16 b t"
definition tcp_dst :: "nat \<Rightarrow> octets \<Rightarrow> u16" where "tcp_dst t b = rd16 b (t + 2)"
definition tcp_seq :: "nat \<Rightarrow> octets \<Rightarrow> u32" where "tcp_seq t b = rd32 b (t + 4)"
definition tcp_ackn :: "nat \<Rightarrow> octets \<Rightarrow> u32" where "tcp_ackn t b = rd32 b (t + 8)"
definition tcp_doff :: "nat \<Rightarrow> octets \<Rightarrow> u8" where "tcp_doff t b = drop_bit 4 (rd8 b (t + 12))"
definition tcp_window :: "nat \<Rightarrow> octets \<Rightarrow> u16" where "tcp_window t b = rd16 b (t + 14)"
definition tcp_checksum :: "nat \<Rightarrow> octets \<Rightarrow> u16" where "tcp_checksum t b = rd16 b (t + 16)"
definition tcp_urgptr :: "nat \<Rightarrow> octets \<Rightarrow> u16" where "tcp_urgptr t b = rd16 b (t + 18)"

text \<open>The control bits of a TCP header, in the order of the bit-field.\<close>

record tcp_ctl =
  fin :: bool
  syn :: bool
  rst :: bool
  psh :: bool
  ack :: bool
  urg :: bool

definition ctl_of :: "u8 \<Rightarrow> tcp_ctl" where
  "ctl_of x = \<lparr>fin = bit x 0, syn = bit x 1, rst = bit x 2, psh = bit x 3, ack = bit x 4,
               urg = bit x 5\<rparr>"

definition ctl_octet :: "tcp_ctl \<Rightarrow> u8" where
  "ctl_octet f =
     of_bool (fin f) + of_bool (syn f) * 2 + of_bool (rst f) * 4 + of_bool (psh f) * 8 +
     of_bool (ack f) * 16 + of_bool (urg f) * 32"

definition tcp_flags :: "nat \<Rightarrow> octets \<Rightarrow> tcp_ctl" where
  "tcp_flags t b = ctl_of (rd8 b (t + 13))"

definition no_ctl :: tcp_ctl where
  "no_ctl = \<lparr>fin = False, syn = False, rst = False, psh = False, ack = False, urg = False\<rparr>"

definition tcphlen :: "nat \<Rightarrow> octets \<Rightarrow> nat" where
  "tcphlen t b = unat (tcp_doff t b) * 4"

definition udp_src :: "nat \<Rightarrow> octets \<Rightarrow> u16" where "udp_src u b = rd16 b u"
definition udp_dst :: "nat \<Rightarrow> octets \<Rightarrow> u16" where "udp_dst u b = rd16 b (u + 2)"
definition udp_length :: "nat \<Rightarrow> octets \<Rightarrow> u16" where "udp_length u b = rd16 b (u + 4)"
definition udp_checksum :: "nat \<Rightarrow> octets \<Rightarrow> u16" where "udp_checksum u b = rd16 b (u + 6)"

definition icmp_type :: "nat \<Rightarrow> octets \<Rightarrow> u8" where "icmp_type i b = rd8 b i"
definition icmp_code :: "nat \<Rightarrow> octets \<Rightarrow> u8" where "icmp_code i b = rd8 b (i + 1)"
definition icmp_cksum :: "nat \<Rightarrow> octets \<Rightarrow> u16" where "icmp_cksum i b = rd16 b (i + 2)"

definition arp_hrd :: "octets \<Rightarrow> u16" where "arp_hrd b = rd16 b 14"
definition arp_pro :: "octets \<Rightarrow> u16" where "arp_pro b = rd16 b 16"
definition arp_hrdlen :: "octets \<Rightarrow> u8" where "arp_hrdlen b = rd8 b 18"
definition arp_prolen :: "octets \<Rightarrow> u8" where "arp_prolen b = rd8 b 19"
definition arp_op :: "octets \<Rightarrow> u16" where "arp_op b = rd16 b 20"
definition arp_sha :: "octets \<Rightarrow> octets" where "arp_sha b = sub_octets b 22 6"
definition arp_sip :: "octets \<Rightarrow> u32" where "arp_sip b = rd32 b 28"
definition arp_tha :: "octets \<Rightarrow> octets" where "arp_tha b = sub_octets b 32 6"
definition arp_tip :: "octets \<Rightarrow> u32" where "arp_tip b = rd32 b 38"

definition arp_hton :: "octets \<Rightarrow> octets" where
  "arp_hton b =
     wr16 20 (htons (arp_op b)) (wr16 16 (htons (arp_pro b)) (wr16 14 (htons (arp_hrd b)) b))"

section \<open>Laws of the overlays\<close>

lemmas ip_field_defs =
  ip_hlen_def ipver_def ip_len_def ip_id_def ip_fragoff_def ip_ttl_def ip_pro_def ip_cksum_def
  ip_src_def ip_dst_def iphlen_def ipdata_off_def

lemmas set_ip_field_defs =
  set_ip_ver_hlen_def set_ip_tos_def set_ip_len_def set_ip_id_def set_ip_fragoff_def
  set_ip_ttl_def set_ip_pro_def set_ip_cksum_def set_ip_src_def set_ip_dst_def

lemma length_set_ip [simp, octet_simps]:
  "length (set_ip_ver_hlen ver hl b) = length b" "length (set_ip_tos v8 b) = length b"
  "length (set_ip_len v16 b) = length b" "length (set_ip_id v16 b) = length b"
  "length (set_ip_fragoff v16 b) = length b" "length (set_ip_ttl v8 b) = length b"
  "length (set_ip_pro v8 b) = length b" "length (set_ip_cksum v16 b) = length b"
  "length (set_ip_src v32 b) = length b" "length (set_ip_dst v32 b) = length b"
  "length (ip_ntoh b) = length b"
  by (simp_all add: set_ip_field_defs ip_ntoh_def)

lemma nibble_split: "push_bit 4 (drop_bit 4 x) OR (x AND 0xf) = (x :: u8)"
proof -
  have m: "(0xf :: u8) = mask 4" by (simp add: mask_eq_exp_minus_1)
  show ?thesis unfolding m by (simp add: bit_eq_iff bit_simps) auto
qed

lemma iphlen_le: "iphlen b \<le> 60"
proof -
  have "ip_hlen b \<le> 0xf" unfolding ip_hlen_def by (rule word_and_le1)
  then have "unat (ip_hlen b) \<le> 15" by (simp add: word_le_nat_alt)
  then show ?thesis by (simp add: iphlen_def)
qed

text \<open>\<^verbatim>\<open>ip_hton\<close> is the same function as \<^verbatim>\<open>ip_ntoh\<close>, and undoes it.\<close>

lemma ip_ntoh_fields [octet_simps]:
  assumes "34 \<le> length b"
  shows "ip_len (ip_ntoh b) = ntohs (ip_len b)" "ip_id (ip_ntoh b) = ntohs (ip_id b)"
    "ip_fragoff (ip_ntoh b) = ntohs (ip_fragoff b)" "ip_hlen (ip_ntoh b) = ip_hlen b"
    "ip_src (ip_ntoh b) = ip_src b" "ip_dst (ip_ntoh b) = ip_dst b"
    "ip_pro (ip_ntoh b) = ip_pro b" "ip_ttl (ip_ntoh b) = ip_ttl b"
    "iphlen (ip_ntoh b) = iphlen b"
  using assms by (simp_all add: ip_ntoh_def ip_field_defs set_ip_field_defs octet_simps)

lemma wr16_idem [simp]: "wr16 i v (wr16 i w b) = wr16 i v b"
  by (simp add: wr16_def wr8_def list_update_swap)

lemma wr16_commute: "i + 2 \<le> j \<or> j + 2 \<le> i \<Longrightarrow> wr16 i v (wr16 j w b) = wr16 j w (wr16 i v b)"
  by (auto simp: wr16_def wr8_def list_update_swap)

lemma wr16_rd16 [simp]: "wr16 i (rd16 b i) b = b"
proof (rule nth_equalityI)
  fix k assume k: "k < length (wr16 i (rd16 b i) b)"
  have lo: "ucast (mk16 x y) = x" for x y
    by (rule bit_word_eqI) (simp add: bit_ucast_iff bit_mk16)
  have hi: "ucast (drop_bit 8 (mk16 x y)) = y" for x y
    by (rule bit_word_eqI) (simp add: bit_ucast_iff bit_drop_bit_eq bit_mk16)
  show "wr16 i (rd16 b i) b ! k = b ! k"
    using k by (auto simp: wr16_def wr8_def rd16_def rd8_def nth_list_update lo hi)
qed simp

lemma ip_ntoh_ip_ntoh: "34 \<le> length b \<Longrightarrow> ip_ntoh (ip_ntoh b) = b"
  by (simp add: ip_ntoh_def ip_field_defs set_ip_field_defs octet_simps
      wr16_commute [of 18 16] wr16_commute [of 20 16] wr16_commute [of 20 18])

lemma ctl_of_octet [simp]: "ctl_of (ctl_octet f) = f"
  by (cases f) (auto simp: ctl_of_def ctl_octet_def of_bool_def)

end
