(* ===== verification/Checksum.thy ===== *)
theory Checksum
  imports Packet
begin

text \<open>
  The Internet checksum of \<^verbatim>\<open>tapip/lib/checksum.c\<close>. The accumulator is a 32-bit
  word that wraps, folded twice into 16 bits. The reference is RFC 1071's sum over
  unbounded integers (\<open>rfc1071\<close>); the code computes it exactly as long as the
  accumulator does not wrap, and a header whose checksum was just set verifies.
\<close>

section \<open>The code\<close>

text \<open>
  The loop of \<^verbatim>\<open>sum\<close> over the \<^verbatim>\<open>size\<close> octets at \<^verbatim>\<open>data\<close>, as a recursion on
  them: a little-endian short per round, then the odd octet, if any.
\<close>

fun sum_shorts :: "octets \<Rightarrow> u32 \<Rightarrow> u32" where
  "sum_shorts (a # b # rest) origsum = sum_shorts rest (origsum + ucast (mk16 a b))"
| "sum_shorts [a] origsum = origsum + ucast (ntohs (push_bit 8 (ucast a AND 0xff)))"
| "sum_shorts [] origsum = origsum"

definition fold_sum :: "u32 \<Rightarrow> u32" where
  "fold_sum s = (s AND 0xffff) + drop_bit 16 s"

definition checksum :: "octets \<Rightarrow> u32 \<Rightarrow> u16" where
  "checksum data origsum =
     (let s0 = sum_shorts data origsum;
          s1 = fold_sum s0;
          s2 = fold_sum s1
      in ucast (NOT s2 AND 0xffff))"

definition ip_chksum :: "octets \<Rightarrow> u16" where
  "ip_chksum data = checksum data 0"

definition icmp_chksum :: "octets \<Rightarrow> u16" where
  "icmp_chksum data = checksum data 0"

definition tcp_udp_chksum :: "u32 \<Rightarrow> u32 \<Rightarrow> u16 \<Rightarrow> u16 \<Rightarrow> octets \<Rightarrow> u16" where
  "tcp_udp_chksum src dst proto len data =
     (let s0 = ucast (htons proto) + ucast (htons len);
          s1 = s0 + src;
          s2 = s1 + dst
      in checksum (take (unat len) data) s2)"

definition tcp_chksum :: "u32 \<Rightarrow> u32 \<Rightarrow> u16 \<Rightarrow> octets \<Rightarrow> u16" where
  "tcp_chksum src dst len data = tcp_udp_chksum src dst (ucast IP_P_TCP) len data"

definition udp_chksum :: "u32 \<Rightarrow> u32 \<Rightarrow> u16 \<Rightarrow> octets \<Rightarrow> u16" where
  "udp_chksum src dst len data = tcp_udp_chksum src dst (ucast IP_P_UDP) len data"

definition ip_set_checksum :: "octets \<Rightarrow> octets" where
  "ip_set_checksum b =
     (let b0 = set_ip_cksum 0 b
      in set_ip_cksum (ip_chksum (sub_octets b0 ETH_HRD_SZ (iphlen b0))) b0)"

definition tcp_set_checksum :: "nat \<Rightarrow> octets \<Rightarrow> octets" where
  "tcp_set_checksum t b =
     (let b0 = wr16 (t + 16) 0 b
      in wr16 (t + 16)
           (tcp_udp_chksum (ip_src b0) (ip_dst b0) (ucast IP_P_TCP)
              (word_of_int (ipndlen b0)) (drop t b0)) b0)"

definition udp_set_checksum :: "nat \<Rightarrow> octets \<Rightarrow> octets" where
  "udp_set_checksum u b =
     (let b0 = wr16 (u + 6) 0 b;
          ck = tcp_udp_chksum (ip_src b0) (ip_dst b0) (ucast IP_P_UDP)
                 (ntohs (udp_length u b0)) (drop u b0)
      in wr16 (u + 6) (if ck = 0 then 0xffff else ck) b0)"

section \<open>The reference: one's complement arithmetic over the integers\<close>

fun short_sum :: "octets \<Rightarrow> int" where
  "short_sum (a # b # rest) = uint (mk16 a b) + short_sum rest"
| "short_sum [a] = uint a"
| "short_sum [] = 0"

text \<open>The end-around-carry fold of a sum: 0 only for 0, otherwise in 1..65535.\<close>

definition oc_fold :: "int \<Rightarrow> int" where
  "oc_fold x = (if x = 0 then 0 else (x - 1) mod 65535 + 1)"

definition rfc1071 :: "int \<Rightarrow> u16" where
  "rfc1071 x = word_of_int (65535 - oc_fold x)"

section \<open>The accumulator\<close>

lemma odd_octet: "ntohs (push_bit 8 (ucast (a :: u8) AND 0xff)) = mk16 a 0"
proof -
  have m: "(0xff :: u16) = mask 8" by (simp add: mask_eq_exp_minus_1)
  have "push_bit 8 (ucast a AND 0xff :: u16) = mk16 0 a"
    unfolding m mk16_def by (rule bit_word_eqI) (auto simp: bit_simps dest: bit_word8_less)
  then show ?thesis by (simp add: htons_mk16)
qed

lemma uint_ucast_short: "uint (ucast (x :: u16) :: u32) = uint x"
  by (simp add: unsigned_ucast_eq take_bit_int_eq_self_iff uint_bounded [THEN less_le_trans])

lemma uint_sum_shorts: "uint (sum_shorts b s) = (uint s + short_sum b) mod 2 ^ 32"
proof (induction b s rule: sum_shorts.induct)
  case (1 a b rest s)
  then show ?case
    by (simp add: uint_word_ariths uint_ucast_short mod_add_left_eq add.assoc)
next
  case (2 a s)
  then show ?case
    unfolding sum_shorts.simps odd_octet
    by (simp add: uint_word_ariths uint_ucast_short uint_mk16)
next
  case (3 s)
  have "uint s < 2 ^ 32" using uint_bounded [of s] by simp
  then show ?case by simp
qed

lemma short_sum_nonneg: "0 \<le> short_sum b"
  by (induction b rule: short_sum.induct) auto

lemma short_sum_bound: "short_sum b \<le> 65535 * ((int (length b) + 1) div 2)"
proof (induction b rule: short_sum.induct)
  case (1 a b rest)
  have "uint (mk16 a b) \<le> 65535" using uint_mk16_less [of a b] by simp
  moreover have "(int (length (a # b # rest)) + 1) div 2 = (int (length rest) + 1) div 2 + 1"
    by simp
  ultimately show ?case using 1 by simp
next
  case (2 a)
  have "uint a \<le> 255" using uint_bounded [of a] by simp
  then show ?case by simp
qed simp

text \<open>Replacing a short at an even offset changes the sum by the difference.\<close>

lemma short_sum_wr16:
  "even i \<Longrightarrow> i + 1 < length b \<Longrightarrow>
     short_sum (wr16 i v b) = short_sum b - uint (rd16 b i) + uint v"
proof (induction b arbitrary: i rule: short_sum.induct)
  case (1 a b rest)
  show ?case
  proof (cases "i = 0")
    case True
    then show ?thesis by (simp add: wr16_def wr8_def rd16_def rd8_def)
  next
    case False
    with "1.prems"(1) obtain j where j: "i = Suc (Suc j)" "even j"
      by (metis dvd_0_right even_Suc not0_implies_Suc)
    have "wr16 i v (a # b # rest) = a # b # wr16 j v rest" using j by (simp add: wr16_def wr8_def)
    moreover have "rd16 (a # b # rest) i = rd16 rest j"
      using j by (simp add: rd16_def rd8_def)
    ultimately show ?thesis using "1.IH" [of j] "1.prems" j by simp
  qed
qed simp_all

section \<open>Folding\<close>

lemma uint_fold_sum: "uint (fold_sum s) = uint s mod 65536 + uint s div 65536"
proof -
  have m: "(0xffff :: u32) = mask 16" by (simp add: mask_eq_exp_minus_1)
  have lo: "uint (s AND 0xffff) = uint s mod 65536"
    unfolding m take_bit_eq_mask [symmetric] unsigned_take_bit_eq by (simp add: take_bit_eq_mod)
  have b: "uint s < 2 ^ 32" using uint_bounded [of s] by simp
  then have hi: "uint (drop_bit 16 s) = uint s div 65536"
    using take_bit_int_eq_self [of "uint s" 32]
    unfolding unsigned_drop_bit_eq by (simp add: drop_bit_eq_div)
  from b have "uint s div 65536 < 65536" by simp
  moreover have "uint s mod 65536 < 65536" by simp
  ultimately have "uint s mod 65536 + uint s div 65536 < 2 ^ 32" by simp
  moreover have "0 \<le> uint s mod 65536 + uint s div 65536" by (simp add: div_int_pos_iff)
  ultimately show ?thesis
    unfolding fold_sum_def by (simp add: uint_word_ariths lo hi)
qed

lemma fold_step:
  fixes x :: int
  assumes "0 \<le> x"
  shows "oc_fold (x mod 65536 + x div 65536) = oc_fold x"
proof -
  let ?y = "x mod 65536 + x div 65536"
  have x: "x = ?y + 65535 * (x div 65536)" by simp
  have "?y = 0 \<longleftrightarrow> x = 0"
  proof
    assume "?y = 0"
    moreover have "0 \<le> x mod 65536" "0 \<le> x div 65536" using assms by (auto simp: div_int_pos_iff)
    ultimately have "x mod 65536 = 0" "x div 65536 = 0" by linarith+
    then show "x = 0" by (metis mult_div_mod_eq mult_zero_right add_0)
  qed simp
  moreover have "(x - 1) mod 65535 = (?y - 1) mod 65535"
    by (metis x add_diff_eq diff_add_eq mod_mult_self2)
  ultimately show ?thesis by (simp add: oc_fold_def)
qed

lemma oc_fold_small: "0 \<le> x \<Longrightarrow> x \<le> 65535 \<Longrightarrow> oc_fold x = x"
  by (auto simp: oc_fold_def)

lemma carry_absorbed:
  fixes y :: int
  assumes "0 \<le> y" "y \<le> 131070"
  shows "y mod 65536 + y div 65536 \<le> 65535"
proof (cases "y < 65536")
  case False
  then have "y div 65536 = 1" using assms by (intro int_div_pos_eq [where r = "y - 65536"]) auto
  then show ?thesis using assms by (simp add: minus_mult_div_eq_mod [symmetric])
qed (use assms in simp)

lemma fold_twice: "uint (fold_sum (fold_sum s)) = oc_fold (uint s)"
proof -
  have b: "uint s < 2 ^ 32" "0 \<le> uint s" using uint_bounded [of s] by simp_all
  let ?y = "uint (fold_sum s)" and ?z = "uint (fold_sum (fold_sum s))"
  have y: "?y = uint s mod 65536 + uint s div 65536" by (rule uint_fold_sum)
  have z: "?z = ?y mod 65536 + ?y div 65536" by (rule uint_fold_sum)
  have "uint s div 65536 \<le> 65535" using b by simp
  moreover have "uint s mod 65536 \<le> 65535" using pos_mod_bound [of 65536 "uint s"] by linarith
  ultimately have "?y \<le> 131070" using y by linarith
  moreover have "0 \<le> ?y" by simp
  ultimately have "?z \<le> 65535" using z carry_absorbed by simp
  then have "oc_fold ?z = ?z" by (intro oc_fold_small) simp_all
  moreover have "oc_fold ?z = oc_fold ?y" unfolding z by (rule fold_step) simp
  moreover have "oc_fold ?y = oc_fold (uint s)" unfolding y by (rule fold_step) simp
  ultimately show ?thesis by simp
qed

lemma oc_fold_range: "0 \<le> x \<Longrightarrow> 0 \<le> oc_fold x \<and> oc_fold x \<le> 65535"
  by (auto simp: oc_fold_def)

lemma checksum_eq: "uint (checksum data s) = 65535 - oc_fold (uint (sum_shorts data s))"
proof -
  let ?w = "fold_sum (fold_sum (sum_shorts data s))"
  have w: "uint ?w = oc_fold (uint (sum_shorts data s))" by (rule fold_twice)
  have r: "0 \<le> uint ?w" "uint ?w \<le> 65535"
    using oc_fold_range [of "uint (sum_shorts data s)"] w by simp_all
  have m: "(0xffff :: u32) = mask 16" by (simp add: mask_eq_exp_minus_1)
  have "ucast (NOT ?w AND 0xffff) = NOT (ucast ?w :: u16)"
    unfolding m by (rule bit_word_eqI) (simp add: bit_simps)
  then have "uint (ucast (NOT ?w AND 0xffff) :: u16) = (- uint ?w - 1) mod 65536"
    using r by (simp add: unsigned_not_eq unsigned_ucast_eq not_int_def take_bit_eq_mod
        mod_diff_left_eq)
  also have "\<dots> = (65535 - uint ?w) mod 65536"
    using mod_add_self2 [of "- uint ?w - 1" 65536] by simp
  also have "\<dots> = 65535 - uint ?w" using r by (intro mod_pos_pos_trivial) linarith+
  finally show ?thesis by (simp add: checksum_def Let_def w)
qed

section \<open>Verification after setting\<close>

text \<open>
  A sum \<open>x\<close> with the complement of its own fold added folds to all ones, so that the
  receiver's complement is 0.
\<close>

lemma oc_fold_complement:
  assumes "0 \<le> x"
  shows "oc_fold (x + (65535 - oc_fold x)) = 65535"
proof (cases "x = 0")
  case False
  let ?k = "(x - 1) div 65535"
  have "x + (65535 - oc_fold x) - 1 = 65535 * ?k + 65534"
    using False by (simp add: oc_fold_def algebra_simps minus_mod_eq_mult_div [symmetric])
  moreover have "x + (65535 - oc_fold x) \<noteq> 0"
    using oc_fold_range [OF assms] assms False by linarith
  ultimately show ?thesis by (simp add: oc_fold_def)
qed (simp add: oc_fold_def)

text \<open>
  The generic argument: \<open>data\<close> holds a zero short at the even offset \<open>i\<close>, and the sum
  of everything stays below the width of the accumulator.
\<close>

lemma checksum_verifies:
  assumes i: "even i" "i + 1 < length data" and zero: "rd16 data i = 0"
    and bound: "uint s + short_sum data + 65535 < 2 ^ 32"
  shows "checksum (wr16 i (checksum data s) data) s = 0"
proof -
  let ?x = "uint s + short_sum data" and ?ck = "checksum data s"
  have x: "0 \<le> ?x" "?x < 2 ^ 32"
    using short_sum_nonneg [of data] bound by (simp_all add: add_nonneg_nonneg)
  have ck: "uint ?ck = 65535 - oc_fold ?x"
    using x by (simp add: checksum_eq uint_sum_shorts)
  have new: "short_sum (wr16 i ?ck data) = short_sum data + (65535 - oc_fold ?x)"
    using short_sum_wr16 [OF i] zero ck by simp
  have "0 \<le> oc_fold ?x" using oc_fold_range x by blast
  then have sum: "uint (sum_shorts (wr16 i ?ck data) s) = ?x + (65535 - oc_fold ?x)"
    using x bound new oc_fold_range [of ?x]
    by (simp add: uint_sum_shorts add.assoc)
  have "uint (checksum (wr16 i ?ck data) s) = 0"
    unfolding checksum_eq sum using oc_fold_complement [OF x(1)] by simp
  then show ?thesis by (simp add: uint_0_iff)
qed

lemma sub_octets_wr16:
  assumes "off \<le> i" "i + 1 < off + n" "off + n \<le> length b"
  shows "sub_octets (wr16 i v b) off n = wr16 (i - off) v (sub_octets b off n)"
proof -
  obtain j where j: "i = off + j" using assms(1) le_Suc_ex by blast
  have upd: "take n (drop off (b[off + k := x])) = (take n (drop off b))[k := x]" for k x b
    by (simp add: drop_update_swap take_update_swap)
  show ?thesis
    unfolding j by (simp add: sub_octets_def wr16_def wr8_def upd upd [of _ "Suc j", simplified])
qed

lemma rd16_sub_octets:
  "i + 1 < n \<Longrightarrow> off + n \<le> length b \<Longrightarrow> rd16 (sub_octets b off n) i = rd16 b (off + i)"
  by (simp add: rd16_def rd8_def sub_octets_def)

lemma iphlen_set_ip_cksum [simp]: "iphlen (set_ip_cksum v b) = iphlen b"
  by (simp add: ip_field_defs set_ip_field_defs octet_simps)

lemma ip_set_checksum_verifies_aux:
  assumes hl: "20 \<le> iphlen b" and len: "ETH_HRD_SZ + iphlen b \<le> length b"
  shows "ip_chksum (sub_octets (ip_set_checksum b) ETH_HRD_SZ (iphlen (ip_set_checksum b))) = 0"
proof -
  let ?b0 = "set_ip_cksum 0 b" and ?n = "iphlen b"
  let ?h = "sub_octets ?b0 14 ?n"
  have h: "length ?h = ?n" using len by simp
  have zero: "rd16 ?h 10 = 0"
    using hl len by (simp add: rd16_sub_octets set_ip_cksum_def rd16_wr16_same)
  have bound: "short_sum ?h + 65535 < 2 ^ 32"
    using short_sum_bound [of ?h] iphlen_le [of b] h by simp
  have "sub_octets (ip_set_checksum b) 14 ?n = wr16 10 (checksum ?h 0) ?h"
    using hl len sub_octets_wr16 [of 14 24 ?n ?b0 "checksum ?h 0"]
    by (simp add: ip_set_checksum_def Let_def ip_chksum_def set_ip_cksum_def [of "checksum _ _"])
  moreover have "checksum (wr16 10 (checksum ?h 0) ?h) 0 = 0"
    using hl h zero bound by (intro checksum_verifies) simp_all
  ultimately show ?thesis by (simp add: ip_chksum_def ip_set_checksum_def Let_def)
qed

section \<open>Properties\<close>

text \<open>C33. As long as the sum of the shorts and the initial value fits the 32-bit accumulator,
  the checksum computed by the copy-and-fold loop is the Internet checksum of RFC 1071: the
  complement of the ones' complement sum.\<close>

theorem checksum_rfc1071:
  assumes "uint s + short_sum data < 2 ^ 32"
  shows "checksum data s = rfc1071 (uint s + short_sum data)"
proof -
  have x: "0 \<le> uint s + short_sum data" using short_sum_nonneg [of data] by simp
  have "uint (checksum data s) = 65535 - oc_fold (uint s + short_sum data)"
    using assms x by (simp add: checksum_eq uint_sum_shorts)
  moreover have "uint (rfc1071 (uint s + short_sum data)) = 65535 - oc_fold (uint s + short_sum data)"
    using oc_fold_range [OF x] by (simp add: rfc1071_def uint_word_of_int
        del: of_int_diff of_int_numeral)
  ultimately show ?thesis by (metis word_uint_eqI)
qed

theorem checksum_rfc1071_witness:
  "checksum [0x00, 0x01, 0xf2, 0x03, 0xf4, 0xf5, 0xf6, 0xf7, 0x2a] 0 =
     rfc1071 (short_sum [0x00, 0x01, 0xf2, 0x03, 0xf4, 0xf5, 0xf6, 0xf7, 0x2a])"
proof -
  have "uint (0 :: u32) + short_sum [0x00, 0x01, 0xf2, 0x03, 0xf4, 0xf5, 0xf6, 0xf7, 0x2a] < 2 ^ 32"
    using short_sum_bound [of "[0x00, 0x01, 0xf2, 0x03, 0xf4, 0xf5, 0xf6, 0xf7, 0x2a]"] by simp
  from checksum_rfc1071 [OF this] show ?thesis by simp
qed

text \<open>After \<^verbatim>\<open>ip_set_checksum\<close> the header of a complete IP packet passes the receiver's
  test \<^verbatim>\<open>ip_chksum(...) == 0\<close>, for every header length the 4-bit field can express.\<close>

theorem ip_set_checksum_verifies:
  assumes "IP_HRD_SZ \<le> iphlen b" "ETH_HRD_SZ + iphlen b \<le> length b"
  shows "ip_chksum (sub_octets (ip_set_checksum b) ETH_HRD_SZ (iphlen (ip_set_checksum b))) = 0"
  using ip_set_checksum_verifies_aux assms .

theorem ip_set_checksum_verifies_witness:
  "let b = replicate 14 0 @ [0x45, 0, 0, 20, 0xab, 0xcd, 0x40, 0, 64, 17, 0xff, 0xff,
                             10, 0, 0, 1, 10, 0, 0, 2]
   in ip_chksum (sub_octets (ip_set_checksum b) 14 (iphlen (ip_set_checksum b))) = 0"
proof -
  let ?b = "replicate 14 0 @ [0x45, 0, 0, 20, 0xab, 0xcd, 0x40, 0, 64, 17, 0xff, 0xff,
                             10, 0, 0, 1, 10, 0, 0, 2] :: octets"
  have "iphlen ?b = 20" by code_simp
  then show ?thesis using ip_set_checksum_verifies [of ?b] by (simp add: Let_def)
qed

end
