(* ===== verification/Netif.thy ===== *)
theory Netif
  imports Checksum
begin

text \<open>
  The link layer: the structures of \<^verbatim>\<open>tapip/include/netif.h\<close>, \<^verbatim>\<open>route.h\<close>,
  \<^verbatim>\<open>arp.h\<close> and \<^verbatim>\<open>ip.h\<close>, the state of the stack below the sockets (record
  \<open>net\<close>), the packet buffers of \<^verbatim>\<open>tapip/net/pkb.c\<close> with their reference counts, and
  device transmission (\<^verbatim>\<open>tapip/net/netdev.c\<close>, \<^verbatim>\<open>tapip/net/veth.c\<close>).

  A packet travels by value, together with its identity \<open>pk_id\<close>; the reference count,
  which all holders share, lives in the state. No holder writes to a packet that another
  one still reads, so that passing the octets by value is what the pointers do. The
  transmit function of a device (\<^verbatim>\<open>net_ops->xmit\<close>) is a function pointer in C and a
  parameter \<open>xmit\<close> here, so that the loopback device, which re-enters the stack, can be
  plugged in at the top.
\<close>

section \<open>Structures\<close>

text \<open>The stack knows two devices, the globals \<^verbatim>\<open>loop\<close> and \<^verbatim>\<open>veth\<close>.\<close>

datatype devid = Loop | Veth

record netstats =
  rx_packets :: u32
  tx_packets :: u32
  rx_errors :: u32
  tx_errors :: u32
  rx_bytes :: u32
  tx_bytes :: u32

record netdev =
  net_mtu :: int
  net_ipaddr :: u32
  net_mask :: u32
  net_hwaddr :: octets
  net_stats :: netstats

record rtentry =
  rt_net :: u32
  rt_netmask :: u32
  rt_gw :: u32
  rt_flags :: u32
  rt_metric :: int
  rt_dev :: devid

datatype pkt_type = PKT_NONE | PKT_LOCALHOST | PKT_OTHERHOST | PKT_MULTICAST | PKT_BROADCAST

record pkbuf =
  pk_id :: nat
  pk_pro :: u16
  pk_type :: pkt_type
  pk_len :: int
  pk_indev :: "devid option"
  pk_rtdst :: "rtentry option"
  pk_data :: octets

datatype arp_state = ARP_FREE | ARP_WAITING | ARP_RESOLVED

record arpentry =
  ae_list :: "pkbuf list"
  ae_dev :: "devid option"
  ae_retry :: int
  ae_ttl :: int
  ae_state :: arp_state
  ae_pro :: u16
  ae_ipaddr :: u32
  ae_hwaddr :: octets

text \<open>
  \<^verbatim>\<open>frag_flags\<close> is a word of three bits: \<^verbatim>\<open>FRAG_COMPLETE\<close>, \<^verbatim>\<open>FRAG_FIRST_IN\<close>
  and \<^verbatim>\<open>FRAG_LAST_IN\<close>.
\<close>

record fragment =
  frag_id :: u16
  frag_src :: u32
  frag_dst :: u32
  frag_pro :: u8
  frag_hlen :: int
  frag_rsize :: int
  frag_size :: int
  frag_ttl :: int
  frag_complete :: bool
  frag_first_in :: bool
  frag_last_in :: bool
  frag_pkb :: "pkbuf list"

text \<open>
  The state of the stack below the sockets. \<open>lit_empty\<close> is the six octets of memory at
  the string literal \<^verbatim>\<open>""\<close> of \<^verbatim>\<open>netdev_tx\<close> (its terminator and what the linker
  placed behind it); \<open>tap_out\<close> is the sequence of frames written to the tap device;
  \<open>exited\<close> records that \<^verbatim>\<open>pkb_safe\<close> ended the process.
\<close>

record net =
  devs :: "devid \<Rightarrow> netdev"
  tap_ipaddr :: u32
  lit_empty :: octets
  rt_head :: "rtentry list"
  arp_cache :: "arpentry list"
  arp_next :: nat
  frag_head :: "fragment list"
  ipid :: u16
  alloc_pkbs :: nat
  free_pkbs :: nat
  pk_refcnt :: "nat \<Rightarrow> int"
  exited :: bool
  tap_out :: "octets list"

type_synonym 'a xmit_fn = "devid \<Rightarrow> pkbuf \<Rightarrow> 'a net_scheme \<Rightarrow> 'a net_scheme"

definition LOCALNET :: "netdev \<Rightarrow> u32" where
  "LOCALNET dev = net_ipaddr dev AND net_mask dev"

section \<open>Device initialisation\<close>

text \<open>
  \<^verbatim>\<open>netdev_alloc\<close> zeroes a device and calls its \<^verbatim>\<open>init\<close> operation. The addresses are
  those of the topology the Makefile selects (\<^verbatim>\<open>CONFIG_TOP2\<close>); \<open>tap_mtu\<close> and
  \<open>tap_addr\<close> are what the kernel reports for the tap device.
\<close>

definition zero_dev :: netdev where
  "zero_dev = \<lparr>net_mtu = 0, net_ipaddr = 0, net_mask = 0, net_hwaddr = replicate 6 0,
     net_stats = \<lparr>rx_packets = 0, tx_packets = 0, rx_errors = 0, tx_errors = 0, rx_bytes = 0,
                  tx_bytes = 0\<rparr>\<rparr>"

definition loop_dev_init :: "netdev \<Rightarrow> netdev" where
  "loop_dev_init dev = dev\<lparr>net_mtu := 1500, net_ipaddr := 0x0100007f, net_mask := 0x000000ff\<rparr>"

definition veth_dev_init :: "int \<Rightarrow> netdev \<Rightarrow> netdev" where
  "veth_dev_init tap_mtu dev =
     dev\<lparr>net_mtu := tap_mtu, net_ipaddr := 0x0100000a, net_mask := 0x00ffffff,
         net_hwaddr := [0x00, 0x34, 0x45, 0x67, 0x89, 0xab]\<rparr>"

definition netdev_alloc :: "devid \<Rightarrow> (netdev \<Rightarrow> netdev) \<Rightarrow> 'a net_scheme \<Rightarrow> 'a net_scheme" where
  "netdev_alloc d init w = w\<lparr>devs := (devs w)(d := init zero_dev)\<rparr>"

definition netdev_init :: "int \<Rightarrow> u32 \<Rightarrow> 'a net_scheme \<Rightarrow> 'a net_scheme" where
  "netdev_init tap_mtu tap_addr w =
     (let w1 = netdev_alloc Loop loop_dev_init w;
          w2 = netdev_alloc Veth (veth_dev_init tap_mtu) w1
      in w2\<lparr>tap_ipaddr := tap_addr\<rparr>)"

section \<open>Packet buffers\<close>

abbreviation (input) MAX_PKBS :: nat where "MAX_PKBS \<equiv> 200"

definition pkb_safe :: "'a net_scheme \<Rightarrow> 'a net_scheme" where
  "pkb_safe w =
     (if int (alloc_pkbs w) - int (free_pkbs w) > int MAX_PKBS then w\<lparr>exited := True\<rparr> else w)"

definition pkb_trim :: "pkbuf \<Rightarrow> int \<Rightarrow> pkbuf" where
  "pkb_trim pkb len = pkb\<lparr>pk_len := len, pk_data := take (nat len) (pk_data pkb)\<rparr>"

definition alloc_pkb :: "nat \<Rightarrow> 'a net_scheme \<Rightarrow> pkbuf \<times> 'a net_scheme" where
  "alloc_pkb sz w =
     (let pkb = \<lparr>pk_id = alloc_pkbs w, pk_pro = 0xffff, pk_type = PKT_NONE, pk_len = int sz,
                 pk_indev = None, pk_rtdst = None, pk_data = replicate sz 0\<rparr>
      in (pkb, pkb_safe (w\<lparr>pk_refcnt := (pk_refcnt w)(alloc_pkbs w := 1),
                           alloc_pkbs := alloc_pkbs w + 1\<rparr>)))"

definition alloc_netdev_pkb :: "devid \<Rightarrow> 'a net_scheme \<Rightarrow> pkbuf \<times> 'a net_scheme" where
  "alloc_netdev_pkb nd w = alloc_pkb (nat (net_mtu (devs w nd)) + ETH_HRD_SZ) w"

text \<open>
  \<^verbatim>\<open>copy_pkb\<close> allocates and copies \<^verbatim>\<open>pk_len\<close> octets counted from the start of the
  structure, not \<^verbatim>\<open>sizeof(*pkb) + pk_len\<close>: of the data only the octets behind the 52
  of the packed header (64-bit pointers) are in the copy.
\<close>

abbreviation (input) SIZEOF_PKBUF :: nat where "SIZEOF_PKBUF \<equiv> 52"

definition copy_pkb :: "pkbuf \<Rightarrow> 'a net_scheme \<Rightarrow> pkbuf \<times> 'a net_scheme" where
  "copy_pkb pkb w =
     (pkb\<lparr>pk_id := alloc_pkbs w, pk_data := take (nat (pk_len pkb) - SIZEOF_PKBUF) (pk_data pkb)\<rparr>,
      pkb_safe (w\<lparr>pk_refcnt := (pk_refcnt w)(alloc_pkbs w := 1),
                  alloc_pkbs := alloc_pkbs w + 1\<rparr>))"

definition free_pkb :: "pkbuf \<Rightarrow> 'a net_scheme \<Rightarrow> 'a net_scheme" where
  "free_pkb pkb w =
     (let n = pk_refcnt w (pk_id pkb) - 1;
          w1 = w\<lparr>pk_refcnt := (pk_refcnt w)(pk_id pkb := n)\<rparr>
      in if n \<le> 0 then w1\<lparr>free_pkbs := free_pkbs w1 + 1\<rparr> else w1)"

definition get_pkb :: "pkbuf \<Rightarrow> 'a net_scheme \<Rightarrow> 'a net_scheme" where
  "get_pkb pkb w = w\<lparr>pk_refcnt := (pk_refcnt w)(pk_id pkb := pk_refcnt w (pk_id pkb) + 1)\<rparr>"

section \<open>Transmission\<close>

definition upd_stats :: "devid \<Rightarrow> (netstats \<Rightarrow> netstats) \<Rightarrow> 'a net_scheme \<Rightarrow> 'a net_scheme" where
  "upd_stats d f w =
     w\<lparr>devs := (devs w)(d := (devs w d)\<lparr>net_stats := f (net_stats (devs w d))\<rparr>)\<rparr>"

text \<open>
  \<^verbatim>\<open>netdev_tx\<close> fills in the Ethernet header and calls the driver. The destination
  address is copied from the literal \<^verbatim>\<open>""\<close>; the parameter \<open>dst\<close> is not used.
\<close>

definition netdev_tx ::
  "'a xmit_fn \<Rightarrow> devid \<Rightarrow> pkbuf \<Rightarrow> int \<Rightarrow> u16 \<Rightarrow> octets \<Rightarrow> 'a net_scheme \<Rightarrow> 'a net_scheme" where
  "netdev_tx xmit dev pkb len proto dst w =
     (let b1 = wr16 12 (htons proto) (pk_data pkb);
          b2 = hwacpy 0 (lit_empty w) b1;
          b3 = hwacpy 6 (net_hwaddr (devs w dev)) b2;
          pkb1 = pkb\<lparr>pk_data := b3, pk_len := len + int ETH_HRD_SZ\<rparr>;
          w1 = xmit dev pkb1 w
      in free_pkb pkb1 w1)"

text \<open>
  The driver of \<^verbatim>\<open>veth\<close>. \<open>tap_write\<close> is the result of \<^verbatim>\<open>write\<close> on the tap device.
\<close>

definition veth_xmit :: "(octets \<Rightarrow> int) \<Rightarrow> 'a xmit_fn" where
  "veth_xmit tap_write dev pkb w =
     (let frame = take (nat (pk_len pkb)) (pk_data pkb);
          l = tap_write frame
      in if l \<noteq> pk_len pkb then upd_stats dev (\<lambda>s. s\<lparr>tx_errors := tx_errors s + 1\<rparr>) w
         else (upd_stats dev (\<lambda>s. s\<lparr>tx_packets := tx_packets s + 1,
                                      tx_bytes := tx_bytes s + word_of_int l\<rparr>) w)
                \<lparr>tap_out := tap_out w @ [frame]\<rparr>)"

definition local_address :: "u32 \<Rightarrow> 'a net_scheme \<Rightarrow> bool" where
  "local_address addr w \<longleftrightarrow>
     addr = 0 \<or> LOCALNET (devs w Loop) = (net_mask (devs w Loop) AND addr) \<or>
     (\<exists>d \<in> {Loop, Veth}. net_ipaddr (devs w d) = addr)"

section \<open>Reference counts\<close>

text \<open>
  What \<^verbatim>\<open>free_pkb\<close>, \<^verbatim>\<open>get_pkb\<close> and the allocators change: only the packet
  counters. \<open>same_net\<close> says that two states agree on everything else below the sockets.
\<close>

definition same_net :: "'a net_scheme \<Rightarrow> 'a net_scheme \<Rightarrow> bool" where
  "same_net w w' \<longleftrightarrow>
     devs w' = devs w \<and> tap_ipaddr w' = tap_ipaddr w \<and> lit_empty w' = lit_empty w \<and>
     rt_head w' = rt_head w \<and> arp_cache w' = arp_cache w \<and> arp_next w' = arp_next w \<and>
     frag_head w' = frag_head w \<and> ipid w' = ipid w \<and> tap_out w' = tap_out w \<and>
     net.more w' = net.more w"

lemma pkb_frame [simp]:
  "devs (free_pkb p w) = devs w" "lit_empty (free_pkb p w) = lit_empty w"
  "tap_ipaddr (free_pkb p w) = tap_ipaddr w"
  "rt_head (free_pkb p w) = rt_head w" "arp_cache (free_pkb p w) = arp_cache w"
  "arp_next (free_pkb p w) = arp_next w" "frag_head (free_pkb p w) = frag_head w"
  "ipid (free_pkb p w) = ipid w" "tap_out (free_pkb p w) = tap_out w"
  "net.more (free_pkb p w) = net.more w" "alloc_pkbs (free_pkb p w) = alloc_pkbs w"
  "devs (snd (alloc_pkb n w)) = devs w" "lit_empty (snd (alloc_pkb n w)) = lit_empty w"
  "tap_ipaddr (snd (alloc_pkb n w)) = tap_ipaddr w"
  "rt_head (snd (alloc_pkb n w)) = rt_head w" "arp_cache (snd (alloc_pkb n w)) = arp_cache w"
  "arp_next (snd (alloc_pkb n w)) = arp_next w" "frag_head (snd (alloc_pkb n w)) = frag_head w"
  "ipid (snd (alloc_pkb n w)) = ipid w" "tap_out (snd (alloc_pkb n w)) = tap_out w"
  "net.more (snd (alloc_pkb n w)) = net.more w"
  by (simp_all add: free_pkb_def alloc_pkb_def pkb_safe_def Let_def)

lemma alloc_pkb_fields [simp]:
  "pk_len (fst (alloc_pkb n w)) = int n" "pk_data (fst (alloc_pkb n w)) = replicate n 0"
  "pk_id (fst (alloc_pkb n w)) = alloc_pkbs w" "pk_rtdst (fst (alloc_pkb n w)) = None"
  "pk_indev (fst (alloc_pkb n w)) = None" "pk_type (fst (alloc_pkb n w)) = PKT_NONE"
  by (simp_all add: alloc_pkb_def Let_def)

text \<open>A freshly allocated packet has one reference; releasing it frees it.\<close>

lemma alloc_then_free:
  assumes "free_pkbs w \<le> alloc_pkbs w"
  shows "free_pkbs (free_pkb (fst (alloc_pkb n w)) (snd (alloc_pkb n w))) = free_pkbs w + 1"
  using assms by (simp add: alloc_pkb_def free_pkb_def pkb_safe_def Let_def)

lemma get_then_free:
  assumes "0 < pk_refcnt w (pk_id p)"
  shows "free_pkb p (get_pkb p w) = w"
  using assms by (simp add: free_pkb_def get_pkb_def Let_def)

lemma netdev_tx_dst_ignored:
  "netdev_tx xmit dev pkb len proto dst = netdev_tx xmit dev pkb len proto dst'"
  by (rule ext) (simp add: netdev_tx_def)

text \<open>The static data of the stack when the process starts, before any initialisation.\<close>

definition bss :: net where
  "bss = \<lparr>devs = (\<lambda>_. zero_dev), tap_ipaddr = 0, lit_empty = replicate 6 0, rt_head = [],
     arp_cache = replicate 20 \<lparr>ae_list = [], ae_dev = None, ae_retry = 0, ae_ttl = 0,
       ae_state = ARP_FREE, ae_pro = 0, ae_ipaddr = 0, ae_hwaddr = replicate 6 0\<rparr>,
     arp_next = 0, frag_head = [], ipid = 0, alloc_pkbs = 0, free_pkbs = 0, pk_refcnt = (\<lambda>_. 0),
     exited = False, tap_out = []\<rparr>"

end
