(* ===== verification/Route.thy ===== *)
theory Route
  imports Netif
begin

text \<open>
  The routing table of \<^verbatim>\<open>tapip/ip/route.c\<close>: a list kept in descending order of the
  netmask word and searched front to back. The masks are compared as they lie in memory,
  that is as little-endian words in network order; \<open>prefix_mask_strict\<close> shows that this
  order is the order of prefix lengths, so that the search is longest prefix match.
\<close>

section \<open>The code\<close>

abbreviation (input) RT_NONE :: u32 where "RT_NONE \<equiv> 0"
abbreviation (input) RT_LOCALHOST :: u32 where "RT_LOCALHOST \<equiv> 1"
abbreviation (input) RT_DEFAULT :: u32 where "RT_DEFAULT \<equiv> 2"

definition rt_matches :: "rtentry \<Rightarrow> u32 \<Rightarrow> bool" where
  "rt_matches rt ipaddr \<longleftrightarrow> rt_netmask rt AND ipaddr = rt_netmask rt AND rt_net rt"

definition rt_lookup :: "u32 \<Rightarrow> 'a net_scheme \<Rightarrow> rtentry option" where
  "rt_lookup ipaddr w = find (\<lambda>rt. rt_matches rt ipaddr) (rt_head w)"

definition rt_alloc :: "u32 \<Rightarrow> u32 \<Rightarrow> u32 \<Rightarrow> int \<Rightarrow> u32 \<Rightarrow> devid \<Rightarrow> rtentry" where
  "rt_alloc net netmask gw metric flags dev =
     \<lparr>rt_net = net, rt_netmask = netmask, rt_gw = gw, rt_flags = flags, rt_metric = metric,
      rt_dev = dev\<rparr>"

text \<open>The search loop of \<^verbatim>\<open>rt_add\<close> with the insertion before the entry it stops at.\<close>

fun rt_insert :: "rtentry \<Rightarrow> rtentry list \<Rightarrow> rtentry list" where
  "rt_insert rt [] = [rt]"
| "rt_insert rt (rte # l) =
     (if rt_netmask rt \<ge> rt_netmask rte then rt # rte # l else rte # rt_insert rt l)"

definition rt_add ::
  "u32 \<Rightarrow> u32 \<Rightarrow> u32 \<Rightarrow> int \<Rightarrow> u32 \<Rightarrow> devid \<Rightarrow> 'a net_scheme \<Rightarrow> 'a net_scheme" where
  "rt_add net netmask gw metric flags dev w =
     w\<lparr>rt_head := rt_insert (rt_alloc net netmask gw metric flags dev) (rt_head w)\<rparr>"

text \<open>Topology 2 (the default of the Makefile): the default route goes to the tap address.\<close>

definition rt_init :: "'a net_scheme \<Rightarrow> 'a net_scheme" where
  "rt_init w =
     (let lo = devs w Loop; ve = devs w Veth;
          w1 = rt_add (LOCALNET lo) (net_mask lo) 0 0 RT_LOCALHOST Loop w;
          w2 = rt_add (net_ipaddr ve) 0xffffffff 0 0 RT_LOCALHOST Loop w1;
          w3 = rt_add (LOCALNET ve) (net_mask ve) 0 0 RT_NONE Veth w2
      in rt_add 0 0 (tap_ipaddr w3) 0 RT_DEFAULT Veth w3)"

text \<open>\<^verbatim>\<open>rt_output\<close>: \<open>None\<close> is the return value -1, with the packet untouched.\<close>

definition rt_output :: "pkbuf \<Rightarrow> 'a net_scheme \<Rightarrow> pkbuf option" where
  "rt_output pkb w =
     (case rt_lookup (ip_dst (pk_data pkb)) w of
        None \<Rightarrow> None
      | Some rt \<Rightarrow>
          Some (pkb\<lparr>pk_rtdst := Some rt,
                    pk_data := set_ip_src (net_ipaddr (devs w (rt_dev rt))) (pk_data pkb)\<rparr>))"

section \<open>Prefixes\<close>

text \<open>The netmask of a prefix of \<open>p\<close> bits, as it lies in memory.\<close>

definition prefix_mask :: "nat \<Rightarrow> u32" where
  "prefix_mask p = htonl (NOT (mask (32 - p)))"

definition prefix_route :: "rtentry \<Rightarrow> bool" where
  "prefix_route rt \<longleftrightarrow> (\<exists>p \<le> 32. rt_netmask rt = prefix_mask p)"

definition plen :: "rtentry \<Rightarrow> nat" where
  "plen rt = (LEAST p. rt_netmask rt = prefix_mask p)"

lemma prefix_mask_steps: "list_all (\<lambda>p. prefix_mask p < prefix_mask (Suc p)) [0..<32]"
  by code_simp

lemma prefix_mask_strict: "p < q \<Longrightarrow> q \<le> 32 \<Longrightarrow> prefix_mask p < prefix_mask q"
proof (induction q)
  case (Suc q)
  have "prefix_mask q < prefix_mask (Suc q)"
    using prefix_mask_steps Suc.prems(2) by (auto simp: list_all_iff)
  then show ?case using Suc by (cases "p = q") auto
qed simp

lemma prefix_mask_mono_iff:
  "p \<le> 32 \<Longrightarrow> q \<le> 32 \<Longrightarrow> prefix_mask p \<le> prefix_mask q \<longleftrightarrow> p \<le> q"
  using prefix_mask_strict [of p q] prefix_mask_strict [of q p]
  by (metis le_neq_implies_less less_imp_le not_le order_refl)

lemma plen_prefix_mask:
  assumes "p \<le> 32" "rt_netmask rt = prefix_mask p"
  shows "plen rt = p"
  unfolding plen_def assms(2)
proof (rule Least_equality)
  fix q assume q: "prefix_mask p = prefix_mask q"
  show "p \<le> q"
  proof (cases "q \<le> 32")
    case True
    then show ?thesis using q assms(1) prefix_mask_mono_iff [of p q] by simp
  qed (use assms in simp)
qed simp

section \<open>The table\<close>

abbreviation rt_sorted :: "rtentry list \<Rightarrow> bool" where
  "rt_sorted l \<equiv> sorted_wrt (\<lambda>a b. rt_netmask a \<ge> rt_netmask b) l"

lemma set_rt_insert [simp]: "set (rt_insert rt l) = insert rt (set l)"
  by (induction l) auto

lemma rt_insert_sorted: "rt_sorted l \<Longrightarrow> rt_sorted (rt_insert rt l)"
  by (induction l) (auto simp: not_le)

lemma rt_head_rt_add [simp]:
  "rt_head (rt_add n m g me f d w) = rt_insert (rt_alloc n m g me f d) (rt_head w)"
  by (simp add: rt_add_def)

lemma find_first_sorted:
  assumes "rt_sorted l" "find P l = Some rt"
  shows "P rt \<and> rt \<in> set l \<and> (\<forall>r \<in> set l. P r \<longrightarrow> rt_netmask r \<le> rt_netmask rt)"
  using assms by (induction l) (auto split: if_splits)

lemma rt_lookup_best:
  assumes "rt_sorted (rt_head w)" "rt_lookup a w = Some rt"
  shows "rt_matches rt a" "rt \<in> set (rt_head w)"
    "r \<in> set (rt_head w) \<Longrightarrow> rt_matches r a \<Longrightarrow> rt_netmask r \<le> rt_netmask rt"
  using find_first_sorted [OF assms(1)] assms(2) unfolding rt_lookup_def by blast+

lemma rt_lookup_None: "rt_lookup a w = None \<longleftrightarrow> (\<forall>r \<in> set (rt_head w). \<not> rt_matches r a)"
  by (auto simp: rt_lookup_def find_None_iff)

text \<open>
  What a client of a routing table relies on: adding keeps the table well formed and adds
  one route; a lookup fails only if nothing matches, and otherwise gives a matching route
  of maximal rank.
\<close>

locale routing =
  fixes look :: "'t \<Rightarrow> u32 \<Rightarrow> 'r option"
    and add :: "'r \<Rightarrow> 't \<Rightarrow> 't"
    and routes :: "'t \<Rightarrow> 'r set"
    and hits :: "'r \<Rightarrow> u32 \<Rightarrow> bool"
    and rank :: "'r \<Rightarrow> nat"
    and invar :: "'t \<Rightarrow> bool"
    and good :: "'r \<Rightarrow> bool"
  assumes add_invar: "invar t \<Longrightarrow> good r \<Longrightarrow> invar (add r t)"
    and add_routes: "routes (add r t) = insert r (routes t)"
    and look_None: "look t a = None \<longleftrightarrow> (\<forall>r \<in> routes t. \<not> hits r a)"
    and look_Some: "invar t \<Longrightarrow> look t a = Some r \<Longrightarrow>
      r \<in> routes t \<and> hits r a \<and> (\<forall>r' \<in> routes t. hits r' a \<longrightarrow> rank r' \<le> rank r)"
begin

lemma fold_add_invar: "invar t \<Longrightarrow> \<forall>r \<in> set rs. good r \<Longrightarrow> invar (fold add rs t)"
  by (induction rs arbitrary: t) (auto simp: add_invar)

lemma fold_add_routes: "routes (fold add rs t) = routes t \<union> set rs"
  by (induction rs arbitrary: t) (auto simp: add_routes)

text \<open>After any sequence of additions the lookup is the best match over all of them.\<close>

lemma built_table_best:
  assumes "invar t" "\<forall>r \<in> set rs. good r" "look (fold add rs t) a = Some r"
  shows "hits r a \<and> r \<in> routes t \<union> set rs \<and>
     (\<forall>r' \<in> routes t \<union> set rs. hits r' a \<longrightarrow> rank r' \<le> rank r)"
  using look_Some [OF fold_add_invar [OF assms(1,2)] assms(3)] by (simp add: fold_add_routes)

lemma default_total:
  assumes "r0 \<in> set rs" "\<forall>a. hits r0 a"
  shows "\<exists>r. look (fold add rs t) a = Some r"
  using look_None [of "fold add rs t" a] fold_add_routes [of rs t] assms by (cases "look (fold add rs t) a") auto

end

definition rt_invar :: "rtentry list \<Rightarrow> bool" where
  "rt_invar l \<longleftrightarrow> rt_sorted l \<and> (\<forall>r \<in> set l. prefix_route r)"

definition find_route :: "rtentry list \<Rightarrow> u32 \<Rightarrow> rtentry option" where
  "find_route l a = find (\<lambda>rt. rt_matches rt a) l"

lemma rt_lookup_find_route: "rt_lookup a w = find_route (rt_head w) a"
  by (simp add: rt_lookup_def find_route_def)

lemma prefix_route_le:
  assumes "prefix_route r" "prefix_route s" "rt_netmask r \<le> rt_netmask s"
  shows "plen r \<le> plen s"
proof -
  obtain p q where pq: "p \<le> 32" "rt_netmask r = prefix_mask p" "q \<le> 32" "rt_netmask s = prefix_mask q"
    using assms(1,2) by (auto simp: prefix_route_def)
  then have "p \<le> q" using assms(3) by (simp add: prefix_mask_mono_iff)
  then show ?thesis
    using plen_prefix_mask [OF pq(1,2)] plen_prefix_mask [OF pq(3,4)] by simp
qed

interpretation rt: routing find_route rt_insert set rt_matches plen rt_invar prefix_route
proof (unfold_locales, goal_cases)
  case (1 t r)
  then show ?case by (auto simp: rt_invar_def rt_insert_sorted)
next
  case (2 r t)
  show ?case by simp
next
  case (3 t a)
  show ?case by (auto simp: find_route_def find_None_iff)
next
  case (4 t a r)
  then show ?case
    using find_first_sorted [of t "\<lambda>rt. rt_matches rt a" r]
    by (auto simp: rt_invar_def find_route_def intro: prefix_route_le)
qed

section \<open>Properties\<close>

lemma top_mask: "(0xffffffff :: u32) \<le> m \<Longrightarrow> m = 0xffffffff"
  using uint_bounded [of m] by (simp add: word_le_def word_uint_eq_iff)

text \<open>C28. However the routes were added, a lookup in the table returns a matching route whose
  prefix is at least as long as that of every other matching route: longest prefix match.\<close>

theorem rt_longest_prefix:
  assumes "\<forall>r \<in> set rs. prefix_route r"
    and "rt_lookup a (w\<lparr>rt_head := fold rt_insert rs []\<rparr>) = Some r"
  shows "r \<in> set rs \<and> rt_matches r a \<and> (\<forall>r' \<in> set rs. rt_matches r' a \<longrightarrow> plen r' \<le> plen r)"
proof -
  have "rt_invar []" by (simp add: rt_invar_def)
  from rt.built_table_best [OF this assms(1)] show ?thesis
    using assms(2) by (simp add: rt_lookup_find_route)
qed

theorem rt_longest_prefix_witness:
  "let host = rt_alloc 0x0100000a (prefix_mask 32) 0 0 1 Loop;
       lan = rt_alloc 0x0000000a (prefix_mask 24) 0 0 0 Veth
   in rt_lookup 0x0100000a (bss\<lparr>rt_head := fold rt_insert [host, lan] []\<rparr>) = Some host \<and>
      rt_matches lan 0x0100000a \<and> plen lan \<le> plen host"
proof -
  let ?host = "rt_alloc 0x0100000a (prefix_mask 32) 0 0 1 Loop"
  let ?lan = "rt_alloc 0x0000000a (prefix_mask 24) 0 0 0 Veth"
  have good: "\<forall>r \<in> set [?host, ?lan]. prefix_route r"
    by (auto simp: prefix_route_def rt_alloc_def intro: exI [of _ 32] exI [of _ 24])
  have look: "rt_lookup 0x0100000a (bss\<lparr>rt_head := fold rt_insert [?host, ?lan] []\<rparr>) = Some ?host"
    by code_simp
  have "rt_matches ?lan 0x0100000a" by code_simp
  then show ?thesis using rt_longest_prefix [OF good look] look by (simp add: Let_def)
qed

text \<open>After \<^verbatim>\<open>rt_init\<close> on an empty table every address has a route, so that neither
  \<^verbatim>\<open>rt_input\<close> nor \<^verbatim>\<open>rt_output\<close> fails, and the address of the stack itself is delivered
  locally rather than sent to the link, unless the netmask of the link is a host mask.\<close>

theorem rt_init_total:
  assumes "rt_head w = []" "net_mask (devs w Veth) \<noteq> 0xffffffff"
  shows "(\<exists>r. rt_lookup a (rt_init w) = Some r) \<and>
     (\<exists>r. rt_lookup (net_ipaddr (devs w Veth)) (rt_init w) = Some r \<and> rt_flags r = RT_LOCALHOST)"
proof -
  let ?rs = "[rt_alloc (LOCALNET (devs w Loop)) (net_mask (devs w Loop)) 0 0 RT_LOCALHOST Loop,
     rt_alloc (net_ipaddr (devs w Veth)) 0xffffffff 0 0 RT_LOCALHOST Loop,
     rt_alloc (LOCALNET (devs w Veth)) (net_mask (devs w Veth)) 0 0 RT_NONE Veth,
     rt_alloc 0 0 (tap_ipaddr w) 0 RT_DEFAULT Veth]"
  have tab: "rt_head (rt_init w) = fold rt_insert ?rs []"
    using assms(1) by (simp add: rt_init_def Let_def rt_add_def)
  have "\<exists>r. find_route (fold rt_insert ?rs []) a = Some r"
    by (rule rt.default_total [of "?rs ! 3"]) (simp_all add: rt_matches_def rt_alloc_def)
  moreover have "\<exists>r. find_route (fold rt_insert ?rs []) (net_ipaddr (devs w Veth)) = Some r \<and>
      rt_flags r = RT_LOCALHOST"
    using assms(2) by (auto simp: find_route_def rt_alloc_def rt_matches_def dest: top_mask)
  ultimately show ?thesis by (simp add: rt_lookup_find_route tab)
qed

theorem rt_init_total_witness:
  "\<exists>r. rt_lookup 0x08080808 (rt_init (netdev_init 1500 0x0200000a bss)) = Some r"
  using rt_init_total [where w = "netdev_init 1500 0x0200000a bss" and a = "0x08080808"]
  by (simp add: netdev_init_def netdev_alloc_def veth_dev_init_def bss_def Let_def)

end
