(* ===== verification/Arp.thy ===== *)
theory Arp
  imports Route
begin

text \<open>
  Address resolution: the cache of \<^verbatim>\<open>tapip/arp/arp_cache.c\<close> (20 entries, allocated
  round robin, each free, waiting for a reply or resolved) and the protocol of
  \<^verbatim>\<open>tapip/arp/arp.c\<close>. A pointer to an entry is its index in the array. The mutex around
  the cache is not modelled: the functions run one at a time.
\<close>

section \<open>The cache\<close>

abbreviation (input) ARP_CACHE_SZ :: nat where "ARP_CACHE_SZ \<equiv> 20"
abbreviation (input) ARP_TIMEOUT :: int where "ARP_TIMEOUT \<equiv> 600"
abbreviation (input) ARP_WAITTIME :: int where "ARP_WAITTIME \<equiv> 1"
abbreviation (input) ARP_REQ_RETRY :: int where "ARP_REQ_RETRY \<equiv> 4"
abbreviation (input) ARP_OP_REQUEST :: u16 where "ARP_OP_REQUEST \<equiv> 1"
abbreviation (input) ARP_OP_REPLY :: u16 where "ARP_OP_REPLY \<equiv> 2"

definition BRD_HWADDR :: octets where
  "BRD_HWADDR = [0xff, 0xff, 0xff, 0xff, 0xff, 0xff]"

definition upd_ae :: "nat \<Rightarrow> (arpentry \<Rightarrow> arpentry) \<Rightarrow> 'a net_scheme \<Rightarrow> 'a net_scheme" where
  "upd_ae i f w = w\<lparr>arp_cache := (arp_cache w)[i := f (arp_cache w ! i)]\<rparr>"

definition arp_cache_init :: "'a net_scheme \<Rightarrow> 'a net_scheme" where
  "arp_cache_init w = w\<lparr>arp_cache := map (\<lambda>ae. ae\<lparr>ae_state := ARP_FREE\<rparr>) (arp_cache w)\<rparr>"

text \<open>
  The loop of \<^verbatim>\<open>arp_queue_send\<close>, one round per pending packet: the first packet leaves
  the list before it is transmitted. An entry in use has a device; without one the C code
  dereferences \<^verbatim>\<open>NULL\<close>, and the model transmits nothing.
\<close>

fun arp_queue_send_loop :: "nat \<Rightarrow> 'a xmit_fn \<Rightarrow> nat \<Rightarrow> 'a net_scheme \<Rightarrow> 'a net_scheme" where
  "arp_queue_send_loop 0 xmit i w = w"
| "arp_queue_send_loop (Suc n) xmit i w =
     (case ae_list (arp_cache w ! i) of
        [] \<Rightarrow> w
      | pkb # rest \<Rightarrow>
          (let w1 = upd_ae i (\<lambda>ae. ae\<lparr>ae_list := rest\<rparr>) w;
               ae = arp_cache w1 ! i;
               w2 = (case ae_dev ae of
                       None \<Rightarrow> w1
                     | Some d \<Rightarrow> netdev_tx xmit d pkb (pk_len pkb - int ETH_HRD_SZ) (pk_pro pkb)
                                   (ae_hwaddr ae) w1)
           in arp_queue_send_loop n xmit i w2))"

definition arp_queue_send :: "'a xmit_fn \<Rightarrow> nat \<Rightarrow> 'a net_scheme \<Rightarrow> 'a net_scheme" where
  "arp_queue_send xmit i w = arp_queue_send_loop (length (ae_list (arp_cache w ! i))) xmit i w"

definition arp_queue_drop :: "nat \<Rightarrow> 'a net_scheme \<Rightarrow> 'a net_scheme" where
  "arp_queue_drop i w =
     upd_ae i (\<lambda>ae. ae\<lparr>ae_list := []\<rparr>) (fold free_pkb (ae_list (arp_cache w ! i)) w)"

text \<open>The round-robin search of \<^verbatim>\<open>arp_alloc\<close>: where \<^verbatim>\<open>next\<close> stops, and whether it found one.\<close>

fun arp_scan :: "nat \<Rightarrow> nat \<Rightarrow> arpentry list \<Rightarrow> nat \<times> bool" where
  "arp_scan 0 nxt cache = (nxt, False)"
| "arp_scan (Suc n) nxt cache =
     (if ae_state (cache ! nxt) = ARP_FREE then (nxt, True)
      else arp_scan n ((nxt + 1) mod ARP_CACHE_SZ) cache)"

definition arp_alloc :: "'a net_scheme \<Rightarrow> nat option \<times> 'a net_scheme" where
  "arp_alloc w =
     (case arp_scan ARP_CACHE_SZ (arp_next w) (arp_cache w) of
        (nxt, False) \<Rightarrow> (None, w\<lparr>arp_next := nxt\<rparr>)
      | (nxt, True) \<Rightarrow>
          (Some nxt,
           (upd_ae nxt (\<lambda>ae. ae\<lparr>ae_dev := None, ae_retry := ARP_REQ_RETRY, ae_ttl := ARP_WAITTIME,
                                ae_state := ARP_WAITING, ae_pro := ETH_P_IP, ae_list := []\<rparr>) w)
             \<lparr>arp_next := (nxt + 1) mod ARP_CACHE_SZ\<rparr>))"

definition arp_insert ::
  "devid \<Rightarrow> u16 \<Rightarrow> u32 \<Rightarrow> octets \<Rightarrow> 'a net_scheme \<Rightarrow> int \<times> 'a net_scheme" where
  "arp_insert nd pro ipaddr hwaddr w =
     (case arp_alloc w of
        (None, w1) \<Rightarrow> (-1, w1)
      | (Some i, w1) \<Rightarrow>
          (0, upd_ae i (\<lambda>ae. ae\<lparr>ae_dev := Some nd, ae_pro := pro, ae_ttl := ARP_TIMEOUT,
                                ae_ipaddr := ipaddr, ae_state := ARP_RESOLVED,
                                ae_hwaddr := take 6 hwaddr\<rparr>) w1))"

definition ae_serves :: "u16 \<Rightarrow> u32 \<Rightarrow> arpentry \<Rightarrow> bool" where
  "ae_serves pro ipaddr ae \<longleftrightarrow> ae_state ae \<noteq> ARP_FREE \<and> ae_pro ae = pro \<and> ae_ipaddr ae = ipaddr"

definition arp_lookup :: "u16 \<Rightarrow> u32 \<Rightarrow> 'a net_scheme \<Rightarrow> nat option" where
  "arp_lookup pro ipaddr w =
     find (\<lambda>i. ae_serves pro ipaddr (arp_cache w ! i)) [0..<ARP_CACHE_SZ]"

text \<open>
  \<^verbatim>\<open>arp_lookup_resolv\<close> compares the protocol field, not the state, with
  \<^verbatim>\<open>ARP_RESOLVED\<close>, whose value is 3.
\<close>

definition arp_lookup_resolv :: "u16 \<Rightarrow> u32 \<Rightarrow> 'a net_scheme \<Rightarrow> nat option" where
  "arp_lookup_resolv pro ipaddr w =
     (case arp_lookup pro ipaddr w of
        None \<Rightarrow> None
      | Some i \<Rightarrow> if ae_pro (arp_cache w ! i) = 3 then Some i else None)"

section \<open>The protocol\<close>

definition arp_request :: "'a xmit_fn \<Rightarrow> nat \<Rightarrow> 'a net_scheme \<Rightarrow> 'a net_scheme" where
  "arp_request xmit i w =
     (let (pkb, w1) = alloc_pkb (ETH_HRD_SZ + ARP_HRD_SZ) w;
          ae = arp_cache w1 ! i
      in case ae_dev ae of
           None \<Rightarrow> w1
         | Some d \<Rightarrow>
             (let dev = devs w1 d;
                  b1 = wr16 14 (htons 1) (pk_data pkb);
                  b2 = wr16 16 (htons ETH_P_IP) b1;
                  b3 = wr8 18 6 b2;
                  b4 = wr8 19 4 b3;
                  b5 = wr16 20 (htons ARP_OP_REQUEST) b4;
                  b6 = wr32 28 (net_ipaddr dev) b5;
                  b7 = hwacpy 22 (net_hwaddr dev) b6;
                  b8 = wr32 38 (ae_ipaddr ae) b7;
                  b9 = hwacpy 32 BRD_HWADDR b8;
                  pkb1 = pkb\<lparr>pk_data := b9\<rparr>
              in netdev_tx xmit d pkb1 (pk_len pkb1 - int ETH_HRD_SZ) ETH_P_ARP BRD_HWADDR w1))"

definition arp_reply :: "'a xmit_fn \<Rightarrow> devid \<Rightarrow> pkbuf \<Rightarrow> 'a net_scheme \<Rightarrow> 'a net_scheme" where
  "arp_reply xmit d pkb w =
     (let dev = devs w d;
          b0 = pk_data pkb;
          b1 = wr16 20 ARP_OP_REPLY b0;
          b2 = hwacpy 32 (arp_sha b1) b1;
          b3 = wr32 38 (arp_sip b2) b2;
          b4 = hwacpy 22 (net_hwaddr dev) b3;
          b5 = wr32 28 (net_ipaddr dev) b4;
          b6 = arp_hton b5
      in netdev_tx xmit d (pkb\<lparr>pk_data := b6\<rparr>) (int ARP_HRD_SZ) ETH_P_ARP (eth_src b6) w)"

definition arp_recv :: "'a xmit_fn \<Rightarrow> devid \<Rightarrow> pkbuf \<Rightarrow> 'a net_scheme \<Rightarrow> 'a net_scheme" where
  "arp_recv xmit d pkb w =
     (let b = pk_data pkb in
      if MULTICAST (arp_tip b) then free_pkb pkb w
      else if arp_tip b \<noteq> net_ipaddr (devs w d) then free_pkb pkb w
      else
        (let w1 =
           (case arp_lookup (arp_pro b) (arp_sip b) w of
              Some i \<Rightarrow>
                (let w2 = upd_ae i (\<lambda>ae. ae\<lparr>ae_hwaddr := take 6 (arp_sha b)\<rparr>) w;
                     w3 = (if ae_state (arp_cache w2 ! i) = ARP_WAITING
                           then arp_queue_send xmit i w2 else w2)
                 in upd_ae i (\<lambda>ae. ae\<lparr>ae_state := ARP_RESOLVED, ae_ttl := ARP_TIMEOUT\<rparr>) w3)
            | None \<Rightarrow>
                if arp_op b = ARP_OP_REQUEST
                then snd (arp_insert d (arp_pro b) (arp_sip b) (arp_sha b) w) else w)
         in if arp_op b = ARP_OP_REQUEST then arp_reply xmit d pkb w1 else free_pkb pkb w1))"

definition arp_in :: "'a xmit_fn \<Rightarrow> devid \<Rightarrow> pkbuf \<Rightarrow> 'a net_scheme \<Rightarrow> 'a net_scheme" where
  "arp_in xmit d pkb w =
     (if pk_type pkb = PKT_OTHERHOST then free_pkb pkb w
      else if sz_less (pk_len pkb) (ETH_HRD_SZ + ARP_HRD_SZ) then free_pkb pkb w
      else if hwacmp (arp_sha (pk_data pkb)) (eth_src (pk_data pkb)) then free_pkb pkb w
      else
        (let b = arp_hton (pk_data pkb); pkb1 = pkb\<lparr>pk_data := b\<rparr> in
         if arp_hrd b \<noteq> 1 \<or> arp_pro b \<noteq> ETH_P_IP \<or> arp_hrdlen b \<noteq> 6 \<or> arp_prolen b \<noteq> 4
         then free_pkb pkb1 w
         else if arp_op b \<noteq> ARP_OP_REQUEST \<and> arp_op b \<noteq> ARP_OP_REPLY then free_pkb pkb1 w
         else arp_recv xmit d pkb1 w))"

text \<open>One entry of the loop of \<^verbatim>\<open>arp_timer\<close>.\<close>

definition arp_timer_entry ::
  "'a xmit_fn \<Rightarrow> int \<Rightarrow> nat \<Rightarrow> 'a net_scheme \<Rightarrow> 'a net_scheme" where
  "arp_timer_entry xmit delta i w =
     (let ae = arp_cache w ! i in
      if ae_state ae = ARP_FREE then w
      else
        (let ae1 = ae\<lparr>ae_ttl := ae_ttl ae - delta\<rparr>;
             w1 = upd_ae i (\<lambda>_. ae1) w
         in if ae_ttl ae1 > 0 then w1
            else
              (let waiting = (ae_state ae1 = ARP_WAITING);
                   ae2 = (if waiting then ae1\<lparr>ae_retry := ae_retry ae1 - 1\<rparr> else ae1);
                   w2 = upd_ae i (\<lambda>_. ae2) w1
               in if (waiting \<and> ae_retry ae2 < 0) \<or> ae_state ae2 = ARP_RESOLVED
                  then (let w3 = (if waiting then arp_queue_drop i w2 else w2)
                        in upd_ae i (\<lambda>ae. ae\<lparr>ae_state := ARP_FREE\<rparr>) w3)
                  else arp_request xmit i (upd_ae i (\<lambda>ae. ae\<lparr>ae_ttl := ARP_WAITTIME\<rparr>) w2))))"

definition arp_timer :: "'a xmit_fn \<Rightarrow> int \<Rightarrow> 'a net_scheme \<Rightarrow> 'a net_scheme" where
  "arp_timer xmit delta w = fold (arp_timer_entry xmit delta) [0..<ARP_CACHE_SZ] w"

section \<open>The contract of a driver\<close>

lemma ae_list_same [simp]: "ae_list e = l \<Longrightarrow> e\<lparr>ae_list := l\<rparr> = e"
  by (cases e) simp

text \<open>
  What address resolution relies on when it transmits: the driver leaves the tables of
  the stack alone. The driver of \<^verbatim>\<open>veth\<close> provides it.
\<close>

locale quiet_link =
  fixes xmit :: "'a xmit_fn"
  assumes xmit_arp: "arp_cache (xmit d p w) = arp_cache w" "arp_next (xmit d p w) = arp_next w"
    and xmit_rt: "rt_head (xmit d p w) = rt_head w"
    and xmit_frag: "frag_head (xmit d p w) = frag_head w"
    and xmit_addr: "net_ipaddr (devs (xmit d p w) d') = net_ipaddr (devs w d')"
    and xmit_mtu: "net_mtu (devs (xmit d p w) d') = net_mtu (devs w d')"
begin

lemma tx_tables [simp]:
  "arp_cache (netdev_tx xmit d p len pro dst w) = arp_cache w"
  "arp_next (netdev_tx xmit d p len pro dst w) = arp_next w"
  "rt_head (netdev_tx xmit d p len pro dst w) = rt_head w"
  "frag_head (netdev_tx xmit d p len pro dst w) = frag_head w"
  "net_ipaddr (devs (netdev_tx xmit d p len pro dst w) d') = net_ipaddr (devs w d')"
  "net_mtu (devs (netdev_tx xmit d p len pro dst w) d') = net_mtu (devs w d')"
  by (simp_all add: netdev_tx_def Let_def xmit_arp xmit_rt xmit_frag xmit_addr xmit_mtu)

lemma queue_send_loop_cache:
  "i < length (arp_cache w) \<Longrightarrow>
     arp_cache (arp_queue_send_loop n xmit i w) =
       (arp_cache w)[i := (arp_cache w ! i)\<lparr>ae_list := drop n (ae_list (arp_cache w ! i))\<rparr>]"
proof (induction n arbitrary: w)
  case (Suc n)
  show ?case
  proof (cases "ae_list (arp_cache w ! i)")
    case (Cons pkb rest)
    let ?w1 = "upd_ae i (\<lambda>ae. ae\<lparr>ae_list := rest\<rparr>) w"
    have "arp_cache ?w1 = (arp_cache w)[i := (arp_cache w ! i)\<lparr>ae_list := rest\<rparr>]"
      by (simp add: upd_ae_def)
    then show ?thesis using Suc Cons by (simp add: Let_def split: option.splits)
  qed simp
qed simp

lemma queue_send_cache:
  "i < length (arp_cache w) \<Longrightarrow>
     arp_cache (arp_queue_send xmit i w) = (arp_cache w)[i := (arp_cache w ! i)\<lparr>ae_list := []\<rparr>]"
  by (simp add: arp_queue_send_def queue_send_loop_cache)

lemma queue_send_loop_next [simp]: "arp_next (arp_queue_send_loop n xmit i w) = arp_next w"
  by (induction n arbitrary: w) (simp_all add: Let_def upd_ae_def split: list.splits option.splits)

lemma request_cache [simp]:
  "arp_cache (arp_request xmit i w) = arp_cache w" "arp_next (arp_request xmit i w) = arp_next w"
  by (simp_all add: arp_request_def Let_def split_beta split: option.splits)

lemma reply_cache [simp]:
  "arp_cache (arp_reply xmit d p w) = arp_cache w" "arp_next (arp_reply xmit d p w) = arp_next w"
  by (simp_all add: arp_reply_def Let_def)

end

lemma upd_stats_frame [simp]:
  "arp_cache (upd_stats d f w) = arp_cache w" "arp_next (upd_stats d f w) = arp_next w"
  "rt_head (upd_stats d f w) = rt_head w" "frag_head (upd_stats d f w) = frag_head w"
  "net_ipaddr (devs (upd_stats d f w) d') = net_ipaddr (devs w d')"
  "net_mtu (devs (upd_stats d f w) d') = net_mtu (devs w d')"
  "tap_out (upd_stats d f w) = tap_out w"
  by (simp_all add: upd_stats_def)

interpretation veth: quiet_link "veth_xmit tap_write"
  by unfold_locales (simp_all add: veth_xmit_def Let_def)

section \<open>The invariant of the cache\<close>

text \<open>
  Twenty entries; no two entries in use serve the same address; a resolved entry has no
  packet pending.
\<close>

definition cache_ok :: "arpentry list \<Rightarrow> bool" where
  "cache_ok c \<longleftrightarrow>
     length c = ARP_CACHE_SZ \<and>
     (\<forall>i < ARP_CACHE_SZ. \<forall>j < ARP_CACHE_SZ.
        ae_state (c ! i) \<noteq> ARP_FREE \<longrightarrow> ae_serves (ae_pro (c ! i)) (ae_ipaddr (c ! i)) (c ! j) \<longrightarrow> i = j) \<and>
     (\<forall>i < ARP_CACHE_SZ. ae_state (c ! i) = ARP_RESOLVED \<longrightarrow> ae_list (c ! i) = [])"

definition arp_ok :: "'a net_scheme \<Rightarrow> bool" where
  "arp_ok w \<longleftrightarrow> cache_ok (arp_cache w) \<and> arp_next w < ARP_CACHE_SZ"

lemma cache_ok_update:
  assumes "cache_ok c" "i < ARP_CACHE_SZ"
    and "ae_state e = ARP_RESOLVED \<Longrightarrow> ae_list e = []"
    and "\<And>j. ae_state e \<noteq> ARP_FREE \<Longrightarrow> j < ARP_CACHE_SZ \<Longrightarrow> j \<noteq> i \<Longrightarrow>
      \<not> ae_serves (ae_pro e) (ae_ipaddr e) (c ! j)"
  shows "cache_ok (c[i := e])"
  using assms unfolding cache_ok_def
  by (auto simp: nth_list_update ae_serves_def) blast+

text \<open>A change that keeps the state and the address of an entry in use, or frees it.\<close>

lemma cache_ok_same_key:
  assumes "cache_ok c" "i < ARP_CACHE_SZ"
    and "ae_state e = ARP_RESOLVED \<Longrightarrow> ae_list e = []"
    and "ae_state e = ARP_FREE \<or>
      (ae_state (c ! i) \<noteq> ARP_FREE \<and> ae_pro e = ae_pro (c ! i) \<and> ae_ipaddr e = ae_ipaddr (c ! i))"
  shows "cache_ok (c[i := e])"
  using assms(1-3)
proof (rule cache_ok_update)
  fix j assume "ae_state e \<noteq> ARP_FREE" "j < 20" "j \<noteq> i"
  then show "\<not> ae_serves (ae_pro e) (ae_ipaddr e) (c ! j)"
    using assms unfolding cache_ok_def by metis
qed auto

lemma find_upt_SomeD:
  "find P [0..<n] = Some i \<Longrightarrow> i < n \<and> P i"
  by (auto simp: find_Some_iff)

lemma arp_lookup_SomeD:
  "arp_lookup pro ip w = Some i \<Longrightarrow> i < ARP_CACHE_SZ \<and> ae_serves pro ip (arp_cache w ! i)"
  unfolding arp_lookup_def by (rule find_upt_SomeD)

lemma arp_lookup_NoneD:
  "arp_lookup pro ip w = None \<Longrightarrow> j < ARP_CACHE_SZ \<Longrightarrow> \<not> ae_serves pro ip (arp_cache w ! j)"
  by (auto simp: arp_lookup_def find_None_iff)

text \<open>The round-robin search visits every entry, so it fails only on a full cache.\<close>

lemma arp_scan_found:
  "arp_scan n k c = (i, True) \<Longrightarrow> k < ARP_CACHE_SZ \<Longrightarrow> i < ARP_CACHE_SZ \<and> ae_state (c ! i) = ARP_FREE"
  by (induction n arbitrary: k) (auto split: if_splits)

lemma arp_scan_missed:
  "arp_scan n k c = (i, False) \<Longrightarrow> m < n \<Longrightarrow> ae_state (c ! ((k + m) mod ARP_CACHE_SZ)) \<noteq> ARP_FREE"
  if "k < ARP_CACHE_SZ"
  using that
proof (induction n arbitrary: k m)
  case (Suc n)
  have step: "ae_state (c ! k) \<noteq> ARP_FREE" "arp_scan n ((k + 1) mod 20) c = (i, False)"
    using Suc.prems by (auto split: if_splits)
  show ?case
  proof (cases m)
    case 0
    then show ?thesis using step Suc.prems by simp
  next
    case (Suc m')
    have "ae_state (c ! (((k + 1) mod 20 + m') mod 20)) \<noteq> ARP_FREE"
      using Suc.IH [of "(k + 1) mod 20" m'] step Suc.prems Suc by simp
    then show ?thesis using Suc by (simp add: mod_add_left_eq)
  qed
qed simp

lemma arp_scan_next: "k < ARP_CACHE_SZ \<Longrightarrow> fst (arp_scan n k c) < ARP_CACHE_SZ"
  by (induction n arbitrary: k) auto

lemma arp_alloc_full:
  assumes "arp_next w < ARP_CACHE_SZ" "fst (arp_alloc w) = None" "j < ARP_CACHE_SZ"
  shows "ae_state (arp_cache w ! j) \<noteq> ARP_FREE"
proof -
  obtain i where scan: "arp_scan 20 (arp_next w) (arp_cache w) = (i, False)"
    using assms(2) by (auto simp: arp_alloc_def split: prod.splits bool.splits)
  let ?m = "(j + 20 - arp_next w) mod 20"
  have "(arp_next w + ?m) mod 20 = j"
    using assms(1,3) by (simp add: mod_add_right_eq)
  then show ?thesis using arp_scan_missed [OF assms(1) scan, of ?m] by simp
qed

text \<open>What a successful allocation does to the cache: one free entry becomes a waiting one.\<close>

lemma arp_alloc_SomeD:
  assumes "arp_alloc w = (Some i, w')" "arp_next w < ARP_CACHE_SZ"
  shows "i < ARP_CACHE_SZ" "ae_state (arp_cache w ! i) = ARP_FREE" "arp_next w' < ARP_CACHE_SZ"
    "arp_cache w' = (arp_cache w)[i := (arp_cache w ! i)
       \<lparr>ae_dev := None, ae_retry := ARP_REQ_RETRY, ae_ttl := ARP_WAITTIME, ae_state := ARP_WAITING,
        ae_pro := ETH_P_IP, ae_list := []\<rparr>]"
  using assms arp_scan_found [of 20 "arp_next w" "arp_cache w" i]
  by (auto simp: arp_alloc_def upd_ae_def split: prod.splits bool.splits)

lemma arp_alloc_NoneD:
  assumes "arp_alloc w = (None, w')" "arp_next w < ARP_CACHE_SZ"
  shows "arp_cache w' = arp_cache w" "arp_next w' < ARP_CACHE_SZ"
  using assms arp_scan_next [of "arp_next w" 20 "arp_cache w"]
  by (auto simp: arp_alloc_def split: prod.splits bool.splits)

lemma arp_insert_ok:
  assumes ok: "arp_ok w" and fresh: "arp_lookup pro ip w = None"
  shows "arp_ok (snd (arp_insert nd pro ip hw w))"
proof (cases "arp_alloc w")
  case (Pair r w1)
  show ?thesis
  proof (cases r)
    case None
    then show ?thesis
      using ok Pair arp_alloc_NoneD [of w w1] by (simp add: arp_insert_def arp_ok_def)
  next
    case (Some i)
    note alloc = arp_alloc_SomeD [of w i w1]
    have "cache_ok ((arp_cache w)[i := (arp_cache w1 ! i)
       \<lparr>ae_dev := Some nd, ae_pro := pro, ae_ttl := ARP_TIMEOUT, ae_ipaddr := ip,
        ae_state := ARP_RESOLVED, ae_hwaddr := take 6 hw\<rparr>])"
      using ok Pair Some alloc arp_lookup_NoneD [OF fresh]
      by (intro cache_ok_update) (auto simp: arp_ok_def cache_ok_def)
    then show ?thesis
      using ok Pair Some alloc by (simp add: arp_insert_def arp_ok_def upd_ae_def)
  qed
qed

text \<open>An inserted mapping is found again, with the address that was stored.\<close>

lemma arp_insert_lookup:
  assumes ok: "arp_ok w" and fresh: "arp_lookup pro ip w = None"
    and ins: "arp_insert nd pro ip hw w = (0, w')"
  shows "\<exists>i. arp_lookup pro ip w' = Some i \<and> ae_hwaddr (arp_cache w' ! i) = take 6 hw \<and>
     ae_state (arp_cache w' ! i) = ARP_RESOLVED \<and> ae_dev (arp_cache w' ! i) = Some nd"
proof -
  obtain i w1 where a: "arp_alloc w = (Some i, w1)"
    using ins by (cases "arp_alloc w") (auto simp: arp_insert_def split: option.splits)
  note alloc = arp_alloc_SomeD [OF a]
  have i: "i < 20" "length (arp_cache w) = 20"
    using ok alloc by (auto simp: arp_ok_def cache_ok_def)
  have w': "w' = snd (arp_insert nd pro ip hw w)" using ins by simp
  let ?e = "arp_cache w' ! i"
  have e: "ae_hwaddr ?e = take 6 hw" "ae_state ?e = ARP_RESOLVED" "ae_dev ?e = Some nd"
      "ae_pro ?e = pro" "ae_ipaddr ?e = ip"
    using a i alloc ok by (simp_all add: w' arp_insert_def upd_ae_def arp_ok_def)
  then have serves: "ae_serves pro ip ?e" by (simp add: ae_serves_def)
  have "arp_lookup pro ip w' \<noteq> None"
    using serves i by (auto simp: arp_lookup_def find_None_iff)
  then obtain k where k: "arp_lookup pro ip w' = Some k" by blast
  have "arp_ok w'" unfolding w' using arp_insert_ok [OF ok fresh] .
  then have "k = i"
    using arp_lookup_SomeD [OF k] serves i unfolding arp_ok_def cache_ok_def ae_serves_def by metis
  then show ?thesis using k e by blast
qed

lemma free_pkbs_frame [simp]:
  "arp_cache (fold free_pkb ps w) = arp_cache w" "arp_next (fold free_pkb ps w) = arp_next w"
  "rt_head (fold free_pkb ps w) = rt_head w" "frag_head (fold free_pkb ps w) = frag_head w"
  "devs (fold free_pkb ps w) = devs w" "tap_out (fold free_pkb ps w) = tap_out w"
  by (induction ps arbitrary: w) simp_all

definition ae_tick :: "int \<Rightarrow> arpentry \<Rightarrow> arpentry" where
  "ae_tick delta ae =
     (let t = ae_ttl ae - delta in
      if ae_state ae = ARP_FREE then ae
      else if t > 0 then ae\<lparr>ae_ttl := t\<rparr>
      else if ae_state ae = ARP_RESOLVED then ae\<lparr>ae_ttl := t, ae_state := ARP_FREE\<rparr>
      else if ae_retry ae - 1 < 0
      then ae\<lparr>ae_ttl := t, ae_retry := ae_retry ae - 1, ae_list := [], ae_state := ARP_FREE\<rparr>
      else ae\<lparr>ae_retry := ae_retry ae - 1, ae_ttl := ARP_WAITTIME\<rparr>)"

lemma tick_waiting:
  assumes "ae_state ae = ARP_WAITING" "ae_ttl ae \<le> 1" "int k \<le> ae_retry ae"
  shows "ae_state ((ae_tick 1 ^^ k) ae) = ARP_WAITING \<and> ae_ttl ((ae_tick 1 ^^ k) ae) \<le> 1 \<and>
     ae_retry ((ae_tick 1 ^^ k) ae) = ae_retry ae - int k \<and> ae_list ((ae_tick 1 ^^ k) ae) = ae_list ae"
  using assms by (induction k) (auto simp: ae_tick_def Let_def)

context quiet_link
begin

lemma recv_ok:
  assumes "arp_ok w"
  shows "arp_ok (arp_recv xmit d pkb w)"
proof -
  let ?b = "pk_data pkb"
  have hit: "arp_ok (upd_ae i (\<lambda>ae. ae\<lparr>ae_state := ARP_RESOLVED, ae_ttl := ARP_TIMEOUT\<rparr>)
      (if ae_state (arp_cache (upd_ae i (\<lambda>ae. ae\<lparr>ae_hwaddr := hw\<rparr>) w) ! i) = ARP_WAITING
       then arp_queue_send xmit i (upd_ae i (\<lambda>ae. ae\<lparr>ae_hwaddr := hw\<rparr>) w)
       else upd_ae i (\<lambda>ae. ae\<lparr>ae_hwaddr := hw\<rparr>) w))" (is "arp_ok ?w'")
    if "arp_lookup pro ip w = Some i" for i pro ip hw
  proof -
    let ?c = "arp_cache w"
    have i: "i < 20" "length ?c = 20" "ae_state (?c ! i) \<noteq> ARP_FREE"
      using arp_lookup_SomeD [OF that] assms by (auto simp: ae_serves_def arp_ok_def cache_ok_def)
    have "ae_state (?c ! i) \<noteq> ARP_WAITING \<Longrightarrow> ae_list (?c ! i) = []"
      using assms i by (cases "ae_state (?c ! i)") (auto simp: arp_ok_def cache_ok_def)
    then have "arp_cache ?w' = ?c[i := (?c ! i)\<lparr>ae_hwaddr := hw, ae_list := [],
        ae_state := ARP_RESOLVED, ae_ttl := ARP_TIMEOUT\<rparr>]"
      using i by (auto simp: upd_ae_def queue_send_cache)
    moreover have "cache_ok (?c[i := (?c ! i)\<lparr>ae_hwaddr := hw, ae_list := [],
        ae_state := ARP_RESOLVED, ae_ttl := ARP_TIMEOUT\<rparr>])"
      using assms i by (intro cache_ok_same_key) (auto simp: arp_ok_def)
    moreover have "arp_next ?w' = arp_next w"
      by (simp add: upd_ae_def arp_queue_send_def)
    ultimately show ?thesis using assms by (simp add: arp_ok_def)
  qed
  have reply: "arp_ok (arp_reply xmit d p w') = arp_ok w'" "arp_ok (free_pkb p w') = arp_ok w'"
    for p w' by (simp_all add: arp_ok_def)
  show ?thesis
  proof (cases "arp_lookup (arp_pro ?b) (arp_sip ?b) w")
    case None
    then show ?thesis
      using assms arp_insert_ok [OF assms None] by (simp add: arp_recv_def Let_def reply)
  next
    case (Some i)
    then show ?thesis using assms hit [OF Some] by (simp add: arp_recv_def Let_def reply)
  qed
qed

lemma in_ok: "arp_ok w \<Longrightarrow> arp_ok (arp_in xmit d pkb w)"
  using recv_ok by (simp add: arp_in_def Let_def arp_ok_def)

lemma timer_entry_cache:
  assumes "i < length (arp_cache w)" "0 < delta"
  shows "arp_cache (arp_timer_entry xmit delta i w) =
     (let ae = arp_cache w ! i; t = ae_ttl ae - delta in
      if ae_state ae = ARP_FREE then arp_cache w
      else if t > 0 then (arp_cache w)[i := ae\<lparr>ae_ttl := t\<rparr>]
      else if ae_state ae = ARP_RESOLVED then (arp_cache w)[i := ae\<lparr>ae_ttl := t, ae_state := ARP_FREE\<rparr>]
      else if ae_retry ae - 1 < 0
      then (arp_cache w)[i := ae\<lparr>ae_ttl := t, ae_retry := ae_retry ae - 1, ae_list := [],
                                ae_state := ARP_FREE\<rparr>]
      else (arp_cache w)[i := ae\<lparr>ae_retry := ae_retry ae - 1, ae_ttl := ARP_WAITTIME\<rparr>])"
  using assms
  by (cases "ae_state (arp_cache w ! i)")
    (simp_all add: arp_timer_entry_def Let_def upd_ae_def arp_queue_drop_def)

lemma timer_entry_next [simp]: "arp_next (arp_timer_entry xmit delta i w) = arp_next w"
  by (simp add: arp_timer_entry_def Let_def upd_ae_def arp_queue_drop_def)

lemma timer_entry_ok:
  assumes "arp_ok w" "i < ARP_CACHE_SZ" "0 < delta"
  shows "arp_ok (arp_timer_entry xmit delta i w)"
proof -
  let ?ae = "arp_cache w ! i"
  have c: "cache_ok (arp_cache w)" and i: "i < length (arp_cache w)" "i < 20"
    using assms by (simp_all add: arp_ok_def cache_ok_def)
  have r: "ae_list ?ae = []" if "ae_state ?ae = ARP_RESOLVED"
    using that c i by (simp add: cache_ok_def)
  have upd: "cache_ok ((arp_cache w)[i := e])"
    if "ae_state e = ARP_FREE \<or> ae_state e = ae_state ?ae" "ae_state ?ae \<noteq> ARP_FREE"
       "ae_pro e = ae_pro ?ae" "ae_ipaddr e = ae_ipaddr ?ae"
       "ae_list e = ae_list ?ae \<or> ae_state e = ARP_FREE" for e
    using that r by (intro cache_ok_same_key [OF c i(2)]) auto
  have "cache_ok (arp_cache (arp_timer_entry xmit delta i w))"
    unfolding timer_entry_cache [OF i(1) assms(3)] Let_def using c by (auto intro!: upd)
  then show ?thesis using assms by (simp add: arp_ok_def)
qed

lemma timer_ok:
  assumes "arp_ok w" "0 < delta"
  shows "arp_ok (arp_timer xmit delta w)"
proof -
  have "arp_ok (fold (arp_timer_entry xmit delta) is w)" if "set is \<subseteq> {..<20}" for "is"
    using that assms(1) by (induction "is" arbitrary: w) (auto intro: timer_entry_ok assms)
  then show ?thesis unfolding arp_timer_def by (rule meta_mp) auto
qed

text \<open>One tick in the abstract: what happens to a single entry, without the transmissions.\<close>

lemma timer_entry_tick:
  assumes "i < length (arp_cache w)" "0 < delta"
  shows "arp_cache (arp_timer_entry xmit delta i w) =
     (arp_cache w)[i := ae_tick delta (arp_cache w ! i)]"
  unfolding timer_entry_cache [OF assms] by (simp add: ae_tick_def Let_def)

lemma timer_prefix:
  assumes "n \<le> length (arp_cache w)" "0 < delta"
  shows "arp_cache (fold (arp_timer_entry xmit delta) [0..<n] w) =
     map (ae_tick delta) (take n (arp_cache w)) @ drop n (arp_cache w)"
  using assms(1)
proof (induction n)
  case (Suc n)
  then have n: "n < length (arp_cache w)" by simp
  have at: "(map (ae_tick delta) (take n (arp_cache w)) @ drop n (arp_cache w)) ! n = arp_cache w ! n"
    using n by (simp add: nth_append)
  have "arp_cache (fold (arp_timer_entry xmit delta) [0..<Suc n] w) =
      (map (ae_tick delta) (take n (arp_cache w)) @ drop n (arp_cache w))
        [n := ae_tick delta (arp_cache w ! n)]"
    using Suc n at by (simp add: timer_entry_tick assms(2))
  also have "\<dots> = map (ae_tick delta) (take (Suc n) (arp_cache w)) @ drop (Suc n) (arp_cache w)"
    using n by (simp add: list_update_append take_Suc_conv_app_nth Cons_nth_drop_Suc [symmetric])
  finally show ?case .
qed simp

lemma timer_map:
  assumes "arp_ok w" "0 < delta"
  shows "arp_cache (arp_timer xmit delta w) = map (ae_tick delta) (arp_cache w)"
  using timer_prefix [of 20 w delta] assms by (simp add: arp_timer_def arp_ok_def cache_ok_def)

lemma timer_pow:
  assumes "arp_ok w" "0 < delta" "i < ARP_CACHE_SZ"
  shows "arp_ok ((arp_timer xmit delta ^^ n) w) \<and>
     arp_cache ((arp_timer xmit delta ^^ n) w) ! i = (ae_tick delta ^^ n) (arp_cache w ! i)"
proof (induction n)
  case (Suc n)
  let ?w = "(arp_timer xmit delta ^^ n) w"
  have "length (arp_cache ?w) = 20" using Suc by (simp add: arp_ok_def cache_ok_def)
  then show ?case using Suc assms timer_ok [of ?w delta] timer_map [of ?w delta] by simp
qed (use assms in simp)

end

section \<open>Properties\<close>

lemma arp_cache_init_ok:
  "length (arp_cache w) = ARP_CACHE_SZ \<Longrightarrow> arp_next w < ARP_CACHE_SZ \<Longrightarrow> arp_ok (arp_cache_init w)"
  by (simp add: arp_ok_def cache_ok_def arp_cache_init_def)

lemma arp_alloc_ok:
  assumes "arp_ok w" "\<forall>i < ARP_CACHE_SZ. ae_state (arp_cache w ! i) = ARP_FREE"
  shows "arp_ok (snd (arp_alloc w))"
proof (cases "arp_alloc w")
  case (Pair r w1)
  show ?thesis
  proof (cases r)
    case (Some i)
    note a = arp_alloc_SomeD [of w i w1]
    have nx: "arp_next w < 20" and c: "cache_ok (arp_cache w)" using assms by (simp_all add: arp_ok_def)
    have "cache_ok (arp_cache w1)"
      using a Pair Some nx c assms(2)
      by (auto intro!: cache_ok_update simp: ae_serves_def)
    then show ?thesis using a Pair Some nx by (simp add: arp_ok_def)
  next
    case None
    then show ?thesis using arp_alloc_NoneD [of w w1] Pair assms by (simp add: arp_ok_def)
  qed
qed

text \<open>In a well-formed cache that has no entry for an address yet, an insertion that
  reports success is found again by the lookup: resolved, with the six octets of the hardware
  address and the device that were given.\<close>

theorem arp_insert_then_lookup:
  assumes "arp_ok w" "arp_lookup pro ip w = None" "arp_insert nd pro ip hw w = (0, w')"
  shows "\<exists>i. arp_lookup pro ip w' = Some i \<and> ae_hwaddr (arp_cache w' ! i) = take 6 hw \<and>
     ae_state (arp_cache w' ! i) = ARP_RESOLVED \<and> ae_dev (arp_cache w' ! i) = Some nd"
  using arp_insert_lookup [OF assms] .

theorem arp_insert_then_lookup_witness:
  "\<exists>i. arp_lookup ETH_P_IP 0x0200000a
          (snd (arp_insert Veth ETH_P_IP 0x0200000a [2, 0, 0, 0, 0, 9] (arp_cache_init bss))) = Some i"
proof -
  let ?w = "arp_cache_init bss"
  have ok: "arp_ok ?w" by (rule arp_cache_init_ok) (simp_all add: bss_def)
  have none: "arp_lookup ETH_P_IP 0x0200000a ?w = None" by code_simp
  have "fst (arp_insert Veth ETH_P_IP 0x0200000a [2, 0, 0, 0, 0, 9] ?w) = 0" by code_simp
  then have "arp_insert Veth ETH_P_IP 0x0200000a [2, 0, 0, 0, 0, 9] ?w =
      (0, snd (arp_insert Veth ETH_P_IP 0x0200000a [2, 0, 0, 0, 0, 9] ?w))"
    by (metis prod.collapse)
  from arp_insert_then_lookup [OF ok none this] show ?thesis by blast
qed

text \<open>The round-robin allocator refuses only when every entry of the cache is in use; an
  entry it hands out was free, is left waiting with an empty queue, and no other entry
  changes.\<close>

theorem arp_alloc_complete:
  assumes "arp_ok w"
  shows "(fst (arp_alloc w) = None \<longleftrightarrow> (\<forall>i < ARP_CACHE_SZ. ae_state (arp_cache w ! i) \<noteq> ARP_FREE)) \<and>
     (\<forall>i. fst (arp_alloc w) = Some i \<longrightarrow>
        i < ARP_CACHE_SZ \<and> ae_state (arp_cache w ! i) = ARP_FREE \<and>
        ae_state (arp_cache (snd (arp_alloc w)) ! i) = ARP_WAITING \<and>
        ae_list (arp_cache (snd (arp_alloc w)) ! i) = [] \<and>
        (\<forall>j. j \<noteq> i \<longrightarrow> arp_cache (snd (arp_alloc w)) ! j = arp_cache w ! j))"
proof -
  have ok: "arp_next w < 20" "length (arp_cache w) = 20"
    using assms by (simp_all add: arp_ok_def cache_ok_def)
  have free: "\<exists>i < 20. ae_state (arp_cache w ! i) = ARP_FREE" if "fst (arp_alloc w) \<noteq> None"
    using that ok arp_scan_found [of 20 "arp_next w" "arp_cache w"]
    by (auto simp: arp_alloc_def split: prod.splits bool.splits)
  have some: "i < 20 \<and> ae_state (arp_cache w ! i) = ARP_FREE \<and>
      arp_cache (snd (arp_alloc w)) = (arp_cache w)[i := (arp_cache w ! i)\<lparr>ae_dev := None,
        ae_retry := ARP_REQ_RETRY, ae_ttl := ARP_WAITTIME, ae_state := ARP_WAITING,
        ae_pro := ETH_P_IP, ae_list := []\<rparr>]" if "fst (arp_alloc w) = Some i" for i
    using that ok arp_scan_found [of 20 "arp_next w" "arp_cache w"]
    by (auto simp: arp_alloc_def upd_ae_def split: prod.splits bool.splits)
  have "fst (arp_alloc w) = None \<longleftrightarrow> (\<forall>i < ARP_CACHE_SZ. ae_state (arp_cache w ! i) \<noteq> ARP_FREE)"
    using free ok arp_alloc_full [of w] by blast
  then show ?thesis using some ok by (simp add: nth_list_update)
qed

theorem arp_alloc_complete_witness:
  "fst (arp_alloc (arp_cache_init bss)) \<noteq> None"
  using arp_alloc_complete [OF arp_cache_init_ok [of bss]]
  by (auto simp: bss_def arp_cache_init_def dest: spec [of _ "0::nat"])

text \<open>One tick of the timer acts on every entry of the cache independently, as the
  abstract tick of one entry, although every expired waiting entry sends a request on the
  way.\<close>

theorem arp_timer_refines_tick:
  assumes "arp_ok w" "0 < delta"
  shows "arp_cache (arp_timer (veth_xmit tap_write) delta w) = map (ae_tick delta) (arp_cache w) \<and>
     arp_ok (arp_timer (veth_xmit tap_write) delta w)"
  using veth.timer_map [OF assms] veth.timer_ok [OF assms] by blast

theorem arp_timer_refines_tick_witness:
  "arp_cache (arp_timer (veth_xmit (\<lambda>f. int (length f))) 1 (arp_cache_init bss)) =
     map (ae_tick 1) (arp_cache (arp_cache_init bss))"
  using arp_timer_refines_tick [OF arp_cache_init_ok [of bss], of 1 "\<lambda>f. int (length f)"]
  by (simp add: bss_def)

text \<open>An unanswered resolution ends: a waiting entry whose interval is over and that has
  \<open>r\<close> retries left keeps its queue for \<open>r\<close> one-second ticks and is free, with nothing queued,
  after one more. A fresh entry has four retries, so that it lasts five seconds.\<close>

theorem arp_waiting_expires:
  assumes "arp_ok w" "i < ARP_CACHE_SZ" "ae_state (arp_cache w ! i) = ARP_WAITING"
    and "ae_ttl (arp_cache w ! i) \<le> 1" "ae_retry (arp_cache w ! i) = int r"
  shows "(\<forall>k \<le> r. ae_state (arp_cache ((arp_timer (veth_xmit tap_write) 1 ^^ k) w) ! i) = ARP_WAITING \<and>
       ae_list (arp_cache ((arp_timer (veth_xmit tap_write) 1 ^^ k) w) ! i) = ae_list (arp_cache w ! i)) \<and>
     ae_state (arp_cache ((arp_timer (veth_xmit tap_write) 1 ^^ Suc r) w) ! i) = ARP_FREE \<and>
     ae_list (arp_cache ((arp_timer (veth_xmit tap_write) 1 ^^ Suc r) w) ! i) = []"
proof -
  let ?ae = "arp_cache w ! i"
  have pow: "arp_cache ((arp_timer (veth_xmit tap_write) 1 ^^ n) w) ! i = (ae_tick 1 ^^ n) ?ae" for n
    using veth.timer_pow [OF assms(1) _ assms(2)] by simp
  have "ae_tick 1 ((ae_tick 1 ^^ r) ?ae) = ((ae_tick 1 ^^ r) ?ae)\<lparr>
      ae_ttl := ae_ttl ((ae_tick 1 ^^ r) ?ae) - 1, ae_retry := -1, ae_list := [], ae_state := ARP_FREE\<rparr>"
    using tick_waiting [OF assms(3,4), of r] assms(5) by (simp add: ae_tick_def Let_def)
  then show ?thesis
    unfolding pow using tick_waiting [OF assms(3,4)] assms(5) by simp
qed

theorem arp_waiting_expires_witness:
  "ae_state (arp_cache ((arp_timer (veth_xmit (\<lambda>f. int (length f))) 1 ^^ 5)
       (snd (arp_alloc (arp_cache_init bss)))) ! 0) = ARP_FREE"
proof -
  let ?w = "snd (arp_alloc (arp_cache_init bss))"
  have "arp_ok ?w"
    by (intro arp_alloc_ok arp_cache_init_ok) (simp_all add: bss_def arp_cache_init_def)
  moreover have "ae_state (arp_cache ?w ! 0) = ARP_WAITING" "ae_ttl (arp_cache ?w ! 0) \<le> 1"
    "ae_retry (arp_cache ?w ! 0) = int 4" by code_simp+
  ultimately show ?thesis
    using arp_waiting_expires [of ?w 0 4 "\<lambda>f. int (length f)"] by (simp add: eval_nat_numeral)
qed

section \<open>A reply releases the queue\<close>

text \<open>The frame \<^verbatim>\<open>netdev_tx\<close> hands to the driver.\<close>

definition tx_frame :: "octets \<Rightarrow> netdev \<Rightarrow> int \<Rightarrow> u16 \<Rightarrow> octets \<Rightarrow> octets" where
  "tx_frame lit dev len proto b =
     take (nat (len + int ETH_HRD_SZ)) (hwacpy 6 (net_hwaddr dev) (hwacpy 0 lit (wr16 12 (htons proto) b)))"

lemma tx_frame_stats [simp]: "tx_frame lit (dev\<lparr>net_stats := st\<rparr>) = tx_frame lit dev"
  by (simp add: tx_frame_def fun_eq_iff)

lemma veth_tx:
  assumes "tap_write (tx_frame (lit_empty w) (devs w d) len proto (pk_data p)) = len + int ETH_HRD_SZ"
  shows "tap_out (netdev_tx (veth_xmit tap_write) d p len proto dst w) =
      tap_out w @ [tx_frame (lit_empty w) (devs w d) len proto (pk_data p)]"
    and "lit_empty (netdev_tx (veth_xmit tap_write) d p len proto dst w) = lit_empty w"
    and "\<exists>st. devs (netdev_tx (veth_xmit tap_write) d p len proto dst w) d = (devs w d)\<lparr>net_stats := st\<rparr>"
  using assms unfolding netdev_tx_def veth_xmit_def tx_frame_def Let_def
  by (simp_all add: upd_stats_def) (rule exI, rule refl)

lemma veth_queue_send_loop:
  assumes "i < length (arp_cache w)" "ae_dev (arp_cache w ! i) = Some d"
    and "\<And>f. tap_write f = int (length f)"
    and "\<forall>p \<in> set (ae_list (arp_cache w ! i)). pk_len p = int (length (pk_data p)) \<and> 14 \<le> pk_len p"
  shows "tap_out (arp_queue_send_loop (length (ae_list (arp_cache w ! i))) (veth_xmit tap_write) i w) =
     tap_out w @ map (\<lambda>p. tx_frame (lit_empty w) (devs w d) (pk_len p - 14) (pk_pro p) (pk_data p))
                    (ae_list (arp_cache w ! i))"
  using assms(1,2,4)
proof (induction "ae_list (arp_cache w ! i)" arbitrary: w)
  case (Cons p ps)
  let ?w1 = "upd_ae i (\<lambda>ae. ae\<lparr>ae_list := ps\<rparr>) w"
  let ?w2 = "netdev_tx (veth_xmit tap_write) d p (pk_len p - 14) (pk_pro p) (ae_hwaddr (arp_cache w ! i)) ?w1"
  have l: "ae_list (arp_cache w ! i) = p # ps" using Cons.hyps(2) by simp
  have w1: "arp_cache ?w1 ! i = (arp_cache w ! i)\<lparr>ae_list := ps\<rparr>" "devs ?w1 = devs w"
      "lit_empty ?w1 = lit_empty w" "tap_out ?w1 = tap_out w" "length (arp_cache ?w1) = length (arp_cache w)"
    using Cons.prems(1) by (simp_all add: upd_ae_def)
  have p: "pk_len p = int (length (pk_data p))" "14 \<le> pk_len p"
    using Cons.prems(3) l by simp_all
  have "tap_write (tx_frame (lit_empty ?w1) (devs ?w1 d) (pk_len p - 14) (pk_pro p) (pk_data p)) = pk_len p - 14 + int 14"
    using p by (simp add: assms(3) tx_frame_def hwacpy_def)
  note tx = veth_tx [where tap_write = tap_write, OF this]
  obtain st where st: "devs ?w2 d = (devs w d)\<lparr>net_stats := st\<rparr>"
    using tx(3) [of "ae_hwaddr (arp_cache w ! i)"] w1(2) by auto
  have IH: "tap_out (arp_queue_send_loop (length ps) (veth_xmit tap_write) i ?w2) =
      tap_out ?w2 @ map (\<lambda>p. tx_frame (lit_empty ?w2) (devs ?w2 d) (pk_len p - 14) (pk_pro p) (pk_data p)) ps"
  proof -
    have ps: "ps = ae_list (arp_cache ?w2 ! i)" by (simp add: w1(1))
    moreover have "i < length (arp_cache ?w2)" "ae_dev (arp_cache ?w2 ! i) = Some d"
      using Cons.prems(1,2) by (simp_all add: w1)
    moreover have "\<forall>p \<in> set ps. pk_len p = int (length (pk_data p)) \<and> 14 \<le> pk_len p"
      using Cons.prems(3) unfolding l by (meson list.set_intros(2))
    ultimately show ?thesis using Cons.hyps(1) [OF ps] by (metis (no_types, lifting))
  qed
  show ?case
    using IH tx(1,2) [of "ae_hwaddr (arp_cache w ! i)"] st w1 Cons.prems(2)
    by (simp add: Let_def l)
qed simp

text \<open>C30. A reply for an address that is being resolved sends every queued packet, in the order
  it was queued, on the device of the entry, and leaves the entry resolved with the sender's
  hardware address and an empty queue.\<close>

theorem arp_reply_releases_queue:
  assumes "arp_ok w" "\<And>f. tap_write f = int (length f)"
    and "\<not> MULTICAST (arp_tip (pk_data pkb))" "arp_tip (pk_data pkb) = net_ipaddr (devs w Veth)"
    and "arp_op (pk_data pkb) = ARP_OP_REPLY"
    and "arp_lookup (arp_pro (pk_data pkb)) (arp_sip (pk_data pkb)) w = Some i"
    and "ae_state (arp_cache w ! i) = ARP_WAITING" "ae_dev (arp_cache w ! i) = Some Veth"
    and "\<forall>p \<in> set (ae_list (arp_cache w ! i)). pk_len p = int (length (pk_data p)) \<and> 14 \<le> pk_len p"
  defines "w' \<equiv> arp_recv (veth_xmit tap_write) Veth pkb w"
  shows "tap_out w' = tap_out w @
      map (\<lambda>p. tx_frame (lit_empty w) (devs w Veth) (pk_len p - 14) (pk_pro p) (pk_data p))
          (ae_list (arp_cache w ! i)) \<and>
    arp_cache w' = (arp_cache w)[i := (arp_cache w ! i)\<lparr>ae_hwaddr := take 6 (arp_sha (pk_data pkb)),
      ae_list := [], ae_state := ARP_RESOLVED, ae_ttl := ARP_TIMEOUT\<rparr>]"
proof -
  let ?w1 = "upd_ae i (\<lambda>ae. ae\<lparr>ae_hwaddr := take 6 (arp_sha (pk_data pkb))\<rparr>) w"
  have i: "i < length (arp_cache w)"
    using assms(1) arp_lookup_SomeD [OF assms(6)] by (simp add: arp_ok_def cache_ok_def)
  have w1: "i < length (arp_cache ?w1)" "ae_dev (arp_cache ?w1 ! i) = Some Veth"
      "ae_list (arp_cache ?w1 ! i) = ae_list (arp_cache w ! i)" "devs ?w1 = devs w"
      "lit_empty ?w1 = lit_empty w" "tap_out ?w1 = tap_out w" "ae_state (arp_cache ?w1 ! i) = ARP_WAITING"
    using i assms(7,8) by (simp_all add: upd_ae_def)
  have "tap_out (arp_queue_send (veth_xmit tap_write) i ?w1) = tap_out w @
      map (\<lambda>p. tx_frame (lit_empty w) (devs w Veth) (pk_len p - 14) (pk_pro p) (pk_data p))
          (ae_list (arp_cache w ! i))"
    using veth_queue_send_loop [OF w1(1,2) assms(2), unfolded w1(3-6), OF assms(9)]
    by (simp add: arp_queue_send_def w1(3))
  moreover have "w' = free_pkb pkb (upd_ae i (\<lambda>ae. ae\<lparr>ae_state := ARP_RESOLVED, ae_ttl := ARP_TIMEOUT\<rparr>)
      (arp_queue_send (veth_xmit tap_write) i ?w1))"
    unfolding w'_def arp_recv_def using assms(3-7) w1(7) by (simp add: Let_def)
  moreover have "arp_cache (arp_queue_send (veth_xmit tap_write) i ?w1) =
      (arp_cache w)[i := (arp_cache w ! i)\<lparr>ae_hwaddr := take 6 (arp_sha (pk_data pkb)), ae_list := []\<rparr>]"
    using veth.queue_send_cache [OF w1(1)] i by (simp add: upd_ae_def)
  ultimately show ?thesis using i by (simp add: upd_ae_def)
qed

theorem arp_reply_releases_queue_witness:
  "\<exists>w i pkb. length (ae_list (arp_cache w ! i)) = 1 \<and>
     length (tap_out (arp_recv (veth_xmit (\<lambda>f. int (length f))) Veth pkb (w :: net))) = 1"
proof -
  let ?p = "\<lparr>pk_id = 0, pk_pro = ETH_P_IP, pk_type = PKT_NONE, pk_len = 20, pk_indev = None,
             pk_rtdst = None, pk_data = replicate 20 7\<rparr>"
  let ?start = "netdev_init 1500 0x0200000a (arp_cache_init bss)"
  let ?w = "upd_ae 0 (\<lambda>ae. ae\<lparr>ae_ipaddr := 0x0200000a, ae_dev := Some Veth, ae_list := [?p]\<rparr>)
              (snd (arp_alloc ?start))"
  let ?r = "\<lparr>pk_id = 1, pk_pro = ETH_P_ARP, pk_type = PKT_LOCALHOST, pk_len = 42, pk_indev = None,
             pk_rtdst = None, pk_data = replicate 14 0 @ [1, 0, 0, 8, 6, 4, 2, 0, 2, 0, 0, 0, 0, 9,
               10, 0, 0, 2, 0, 0x34, 0x45, 0x67, 0x89, 0xab, 10, 0, 0, 1]\<rparr>"
  have ok: "arp_ok ?w"
  proof -
    have nx: "arp_next (snd (arp_alloc ?start)) < 20" by code_simp
    have c: "arp_cache ?w = (arp_cache (arp_cache_init bss))[0 := \<lparr>ae_list = [?p], ae_dev = Some Veth,
        ae_retry = 4, ae_ttl = 1, ae_state = ARP_WAITING, ae_pro = ETH_P_IP, ae_ipaddr = 0x0200000a,
        ae_hwaddr = replicate 6 0\<rparr>]" by code_simp
    have "cache_ok (arp_cache (arp_cache_init bss))"
      using arp_cache_init_ok [of bss] by (simp add: arp_ok_def bss_def)
    then have "cache_ok (arp_cache ?w)"
      unfolding c by (rule cache_ok_update) (simp_all add: ae_serves_def arp_cache_init_def bss_def)
    then show ?thesis using nx by (simp add: arp_ok_def upd_ae_def)
  qed
  have look: "arp_lookup (arp_pro (pk_data ?r)) (arp_sip (pk_data ?r)) ?w = Some 0" by code_simp
  have "arp_tip (pk_data ?r) = net_ipaddr (devs ?w Veth)" "\<not> MULTICAST (arp_tip (pk_data ?r))"
    "arp_op (pk_data ?r) = ARP_OP_REPLY" "ae_state (arp_cache ?w ! 0) = ARP_WAITING"
    "ae_dev (arp_cache ?w ! 0) = Some Veth" by code_simp+
  moreover have l: "ae_list (arp_cache ?w ! 0) = [?p]" "tap_out ?w = []" by code_simp+
  ultimately have "length (tap_out (arp_recv (veth_xmit (\<lambda>f. int (length f))) Veth ?r ?w)) = 1"
    using arp_reply_releases_queue [where w = ?w and i = 0 and pkb = ?r and
        tap_write = "\<lambda>f. int (length f)", OF ok refl _ _ _ look] by simp
  then show ?thesis using l(1) by (intro exI [of _ ?w] exI [of _ 0] exI [of _ ?r]) simp
qed

end
