(* ===== verification/Ip_Out.thy ===== *)
theory Ip_Out
  imports Arp
begin

text \<open>
  The output path of IP: \<^verbatim>\<open>tapip/ip/ip_out.c\<close> and the sending half of
  \<^verbatim>\<open>tapip/ip/ip_frag.c\<close>. A packet that reaches \<^verbatim>\<open>ip_send_dev\<close> has a route; without
  one the C code dereferences \<^verbatim>\<open>NULL\<close>, and the model leaves the state as it is.
\<close>

section \<open>Delivery to the link\<close>

definition next_hop :: "rtentry \<Rightarrow> octets \<Rightarrow> u32" where
  "next_hop rt b =
     (if rt_flags rt AND RT_DEFAULT \<noteq> 0 \<or> rt_metric rt > 0 then rt_gw rt else ip_dst b)"

definition ip_send_dev :: "'a xmit_fn \<Rightarrow> devid \<Rightarrow> pkbuf \<Rightarrow> 'a net_scheme \<Rightarrow> 'a net_scheme" where
  "ip_send_dev xmit dev pkb w =
     (case pk_rtdst pkb of
        None \<Rightarrow> w
      | Some rt \<Rightarrow>
          if rt_flags rt AND RT_LOCALHOST \<noteq> 0
          then netdev_tx xmit dev pkb (pk_len pkb - int ETH_HRD_SZ) ETH_P_IP (net_hwaddr (devs w dev)) w
          else
            (let dst = next_hop rt (pk_data pkb) in
             case arp_lookup ETH_P_IP dst w of
               None \<Rightarrow>
                 (case arp_alloc w of
                    (None, w1) \<Rightarrow> free_pkb pkb w1
                  | (Some i, w1) \<Rightarrow>
                      arp_request xmit i
                        (upd_ae i (\<lambda>ae. ae\<lparr>ae_ipaddr := dst, ae_dev := Some dev,
                                           ae_list := ae_list ae @ [pkb]\<rparr>) w1))
             | Some i \<Rightarrow>
                 if ae_state (arp_cache w ! i) = ARP_WAITING
                 then upd_ae i (\<lambda>ae. ae\<lparr>ae_list := ae_list ae @ [pkb]\<rparr>) w
                 else netdev_tx xmit dev pkb (pk_len pkb - int ETH_HRD_SZ) ETH_P_IP
                        (ae_hwaddr (arp_cache w ! i)) w))"

section \<open>Fragmentation\<close>

text \<open>The octets of one fragment, as \<^verbatim>\<open>ip_frag\<close> builds them from the datagram \<open>orig\<close>.\<close>

definition frag_octets :: "octets \<Rightarrow> nat \<Rightarrow> nat \<Rightarrow> nat \<Rightarrow> u16 \<Rightarrow> octets" where
  "frag_octets orig hlen dlen off mf_bit =
     (let b0 = replicate (ETH_HRD_SZ + hlen + dlen) 0;
          b1 = memcpy_at ETH_HRD_SZ (sub_octets orig ETH_HRD_SZ hlen) b0;
          b2 = memcpy_at (ETH_HRD_SZ + hlen) (sub_octets orig (ETH_HRD_SZ + hlen + off) dlen) b1;
          b3 = set_ip_len (htons (of_nat (hlen + dlen))) b2;
          b4 = set_ip_fragoff (htons (mf_bit OR of_nat (off div 8))) b3
      in ip_set_checksum b4)"

definition ip_frag ::
  "pkbuf \<Rightarrow> octets \<Rightarrow> nat \<Rightarrow> nat \<Rightarrow> nat \<Rightarrow> u16 \<Rightarrow> 'a net_scheme \<Rightarrow> pkbuf \<times> 'a net_scheme" where
  "ip_frag pkb orig hlen dlen off mf_bit w =
     (let (fragpkb, w1) = alloc_pkb (ETH_HRD_SZ + hlen + dlen) w
      in (fragpkb\<lparr>pk_pro := pk_pro pkb, pk_type := pk_type pkb, pk_indev := pk_indev pkb,
                  pk_rtdst := pk_rtdst pkb, pk_data := frag_octets orig hlen dlen off mf_bit\<rparr>, w1))"

text \<open>
  The loop of \<^verbatim>\<open>ip_send_frag\<close>. Its step \<^verbatim>\<open>mlen\<close> is positive for every MTU of at least
  68 octets, the minimum Linux accepts for a device, since a header has at most 60; with a
  smaller MTU the C loop would not end, and the loop of the model stops.
\<close>

function send_frag_loop ::
  "'a xmit_fn \<Rightarrow> devid \<Rightarrow> pkbuf \<Rightarrow> nat \<Rightarrow> int \<Rightarrow> int \<Rightarrow> int \<Rightarrow> 'a net_scheme \<Rightarrow>
     int \<times> int \<times> 'a net_scheme" where
  "send_frag_loop xmit dev pkb hlen mlen dlen off w =
     (if dlen > mlen \<and> mlen > 0 then
        (let (fragpkb, w1) = ip_frag pkb (pk_data pkb) hlen (nat mlen) (nat off) IP_FRAG_MF w;
             w2 = ip_send_dev xmit dev fragpkb w1
         in send_frag_loop xmit dev pkb hlen mlen (dlen - mlen) (off + mlen) w2)
      else (dlen, off, w))"
  by pat_completeness auto
termination
  by (relation "measure (\<lambda>(xmit, dev, pkb, hlen, mlen, dlen, off, w). nat dlen)") auto

declare send_frag_loop.simps [simp del]

text \<open>
  \<^verbatim>\<open>(mtu - hlen) & ~7\<close> clears the three low bits, that is, subtracts the remainder by 8.
  The last fragment takes its flag from \<^verbatim>\<open>ip_fragoff\<close> as it stands, in network order.
\<close>

definition ip_send_frag :: "'a xmit_fn \<Rightarrow> devid \<Rightarrow> pkbuf \<Rightarrow> 'a net_scheme \<Rightarrow> 'a net_scheme" where
  "ip_send_frag xmit dev pkb w =
     (let b = pk_data pkb;
          hlen = iphlen b;
          dlen = uint (ntohs (ip_len b)) - int hlen;
          room = net_mtu (devs w dev) - int hlen;
          mlen = room - room mod 8;
          (rest, off, w1) = send_frag_loop xmit dev pkb hlen mlen dlen 0 w;
          w2 = (if rest \<noteq> 0
                then (let (fragpkb, w1') = ip_frag pkb b hlen (nat rest) (nat off)
                                             (ip_fragoff b AND IP_FRAG_MF) w1
                      in ip_send_dev xmit dev fragpkb w1')
                else w1)
      in free_pkb pkb w2)"

section \<open>Output of a datagram\<close>

definition ip_send_out :: "'a xmit_fn \<Rightarrow> pkbuf \<Rightarrow> 'a net_scheme \<Rightarrow> 'a net_scheme" where
  "ip_send_out xmit pkb w =
     (let pkb1 = pkb\<lparr>pk_pro := ETH_P_IP\<rparr>;
          routed = (case pk_rtdst pkb1 of None \<Rightarrow> rt_output pkb1 w | Some _ \<Rightarrow> Some pkb1)
      in case routed of
           None \<Rightarrow> free_pkb pkb1 w
         | Some pkb2 \<Rightarrow>
             (let pkb3 = pkb2\<lparr>pk_data := ip_set_checksum (pk_data pkb2)\<rparr>
              in case pk_rtdst pkb3 of
                   None \<Rightarrow> w
                 | Some rt \<Rightarrow>
                     if uint (ntohs (ip_len (pk_data pkb3))) > net_mtu (devs w (rt_dev rt))
                     then ip_send_frag xmit (rt_dev rt) pkb3 w
                     else ip_send_dev xmit (rt_dev rt) pkb3 w))"

definition ip_send_info ::
  "'a xmit_fn \<Rightarrow> pkbuf \<Rightarrow> u8 \<Rightarrow> u16 \<Rightarrow> u8 \<Rightarrow> u8 \<Rightarrow> u32 \<Rightarrow> 'a net_scheme \<Rightarrow> 'a net_scheme" where
  "ip_send_info xmit pkb tos len ttl pro dst w =
     (let b1 = set_ip_ver_hlen 4 5 (pk_data pkb);
          b2 = set_ip_tos tos b1;
          b3 = set_ip_len (htons len) b2;
          b4 = set_ip_id (htons (ipid w)) b3;
          b5 = set_ip_fragoff 0 b4;
          b6 = set_ip_ttl ttl b5;
          b7 = set_ip_pro pro b6;
          b8 = set_ip_dst dst b7
      in ip_send_out xmit (pkb\<lparr>pk_data := b8\<rparr>) (w\<lparr>ipid := ipid w + 1\<rparr>))"

section \<open>The ARP cache under output\<close>

lemma upd_ae_ok:
  assumes "arp_ok w" "i < ARP_CACHE_SZ" "ae_state (arp_cache w ! i) = ARP_WAITING"
  shows "arp_ok (upd_ae i (\<lambda>ae. ae\<lparr>ae_list := l\<rparr>) w)"
proof -
  have "cache_ok ((arp_cache w)[i := (arp_cache w ! i)\<lparr>ae_list := l\<rparr>])"
    using assms by (intro cache_ok_same_key) (auto simp: arp_ok_def)
  then show ?thesis using assms(1) by (simp add: arp_ok_def upd_ae_def)
qed

lemma arp_alloc_queue_ok:
  assumes ok: "arp_ok w" and fresh: "arp_lookup ETH_P_IP dst w = None" and a: "arp_alloc w = (Some i, w1)"
  shows "arp_ok (upd_ae i (\<lambda>ae. ae\<lparr>ae_ipaddr := dst, ae_dev := Some dev, ae_list := ae_list ae @ [p]\<rparr>) w1)"
proof -
  have nx: "arp_next w < ARP_CACHE_SZ" using ok by (simp add: arp_ok_def)
  note alloc = arp_alloc_SomeD [OF a nx]
  have "cache_ok ((arp_cache w)[i := (arp_cache w1 ! i)
      \<lparr>ae_ipaddr := dst, ae_dev := Some dev, ae_list := ae_list (arp_cache w1 ! i) @ [p]\<rparr>])"
    using ok alloc arp_lookup_NoneD [OF fresh]
    by (intro cache_ok_update) (auto simp: arp_ok_def cache_ok_def)
  then show ?thesis using alloc by (simp add: arp_ok_def upd_ae_def)
qed

context quiet_link
begin

lemma send_dev_ok:
  assumes "arp_ok w"
  shows "arp_ok (ip_send_dev xmit dev pkb w)"
proof -
  have frame: "arp_ok (netdev_tx xmit d p len pro dst w') = arp_ok w'" "arp_ok (free_pkb p w') = arp_ok w'"
    "arp_ok (arp_request xmit i w') = arp_ok w'" for d p len pro dst i w'
    by (simp_all add: arp_ok_def)
  have alloc: "arp_ok w1" if "arp_alloc w = (None, w1)" for w1
    using that arp_alloc_NoneD [of w w1] assms by (simp add: arp_ok_def)
  have wait: "arp_ok (upd_ae i (\<lambda>ae. ae\<lparr>ae_list := ae_list ae @ [pkb]\<rparr>) w)"
    if "arp_lookup ETH_P_IP dst w = Some i" "ae_state (arp_cache w ! i) = ARP_WAITING" for i dst
    using upd_ae_ok [OF assms, of i "ae_list (arp_cache w ! i) @ [pkb]"] arp_lookup_SomeD [OF that(1)] that(2)
    by (simp add: upd_ae_def)
  show ?thesis
    unfolding ip_send_dev_def Let_def
    using assms alloc wait arp_alloc_queue_ok [OF assms]
    by (auto simp: frame split: option.splits prod.splits)
qed

lemma pkb_ok:
  "arp_ok (free_pkb p w) = arp_ok w" "arp_ok (snd (alloc_pkb n w)) = arp_ok w"
  "arp_ok (snd (ip_frag p b h n f mf w)) = arp_ok w" "arp_ok (w\<lparr>ipid := x\<rparr>) = arp_ok w"
  by (simp_all add: arp_ok_def ip_frag_def split_beta)

lemma send_frag_loop_ok:
  "arp_ok w \<Longrightarrow> arp_ok (snd (snd (send_frag_loop xmit dev pkb hlen mlen dlen off w)))"
proof (induction "nat dlen" arbitrary: dlen off w rule: less_induct)
  case less
  let ?f = "ip_frag pkb (pk_data pkb) hlen (nat mlen) (nat off) IP_FRAG_MF w"
  have "arp_ok (ip_send_dev xmit dev (fst ?f) (snd ?f))"
    using less(2) by (intro send_dev_ok) (simp add: pkb_ok)
  then show ?case
    using less by (subst send_frag_loop.simps) (simp add: split_beta)
qed

lemma send_frag_ok: "arp_ok w \<Longrightarrow> arp_ok (ip_send_frag xmit dev pkb w)"
  using send_frag_loop_ok
  by (simp add: ip_send_frag_def Let_def split_beta pkb_ok send_dev_ok)

lemma send_out_ok: "arp_ok w \<Longrightarrow> arp_ok (ip_send_out xmit pkb w)"
  by (simp add: ip_send_out_def Let_def pkb_ok send_frag_ok send_dev_ok split: option.splits)

lemma send_info_ok: "arp_ok w \<Longrightarrow> arp_ok (ip_send_info xmit pkb tos len ttl pro dst w)"
  by (simp add: ip_send_info_def Let_def send_out_ok pkb_ok)

end

end
