(* ===== verification/Icmp.thy ===== *)
theory Icmp
  imports Ip_Out
begin

text \<open>
  ICMP (\<^verbatim>\<open>tapip/ip/icmp.c\<close>), the routing of received packets (\<^verbatim>\<open>rt_input\<close> of
  \<^verbatim>\<open>tapip/ip/route.c\<close>) and forwarding (\<^verbatim>\<open>tapip/ip/ip_forward.c\<close>). The debug output of
  the handlers is left out; \<^verbatim>\<open>icmp_redirect\<close> prints \<^verbatim>\<open>redirectstr[4]\<close>, one past the end,
  for the code 4.
\<close>

section \<open>The handler table\<close>

datatype icmp_handler =
  H_ECHO_REPLY | H_DEST_UNREACH | H_DROP_REPLY | H_REDIRECT | H_ECHO_REQUEST

record icmp_desc =
  desc_error :: bool
  desc_handler :: icmp_handler

abbreviation (input) ICMP_T_ECHORLY :: u8 where "ICMP_T_ECHORLY \<equiv> 0"
abbreviation (input) ICMP_T_DESTUNREACH :: u8 where "ICMP_T_DESTUNREACH \<equiv> 3"
abbreviation (input) ICMP_T_REDIRECT :: u8 where "ICMP_T_REDIRECT \<equiv> 5"
abbreviation (input) ICMP_T_ECHOREQ :: u8 where "ICMP_T_ECHOREQ \<equiv> 8"
abbreviation (input) ICMP_T_TIMEEXCEED :: u8 where "ICMP_T_TIMEEXCEED \<equiv> 11"
abbreviation (input) ICMP_T_MAXNUM :: u8 where "ICMP_T_MAXNUM \<equiv> 18"
abbreviation (input) ICMP_NET_UNREACH :: u8 where "ICMP_NET_UNREACH \<equiv> 0"
abbreviation (input) ICMP_PORT_UNREACH :: u8 where "ICMP_PORT_UNREACH \<equiv> 3"
abbreviation (input) ICMP_FRAG_NEEDED :: u8 where "ICMP_FRAG_NEEDED \<equiv> 4"
abbreviation (input) ICMP_REDIRECT_HOST :: u8 where "ICMP_REDIRECT_HOST \<equiv> 1"
abbreviation (input) ICMP_EXC_TTL :: u8 where "ICMP_EXC_TTL \<equiv> 0"
abbreviation (input) ICMP_EXC_FRAGTIME :: u8 where "ICMP_EXC_FRAGTIME \<equiv> 1"

definition icmp_table :: "icmp_desc list" where
  "icmp_table =
     (let dummy = \<lparr>desc_error = True, desc_handler = H_DROP_REPLY\<rparr>;
          err = \<lparr>desc_error = True, desc_handler = H_DROP_REPLY\<rparr>;
          query = \<lparr>desc_error = False, desc_handler = H_DROP_REPLY\<rparr>
      in [\<lparr>desc_error = False, desc_handler = H_ECHO_REPLY\<rparr>, dummy, dummy,
          \<lparr>desc_error = True, desc_handler = H_DEST_UNREACH\<rparr>, err,
          \<lparr>desc_error = True, desc_handler = H_REDIRECT\<rparr>, dummy, dummy,
          \<lparr>desc_error = False, desc_handler = H_ECHO_REQUEST\<rparr>, dummy, dummy, err, err,
          query, query, query, query, query, query])"

definition icmp_type_error :: "u8 \<Rightarrow> bool" where
  "icmp_type_error type = desc_error (icmp_table ! unat type)"

section \<open>Sending\<close>

definition icmp_send ::
  "'a xmit_fn \<Rightarrow> u8 \<Rightarrow> u8 \<Rightarrow> u32 \<Rightarrow> pkbuf \<Rightarrow> 'a net_scheme \<Rightarrow> 'a net_scheme" where
  "icmp_send xmit type code data pkb_in w =
     (let b = pk_data pkb_in;
          paylen = unat (ntohs (ip_len b));
          i = ipdata_off b
      in if paylen < iphlen b + 8 then w
         else if pk_type pkb_in \<noteq> PKT_LOCALHOST then w
         else if MULTICAST (ip_dst b) \<or> BROADCAST (ip_dst b) then w
         else if ip_fragoff b AND htons IP_FRAG_OFF \<noteq> 0 then w
         else if icmp_type_error type \<and> ip_pro b = IP_P_ICMP \<and>
                 (icmp_type i b > ICMP_T_MAXNUM \<or> icmp_type_error (icmp_type i b)) then w
         else
           (let paylen1 = (if IP_HRD_SZ + ICMP_HRD_SZ + paylen > 576
                           then 576 - IP_HRD_SZ - ICMP_HRD_SZ else paylen);
                (pkb, w1) = alloc_pkb (ETH_HRD_SZ + IP_HRD_SZ + ICMP_HRD_SZ + paylen1) w;
                h = ETH_HRD_SZ + IP_HRD_SZ;
                b1 = wr8 h type (pk_data pkb);
                b2 = wr8 (h + 1) code b1;
                b3 = wr16 (h + 2) 0 b2;
                b4 = wr32 (h + 4) data b3;
                b5 = memcpy_at (h + ICMP_HRD_SZ) (sub_octets b ETH_HRD_SZ paylen1) b4;
                b6 = wr16 (h + 2) (icmp_chksum (sub_octets b5 h (ICMP_HRD_SZ + paylen1))) b5
            in ip_send_info xmit (pkb\<lparr>pk_data := b6\<rparr>) 0 (of_nat (IP_HRD_SZ + ICMP_HRD_SZ + paylen1))
                 0 IP_P_ICMP (ip_src b) w1))"

section \<open>Receiving\<close>

definition icmp_dest_unreach :: "pkbuf \<Rightarrow> 'a net_scheme \<Rightarrow> 'a net_scheme" where
  "icmp_dest_unreach pkb w = free_pkb pkb w"

definition icmp_redirect :: "pkbuf \<Rightarrow> 'a net_scheme \<Rightarrow> 'a net_scheme" where
  "icmp_redirect pkb w = free_pkb pkb w"

definition icmp_echo_reply :: "pkbuf \<Rightarrow> 'a net_scheme \<Rightarrow> 'a net_scheme" where
  "icmp_echo_reply pkb w = free_pkb pkb w"

definition icmp_drop_reply :: "pkbuf \<Rightarrow> 'a net_scheme \<Rightarrow> 'a net_scheme" where
  "icmp_drop_reply pkb w = free_pkb pkb w"

text \<open>How \<^verbatim>\<open>icmp_echo_request\<close> turns a request into the reply: type, checksum, addresses.\<close>

definition echo_reply_octets :: "octets \<Rightarrow> octets" where
  "echo_reply_octets b =
     (let i = ipdata_off b;
          b1 = wr8 i ICMP_T_ECHORLY b;
          ck = icmp_cksum i b1;
          b2 = wr16 (i + 2) (if ck \<ge> 0xffff - 8 then ck + 9 else ck + 8) b1;
          b3 = set_ip_dst (ip_src b2) b2
      in ip_ntoh b3)"

definition icmp_echo_request :: "'a xmit_fn \<Rightarrow> pkbuf \<Rightarrow> 'a net_scheme \<Rightarrow> 'a net_scheme" where
  "icmp_echo_request xmit pkb w =
     (let b = pk_data pkb in
      if icmp_code (ipdata_off b) b \<noteq> 0 then free_pkb pkb w
      else ip_send_out xmit (pkb\<lparr>pk_data := echo_reply_octets b, pk_rtdst := None,
                                 pk_indev := None, pk_type := PKT_NONE\<rparr>) w)"

definition run_handler :: "icmp_handler \<Rightarrow> 'a xmit_fn \<Rightarrow> pkbuf \<Rightarrow> 'a net_scheme \<Rightarrow> 'a net_scheme" where
  "run_handler h xmit pkb w =
     (case h of
        H_ECHO_REPLY \<Rightarrow> icmp_echo_reply pkb w
      | H_DEST_UNREACH \<Rightarrow> icmp_dest_unreach pkb w
      | H_DROP_REPLY \<Rightarrow> icmp_drop_reply pkb w
      | H_REDIRECT \<Rightarrow> icmp_redirect pkb w
      | H_ECHO_REQUEST \<Rightarrow> icmp_echo_request xmit pkb w)"

text \<open>The length is not negative: \<^verbatim>\<open>ip_in\<close> has checked it.\<close>

definition icmp_in :: "'a xmit_fn \<Rightarrow> pkbuf \<Rightarrow> 'a net_scheme \<Rightarrow> 'a net_scheme" where
  "icmp_in xmit pkb w =
     (let b = pk_data pkb; i = ipdata_off b; icmplen = ipdlen b in
      if sz_less icmplen ICMP_HRD_SZ then free_pkb pkb w
      else if icmp_chksum (sub_octets b i (nat icmplen)) \<noteq> 0 then free_pkb pkb w
      else if icmp_type i b > ICMP_T_MAXNUM then free_pkb pkb w
      else run_handler (desc_handler (icmp_table ! unat (icmp_type i b))) xmit pkb w)"

section \<open>Routing of received packets, forwarding\<close>

definition rt_input :: "'a xmit_fn \<Rightarrow> pkbuf \<Rightarrow> 'a net_scheme \<Rightarrow> pkbuf option \<times> 'a net_scheme" where
  "rt_input xmit pkb w =
     (case rt_lookup (ip_dst (pk_data pkb)) w of
        None \<Rightarrow>
          (let pkb1 = pkb\<lparr>pk_data := ip_ntoh (pk_data pkb)\<rparr>;
               w1 = icmp_send xmit ICMP_T_DESTUNREACH ICMP_NET_UNREACH 0 pkb1 w
           in (None, free_pkb pkb1 w1))
      | Some rt \<Rightarrow> (Some (pkb\<lparr>pk_rtdst := Some rt\<rparr>), w))"

definition ip_forward :: "'a xmit_fn \<Rightarrow> pkbuf \<Rightarrow> 'a net_scheme \<Rightarrow> 'a net_scheme" where
  "ip_forward xmit pkb w =
     (case pk_rtdst pkb of
        None \<Rightarrow> w
      | Some rt \<Rightarrow>
          if ip_ttl (pk_data pkb) \<le> 1
          then free_pkb pkb (icmp_send xmit ICMP_T_TIMEEXCEED ICMP_EXC_TTL 0 pkb w)
          else
            (let b1 = set_ip_ttl (ip_ttl (pk_data pkb) - 1) (pk_data pkb);
                 b2 = ip_set_checksum b1;
                 pkb1 = pkb\<lparr>pk_data := b2\<rparr>;
                 dst = next_hop rt b2;
                 w1 = (if pk_indev pkb1 = Some (rt_dev rt)
                       then (case rt_lookup (ip_src b2) w of
                               None \<Rightarrow> w
                             | Some srt \<Rightarrow>
                                 if rt_metric srt = 0 \<and> equsubnet (rt_netmask srt) (ip_src b2) dst
                                 then icmp_send xmit ICMP_T_REDIRECT ICMP_REDIRECT_HOST dst pkb1 w
                                 else w)
                       else w)
             in if uint (ntohs (ip_len b2)) > net_mtu (devs w1 (rt_dev rt))
                then (if ip_fragoff b2 AND htons IP_FRAG_DF \<noteq> 0
                      then free_pkb pkb1 (icmp_send xmit ICMP_T_DESTUNREACH ICMP_FRAG_NEEDED 0 pkb1 w1)
                      else ip_send_frag xmit (rt_dev rt) pkb1 w1)
                else ip_send_dev xmit (rt_dev rt) pkb1 w1))"

section \<open>The checksum of an echo reply\<close>

lemma sub_octets_wr8_below: "k < off \<Longrightarrow> sub_octets (wr8 k v b) off n = sub_octets b off n"
  by (simp add: sub_octets_def wr8_def)

lemma sub_octets_wr_below:
  "k + 2 \<le> off \<Longrightarrow> sub_octets (wr16 k v b) off n = sub_octets b off n"
  "k + 4 \<le> off \<Longrightarrow> sub_octets (wr32 k x b) off n = sub_octets b off n"
  by (simp_all add: wr16_def wr32_def sub_octets_wr8_below)

lemma wr8_as_wr16: "rd8 b (Suc i) = 0 \<Longrightarrow> wr8 i 0 b = wr16 i 0 b"
proof -
  assume "rd8 b (Suc i) = 0"
  then have "b[Suc i := 0] = b"
    using list_update_id [of b "Suc i"] by (cases "Suc i < length b") (simp_all add: rd8_def list_update_beyond)
  then show ?thesis by (simp add: wr16_def wr8_def list_update_swap [of i "Suc i"])
qed

lemma echo_reply_region:
  assumes "IP_HRD_SZ \<le> iphlen b" "ICMP_HRD_SZ \<le> n" "ipdata_off b + n \<le> length b"
    and "icmp_code (ipdata_off b) b = 0"
  shows "sub_octets (echo_reply_octets b) (ipdata_off b) n =
     wr16 2 (let ck = icmp_cksum (ipdata_off b) b in if ck \<ge> 0xffff - 8 then ck + 9 else ck + 8)
       (wr16 0 0 (sub_octets b (ipdata_off b) n))"
proof -
  let ?i = "ipdata_off b"
  have i: "34 \<le> ?i" using assms(1) by (simp add: ipdata_off_def)
  have ck: "icmp_cksum ?i (wr16 ?i 0 b) = icmp_cksum ?i b" by (simp add: icmp_cksum_def octet_simps)
  have "wr8 ?i 0 b = wr16 ?i 0 b" using assms(4) by (intro wr8_as_wr16) (simp add: icmp_code_def)
  then show ?thesis
    using assms(2,3) i
    by (simp add: echo_reply_octets_def Let_def ip_ntoh_def set_ip_field_defs sub_octets_wr_below
        sub_octets_wr16 ck)
qed

lemma checksum_zero_iff:
  assumes "short_sum data < 2 ^ 32"
  shows "checksum data 0 = 0 \<longleftrightarrow> oc_fold (short_sum data) = 65535"
proof -
  have "uint (checksum data 0) = 65535 - oc_fold (short_sum data)"
    using assms short_sum_nonneg [of data] by (simp add: checksum_eq uint_sum_shorts)
  then show ?thesis by (metis diff_eq_eq diff_self add.left_neutral uint_0_iff)
qed

lemma oc_fold_top: "oc_fold x = 65535 \<longleftrightarrow> x \<noteq> 0 \<and> 65535 dvd x"
proof -
  have "(x - 1) mod 65535 = 65534 \<longleftrightarrow> 65535 dvd x - 65535"
    using mod_eq_dvd_iff [of "x - 1" 65535 65534] by simp
  also have "\<dots> \<longleftrightarrow> 65535 dvd x"
    using dvd_add [of 65535 "x - 65535" 65535] dvd_diff [of 65535 x 65535] by auto
  finally show ?thesis by (simp add: oc_fold_def)
qed

lemma echo_shorts:
  assumes "8 \<le> length d" "rd8 d 0 = 8" "rd8 d 1 = 0"
  defines "ck \<equiv> rd16 d 2"
  defines "d' \<equiv> wr16 2 (if ck \<ge> 0xffff - 8 then ck + 9 else ck + 8) (wr16 0 0 d)"
  shows "short_sum d' = (if ck \<ge> 0xffff - 8 then short_sum d - 65535 else short_sum d)"
proof -
  have first: "uint (rd16 d 0) = 8" using assms(2,3) by (simp add: rd16_def uint_mk16)
  have ck16: "rd16 (wr16 0 0 d) 2 = ck" by (simp add: ck_def octet_simps)
  have sum: "short_sum (wr16 2 v (wr16 0 0 d)) = short_sum d - 8 - uint ck + uint v" for v
    using short_sum_wr16 [of 2 "wr16 0 0 d" v] short_sum_wr16 [of 0 d 0] assms(1) first ck16 by simp
  have b: "0 \<le> uint ck" "uint ck < 65536" using uint_bounded [of ck] by simp_all
  show ?thesis
  proof (cases "ck \<ge> 0xffff - 8")
    case True
    then have "65527 \<le> uint ck" by (simp add: word_le_def)
    then have "(uint ck + 9) mod 65536 = uint ck - 65527"
      using b mod_add_self2 [of "uint ck - 65527" 65536] by (simp add: algebra_simps)
    then have "uint (ck + 9) = uint ck - 65527" by (simp add: uint_word_ariths)
    then show ?thesis using True sum by (simp add: d'_def)
  next
    case False
    then have "uint ck < 65527" by (simp add: word_le_def)
    then have "uint (ck + 8) = uint ck + 8" using b by (simp add: uint_word_ariths)
    then show ?thesis using False sum by (simp add: d'_def)
  qed
qed

lemma short_sum_pos: "x \<in> set d \<Longrightarrow> x \<noteq> 0 \<Longrightarrow> 0 < short_sum d"
proof (induction d rule: short_sum.induct)
  case (1 a b rest)
  have "0 < uint (mk16 a b)" if "a \<noteq> 0 \<or> b \<noteq> 0"
    using that unsigned_greater_eq [where ?'a = int, of a] unsigned_greater_eq [where ?'a = int, of b]
    by (auto simp: uint_mk16 word_neq_0_conv word_less_def intro: add_pos_nonneg add_nonneg_pos)
  then show ?case using 1 short_sum_nonneg [of rest] unsigned_greater_eq [where ?'a = int, of "mk16 a b"]
    by (auto intro: add_pos_nonneg add_nonneg_pos)
next
  case (2 a)
  then show ?case by (auto simp: word_neq_0_conv word_less_def)
qed simp

lemma short_sum_more:
  assumes "rd8 d k \<noteq> 0" "4 \<le> k"
  shows "uint (rd16 d 0) + uint (rd16 d 2) < short_sum d"
proof -
  have "k < length d" using assms(1) by (simp add: rd8_def split: if_splits)
  then have "Suc (Suc (Suc (Suc 0))) \<le> length d" using assms(2) by simp
  then obtain a b c e r where d: "d = a # b # c # e # r" by (auto simp: Suc_le_length_iff)
  then have "d ! k \<in> set r" using assms(2) \<open>k < length d\<close> by (auto simp: nth_Cons' split: if_splits)
  moreover have "d ! k \<noteq> 0" using assms(1) by (simp add: rd8_def split: if_splits)
  ultimately have "0 < short_sum r" by (rule short_sum_pos)
  then show ?thesis by (simp add: d rd16_def rd8_def)
qed

lemma echo_reply_checks:
  assumes "IP_HRD_SZ \<le> iphlen b" "ICMP_HRD_SZ \<le> n" "n \<le> 65535" "ipdata_off b + n \<le> length b"
    and "icmp_type (ipdata_off b) b = ICMP_T_ECHOREQ" "icmp_code (ipdata_off b) b = 0"
    and "icmp_chksum (sub_octets b (ipdata_off b) n) = 0"
    and "4 \<le> k" "k < n" "rd8 b (ipdata_off b + k) \<noteq> 0"
  shows "icmp_chksum (sub_octets (echo_reply_octets b) (ipdata_off b) n) = 0"
proof -
  let ?d = "sub_octets b (ipdata_off b) n"
  let ?d' = "sub_octets (echo_reply_octets b) (ipdata_off b) n"
  have len: "length ?d = n" using assms(4) by simp
  have at: "rd8 ?d k = rd8 b (ipdata_off b + k)" if "k < n" for k
    using that assms(4) by (simp add: rd8_def sub_octets_def)
  have hd: "rd8 ?d 0 = 8" "rd8 ?d 1 = 0" "rd16 ?d 2 = icmp_cksum (ipdata_off b) b"
    using assms(2,5,6) at [of 0] at [of 1] at [of 2] at [of 3]
    by (simp_all add: icmp_type_def icmp_code_def icmp_cksum_def rd16_def eval_nat_numeral)
  have sum': "short_sum ?d' =
      (if icmp_cksum (ipdata_off b) b \<ge> 0xffff - 8 then short_sum ?d - 65535 else short_sum ?d)"
    using echo_shorts [of ?d, unfolded hd(3)] hd(1,2) assms(2) len
    by (simp add: echo_reply_region [OF assms(1,2,4,6)] Let_def)
  have bound: "short_sum ?d < 2 ^ 32" using short_sum_bound [of ?d] len assms(3) by simp
  have bound': "short_sum ?d' < 2 ^ 32" using bound sum' by (simp split: if_splits)
  have "short_sum ?d \<noteq> 0 \<and> 65535 dvd short_sum ?d"
    using assms(7) checksum_zero_iff [OF bound] by (simp add: icmp_chksum_def oc_fold_top)
  moreover have "short_sum ?d \<noteq> 65535" if "icmp_cksum (ipdata_off b) b \<ge> 0xffff - 8"
  proof -
    have "rd8 ?d k \<noteq> 0" using at [of k] assms(9,10) by simp
    then have "uint (rd16 ?d 0) + uint (rd16 ?d 2) < short_sum ?d" using assms(8) by (intro short_sum_more)
    moreover have "uint (rd16 ?d 0) = 8" using hd(1,2) by (simp add: rd16_def uint_mk16)
    ultimately show ?thesis using that hd(3) by (simp add: word_le_def)
  qed
  ultimately have "short_sum ?d' \<noteq> 0 \<and> 65535 dvd short_sum ?d'"
    using sum' by simp
  then show ?thesis using bound'
    by (simp add: icmp_chksum_def checksum_zero_iff oc_fold_top)
qed

text \<open>If an echo request passes the receiver's checksum test, so does the reply built from
  it by adjusting the checksum instead of computing it anew, for every length, when any octet
  behind type, code and checksum is not zero.\<close>

theorem echo_reply_verifies:
  assumes "IP_HRD_SZ \<le> iphlen b" "ICMP_HRD_SZ \<le> n" "n \<le> 65535" "ipdata_off b + n \<le> length b"
    and "icmp_type (ipdata_off b) b = ICMP_T_ECHOREQ" "icmp_code (ipdata_off b) b = 0"
    and "icmp_chksum (sub_octets b (ipdata_off b) n) = 0"
    and "4 \<le> k" "k < n" "rd8 b (ipdata_off b + k) \<noteq> 0"
  shows "icmp_chksum (sub_octets (echo_reply_octets b) (ipdata_off b) n) = 0"
  using echo_reply_checks [OF assms] .

theorem echo_reply_verifies_witness:
  "let b = replicate 14 0 @ [0x45, 0, 0, 28, 0, 0, 0, 0, 64, 1, 0, 0, 10, 0, 0, 2, 10, 0, 0, 1] @
           [8, 0, 0xf7, 0xff, 0xff, 0xff, 0, 0]
   in icmp_chksum (sub_octets (echo_reply_octets b) (ipdata_off b) 8) = 0"
proof -
  let ?b = "replicate 14 0 @ [0x45, 0, 0, 28, 0, 0, 0, 0, 64, 1, 0, 0, 10, 0, 0, 2, 10, 0, 0, 1] @
           [8, 0, 0xf7, 0xff, 0xff, 0xff, 0, 0] :: octets"
  have "iphlen ?b = 20" "icmp_chksum (sub_octets ?b (ipdata_off ?b) 8) = 0"
    "icmp_type (ipdata_off ?b) ?b = 8" "icmp_code (ipdata_off ?b) ?b = 0" "ipdata_off ?b + 8 \<le> length ?b"
    "rd8 ?b (ipdata_off ?b + 4) \<noteq> 0"
    by code_simp+
  then show ?thesis using echo_reply_verifies [of ?b 8 4] by (simp only: Let_def) simp
qed

text \<open>The excluded case is real: an echo request with identifier 0, sequence number 0 and no
  data passes the test, and the reply the code builds from it fails it, because the checksum
  \<^verbatim>\<open>0xfff7\<close> is adjusted to 0 instead of \<^verbatim>\<open>0xffff\<close>.\<close>

theorem echo_reply_all_zero_fails:
  "let b = replicate 14 0 @ [0x45, 0, 0, 28, 0, 0, 0, 0, 64, 1, 0, 0, 10, 0, 0, 2, 10, 0, 0, 1] @
           [8, 0, 0xf7, 0xff, 0, 0, 0, 0]
   in icmp_chksum (sub_octets b (ipdata_off b) 8) = 0 \<and>
      icmp_chksum (sub_octets (echo_reply_octets b) (ipdata_off b) 8) = 0xffff"
  by code_simp

section \<open>The ARP cache under ICMP and forwarding\<close>

context quiet_link
begin

lemma icmp_send_ok: "arp_ok w \<Longrightarrow> arp_ok (icmp_send xmit type code data p w)"
  by (simp add: icmp_send_def Let_def split_beta send_info_ok pkb_ok)

lemma icmp_in_ok: "arp_ok w \<Longrightarrow> arp_ok (icmp_in xmit p w)"
  by (simp add: icmp_in_def Let_def run_handler_def icmp_echo_reply_def icmp_dest_unreach_def
      icmp_drop_reply_def icmp_redirect_def icmp_echo_request_def pkb_ok send_out_ok
      split: icmp_handler.splits)

lemma rt_input_ok: "arp_ok w \<Longrightarrow> arp_ok (snd (rt_input xmit p w))"
  by (simp add: rt_input_def Let_def pkb_ok icmp_send_ok split: option.splits)

lemma forward_ok: "arp_ok w \<Longrightarrow> arp_ok (ip_forward xmit p w)"
  by (simp add: ip_forward_def Let_def pkb_ok icmp_send_ok send_frag_ok send_dev_ok split: option.splits)

end

text \<open>The invariant of the ARP cache (no two entries in use for one address, no packet queued
  on a resolved entry, the allocation index in range) is kept by every operation that touches
  the cache: received ARP packets, the timer, output of datagrams of any size, received ICMP
  messages and forwarding.\<close>

theorem arp_cache_invariant:
  assumes "arp_ok w" "0 < delta"
  shows "arp_ok (arp_in (veth_xmit tap_write) d p w) \<and> arp_ok (arp_timer (veth_xmit tap_write) delta w) \<and>
     arp_ok (ip_send_out (veth_xmit tap_write) p w) \<and> arp_ok (icmp_in (veth_xmit tap_write) p w) \<and>
     arp_ok (ip_forward (veth_xmit tap_write) p w)"
  using veth.in_ok [OF assms(1)] veth.timer_ok [OF assms] veth.send_out_ok [OF assms(1)]
    veth.icmp_in_ok [OF assms(1)] veth.forward_ok [OF assms(1)] by simp

theorem arp_cache_invariant_witness:
  "arp_ok (ip_forward (veth_xmit (\<lambda>f. int (length f))) (fst (alloc_pkb 60 bss)) (arp_cache_init bss))"
  using arp_cache_invariant [OF arp_cache_init_ok [of bss], of 1 "\<lambda>f. int (length f)"]
  by (simp add: bss_def)

end
