(* ===== verification/Ip_Frag.thy ===== *)
theory Ip_Frag
  imports Icmp "HOL-Library.Multiset"
begin

text \<open>
  Reassembly of IP datagrams: the receiving half of \<^verbatim>\<open>tapip/ip/ip_frag.c\<close>. The list
  \<^verbatim>\<open>frag_head\<close> holds the datagrams under reassembly by value; an operation that gets a
  pointer to one of them gets its position in the list here. The packets are in host order.
\<close>

section \<open>The code\<close>

abbreviation (input) FRAG_TIME :: int where "FRAG_TIME \<equiv> 30"

definition full_frag :: "fragment \<Rightarrow> bool" where
  "full_frag frag \<longleftrightarrow> frag_first_in frag \<and> frag_last_in frag \<and> frag_rsize frag = frag_size frag"

definition complete_frag :: "fragment \<Rightarrow> bool" where
  "complete_frag frag = frag_complete frag"

definition new_frag :: "octets \<Rightarrow> 'a net_scheme \<Rightarrow> 'a net_scheme" where
  "new_frag b w =
     w\<lparr>frag_head := \<lparr>frag_id = ip_id b, frag_src = ip_src b, frag_dst = ip_dst b, frag_pro = ip_pro b,
          frag_hlen = 0, frag_rsize = 0, frag_size = 0, frag_ttl = FRAG_TIME, frag_complete = False,
          frag_first_in = False, frag_last_in = False, frag_pkb = []\<rparr> # frag_head w\<rparr>"

definition delete_frag :: "nat \<Rightarrow> 'a net_scheme \<Rightarrow> 'a net_scheme" where
  "delete_frag i w =
     (let frag = frag_head w ! i;
          w1 = w\<lparr>frag_head := take i (frag_head w) @ drop (Suc i) (frag_head w)\<rparr>
      in fold free_pkb (frag_pkb frag) w1)"

text \<open>
  The copy loop of \<^verbatim>\<open>reass_frag\<close>. The header length of the first fragment is used for all
  of them; a copy past the end of the new packet makes the octets of the model longer, where C
  writes behind the allocation.
\<close>

fun copy_frags :: "nat \<Rightarrow> nat \<Rightarrow> pkbuf list \<Rightarrow> octets \<Rightarrow> octets" where
  "copy_frags hlen p [] buf = buf"
| "copy_frags hlen p (q # qs) buf =
     (let n = unat (ip_len (pk_data q)) - hlen
      in copy_frags hlen (p + n) qs
           (memcpy_at p (sub_octets (pk_data q) (ETH_HRD_SZ + hlen) n) buf))"

definition reass_frag :: "nat \<Rightarrow> 'a net_scheme \<Rightarrow> pkbuf option \<times> 'a net_scheme" where
  "reass_frag i w =
     (let frag = frag_head w ! i;
          hlen = nat (frag_hlen frag);
          len = frag_hlen frag + frag_size frag
      in if len > 65535 then (None, delete_frag i w)
         else
           (case frag_pkb frag of
              [] \<Rightarrow> (None, w)
            | fragpkb # _ \<Rightarrow>
                (let (pkb, w1) = alloc_pkb (ETH_HRD_SZ + nat len) w;
                     b1 = memcpy_at 0 (sub_octets (pk_data fragpkb) 0 (ETH_HRD_SZ + hlen)) (pk_data pkb);
                     b2 = set_ip_fragoff 0 b1;
                     b3 = set_ip_len (word_of_int len) b2;
                     b4 = copy_frags hlen (ETH_HRD_SZ + hlen) (frag_pkb frag) b3
                 in (Some (pkb\<lparr>pk_pro := ETH_P_IP, pk_data := b4\<rparr>), delete_frag i w1))))"

text \<open>
  The backward search of \<^verbatim>\<open>insert_frag\<close> for the place of a fragment: \<open>None\<close> if its offset
  is there already, otherwise the fragments before and behind the place.
\<close>

fun find_slot :: "int \<Rightarrow> pkbuf list \<Rightarrow> pkbuf list \<Rightarrow> (pkbuf list \<times> pkbuf list) option" where
  "find_slot off [] behind = Some ([], behind)"
| "find_slot off (e # es) behind =
     (if off = ipoff (pk_data e) then None
      else if off > ipoff (pk_data e) then Some (rev (e # es), behind)
      else find_slot off es (e # behind))"

text \<open>
  \<^verbatim>\<open>insert_frag\<close> returns 0 or -1, the fragment record it was given as it leaves it, and the
  state, in which a dropped packet is released.
\<close>

definition insert_frag ::
  "pkbuf \<Rightarrow> fragment \<Rightarrow> 'a net_scheme \<Rightarrow> int \<times> fragment \<times> 'a net_scheme" where
  "insert_frag pkb frag w =
     (let b = pk_data pkb;
          off = ipoff b;
          hlen = int (iphlen b);
          drop_it = (\<lambda>fr. (-1, fr, free_pkb pkb w));
          add_it = (\<lambda>fr pkbs.
            (let fr1 = fr\<lparr>frag_pkb := pkbs, frag_rsize := frag_rsize fr + (uint (ip_len b) - hlen)\<rparr>
             in (0, if full_frag fr1 then fr1\<lparr>frag_complete := True\<rparr> else fr1, w)))
      in if complete_frag frag then drop_it frag
         else if ip_fragoff b AND IP_FRAG_MF = 0
         then (if frag_last_in frag then drop_it frag
               else add_it (frag\<lparr>frag_last_in := True, frag_size := off + uint (ip_len b) - hlen\<rparr>)
                      (frag_pkb frag @ [pkb]))
         else
           (case find_slot off (rev (frag_pkb frag)) [] of
              None \<Rightarrow> drop_it frag
            | Some (before, behind) \<Rightarrow>
                if frag_hlen frag \<noteq> 0 \<and> frag_hlen frag \<noteq> hlen then drop_it frag
                else
                  (let fr1 = frag\<lparr>frag_hlen := hlen\<rparr>
                   in if before \<noteq> [] \<and>
                         ipoff (pk_data (last before)) + uint (ip_len (pk_data (last before))) - hlen > off
                      then drop_it fr1
                      else add_it (if off = 0 then fr1\<lparr>frag_first_in := True\<rparr> else fr1)
                             (before @ pkb # behind))))"

definition frag_matches :: "octets \<Rightarrow> fragment \<Rightarrow> bool" where
  "frag_matches b frag \<longleftrightarrow>
     frag_id frag = ip_id b \<and> frag_pro frag = ip_pro b \<and> frag_src frag = ip_src b \<and>
     frag_dst frag = ip_dst b"

definition lookup_frag :: "octets \<Rightarrow> 'a net_scheme \<Rightarrow> nat option" where
  "lookup_frag b w =
     find (\<lambda>i. frag_matches b (frag_head w ! i)) [0..<length (frag_head w)]"

definition ip_reass :: "pkbuf \<Rightarrow> 'a net_scheme \<Rightarrow> pkbuf option \<times> 'a net_scheme" where
  "ip_reass pkb w =
     (let (i, w1) = (case lookup_frag (pk_data pkb) w of
                       None \<Rightarrow> (0, new_frag (pk_data pkb) w)
                     | Some i \<Rightarrow> (i, w));
          (r, frag, w2) = insert_frag pkb (frag_head w1 ! i) w1;
          w3 = w2\<lparr>frag_head := (frag_head w2)[i := frag]\<rparr>
      in if r < 0 then (None, w3)
         else if complete_frag frag then reass_frag i w3
         else (None, w3))"

text \<open>
  The body of the loop of \<^verbatim>\<open>ip_timer\<close>, for the datagram at position \<open>i\<close>; the flag says that
  it was removed from the list, so that the next one has moved up to its position. An ICMP
  error has at most 576 octets and is not fragmented, so that sending it does not change the
  list.
\<close>

definition ip_timer_one :: "'a xmit_fn \<Rightarrow> int \<Rightarrow> nat \<Rightarrow> 'a net_scheme \<Rightarrow> bool \<times> 'a net_scheme" where
  "ip_timer_one xmit delta i w =
     (let frag = frag_head w ! i in
      if full_frag frag then (False, w)
      else
        (let frag1 = frag\<lparr>frag_ttl := frag_ttl frag - delta\<rparr>;
             w1 = w\<lparr>frag_head := (frag_head w)[i := frag1]\<rparr>
         in if frag_ttl frag1 \<le> 0
            then (case frag_pkb frag1 of
                    [] \<Rightarrow> (False, w1)
                  | pkb # _ \<Rightarrow>
                      (True, delete_frag i
                         (icmp_send xmit ICMP_T_TIMEEXCEED ICMP_EXC_FRAGTIME 0
                            (pkb\<lparr>pk_data := ip_ntoh (pk_data pkb)\<rparr>) w1)))
            else (False, w1)))"

fun ip_timer_loop :: "nat \<Rightarrow> 'a xmit_fn \<Rightarrow> int \<Rightarrow> nat \<Rightarrow> 'a net_scheme \<Rightarrow> 'a net_scheme" where
  "ip_timer_loop 0 xmit delta i w = w"
| "ip_timer_loop (Suc n) xmit delta i w =
     (let (deleted, w1) = ip_timer_one xmit delta i w
      in ip_timer_loop n xmit delta (if deleted then i else Suc i) w1)"

definition ip_timer :: "'a xmit_fn \<Rightarrow> int \<Rightarrow> 'a net_scheme \<Rightarrow> 'a net_scheme" where
  "ip_timer xmit delta w = ip_timer_loop (length (frag_head w)) xmit delta 0 w"

section \<open>Fragments of one datagram\<close>

text \<open>
  \<open>tiles hlen d off qs\<close>: the packets \<open>qs\<close> are the consecutive, non-empty pieces of the payload
  \<open>d\<close> from \<open>off\<close> on; all of them but the last have the flag \<^verbatim>\<open>IP_FRAG_MF\<close>, and all have a
  header of \<open>hlen\<close> octets.
\<close>

definition frag_len :: "nat \<Rightarrow> pkbuf \<Rightarrow> nat" where
  "frag_len hlen q = unat (ip_len (pk_data q)) - hlen"

fun tiles :: "nat \<Rightarrow> octets \<Rightarrow> nat \<Rightarrow> pkbuf list \<Rightarrow> bool" where
  "tiles hlen d off [] \<longleftrightarrow> off = length d"
| "tiles hlen d off (q # qs) \<longleftrightarrow>
     (let b = pk_data q; n = frag_len hlen q in
      ipoff b = int off \<and> 0 < n \<and> hlen \<le> unat (ip_len b) \<and> iphlen b = hlen \<and>
      off + n \<le> length d \<and>
      sub_octets b (ETH_HRD_SZ + hlen) n = sub_octets d off n \<and>
      (ip_fragoff b AND IP_FRAG_MF = 0 \<longleftrightarrow> qs = []) \<and> tiles hlen d (off + n) qs)"

definition same_datagram :: "pkbuf list \<Rightarrow> bool" where
  "same_datagram qs \<longleftrightarrow>
     (\<forall>q \<in> set qs. \<forall>r \<in> set qs. ip_id (pk_data q) = ip_id (pk_data r) \<and>
        ip_pro (pk_data q) = ip_pro (pk_data r) \<and> ip_src (pk_data q) = ip_src (pk_data r) \<and>
        ip_dst (pk_data q) = ip_dst (pk_data r))"

lemma tiles_bounds:
  "tiles hlen d off qs \<Longrightarrow> q \<in> set qs \<Longrightarrow>
     0 < frag_len hlen q \<and> hlen \<le> unat (ip_len (pk_data q)) \<and> iphlen (pk_data q) = hlen \<and>
     int off \<le> ipoff (pk_data q) \<and> ipoff (pk_data q) + int (frag_len hlen q) \<le> int (length d)"
  by (induction qs arbitrary: off) (fastforce simp: Let_def)+

lemma tiles_sorted:
  "tiles hlen d off qs \<Longrightarrow>
     sorted_wrt (\<lambda>q r. ipoff (pk_data q) + int (frag_len hlen q) \<le> ipoff (pk_data r)) qs"
  by (induction qs arbitrary: off) (auto simp: Let_def dest: tiles_bounds)

lemma tiles_sum: "tiles hlen d off qs \<Longrightarrow> off + sum_list (map (frag_len hlen) qs) = length d"
  by (induction qs arbitrary: off) (simp_all add: Let_def add.assoc [symmetric])

lemma tiles_at:
  "tiles hlen d off (xs @ q # ys) \<Longrightarrow>
     (ip_fragoff (pk_data q) AND IP_FRAG_MF = 0 \<longleftrightarrow> ys = []) \<and>
     (ipoff (pk_data q) = int off \<longleftrightarrow> xs = [])"
proof (induction xs arbitrary: off)
  case (Cons x xs)
  then have rest: "tiles hlen d (off + frag_len hlen x) (xs @ q # ys)" "0 < frag_len hlen x"
    by (simp_all add: Let_def)
  then show ?case using Cons.IH tiles_bounds [OF rest(1), of q] by auto
qed (simp add: Let_def)

lemma tiles_end:
  "tiles hlen d off (xs @ [q]) \<Longrightarrow> int (frag_len hlen q) + ipoff (pk_data q) = int (length d)"
  by (induction xs arbitrary: off) (auto simp: Let_def)

lemma tiles_distinct: "tiles hlen d off qs \<Longrightarrow> distinct qs"
proof (induction qs arbitrary: off)
  case (Cons q qs)
  then have "tiles hlen d (off + frag_len hlen q) qs" "ipoff (pk_data q) = int off" "0 < frag_len hlen q"
    by (simp_all add: Let_def)
  then show ?case using Cons.IH tiles_bounds [of hlen d "off + frag_len hlen q" qs q] by auto
qed simp

lemma frag_len_int: "hlen \<le> unat (ip_len (pk_data q)) \<Longrightarrow>
    uint (ip_len (pk_data q)) - int hlen = int (frag_len hlen q)"
  by (simp add: frag_len_def of_nat_diff)

lemma find_slot_sorted:
  "\<forall>q \<in> set before. ipoff (pk_data q) < off \<Longrightarrow> \<forall>q \<in> set behind. off < ipoff (pk_data q) \<Longrightarrow>
     find_slot off (rev (before @ behind)) acc = Some (before, behind @ acc)"
proof (induction behind arbitrary: acc rule: rev_induct)
  case Nil
  then show ?case
    by (cases "rev before") (auto simp: rev_eq_Cons_iff)
next
  case (snoc x xs)
  then show ?case by auto
qed

lemma sum_filter_full:
  fixes f :: "'b \<Rightarrow> nat"
  assumes "\<forall>q \<in> set qs. 0 < f q" "sum_list (map f (filter P qs)) = sum_list (map f qs)"
  shows "\<forall>q \<in> set qs. P q"
proof -
  have le: "sum_list (map f (filter P xs)) \<le> sum_list (map f xs)" for xs
    by (induction xs) auto
  have lt: "sum_list (map f (filter P xs)) < sum_list (map f xs)"
    if "\<forall>q \<in> set xs. 0 < f q" "q \<in> set xs" "\<not> P q" for q xs
    using that le by (induction xs) (auto simp: le_imp_less_Suc add_strict_mono add_le_less_mono
        intro: order.strict_trans1 [OF le])
  show ?thesis using lt [OF assms(1)] assms(2) by auto
qed

section \<open>Insertion keeps the fragments in order\<close>

definition frag_inv :: "nat \<Rightarrow> octets \<Rightarrow> pkbuf list \<Rightarrow> pkbuf set \<Rightarrow> fragment \<Rightarrow> bool" where
  "frag_inv hlen d qs S fr \<longleftrightarrow>
     frag_pkb fr = filter (\<lambda>q. q \<in> S) qs \<and>
     frag_rsize fr = int (sum_list (map (frag_len hlen) (filter (\<lambda>q. q \<in> S) qs))) \<and>
     frag_first_in fr = (hd qs \<in> S) \<and> frag_last_in fr = (last qs \<in> S) \<and>
     (last qs \<in> S \<longrightarrow> frag_size fr = int (length d)) \<and>
     frag_hlen fr \<in> {0, int hlen} \<and> (hd qs \<in> S \<longrightarrow> frag_hlen fr = int hlen) \<and>
     frag_complete fr = (set qs \<subseteq> S)"

lemma full_iff:
  assumes "tiles hlen d 0 qs" "frag_pkb fr = filter (\<lambda>q. q \<in> S) qs" "qs \<noteq> []"
    and "frag_rsize fr = int (sum_list (map (frag_len hlen) (filter (\<lambda>q. q \<in> S) qs)))"
    and "frag_first_in fr = (hd qs \<in> S)" "frag_last_in fr = (last qs \<in> S)"
    and "last qs \<in> S \<longrightarrow> frag_size fr = int (length d)"
  shows "full_frag fr \<longleftrightarrow> set qs \<subseteq> S"
proof
  assume "full_frag fr"
  then have "sum_list (map (frag_len hlen) (filter (\<lambda>q. q \<in> S) qs)) = sum_list (map (frag_len hlen) qs)"
    using assms tiles_sum [OF assms(1)] by (auto simp: full_frag_def)
  then show "set qs \<subseteq> S"
    using sum_filter_full [of qs "frag_len hlen"] tiles_bounds [OF assms(1)] by blast
next
  assume all: "set qs \<subseteq> S"
  then have "filter (\<lambda>q. q \<in> S) qs = qs" "hd qs \<in> S" "last qs \<in> S"
    using assms(3) by (auto simp: filter_id_conv)
  then show "full_frag fr"
    using assms tiles_sum [OF assms(1)] by (auto simp: full_frag_def)
qed

lemma insert_frag_step:
  assumes tiles: "tiles hlen d 0 qs" and two: "2 \<le> length qs" and inv: "frag_inv hlen d qs S fr"
    and p: "p \<in> set qs" "p \<notin> S" and hl: "0 < hlen"
  shows "\<exists>fr'. insert_frag p fr w = (0, fr', w) \<and> frag_inv hlen d qs (insert p S) fr' \<and>
     frag_id fr' = frag_id fr \<and> frag_src fr' = frag_src fr \<and> frag_dst fr' = frag_dst fr \<and>
     frag_pro fr' = frag_pro fr"
proof -
  obtain xs ys where qs: "qs = xs @ p # ys" using split_list [OF p(1)] by blast
  have dist: "p \<notin> set xs" "p \<notin> set ys" using tiles_distinct [OF tiles] qs by auto
  have old: "filter (\<lambda>q. q \<in> S) qs = filter (\<lambda>q. q \<in> S) xs @ filter (\<lambda>q. q \<in> S) ys"
    using p(2) qs by simp
  have "filter (\<lambda>q. q \<in> insert p S) zs = filter (\<lambda>q. q \<in> S) zs" if "p \<notin> set zs" for zs
    using that by (auto intro!: filter_cong)
  then have new: "filter (\<lambda>q. q \<in> insert p S) qs = filter (\<lambda>q. q \<in> S) xs @ p # filter (\<lambda>q. q \<in> S) ys"
    using dist qs by simp
  note new = new [unfolded insert_iff]
  note pb = tiles_bounds [OF tiles p(1)] and at = tiles_at [OF tiles [unfolded qs]]
  have order: "\<forall>q \<in> set xs. ipoff (pk_data q) + int (frag_len hlen q) \<le> ipoff (pk_data p)"
      "\<forall>q \<in> set ys. ipoff (pk_data p) < ipoff (pk_data q)"
    using tiles_sorted [OF tiles] pb unfolding qs by (fastforce simp: sorted_wrt_append)+
  have ends: "hd qs = p \<longleftrightarrow> xs = []" "last qs = p \<longleftrightarrow> ys = []" "qs \<noteq> []"
    using qs dist by (auto simp: hd_append split: if_splits)
  have live: "\<not> frag_complete fr" using inv p by (auto simp: frag_inv_def)
  have len: "uint (ip_len (pk_data p)) - int hlen = int (frag_len hlen p)"
    using pb by (simp add: frag_len_int)
  define mk where "mk f = (let f1 = f\<lparr>frag_pkb := filter (\<lambda>q. q \<in> insert p S) qs,
      frag_rsize := frag_rsize f + int (frag_len hlen p)\<rparr>
      in if full_frag f1 then f1\<lparr>frag_complete := True\<rparr> else f1)" for f :: fragment
  have mk: "frag_inv hlen d qs (insert p S) (mk f)"
    if "frag_first_in f = (hd qs \<in> insert p S)" "frag_last_in f = (last qs \<in> insert p S)"
       "last qs \<in> insert p S \<longrightarrow> frag_size f = int (length d)" "frag_hlen f \<in> {0, int hlen}"
       "hd qs \<in> insert p S \<longrightarrow> frag_hlen f = int hlen" "frag_rsize f = frag_rsize fr"
       "\<not> frag_complete f" for f
  proof -
    let ?f1 = "f\<lparr>frag_pkb := filter (\<lambda>q. q \<in> insert p S) qs,
      frag_rsize := frag_rsize f + int (frag_len hlen p)\<rparr>"
    have "frag_rsize ?f1 = int (sum_list (map (frag_len hlen) (filter (\<lambda>q. q \<in> insert p S) qs)))"
      using inv that(6) by (simp add: new old frag_inv_def)
    then have "full_frag ?f1 \<longleftrightarrow> set qs \<subseteq> insert p S"
      using that ends(3) by (intro full_iff [OF tiles]) simp_all
    then show ?thesis
      using that inv \<open>frag_rsize ?f1 = _\<close> by (auto simp: mk_def Let_def frag_inv_def)
  qed
  show ?thesis
  proof (cases "ys = []")
    case True
    then have "hd qs \<noteq> p" using ends two qs by auto
    let ?f = "fr\<lparr>frag_last_in := True, frag_size := int (length d)\<rparr>"
    have size: "ipoff (pk_data p) + uint (ip_len (pk_data p)) - int hlen = int (length d)"
    proof -
      have "int (frag_len hlen p) + ipoff (pk_data p) = int (length d)"
        using tiles_end [OF tiles [unfolded qs True]] .
      then show ?thesis using len by linarith
    qed
    have "insert_frag p fr w = (0, mk ?f, w)"
      using True at live inv pb p(2) ends len size
      by (simp add: insert_frag_def Let_def complete_frag_def mk_def new old frag_inv_def)
    moreover have "frag_inv hlen d qs (insert p S) (mk ?f)"
      using inv live True ends \<open>hd qs \<noteq> p\<close> by (intro mk) (auto simp: frag_inv_def)
    ultimately show ?thesis by (auto simp: mk_def Let_def)
  next
    case False
    let ?before = "filter (\<lambda>q. q \<in> S) xs" and ?behind = "filter (\<lambda>q. q \<in> S) ys"
    have lo: "ipoff (pk_data q) < ipoff (pk_data p)" if "q \<in> set xs" for q
      using order(1) that tiles_bounds [OF tiles, of q] qs by fastforce
    have slot: "find_slot (ipoff (pk_data p)) (rev (frag_pkb fr)) [] = Some (?before, ?behind)"
      using find_slot_sorted [of ?before "ipoff (pk_data p)" ?behind "[]"] lo order(2) inv old
      by (simp add: frag_inv_def)
    have gap: "\<not> (?before \<noteq> [] \<and> ipoff (pk_data (last ?before)) +
        uint (ip_len (pk_data (last ?before))) - int hlen > ipoff (pk_data p))"
    proof
      assume h: "?before \<noteq> [] \<and> ipoff (pk_data (last ?before)) +
        uint (ip_len (pk_data (last ?before))) - int hlen > ipoff (pk_data p)"
      then have "last ?before \<in> set xs" using last_in_set [of ?before] by auto
      then show False
        using h order(1) frag_len_int [of hlen "last ?before"] tiles_bounds [OF tiles, of "last ?before"] qs
        by fastforce
    qed
    let ?f = "if ipoff (pk_data p) = 0 then fr\<lparr>frag_hlen := int hlen, frag_first_in := True\<rparr>
      else fr\<lparr>frag_hlen := int hlen\<rparr>"
    have "insert_frag p fr w = (0, mk ?f, w)"
      using False at live inv pb p(2) ends len slot gap hl
      by (simp add: insert_frag_def Let_def complete_frag_def mk_def new frag_inv_def)
    moreover have "frag_inv hlen d qs (insert p S) (mk ?f)"
      using inv live False ends at by (intro mk) (auto simp: frag_inv_def)
    ultimately show ?thesis by (auto simp: mk_def Let_def)
  qed
qed

section \<open>Reassembly\<close>

lemma copy_frags_parts:
  assumes "tiles hlen d off qs" "length buf = a + length d"
  shows "copy_frags hlen (a + off) qs buf = take (a + off) buf @ drop off d"
  using assms
proof (induction qs arbitrary: off buf)
  case (Cons q qs)
  let ?n = "frag_len hlen q"
  let ?c = "sub_octets (pk_data q) (ETH_HRD_SZ + hlen) ?n"
  have t: "?c = sub_octets d off ?n" "off + ?n \<le> length d" "tiles hlen d (off + ?n) qs"
    using Cons.prems(1) by (simp_all add: Let_def)
  have len: "length ?c = ?n" using t(1,2) by simp
  let ?b = "memcpy_at (a + off) ?c buf"
  have b: "?b = take (a + off) buf @ ?c @ drop (a + off + ?n) buf"
    using len by (simp add: memcpy_at_def)
  have "copy_frags hlen (a + (off + ?n)) qs ?b = take (a + (off + ?n)) ?b @ drop (off + ?n) d"
    using Cons.IH [OF t(3), of ?b] Cons.prems(2) t(2) len by simp
  also have "take (a + (off + ?n)) ?b = take (a + off) buf @ ?c"
    using len Cons.prems(2) t(2) unfolding b by simp
  finally show ?case
    using t(1,2) by (simp add: Let_def frag_len_def [symmetric] add.assoc sub_octets_def
        drop_drop [symmetric] del: drop_drop)
      (metis add.commute append_take_drop_id drop_drop)
qed simp

text \<open>What the receiver holds while the fragments of one datagram arrive.\<close>

fun feed :: "pkbuf list \<Rightarrow> 'a net_scheme \<Rightarrow> pkbuf option list \<times> 'a net_scheme" where
  "feed [] w = ([], w)"
| "feed (p # ps) w = (let (r, w1) = ip_reass p w; (rs, w2) = feed ps w1 in (r # rs, w2))"

lemma wr16_append: "k + 1 < length h \<Longrightarrow> wr16 k v (h @ t) = wr16 k v h @ t"
  by (simp add: wr16_def wr8_def list_update_append1)

lemma lookup_frag_head: "frag_head w = fr # rest \<Longrightarrow> frag_matches b fr \<Longrightarrow> lookup_frag b w = Some 0"
  by (simp add: lookup_frag_def upt_conv_Cons del: upt_Suc)

lemma ip_reass_new:
  "lookup_frag (pk_data p) w = None \<Longrightarrow> ip_reass p w = ip_reass p (new_frag (pk_data p) w)"
proof -
  have "frag_head (new_frag (pk_data p) w) = hd (frag_head (new_frag (pk_data p) w)) # frag_head w"
    by (simp add: new_frag_def)
  from lookup_frag_head [OF this] have "lookup_frag (pk_data p) (new_frag (pk_data p) w) = Some 0"
    by (simp add: new_frag_def frag_matches_def)
  then show "lookup_frag (pk_data p) w = None \<Longrightarrow> ?thesis" by (simp add: ip_reass_def)
qed

definition joined :: "nat \<Rightarrow> octets \<Rightarrow> octets \<Rightarrow> octets" where
  "joined hlen d first =
     set_ip_len (of_nat (hlen + length d)) (set_ip_fragoff 0 (take (ETH_HRD_SZ + hlen) first)) @ d"

lemma reass_frag_joined:
  assumes tiles: "tiles hlen d 0 qs" and "qs \<noteq> []" and hl: "20 \<le> hlen" "hlen + length d \<le> 65535"
    and first: "ETH_HRD_SZ + hlen \<le> length (pk_data (hd qs))"
    and fr: "frag_head w = fr # rest" "frag_pkb fr = qs" "frag_hlen fr = int hlen" "frag_size fr = int (length d)"
  shows "\<exists>q w'. reass_frag 0 w = (Some q, w') \<and> pk_data q = joined hlen d (pk_data (hd qs)) \<and>
     frag_head w' = rest"
proof -
  obtain f fs where qs: "qs = f # fs" using assms(2) by (cases qs) auto
  let ?n = "ETH_HRD_SZ + (hlen + length d)"
  obtain pkb w1 where a: "alloc_pkb ?n w = (pkb, w1)" by (cases "alloc_pkb ?n w")
  have pkb: "pk_data pkb = replicate ?n 0" and w1: "frag_head w1 = frag_head w"
    using alloc_pkb_fields(2) [of ?n w] pkb_frame(18) [of ?n w] a by simp_all
  let ?h = "take (ETH_HRD_SZ + hlen) (pk_data f)"
  let ?b = "set_ip_len (of_nat (hlen + length d)) (set_ip_fragoff 0
      (memcpy_at 0 (sub_octets (pk_data f) 0 (ETH_HRD_SZ + hlen)) (pk_data pkb)))"
  have "memcpy_at 0 (sub_octets (pk_data f) 0 (ETH_HRD_SZ + hlen)) (pk_data pkb) = ?h @ replicate (length d) 0"
    using first qs by (simp add: memcpy_at_def sub_octets_def pkb min_def)
  then have b: "?b = set_ip_len (of_nat (hlen + length d)) (set_ip_fragoff 0 ?h) @ replicate (length d) 0"
    using hl first qs by (simp add: set_ip_field_defs wr16_append)
  have lb: "length ?b = 14 + hlen + length d" using first qs unfolding b by (simp add: min_def)
  have copy: "copy_frags hlen (14 + hlen) qs ?b = joined hlen d (pk_data f)"
    using copy_frags_parts [OF tiles, of ?b "14 + hlen"] lb first qs hl
    unfolding b by (simp add: joined_def)
  have len: "nat (int hlen + int (length d)) = hlen + length d" "word_of_int (int hlen + int (length d)) = (of_nat (hlen + length d) :: u16)"
    by simp_all
  have "reass_frag 0 w = (Some (pkb\<lparr>pk_pro := ETH_P_IP, pk_data := copy_frags hlen (14 + hlen) qs ?b\<rparr>),
      delete_frag 0 w1)"
    using hl fr qs a by (simp add: reass_frag_def Let_def add.assoc nat_add_distrib)
  moreover have "frag_head (delete_frag 0 w1) = rest"
    using fr(1) w1 by (simp add: delete_frag_def Let_def)
  ultimately show ?thesis using copy qs by auto
qed

lemma frag_inv_new: "qs \<noteq> [] \<Longrightarrow> frag_inv hlen d qs {} (hd (frag_head (new_frag b w)))"
  by (simp add: frag_inv_def new_frag_def)

lemma frag_matches_cong:
  "frag_id fr' = frag_id fr \<Longrightarrow> frag_src fr' = frag_src fr \<Longrightarrow> frag_dst fr' = frag_dst fr \<Longrightarrow>
     frag_pro fr' = frag_pro fr \<Longrightarrow> frag_matches b fr' = frag_matches b fr"
  by (simp add: frag_matches_def)

lemma feed_rest:
  assumes tiles: "tiles hlen d 0 qs" and two: "2 \<le> length qs"
    and hl: "20 \<le> hlen" "hlen + length d \<le> 65535"
    and first: "ETH_HRD_SZ + hlen \<le> length (pk_data (hd qs))"
    and "frag_head w = fr # rest" "frag_inv hlen d qs S fr" "\<forall>q \<in> set qs. frag_matches (pk_data q) fr"
    and "distinct ps" "ps \<noteq> []" "set ps = set qs - S" "S \<subseteq> set qs"
  shows "\<exists>q w'. feed ps w = (replicate (length ps - 1) None @ [Some q], w') \<and>
     pk_data q = joined hlen d (pk_data (hd qs)) \<and> frag_head w' = rest"
  using assms(6-)
proof (induction ps arbitrary: w fr S)
  case (Cons p ps)
  have p: "p \<in> set qs" "p \<notin> S" using Cons.prems(6) by auto
  obtain fr' where ins: "insert_frag p fr w = (0, fr', w)" "frag_inv hlen d qs (insert p S) fr'"
      "frag_id fr' = frag_id fr" "frag_src fr' = frag_src fr" "frag_dst fr' = frag_dst fr" "frag_pro fr' = frag_pro fr"
    using insert_frag_step [OF tiles two Cons.prems(2) p] hl(1) by auto
  have look: "lookup_frag (pk_data p) w = Some 0"
    using lookup_frag_head Cons.prems(1,3) p(1) by blast
  let ?w = "w\<lparr>frag_head := fr' # rest\<rparr>"
  have reass: "ip_reass p w = (if complete_frag fr' then reass_frag 0 ?w else (None, ?w))"
    using look ins(1) Cons.prems(1) by (simp add: ip_reass_def Let_def)
  have comp: "complete_frag fr' \<longleftrightarrow> ps = []"
  proof -
    have "complete_frag fr' \<longleftrightarrow> set qs \<subseteq> insert p S"
      using ins(2) by (simp add: frag_inv_def complete_frag_def)
    also have "\<dots> \<longleftrightarrow> set qs - S \<subseteq> {p}" by auto
    also have "\<dots> \<longleftrightarrow> set ps = {}"
      unfolding Cons.prems(6) [symmetric] using Cons.prems(4) by (cases ps) auto
    finally show ?thesis by simp
  qed
  show ?case
  proof (cases "ps = []")
    case True
    have ne: "qs \<noteq> []" using p(1) by auto
    have all: "set qs \<subseteq> insert p S" using Cons.prems(6) True by auto
    then have "filter (\<lambda>q. q = p \<or> q \<in> S) qs = qs" by (auto simp: filter_id_conv)
    moreover have "hd qs = p \<or> hd qs \<in> S" "last qs = p \<or> last qs \<in> S"
      using all hd_in_set [OF ne] last_in_set [OF ne] by blast+
    ultimately have "frag_pkb fr' = qs" "frag_hlen fr' = int hlen" "frag_size fr' = int (length d)"
      using ins(2) by (simp_all add: frag_inv_def)
    then obtain q w' where "reass_frag 0 ?w = (Some q, w')" "frag_head w' = rest"
        "pk_data q = joined hlen d (pk_data (hd qs))"
      using reass_frag_joined [OF tiles ne hl first, of ?w fr' rest] by auto
    then show ?thesis using comp True reass by simp
  next
    case False
    have "\<exists>q w'. feed ps ?w = (replicate (length ps - 1) None @ [Some q], w') \<and>
       pk_data q = joined hlen d (pk_data (hd qs)) \<and> frag_head w' = rest"
    proof (rule Cons.IH)
      show "frag_head ?w = fr' # rest" by simp
      show "frag_inv hlen d qs (insert p S) fr'" by (rule ins(2))
      show "\<forall>q \<in> set qs. frag_matches (pk_data q) fr'"
        using Cons.prems(3) frag_matches_cong [OF ins(3-6)] by simp
    qed (use Cons.prems p False in auto)
    then show ?thesis using comp False reass by (cases ps) (auto simp: Let_def)
  qed
qed simp

lemma reass_perm:
  assumes "tiles hlen d 0 qs" "2 \<le> length qs" "same_datagram qs" "mset ps = mset qs"
    and "IP_HRD_SZ \<le> hlen" "hlen + length d \<le> 65535" "ETH_HRD_SZ + hlen \<le> length (pk_data (hd qs))"
    and "lookup_frag (pk_data (hd qs)) w = None"
  shows "\<exists>q w'. feed ps w = (replicate (length ps - 1) None @ [Some q], w') \<and>
     pk_data q = set_ip_len (of_nat (hlen + length d))
        (set_ip_fragoff 0 (take (ETH_HRD_SZ + hlen) (pk_data (hd qs)))) @ d \<and>
     frag_head w' = frag_head w"
proof -
  have ps: "set ps = set qs" "distinct ps"
    using mset_eq_setD [OF assms(4)] mset_eq_imp_distinct_iff [OF assms(4)] tiles_distinct [OF assms(1)]
    by simp_all
  obtain p ps' where cons: "ps = p # ps'" using ps(1) assms(2) by (cases ps) auto
  have same: "frag_matches (pk_data q) f = frag_matches (pk_data r) f" if "q \<in> set qs" "r \<in> set qs" for q r f
  proof -
    have "ip_id (pk_data q) = ip_id (pk_data r) \<and> ip_pro (pk_data q) = ip_pro (pk_data r) \<and>
        ip_src (pk_data q) = ip_src (pk_data r) \<and> ip_dst (pk_data q) = ip_dst (pk_data r)"
      using assms(3) that unfolding same_datagram_def by blast
    then show ?thesis by (simp add: frag_matches_def)
  qed
  have hd: "hd qs \<in> set qs" using assms(2) by (intro hd_in_set) auto
  have p: "p \<in> set qs" using cons ps(1) by auto
  let ?w = "new_frag (pk_data p) w"
  let ?fr = "hd (frag_head ?w)"
  have none: "lookup_frag (pk_data p) w = None"
    using assms(8) same [OF p hd] by (simp add: lookup_frag_def)
  then have "feed ps w = feed ps ?w" by (simp add: cons ip_reass_new)
  moreover have "\<exists>q w'. feed ps ?w = (replicate (length ps - 1) None @ [Some q], w') \<and>
     pk_data q = joined hlen d (pk_data (hd qs)) \<and> frag_head w' = frag_head w"
  proof (rule feed_rest [OF assms(1,2,5,6,7), where fr = ?fr and S = "{}"])
    show "frag_head ?w = ?fr # frag_head w" by (simp add: new_frag_def)
    show "frag_inv hlen d qs {} ?fr" using hd by (intro frag_inv_new) auto
    show "\<forall>q \<in> set qs. frag_matches (pk_data q) ?fr"
    proof
      fix q assume "q \<in> set qs"
      have "frag_matches (pk_data p) ?fr" by (simp add: new_frag_def frag_matches_def)
      then show "frag_matches (pk_data q) ?fr" using same [OF p \<open>q \<in> set qs\<close>] by blast
    qed
  qed (use ps cons in auto)
  ultimately show ?thesis by (simp add: joined_def)
qed

text \<open>Reassembly: if the fragments of one datagram, cut into at least two consecutive pieces,
  arrive in any order and none of its fragments is held yet, nothing is delivered until the
  last of them arrives; then one packet is delivered, with the header of the first fragment,
  the total length, no fragment offset and the whole payload, and the reassembly list is as
  before.\<close>

theorem reassembly_any_order:
  assumes "tiles hlen d 0 qs" "2 \<le> length qs" "same_datagram qs" "mset ps = mset qs"
    and "IP_HRD_SZ \<le> hlen" "hlen + length d \<le> 65535" "ETH_HRD_SZ + hlen \<le> length (pk_data (hd qs))"
    and "lookup_frag (pk_data (hd qs)) w = None"
  shows "\<exists>q w'. feed ps w = (replicate (length ps - 1) None @ [Some q], w') \<and>
     pk_data q = set_ip_len (of_nat (hlen + length d))
        (set_ip_fragoff 0 (take (ETH_HRD_SZ + hlen) (pk_data (hd qs)))) @ d \<and>
     frag_head w' = frag_head w"
  using reass_perm [OF assms] .

theorem reassembly_any_order_witness:
  "let q1 = \<lparr>pk_id = 0, pk_pro = ETH_P_IP, pk_type = PKT_LOCALHOST, pk_len = 42, pk_indev = None,
         pk_rtdst = None, pk_data = replicate 14 0 @ [0x45, 0, 28, 0, 7, 0, 0, 0x20, 64, 17, 0, 0,
         10, 0, 0, 2, 10, 0, 0, 1] @ [1, 2, 3, 4, 5, 6, 7, 8]\<rparr>;
       q2 = \<lparr>pk_id = 1, pk_pro = ETH_P_IP, pk_type = PKT_LOCALHOST, pk_len = 35, pk_indev = None,
         pk_rtdst = None, pk_data = replicate 14 0 @ [0x45, 0, 21, 0, 7, 0, 1, 0, 64, 17, 0, 0,
         10, 0, 0, 2, 10, 0, 0, 1] @ [9]\<rparr>
   in \<exists>q w'. feed [q2, q1] bss = ([None, Some q], w') \<and> drop 34 (pk_data q) = [1, 2, 3, 4, 5, 6, 7, 8, 9]"
proof -
  let ?q1 = "\<lparr>pk_id = 0, pk_pro = ETH_P_IP, pk_type = PKT_LOCALHOST, pk_len = 42, pk_indev = None,
         pk_rtdst = None, pk_data = replicate 14 0 @ [0x45, 0, 28, 0, 7, 0, 0, 0x20, 64, 17, 0, 0,
         10, 0, 0, 2, 10, 0, 0, 1] @ [1, 2, 3, 4, 5, 6, 7, 8]\<rparr>"
  let ?q2 = "\<lparr>pk_id = 1, pk_pro = ETH_P_IP, pk_type = PKT_LOCALHOST, pk_len = 35, pk_indev = None,
         pk_rtdst = None, pk_data = replicate 14 0 @ [0x45, 0, 21, 0, 7, 0, 1, 0, 64, 17, 0, 0,
         10, 0, 0, 2, 10, 0, 0, 1] @ [9]\<rparr>"
  have tiles: "tiles 20 [1, 2, 3, 4, 5, 6, 7, 8, 9] 0 [?q1, ?q2]" by code_simp
  have same: "same_datagram [?q1, ?q2]" by code_simp
  have none: "lookup_frag (pk_data (hd [?q1, ?q2])) bss = None" by (simp add: lookup_frag_def bss_def)
  from reassembly_any_order [OF tiles _ same _ _ _ _ none, of "[?q2, ?q1]"]
  show ?thesis unfolding Let_def by (auto simp: add_mset_commute set_ip_field_defs)
qed

section \<open>The fragments the sender makes\<close>

text \<open>Offset, length and flag of the fragments \<^verbatim>\<open>ip_send_frag\<close> cuts from \<open>off\<close> on.\<close>

function frag_plan :: "nat \<Rightarrow> nat \<Rightarrow> nat \<Rightarrow> (nat \<times> nat \<times> u16) list" where
  "frag_plan mlen dlen off =
     (if mlen < dlen \<and> 0 < mlen then (off, mlen, IP_FRAG_MF) # frag_plan mlen (dlen - mlen) (off + mlen)
      else if dlen = 0 then [] else [(off, dlen, 0)])"
  by pat_completeness auto
termination by (relation "measure (\<lambda>(mlen, dlen, off). dlen)") auto

declare frag_plan.simps [simp del]

lemma ip_set_checksum_wr: "\<exists>c. ip_set_checksum b = wr16 24 c b"
  by (rule exI [of _ "ip_chksum (sub_octets (set_ip_cksum 0 b) ETH_HRD_SZ (iphlen (set_ip_cksum 0 b)))"])
    (simp add: ip_set_checksum_def Let_def set_ip_cksum_def)

lemma frag_octets_wr:
  assumes "ETH_HRD_SZ + hlen + off + n \<le> length b"
  obtains c where "frag_octets b hlen n off mf =
      wr16 24 c (wr16 20 (htons (mf OR of_nat (off div 8))) (wr16 16 (htons (of_nat (hlen + n)))
        (replicate 14 0 @ sub_octets b 14 hlen @ sub_octets b (14 + hlen + off) n)))"
proof -
  have len: "length (sub_octets b 14 hlen) = hlen" "length (sub_octets b (14 + hlen + off) n) = n"
    using assms by simp_all
  have "memcpy_at (14 + hlen) (sub_octets b (14 + hlen + off) n)
      (memcpy_at 14 (sub_octets b 14 hlen) (replicate (14 + hlen + n) 0)) =
      replicate 14 0 @ sub_octets b 14 hlen @ sub_octets b (14 + hlen + off) n"
    by (simp add: memcpy_at_def len del: length_sub_octets)
  then show ?thesis
    using that ip_set_checksum_wr
    unfolding frag_octets_def Let_def set_ip_len_def set_ip_fragoff_def by metis
qed

lemma rd8_base:
  assumes "14 \<le> k" "k < 14 + hlen" "14 + hlen \<le> length b"
  shows "rd8 (replicate 14 0 @ sub_octets b 14 hlen @ c) k = rd8 b k"
proof -
  obtain j where "k = 14 + j" using assms(1) le_Suc_ex by blast
  then show ?thesis using assms by (simp add: rd8_def nth_append sub_octets_def)
qed

lemma frag_octets_fields:
  fixes mf :: u16
  assumes len: "ETH_HRD_SZ + hlen + off + n \<le> length b" and hl: "iphlen b = hlen" "20 \<le> hlen"
  defines "f \<equiv> ip_ntoh (frag_octets b hlen n off mf)"
  shows "length f = 14 + hlen + n" "iphlen f = hlen" "ip_len f = of_nat (hlen + n)"
    and "ip_fragoff f = mf OR of_nat (off div 8)" "ip_id f = ntohs (ip_id b)"
    and "ip_pro f = ip_pro b" "ip_src f = ip_src b" "ip_dst f = ip_dst b"
    and "sub_octets f (14 + hlen) n = sub_octets b (14 + hlen + off) n"
proof -
  let ?base = "replicate 14 0 @ sub_octets b 14 hlen @ sub_octets b (14 + hlen + off) n"
  obtain c where c: "frag_octets b hlen n off mf =
      wr16 24 c (wr16 20 (htons (mf OR of_nat (off div 8))) (wr16 16 (htons (of_nat (hlen + n))) ?base))"
    using frag_octets_wr [OF len] by blast
  have lb: "length ?base = 14 + hlen + n" using len by simp
  have rd: "rd8 ?base k = rd8 b k" if "14 \<le> k" "k < 34" for k
    using rd8_base [of k hlen b] that len hl(2) by simp
  have rd': "rd16 ?base 18 = rd16 b 18" "rd8 ?base 14 = rd8 b 14" "rd8 ?base 23 = rd8 b 23"
      "rd32 ?base 26 = rd32 b 26" "rd32 ?base 30 = rd32 b 30"
    using rd by (simp_all add: rd16_def rd32_def)
  note f = f_def c ip_ntoh_def set_ip_field_defs
  show "length f = 14 + hlen + n" using lb by (simp add: f)
  show "iphlen f = hlen" using hl rd'(2) by (simp add: f ip_field_defs octet_simps)
  show "ip_len f = of_nat (hlen + n)" "ip_fragoff f = mf OR of_nat (off div 8)"
    "ip_id f = ntohs (ip_id b)" "ip_pro f = ip_pro b" "ip_src f = ip_src b" "ip_dst f = ip_dst b"
    using lb hl(2) rd' by (simp_all add: f ip_field_defs octet_simps)
  show "sub_octets f (14 + hlen) n = sub_octets b (14 + hlen + off) n"
    using len hl(2) by (simp add: f sub_octets_wr_below) (simp add: sub_octets_def min_def)
qed

lemma low13:
  fixes x :: u16
  assumes "unat x < 8192"
  shows "x AND IP_FRAG_OFF = x" "x AND IP_FRAG_MF = 0"
proof -
  have "(IP_FRAG_OFF :: u16) = mask 13" by (simp add: mask_eq_exp_minus_1)
  moreover have "take_bit 13 x = x"
    using assms by (simp add: word_unat_eq_iff unsigned_take_bit_eq take_bit_nat_eq_self)
  ultimately show x: "x AND IP_FRAG_OFF = x" by (simp add: take_bit_eq_mask)
  have "x AND IP_FRAG_MF = x AND (IP_FRAG_OFF AND IP_FRAG_MF)" by (metis x and.assoc)
  then show "x AND IP_FRAG_MF = 0" by simp
qed

lemma plan_tiles:
  assumes "map pk_data qs = map (\<lambda>(off, n, mf). ip_ntoh (frag_octets b hlen n off mf)) (frag_plan mlen dlen off)"
    and b: "iphlen b = hlen" "IP_HRD_SZ \<le> hlen" "length b = ETH_HRD_SZ + hlen + length d"
    and d: "d = drop (ETH_HRD_SZ + hlen) b" "hlen + length d \<le> 65535"
    and "0 < dlen" "off + dlen = length d" "8 dvd off" "8 dvd mlen"
  shows "tiles hlen d off qs"
  using assms(1,7-)
proof (induction mlen dlen off arbitrary: qs rule: frag_plan.induct)
  case (1 mlen' dlen off)
  define more where "more = (mlen' < dlen \<and> 0 < mlen')"
  define n where "n = (if more then mlen' else dlen)"
  define mf :: u16 where "mf = (if more then IP_FRAG_MF else 0)"
  obtain q qs' where qs: "qs = q # qs'" and q: "pk_data q = ip_ntoh (frag_octets b hlen n off mf)"
    and rest: "map pk_data qs' = (if more then map (\<lambda>(off, n, mf). ip_ntoh (frag_octets b hlen n off mf))
        (frag_plan mlen' (dlen - mlen') (off + mlen')) else [])"
    using 1(2,3) unfolding n_def mf_def more_def
    by (subst (asm) frag_plan.simps) (auto split: if_splits)
  have n: "off + n \<le> length d" "0 < n" "hlen + n \<le> 65535"
    using 1(3,4) d(2) unfolding n_def more_def by auto
  have len: "14 + hlen + off + n \<le> length b" using b(3) n(1) by simp
  note fields = frag_octets_fields [OF len b(1,2), of mf, folded q]
  let ?x = "of_nat (off div 8) :: u16"
  have x: "unat ?x = off div 8" "off div 8 < 8192" using n(1) d(2) 1(5) by (simp_all add: unat_of_nat)
  have ulen: "unat (ip_len (pk_data q)) = hlen + n" using n(3) fields(3) by (simp add: unat_of_nat del: of_nat_add)
  then have flen: "frag_len hlen q = n" by (simp add: frag_len_def)
  have "(mf OR ?x) AND IP_FRAG_OFF = ?x" "(mf OR ?x) AND IP_FRAG_MF = mf"
    using low13 [of ?x] x by (simp_all add: bit.conj_disj_distrib2 mf_def)
  moreover have "int (off div 8) * 8 = int off"
    using 1(5) by (metis dvd_div_mult_self of_nat_mult of_nat_numeral)
  ultimately have off: "ipoff (pk_data q) = int off" "ip_fragoff (pk_data q) AND IP_FRAG_MF = mf"
    using fields(4) x by (simp_all add: ipoff_def uint_nat)
  have "sub_octets b (14 + hlen + off) n = sub_octets d off n"
    using d(1) by (simp add: sub_octets_def ac_simps)
  moreover have "(mf = 0 \<longleftrightarrow> qs' = []) \<and> tiles hlen d (off + n) qs'"
  proof (cases more)
    case True
    then have m: "mlen' < dlen" "0 < mlen'" by (simp_all add: more_def)
    have "tiles hlen d (off + mlen') qs'"
      using 1(1) [of qs'] m rest True 1(4-6) by simp
    then show ?thesis using True m 1(4) by (auto simp: n_def mf_def)
  next
    case False
    then show ?thesis using rest 1(4) by (simp add: n_def mf_def)
  qed
  ultimately show ?case
    using qs off fields(2,9) ulen flen n by (simp add: Let_def)
qed

lemma mset_map_reorder:
  "mset (map f ps) = mset ys \<Longrightarrow> \<exists>qs. mset qs = mset ps \<and> map f qs = ys"
proof (induction ys arbitrary: ps)
  case (Cons y ys)
  then have "y \<in> f ` set ps" by (metis list.set_intros(1) list.set_map mset_eq_setD)
  then obtain p where p: "p \<in> set ps" "y = f p" by blast
  then have "mset (map f (remove1 p ps)) = mset ys"
    using Cons.prems by (simp add: image_mset_Diff)
  from Cons.IH [OF this] obtain qs where "mset qs = mset (remove1 p ps)" "map f qs = ys" by blast
  then show ?case using p by (intro exI [of _ "p # qs"]) simp
qed simp

text \<open>One piece as \<^verbatim>\<open>ip_send_frag\<close> builds and sends it; the whole of it follows the plan.\<close>

definition send_piece ::
  "'a xmit_fn \<Rightarrow> devid \<Rightarrow> pkbuf \<Rightarrow> nat \<times> nat \<times> u16 \<Rightarrow> 'a net_scheme \<Rightarrow> 'a net_scheme" where
  "send_piece xmit dev pkb piece w =
     (let (off, n, mf) = piece;
          (fragpkb, w1) = ip_frag pkb (pk_data pkb) (iphlen (pk_data pkb)) n off mf w
      in ip_send_dev xmit dev fragpkb w1)"

lemma send_frag_loop_plan:
  assumes "0 < mlen" "hlen = iphlen (pk_data pkb)"
  shows "(let (rest, off', w') = send_frag_loop xmit dev pkb hlen (int mlen) (int dlen) (int off) w in
      if rest \<noteq> 0
      then (let (fragpkb, w'') = ip_frag pkb (pk_data pkb) hlen (nat rest) (nat off') 0 w'
            in ip_send_dev xmit dev fragpkb w'')
      else w') = fold (send_piece xmit dev pkb) (frag_plan mlen dlen off) w"
  using assms
proof (induction mlen dlen off arbitrary: w rule: frag_plan.induct)
  case (1 mlen dlen off)
  show ?case
  proof (cases "mlen < dlen")
    case True
    let ?w1 = "send_piece xmit dev pkb (off, mlen, IP_FRAG_MF) w"
    have "send_frag_loop xmit dev pkb hlen (int mlen) (int dlen) (int off) w =
        send_frag_loop xmit dev pkb hlen (int mlen) (int (dlen - mlen)) (int (off + mlen)) ?w1"
      using True 1(2,3)
      by (subst send_frag_loop.simps) (simp add: send_piece_def Let_def split_beta of_nat_diff)
    then show ?thesis
      using 1(1) [of ?w1] True 1(2,3) by (simp add: frag_plan.simps [of mlen dlen])
  next
    case False
    then show ?thesis
      using 1(2,3)
      by (simp add: send_frag_loop.simps frag_plan.simps [of mlen dlen] send_piece_def Let_def)
  qed
qed

lemma ip_send_frag_plan:
  assumes "iphlen b = hlen" "ip_fragoff b = 0" "pk_data pkb = b"
    and "unat (ntohs (ip_len b)) = hlen + dlen" "int hlen + 8 \<le> net_mtu (devs w dev)"
  defines "mlen \<equiv> nat (net_mtu (devs w dev) - int hlen) div 8 * 8"
  shows "ip_send_frag xmit dev pkb w =
     free_pkb pkb (fold (send_piece xmit dev pkb) (frag_plan mlen dlen 0) w)"
proof -
  let ?room = "net_mtu (devs w dev) - int hlen"
  have m: "?room - ?room mod 8 = int mlen"
    using assms(5) by (simp add: mlen_def minus_mod_eq_div_mult zdiv_int)
  have "0 < mlen" using assms(5) by (simp add: mlen_def)
  have d: "uint (ntohs (ip_len b)) - int hlen = int dlen" using assms(4) by (simp add: uint_nat)
  obtain rest off w1 where loop: "send_frag_loop xmit dev pkb hlen (int mlen) (int dlen) 0 w = (rest, off, w1)"
    by (metis prod_cases3)
  show ?thesis
    using send_frag_loop_plan [OF \<open>0 < mlen\<close>, of hlen pkb xmit dev dlen 0 w] assms(1-3) m d loop
    by (auto simp: ip_send_frag_def Let_def split: prod.splits)
qed

lemma frag_plan_two: "0 < mlen \<Longrightarrow> mlen < dlen \<Longrightarrow> 2 \<le> length (frag_plan mlen dlen off)"
  by (subst frag_plan.simps, subst frag_plan.simps) auto

lemma frag_plan_bound: "(p, n, mf) \<in> set (frag_plan mlen dlen off) \<Longrightarrow> p + n \<le> off + dlen"
  by (induction mlen dlen off rule: frag_plan.induct)
    (subst (asm) (2) frag_plan.simps, auto split: if_splits)

lemma rd8_append_take:
  "k < length h \<Longrightarrow> rd8 (h @ t) k = rd8 h k" "k < m \<Longrightarrow> rd8 (take m b) k = rd8 b k"
  by (auto simp: rd8_def nth_append)

lemma rd_append:
  "k < length h \<Longrightarrow> rd8 (h @ t) k = rd8 h k"
  "k + 1 < length h \<Longrightarrow> rd16 (h @ t) k = rd16 h k" "k + 3 < length h \<Longrightarrow> rd32 (h @ t) k = rd32 h k"
  by (simp_all add: rd16_def rd32_def rd8_append_take)

lemma rd_take:
  "k < m \<Longrightarrow> rd8 (take m b) k = rd8 b k"
  "k + 1 < m \<Longrightarrow> rd16 (take m b) k = rd16 b k" "k + 3 < m \<Longrightarrow> rd32 (take m b) k = rd32 b k"
  by (simp_all add: rd16_def rd32_def rd8_append_take)

text \<open>C6. Fragmentation and reassembly are inverse: the pieces \<^verbatim>\<open>ip_send_frag\<close> sends of a datagram
  that is larger than the MTU of the device, delivered in any order to a receiver that holds no
  fragment of it, give back the payload, the addresses, the protocol and the length of the
  datagram, and nothing before the last piece has arrived.\<close>

theorem fragmentation_roundtrip:
  assumes "iphlen b = hlen" "IP_HRD_SZ \<le> hlen" "ip_fragoff b = 0" "pk_data pkb = b"
    and "unat (ntohs (ip_len b)) = hlen + dlen" "length b = ETH_HRD_SZ + hlen + dlen"
    and "int hlen + 8 \<le> net_mtu (devs w dev)" "net_mtu (devs w dev) < int (hlen + dlen)"
  defines "plan \<equiv> frag_plan (nat (net_mtu (devs w dev) - int hlen) div 8 * 8) dlen 0"
  assumes "mset (map pk_data ps) = mset (map (\<lambda>(off, n, mf). ip_ntoh (frag_octets b hlen n off mf)) plan)"
    and "lookup_frag (ip_ntoh b) w' = None"
  shows "ip_send_frag xmit dev pkb w = free_pkb pkb (fold (send_piece xmit dev pkb) plan w) \<and>
     (\<exists>q w''. feed ps w' = (replicate (length ps - 1) None @ [Some q], w'') \<and>
        drop (ETH_HRD_SZ + hlen) (pk_data q) = drop (ETH_HRD_SZ + hlen) b \<and>
        ip_len (pk_data q) = ntohs (ip_len b) \<and> ip_src (pk_data q) = ip_src b \<and>
        ip_dst (pk_data q) = ip_dst b \<and> ip_pro (pk_data q) = ip_pro b)"
proof
  show "ip_send_frag xmit dev pkb w = free_pkb pkb (fold (send_piece xmit dev pkb) plan w)"
    unfolding plan_def by (rule ip_send_frag_plan) (use assms in simp_all)
  let ?mlen = "nat (net_mtu (devs w dev) - int hlen) div 8 * 8"
  let ?d = "drop (ETH_HRD_SZ + hlen) b"
  have mlen: "0 < ?mlen" "?mlen < dlen" using assms(7,8) by linarith+
  have d: "length ?d = dlen" "hlen + length ?d \<le> 65535"
    using assms(6) unsigned_less [of "ntohs (ip_len b)", where ?'a = nat] assms(5) by simp_all
  obtain qs where qs: "mset qs = mset ps"
    "map pk_data qs = map (\<lambda>(off, n, mf). ip_ntoh (frag_octets b hlen n off mf)) plan"
    using mset_map_reorder assms(10) by blast
  have tiles: "tiles hlen ?d 0 qs"
    using plan_tiles [where qs = qs and dlen = dlen and off = 0 and mlen = ?mlen, OF _ assms(1,2)] qs(2) d assms(6) mlen
    unfolding plan_def by simp
  have f: "ip_id (pk_data q) = ntohs (ip_id b)" "ip_pro (pk_data q) = ip_pro b" "ip_src (pk_data q) = ip_src b"
      "ip_dst (pk_data q) = ip_dst b" "14 + hlen \<le> length (pk_data q)" if "q \<in> set qs" for q
  proof -
    have "pk_data q \<in> set (map pk_data qs)" using that by simp
    then obtain off n mf where piece: "(off, n, mf) \<in> set plan" "pk_data q = ip_ntoh (frag_octets b hlen n off mf)"
      unfolding qs(2) by auto
    have "14 + hlen + off + n \<le> length b"
      using frag_plan_bound [OF piece(1) [unfolded plan_def]] assms(6) by simp
    from frag_octets_fields [OF this assms(1,2), of mf, folded piece(2)]
    show "ip_id (pk_data q) = ntohs (ip_id b)" "ip_pro (pk_data q) = ip_pro b" "ip_src (pk_data q) = ip_src b"
      "ip_dst (pk_data q) = ip_dst b" "14 + hlen \<le> length (pk_data q)" by simp_all
  qed
  have two: "2 \<le> length qs"
    using frag_plan_two [OF mlen] qs(2) unfolding plan_def by (metis length_map)
  then have hd: "hd qs \<in> set qs" by (intro hd_in_set) auto
  have same: "same_datagram qs" using f by (simp add: same_datagram_def)
  have none: "lookup_frag (pk_data (hd qs)) w' = None"
    using assms(11) f [OF hd] assms(6,2)
    by (simp add: lookup_frag_def frag_matches_def ip_ntoh_fields)
  obtain q w'' where q: "feed ps w' = (replicate (length ps - 1) None @ [Some q], w'')"
      "pk_data q = set_ip_len (of_nat (hlen + dlen)) (set_ip_fragoff 0 (take (14 + hlen) (pk_data (hd qs)))) @ ?d"
    using reass_perm [OF tiles two same qs(1) [symmetric] assms(2) d(2) f(5) [OF hd] none]
    unfolding d(1) by blast
  have "of_nat (hlen + dlen) = ntohs (ip_len b)" using assms(5) by (metis of_nat_unat ucast_id)
  then show "\<exists>q w''. feed ps w' = (replicate (length ps - 1) None @ [Some q], w'') \<and>
        drop (ETH_HRD_SZ + hlen) (pk_data q) = ?d \<and>
        ip_len (pk_data q) = ntohs (ip_len b) \<and> ip_src (pk_data q) = ip_src b \<and>
        ip_dst (pk_data q) = ip_dst b \<and> ip_pro (pk_data q) = ip_pro b"
    using q f [OF hd] assms(2)
    by (intro exI [of _ q] exI [of _ w''])
      (simp add: ip_field_defs set_ip_field_defs rd_append rd_take octet_simps del: of_nat_add)
qed

theorem fragmentation_roundtrip_witness:
  "let b = replicate 14 0 @ [0x45, 0, 0, 37, 0, 7, 0, 0, 64, 17, 0, 0, 10, 0, 0, 2, 10, 0, 0, 1] @
           map of_nat [1..<18];
       piece = (\<lambda>(off, n, mf). \<lparr>pk_id = 0, pk_pro = ETH_P_IP, pk_type = PKT_LOCALHOST,
          pk_len = 34 + int n, pk_indev = None, pk_rtdst = None,
          pk_data = ip_ntoh (frag_octets b 20 n off mf)\<rparr>)
   in \<exists>q w''. feed (map piece [(16, 1, 0), (0, 8, IP_FRAG_MF), (8, 8, IP_FRAG_MF)]) bss =
        ([None, None, Some q], w'') \<and> drop 34 (pk_data q) = map of_nat [1..<18]"
proof -
  let ?b = "replicate 14 0 @ [0x45, 0, 0, 37, 0, 7, 0, 0, 64, 17, 0, 0, 10, 0, 0, 2, 10, 0, 0, 1] @
      map of_nat [1..<18] :: octets"
  let ?piece = "\<lambda>(off, n, mf). \<lparr>pk_id = 0, pk_pro = ETH_P_IP, pk_type = PKT_LOCALHOST,
      pk_len = 34 + int n, pk_indev = None, pk_rtdst = None, pk_data = ip_ntoh (frag_octets ?b 20 n off mf)\<rparr>"
  let ?pkb = "\<lparr>pk_id = 0, pk_pro = ETH_P_IP, pk_type = PKT_LOCALHOST, pk_len = 51, pk_indev = None,
      pk_rtdst = None, pk_data = ?b\<rparr>"
  let ?w = "netdev_init 28 0x0200000a bss"
  let ?ps = "map ?piece [(16, 1, 0), (0, 8, IP_FRAG_MF), (8, 8, IP_FRAG_MF)]"
  have b: "iphlen ?b = 20" "ip_fragoff ?b = 0" "unat (ntohs (ip_len ?b)) = 20 + 17" "length ?b = 14 + 20 + 17"
    by code_simp+
  have mtu: "net_mtu (devs ?w Veth) = 28" by code_simp
  have plan: "frag_plan (nat (28 - int 20) div 8 * 8) 17 0 = [(0, 8, IP_FRAG_MF), (8, 8, IP_FRAG_MF), (16, 1, 0)]"
    by code_simp
  have ps: "mset (map pk_data ?ps) = mset (map (\<lambda>(off, n, mf). ip_ntoh (frag_octets ?b 20 n off mf))
      (frag_plan (nat (net_mtu (devs ?w Veth) - int 20) div 8 * 8) 17 0))"
    unfolding mtu plan by (simp add: add_mset_commute)
  have none: "lookup_frag (ip_ntoh ?b) bss = None" by (simp add: lookup_frag_def bss_def)
  have ends: "drop (14 + 20) ?b = map of_nat [1..<18]" by code_simp
  from fragmentation_roundtrip [where pkb = ?pkb and w = ?w and dev = Veth and w' = bss and
      xmit = "\<lambda>d p w. w", OF b(1) _ b(2) _ b(3,4) _ _ ps none]
  obtain q w'' where "feed ?ps bss = (replicate (length ?ps - 1) None @ [Some q], w'')"
      "drop (14 + 20) (pk_data q) = drop (14 + 20) ?b"
    by (auto simp: mtu)
  then show ?thesis unfolding Let_def ends by (intro exI conjI) (simp_all add: numeral_eq_Suc)
qed

end
