(* ===== verification/Wait.thy ===== *)
theory Wait
  imports Prelude
begin

text \<open>
  The blocking primitive of \<^verbatim>\<open>tapip/include/wait.h\<close>: a mutex, a condition variable and
  the flags \<^verbatim>\<open>notified\<close>, \<^verbatim>\<open>dead\<close> and \<^verbatim>\<open>sleep\<close>. Every operation holds the mutex, so
  that each of them is one atomic step, except \<^verbatim>\<open>sleep_on\<close>, which gives the mutex up in
  \<^verbatim>\<open>pthread_cond_wait\<close> and is split there. The contract of the primitive is that of a
  binary signal with one waiting thread: a notification is never lost.
\<close>

section \<open>The code\<close>

record tapip_wait =
  notified :: bool
  dead :: bool
  sleep :: bool

definition wait_init :: tapip_wait where
  "wait_init = \<lparr>notified = False, dead = False, sleep = False\<rparr>"

text \<open>
  What an operation does to the condition variable: nothing, signal, broadcast. The result
  of \<^verbatim>\<open>wake_up\<close> is 0 or -1.
\<close>

datatype cond_op = NoSignal | Signal | Broadcast

definition wake_up :: "tapip_wait \<Rightarrow> int \<times> cond_op \<times> tapip_wait" where
  "wake_up w =
     (if dead w then (-1, NoSignal, w)
      else if \<not> notified w then (0, if sleep w then Signal else NoSignal, w\<lparr>notified := True\<rparr>)
      else (0, NoSignal, w))"

definition wait_exit :: "tapip_wait \<Rightarrow> cond_op \<times> tapip_wait" where
  "wait_exit w =
     (if dead w then (NoSignal, w)
      else (if sleep w then Broadcast else NoSignal, w\<lparr>dead := True\<rparr>))"

text \<open>
  \<^verbatim>\<open>sleep_on\<close> up to the condition wait, and from there on. The first part returns the
  result if it does not have to wait.
\<close>

definition sleep_leave :: "tapip_wait \<Rightarrow> int \<times> tapip_wait" where
  "sleep_leave w =
     (let w1 = w\<lparr>notified := False, sleep := False\<rparr> in (if dead w1 then -1 else 0, w1))"

definition sleep_enter :: "tapip_wait \<Rightarrow> int option \<times> tapip_wait" where
  "sleep_enter w =
     (if dead w then (Some (-1), w)
      else
        (let w1 = w\<lparr>sleep := True\<rparr> in
         if \<not> notified w1 then (None, w1)
         else (case sleep_leave w1 of (r, w2) \<Rightarrow> (Some r, w2))))"

section \<open>One sleeper among any number of notifiers\<close>

text \<open>The waiting thread: outside, in the condition wait, or out of it but without the mutex.\<close>

datatype sleeper = Outside | Blocked | Released

definition on_signal :: "cond_op \<Rightarrow> sleeper \<Rightarrow> sleeper" where
  "on_signal c s = (if s = Blocked \<and> c \<noteq> NoSignal then Released else s)"

inductive wait_step :: "tapip_wait \<times> sleeper \<Rightarrow> tapip_wait \<times> sleeper \<Rightarrow> bool" where
  wake: "wake_up w = (r, c, w') \<Longrightarrow> wait_step (w, s) (w', on_signal c s)"
| exit: "wait_exit w = (c, w') \<Longrightarrow> wait_step (w, s) (w', on_signal c s)"
| enter: "sleep_enter w = (r, w') \<Longrightarrow>
    wait_step (w, Outside) (w', if r = None then Blocked else Outside)"
| spurious: "wait_step (w, Blocked) (w, Released)"
| leave: "sleep_leave w = (r, w') \<Longrightarrow> wait_step (w, Released) (w', Outside)"

inductive_cases wait_stepE: "wait_step (w, s) (w', s')"

definition wait_reachable :: "tapip_wait \<times> sleeper \<Rightarrow> bool" where
  "wait_reachable c \<longleftrightarrow> wait_step\<^sup>*\<^sup>* (wait_init, Outside) c"

definition wait_inv :: "tapip_wait \<times> sleeper \<Rightarrow> bool" where
  "wait_inv c \<longleftrightarrow>
     (case c of (w, s) \<Rightarrow>
        (s = Outside \<longrightarrow> \<not> sleep w) \<and> (s = Released \<longrightarrow> sleep w) \<and>
        (s = Blocked \<longrightarrow> sleep w \<and> \<not> notified w \<and> \<not> dead w))"

lemma wait_step_inv: "wait_step c c' \<Longrightarrow> wait_inv c \<Longrightarrow> wait_inv c'"
  by (induction rule: wait_step.induct)
    (auto simp: wait_inv_def wake_up_def wait_exit_def sleep_enter_def sleep_leave_def on_signal_def
      Let_def split: if_splits)

lemma wait_reachable_inv: "wait_reachable c \<Longrightarrow> wait_inv c"
  unfolding wait_reachable_def
proof (induction rule: rtranclp_induct)
  case base
  then show ?case by (simp add: wait_inv_def wait_init_def)
qed (rule wait_step_inv)

section \<open>Properties\<close>

text \<open>C29. No wake-up is lost: in every reachable state, whatever the interleaving of notifiers,
  closers, spurious wake-ups and the sleeper, a thread that is blocked in \<^verbatim>\<open>sleep_on\<close> has no
  notification pending and its wait is not dead; and one call of \<^verbatim>\<open>wake_up\<close> or \<^verbatim>\<open>wait_exit\<close>
  releases it.\<close>

theorem no_lost_wakeup:
  assumes "wait_reachable (w, Blocked)"
  shows "\<not> notified w \<and> \<not> dead w \<and> fst (snd (wake_up w)) = Signal \<and> fst (wait_exit w) = Broadcast"
  using wait_reachable_inv [OF assms] by (simp add: wait_inv_def wake_up_def wait_exit_def)

theorem no_lost_wakeup_witness:
  "fst (snd (wake_up (snd (sleep_enter wait_init)))) = Signal"
proof -
  have "sleep_enter wait_init = (None, snd (sleep_enter wait_init))"
    by (simp add: sleep_enter_def wait_init_def)
  then have "wait_step (wait_init, Outside) (snd (sleep_enter wait_init), Blocked)"
    using wait_step.enter by fastforce
  then have "wait_reachable (snd (sleep_enter wait_init), Blocked)"
    by (auto simp: wait_reachable_def)
  from no_lost_wakeup [OF this] show ?thesis by simp
qed

text \<open>A notification that comes before the thread goes to sleep is kept: \<^verbatim>\<open>sleep_on\<close>
  returns 0 without waiting and consumes it, so that the next \<^verbatim>\<open>sleep_on\<close> waits again; after
  \<^verbatim>\<open>wait_exit\<close> every \<^verbatim>\<open>sleep_on\<close> and \<^verbatim>\<open>wake_up\<close> returns -1 at once.\<close>

theorem early_wakeup_kept:
  assumes "wait_reachable (w, Outside)"
  shows "(\<not> dead w \<longrightarrow>
      (\<exists>w'. sleep_enter (snd (snd (wake_up w))) = (Some 0, w') \<and> fst (sleep_enter w') = None)) \<and>
    fst (sleep_enter (snd (wait_exit w))) = Some (-1) \<and> fst (wake_up (snd (wait_exit w))) = -1"
  using wait_reachable_inv [OF assms]
  by (auto simp: wait_inv_def wake_up_def wait_exit_def sleep_enter_def sleep_leave_def Let_def)

theorem early_wakeup_kept_witness:
  "\<exists>w'. sleep_enter (snd (snd (wake_up wait_init))) = (Some 0, w')"
proof -
  have "wait_reachable (wait_init, Outside)" by (simp add: wait_reachable_def)
  from early_wakeup_kept [OF this] show ?thesis by (auto simp: wait_init_def)
qed

end
