(* ===== verification/Cbuf.thy ===== *)
theory Cbuf
  imports Prelude
begin

text \<open>
  The circular receive buffer of \<^verbatim>\<open>tapip/lib/cbuf.c\<close> and its macros in
  \<^verbatim>\<open>tapip/include/cbuf.h\<close>. \<^verbatim>\<open>head\<close> and \<^verbatim>\<open>tail\<close> are running
  indices; the macros reduce them modulo \<^verbatim>\<open>size\<close>. The component's contract is that
  of a bounded FIFO of octets (locale \<open>byte_fifo\<close>), which the two copy loops implement.
\<close>

section \<open>The structure and its macros\<close>

record cbuf =
  cb_head :: int
  cb_tail :: int
  cb_size :: int
  cb_buf :: octets

definition cbufhead_idx :: "cbuf \<Rightarrow> int" where
  "cbufhead_idx c = cb_head c mod cb_size c"

definition cbuftail_idx :: "cbuf \<Rightarrow> int" where
  "cbuftail_idx c = cb_tail c mod cb_size c"

definition cbufused :: "cbuf \<Rightarrow> int" where
  "cbufused c = cb_head c - cb_tail c"

definition cbuffree :: "cbuf \<Rightarrow> int" where
  "cbuffree c = cb_size c - cbufused c"

definition cbufheadright :: "cbuf \<Rightarrow> int" where
  "cbufheadright c =
     (if cbufhead_idx c \<ge> cbuftail_idx c then cb_size c - cbufhead_idx c
      else cbuftail_idx c - cbufhead_idx c)"

definition cbuftailright :: "cbuf \<Rightarrow> int" where
  "cbuftailright c =
     (if cbufhead_idx c > cbuftail_idx c then cbufused c
      else cb_size c - cbuftail_idx c)"

section \<open>Operations\<close>

definition alloc_cbuf :: "int \<Rightarrow> cbuf" where
  "alloc_cbuf sz =
     \<lparr>cb_head = 0, cb_tail = 0, cb_size = sz, cb_buf = replicate (nat sz) 0\<rparr>"

text \<open>
  The loop of \<^verbatim>\<open>write_cbuf\<close>: at most two contiguous copies. The macros divide by
  \<^verbatim>\<open>size\<close>, which traps when it is 0; the loop of the model stops there. For a positive
  size each round copies at least one octet, which is the termination argument.
\<close>

function write_loop :: "cbuf \<Rightarrow> octets \<Rightarrow> int \<Rightarrow> cbuf" where
  "write_loop c buf len =
     (if len > 0 \<and> cb_size c > 0 then
        (let onelen = min (cbufheadright c) len;
             c' = c\<lparr>cb_buf := memcpy_at (nat (cbufhead_idx c)) (take (nat onelen) buf) (cb_buf c),
                    cb_head := cb_head c + onelen\<rparr>
         in write_loop c' (drop (nat onelen) buf) (len - onelen))
      else c)"
  by pat_completeness auto
termination
  by (relation "measure (\<lambda>(c, buf, len). nat len)")
    (auto simp: cbufheadright_def cbufhead_idx_def min_def)

definition write_cbuf :: "cbuf option \<Rightarrow> octets \<Rightarrow> int \<Rightarrow> cbuf option \<times> int" where
  "write_cbuf cbuf buf sz =
     (case cbuf of
        None \<Rightarrow> (None, 0)
      | Some c \<Rightarrow>
          (let wlen = min (cbuffree c) sz
           in (Some (write_loop c buf wlen), wlen)))"

text \<open>
  The loop of \<^verbatim>\<open>read_cbuf\<close>; \<open>out\<close> is what has been stored into the caller's buffer.
  A \<^verbatim>\<open>CBUFTAILRIGHT\<close> of 0 or less would copy a negative length in C; the model
  stops there, and \<open>ring_ok\<close> below excludes it.
\<close>

function read_loop :: "cbuf \<Rightarrow> octets \<Rightarrow> int \<Rightarrow> cbuf \<times> octets" where
  "read_loop c out len =
     (if len > 0 \<and> cb_size c > 0 \<and> cbuftailright c > 0 then
        (let onelen = min (cbuftailright c) len;
             out' = out @ sub_octets (cb_buf c) (nat (cbuftail_idx c)) (nat onelen);
             c' = c\<lparr>cb_tail := cb_tail c + onelen\<rparr>
         in read_loop c' out' (len - onelen))
      else (c, out))"
  by pat_completeness auto
termination
  by (relation "measure (\<lambda>(c, out, len). nat len)") (auto simp: min_def)

definition read_cbuf :: "cbuf option \<Rightarrow> int \<Rightarrow> cbuf option \<times> octets \<times> int" where
  "read_cbuf cbuf sz =
     (case cbuf of
        None \<Rightarrow> (None, [], 0)
      | Some c \<Rightarrow>
          (let rlen = min (cbufused c) sz;
               (c1, out) = read_loop c [] rlen;
               c2 = (if cb_tail c1 \<ge> cb_size c1
                     then c1\<lparr>cb_head := cb_head c1 - cb_size c1,
                             cb_tail := cb_tail c1 - cb_size c1\<rparr>
                     else c1)
           in (Some c2, out, rlen)))"

declare write_loop.simps [simp del] read_loop.simps [simp del]

section \<open>Invariant and abstraction\<close>

definition cbuf_ok :: "cbuf \<Rightarrow> bool" where
  "cbuf_ok c \<longleftrightarrow>
     0 < cb_size c \<and> length (cb_buf c) = nat (cb_size c) \<and>
     0 \<le> cb_tail c \<and> cb_tail c < cb_size c \<and>
     cb_tail c \<le> cb_head c \<and> cb_head c \<le> cb_tail c + cb_size c"

text \<open>The octet at running index \<open>i\<close>, and the octets between the read and the write point.\<close>

definition ring_at :: "cbuf \<Rightarrow> int \<Rightarrow> u8" where
  "ring_at c i = cb_buf c ! nat (i mod cb_size c)"

definition contents :: "cbuf \<Rightarrow> octets" where
  "contents c = map (\<lambda>k. ring_at c (cb_tail c + int k)) [0..<nat (cbufused c)]"

text \<open>
  During the read loop the tail may pass \<open>cb_size\<close>: the loop invariant is weaker.
\<close>

definition ring_ok :: "cbuf \<Rightarrow> bool" where
  "ring_ok c \<longleftrightarrow>
     0 < cb_size c \<and> length (cb_buf c) = nat (cb_size c) \<and>
     0 \<le> cb_tail c \<and> cb_tail c \<le> cb_head c \<and> cb_head c \<le> cb_tail c + cb_size c"

lemma cbuf_ok_ring_ok: "cbuf_ok c \<Longrightarrow> ring_ok c"
  by (simp add: cbuf_ok_def ring_ok_def)

lemma length_contents [simp]: "length (contents c) = nat (cbufused c)"
  by (simp add: contents_def)

lemma alloc_cbuf_ok: "0 < sz \<Longrightarrow> cbuf_ok (alloc_cbuf sz) \<and> contents (alloc_cbuf sz) = []"
  by (simp add: alloc_cbuf_def cbuf_ok_def contents_def cbufused_def)

section \<open>One round of the copy loops\<close>

text \<open>Running indices less than \<open>size\<close> apart that agree modulo \<open>size\<close> are equal.\<close>

lemma mod_window:
  fixes i j s :: int
  assumes "i mod s = j mod s" "i \<le> j" "j < i + s"
  shows "i = j"
proof -
  have "s dvd j - i" using assms(1) by (simp add: mod_eq_dvd_iff dvd_diff_commute)
  then show ?thesis using assms(2,3) zdvd_not_zless [of "j - i" s] by linarith
qed

lemma mod_add_small:
  fixes h s d :: int
  assumes "0 < s" "0 \<le> d" "h mod s + d < s"
  shows "(h + d) mod s = h mod s + d"
  by (metis Euclidean_Rings.pos_mod_sign add_nonneg_nonneg assms mod_add_left_eq mod_pos_pos_trivial)

definition write_round :: "cbuf \<Rightarrow> octets \<Rightarrow> cbuf" where
  "write_round c xs =
     c\<lparr>cb_buf := memcpy_at (nat (cbufhead_idx c)) xs (cb_buf c),
       cb_head := cb_head c + int (length xs)\<rparr>"

lemma ring_at_write_round:
  assumes ok: "ring_ok c" and fit: "cbufhead_idx c + int (length xs) \<le> cb_size c"
    and free: "int (length xs) \<le> cbuffree c"
    and i: "cb_tail c \<le> i" "i < cb_head c + int (length xs)"
  shows "ring_at (write_round c xs) i =
     (if i < cb_head c then ring_at c i else xs ! nat (i - cb_head c))"
proof -
  let ?s = "cb_size c" and ?h = "cbufhead_idx c" and ?p = "i mod cb_size c"
  have s: "0 < ?s" "length (cb_buf c) = nat ?s" using ok by (auto simp: ring_ok_def)
  have h: "0 \<le> ?h" "?h < ?s" using s by (simp_all add: cbufhead_idx_def)
  have p: "0 \<le> ?p" "?p < ?s" using s by simp_all
  have room: "cb_head c + int (length xs) \<le> cb_tail c + ?s"
    using free by (simp add: cbuffree_def cbufused_def)
  have copy: "memcpy_at (nat ?h) xs (cb_buf c) ! nat ?p =
      (if ?h \<le> ?p \<and> ?p < ?h + int (length xs) then xs ! nat (?p - ?h) else cb_buf c ! nat ?p)"
  proof -
    obtain m n where mn: "?h = int m" "?p = int n"
      using h p by (metis zero_le_imp_eq_int)
    show ?thesis
      using h p s fit unfolding mn by (subst nth_memcpy_at) (auto simp: nat_less_iff nat_diff_distrib')
  qed
  show ?thesis
  proof (cases "i < cb_head c")
    case True
    have "\<not> (?h \<le> ?p \<and> ?p < ?h + int (length xs))"
    proof
      assume in_win: "?h \<le> ?p \<and> ?p < ?h + int (length xs)"
      let ?j = "cb_head c + (?p - ?h)"
      have "?j mod ?s = ?p"
        using mod_add_small [of ?s "?p - ?h" "cb_head c"] s in_win p
        by (simp add: cbufhead_idx_def)
      then have "i mod ?s = ?j mod ?s" by simp
      then have "i = ?j"
        by (rule mod_window) (use True in_win i room in linarith)+
      then show False using True in_win by linarith
    qed
    then show ?thesis using True copy by (auto simp: ring_at_def write_round_def)
  next
    case False
    let ?d = "i - cb_head c"
    have d: "0 \<le> ?d" "?d < int (length xs)" using False i by linarith+
    have "?p = ?h + ?d"
      using mod_add_small [of ?s ?d "cb_head c"] s d fit by (simp add: cbufhead_idx_def)
    then show ?thesis using False copy d by (simp add: ring_at_def write_round_def)
  qed
qed

lemma contents_write_round:
  assumes ok: "ring_ok c" and fit: "cbufhead_idx c + int (length xs) \<le> cb_size c"
    and free: "int (length xs) \<le> cbuffree c"
  shows "contents (write_round c xs) = contents c @ xs"
proof (rule nth_equalityI)
  have used: "0 \<le> cbufused c" using ok by (simp add: ring_ok_def cbufused_def)
  have used': "cbufused (write_round c xs) = cbufused c + int (length xs)"
    by (simp add: write_round_def cbufused_def)
  show len: "length (contents (write_round c xs)) = length (contents c @ xs)"
    using used by (simp add: used' nat_add_distrib)
  fix k assume "k < length (contents (write_round c xs))"
  then have k: "int k < cbufused c + int (length xs)" using used' by simp
  have tail: "cb_tail (write_round c xs) = cb_tail c" by (simp add: write_round_def)
  have "contents (write_round c xs) ! k = ring_at (write_round c xs) (cb_tail c + int k)"
    using k by (simp add: contents_def used' tail nth_upt zless_nat_eq_int_zless)
  also have "\<dots> = (if cb_tail c + int k < cb_head c then ring_at c (cb_tail c + int k)
      else xs ! nat (cb_tail c + int k - cb_head c))"
    using k by (intro ring_at_write_round ok fit free) (simp_all add: cbufused_def)
  also have "\<dots> = (contents c @ xs) ! k"
    using used by (auto simp: nth_append contents_def cbufused_def nat_less_iff nat_diff_distrib
        intro!: arg_cong [where f = "(!) xs"])
  finally show "contents (write_round c xs) ! k = (contents c @ xs) ! k" .
qed

lemma write_round_ok:
  assumes "ring_ok c" "cbufhead_idx c + int (length xs) \<le> cb_size c"
    and "int (length xs) \<le> cbuffree c"
  shows "ring_ok (write_round c xs)"
  using assms by (auto simp: ring_ok_def write_round_def cbufhead_idx_def cbuffree_def cbufused_def
      intro!: length_memcpy_at [THEN trans])

lemma headright_bounds:
  assumes "ring_ok c"
  shows "0 < cbufheadright c" "cbufhead_idx c + cbufheadright c \<le> cb_size c"
proof -
  have "0 < cb_size c" using assms by (simp add: ring_ok_def)
  then have "0 \<le> cbufhead_idx c" "cbufhead_idx c < cb_size c" "cbuftail_idx c < cb_size c"
    by (simp_all add: cbufhead_idx_def cbuftail_idx_def)
  then show "0 < cbufheadright c" "cbufhead_idx c + cbufheadright c \<le> cb_size c"
    by (auto simp: cbufheadright_def)
qed

section \<open>The whole loops\<close>

text \<open>
  The write loop appends exactly \<open>len\<close> octets whenever they fit, leaving the read point.
\<close>

lemma write_loop_spec:
  assumes "ring_ok c" "0 \<le> len" "len \<le> cbuffree c" "nat len \<le> length buf"
  shows "ring_ok (write_loop c buf len) \<and>
     contents (write_loop c buf len) = contents c @ take (nat len) buf \<and>
     cb_tail (write_loop c buf len) = cb_tail c \<and> cb_size (write_loop c buf len) = cb_size c"
  using assms
proof (induction c buf len rule: write_loop.induct)
  case (1 c buf len)
  show ?case
  proof (cases "len > 0")
    case False
    then have "write_loop c buf len = c" by (subst write_loop.simps) simp
    then show ?thesis using "1.prems" False by simp
  next
    case True
    define k where "k = min (cbufheadright c) len"
    have size: "cb_size c > 0" using "1.prems"(1) by (simp add: ring_ok_def)
    have k: "0 < k" "k \<le> len" "cbufhead_idx c + k \<le> cb_size c"
      using True headright_bounds [OF "1.prems"(1)] by (auto simp: k_def)
    let ?xs = "take (nat k) buf"
    have lxs: "length ?xs = nat k" using k "1.prems"(4) by simp
    let ?c = "write_round c ?xs"
    have round: "ring_ok ?c" "contents ?c = contents c @ ?xs"
      using k "1.prems" lxs by (auto intro!: write_round_ok contents_write_round)
    have eq: "write_loop c buf len = write_loop ?c (drop (nat k) buf) (len - k)"
      using True size k lxs
      by (subst write_loop.simps) (simp add: Let_def k_def [symmetric] write_round_def)
    have free: "cbuffree ?c = cbuffree c - k"
      using k lxs by (simp add: write_round_def cbuffree_def cbufused_def)
    have same: "cb_tail ?c = cb_tail c" "cb_size ?c = cb_size c" by (simp_all add: write_round_def)
    have rec: "ring_ok (write_loop ?c (drop (nat k) buf) (len - k)) \<and>
        contents (write_loop ?c (drop (nat k) buf) (len - k)) =
          contents ?c @ take (nat (len - k)) (drop (nat k) buf) \<and>
        cb_tail (write_loop ?c (drop (nat k) buf) (len - k)) = cb_tail ?c \<and>
        cb_size (write_loop ?c (drop (nat k) buf) (len - k)) = cb_size ?c"
      using "1.IH" [OF _ k_def] True size round(1) k free "1.prems" lxs
      by (simp add: write_round_def nat_diff_distrib)
    have "take (nat len) buf = ?xs @ take (nat (len - k)) (drop (nat k) buf)"
      using k take_add [of "nat k" "nat (len - k)" buf] by (simp add: nat_add_distrib [symmetric])
    then show ?thesis using rec round same by (simp add: eq)
  qed
qed

text \<open>One round of the read loop takes a prefix of the contents.\<close>

definition read_round :: "cbuf \<Rightarrow> int \<Rightarrow> cbuf" where
  "read_round c k = c\<lparr>cb_tail := cb_tail c + k\<rparr>"

lemma contents_read_round:
  assumes "ring_ok c" "0 \<le> k" "k \<le> cbufused c"
  shows "contents (read_round c k) = drop (nat k) (contents c)"
proof (rule nth_equalityI)
  have used: "cbufused (read_round c k) = cbufused c - k"
    by (simp add: read_round_def cbufused_def)
  show "length (contents (read_round c k)) = length (drop (nat k) (contents c))"
    using assms by (simp add: used nat_diff_distrib)
  fix j assume "j < length (contents (read_round c k))"
  then have j: "int j < cbufused c - k" using used by simp
  have "ring_at (read_round c k) i = ring_at c i" for i
    by (simp add: read_round_def ring_at_def)
  then show "contents (read_round c k) ! j = drop (nat k) (contents c) ! j"
    using j assms
    by (simp add: contents_def used nth_upt zless_nat_eq_int_zless)
      (simp add: read_round_def add.assoc)
qed

lemma tail_slice:
  assumes "ring_ok c" "0 \<le> k" "k \<le> cbufused c" "cbuftail_idx c + k \<le> cb_size c"
  shows "sub_octets (cb_buf c) (nat (cbuftail_idx c)) (nat k) = take (nat k) (contents c)"
proof (rule nth_equalityI)
  have s: "0 < cb_size c" "length (cb_buf c) = nat (cb_size c)"
    using assms(1) by (auto simp: ring_ok_def)
  then have t: "0 \<le> cbuftail_idx c" by (simp add: cbuftail_idx_def)
  have fits: "nat (cbuftail_idx c) + nat k \<le> length (cb_buf c)"
    using t assms s by (simp add: nat_add_distrib [symmetric])
  show "length (sub_octets (cb_buf c) (nat (cbuftail_idx c)) (nat k)) =
      length (take (nat k) (contents c))"
    using fits assms by simp
  fix j assume "j < length (sub_octets (cb_buf c) (nat (cbuftail_idx c)) (nat k))"
  then have j: "int j < k" using fits by simp
  have "(cb_tail c + int j) mod cb_size c = cbuftail_idx c + int j"
    using mod_add_small [of "cb_size c" "int j" "cb_tail c"] s j assms(4)
    by (simp add: cbuftail_idx_def)
  then show "sub_octets (cb_buf c) (nat (cbuftail_idx c)) (nat k) ! j =
      take (nat k) (contents c) ! j"
    using j assms t fits
    by (simp add: sub_octets_def contents_def nth_upt zless_nat_eq_int_zless ring_at_def
        nat_add_distrib)
qed

text \<open>The contiguous octets right of the read point are available and within the array.\<close>

lemma tailright_bounds:
  assumes "ring_ok c" "0 < cbufused c"
  shows "0 < cbuftailright c" "cbuftail_idx c + min (cbuftailright c) (cbufused c) \<le> cb_size c"
proof -
  let ?s = "cb_size c"
  have s: "0 < ?s" using assms by (simp add: ring_ok_def)
  then have b: "0 \<le> cbuftail_idx c" "cbuftail_idx c < ?s" "cbufhead_idx c < ?s"
    by (simp_all add: cbufhead_idx_def cbuftail_idx_def)
  then show "0 < cbuftailright c" using assms by (auto simp: cbuftailright_def)
  have wrap: "cbuftail_idx c + cbufused c \<le> ?s" if "cbufhead_idx c > cbuftail_idx c"
  proof (rule ccontr)
    assume "\<not> ?thesis"
    then have over: "?s < cbuftail_idx c + cbufused c" by simp
    let ?j = "cb_tail c + (cbufhead_idx c - cbuftail_idx c)"
    have "?j mod ?s = cbufhead_idx c"
      using mod_add_small [of ?s "cbufhead_idx c - cbuftail_idx c" "cb_tail c"] s b that
      by (simp add: cbuftail_idx_def)
    then have "?j mod ?s = cb_head c mod ?s" by (simp add: cbufhead_idx_def)
    then have "?j = cb_head c"
      by (rule mod_window)
        (use assms that over b in \<open>auto simp: ring_ok_def cbufused_def\<close>)
    then show False using over b by (simp add: cbufused_def)
  qed
  show "cbuftail_idx c + min (cbuftailright c) (cbufused c) \<le> ?s"
    using wrap b by (auto simp: cbuftailright_def)
qed

lemma read_loop_spec:
  assumes "ring_ok c" "0 \<le> len" "len \<le> cbufused c"
  shows "read_loop c out len = (read_round c len, out @ take (nat len) (contents c))"
  using assms
proof (induction c out len rule: read_loop.induct)
  case (1 c out len)
  show ?case
  proof (cases "len > 0")
    case False
    then have "read_loop c out len = (c, out)" by (subst read_loop.simps) simp
    then show ?thesis using "1.prems" False by (simp add: read_round_def)
  next
    case True
    have size: "cb_size c > 0" using "1.prems"(1) by (simp add: ring_ok_def)
    have used: "0 < cbufused c" using True "1.prems" by linarith
    define k where "k = min (cbuftailright c) len"
    have k: "0 < k" "k \<le> len" "cbuftail_idx c + k \<le> cb_size c"
      using True tailright_bounds [OF "1.prems"(1) used] "1.prems" by (auto simp: k_def)
    have slice: "sub_octets (cb_buf c) (nat (cbuftail_idx c)) (nat k) = take (nat k) (contents c)"
      using tail_slice "1.prems" k by simp
    let ?c = "read_round c k" and ?out = "out @ take (nat k) (contents c)"
    have eq: "read_loop c out len = read_loop ?c ?out (len - k)"
      using True size tailright_bounds [OF "1.prems"(1) used] slice
      by (subst read_loop.simps) (simp add: Let_def k_def [symmetric] read_round_def)
    have ok: "ring_ok ?c" using "1.prems" k by (auto simp: ring_ok_def read_round_def cbufused_def)
    have "read_loop ?c ?out (len - k) =
        (read_round ?c (len - k), ?out @ take (nat (len - k)) (contents ?c))"
      using "1.IH" [OF _ k_def] True size tailright_bounds [OF "1.prems"(1) used] ok k slice "1.prems"
      by (simp add: read_round_def cbufused_def)
    moreover have "contents ?c = drop (nat k) (contents c)"
      using contents_read_round "1.prems" k by simp
    moreover have "take (nat len) (contents c) =
        take (nat k) (contents c) @ take (nat (len - k)) (drop (nat k) (contents c))"
      using k take_add [of "nat k" "nat (len - k)" "contents c"]
      by (simp add: nat_add_distrib [symmetric])
    ultimately show ?thesis by (simp add: eq read_round_def)
  qed
qed

section \<open>The bounded FIFO contract\<close>

text \<open>
  What a client of a byte queue relies on: \<open>put\<close> accepts a prefix as long as there is
  room, \<open>get\<close> hands out the oldest octets, and nothing is lost, duplicated or reordered.
  \<open>fifo_run\<close> runs a script of operations and collects the octets accepted and delivered.
\<close>

datatype fifo_op = Put octets | Get nat

fun fifo_run ::
  "('q \<Rightarrow> octets \<Rightarrow> 'q \<times> nat) \<Rightarrow> ('q \<Rightarrow> nat \<Rightarrow> 'q \<times> octets) \<Rightarrow> 'q \<Rightarrow> fifo_op list \<Rightarrow>
     'q \<times> octets \<times> octets" where
  "fifo_run put get q [] = (q, [], [])"
| "fifo_run put get q (Put xs # ops) =
     (let (q1, n) = put q xs; (q2, accepted, delivered) = fifo_run put get q1 ops
      in (q2, take n xs @ accepted, delivered))"
| "fifo_run put get q (Get n # ops) =
     (let (q1, ys) = get q n; (q2, accepted, delivered) = fifo_run put get q1 ops
      in (q2, accepted, ys @ delivered))"

locale byte_fifo =
  fixes put :: "'q \<Rightarrow> octets \<Rightarrow> 'q \<times> nat"
    and get :: "'q \<Rightarrow> nat \<Rightarrow> 'q \<times> octets"
    and held :: "'q \<Rightarrow> octets"
    and capacity :: "'q \<Rightarrow> nat"
    and invar :: "'q \<Rightarrow> bool"
  assumes bounded: "invar q \<Longrightarrow> length (held q) \<le> capacity q"
    and put_invar: "invar q \<Longrightarrow> invar (fst (put q xs))"
    and put_held: "invar q \<Longrightarrow> held (fst (put q xs)) = held q @ take (snd (put q xs)) xs"
    and put_count: "invar q \<Longrightarrow> snd (put q xs) = min (capacity q - length (held q)) (length xs)"
    and put_capacity: "invar q \<Longrightarrow> capacity (fst (put q xs)) = capacity q"
    and get_invar: "invar q \<Longrightarrow> invar (fst (get q n))"
    and get_held: "invar q \<Longrightarrow> held (fst (get q n)) = drop n (held q)"
    and get_octets: "invar q \<Longrightarrow> snd (get q n) = take n (held q)"
    and get_capacity: "invar q \<Longrightarrow> capacity (fst (get q n)) = capacity q"
begin

lemma run_stream:
  "invar q \<Longrightarrow> fifo_run put get q ops = (q', accepted, delivered) \<Longrightarrow>
     invar q' \<and> capacity q' = capacity q \<and> delivered @ held q' = held q @ accepted"
proof (induction ops arbitrary: q accepted delivered)
  case Nil
  then show ?case by simp
next
  case (Cons op ops)
  show ?case
  proof (cases op)
    case (Put xs)
    obtain acc del where rest: "fifo_run put get (fst (put q xs)) ops = (q', acc, del)"
      and "accepted = take (snd (put q xs)) xs @ acc" "delivered = del"
      using Cons.prems(2) Put by (cases "fifo_run put get (fst (put q xs)) ops")
        (auto simp: Let_def split_beta)
    with Cons.IH [OF put_invar rest] Cons.prems(1) show ?thesis
      by (simp add: put_held put_capacity)
  next
    case (Get n)
    obtain acc del where rest: "fifo_run put get (fst (get q n)) ops = (q', acc, del)"
      and del: "accepted = acc" "delivered = snd (get q n) @ del"
      using Cons.prems(2) Get by (cases "fifo_run put get (fst (get q n)) ops")
        (auto simp: Let_def split_beta)
    have "held q = snd (get q n) @ held (fst (get q n))"
      using Cons.prems(1) by (simp add: get_held get_octets)
    with Cons.IH [OF get_invar rest] Cons.prems(1) del show ?thesis
      by (simp add: get_capacity)
  qed
qed

lemma put_all_then_get_all:
  assumes "invar q" "held q = []" "length xs \<le> capacity q"
  shows "snd (get (fst (put q xs)) (length xs)) = xs"
  using assms by (simp add: get_octets put_invar put_held put_count)

end

section \<open>The circular buffer is a bounded FIFO\<close>

definition cbuf_put :: "cbuf \<Rightarrow> octets \<Rightarrow> cbuf \<times> nat" where
  "cbuf_put c xs =
     (case write_cbuf (Some c) xs (int (length xs)) of
        (Some c', n) \<Rightarrow> (c', nat n) | (None, n) \<Rightarrow> (c, nat n))"

definition cbuf_get :: "cbuf \<Rightarrow> nat \<Rightarrow> cbuf \<times> octets" where
  "cbuf_get c n =
     (case read_cbuf (Some c) (int n) of
        (Some c', out, _) \<Rightarrow> (c', out) | (None, out, _) \<Rightarrow> (c, out))"

lemma contents_ring_shift:
  assumes "cb_size d = cb_size c" "cb_buf d = cb_buf c"
    and "cb_tail d = cb_tail c - cb_size c" "cb_head d = cb_head c - cb_size c"
  shows "contents d = contents c"
proof -
  have "(cb_tail d + int k) mod cb_size c = (cb_tail c + int k) mod cb_size c" for k
    by (metis add_diff_eq assms(3) diff_add_eq minus_mod_self2)
  then show ?thesis using assms by (simp add: contents_def ring_at_def cbufused_def)
qed

lemma write_cbuf_spec:
  assumes "cbuf_ok c" "0 \<le> sz" "nat sz \<le> length buf"
  obtains c' where "write_cbuf (Some c) buf sz = (Some c', min (cbuffree c) sz)"
    and "cbuf_ok c'" "cb_size c' = cb_size c" "cb_tail c' = cb_tail c"
    and "contents c' = contents c @ take (nat (min (cbuffree c) sz)) buf"
proof
  let ?n = "min (cbuffree c) sz"
  have "0 \<le> cbuffree c" using assms by (simp add: cbuf_ok_def cbuffree_def cbufused_def)
  then have spec: "ring_ok (write_loop c buf ?n) \<and>
     contents (write_loop c buf ?n) = contents c @ take (nat ?n) buf \<and>
     cb_tail (write_loop c buf ?n) = cb_tail c \<and> cb_size (write_loop c buf ?n) = cb_size c"
    using assms by (intro write_loop_spec cbuf_ok_ring_ok) auto
  show "write_cbuf (Some c) buf sz = (Some (write_loop c buf ?n), ?n)"
    by (simp add: write_cbuf_def Let_def)
  show "cbuf_ok (write_loop c buf ?n)" using spec assms by (auto simp: ring_ok_def cbuf_ok_def)
  show "cb_size (write_loop c buf ?n) = cb_size c" "cb_tail (write_loop c buf ?n) = cb_tail c"
    "contents (write_loop c buf ?n) = contents c @ take (nat ?n) buf"
    using spec by simp_all
qed

lemma read_cbuf_spec:
  assumes ok: "cbuf_ok c" and "0 \<le> sz"
  obtains c' where "read_cbuf (Some c) sz =
      (Some c', take (nat (min (cbufused c) sz)) (contents c), min (cbufused c) sz)"
    and "cbuf_ok c'" "cb_size c' = cb_size c"
    and "contents c' = drop (nat (min (cbufused c) sz)) (contents c)"
proof -
  let ?n = "min (cbufused c) sz"
  let ?c1 = "read_round c ?n"
  let ?c2 = "if cb_tail ?c1 \<ge> cb_size ?c1
      then ?c1\<lparr>cb_head := cb_head ?c1 - cb_size ?c1, cb_tail := cb_tail ?c1 - cb_size ?c1\<rparr> else ?c1"
  have used: "0 \<le> cbufused c" using ok by (simp add: cbuf_ok_def cbufused_def)
  have loop: "read_loop c [] ?n = (?c1, take (nat ?n) (contents c))"
    using read_loop_spec [of c ?n "[]"] cbuf_ok_ring_ok [OF ok] used assms(2) by simp
  have held: "contents ?c1 = drop (nat ?n) (contents c)"
    using contents_read_round [of c ?n] cbuf_ok_ring_ok [OF ok] used assms(2) by simp
  have "read_cbuf (Some c) sz = (Some ?c2, take (nat ?n) (contents c), ?n)"
    by (simp add: read_cbuf_def Let_def loop)
  moreover have "cbuf_ok ?c2"
    using ok used assms(2) by (auto simp: cbuf_ok_def read_round_def cbufused_def)
  moreover have "cb_size ?c2 = cb_size c" by (simp add: read_round_def)
  moreover have "contents ?c2 = contents ?c1"
    by (auto intro: contents_ring_shift)
  ultimately show thesis using that held by metis
qed

lemma nat_free_min:
  assumes "cbuf_ok c"
  shows "nat (min (cbuffree c) (int n)) = min (nat (cb_size c) - nat (cbufused c)) n"
proof -
  have "0 \<le> cbufused c" "cbufused c \<le> cb_size c"
    using assms by (auto simp: cbuf_ok_def cbufused_def)
  then show ?thesis by (simp add: cbuffree_def min_def nat_diff_distrib nat_le_iff) linarith
qed

interpretation cbuf_fifo: byte_fifo cbuf_put cbuf_get contents "\<lambda>c. nat (cb_size c)" cbuf_ok
proof (unfold_locales, goal_cases)
  case (1 q)
  then show ?case by (auto simp: cbuf_ok_def cbufused_def intro: nat_mono)
next
  case (2 q xs)
  then show ?case
    by (rule write_cbuf_spec [where sz = "int (length xs)" and buf = xs]) (simp_all add: cbuf_put_def)
next
  case (3 q xs)
  then show ?case
    by (rule write_cbuf_spec [where sz = "int (length xs)" and buf = xs]) (simp_all add: cbuf_put_def)
next
  case (4 q xs)
  show ?case
    by (rule write_cbuf_spec [OF 4, where sz = "int (length xs)" and buf = xs])
      (simp_all add: cbuf_put_def nat_free_min [OF 4])
next
  case (5 q xs)
  then show ?case
    by (rule write_cbuf_spec [where sz = "int (length xs)" and buf = xs]) (simp_all add: cbuf_put_def)
next
  case (6 q n)
  then show ?case by (rule read_cbuf_spec [where sz = "int n"]) (simp_all add: cbuf_get_def)
next
  case (7 q n)
  then show ?case
    by (rule read_cbuf_spec [where sz = "int n"])
      (auto simp: cbuf_get_def min_def nat_le_iff)
next
  case (8 q n)
  then show ?case
    by (rule read_cbuf_spec [where sz = "int n"])
      (auto simp: cbuf_get_def min_def nat_le_iff)
next
  case (9 q n)
  then show ?case by (rule read_cbuf_spec [where sz = "int n"]) (simp_all add: cbuf_get_def)
qed

section \<open>Properties\<close>

text \<open>C9. Over every sequence of writes and reads on a freshly allocated circular buffer of
  positive size, the octets the readers got, followed by what the buffer still holds, are
  exactly the octets the writers were told were accepted, in order; the buffer never holds
  more than its size and its indices stay well formed.\<close>

theorem cbuf_stream:
  assumes "0 < sz"
    and "fifo_run cbuf_put cbuf_get (alloc_cbuf sz) ops = (c, accepted, delivered)"
  shows "delivered @ contents c = accepted \<and> cbuf_ok c \<and> length (contents c) \<le> nat sz"
proof -
  note alloc = alloc_cbuf_ok [OF assms(1)]
  have run: "cbuf_ok c \<and> nat (cb_size c) = nat (cb_size (alloc_cbuf sz)) \<and>
      delivered @ contents c = contents (alloc_cbuf sz) @ accepted"
    using cbuf_fifo.run_stream [OF _ assms(2)] alloc by blast
  then have "length (contents c) \<le> nat (cb_size c)" using cbuf_fifo.bounded by blast
  then show ?thesis using run alloc by (simp add: alloc_cbuf_def)
qed

theorem cbuf_stream_witness:
  "\<exists>c. fifo_run cbuf_put cbuf_get (alloc_cbuf 4) [Put [1, 2, 3], Get 2, Put [4, 5, 6, 7], Get 3] =
       (c, [1, 2, 3, 4, 5, 6], [1, 2, 3, 4, 5]) \<and>
     [1, 2, 3, 4, 5] @ contents c = ([1, 2, 3, 4, 5, 6] :: octets)"
proof -
  let ?r = "fifo_run cbuf_put cbuf_get (alloc_cbuf 4) [Put [1, 2, 3], Get 2, Put [4, 5, 6, 7], Get 3]"
  have "snd ?r = ([1, 2, 3, 4, 5, 6], [1, 2, 3, 4, 5])" by code_simp
  then have r: "?r = (fst ?r, [1, 2, 3, 4, 5, 6], [1, 2, 3, 4, 5])" by (metis prod.collapse)
  then show ?thesis using cbuf_stream [of 4, OF _ r] by auto
qed

text \<open>Writing \<open>sz\<close> octets into a well-formed buffer stores exactly the first
  \<open>min (free, sz)\<close> of them behind what it held and returns that number; reading then
  returns the octets in order; neither moves an index out of range, whatever the position of
  the wrap-around.\<close>

theorem write_read_cbuf:
  assumes "cbuf_ok c" "0 \<le> sz" "nat sz \<le> length buf" "0 \<le> rsz"
  shows "\<exists>c1 c2. write_cbuf (Some c) buf sz = (Some c1, min (cbuffree c) sz) \<and> cbuf_ok c1 \<and>
     contents c1 = contents c @ take (nat (min (cbuffree c) sz)) buf \<and>
     read_cbuf (Some c1) rsz =
       (Some c2, take (nat rsz) (contents c1), min (cbufused c1) rsz) \<and> cbuf_ok c2 \<and>
     contents c2 = drop (nat rsz) (contents c1)"
proof -
  obtain c1 where 1: "write_cbuf (Some c) buf sz = (Some c1, min (cbuffree c) sz)" "cbuf_ok c1"
      "contents c1 = contents c @ take (nat (min (cbuffree c) sz)) buf"
    using write_cbuf_spec [OF assms(1-3)] by metis
  have min: "take (nat (min (cbufused c1) rsz)) (contents c1) = take (nat rsz) (contents c1)"
      "drop (nat (min (cbufused c1) rsz)) (contents c1) = drop (nat rsz) (contents c1)"
    by (simp_all add: min_def)
  then obtain c2 where "read_cbuf (Some c1) rsz =
       (Some c2, take (nat rsz) (contents c1), min (cbufused c1) rsz)" "cbuf_ok c2"
      "contents c2 = drop (nat rsz) (contents c1)"
    using read_cbuf_spec [OF 1(2) assms(4)] by metis
  with 1 show ?thesis by blast
qed

theorem write_read_cbuf_witness:
  "\<exists>c1 c2. write_cbuf (Some (alloc_cbuf 3)) [7, 8, 9, 10] 4 = (Some c1, 3) \<and>
     read_cbuf (Some c1) 2 = (Some c2, [7, 8], 2) \<and> contents c2 = [9]"
proof -
  have ok: "cbuf_ok (alloc_cbuf 3)" "contents (alloc_cbuf 3) = []" "cbuffree (alloc_cbuf 3) = 3"
    using alloc_cbuf_ok [of 3] by (simp_all add: alloc_cbuf_def cbuffree_def cbufused_def)
  have "cbufused c1 = 3" if "contents c1 = [7, 8, 9]" for c1
    using that length_contents [of c1] by simp
  then show ?thesis
    using write_read_cbuf [of "alloc_cbuf 3" 4 "[7, 8, 9, 10]" 2] ok by (auto simp: eval_nat_numeral)
qed

end
