(* ===== verification/Sock.thy ===== *)
theory Sock
  imports Ip_Frag Wait Cbuf
begin

text \<open>
  The protocol independent part of the sockets (\<^verbatim>\<open>tapip/socket/sock.c\<close>,
  \<^verbatim>\<open>tapip/include/sock.h\<close>, \<^verbatim>\<open>tapip/include/socket.h\<close>) and the state of the whole
  stack. Socks and sockets are addressed by numbers; a sock whose last reference is released
  keeps its record and is marked \<open>sk_freed\<close>. A sock of any protocol is a \<open>tcp_sock\<close> record
  here; the part behind \<open>sock\<close> belongs to TCP alone.
\<close>

section \<open>Structures\<close>

datatype sock_ops = TCP_OPS | UDP_OPS | RAW_OPS

text \<open>The lists a sock can be hashed into, and the queues a child connection can wait in.\<close>

datatype hash_head = HUdp nat | HRaw nat | HEst nat | HLis nat

datatype queue_ref = ListenQ nat | AcceptQ nat

text \<open>A wait pointer is \<^verbatim>\<open>NULL\<close> or the address of the \<^verbatim>\<open>sleep\<close> field of a socket.\<close>

record sock =
  sk_protocol :: u8
  sk_saddr :: u32
  sk_daddr :: u32
  sk_sport :: u16
  sk_dport :: u16
  sk_sock :: "nat option"
  sk_ops :: sock_ops
  sk_dst :: "rtentry option"
  recv_queue :: "pkbuf list"
  recv_wait :: "nat option"
  sk_hash :: nat
  hash_list :: "hash_head option"
  sk_refcnt :: int
  sk_freed :: bool

datatype tcp_state =
  TCP_CLOSED | TCP_LISTEN | TCP_SYN_RECV | TCP_SYN_SENT | TCP_ESTABLISHED | TCP_CLOSE_WAIT |
  TCP_LAST_ACK | TCP_FIN_WAIT1 | TCP_FIN_WAIT2 | TCP_CLOSING | TCP_TIME_WAIT

text \<open>\<^verbatim>\<open>NULL\<close>, a listening sock, or the mark \<^verbatim>\<open>TCP_DEAD_PARENT\<close> of an accepted connection.\<close>

datatype parent_ref = NoParent | Parent nat | DeadParent

record tcp_reass_head =
  trh_pkb :: pkbuf
  trh_data :: octets
  trh_seq :: u32
  trh_len :: u32

record tcp_sock = sock +
  bhash_list :: bool
  bhash :: nat
  accept_backlog :: int
  backlog :: int
  listen_queue :: "nat list"
  accept_queue :: "nat list"
  tsk_list :: "queue_ref option"
  tw_next :: "nat option"
  tw_timeout :: int
  wait_accept :: "nat option"
  wait_connect :: "nat option"
  parent :: parent_ref
  f_push :: bool
  f_acknow :: bool
  f_ackdelay :: bool
  rcv_buf :: "cbuf option"
  rcv_reass :: "tcp_reass_head list"
  snd_una :: u32
  snd_nxt :: u32
  snd_wnd :: u32
  snd_up :: u32
  snd_wl1 :: u32
  snd_wl2 :: u32
  iss :: u32
  rcv_nxt :: u32
  rcv_wnd :: u32
  rcv_up :: u32
  irs :: u32
  state :: tcp_state

record sock_addr =
  src_addr :: u32
  dst_addr :: u32
  src_port :: u16
  dst_port :: u16

datatype sock_type = SOCK_STREAM | SOCK_DGRAM | SOCK_RAW

record socket =
  so_type :: sock_type
  so_sleep :: tapip_wait
  so_ops :: bool
  so_sk :: "nat option"
  so_refcnt :: int
  so_freed :: bool

text \<open>
  The state above the link: the socks and sockets, the hash table shared by the three
  protocols, the port tables of UDP and TCP, and the list of connections in TIME-WAIT.
\<close>

record stack = net +
  socks :: "nat \<Rightarrow> tcp_sock"
  alloc_socks :: nat
  free_socks :: nat
  htab :: "hash_head \<Rightarrow> nat list"
  udp_used :: "nat \<Rightarrow> int"
  best_slot :: nat
  best_update :: int
  udp_id :: u16
  raw_id :: u16
  btable :: "nat \<Rightarrow> nat list"
  bfree :: int
  defport :: u16
  tcp_iss :: u32
  tcp_id :: u32
  timewait :: "nat option"
  sockets :: "nat \<Rightarrow> socket"
  alloc_sockets :: nat

type_synonym 'a stack_xmit = "'a stack_ext xmit_fn"

definition upd_sk :: "nat \<Rightarrow> (tcp_sock \<Rightarrow> tcp_sock) \<Rightarrow> 'a stack_scheme \<Rightarrow> 'a stack_scheme" where
  "upd_sk i f w = w\<lparr>socks := (socks w)(i := f (socks w i))\<rparr>"

definition upd_so :: "nat \<Rightarrow> (socket \<Rightarrow> socket) \<Rightarrow> 'a stack_scheme \<Rightarrow> 'a stack_scheme" where
  "upd_so s f w = w\<lparr>sockets := (sockets w)(s := f (sockets w s))\<rparr>"

definition zero_sock :: "sock_ops \<Rightarrow> tcp_sock" where
  "zero_sock ops =
     \<lparr>sk_protocol = 0, sk_saddr = 0, sk_daddr = 0, sk_sport = 0, sk_dport = 0, sk_sock = None,
      sk_ops = ops, sk_dst = None, recv_queue = [], recv_wait = None, sk_hash = 0, hash_list = None,
      sk_refcnt = 0, sk_freed = False, bhash_list = False, bhash = 0, accept_backlog = 0, backlog = 0,
      listen_queue = [], accept_queue = [], tsk_list = None, tw_next = None, tw_timeout = 0,
      wait_accept = None, wait_connect = None, parent = NoParent, f_push = False, f_acknow = False,
      f_ackdelay = False, rcv_buf = None, rcv_reass = [], snd_una = 0, snd_nxt = 0, snd_wnd = 0,
      snd_up = 0, snd_wl1 = 0, snd_wl2 = 0, iss = 0, rcv_nxt = 0, rcv_wnd = 0, rcv_up = 0, irs = 0,
      state = TCP_CLOSED\<rparr>"

text \<open>The variables of the stack when the process starts; \<open>empty_socket\<close> stands for memory not in use.\<close>

definition empty_socket :: socket where
  "empty_socket =
     \<lparr>so_type = SOCK_STREAM, so_sleep = wait_init, so_ops = False, so_sk = None, so_refcnt = 0, so_freed = False\<rparr>"

definition stack_bss :: stack where
  "stack_bss = net.extend bss
     (stack.fields (\<lambda>_. zero_sock TCP_OPS) 0 0 (\<lambda>_. []) (\<lambda>_. 0) 0 0 0 0 (\<lambda>_. []) 0 0x8000 12345678 0 None
        (\<lambda>_. empty_socket) 0)"

text \<open>\<^verbatim>\<open>xzalloc\<close> of a sock: a new, zeroed record.\<close>

definition new_sock :: "tcp_sock \<Rightarrow> 'a stack_scheme \<Rightarrow> nat \<times> 'a stack_scheme" where
  "new_sock sk w =
     (alloc_socks w, w\<lparr>socks := (socks w)(alloc_socks w := sk), alloc_socks := alloc_socks w + 1\<rparr>)"

text \<open>A failed assertion or an access through \<^verbatim>\<open>NULL\<close> ends the process.\<close>

definition crash :: "'a net_scheme \<Rightarrow> 'a net_scheme" where
  "crash w = w\<lparr>exited := True\<rparr>"

section \<open>References and hashing\<close>

definition get_sock :: "nat \<Rightarrow> 'a stack_scheme \<Rightarrow> 'a stack_scheme" where
  "get_sock i w = upd_sk i (\<lambda>sk. sk\<lparr>sk_refcnt := sk_refcnt sk + 1\<rparr>) w"

definition free_sock :: "nat \<Rightarrow> 'a stack_scheme \<Rightarrow> 'a stack_scheme" where
  "free_sock i w =
     (let w1 = upd_sk i (\<lambda>sk. sk\<lparr>sk_refcnt := sk_refcnt sk - 1\<rparr>) w
      in if sk_refcnt (socks w1 i) \<le> 0
         then (upd_sk i (\<lambda>sk. sk\<lparr>sk_freed := True\<rparr>) w1)\<lparr>free_socks := free_socks w1 + 1\<rparr>
         else w1)"

definition sock_add_hash :: "nat \<Rightarrow> hash_head \<Rightarrow> 'a stack_scheme \<Rightarrow> 'a stack_scheme" where
  "sock_add_hash i h w =
     (let w1 = get_sock i w
      in (upd_sk i (\<lambda>sk. sk\<lparr>hash_list := Some h\<rparr>) w1)\<lparr>htab := (htab w1)(h := i # htab w1 h)\<rparr>)"

definition sock_del_hash :: "nat \<Rightarrow> 'a stack_scheme \<Rightarrow> 'a stack_scheme" where
  "sock_del_hash i w =
     (case hash_list (socks w i) of
        None \<Rightarrow> w
      | Some h \<Rightarrow>
          free_sock i
            ((upd_sk i (\<lambda>sk. sk\<lparr>hash_list := None\<rparr>) w)\<lparr>htab := (htab w)(h := remove1 i (htab w h))\<rparr>))"

section \<open>Waking and receiving\<close>

definition wake_socket :: "nat \<Rightarrow> 'a stack_scheme \<Rightarrow> 'a stack_scheme" where
  "wake_socket s w = upd_so s (\<lambda>so. so\<lparr>so_sleep := snd (snd (wake_up (so_sleep so)))\<rparr>) w"

definition wake_ptr :: "nat option \<Rightarrow> 'a stack_scheme \<Rightarrow> 'a stack_scheme" where
  "wake_ptr p w = (case p of None \<Rightarrow> w | Some s \<Rightarrow> wake_socket s w)"

definition sock_recv_notify :: "nat \<Rightarrow> 'a stack_scheme \<Rightarrow> 'a stack_scheme" where
  "sock_recv_notify i w =
     (if recv_queue (socks w i) \<noteq> [] then wake_ptr (recv_wait (socks w i)) w else w)"

definition tcp_recv_notify :: "nat \<Rightarrow> 'a stack_scheme \<Rightarrow> 'a stack_scheme" where
  "tcp_recv_notify i w = wake_ptr (recv_wait (socks w i)) w"

text \<open>\<^verbatim>\<open>sk->ops->recv_notify(sk)\<close>.\<close>

definition recv_notify :: "nat \<Rightarrow> 'a stack_scheme \<Rightarrow> 'a stack_scheme" where
  "recv_notify i w =
     (case sk_ops (socks w i) of TCP_OPS \<Rightarrow> tcp_recv_notify i w | _ \<Rightarrow> sock_recv_notify i w)"

text \<open>
  What a call that may block returns to its caller, or that the calling thread is now in
  \<^verbatim>\<open>sleep_on\<close> and takes the round again once it is woken.
\<close>

datatype 'r outcome = Return 'r | Sleeping

definition sleep_socket :: "nat option \<Rightarrow> 'a stack_scheme \<Rightarrow> int option \<times> 'a stack_scheme" where
  "sleep_socket p w =
     (case p of
        None \<Rightarrow> (Some 0, crash w)
      | Some s \<Rightarrow>
          (let (r, wt) = sleep_enter (so_sleep (sockets w s))
           in (r, upd_so s (\<lambda>so. so\<lparr>so_sleep := wt\<rparr>) w)))"

text \<open>
  The loop of \<^verbatim>\<open>sock_recv_pkb\<close>, one round per call. A notification that was already pending
  makes \<^verbatim>\<open>sleep_on\<close> return at once; the loop then looks at the queue again, and the
  notification is consumed, so that a second round decides.
\<close>

fun sock_recv_rounds ::
  "nat \<Rightarrow> nat \<Rightarrow> 'a stack_scheme \<Rightarrow> pkbuf option outcome \<times> 'a stack_scheme" where
  "sock_recv_rounds 0 i w = (Sleeping, w)"
| "sock_recv_rounds (Suc n) i w =
     (case recv_queue (socks w i) of
        pkb # rest \<Rightarrow> (Return (Some pkb), upd_sk i (\<lambda>sk. sk\<lparr>recv_queue := rest\<rparr>) w)
      | [] \<Rightarrow>
          (case sleep_socket (recv_wait (socks w i)) w of
             (None, w1) \<Rightarrow> (Sleeping, w1)
           | (Some r, w1) \<Rightarrow> if r < 0 then (Return None, w1) else sock_recv_rounds n i w1))"

definition sock_recv_pkb :: "nat \<Rightarrow> 'a stack_scheme \<Rightarrow> pkbuf option outcome \<times> 'a stack_scheme" where
  "sock_recv_pkb i w = sock_recv_rounds 2 i w"

end
