(* ===== verification/Raw.thy ===== *)
theory Raw
  imports Sock
begin

text \<open>
  Raw sockets: \<^verbatim>\<open>tapip/socket/raw_sock.c\<close> and \<^verbatim>\<open>tapip/ip/raw.c\<close>. The hash table of raw
  socks is the part \<open>HRaw\<close> of \<open>htab\<close>, indexed by the protocol number.
\<close>

definition raw_hash :: "nat \<Rightarrow> 'a stack_scheme \<Rightarrow> 'a stack_scheme" where
  "raw_hash i w = sock_add_hash i (HRaw (unat (sk_protocol (socks w i)))) w"

definition raw_unhash :: "nat \<Rightarrow> 'a stack_scheme \<Rightarrow> 'a stack_scheme" where
  "raw_unhash i w = sock_del_hash i w"

definition raw_init_pkb :: "tcp_sock \<Rightarrow> u16 \<Rightarrow> sock_addr \<Rightarrow> pkbuf \<Rightarrow> octets" where
  "raw_init_pkb sk ident skaddr pkb =
     (let b1 = set_ip_ver_hlen 4 5 (pk_data pkb);
          b2 = set_ip_tos 0 b1;
          b3 = set_ip_len (htons (word_of_int (pk_len pkb - int ETH_HRD_SZ))) b2;
          b4 = set_ip_id (htons ident) b3;
          b5 = set_ip_fragoff 0 b4;
          b6 = set_ip_ttl 64 b5;
          b7 = set_ip_pro (sk_protocol sk) b6;
          b8 = set_ip_src (sk_saddr sk) b7
      in set_ip_dst (dst_addr skaddr) b8)"

text \<open>
  \<^verbatim>\<open>raw_send_pkb\<close> reads \<^verbatim>\<open>pk_len\<close> after \<^verbatim>\<open>ip_send_out\<close> may have released the packet; the
  model returns the length the packet had.
\<close>

definition raw_send_pkb :: "'a stack_xmit \<Rightarrow> pkbuf \<Rightarrow> 'a stack_scheme \<Rightarrow> int \<times> 'a stack_scheme" where
  "raw_send_pkb xmit pkb w =
     (pk_len pkb - int ETH_HRD_SZ - int IP_HRD_SZ, ip_send_out xmit pkb w)"

definition raw_send_buf ::
  "'a stack_xmit \<Rightarrow> nat \<Rightarrow> octets \<Rightarrow> int \<Rightarrow> sock_addr \<Rightarrow> 'a stack_scheme \<Rightarrow> int \<times> 'a stack_scheme" where
  "raw_send_buf xmit i buf sz skaddr w =
     (if sz < 0 \<or> sz > 65536 then (-1, w)
      else
        (let (pkb, w1) = alloc_pkb (ETH_HRD_SZ + IP_HRD_SZ + nat sz) w;
             pkb1 = pkb\<lparr>pk_data := memcpy_at (ETH_HRD_SZ + IP_HRD_SZ) (take (nat sz) buf) (pk_data pkb)\<rparr>;
             pkb2 = pkb1\<lparr>pk_data := raw_init_pkb (socks w1 i) (raw_id w1) skaddr pkb1\<rparr>
         in raw_send_pkb xmit pkb2 w1))"

definition raw_alloc_sock :: "int \<Rightarrow> 'a stack_scheme \<Rightarrow> nat option \<times> 'a stack_scheme" where
  "raw_alloc_sock protocol w =
     (if protocol = 0 then (None, w)
      else (let (i, w1) = new_sock ((zero_sock RAW_OPS)\<lparr>sk_hash := nat (protocol mod 2 ^ 32)\<rparr>) w
            in (Some i, w1\<lparr>raw_id := raw_id w1 + 1\<rparr>)))"

definition raw_init :: "'a stack_scheme \<Rightarrow> 'a stack_scheme" where
  "raw_init w =
     w\<lparr>htab := (\<lambda>h. case h of HRaw _ \<Rightarrow> [] | _ \<Rightarrow> htab w h), raw_id := 0\<rparr>"

section \<open>Delivery\<close>

text \<open>
  \<^verbatim>\<open>raw_lookup_sock\<close> and \<^verbatim>\<open>raw_lookup_sock_next\<close> together visit every matching sock of the
  list of the protocol, in order. The bound local address is compared with the source of the
  packet.
\<close>

definition raw_matches :: "u32 \<Rightarrow> u32 \<Rightarrow> u8 \<Rightarrow> tcp_sock \<Rightarrow> bool" where
  "raw_matches src dst proto sk \<longleftrightarrow>
     sk_protocol sk = proto \<and> (sk_saddr sk = 0 \<or> sk_saddr sk = src) \<and>
     (sk_daddr sk = 0 \<or> sk_daddr sk = dst)"

definition raw_lookup_sock :: "u32 \<Rightarrow> u32 \<Rightarrow> u8 \<Rightarrow> 'a stack_scheme \<Rightarrow> nat list" where
  "raw_lookup_sock src dst proto w =
     filter (\<lambda>i. raw_matches src dst proto (socks w i)) (htab w (HRaw (unat proto)))"

definition raw_recv :: "pkbuf \<Rightarrow> nat \<Rightarrow> 'a stack_scheme \<Rightarrow> 'a stack_scheme" where
  "raw_recv pkb i w =
     recv_notify i (upd_sk i (\<lambda>sk. sk\<lparr>recv_queue := recv_queue sk @ [pkb]\<rparr>) w)"

definition raw_deliver :: "pkbuf \<Rightarrow> nat \<Rightarrow> 'a stack_scheme \<Rightarrow> 'a stack_scheme" where
  "raw_deliver pkb i w = (let (rawpkb, w1) = copy_pkb pkb w in raw_recv rawpkb i w1)"

definition raw_in :: "pkbuf \<Rightarrow> 'a stack_scheme \<Rightarrow> 'a stack_scheme" where
  "raw_in pkb w =
     (let b = pk_data pkb
      in fold (raw_deliver pkb) (raw_lookup_sock (ip_src b) (ip_dst b) (ip_pro b) w) w)"

end
