(* ===== verification/Udp.thy ===== *)
theory Udp
  imports Sock
begin

text \<open>
  UDP: \<^verbatim>\<open>tapip/udp/udp.c\<close> and \<^verbatim>\<open>tapip/udp/udp_sock.c\<close>. The table has 128 slots; the
  list of a slot is the part \<open>HUdp\<close> of \<open>htab\<close> and its counter is \<open>udp_used\<close>. The mutex of
  the table makes its operations atomic.
\<close>

section \<open>Ports\<close>

abbreviation (input) UDP_HASH_SIZE :: nat where "UDP_HASH_SIZE \<equiv> 128"
abbreviation (input) UDP_PORT_MIN :: nat where "UDP_PORT_MIN \<equiv> 0x8000"
abbreviation (input) UDP_PORT_MAX :: nat where "UDP_PORT_MAX \<equiv> 0xf000"
abbreviation (input) UDP_BEST_UPDATE :: int where "UDP_BEST_UPDATE \<equiv> 10"

text \<open>A port in host order is a number here; \<open>nport\<close> is its network order.\<close>

definition nport_of :: "nat \<Rightarrow> u16" where
  "nport_of port = htons (of_nat port)"

definition port_used :: "nat \<Rightarrow> nat \<Rightarrow> 'a stack_scheme \<Rightarrow> bool" where
  "port_used port slot w \<longleftrightarrow> (\<exists>i \<in> set (htab w (HUdp slot)). sk_sport (socks w i) = nport_of port)"

function best_scan :: "nat \<Rightarrow> nat \<Rightarrow> 'a stack_scheme \<Rightarrow> nat" where
  "best_scan port slot w =
     (if port < UDP_PORT_MAX \<and> port_used port slot w then best_scan (port + UDP_HASH_SIZE) slot w
      else port)"
  by pat_completeness auto
termination by (relation "measure (\<lambda>(port, slot, w). UDP_PORT_MAX - port)") auto

declare best_scan.simps [simp del]

definition udp_get_best_port :: "'a stack_scheme \<Rightarrow> nat \<times> 'a stack_scheme" where
  "udp_get_best_port w =
     (let s = best_slot w;
          port = s + UDP_PORT_MIN;
          port1 = (if udp_used w s \<noteq> 0 then best_scan port s w else port)
      in if udp_used w s \<noteq> 0 \<and> port1 \<ge> UDP_PORT_MAX then (0, w)
         else (port1, w\<lparr>udp_used := (udp_used w)(s := udp_used w s + 1)\<rparr>))"

definition udp_update_best :: "nat \<Rightarrow> 'a stack_scheme \<Rightarrow> 'a stack_scheme" where
  "udp_update_best hash w =
     (if best_slot w \<noteq> hash \<and> udp_used w hash < udp_used w (best_slot w)
      then w\<lparr>best_slot := hash\<rparr> else w)"

text \<open>The first slot with the fewest used ports below that of the best slot.\<close>

definition slow_scan :: "'a stack_scheme \<Rightarrow> nat \<times> int" where
  "slow_scan w =
     fold (\<lambda>i (s, u). if udp_used w i < u then (i, udp_used w i) else (s, u)) [0..<UDP_HASH_SIZE]
       (best_slot w, udp_used w (best_slot w))"

definition udp_get_port_slow :: "'a stack_scheme \<Rightarrow> nat \<times> 'a stack_scheme" where
  "udp_get_port_slow w =
     (let s = fst (slow_scan w)
      in if s = best_slot w then (0, w)
         else udp_get_best_port (w\<lparr>best_slot := s, best_update := UDP_BEST_UPDATE\<rparr>))"

text \<open>
  \<^verbatim>\<open>udp_get_port\<close> returns a port in network order, except that the result of the slow path
  is handed on in host order.
\<close>

definition udp_get_port :: "'a stack_scheme \<Rightarrow> u16 \<times> 'a stack_scheme" where
  "udp_get_port w =
     (let best = best_slot w; (port, w1) = udp_get_best_port w
      in if port = 0 then (let (p, w2) = udp_get_port_slow w1 in (of_nat p, w2))
         else
           (let w2 = w1\<lparr>best_update := best_update w1 - 1\<rparr>;
                w3 = (if best_update w2 \<le> 0
                      then (let w3 = w2\<lparr>best_update := UDP_BEST_UPDATE\<rparr>
                            in case find (\<lambda>i. udp_used w3 i < udp_used w3 best) [0..<UDP_HASH_SIZE] of
                                 None \<Rightarrow> w3 | Some i \<Rightarrow> w3\<lparr>best_slot := i\<rparr>)
                      else w2)
            in (nport_of port, w3)))"

definition udp_hash :: "nat \<Rightarrow> 'a stack_scheme \<Rightarrow> 'a stack_scheme" where
  "udp_hash i w = sock_add_hash i (HUdp (sk_hash (socks w i))) w"

definition udp_set_sport :: "nat \<Rightarrow> u16 \<Rightarrow> 'a stack_scheme \<Rightarrow> int \<times> 'a stack_scheme" where
  "udp_set_sport i nport w =
     (let (nport1, w1) =
        (if nport \<noteq> 0
         then (if port_used (unat (ntohs nport)) (unat (ntohs nport) mod UDP_HASH_SIZE) w
               then (0, w) else (nport, w))
         else udp_get_port w)
      in if nport1 = 0 then (-1, w1)
         else
           (let hash = unat (ntohs nport1) mod UDP_HASH_SIZE;
                w2 = udp_update_best hash w1;
                w3 = upd_sk i (\<lambda>sk. sk\<lparr>sk_hash := hash, sk_sport := nport1\<rparr>) w2
            in (0, udp_hash i w3)))"

definition udp_unset_sport :: "nat \<Rightarrow> 'a stack_scheme \<Rightarrow> 'a stack_scheme" where
  "udp_unset_sport i w =
     (let s = sk_hash (socks w i)
      in udp_update_best s (w\<lparr>udp_used := (udp_used w)(s := udp_used w s - 1)\<rparr>))"

definition udp_unhash :: "nat \<Rightarrow> 'a stack_scheme \<Rightarrow> 'a stack_scheme" where
  "udp_unhash i w = sock_del_hash i (udp_unset_sport i w)"

definition udp_lookup_sock :: "u16 \<Rightarrow> 'a stack_scheme \<Rightarrow> nat option \<times> 'a stack_scheme" where
  "udp_lookup_sock nport w =
     (case find (\<lambda>i. sk_sport (socks w i) = nport)
             (htab w (HUdp (unat (ntohs nport) mod UDP_HASH_SIZE))) of
        None \<Rightarrow> (None, w)
      | Some i \<Rightarrow> (Some i, get_sock i w))"

definition udp_init :: "'a stack_scheme \<Rightarrow> 'a stack_scheme" where
  "udp_init w =
     w\<lparr>htab := (\<lambda>h. case h of HUdp _ \<Rightarrow> [] | _ \<Rightarrow> htab w h), udp_used := (\<lambda>_. 0), best_slot := 0,
       best_update := UDP_BEST_UPDATE, udp_id := 0\<rparr>"

definition udp_alloc_sock :: "int \<Rightarrow> 'a stack_scheme \<Rightarrow> nat option \<times> 'a stack_scheme" where
  "udp_alloc_sock protocol w =
     (if protocol \<noteq> 0 \<and> protocol \<noteq> 17 then (None, w)
      else (let (i, w1) = new_sock (zero_sock UDP_OPS) w in (Some i, w1\<lparr>udp_id := udp_id w1 + 1\<rparr>)))"

section \<open>Sending\<close>

text \<open>\<open>None\<close> is the return value -1 of \<^verbatim>\<open>udp_init_pkb\<close>: no route.\<close>

definition udp_init_pkb ::
  "nat \<Rightarrow> pkbuf \<Rightarrow> octets \<Rightarrow> int \<Rightarrow> sock_addr \<Rightarrow> 'a stack_scheme \<Rightarrow> pkbuf option" where
  "udp_init_pkb i pkb buf sz skaddr w =
     (let sk = socks w i;
          b1 = set_ip_ver_hlen 4 5 (pk_data pkb);
          b2 = set_ip_tos 0 b1;
          b3 = set_ip_len (htons (word_of_int (pk_len pkb - int ETH_HRD_SZ))) b2;
          b4 = set_ip_id (htons (udp_id w)) b3;
          b5 = set_ip_fragoff 0 b4;
          b6 = set_ip_ttl 64 b5;
          b7 = set_ip_pro (sk_protocol sk) b6;
          b8 = set_ip_dst (dst_addr skaddr) b7;
          u = ETH_HRD_SZ + IP_HRD_SZ
      in case rt_output (pkb\<lparr>pk_data := b8\<rparr>) w of
           None \<Rightarrow> None
         | Some pkb1 \<Rightarrow>
             (let c1 = wr16 u (sk_sport sk) (pk_data pkb1);
                  c2 = wr16 (u + 2) (dst_port skaddr) c1;
                  c3 = wr16 (u + 4) (htons (word_of_int (sz + int UDP_HRD_SZ))) c2;
                  c4 = memcpy_at (u + UDP_HRD_SZ) (take (nat sz) buf) c3
              in Some (pkb1\<lparr>pk_data := udp_set_checksum u c4\<rparr>)))"

definition udp_send_pkb :: "'a stack_xmit \<Rightarrow> pkbuf \<Rightarrow> 'a stack_scheme \<Rightarrow> int \<times> 'a stack_scheme" where
  "udp_send_pkb xmit pkb w =
     (pk_len pkb - int ETH_HRD_SZ - int IP_HRD_SZ - int UDP_HRD_SZ, ip_send_out xmit pkb w)"

text \<open>
  Without an address and without a connection the local \<^verbatim>\<open>sk_addr\<close> is read uninitialised;
  \<open>junk\<close> is what it holds.
\<close>

definition udp_send_buf ::
  "'a stack_xmit \<Rightarrow> sock_addr \<Rightarrow> nat \<Rightarrow> octets \<Rightarrow> int \<Rightarrow> sock_addr option \<Rightarrow> 'a stack_scheme \<Rightarrow>
     int \<times> 'a stack_scheme" where
  "udp_send_buf xmit junk i buf sz skaddr w =
     (if sz \<le> 0 \<or> sz > 0xffff - int UDP_HRD_SZ then (-1, w)
      else
        (let sk = socks w i;
             a = (case skaddr of
                    Some a \<Rightarrow> junk\<lparr>dst_addr := dst_addr a, dst_port := dst_port a\<rparr>
                  | None \<Rightarrow> if sk_dport sk \<noteq> 0
                            then junk\<lparr>dst_addr := sk_daddr sk, dst_port := sk_dport sk\<rparr> else junk)
         in if dst_addr a = 0 \<or> dst_port a = 0 then (-1, w)
            else
              (let (err, w1) = (if sk_sport sk = 0 then udp_set_sport i 0 w else (0, w))
               in if err < 0 then (-1, w1)
                  else
                    (let (pkb, w2) = alloc_pkb (ETH_HRD_SZ + IP_HRD_SZ + UDP_HRD_SZ + nat sz) w1
                     in case udp_init_pkb i pkb buf sz a w2 of
                          None \<Rightarrow> (-1, free_pkb pkb w2)
                        | Some pkb1 \<Rightarrow> udp_send_pkb xmit pkb1 w2))))"

section \<open>Receiving\<close>

definition udp_recv :: "'a stack_xmit \<Rightarrow> nat \<Rightarrow> pkbuf \<Rightarrow> 'a stack_scheme \<Rightarrow> 'a stack_scheme" where
  "udp_recv xmit u pkb w =
     (case udp_lookup_sock (udp_dst u (pk_data pkb)) w of
        (None, w1) \<Rightarrow>
          free_pkb pkb (icmp_send xmit ICMP_T_DESTUNREACH ICMP_PORT_UNREACH 0 pkb w1)
      | (Some i, w1) \<Rightarrow>
          free_sock i (recv_notify i (upd_sk i (\<lambda>sk. sk\<lparr>recv_queue := recv_queue sk @ [pkb]\<rparr>) w1)))"

definition udp_in :: "'a stack_xmit \<Rightarrow> pkbuf \<Rightarrow> 'a stack_scheme \<Rightarrow> 'a stack_scheme" where
  "udp_in xmit pkb w =
     (let b = pk_data pkb;
          u = ipdata_off b;
          iplen = ipdlen b;
          ulen = int (unat (ntohs (udp_length u b)))
      in if sz_less iplen UDP_HRD_SZ \<or> iplen < ulen then free_pkb pkb w
         else
           (let udplen = (if iplen > ulen then ulen else iplen)
            in if udp_checksum u b \<noteq> 0 \<and>
                  udp_chksum (ip_src b) (ip_dst b) (word_of_int udplen) (sub_octets b u (nat udplen)) \<noteq> 0
               then free_pkb pkb w
               else udp_recv xmit u pkb w))"

end
