(* ===== verification/Tcp_Hash.thy ===== *)
theory Tcp_Hash
  imports Sock
begin

text \<open>
  The tables of TCP: \<^verbatim>\<open>tapip/include/tcp_hash.h\<close> and the first half of
  \<^verbatim>\<open>tapip/tcp/tcp_sock.c\<close>. The established and the listen table are the parts \<open>HEst\<close> and
  \<open>HLis\<close> of \<open>htab\<close>; the bind table is \<open>btable\<close>.
\<close>

section \<open>Lookup\<close>

abbreviation (input) TCP_BPORT_MIN :: nat where "TCP_BPORT_MIN \<equiv> 0x8000"
abbreviation (input) TCP_BPORT_MAX :: nat where "TCP_BPORT_MAX \<equiv> 0xf000"

definition tcp_ehashfn :: "u32 \<Rightarrow> u32 \<Rightarrow> u16 \<Rightarrow> u16 \<Rightarrow> nat" where
  "tcp_ehashfn src dst sp dp =
     (let h0 = (src XOR ucast sp) XOR (dst XOR ucast dp);
          h1 = h0 XOR drop_bit 16 h0;
          h2 = h1 XOR drop_bit 8 h1
      in unat (h2 AND 0x3f))"

definition tcp_ehash_conflict :: "nat list \<Rightarrow> tcp_sock \<Rightarrow> 'a stack_scheme \<Rightarrow> bool" where
  "tcp_ehash_conflict l sk w \<longleftrightarrow>
     (\<exists>i \<in> set l. sk_saddr sk = sk_saddr (socks w i) \<and> sk_daddr sk = sk_daddr (socks w i) \<and>
        sk_sport sk = sk_sport (socks w i) \<and> sk_dport sk = sk_dport (socks w i))"

definition tcp_lookup_sock_establish ::
  "u32 \<Rightarrow> u32 \<Rightarrow> u16 \<Rightarrow> u16 \<Rightarrow> 'a stack_scheme \<Rightarrow> nat option" where
  "tcp_lookup_sock_establish src dst sp dp w =
     find (\<lambda>i. sk_saddr (socks w i) = dst \<and> sk_daddr (socks w i) = src \<and>
               sk_sport (socks w i) = dp \<and> sk_dport (socks w i) = sp)
       (htab w (HEst (tcp_ehashfn src dst sp dp)))"

definition tcp_lookup_sock_listen :: "u32 \<Rightarrow> u16 \<Rightarrow> 'a stack_scheme \<Rightarrow> nat option" where
  "tcp_lookup_sock_listen addr nport w =
     find (\<lambda>i. (sk_saddr (socks w i) = 0 \<or> sk_saddr (socks w i) = addr) \<and> sk_sport (socks w i) = nport)
       (htab w (HLis (unat (ntohs nport) mod 0x20)))"

definition tcp_lookup_sock ::
  "u32 \<Rightarrow> u32 \<Rightarrow> u16 \<Rightarrow> u16 \<Rightarrow> 'a stack_scheme \<Rightarrow> nat option \<times> 'a stack_scheme" where
  "tcp_lookup_sock src dst sp dp w =
     (case tcp_lookup_sock_establish src dst sp dp w of
        Some i \<Rightarrow> (Some i, get_sock i w)
      | None \<Rightarrow>
          (case tcp_lookup_sock_listen dst dp w of
             Some i \<Rightarrow> (Some i, get_sock i w)
           | None \<Rightarrow> (None, w)))"

section \<open>Ports\<close>

definition tcp_port_used :: "u16 \<Rightarrow> 'a stack_scheme \<Rightarrow> bool" where
  "tcp_port_used nport w \<longleftrightarrow>
     (\<exists>i \<in> set (btable w (unat (ntohs nport) mod 0x100)). sk_sport (socks w i) = nport)"

text \<open>
  The search loop of \<^verbatim>\<open>tcp_get_port\<close>. It visits the ports of the range in turn; after one
  full turn (\<open>TCP_BPORT_MAX - TCP_BPORT_MIN + 1\<close> rounds) without a free one it would go on
  for ever, which is \<open>None\<close>.
\<close>

definition next_port :: "u16 \<Rightarrow> u16" where
  "next_port p = (if p + 1 > of_nat TCP_BPORT_MAX then of_nat TCP_BPORT_MIN else p + 1)"

fun tcp_port_scan :: "nat \<Rightarrow> u16 \<Rightarrow> 'a stack_scheme \<Rightarrow> u16 option" where
  "tcp_port_scan 0 p w = None"
| "tcp_port_scan (Suc n) p w =
     (if tcp_port_used (htons p) w then tcp_port_scan n (next_port p) w else Some p)"

definition tcp_get_port :: "'a stack_scheme \<Rightarrow> (u16 \<times> 'a stack_scheme) option" where
  "tcp_get_port w =
     (if bfree w \<le> 0 then Some (0, w)
      else
        (case tcp_port_scan (TCP_BPORT_MAX - TCP_BPORT_MIN + 1) (defport w) w of
           None \<Rightarrow> None
         | Some p \<Rightarrow> Some (htons p, w\<lparr>defport := next_port p\<rparr>)))"

definition tcp_bhash :: "nat \<Rightarrow> 'a stack_scheme \<Rightarrow> 'a stack_scheme" where
  "tcp_bhash i w =
     (let w1 = get_sock i w; h = bhash (socks w1 i)
      in (upd_sk i (\<lambda>sk. sk\<lparr>bhash_list := True\<rparr>) w1)\<lparr>btable := (btable w1)(h := i # btable w1 h)\<rparr>)"

text \<open>\<open>None\<close>: the call does not return, because \<^verbatim>\<open>tcp_get_port\<close> does not.\<close>

definition tcp_set_sport :: "nat \<Rightarrow> u16 \<Rightarrow> 'a stack_scheme \<Rightarrow> (int \<times> 'a stack_scheme) option" where
  "tcp_set_sport i nport w =
     (case (if nport \<noteq> 0 then (if tcp_port_used nport w then Some (0, w) else Some (nport, w))
            else tcp_get_port w) of
        None \<Rightarrow> None
      | Some (nport1, w1) \<Rightarrow>
          if nport1 = 0 then Some (-1, w1)
          else
            (let w2 = w1\<lparr>bfree := bfree w1 - 1\<rparr>;
                 w3 = upd_sk i (\<lambda>sk. sk\<lparr>sk_sport := nport1, bhash := unat (ntohs nport1) mod 0x100\<rparr>) w2
             in Some (0, tcp_bhash i w3)))"

definition tcp_unset_sport :: "'a stack_scheme \<Rightarrow> 'a stack_scheme" where
  "tcp_unset_sport w = w\<lparr>bfree := bfree w + 1\<rparr>"

definition tcp_unbhash :: "nat \<Rightarrow> 'a stack_scheme \<Rightarrow> 'a stack_scheme" where
  "tcp_unbhash i w =
     (if bhash_list (socks w i)
      then (let w1 = tcp_unset_sport w; h = bhash (socks w1 i)
            in free_sock i
                 ((upd_sk i (\<lambda>sk. sk\<lparr>bhash_list := False\<rparr>) w1)
                    \<lparr>btable := (btable w1)(h := remove1 i (btable w1 h))\<rparr>))
      else w)"

section \<open>Hashing of connections\<close>

definition tcp_hash :: "nat \<Rightarrow> 'a stack_scheme \<Rightarrow> int \<times> 'a stack_scheme" where
  "tcp_hash i w =
     (let sk = socks w i in
      if state sk = TCP_CLOSED then (-1, w)
      else if state sk = TCP_LISTEN
      then (let h = unat (ntohs (sk_sport sk)) mod 0x20
            in (0, sock_add_hash i (HLis h) (upd_sk i (\<lambda>sk. sk\<lparr>sk_hash := h\<rparr>) w)))
      else
        (let h = tcp_ehashfn (sk_saddr sk) (sk_daddr sk) (sk_sport sk) (sk_dport sk)
         in if tcp_ehash_conflict (htab w (HEst h)) sk w then (-1, w)
            else (0, sock_add_hash i (HEst h) (upd_sk i (\<lambda>sk. sk\<lparr>sk_hash := h\<rparr>) w))))"

definition tcp_unhash :: "nat \<Rightarrow> 'a stack_scheme \<Rightarrow> 'a stack_scheme" where
  "tcp_unhash i w = upd_sk i (\<lambda>sk. sk\<lparr>sk_hash := 0\<rparr>) (sock_del_hash i w)"

text \<open>\<^verbatim>\<open>get_tcp_sock\<close>, \<^verbatim>\<open>tcp_alloc_sock\<close> and \<^verbatim>\<open>tcp_init\<close>.\<close>

definition get_tcp_sock :: "nat \<Rightarrow> 'a stack_scheme \<Rightarrow> 'a stack_scheme" where
  "get_tcp_sock i w = get_sock i w"

definition tcp_alloc_sock :: "int \<Rightarrow> 'a stack_scheme \<Rightarrow> nat option \<times> 'a stack_scheme" where
  "tcp_alloc_sock protocol w =
     (if protocol \<noteq> 0 \<and> protocol \<noteq> 6 then (None, w)
      else (let (i, w1) = new_sock ((zero_sock TCP_OPS)\<lparr>rcv_wnd := 4096\<rparr>) w
            in (Some i, w1\<lparr>tcp_id := tcp_id w1 + 1\<rparr>)))"

definition tcp_init :: "'a stack_scheme \<Rightarrow> 'a stack_scheme" where
  "tcp_init w =
     w\<lparr>htab := (\<lambda>h. case h of HEst n \<Rightarrow> (if n < 0x40 then [] else htab w h)
                  | HLis n \<Rightarrow> (if n < 0x20 then [] else htab w h) | _ \<Rightarrow> htab w h),
       bfree := int TCP_BPORT_MAX - int TCP_BPORT_MIN + 1, tcp_id := 0\<rparr>"

section \<open>The hash function\<close>

lemma tcp_ehashfn_sym: "tcp_ehashfn src dst sp dp = tcp_ehashfn dst src dp sp"
  unfolding tcp_ehashfn_def by (simp add: xor.commute)

lemma tcp_ehashfn_less: "tcp_ehashfn src dst sp dp < 0x40"
proof -
  have "unat ((x :: u32) AND 0x3f) < 0x40" for x
  proof -
    have "x AND 0x3f \<le> 0x3f" by (rule word_and_le1)
    then have "unat (x AND 0x3f) \<le> unat (0x3f :: u32)" by (simp only: word_le_nat_alt)
    then show ?thesis by simp
  qed
  then show ?thesis unfolding tcp_ehashfn_def Let_def by blast
qed

lemma sk_frame [simp]:
  "sk_saddr (socks (get_sock i w) j) = sk_saddr (socks w j)"
  "sk_daddr (socks (get_sock i w) j) = sk_daddr (socks w j)"
  "sk_sport (socks (get_sock i w) j) = sk_sport (socks w j)"
  "sk_dport (socks (get_sock i w) j) = sk_dport (socks w j)"
  "bhash_list (socks (get_sock i w) j) = bhash_list (socks w j)"
  "bhash (socks (get_sock i w) j) = bhash (socks w j)"
  "htab (get_sock i w) = htab w" "btable (get_sock i w) = btable w" "bfree (get_sock i w) = bfree w"
  "defport (get_sock i w) = defport w"
  by (simp_all add: get_sock_def upd_sk_def)

lemma free_sock_frame [simp]:
  "sk_saddr (socks (free_sock i w) j) = sk_saddr (socks w j)"
  "sk_daddr (socks (free_sock i w) j) = sk_daddr (socks w j)"
  "sk_sport (socks (free_sock i w) j) = sk_sport (socks w j)"
  "sk_dport (socks (free_sock i w) j) = sk_dport (socks w j)"
  "bhash_list (socks (free_sock i w) j) = bhash_list (socks w j)"
  "bhash (socks (free_sock i w) j) = bhash (socks w j)"
  "htab (free_sock i w) = htab w" "btable (free_sock i w) = btable w" "bfree (free_sock i w) = bfree w"
  "defport (free_sock i w) = defport w"
  by (simp_all add: free_sock_def upd_sk_def Let_def)

section \<open>The bind table\<close>

abbreviation (input) NPORTS :: nat where "NPORTS \<equiv> TCP_BPORT_MAX - TCP_BPORT_MIN + 1"

definition bound :: "'a stack_scheme \<Rightarrow> nat set" where
  "bound w = {i. bhash_list (socks w i)}"

definition bind_ok :: "'a stack_scheme \<Rightarrow> bool" where
  "bind_ok w \<longleftrightarrow>
     finite (bound w) \<and> bfree w + int (card (bound w)) = int NPORTS \<and>
     (\<forall>h. distinct (btable w h) \<and> set (btable w h) = {i \<in> bound w. bhash (socks w i) = h}) \<and>
     (\<forall>i \<in> bound w. bhash (socks w i) = unat (ntohs (sk_sport (socks w i))) mod 0x100) \<and>
     inj_on (\<lambda>i. sk_sport (socks w i)) (bound w) \<and>
     TCP_BPORT_MIN \<le> unat (defport w) \<and> unat (defport w) \<le> TCP_BPORT_MAX"

lemma port_used_iff:
  "bind_ok w \<Longrightarrow> tcp_port_used p w \<longleftrightarrow> (\<exists>i \<in> bound w. sk_sport (socks w i) = p)"
  unfolding bind_ok_def tcp_port_used_def by auto

lemma unat_next_port:
  assumes "TCP_BPORT_MIN \<le> unat p" "unat p \<le> TCP_BPORT_MAX"
  shows "unat (next_port p) = TCP_BPORT_MIN + (unat p - TCP_BPORT_MIN + 1) mod NPORTS"
proof -
  have p1: "unat (p + 1) = unat p + 1" using assms(2) by (simp add: unat_word_ariths)
  show ?thesis
  proof (cases "unat p = TCP_BPORT_MAX")
    case True
    then show ?thesis using p1 by (simp add: next_port_def word_less_nat_alt)
  next
    case False
    then show ?thesis using p1 assms by (simp add: next_port_def word_less_nat_alt)
  qed
qed

lemma next_port_range:
  assumes "TCP_BPORT_MIN \<le> unat p" "unat p \<le> TCP_BPORT_MAX"
  shows "TCP_BPORT_MIN \<le> unat (next_port p) \<and> unat (next_port p) \<le> TCP_BPORT_MAX"
  using unat_next_port [OF assms] mod_less_divisor [of NPORTS "unat p - TCP_BPORT_MIN + 1"] by simp

lemma port_scan_SomeD:
  "tcp_port_scan n p w = Some q \<Longrightarrow> TCP_BPORT_MIN \<le> unat p \<Longrightarrow> unat p \<le> TCP_BPORT_MAX \<Longrightarrow>
     \<not> tcp_port_used (htons q) w \<and> TCP_BPORT_MIN \<le> unat q \<and> unat q \<le> TCP_BPORT_MAX"
  by (induction n arbitrary: p) (auto split: if_splits dest: next_port_range)

lemma port_scan_NoneD:
  "tcp_port_scan n p w = None \<Longrightarrow> TCP_BPORT_MIN \<le> unat p \<Longrightarrow> unat p \<le> TCP_BPORT_MAX \<Longrightarrow> k < n \<Longrightarrow>
     tcp_port_used (htons (of_nat (TCP_BPORT_MIN + (unat p - TCP_BPORT_MIN + k) mod NPORTS))) w"
proof (induction n arbitrary: p k)
  case (Suc n)
  have used: "tcp_port_used (htons p) w" and rest: "tcp_port_scan n (next_port p) w = None"
    using Suc.prems(1) by (simp_all split: if_splits)
  show ?case
  proof (cases k)
    case 0
    have "0x8000 + (unat p - 0x8000) mod 0x7001 = unat p" using Suc.prems(2,3) by simp
    then show ?thesis using used 0 by simp
  next
    case (Suc j)
    note np = unat_next_port [OF Suc.prems(2,3)]
    have "(unat (next_port p) - 0x8000 + j) mod 0x7001 = (unat p - 0x8000 + k) mod 0x7001"
      using np Suc by (simp add: mod_add_left_eq)
    then show ?thesis
      using Suc.IH [OF rest, of j] next_port_range [OF Suc.prems(2,3)] Suc.prems(4) Suc by simp
  qed
qed simp

lemma htons_inj: "htons p = htons q \<longleftrightarrow> p = q"
  by (metis htons_htons)

text \<open>With fewer than \<open>NPORTS\<close> socks bound the search meets a free port.\<close>

lemma port_scan_finds:
  assumes ok: "bind_ok w" and free: "0 < bfree w"
  shows "\<exists>q. tcp_port_scan NPORTS (defport w) w = Some q"
proof (rule ccontr)
  assume "\<not> ?thesis"
  then have none: "tcp_port_scan NPORTS (defport w) w = None" by (simp del: tcp_port_scan.simps)
  define port where "port k = (of_nat (TCP_BPORT_MIN + k) :: u16)" for k
  have range: "TCP_BPORT_MIN \<le> unat (defport w)" "unat (defport w) \<le> TCP_BPORT_MAX"
    using ok unfolding bind_ok_def by blast+
  have used: "tcp_port_used (htons (port k)) w" if "k < NPORTS" for k
  proof -
    define d where "d = unat (defport w) - TCP_BPORT_MIN"
    define j where "j = (k + (NPORTS - d)) mod NPORTS"
    have d: "d < NPORTS" using range by (simp add: d_def)
    have "(d + j) mod NPORTS = (d + (k + (NPORTS - d))) mod NPORTS"
      unfolding j_def by (rule mod_add_right_eq)
    also have "d + (k + (NPORTS - d)) = k + NPORTS" using d by simp
    finally have "(d + j) mod NPORTS = k" using that by simp
    moreover have "j < NPORTS" by (simp add: j_def)
    ultimately show ?thesis
      using port_scan_NoneD [OF none range, of j] unfolding port_def d_def by simp
  qed
  have inj: "inj_on port {..<NPORTS}"
  proof (rule inj_onI)
    fix x y assume xy: "x \<in> {..<NPORTS}" "y \<in> {..<NPORTS}" and e: "port x = port y"
    have "unat (of_nat n :: u16) = n" if "n < 0x10000" for n
      using that by (simp add: unat_of_nat)
    from this [of "TCP_BPORT_MIN + x"] this [of "TCP_BPORT_MIN + y"]
    have "unat (port x) = TCP_BPORT_MIN + x" "unat (port y) = TCP_BPORT_MIN + y"
      using xy unfolding port_def by simp_all
    with e have "TCP_BPORT_MIN + x = TCP_BPORT_MIN + y" by metis
    then show "x = y" by (rule add_left_imp_eq)
  qed
  have sub: "(\<lambda>k. htons (port k)) ` {..<NPORTS} \<subseteq> (\<lambda>i. sk_sport (socks w i)) ` bound w"
  proof
    fix q assume "q \<in> (\<lambda>k. htons (port k)) ` {..<NPORTS}"
    then obtain k where "k < NPORTS" "q = htons (port k)" by blast
    then show "q \<in> (\<lambda>i. sk_sport (socks w i)) ` bound w"
      using used [of k] port_used_iff [OF ok, of q] by (metis imageI)
  qed
  have "card ((\<lambda>k. htons (port k)) ` {..<NPORTS}) = NPORTS"
  proof -
    have "inj_on (\<lambda>k. htons (port k)) {..<NPORTS}"
      using inj by (simp add: inj_on_def htons_inj)
    then show ?thesis by (simp add: card_image)
  qed
  moreover have fin: "finite (bound w)" using ok unfolding bind_ok_def by blast
  ultimately have "NPORTS \<le> card (bound w)"
    using card_mono [OF finite_imageI [OF fin] sub] card_image_le [OF fin, of "\<lambda>i. sk_sport (socks w i)"]
    by simp
  moreover have "bfree w + int (card (bound w)) = int NPORTS" using ok unfolding bind_ok_def by blast
  ultimately show False using free by simp
qed

definition bind_port :: "nat \<Rightarrow> u16 \<Rightarrow> 'a stack_scheme \<Rightarrow> 'a stack_scheme" where
  "bind_port i p w =
     tcp_bhash i (upd_sk i (\<lambda>sk. sk\<lparr>sk_sport := p, bhash := unat (ntohs p) mod 0x100\<rparr>)
       (w\<lparr>bfree := bfree w - 1\<rparr>))"

lemma bind_port_socks:
  "sk_sport (socks (bind_port i p w) j) = (if j = i then p else sk_sport (socks w j))"
  "bhash (socks (bind_port i p w) j) = (if j = i then unat (ntohs p) mod 0x100 else bhash (socks w j))"
  "bound (bind_port i p w) = insert i (bound w)"
  "btable (bind_port i p w) h =
     (if h = unat (ntohs p) mod 0x100 then i # btable w h else btable w h)"
  "bfree (bind_port i p w) = bfree w - 1" "defport (bind_port i p w) = defport w"
  by (auto simp: bind_port_def tcp_bhash_def Let_def upd_sk_def bound_def get_sock_def)

lemma bind_port_ok:
  assumes ok: "bind_ok w" and new: "i \<notin> bound w" and free: "\<not> tcp_port_used p w"
  shows "bind_ok (bind_port i p w)"
proof -
  have nou: "sk_sport (socks w j) \<noteq> p" if "j \<in> bound w" for j
    using free that port_used_iff [OF ok] by auto
  have tab: "distinct (btable w h)" "set (btable w h) = {i \<in> bound w. bhash (socks w i) = h}" for h
    using ok unfolding bind_ok_def by blast+
  have inj: "inj_on (\<lambda>i. sk_sport (socks w i)) (bound w)" using ok unfolding bind_ok_def by blast
  have "inj_on (\<lambda>j. sk_sport (socks (bind_port i p w) j)) (insert i (bound w))"
    unfolding bind_port_socks inj_on_def
    using inj nou new by (auto dest: inj_onD)
  then show ?thesis
    using ok new tab unfolding bind_ok_def bind_port_socks by auto
qed

lemma bind_ok_defport:
  "bind_ok w \<Longrightarrow> TCP_BPORT_MIN \<le> unat p \<Longrightarrow> unat p \<le> TCP_BPORT_MAX \<Longrightarrow> bind_ok (w\<lparr>defport := p\<rparr>)"
  by (simp add: bind_ok_def bound_def)

lemma set_sport_cases:
  "tcp_set_sport i nport w =
     (case (if nport \<noteq> 0 then (if tcp_port_used nport w then Some (0, w) else Some (nport, w))
            else tcp_get_port w) of
        None \<Rightarrow> None
      | Some (p, w1) \<Rightarrow> if p = 0 then Some (-1, w1) else Some (0, bind_port i p w1))"
  unfolding tcp_set_sport_def bind_port_def Let_def ..

lemma htons_0_iff: "htons p = 0 \<longleftrightarrow> p = 0"
  using htons_inj [of p 0] by (simp add: htons_def)

lemma get_port_ok:
  assumes ok: "bind_ok w" and free: "0 < bfree w"
  obtains p where "tcp_get_port w = Some (htons p, w\<lparr>defport := next_port p\<rparr>)"
    "\<not> tcp_port_used (htons p) w" "TCP_BPORT_MIN \<le> unat p" "unat p \<le> TCP_BPORT_MAX"
proof -
  have range: "TCP_BPORT_MIN \<le> unat (defport w)" "unat (defport w) \<le> TCP_BPORT_MAX"
    using ok unfolding bind_ok_def by blast+
  obtain p where p: "tcp_port_scan NPORTS (defport w) w = Some p"
    using port_scan_finds [OF ok free] by blast
  show ?thesis
    using that [of p] p free port_scan_SomeD [OF p range] by (simp add: tcp_get_port_def)
qed

lemma set_sport_spec:
  assumes "bind_ok w" and "\<not> bhash_list (socks w i)"
  shows "\<exists>r w'. tcp_set_sport i nport w = Some (r, w') \<and> bind_ok w' \<and>
    (if (if nport = 0 then 0 < bfree w else \<not> tcp_port_used nport w)
     then r = 0 \<and> bound w' = insert i (bound w) \<and>
          sk_sport (socks w' i) \<noteq> 0 \<and> (nport \<noteq> 0 \<longrightarrow> sk_sport (socks w' i) = nport) \<and>
          (nport = 0 \<longrightarrow> unat (ntohs (sk_sport (socks w' i))) \<in> {TCP_BPORT_MIN..TCP_BPORT_MAX}) \<and>
          \<not> tcp_port_used (sk_sport (socks w' i)) w \<and>
          (\<forall>j. j \<noteq> i \<longrightarrow> socks w' j = socks w j)
     else r = -1 \<and> socks w' = socks w)"
proof (cases "nport = 0")
  case True
  show ?thesis
  proof (cases "0 < bfree w")
    case False
    then show ?thesis using True assms(1) by (simp add: set_sport_cases tcp_get_port_def)
  next
    case free: True
    obtain p where p: "tcp_get_port w = Some (htons p, w\<lparr>defport := next_port p\<rparr>)"
      and new: "\<not> tcp_port_used (htons p) w" and range: "TCP_BPORT_MIN \<le> unat p" "unat p \<le> TCP_BPORT_MAX"
      using get_port_ok [OF assms(1) free] .
    let ?w1 = "w\<lparr>defport := next_port p\<rparr>" and ?q = "htons p"
    have nz: "htons p \<noteq> 0" using range(1) by (auto simp: htons_0_iff)
    have ok1: "bind_ok ?w1" using bind_ok_defport [OF assms(1)] next_port_range [OF range] by blast
    have new1: "i \<notin> bound ?w1" "\<not> tcp_port_used ?q ?w1"
      using assms(2) new by (simp_all add: bound_def tcp_port_used_def)
    have "bound ?w1 = bound w" by (simp add: bound_def)
    moreover have "socks (bind_port i ?q ?w1) j = socks w j" if "j \<noteq> i" for j
      using that by (simp add: bind_port_def tcp_bhash_def Let_def upd_sk_def get_sock_def)
    ultimately show ?thesis
      using True free p nz new range bind_port_ok [OF ok1 new1]
      by (simp add: set_sport_cases bind_port_socks)
  qed
next
  case False
  have "socks (bind_port i nport w) j = socks w j" if "j \<noteq> i" for j
    using that by (simp add: bind_port_def tcp_bhash_def Let_def upd_sk_def get_sock_def)
  then show ?thesis
    using False assms bind_port_ok [OF assms(1), of i nport]
    by (simp add: set_sport_cases bind_port_socks bound_def [of w])
qed

lemma init_bind_ok: "bind_ok (tcp_init stack_bss)"
  by (simp add: bind_ok_def bound_def tcp_init_def stack_bss_def net.extend_def bss_def zero_sock_def
      stack.fields_def)

text \<open>
  Explicit binds count too: the socks \<open>0, \<dots>, n - 1\<close> bound to the ports \<open>1, \<dots>, n\<close>, which are below
  the ephemeral range.
\<close>

primrec explicit_binds :: "nat \<Rightarrow> 'a stack_scheme \<Rightarrow> 'a stack_scheme" where
  "explicit_binds 0 w = w"
| "explicit_binds (Suc n) w = snd (the (tcp_set_sport n (htons (of_nat (Suc n))) (explicit_binds n w)))"

lemma explicit_binds_spec:
  "n < TCP_BPORT_MIN \<Longrightarrow>
    bind_ok (explicit_binds n (tcp_init stack_bss)) \<and> bound (explicit_binds n (tcp_init stack_bss)) = {..<n} \<and>
    (\<forall>j < n. sk_sport (socks (explicit_binds n (tcp_init stack_bss)) j) = htons (of_nat (Suc j)))"
proof (induction n)
  case 0
  then show ?case using init_bind_ok by (simp add: bound_def tcp_init_def stack_bss_def net.extend_def stack.fields_def bss_def zero_sock_def)
next
  case (Suc n)
  let ?w = "explicit_binds n (tcp_init stack_bss)" and ?p = "of_nat (Suc n) :: u16"
  have ih: "bind_ok ?w" "bound ?w = {..<n}" "\<forall>j < n. sk_sport (socks ?w j) = htons (of_nat (Suc j))"
    using Suc by auto
  have un: "unat (of_nat (Suc j) :: u16) = Suc j" if "j \<le> n" for j using that Suc.prems by (simp add: unat_of_nat del: of_nat_Suc)
  have "(of_nat (Suc j) :: u16) \<noteq> ?p" if "j < n" for j using un [of j] un [of n] that by (metis less_imp_le_nat nat.inject nat_less_le order_refl)
  then have new: "\<not> tcp_port_used (htons ?p) ?w" using port_used_iff [OF ih(1)] ih(2,3) by (auto simp: htons_inj simp del: of_nat_Suc)
  have nz: "htons ?p \<noteq> 0" using un [of n] by (auto simp: htons_0_iff simp del: of_nat_Suc)
  have "explicit_binds (Suc n) (tcp_init stack_bss) = bind_port n (htons ?p) ?w"
    using new nz by (simp add: set_sport_cases del: of_nat_Suc)
  then show ?case
    using bind_port_ok [OF ih(1) _ new, of n] ih(2,3) by (auto simp: bind_port_socks less_Suc_eq simp del: of_nat_Suc explicit_binds.simps)
qed

lemma explicit_binds_exhaust:
  assumes "w = explicit_binds NPORTS (tcp_init stack_bss)"
  shows "bind_ok w" "TCP_BPORT_MIN \<le> unat p \<Longrightarrow> \<not> tcp_port_used (htons p) w" "tcp_set_sport i 0 w = Some (-1, w)"
proof -
  have "NPORTS < TCP_BPORT_MIN" by simp
  note sp = explicit_binds_spec [OF this, folded assms]
  show ok: "bind_ok w" using sp by blast
  show "\<not> tcp_port_used (htons p) w" if "TCP_BPORT_MIN \<le> unat p"
  proof
    assume "tcp_port_used (htons p) w"
    then obtain j where j: "j < NPORTS" "htons (of_nat (Suc j)) = htons p"
      using port_used_iff [OF ok] sp by (metis lessThan_iff)
    then have "unat p = unat (of_nat (Suc j) :: u16)" by (simp only: htons_inj)
    then have "unat p = Suc j" using j(1) by (simp add: unat_of_nat del: of_nat_Suc)
    then show False using that j(1) by simp
  qed
  have "bound w = {..<NPORTS}" using sp by blast
  moreover have "bfree w + int (card (bound w)) = int NPORTS" using ok unfolding bind_ok_def by blast
  ultimately have "bfree w = 0" by (metis add_cancel_left_left card_lessThan)
  then show "tcp_set_sport i 0 w = Some (-1, w)" by (simp add: set_sport_cases tcp_get_port_def)
qed

text \<open>C34. Binding a TCP sock to a port: from a consistent bind table, \<^verbatim>\<open>tcp_set_sport\<close> always
  returns (its port search ends), and keeps the table consistent, with no two bound socks on one
  port. It succeeds with the requested port when that is free, or, when none is requested and
  the counter \<^verbatim>\<open>bfree\<close> is positive, with a port of the ephemeral range; otherwise it fails with
  \<open>-1\<close> and the socks are unchanged. The counter falls with every bound sock, also one bound to a
  requested port outside that range: after as many such binds as the range has ports, a bind
  without a requested port fails although every port of the range is free.\<close>

theorem tcp_set_sport_correct:
  assumes "bind_ok w" and "\<not> bhash_list (socks w i)"
  shows "(\<exists>r w'. tcp_set_sport i nport w = Some (r, w') \<and> bind_ok w' \<and>
    (if (if nport = 0 then 0 < bfree w else \<not> tcp_port_used nport w)
     then r = 0 \<and> bound w' = insert i (bound w) \<and>
          sk_sport (socks w' i) \<noteq> 0 \<and> (nport \<noteq> 0 \<longrightarrow> sk_sport (socks w' i) = nport) \<and>
          (nport = 0 \<longrightarrow> unat (ntohs (sk_sport (socks w' i))) \<in> {TCP_BPORT_MIN..TCP_BPORT_MAX}) \<and>
          \<not> tcp_port_used (sk_sport (socks w' i)) w \<and>
          (\<forall>j. j \<noteq> i \<longrightarrow> socks w' j = socks w j)
     else r = -1 \<and> socks w' = socks w)) \<and>
   (\<exists>w0. w0 = explicit_binds NPORTS (tcp_init stack_bss) \<and> bind_ok w0 \<and>
     (\<forall>p. unat p \<in> {TCP_BPORT_MIN..TCP_BPORT_MAX} \<longrightarrow> \<not> tcp_port_used (htons p) w0) \<and>
     (\<forall>k. tcp_set_sport k 0 w0 = Some (-1, w0)))"
  using set_sport_spec [OF assms, of nport] explicit_binds_exhaust [OF refl] by (auto simp del: explicit_binds.simps)

theorem tcp_set_sport_correct_witness:
  "\<exists>r w'. tcp_set_sport 0 0x5000 (tcp_init stack_bss) = Some (r, w') \<and> bind_ok w' \<and> r = 0 \<and>
     sk_sport (socks w' 0) = 0x5000"
proof -
  have "\<not> bhash_list (socks (tcp_init stack_bss) 0)" "\<not> tcp_port_used 0x5000 (tcp_init stack_bss)"
    by (simp_all add: tcp_init_def stack_bss_def net.extend_def bss_def zero_sock_def
        stack.fields_def tcp_port_used_def)
  then show ?thesis using tcp_set_sport_correct [OF init_bind_ok, of 0 "0x5000"] by auto
qed

section \<open>The table of established connections\<close>

definition conn_id :: "'a sock_scheme \<Rightarrow> u32 \<times> u32 \<times> u16 \<times> u16" where
  "conn_id sk = (sk_saddr sk, sk_daddr sk, sk_sport sk, sk_dport sk)"

definition connected :: "'a stack_scheme \<Rightarrow> nat set" where
  "connected w = {i. \<exists>h. hash_list (socks w i) = Some (HEst h)}"

definition est_ok :: "'a stack_scheme \<Rightarrow> bool" where
  "est_ok w \<longleftrightarrow>
     (\<forall>h. distinct (htab w (HEst h)) \<and> set (htab w (HEst h)) = {i. hash_list (socks w i) = Some (HEst h)}) \<and>
     (\<forall>i h. hash_list (socks w i) = Some (HEst h) \<longrightarrow>
        h = tcp_ehashfn (sk_saddr (socks w i)) (sk_daddr (socks w i)) (sk_sport (socks w i)) (sk_dport (socks w i))) \<and>
     inj_on (\<lambda>i. conn_id (socks w i)) (connected w)"

lemma est_okD:
  assumes "est_ok w"
  shows "distinct (htab w (HEst h))"
    "i \<in> set (htab w (HEst h)) \<longleftrightarrow> hash_list (socks w i) = Some (HEst h)"
    "hash_list (socks w i) = Some (HEst h) \<Longrightarrow>
       h = tcp_ehashfn (sk_saddr (socks w i)) (sk_daddr (socks w i)) (sk_sport (socks w i)) (sk_dport (socks w i))"
    "inj_on (\<lambda>i. conn_id (socks w i)) (connected w)"
  using assms unfolding est_ok_def by blast+

lemma find_SomeD: "find P xs = Some x \<Longrightarrow> x \<in> set xs \<and> P x"
  by (induction xs) (auto split: if_splits)

lemma lookup_establishD:
  assumes "est_ok w" "tcp_lookup_sock_establish src dst sp dp w = Some i"
  shows "i \<in> connected w \<and> conn_id (socks w i) = (dst, src, dp, sp)"
proof -
  have "i \<in> set (htab w (HEst (tcp_ehashfn src dst sp dp))) \<and> sk_saddr (socks w i) = dst \<and>
      sk_daddr (socks w i) = src \<and> sk_sport (socks w i) = dp \<and> sk_dport (socks w i) = sp"
    using find_SomeD [OF assms(2) [unfolded tcp_lookup_sock_establish_def]] .
  then show ?thesis using est_okD(2) [OF assms(1)] by (auto simp: connected_def conn_id_def)
qed

text \<open>The established lookup finds exactly the connected sock with the mirrored four-tuple.\<close>

lemma lookup_establish_iff:
  assumes "est_ok w"
  shows "tcp_lookup_sock_establish src dst sp dp w = Some i \<longleftrightarrow>
           i \<in> connected w \<and> conn_id (socks w i) = (dst, src, dp, sp)"
proof
  assume "tcp_lookup_sock_establish src dst sp dp w = Some i"
  then show "i \<in> connected w \<and> conn_id (socks w i) = (dst, src, dp, sp)"
    by (rule lookup_establishD [OF assms])
next
  assume i: "i \<in> connected w \<and> conn_id (socks w i) = (dst, src, dp, sp)"
  let ?l = "htab w (HEst (tcp_ehashfn src dst sp dp))"
  obtain h where h: "hash_list (socks w i) = Some (HEst h)" using i by (auto simp: connected_def)
  have "h = tcp_ehashfn dst src dp sp" using est_okD(3) [OF assms h] i by (simp add: conn_id_def)
  then have "i \<in> set ?l" using est_okD(2) [OF assms] h tcp_ehashfn_sym by metis
  then have "tcp_lookup_sock_establish src dst sp dp w \<noteq> None"
    using i by (auto simp: tcp_lookup_sock_establish_def find_None_iff conn_id_def)
  then obtain j where j: "tcp_lookup_sock_establish src dst sp dp w = Some j" by blast
  then have "j \<in> connected w" "conn_id (socks w j) = (dst, src, dp, sp)"
    using lookup_establishD [OF assms j] by auto
  then have "j = i" using inj_onD [OF est_okD(4) [OF assms]] i by metis
  then show "tcp_lookup_sock_establish src dst sp dp w = Some i" using j by simp
qed

lemma ehash_conflict_iff:
  assumes "est_ok w"
  shows "tcp_ehash_conflict (htab w (HEst (tcp_ehashfn (sk_saddr sk) (sk_daddr sk) (sk_sport sk) (sk_dport sk)))) sk w
           \<longleftrightarrow> (\<exists>j \<in> connected w. conn_id (socks w j) = conn_id sk)"
proof
  assume "tcp_ehash_conflict (htab w (HEst (tcp_ehashfn (sk_saddr sk) (sk_daddr sk) (sk_sport sk) (sk_dport sk)))) sk w"
  then obtain i h where "i \<in> set (htab w (HEst h))" "conn_id (socks w i) = conn_id sk"
    unfolding tcp_ehash_conflict_def conn_id_def by fastforce
  then show "\<exists>j \<in> connected w. conn_id (socks w j) = conn_id sk"
    using est_okD(2) [OF assms] by (intro bexI [of _ i]) (auto simp: connected_def)
next
  assume "\<exists>j \<in> connected w. conn_id (socks w j) = conn_id sk"
  then obtain j h where j: "hash_list (socks w j) = Some (HEst h)" "conn_id (socks w j) = conn_id sk"
    by (auto simp: connected_def)
  then have "h = tcp_ehashfn (sk_saddr sk) (sk_daddr sk) (sk_sport sk) (sk_dport sk)"
    using est_okD(3) [OF assms j(1)] by (simp add: conn_id_def)
  then have "j \<in> set (htab w (HEst (tcp_ehashfn (sk_saddr sk) (sk_daddr sk) (sk_sport sk) (sk_dport sk))))"
    using est_okD(2) [OF assms] j(1) by simp
  then show "tcp_ehash_conflict (htab w (HEst (tcp_ehashfn (sk_saddr sk) (sk_daddr sk) (sk_sport sk) (sk_dport sk)))) sk w"
    using j(2) unfolding tcp_ehash_conflict_def conn_id_def by (intro bexI [of _ j]) simp_all
qed

lemma sock_add_hash_frame:
  "sk_saddr (socks (sock_add_hash i hh w) j) = sk_saddr (socks w j)"
  "sk_daddr (socks (sock_add_hash i hh w) j) = sk_daddr (socks w j)"
  "sk_sport (socks (sock_add_hash i hh w) j) = sk_sport (socks w j)"
  "sk_dport (socks (sock_add_hash i hh w) j) = sk_dport (socks w j)"
  "hash_list (socks (sock_add_hash i hh w) j) = (if j = i then Some hh else hash_list (socks w j))"
  "htab (sock_add_hash i hh w) g = (if g = hh then i # htab w g else htab w g)"
  by (simp_all add: sock_add_hash_def get_sock_def upd_sk_def Let_def)

lemma upd_hash_frame [simp]:
  "sk_saddr (socks (upd_sk i (sk_hash_update f) w) j) = sk_saddr (socks w j)"
  "sk_daddr (socks (upd_sk i (sk_hash_update f) w) j) = sk_daddr (socks w j)"
  "sk_sport (socks (upd_sk i (sk_hash_update f) w) j) = sk_sport (socks w j)"
  "sk_dport (socks (upd_sk i (sk_hash_update f) w) j) = sk_dport (socks w j)"
  "hash_list (socks (upd_sk i (sk_hash_update f) w) j) = hash_list (socks w j)"
  "htab (upd_sk i (sk_hash_update f) w) = htab w"
  by (simp_all add: upd_sk_def)

lemma sock_del_hash_frame:
  "sk_saddr (socks (sock_del_hash i w) j) = sk_saddr (socks w j)"
  "sk_daddr (socks (sock_del_hash i w) j) = sk_daddr (socks w j)"
  "sk_sport (socks (sock_del_hash i w) j) = sk_sport (socks w j)"
  "sk_dport (socks (sock_del_hash i w) j) = sk_dport (socks w j)"
  "hash_list (socks (sock_del_hash i w) j) = (if j = i then None else hash_list (socks w j))"
  "htab (sock_del_hash i w) g =
     (if hash_list (socks w i) = Some g then remove1 i (htab w g) else htab w g)"
  by (auto simp: sock_del_hash_def upd_sk_def free_sock_def Let_def split: option.split)

definition conn_hash :: "'a sock_scheme \<Rightarrow> nat" where
  "conn_hash sk = tcp_ehashfn (sk_saddr sk) (sk_daddr sk) (sk_sport sk) (sk_dport sk)"

lemma est_ok_add:
  assumes ok: "est_ok w" and new: "hash_list (socks w i) = None"
    and free: "\<forall>j \<in> connected w. conn_id (socks w j) \<noteq> conn_id (socks w i)"
    and w': "\<And>j. conn_id (socks w' j) = conn_id (socks w j)"
      "\<And>j. hash_list (socks w' j) = (if j = i then Some (HEst h) else hash_list (socks w j))"
      "\<And>g. htab w' g = (if g = HEst h then i # htab w g else htab w g)"
    and h: "h = conn_hash (socks w i)"
  shows "est_ok w'" and "connected w' = insert i (connected w)"
proof -
  show con: "connected w' = insert i (connected w)" by (auto simp: connected_def w'(2))
  have ids: "sk_saddr (socks w' j) = sk_saddr (socks w j)" "sk_daddr (socks w' j) = sk_daddr (socks w j)"
    "sk_sport (socks w' j) = sk_sport (socks w j)" "sk_dport (socks w' j) = sk_dport (socks w j)" for j
    using w'(1) [of j] by (simp_all add: conn_id_def)
  have "inj_on (\<lambda>i. conn_id (socks w' i)) (connected w')"
  proof -
    have "conn_id (socks w i) \<notin> (\<lambda>j. conn_id (socks w j)) ` (connected w - {i})" using free by fastforce
    then show ?thesis unfolding con w'(1) inj_on_insert using est_okD(4) [OF ok] by simp
  qed
  moreover have "distinct (htab w' (HEst g)) \<and>
      set (htab w' (HEst g)) = {i. hash_list (socks w' i) = Some (HEst g)}" for g
  proof (cases "g = h")
    case True
    then show ?thesis
      using est_okD(1) [OF ok, of h] est_okD(2) [OF ok, of _ h] new by (auto simp: w'(2,3))
  next
    case False
    then show ?thesis
      using est_okD(1) [OF ok, of g] est_okD(2) [OF ok, of _ g] new by (auto simp: w'(2,3))
  qed
  moreover have "g = tcp_ehashfn (sk_saddr (socks w' j)) (sk_daddr (socks w' j)) (sk_sport (socks w' j)) (sk_dport (socks w' j))"
    if "hash_list (socks w' j) = Some (HEst g)" for j g
    using that est_okD(3) [OF ok, of j g] h unfolding ids w'(2)
    by (auto simp: conn_hash_def split: if_splits)
  ultimately show "est_ok w'" unfolding est_ok_def by blast
qed

lemma est_ok_del:
  assumes ok: "est_ok w"
    and w': "\<And>j. conn_id (socks w' j) = conn_id (socks w j)"
      "\<And>j. hash_list (socks w' j) = (if j = i then None else hash_list (socks w j))"
      "\<And>g. htab w' g = (if hash_list (socks w i) = Some g then remove1 i (htab w g) else htab w g)"
  shows "est_ok w'" and "connected w' = connected w - {i}"
proof -
  show con: "connected w' = connected w - {i}" by (auto simp: connected_def w'(2))
  have ids: "sk_saddr (socks w' j) = sk_saddr (socks w j)" "sk_daddr (socks w' j) = sk_daddr (socks w j)"
    "sk_sport (socks w' j) = sk_sport (socks w j)" "sk_dport (socks w' j) = sk_dport (socks w j)" for j
    using w'(1) [of j] by (simp_all add: conn_id_def)
  have "inj_on (\<lambda>i. conn_id (socks w' i)) (connected w')"
    unfolding con w'(1) using est_okD(4) [OF ok] by (rule inj_on_subset) blast
  moreover have "distinct (htab w' (HEst g)) \<and>
      set (htab w' (HEst g)) = {i. hash_list (socks w' i) = Some (HEst g)}" for g
    using est_okD(1) [OF ok, of g] est_okD(2) [OF ok, of _ g] by (auto simp: w'(2,3))
  moreover have "g = tcp_ehashfn (sk_saddr (socks w' j)) (sk_daddr (socks w' j)) (sk_sport (socks w' j)) (sk_dport (socks w' j))"
    if "hash_list (socks w' j) = Some (HEst g)" for j g
    using that est_okD(3) [OF ok, of j g] unfolding ids w'(2) by (auto split: if_splits)
  ultimately show "est_ok w'" unfolding est_ok_def by blast
qed

lemma opt_eqI: "(\<And>x. a = Some x \<longleftrightarrow> b = Some x) \<Longrightarrow> a = b"
  by (cases a; cases b) auto

lemma tcp_hash_est:
  assumes "state (socks w i) \<noteq> TCP_CLOSED" "state (socks w i) \<noteq> TCP_LISTEN" "est_ok w"
  shows "tcp_hash i w =
    (if \<exists>j \<in> connected w. conn_id (socks w j) = conn_id (socks w i) then (-1, w)
     else (0, sock_add_hash i (HEst (conn_hash (socks w i)))
                (upd_sk i (\<lambda>sk. sk\<lparr>sk_hash := conn_hash (socks w i)\<rparr>) w)))"
  using assms(1,2) ehash_conflict_iff [OF assms(3), of "socks w i"]
  by (simp add: tcp_hash_def conn_hash_def Let_def)

lemma tcp_unhash_est:
  assumes "est_ok w"
  shows "est_ok (tcp_unhash i w)" "connected (tcp_unhash i w) = connected w - {i}"
    "conn_id (socks (tcp_unhash i w) j) = conn_id (socks w j)"
proof -
  show id: "conn_id (socks (tcp_unhash i w) j) = conn_id (socks w j)" for j
    by (simp add: tcp_unhash_def conn_id_def sock_del_hash_frame)
  show "est_ok (tcp_unhash i w)" "connected (tcp_unhash i w) = connected w - {i}"
    by (rule est_ok_del [OF assms, where i = i]; simp add: id; simp add: tcp_unhash_def sock_del_hash_frame)+
qed

text \<open>C21. The table of connections. Hashing a sock that is not hashed yet fails exactly when
  another connection has its four-tuple; otherwise the table stays consistent and segments of
  the peer (with source and destination swapped) are delivered to this sock and to no other,
  other connections keep their entry, and after \<^verbatim>\<open>tcp_unhash\<close> the sock is not found any more.
\<close>

theorem tcp_connection_table:
  assumes "est_ok w" and "hash_list (socks w i) = None"
    and "state (socks w i) \<noteq> TCP_CLOSED" and "state (socks w i) \<noteq> TCP_LISTEN"
  shows "case tcp_hash i w of (r, w') \<Rightarrow>
    (r = 0 \<longleftrightarrow> (\<forall>j \<in> connected w. conn_id (socks w j) \<noteq> conn_id (socks w i))) \<and>
    (r \<noteq> 0 \<longrightarrow> w' = w) \<and>
    (r = 0 \<longrightarrow>
       est_ok w' \<and>
       (\<forall>src dst sp dp. tcp_lookup_sock_establish src dst sp dp w' =
          (if (dst, src, dp, sp) = conn_id (socks w i) then Some i
           else tcp_lookup_sock_establish src dst sp dp w)) \<and>
       est_ok (tcp_unhash i w') \<and>
       (\<forall>src dst sp dp. tcp_lookup_sock_establish src dst sp dp (tcp_unhash i w') =
          tcp_lookup_sock_establish src dst sp dp w))"
proof (cases "\<exists>j \<in> connected w. conn_id (socks w j) = conn_id (socks w i)")
  case True
  then show ?thesis using tcp_hash_est [OF assms(3,4,1)] by auto
next
  case False
  define w' where "w' = sock_add_hash i (HEst (conn_hash (socks w i)))
                (upd_sk i (\<lambda>sk. sk\<lparr>sk_hash := conn_hash (socks w i)\<rparr>) w)"
  have h: "tcp_hash i w = (0, w')"
    using tcp_hash_est [OF assms(3,4,1)] False unfolding w'_def by (simp only: if_False)
  have id: "conn_id (socks w' j) = conn_id (socks w j)" for j
    by (simp add: w'_def conn_id_def sock_add_hash_frame)
  have ok: "est_ok w'" and con: "connected w' = insert i (connected w)"
    using False
    by - (rule est_ok_add [OF assms(1,2), where h = "conn_hash (socks w i)"];
        simp add: id; simp add: w'_def sock_add_hash_frame)+
  note un = tcp_unhash_est [OF ok, of i]
  have notin: "i \<notin> connected w" using assms(2) by (simp add: connected_def)
  have look: "tcp_lookup_sock_establish src dst sp dp w' =
      (if (dst, src, dp, sp) = conn_id (socks w i) then Some i
       else tcp_lookup_sock_establish src dst sp dp w)" for src dst sp dp
  proof (rule opt_eqI)
    fix k
    show "tcp_lookup_sock_establish src dst sp dp w' = Some k \<longleftrightarrow>
        (if (dst, src, dp, sp) = conn_id (socks w i) then Some i
         else tcp_lookup_sock_establish src dst sp dp w) = Some k"
      using False by (auto simp: lookup_establish_iff [OF ok] lookup_establish_iff [OF assms(1)] con id)
  qed
  have look': "tcp_lookup_sock_establish src dst sp dp (tcp_unhash i w') =
      tcp_lookup_sock_establish src dst sp dp w" for src dst sp dp
    by (rule opt_eqI)
      (use notin in \<open>auto simp: lookup_establish_iff [OF un(1)] lookup_establish_iff [OF assms(1)] con id un\<close>)
  show ?thesis using False ok un(1) look look' by (simp add: h)
qed

theorem tcp_connection_table_witness:
  "\<exists>w'. tcp_hash 0 (stack_bss\<lparr>socks := (\<lambda>_. (zero_sock TCP_OPS)\<lparr>sk_daddr := 1, state := TCP_SYN_SENT\<rparr>)\<rparr>) = (0, w') \<and>
     tcp_lookup_sock_establish 1 0 0 0 w' = Some 0"
proof -
  define w where "w = stack_bss\<lparr>socks := (\<lambda>_. (zero_sock TCP_OPS)\<lparr>sk_daddr := 1, state := TCP_SYN_SENT\<rparr>)\<rparr>"
  have w: "est_ok w" "hash_list (socks w 0) = None" "state (socks w 0) = TCP_SYN_SENT" "connected w = {}"
    "conn_id (socks w 0) = (0, 1, 0, 0)"
    by (simp_all add: w_def est_ok_def stack_bss_def net.extend_def stack.fields_def zero_sock_def
        connected_def conn_id_def)
  obtain r w' where h: "tcp_hash 0 w = (r, w')" by fastforce
  show ?thesis using tcp_connection_table [of w 0] w h by (auto simp: w_def [symmetric])
qed

end
