(* ===== verification/Tcp_Out.thy ===== *)
theory Tcp_Out
  imports Tcp_Hash
begin

text \<open>
  Segments and their transmission: \<^verbatim>\<open>struct tcp_segment\<close> of \<^verbatim>\<open>tapip/include/tcp.h\<close> and
  \<^verbatim>\<open>tapip/tcp/tcp_out.c\<close>. The pointers \<^verbatim>\<open>iphdr\<close> and \<^verbatim>\<open>tcphdr\<close> of a segment point
  into the packet it arrived in: \<open>seg_pkt\<close> is the present content of that packet and
  \<open>seg_t\<close> the offset of the TCP header; \<open>seg_text\<close> are the octets from \<^verbatim>\<open>text\<close> on. A
  \<^verbatim>\<open>NULL\<close> sock or segment is \<open>None\<close>.
\<close>

record tcp_segment =
  seg_seq :: u32
  seg_ack :: u32
  seg_lastseq :: u32
  seg_len :: u32
  seg_dlen :: u32
  seg_wnd :: u32
  seg_up :: u32
  seg_text :: octets
  seg_pkt :: octets
  seg_t :: nat

abbreviation seg_src :: "tcp_segment \<Rightarrow> u16" where "seg_src seg \<equiv> tcp_src (seg_t seg) (seg_pkt seg)"
abbreviation seg_dst :: "tcp_segment \<Rightarrow> u16" where "seg_dst seg \<equiv> tcp_dst (seg_t seg) (seg_pkt seg)"
abbreviation seg_ctl :: "tcp_segment \<Rightarrow> tcp_ctl" where "seg_ctl seg \<equiv> tcp_flags (seg_t seg) (seg_pkt seg)"

abbreviation (input) TCP_HRD_OFF :: nat where "TCP_HRD_OFF \<equiv> ETH_HRD_SZ + IP_HRD_SZ"

section \<open>Sending a segment\<close>

definition tcp_init_pkb ::
  "nat option \<Rightarrow> pkbuf \<Rightarrow> u32 \<Rightarrow> u32 \<Rightarrow> 'a stack_scheme \<Rightarrow> (pkbuf \<times> 'a stack_scheme) option" where
  "tcp_init_pkb tsk pkb saddr daddr w =
     (let b1 = set_ip_ver_hlen 4 5 (pk_data pkb);
          b2 = set_ip_tos 0 b1;
          b3 = set_ip_len (htons (word_of_int (pk_len pkb - int ETH_HRD_SZ))) b2;
          b4 = set_ip_id (htons (ucast (tcp_id w))) b3;
          b5 = set_ip_fragoff 0 b4;
          b6 = set_ip_ttl 64 b5;
          b7 = set_ip_pro IP_P_TCP b6;
          b8 = set_ip_dst daddr b7;
          pkb1 = pkb\<lparr>pk_data := b8\<rparr>;
          routed = (case tsk of
                      None \<Rightarrow> (case rt_output pkb1 w of None \<Rightarrow> None | Some p \<Rightarrow> Some (p, w))
                    | Some i \<Rightarrow>
                        (case sk_dst (socks w i) of
                           Some rt \<Rightarrow> Some (pkb1\<lparr>pk_rtdst := Some rt\<rparr>, w)
                         | None \<Rightarrow>
                             (case rt_output pkb1 w of
                                None \<Rightarrow> None
                              | Some p \<Rightarrow> Some (p, upd_sk i (\<lambda>sk. sk\<lparr>sk_dst := pk_rtdst p\<rparr>) w))))
      in case routed of
           None \<Rightarrow> None
         | Some (p, w1) \<Rightarrow> Some (p\<lparr>pk_data := set_ip_src saddr (pk_data p)\<rparr>, w1))"

definition tcp_send_out ::
  "'a stack_xmit \<Rightarrow> nat option \<Rightarrow> pkbuf \<Rightarrow> tcp_segment option \<Rightarrow> 'a stack_scheme \<Rightarrow> 'a stack_scheme" where
  "tcp_send_out xmit tsk pkb seg w =
     (let addrs = (case seg of
                     Some s \<Rightarrow> Some (ip_src (seg_pkt s), ip_dst (seg_pkt s))
                   | None \<Rightarrow>
                       (case tsk of
                          Some i \<Rightarrow> Some (sk_daddr (socks w i), sk_saddr (socks w i))
                        | None \<Rightarrow> None))
      in case addrs of
           None \<Rightarrow> crash w
         | Some (daddr, saddr) \<Rightarrow>
             (case tcp_init_pkb tsk pkb saddr daddr w of
                None \<Rightarrow> free_pkb pkb w
              | Some (pkb1, w1) \<Rightarrow>
                  ip_send_out xmit (pkb1\<lparr>pk_data := tcp_set_checksum TCP_HRD_OFF (pk_data pkb1)\<rparr>) w1))"

text \<open>
  The stores into the zeroed header of a new packet; what a caller leaves out stays zero.
  \<^verbatim>\<open>TCP_HRD_DOFF\<close> is 5, in the upper half of octet 12.
\<close>

definition put_tcp :: "u16 \<Rightarrow> u16 \<Rightarrow> u32 \<Rightarrow> u32 \<Rightarrow> tcp_ctl \<Rightarrow> u16 \<Rightarrow> octets \<Rightarrow> octets" where
  "put_tcp sp dp sq an f wnd b =
     (let t = TCP_HRD_OFF
      in wr16 (t + 14) wnd (wr8 (t + 13) (ctl_octet f) (wr8 (t + 12) 0x50
           (wr32 (t + 8) an (wr32 (t + 4) sq (wr16 (t + 2) dp (wr16 t sp b)))))))"

definition tcp_send_reset ::
  "'a stack_xmit \<Rightarrow> tcp_segment \<Rightarrow> 'a stack_scheme \<Rightarrow> 'a stack_scheme" where
  "tcp_send_reset xmit seg w =
     (if rst (seg_ctl seg) then w
      else
        (let (opkb, w1) = alloc_pkb (ETH_HRD_SZ + IP_HRD_SZ + TCP_HRD_SZ) w;
             b = (if ack (seg_ctl seg)
                  then put_tcp (seg_dst seg) (seg_src seg) (tcp_ackn (seg_t seg) (seg_pkt seg)) 0
                         (no_ctl\<lparr>rst := True\<rparr>) 0 (pk_data opkb)
                  else put_tcp (seg_dst seg) (seg_src seg) 0 (htonl (seg_seq seg + seg_len seg))
                         (no_ctl\<lparr>ack := True, rst := True\<rparr>) 0 (pk_data opkb))
         in tcp_send_out xmit None (opkb\<lparr>pk_data := b\<rparr>) (Some seg) w1))"

text \<open>\<^verbatim>\<open>tcp_send_ack\<close> reads \<^verbatim>\<open>seg->tcphdr\<close> first: \<^verbatim>\<open>NULL\<close> for a segment is fatal.\<close>

definition tcp_send_ack ::
  "'a stack_xmit \<Rightarrow> nat \<Rightarrow> tcp_segment option \<Rightarrow> 'a stack_scheme \<Rightarrow> 'a stack_scheme" where
  "tcp_send_ack xmit i oseg w =
     (case oseg of
        None \<Rightarrow> crash w
      | Some seg \<Rightarrow>
          if rst (seg_ctl seg) then w
          else
            (let (opkb, w1) = alloc_pkb (ETH_HRD_SZ + IP_HRD_SZ + TCP_HRD_SZ) w;
                 tsk = socks w1 i;
                 b = put_tcp (seg_dst seg) (seg_src seg) (htonl (snd_nxt tsk)) (htonl (rcv_nxt tsk))
                       (no_ctl\<lparr>ack := True\<rparr>) (htons (ucast (rcv_wnd tsk))) (pk_data opkb)
             in tcp_send_out xmit (Some i) (opkb\<lparr>pk_data := b\<rparr>) (Some seg) w1))"

definition tcp_send_synack ::
  "'a stack_xmit \<Rightarrow> nat \<Rightarrow> tcp_segment \<Rightarrow> 'a stack_scheme \<Rightarrow> 'a stack_scheme" where
  "tcp_send_synack xmit i seg w =
     (if rst (seg_ctl seg) then w
      else
        (let (opkb, w1) = alloc_pkb (ETH_HRD_SZ + IP_HRD_SZ + TCP_HRD_SZ) w;
             tsk = socks w1 i;
             b = put_tcp (seg_dst seg) (seg_src seg) (htonl (iss tsk)) (htonl (rcv_nxt tsk))
                   (no_ctl\<lparr>syn := True, ack := True\<rparr>) (htons (ucast (rcv_wnd tsk))) (pk_data opkb)
         in tcp_send_out xmit (Some i) (opkb\<lparr>pk_data := b\<rparr>) (Some seg) w1))"

definition tcp_send_syn ::
  "'a stack_xmit \<Rightarrow> nat \<Rightarrow> tcp_segment option \<Rightarrow> 'a stack_scheme \<Rightarrow> 'a stack_scheme" where
  "tcp_send_syn xmit i oseg w =
     (let (opkb, w1) = alloc_pkb (ETH_HRD_SZ + IP_HRD_SZ + TCP_HRD_SZ) w;
          tsk = socks w1 i;
          b = put_tcp (sk_sport tsk) (sk_dport tsk) (htonl (iss tsk)) 0 (no_ctl\<lparr>syn := True\<rparr>)
                (htons (ucast (rcv_wnd tsk))) (pk_data opkb)
      in tcp_send_out xmit (Some i) (opkb\<lparr>pk_data := b\<rparr>) oseg w1)"

definition tcp_send_fin :: "'a stack_xmit \<Rightarrow> nat \<Rightarrow> 'a stack_scheme \<Rightarrow> 'a stack_scheme" where
  "tcp_send_fin xmit i w =
     (let (opkb, w1) = alloc_pkb (ETH_HRD_SZ + IP_HRD_SZ + TCP_HRD_SZ) w;
          tsk = socks w1 i;
          b = put_tcp (sk_sport tsk) (sk_dport tsk) (htonl (snd_nxt tsk)) (htonl (rcv_nxt tsk))
                (no_ctl\<lparr>fin := True, ack := True\<rparr>) (htons (ucast (rcv_wnd tsk))) (pk_data opkb)
      in tcp_send_out xmit (Some i) (opkb\<lparr>pk_data := b\<rparr>) None w1)"

section \<open>What sending changes above the link\<close>

text \<open>
  What the sockets rely on when the stack transmits through a device that does not re-enter
  it: the state above the link, \<open>net.more\<close>, stays as it is. Then sending a segment changes
  nothing there but the cached route of the sock.
\<close>

lemma upd_more [simp]:
  "net.more (upd_ae i f w) = net.more w" "net.more (upd_stats d g w) = net.more w"
  "net.more (snd (arp_alloc w)) = net.more w" "net.more (get_pkb p w) = net.more w"
  "net.more (snd (ip_frag p b h n off mf w)) = net.more w" "net.more (crash w) = net.more w"
  by (simp_all add: upd_ae_def upd_stats_def arp_alloc_def Let_def split_beta get_pkb_def ip_frag_def
      crash_def split: bool.split)

locale link_below = quiet_link xmit for xmit :: "'a stack_xmit" +
  assumes xmit_more: "net.more (xmit d p w) = net.more w"
begin

lemma tx_more [simp]: "net.more (netdev_tx xmit d p len pro dst w) = net.more w"
  by (simp add: netdev_tx_def Let_def xmit_more)

lemma request_more [simp]: "net.more (arp_request xmit i w) = net.more w"
  by (simp add: arp_request_def Let_def split_beta split: option.splits)

lemma send_dev_more [simp]: "net.more (ip_send_dev xmit dev pkb w) = net.more w"
  using upd_more(3) [of w]
  by (auto simp: ip_send_dev_def Let_def simp del: upd_more(3) split: option.splits prod.splits)

lemma send_frag_loop_more [simp]:
  "net.more (snd (snd (send_frag_loop xmit dev pkb hlen mlen dlen off w))) = net.more w"
proof (induction "nat dlen" arbitrary: dlen off w rule: less_induct)
  case less
  then show ?case by (subst send_frag_loop.simps) (simp add: split_beta)
qed

lemma send_out_more [simp]: "net.more (ip_send_out xmit pkb w) = net.more w"
  by (simp add: ip_send_out_def ip_send_frag_def Let_def split_beta split: option.splits)

end

lemma more_eqD:
  assumes "net.more w' = net.more w"
  shows "socks w' = socks w" "alloc_socks w' = alloc_socks w" "free_socks w' = free_socks w" "htab w' = htab w"
    "btable w' = btable w" "bfree w' = bfree w" "defport w' = defport w" "tcp_iss w' = tcp_iss w"
    "tcp_id w' = tcp_id w" "timewait w' = timewait w" "sockets w' = sockets w"
    "udp_used w' = udp_used w" "best_slot w' = best_slot w" "stack.more w' = stack.more w"
  using assms by (cases w; cases w'; simp)+

text \<open>A sock without its cached route, and the part of the state TCP works on.\<close>

definition unrouted :: "tcp_sock \<Rightarrow> tcp_sock" where
  "unrouted sk = sk\<lparr>sk_dst := None\<rparr>"

definition same_conns :: "'a stack_scheme \<Rightarrow> 'a stack_scheme \<Rightarrow> bool" where
  "same_conns w w' \<longleftrightarrow>
     (\<forall>j. unrouted (socks w' j) = unrouted (socks w j)) \<and> alloc_socks w' = alloc_socks w \<and>
     htab w' = htab w \<and> btable w' = btable w \<and> bfree w' = bfree w \<and> defport w' = defport w \<and>
     tcp_iss w' = tcp_iss w \<and> timewait w' = timewait w \<and> sockets w' = sockets w"

lemma unroutedD:
  assumes "unrouted a = unrouted b"
  shows "sk_protocol a = sk_protocol b" "sk_saddr a = sk_saddr b" "sk_daddr a = sk_daddr b"
    "sk_sport a = sk_sport b" "sk_dport a = sk_dport b" "sk_sock a = sk_sock b" "sk_ops a = sk_ops b"
    "recv_queue a = recv_queue b" "recv_wait a = recv_wait b" "hash_list a = hash_list b"
    "sk_refcnt a = sk_refcnt b" "bhash_list a = bhash_list b" "bhash a = bhash b"
    "accept_backlog a = accept_backlog b" "backlog a = backlog b" "listen_queue a = listen_queue b"
    "accept_queue a = accept_queue b" "tsk_list a = tsk_list b" "tw_next a = tw_next b"
    "tw_timeout a = tw_timeout b" "wait_accept a = wait_accept b" "wait_connect a = wait_connect b"
    "parent a = parent b" "f_push a = f_push b" "f_acknow a = f_acknow b" "f_ackdelay a = f_ackdelay b"
    "rcv_buf a = rcv_buf b" "rcv_reass a = rcv_reass b" "snd_una a = snd_una b" "snd_nxt a = snd_nxt b"
    "snd_wnd a = snd_wnd b" "snd_up a = snd_up b" "iss a = iss b" "rcv_nxt a = rcv_nxt b"
    "rcv_wnd a = rcv_wnd b" "irs a = irs b" "state a = state b"
  using assms by (cases a; cases b; simp add: unrouted_def)+

lemma same_connsD:
  assumes "same_conns w w'"
  shows "unrouted (socks w' j) = unrouted (socks w j)" "alloc_socks w' = alloc_socks w"
    "htab w' = htab w" "btable w' = btable w" "bfree w' = bfree w" "tcp_iss w' = tcp_iss w"
    "timewait w' = timewait w" "sockets w' = sockets w" "defport w' = defport w"
  using assms by (simp_all add: same_conns_def)

lemma same_conns_refl [simp]: "same_conns w w"
  by (simp add: same_conns_def)

lemma same_conns_trans: "same_conns w w' \<Longrightarrow> same_conns w' w'' \<Longrightarrow> same_conns w w''"
  by (simp add: same_conns_def)

lemma same_conns_more: "net.more w' = net.more w \<Longrightarrow> same_conns w w'"
  using more_eqD [of w' w] by (simp add: same_conns_def)

lemma same_conns_route: "same_conns w (upd_sk i (\<lambda>sk. sk\<lparr>sk_dst := rt\<rparr>) w)"
  by (simp add: same_conns_def upd_sk_def unrouted_def)

lemma same_conns_free_pkb: "same_conns w (free_pkb p w)"
  by (rule same_conns_more) simp

lemma tcp_init_pkb_conns: "tcp_init_pkb tsk pkb sa da w = Some (p, w') \<Longrightarrow> same_conns w w'"
  by (auto simp: tcp_init_pkb_def Let_def same_conns_route split: option.splits)

context link_below
begin

lemma send_out_conns: "same_conns w w1 \<Longrightarrow> same_conns w (ip_send_out xmit p w1)"
  by (rule same_conns_trans [OF _ same_conns_more]) simp_all

lemma tcp_send_out_conns: "tsk \<noteq> None \<or> seg \<noteq> None \<Longrightarrow> same_conns w (tcp_send_out xmit tsk pkb seg w)"
  by (auto simp: tcp_send_out_def Let_def same_conns_free_pkb split: option.splits prod.splits
      intro!: send_out_conns dest: tcp_init_pkb_conns)

lemma alloc_send_conns:
  assumes "alloc_pkb n w = (p, w1)" "tsk \<noteq> None \<or> seg \<noteq> None"
  shows "same_conns w (tcp_send_out xmit tsk q seg w1)"
proof -
  have "net.more w1 = net.more w" using pkb_frame(21) [of n w] assms(1) by simp
  then show ?thesis by (intro same_conns_trans [OF same_conns_more tcp_send_out_conns] assms(2))
qed

lemma tcp_sends_conns:
  "same_conns w (tcp_send_reset xmit seg w)"
  "same_conns w (tcp_send_ack xmit i (Some seg) w)"
  "same_conns w (tcp_send_synack xmit i seg w)"
  "same_conns w (tcp_send_syn xmit i oseg w)"
  "same_conns w (tcp_send_fin xmit i w)"
  by (auto simp: tcp_send_reset_def tcp_send_ack_def tcp_send_synack_def tcp_send_syn_def tcp_send_fin_def
      Let_def alloc_send_conns split: prod.splits)

end

interpretation veth: link_below "veth_xmit tap_write"
  by unfold_locales (simp add: veth_xmit_def Let_def)

end
