(* ===== verification/Tcp_Text.thy ===== *)
theory Tcp_Text
  imports Tcp_Out
begin

text \<open>
  The text of segments: \<^verbatim>\<open>tapip/tcp/tcp_text.c\<close> and \<^verbatim>\<open>tapip/tcp/tcp_reass.c\<close>. Functions
  that change the segment they are given (through the pointer) return it. The entry of the
  reassembly list is laid over the first 32 octets of the packet
  (\<^verbatim>\<open>reuse ether header as tcp_reass_head magically\<close>): its \<^verbatim>\<open>seq\<close> lies on octets 24
  to 27 and its \<^verbatim>\<open>len\<close> on 28 to 31, over the addresses in the IP header. The octets before 24
  are not read again.
\<close>

section \<open>The receive buffer\<close>

definition tcp_free_buf :: "nat \<Rightarrow> 'a stack_scheme \<Rightarrow> 'a stack_scheme" where
  "tcp_free_buf i w = upd_sk i (\<lambda>sk. sk\<lparr>rcv_buf := None\<rparr>) w"

definition tcp_write_buf :: "nat \<Rightarrow> octets \<Rightarrow> u32 \<Rightarrow> 'a stack_scheme \<Rightarrow> int \<times> 'a stack_scheme" where
  "tcp_write_buf i data len w =
     (let tsk = socks w i;
          cb = (case rcv_buf tsk of None \<Rightarrow> Some (alloc_cbuf (sint (rcv_wnd tsk))) | Some c \<Rightarrow> Some c);
          (cb1, rlen) = write_cbuf cb data (sint len);
          w1 = upd_sk i (\<lambda>sk. sk\<lparr>rcv_buf := cb1\<rparr>) w
      in (rlen,
          if rlen > 0
          then upd_sk i (\<lambda>sk. sk\<lparr>rcv_wnd := rcv_wnd sk - word_of_int rlen,
                                  rcv_nxt := rcv_nxt sk + word_of_int rlen\<rparr>) w1
          else w1))"

text \<open>\<^verbatim>\<open>ADJACENT_SEGMENT_HEAD\<close>: cut what lies before \<open>nseq\<close>; \<open>None\<close> is the jump to \<^verbatim>\<open>out\<close>.\<close>

definition adjacent_segment_head :: "u32 \<Rightarrow> tcp_segment \<Rightarrow> tcp_segment option" where
  "adjacent_segment_head nseq seg =
     (if nseq > seg_seq seg
      then (let d = nseq - seg_seq seg
            in if seg_dlen seg \<le> d then None
               else Some (seg\<lparr>seg_dlen := seg_dlen seg - d, seg_text := drop (unat d) (seg_text seg),
                              seg_seq := nseq\<rparr>))
      else Some seg)"

section \<open>Reassembly\<close>

primrec free_pkbs_of :: "pkbuf list \<Rightarrow> 'a net_scheme \<Rightarrow> 'a net_scheme" where
  "free_pkbs_of [] w = w"
| "free_pkbs_of (p # ps) w = free_pkbs_of ps (free_pkb p w)"

definition tcp_free_reass_head :: "nat \<Rightarrow> 'a stack_scheme \<Rightarrow> 'a stack_scheme" where
  "tcp_free_reass_head i w =
     free_pkbs_of (map trh_pkb (rcv_reass (socks w i))) (upd_sk i (\<lambda>sk. sk\<lparr>rcv_reass := []\<rparr>) w)"

text \<open>
  The sequence number behind the entry before \<^verbatim>\<open>trh\<close>. Before the first entry is the list
  head itself, \<^verbatim>\<open>tsk->rcv_reass\<close>, and the fields \<^verbatim>\<open>seq\<close> and \<^verbatim>\<open>len\<close> of an entry there
  are \<^verbatim>\<open>snd_wnd\<close> and \<^verbatim>\<open>snd_up\<close> of the sock.
\<close>

definition prev_end :: "tcp_sock \<Rightarrow> tcp_reass_head list \<Rightarrow> u32" where
  "prev_end tsk before =
     (if before = [] then snd_wnd tsk + snd_up tsk else trh_seq (last before) + trh_len (last before))"

text \<open>
  The loop that removes entries the segment covers: \<open>None\<close> in the first component is the
  jump to \<^verbatim>\<open>out\<close>; otherwise it is the segment, cut at the entry it overlaps.
\<close>

fun reass_trim ::
  "tcp_segment \<Rightarrow> tcp_reass_head list \<Rightarrow> 'a net_scheme \<Rightarrow>
     tcp_segment option \<times> tcp_segment \<times> tcp_reass_head list \<times> 'a net_scheme" where
  "reass_trim seg [] w = (Some seg, seg, [], w)"
| "reass_trim seg (trh # rest) w =
     (if seg_seq seg + seg_dlen seg < trh_seq trh + trh_len trh
      then (if seg_seq seg + seg_dlen seg > trh_seq trh
            then (let seg1 = seg\<lparr>seg_dlen := trh_seq trh - seg_seq seg\<rparr>
                  in (if seg_dlen seg1 = 0 then None else Some seg1, seg1, trh # rest, w))
            else (Some seg, seg, trh # rest, w))
      else reass_trim seg rest (free_pkb (trh_pkb trh) w))"

text \<open>
  The loop that moves entries that have become adjacent into the buffer; \<open>len\<close> counts the
  octets. A failed assertion ends it.
\<close>

fun reass_deliver ::
  "nat \<Rightarrow> tcp_reass_head list \<Rightarrow> int \<Rightarrow> 'a stack_scheme \<Rightarrow> int \<times> 'a stack_scheme" where
  "reass_deliver i [] len w = (len, w)"
| "reass_deliver i (trh # rest) len w =
     (if trh_seq trh > rcv_nxt (socks w i) then (len, w)
      else if trh_seq trh \<noteq> rcv_nxt (socks w i) then (len, crash w)
      else
        (let (rlen, w1) = tcp_write_buf i (trh_data trh) (trh_len trh) w
         in if rlen \<le> 0 then (len, w1)
            else reass_deliver i rest (len + rlen)
                   (free_pkb (trh_pkb trh) (upd_sk i (\<lambda>sk. sk\<lparr>rcv_reass := rest\<rparr>) w1))))"

definition tcp_segment_reass ::
  "nat \<Rightarrow> tcp_segment \<Rightarrow> pkbuf \<Rightarrow> 'a stack_scheme \<Rightarrow> tcp_segment \<times> 'a stack_scheme" where
  "tcp_segment_reass i seg pkb w =
     (let rs = rcv_reass (socks w i);
          before = takeWhile (\<lambda>trh. \<not> seg_seq seg < trh_seq trh) rs;
          behind = dropWhile (\<lambda>trh. \<not> seg_seq seg < trh_seq trh) rs
      in case (if behind = [] then Some seg
               else adjacent_segment_head (prev_end (socks w i) before) seg) of
           None \<Rightarrow> (seg, w)
         | Some seg1 \<Rightarrow>
             (let (cont, seg2, rest, w1) = reass_trim seg1 behind w
              in case cont of
                   None \<Rightarrow> (seg2, upd_sk i (\<lambda>sk. sk\<lparr>rcv_reass := before @ rest\<rparr>) w1)
                 | Some seg3 \<Rightarrow>
                     (let ctrh = \<lparr>trh_pkb = pkb, trh_data = seg_text seg3, trh_seq = seg_seq seg3,
                                  trh_len = seg_dlen seg3\<rparr>;
                          seg4 = seg3\<lparr>seg_pkt := wr32 28 (seg_dlen seg3) (wr32 24 (seg_seq seg3) (seg_pkt seg3))\<rparr>;
                          l = before @ ctrh # rest;
                          w2 = get_pkb pkb (upd_sk i (\<lambda>sk. sk\<lparr>rcv_reass := l\<rparr>) w1);
                          (len, w3) = reass_deliver i l 0 w2;
                          w4 = (if len > 0 \<and> psh (seg_ctl seg4)
                                then upd_sk i (\<lambda>sk. sk\<lparr>f_push := True\<rparr>) w3 else w3)
                      in (seg4, w4))))"

section \<open>Receiving text\<close>

definition tcp_recv_text ::
  "nat \<Rightarrow> tcp_segment \<Rightarrow> pkbuf \<Rightarrow> 'a stack_scheme \<Rightarrow> tcp_segment \<times> 'a stack_scheme" where
  "tcp_recv_text i seg pkb w =
     (let (seg1, w1) =
        (if rcv_wnd (socks w i) = 0 then (seg, w)
         else
           (case adjacent_segment_head (rcv_nxt (socks w i)) seg of
              None \<Rightarrow> (seg, w)
            | Some seg1 \<Rightarrow>
                if rcv_nxt (socks w i) = seg_seq seg1 \<and> rcv_reass (socks w i) = []
                then (let (rlen, w1) = tcp_write_buf i (seg_text seg1) (seg_dlen seg1) w;
                          w2 = (if rlen > 0 \<and> psh (seg_ctl seg1)
                                then upd_sk i (\<lambda>sk. sk\<lparr>f_push := True\<rparr>) w1 else w1)
                      in (seg1, upd_sk i (\<lambda>sk. sk\<lparr>f_ackdelay := True\<rparr>) w2))
                else (let (seg2, w1) = tcp_segment_reass i seg1 pkb w
                      in (seg2, upd_sk i (\<lambda>sk. sk\<lparr>f_acknow := True\<rparr>) w1))))
      in (seg1, if f_push (socks w1 i) then recv_notify i w1 else w1))"

section \<open>Sending text\<close>

definition tcp_init_text :: "nat \<Rightarrow> pkbuf \<Rightarrow> octets \<Rightarrow> 'a stack_scheme \<Rightarrow> pkbuf \<times> 'a stack_scheme" where
  "tcp_init_text i pkb buf w =
     (let tsk = socks w i;
          b = put_tcp (sk_sport tsk) (sk_dport tsk) (htonl (snd_nxt tsk)) (htonl (rcv_nxt tsk))
                (no_ctl\<lparr>ack := True\<rparr>) (htons (ucast (rcv_wnd tsk))) (pk_data pkb);
          b1 = memcpy_at (TCP_HRD_OFF + TCP_HRD_SZ) buf b
      in (pkb\<lparr>pk_data := b1\<rparr>,
          upd_sk i (\<lambda>sk. sk\<lparr>snd_nxt := snd_nxt sk + of_nat (length buf),
                             snd_wnd := snd_wnd sk - of_nat (length buf)\<rparr>) w))"

text \<open>
  The loop of \<^verbatim>\<open>tcp_send_text\<close>. As in \<^verbatim>\<open>ip_send_frag\<close> the step is positive for every
  MTU a device can have; with a step of 0 or less the C loop would not end, and the loop of the
  model stops.
\<close>

function send_text_loop ::
  "'a stack_xmit \<Rightarrow> nat \<Rightarrow> octets \<Rightarrow> int \<Rightarrow> int \<Rightarrow> int \<Rightarrow> 'a stack_scheme \<Rightarrow> int \<times> 'a stack_scheme" where
  "send_text_loop xmit i buf len segsize slen w =
     (if slen < len \<and> segsize > 0 then
        (let sz = min segsize (len - slen);
             (pkb, w1) = alloc_pkb (ETH_HRD_SZ + IP_HRD_SZ + TCP_HRD_SZ + nat sz) w;
             (pkb1, w2) = tcp_init_text i pkb (sub_octets buf (nat slen) (nat sz)) w1;
             slen1 = slen + sz;
             pkb2 = (if slen1 \<ge> len
                     then pkb1\<lparr>pk_data := wr8 (TCP_HRD_OFF + 13)
                                 (ctl_octet ((tcp_flags TCP_HRD_OFF (pk_data pkb1))\<lparr>psh := True\<rparr>)) (pk_data pkb1)\<rparr>
                     else pkb1);
             w3 = tcp_send_out xmit (Some i) pkb2 None w2
         in send_text_loop xmit i buf len sz slen1 w3)
      else (slen, w))"
  by pat_completeness auto
termination
  by (relation "measure (\<lambda>(xmit, i, buf, len, segsize, slen, w). nat (len - slen))") auto

declare send_text_loop.simps [simp del]

definition tcp_send_text ::
  "'a stack_xmit \<Rightarrow> nat \<Rightarrow> octets \<Rightarrow> int \<Rightarrow> 'a stack_scheme \<Rightarrow> int \<times> 'a stack_scheme" where
  "tcp_send_text xmit i buf len w =
     (case sk_dst (socks w i) of
        None \<Rightarrow> (-1, crash w)
      | Some rt \<Rightarrow>
          (let segsize = net_mtu (devs w (rt_dev rt)) - int IP_HRD_SZ - int TCP_HRD_SZ;
               len1 = min len (sint (snd_wnd (socks w i)));
               (slen, w1) = send_text_loop xmit i buf len1 segsize 0 w
           in if slen = 0 then (-1, tcp_send_ack xmit i None w1) else (slen, w1)))"

section \<open>The receive window\<close>

text \<open>
  The octets that wait for the user, and the invariant that ties the window to the buffer: the
  window advertised is exactly the room left, or the size the buffer will get.
\<close>

definition rcv_data :: "tcp_sock \<Rightarrow> octets" where
  "rcv_data sk = (case rcv_buf sk of None \<Rightarrow> [] | Some c \<Rightarrow> contents c)"

definition rcv_ok :: "tcp_sock \<Rightarrow> bool" where
  "rcv_ok sk \<longleftrightarrow> uint (rcv_wnd sk) < 2 ^ 31 \<and>
     (case rcv_buf sk of
        None \<Rightarrow> rcv_wnd sk \<noteq> 0
      | Some c \<Rightarrow> cbuf_ok c \<and> cb_size c < 2 ^ 31 \<and> cbuffree c = uint (rcv_wnd sk))"

lemma sint_small: "uint (x :: u32) < 2 ^ 31 \<Longrightarrow> sint x = uint x"
  using signed_take_bit_int_eq_self [of 31 "uint x"] by (simp add: sint_uint order_trans [OF _ unsigned_greater_eq])

lemma uint_pos: "x \<noteq> 0 \<Longrightarrow> 0 < uint (x :: u32)"
  by (simp add: uint_0_iff order_less_le)

text \<open>What \<^verbatim>\<open>tcp_write_buf\<close> takes: as much as the window allows.\<close>

definition take_text :: "tcp_sock \<Rightarrow> octets \<Rightarrow> u32 \<Rightarrow> nat" where
  "take_text sk data len = min (unat (rcv_wnd sk)) (unat len)"

lemma write_buf_spec:
  assumes ok: "rcv_ok (socks w i)" and len: "uint len < 2 ^ 31" "unat len \<le> length data"
  defines "sk \<equiv> socks w i" and "n \<equiv> take_text (socks w i) data len"
  obtains c where "tcp_write_buf i data len w =
      (int n, upd_sk i (\<lambda>sk. sk\<lparr>rcv_buf := Some c, rcv_wnd := rcv_wnd sk - of_nat n,
                                rcv_nxt := rcv_nxt sk + of_nat n\<rparr>) w)"
    and "contents c = rcv_data sk @ take n data"
    and "rcv_ok (sk\<lparr>rcv_buf := Some c, rcv_wnd := rcv_wnd sk - of_nat n, rcv_nxt := rcv_nxt sk + of_nat n\<rparr>)"
proof -
  define c0 where "c0 = (case rcv_buf sk of None \<Rightarrow> alloc_cbuf (sint (rcv_wnd sk)) | Some c \<Rightarrow> c)"
  have wnd: "sint (rcv_wnd sk) = uint (rcv_wnd sk)" "sint len = uint len"
    using ok len by (simp_all add: rcv_ok_def sk_def sint_small)
  have c0: "cbuf_ok c0" "cb_size c0 < 2 ^ 31" "cbuffree c0 = uint (rcv_wnd sk)" "contents c0 = rcv_data sk"
  proof -
    have okk: "rcv_ok sk" using ok by (simp add: sk_def)
    have new: "cb_size (alloc_cbuf sz) = sz" "cbuffree (alloc_cbuf sz) = sz" for sz
      by (simp_all add: alloc_cbuf_def cbuffree_def cbufused_def)
    show "cbuf_ok c0" "cb_size c0 < 2 ^ 31" "cbuffree c0 = uint (rcv_wnd sk)" "contents c0 = rcv_data sk"
      using okk alloc_cbuf_ok [of "uint (rcv_wnd sk)"] uint_pos [of "rcv_wnd sk"]
      by (auto simp: rcv_ok_def c0_def wnd rcv_data_def new split: option.splits)
  qed
  have unat: "nat (uint len) \<le> length data" using len(2) by simp
  obtain c where c: "write_cbuf (Some c0) data (uint len) = (Some c, min (cbuffree c0) (uint len))"
    "cbuf_ok c" "cb_size c = cb_size c0" "cb_tail c = cb_tail c0"
    "contents c = contents c0 @ take (nat (min (cbuffree c0) (uint len))) data"
    using write_cbuf_spec [OF c0(1), of "uint len" data] unat by auto
  have n: "min (cbuffree c0) (uint len) = int n"
    by (simp add: c0 n_def take_text_def sk_def of_nat_min)
  have n': "nat (min (cbuffree c0) (uint len)) = n" unfolding n by simp
  have "int (unat len) < int (2 ^ 31)" using len(1) by simp
  then have "unat len < 2 ^ 31" by (simp only: of_nat_less_iff)
  then have nw: "n \<le> unat (rcv_wnd sk)" "n < 2 ^ 31" "n \<le> length data"
    using len(2) by (auto simp: n_def take_text_def sk_def)
  have wn: "uint (rcv_wnd sk - of_nat n) = uint (rcv_wnd sk) - int n"
  proof -
    have "uint (of_nat n :: u32) = int n" using nw(2) by (simp add: unsigned_of_nat take_bit_nat_eq_self)
    moreover have "int n \<le> int (unat (rcv_wnd sk))" using nw(1) by (simp only: of_nat_le_iff)
    ultimately show ?thesis by (simp add: uint_sub_if')
  qed
  have used: "cbufused c = cbufused c0 + int n"
  proof -
    have "length (contents c) = length (contents c0) + n" using c(5) nw(3) unfolding n' by simp
    then have "nat (cbufused c) = nat (cbufused c0) + n" by simp
    moreover have "0 \<le> cbufused c" "0 \<le> cbufused c0"
      using c(2) c0(1) by (simp_all add: cbuf_ok_def cbufused_def)
    ultimately show ?thesis by linarith
  qed
  show ?thesis
  proof (rule that [of c])
    show "tcp_write_buf i data len w = (int n, upd_sk i (\<lambda>sk. sk\<lparr>rcv_buf := Some c,
        rcv_wnd := rcv_wnd sk - of_nat n, rcv_nxt := rcv_nxt sk + of_nat n\<rparr>) w)"
      using c(1) unfolding n
      by (simp add: tcp_write_buf_def Let_def wnd(2) c0_def [symmetric] sk_def [symmetric] upd_sk_def
          option.case_distrib [of Some, symmetric] cong: option.case_cong split: option.splits)
    show "contents c = rcv_data sk @ take n data" using c(5) c0(4) unfolding n' by simp
    show "rcv_ok (sk\<lparr>rcv_buf := Some c, rcv_wnd := rcv_wnd sk - of_nat n, rcv_nxt := rcv_nxt sk + of_nat n\<rparr>)"
      using ok c(2,3) c0 used wn by (simp add: rcv_ok_def sk_def cbuffree_def)
  qed
qed

lemma wake_socks [simp]:
  "socks (wake_socket q w) = socks w" "socks (wake_ptr p w) = socks w" "socks (recv_notify i w) = socks w"
  by (simp_all add: wake_socket_def upd_so_def wake_ptr_def recv_notify_def tcp_recv_notify_def
      sock_recv_notify_def split: option.split sock_ops.split)

text \<open>
  A segment that starts at or before \<open>rcv_nxt\<close>: what is old is cut off, what is new goes to
  the buffer as far as the window reaches.
\<close>

definition new_text :: "tcp_sock \<Rightarrow> tcp_segment \<Rightarrow> octets" where
  "new_text sk seg =
     take (unat (rcv_wnd sk))
       (drop (unat (rcv_nxt sk - seg_seq seg)) (take (unat (seg_dlen seg)) (seg_text seg)))"

lemma unat_le_uint: "uint (x :: u32) < 2 ^ 31 \<longleftrightarrow> unat x < 2 ^ 31"
proof -
  have "uint x < 2 ^ 31 \<longleftrightarrow> int (unat x) < int (2 ^ 31)" by simp
  then show ?thesis by (simp only: of_nat_less_iff)
qed

lemma adjacent_head_spec:
  assumes "seg_seq seg \<le> nxt"
  defines "d \<equiv> unat (nxt - seg_seq seg)"
  shows "(adjacent_segment_head nxt seg = None \<longleftrightarrow> 0 < d \<and> unat (seg_dlen seg) \<le> d) \<and>
    (\<forall>seg1. adjacent_segment_head nxt seg = Some seg1 \<longrightarrow>
       seg_seq seg1 = nxt \<and> unat (seg_dlen seg1) = unat (seg_dlen seg) - d \<and>
       seg_text seg1 = drop d (seg_text seg) \<and> seg_pkt seg1 = seg_pkt seg \<and> seg_t seg1 = seg_t seg)"
proof (cases "nxt = seg_seq seg")
  case True
  then show ?thesis by (auto simp: adjacent_segment_head_def d_def)
next
  case False
  then have "seg_seq seg < nxt" using assms(1) by simp
  moreover have "0 < d" using False by (simp add: d_def unat_gt_0)
  ultimately show ?thesis
    by (auto simp: adjacent_segment_head_def Let_def d_def word_le_nat_alt unat_sub)
qed

lemma recv_text_spec:
  assumes ok: "rcv_ok (socks w i)" and order: "rcv_reass (socks w i) = []"
    and old: "seg_seq seg \<le> rcv_nxt (socks w i)"
    and len: "unat (seg_dlen seg) < 2 ^ 31" "unat (seg_dlen seg) \<le> length (seg_text seg)"
    and r: "tcp_recv_text i seg pkb w = (seg', w')"
  defines "sk \<equiv> socks w i" and "sk' \<equiv> socks w' i" and "new \<equiv> new_text (socks w i) seg"
  shows "rcv_data sk' = rcv_data sk @ new" "rcv_nxt sk' = rcv_nxt sk + of_nat (length new)"
    "rcv_ok sk'" "rcv_reass sk' = []" "state sk' = state sk"
    "j \<noteq> i \<Longrightarrow> socks w' j = socks w j"
proof -
  let ?d = "unat (rcv_nxt sk - seg_seq seg)"
  note adj = adjacent_head_spec [OF old]
  have lnew: "length new = min (unat (rcv_wnd sk)) (unat (seg_dlen seg) - ?d)"
    using len(2) by (simp add: new_def new_text_def sk_def)
  have *: "(rcv_data sk' = rcv_data sk @ new \<and> rcv_nxt sk' = rcv_nxt sk + of_nat (length new)) \<and>
    rcv_ok sk' \<and> rcv_reass sk' = [] \<and> state sk' = state sk \<and> (j \<noteq> i \<longrightarrow> socks w' j = socks w j)"
  proof (cases "rcv_wnd sk = 0 \<or> adjacent_segment_head (rcv_nxt sk) seg = None")
    case True
    then have "length new = 0" using adj lnew by (auto simp: sk_def)
    moreover have "socks w' = socks w"
      using True r by (auto simp: tcp_recv_text_def sk_def Let_def split: if_splits)
    ultimately show ?thesis using ok order by (simp add: sk_def sk'_def)
  next
    case False
    then obtain seg1 where s1: "adjacent_segment_head (rcv_nxt sk) seg = Some seg1" by auto
    then have seg1: "seg_seq seg1 = rcv_nxt sk" "unat (seg_dlen seg1) = unat (seg_dlen seg) - ?d"
      "seg_text seg1 = drop ?d (seg_text seg)"
      using adj by (auto simp: sk_def)
    have len1: "uint (seg_dlen seg1) < 2 ^ 31" "unat (seg_dlen seg1) \<le> length (seg_text seg1)"
      using len seg1 unfolding unat_le_uint by auto
    obtain c where c: "tcp_write_buf i (seg_text seg1) (seg_dlen seg1) w =
        (int (take_text sk (seg_text seg1) (seg_dlen seg1)),
         upd_sk i (\<lambda>s. s\<lparr>rcv_buf := Some c, rcv_wnd := rcv_wnd s - of_nat (take_text sk (seg_text seg1) (seg_dlen seg1)),
                         rcv_nxt := rcv_nxt s + of_nat (take_text sk (seg_text seg1) (seg_dlen seg1))\<rparr>) w)"
      "contents c = rcv_data sk @ take (take_text sk (seg_text seg1) (seg_dlen seg1)) (seg_text seg1)"
      "rcv_ok (sk\<lparr>rcv_buf := Some c, rcv_wnd := rcv_wnd sk - of_nat (take_text sk (seg_text seg1) (seg_dlen seg1)),
                  rcv_nxt := rcv_nxt sk + of_nat (take_text sk (seg_text seg1) (seg_dlen seg1))\<rparr>)"
      by (rule write_buf_spec [OF ok len1, folded sk_def])
    have n: "take_text sk (seg_text seg1) (seg_dlen seg1) = length new"
      using seg1 lnew by (simp add: take_text_def)
    have new: "take (length new) (seg_text seg1) = new"
    proof -
      have "new = take (unat (rcv_wnd sk)) (take (unat (seg_dlen seg) - ?d) (seg_text seg1))"
        unfolding new_def new_text_def sk_def [symmetric] seg1(3) by (simp only: drop_take)
      then show ?thesis unfolding lnew by simp
    qed
    have "socks w' = (socks w)(i := sk\<lparr>rcv_buf := Some c, rcv_wnd := rcv_wnd sk - of_nat (length new),
        rcv_nxt := rcv_nxt sk + of_nat (length new), f_ackdelay := True,
        f_push := (f_push sk \<or> 0 < length new \<and> psh (seg_ctl seg1))\<rparr>)"
      using r False s1 seg1(1) order c(1)
      by (auto simp: tcp_recv_text_def Let_def sk_def [symmetric] upd_sk_def n split: if_splits)
    then show ?thesis
      using c(2,3) n new order by (simp add: sk_def sk'_def rcv_data_def rcv_ok_def)
  qed
  then show "rcv_data sk' = rcv_data sk @ new" "rcv_nxt sk' = rcv_nxt sk + of_nat (length new)"
    "rcv_ok sk'" "rcv_reass sk' = []" "state sk' = state sk"
    by blast+
  show "j \<noteq> i \<Longrightarrow> socks w' j = socks w j" using * by blast
qed

end
