(* ===== verification/Tcp_Timer.thy ===== *)
theory Tcp_Timer
  imports Tcp_Text
begin

text \<open>
  The TIME-WAIT timer: \<^verbatim>\<open>tapip/tcp/tcp_timer.c\<close> and \<^verbatim>\<open>tapip/include/tcp_timer.h\<close>. The
  connections in TIME-WAIT form a singly linked list through \<^verbatim>\<open>timewait.next\<close>, here
  \<open>tw_next\<close>, from the head \<open>timewait\<close> on; the loop manipulates it through a pointer
  \<^verbatim>\<open>pprev\<close> to the pointer that led to the present entry, which is the head or the
  \<^verbatim>\<open>next\<close> of an earlier entry.
\<close>

abbreviation (input) TCP_TIMEWAIT_TIMEOUT :: int where "TCP_TIMEWAIT_TIMEOUT \<equiv> 2 * 1000000"

definition tcp_set_state :: "nat \<Rightarrow> tcp_state \<Rightarrow> 'a stack_scheme \<Rightarrow> 'a stack_scheme" where
  "tcp_set_state i st w = upd_sk i (\<lambda>sk. sk\<lparr>state := st\<rparr>) w"

datatype tw_slot = TwHead | TwNext nat

definition tw_store :: "tw_slot \<Rightarrow> nat option \<Rightarrow> 'a stack_scheme \<Rightarrow> 'a stack_scheme" where
  "tw_store pprev v w =
     (case pprev of
        TwHead \<Rightarrow> w\<lparr>timewait := v\<rparr>
      | TwNext j \<Rightarrow> upd_sk j (\<lambda>sk. sk\<lparr>tw_next := v\<rparr>) w)"

text \<open>The deletion of a connection whose time is over.\<close>

definition timewait_expire :: "nat \<Rightarrow> 'a stack_scheme \<Rightarrow> 'a stack_scheme" where
  "timewait_expire i w =
     (let w1 = (if parent (socks w i) = NoParent then tcp_unbhash i w else w);
          w2 = tcp_unhash i w1;
          w3 = tcp_set_state i TCP_CLOSED w2
      in free_sock i w3)"

text \<open>
  The loop. Every round clears the \<^verbatim>\<open>next\<close> of its entry, so that a list of \<open>n\<close> entries
  takes \<open>n\<close> rounds; the list holds distinct socks, of which there are \<open>alloc_socks\<close>.
\<close>

fun timewait_loop ::
  "nat \<Rightarrow> int \<Rightarrow> tw_slot \<Rightarrow> nat option \<Rightarrow> 'a stack_scheme \<Rightarrow> 'a stack_scheme" where
  "timewait_loop 0 delta pprev t w = w"
| "timewait_loop (Suc n) delta pprev None w = w"
| "timewait_loop (Suc n) delta pprev (Some i) w =
     (let nxt = tw_next (socks w i);
          w1 = upd_sk i (\<lambda>sk. sk\<lparr>tw_next := None, tw_timeout := tw_timeout sk - delta\<rparr>) w
      in if tw_timeout (socks w1 i) \<le> 0
         then timewait_loop n delta pprev nxt (tw_store pprev nxt (timewait_expire i w1))
         else timewait_loop n delta (TwNext i) nxt w1)"

definition tcp_timewait_timer :: "int \<Rightarrow> 'a stack_scheme \<Rightarrow> 'a stack_scheme" where
  "tcp_timewait_timer delta w = timewait_loop (alloc_socks w + 1) delta TwHead (timewait w) w"

definition tcp_set_timewait_timer :: "nat \<Rightarrow> 'a stack_scheme \<Rightarrow> 'a stack_scheme" where
  "tcp_set_timewait_timer i w =
     (let w1 = tcp_set_state i TCP_TIME_WAIT w;
          w2 = upd_sk i (\<lambda>sk. sk\<lparr>tw_timeout := TCP_TIMEWAIT_TIMEOUT, tw_next := timewait w1\<rparr>) w1
      in get_tcp_sock i (w2\<lparr>timewait := Some i\<rparr>))"

text \<open>
  One round of the endless loop of \<^verbatim>\<open>tcp_timer\<close>, after its \<^verbatim>\<open>usleep\<close>: \<open>i\<close> counts the
  rounds of 200 ms, and every fifth runs the TIME-WAIT timer.
\<close>

definition tcp_timer_round :: "u32 \<Rightarrow> 'a stack_scheme \<Rightarrow> u32 \<times> 'a stack_scheme" where
  "tcp_timer_round i w =
     (let i1 = i + 1 in (i1, if i1 mod 5 = 0 then tcp_timewait_timer 1000000 w else w))"

section \<open>The list under the timer\<close>

fun tw_chain :: "'a stack_scheme \<Rightarrow> nat option \<Rightarrow> nat list \<Rightarrow> bool" where
  "tw_chain w t [] \<longleftrightarrow> t = None"
| "tw_chain w t (i # l) \<longleftrightarrow> t = Some i \<and> tw_chain w (tw_next (socks w i)) l"

definition tw_load :: "tw_slot \<Rightarrow> 'a stack_scheme \<Rightarrow> nat option" where
  "tw_load p w = (case p of TwHead \<Rightarrow> timewait w | TwNext j \<Rightarrow> tw_next (socks w j))"

text \<open>
  What is left of the list \<open>l\<close> when the entries in \<open>E\<close> expire: \<open>tw_linked\<close> from a pointer
  that leads to its first entry, \<open>tw_cut\<close> behind an entry that was kept, whose pointer has
  just been cleared. Of neighbours that are kept only the first stays in the list.
\<close>

fun tw_linked :: "(nat \<Rightarrow> bool) \<Rightarrow> nat list \<Rightarrow> nat list" and tw_cut :: "(nat \<Rightarrow> bool) \<Rightarrow> nat list \<Rightarrow> nat list" where
  "tw_linked E [] = []"
| "tw_linked E (i # l) = (if E i then tw_linked E l else i # tw_cut E l)"
| "tw_cut E [] = []"
| "tw_cut E (i # l) = (if E i then tw_linked E l else [])"

lemma tw_chain_frame:
  "\<forall>i \<in> set l. tw_next (socks w' i) = tw_next (socks w i) \<Longrightarrow> tw_chain w' t l = tw_chain w t l"
  by (induction l arbitrary: t) auto

lemma expire_frame [simp]:
  "tw_next (socks (timewait_expire i w) j) = tw_next (socks w j)"
  "tw_timeout (socks (timewait_expire i w) j) = tw_timeout (socks w j)"
  "timewait (timewait_expire i w) = timewait w"
  "state (socks (timewait_expire i w) j) = (if j = i then TCP_CLOSED else state (socks w j))"
  "hash_list (socks (timewait_expire i w) j) = (if j = i then None else hash_list (socks w j))"
  by (auto simp: timewait_expire_def Let_def tcp_unbhash_def tcp_unset_sport_def tcp_unhash_def
      sock_del_hash_def free_sock_def upd_sk_def tcp_set_state_def split: option.split)

lemma tw_store_frame [simp]:
  "tw_timeout (socks (tw_store p v w) j) = tw_timeout (socks w j)"
  "state (socks (tw_store p v w) j) = state (socks w j)"
  "hash_list (socks (tw_store p v w) j) = hash_list (socks w j)"
  "tw_load p (tw_store p v w) = v"
  "p \<noteq> TwNext j \<Longrightarrow> tw_next (socks (tw_store p v w) j) = tw_next (socks w j)"
  "p \<noteq> TwHead \<Longrightarrow> timewait (tw_store p v w) = timewait w"
  by (auto simp: tw_store_def tw_load_def upd_sk_def split: tw_slot.split)

text \<open>One round, on the first entry of the rest of the list.\<close>

definition tw_touch :: "int \<Rightarrow> nat \<Rightarrow> 'a stack_scheme \<Rightarrow> 'a stack_scheme" where
  "tw_touch delta i w = upd_sk i (\<lambda>sk. sk\<lparr>tw_next := None, tw_timeout := tw_timeout sk - delta\<rparr>) w"

lemma tw_touch_frame [simp]:
  "tw_next (socks (tw_touch delta i w) j) = (if j = i then None else tw_next (socks w j))"
  "tw_timeout (socks (tw_touch delta i w) j) = (if j = i then tw_timeout (socks w i) - delta else tw_timeout (socks w j))"
  "state (socks (tw_touch delta i w) j) = state (socks w j)"
  "hash_list (socks (tw_touch delta i w) j) = hash_list (socks w j)"
  "timewait (tw_touch delta i w) = timewait w"
  by (simp_all add: tw_touch_def upd_sk_def)

lemma timewait_loop_Cons:
  assumes "length (i # l) < n"
  obtains m where "n = Suc m" "length l < m"
    "timewait_loop n delta p (Some i) w =
       (if tw_timeout (socks w i) \<le> delta
        then timewait_loop m delta p (tw_next (socks w i))
               (tw_store p (tw_next (socks w i)) (timewait_expire i (tw_touch delta i w)))
        else timewait_loop m delta (TwNext i) (tw_next (socks w i)) (tw_touch delta i w))"
proof -
  obtain m where m: "n = Suc m" "length l < m" using assms by (cases n) auto
  show ?thesis
    by (rule that [OF m]) (simp add: m(1) Let_def tw_touch_def [symmetric] algebra_simps)
qed

lemma tw_chain_step:
  assumes "tw_chain w t (i # l)" "i \<notin> set l" "p \<noteq> TwNext i" "\<forall>j \<in> set l. p \<noteq> TwNext j"
  shows "t = Some i" "tw_chain (tw_touch delta i w) (tw_next (socks w i)) l"
    "tw_chain (tw_store p v (timewait_expire i (tw_touch delta i w))) (tw_next (socks w i)) l"
proof -
  have c: "tw_chain w (tw_next (socks w i)) l" using assms(1) by simp
  show "t = Some i" using assms(1) by simp
  show "tw_chain (tw_touch delta i w) (tw_next (socks w i)) l"
    using c assms(2) by (subst tw_chain_frame [of l _ w]) auto
  show "tw_chain (tw_store p v (timewait_expire i (tw_touch delta i w))) (tw_next (socks w i)) l"
    using c assms(2,4) by (subst tw_chain_frame [of l _ w]) auto
qed

lemma tw_load_frame [simp]:
  "q \<noteq> TwNext i \<Longrightarrow> tw_load q (tw_touch delta i w) = tw_load q w"
  "tw_load q (timewait_expire i w) = tw_load q w"
  "q \<noteq> p \<Longrightarrow> tw_load q (tw_store p v w) = tw_load q w"
  "tw_load (TwNext i) (tw_touch delta i w) = None"
  by (auto simp: tw_load_def split: tw_slot.split)

text \<open>The pointers the loop leaves alone.\<close>

lemma timewait_loop_loads:
  "tw_chain w t l \<Longrightarrow> distinct l \<Longrightarrow> length l < n \<Longrightarrow> \<forall>j \<in> set l. p \<noteq> TwNext j \<Longrightarrow>
     q \<noteq> p \<Longrightarrow> \<forall>j \<in> set l. q \<noteq> TwNext j \<Longrightarrow> tw_load q (timewait_loop n delta p t w) = tw_load q w"
proof (induction l arbitrary: n p t w)
  case Nil
  then show ?case by (cases n) auto
next
  case (Cons i l)
  obtain m where m: "length l < m" and run: "timewait_loop n delta p (Some i) w =
       (if tw_timeout (socks w i) \<le> delta
        then timewait_loop m delta p (tw_next (socks w i))
               (tw_store p (tw_next (socks w i)) (timewait_expire i (tw_touch delta i w)))
        else timewait_loop m delta (TwNext i) (tw_next (socks w i)) (tw_touch delta i w))"
    by (rule timewait_loop_Cons [OF Cons.prems(3)])
  have il: "i \<notin> set l" "p \<noteq> TwNext i" "\<forall>j \<in> set l. p \<noteq> TwNext j" using Cons.prems by auto
  note st = tw_chain_step [OF Cons.prems(1) il]
  have "\<forall>j \<in> set l. TwNext i \<noteq> TwNext j" using il(1) by auto
  then show ?case
    unfolding st(1) run
    using Cons.prems Cons.IH [OF st(3) _ m, where p = p] Cons.IH [OF st(2) _ m, where p = "TwNext i"]
    by (auto simp del: tw_chain.simps)
qed

text \<open>The list that is left behind the slot.\<close>

lemma timewait_loop_chain:
  "tw_chain w t l \<Longrightarrow> distinct l \<Longrightarrow> length l < n \<Longrightarrow> \<forall>j \<in> set l. p \<noteq> TwNext j \<Longrightarrow>
     \<forall>j \<in> set l. E j \<longleftrightarrow> tw_timeout (socks w j) \<le> delta \<Longrightarrow> tw_load p w = (if linked then t else None) \<Longrightarrow>
     tw_chain (timewait_loop n delta p t w) (tw_load p (timewait_loop n delta p t w))
       (if linked then tw_linked E l else tw_cut E l)"
proof (induction l arbitrary: n p t w linked)
  case Nil
  then show ?case by (cases n) auto
next
  case (Cons i l)
  obtain m where m: "length l < m" and run: "timewait_loop n delta p (Some i) w =
       (if tw_timeout (socks w i) \<le> delta
        then timewait_loop m delta p (tw_next (socks w i))
               (tw_store p (tw_next (socks w i)) (timewait_expire i (tw_touch delta i w)))
        else timewait_loop m delta (TwNext i) (tw_next (socks w i)) (tw_touch delta i w))"
    by (rule timewait_loop_Cons [OF Cons.prems(3)])
  have il: "i \<notin> set l" "p \<noteq> TwNext i" "\<forall>j \<in> set l. p \<noteq> TwNext j" "distinct l" using Cons.prems by auto
  note st = tw_chain_step [OF Cons.prems(1) il(1-3)]
  show ?case
  proof (cases "tw_timeout (socks w i) \<le> delta")
    case True
    let ?w = "tw_store p (tw_next (socks w i)) (timewait_expire i (tw_touch delta i w))"
    have "\<forall>j \<in> set l. E j \<longleftrightarrow> tw_timeout (socks ?w j) \<le> delta" using Cons.prems(5) il(1) by auto
    then have "tw_chain (timewait_loop m delta p (tw_next (socks w i)) ?w)
        (tw_load p (timewait_loop m delta p (tw_next (socks w i)) ?w)) (tw_linked E l)"
      using Cons.IH [OF st(3) il(4) m il(3), where linked = True] by simp
    then show ?thesis using True Cons.prems(5) unfolding st(1) run by simp
  next
    case False
    let ?w = "tw_touch delta i w" and ?w' = "timewait_loop m delta (TwNext i) (tw_next (socks w i)) (tw_touch delta i w)"
    have sl: "\<forall>j \<in> set l. TwNext i \<noteq> TwNext j" using il(1) by auto
    have "\<forall>j \<in> set l. E j \<longleftrightarrow> tw_timeout (socks ?w j) \<le> delta" using Cons.prems(5) il(1) by auto
    then have c: "tw_chain ?w' (tw_load (TwNext i) ?w') (tw_cut E l)"
      using Cons.IH [OF st(2) il(4) m sl, where linked = False] by simp
    have "tw_load p ?w' = tw_load p w"
      using timewait_loop_loads [OF st(2) il(4) m sl, of p] il(2,3) by simp
    then show ?thesis
      using False Cons.prems(5,6) c unfolding st(1) run by (auto simp: tw_load_def [of "TwNext i"])
  qed
qed

lemma timewait_loop_socks:
  "tw_chain w t l \<Longrightarrow> distinct l \<Longrightarrow> length l < n \<Longrightarrow> \<forall>j \<in> set l. p \<noteq> TwNext j \<Longrightarrow>
     w' = timewait_loop n delta p t w \<Longrightarrow>
     tw_timeout (socks w' k) = (if k \<in> set l then tw_timeout (socks w k) - delta else tw_timeout (socks w k)) \<and>
     state (socks w' k) = (if k \<in> set l \<and> tw_timeout (socks w k) \<le> delta then TCP_CLOSED else state (socks w k)) \<and>
     hash_list (socks w' k) =
       (if k \<in> set l \<and> tw_timeout (socks w k) \<le> delta then None else hash_list (socks w k))"
proof (induction l arbitrary: n p t w w')
  case Nil
  then show ?case by (cases n) auto
next
  case (Cons i l)
  obtain m where m: "length l < m" and run: "timewait_loop n delta p (Some i) w =
       (if tw_timeout (socks w i) \<le> delta
        then timewait_loop m delta p (tw_next (socks w i))
               (tw_store p (tw_next (socks w i)) (timewait_expire i (tw_touch delta i w)))
        else timewait_loop m delta (TwNext i) (tw_next (socks w i)) (tw_touch delta i w))"
    by (rule timewait_loop_Cons [OF Cons.prems(3)])
  have il: "i \<notin> set l" "p \<noteq> TwNext i" "\<forall>j \<in> set l. p \<noteq> TwNext j" "distinct l" using Cons.prems by auto
  have sl: "\<forall>j \<in> set l. TwNext i \<noteq> TwNext j" using il(1) by auto
  note st = tw_chain_step [OF Cons.prems(1) il(1-3)]
  show ?case
  proof (cases "tw_timeout (socks w i) \<le> delta")
    case True
    then show ?thesis
      using Cons.prems(5) Cons.IH [OF st(3) il(4) m il(3) refl] il(1) unfolding st(1) run by auto
  next
    case False
    then show ?thesis
      using Cons.prems(5) Cons.IH [OF st(2) il(4) m sl refl] il(1) unfolding st(1) run by auto
  qed
qed

lemma expire_alloc [simp]: "alloc_socks (timewait_expire i w) = alloc_socks w"
  by (auto simp: timewait_expire_def Let_def tcp_unbhash_def tcp_unset_sport_def tcp_unhash_def
      sock_del_hash_def free_sock_def upd_sk_def tcp_set_state_def split: option.split)

lemma timewait_loop_alloc: "alloc_socks (timewait_loop n delta p t w) = alloc_socks w"
  by (induction n delta p t w rule: timewait_loop.induct)
    (simp_all add: Let_def tw_store_def upd_sk_def split: tw_slot.split)

lemma tw_length: "distinct l \<Longrightarrow> set l \<subseteq> {..<n} \<Longrightarrow> length l \<le> n"
  by (metis card_lessThan card_mono distinct_card finite_lessThan)

lemma timewait_timer_spec:
  assumes "tw_chain w (timewait w) l" "distinct l" "set l \<subseteq> {..<alloc_socks w}"
    and "w' = tcp_timewait_timer delta w"
  shows "tw_chain w' (timewait w') (tw_linked (\<lambda>j. tw_timeout (socks w j) \<le> delta) l)"
    "tw_timeout (socks w' k) = (if k \<in> set l then tw_timeout (socks w k) - delta else tw_timeout (socks w k))"
    "state (socks w' k) = (if k \<in> set l \<and> tw_timeout (socks w k) \<le> delta then TCP_CLOSED else state (socks w k))"
    "hash_list (socks w' k) =
       (if k \<in> set l \<and> tw_timeout (socks w k) \<le> delta then None else hash_list (socks w k))"
proof -
  have n: "length l < alloc_socks w + 1" using tw_length [OF assms(2,3)] by simp
  have p: "\<forall>j \<in> set l. TwHead \<noteq> TwNext j" by simp
  show "tw_chain w' (timewait w') (tw_linked (\<lambda>j. tw_timeout (socks w j) \<le> delta) l)"
    using timewait_loop_chain [OF assms(1,2) n p, of "\<lambda>j. tw_timeout (socks w j) \<le> delta" delta True]
    by (simp add: assms(4) tcp_timewait_timer_def tw_load_def)
  show "tw_timeout (socks w' k) = (if k \<in> set l then tw_timeout (socks w k) - delta else tw_timeout (socks w k))"
    "state (socks w' k) = (if k \<in> set l \<and> tw_timeout (socks w k) \<le> delta then TCP_CLOSED else state (socks w k))"
    "hash_list (socks w' k) =
       (if k \<in> set l \<and> tw_timeout (socks w k) \<le> delta then None else hash_list (socks w k))"
    using timewait_loop_socks [OF assms(1,2) n p refl]
    by (simp_all add: assms(4) tcp_timewait_timer_def)
qed

text \<open>C31. The TIME-WAIT timer refines \<open>tw_linked\<close>: exactly the entries of the list whose time is
  over are closed and leave the table of connections, the others lose \<open>delta\<close> of their time,
  and the list that is left is \<open>tw_linked\<close>. In particular, of two neighbours that are both kept,
  the second leaves the list although it stays in its state: no later run will close it.
\<close>

theorem timewait_timer_refines:
  assumes "tw_chain w (timewait w) l" "distinct l" "set l \<subseteq> {..<alloc_socks w}"
    and "w' = tcp_timewait_timer delta w"
  shows "tw_chain w' (timewait w') (tw_linked (\<lambda>j. tw_timeout (socks w j) \<le> delta) l) \<and>
    (\<forall>i \<in> set l. tw_timeout (socks w i) \<le> delta \<longrightarrow>
       state (socks w' i) = TCP_CLOSED \<and> hash_list (socks w' i) = None) \<and>
    (\<forall>i \<in> set l. tw_timeout (socks w i) > delta \<longrightarrow>
       state (socks w' i) = state (socks w i) \<and> tw_timeout (socks w' i) = tw_timeout (socks w i) - delta) \<and>
    (\<forall>i j rest. l = i # j # rest \<and> tw_timeout (socks w i) > delta \<and> tw_timeout (socks w j) > delta \<longrightarrow>
       tw_chain w' (timewait w') [i] \<and> state (socks w' j) = state (socks w j))"
  using timewait_timer_spec [OF assms] by auto

theorem timewait_timer_refines_witness:
  "\<exists>w :: stack. tw_chain w (timewait w) [0, 1] \<and> state (socks (tcp_timewait_timer 1000000 w) 1) = TCP_TIME_WAIT \<and>
     tw_chain (tcp_timewait_timer 1000000 w) (timewait (tcp_timewait_timer 1000000 w)) [0]"
proof -
  define w :: stack where "w = stack_bss\<lparr>socks := (\<lambda>i. (zero_sock TCP_OPS)\<lparr>state := TCP_TIME_WAIT,
      tw_timeout := 2000000, tw_next := if i = 0 then Some 1 else None\<rparr>), timewait := Some 0, alloc_socks := 2\<rparr>"
  have w: "tw_chain w (timewait w) [0, 1]" "set [0, 1] \<subseteq> {..<alloc_socks w}" "tw_timeout (socks w k) = 2000000"
    "state (socks w k) = TCP_TIME_WAIT" for k
    by (auto simp: w_def)
  show ?thesis
    using timewait_timer_refines [OF w(1) _ w(2) refl, of 1000000] w(1,3,4) by - (rule exI [of _ w], simp)
qed

text \<open>
  The references that the table of connections and, for a sock that has no parent, the table of
  ports hold; and what the deletion of a connection leaves.
\<close>

definition table_refs :: "tcp_sock \<Rightarrow> int" where
  "table_refs sk = (if hash_list sk = None then 0 else 1) + (if parent sk = NoParent \<and> bhash_list sk then 1 else 0)"

lemma free_sock_live:
  "1 < sk_refcnt (socks w i) \<Longrightarrow> free_sock i w = upd_sk i (\<lambda>sk. sk\<lparr>sk_refcnt := sk_refcnt sk - 1\<rparr>) w"
  by (simp add: free_sock_def Let_def upd_sk_def)

lemma timewait_expire_releases:
  assumes "table_refs (socks w i) < sk_refcnt (socks w i)" "w' = timewait_expire i w"
  shows "sk_refcnt (socks w' i) = sk_refcnt (socks w i) - table_refs (socks w i) - 1 \<and>
    (sk_freed (socks w' i) \<longleftrightarrow> sk_freed (socks w i) \<or> sk_refcnt (socks w i) = table_refs (socks w i) + 1) \<and>
    free_socks w' = free_socks w + (if sk_refcnt (socks w i) = table_refs (socks w i) + 1 then 1 else 0) \<and>
    bfree w' = bfree w + (if parent (socks w i) = NoParent \<and> bhash_list (socks w i) then 1 else 0) \<and>
    htab w' h = (if hash_list (socks w i) = Some h then remove1 i (htab w h) else htab w h) \<and>
    (j \<noteq> i \<longrightarrow> socks w' j = socks w j)"
proof -
  define b where "b \<longleftrightarrow> parent (socks w i) = NoParent \<and> bhash_list (socks w i)"
  define v where "v = (if parent (socks w i) = NoParent then tcp_unbhash i w else w)"
  have v: "sk_refcnt (socks v i) = sk_refcnt (socks w i) - (if b then 1 else 0)" "sk_freed (socks v i) = sk_freed (socks w i)"
    "free_socks v = free_socks w" "bfree v = bfree w + (if b then 1 else 0)" "htab v = htab w"
    "hash_list (socks v i) = hash_list (socks w i)" "j \<noteq> i \<Longrightarrow> socks v j = socks w j"
    using assms(1) by (auto simp: v_def b_def tcp_unbhash_def tcp_unset_sport_def Let_def table_refs_def free_sock_live upd_sk_def
        split: if_splits)
  define u where "u = tcp_unhash i v"
  have u: "sk_refcnt (socks u i) = sk_refcnt (socks w i) - table_refs (socks w i)" "sk_freed (socks u i) = sk_freed (socks w i)"
    "free_socks u = free_socks w" "bfree u = bfree v"
    "htab u h = (if hash_list (socks w i) = Some h then remove1 i (htab w h) else htab w h)" "j \<noteq> i \<Longrightarrow> socks u j = socks w j"
    using assms(1) v
    by (cases "hash_list (socks w i)"; simp add: u_def tcp_unhash_def sock_del_hash_def table_refs_def b_def free_sock_live upd_sk_def)+
  have "w' = free_sock i (tcp_set_state i TCP_CLOSED u)" by (simp add: assms(2) timewait_expire_def u_def v_def Let_def)
  then show ?thesis
    using assms(1) u v(4) by (auto simp: free_sock_def tcp_set_state_def upd_sk_def b_def Let_def)
qed

lemma timewait_single:
  assumes "timewait w = Some i" "tw_next (socks w i) = None" "0 < alloc_socks w"
  shows "tcp_timewait_timer d w =
    (if tw_timeout (socks w i) \<le> d then tw_store TwHead None (timewait_expire i (tw_touch d i w)) else tw_touch d i w)"
  using assms by (cases "alloc_socks w") (simp_all add: tcp_timewait_timer_def Let_def tw_touch_def [symmetric])

lemma timewait_none: "timewait w = None \<Longrightarrow> (tcp_timewait_timer d ^^ n) w = w"
  by (induction n) (simp_all add: tcp_timewait_timer_def)

text \<open>The rounds of \<^verbatim>\<open>tcp_timer\<close> from the count \<open>c\<close> on: the timer runs when the count passes a multiple of five.\<close>

lemma timer_rounds:
  assumes "unat c + n < 2 ^ 32"
  shows "((\<lambda>(i, w). tcp_timer_round i w) ^^ n) (c, w) =
    (c + of_nat n, (tcp_timewait_timer 1000000 ^^ ((unat c + n) div 5 - unat c div 5)) w)"
  using assms
proof (induction n)
  case (Suc n)
  let ?m = "unat c + n"
  have u: "unat (c + of_nat (Suc n)) = Suc ?m" using Suc.prems by (simp add: unat_word_ariths unat_of_nat)
  have "(c + of_nat (Suc n)) mod 5 = 0 \<longleftrightarrow> unat ((c + of_nat (Suc n)) mod 5) = 0" by (rule unat_eq_zero [symmetric])
  then have md: "(c + of_nat (Suc n)) mod 5 = 0 \<longleftrightarrow> Suc ?m mod 5 = 0" unfolding unat_mod u by simp
  have e: "c + of_nat n + 1 = c + of_nat (Suc n)" by simp
  have r: "tcp_timer_round (c + of_nat n) v =
      (c + of_nat (Suc n), if Suc ?m mod 5 = 0 then tcp_timewait_timer 1000000 v else v)" for v :: "'a stack_scheme"
    unfolding tcp_timer_round_def Let_def e md by (rule refl)
  have d: "(unat c + Suc n) div 5 - unat c div 5 =
      (if Suc ?m mod 5 = 0 then Suc (?m div 5 - unat c div 5) else ?m div 5 - unat c div 5)"
    by (auto simp: div_Suc Suc_diff_le div_le_mono)
  have ih: "((\<lambda>(i, w). tcp_timer_round i w) ^^ n) (c, w) =
      (c + of_nat n, (tcp_timewait_timer 1000000 ^^ (?m div 5 - unat c div 5)) w)" using Suc by simp
  show ?case unfolding funpow.simps o_apply ih case_prod_conv r d by (cases "Suc ?m mod 5 = 0") simp_all
qed simp



end
