(* ===== verification/Tcp_State.thy ===== *)
theory Tcp_State
  imports Tcp_Timer
begin

text \<open>
  The state machine of TCP: \<^verbatim>\<open>tapip/tcp/tcp_state.c\<close> and the accept queue of
  \<^verbatim>\<open>tapip/include/tcp.h\<close>. \<open>tcp_process\<close> is the body of \<^verbatim>\<open>tcp_process\<close> cut at its
  numbered steps; a jump to \<^verbatim>\<open>drop\<close> in a step is the result \<open>False\<close> of that step. The debug
  output is left out.
\<close>

section \<open>Queues of a listening sock\<close>

definition unlink_tsk :: "nat \<Rightarrow> 'a stack_scheme \<Rightarrow> 'a stack_scheme" where
  "unlink_tsk i w =
     (let w1 = (case tsk_list (socks w i) of
                  None \<Rightarrow> w
                | Some (ListenQ p) \<Rightarrow> upd_sk p (\<lambda>sk. sk\<lparr>listen_queue := remove1 i (listen_queue sk)\<rparr>) w
                | Some (AcceptQ p) \<Rightarrow> upd_sk p (\<lambda>sk. sk\<lparr>accept_queue := remove1 i (accept_queue sk)\<rparr>) w)
      in upd_sk i (\<lambda>sk. sk\<lparr>tsk_list := None\<rparr>) w1)"

definition tcp_accept_queue_full :: "tcp_sock \<Rightarrow> bool" where
  "tcp_accept_queue_full tsk \<longleftrightarrow> accept_backlog tsk \<ge> backlog tsk"

definition tcp_accept_enqueue :: "nat \<Rightarrow> nat \<Rightarrow> 'a stack_scheme \<Rightarrow> 'a stack_scheme" where
  "tcp_accept_enqueue i p w =
     (let w1 = unlink_tsk i w;
          w2 = upd_sk p (\<lambda>sk. sk\<lparr>accept_queue := i # accept_queue sk\<rparr>) w1
      in upd_sk i (\<lambda>sk. sk\<lparr>tsk_list := Some (AcceptQ p), accept_backlog := accept_backlog sk + 1\<rparr>) w2)"

definition tcp_accept_dequeue :: "nat \<Rightarrow> 'a stack_scheme \<Rightarrow> nat \<times> 'a stack_scheme" where
  "tcp_accept_dequeue i w =
     (let c = hd (accept_queue (socks w i));
          w1 = unlink_tsk c w
      in (c, upd_sk i (\<lambda>sk. sk\<lparr>accept_backlog := accept_backlog sk - 1\<rparr>) w1))"

section \<open>Passive open\<close>

definition alloc_new_iss :: "'a stack_scheme \<Rightarrow> u32 \<times> 'a stack_scheme" where
  "alloc_new_iss w =
     (let s = tcp_iss w + 1; s1 = (if s \<ge> 0xffffffff then 12345678 else s)
      in (s1, w\<lparr>tcp_iss := s1\<rparr>))"

definition tcp_listen_child_sock ::
  "nat \<Rightarrow> tcp_segment \<Rightarrow> 'a stack_scheme \<Rightarrow> nat option \<times> 'a stack_scheme" where
  "tcp_listen_child_sock i seg w =
     (case tcp_alloc_sock (int (unat (sk_protocol (socks w i)))) w of
        (None, w1) \<Rightarrow> (None, crash w1)
      | (Some c, w1) \<Rightarrow>
          (let w2 = upd_sk c (\<lambda>sk. sk\<lparr>state := TCP_SYN_RECV, sk_saddr := ip_dst (seg_pkt seg),
                                       sk_daddr := ip_src (seg_pkt seg), sk_sport := seg_dst seg,
                                       sk_dport := seg_src seg\<rparr>) w1
           in case tcp_hash c w2 of
                (r, w3) \<Rightarrow>
                  if r < 0 then (None, upd_sk c (\<lambda>sk. sk\<lparr>sk_freed := True\<rparr>) w3)
                  else
                    (let w4 = upd_sk c (\<lambda>sk. sk\<lparr>parent := Parent i\<rparr>) (get_tcp_sock i w3);
                         w5 = upd_sk i (\<lambda>sk. sk\<lparr>listen_queue := c # listen_queue sk\<rparr>) w4;
                         w6 = upd_sk c (\<lambda>sk. sk\<lparr>tsk_list := Some (ListenQ i)\<rparr>) w5
                     in (Some c, get_tcp_sock c w6))))"

definition tcp_listen ::
  "'a stack_xmit \<Rightarrow> pkbuf \<Rightarrow> tcp_segment \<Rightarrow> nat \<Rightarrow> 'a stack_scheme \<Rightarrow> 'a stack_scheme" where
  "tcp_listen xmit pkb seg i w =
     (let f = seg_ctl seg;
          w' = (if rst f then w
                else if ack f then tcp_send_reset xmit seg w
                else if \<not> syn f then w
                else
                  (case tcp_listen_child_sock i seg w of
                     (None, w1) \<Rightarrow> w1
                   | (Some c, w1) \<Rightarrow>
                       (let (s, w2) = alloc_new_iss w1;
                            w3 = upd_sk c (\<lambda>sk. sk\<lparr>irs := seg_seq seg, iss := s, rcv_nxt := seg_seq seg + 1\<rparr>) w2;
                            w4 = tcp_send_synack xmit c seg w3
                        in upd_sk c (\<lambda>sk. sk\<lparr>snd_nxt := iss sk + 1, snd_una := iss sk\<rparr>) w4)))
      in free_pkb pkb w')"

definition tcp_closed ::
  "'a stack_xmit \<Rightarrow> nat option \<Rightarrow> pkbuf \<Rightarrow> tcp_segment \<Rightarrow> 'a stack_scheme \<Rightarrow> 'a stack_scheme" where
  "tcp_closed xmit tsk pkb seg w =
     free_pkb pkb (if tsk = None then tcp_send_reset xmit seg w else w)"

section \<open>Active open\<close>

text \<open>\<^verbatim>\<open>wake_up\<close> of a pointer that is not tested locks a mutex inside the object it points to.\<close>

definition wake_deref :: "nat option \<Rightarrow> 'a stack_scheme \<Rightarrow> 'a stack_scheme" where
  "wake_deref p w = (case p of None \<Rightarrow> crash w | Some s \<Rightarrow> wake_socket s w)"

definition tcp_synsent ::
  "'a stack_xmit \<Rightarrow> pkbuf \<Rightarrow> tcp_segment \<Rightarrow> nat \<Rightarrow> 'a stack_scheme \<Rightarrow> 'a stack_scheme" where
  "tcp_synsent xmit pkb seg i w =
     (let f = seg_ctl seg; tsk = socks w i in
      if ack f \<and> (seg_ack seg \<le> iss tsk \<or> seg_ack seg > snd_nxt tsk)
      then free_pkb pkb (tcp_send_reset xmit seg w)
      else if rst f
      then free_pkb pkb
             (if ack f then wake_ptr (wait_connect tsk) (tcp_set_state i TCP_CLOSED w) else w)
      else if syn f
      then (let w1 = upd_sk i (\<lambda>sk. sk\<lparr>irs := seg_seq seg, rcv_nxt := seg_seq seg + 1,
                                       snd_una := (if ack f then seg_ack seg else snd_una sk)\<rparr>) w
            in if snd_una (socks w1 i) > iss (socks w1 i)
               then (let w2 = upd_sk i (\<lambda>sk. sk\<lparr>state := TCP_ESTABLISHED, snd_wnd := seg_wnd seg,
                                                snd_wl1 := seg_seq seg, snd_wl2 := seg_ack seg\<rparr>) w1;
                         w3 = tcp_send_ack xmit i (Some seg) w2
                     in free_pkb pkb (wake_deref (wait_connect (socks w3 i)) w3))
               else tcp_send_synack xmit i seg (tcp_set_state i TCP_SYN_RECV w1))
      else free_pkb pkb w)"

section \<open>The steps of SEGMENT ARRIVES\<close>

definition tcp_synrecv_ack :: "nat \<Rightarrow> 'a stack_scheme \<Rightarrow> int \<times> 'a stack_scheme" where
  "tcp_synrecv_ack i w =
     (case parent (socks w i) of
        Parent p \<Rightarrow>
          if state (socks w p) \<noteq> TCP_LISTEN then (-1, w)
          else if tcp_accept_queue_full (socks w p) then (-1, w)
          else (let w1 = tcp_accept_enqueue i p w
                in (0, wake_deref (wait_accept (socks w1 p)) w1))
      | _ \<Rightarrow> (-1, crash w))"

definition seq_check :: "tcp_segment \<Rightarrow> tcp_sock \<Rightarrow> int" where
  "seq_check seg tsk =
     (let rcv_end = rcv_nxt tsk + (if rcv_wnd tsk \<noteq> 0 then rcv_wnd tsk else 1)
      in if seg_seq seg < rcv_end \<and> rcv_nxt tsk \<le> seg_lastseq seg then 0 else -1)"

definition set_window :: "tcp_segment \<Rightarrow> tcp_sock \<Rightarrow> tcp_sock" where
  "set_window seg tsk =
     tsk\<lparr>snd_wnd := seg_wnd seg, snd_wl1 := seg_seq seg, snd_wl2 := seg_ack seg\<rparr>"

definition tcp_update_window :: "tcp_segment \<Rightarrow> tcp_sock \<Rightarrow> tcp_sock" where
  "tcp_update_window seg tsk =
     (if snd_una tsk \<le> seg_ack seg \<and> seg_ack seg \<le> snd_nxt tsk \<and>
         (snd_wl1 tsk < seg_seq seg \<or> snd_wl1 tsk = seg_seq seg \<and> snd_wl2 tsk \<le> seg_ack seg)
      then set_window seg tsk else tsk)"

text \<open>Second step: a reset.\<close>

definition process_rst :: "nat \<Rightarrow> 'a stack_scheme \<Rightarrow> 'a stack_scheme" where
  "process_rst i w =
     (let w1 = (if state (socks w i) = TCP_SYN_RECV
                then (if parent (socks w i) \<noteq> NoParent then tcp_unhash i w
                      else wake_ptr (wait_connect (socks w i)) w)
                else w)
      in tcp_unbhash i (tcp_unhash i (tcp_set_state i TCP_CLOSED w1)))"

text \<open>Fourth step: a SYN on a connection. The code goes on with the segment.\<close>

definition process_syn :: "'a stack_xmit \<Rightarrow> tcp_segment \<Rightarrow> nat \<Rightarrow> 'a stack_scheme \<Rightarrow> 'a stack_scheme" where
  "process_syn xmit seg i w =
     (let w1 = tcp_send_reset xmit seg w;
          w2 = (if state (socks w1 i) = TCP_SYN_RECV \<and> parent (socks w1 i) \<noteq> NoParent
                then tcp_unhash i w1 else w1)
      in free_sock i (tcp_set_state i TCP_CLOSED w2))"

text \<open>Fifth step: the acknowledgment; the result says whether the segment is processed further.\<close>

definition process_ack ::
  "'a stack_xmit \<Rightarrow> tcp_segment \<Rightarrow> nat \<Rightarrow> 'a stack_scheme \<Rightarrow> bool \<times> 'a stack_scheme" where
  "process_ack xmit seg i w =
     (let tsk = socks w i in
      if state tsk = TCP_SYN_RECV then
        (if snd_una tsk \<le> seg_ack seg \<and> seg_ack seg \<le> snd_nxt tsk
         then (case tcp_synrecv_ack i w of
                 (r, w1) \<Rightarrow>
                   if r < 0 then (False, w1)
                   else (True, upd_sk i (\<lambda>sk. (set_window seg (sk\<lparr>snd_una := seg_ack seg\<rparr>))
                                                 \<lparr>state := TCP_ESTABLISHED\<rparr>) w1))
         else (False, tcp_send_reset xmit seg w))
      else if state tsk \<in> {TCP_ESTABLISHED, TCP_CLOSE_WAIT, TCP_LAST_ACK, TCP_FIN_WAIT1, TCP_CLOSING} then
        (if snd_una tsk < seg_ack seg \<and> seg_ack seg \<le> snd_nxt tsk
         then (let w1 = upd_sk i (\<lambda>sk. sk\<lparr>snd_una := seg_ack seg\<rparr>) w in
               if state tsk = TCP_FIN_WAIT1
               then (True, upd_sk i (tcp_update_window seg) (tcp_set_state i TCP_FIN_WAIT2 w1))
               else if state tsk = TCP_CLOSING then (False, tcp_set_timewait_timer i w1)
               else if state tsk = TCP_LAST_ACK
               then (False, tcp_unbhash i (tcp_unhash i (tcp_set_state i TCP_CLOSED w1)))
               else (True, upd_sk i (tcp_update_window seg) w1))
         else if seg_ack seg > snd_nxt tsk then (False, w)
         else (True, upd_sk i (tcp_update_window seg) w))
      else (True, w))"

text \<open>Seventh step: the text. The segment comes back as the reassembly left it.\<close>

definition process_text ::
  "pkbuf \<Rightarrow> tcp_segment \<Rightarrow> nat \<Rightarrow> 'a stack_scheme \<Rightarrow> tcp_segment \<times> 'a stack_scheme" where
  "process_text pkb seg i w =
     (if state (socks w i) \<in> {TCP_ESTABLISHED, TCP_FIN_WAIT1, TCP_FIN_WAIT2} \<and>
         (psh (seg_ctl seg) \<or> seg_dlen seg > 0)
      then tcp_recv_text i seg pkb w else (seg, w))"

text \<open>Eighth step: a FIN.\<close>

definition process_fin :: "tcp_segment \<Rightarrow> nat \<Rightarrow> 'a stack_scheme \<Rightarrow> 'a stack_scheme" where
  "process_fin seg i w =
     (let w1 = (case state (socks w i) of
                  TCP_SYN_RECV \<Rightarrow>
                    recv_notify i (upd_sk i (\<lambda>sk. sk\<lparr>state := TCP_CLOSE_WAIT, f_push := True\<rparr>) w)
                | TCP_ESTABLISHED \<Rightarrow>
                    recv_notify i (upd_sk i (\<lambda>sk. sk\<lparr>state := TCP_CLOSE_WAIT, f_push := True\<rparr>) w)
                | TCP_FIN_WAIT1 \<Rightarrow> tcp_set_state i TCP_CLOSING w
                | TCP_TIME_WAIT \<Rightarrow> upd_sk i (\<lambda>sk. sk\<lparr>tw_timeout := TCP_TIMEWAIT_TIMEOUT\<rparr>) w
                | TCP_FIN_WAIT2 \<Rightarrow> tcp_set_timewait_timer i w
                | _ \<Rightarrow> w)
      in upd_sk i (\<lambda>sk. sk\<lparr>rcv_nxt := seg_seq seg + 1, f_acknow := True\<rparr>) w1)"

definition process_drop ::
  "'a stack_xmit \<Rightarrow> pkbuf \<Rightarrow> tcp_segment \<Rightarrow> nat \<Rightarrow> 'a stack_scheme \<Rightarrow> 'a stack_scheme" where
  "process_drop xmit pkb seg i w =
     free_pkb pkb
       (if f_acknow (socks w i) \<or> f_ackdelay (socks w i) then tcp_send_ack xmit i (Some seg) w else w)"

text \<open>Steps one to eight for a synchronised connection, up to \<^verbatim>\<open>drop\<close>.\<close>

definition process_steps ::
  "'a stack_xmit \<Rightarrow> pkbuf \<Rightarrow> tcp_segment \<Rightarrow> nat \<Rightarrow> 'a stack_scheme \<Rightarrow> tcp_segment \<times> 'a stack_scheme" where
  "process_steps xmit pkb seg i w =
     (let f = seg_ctl seg in
      if seq_check seg (socks w i) < 0
      then (seg, if rst f then w else upd_sk i (\<lambda>sk. sk\<lparr>f_acknow := True\<rparr>) w)
      else if rst f then (seg, process_rst i w)
      else
        (let w1 = (if syn f then process_syn xmit seg i w else w) in
         if \<not> ack f then (seg, w1)
         else
           (case process_ack xmit seg i w1 of
              (False, w2) \<Rightarrow> (seg, w2)
            | (True, w2) \<Rightarrow>
                (case process_text pkb seg i w2 of
                   (seg1, w3) \<Rightarrow> (seg1, if fin f then process_fin seg1 i w3 else w3)))))"

definition tcp_process ::
  "'a stack_xmit \<Rightarrow> pkbuf \<Rightarrow> tcp_segment \<Rightarrow> nat option \<Rightarrow> 'a stack_scheme \<Rightarrow> 'a stack_scheme" where
  "tcp_process xmit pkb seg osk w =
     (case osk of
        None \<Rightarrow> tcp_closed xmit None pkb seg w
      | Some i \<Rightarrow>
          (case state (socks w i) of
             TCP_CLOSED \<Rightarrow> tcp_closed xmit (Some i) pkb seg w
           | TCP_LISTEN \<Rightarrow> tcp_listen xmit pkb seg i w
           | TCP_SYN_SENT \<Rightarrow> tcp_synsent xmit pkb seg i w
           | _ \<Rightarrow> (case process_steps xmit pkb seg i w of
                     (seg1, w1) \<Rightarrow> process_drop xmit pkb seg1 i w1)))"

section \<open>Input\<close>

definition tcp_segment_init :: "octets \<Rightarrow> nat \<Rightarrow> tcp_segment" where
  "tcp_segment_init b t =
     (let f = tcp_flags t b;
          sq = ntohl (tcp_seq t b);
          dlen = word_of_int (ipdlen b - int (tcphlen t b));
          len = dlen + of_bool (syn f) + of_bool (fin f)
      in \<lparr>seg_seq = sq, seg_ack = (if ack f then ntohl (tcp_ackn t b) else 0),
          seg_lastseq = (if len \<noteq> 0 then sq + len - 1 else sq), seg_len = len, seg_dlen = dlen,
          seg_wnd = ucast (ntohs (tcp_window t b)), seg_up = ucast (ntohs (tcp_urgptr t b)),
          seg_text = drop (t + tcphlen t b) b, seg_pkt = b, seg_t = t\<rparr>)"

definition tcp_recv :: "'a stack_xmit \<Rightarrow> pkbuf \<Rightarrow> nat \<Rightarrow> 'a stack_scheme \<Rightarrow> 'a stack_scheme" where
  "tcp_recv xmit pkb t w =
     (let b = pk_data pkb;
          seg = tcp_segment_init b t;
          (sk, w1) = tcp_lookup_sock (ip_src b) (ip_dst b) (tcp_src t b) (tcp_dst t b) w;
          w2 = tcp_process xmit pkb seg sk w1
      in case sk of None \<Rightarrow> w2 | Some i \<Rightarrow> free_sock i w2)"

definition tcp_in :: "'a stack_xmit \<Rightarrow> pkbuf \<Rightarrow> 'a stack_scheme \<Rightarrow> 'a stack_scheme" where
  "tcp_in xmit pkb w =
     (let b = pk_data pkb; t = ipdata_off b; tcplen = ipdlen b in
      if sz_less tcplen TCP_HRD_SZ \<or> tcplen < int (tcphlen t b) then free_pkb pkb w
      else if tcp_chksum (ip_src b) (ip_dst b) (word_of_int tcplen) (drop t b) \<noteq> 0 then free_pkb pkb w
      else tcp_recv xmit pkb t w)"

section \<open>The acceptance test\<close>

text \<open>The table of RFC 793, page 69, over the integers.\<close>

definition rfc793_acceptable :: "int \<Rightarrow> int \<Rightarrow> int \<Rightarrow> int \<Rightarrow> bool" where
  "rfc793_acceptable sq len nxt wnd \<longleftrightarrow>
     (if len = 0 then (if wnd = 0 then sq = nxt else nxt \<le> sq \<and> sq < nxt + wnd)
      else wnd > 0 \<and> (nxt \<le> sq \<and> sq < nxt + wnd \<or> nxt \<le> sq + len - 1 \<and> sq + len - 1 < nxt + wnd))"

text \<open>C27. The test of sequence numbers. As long as neither the window nor the segment wraps
  around, \<^verbatim>\<open>seq_check\<close> accepts exactly the segments that overlap the receive window (one
  octet wide when it is closed). Every segment that RFC 793 accepts is accepted; the converse
  holds for an open window and segments that are not larger than it.
\<close>

theorem seq_check_window:
  assumes "seg_lastseq seg = (if seg_len seg \<noteq> 0 then seg_seq seg + seg_len seg - 1 else seg_seq seg)"
    and "uint (seg_seq seg) + uint (seg_len seg) < 2 ^ 32"
    and "uint (rcv_nxt tsk) + uint (rcv_wnd tsk) + 1 < 2 ^ 32"
  shows "(seq_check seg tsk = 0 \<longleftrightarrow>
           {uint (seg_seq seg)..uint (seg_lastseq seg)} \<inter>
           {uint (rcv_nxt tsk)..<uint (rcv_nxt tsk) + max 1 (uint (rcv_wnd tsk))} \<noteq> {}) \<and>
         (rfc793_acceptable (uint (seg_seq seg)) (uint (seg_len seg)) (uint (rcv_nxt tsk)) (uint (rcv_wnd tsk))
            \<longrightarrow> seq_check seg tsk = 0) \<and>
         (seq_check seg tsk = 0 \<and> rcv_wnd tsk \<noteq> 0 \<and> seg_len seg \<le> rcv_wnd tsk
            \<longrightarrow> rfc793_acceptable (uint (seg_seq seg)) (uint (seg_len seg)) (uint (rcv_nxt tsk)) (uint (rcv_wnd tsk)))"
proof -
  define q l n v where "q = uint (seg_seq seg)" and "l = uint (seg_len seg)"
    and "n = uint (rcv_nxt tsk)" and "v = uint (rcv_wnd tsk)"
  have pos: "0 \<le> q" "0 \<le> l" "0 \<le> n" "0 \<le> v" by (simp_all add: q_def l_def n_def v_def)
  have one: "1 \<le> uint x" if "x \<noteq> 0" for x :: u32
    using that by (simp add: uint_0_iff order_less_le int_one_le_iff_zero_less)
  have l1: "1 \<le> l" if "seg_len seg \<noteq> 0" using one [OF that] by (simp add: l_def)
  have last: "uint (seg_lastseq seg) = (if l = 0 then q else q + l - 1)"
  proof (cases "seg_len seg = 0")
    case False
    have "q + l < 2 ^ 32" using assms(2) by (simp add: q_def l_def)
    then have "(q + l - 1) mod 2 ^ 32 = q + l - 1"
      using l1 [OF False] pos(1) by (intro mod_pos_pos_trivial) linarith+
    then show ?thesis using False l1 assms(1) by (simp add: q_def l_def uint_word_ariths mod_simps)
  qed (simp add: assms(1) l_def q_def)
  have rend: "uint (rcv_nxt tsk + (if rcv_wnd tsk \<noteq> 0 then rcv_wnd tsk else 1)) = n + max 1 v"
    using assms(3) pos one
    by (auto simp: n_def v_def uint_word_ariths mod_pos_pos_trivial)
  have chk: "seq_check seg tsk = 0 \<longleftrightarrow> q < n + max 1 v \<and> n \<le> (if l = 0 then q else q + l - 1)"
    using last rend by (simp add: seq_check_def Let_def word_less_def word_le_def q_def n_def)
  have ovl: "{q..(if l = 0 then q else q + l - 1)} \<inter> {n..<n + max 1 v} \<noteq> {} \<longleftrightarrow>
      q < n + max 1 v \<and> n \<le> (if l = 0 then q else q + l - 1)"
  proof -
    have "max q n \<in> {q..(if l = 0 then q else q + l - 1)} \<inter> {n..<n + max 1 v}"
      if "q < n + max 1 v" "n \<le> (if l = 0 then q else q + l - 1)"
      using that pos by (auto split: if_splits)
    then show ?thesis using pos by fastforce
  qed
  show ?thesis
    unfolding chk last ovl q_def [symmetric] l_def [symmetric] n_def [symmetric] v_def [symmetric]
    using pos
    by (auto simp: rfc793_acceptable_def word_le_def l_def [symmetric] v_def [symmetric] uint_0_iff [symmetric]
        split: if_splits)
qed

theorem seq_check_window_witness:
  "seq_check (tcp_segment_init (replicate 54 0) 34) (zero_sock TCP_OPS) = 0"
proof -
  define seg where "seg = tcp_segment_init (replicate 54 0) 34"
  have seg: "seg_seq seg = 0" "seg_len seg = 0" "seg_lastseq seg = 0"
    by (simp_all add: seg_def) code_simp+
  have "uint (rcv_nxt (zero_sock TCP_OPS)) = 0" "uint (rcv_wnd (zero_sock TCP_OPS)) = 0"
    by (simp_all add: zero_sock_def)
  then show ?thesis
    using seq_check_window [of seg "zero_sock TCP_OPS"] by (simp add: seg seg_def [symmetric])
qed

section \<open>The states\<close>

text \<open>The arrows a segment with the control bits \<open>f\<close> can take a connection along.\<close>

inductive tcp_arrow :: "tcp_ctl \<Rightarrow> tcp_state \<Rightarrow> tcp_state \<Rightarrow> bool" for f where
  abort: "rst f \<or> syn f \<Longrightarrow> s \<notin> {TCP_CLOSED, TCP_LISTEN, TCP_SYN_SENT} \<Longrightarrow> tcp_arrow f s TCP_CLOSED"
| refused: "rst f \<Longrightarrow> ack f \<Longrightarrow> tcp_arrow f TCP_SYN_SENT TCP_CLOSED"
| active: "syn f \<Longrightarrow> ack f \<Longrightarrow> \<not> rst f \<Longrightarrow> tcp_arrow f TCP_SYN_SENT TCP_ESTABLISHED"
| simultaneous: "syn f \<Longrightarrow> \<not> ack f \<Longrightarrow> \<not> rst f \<Longrightarrow> tcp_arrow f TCP_SYN_SENT TCP_SYN_RECV"
| accepted: "ack f \<Longrightarrow> \<not> rst f \<Longrightarrow> tcp_arrow f TCP_SYN_RECV TCP_ESTABLISHED"
| remote_close: "fin f \<Longrightarrow> ack f \<Longrightarrow> tcp_arrow f TCP_ESTABLISHED TCP_CLOSE_WAIT"
| fin_acked: "ack f \<Longrightarrow> tcp_arrow f TCP_FIN_WAIT1 TCP_FIN_WAIT2"
| both_close: "fin f \<Longrightarrow> ack f \<Longrightarrow> tcp_arrow f TCP_FIN_WAIT1 TCP_CLOSING"
| last_fin: "fin f \<Longrightarrow> ack f \<Longrightarrow> tcp_arrow f TCP_FIN_WAIT2 TCP_TIME_WAIT"
| closing_acked: "ack f \<Longrightarrow> tcp_arrow f TCP_CLOSING TCP_TIME_WAIT"
| last_acked: "ack f \<Longrightarrow> tcp_arrow f TCP_LAST_ACK TCP_CLOSED"

inductive_cases tcp_arrow_closedE: "tcp_arrow f TCP_CLOSED s"
inductive_cases tcp_arrow_listenE: "tcp_arrow f TCP_LISTEN s"

lemma upd_sk_state [simp]:
  "state (socks (upd_sk i g w) j) = (if j = i then state (g (socks w i)) else state (socks w j))"
  by (simp add: upd_sk_def)

lemma state_frame [simp]:
  "state (socks (get_sock i w) j) = state (socks w j)"
  "state (socks (free_sock i w) j) = state (socks w j)"
  "state (socks (get_tcp_sock i w) j) = state (socks w j)"
  "state (socks (sock_add_hash i hh w) j) = state (socks w j)"
  "state (socks (sock_del_hash i w) j) = state (socks w j)"
  "state (socks (tcp_unhash i w) j) = state (socks w j)"
  "state (socks (tcp_unbhash i w) j) = state (socks w j)"
  "state (socks (wake_socket q w) j) = state (socks w j)"
  "state (socks (wake_ptr p w) j) = state (socks w j)"
  "state (socks (recv_notify i w) j) = state (socks w j)"
  "state (socks (crash w) j) = state (socks w j)"
  "state (socks (wake_deref p w) j) = state (socks w j)"
  "state (socks (unlink_tsk i w) j) = state (socks w j)"
  "state (socks (tcp_accept_enqueue i q w) j) = state (socks w j)"
  "state (socks (free_pkb pk w) j) = state (socks w j)"
  "state (socks (get_pkb pk w) j) = state (socks w j)"
  by (auto simp: get_sock_def free_sock_def get_tcp_sock_def sock_add_hash_def sock_del_hash_def
      tcp_unhash_def tcp_unbhash_def tcp_unset_sport_def wake_socket_def wake_ptr_def recv_notify_def
      tcp_recv_notify_def sock_recv_notify_def crash_def wake_deref_def unlink_tsk_def
      tcp_accept_enqueue_def upd_so_def upd_sk_def free_pkb_def get_pkb_def Let_def
      split: option.split sock_ops.split queue_ref.split)

lemma timewait_state [simp]:
  "state (socks (tcp_set_timewait_timer i w) j) = (if j = i then TCP_TIME_WAIT else state (socks w j))"
  by (simp add: tcp_set_timewait_timer_def tcp_set_state_def Let_def upd_sk_def get_tcp_sock_def get_sock_def)

lemma write_buf_state [simp]: "state (socks (snd (tcp_write_buf i d n w)) j) = state (socks w j)"
  by (simp add: tcp_write_buf_def Let_def split_beta)

lemma reass_deliver_state [simp]:
  "state (socks (snd (reass_deliver i l n w)) j) = state (socks w j)"
proof (induction i l n w rule: reass_deliver.induct)
  case (2 i trh rest len w)
  obtain r w1 where r: "tcp_write_buf i (trh_data trh) (trh_len trh) w = (r, w1)" by fastforce
  have "state (socks w1 j) = state (socks w j)"
    using write_buf_state [of i "trh_data trh" "trh_len trh" w j] r by simp
  then show ?case using 2 [OF _ _ r [symmetric]] r by auto
qed simp

lemma reass_trim_socks [simp]: "socks (snd (snd (snd (reass_trim seg l w)))) = socks w"
  by (induction seg l w rule: reass_trim.induct) (simp_all add: Let_def more_eqD(1) [OF pkb_frame(10)])

lemma segment_reass_state [simp]:
  "state (socks (snd (tcp_segment_reass i seg pkb w)) j) = state (socks w j)"
  unfolding tcp_segment_reass_def Let_def
  by (auto simp: split_beta split: option.splits)

lemma recv_text_state [simp]: "state (socks (snd (tcp_recv_text i seg pkb w)) j) = state (socks w j)"
  unfolding tcp_recv_text_def Let_def by (auto simp: split_beta split: option.splits)

lemma process_text_state [simp]: "state (socks (snd (process_text pkb seg i w)) j) = state (socks w j)"
  by (simp add: process_text_def)

lemma set_state_state [simp]:
  "state (socks (tcp_set_state i s w) j) = (if j = i then s else state (socks w j))"
  by (simp add: tcp_set_state_def)

lemma window_state [simp]: "state (set_window seg sk) = state sk" "state (tcp_update_window seg sk) = state sk"
  by (simp_all add: tcp_update_window_def set_window_def)

lemma same_conns_state: "same_conns w w' \<Longrightarrow> state (socks w' j) = state (socks w j)"
  using unroutedD(37) [OF same_connsD(1)] .

lemma process_rst_state:
  "state (socks (process_rst i w) j) = (if j = i then TCP_CLOSED else state (socks w j))"
  by (simp add: process_rst_def Let_def)

lemma process_fin_state:
  "state (socks (process_fin seg i w) j) =
     (if j = i
      then (case state (socks w i) of
              TCP_SYN_RECV \<Rightarrow> TCP_CLOSE_WAIT | TCP_ESTABLISHED \<Rightarrow> TCP_CLOSE_WAIT
            | TCP_FIN_WAIT1 \<Rightarrow> TCP_CLOSING | TCP_FIN_WAIT2 \<Rightarrow> TCP_TIME_WAIT | s \<Rightarrow> s)
      else state (socks w j))"
  by (simp add: process_fin_def Let_def split: tcp_state.split)

lemma synrecv_ack_state [simp]: "state (socks (snd (tcp_synrecv_ack i w)) j) = state (socks w j)"
  by (simp add: tcp_synrecv_ack_def Let_def split: parent_ref.split)

context link_below
begin

lemma sends_state [simp]:
  "state (socks (tcp_send_reset xmit seg w) j) = state (socks w j)"
  "state (socks (tcp_send_ack xmit i (Some seg) w) j) = state (socks w j)"
  "state (socks (tcp_send_synack xmit i seg w) j) = state (socks w j)"
  "state (socks (tcp_send_syn xmit i oseg w) j) = state (socks w j)"
  "state (socks (tcp_send_fin xmit i w) j) = state (socks w j)"
  by (rule same_conns_state tcp_sends_conns)+

lemma process_syn_state:
  "state (socks (process_syn xmit seg i w) j) = (if j = i then TCP_CLOSED else state (socks w j))"
  by (simp add: process_syn_def Let_def)

lemma process_drop_state [simp]: "state (socks (process_drop xmit pkb seg i w) j) = state (socks w j)"
  by (simp add: process_drop_def)

text \<open>The fifth step: at most one arrow, and only for an acceptable acknowledgment.\<close>

lemma process_ack_state:
  assumes "process_ack xmit seg i w = (c, w')" "ack f" "\<not> rst f"
  shows "(tcp_arrow f)\<^sup>=\<^sup>= (state (socks w i)) (state (socks w' i))"
    and "j \<noteq> i \<Longrightarrow> state (socks w' j) = state (socks w j)"
    and "c \<Longrightarrow> state (socks w' i) \<notin> {TCP_SYN_RECV, TCP_TIME_WAIT} \<or> state (socks w' i) = state (socks w i) \<and> state (socks w i) = TCP_TIME_WAIT"
proof -
  obtain r w1 where e: "tcp_synrecv_ack i w = (r, w1)" by fastforce
  have st: "state (socks w1 k) = state (socks w k)" for k
    using synrecv_ack_state [of i w k] e by simp
  show "(tcp_arrow f)\<^sup>=\<^sup>= (state (socks w i)) (state (socks w' i))"
    using assms st
    by (auto simp: e process_ack_def Let_def split: if_splits prod.splits intro: tcp_arrow.intros)
  show "j \<noteq> i \<Longrightarrow> state (socks w' j) = state (socks w j)"
    using assms(1) st
    by (auto simp: e process_ack_def Let_def split: if_splits prod.splits)
  show "c \<Longrightarrow> state (socks w' i) \<notin> {TCP_SYN_RECV, TCP_TIME_WAIT} \<or> state (socks w' i) = state (socks w i) \<and> state (socks w i) = TCP_TIME_WAIT"
    using assms(1) st by (auto simp: e process_ack_def Let_def split: if_splits prod.splits)
qed

text \<open>Steps one to eight: along the arrows, and the other socks keep their state.\<close>

lemma process_steps_state:
  assumes "process_steps xmit pkb seg i w = (seg', w')"
    and "state (socks w i) \<notin> {TCP_CLOSED, TCP_LISTEN, TCP_SYN_SENT}"
  shows "(tcp_arrow (seg_ctl seg))\<^sup>*\<^sup>* (state (socks w i)) (state (socks w' i))"
    and "j \<noteq> i \<Longrightarrow> state (socks w' j) = state (socks w j)"
proof -
  let ?f = "seg_ctl seg"
  define w1 where "w1 = (if syn ?f then process_syn xmit seg i w else w)"
  obtain c w2 where a: "process_ack xmit seg i w1 = (c, w2)" by fastforce
  obtain seg1 w3 where t: "process_text pkb seg i w2 = (seg1, w3)" by fastforce
  have w3: "state (socks w3 k) = state (socks w2 k)" for k
    using process_text_state [of pkb seg i w2 k] t by simp
  have w1: "state (socks w1 k) = (if k = i \<and> syn ?f then TCP_CLOSED else state (socks w k))" for k
    by (simp add: w1_def process_syn_state)
  consider (drop) "\<forall>k. state (socks w' k) = state (socks w k)"
    | (rst) "rst ?f" "w' = process_rst i w"
    | (noack) "\<not> rst ?f" "w' = w1"
    | (ackdrop) "\<not> rst ?f" "ack ?f" "w' = w2"
    | (full) "\<not> rst ?f" "ack ?f" c "w' = (if fin ?f then process_fin seg1 i w3 else w3)"
    using assms(1) a t
    by (auto simp: process_steps_def Let_def w1_def [symmetric] split: if_splits bool.splits)
  note cases = this
  have s1: "(tcp_arrow ?f)\<^sup>=\<^sup>= (state (socks w i)) (state (socks w1 i))"
    using assms(2) by (auto simp: w1 intro: tcp_arrow.abort)
  have s2: "(tcp_arrow ?f)\<^sup>*\<^sup>* (state (socks w i)) (state (socks w2 i))" if "ack ?f" "\<not> rst ?f"
    using s1 process_ack_state(1) [OF a that] by auto
  have s3: "(tcp_arrow ?f)\<^sup>=\<^sup>= (state (socks w2 i)) (state (socks (process_fin seg1 i w3) i))"
    if "ack ?f" "\<not> rst ?f" c "fin ?f"
    using process_ack_state(3) [OF a that(1,2)] that
    by (auto simp: process_fin_state w3 split: tcp_state.splits intro: tcp_arrow.intros)
  show "(tcp_arrow ?f)\<^sup>*\<^sup>* (state (socks w i)) (state (socks w' i))"
    using cases
  proof cases
    case rst
    then show ?thesis using assms(2) by (auto simp: process_rst_state intro!: r_into_rtranclp tcp_arrow.abort)
  next
    case noack
    then show ?thesis using s1 by auto
  next
    case full
    then show ?thesis using s2 s3 by (auto simp: w3)
  qed (use s2 in auto)
  show "j \<noteq> i \<Longrightarrow> state (socks w' j) = state (socks w j)"
    using cases process_ack_state(2) [OF a]
    by cases (auto simp: process_rst_state process_fin_state w1 w3)
qed

end

lemma tcp_hash_state [simp]: "state (socks (snd (tcp_hash i w)) j) = state (socks w j)"
  by (simp add: tcp_hash_def Let_def)

lemma alloc_sock_state:
  "tcp_alloc_sock p w = (r, w1) \<Longrightarrow> j < alloc_socks w \<Longrightarrow> state (socks w1 j) = state (socks w j)"
  "tcp_alloc_sock p w = (Some c, w1) \<Longrightarrow> c = alloc_socks w"
  by (auto simp: tcp_alloc_sock_def new_sock_def split: if_splits)

lemma child_state:
  assumes "tcp_listen_child_sock i seg w = (r, w1)" "j < alloc_socks w"
  shows "state (socks w1 j) = state (socks w j)" "r = Some c \<Longrightarrow> c = alloc_socks w"
proof -
  obtain oc w2 where a: "tcp_alloc_sock (int (unat (sk_protocol (socks w i)))) w = (oc, w2)" by fastforce
  note st = alloc_sock_state(1) [OF a assms(2)]
  have new: "oc = Some c \<Longrightarrow> c = alloc_socks w" for c using alloc_sock_state(2) a by metis
  have h: "state (socks w4 j) = state (socks w3 j)" if "tcp_hash c' w3 = (rr, w4)" for c' w3 rr w4
    using tcp_hash_state [of c' w3 j] that by simp
  show "state (socks w1 j) = state (socks w j)"
    using assms a st new by (auto simp: tcp_listen_child_sock_def Let_def dest!: h split: option.splits prod.splits if_splits)
  show "r = Some c \<Longrightarrow> c = alloc_socks w"
    using assms(1) a new by (auto simp: tcp_listen_child_sock_def Let_def split: option.splits prod.splits if_splits)
qed

context link_below
begin

lemma listen_state:
  assumes "j < alloc_socks w"
  shows "state (socks (tcp_listen xmit pkb seg i w) j) = state (socks w j)"
proof -
  obtain r w1 where c: "tcp_listen_child_sock i seg w = (r, w1)" by fastforce
  note st = child_state [OF c assms]
  show ?thesis
    using assms st by (auto simp: tcp_listen_def Let_def c alloc_new_iss_def split: option.splits)
qed

lemma synsent_state:
  assumes "state (socks w i) = TCP_SYN_SENT" "snd_una (socks w i) = iss (socks w i)"
  shows "(tcp_arrow (seg_ctl seg))\<^sup>*\<^sup>* (state (socks w i)) (state (socks (tcp_synsent xmit pkb seg i w) i))"
    and "j \<noteq> i \<Longrightarrow> state (socks (tcp_synsent xmit pkb seg i w) j) = state (socks w j)"
  using assms
  by (auto simp: tcp_synsent_def Let_def upd_sk_def intro!: r_into_rtranclp tcp_arrow.intros)

end

text \<open>C8. The TCP state machine. On a device that does not re-enter the stack, a segment moves the
  connection it belongs to only along the arrows of RFC 793 that its control bits permit (with
  the code's reading of a SYN on a synchronised connection as an abort), every other existing
  connection keeps its state, and a segment that fails the acceptance test moves nothing.
\<close>

theorem tcp_process_transitions:
  assumes "i < alloc_socks w"
    and "state (socks w i) = TCP_SYN_SENT \<longrightarrow> snd_una (socks w i) = iss (socks w i)"
  shows "(tcp_arrow (seg_ctl seg))\<^sup>*\<^sup>* (state (socks w i))
           (state (socks (tcp_process (veth_xmit tap_write) pkb seg (Some i) w) i)) \<and>
         (\<forall>j. j < alloc_socks w \<and> j \<noteq> i \<longrightarrow>
            state (socks (tcp_process (veth_xmit tap_write) pkb seg (Some i) w) j) = state (socks w j)) \<and>
         (state (socks w i) \<notin> {TCP_CLOSED, TCP_LISTEN, TCP_SYN_SENT} \<and> seq_check seg (socks w i) < 0 \<longrightarrow>
            state (socks (tcp_process (veth_xmit tap_write) pkb seg (Some i) w) i) = state (socks w i))"
proof -
  let ?x = "veth_xmit tap_write"
  obtain seg' w' where p: "process_steps ?x pkb seg i w = (seg', w')" by fastforce
  note steps = veth.process_steps_state [OF p]
  have unacc: "state (socks w' i) = state (socks w i)" if "seq_check seg (socks w i) < 0"
    using p that by (auto simp: process_steps_def Let_def)
  consider "state (socks w i) \<in> {TCP_CLOSED, TCP_LISTEN}" | (syn_sent) "state (socks w i) = TCP_SYN_SENT"
    | (steps) "state (socks w i) \<notin> {TCP_CLOSED, TCP_LISTEN, TCP_SYN_SENT}"
    by blast
  then show ?thesis
  proof cases
    case 1
    then show ?thesis using assms by (auto simp: tcp_process_def tcp_closed_def veth.listen_state)
  next
    case syn_sent
    then show ?thesis
      using assms veth.synsent_state [of w i] by (simp add: tcp_process_def)
  next
    case False: steps
    then have "tcp_process ?x pkb seg (Some i) w = process_drop ?x pkb seg' i w'"
      using p by (auto simp: tcp_process_def split: tcp_state.split)
    then show ?thesis using steps [OF False] unacc by simp
  qed
qed

theorem tcp_process_transitions_witness:
  "(tcp_arrow (seg_ctl (tcp_segment_init (replicate 54 0) 34)))\<^sup>*\<^sup>* TCP_ESTABLISHED
     (state (socks (tcp_process (veth_xmit (\<lambda>_. 0)) (fst (alloc_pkb 54 bss)) (tcp_segment_init (replicate 54 0) 34)
        (Some 0) (stack_bss\<lparr>socks := (\<lambda>_. (zero_sock TCP_OPS)\<lparr>state := TCP_ESTABLISHED\<rparr>), alloc_socks := 1\<rparr>)) 0))"
  using tcp_process_transitions
    [of 0 "stack_bss\<lparr>socks := (\<lambda>_. (zero_sock TCP_OPS)\<lparr>state := TCP_ESTABLISHED\<rparr>), alloc_socks := 1\<rparr>"
        "tcp_segment_init (replicate 54 0) 34" "\<lambda>_. 0" "fst (alloc_pkb 54 bss)"]
  by simp

section \<open>Acknowledgments\<close>

text \<open>The send sequence variables, and what leaves them alone.\<close>

definition snd_vars :: "tcp_sock \<Rightarrow> u32 \<times> u32" where
  "snd_vars sk = (snd_una sk, snd_nxt sk)"

lemma upd_sk_vars [simp]:
  "snd_vars (socks (upd_sk i g w) j) = (if j = i then snd_vars (g (socks w i)) else snd_vars (socks w j))"
  by (simp add: upd_sk_def)

lemma snd_vars_upd [simp]:
  "snd_vars (sk\<lparr>state := a\<rparr>) = snd_vars sk" "snd_vars (sk\<lparr>f_push := b\<rparr>) = snd_vars sk"
  "snd_vars (sk\<lparr>f_acknow := b\<rparr>) = snd_vars sk" "snd_vars (sk\<lparr>f_ackdelay := b\<rparr>) = snd_vars sk"
  "snd_vars (sk\<lparr>rcv_reass := l\<rparr>) = snd_vars sk" "snd_vars (sk\<lparr>tw_timeout := t\<rparr>) = snd_vars sk"
  "snd_vars (sk\<lparr>rcv_nxt := n\<rparr>) = snd_vars sk" "snd_vars (sk\<lparr>rcv_wnd := n\<rparr>) = snd_vars sk"
  "snd_vars (sk\<lparr>rcv_buf := cb\<rparr>) = snd_vars sk" "snd_vars (set_window seg sk) = snd_vars sk"
  "snd_vars (tcp_update_window seg sk) = snd_vars sk" "snd_vars (sk\<lparr>snd_una := n\<rparr>) = (n, snd (snd_vars sk))"
  by (simp_all add: snd_vars_def tcp_update_window_def set_window_def)

lemma vars_frame [simp]:
  "snd_vars (socks (get_sock i w) j) = snd_vars (socks w j)"
  "snd_vars (socks (free_sock i w) j) = snd_vars (socks w j)"
  "snd_vars (socks (get_tcp_sock i w) j) = snd_vars (socks w j)"
  "snd_vars (socks (sock_del_hash i w) j) = snd_vars (socks w j)"
  "snd_vars (socks (tcp_unhash i w) j) = snd_vars (socks w j)"
  "snd_vars (socks (tcp_unbhash i w) j) = snd_vars (socks w j)"
  "snd_vars (socks (wake_ptr p w) j) = snd_vars (socks w j)"
  "snd_vars (socks (recv_notify i w) j) = snd_vars (socks w j)"
  "snd_vars (socks (crash w) j) = snd_vars (socks w j)"
  "snd_vars (socks (wake_deref p w) j) = snd_vars (socks w j)"
  "snd_vars (socks (unlink_tsk i w) j) = snd_vars (socks w j)"
  "snd_vars (socks (tcp_accept_enqueue i q w) j) = snd_vars (socks w j)"
  "snd_vars (socks (free_pkb pk w) j) = snd_vars (socks w j)"
  "snd_vars (socks (get_pkb pk w) j) = snd_vars (socks w j)"
  "snd_vars (socks (tcp_set_state i st w) j) = snd_vars (socks w j)"
  "snd_vars (socks (tcp_set_timewait_timer i w) j) = snd_vars (socks w j)"
  by (auto simp: get_sock_def free_sock_def get_tcp_sock_def sock_del_hash_def snd_vars_def
      tcp_unhash_def tcp_unbhash_def tcp_unset_sport_def wake_socket_def wake_ptr_def recv_notify_def
      tcp_recv_notify_def sock_recv_notify_def crash_def wake_deref_def unlink_tsk_def
      tcp_accept_enqueue_def upd_so_def upd_sk_def free_pkb_def get_pkb_def Let_def
      tcp_set_state_def tcp_set_timewait_timer_def
      split: option.split sock_ops.split queue_ref.split)

lemma write_buf_vars [simp]: "snd_vars (socks (snd (tcp_write_buf i d n w)) j) = snd_vars (socks w j)"
  by (simp add: tcp_write_buf_def Let_def split_beta)

lemma reass_deliver_vars [simp]: "snd_vars (socks (snd (reass_deliver i l n w)) j) = snd_vars (socks w j)"
proof (induction i l n w rule: reass_deliver.induct)
  case (2 i trh rest len w)
  obtain r w1 where r: "tcp_write_buf i (trh_data trh) (trh_len trh) w = (r, w1)" by fastforce
  have "snd_vars (socks w1 j) = snd_vars (socks w j)"
    using write_buf_vars [of i "trh_data trh" "trh_len trh" w j] r by simp
  then show ?case using 2 [OF _ _ r [symmetric]] r by auto
qed simp

lemma process_text_vars [simp]: "snd_vars (socks (snd (process_text pkb seg i w)) j) = snd_vars (socks w j)"
  unfolding process_text_def tcp_recv_text_def tcp_segment_reass_def Let_def
  by (auto simp: split_beta split: option.splits)

lemma process_fin_vars [simp]: "snd_vars (socks (process_fin seg i w) j) = snd_vars (socks w j)"
  by (simp add: process_fin_def Let_def split: tcp_state.split)

lemma process_rst_vars [simp]: "snd_vars (socks (process_rst i w) j) = snd_vars (socks w j)"
  by (simp add: process_rst_def Let_def)

lemma synrecv_ack_vars [simp]: "snd_vars (socks (snd (tcp_synrecv_ack i w)) j) = snd_vars (socks w j)"
  by (simp add: tcp_synrecv_ack_def Let_def split: parent_ref.split)

context link_below
begin

lemma sends_vars [simp]:
  "snd_vars (socks (tcp_send_reset xmit seg w) j) = snd_vars (socks w j)"
  "snd_vars (socks (tcp_send_ack xmit i (Some seg) w) j) = snd_vars (socks w j)"
  using unroutedD(29,30) [OF same_connsD(1) [OF tcp_sends_conns(1) [of w seg]], of j]
    unroutedD(29,30) [OF same_connsD(1) [OF tcp_sends_conns(2) [of w i seg]], of j]
  by (simp_all add: snd_vars_def)

lemma process_syn_vars [simp]: "snd_vars (socks (process_syn xmit seg i w) j) = snd_vars (socks w j)"
  by (simp add: process_syn_def Let_def)

lemma process_drop_vars [simp]: "snd_vars (socks (process_drop xmit pkb seg i w) j) = snd_vars (socks w j)"
  by (simp add: process_drop_def)

lemma process_ack_vars:
  assumes "process_ack xmit seg i w = (c, w')"
  shows "snd_vars (socks w' i) = snd_vars (socks w i) \<or>
      snd_vars (socks w' i) = (seg_ack seg, snd_nxt (socks w i)) \<and>
      snd_una (socks w i) \<le> seg_ack seg \<and> seg_ack seg \<le> snd_nxt (socks w i)"
    and "j \<noteq> i \<Longrightarrow> snd_vars (socks w' j) = snd_vars (socks w j)"
proof -
  obtain r w1 where e: "tcp_synrecv_ack i w = (r, w1)" by fastforce
  have st: "snd_vars (socks w1 k) = snd_vars (socks w k)" for k
    using synrecv_ack_vars [of i w k] e by simp
  have s2: "snd (snd_vars sk) = snd_nxt sk" for sk by (simp add: snd_vars_def)
  show "snd_vars (socks w' i) = snd_vars (socks w i) \<or>
      snd_vars (socks w' i) = (seg_ack seg, snd_nxt (socks w i)) \<and>
      snd_una (socks w i) \<le> seg_ack seg \<and> seg_ack seg \<le> snd_nxt (socks w i)"
    using assms st [of i] s2
    by (auto simp: e process_ack_def Let_def order.strict_implies_order split: if_splits)
  show "j \<noteq> i \<Longrightarrow> snd_vars (socks w' j) = snd_vars (socks w j)"
    using assms st [of j] by (auto simp: e process_ack_def Let_def split: if_splits)
qed

lemma process_steps_vars:
  assumes "process_steps xmit pkb seg i w = (seg', w')"
  shows "snd_vars (socks w' i) = snd_vars (socks w i) \<or>
      snd_vars (socks w' i) = (seg_ack seg, snd_nxt (socks w i)) \<and> seq_check seg (socks w i) = 0 \<and>
      ack (seg_ctl seg) \<and> snd_una (socks w i) \<le> seg_ack seg \<and> seg_ack seg \<le> snd_nxt (socks w i)"
    and "j \<noteq> i \<Longrightarrow> snd_vars (socks w' j) = snd_vars (socks w j)"
proof -
  define w1 where "w1 = (if syn (seg_ctl seg) then process_syn xmit seg i w else w)"
  obtain c w2 where a: "process_ack xmit seg i w1 = (c, w2)" by fastforce
  obtain seg1 w3 where t: "process_text pkb seg i w2 = (seg1, w3)" by fastforce
  have w1: "snd_vars (socks w1 k) = snd_vars (socks w k)" for k by (simp add: w1_def)
  have w3: "snd_vars (socks w3 k) = snd_vars (socks w2 k)" for k
    using process_text_vars [of pkb seg i w2 k] t by simp
  have una: "snd_una (socks w1 i) = snd_una (socks w i)" "snd_nxt (socks w1 i) = snd_nxt (socks w i)"
    using w1 [of i] by (simp_all add: snd_vars_def)
  have sc: "seq_check seg tsk = 0 \<or> seq_check seg tsk < 0" for tsk by (simp add: seq_check_def Let_def)
  show "snd_vars (socks w' i) = snd_vars (socks w i) \<or>
      snd_vars (socks w' i) = (seg_ack seg, snd_nxt (socks w i)) \<and> seq_check seg (socks w i) = 0 \<and>
      ack (seg_ctl seg) \<and> snd_una (socks w i) \<le> seg_ack seg \<and> seg_ack seg \<le> snd_nxt (socks w i)"
    using assms a t process_ack_vars(1) [OF a] w1 [of i] w3 [of i] sc [of "socks w i"]
    by (auto simp: process_steps_def Let_def w1_def [symmetric] una split: if_splits bool.splits)
  show "j \<noteq> i \<Longrightarrow> snd_vars (socks w' j) = snd_vars (socks w j)"
    using assms a t process_ack_vars(2) [OF a] w1 [of j] w3 [of j]
    by (auto simp: process_steps_def Let_def w1_def [symmetric] split: if_splits bool.splits)
qed

end

text \<open>C7. Acknowledgments, on the device \<^verbatim>\<open>veth\<close>, which does not re-enter the stack (over the loopback
  device the acknowledgment that is sent arrives at the peer connection within the call, and may
  change its send variables). On a synchronised connection with \<open>snd_una \<le> snd_nxt\<close>, a segment never
  takes back an acknowledgment and never acknowledges what was not sent: \<open>snd_una\<close> stays, or
  becomes the acknowledgment number of an acceptable segment that lies between \<open>snd_una\<close> and
  \<open>snd_nxt\<close>; \<open>snd_nxt\<close> stays, and so do the send variables of every other connection.
\<close>

theorem tcp_ack_safety:
  assumes "state (socks w i) \<notin> {TCP_CLOSED, TCP_LISTEN, TCP_SYN_SENT}"
    and "snd_una (socks w i) \<le> snd_nxt (socks w i)"
    and "w' = tcp_process (veth_xmit tap_write) pkb seg (Some i) w"
  shows "snd_nxt (socks w' i) = snd_nxt (socks w i) \<and>
    snd_una (socks w i) \<le> snd_una (socks w' i) \<and> snd_una (socks w' i) \<le> snd_nxt (socks w' i) \<and>
    (snd_una (socks w' i) \<noteq> snd_una (socks w i) \<longrightarrow>
       snd_una (socks w' i) = seg_ack seg \<and> ack (seg_ctl seg) \<and> seq_check seg (socks w i) = 0) \<and>
    (\<forall>j. j \<noteq> i \<longrightarrow> snd_una (socks w' j) = snd_una (socks w j) \<and> snd_nxt (socks w' j) = snd_nxt (socks w j))"
proof -
  let ?x = "veth_xmit tap_write"
  obtain seg' w1 where p: "process_steps ?x pkb seg i w = (seg', w1)" by fastforce
  have "w' = process_drop ?x pkb seg' i w1"
    using p assms(1,3) by (auto simp: tcp_process_def split: tcp_state.split)
  then have "snd_vars (socks w' j) = snd_vars (socks w1 j)" for j by simp
  then show ?thesis
    using veth.process_steps_vars(1) [OF p] veth.process_steps_vars(2) [OF p] assms(2)
    by (auto simp: snd_vars_def)
qed

theorem tcp_ack_safety_witness:
  "\<exists>w'. w' = tcp_process (veth_xmit (\<lambda>_. 0)) (fst (alloc_pkb 54 bss)) (tcp_segment_init (replicate 54 0) 34) (Some 0)
     (stack_bss\<lparr>socks := (\<lambda>_. (zero_sock TCP_OPS)\<lparr>state := TCP_ESTABLISHED, snd_una := 5, snd_nxt := 7\<rparr>)\<rparr>) \<and>
     5 \<le> snd_una (socks w' 0) \<and> snd_nxt (socks w' 0) = 7"
  using tcp_ack_safety
    [of "stack_bss\<lparr>socks := (\<lambda>_. (zero_sock TCP_OPS)\<lparr>state := TCP_ESTABLISHED, snd_una := 5, snd_nxt := 7\<rparr>)\<rparr>" 0,
     OF _ _ refl, of "\<lambda>_. 0" "fst (alloc_pkb 54 bss)" "tcp_segment_init (replicate 54 0) 34"]
  by simp

end
