(* ===== verification/Tcp_Sock.thy ===== *)
theory Tcp_Sock
  imports Tcp_State
begin

text \<open>
  The user's side of TCP: the second half of \<^verbatim>\<open>tapip/tcp/tcp_sock.c\<close>. A call that blocks is cut
  at its \<^verbatim>\<open>sleep_on\<close>: its result is then \<open>Sleeping\<close>, and the operation ending in
  \<open>_wake\<close> is what the thread does from the moment it leaves the condition wait. A pointer to
  the \<^verbatim>\<open>sleep\<close> field of the socket of a sock is \<open>sk_sock\<close>.
\<close>

text \<open>The rest of \<^verbatim>\<open>sleep_on\<close> after the condition wait.\<close>

definition leave_socket :: "nat option \<Rightarrow> 'a stack_scheme \<Rightarrow> int \<times> 'a stack_scheme" where
  "leave_socket p w =
     (case p of
        None \<Rightarrow> (0, crash w)
      | Some s \<Rightarrow>
          (let (r, wt) = sleep_leave (so_sleep (sockets w s))
           in (r, upd_so s (\<lambda>so. so\<lparr>so_sleep := wt\<rparr>) w)))"

section \<open>connect\<close>

text \<open>\<^verbatim>\<open>tcp_connect\<close> after its \<^verbatim>\<open>sleep_on\<close>, with the tail of \<^verbatim>\<open>tcp_wait_connect\<close>.\<close>

definition tcp_connect_done :: "nat \<Rightarrow> int \<Rightarrow> 'a stack_scheme \<Rightarrow> int \<times> 'a stack_scheme" where
  "tcp_connect_done i err w =
     (let w1 = upd_sk i (\<lambda>sk. sk\<lparr>wait_connect := None\<rparr>) w
      in if err \<noteq> 0 \<or> state (socks w1 i) \<noteq> TCP_ESTABLISHED
         then (-1, upd_sk i (\<lambda>sk. sk\<lparr>state := TCP_CLOSED\<rparr>) (tcp_unbhash i (tcp_unhash i w1)))
         else (err, w1))"

definition tcp_connect ::
  "'a stack_xmit \<Rightarrow> nat \<Rightarrow> sock_addr \<Rightarrow> 'a stack_scheme \<Rightarrow> int outcome \<times> 'a stack_scheme" where
  "tcp_connect xmit i skaddr w =
     (if state (socks w i) \<noteq> TCP_CLOSED then (Return (-1), w)
      else
        (let (s, w1) = alloc_new_iss
               (upd_sk i (\<lambda>sk. sk\<lparr>sk_daddr := dst_addr skaddr, sk_dport := dst_port skaddr,
                                  state := TCP_SYN_SENT\<rparr>) w);
             w2 = upd_sk i (\<lambda>sk. sk\<lparr>iss := s, snd_una := s, snd_nxt := s + 1\<rparr>) w1
         in case tcp_hash i w2 of
              (r, w3) \<Rightarrow>
                if r < 0 then (Return (-1), upd_sk i (\<lambda>sk. sk\<lparr>state := TCP_CLOSED\<rparr>) w3)
                else
                  (let w4 = upd_sk i (\<lambda>sk. sk\<lparr>wait_connect := sk_sock sk\<rparr>) w3;
                       w5 = tcp_send_syn xmit i None w4
                   in case sleep_socket (wait_connect (socks w5 i)) w5 of
                        (None, w6) \<Rightarrow> (Sleeping, w6)
                      | (Some err, w6) \<Rightarrow>
                          (let (r', w7) = tcp_connect_done i err w6 in (Return r', w7)))))"

definition tcp_connect_wake :: "nat \<Rightarrow> 'a stack_scheme \<Rightarrow> int \<times> 'a stack_scheme" where
  "tcp_connect_wake i w =
     (let (err, w1) = leave_socket (wait_connect (socks w i)) w in tcp_connect_done i err w1)"

section \<open>listen and accept\<close>

definition tcp_sock_listen :: "nat \<Rightarrow> int \<Rightarrow> 'a stack_scheme \<Rightarrow> int \<times> 'a stack_scheme" where
  "tcp_sock_listen i blog w =
     (let tsk = socks w i; oldstate = state tsk in
      if sk_sport tsk = 0 \<or> blog > 128 \<or> (oldstate \<noteq> TCP_CLOSED \<and> oldstate \<noteq> TCP_LISTEN)
      then (-1, w)
      else
        (let w1 = upd_sk i (\<lambda>sk. sk\<lparr>backlog := blog, state := TCP_LISTEN\<rparr>) w
         in (0, if oldstate \<noteq> TCP_LISTEN then snd (tcp_hash i w1) else w1)))"

definition tcp_accept_take :: "nat \<Rightarrow> 'a stack_scheme \<Rightarrow> nat \<times> 'a stack_scheme" where
  "tcp_accept_take i w =
     (let (c, w1) = tcp_accept_dequeue i w;
          w2 = free_sock c w1;
          w3 = (case parent (socks w2 c) of Parent p \<Rightarrow> free_sock p w2 | _ \<Rightarrow> crash w2)
      in (c, upd_sk c (\<lambda>sk. sk\<lparr>parent := DeadParent\<rparr>) w3))"

text \<open>
  The loop of \<^verbatim>\<open>tcp_accept\<close>. As in \<^verbatim>\<open>sock_recv_pkb\<close>, a notification that is pending is
  consumed by the first round, and the second decides.
\<close>

fun tcp_accept_rounds :: "nat \<Rightarrow> nat \<Rightarrow> 'a stack_scheme \<Rightarrow> nat option outcome \<times> 'a stack_scheme" where
  "tcp_accept_rounds 0 i w = (Sleeping, w)"
| "tcp_accept_rounds (Suc n) i w =
     (if accept_queue (socks w i) \<noteq> []
      then (let (c, w1) = tcp_accept_take i w in (Return (Some c), w1))
      else
        (let w1 = upd_sk i (\<lambda>sk. sk\<lparr>wait_accept := sk_sock sk\<rparr>) w
         in case sleep_socket (wait_accept (socks w1 i)) w1 of
              (None, w2) \<Rightarrow> (Sleeping, w2)
            | (Some err, w2) \<Rightarrow>
                (let w3 = upd_sk i (\<lambda>sk. sk\<lparr>wait_accept := None\<rparr>) w2
                 in if err < 0 then (Return None, w3) else tcp_accept_rounds n i w3)))"

definition tcp_accept :: "nat \<Rightarrow> 'a stack_scheme \<Rightarrow> nat option outcome \<times> 'a stack_scheme" where
  "tcp_accept i w = tcp_accept_rounds 2 i w"

definition tcp_accept_wake :: "nat \<Rightarrow> 'a stack_scheme \<Rightarrow> nat option outcome \<times> 'a stack_scheme" where
  "tcp_accept_wake i w =
     (let (err, w1) = leave_socket (wait_accept (socks w i)) w;
          w2 = upd_sk i (\<lambda>sk. sk\<lparr>wait_accept := None\<rparr>) w1
      in if err < 0 then (Return None, w2) else tcp_accept_rounds 2 i w2)"

section \<open>close\<close>

definition clear_listen_entry :: "nat \<Rightarrow> 'a stack_scheme \<Rightarrow> 'a stack_scheme" where
  "clear_listen_entry c w =
     (let w1 = unlink_tsk c w in
      if state (socks w1 c) = TCP_SYN_RECV
      then (let w2 = (case parent (socks w1 c) of Parent p \<Rightarrow> free_sock p w1 | _ \<Rightarrow> crash w1);
                w3 = upd_sk c (\<lambda>sk. sk\<lparr>parent := NoParent\<rparr>) w2
            in free_sock c (tcp_unhash c w3))
      else w1)"

definition tcp_clear_listen_queue :: "nat \<Rightarrow> 'a stack_scheme \<Rightarrow> 'a stack_scheme" where
  "tcp_clear_listen_queue i w = fold clear_listen_entry (listen_queue (socks w i)) w"

definition tcp_close :: "'a stack_xmit \<Rightarrow> nat \<Rightarrow> 'a stack_scheme \<Rightarrow> 'a stack_scheme" where
  "tcp_close xmit i w =
     (let w1 =
        (case state (socks w i) of
           TCP_LISTEN \<Rightarrow>
             upd_sk i (\<lambda>sk. sk\<lparr>state := TCP_CLOSED\<rparr>)
               (tcp_unbhash i (tcp_unhash i (tcp_clear_listen_queue i w)))
         | TCP_ESTABLISHED \<Rightarrow>
             upd_sk i (\<lambda>sk. sk\<lparr>snd_nxt := snd_nxt sk + 1\<rparr>)
               (tcp_send_fin xmit i (upd_sk i (\<lambda>sk. sk\<lparr>state := TCP_FIN_WAIT1\<rparr>) w))
         | TCP_CLOSE_WAIT \<Rightarrow>
             upd_sk i (\<lambda>sk. sk\<lparr>snd_nxt := snd_nxt sk + 1\<rparr>)
               (tcp_send_fin xmit i (upd_sk i (\<lambda>sk. sk\<lparr>state := TCP_LAST_ACK\<rparr>) w))
         | _ \<Rightarrow> w)
      in tcp_free_reass_head i (tcp_free_buf i w1))"

section \<open>Reading and writing\<close>

definition tcp_send_buf ::
  "'a stack_xmit \<Rightarrow> nat \<Rightarrow> octets \<Rightarrow> int \<Rightarrow> 'a stack_scheme \<Rightarrow> int \<times> 'a stack_scheme" where
  "tcp_send_buf xmit i buf len w =
     (if state (socks w i) \<in> {TCP_ESTABLISHED, TCP_CLOSE_WAIT}
      then tcp_send_text xmit i buf len w else (-1, w))"

definition rcv_used :: "tcp_sock \<Rightarrow> bool" where
  "rcv_used tsk \<longleftrightarrow> (case rcv_buf tsk of None \<Rightarrow> False | Some c \<Rightarrow> cbufused c \<noteq> 0)"

text \<open>
  The inner loop of \<^verbatim>\<open>tcp_recv_buf\<close>, that waits for the buffer to fill. The result is that of
  the last \<^verbatim>\<open>sleep_on\<close>, 0 if there was none.
\<close>

fun recv_fill_rounds :: "nat \<Rightarrow> nat \<Rightarrow> bool \<Rightarrow> 'a stack_scheme \<Rightarrow> int outcome \<times> 'a stack_scheme" where
  "recv_fill_rounds 0 i full w = (Sleeping, w)"
| "recv_fill_rounds (Suc n) i full w =
     (if f_push (socks w i) \<or> rcv_used (socks w i) \<or> full then (Return 0, w)
      else
        (case sleep_socket (recv_wait (socks w i)) w of
           (None, w1) \<Rightarrow> (Sleeping, w1)
         | (Some err, w1) \<Rightarrow> if err < 0 then (Return err, w1) else recv_fill_rounds n i full w1))"

text \<open>
  The outer loop. \<open>out\<close> are the octets copied to the user so far and \<open>rlen\<close> is their number;
  a sleeping thread keeps both. A round either fills the user's buffer, or it empties the
  receive buffer and then returns or sleeps, so that there is no third round.
\<close>

datatype recv_outcome = Received int octets | Waiting int octets

fun tcp_recv_rounds ::
  "nat \<Rightarrow> nat \<Rightarrow> int \<Rightarrow> int \<Rightarrow> octets \<Rightarrow> 'a stack_scheme \<Rightarrow> recv_outcome \<times> 'a stack_scheme" where
  "tcp_recv_rounds 0 i len rlen out w = (Waiting rlen out, w)"
| "tcp_recv_rounds (Suc n) i len rlen out w =
     (if rlen < len
      then
        (let (cb, got, curlen) = read_cbuf (rcv_buf (socks w i)) (len - rlen);
             w1 = upd_sk i (\<lambda>sk. sk\<lparr>rcv_buf := cb, rcv_wnd := rcv_wnd sk + word_of_int curlen\<rparr>) w;
             rlen1 = rlen + curlen;
             out1 = out @ got
         in case recv_fill_rounds 2 i (rlen1 \<ge> len) w1 of
              (Sleeping, w2) \<Rightarrow> (Waiting rlen1 out1, w2)
            | (Return err, w2) \<Rightarrow>
                if err < 0 then (Received (if rlen1 > 0 then rlen1 else -1) out1, w2)
                else if f_push (socks w2 i) \<and> \<not> rcv_used (socks w2 i)
                then (Received rlen1 out1, upd_sk i (\<lambda>sk. sk\<lparr>f_push := False\<rparr>) w2)
                else tcp_recv_rounds n i len rlen1 out1 w2)
      else (Received rlen out, w))"

definition tcp_recv_buf :: "nat \<Rightarrow> int \<Rightarrow> 'a stack_scheme \<Rightarrow> recv_outcome \<times> 'a stack_scheme" where
  "tcp_recv_buf i len w =
     (let tsk = socks w i in
      if state tsk \<in> {TCP_ESTABLISHED, TCP_FIN_WAIT1, TCP_FIN_WAIT2} \<or>
         state tsk = TCP_CLOSE_WAIT \<and> rcv_used tsk
      then tcp_recv_rounds 3 i len 0 [] w else (Received (-1) [], w))"

text \<open>The thread that waits in \<^verbatim>\<open>tcp_recv_buf\<close> is woken.\<close>

definition tcp_recv_wake ::
  "nat \<Rightarrow> int \<Rightarrow> int \<Rightarrow> octets \<Rightarrow> 'a stack_scheme \<Rightarrow> recv_outcome \<times> 'a stack_scheme" where
  "tcp_recv_wake i len rlen out w =
     (let (err, w1) = leave_socket (recv_wait (socks w i)) w in
      if err < 0 then (Received (if rlen > 0 then rlen else -1) out, w1)
      else
        (case recv_fill_rounds 2 i (rlen \<ge> len) w1 of
           (Sleeping, w2) \<Rightarrow> (Waiting rlen out, w2)
         | (Return err', w2) \<Rightarrow>
             if err' < 0 then (Received (if rlen > 0 then rlen else -1) out, w2)
             else if f_push (socks w2 i) \<and> \<not> rcv_used (socks w2 i)
             then (Received rlen out, upd_sk i (\<lambda>sk. sk\<lparr>f_push := False\<rparr>) w2)
             else tcp_recv_rounds 3 i len rlen out w2))"

section \<open>Reading keeps the stream\<close>

lemma sleep_socks [simp]: "socks (snd (sleep_socket p w)) = socks w"
  by (simp add: sleep_socket_def crash_def upd_so_def split_beta split: option.split)

lemma fill_rounds_socks: "recv_fill_rounds n i full w = (r, w') \<Longrightarrow> socks w' = socks w"
proof (induction n arbitrary: w)
  case (Suc n)
  obtain e w1 where s: "sleep_socket (recv_wait (socks w i)) w = (e, w1)" by fastforce
  have "socks w1 = socks w" using sleep_socks [of "recv_wait (socks w i)" w] s by simp
  then show ?case using Suc s by (auto split: if_splits option.splits)
qed simp

definition got :: "recv_outcome \<Rightarrow> octets" where
  "got r = (case r of Received n out \<Rightarrow> out | Waiting n out \<Rightarrow> out)"

lemma read_step:
  assumes ok: "rcv_ok sk" and "0 \<le> n" and r: "read_cbuf (rcv_buf sk) n = (cb, out, cur)"
  defines "sk' \<equiv> sk\<lparr>rcv_buf := cb, rcv_wnd := rcv_wnd sk + word_of_int cur\<rparr>"
  shows "rcv_ok sk'" "out @ rcv_data sk' = rcv_data sk" "int (length out) = cur"
proof -
  have "rcv_ok sk' \<and> out @ rcv_data sk' = rcv_data sk \<and> int (length out) = cur"
  proof (cases "rcv_buf sk")
    case None
    then show ?thesis using ok r by (auto simp: read_cbuf_def sk'_def rcv_ok_def rcv_data_def)
  next
    case (Some c)
    then have c: "cbuf_ok c" "cb_size c < 2 ^ 31" "cbuffree c = uint (rcv_wnd sk)"
      using ok by (simp_all add: rcv_ok_def)
    obtain c' where c': "read_cbuf (Some c) n = (Some c', take (nat (min (cbufused c) n)) (contents c), min (cbufused c) n)"
      "cbuf_ok c'" "cb_size c' = cb_size c" "contents c' = drop (nat (min (cbufused c) n)) (contents c)"
      using read_cbuf_spec [OF c(1) assms(2)] by metis
    have eq: "cb = Some c'" "out = take (nat (min (cbufused c) n)) (contents c)" "cur = min (cbufused c) n"
      using r c'(1) Some by auto
    have used: "0 \<le> cbufused c" "cbufused c \<le> cb_size c" "0 \<le> cbufused c'"
      using c(1) c'(2) by (simp_all add: cbuf_ok_def cbufused_def)
    have "nat (cbufused c') = nat (cbufused c) - nat cur"
      using length_contents [of c'] c'(4) eq(3) by simp
    then have used': "cbufused c' = cbufused c - cur" using used eq(3) assms(2) by linarith
    have "uint (rcv_wnd sk) + cur < 2 ^ 31" using c used eq(3) by (simp add: cbuffree_def)
    moreover have "0 \<le> cur" using used(1) eq(3) assms(2) by simp
    ultimately have wnd: "uint (rcv_wnd sk + word_of_int cur) = uint (rcv_wnd sk) + cur"
      by (simp add: uint_word_ariths(1) uint_word_of_int mod_simps mod_pos_pos_trivial)
    show ?thesis
      using c c' used used' wnd eq assms(2) Some
      by (simp add: sk'_def rcv_ok_def rcv_data_def cbuffree_def)
  qed
  then show "rcv_ok sk'" "out @ rcv_data sk' = rcv_data sk" "int (length out) = cur" by blast+
qed

text \<open>The sock as the read calls leave it: only the buffer, the window and the push mark change.\<close>

lemma recv_rounds_spec:
  assumes "rcv_ok (socks w i)" "tcp_recv_rounds n i len rlen out w = (r, w')"
  shows "rcv_ok (socks w' i) \<and> got r @ rcv_data (socks w' i) = out @ rcv_data (socks w i) \<and>
    rcv_nxt (socks w' i) = rcv_nxt (socks w i) \<and> rcv_reass (socks w' i) = rcv_reass (socks w i) \<and>
    state (socks w' i) = state (socks w i) \<and> (\<forall>j. j \<noteq> i \<longrightarrow> socks w' j = socks w j)"
  using assms
proof (induction n arbitrary: rlen out w)
  case 0
  then show ?case by (auto simp: got_def)
next
  case (Suc n)
  show ?case
  proof (cases "rlen < len")
    case False
    then show ?thesis using Suc.prems by (auto simp: got_def)
  next
    case True
    obtain cb g cur where rd: "read_cbuf (rcv_buf (socks w i)) (len - rlen) = (cb, g, cur)" by (metis prod_cases3)
    define w1 where "w1 = upd_sk i (\<lambda>sk. sk\<lparr>rcv_buf := cb, rcv_wnd := rcv_wnd sk + word_of_int cur\<rparr>) w"
    have rd': "rcv_ok (socks w1 i)" "g @ rcv_data (socks w1 i) = rcv_data (socks w i)"
      using read_step [OF Suc.prems(1) _ rd] True by (simp_all add: w1_def upd_sk_def)
    have fr: "rcv_nxt (socks w1 i) = rcv_nxt (socks w i)" "rcv_reass (socks w1 i) = rcv_reass (socks w i)"
      "state (socks w1 i) = state (socks w i)" "\<forall>j. j \<noteq> i \<longrightarrow> socks w1 j = socks w j"
      by (simp_all add: w1_def upd_sk_def)
    obtain q w2 where fl: "recv_fill_rounds 2 i (rlen + cur \<ge> len) w1 = (q, w2)" by fastforce
    have s2: "socks w2 = socks w1" by (rule fill_rounds_socks [OF fl])
    have push: "rcv_ok (sk\<lparr>f_push := b\<rparr>) = rcv_ok sk" "rcv_data (sk\<lparr>f_push := b\<rparr>) = rcv_data sk" for sk b
      by (simp_all add: rcv_ok_def rcv_data_def split: option.split)
    have run: "tcp_recv_rounds (Suc n) i len rlen out w =
      (case q of
         Sleeping \<Rightarrow> (Waiting (rlen + cur) (out @ g), w2)
       | Return err \<Rightarrow>
           if err < 0 then (Received (if rlen + cur > 0 then rlen + cur else -1) (out @ g), w2)
           else if f_push (socks w2 i) \<and> \<not> rcv_used (socks w2 i)
           then (Received (rlen + cur) (out @ g), upd_sk i (\<lambda>sk. sk\<lparr>f_push := False\<rparr>) w2)
           else tcp_recv_rounds n i len (rlen + cur) (out @ g) w2)"
      using True rd fl by (simp add: w1_def [symmetric] Let_def)
    show ?thesis
    proof (cases "tcp_recv_rounds n i len (rlen + cur) (out @ g) w2 = (r, w')")
      case True
      then show ?thesis using Suc.IH [of w2 "rlen + cur" "out @ g"] rd' fr s2 by auto
    next
      case False
      then show ?thesis
        using Suc.prems(2) rd' fr s2 unfolding run
        by (auto simp: got_def push upd_sk_def split: outcome.splits if_splits)
    qed
  qed
qed

lemma recv_buf_spec:
  assumes "rcv_ok (socks w i)" "tcp_recv_buf i len w = (r, w')"
  shows "rcv_ok (socks w' i)" "got r @ rcv_data (socks w' i) = rcv_data (socks w i)"
    "rcv_nxt (socks w' i) = rcv_nxt (socks w i)" "rcv_reass (socks w' i) = rcv_reass (socks w i)"
    "state (socks w' i) = state (socks w i)"
  using assms recv_rounds_spec [OF assms(1), of 3 len 0 "[]" r w']
  by (auto simp: tcp_recv_buf_def Let_def got_def split: if_splits)

section \<open>The stream\<close>

text \<open>
  A run of a connection: segments arrive, and the user reads. The first component collects
  what the user was given.
\<close>

datatype rcv_event = Segment tcp_segment pkbuf | Read int

fun rcv_run :: "nat \<Rightarrow> rcv_event list \<Rightarrow> octets \<times> 'a stack_scheme \<Rightarrow> octets \<times> 'a stack_scheme" where
  "rcv_run i [] x = x"
| "rcv_run i (Segment seg pkb # es) (given, w) = rcv_run i es (given, snd (tcp_recv_text i seg pkb w))"
| "rcv_run i (Read len # es) (given, w) =
     (case tcp_recv_buf i len w of (r, w1) \<Rightarrow> rcv_run i es (given @ got r, w1))"

text \<open>
  The segments of a peer that sends the octets \<open>s\<close> from the sequence number \<open>b\<close> on: each holds
  a piece of \<open>s\<close>, in any segmentation and order and with any overlap and retransmission.
\<close>

definition text_at :: "octets \<Rightarrow> nat \<Rightarrow> octets \<Rightarrow> u32 \<Rightarrow> bool" where
  "text_at s k data len \<longleftrightarrow>
     unat len \<le> length data \<and> k + unat len \<le> length s \<and> take (unat len) data = sub_octets s k (unat len)"

definition piece_of :: "octets \<Rightarrow> u32 \<Rightarrow> tcp_segment \<Rightarrow> bool" where
  "piece_of s b seg \<longleftrightarrow> b \<le> seg_seq seg \<and> text_at s (unat (seg_seq seg - b)) (seg_text seg) (seg_dlen seg)"

text \<open>
  An entry of the reassembly list holds a piece of \<open>s\<close> too, or a length that is negative as an
  \<^verbatim>\<open>int\<close>: the subtraction that cuts a segment at the entry behind it may wrap.
\<close>

definition entry_ok :: "octets \<Rightarrow> u32 \<Rightarrow> tcp_reass_head \<Rightarrow> bool" where
  "entry_ok s b trh \<longleftrightarrow>
     b \<le> trh_seq trh \<and> unat (trh_seq trh - b) \<le> length s \<and>
     (2 ^ 31 \<le> unat (trh_len trh) \<or> text_at s (unat (trh_seq trh - b)) (trh_data trh) (trh_len trh))"

definition stream_inv :: "octets \<Rightarrow> u32 \<Rightarrow> octets \<Rightarrow> tcp_sock \<Rightarrow> bool" where
  "stream_inv s b given sk \<longleftrightarrow>
     rcv_ok sk \<and> (\<forall>trh \<in> set (rcv_reass sk). entry_ok s b trh) \<and> b \<le> rcv_nxt sk \<and>
     unat (rcv_nxt sk - b) \<le> length s \<and> given @ rcv_data sk = take (unat (rcv_nxt sk - b)) s"

text \<open>Numbers of octets of the stream, which does not wrap.\<close>

lemma advance_seq:
  fixes x :: u32
  assumes "b \<le> x" "unat (x - b) + n \<le> length s" "unat b + length s < 2 ^ 32"
  shows "unat (x + of_nat n - b) = unat (x - b) + n" "b \<le> x + of_nat n"
proof -
  have un: "unat (of_nat n :: u32) = n" using assms(2,3) by (simp add: unat_of_nat)
  have "x + of_nat n - b = (x - b) + of_nat n" by simp
  moreover have "unat ((x - b) + of_nat n) = unat (x - b) + n"
    using assms(2,3) by (simp only: unat_word_ariths(1) un) simp
  ultimately show 1: "unat (x + of_nat n - b) = unat (x - b) + n" by (simp only:)
  have "unat (b + (x + of_nat n - b)) = unat b + (unat (x - b) + n)"
    using assms(2,3) by (simp only: unat_word_ariths(1) 1) simp
  then show "b \<le> x + of_nat n" by (simp add: word_le_nat_alt)
qed

lemma stream_inv_advance:
  assumes "stream_inv s b given sk" "m = unat (rcv_nxt sk - b)" "m + n \<le> length s" "unat b + length s < 2 ^ 32"
    and "rcv_ok sk'" "rcv_nxt sk' = rcv_nxt sk + of_nat n" "rcv_data sk' = rcv_data sk @ take n (drop m s)"
    and "\<forall>trh \<in> set (rcv_reass sk'). entry_ok s b trh"
  shows "stream_inv s b given sk'"
proof -
  have i: "b \<le> rcv_nxt sk" "given @ rcv_data sk = take m s" using assms(1,2) by (simp_all add: stream_inv_def)
  note n = advance_seq [OF i(1) assms(3) [unfolded assms(2)] assms(4)]
  have "given @ rcv_data sk' = take (m + n) s" using i(2) assms(7) by (simp add: take_add flip: append_assoc)
  then show ?thesis using assms(2,3,5,6,8) n by (simp add: stream_inv_def)
qed

lemma stream_inv_cong:
  assumes "rcv_buf sk' = rcv_buf sk" "rcv_wnd sk' = rcv_wnd sk" "rcv_nxt sk' = rcv_nxt sk"
    and "\<forall>trh \<in> set (rcv_reass sk'). entry_ok s b trh" "stream_inv s b given sk"
  shows "stream_inv s b given sk'"
  using assms by (cases "rcv_buf sk") (simp_all add: stream_inv_def rcv_ok_def rcv_data_def)

text \<open>The buffer takes a piece that begins at \<open>rcv_nxt\<close>, and nothing of a negative length.\<close>

lemma write_buf_negative:
  assumes ok: "rcv_ok (socks w i)" and neg: "2 ^ 31 \<le> unat len"
  obtains c rlen where "tcp_write_buf i data len w = (rlen, upd_sk i (\<lambda>sk. sk\<lparr>rcv_buf := Some c\<rparr>) w)" "rlen < 0"
    "rcv_ok ((socks w i)\<lparr>rcv_buf := Some c\<rparr>)" "contents c = rcv_data (socks w i)"
proof -
  let ?sk = "socks w i"
  define c where "c = (case rcv_buf ?sk of None \<Rightarrow> alloc_cbuf (sint (rcv_wnd ?sk)) | Some c \<Rightarrow> c)"
  have wnd: "sint (rcv_wnd ?sk) = uint (rcv_wnd ?sk)" using ok by (simp add: rcv_ok_def sint_small)
  have sl: "sint len < 0"
  proof (rule ccontr)
    assume "\<not> sint len < 0"
    then have "take_bit 32 (sint len) = sint len" using sint_lt [of len] by (intro take_bit_int_eq_self) simp_all
    then have "uint len < 2 ^ 31" using uint_sint [of len] sint_lt [of len] by simp
    then show False using neg unat_le_uint [of len] by simp
  qed
  have new: "cb_size (alloc_cbuf sz) = sz" "cbuffree (alloc_cbuf sz) = sz" for sz
    by (simp_all add: alloc_cbuf_def cbuffree_def cbufused_def)
  have c: "cbuf_ok c" "cb_size c < 2 ^ 31" "cbuffree c = uint (rcv_wnd ?sk)" "contents c = rcv_data ?sk"
    using ok alloc_cbuf_ok [of "uint (rcv_wnd ?sk)"] uint_pos [of "rcv_wnd ?sk"]
    by (auto simp: rcv_ok_def c_def wnd rcv_data_def new split: option.splits)
  have "min (cbuffree c) (sint len) = sint len" using sl order.trans [of 0 "uint (rcv_wnd ?sk)" "sint len"] by (auto simp: c(3) min_def)
  then have wr: "write_cbuf (Some c) data (sint len) = (Some c, sint len)"
    using sl by (simp add: write_cbuf_def Let_def write_loop.simps [of c data "sint len"])
  have "tcp_write_buf i data len w = (sint len, upd_sk i (\<lambda>sk. sk\<lparr>rcv_buf := Some c\<rparr>) w)"
    using wr sl by (simp add: tcp_write_buf_def Let_def c_def [symmetric] option.case_distrib [of Some, symmetric] cong: option.case_cong)
  moreover have "rcv_ok (?sk\<lparr>rcv_buf := Some c\<rparr>)" using c ok by (simp add: rcv_ok_def)
  ultimately show ?thesis using that sl c(4) by blast
qed

lemma write_buf_stream:
  assumes inv: "stream_inv s b given (socks w i)" and e: "entry_ok s b trh" "trh_seq trh = rcv_nxt (socks w i)"
    and bounds: "unat b + length s < 2 ^ 32" "length s < 2 ^ 31"
    and r: "tcp_write_buf i (trh_data trh) (trh_len trh) w = (rlen, w1)"
  shows "stream_inv s b given (socks w1 i) \<and> rcv_reass (socks w1 i) = rcv_reass (socks w i)"
proof -
  let ?sk = "socks w i" and ?len = "trh_len trh" and ?data = "trh_data trh"
  define m where "m = unat (rcv_nxt ?sk - b)"
  have ok: "rcv_ok ?sk" "\<forall>t \<in> set (rcv_reass ?sk). entry_ok s b t" using inv by (simp_all add: stream_inv_def)
  show ?thesis
  proof (cases "2 ^ 31 \<le> unat ?len")
    case True
    obtain c rl where "tcp_write_buf i ?data ?len w = (rl, upd_sk i (\<lambda>sk. sk\<lparr>rcv_buf := Some c\<rparr>) w)"
      "rcv_ok (?sk\<lparr>rcv_buf := Some c\<rparr>)" "contents c = rcv_data ?sk"
      by (rule write_buf_negative [OF ok(1) True])
    then show ?thesis using r inv by (auto simp: stream_inv_def rcv_data_def upd_sk_def)
  next
    case False
    then have tx: "text_at s m ?data ?len" using e by (simp add: entry_ok_def m_def)
    then have len: "uint ?len < 2 ^ 31" "unat ?len \<le> length ?data" using False unat_le_uint [of ?len] by (simp_all add: text_at_def)
    define n where "n = take_text ?sk ?data ?len"
    have n: "n \<le> unat ?len" by (simp add: n_def take_text_def)
    obtain c where c: "tcp_write_buf i ?data ?len w = (int n, upd_sk i (\<lambda>sk. sk\<lparr>rcv_buf := Some c, rcv_wnd := rcv_wnd sk - of_nat n,
        rcv_nxt := rcv_nxt sk + of_nat n\<rparr>) w)" "contents c = rcv_data ?sk @ take n ?data"
      "rcv_ok (?sk\<lparr>rcv_buf := Some c, rcv_wnd := rcv_wnd ?sk - of_nat n, rcv_nxt := rcv_nxt ?sk + of_nat n\<rparr>)"
      unfolding n_def by (rule write_buf_spec [OF ok(1) len])
    let ?sk' = "?sk\<lparr>rcv_buf := Some c, rcv_wnd := rcv_wnd ?sk - of_nat n, rcv_nxt := rcv_nxt ?sk + of_nat n\<rparr>"
    have "take n ?data = take n (take (unat ?len) ?data)" using n by (simp add: min_def)
    also have "\<dots> = take n (drop m s)" using tx n by (simp add: text_at_def sub_octets_def min_def)
    finally have tk: "rcv_data ?sk' = rcv_data ?sk @ take n (drop m s)" using c(2) by (simp add: rcv_data_def)
    have "m + n \<le> length s" using tx n by (simp add: text_at_def)
    then have "stream_inv s b given ?sk'"
      by (rule stream_inv_advance [OF inv m_def _ bounds(1) c(3) _ tk]) (use ok(2) in simp_all)
    then show ?thesis using c(1) r by (auto simp: upd_sk_def)
  qed
qed

text \<open>The three loops of the reassembly.\<close>

lemma socks_pkbs: "socks (free_pkb p w) = socks w" "socks (get_pkb p w) = socks w" "socks (crash w) = socks w"
  by (simp_all add: free_pkb_def get_pkb_def crash_def Let_def)

lemma adjacent_head_piece:
  assumes "piece_of s b seg" "adjacent_segment_head nseq seg = Some seg1" "unat b + length s < 2 ^ 32"
  shows "piece_of s b seg1"
proof (cases "nseq > seg_seq seg")
  case False
  then show ?thesis using assms by (simp add: adjacent_segment_head_def)
next
  case True
  define d where "d = nseq - seg_seq seg"
  have seg1: "\<not> seg_dlen seg \<le> d" "seg1 = seg\<lparr>seg_dlen := seg_dlen seg - d, seg_text := drop (unat d) (seg_text seg), seg_seq := nseq\<rparr>"
    using assms(2) True by (auto simp: adjacent_segment_head_def Let_def d_def split: if_splits)
  let ?k = "unat (seg_seq seg - b)" and ?n = "unat (seg_dlen seg)"
  have p: "b \<le> seg_seq seg" "?n \<le> length (seg_text seg)" "?k + ?n \<le> length s" "take ?n (seg_text seg) = sub_octets s ?k ?n"
    using assms(1) by (simp_all add: piece_of_def text_at_def)
  have ud: "unat d < ?n" "unat (seg_dlen seg - d) = ?n - unat d" using seg1(1) by (simp_all add: word_le_nat_alt unat_sub)
  have nseq: "nseq = seg_seq seg + of_nat (unat d)" by (simp add: d_def)
  have k: "unat (nseq - b) = ?k + unat d" "b \<le> nseq"
    unfolding nseq by (rule advance_seq [OF p(1) _ assms(3)], use p(3) ud(1) in simp)+
  have "take (?n - unat d) (drop (unat d) (seg_text seg)) = sub_octets s (?k + unat d) (?n - unat d)"
    using arg_cong [OF p(4), of "drop (unat d)"] by (simp add: drop_take sub_octets_def add.commute)
  then show ?thesis using p ud k by (simp add: seg1(2) piece_of_def text_at_def)
qed

lemma reass_trim_ok:
  assumes "piece_of s b seg" "\<forall>trh \<in> set l. entry_ok s b trh" "unat b + length s < 2 ^ 32" "length s < 2 ^ 31"
    and "reass_trim seg l w = (cont, seg2, rest, w1)"
  shows "set rest \<subseteq> set l \<and> socks w1 = socks w \<and>
    (\<forall>seg3. cont = Some seg3 \<longrightarrow> seg_seq seg3 = seg_seq seg \<and> seg_text seg3 = seg_text seg \<and>
       (2 ^ 31 \<le> unat (seg_dlen seg3) \<or> unat (seg_dlen seg3) \<le> unat (seg_dlen seg)))"
  using assms(2,5)
proof (induction l arbitrary: w)
  case (Cons trh l)
  have e: "b \<le> trh_seq trh" "unat (trh_seq trh - b) \<le> length s" using Cons.prems(1) by (simp_all add: entry_ok_def)
  have p: "b \<le> seg_seq seg" "unat (seg_seq seg - b) + unat (seg_dlen seg) \<le> length s"
    using assms(1) by (simp_all add: piece_of_def text_at_def)
  have cut: "2 ^ 31 \<le> unat (trh_seq trh - seg_seq seg) \<or> unat (trh_seq trh - seg_seq seg) \<le> unat (seg_dlen seg)"
    if lt: "trh_seq trh < seg_seq seg + seg_dlen seg"
  proof -
    have u: "unat (seg_seq seg) = unat b + unat (seg_seq seg - b)" "unat (trh_seq trh) = unat b + unat (trh_seq trh - b)"
      using p(1) e(1) by (simp_all add: unat_sub word_le_nat_alt)
    have "unat (seg_seq seg + seg_dlen seg) = unat (seg_seq seg) + unat (seg_dlen seg)"
      using p(2) assms(3) u(1) by (simp only: unat_word_ariths(1)) simp
    then have "unat (trh_seq trh) < unat (seg_seq seg) + unat (seg_dlen seg)" using lt by (simp add: word_less_nat_alt)
    then show ?thesis
    proof (cases "unat (seg_seq seg) \<le> unat (trh_seq trh)")
      case True
      then have "unat (trh_seq trh - seg_seq seg) = unat (trh_seq trh) - unat (seg_seq seg)" by (simp add: unat_sub word_le_nat_alt)
      then show ?thesis using \<open>unat (trh_seq trh) < _\<close> by linarith
    next
      case False
      then have "unat (trh_seq trh - seg_seq seg) = unat (trh_seq trh) + 2 ^ 32 - unat (seg_seq seg)" by (simp only: unat_sub_if' if_False) simp
      moreover have "unat (seg_seq seg) \<le> unat (trh_seq trh) + 2 ^ 31" using u p(2) assms(4) by linarith
      ultimately have "2 ^ 31 \<le> unat (trh_seq trh - seg_seq seg)" by simp
      then show ?thesis ..
    qed
  qed
  show ?case
  proof (cases "seg_seq seg + seg_dlen seg < trh_seq trh + trh_len trh")
    case True
    then show ?thesis using Cons.prems(2) cut by (auto simp: Let_def split: if_splits)
  next
    case False
    then have "reass_trim seg l (free_pkb (trh_pkb trh) w) = (cont, seg2, rest, w1)" using Cons.prems(2) by simp
    moreover have "\<forall>t \<in> set l. entry_ok s b t" using Cons.prems(1) by simp
    ultimately have "set rest \<subseteq> set l \<and> socks w1 = socks w \<and>
      (\<forall>seg3. cont = Some seg3 \<longrightarrow> seg_seq seg3 = seg_seq seg \<and> seg_text seg3 = seg_text seg \<and>
         (2 ^ 31 \<le> unat (seg_dlen seg3) \<or> unat (seg_dlen seg3) \<le> unat (seg_dlen seg)))"
      using Cons.IH [of "free_pkb (trh_pkb trh) w"] unfolding socks_pkbs by blast
    then show ?thesis by (metis list.set_intros(2) subset_iff)
  qed
qed auto

lemma reass_deliver_inv:
  assumes "unat b + length s < 2 ^ 32" "length s < 2 ^ 31"
  shows "stream_inv s b given (socks w i) \<Longrightarrow> rcv_reass (socks w i) = l \<Longrightarrow>
    stream_inv s b given (socks (snd (reass_deliver i l len w)) i)"
proof (induction l arbitrary: w len)
  case (Cons trh l)
  have e: "entry_ok s b trh" "\<forall>t \<in> set l. entry_ok s b t" using Cons.prems by (auto simp: stream_inv_def)
  obtain rlen w1 where r: "tcp_write_buf i (trh_data trh) (trh_len trh) w = (rlen, w1)" by fastforce
  have w1: "stream_inv s b given (socks w1 i)" if "trh_seq trh = rcv_nxt (socks w i)"
    using write_buf_stream [OF Cons.prems(1) e(1) that assms r] by blast
  let ?w2 = "free_pkb (trh_pkb trh) (upd_sk i (\<lambda>sk. sk\<lparr>rcv_reass := l\<rparr>) w1)"
  have "stream_inv s b given (socks ?w2 i)" if "trh_seq trh = rcv_nxt (socks w i)"
    by (rule stream_inv_cong [OF _ _ _ _ w1 [OF that]]) (use e(2) in \<open>simp_all add: upd_sk_def socks_pkbs\<close>)
  then show ?case using Cons.IH [of ?w2 "len + rlen"] Cons.prems(1) w1 r by (simp add: upd_sk_def socks_pkbs Let_def)
qed simp

lemma piece_entry:
  assumes "piece_of s b seg" "unat n \<le> unat (seg_dlen seg)"
  shows "entry_ok s b \<lparr>trh_pkb = p, trh_data = seg_text seg, trh_seq = seg_seq seg, trh_len = n\<rparr>"
proof -
  let ?k = "unat (seg_seq seg - b)" and ?m = "unat (seg_dlen seg)"
  have p: "b \<le> seg_seq seg" "?m \<le> length (seg_text seg)" "?k + ?m \<le> length s" "take ?m (seg_text seg) = sub_octets s ?k ?m"
    using assms(1) by (simp_all add: piece_of_def text_at_def)
  have "take (unat n) (seg_text seg) = sub_octets s ?k (unat n)"
    using arg_cong [OF p(4), of "take (unat n)"] assms(2) by (simp add: sub_octets_def min_def)
  then show ?thesis using p assms(2) by (simp add: entry_ok_def text_at_def)
qed

lemma segment_reass_inv:
  assumes inv: "stream_inv s b given (socks w i)" and seg: "piece_of s b seg"
    and bounds: "unat b + length s < 2 ^ 32" "length s < 2 ^ 31" and r: "tcp_segment_reass i seg pkb w = (seg', w')"
  shows "stream_inv s b given (socks w' i)"
proof -
  define rs where "rs = rcv_reass (socks w i)"
  define bf where "bf = takeWhile (\<lambda>trh. \<not> seg_seq seg < trh_seq trh) rs"
  define bh where "bh = dropWhile (\<lambda>trh. \<not> seg_seq seg < trh_seq trh) rs"
  have rs: "\<forall>t \<in> set rs. entry_ok s b t" using inv by (simp add: stream_inv_def rs_def)
  have sub: "\<forall>t \<in> set bf. entry_ok s b t" "\<forall>t \<in> set bh. entry_ok s b t"
    using rs by (auto simp: bf_def bh_def dest: set_takeWhileD set_dropWhileD)
  define o1 where "o1 = (if bh = [] then Some seg else adjacent_segment_head (prev_end (socks w i) bf) seg)"
  note run = r [unfolded tcp_segment_reass_def Let_def, folded rs_def, folded bf_def bh_def, folded o1_def]
  show ?thesis
  proof (cases o1)
    case None
    then have "w' = w" using run by simp
    then show ?thesis using inv by simp
  next
    case (Some seg1)
    then have seg1: "piece_of s b seg1" using seg adjacent_head_piece [OF seg _ bounds(1)] by (auto simp: o1_def split: if_splits)
    obtain cont seg2 rest w1 where trim: "reass_trim seg1 bh w = (cont, seg2, rest, w1)" by (metis prod_cases4)
    note tr = reass_trim_ok [OF seg1 sub(2) bounds trim]
    have keep: "stream_inv s b given ((socks w1 i)\<lparr>rcv_reass := l\<rparr>)" if "\<forall>t \<in> set l. entry_ok s b t" for l
      by (rule stream_inv_cong [OF _ _ _ _ inv]) (use tr that in simp_all)
    have rest: "\<forall>t \<in> set rest. entry_ok s b t" using tr sub(2) by blast
    show ?thesis
    proof (cases cont)
      case None
      then have "w' = upd_sk i (\<lambda>sk. sk\<lparr>rcv_reass := bf @ rest\<rparr>) w1"
        using run Some trim by simp
      then show ?thesis using keep [of "bf @ rest"] sub(1) rest by (auto simp: upd_sk_def)
    next
      case cont: (Some seg3)
      let ?c = "\<lparr>trh_pkb = pkb, trh_data = seg_text seg3, trh_seq = seg_seq seg3, trh_len = seg_dlen seg3\<rparr>"
      let ?l = "bf @ ?c # rest"
      let ?w2 = "get_pkb pkb (upd_sk i (\<lambda>sk. sk\<lparr>rcv_reass := ?l\<rparr>) w1)"
      have "entry_ok s b ?c"
        using tr cont piece_entry [OF seg1, of "seg_dlen seg3" pkb] seg1 by (auto simp: entry_ok_def piece_of_def text_at_def)
      then have "stream_inv s b given (socks ?w2 i)" using keep [of ?l] sub(1) rest by (auto simp: upd_sk_def socks_pkbs)
      then have d: "stream_inv s b given (socks (snd (reass_deliver i ?l 0 ?w2)) i)"
        by (rule reass_deliver_inv [OF bounds]) (simp add: upd_sk_def socks_pkbs)
      obtain n w3 where w3: "reass_deliver i ?l 0 ?w2 = (n, w3)" by fastforce
      have "w' = w3 \<or> w' = upd_sk i (\<lambda>sk. sk\<lparr>f_push := True\<rparr>) w3"
        using run Some trim cont w3 by (auto split: if_splits)
      moreover have "stream_inv s b given ((socks w3 i)\<lparr>f_push := True\<rparr>)"
        by (rule stream_inv_cong [of _ "socks w3 i"]) (use d w3 in \<open>simp_all add: stream_inv_def\<close>)
      ultimately show ?thesis using d w3 by (auto simp: upd_sk_def)
    qed
  qed
qed

text \<open>A segment, wherever it lies.\<close>

lemma segment_stream_inv:
  assumes inv: "stream_inv s b given (socks w i)" and seg: "piece_of s b seg"
    and bounds: "unat b + length s < 2 ^ 32" "length s < 2 ^ 31"
    and r: "tcp_recv_text i seg pkb w = (seg', w')"
  shows "stream_inv s b given (socks w' i)"
proof (cases "rcv_wnd (socks w i) = 0 \<or> adjacent_segment_head (rcv_nxt (socks w i)) seg = None")
  case True
  then have "socks w' = socks w" using r by (auto simp: tcp_recv_text_def Let_def split: if_splits)
  then show ?thesis using inv by simp
next
  case False
  then obtain seg1 where s1: "adjacent_segment_head (rcv_nxt (socks w i)) seg = Some seg1" by auto
  have seg1: "piece_of s b seg1" by (rule adjacent_head_piece [OF seg s1 bounds(1)])
  have flags: "stream_inv s b given (sk\<lparr>f_push := x, f_ackdelay := y\<rparr>)" "stream_inv s b given (sk\<lparr>f_acknow := y\<rparr>)"
    "stream_inv s b given (sk\<lparr>f_ackdelay := y\<rparr>)"
    if "stream_inv s b given sk" for sk x y
    by (rule stream_inv_cong [OF _ _ _ _ that]; use that in \<open>simp add: stream_inv_def\<close>)+
  show ?thesis
  proof (cases "rcv_nxt (socks w i) = seg_seq seg1 \<and> rcv_reass (socks w i) = []")
    case True
    obtain rlen w1 where wb: "tcp_write_buf i (seg_text seg1) (seg_dlen seg1) w = (rlen, w1)" by fastforce
    have "stream_inv s b given (socks w1 i)"
      using write_buf_stream [OF inv piece_entry [OF seg1 order_refl] _ bounds] True wb by simp
    then show ?thesis using r False s1 True wb flags by (auto simp: tcp_recv_text_def Let_def upd_sk_def split: if_splits)
  next
    case other: False
    obtain seg2 w1 where re: "tcp_segment_reass i seg1 pkb w = (seg2, w1)" by fastforce
    have "stream_inv s b given (socks w1 i)" by (rule segment_reass_inv [OF inv seg1 bounds re])
    then show ?thesis using r False s1 other re flags by (auto simp: tcp_recv_text_def Let_def upd_sk_def split: if_splits)
  qed
qed

text \<open>A segment that fills the gap before the only entry of the list releases that entry.\<close>

lemma write_whole:
  assumes ok: "rcv_ok (socks w i)" and len: "unat len \<le> unat (rcv_wnd (socks w i))" "unat len \<le> length data"
  obtains c where "tcp_write_buf i data len w = (int (unat len), upd_sk i (\<lambda>sk. sk\<lparr>rcv_buf := Some c, rcv_wnd := rcv_wnd sk - len,
      rcv_nxt := rcv_nxt sk + len\<rparr>) w)"
    "rcv_ok ((socks w i)\<lparr>rcv_buf := Some c, rcv_wnd := rcv_wnd (socks w i) - len, rcv_nxt := rcv_nxt (socks w i) + len\<rparr>)"
proof -
  have "uint (rcv_wnd (socks w i)) < 2 ^ 31" using ok by (simp add: rcv_ok_def)
  then have "uint len < 2 ^ 31" using len(1) unfolding unat_le_uint by simp
  note spec = write_buf_spec [OF ok this len(2)]
  have n: "take_text (socks w i) data len = unat len" using len(1) by (simp add: take_text_def)
  show ?thesis by (rule spec) (use that in \<open>simp add: n\<close>)
qed

lemma deliver_two:
  assumes ok: "rcv_ok (socks w i)" and c1: "trh_seq c1 = rcv_nxt (socks w i)" "trh_seq c2 = trh_seq c1 + trh_len c1"
    and len: "unat (trh_len c1) + unat (trh_len c2) \<le> unat (rcv_wnd (socks w i))" "0 < trh_len c1" "0 < trh_len c2"
      "unat (trh_len c1) \<le> length (trh_data c1)" "unat (trh_len c2) \<le> length (trh_data c2)"
  shows "rcv_nxt (socks (snd (reass_deliver i [c1, c2] n w)) i) = trh_seq c2 + trh_len c2 \<and>
    rcv_reass (socks (snd (reass_deliver i [c1, c2] n w)) i) = []"
proof -
  have pos: "0 < unat (trh_len c1)" "0 < unat (trh_len c2)" using len(2,3) by (simp_all add: unat_gt_0)
  obtain b1 where b1: "tcp_write_buf i (trh_data c1) (trh_len c1) w = (int (unat (trh_len c1)),
      upd_sk i (\<lambda>sk. sk\<lparr>rcv_buf := Some b1, rcv_wnd := rcv_wnd sk - trh_len c1, rcv_nxt := rcv_nxt sk + trh_len c1\<rparr>) w)"
    "rcv_ok ((socks w i)\<lparr>rcv_buf := Some b1, rcv_wnd := rcv_wnd (socks w i) - trh_len c1, rcv_nxt := rcv_nxt (socks w i) + trh_len c1\<rparr>)"
    using write_whole [OF ok _ len(4)] len(1) by auto
  let ?sk = "(socks w i)\<lparr>rcv_buf := Some b1, rcv_wnd := rcv_wnd (socks w i) - trh_len c1, rcv_nxt := rcv_nxt (socks w i) + trh_len c1,
      rcv_reass := [c2]\<rparr>"
  let ?w = "free_pkb (trh_pkb c1) (upd_sk i (\<lambda>sk. sk\<lparr>rcv_reass := [c2]\<rparr>) (upd_sk i (\<lambda>sk. sk\<lparr>rcv_buf := Some b1,
      rcv_wnd := rcv_wnd sk - trh_len c1, rcv_nxt := rcv_nxt sk + trh_len c1\<rparr>) w))"
  have sk: "socks ?w i = ?sk" by (simp add: socks_pkbs upd_sk_def)
  have ok1: "rcv_ok (socks ?w i)" unfolding sk using b1(2) by (simp add: rcv_ok_def)
  have "trh_len c1 \<le> rcv_wnd (socks w i)" using len(1) by (simp add: word_le_nat_alt)
  then have "unat (trh_len c2) \<le> unat (rcv_wnd (socks ?w i))" unfolding sk using len(1) by (simp add: unat_sub)
  then obtain b2 where b2: "tcp_write_buf i (trh_data c2) (trh_len c2) ?w = (int (unat (trh_len c2)),
      upd_sk i (\<lambda>sk. sk\<lparr>rcv_buf := Some b2, rcv_wnd := rcv_wnd sk - trh_len c2, rcv_nxt := rcv_nxt sk + trh_len c2\<rparr>) ?w)"
    using write_whole [OF ok1 _ len(5)] by auto
  have "reass_deliver i [c1, c2] n w = reass_deliver i [c2] (n + int (unat (trh_len c1))) ?w"
    using b1(1) c1(1) pos(1) by (simp add: Let_def del: of_nat_unat)
  also have "\<dots> = (n + int (unat (trh_len c1)) + int (unat (trh_len c2)), free_pkb (trh_pkb c2) (upd_sk i (\<lambda>sk. sk\<lparr>rcv_reass := []\<rparr>)
      (upd_sk i (\<lambda>sk. sk\<lparr>rcv_buf := Some b2, rcv_wnd := rcv_wnd sk - trh_len c2, rcv_nxt := rcv_nxt sk + trh_len c2\<rparr>) ?w)))"
    using b2 c1 pos(2) sk by (simp add: Let_def del: of_nat_unat)
  finally show ?thesis using c1 sk by (simp add: socks_pkbs upd_sk_def)
qed

lemma gap_filled:
  assumes ok: "rcv_ok (socks w i)" "rcv_reass (socks w i) = []"
    and seq: "seg_seq seg1 = rcv_nxt (socks w i)" "seg_seq seg2 = seg_seq seg1 + seg_dlen seg1"
    and len: "unat (seg_dlen seg1) + unat (seg_dlen seg2) \<le> unat (rcv_wnd (socks w i))" "0 < seg_dlen seg1" "0 < seg_dlen seg2"
      "unat (seg_dlen seg1) \<le> length (seg_text seg1)" "unat (seg_dlen seg2) \<le> length (seg_text seg2)"
    and wrap: "unat (seg_seq seg1) + unat (seg_dlen seg1) + unat (seg_dlen seg2) < 2 ^ 32"
    and head: "snd_wnd (socks w i) + snd_up (socks w i) \<le> seg_seq seg1"
    and r: "w2 = snd (tcp_recv_text i seg1 p1 (snd (tcp_recv_text i seg2 p2 w)))"
  shows "rcv_nxt (socks w2 i) = seg_seq seg2 + seg_dlen seg2 \<and> rcv_reass (socks w2 i) = []"
proof -
  let ?sk = "socks w i"
  let ?c1 = "\<lparr>trh_pkb = p1, trh_data = seg_text seg1, trh_seq = seg_seq seg1, trh_len = seg_dlen seg1\<rparr>"
  let ?c2 = "\<lparr>trh_pkb = p2, trh_data = seg_text seg2, trh_seq = seg_seq seg2, trh_len = seg_dlen seg2\<rparr>"
  have pos: "0 < unat (seg_dlen seg1)" "0 < unat (seg_dlen seg2)" using len(2,3) by (simp_all add: unat_gt_0)
  have u2: "unat (seg_seq seg2) = unat (seg_seq seg1) + unat (seg_dlen seg1)"
    unfolding seq(2) using wrap by (simp only: unat_word_ariths(1)) simp
  have u3: "unat (seg_seq seg2 + seg_dlen seg2) = unat (seg_seq seg1) + unat (seg_dlen seg1) + unat (seg_dlen seg2)"
    using wrap u2 by (simp only: unat_word_ariths(1)) simp
  have lt: "seg_seq seg1 < seg_seq seg2" "seg_seq seg2 < seg_seq seg2 + seg_dlen seg2"
    using u2 u3 pos by (simp_all add: word_less_nat_alt)
  have wnd: "rcv_wnd ?sk \<noteq> 0" using len(1) pos by auto
  obtain w1 where w1: "snd (tcp_recv_text i seg2 p2 w) = w1" by simp
  have sk1: "socks w1 i = ?sk\<lparr>rcv_reass := [?c2], f_acknow := True\<rparr>"
    using w1 wnd lt seq ok(2)
    by (auto simp: tcp_recv_text_def tcp_segment_reass_def adjacent_segment_head_def Let_def upd_sk_def socks_pkbs split: if_splits)
  define v where "v = get_pkb p1 (upd_sk i (\<lambda>sk. sk\<lparr>rcv_reass := [?c1, ?c2]\<rparr>) w1)"
  have skv: "socks v i = ?sk\<lparr>rcv_reass := [?c1, ?c2], f_acknow := True\<rparr>" by (simp add: v_def socks_pkbs upd_sk_def sk1)
  have "rcv_ok (socks v i)" using ok(1) by (simp add: skv rcv_ok_def split: option.splits)
  then have d: "rcv_nxt (socks (snd (reass_deliver i [?c1, ?c2] 0 v)) i) = seg_seq seg2 + seg_dlen seg2 \<and>
      rcv_reass (socks (snd (reass_deliver i [?c1, ?c2] 0 v)) i) = []"
    using deliver_two [of v i ?c1 ?c2 0] seq len by (simp add: skv del: reass_deliver.simps)
  obtain n w3 where w3: "reass_deliver i [?c1, ?c2] 0 v = (n, w3)" by fastforce
  have rs: "rcv_reass (socks w1 i) = [?c2]" by (simp add: sk1)
  have "\<not> seg_seq seg1 < snd_wnd ?sk + snd_up ?sk" using head by (simp add: not_less)
  then have adj: "adjacent_segment_head (prev_end (socks w1 i) []) seg1 = Some seg1"
    by (simp add: adjacent_segment_head_def prev_end_def sk1)
  have tr: "reass_trim seg1 [?c2] w1 = (Some seg1, seg1, [?c2], w1)" using lt(2) by (simp add: seq(2) [symmetric])
  have re: "snd (tcp_segment_reass i seg1 p1 w1) = w3 \<or>
      snd (tcp_segment_reass i seg1 p1 w1) = upd_sk i (\<lambda>sk. sk\<lparr>f_push := True\<rparr>) w3"
    unfolding tcp_segment_reass_def Let_def rs
    by (simp add: lt(1) adj tr v_def [symmetric] w3 del: reass_trim.simps reass_deliver.simps)
  have nxt: "adjacent_segment_head (rcv_nxt (socks w1 i)) seg1 = Some seg1" "rcv_wnd (socks w1 i) \<noteq> 0"
    using wnd by (simp_all add: adjacent_segment_head_def sk1 seq(1))
  have "\<exists>v'. socks w2 = socks (upd_sk i (\<lambda>sk. sk\<lparr>f_acknow := True\<rparr>) v') \<and> snd (tcp_segment_reass i seg1 p1 w1) = v'"
    using r w1 nxt rs by (auto simp: tcp_recv_text_def Let_def split_def)
  then have "rcv_nxt (socks w2 i) = rcv_nxt (socks w3 i) \<and> rcv_reass (socks w2 i) = rcv_reass (socks w3 i)"
    using re by (auto simp: upd_sk_def)
  then show ?thesis using d w3 by simp
qed

lemma rcv_run_inv:
  "stream_inv s b given (socks w i) \<Longrightarrow> \<forall>seg pkb. Segment seg pkb \<in> set es \<longrightarrow> piece_of s b seg \<Longrightarrow> unat b + length s < 2 ^ 32 \<Longrightarrow>
     length s < 2 ^ 31 \<Longrightarrow> rcv_run i es (given, w) = (given', w') \<Longrightarrow> stream_inv s b given' (socks w' i)"
proof (induction i es "(given, w)" arbitrary: given w rule: rcv_run.induct)
  case (2 i seg pkb es given w)
  obtain seg' w1 where r: "tcp_recv_text i seg pkb w = (seg', w1)" by fastforce
  show ?case using 2 segment_stream_inv [OF _ _ _ _ r] r by auto
next
  case (3 i len es given w)
  obtain r w1 where r: "tcp_recv_buf i len w = (r, w1)" by fastforce
  have "rcv_ok (socks w i)" using 3(2) by (simp add: stream_inv_def)
  then have "stream_inv s b (given @ got r) (socks w1 i)"
    using recv_buf_spec [OF _ r] 3(2) by (simp add: stream_inv_def)
  then show ?case using 3 r by auto
qed simp

text \<open>C1. Delivery of the stream. A peer sends the octets \<open>s\<close>, whose sequence numbers do not wrap;
  its segments arrive in any segmentation and order, with any loss, overlap and retransmission,
  also ahead of gaps, so that they pass through the reassembly list, and the user reads in
  between. Then what the user was given, followed by what waits in the receive buffer, is exactly
  the part of \<open>s\<close> that \<open>rcv_nxt\<close> acknowledges: nothing is altered, repeated, reordered or skipped,
  and the window advertised stays the room in the buffer. Text ahead of a gap may be dropped, and
  a failed assertion of the reassembly may end the process; neither changes what was delivered.
  A segment that brings the next octets while the reassembly list is empty is taken as far as the
  window reaches. A segment that came early is delivered with the one that fills the gap before
  it, unless the sum of \<open>snd_wnd\<close> and \<open>snd_up\<close>, which the code takes for the end of a preceding
  entry where there is none, exceeds the sequence number of the latter.\<close>

theorem tcp_receive_stream:
  assumes "rcv_ok (socks w i)" "rcv_reass (socks w i) = []" "rcv_data (socks w i) = []"
    and "\<forall>seg pkb. Segment seg pkb \<in> set es \<longrightarrow> piece_of s (rcv_nxt (socks w i)) seg"
    and "unat (rcv_nxt (socks w i)) + length s < 2 ^ 32" "length s < 2 ^ 31"
    and "rcv_run i es ([], w) = (given, w')"
  shows "given @ rcv_data (socks w' i) = take (unat (rcv_nxt (socks w' i) - rcv_nxt (socks w i))) s \<and>
    unat (rcv_nxt (socks w' i) - rcv_nxt (socks w i)) \<le> length s \<and> rcv_ok (socks w' i) \<and>
    (piece_of s (rcv_nxt (socks w i)) seg \<and> seg_seq seg \<le> rcv_nxt (socks w' i) \<and> rcv_reass (socks w' i) = [] \<longrightarrow>
       rcv_nxt (socks (snd (tcp_recv_text i seg pkb w')) i) =
       rcv_nxt (socks w' i) + of_nat (length (new_text (socks w' i) seg))) \<and>
    (piece_of s (rcv_nxt (socks w i)) seg1 \<and> piece_of s (rcv_nxt (socks w i)) seg2 \<and> rcv_reass (socks w' i) = [] \<and>
     seg_seq seg1 = rcv_nxt (socks w' i) \<and> seg_seq seg2 = seg_seq seg1 + seg_dlen seg1 \<and> 0 < seg_dlen seg1 \<and> 0 < seg_dlen seg2 \<and>
     unat (seg_dlen seg1) + unat (seg_dlen seg2) \<le> unat (rcv_wnd (socks w' i)) \<and>
     snd_wnd (socks w' i) + snd_up (socks w' i) \<le> seg_seq seg1 \<longrightarrow>
       rcv_nxt (socks (snd (rcv_run i [Segment seg2 p2, Segment seg1 p1] (given, w'))) i) = seg_seq seg2 + seg_dlen seg2)"
proof -
  have "stream_inv s (rcv_nxt (socks w i)) [] (socks w i)" using assms(1-3) by (simp add: stream_inv_def)
  then have inv: "stream_inv s (rcv_nxt (socks w i)) given (socks w' i)" by (rule rcv_run_inv [OF _ assms(4-7)])
  obtain seg' w1 where r: "tcp_recv_text i seg pkb w' = (seg', w1)" by fastforce
  have "rcv_nxt (socks w1 i) = rcv_nxt (socks w' i) + of_nat (length (new_text (socks w' i) seg))"
    if "piece_of s (rcv_nxt (socks w i)) seg" "seg_seq seg \<le> rcv_nxt (socks w' i)" "rcv_reass (socks w' i) = []"
    using recv_text_spec(2) [OF _ that(3,2) _ _ r] inv that(1) assms(6) by (simp add: stream_inv_def piece_of_def text_at_def)
  moreover have "rcv_nxt (socks (snd (rcv_run i [Segment seg2 p2, Segment seg1 p1] (given, w'))) i) = seg_seq seg2 + seg_dlen seg2"
    if p: "piece_of s (rcv_nxt (socks w i)) seg1" "piece_of s (rcv_nxt (socks w i)) seg2" and re: "rcv_reass (socks w' i) = []"
      and sq: "seg_seq seg1 = rcv_nxt (socks w' i)" "seg_seq seg2 = seg_seq seg1 + seg_dlen seg1" "0 < seg_dlen seg1" "0 < seg_dlen seg2"
        "unat (seg_dlen seg1) + unat (seg_dlen seg2) \<le> unat (rcv_wnd (socks w' i))"
        "snd_wnd (socks w' i) + snd_up (socks w' i) \<le> seg_seq seg1"
  proof -
    let ?b = "rcv_nxt (socks w i)"
    have u: "unat (seg_seq seg1) = unat ?b + unat (seg_seq seg1 - ?b)" "unat (seg_seq seg2) = unat ?b + unat (seg_seq seg2 - ?b)"
      using p by (simp_all add: piece_of_def unat_sub word_le_nat_alt)
    have l: "unat (seg_seq seg1 - ?b) + unat (seg_dlen seg1) \<le> length s" "unat (seg_seq seg2 - ?b) + unat (seg_dlen seg2) \<le> length s"
      "unat (seg_dlen seg1) \<le> length (seg_text seg1)" "unat (seg_dlen seg2) \<le> length (seg_text seg2)"
      using p by (simp_all add: piece_of_def text_at_def)
    have "unat (seg_seq seg2) = unat (seg_seq seg1) + unat (seg_dlen seg1)"
      unfolding sq(2) using u(1) l(1) assms(5) by (simp only: unat_word_ariths(1)) simp
    then have "unat (seg_seq seg1) + unat (seg_dlen seg1) + unat (seg_dlen seg2) < 2 ^ 32" using u(2) l(2) assms(5) by linarith
    from gap_filled [OF _ re sq(1,2,5,3,4) l(3,4) this sq(6) refl, of p1 p2] show ?thesis using inv by (simp add: stream_inv_def)
  qed
  ultimately show ?thesis using inv unfolding stream_inv_def r snd_conv by blast
qed

definition text_seg :: "u32 \<Rightarrow> octets \<Rightarrow> tcp_segment" where
  "text_seg sq text =
     \<lparr>seg_seq = sq, seg_ack = 0, seg_lastseq = sq, seg_len = of_nat (length text), seg_dlen = of_nat (length text),
      seg_wnd = 0, seg_up = 0, seg_text = text, seg_pkt = [], seg_t = 0\<rparr>"

definition small_stack :: stack where
  "small_stack = stack_bss\<lparr>socks := (\<lambda>_. (zero_sock TCP_OPS)\<lparr>state := TCP_ESTABLISHED, rcv_wnd := 4\<rparr>)\<rparr>"

theorem tcp_receive_stream_witness:
  "\<exists>given w'. rcv_run 0 [Segment (text_seg 2 [3]) (fst (alloc_pkb 0 bss)), Segment (text_seg 0 [1, 2]) (fst (alloc_pkb 0 bss)),
       Read 1] ([], small_stack) = (given, w') \<and>
     given @ rcv_data (socks w' 0) = take (unat (rcv_nxt (socks w' 0))) [1, 2, 3]"
proof -
  let ?es = "[Segment (text_seg 2 [3]) (fst (alloc_pkb 0 bss)), Segment (text_seg 0 [1, 2]) (fst (alloc_pkb 0 bss)), Read 1]"
  have sk: "rcv_nxt (socks small_stack 0) = 0" "rcv_reass (socks small_stack 0) = []"
    "rcv_data (socks small_stack 0) = []" "rcv_ok (socks small_stack 0)"
    by (simp_all add: small_stack_def zero_sock_def rcv_data_def rcv_ok_def)
  have p: "\<forall>seg pkb. Segment seg pkb \<in> set ?es \<longrightarrow> piece_of [1, 2, 3] 0 seg"
    by (auto simp: piece_of_def text_at_def text_seg_def sub_octets_def)
  obtain given w' where r: "rcv_run 0 ?es ([], small_stack) = (given, w')" by fastforce
  show ?thesis
    using tcp_receive_stream [OF sk(4,2,3), of ?es "[1, 2, 3]" given w'] p r by (simp add: sk)
qed

end
