(* ===== verification/Inet.thy ===== *)
theory Inet
  imports Raw Udp Tcp_Sock
begin

text \<open>
  The socket layer: \<^verbatim>\<open>sock_close\<close> and \<^verbatim>\<open>sock_autobind\<close> of \<^verbatim>\<open>tapip/socket/sock.c\<close>,
  \<^verbatim>\<open>tapip/socket/inet.c\<close> and \<^verbatim>\<open>tapip/socket/socket.c\<close>. The tables \<^verbatim>\<open>tcp_ops\<close>,
  \<^verbatim>\<open>udp_ops\<close> and \<^verbatim>\<open>raw_ops\<close> of function pointers are case distinctions on \<open>sk_ops\<close>; a
  call through an entry that is \<^verbatim>\<open>NULL\<close> ends the process. \<open>junk\<close> is what the
  uninitialised \<^verbatim>\<open>sk_addr\<close> of \<^verbatim>\<open>udp_send_buf\<close> holds. Calls that block return
  \<open>Sleeping\<close>; they keep the reference to their socket, and are finished by the operation
  whose name ends in \<open>_wake\<close>.
\<close>

section \<open>sock.c\<close>

text \<open>\<^verbatim>\<open>sk->ops->unhash(sk)\<close>.\<close>

definition ops_unhash :: "nat \<Rightarrow> 'a stack_scheme \<Rightarrow> 'a stack_scheme" where
  "ops_unhash i w =
     (case sk_ops (socks w i) of
        TCP_OPS \<Rightarrow> tcp_unhash i w | UDP_OPS \<Rightarrow> udp_unhash i w | RAW_OPS \<Rightarrow> raw_unhash i w)"

definition sock_close :: "nat \<Rightarrow> 'a stack_scheme \<Rightarrow> 'a stack_scheme" where
  "sock_close i w =
     (let w1 = ops_unhash i (upd_sk i (\<lambda>sk. sk\<lparr>recv_wait := None\<rparr>) w)
      in free_pkbs_of (recv_queue (socks w1 i)) (upd_sk i (\<lambda>sk. sk\<lparr>recv_queue := []\<rparr>) w1))"

text \<open>
  \<^verbatim>\<open>sk->ops->set_port(sk, nport)\<close>; the outer \<open>None\<close> is a TCP port search that does not end.
  Raw socks have no such operation.
\<close>

definition ops_set_port :: "nat \<Rightarrow> u16 \<Rightarrow> 'a stack_scheme \<Rightarrow> (int \<times> 'a stack_scheme) option" where
  "ops_set_port i nport w =
     (case sk_ops (socks w i) of
        TCP_OPS \<Rightarrow> tcp_set_sport i nport w
      | UDP_OPS \<Rightarrow> Some (udp_set_sport i nport w)
      | RAW_OPS \<Rightarrow> Some (-1, crash w))"

definition sock_autobind :: "nat \<Rightarrow> 'a stack_scheme \<Rightarrow> (int \<times> 'a stack_scheme) option" where
  "sock_autobind i w =
     (if sk_ops (socks w i) = RAW_OPS then Some (-1, w) else ops_set_port i 0 w)"

section \<open>inet.c\<close>

text \<open>\<open>None\<close> for the type stands for a number from \<^verbatim>\<open>SOCK_MAX\<close> on.\<close>

definition inet_alloc :: "sock_type \<Rightarrow> int \<Rightarrow> 'a stack_scheme \<Rightarrow> nat option \<times> 'a stack_scheme" where
  "inet_alloc ty protocol w =
     (case ty of
        SOCK_STREAM \<Rightarrow> tcp_alloc_sock protocol w
      | SOCK_DGRAM \<Rightarrow> udp_alloc_sock protocol w
      | SOCK_RAW \<Rightarrow> raw_alloc_sock protocol w)"

definition inet_protocol :: "sock_type \<Rightarrow> int" where
  "inet_protocol ty = (case ty of SOCK_STREAM \<Rightarrow> 6 | SOCK_DGRAM \<Rightarrow> 17 | SOCK_RAW \<Rightarrow> 0)"

definition inet_socket ::
  "nat \<Rightarrow> sock_type option \<Rightarrow> int \<Rightarrow> 'a stack_scheme \<Rightarrow> int \<times> 'a stack_scheme" where
  "inet_socket s oty protocol w =
     (case oty of
        None \<Rightarrow> (-1, w)
      | Some ty \<Rightarrow>
          (case inet_alloc ty protocol w of
             (None, w1) \<Rightarrow> (-1, w1)
           | (Some i, w1) \<Rightarrow>
               (let proto = (if protocol = 0 then inet_protocol ty else protocol);
                    w2 = upd_so s (\<lambda>so. so\<lparr>so_sk := Some i\<rparr>) (get_sock i w1);
                    w3 = upd_sk i (\<lambda>sk. sk\<lparr>recv_queue := [], hash_list := None,
                                           sk_protocol := word_of_int proto, sk_sock := Some s\<rparr>) w2
                in (0, if sk_hash (socks w3 i) \<noteq> 0
                       then (case sk_ops (socks w3 i) of
                               TCP_OPS \<Rightarrow> snd (tcp_hash i w3)
                             | UDP_OPS \<Rightarrow> udp_hash i w3
                             | RAW_OPS \<Rightarrow> raw_hash i w3)
                       else w3))))"

definition inet_close :: "'a stack_xmit \<Rightarrow> nat \<Rightarrow> 'a stack_scheme \<Rightarrow> int \<times> 'a stack_scheme" where
  "inet_close xmit s w =
     (case so_sk (sockets w s) of
        None \<Rightarrow> (-1, w)
      | Some i \<Rightarrow>
          (let w1 = (if sk_ops (socks w i) = TCP_OPS then tcp_close xmit i w else sock_close i w)
           in (0, upd_so s (\<lambda>so. so\<lparr>so_sk := None\<rparr>) (free_sock i w1))))"

text \<open>\<^verbatim>\<open>inet_accept\<close> after \<^verbatim>\<open>sk->ops->accept\<close>; the peer's address is part of the result.\<close>

definition inet_accept_done ::
  "nat \<Rightarrow> nat option \<Rightarrow> 'a stack_scheme \<Rightarrow> (int \<times> (u32 \<times> u16)) \<times> 'a stack_scheme" where
  "inet_accept_done news r w =
     (case r of
        None \<Rightarrow> ((-1, (0, 0)), w)
      | Some c \<Rightarrow>
          ((0, (sk_daddr (socks w c), sk_dport (socks w c))),
           upd_so news (\<lambda>so. so\<lparr>so_sk := Some c\<rparr>) (get_sock c w)))"

definition inet_accept ::
  "nat \<Rightarrow> nat \<Rightarrow> 'a stack_scheme \<Rightarrow> (int \<times> (u32 \<times> u16)) outcome \<times> 'a stack_scheme" where
  "inet_accept s news w =
     (case so_sk (sockets w s) of
        None \<Rightarrow> (Return (-1, (0, 0)), w)
      | Some i \<Rightarrow>
          if sk_ops (socks w i) \<noteq> TCP_OPS then (Return (-1, (0, 0)), crash w)
          else
            (case tcp_accept i w of
               (Sleeping, w1) \<Rightarrow> (Sleeping, w1)
             | (Return r, w1) \<Rightarrow> (let (x, w2) = inet_accept_done news r w1 in (Return x, w2))))"

definition inet_listen :: "nat \<Rightarrow> int \<Rightarrow> 'a stack_scheme \<Rightarrow> int \<times> 'a stack_scheme" where
  "inet_listen s blog w =
     (if so_type (sockets w s) \<noteq> SOCK_STREAM then (-1, w)
      else (case so_sk (sockets w s) of None \<Rightarrow> (-1, w) | Some i \<Rightarrow> tcp_sock_listen i blog w))"

text \<open>No protocol has a \<^verbatim>\<open>bind\<close> operation of its own. The result is \<open>None\<close> if the port search does not end.\<close>

definition inet_bind :: "nat \<Rightarrow> sock_addr \<Rightarrow> 'a stack_scheme \<Rightarrow> (int \<times> 'a stack_scheme) option" where
  "inet_bind s skaddr w =
     (case so_sk (sockets w s) of
        None \<Rightarrow> Some (-1, crash w)
      | Some i \<Rightarrow>
          if sk_sport (socks w i) \<noteq> 0 then Some (-1, w)
          else if \<not> local_address (src_addr skaddr) w then Some (-1, w)
          else
            (let w1 = upd_sk i (\<lambda>sk. sk\<lparr>sk_saddr := src_addr skaddr\<rparr>) w in
             case (if sk_ops (socks w1 i) = RAW_OPS
                   then Some (0, upd_sk i (\<lambda>sk. sk\<lparr>sk_sport := src_port skaddr\<rparr>) w1)
                   else ops_set_port i (src_port skaddr) w1) of
               None \<Rightarrow> None
             | Some (err, w2) \<Rightarrow>
                 if err < 0 then Some (err, upd_sk i (\<lambda>sk. sk\<lparr>sk_saddr := 0\<rparr>) w2)
                 else Some (0, upd_sk i (\<lambda>sk. sk\<lparr>sk_daddr := 0, sk_dport := 0\<rparr>) w2)))"

definition inet_connect ::
  "'a stack_xmit \<Rightarrow> nat \<Rightarrow> sock_addr \<Rightarrow> 'a stack_scheme \<Rightarrow> (int outcome \<times> 'a stack_scheme) option" where
  "inet_connect xmit s skaddr w =
     (if dst_port skaddr = 0 \<or> dst_addr skaddr = 0 then Some (Return (-1), w)
      else
        (case so_sk (sockets w s) of
           None \<Rightarrow> Some (Return (-1), crash w)
         | Some i \<Rightarrow>
             if sk_dport (socks w i) \<noteq> 0 then Some (Return (-1), w)
             else
               (case (if sk_sport (socks w i) = 0 then sock_autobind i w else Some (0, w)) of
                  None \<Rightarrow> None
                | Some (err, w1) \<Rightarrow>
                    if err < 0 then Some (Return (-1), w1)
                    else
                      (case rt_lookup (dst_addr skaddr) w1 of
                         None \<Rightarrow> Some (Return (-1), w1)
                       | Some rt \<Rightarrow>
                           (let w2 = upd_sk i (\<lambda>sk. sk\<lparr>sk_dst := Some rt,
                                                      sk_saddr := net_ipaddr (devs w1 (rt_dev rt))\<rparr>) w1
                            in Some (if sk_ops (socks w2 i) = TCP_OPS then tcp_connect xmit i skaddr w2
                                     else (Return (-1), w2)))))))"

definition set_recv_wait :: "nat \<Rightarrow> nat option \<Rightarrow> 'a stack_scheme \<Rightarrow> 'a stack_scheme" where
  "set_recv_wait i p w = upd_sk i (\<lambda>sk. sk\<lparr>recv_wait := p\<rparr>) w"

definition inet_read :: "nat \<Rightarrow> int \<Rightarrow> 'a stack_scheme \<Rightarrow> recv_outcome \<times> 'a stack_scheme" where
  "inet_read s len w =
     (case so_sk (sockets w s) of
        None \<Rightarrow> (Received (-1) [], w)
      | Some i \<Rightarrow>
          (let w1 = set_recv_wait i (Some s) w in
           if sk_ops (socks w1 i) \<noteq> TCP_OPS then (Received (-1) [], crash w1)
           else
             (case tcp_recv_buf i len w1 of
                (Waiting n out, w2) \<Rightarrow> (Waiting n out, w2)
              | (Received n out, w2) \<Rightarrow> (Received n out, set_recv_wait i None w2))))"

definition ops_send_buf ::
  "'a stack_xmit \<Rightarrow> sock_addr \<Rightarrow> nat \<Rightarrow> octets \<Rightarrow> int \<Rightarrow> sock_addr option \<Rightarrow> 'a stack_scheme \<Rightarrow>
     int \<times> 'a stack_scheme" where
  "ops_send_buf xmit junk i buf len skaddr w =
     (case sk_ops (socks w i) of
        TCP_OPS \<Rightarrow> tcp_send_buf xmit i buf len w
      | UDP_OPS \<Rightarrow> udp_send_buf xmit junk i buf len skaddr w
      | RAW_OPS \<Rightarrow> (case skaddr of
                      None \<Rightarrow> (-1, crash w) | Some a \<Rightarrow> raw_send_buf xmit i buf len a w))"

definition inet_write ::
  "'a stack_xmit \<Rightarrow> sock_addr \<Rightarrow> nat \<Rightarrow> octets \<Rightarrow> int \<Rightarrow> 'a stack_scheme \<Rightarrow> int \<times> 'a stack_scheme" where
  "inet_write xmit junk s buf len w =
     (case so_sk (sockets w s) of
        None \<Rightarrow> (-1, w) | Some i \<Rightarrow> ops_send_buf xmit junk i buf len None w)"

definition inet_send ::
  "'a stack_xmit \<Rightarrow> sock_addr \<Rightarrow> nat \<Rightarrow> octets \<Rightarrow> int \<Rightarrow> sock_addr option \<Rightarrow> 'a stack_scheme \<Rightarrow>
     int \<times> 'a stack_scheme" where
  "inet_send xmit junk s buf len skaddr w =
     (case so_sk (sockets w s) of
        None \<Rightarrow> (-1, w) | Some i \<Rightarrow> ops_send_buf xmit junk i buf len skaddr w)"

definition inet_recv :: "nat \<Rightarrow> 'a stack_scheme \<Rightarrow> pkbuf option outcome \<times> 'a stack_scheme" where
  "inet_recv s w =
     (case so_sk (sockets w s) of
        None \<Rightarrow> (Return None, w)
      | Some i \<Rightarrow>
          (let w1 = set_recv_wait i (Some s) w in
           if sk_ops (socks w1 i) = TCP_OPS then (Return None, crash w1)
           else
             (case sock_recv_pkb i w1 of
                (Sleeping, w2) \<Rightarrow> (Sleeping, w2)
              | (Return r, w2) \<Rightarrow> (Return r, set_recv_wait i None w2))))"

definition inet_init :: "'a stack_scheme \<Rightarrow> 'a stack_scheme" where
  "inet_init w = tcp_init (udp_init (raw_init w))"

section \<open>socket.c\<close>

definition free_socket :: "'a stack_xmit \<Rightarrow> nat \<Rightarrow> 'a stack_scheme \<Rightarrow> 'a stack_scheme" where
  "free_socket xmit s w =
     (let w1 = upd_so s (\<lambda>so. so\<lparr>so_refcnt := so_refcnt so - 1\<rparr>) w in
      if so_refcnt (sockets w1 s) \<le> 0
      then (let w2 = (if so_ops (sockets w1 s)
                      then upd_so s (\<lambda>so. so\<lparr>so_ops := False\<rparr>) (snd (inet_close xmit s w1)) else w1)
            in upd_so s (\<lambda>so. so\<lparr>so_freed := True\<rparr>) w2)
      else w1)"

definition get_socket :: "nat \<Rightarrow> 'a stack_scheme \<Rightarrow> 'a stack_scheme" where
  "get_socket s w = upd_so s (\<lambda>so. so\<lparr>so_refcnt := so_refcnt so + 1\<rparr>) w"

definition alloc_socket :: "sock_type \<Rightarrow> 'a stack_scheme \<Rightarrow> nat \<times> 'a stack_scheme" where
  "alloc_socket ty w =
     (let s = alloc_sockets w;
          so = \<lparr>so_type = ty, so_sleep = wait_init, so_ops = False, so_sk = None, so_refcnt = 1, so_freed = False\<rparr>
      in (s, w\<lparr>sockets := (sockets w)(s := so), alloc_sockets := s + 1\<rparr>))"

text \<open>
  \<^verbatim>\<open>_socket\<close>; \<open>family\<close> says whether the family is \<^verbatim>\<open>AF_INET\<close>. A type that is not valid is
  recorded as \<open>SOCK_STREAM\<close>, in a socket that is freed at once.
\<close>

definition socket_call ::
  "'a stack_xmit \<Rightarrow> bool \<Rightarrow> sock_type option \<Rightarrow> int \<Rightarrow> 'a stack_scheme \<Rightarrow> nat option \<times> 'a stack_scheme" where
  "socket_call xmit family oty protocol w =
     (if \<not> family then (None, w)
      else
        (let (s, w1) = alloc_socket (case oty of None \<Rightarrow> SOCK_STREAM | Some ty \<Rightarrow> ty) w;
             w2 = upd_so s (\<lambda>so. so\<lparr>so_ops := True\<rparr>) w1;
             (r, w3) = inet_socket s oty protocol w2
         in if r < 0 then (None, free_socket xmit s w3) else (Some s, w3)))"

definition listen_call :: "'a stack_xmit \<Rightarrow> nat \<Rightarrow> int \<Rightarrow> 'a stack_scheme \<Rightarrow> int \<times> 'a stack_scheme" where
  "listen_call xmit s blog w =
     (if blog < 0 then (-1, w)
      else
        (let w1 = get_socket s w;
             (err, w2) = (if so_ops (sockets w1 s) then inet_listen s blog w1 else (-1, w1))
         in (err, free_socket xmit s w2)))"

definition close_call :: "'a stack_xmit \<Rightarrow> nat \<Rightarrow> 'a stack_scheme \<Rightarrow> 'a stack_scheme" where
  "close_call xmit s w =
     free_socket xmit s (upd_so s (\<lambda>so. so\<lparr>so_sleep := snd (wait_exit (so_sleep so))\<rparr>) w)"

definition connect_call ::
  "'a stack_xmit \<Rightarrow> nat \<Rightarrow> sock_addr \<Rightarrow> 'a stack_scheme \<Rightarrow> (int outcome \<times> 'a stack_scheme) option" where
  "connect_call xmit s skaddr w =
     (let w1 = get_socket s w in
      case (if so_ops (sockets w1 s) then inet_connect xmit s skaddr w1 else Some (Return (-1), w1)) of
        None \<Rightarrow> None
      | Some (Sleeping, w2) \<Rightarrow> Some (Sleeping, w2)
      | Some (Return err, w2) \<Rightarrow> Some (Return err, free_socket xmit s w2))"

definition connect_wake :: "'a stack_xmit \<Rightarrow> nat \<Rightarrow> nat \<Rightarrow> 'a stack_scheme \<Rightarrow> int \<times> 'a stack_scheme" where
  "connect_wake xmit s i w =
     (let (err, w1) = tcp_connect_wake i w in (err, free_socket xmit s w1))"

definition bind_call ::
  "'a stack_xmit \<Rightarrow> nat \<Rightarrow> sock_addr \<Rightarrow> 'a stack_scheme \<Rightarrow> (int \<times> 'a stack_scheme) option" where
  "bind_call xmit s skaddr w =
     (let w1 = get_socket s w in
      case (if so_ops (sockets w1 s) then inet_bind s skaddr w1 else Some (-1, w1)) of
        None \<Rightarrow> None
      | Some (err, w2) \<Rightarrow> Some (err, free_socket xmit s w2))"

text \<open>\<^verbatim>\<open>_accept\<close> after the operation of the protocol; a failure frees the new socket.\<close>

definition accept_done ::
  "'a stack_xmit \<Rightarrow> nat \<Rightarrow> nat \<Rightarrow> int \<times> (u32 \<times> u16) \<Rightarrow> 'a stack_scheme \<Rightarrow>
     (nat \<times> (u32 \<times> u16)) option \<times> 'a stack_scheme" where
  "accept_done xmit s news r w =
     (if fst r < 0
      then (None, free_socket xmit s (upd_so news (\<lambda>so. so\<lparr>so_freed := True\<rparr>) w))
      else (Some (news, snd r), free_socket xmit s w))"

definition accept_call ::
  "'a stack_xmit \<Rightarrow> nat \<Rightarrow> 'a stack_scheme \<Rightarrow> (nat \<times> (u32 \<times> u16)) option outcome \<times> 'a stack_scheme" where
  "accept_call xmit s w =
     (let w1 = get_socket s w;
          (news, w2) = alloc_socket (so_type (sockets w1 s)) w1;
          w3 = upd_so news (\<lambda>so. so\<lparr>so_ops := so_ops (sockets w2 s)\<rparr>) w2
      in case (if so_ops (sockets w3 s) then inet_accept s news w3 else (Return (0, (0, 0)), w3)) of
           (Sleeping, w4) \<Rightarrow> (Sleeping, w4)
         | (Return r, w4) \<Rightarrow> (let (x, w5) = accept_done xmit s news r w4 in (Return x, w5)))"

definition accept_wake ::
  "'a stack_xmit \<Rightarrow> nat \<Rightarrow> nat \<Rightarrow> nat \<Rightarrow> 'a stack_scheme \<Rightarrow>
     (nat \<times> (u32 \<times> u16)) option outcome \<times> 'a stack_scheme" where
  "accept_wake xmit s i news w =
     (case tcp_accept_wake i w of
        (Sleeping, w1) \<Rightarrow> (Sleeping, w1)
      | (Return r, w1) \<Rightarrow>
          (let (x, w2) = inet_accept_done news r w1;
               (y, w3) = accept_done xmit s news x w2
           in (Return y, w3)))"

definition send_call ::
  "'a stack_xmit \<Rightarrow> sock_addr \<Rightarrow> nat \<Rightarrow> octets \<Rightarrow> int \<Rightarrow> sock_addr \<Rightarrow> 'a stack_scheme \<Rightarrow> int \<times> 'a stack_scheme" where
  "send_call xmit junk s buf len skaddr w =
     (if len \<le> 0 then (-1, w)
      else
        (let w1 = get_socket s w;
             (err, w2) = (if so_ops (sockets w1 s) then inet_send xmit junk s buf len (Some skaddr) w1 else (-1, w1))
         in (err, free_socket xmit s w2)))"

definition recv_call :: "'a stack_xmit \<Rightarrow> nat \<Rightarrow> 'a stack_scheme \<Rightarrow> pkbuf option outcome \<times> 'a stack_scheme" where
  "recv_call xmit s w =
     (let w1 = get_socket s w in
      case (if so_ops (sockets w1 s) then inet_recv s w1 else (Return None, w1)) of
        (Sleeping, w2) \<Rightarrow> (Sleeping, w2)
      | (Return r, w2) \<Rightarrow> (Return r, free_socket xmit s w2))"

text \<open>The thread waiting in \<^verbatim>\<open>_recv\<close> is woken: it looks at the queue again.\<close>

definition recv_wake ::
  "'a stack_xmit \<Rightarrow> nat \<Rightarrow> nat \<Rightarrow> 'a stack_scheme \<Rightarrow> pkbuf option outcome \<times> 'a stack_scheme" where
  "recv_wake xmit s i w =
     (let (err, w1) = leave_socket (recv_wait (socks w i)) w in
      case (if err < 0 then (Return None, w1) else sock_recv_pkb i w1) of
        (Sleeping, w2) \<Rightarrow> (Sleeping, w2)
      | (Return r, w2) \<Rightarrow> (Return r, free_socket xmit s (set_recv_wait i None w2)))"

definition write_call ::
  "'a stack_xmit \<Rightarrow> sock_addr \<Rightarrow> nat \<Rightarrow> octets \<Rightarrow> int \<Rightarrow> 'a stack_scheme \<Rightarrow> int \<times> 'a stack_scheme" where
  "write_call xmit junk s buf len w =
     (if len \<le> 0 then (-1, w)
      else
        (let w1 = get_socket s w;
             (err, w2) = (if so_ops (sockets w1 s) then inet_write xmit junk s buf len w1 else (-1, w1))
         in (err, free_socket xmit s w2)))"

definition read_call :: "'a stack_xmit \<Rightarrow> nat \<Rightarrow> int \<Rightarrow> 'a stack_scheme \<Rightarrow> recv_outcome \<times> 'a stack_scheme" where
  "read_call xmit s len w =
     (if len \<le> 0 then (Received (-1) [], w)
      else
        (let w1 = get_socket s w in
         case (if so_ops (sockets w1 s) then inet_read s len w1 else (Received (-1) [], w1)) of
           (Waiting n out, w2) \<Rightarrow> (Waiting n out, w2)
         | (Received n out, w2) \<Rightarrow> (Received n out, free_socket xmit s w2)))"

definition read_wake ::
  "'a stack_xmit \<Rightarrow> nat \<Rightarrow> nat \<Rightarrow> int \<Rightarrow> int \<Rightarrow> octets \<Rightarrow> 'a stack_scheme \<Rightarrow> recv_outcome \<times> 'a stack_scheme" where
  "read_wake xmit s i len rlen out w =
     (case tcp_recv_wake i len rlen out w of
        (Waiting n out', w1) \<Rightarrow> (Waiting n out', w1)
      | (Received n out', w1) \<Rightarrow> (Received n out', free_socket xmit s (set_recv_wait i None w1)))"

definition socket_init :: "'a stack_scheme \<Rightarrow> 'a stack_scheme" where
  "socket_init w = inet_init w"

section \<open>Receiving what is queued\<close>

text \<open>
  A raw or UDP socket with the packets \<open>q\<close> in its queue, on which no thread sleeps and no notification is
  pending.
\<close>

definition recv_ready :: "nat \<Rightarrow> nat \<Rightarrow> pkbuf list \<Rightarrow> 'a stack_scheme \<Rightarrow> bool" where
  "recv_ready s i q w \<longleftrightarrow>
     so_ops (sockets w s) \<and> so_sk (sockets w s) = Some i \<and> 1 \<le> so_refcnt (sockets w s) \<and>
     \<not> dead (so_sleep (sockets w s)) \<and> \<not> notified (so_sleep (sockets w s)) \<and>
     sk_ops (socks w i) \<noteq> TCP_OPS \<and> recv_queue (socks w i) = q"

lemma recv_queued:
  assumes "recv_ready s i (p # q) w"
  shows "\<exists>w1. recv_call xmit s w = (Return (Some p), w1) \<and> recv_ready s i q w1"
  using assms
  by (simp add: recv_ready_def recv_call_def get_socket_def free_socket_def inet_recv_def set_recv_wait_def
      sock_recv_pkb_def upd_so_def upd_sk_def Let_def numeral_2_eq_2)

lemma recv_empty:
  assumes "recv_ready s i [] w"
  shows "fst (recv_call xmit s w) = Sleeping"
  using assms
  by (simp add: recv_ready_def recv_call_def get_socket_def inet_recv_def set_recv_wait_def sock_recv_pkb_def
      upd_so_def upd_sk_def Let_def numeral_2_eq_2 sleep_socket_def sleep_enter_def)

lemma ready_free_pkb: "recv_ready s i q w \<Longrightarrow> recv_ready s i q (free_pkb p w)"
  by (simp add: recv_ready_def free_pkb_def Let_def)

end
