(* ===== verification/Net.thy ===== *)
theory Net
  imports Inet
begin

text \<open>
  The input side of the stack and its assembly: \<^verbatim>\<open>tapip/ip/ip_in.c\<close>,
  \<^verbatim>\<open>tapip/net/net.c\<close>, the loopback device \<^verbatim>\<open>tapip/net/loop.c\<close>, the receiving half of
  \<^verbatim>\<open>tapip/net/veth.c\<close> and the start-up of \<^verbatim>\<open>tapip/shell/main.c\<close>.

  Transmission on the loopback device runs the input path inside the call, so that input and
  output are mutually recursive in C. Here the recursion is cut by the depth of such nested
  calls: \<open>stack_xmit n\<close> is the transmit function of the devices with room for \<open>n\<close> nested
  loopback transmissions on the call stack; the call after the last one overflows the stack and
  ends the process.
\<close>

section \<open>IP input\<close>

definition ip_deliver :: "'a stack_xmit \<Rightarrow> pkbuf \<Rightarrow> 'a stack_scheme \<Rightarrow> 'a stack_scheme" where
  "ip_deliver xmit pkb w =
     (let w1 = raw_in pkb w; p = ip_pro (pk_data pkb) in
      if p = IP_P_ICMP then icmp_in xmit pkb w1
      else if p = IP_P_TCP then tcp_in xmit pkb w1
      else if p = IP_P_UDP then udp_in xmit pkb w1
      else free_pkb pkb w1)"

definition ip_recv_local :: "'a stack_xmit \<Rightarrow> pkbuf \<Rightarrow> 'a stack_scheme \<Rightarrow> 'a stack_scheme" where
  "ip_recv_local xmit pkb w =
     (let off = ip_fragoff (pk_data pkb) in
      if off AND (IP_FRAG_OFF OR IP_FRAG_MF) \<noteq> 0
      then (if off AND IP_FRAG_DF \<noteq> 0 then free_pkb pkb w
            else (case ip_reass pkb w of
                    (None, w1) \<Rightarrow> w1
                  | (Some pkb1, w1) \<Rightarrow> ip_deliver xmit pkb1 w1))
      else ip_deliver xmit pkb w)"

definition ip_recv_route :: "'a stack_xmit \<Rightarrow> pkbuf \<Rightarrow> 'a stack_scheme \<Rightarrow> 'a stack_scheme" where
  "ip_recv_route xmit pkb w =
     (case rt_input xmit pkb w of
        (None, w1) \<Rightarrow> w1
      | (Some pkb1, w1) \<Rightarrow>
          (case pk_rtdst pkb1 of
             None \<Rightarrow> crash w1
           | Some rt \<Rightarrow>
               if rt_flags rt AND RT_LOCALHOST \<noteq> 0 then ip_recv_local xmit pkb1 w1
               else ip_forward xmit (pkb1\<lparr>pk_data := ip_ntoh (pk_data pkb1)\<rparr>) w1))"

definition ip_in :: "'a stack_xmit \<Rightarrow> devid \<Rightarrow> pkbuf \<Rightarrow> 'a stack_scheme \<Rightarrow> 'a stack_scheme" where
  "ip_in xmit d pkb w =
     (if pk_type pkb = PKT_OTHERHOST then free_pkb pkb w
      else if sz_less (pk_len pkb) (ETH_HRD_SZ + IP_HRD_SZ) then free_pkb pkb w
      else if ipver (pk_data pkb) \<noteq> 4 then free_pkb pkb w
      else
        (let hlen = iphlen (pk_data pkb) in
         if hlen < IP_HRD_SZ then free_pkb pkb w
         else if ip_chksum (sub_octets (pk_data pkb) ETH_HRD_SZ hlen) \<noteq> 0 then free_pkb pkb w
         else
           (let pkb1 = pkb\<lparr>pk_data := ip_ntoh (pk_data pkb)\<rparr>;
                len = unat (ip_len (pk_data pkb1)) in
            if len < hlen \<or> sz_less (pk_len pkb1) (ETH_HRD_SZ + len) then free_pkb pkb1 w
            else
              (let pkb2 = (if pk_len pkb1 > int (ETH_HRD_SZ + len)
                           then pkb_trim pkb1 (int (ETH_HRD_SZ + len)) else pkb1)
               in ip_recv_route xmit pkb2 w))))"

section \<open>Link input\<close>

definition eth_init :: "netdev \<Rightarrow> pkbuf \<Rightarrow> pkbuf option" where
  "eth_init dev pkb =
     (let b = pk_data pkb in
      if sz_less (pk_len pkb) ETH_HRD_SZ then None
      else
        Some (pkb\<lparr>pk_type :=
                    (if is_eth_multicast (eth_dst b)
                     then (if is_eth_broadcast (eth_dst b) then PKT_BROADCAST else PKT_MULTICAST)
                     else if \<not> hwacmp (eth_dst b) (net_hwaddr dev) then PKT_LOCALHOST
                     else PKT_OTHERHOST),
                  pk_pro := ntohs (eth_pro b)\<rparr>))"

definition net_in :: "'a stack_xmit \<Rightarrow> devid \<Rightarrow> pkbuf \<Rightarrow> 'a stack_scheme \<Rightarrow> 'a stack_scheme" where
  "net_in xmit d pkb w =
     (case eth_init (devs w d) pkb of
        None \<Rightarrow> free_pkb pkb w
      | Some pkb1 \<Rightarrow>
          (let pkb2 = pkb1\<lparr>pk_indev := Some d\<rparr>; p = pk_pro pkb2 in
           if p = ETH_P_RARP then w
           else if p = ETH_P_ARP then arp_in xmit d pkb2 w
           else if p = ETH_P_IP then ip_in xmit d pkb2 w
           else free_pkb pkb2 w))"

text \<open>One round of the endless loop of \<^verbatim>\<open>net_timer\<close>.\<close>

definition net_timer_round :: "'a stack_xmit \<Rightarrow> 'a stack_scheme \<Rightarrow> 'a stack_scheme" where
  "net_timer_round xmit w = ip_timer xmit 1 (arp_timer xmit 1 w)"

section \<open>Devices\<close>

definition loop_recv :: "'a stack_xmit \<Rightarrow> devid \<Rightarrow> pkbuf \<Rightarrow> 'a stack_scheme \<Rightarrow> 'a stack_scheme" where
  "loop_recv xmit d pkb w =
     net_in xmit d pkb
       (upd_stats d (\<lambda>s. s\<lparr>rx_packets := rx_packets s + 1, rx_bytes := rx_bytes s + word_of_int (pk_len pkb)\<rparr>) w)"

text \<open>The byte counter takes the length the packet had when it was transmitted.\<close>

definition loop_xmit :: "'a stack_xmit \<Rightarrow> 'a stack_xmit" where
  "loop_xmit xmit d pkb w =
     upd_stats d (\<lambda>s. s\<lparr>tx_packets := tx_packets s + 1, tx_bytes := tx_bytes s + word_of_int (pk_len pkb)\<rparr>)
       (loop_recv xmit d pkb (get_pkb pkb w))"

text \<open>\<^verbatim>\<open>dev->net_ops->xmit\<close>.\<close>

fun stack_xmit :: "nat \<Rightarrow> (octets \<Rightarrow> int) \<Rightarrow> 'a stack_xmit" where
  "stack_xmit n tap_write Veth pkb w = veth_xmit tap_write Veth pkb w"
| "stack_xmit 0 tap_write Loop pkb w = crash w"
| "stack_xmit (Suc n) tap_write Loop pkb w = loop_xmit (stack_xmit n tap_write) Loop pkb w"

text \<open>
  A frame from the tap device: \<open>frame\<close> is what \<^verbatim>\<open>read\<close> stores, cut at the size of the
  buffer; an empty one stands for its failure.
\<close>

definition veth_recv :: "octets \<Rightarrow> pkbuf \<Rightarrow> 'a stack_scheme \<Rightarrow> int \<times> pkbuf \<times> 'a stack_scheme" where
  "veth_recv frame pkb w =
     (let l = min (int (length frame)) (pk_len pkb) in
      if l \<le> 0 then (l, pkb, upd_stats Veth (\<lambda>s. s\<lparr>rx_errors := rx_errors s + 1\<rparr>) w)
      else (l, pkb\<lparr>pk_data := memcpy_at 0 (take (nat l) frame) (pk_data pkb), pk_len := l\<rparr>,
            upd_stats Veth (\<lambda>s. s\<lparr>rx_packets := rx_packets s + 1, rx_bytes := rx_bytes s + word_of_int l\<rparr>) w))"

definition veth_rx :: "'a stack_xmit \<Rightarrow> octets \<Rightarrow> 'a stack_scheme \<Rightarrow> 'a stack_scheme" where
  "veth_rx xmit frame w =
     (let (pkb, w1) = alloc_netdev_pkb Veth w;
          (l, pkb1, w2) = veth_recv frame pkb w1
      in if l > 0 then net_in xmit Veth pkb1 w2 else free_pkb pkb1 w2)"

section \<open>Start-up\<close>

definition net_stack_init :: "int \<Rightarrow> u32 \<Rightarrow> 'a stack_scheme \<Rightarrow> 'a stack_scheme" where
  "net_stack_init tap_mtu tap_addr w =
     socket_init (rt_init (arp_cache_init (netdev_init tap_mtu tap_addr w)))"

end
