(* ===== verification/Lib.thy ===== *)
theory Lib
  imports Prelude "HOL-Library.Monad_Syntax"
begin

text \<open>
  Addresses as text: \<^verbatim>\<open>str2ip\<close> and \<^verbatim>\<open>parse_ip_port\<close> of \<^verbatim>\<open>tapip/lib/lib.c\<close>, which the commands of
  the shell use, and the format \<^verbatim>\<open>IPFMT\<close> of \<^verbatim>\<open>tapip/include/ip.h\<close>. The functions of the C library
  they call are modelled as far as they are used: \<^verbatim>\<open>%u\<close> of \<^verbatim>\<open>sscanf\<close>, \<^verbatim>\<open>atoi\<close>, \<^verbatim>\<open>%d\<close> of \<^verbatim>\<open>printf\<close>, \<^verbatim>\<open>strchr\<close>. A
  number that does not fit is undefined in C; here it is what the GNU library makes of it,
  saturation at 64 bits and truncation to 32. A C string is a \<open>string\<close> without its
  terminator.
\<close>

section \<open>Numbers of the C library\<close>

definition isspace :: "char \<Rightarrow> bool" where
  "isspace c \<longleftrightarrow> c = CHR '' '' \<or> (9 \<le> (of_char c :: nat) \<and> (of_char c :: nat) \<le> 13)"

definition isdigit :: "char \<Rightarrow> bool" where
  "isdigit c \<longleftrightarrow> 48 \<le> (of_char c :: nat) \<and> (of_char c :: nat) \<le> 57"

definition digits_value :: "string \<Rightarrow> nat" where
  "digits_value ds = foldl (\<lambda>n c. 10 * n + (of_char c - 48)) 0 ds"

text \<open>The part of a string that \<^verbatim>\<open>strtol\<close> and \<^verbatim>\<open>strtoul\<close> convert: sign, digits, and what is left.\<close>

definition subject :: "string \<Rightarrow> (bool \<times> string \<times> string) option" where
  "subject s =
     (let s1 = dropWhile isspace s;
          signed = s1 \<noteq> [] \<and> hd s1 \<in> {CHR ''+'', CHR ''-''};
          s2 = (if signed then tl s1 else s1);
          ds = takeWhile isdigit s2
      in if ds = [] then None else Some (signed \<and> hd s1 = CHR ''-'', ds, dropWhile isdigit s2))"

definition scan_u :: "string \<Rightarrow> (u32 \<times> string) option" where
  "scan_u s =
     (case subject s of
        None \<Rightarrow> None
      | Some (neg, ds, rest) \<Rightarrow>
          (let n = digits_value ds;
               v = (if n < 2 ^ 64 then (if neg then - of_nat n else of_nat n) else - 1 :: u64)
           in Some (ucast v, rest)))"

definition atoi :: "string \<Rightarrow> int" where
  "atoi s =
     (case subject s of
        None \<Rightarrow> 0
      | Some (neg, ds, _) \<Rightarrow>
          (let n = int (digits_value ds);
               v = (if neg then max (- (2 ^ 63)) (- n) else min (2 ^ 63 - 1) n)
           in sint (word_of_int v :: i32)))"

fun print_d :: "nat \<Rightarrow> string" where
  "print_d n = (if n < 10 then [char_of (48 + n)] else print_d (n div 10) @ [char_of (48 + n mod 10)])"

declare print_d.simps [simp del]

section \<open>lib.c\<close>

definition scan_dot :: "string \<Rightarrow> string option" where
  "scan_dot s = (case s of c # t \<Rightarrow> if c = CHR ''.'' then Some t else None | [] \<Rightarrow> None)"

text \<open>\<^verbatim>\<open>sscanf(str, "%u.%u.%u.%u", ...) == 4\<close>; what follows the fourth number is not looked at.\<close>

definition scan_quad :: "string \<Rightarrow> (u32 \<times> u32 \<times> u32 \<times> u32) option" where
  "scan_quad s = do {
     (a, s1) \<leftarrow> scan_u s; s2 \<leftarrow> scan_dot s1;
     (b, s3) \<leftarrow> scan_u s2; s4 \<leftarrow> scan_dot s3;
     (c, s5) \<leftarrow> scan_u s4; s6 \<leftarrow> scan_dot s5;
     (d, _) \<leftarrow> scan_u s6;
     Some (a, b, c, d) }"

text \<open>\<open>None\<close> is the result \<^verbatim>\<open>-1\<close>, which leaves \<^verbatim>\<open>*ip\<close> as it is.\<close>

definition str2ip :: "string \<Rightarrow> u32 option" where
  "str2ip s =
     (case scan_quad s of
        None \<Rightarrow> None
      | Some (a, b, c, d) \<Rightarrow>
          if a > 255 \<or> b > 255 \<or> c > 255 \<or> d > 255 then None
          else Some (a OR push_bit 8 b OR push_bit 16 c OR push_bit 24 d))"

text \<open>
  The result of \<^verbatim>\<open>parse_ip_port\<close> with what \<^verbatim>\<open>*addr\<close>, \<^verbatim>\<open>*nport\<close> and the string hold afterwards. On a bad
  address the port is already stored, and the string stays cut at the colon.
\<close>

definition parse_ip_port :: "string \<Rightarrow> u32 \<Rightarrow> u16 \<Rightarrow> int \<times> u32 \<times> u16 \<times> string" where
  "parse_ip_port s addr nport =
     (let host = takeWhile (\<lambda>c. c \<noteq> CHR '':'') s;
          port = dropWhile (\<lambda>c. c \<noteq> CHR '':'') s;
          nport1 = (if port = [] then nport else htons (word_of_int (atoi (tl port))))
      in case str2ip host of
           None \<Rightarrow> (-1, addr, nport1, host)
         | Some ip \<Rightarrow> (0, ip, nport1, s))"

text \<open>\<^verbatim>\<open>printf(IPFMT, ipfmt(ip))\<close>.\<close>

definition ipfmt :: "u32 \<Rightarrow> string" where
  "ipfmt ip =
     print_d (unat (ip AND 0xff)) @ ''.'' @ print_d (unat (drop_bit 8 ip AND 0xff)) @ ''.'' @
     print_d (unat (drop_bit 16 ip AND 0xff)) @ ''.'' @ print_d (unat (drop_bit 24 ip AND 0xff))"

section \<open>Printing and reading numbers\<close>

lemma digits_value_snoc [simp]: "digits_value (ds @ [c]) = 10 * digits_value ds + (of_char c - 48)"
  by (simp add: digits_value_def)

lemma char_of_digit: "n < 10 \<Longrightarrow> (of_char (char_of (48 + n)) :: nat) = 48 + n"
  by (simp add: take_bit_nat_eq_self)

lemma print_d_facts: "digits_value (print_d n) = n" "\<forall>c\<in>set (print_d n). isdigit c" "print_d n \<noteq> []"
proof -
  have "digits_value (print_d n) = n \<and> (\<forall>c\<in>set (print_d n). isdigit c) \<and> print_d n \<noteq> []"
  proof (induction n rule: print_d.induct)
    case (1 n)
    have d: "isdigit (char_of (48 + k))" if "k < 10" for k :: nat
      using that char_of_digit [OF that] by (simp add: isdigit_def)
    show ?case
    proof (cases "n < 10")
      case True
      then show ?thesis using d char_of_digit by (subst (1 2 3) print_d.simps) (simp add: digits_value_def)
    next
      case False
      then show ?thesis using 1 d char_of_digit [of "n mod 10"] by (subst (1 2 3) print_d.simps) simp
    qed
  qed
  then show "digits_value (print_d n) = n" "\<forall>c\<in>set (print_d n). isdigit c" "print_d n \<noteq> []" by auto
qed

text \<open>No character is at once a digit and white space or a sign.\<close>

lemma digit_alone: "isdigit c \<Longrightarrow> \<not> isspace c \<and> c \<noteq> CHR ''+'' \<and> c \<noteq> CHR ''-'' \<and> c \<noteq> CHR '':'' \<and> c \<noteq> CHR ''.''"
  by (auto simp: isdigit_def isspace_def)

lemma subject_print_d:
  assumes "rest = [] \<or> \<not> isdigit (hd rest)"
  shows "subject (print_d n @ rest) = Some (False, print_d n, rest)"
proof -
  obtain c cs where c: "print_d n = c # cs" "isdigit c" using print_d_facts(2,3) [of n] by (metis list.set_intros(1) neq_Nil_conv)
  have "takeWhile isdigit (print_d n @ rest) = print_d n" "dropWhile isdigit (print_d n @ rest) = rest"
    using assms print_d_facts(2) [of n] by (cases rest; simp add: takeWhile_append2 dropWhile_append2)+
  moreover have "dropWhile isspace (print_d n @ rest) = print_d n @ rest" using c digit_alone [of c] by simp
  ultimately show ?thesis using c digit_alone [of c] by (simp add: subject_def Let_def)
qed

lemma scan_u_print_d:
  assumes "rest = [] \<or> \<not> isdigit (hd rest)" "n < 2 ^ 32"
  shows "scan_u (print_d n @ rest) = Some (of_nat n, rest)"
proof -
  have "ucast (of_nat n :: u64) = (of_nat n :: u32)"
    using assms(2) by (simp add: unsigned_of_nat take_bit_nat_eq_self)
  then show ?thesis using assms(2) by (simp add: scan_u_def subject_print_d [OF assms(1)] print_d_facts(1))
qed

lemma atoi_print_d: "n < 2 ^ 31 \<Longrightarrow> atoi (print_d n) = int n"
  using subject_print_d [of "[]" n]
  by (simp add: atoi_def print_d_facts(1) signed_of_nat signed_take_bit_int_eq_self min_def)

lemma byte_parts:
  fixes ip :: u32
  shows "unat (drop_bit k ip AND 0xff) < 256"
    "(ip AND 0xff) OR push_bit 8 (drop_bit 8 ip AND 0xff) OR push_bit 16 (drop_bit 16 ip AND 0xff) OR
     push_bit 24 (drop_bit 24 ip AND 0xff) = ip"
proof -
  have m: "(0xff :: u32) = mask 8" by (simp add: mask_eq_exp_minus_1)
  show "unat (drop_bit k ip AND 0xff) < 256"
    using take_bit_nat_less_exp [of 8 "unat (drop_bit k ip)"] by (simp add: m unsigned_take_bit_eq flip: take_bit_eq_mask)
  show "(ip AND 0xff) OR push_bit 8 (drop_bit 8 ip AND 0xff) OR push_bit 16 (drop_bit 16 ip AND 0xff) OR
     push_bit 24 (drop_bit 24 ip AND 0xff) = ip"
    unfolding m
  proof (rule bit_word_eqI)
    fix n :: nat
    assume "n < LENGTH(32)"
    then consider "n < 8" | "8 \<le> n" "n < 16" | "16 \<le> n" "n < 24" | "24 \<le> n" "n < 32" by fastforce
    then show "bit ((ip AND mask 8) OR push_bit 8 (drop_bit 8 ip AND mask 8) OR push_bit 16 (drop_bit 16 ip AND mask 8) OR
        push_bit 24 (drop_bit 24 ip AND mask 8)) n = bit ip n"
      by cases (auto simp: bit_simps)
  qed
qed

lemma not_digit_dot [simp]: "\<not> isdigit CHR ''.''" "\<not> isdigit CHR '':''"
  by (simp_all add: isdigit_def)

lemma str2ip_ipfmt: "str2ip (ipfmt ip) = Some ip"
proof -
  have n: "unat (drop_bit k ip AND 0xff) < 2 ^ 32" for k using byte_parts(1) [of k ip] by simp
  then have n0: "unat (ip AND 0xff) < 2 ^ 32" using n [of 0] by simp
  have le: "drop_bit k ip AND 0xff \<le> 255" for k using byte_parts(1) [of k ip] by (simp add: word_le_nat_alt)
  then have le0: "ip AND 0xff \<le> 255" using le [of 0] by simp
  have "scan_quad (ipfmt ip) = Some (ip AND 0xff, drop_bit 8 ip AND 0xff, drop_bit 16 ip AND 0xff, drop_bit 24 ip AND 0xff)"
    using scan_u_print_d [OF _ n, of "[]"] by (simp add: scan_quad_def ipfmt_def scan_dot_def scan_u_print_d [OF _ n] scan_u_print_d [OF _ n0])
  then show ?thesis using byte_parts(2) [of ip] le le0 by (simp add: str2ip_def not_less [symmetric])
qed

lemma ipfmt_no_colon: "CHR '':'' \<notin> set (ipfmt ip)"
  using print_d_facts(2) digit_alone by (fastforce simp: ipfmt_def)

text \<open>Addresses and ports are read as they are printed. \<^verbatim>\<open>str2ip\<close> gives back every address printed in the
  format \<^verbatim>\<open>IPFMT\<close>, and \<^verbatim>\<open>parse_ip_port\<close> the address and, in network order, the port behind the colon, with
  the string restored; without a colon the port stays as it was.
\<close>

theorem address_roundtrip:
  "str2ip (ipfmt ip) = Some ip \<and>
   parse_ip_port (ipfmt ip @ '':'' @ print_d (unat (p :: u16))) addr nport
     = (0, ip, htons p, ipfmt ip @ '':'' @ print_d (unat p)) \<and>
   parse_ip_port (ipfmt ip) addr nport = (0, ip, nport, ipfmt ip)"
proof -
  let ?t = "'':'' @ print_d (unat p)" and ?P = "\<lambda>c. c \<noteq> CHR '':''"
  have c: "\<forall>c\<in>set (ipfmt ip). ?P c" using ipfmt_no_colon by blast
  have w: "takeWhile ?P (ipfmt ip @ ?t) = ipfmt ip" "dropWhile ?P (ipfmt ip @ ?t) = ?t"
    using c by (simp_all add: takeWhile_append2 dropWhile_append2)
  have w2: "takeWhile ?P (ipfmt ip) = ipfmt ip" "dropWhile ?P (ipfmt ip) = []"
    using c by (simp_all only: takeWhile_eq_all_conv dropWhile_eq_Nil_conv)
  have "atoi (print_d (unat p)) = uint p"
  proof -
    have "unat p < 2 ^ 31" using unsigned_less [where ?'a = nat, of p] by simp
    then show ?thesis using atoi_print_d [of "unat p"] by simp
  qed
  then show ?thesis using w by (simp add: parse_ip_port_def Let_def str2ip_ipfmt w2)
qed

end
