(* ===== verification/Ping.thy ===== *)
theory Ping
  imports Inet Lib
begin

text \<open>
  The two ping programs: \<^verbatim>\<open>tapip/app/ping.c\<close>, on a raw socket, and \<^verbatim>\<open>tapip/shell/ping_command.c\<close>, inside the
  stack. The static variables of each are a record that is passed along with the state of the
  stack. What \<^verbatim>\<open>getopt\<close> returns is an argument: the options with their values, in order, and the
  operands. The signal \<^verbatim>\<open>SIGALRM\<close> is a call of \<open>ping_sigalrm\<close>, which says whether the alarm is set
  again. The program blocks in \<^verbatim>\<open>_recv\<close>; \<open>ping_recv_loop\<close> runs up to that point. What is printed is
  left out, but for the loss of \<^verbatim>\<open>ping_stat\<close>.
\<close>

section \<open>ping.c\<close>

record ping_vars =
  ping_id :: u16
  ping_seq :: u16
  ping_size :: int
  ping_count :: int
  ping_recv :: int
  psend :: int
  precv :: int
  ping_finite :: bool
  ping_ttl :: int
  ping_ipaddr :: u32
  ping_sock :: "nat option"
  ping_skaddr :: sock_addr
  ping_buf :: "octets option"

definition no_addr :: sock_addr where
  "no_addr = \<lparr>src_addr = 0, dst_addr = 0, src_port = 0, dst_port = 0\<rparr>"

definition ping_init_options :: "ping_vars \<Rightarrow> ping_vars" where
  "ping_init_options v =
     v\<lparr>ping_buf := None, ping_sock := None, ping_size := 56, ping_finite := False, ping_recv := 0,
       ping_count := 0, ping_ttl := 64, ping_ipaddr := 0, ping_seq := 0, psend := 0, precv := 0,
       ping_skaddr := no_addr, ping_id := ping_id v + 1\<rparr>"

text \<open>The loop over the options; \<^verbatim>\<open>-h\<close> and unknown options give \<^verbatim>\<open>-1\<close>.\<close>

fun ping_options :: "(char \<times> string) list \<Rightarrow> ping_vars \<Rightarrow> int \<times> ping_vars" where
  "ping_options [] v = (0, v)"
| "ping_options ((c, optarg) # opts) v =
     (if c = CHR ''s'' then ping_options opts (v\<lparr>ping_size := atoi optarg\<rparr>)
      else if c = CHR ''c''
      then ping_options opts (v\<lparr>ping_recv := atoi optarg, ping_count := atoi optarg, ping_finite := True\<rparr>)
      else if c = CHR ''t'' then ping_options opts (v\<lparr>ping_ttl := atoi optarg\<rparr>)
      else (-1, v))"

definition ping_parse_args :: "(char \<times> string) list \<Rightarrow> string list \<Rightarrow> ping_vars \<Rightarrow> int \<times> ping_vars" where
  "ping_parse_args opts operands v =
     (if opts = [] \<and> operands = [] then (-1, v)
      else
        (case ping_options opts v of
           (err, v1) \<Rightarrow>
             if err < 0 then (-1, v1)
             else if ping_size v1 < 0 \<or> ping_size v1 > 65507 then (-2, v1)
             else if ping_ttl v1 < 0 \<or> ping_ttl v1 > 255 then (-2, v1)
             else if length operands \<noteq> 1 then (-1, v1)
             else (case str2ip (hd operands) of
                     None \<Rightarrow> (-2, v1)
                   | Some ip \<Rightarrow> (0, v1\<lparr>ping_ipaddr := ip\<rparr>))))"

definition ping_close_socket :: "'a stack_xmit \<Rightarrow> ping_vars \<times> 'a stack_scheme \<Rightarrow> ping_vars \<times> 'a stack_scheme" where
  "ping_close_socket xmit st =
     (case ping_sock (fst st) of
        None \<Rightarrow> st
      | Some s \<Rightarrow> ((fst st)\<lparr>ping_sock := None\<rparr>, close_call xmit s (snd st)))"

text \<open>
  The message of \<^verbatim>\<open>send_packet\<close>, written over the buffer \<open>b\<close> of \<^verbatim>\<open>ICMP_HRD_SZ + size\<close> octets. Every octet is
  written before the checksum reads it.
\<close>

definition echo_octets :: "u16 \<Rightarrow> u16 \<Rightarrow> nat \<Rightarrow> octets \<Rightarrow> octets" where
  "echo_octets ident seq sz b =
     (let b1 = memcpy_at ICMP_HRD_SZ (replicate sz 0x78) b;
          b2 = wr8 1 0 (wr8 0 ICMP_T_ECHOREQ b1);
          b3 = wr16 4 (htons ident) b2;
          b4 = wr16 6 (htons seq) b3;
          b5 = wr16 2 0 b4
      in wr16 2 (icmp_chksum b5) b5)"

definition ping_send_packet ::
  "'a stack_xmit \<Rightarrow> sock_addr \<Rightarrow> ping_vars \<times> 'a stack_scheme \<Rightarrow> ping_vars \<times> 'a stack_scheme" where
  "ping_send_packet xmit junk st =
     (let v = fst st; len = ICMP_HRD_SZ + nat (ping_size v);
          b = (case ping_buf v of None \<Rightarrow> replicate len 0 | Some b \<Rightarrow> b);
          b1 = echo_octets (ping_id v) (ping_seq v) (nat (ping_size v)) b;
          v1 = v\<lparr>ping_buf := Some b1, ping_seq := ping_seq v + 1, psend := psend v + 1\<rparr>
      in (v1, case ping_sock v of
                None \<Rightarrow> snd st
              | Some s \<Rightarrow> snd (send_call xmit junk s b1 (int len) (ping_skaddr v) (snd st))))"

definition ping_sigalrm ::
  "'a stack_xmit \<Rightarrow> sock_addr \<Rightarrow> ping_vars \<times> 'a stack_scheme \<Rightarrow> bool \<times> ping_vars \<times> 'a stack_scheme" where
  "ping_sigalrm xmit junk st =
     (let (v, w) = ping_send_packet xmit junk st in
      if \<not> ping_finite v then (True, v, w)
      else
        (let v1 = v\<lparr>ping_count := ping_count v - 1\<rparr> in
         if ping_count v1 > 0 then (True, v1, w)
         else if ping_count v1 = 0 then (True, v1\<lparr>ping_count := ping_count v1 - 1\<rparr>, w)
         else (False, ping_close_socket xmit (v1, w))))"

text \<open>The percentage \<^verbatim>\<open>ping_stat\<close> prints; the division of C rounds towards zero.\<close>

definition ping_loss :: "ping_vars \<Rightarrow> int" where
  "ping_loss v =
     (let n = (psend v - precv v) * 100 in if n < 0 then - (- n div psend v) else n div psend v)"

definition ping_sigint :: "'a stack_xmit \<Rightarrow> ping_vars \<times> 'a stack_scheme \<Rightarrow> ping_vars \<times> 'a stack_scheme" where
  "ping_sigint xmit st = ping_close_socket xmit st"

text \<open>The test of \<^verbatim>\<open>recv_packet\<close>, and the body of its loop for a packet.\<close>

definition own_reply :: "u16 \<Rightarrow> octets \<Rightarrow> bool" where
  "own_reply ident b \<longleftrightarrow>
     ip_pro b = IP_P_ICMP \<and> ntohs (rd16 b (ipdata_off b + 4)) = ident \<and>
     icmp_type (ipdata_off b) b = ICMP_T_ECHORLY"

definition ping_packet :: "pkbuf \<Rightarrow> ping_vars \<times> 'a stack_scheme \<Rightarrow> ping_vars \<times> 'a stack_scheme" where
  "ping_packet pkb st =
     (let v = fst st
      in (if own_reply (ping_id v) (pk_data pkb)
          then v\<lparr>ping_recv := ping_recv v - 1, precv := precv v + 1\<rparr> else v,
          free_pkb pkb (snd st)))"

text \<open>
  The loop of \<^verbatim>\<open>recv_packet\<close>; \<open>Sleeping\<close> is the thread in \<^verbatim>\<open>_recv\<close>, \<open>Return\<close> the end of the loop. The
  number bounds the packets taken; \<open>None\<close> means that it was too small.
\<close>

fun ping_recv_loop ::
  "nat \<Rightarrow> 'a stack_xmit \<Rightarrow> ping_vars \<times> 'a stack_scheme \<Rightarrow> (unit outcome \<times> ping_vars \<times> 'a stack_scheme) option" where
  "ping_recv_loop 0 xmit st = None"
| "ping_recv_loop (Suc n) xmit st =
     (if ping_finite (fst st) \<and> ping_recv (fst st) \<le> 0 then Some (Return (), st)
      else
        (case ping_sock (fst st) of
           None \<Rightarrow> Some (Return (), st)
         | Some s \<Rightarrow>
             (case recv_call xmit s (snd st) of
                (Sleeping, w) \<Rightarrow> Some (Sleeping, fst st, w)
              | (Return None, w) \<Rightarrow> Some (Return (), fst st, w)
              | (Return (Some pkb), w) \<Rightarrow> ping_recv_loop n xmit (ping_packet pkb (fst st, w)))))"

text \<open>\<^verbatim>\<open>ping\<close> up to \<^verbatim>\<open>recv_packet\<close>, \<open>None\<close> when the arguments are refused, and what follows it.\<close>

definition ping_start ::
  "'a stack_xmit \<Rightarrow> sock_addr \<Rightarrow> (char \<times> string) list \<Rightarrow> string list \<Rightarrow> ping_vars \<times> 'a stack_scheme \<Rightarrow>
     (bool \<times> ping_vars \<times> 'a stack_scheme) option" where
  "ping_start xmit junk opts operands st =
     (case ping_parse_args opts operands (ping_init_options (fst st)) of
        (err, v) \<Rightarrow>
          if err < 0 then None
          else
            (let v1 = v\<lparr>ping_skaddr := (ping_skaddr v)\<lparr>dst_addr := ping_ipaddr v\<rparr>\<rparr>;
                 (s, w) = socket_call xmit True (Some SOCK_RAW) (uint IP_P_ICMP) (snd st)
             in Some (ping_sigalrm xmit junk (v1\<lparr>ping_sock := s\<rparr>, w))))"

definition ping_end :: "'a stack_xmit \<Rightarrow> ping_vars \<times> 'a stack_scheme \<Rightarrow> int \<times> ping_vars \<times> 'a stack_scheme" where
  "ping_end xmit st =
     (let (v, w) = ping_close_socket xmit st in (ping_loss v, v\<lparr>ping_buf := None\<rparr>, w))"

section \<open>ping\_command.c\<close>

record ping2_vars =
  ping2_id :: u16
  ping2_seq :: u16
  ping2_size :: int
  ping2_count :: int
  ping2_finite :: bool
  ping2_ttl :: int
  ping2_ipaddr :: u32

fun ping2_options :: "(char \<times> string) list \<Rightarrow> ping2_vars \<Rightarrow> int \<times> ping2_vars" where
  "ping2_options [] v = (0, v)"
| "ping2_options ((c, optarg) # opts) v =
     (if c = CHR ''s'' then ping2_options opts (v\<lparr>ping2_size := atoi optarg\<rparr>)
      else if c = CHR ''c'' then ping2_options opts (v\<lparr>ping2_count := atoi optarg, ping2_finite := True\<rparr>)
      else if c = CHR ''t'' then ping2_options opts (v\<lparr>ping2_ttl := atoi optarg\<rparr>)
      else (-1, v))"

definition ping2_parse_args :: "(char \<times> string) list \<Rightarrow> string list \<Rightarrow> ping2_vars \<Rightarrow> int \<times> ping2_vars" where
  "ping2_parse_args opts operands v =
     (if opts = [] \<and> operands = [] then (-1, v)
      else
        (let v0 = v\<lparr>ping2_size := 56, ping2_finite := False, ping2_count := 0, ping2_ttl := 64,
                    ping2_ipaddr := 0, ping2_id := ping2_id v + 1, ping2_seq := 0\<rparr> in
         case ping2_options opts v0 of
           (err, v1) \<Rightarrow>
             if err < 0 then (-1, v1)
             else if ping2_size v1 < 0 \<or> ping2_size v1 > 65507 then (-2, v1)
             else if ping2_ttl v1 < 0 \<or> ping2_ttl v1 > 255 then (-2, v1)
             else if length operands \<noteq> 1 then (-1, v1)
             else (case str2ip (hd operands) of
                     None \<Rightarrow> (-2, v1)
                   | Some ip \<Rightarrow> (0, v1\<lparr>ping2_ipaddr := ip\<rparr>))))"

definition ping2_send_packet :: "'a xmit_fn \<Rightarrow> ping2_vars \<times> 'a net_scheme \<Rightarrow> ping2_vars \<times> 'a net_scheme" where
  "ping2_send_packet xmit st =
     (let v = fst st; sz = nat (ping2_size v);
          (pkb, w) = alloc_pkb (ETH_HRD_SZ + IP_HRD_SZ + ICMP_HRD_SZ + sz) (snd st);
          h = ETH_HRD_SZ + IP_HRD_SZ;
          seq = ping2_seq v + 1;
          b1 = memcpy_at h (echo_octets (ping2_id v) seq sz (sub_octets (pk_data pkb) h (ICMP_HRD_SZ + sz))) (pk_data pkb)
      in (v\<lparr>ping2_seq := seq\<rparr>,
          ip_send_info xmit (pkb\<lparr>pk_data := b1\<rparr>) 0 (of_nat (IP_HRD_SZ + ICMP_HRD_SZ + sz))
            (word_of_int (ping2_ttl v)) IP_P_ICMP (ping2_ipaddr v) w))"

text \<open>\<^verbatim>\<open>sigalrm\<close> up to its wait for a signal: whether the alarm is set again.\<close>

definition ping2_sigalrm :: "'a xmit_fn \<Rightarrow> ping2_vars \<times> 'a net_scheme \<Rightarrow> bool \<times> ping2_vars \<times> 'a net_scheme" where
  "ping2_sigalrm xmit st =
     (let v = fst st in
      if \<not> ping2_finite v \<or> ping2_count v > 0
      then (True, ping2_send_packet xmit (v\<lparr>ping2_count := ping2_count v - 1\<rparr>, snd st))
      else (False, st))"

section \<open>The request and its reply\<close>

lemma echo_octets_eq:
  assumes "length b = 8 + sz"
  shows "\<exists>d. length d = 8 + sz \<and> rd8 d 0 = 8 \<and> rd8 d 1 = 0 \<and> rd16 d 2 = 0 \<and> rd16 d 4 = htons ident \<and> rd16 d 6 = htons sq \<and>
    drop 8 d = replicate sz 0x78 \<and> echo_octets ident sq sz b = wr16 2 (checksum d 0) d"
proof (intro exI conjI)
  let ?b1 = "memcpy_at 8 (replicate sz 0x78) b"
  let ?d = "wr16 2 0 (wr16 6 (htons sq) (wr16 4 (htons ident) (wr8 1 0 (wr8 0 8 ?b1))))"
  have b1: "length ?b1 = 8 + sz" "drop 8 ?b1 = replicate sz 0x78" using assms by (simp_all add: memcpy_at_def)
  show "length ?d = 8 + sz" using b1 by simp
  show "rd8 ?d 0 = 8" "rd8 ?d 1 = 0" "rd16 ?d 2 = 0" "rd16 ?d 4 = htons ident" "rd16 ?d 6 = htons sq"
    using b1 by (simp_all add: octet_simps)
  show "drop 8 ?d = replicate sz 0x78" using b1(2) by (simp add: wr16_def wr8_def)
  show "echo_octets ident sq sz b = wr16 2 (checksum ?d 0) ?d"
    by (simp add: echo_octets_def Let_def icmp_chksum_def)
qed

lemma htons_zero: "htons x = 0 \<longleftrightarrow> x = 0"
proof -
  have "htons 0 = 0" by (simp add: htons_def)
  then show ?thesis by (metis htons_htons)
qed

lemma mk16_zero: "mk16 0 0 = 0"
  by (simp add: mk16_def)

text \<open>The message verifies, and unless identifier, sequence number and size are all zero some octet of it behind the checksum is not.\<close>

lemma echo_octets_facts:
  fixes ident sq :: u16
  assumes "length b = 8 + sz" "sz \<le> 65507"
  defines "e \<equiv> echo_octets ident sq sz b"
  shows "length e = 8 + sz" "icmp_chksum e = 0" "rd8 e 0 = 8" "rd8 e 1 = 0" "rd16 e 4 = htons ident" "rd16 e 6 = htons sq"
    "drop 8 e = replicate sz 0x78"
    and "ident \<noteq> 0 \<or> sq \<noteq> 0 \<or> 0 < sz \<Longrightarrow> \<exists>k. 4 \<le> k \<and> k < 8 + sz \<and> rd8 e k \<noteq> 0"
proof -
  obtain d where d: "length d = 8 + sz" "rd8 d 0 = 8" "rd8 d 1 = 0" "rd16 d 2 = 0" "rd16 d 4 = htons ident" "rd16 d 6 = htons sq"
    "drop 8 d = replicate sz 0x78" "e = wr16 2 (checksum d 0) d"
    using echo_octets_eq [OF assms(1), of ident sq] by (auto simp: e_def)
  have "short_sum d + 65535 < 2 ^ 32" using short_sum_bound [of d] d(1) assms(2) by simp
  then show "icmp_chksum e = 0" using checksum_verifies [of 2 d 0] d(1,4) by (simp add: icmp_chksum_def d(8))
  show "length e = 8 + sz" "rd8 e 0 = 8" "rd8 e 1 = 0" and e4: "rd16 e 4 = htons ident" and e6: "rd16 e 6 = htons sq"
    using d by (simp_all add: octet_simps)
  show e8: "drop 8 e = replicate sz 0x78" using d(7) by (simp add: d(8) wr16_def wr8_def)
  show "\<exists>k. 4 \<le> k \<and> k < 8 + sz \<and> rd8 e k \<noteq> 0" if "ident \<noteq> 0 \<or> sq \<noteq> 0 \<or> 0 < sz"
  proof (rule ccontr)
    assume "\<not> ?thesis"
    then have z: "rd8 e k = 0" if "4 \<le> k" "k < 8 + sz" for k using that by blast
    then have "rd16 e 4 = 0" "rd16 e 6 = 0" using z [of 4] z [of 5] z [of 6] z [of 7] by (simp_all add: rd16_def mk16_zero)
    then have "0 < sz" using that e4 e6 by (simp add: htons_zero)
    then have "e ! 8 = 0x78" "8 < length e" using e8 nth_drop [of 8 e 0] d by simp_all
    then show False using z [of 8] \<open>0 < sz\<close> by (simp add: rd8_def)
  qed
qed

lemma rd8_sub: "\<lbrakk>k < n; off + n \<le> length b\<rbrakk> \<Longrightarrow> rd8 (sub_octets b off n) k = rd8 b (off + k)"
  by (simp add: rd8_def sub_octets_def)

lemma echo_reply_header:
  assumes "20 \<le> iphlen b" "ipdata_off b + 8 \<le> length b"
  defines "r \<equiv> ip_ntoh (echo_reply_octets b)"
  shows "ipdata_off r = ipdata_off b" "ip_pro r = ip_pro b" "ip_dst r = ip_src b" "ip_src r = ip_src b" "length r = length b"
    "sub_octets r (ipdata_off b) n = sub_octets (echo_reply_octets b) (ipdata_off b) n"
  using assms
  by (simp_all add: echo_reply_octets_def Let_def ip_ntoh_def ip_field_defs set_ip_field_defs octet_simps sub_octets_wr_below)

text \<open>C25. The echo request of \<^verbatim>\<open>ping\<close> is answered and the answer is recognised. When the message that \<^verbatim>\<open>send_packet\<close>
  builds arrives in an IP packet, \<^verbatim>\<open>icmp_in\<close> accepts it and sends the reply back to its source; the
  reply verifies, and \<^verbatim>\<open>recv_packet\<close> counts it as its own, with the sequence number and the data of
  the request. Identifier, sequence number and size must not all be zero.
\<close>

theorem ping_answered:
  assumes "20 \<le> iphlen b" "ip_pro b = IP_P_ICMP" "length b = ipdata_off b + (8 + sz)" "ipdlen b = 8 + int sz" "sz \<le> 65507"
    and "sub_octets b (ipdata_off b) (8 + sz) = echo_octets ident sq sz buf" "length buf = 8 + sz"
    and "ident \<noteq> 0 \<or> sq \<noteq> 0 \<or> 0 < sz" "pk_data pkb = b"
  shows "let r = echo_reply_octets b; i = ipdata_off b in
    icmp_in xmit pkb w = ip_send_out xmit (pkb\<lparr>pk_data := r, pk_rtdst := None, pk_indev := None, pk_type := PKT_NONE\<rparr>) w \<and>
    ip_dst (ip_ntoh r) = ip_src b \<and> icmp_chksum (sub_octets r i (8 + sz)) = 0 \<and>
    own_reply ident (ip_ntoh r) \<and> ntohs (rd16 (ip_ntoh r) (i + 6)) = sq \<and> sub_octets (ip_ntoh r) (i + 8) sz = replicate sz 0x78"
proof -
  let ?e = "echo_octets ident sq sz buf" and ?i = "ipdata_off b"
  let ?r = "echo_reply_octets b"
  note e = echo_octets_facts [OF assms(7,5), of ident sq]
  have at: "rd8 b (?i + k) = rd8 ?e k" if "k < 8 + sz" for k using rd8_sub [OF that, of ?i b] assms(3,6) by simp
  have type: "icmp_type ?i b = ICMP_T_ECHOREQ" "icmp_code ?i b = 0"
    using at [of 0] at [of 1] e(3,4) by (simp_all add: icmp_type_def icmp_code_def)
  obtain k where k: "4 \<le> k" "k < 8 + sz" "rd8 b (?i + k) \<noteq> 0" using e(8) [OF assms(8)] at by auto
  have ck: "icmp_chksum (sub_octets ?r ?i (8 + sz)) = 0"
    using echo_reply_checks [of b "8 + sz" k] assms(1,3,5,6) type e(2) k by simp
  have h: "desc_handler (icmp_table ! unat ICMP_T_ECHOREQ) = H_ECHO_REQUEST" by (simp add: icmp_table_def Let_def)
  have "icmp_in xmit pkb w = icmp_echo_request xmit pkb w"
    using assms(4,6,9) type e(2) h by (simp add: icmp_in_def Let_def sz_less_def nat_add_distrib run_handler_def)
  then have inn: "icmp_in xmit pkb w = ip_send_out xmit (pkb\<lparr>pk_data := ?r, pk_rtdst := None, pk_indev := None, pk_type := PKT_NONE\<rparr>) w"
    using type(2) assms(9) by (simp add: icmp_echo_request_def Let_def)
  define c where "c = (let ck = icmp_cksum ?i b in if ck \<ge> 0xffff - 8 then ck + 9 else ck + 8)"
  have reg: "sub_octets (ip_ntoh ?r) ?i (8 + sz) = wr16 2 c (wr16 0 0 ?e)"
    using echo_reply_region [of b "8 + sz"] echo_reply_header(6) [of b "8 + sz"] assms(1,3,6) type(2) by (simp add: c_def)
  have hd: "ipdata_off (ip_ntoh ?r) = ?i" "ip_pro (ip_ntoh ?r) = IP_P_ICMP" "ip_dst (ip_ntoh ?r) = ip_src b" "length (ip_ntoh ?r) = length b"
    using echo_reply_header(1-5) [of b] assms(1-3) by simp_all
  have "rd16 (ip_ntoh ?r) (?i + j) = rd16 (wr16 2 c (wr16 0 0 ?e)) j" if "j + 1 < 8 + sz" for j
    using rd16_sub_octets [OF that, of ?i "ip_ntoh ?r"] hd(4) assms(3) reg by simp
  moreover have "rd8 (ip_ntoh ?r) ?i = rd8 (wr16 2 c (wr16 0 0 ?e)) 0"
    using rd8_sub [of 0 "8 + sz" ?i "ip_ntoh ?r"] hd(4) assms(3) reg by simp
  ultimately have own: "own_reply ident (ip_ntoh ?r)" and s: "ntohs (rd16 (ip_ntoh ?r) (?i + 6)) = sq"
    using hd(1,2) e(1,5,6) by (simp_all add: own_reply_def icmp_type_def octet_simps)
  have "sub_octets (ip_ntoh ?r) (?i + 8) sz = drop 8 (sub_octets (ip_ntoh ?r) ?i (8 + sz))"
    by (simp add: sub_octets_def drop_take add.commute)
  also have "\<dots> = replicate sz 0x78" unfolding reg using e(7) by (simp add: wr16_def wr8_def)
  finally show ?thesis using inn hd(3) ck own s by (simp add: Let_def)
qed

theorem ping_answered_witness:
  "let b = replicate 14 0 @ [0x45, 0, 29, 0, 0, 0, 0, 0, 64, 1, 0, 0, 10, 0, 0, 2, 10, 0, 0, 1] @ echo_octets 1 0 1 (replicate 9 0)
   in own_reply 1 (ip_ntoh (echo_reply_octets b)) \<and> ntohs (rd16 (ip_ntoh (echo_reply_octets b)) (ipdata_off b + 6)) = 0"
proof -
  let ?h = "replicate 14 0 @ [0x45, 0, 29, 0, 0, 0, 0, 0, 64, 1, 0, 0, 10, 0, 0, 2, 10, 0, 0, 1] :: octets"
  let ?b = "?h @ echo_octets 1 0 1 (replicate 9 0)"
  have "iphlen ?b = 20" "ip_pro ?b = IP_P_ICMP" "length ?b = ipdata_off ?b + (8 + 1)" "ipdlen ?b = 8 + int 1"
    "sub_octets ?b (ipdata_off ?b) (8 + 1) = echo_octets 1 0 1 (replicate 9 0)" by code_simp+
  then show ?thesis
    using ping_answered [of ?b 1 1 0 "replicate 9 0" "(fst (alloc_pkb 0 bss))\<lparr>pk_data := ?b\<rparr>" "\<lambda>_ _ w. w" bss]
    by (simp add: Let_def)
qed

section \<open>The number of requests\<close>

text \<open>The alarm goes off up to \<open>k\<close> times, as long as it is set.\<close>

fun alarms ::
  "nat \<Rightarrow> 'a stack_xmit \<Rightarrow> sock_addr \<Rightarrow> ping_vars \<times> 'a stack_scheme \<Rightarrow> bool \<times> ping_vars \<times> 'a stack_scheme" where
  "alarms 0 xmit junk st = (True, st)"
| "alarms (Suc k) xmit junk st =
     (case ping_sigalrm xmit junk st of (armed, st1) \<Rightarrow> if armed then alarms k xmit junk st1 else (False, st1))"

lemma send_packet_vars:
  "fst (ping_send_packet xmit junk st) =
     (fst st)\<lparr>ping_buf := ping_buf (fst (ping_send_packet xmit junk st)), ping_seq := ping_seq (fst st) + 1, psend := psend (fst st) + 1\<rparr>"
  by (simp add: ping_send_packet_def Let_def)

lemma close_socket_vars: "fst (ping_close_socket xmit st) = (fst st)\<lparr>ping_sock := None\<rparr>"
  by (simp add: ping_close_socket_def split: option.splits)

lemma sigalrm_counts:
  assumes "ping_finite (fst st)" "ping_sigalrm xmit junk st = (armed, st1)"
  shows "armed \<longleftrightarrow> 1 \<le> ping_count (fst st)" "psend (fst st1) = psend (fst st) + 1" "ping_finite (fst st1)"
    "ping_count (fst st1) = (if ping_count (fst st) = 1 then -1 else ping_count (fst st) - 1)"
    "\<not> armed \<Longrightarrow> ping_sock (fst st1) = None"
proof -
  obtain v w where sp: "ping_send_packet xmit junk st = (v, w)" by force
  have v: "ping_finite v" "psend v = psend (fst st) + 1" "ping_count v = ping_count (fst st)"
    using arg_cong [OF send_packet_vars, of ping_finite xmit junk st] arg_cong [OF send_packet_vars, of psend xmit junk st]
      arg_cong [OF send_packet_vars, of ping_count xmit junk st] assms(1) by (simp_all add: sp)
  show "armed \<longleftrightarrow> 1 \<le> ping_count (fst st)" "psend (fst st1) = psend (fst st) + 1" "ping_finite (fst st1)"
    "ping_count (fst st1) = (if ping_count (fst st) = 1 then -1 else ping_count (fst st) - 1)"
    "\<not> armed \<Longrightarrow> ping_sock (fst st1) = None"
    using v assms(2) by (auto simp: ping_sigalrm_def sp Let_def close_socket_vars split: if_splits)
qed

lemma alarms_last:
  assumes "ping_finite (fst st)" "ping_count (fst st) = -1" "alarms (Suc k) xmit junk st = (armed, st1)"
  shows "\<not> armed" "psend (fst st1) = psend (fst st) + 1" "ping_sock (fst st1) = None"
proof -
  obtain a st' where a: "ping_sigalrm xmit junk st = (a, st')" by (rule prod.exhaust)
  note c = sigalrm_counts [OF assms(1) a]
  then show "\<not> armed" "psend (fst st1) = psend (fst st) + 1" "ping_sock (fst st1) = None"
    using assms(2,3) a by auto
qed

lemma alarms_count:
  assumes "ping_finite (fst st)" "ping_count (fst st) = int n" "0 < n" "alarms k xmit junk st = (armed, st1)"
  shows "(armed \<longleftrightarrow> k \<le> n) \<and> psend (fst st1) = psend (fst st) + int (min k (n + 1)) \<and> (n < k \<longrightarrow> ping_sock (fst st1) = None)"
  using assms
proof (induction k arbitrary: st n)
  case (Suc k)
  obtain a st' where a: "ping_sigalrm xmit junk st = (a, st')" by (rule prod.exhaust)
  note c = sigalrm_counts [OF Suc.prems(1) a]
  have run: "alarms k xmit junk st' = (armed, st1)" using Suc.prems a c(1) by simp
  show ?case
  proof (cases "n = 1")
    case True
    then have m1: "ping_count (fst st') = -1" using c(4) Suc.prems(2) by simp
    show ?thesis
    proof (cases k)
      case 0
      then show ?thesis using True run c(2) by auto
    next
      case (Suc j)
      then show ?thesis using True c(2) alarms_last [OF c(3) m1 run [unfolded Suc]] by simp
    qed
  next
    case False
    then have "ping_count (fst st') = int (n - 1)" "0 < n - 1" using c(4) Suc.prems(2,3) by auto
    from Suc.IH [OF c(3) this run] show ?thesis using c(2) Suc.prems(3) by auto
  qed
qed simp

text \<open>\<^verbatim>\<open>ping -c n\<close> may send one request too many. However often the alarm goes off, it stays set for exactly
  \<open>n\<close> calls of \<^verbatim>\<open>sigalrm\<close>, each of which sends a request; the call after them sends one more before it closes
  the socket. Only \<open>n\<close> replies in time prevent it.
\<close>

theorem ping_requests_sent:
  assumes "ping_finite v" "ping_count v = int n" "0 < n" "psend v = 0"
  shows "(k \<le> n \<longrightarrow> fst (alarms k xmit junk (v, w)) \<and> psend (fst (snd (alarms k xmit junk (v, w)))) = int k) \<and>
    (n < k \<longrightarrow> \<not> fst (alarms k xmit junk (v, w)) \<and> psend (fst (snd (alarms k xmit junk (v, w)))) = int n + 1 \<and>
       ping_sock (fst (snd (alarms k xmit junk (v, w)))) = None)"
proof -
  obtain armed st1 where a: "alarms k xmit junk (v, w) = (armed, st1)" by (rule prod.exhaust)
  show ?thesis using alarms_count [OF _ _ assms(3) a] assms by (auto simp: a)
qed

definition sample_ping :: ping_vars where
  "sample_ping = \<lparr>ping_id = 0, ping_seq = 0, ping_size = 0, ping_count = 0, ping_recv = 0, psend = 0, precv = 0,
     ping_finite = False, ping_ttl = 0, ping_ipaddr = 0, ping_sock = None, ping_skaddr = no_addr, ping_buf = None\<rparr>"

theorem ping_requests_sent_witness:
  "ping_parse_args [(CHR ''c'', ''3'')] [''10.0.0.2''] (ping_init_options sample_ping) =
     (0, (ping_init_options sample_ping)\<lparr>ping_count := 3, ping_recv := 3, ping_finite := True, ping_ipaddr := 0x0200000a\<rparr>) \<and>
   psend (fst (snd (alarms 4 (\<lambda>_ _ w. w) no_addr
     ((ping_init_options sample_ping)\<lparr>ping_count := 3, ping_recv := 3, ping_finite := True, ping_ipaddr := 0x0200000a\<rparr>, stack_bss)))) = 4"
proof -
  let ?v = "(ping_init_options sample_ping)\<lparr>ping_count := 3, ping_recv := 3, ping_finite := True, ping_ipaddr := 0x0200000a\<rparr>"
  have "ipfmt 0x0200000a = ''10.0.0.2''" "print_d 3 = ''3''" by (simp_all add: ipfmt_def print_d.simps char_of_def bit_0)
  then have "str2ip ''10.0.0.2'' = Some 0x0200000a" "atoi ''3'' = 3" using str2ip_ipfmt [of "0x0200000a"] atoi_print_d [of 3] by simp_all
  then have "ping_parse_args [(CHR ''c'', ''3'')] [''10.0.0.2''] (ping_init_options sample_ping) = (0, ?v)"
    by (simp add: ping_parse_args_def ping_init_options_def)
  moreover have "ping_finite ?v" "ping_count ?v = int 3" "psend ?v = 0" by (simp_all add: ping_init_options_def)
  ultimately show ?thesis using ping_requests_sent [of ?v 3 4 "\<lambda>_ _ w. w" no_addr stack_bss] by simp
qed

section \<open>Counting the replies\<close>

text \<open>\<^verbatim>\<open>ping\<close> counts its replies. \<^verbatim>\<open>recv_packet\<close> without a limit takes every packet that waits in the socket, counts
  exactly the echo replies with its identifier, and then waits for more; one round per packet
  and one more are enough.
\<close>

theorem ping_counts_replies:
  assumes "\<not> ping_finite v" "ping_sock v = Some s" "recv_ready s i q w"
  shows "\<exists>v' w'. ping_recv_loop (Suc (length q)) xmit (v, w) = Some (Sleeping, v', w') \<and>
    precv v' = precv v + int (length (filter (\<lambda>p. own_reply (ping_id v) (pk_data p)) q))"
  using assms
proof (induction q arbitrary: v w)
  case Nil
  then show ?case using recv_empty [of s i w xmit] by (auto simp: split_beta split: outcome.splits prod.splits)
next
  case (Cons p q)
  obtain w1 where w1: "recv_call xmit s w = (Return (Some p), w1)" "recv_ready s i q w1"
    using recv_queued [OF Cons.prems(3)] by blast
  obtain v2 where v2: "ping_packet p (v, w1) = (v2, free_pkb p w1)" "\<not> ping_finite v2" "ping_sock v2 = Some s" "ping_id v2 = ping_id v"
      "precv v2 = precv v + (if own_reply (ping_id v) (pk_data p) then 1 else 0)"
    using Cons.prems(1,2) by (simp add: ping_packet_def Let_def)
  have "ping_recv_loop (Suc n) xmit (v, w) = ping_recv_loop n xmit (v2, free_pkb p w1)" for n
    using Cons.prems(1,2) w1(1) v2(1) by simp
  from this [of "Suc (length q)"] show ?case
    using Cons.IH [OF v2(2,3) ready_free_pkb [OF w1(2), of p]] v2(4,5) by (auto simp: add.assoc simp del: ping_recv_loop.simps)
qed

theorem ping_counts_replies_witness:
  "let p = (fst (alloc_pkb 0 bss))\<lparr>pk_data := replicate 14 0 @ [0x45, 0, 28, 0, 0, 0, 0, 0, 64, 1] @ replicate 10 0 @ [0, 0, 0, 0, 0, 7, 0, 0]\<rparr>;
       w = stack_bss\<lparr>sockets := (\<lambda>_. empty_socket\<lparr>so_ops := True, so_sk := Some 0, so_refcnt := 1\<rparr>),
                     socks := (\<lambda>_. (zero_sock RAW_OPS)\<lparr>recv_queue := [p]\<rparr>)\<rparr>
   in \<exists>v' w'. ping_recv_loop 2 (\<lambda>_ _ w. w) (sample_ping\<lparr>ping_id := 7, ping_sock := Some 3\<rparr>, w) = Some (Sleeping, v', w') \<and> precv v' = 1"
proof -
  let ?b = "replicate 14 0 @ [0x45, 0, 28, 0, 0, 0, 0, 0, 64, 1] @ replicate 10 0 @ [0, 0, 0, 0, 0, 7, 0, 0] :: octets"
  let ?p = "(fst (alloc_pkb 0 bss))\<lparr>pk_data := ?b\<rparr>"
  let ?w = "stack_bss\<lparr>sockets := (\<lambda>_. empty_socket\<lparr>so_ops := True, so_sk := Some 0, so_refcnt := 1\<rparr>),
                     socks := (\<lambda>_. (zero_sock RAW_OPS)\<lparr>recv_queue := [?p]\<rparr>)\<rparr>"
  have "own_reply 7 ?b" by code_simp
  moreover have "recv_ready 3 0 [?p] ?w" by (simp add: recv_ready_def empty_socket_def wait_init_def zero_sock_def)
  ultimately show ?thesis
    using ping_counts_replies [of "sample_ping\<lparr>ping_id := 7, ping_sock := Some 3\<rparr>" 3 0 "[?p]" ?w "\<lambda>_ _ w. w"]
    unfolding Let_def by (simp add: sample_ping_def numeral_2_eq_2 del: ping_recv_loop.simps)
qed

end
