(* ===== verification/Snc.thy ===== *)
theory Snc
  imports Inet Lib
begin

text \<open>
  The netcat program \<^verbatim>\<open>tapip/app/snc.c\<close>. Its static variables are a record that is passed along with the
  state of the stack; what \<^verbatim>\<open>getopt\<close> returns and what is read from the terminal are arguments, and
  what is written to the terminal is part of the results. The program blocks in \<^verbatim>\<open>_connect\<close>, \<^verbatim>\<open>_accept\<close>,
  \<^verbatim>\<open>_read\<close> and \<^verbatim>\<open>_recv\<close>: the functions below run up to such a point or from there on. The debug output is
  left out.
\<close>

section \<open>Options\<close>

record snc_vars =
  snc_flags :: u32
  snc_sock :: "nat option"
  snc_csock :: "nat option"
  snc_skaddr :: sock_addr
  snc_type :: sock_type
  snc_interrupt :: bool

abbreviation (input) F_BIND :: u32 where "F_BIND \<equiv> 1"
abbreviation (input) F_CONNECT :: u32 where "F_CONNECT \<equiv> 2"
abbreviation (input) F_TCP :: u32 where "F_TCP \<equiv> 4"
abbreviation (input) F_UDP :: u32 where "F_UDP \<equiv> 8"
abbreviation (input) F_DEBUG :: u32 where "F_DEBUG \<equiv> 16"

definition snc_init_options :: "snc_vars \<Rightarrow> snc_vars" where
  "snc_init_options v =
     v\<lparr>snc_skaddr := \<lparr>src_addr = 0, dst_addr = 0, src_port = 0, dst_port = 0\<rparr>, snc_type := SOCK_STREAM,
       snc_flags := F_TCP, snc_csock := None, snc_sock := None, snc_interrupt := False\<rparr>"

text \<open>The body of the loop over the options: \<^verbatim>\<open>0\<close> goes on, anything else is returned.\<close>

definition snc_option :: "char \<Rightarrow> string \<Rightarrow> snc_vars \<Rightarrow> int \<times> snc_vars" where
  "snc_option c optarg v =
     (if c = CHR ''d'' then (0, v\<lparr>snc_flags := snc_flags v OR F_DEBUG\<rparr>)
      else if c = CHR ''b''
      then (case parse_ip_port optarg (src_addr (snc_skaddr v)) (src_port (snc_skaddr v)) of
              (err, a, p, _) \<Rightarrow>
                (if err < 0 then -2 else 0,
                 v\<lparr>snc_skaddr := (snc_skaddr v)\<lparr>src_addr := a, src_port := p\<rparr>, snc_flags := snc_flags v OR F_BIND\<rparr>))
      else if c = CHR ''c''
      then (case parse_ip_port optarg (dst_addr (snc_skaddr v)) (dst_port (snc_skaddr v)) of
              (err, a, p, _) \<Rightarrow>
                (if err < 0 then -2 else 0,
                 v\<lparr>snc_skaddr := (snc_skaddr v)\<lparr>dst_addr := a, dst_port := p\<rparr>, snc_flags := snc_flags v OR F_CONNECT\<rparr>))
      else if c = CHR ''u'' then (0, v\<lparr>snc_flags := (snc_flags v AND NOT F_TCP) OR F_UDP\<rparr>)
      else (-1, v))"

fun snc_options :: "(char \<times> string) list \<Rightarrow> snc_vars \<Rightarrow> int \<times> snc_vars" where
  "snc_options [] v = (0, v)"
| "snc_options ((c, optarg) # opts) v =
     (case snc_option c optarg v of (r, v1) \<Rightarrow> if r < 0 then (r, v1) else snc_options opts v1)"

definition snc_parse_args :: "(char \<times> string) list \<Rightarrow> string list \<Rightarrow> snc_vars \<Rightarrow> int \<times> snc_vars" where
  "snc_parse_args opts operands v =
     (case snc_options opts v of
        (r, v1) \<Rightarrow>
          if r < 0 then (r, v1)
          else if snc_flags v1 AND (F_BIND OR F_CONNECT) = F_BIND OR F_CONNECT then (-1, v1)
          else if snc_flags v1 AND (F_BIND OR F_CONNECT) = 0 then (-1, v1)
          else if operands \<noteq> [] then (-1, v1)
          else (0, if snc_flags v1 AND F_UDP \<noteq> 0 then v1\<lparr>snc_type := SOCK_DGRAM\<rparr> else v1))"

section \<open>Sockets\<close>

definition snc_create_socket :: "'a stack_xmit \<Rightarrow> snc_vars \<times> 'a stack_scheme \<Rightarrow> int \<times> snc_vars \<times> 'a stack_scheme" where
  "snc_create_socket xmit st =
     (let (s, w) = socket_call xmit True (Some (snc_type (fst st))) 0 (snd st)
      in (if s = None then -1 else 0, (fst st)\<lparr>snc_sock := s\<rparr>, w))"

definition close_opt :: "'a stack_xmit \<Rightarrow> nat option \<Rightarrow> 'a stack_scheme \<Rightarrow> 'a stack_scheme" where
  "close_opt xmit os w = (case os of None \<Rightarrow> w | Some s \<Rightarrow> close_call xmit s w)"

definition snc_close_socket :: "'a stack_xmit \<Rightarrow> snc_vars \<times> 'a stack_scheme \<Rightarrow> snc_vars \<times> 'a stack_scheme" where
  "snc_close_socket xmit st =
     (let v = fst st
      in (v\<lparr>snc_sock := None, snc_csock := None\<rparr>, close_opt xmit (snc_csock v) (close_opt xmit (snc_sock v) (snd st))))"

definition snc_sigint :: "'a stack_xmit \<Rightarrow> snc_vars \<times> 'a stack_scheme \<Rightarrow> snc_vars \<times> 'a stack_scheme" where
  "snc_sigint xmit st = snc_close_socket xmit ((fst st)\<lparr>snc_interrupt := True\<rparr>, snd st)"

text \<open>
  \<^verbatim>\<open>snc\<close> up to the sending or receiving part: \<open>None\<close> when the arguments are refused, otherwise whether
  the socket was made; \<open>sigact\<close> says whether \<^verbatim>\<open>sigaction\<close> succeeded.
\<close>

definition snc_start ::
  "'a stack_xmit \<Rightarrow> bool \<Rightarrow> (char \<times> string) list \<Rightarrow> string list \<Rightarrow> snc_vars \<times> 'a stack_scheme \<Rightarrow>
     (bool \<times> snc_vars \<times> 'a stack_scheme) option" where
  "snc_start xmit sigact opts operands st =
     (case snc_parse_args opts operands (snc_init_options (fst st)) of
        (err, v) \<Rightarrow>
          if err < 0 then None
          else if \<not> sigact then Some (False, snc_close_socket xmit (v, snd st))
          else (case snc_create_socket xmit (v, snd st) of
                  (r, st1) \<Rightarrow> Some (if r < 0 then (False, snc_close_socket xmit st1) else (True, st1))))"

section \<open>Sending\<close>

text \<open>
  The call of \<^verbatim>\<open>_connect\<close> in \<^verbatim>\<open>send_packet\<close>; the outer \<open>None\<close> is a port search that does not end. A socket closed
  by the interrupt is a null pointer, on which every call fails.
\<close>

definition snc_connect ::
  "'a stack_xmit \<Rightarrow> snc_vars \<times> 'a stack_scheme \<Rightarrow> (int outcome \<times> 'a stack_scheme) option" where
  "snc_connect xmit st =
     (if snc_flags (fst st) AND F_TCP \<noteq> 0
      then (case snc_sock (fst st) of
              None \<Rightarrow> Some (Return (-1), snd st)
            | Some s \<Rightarrow> connect_call xmit s (snc_skaddr (fst st)) (snd st))
      else Some (Return 0, snd st))"

text \<open>One block read from the terminal, at most 512 octets, is sent: \<open>True\<close> if the loop goes on.\<close>

definition snc_send_block ::
  "'a stack_xmit \<Rightarrow> sock_addr \<Rightarrow> octets \<Rightarrow> snc_vars \<times> 'a stack_scheme \<Rightarrow> bool \<times> 'a stack_scheme" where
  "snc_send_block xmit junk buf st =
     (let v = fst st; len = int (length buf) in
      if snc_interrupt v then (False, snd st)
      else if len \<le> 0 then (False, snd st)
      else
        (case snc_sock v of
           None \<Rightarrow> (False, snd st)
         | Some s \<Rightarrow>
             if snc_flags v AND F_UDP \<noteq> 0
             then (let (r, w) = send_call xmit junk s buf len (snc_skaddr v) (snd st) in (r = len, w))
             else (let (r, w) = write_call xmit junk s buf len (snd st) in (0 \<le> r, w))))"

text \<open>The loop on the blocks the terminal gives; \<open>True\<close> if it waits for another one.\<close>

fun snc_send_loop ::
  "'a stack_xmit \<Rightarrow> sock_addr \<Rightarrow> octets list \<Rightarrow> snc_vars \<times> 'a stack_scheme \<Rightarrow> bool \<times> 'a stack_scheme" where
  "snc_send_loop xmit junk [] st = (True, snd st)"
| "snc_send_loop xmit junk (buf # bufs) st =
     (case snc_send_block xmit junk buf st of
        (go, w) \<Rightarrow> if go then snc_send_loop xmit junk bufs (fst st, w) else (False, w))"

section \<open>Receiving\<close>

definition snc_bind :: "'a stack_xmit \<Rightarrow> snc_vars \<times> 'a stack_scheme \<Rightarrow> (int \<times> 'a stack_scheme) option" where
  "snc_bind xmit st =
     (case snc_sock (fst st) of
        None \<Rightarrow> Some (-1, snd st)
      | Some s \<Rightarrow> bind_call xmit s (snc_skaddr (fst st)) (snd st))"

text \<open>\<^verbatim>\<open>recv_tcp_packet\<close> up to \<^verbatim>\<open>_accept\<close>: the connection and the peer's address, or that the thread sleeps.\<close>

definition snc_listen ::
  "'a stack_xmit \<Rightarrow> snc_vars \<times> 'a stack_scheme \<Rightarrow> (nat \<times> (u32 \<times> u16)) option outcome \<times> 'a stack_scheme" where
  "snc_listen xmit st =
     (case snc_sock (fst st) of
        None \<Rightarrow> (Return None, snd st)
      | Some s \<Rightarrow>
          (let (err, w) = listen_call xmit s 10 (snd st)
           in if err < 0 then (Return None, w) else accept_call xmit s w))"

text \<open>
  The loop around \<^verbatim>\<open>_read\<close>, with what is printed; \<open>Sleeping\<close> is the thread in \<^verbatim>\<open>_read\<close>. \<^verbatim>\<open>printf("%.*s")\<close> stops at
  a zero octet. The number bounds the rounds.
\<close>

definition printed :: "octets \<Rightarrow> octets" where
  "printed out = takeWhile (\<lambda>c. c \<noteq> 0) out"

fun snc_read_loop ::
  "nat \<Rightarrow> 'a stack_xmit \<Rightarrow> octets \<Rightarrow> snc_vars \<times> 'a stack_scheme \<Rightarrow> (unit outcome \<times> octets \<times> 'a stack_scheme) option" where
  "snc_read_loop 0 xmit out st = None"
| "snc_read_loop (Suc n) xmit out st =
     (case snc_csock (fst st) of
        None \<Rightarrow> Some (Return (), out, snd st)
      | Some s \<Rightarrow>
          (case read_call xmit s 512 (snd st) of
             (Waiting _ _, w) \<Rightarrow> Some (Sleeping, out, w)
           | (Received len buf, w) \<Rightarrow>
               if len > 0 then snc_read_loop n xmit (out @ printed buf) (fst st, w)
               else Some (Return (), out, w)))"

text \<open>
  The length \<^verbatim>\<open>recv_udp_packet\<close> computes, which is negative when the header claims less than its own
  size, and the data.
\<close>

definition udp_text_len :: "octets \<Rightarrow> int" where
  "udp_text_len b = int (unat (ntohs (udp_length (ipdata_off b) b))) - int UDP_HRD_SZ"

definition udp_text :: "octets \<Rightarrow> octets" where
  "udp_text b = sub_octets b (ipdata_off b + UDP_HRD_SZ) (nat (udp_text_len b))"

text \<open>
  Whether \<^verbatim>\<open>write(1, udphdr->data, len) == len\<close>; \<open>tty\<close> says whether the terminal takes all it is given. A
  negative length is a huge count, for which \<^verbatim>\<open>write\<close> fails with \<^verbatim>\<open>-1\<close>.
\<close>

definition text_written :: "(octets \<Rightarrow> bool) \<Rightarrow> octets \<Rightarrow> bool" where
  "text_written tty b = (if udp_text_len b < 0 then udp_text_len b = -1 else tty (udp_text b))"

fun snc_recv_loop ::
  "nat \<Rightarrow> 'a stack_xmit \<Rightarrow> (octets \<Rightarrow> bool) \<Rightarrow> octets \<Rightarrow> snc_vars \<times> 'a stack_scheme \<Rightarrow>
     (unit outcome \<times> octets \<times> 'a stack_scheme) option" where
  "snc_recv_loop 0 xmit tty out st = None"
| "snc_recv_loop (Suc n) xmit tty out st =
     (case snc_sock (fst st) of
        None \<Rightarrow> Some (Return (), out, snd st)
      | Some s \<Rightarrow>
          (case recv_call xmit s (snd st) of
             (Sleeping, w) \<Rightarrow> Some (Sleeping, out, w)
           | (Return None, w) \<Rightarrow> Some (Return (), out, w)
           | (Return (Some pkb), w) \<Rightarrow>
               if text_written tty (pk_data pkb)
               then snc_recv_loop n xmit tty (out @ udp_text (pk_data pkb)) (fst st, free_pkb pkb w)
               else Some (Return (), out, free_pkb pkb w)))"

section \<open>The modes\<close>

definition flags_inv :: "snc_vars \<Rightarrow> bool" where
  "flags_inv v \<longleftrightarrow> snc_type v = SOCK_STREAM \<and> bit (snc_flags v) 2 \<noteq> bit (snc_flags v) 3"

lemma flag_bits:
  fixes f :: u32
  shows "f AND 1 \<noteq> 0 \<longleftrightarrow> bit f 0" "f AND 2 \<noteq> 0 \<longleftrightarrow> bit f 1" "f AND 4 \<noteq> 0 \<longleftrightarrow> bit f 2" "f AND 8 \<noteq> 0 \<longleftrightarrow> bit f 3"
  using bit_iff_and_push_bit_not_eq_0 [of f 0] bit_iff_and_push_bit_not_eq_0 [of f 1] bit_iff_and_push_bit_not_eq_0 [of f 2]
    bit_iff_and_push_bit_not_eq_0 [of f 3] by (simp_all add: push_bit_eq_mult)

lemma mode_bits:
  fixes f :: u32
  shows "f AND 3 = 3 \<longleftrightarrow> bit f 0 \<and> bit f (Suc 0)" "f AND 3 = 0 \<longleftrightarrow> \<not> bit f 0 \<and> \<not> bit f (Suc 0)"
proof -
  have m: "(3 :: u32) = mask 2" by (simp add: mask_eq_exp_minus_1)
  have b: "bit (mask 2 :: u32) n \<longleftrightarrow> n = 0 \<or> n = Suc 0" for n by (auto simp: bit_mask_iff numeral_2_eq_2 less_Suc_eq)
  have e: "bit (f AND mask 2) n \<longleftrightarrow> bit f n \<and> (n = 0 \<or> n = Suc 0)" for n by (simp only: bit_and_iff b)
  show "f AND 3 = 3 \<longleftrightarrow> bit f 0 \<and> bit f (Suc 0)"
  proof
    assume "f AND 3 = 3"
    then have "bit (f AND mask 2) n \<longleftrightarrow> bit (mask 2 :: u32) n" for n by (simp add: m)
    then show "bit f 0 \<and> bit f (Suc 0)" unfolding e b by blast
  next
    assume "bit f 0 \<and> bit f (Suc 0)"
    then have "bit (f AND mask 2) n \<longleftrightarrow> bit (mask 2 :: u32) n" for n unfolding e b by auto
    then show "f AND 3 = 3" unfolding m by (rule bit_eqI)
  qed
  show "f AND 3 = 0 \<longleftrightarrow> \<not> bit f 0 \<and> \<not> bit f (Suc 0)"
  proof
    assume "f AND 3 = 0"
    then have "\<not> bit (f AND mask 2) n" for n by (simp add: m)
    then show "\<not> bit f 0 \<and> \<not> bit f (Suc 0)" unfolding e by blast
  next
    assume "\<not> bit f 0 \<and> \<not> bit f (Suc 0)"
    then have "bit (f AND mask 2) n \<longleftrightarrow> bit (0 :: u32) n" for n unfolding e by (cases "n = 0") auto
    then show "f AND 3 = 0" unfolding m by (rule bit_eqI)
  qed
qed

lemma option_keeps: "\<lbrakk>flags_inv v; snc_option c a v = (r, v1)\<rbrakk> \<Longrightarrow> flags_inv v1"
  by (auto simp: snc_option_def flags_inv_def bit_simps split: if_splits prod.splits)

lemma options_keep: "\<lbrakk>flags_inv v; snc_options opts v = (r, v1)\<rbrakk> \<Longrightarrow> flags_inv v1"
proof (induction opts v rule: snc_options.induct)
  case (2 c a opts v)
  then show ?case using option_keeps by (auto split: prod.splits if_splits)
qed simp

text \<open>The options of \<^verbatim>\<open>snc\<close>. When \<^verbatim>\<open>parse_args\<close> accepts them, exactly one of binding and connecting and exactly
  one of TCP and UDP is chosen, and the type of the socket is the one of the protocol.
\<close>

theorem snc_modes:
  assumes "snc_parse_args opts operands (snc_init_options v) = (0, v1)"
  shows "(snc_flags v1 AND F_BIND \<noteq> 0) \<noteq> (snc_flags v1 AND F_CONNECT \<noteq> 0) \<and>
    (snc_flags v1 AND F_TCP \<noteq> 0) \<noteq> (snc_flags v1 AND F_UDP \<noteq> 0) \<and>
    snc_type v1 = (if snc_flags v1 AND F_UDP \<noteq> 0 then SOCK_DGRAM else SOCK_STREAM)"
proof -
  obtain r v2 where o2: "snc_options opts (snc_init_options v) = (r, v2)" by (rule prod.exhaust)
  have "flags_inv (snc_init_options v)" by (simp add: flags_inv_def snc_init_options_def)
  then have inv: "flags_inv v2" using options_keep o2 by blast
  show ?thesis using assms inv
    by (auto simp: snc_parse_args_def o2 flags_inv_def flag_bits mode_bits split: if_splits)
qed

definition sample_snc :: snc_vars where
  "sample_snc = \<lparr>snc_flags = 0, snc_sock = None, snc_csock = None,
     snc_skaddr = \<lparr>src_addr = 0, dst_addr = 0, src_port = 0, dst_port = 0\<rparr>, snc_type = SOCK_STREAM, snc_interrupt = False\<rparr>"

theorem snc_modes_witness:
  "\<exists>v1. snc_parse_args [(CHR ''u'', []), (CHR ''b'', ''0.0.0.0:7'')] [] (snc_init_options sample_snc) = (0, v1) \<and> snc_type v1 = SOCK_DGRAM"
proof -
  have t: "ipfmt 0 @ '':'' @ print_d (unat (7 :: u16)) = ''0.0.0.0:7''"
    by (simp add: ipfmt_def print_d.simps char_of_def bit_0)
  let ?r = "snc_parse_args [(CHR ''u'', []), (CHR ''b'', ''0.0.0.0:7'')] [] (snc_init_options sample_snc)"
  have r: "fst ?r = 0" "snc_flags (snd ?r) = 9"
    using address_roundtrip [of 0 7 0 0] unfolding t
    by (simp_all add: snc_parse_args_def snc_option_def snc_init_options_def)
  then have "?r = (0, snd ?r)" by (metis prod.collapse)
  from snc_modes [OF this] show ?thesis using r \<open>?r = (0, snd ?r)\<close> by auto
qed

section \<open>Datagrams on the terminal\<close>

text \<open>\<^verbatim>\<open>snc -u -b\<close> writes what it receives. On a terminal that takes everything, \<^verbatim>\<open>recv_udp_packet\<close> writes the data of
  the waiting datagrams in order and then waits for more; a datagram whose header claims fewer
  than seven octets ends it, and the ones behind it are not written.
\<close>

theorem snc_writes_datagrams:
  assumes "snc_sock v = Some s" "recv_ready s i q w"
  defines "good \<equiv> takeWhile (\<lambda>p. -1 \<le> udp_text_len (pk_data p)) q"
  shows "\<exists>w'. snc_recv_loop (Suc (length q)) xmit (\<lambda>_. True) out (v, w) =
    Some (if length good = length q then Sleeping else Return (), out @ concat (map (\<lambda>p. udp_text (pk_data p)) good), w')"
  using assms(2) unfolding good_def
proof (induction q arbitrary: out w)
  case Nil
  then show ?case using assms(1) recv_empty [of s i w xmit] by (auto simp: split_beta split: outcome.splits prod.splits)
next
  case (Cons p q)
  obtain w1 where w1: "recv_call xmit s w = (Return (Some p), w1)" "recv_ready s i q w1"
    using recv_queued [OF Cons.prems] by blast
  have wr: "text_written (\<lambda>_. True) (pk_data p) \<longleftrightarrow> -1 \<le> udp_text_len (pk_data p)" by (auto simp: text_written_def)
  show ?case
  proof (cases "-1 \<le> udp_text_len (pk_data p)")
    case True
    then have "snc_recv_loop (Suc n) xmit (\<lambda>_. True) out (v, w) =
        snc_recv_loop n xmit (\<lambda>_. True) (out @ udp_text (pk_data p)) (v, free_pkb p w1)" for n
      using assms(1) w1(1) wr by simp
    from this [of "Suc (length q)"] show ?thesis
      using Cons.IH [OF ready_free_pkb [OF w1(2), of p], of "out @ udp_text (pk_data p)"] True by (auto simp del: snc_recv_loop.simps)
  next
    case False
    then show ?thesis using assms(1) w1(1) wr by simp
  qed
qed

theorem snc_writes_datagrams_witness:
  "let p = (fst (alloc_pkb 0 bss))\<lparr>pk_data := replicate 14 0 @ [0x45] @ replicate 19 0 @ [0, 0, 0, 0, 0, 10, 0, 0, 104, 105]\<rparr>;
       w = stack_bss\<lparr>sockets := (\<lambda>_. empty_socket\<lparr>so_ops := True, so_sk := Some 0, so_refcnt := 1\<rparr>),
                     socks := (\<lambda>_. (zero_sock UDP_OPS)\<lparr>recv_queue := [p]\<rparr>)\<rparr>
   in \<exists>w'. snc_recv_loop 2 (\<lambda>_ _ w. w) (\<lambda>_. True) [] (sample_snc\<lparr>snc_sock := Some 3\<rparr>, w) = Some (Sleeping, str ''hi'', w')"
proof -
  let ?b = "replicate 14 0 @ [0x45] @ replicate 19 0 @ [0, 0, 0, 0, 0, 10, 0, 0, 104, 105] :: octets"
  let ?p = "(fst (alloc_pkb 0 bss))\<lparr>pk_data := ?b\<rparr>"
  let ?w = "stack_bss\<lparr>sockets := (\<lambda>_. empty_socket\<lparr>so_ops := True, so_sk := Some 0, so_refcnt := 1\<rparr>),
                     socks := (\<lambda>_. (zero_sock UDP_OPS)\<lparr>recv_queue := [?p]\<rparr>)\<rparr>"
  have "udp_text_len ?b = 2" "udp_text ?b = str ''hi''" by code_simp+
  moreover have "recv_ready 3 0 [?p] ?w" by (simp add: recv_ready_def empty_socket_def wait_init_def zero_sock_def)
  ultimately show ?thesis
    using snc_writes_datagrams [of "sample_snc\<lparr>snc_sock := Some 3\<rparr>" 3 0 "[?p]" ?w "\<lambda>_ _ w. w" "[]"]
    unfolding Let_def by (simp add: numeral_2_eq_2 del: snc_recv_loop.simps)
qed

end
