(* ===== verification/Shell.thy ===== *)
theory Shell
  imports Prelude
begin

text \<open>
  The shell of the stack: \<^verbatim>\<open>tapip/shell/shell.c\<close> and the command \<^verbatim>\<open>debug\<close> of \<^verbatim>\<open>tapip/shell/net_command.c\<close>. The
  line buffer is a list of characters with its terminator, which \<^verbatim>\<open>get_arg\<close> overwrites; an
  argument is the offset of its first character. The shell has two threads, the master that
  reads lines and the worker that runs the commands with their own thread; \<open>shell_step\<close> is
  one statement of one of them. The pthread mutexes are never locked by the code: the
  condition variables are waited for and signalled without them.
\<close>

section \<open>Lines and arguments\<close>

abbreviation (input) NUL :: char where "NUL \<equiv> CHR 0x00"

definition isblank :: "char \<Rightarrow> bool" where
  "isblank c \<longleftrightarrow> c = CHR '' '' \<or> c = CHR 0x09"

text \<open>What \<^verbatim>\<open>fgets\<close> gave: the characters read, or a null pointer with \<^verbatim>\<open>errno\<close>; \<open>EINTR\<close> is told apart.\<close>

datatype fgets_result = Line string | Failed bool bool

text \<open>\<open>Failed err intr\<close>: \<^verbatim>\<open>errno\<close> is set, and it is \<^verbatim>\<open>EINTR\<close>. The result \<open>None\<close> is the exit in \<^verbatim>\<open>perrx\<close>.\<close>

definition c_string :: "string \<Rightarrow> nat \<Rightarrow> string" where
  "c_string l p = takeWhile (\<lambda>c. c \<noteq> NUL) (drop p l)"

definition get_line :: "fgets_result \<Rightarrow> (nat \<times> string) option" where
  "get_line r =
     (case r of
        Failed err intr \<Rightarrow> if err \<and> \<not> intr then None else Some (4, ''exit'' @ [NUL])
      | Line buf \<Rightarrow>
          (let s = c_string buf 0 in
           if s = [] then Some (0, [NUL])
           else if last s = CHR 0x0A then Some (length s - 1, butlast s @ [NUL])
           else Some (length s, s @ [NUL])))"

definition char_at :: "string \<Rightarrow> nat \<Rightarrow> char" where
  "char_at l p = (if p < length l then l ! p else NUL)"

function skip_blanks :: "nat \<Rightarrow> string \<Rightarrow> nat \<times> string" where
  "skip_blanks p l = (if isblank (char_at l p) then skip_blanks (p + 1) (l[p := NUL]) else (p, l))"
  by auto
termination
  by (relation "measure (\<lambda>(p, l). length l - p)") (auto simp: char_at_def isblank_def split: if_splits)

function skip_normal :: "nat \<Rightarrow> string \<Rightarrow> nat" where
  "skip_normal p l = (if char_at l p \<noteq> NUL \<and> \<not> isblank (char_at l p) then skip_normal (p + 1) l else p)"
  by auto
termination
  by (relation "measure (\<lambda>(p, l). length l - p)") (auto simp: char_at_def split: if_splits)

declare skip_blanks.simps [simp del] skip_normal.simps [simp del]

definition get_arg :: "nat \<Rightarrow> string \<Rightarrow> nat option \<times> nat \<times> string" where
  "get_arg pp l =
     (let (p, l1) = skip_blanks pp l
      in if char_at l1 p = NUL then (None, p, l1) else (Some p, skip_normal p l1, l1))"

text \<open>The array \<^verbatim>\<open>argv\<close> of \<^verbatim>\<open>shell_master\<close> has 16 entries; \<open>None\<close> is a store behind its end.\<close>

definition ARGV_SIZE :: nat where "ARGV_SIZE = 16"

function arg_loop :: "nat \<Rightarrow> string \<Rightarrow> nat list \<Rightarrow> (nat list \<times> string) option" where
  "arg_loop pp l argv =
     (case get_arg pp l of
        (None, _, l1) \<Rightarrow> Some (argv, l1)
      | (Some a, pp1, l1) \<Rightarrow> if length argv < ARGV_SIZE then arg_loop pp1 l1 (argv @ [a]) else None)"
  by auto
termination
  by (relation "measure (\<lambda>(pp, l, argv). ARGV_SIZE - length argv)") auto

declare arg_loop.simps [simp del]

definition parse_line :: "string \<Rightarrow> nat \<Rightarrow> (nat list \<times> string) option" where
  "parse_line l len = (if len = 0 then Some ([], l) else arg_loop 0 l [])"

section \<open>Commands\<close>

datatype cmd_func =
  builtin_help | builtin_clear | builtin_exit | netdebug | ping2 | arpcache | route | ifconfig | stat | ping | snc

record command =
  cmd_new :: bool
  cmd_num :: int
  cmd_func :: cmd_func
  cmd_str :: string

abbreviation CMD_NONUM :: int where "CMD_NONUM \<equiv> -1"

definition mk_command :: "bool \<Rightarrow> int \<Rightarrow> cmd_func \<Rightarrow> string \<Rightarrow> command" where
  "mk_command new num func s = \<lparr>cmd_new = new, cmd_num = num, cmd_func = func, cmd_str = s\<rparr>"

text \<open>The table without its last entry, which ends the search.\<close>

definition cmds :: "command list" where
  "cmds =
     [mk_command False CMD_NONUM builtin_help ''help'',
      mk_command False CMD_NONUM builtin_clear ''clear'',
      mk_command False CMD_NONUM builtin_exit ''exit'',
      mk_command False CMD_NONUM netdebug ''debug'',
      mk_command False CMD_NONUM ping2 ''ping2'',
      mk_command False 1 arpcache ''arpcache'',
      mk_command False 1 route ''route'',
      mk_command False 1 ifconfig ''ifconfig'',
      mk_command False 1 stat ''stat'',
      mk_command True CMD_NONUM ping ''ping'',
      mk_command True CMD_NONUM snc ''snc'']"

fun find_command :: "string \<Rightarrow> command list \<Rightarrow> command option" where
  "find_command s [] = None"
| "find_command s (c # cs) = (if cmd_str c = s then Some c else find_command s cs)"

section \<open>The command debug\<close>

abbreviation (input) NET_DEBUG_DEV :: u32 where "NET_DEBUG_DEV \<equiv> 0x00000001"
abbreviation (input) NET_DEBUG_L2 :: u32 where "NET_DEBUG_L2 \<equiv> 0x00000002"
abbreviation (input) NET_DEBUG_ARP :: u32 where "NET_DEBUG_ARP \<equiv> 0x00000004"
abbreviation (input) NET_DEBUG_IP :: u32 where "NET_DEBUG_IP \<equiv> 0x00000008"
abbreviation (input) NET_DEBUG_ICMP :: u32 where "NET_DEBUG_ICMP \<equiv> 0x00000010"
abbreviation (input) NET_DEBUG_UDP :: u32 where "NET_DEBUG_UDP \<equiv> 0x00000020"
abbreviation (input) NET_DEBUG_TCP :: u32 where "NET_DEBUG_TCP \<equiv> 0x00000040"
abbreviation (input) NET_DEBUG_TCPSTATE :: u32 where "NET_DEBUG_TCPSTATE \<equiv> 0x00000080"
abbreviation (input) NET_DEBUG_ALL :: u32 where "NET_DEBUG_ALL \<equiv> 0xffffffff"

definition debug_bits :: "string \<Rightarrow> u32 option" where
  "debug_bits a =
     (if a = ''dev'' then Some NET_DEBUG_DEV else if a = ''l2'' then Some NET_DEBUG_L2
      else if a = ''arp'' then Some NET_DEBUG_ARP else if a = ''ip'' then Some NET_DEBUG_IP
      else if a = ''icmp'' then Some NET_DEBUG_ICMP else if a = ''udp'' then Some NET_DEBUG_UDP
      else if a = ''tcp'' then Some NET_DEBUG_TCP else if a = ''tcpstate'' then Some NET_DEBUG_TCPSTATE
      else if a = ''all'' then Some NET_DEBUG_ALL else None)"

text \<open>The loop over the arguments from the last to the first behind the name; \<open>None\<close> is \<^verbatim>\<open>debug_usage\<close>.\<close>

fun debug_args :: "string list \<Rightarrow> bool \<Rightarrow> bool \<Rightarrow> u32 \<Rightarrow> (bool \<times> bool \<times> u32) option" where
  "debug_args [] noblock clear debug = Some (noblock, clear, debug)"
| "debug_args (a # as) noblock clear debug =
     (if a = ''-n'' then debug_args as True clear debug
      else if a = ''-c'' then debug_args as noblock True debug
      else case debug_bits a of
             None \<Rightarrow> None
           | Some b \<Rightarrow> debug_args as noblock clear (debug OR b))"

text \<open>
  \<^verbatim>\<open>netdebug\<close>: the flags while it waits for the interrupt, if it does, and the flags when it returns.
  Without arguments the loop still runs once, on the name of the command.
\<close>

definition netdebug_call :: "string list \<Rightarrow> u32 \<Rightarrow> u32 option \<times> u32" where
  "netdebug_call argv net_debug =
     (case debug_args (rev (if length argv > 1 then tl argv else argv)) False False 0 of
        None \<Rightarrow> (None, net_debug)
      | Some (noblock, clear, debug) \<Rightarrow>
          if clear then (None, if debug \<noteq> 0 then net_debug AND NOT debug else 0)
          else if noblock then (None, net_debug OR debug)
          else (Some (net_debug OR debug), 0))"

section \<open>Master and worker\<close>

text \<open>
  Where a thread is: the master at the head of its loop, before the signal to the worker, at the
  test of \<^verbatim>\<open>pending_work\<close>, between the test and the wait, blocked, and before the signal of \<^verbatim>\<open>builtin_exit\<close>; the
  worker at its two tests, between test and wait, blocked, woken, and at the three statements of
  its loop body. \<open>pthread_cond_signal\<close> wakes the other thread if it is blocked and is lost otherwise.
\<close>

datatype master_pc = M_loop | M_signal | M_check | M_wait | M_blocked | M_exit | M_done

datatype worker_pc = W_loop | W_check | W_wait | W_blocked | W_woken | W_run | W_clear | W_signal | W_out

type_synonym cmd_args = "string list \<times> command"

record shell =
  m_pc :: master_pc
  w_pc :: worker_pc
  master_quit :: bool
  work_quit :: bool
  pending_work :: "cmd_args option"
  handed :: "cmd_args list"
  ran :: "cmd_args list"

definition shell_init :: shell where
  "shell_init = \<lparr>m_pc = M_loop, w_pc = W_loop, master_quit = False, work_quit = False, pending_work = None, handed = [], ran = []\<rparr>"

definition signal_worker :: "shell \<Rightarrow> shell" where
  "signal_worker s = (if w_pc s = W_blocked then s\<lparr>w_pc := W_woken\<rparr> else s)"

definition signal_master :: "shell \<Rightarrow> shell" where
  "signal_master s = (if m_pc s = M_blocked then s\<lparr>m_pc := M_check\<rparr> else s)"

text \<open>
  \<^verbatim>\<open>parse_args\<close> up to the first signal. The commands that print or wait for the user leave the
  threads of the shell alone.
\<close>

definition parse_args :: "string list \<Rightarrow> shell \<Rightarrow> shell" where
  "parse_args argv s =
     (case find_command (hd argv) cmds of
        None \<Rightarrow> s
      | Some cmd \<Rightarrow>
          if cmd_num cmd \<noteq> CMD_NONUM \<and> cmd_num cmd \<noteq> int (length argv) then s
          else if cmd_new cmd
          then s\<lparr>pending_work := Some (argv, cmd), handed := handed s @ [(argv, cmd)], m_pc := M_signal\<rparr>
          else if cmd_func cmd = builtin_exit then s\<lparr>master_quit := True, work_quit := True, m_pc := M_exit\<rparr>
          else s)"

text \<open>One round of \<^verbatim>\<open>shell_master\<close> on the line read; a line with too many arguments overruns \<^verbatim>\<open>argv\<close>.\<close>

definition master_line :: "fgets_result \<Rightarrow> shell \<Rightarrow> shell option" where
  "master_line r s =
     (case get_line r of
        None \<Rightarrow> None
      | Some (len, l) \<Rightarrow>
          (case parse_line l len of
             None \<Rightarrow> None
           | Some (argv, l1) \<Rightarrow> Some (if argv = [] then s else parse_args (map (c_string l1) argv) s)))"

inductive master_step :: "shell \<Rightarrow> shell \<Rightarrow> bool" where
  master_reads: "\<lbrakk>m_pc s = M_loop; \<not> master_quit s; master_line r s = Some s'\<rbrakk> \<Longrightarrow> master_step s s'"
| master_ends: "\<lbrakk>m_pc s = M_loop; master_quit s\<rbrakk> \<Longrightarrow> master_step s (s\<lparr>m_pc := M_done\<rparr>)"
| master_signals: "m_pc s = M_signal \<Longrightarrow> master_step s (signal_worker (s\<lparr>m_pc := M_check\<rparr>))"
| master_checks: "m_pc s = M_check \<Longrightarrow> master_step s (s\<lparr>m_pc := if pending_work s = None then M_loop else M_wait\<rparr>)"
| master_waits: "m_pc s = M_wait \<Longrightarrow> master_step s (s\<lparr>m_pc := M_blocked\<rparr>)"
| master_exits: "m_pc s = M_exit \<Longrightarrow> master_step s (signal_worker (s\<lparr>m_pc := M_loop\<rparr>))"

inductive worker_step :: "shell \<Rightarrow> shell \<Rightarrow> bool" where
  worker_loops: "w_pc s = W_loop \<Longrightarrow> worker_step s (s\<lparr>w_pc := if work_quit s then W_out else W_check\<rparr>)"
| worker_checks: "w_pc s = W_check \<Longrightarrow> worker_step s (s\<lparr>w_pc := if pending_work s = None then W_wait else W_run\<rparr>)"
| worker_waits: "w_pc s = W_wait \<Longrightarrow> worker_step s (s\<lparr>w_pc := W_blocked\<rparr>)"
| worker_wakes: "w_pc s = W_woken \<Longrightarrow> worker_step s (s\<lparr>w_pc := if work_quit s then W_out else W_check\<rparr>)"
| worker_runs: "\<lbrakk>w_pc s = W_run; pending_work s = Some a\<rbrakk> \<Longrightarrow> worker_step s (s\<lparr>ran := ran s @ [a], w_pc := W_clear\<rparr>)"
| worker_clears: "w_pc s = W_clear \<Longrightarrow> worker_step s (s\<lparr>pending_work := None, w_pc := W_signal\<rparr>)"
| worker_signals: "w_pc s = W_signal \<Longrightarrow> worker_step s (signal_master (s\<lparr>w_pc := W_loop\<rparr>))"

text \<open>A wait may also end without a signal.\<close>

inductive spurious_wakeup :: "shell \<Rightarrow> shell \<Rightarrow> bool" where
  "w_pc s = W_blocked \<Longrightarrow> spurious_wakeup s (s\<lparr>w_pc := W_woken\<rparr>)"
| "m_pc s = M_blocked \<Longrightarrow> spurious_wakeup s (s\<lparr>m_pc := M_check\<rparr>)"

inductive shell_reachable :: "shell \<Rightarrow> bool" where
  shell_start: "shell_reachable shell_init"
| shell_steps: "\<lbrakk>shell_reachable s; master_step s s' \<or> worker_step s s' \<or> spurious_wakeup s s'\<rbrakk> \<Longrightarrow> shell_reachable s'"

inductive_simps master_step_iff: "master_step s s'"
inductive_simps worker_step_iff: "worker_step s s'"

section \<open>A line is split into its words\<close>

text \<open>The reference: the maximal runs of characters that are not blank.\<close>

function line_words :: "string \<Rightarrow> string list" where
  "line_words s =
     (let t = dropWhile isblank s
      in if t = [] then [] else takeWhile (\<lambda>c. \<not> isblank c) t # line_words (dropWhile (\<lambda>c. \<not> isblank c) t))"
  by auto
termination
proof (relation "measure length", goal_cases)
  case (2 s t)
  obtain c t' where t: "t = c # t'" using 2(2) by (cases t) auto
  have "\<not> isblank c" using hd_dropWhile [of isblank s] 2 t by force
  then have "length (dropWhile (\<lambda>c. \<not> isblank c) t) < length t" using length_dropWhile_le [of _ t'] by (simp add: t less_Suc_eq_le)
  also have "\<dots> \<le> length s" using 2 by (simp add: length_dropWhile_le)
  finally show ?case by simp
qed simp

declare line_words.simps [simp del]

lemma char_at_append [simp]: "char_at (pre @ c # s) (length pre) = c" "char_at (pre @ [c]) (length pre) = c"
  by (simp_all add: char_at_def)

lemma not_blank_NUL [simp]: "\<not> isblank NUL"
  by (simp add: isblank_def)

lemma skip_blanks_run:
  assumes "\<forall>c\<in>set bs. isblank c" "\<not> isblank c"
  shows "skip_blanks (length pre) (pre @ bs @ c # s) = (length pre + length bs, pre @ replicate (length bs) NUL @ c # s)"
  using assms
proof (induction bs arbitrary: pre)
  case (Cons b bs)
  then show ?case using Cons.IH [of "pre @ [NUL]"] by (subst skip_blanks.simps) simp
next
  case Nil
  then show ?case by (subst skip_blanks.simps) auto
qed

lemma skip_normal_run:
  assumes "\<forall>c\<in>set w. c \<noteq> NUL \<and> \<not> isblank c" "c = NUL \<or> isblank c"
  shows "skip_normal (length pre) (pre @ w @ c # s) = length pre + length w"
  using assms
proof (induction w arbitrary: pre)
  case (Cons b w)
  then show ?case using Cons.IH [of "pre @ [b]"] by (subst skip_normal.simps) simp
next
  case Nil
  then show ?case by (subst skip_normal.simps) auto
qed

text \<open>What is left of a line: its words, each behind zeros instead of blanks, and where they begin.\<close>

abbreviation erase :: "string \<Rightarrow> string" where
  "erase s \<equiv> map (\<lambda>c. if isblank c then NUL else c) s"

lemma erase_blanks: "\<forall>c\<in>set bs. isblank c \<Longrightarrow> erase bs = replicate (length bs) NUL"
  by (induction bs) auto

lemma erase_word: "\<forall>c\<in>set w. \<not> isblank c \<Longrightarrow> erase w = w"
  by (induction w) auto

lemma line_cases:
  obtains "line_words s = []" "\<forall>c\<in>set s. isblank c"
  | bs w t where "s = bs @ w @ t" "\<forall>c\<in>set bs. isblank c" "w \<noteq> []" "\<forall>c\<in>set w. \<not> isblank c"
      "t = [] \<or> isblank (hd t)" "line_words s = w # line_words t"
proof (cases "dropWhile isblank s = []")
  case True
  then show thesis using that(1) line_words.simps [of s] by (simp add: dropWhile_eq_Nil_conv)
next
  case False
  let ?bs = "takeWhile isblank s" and ?r = "dropWhile isblank s"
  let ?w = "takeWhile (\<lambda>c. \<not> isblank c) ?r" and ?t = "dropWhile (\<lambda>c. \<not> isblank c) ?r"
  have "\<not> isblank (hd ?r)" using False hd_dropWhile by blast
  then have "?w \<noteq> []" using False by (cases ?r) auto
  moreover have "?t = [] \<or> isblank (hd ?t)" using hd_dropWhile [of "\<lambda>c. \<not> isblank c" ?r] by blast
  moreover have "line_words s = ?w # line_words ?t" using False line_words.simps [of s] by (simp add: Let_def)
  ultimately show thesis using that(2) [of ?bs ?w ?t] set_takeWhileD by (metis takeWhile_dropWhile_id)
qed

lemma arg_loop_words:
  assumes "NUL \<notin> set s" "length argv \<le> ARGV_SIZE"
  shows "if length argv + length (line_words s) \<le> ARGV_SIZE
    then \<exists>starts. arg_loop (length pre) (pre @ s @ [NUL]) argv = Some (argv @ starts, pre @ erase s @ [NUL]) \<and>
      map (c_string (pre @ erase s @ [NUL])) starts = line_words s
    else arg_loop (length pre) (pre @ s @ [NUL]) argv = None"
  using assms
proof (induction "length s" arbitrary: s pre argv rule: less_induct)
  case less
  show ?case
  proof (cases s rule: line_cases)
    case 1
    then have "get_arg (length pre) (pre @ s @ [NUL]) = (None, length pre + length s, pre @ erase s @ [NUL])"
      using skip_blanks_run [of s NUL pre "[]"] erase_blanks by (simp add: get_arg_def char_at_def nth_append)
    then show ?thesis using 1(1) less.prems(2) by (simp add: arg_loop.simps)
  next
    case (2 bs w t)
    let ?pre = "pre @ replicate (length bs) NUL"
    obtain c w' where w: "w = c # w'" using 2(3) by (cases w) auto
    have clean: "NUL \<notin> set w" "NUL \<notin> set t" using less.prems(1) 2(1) by auto
    obtain d t' where t: "t @ [NUL] = d # t'" "d = NUL \<or> isblank d" using 2(5) by (cases t) auto
    have "skip_blanks (length pre) (pre @ s @ [NUL]) = (length ?pre, ?pre @ w @ t @ [NUL])"
      using skip_blanks_run [OF 2(2), of c pre "w' @ t @ [NUL]"] 2(1,4) w by simp
    moreover have "char_at (?pre @ w @ t @ [NUL]) (length ?pre) = c" using char_at_append(1) [of ?pre c] w by simp
    moreover have "c \<noteq> NUL" using clean w by auto
    moreover have "skip_normal (length ?pre) (?pre @ w @ t @ [NUL]) = length (?pre @ w)"
      using skip_normal_run [of w d ?pre t'] 2(4) clean t by (auto simp del: append_assoc simp: append_assoc [symmetric])
    ultimately have arg: "get_arg (length pre) (pre @ s @ [NUL]) = (Some (length ?pre), length (?pre @ w), (?pre @ w) @ t @ [NUL])"
      by (simp add: get_arg_def)
    have er: "pre @ erase s @ [NUL] = (?pre @ w) @ erase t @ [NUL]" using 2 erase_blanks erase_word by simp
    have word: "c_string ((?pre @ w) @ erase t @ [NUL]) (length ?pre) = w"
    proof -
      have "takeWhile (\<lambda>c. c \<noteq> NUL) (erase t @ [NUL]) = []" using 2(5) by (cases t) auto
      moreover have "\<forall>c\<in>set w. c \<noteq> NUL" using clean by auto
      ultimately show ?thesis by (simp add: c_string_def takeWhile_append2)
    qed
    have "length t < length s" using 2(1,3) by simp
    note IH = less.hyps [OF this clean(2), of "argv @ [length ?pre]" "?pre @ w"]
    show ?thesis
    proof (cases "length argv < ARGV_SIZE")
      case True
      then show ?thesis using IH 2(6) word unfolding arg_loop.simps [of "length pre"] arg er
        by (auto split: if_splits)
    next
      case False
      then show ?thesis using less.prems(2) 2(6) unfolding arg_loop.simps [of "length pre"] arg by simp
    qed
  qed
qed

text \<open>C40. A line of the shell is split into its words. For every line without a zero octet \<^verbatim>\<open>parse_line\<close> stores
  in \<^verbatim>\<open>argv\<close>, in order, exactly the maximal runs of characters that are neither space nor tab, each
  terminated in place. It does not count them: the seventeenth is stored behind the array.
\<close>

theorem parse_line_words:
  assumes "NUL \<notin> set s"
  shows "if length (line_words s) \<le> 16
    then \<exists>argv l. parse_line (s @ [NUL]) (length s) = Some (argv, l) \<and> map (c_string l) argv = line_words s
    else parse_line (s @ [NUL]) (length s) = None"
proof (cases "s = []")
  case True
  then show ?thesis by (simp add: parse_line_def line_words.simps)
next
  case False
  then show ?thesis using arg_loop_words [OF assms, of "[]" "[]"] by (auto simp: parse_line_def ARGV_SIZE_def split: if_splits)
qed

theorem parse_line_words_witness:
  "\<exists>argv l. parse_line (''ping  -c 3 10.0.0.1'' @ [NUL]) 19 = Some (argv, l) \<and>
     map (c_string l) argv = [''ping'', ''-c'', ''3'', ''10.0.0.1'']"
proof -
  have "line_words ''ping  -c 3 10.0.0.1'' = [''ping'', ''-c'', ''3'', ''10.0.0.1'']"
    by (simp add: line_words.simps isblank_def)
  then show ?thesis using parse_line_words [of "''ping  -c 3 10.0.0.1''"] by (simp add: numeral_eq_Suc)
qed

section \<open>Handing a command over\<close>

text \<open>The command handed over that has not run yet.\<close>

definition unfinished :: "shell \<Rightarrow> cmd_args list" where
  "unfinished s = (case pending_work s of None \<Rightarrow> [] | Some a \<Rightarrow> if w_pc s = W_clear then [] else [a])"

definition shell_inv :: "shell \<Rightarrow> bool" where
  "shell_inv s \<longleftrightarrow>
     ran s @ unfinished s = handed s \<and>
     (w_pc s \<in> {W_run, W_clear} \<longrightarrow> pending_work s \<noteq> None) \<and>
     (m_pc s \<in> {M_loop, M_exit, M_done} \<longrightarrow> pending_work s = None) \<and>
     (work_quit s \<longrightarrow> m_pc s \<in> {M_loop, M_exit, M_done} \<and> master_quit s)"

lemma parse_args_cases:
  "parse_args argv s = s \<or>
   (\<exists>cmd. parse_args argv s = s\<lparr>pending_work := Some (argv, cmd), handed := handed s @ [(argv, cmd)], m_pc := M_signal\<rparr>) \<or>
   parse_args argv s = s\<lparr>master_quit := True, work_quit := True, m_pc := M_exit\<rparr>"
  unfolding parse_args_def by (auto split: option.splits if_splits)

lemma master_line_cases: "master_line r s = Some s' \<Longrightarrow> s' = s \<or> (\<exists>argv. s' = parse_args argv s)"
  unfolding master_line_def by (auto split: option.splits if_splits) metis

lemma inv_parse_args: "\<lbrakk>shell_inv s; m_pc s = M_loop; \<not> master_quit s\<rbrakk> \<Longrightarrow> shell_inv (parse_args argv s)"
  using parse_args_cases [of argv s] by (auto simp: shell_inv_def unfinished_def)

lemma inv_master: "\<lbrakk>master_step s s'; shell_inv s\<rbrakk> \<Longrightarrow> shell_inv s'"
proof (induction rule: master_step.induct)
  case (master_reads s r s')
  then show ?case using inv_parse_args master_line_cases by metis
qed (auto simp: shell_inv_def unfinished_def signal_worker_def split: option.splits)

lemma inv_worker: "\<lbrakk>worker_step s s'; shell_inv s\<rbrakk> \<Longrightarrow> shell_inv s'"
  by (induction rule: worker_step.induct) (auto simp: shell_inv_def unfinished_def signal_master_def split: option.splits if_splits)

lemma inv_spurious: "\<lbrakk>spurious_wakeup s s'; shell_inv s\<rbrakk> \<Longrightarrow> shell_inv s'"
  by (induction rule: spurious_wakeup.induct) (auto simp: shell_inv_def unfinished_def split: option.splits)

lemma reachable_inv: "shell_reachable s \<Longrightarrow> shell_inv s"
proof (induction rule: shell_reachable.induct)
  case shell_start
  then show ?case by (simp add: shell_inv_def shell_init_def unfinished_def)
next
  case (shell_steps s s')
  then show ?case using inv_master inv_worker inv_spurious by blast
qed

definition stuck :: "shell \<Rightarrow> bool" where
  "stuck s \<longleftrightarrow> (\<forall>s'. \<not> master_step s s' \<and> \<not> worker_step s s')"

lemma stuck_states: "\<lbrakk>m_pc s \<in> {M_blocked, M_done}; w_pc s = W_blocked\<rbrakk> \<Longrightarrow> stuck s"
  by (auto simp: stuck_def master_step_iff worker_step_iff)

text \<open>The worker has found no work and is about to wait.\<close>

abbreviation about_to_wait :: shell where "about_to_wait \<equiv> shell_init\<lparr>w_pc := W_wait\<rparr>"

lemma reach_master: "\<lbrakk>shell_reachable s; master_step s s'\<rbrakk> \<Longrightarrow> shell_reachable s'"
  and reach_worker: "\<lbrakk>shell_reachable s; worker_step s s'\<rbrakk> \<Longrightarrow> shell_reachable s'"
  using shell_steps by blast+

lemma reach_about_to_wait: "shell_reachable about_to_wait"
proof -
  have "worker_step shell_init (shell_init\<lparr>w_pc := W_check\<rparr>)" "worker_step (shell_init\<lparr>w_pc := W_check\<rparr>) about_to_wait"
    by (simp_all add: worker_step_iff shell_init_def)
  then show ?thesis using reach_worker shell_start by blast
qed

lemma lines_read:
  "master_line (Line (''snc'' @ [CHR 0x0A])) about_to_wait = Some (parse_args [''snc''] about_to_wait)"
  "master_line (Line (''exit'' @ [CHR 0x0A])) about_to_wait = Some (parse_args [''exit''] about_to_wait)"
proof -
  have "get_line (Line (''snc'' @ [CHR 0x0A])) = Some (3, ''snc'' @ [NUL])"
    "get_line (Line (''exit'' @ [CHR 0x0A])) = Some (4, ''exit'' @ [NUL])" by code_simp+
  moreover have "parse_line (''snc'' @ [NUL]) 3 = Some ([0], ''snc'' @ [NUL])"
    "parse_line (''exit'' @ [NUL]) 4 = Some ([0], ''exit'' @ [NUL])" by code_simp+
  ultimately show
    "master_line (Line (''snc'' @ [CHR 0x0A])) about_to_wait = Some (parse_args [''snc''] about_to_wait)"
    "master_line (Line (''exit'' @ [CHR 0x0A])) about_to_wait = Some (parse_args [''exit''] about_to_wait)"
    by (simp_all add: master_line_def c_string_def)
qed

lemma handover_sticks: "\<exists>s. shell_reachable s \<and> stuck s \<and> pending_work s \<noteq> None"
proof -
  let ?s = "parse_args [''snc''] about_to_wait"
  let ?t = "?s\<lparr>m_pc := M_blocked, w_pc := W_blocked\<rparr>"
  have s: "m_pc ?s = M_signal" "w_pc ?s = W_wait" "pending_work ?s \<noteq> None"
    by (simp_all add: parse_args_def cmds_def mk_command_def shell_init_def)
  have "shell_reachable ?s"
    by (rule reach_master [OF reach_about_to_wait master_reads [OF _ _ lines_read(1)]]) (simp_all add: shell_init_def)
  then have "shell_reachable (?s\<lparr>m_pc := M_check\<rparr>)"
    using reach_master master_signals [of ?s] s by (simp add: signal_worker_def)
  then have "shell_reachable (?s\<lparr>m_pc := M_wait\<rparr>)" using reach_master master_checks [of "?s\<lparr>m_pc := M_check\<rparr>"] s(3) by fastforce
  then have "shell_reachable (?s\<lparr>m_pc := M_blocked\<rparr>)" using reach_master master_waits [of "?s\<lparr>m_pc := M_wait\<rparr>"] by fastforce
  then have "shell_reachable ?t" using reach_worker worker_waits [of "?s\<lparr>m_pc := M_blocked\<rparr>"] s(2) by fastforce
  then show ?thesis using stuck_states [of ?t] s(3) by auto
qed

lemma exit_sticks: "\<exists>s. shell_reachable s \<and> stuck s \<and> m_pc s = M_done \<and> w_pc s \<noteq> W_out"
proof -
  let ?s = "parse_args [''exit''] about_to_wait"
  let ?t = "?s\<lparr>m_pc := M_done, w_pc := W_blocked\<rparr>"
  have s: "m_pc ?s = M_exit" "w_pc ?s = W_wait" "master_quit ?s"
    by (simp_all add: parse_args_def cmds_def mk_command_def shell_init_def)
  have "shell_reachable ?s"
    by (rule reach_master [OF reach_about_to_wait master_reads [OF _ _ lines_read(2)]]) (simp_all add: shell_init_def)
  then have "shell_reachable (?s\<lparr>m_pc := M_loop\<rparr>)" using reach_master master_exits [of ?s] s by (simp add: signal_worker_def)
  then have "shell_reachable (?s\<lparr>m_pc := M_done\<rparr>)" using reach_master master_ends [of "?s\<lparr>m_pc := M_loop\<rparr>"] s(3) by fastforce
  then have "shell_reachable ?t" using reach_worker worker_waits [of "?s\<lparr>m_pc := M_done\<rparr>"] s(2) by fastforce
  then show ?thesis using stuck_states [of ?t] by auto
qed

text \<open>C26. Commands of the shell that have a thread of their own. In every interleaving of master and worker,
  spurious wake-ups included, the worker has run the commands handed over in their order, each
  once, the one pending excepted, and the master reads on only when none is pending. But a
  wake-up can be lost: as the condition variables are used without their mutexes, a state is
  reachable in which both threads wait for ever with a command pending, and another in which
  the shell has ended and the worker, for which the process waits, does not end.
\<close>

theorem shell_handover:
  "(\<forall>s. shell_reachable s \<longrightarrow> ran s @ unfinished s = handed s \<and> (m_pc s = M_loop \<longrightarrow> ran s = handed s \<and> pending_work s = None)) \<and>
   (\<exists>s. shell_reachable s \<and> stuck s \<and> pending_work s \<noteq> None) \<and>
   (\<exists>s. shell_reachable s \<and> stuck s \<and> m_pc s = M_done \<and> w_pc s \<noteq> W_out)"
proof (intro conjI allI impI)
  fix s
  assume "shell_reachable s"
  then have "shell_inv s" by (rule reachable_inv)
  then show "ran s @ unfinished s = handed s"
    and "m_pc s = M_loop \<Longrightarrow> ran s = handed s" "m_pc s = M_loop \<Longrightarrow> pending_work s = None"
    by (auto simp: shell_inv_def unfinished_def)
qed (use handover_sticks exit_sticks in blast)+

theorem shell_handover_witness:
  "ran shell_init @ unfinished shell_init = handed shell_init"
  using shell_handover shell_start by blast

end
