(* ===== verification/Tcp_Open.thy ===== *)
theory Tcp_Open
  imports Tcp_Sock
begin

text \<open>
  Opening a connection, across \<^verbatim>\<open>tcp_listen\<close>, the table of connections, \<^verbatim>\<open>tcp_process\<close>
  and the calls \<^verbatim>\<open>tcp_accept\<close> and \<^verbatim>\<open>tcp_connect\<close>, on a device that does not re-enter
  the stack.
\<close>

section \<open>The child of a listening sock\<close>

lemma est_ok_fresh:
  assumes "est_ok w" "hash_list (socks w c) = None" "htab w' = htab w"
    and "\<And>j. hash_list (socks w' j) = hash_list (socks w j)"
    and "\<And>j. j \<noteq> c \<Longrightarrow> conn_id (socks w' j) = conn_id (socks w j)"
  shows "est_ok w'" "connected w' = connected w"
proof -
  show con: "connected w' = connected w" using assms(4) by (simp add: connected_def)
  have c: "c \<notin> connected w" using assms(2) by (simp add: connected_def)
  have id: "conn_id (socks w' j) = conn_id (socks w j)" if "j \<in> connected w" for j
    using assms(5) [of j] c that by blast
  have "inj_on (\<lambda>i. conn_id (socks w' i)) (connected w')"
    using est_okD(4) [OF assms(1)] id unfolding con by (simp add: inj_on_def)
  moreover have "h = tcp_ehashfn (sk_saddr (socks w' i)) (sk_daddr (socks w' i)) (sk_sport (socks w' i)) (sk_dport (socks w' i))"
    if "hash_list (socks w' i) = Some (HEst h)" for i h
  proof -
    have "i \<noteq> c" "hash_list (socks w i) = Some (HEst h)" using that assms(2,4) by auto
    then show ?thesis using est_okD(3) [OF assms(1)] assms(5) [of i] by (simp add: conn_id_def)
  qed
  ultimately show "est_ok w'"
    using assms(1) unfolding est_ok_def assms(3,4) by blast
qed

text \<open>The sock a SYN creates, before the connection is hashed.\<close>

definition child_init :: "tcp_segment \<Rightarrow> tcp_sock" where
  "child_init seg =
     (zero_sock TCP_OPS)\<lparr>rcv_wnd := 4096, state := TCP_SYN_RECV, sk_saddr := ip_dst (seg_pkt seg),
       sk_daddr := ip_src (seg_pkt seg), sk_sport := seg_dst seg, sk_dport := seg_src seg\<rparr>"

definition seg_conn :: "tcp_segment \<Rightarrow> u32 \<times> u32 \<times> u16 \<times> u16" where
  "seg_conn seg = (ip_dst (seg_pkt seg), ip_src (seg_pkt seg), seg_dst seg, seg_src seg)"

lemma child_sock_spec:
  assumes proto: "sk_protocol (socks w i) = 0 \<or> sk_protocol (socks w i) = 6"
    and ok: "est_ok w" and fresh: "hash_list (socks w (alloc_socks w)) = None"
    and new: "\<forall>j \<in> connected w. conn_id (socks w j) \<noteq> seg_conn seg"
    and i: "i < alloc_socks w"
  defines "c \<equiv> alloc_socks w"
  obtains w' where "tcp_listen_child_sock i seg w = (Some c, w')"
    and "socks w' c = (child_init seg)\<lparr>sk_hash := conn_hash (child_init seg),
           hash_list := Some (HEst (conn_hash (child_init seg))), sk_refcnt := 2, parent := Parent i,
           tsk_list := Some (ListenQ i)\<rparr>"
    and "socks w' i = (socks w i)\<lparr>sk_refcnt := sk_refcnt (socks w i) + 1, listen_queue := c # listen_queue (socks w i)\<rparr>"
    and "est_ok w'" "connected w' = insert c (connected w)" "tcp_iss w' = tcp_iss w" "sockets w' = sockets w"
proof -
  define w1 where "w1 = upd_sk c (\<lambda>_. child_init seg) (w\<lparr>alloc_socks := c + 1, tcp_id := tcp_id w + 1\<rparr>)"
  have ci: "c \<noteq> i" using i by (simp add: c_def)
  have ok1: "est_ok w1" and con1: "connected w1 = connected w"
    using est_ok_fresh [OF ok fresh, of w1]
    by (auto simp: w1_def upd_sk_def c_def fresh child_init_def zero_sock_def)
  have free: "\<forall>j \<in> connected w1. conn_id (socks w1 j) \<noteq> conn_id (socks w1 c)"
  proof
    fix j assume j: "j \<in> connected w1"
    then have "j \<noteq> c" using fresh unfolding con1 by (auto simp: connected_def c_def)
    then show "conn_id (socks w1 j) \<noteq> conn_id (socks w1 c)"
      using new j unfolding con1 by (simp add: w1_def upd_sk_def child_init_def conn_id_def seg_conn_def)
  qed
  have c1: "socks w1 c = child_init seg" by (simp add: w1_def upd_sk_def)
  have st: "state (socks w1 c) = TCP_SYN_RECV" by (simp add: c1 child_init_def)
  define w2 where "w2 = sock_add_hash c (HEst (conn_hash (socks w1 c)))
      (upd_sk c (\<lambda>sk. sk\<lparr>sk_hash := conn_hash (socks w1 c)\<rparr>) w1)"
  have h: "tcp_hash c w1 = (0, w2)"
    using tcp_hash_est [of w1 c] st ok1 free by (auto simp: w2_def)
  define w3 where "w3 = get_tcp_sock c (upd_sk c (\<lambda>sk. sk\<lparr>tsk_list := Some (ListenQ i)\<rparr>)
      (upd_sk i (\<lambda>sk. sk\<lparr>listen_queue := c # listen_queue sk\<rparr>)
        (upd_sk c (\<lambda>sk. sk\<lparr>parent := Parent i\<rparr>) (get_tcp_sock i w2))))"
  have "tcp_alloc_sock (int (unat (sk_protocol (socks w i)))) w =
      (Some c, upd_sk c (\<lambda>_. (zero_sock TCP_OPS)\<lparr>rcv_wnd := 4096\<rparr>) (w\<lparr>alloc_socks := c + 1, tcp_id := tcp_id w + 1\<rparr>))"
    using proto by (auto simp: tcp_alloc_sock_def new_sock_def upd_sk_def c_def)
  then have run: "tcp_listen_child_sock i seg w = (Some c, w3)"
    using h by (simp add: tcp_listen_child_sock_def w3_def w1_def upd_sk_def child_init_def Let_def)
  have "hash_list (socks w1 c) = None" by (simp add: c1 child_init_def zero_sock_def)
  note add = est_ok_add [OF ok1 this free, of w3 "conn_hash (socks w1 c)"]
  have f3: "conn_id (socks w3 j) = conn_id (socks w1 j)"
    "hash_list (socks w3 j) = (if j = c then Some (HEst (conn_hash (socks w1 c))) else hash_list (socks w1 j))"
    "htab w3 g = (if g = HEst (conn_hash (socks w1 c)) then c # htab w1 g else htab w1 g)" for j g
    by (simp_all add: w3_def w2_def get_tcp_sock_def get_sock_def sock_add_hash_def upd_sk_def conn_id_def Let_def)
  have "est_ok w3" "connected w3 = insert c (connected w)"
    using add [OF f3 refl] by (simp_all add: con1)
  then show ?thesis
    using that [OF run] ci
    by (simp add: w3_def w2_def w1_def get_tcp_sock_def get_sock_def sock_add_hash_def upd_sk_def Let_def child_init_def zero_sock_def)
qed

text \<open>The child after the SYN has been answered.\<close>

definition syn_child :: "tcp_segment \<Rightarrow> nat \<Rightarrow> u32 \<Rightarrow> tcp_sock" where
  "syn_child seg i s =
     (child_init seg)\<lparr>sk_hash := conn_hash (child_init seg), hash_list := Some (HEst (conn_hash (child_init seg))),
       sk_refcnt := 2, parent := Parent i, tsk_list := Some (ListenQ i), irs := seg_seq seg, iss := s,
       rcv_nxt := seg_seq seg + 1, snd_nxt := s + 1, snd_una := s\<rparr>"

lemma syn_child_unrouted: "syn_child seg i s = unrouted (syn_child seg i s)"
  by (simp add: syn_child_def child_init_def zero_sock_def unrouted_def)

lemma free_pkb_stack [simp]:
  fixes w :: "'a stack_scheme"
  shows "socks (free_pkb p w) = socks w" "htab (free_pkb p w) = htab w" "sockets (free_pkb p w) = sockets w"
  using more_eqD [of "free_pkb p w" w] by simp_all

lemma free_pkb_exited [simp]: "exited (free_pkb p w) = exited w"
  by (simp add: free_pkb_def Let_def)

lemma est_ok_sends:
  assumes "same_conns w w'"
  shows "est_ok w' = est_ok w" "connected w' = connected w"
  using same_connsD [OF assms] unroutedD [OF same_connsD(1) [OF assms]]
  by (simp_all add: est_ok_def connected_def conn_id_def inj_on_def)

lemma est_ok_vars:
  assumes "htab w' = htab w" "\<And>j. conn_id (socks w' j) = conn_id (socks w j)"
    "\<And>j. hash_list (socks w' j) = hash_list (socks w j)"
  shows "est_ok w' = est_ok w" "connected w' = connected w"
  using assms by (simp_all add: est_ok_def connected_def conn_id_def inj_on_def)

context link_below
begin

lemma listen_syn:
  assumes child: "tcp_listen_child_sock i seg w = (Some c, w1)"
    and c: "socks w1 c = (child_init seg)\<lparr>sk_hash := conn_hash (child_init seg),
           hash_list := Some (HEst (conn_hash (child_init seg))), sk_refcnt := 2, parent := Parent i,
           tsk_list := Some (ListenQ i)\<rparr>"
    and f: "syn (seg_ctl seg)" "\<not> ack (seg_ctl seg)" "\<not> rst (seg_ctl seg)"
    and w': "w' = tcp_listen xmit pkb seg i w"
  shows "unrouted (socks w' c) = syn_child seg i (fst (alloc_new_iss w1))"
    and "j \<noteq> c \<Longrightarrow> unrouted (socks w' j) = unrouted (socks w1 j)"
    and "est_ok w' = est_ok w1" "connected w' = connected w1" "sockets w' = sockets w1"
proof -
  define s where "s = fst (alloc_new_iss w1)"
  define hh where "hh = conn_hash (child_init seg)"
  define w3 where "w3 = upd_sk c (\<lambda>sk. sk\<lparr>irs := seg_seq seg, iss := s, rcv_nxt := seg_seq seg + 1\<rparr>) (w1\<lparr>tcp_iss := s\<rparr>)"
  define w4 where "w4 = tcp_send_synack xmit c seg w3"
  have s4: "same_conns w3 w4" unfolding w4_def by (rule tcp_sends_conns)
  note d = same_connsD [OF s4]
  have run: "w' = free_pkb pkb (upd_sk c (\<lambda>sk. sk\<lparr>snd_nxt := iss sk + 1, snd_una := iss sk\<rparr>) w4)"
    using f child by (simp add: w' tcp_listen_def w4_def w3_def s_def alloc_new_iss_def Let_def)
  have is4: "iss (socks w4 c) = s" using unroutedD(33) [OF d(1), of c] by (simp add: w3_def upd_sk_def)
  have u: "unrouted (socks w4 c) = unrouted (socks w3 c)" by (rule d(1))
  show "unrouted (socks w' c) = syn_child seg i (fst (alloc_new_iss w1))"
  proof -
    have "unrouted (socks w' c) = (unrouted (socks w4 c))\<lparr>snd_nxt := s + 1, snd_una := s\<rparr>"
      by (simp add: run upd_sk_def unrouted_def is4)
    also have "\<dots> = syn_child seg i s"
      using c [folded hh_def] unfolding u syn_child_def hh_def [symmetric]
      by (simp add: w3_def upd_sk_def unrouted_def child_init_def zero_sock_def)
    finally show ?thesis by (simp add: s_def)
  qed
  show "j \<noteq> c \<Longrightarrow> unrouted (socks w' j) = unrouted (socks w1 j)"
    using d(1) [of j] by (simp add: run w3_def upd_sk_def)
  have "est_ok w' = est_ok w4 \<and> connected w' = connected w4"
    by (intro conjI est_ok_vars) (simp_all add: run upd_sk_def conn_id_def)
  moreover have "est_ok w3 = est_ok w1 \<and> connected w3 = connected w1"
    by (intro conjI est_ok_vars) (simp_all add: w3_def upd_sk_def conn_id_def)
  ultimately show "est_ok w' = est_ok w1" "connected w' = connected w1"
    using est_ok_sends [OF s4] by simp_all
  show "sockets w' = sockets w1" using d(8) by (simp add: run w3_def upd_sk_def)
qed

end

section \<open>The end of the handshake\<close>

text \<open>An acknowledgment without text, flags or sequence space.\<close>

definition bare_ack :: "tcp_segment \<Rightarrow> bool" where
  "bare_ack seg \<longleftrightarrow> seg_ctl seg = no_ctl\<lparr>ack := True\<rparr> \<and> seg_dlen seg = 0 \<and> seg_lastseq seg = seg_seq seg"

lemma bare_ackD:
  assumes "bare_ack seg"
  shows "ack (seg_ctl seg)" "\<not> syn (seg_ctl seg)" "\<not> rst (seg_ctl seg)" "\<not> fin (seg_ctl seg)"
    "\<not> psh (seg_ctl seg)" "seg_dlen seg = 0" "seg_lastseq seg = seg_seq seg"
  using assms by (simp_all add: bare_ack_def no_ctl_def)

lemma handshake_ack:
  assumes "state (socks w c) = TCP_SYN_RECV" "parent (socks w c) = Parent i" "state (socks w i) = TCP_LISTEN"
    "\<not> tcp_accept_queue_full (socks w i)" "snd_una (socks w c) \<le> seg_ack seg" "seg_ack seg \<le> snd_nxt (socks w c)"
    "seq_check seg (socks w c) = 0" "bare_ack seg" "\<not> f_acknow (socks w c)" "\<not> f_ackdelay (socks w c)" "c \<noteq> i"
  shows "tcp_process xmit pkb seg (Some c) w =
    free_pkb pkb (upd_sk c (\<lambda>sk. (set_window seg (sk\<lparr>snd_una := seg_ack seg\<rparr>))\<lparr>state := TCP_ESTABLISHED\<rparr>)
      (wake_deref (wait_accept (socks w i)) (tcp_accept_enqueue c i w)))"
proof -
  let ?w1 = "tcp_accept_enqueue c i w"
  have wa: "wait_accept (socks ?w1 i) = wait_accept (socks w i)"
    by (simp add: tcp_accept_enqueue_def unlink_tsk_def upd_sk_def Let_def split: option.split queue_ref.split)
  have fl: "f_acknow (socks ?w1 c) = f_acknow (socks w c)" "f_ackdelay (socks ?w1 c) = f_ackdelay (socks w c)"
    by (simp_all add: tcp_accept_enqueue_def unlink_tsk_def upd_sk_def Let_def split: option.split queue_ref.split)
  have wd: "socks (wake_deref q v) = socks v" for q and v :: "'a stack_scheme"
    by (simp add: wake_deref_def wake_socket_def upd_so_def crash_def split: option.split)
  have "process_steps xmit pkb seg c w =
      (seg, upd_sk c (\<lambda>sk. (set_window seg (sk\<lparr>snd_una := seg_ack seg\<rparr>))\<lparr>state := TCP_ESTABLISHED\<rparr>)
              (wake_deref (wait_accept (socks w i)) ?w1))"
    using assms bare_ackD [OF assms(8)]
    by (simp add: process_steps_def process_ack_def process_text_def tcp_synrecv_ack_def Let_def wa)
  then show ?thesis
    using assms(1,9,10) by (simp add: tcp_process_def process_drop_def wd fl upd_sk_def set_window_def)
qed

lemma accept_woken:
  assumes "accept_queue (socks w i) = c # q" "wait_accept (socks w i) = Some so" "\<not> dead (so_sleep (sockets w so))"
    and "parent (socks w c) = Parent i" "tsk_list (socks w c) = Some (AcceptQ i)" "c \<noteq> i"
  obtains w' where "tcp_accept_wake i w = (Return (Some c), w')" "accept_queue (socks w' i) = q"
    "wait_accept (socks w' i) = None" "parent (socks w' c) = DeadParent" "tsk_list (socks w' c) = None"
    "state (socks w' c) = state (socks w c)" "snd_una (socks w' c) = snd_una (socks w c)"
    "snd_nxt (socks w' c) = snd_nxt (socks w c)" "rcv_nxt (socks w' c) = rcv_nxt (socks w c)"
    "exited w' = exited w" "htab w' = htab w" "\<And>j. conn_id (socks w' j) = conn_id (socks w j)"
    "\<And>j. hash_list (socks w' j) = hash_list (socks w j)"
proof -
  define w1 where "w1 = upd_sk i (\<lambda>sk. sk\<lparr>wait_accept := None\<rparr>) (snd (leave_socket (Some so) w))"
  have s1: "socks w1 = (socks w)(i := (socks w i)\<lparr>wait_accept := None\<rparr>)" "htab w1 = htab w" "exited w1 = exited w"
    by (simp_all add: w1_def leave_socket_def Let_def upd_sk_def upd_so_def split_beta)
  have r: "tcp_accept_wake i w = tcp_accept_rounds 2 i w1"
    using assms(2,3) by (simp add: tcp_accept_wake_def w1_def leave_socket_def sleep_leave_def Let_def)
  have "tcp_accept_rounds 2 i w1 = (Return (Some c), snd (tcp_accept_take i w1))"
    using assms(1) by (simp add: numeral_2_eq_2 s1 tcp_accept_take_def tcp_accept_dequeue_def Let_def split_beta)
  then show ?thesis
    using assms
    by (intro that [of "snd (tcp_accept_take i w1)"])
      (simp_all add: r tcp_accept_take_def tcp_accept_dequeue_def unlink_tsk_def free_sock_def upd_sk_def Let_def
        s1 conn_id_def)
qed

section \<open>The passive open\<close>

lemma new_iss:
  "fst (alloc_new_iss w) \<le> fst (alloc_new_iss w) + 1"
proof -
  let ?s = "fst (alloc_new_iss w)"
  have "?s < 0xffffffff" by (simp add: alloc_new_iss_def Let_def not_le)
  then show ?thesis by (simp add: word_less_nat_alt word_le_nat_alt unat_word_ariths)
qed

text \<open>What the SYN leaves behind in the child and in the listening sock.\<close>

lemma syn_arrives:
  assumes listening: "state (socks w i) = TCP_LISTEN" "sk_protocol (socks w i) = 0 \<or> sk_protocol (socks w i) = 6"
      "i < alloc_socks w"
    and table: "est_ok w" "hash_list (socks w (alloc_socks w)) = None" "\<forall>j \<in> connected w. conn_id (socks w j) \<noteq> seg_conn seg"
    and syn: "syn (seg_ctl seg)" "\<not> ack (seg_ctl seg)" "\<not> rst (seg_ctl seg)"
    and run: "w1 = tcp_process (veth_xmit tap_write) pkb seg (Some i) w" "c = alloc_socks w"
  shows "unrouted (socks w1 c) = unrouted (syn_child seg i (fst (alloc_new_iss w)))"
    and "unrouted (socks w1 i) = unrouted ((socks w i)\<lparr>sk_refcnt := sk_refcnt (socks w i) + 1,
           listen_queue := c # listen_queue (socks w i)\<rparr>)"
    and "est_ok w1" "c \<in> connected w1" "sockets w1 = sockets w"
proof -
  have ci: "i \<noteq> c" using listening(3) run(2) by simp
  obtain v where v: "tcp_listen_child_sock i seg w = (Some c, v)"
    "socks v c = (child_init seg)\<lparr>sk_hash := conn_hash (child_init seg),
           hash_list := Some (HEst (conn_hash (child_init seg))), sk_refcnt := 2, parent := Parent i,
           tsk_list := Some (ListenQ i)\<rparr>"
    "socks v i = (socks w i)\<lparr>sk_refcnt := sk_refcnt (socks w i) + 1, listen_queue := c # listen_queue (socks w i)\<rparr>"
    "est_ok v" "connected v = insert c (connected w)" "tcp_iss v = tcp_iss w" "sockets v = sockets w"
    using child_sock_spec [OF listening(2) table listening(3)] run(2) by blast
  have "w1 = tcp_listen (veth_xmit tap_write) pkb seg i w" using listening(1) run(1) by (simp add: tcp_process_def)
  note syn1 = veth.listen_syn [OF v(1,2) syn this]
  have "fst (alloc_new_iss v) = fst (alloc_new_iss w)" by (simp add: alloc_new_iss_def v(6) Let_def)
  then show "unrouted (socks w1 c) = unrouted (syn_child seg i (fst (alloc_new_iss w)))"
    using syn1(1) syn_child_unrouted by metis
  show "unrouted (socks w1 i) = unrouted ((socks w i)\<lparr>sk_refcnt := sk_refcnt (socks w i) + 1,
           listen_queue := c # listen_queue (socks w i)\<rparr>)"
    using syn1(2) [OF ci] by (simp add: v(3))
  show "est_ok w1" "c \<in> connected w1" "sockets w1 = sockets w" using syn1(3-5) v(4,5,7) by simp_all
qed

text \<open>C5. The passive open, from the SYN to the return of \<^verbatim>\<open>accept\<close>. A listening sock whose user
  waits in \<^verbatim>\<open>accept\<close> receives a SYN of a peer that has no connection yet, and then the
  acknowledgment of its own SYN. The SYN creates a child in SYN-RECEIVED, initialised from the
  segment, and the table of connections delivers the next segments of the peer to it; the
  acknowledgment establishes it, and the woken call returns exactly this child, detached from
  the listener, with the sequence variables the handshake agreed on.
\<close>

theorem passive_open:
  assumes listening: "state (socks w i) = TCP_LISTEN" "sk_protocol (socks w i) = 0 \<or> sk_protocol (socks w i) = 6"
      "i < alloc_socks w" "accept_backlog (socks w i) < backlog (socks w i)" "accept_queue (socks w i) = []"
    and waiting: "wait_accept (socks w i) = Some so" "\<not> dead (so_sleep (sockets w so))"
    and table: "est_ok w" "hash_list (socks w (alloc_socks w)) = None" "\<forall>j \<in> connected w. conn_id (socks w j) \<noteq> seg_conn seg"
    and syn: "syn (seg_ctl seg)" "\<not> ack (seg_ctl seg)" "\<not> rst (seg_ctl seg)" "unat (seg_seq seg) + 4097 < 2 ^ 32"
    and ack: "bare_ack seg2" "seg_seq seg2 = seg_seq seg + 1" "seg_ack seg2 = fst (alloc_new_iss w) + 1"
    and run: "w1 = tcp_process (veth_xmit tap_write) pkb seg (Some i) w" "c = alloc_socks w"
      "w2 = tcp_process (veth_xmit tap_write) pkb2 seg2 (Some c) w1"
  shows "state (socks w1 c) = TCP_SYN_RECV \<and> rcv_nxt (socks w1 c) = seg_seq seg + 1 \<and>
    snd_una (socks w1 c) = fst (alloc_new_iss w) \<and>
    tcp_lookup_sock_establish (ip_src (seg_pkt seg)) (ip_dst (seg_pkt seg)) (seg_src seg) (seg_dst seg) w1 = Some c \<and>
    (\<exists>w3. tcp_accept_wake i w2 = (Return (Some c), w3) \<and> state (socks w3 c) = TCP_ESTABLISHED \<and>
       parent (socks w3 c) = DeadParent \<and> accept_queue (socks w3 i) = [] \<and>
       snd_una (socks w3 c) = fst (alloc_new_iss w) + 1 \<and> snd_nxt (socks w3 c) = snd_una (socks w3 c) \<and>
       rcv_nxt (socks w3 c) = seg_seq seg + 1 \<and> exited w3 = exited w1 \<and> est_ok w3 \<and>
       tcp_lookup_sock_establish (ip_src (seg_pkt seg)) (ip_dst (seg_pkt seg)) (seg_src seg) (seg_dst seg) w3 = Some c)"
proof -
  let ?s = "fst (alloc_new_iss w)"
  have ci: "c \<noteq> i" using listening(3) run(2) by simp
  note syn1 = syn_arrives [OF listening(1-3) table syn(1-3) run(1,2)]
  note fc = unroutedD [OF syn1(1)]
  note fi = unroutedD [OF syn1(2)]
  have c1: "state (socks w1 c) = TCP_SYN_RECV" "parent (socks w1 c) = Parent i" "rcv_nxt (socks w1 c) = seg_seq seg + 1"
    "rcv_wnd (socks w1 c) = 4096" "snd_una (socks w1 c) = ?s" "snd_nxt (socks w1 c) = ?s + 1"
    "tsk_list (socks w1 c) = Some (ListenQ i)" "\<not> f_acknow (socks w1 c)" "\<not> f_ackdelay (socks w1 c)"
    "conn_id (socks w1 c) = seg_conn seg"
    by (simp_all add: fc conn_id_def) (simp_all add: syn_child_def child_init_def zero_sock_def seg_conn_def)
  have i1: "state (socks w1 i) = TCP_LISTEN" "\<not> tcp_accept_queue_full (socks w1 i)" "wait_accept (socks w1 i) = Some so"
    "accept_queue (socks w1 i) = []" "so_sleep (sockets w1 so) = so_sleep (sockets w so)"
    using listening waiting by (simp_all add: fi syn1(5) tcp_accept_queue_full_def)
  note est1 = syn1(3,4)
  have seq: "seq_check seg2 (socks w1 c) = 0"
    using ack(2) bare_ackD(7) [OF ack(1)] syn(4)
    by (simp add: seq_check_def c1 word_less_nat_alt unat_word_ariths)
  define v2 where "v2 = wake_socket so (tcp_accept_enqueue c i w1)"
  have w2: "w2 = free_pkb pkb2 (upd_sk c (\<lambda>sk. (set_window seg2 (sk\<lparr>snd_una := ?s + 1\<rparr>))\<lparr>state := TCP_ESTABLISHED\<rparr>) v2)"
    using handshake_ack [OF c1(1,2) i1(1,2) _ _ seq ack(1) c1(8,9) ci, of "veth_xmit tap_write" pkb2] new_iss [of w] ack(3) run(3) i1(3)
    by (simp add: c1 v2_def wake_deref_def)
  have f2: "accept_queue (socks w2 i) = [c]" "wait_accept (socks w2 i) = Some so" "parent (socks w2 c) = Parent i"
    "tsk_list (socks w2 c) = Some (AcceptQ i)" "state (socks w2 c) = TCP_ESTABLISHED" "snd_una (socks w2 c) = ?s + 1"
    "snd_nxt (socks w2 c) = ?s + 1" "rcv_nxt (socks w2 c) = seg_seq seg + 1" "htab w2 = htab w1"
    "conn_id (socks w2 j) = conn_id (socks w1 j)" "hash_list (socks w2 j) = hash_list (socks w1 j)" for j
    using ci by (simp_all add: w2 v2_def wake_socket_def upd_so_def tcp_accept_enqueue_def unlink_tsk_def c1 i1
        upd_sk_def set_window_def Let_def conn_id_def)
  have ex: "exited w2 = exited w1"
    by (simp add: w2 v2_def wake_socket_def upd_so_def tcp_accept_enqueue_def unlink_tsk_def upd_sk_def c1 Let_def)
  have alive: "\<not> dead (so_sleep (sockets w2 so))"
    using waiting(2) i1(5) by (simp add: w2 v2_def wake_socket_def upd_so_def tcp_accept_enqueue_def unlink_tsk_def
        upd_sk_def c1 Let_def wake_up_def)
  obtain w3 where w3: "tcp_accept_wake i w2 = (Return (Some c), w3)" "accept_queue (socks w3 i) = []"
    "parent (socks w3 c) = DeadParent" "state (socks w3 c) = TCP_ESTABLISHED" "snd_una (socks w3 c) = ?s + 1"
    "snd_nxt (socks w3 c) = ?s + 1" "rcv_nxt (socks w3 c) = seg_seq seg + 1" "exited w3 = exited w1" "htab w3 = htab w1"
    "\<And>j. conn_id (socks w3 j) = conn_id (socks w1 j)" "\<And>j. hash_list (socks w3 j) = hash_list (socks w1 j)"
    using accept_woken [OF f2(1,2) alive f2(3,4) ci] f2(5-) ex by (metis (no_types, lifting))
  have est3: "est_ok w3" "c \<in> connected w3" using est_ok_vars [OF w3(9-11)] est1 by simp_all
  have "conn_id (socks w3 c) = seg_conn seg" using w3(10) c1(10) by simp
  then show ?thesis
    using c1 w3 est3 lookup_establish_iff [OF est1(1)] lookup_establish_iff [OF est3(1)] est1(2)
    by (simp add: seg_conn_def)
qed

text \<open>A segment with the given control octet, for the examples.\<close>

definition ctl_seg :: "u8 \<Rightarrow> u32 \<Rightarrow> u32 \<Rightarrow> tcp_segment" where
  "ctl_seg f sq an =
     \<lparr>seg_seq = sq, seg_ack = an, seg_lastseq = sq, seg_len = 0, seg_dlen = 0, seg_wnd = 0, seg_up = 0,
      seg_text = [], seg_pkt = (replicate 54 0)[47 := f], seg_t = 34\<rparr>"

lemma ctl_seg_fields [simp]: "seg_seq (ctl_seg f sq an) = sq" "seg_ack (ctl_seg f sq an) = an"
  "seg_lastseq (ctl_seg f sq an) = sq" "seg_dlen (ctl_seg f sq an) = 0"
  by (simp_all add: ctl_seg_def)

lemma ctl_seg_flags: "seg_ctl (ctl_seg f sq an) = ctl_of f"
  by (simp add: ctl_seg_def tcp_flags_def rd8_def)

definition listening_stack :: stack where
  "listening_stack =
     stack_bss\<lparr>socks := (\<lambda>_. zero_sock TCP_OPS)(0 := (zero_sock TCP_OPS)\<lparr>state := TCP_LISTEN, backlog := 5,
                          wait_accept := Some 0\<rparr>), alloc_socks := 1\<rparr>"

lemma listening_stack_facts:
  "est_ok listening_stack" "connected listening_stack = {}" "fst (alloc_new_iss listening_stack) = 12345679"
  "state (socks listening_stack 0) = TCP_LISTEN" "alloc_socks listening_stack = 1"
  "wait_accept (socks listening_stack 0) = Some 0" "so_sleep (sockets listening_stack 0) = wait_init"
  "hash_list (socks listening_stack (Suc 0)) = None" "sk_protocol (socks listening_stack 0) = 0"
  "accept_backlog (socks listening_stack 0) = 0" "backlog (socks listening_stack 0) = 5"
  "accept_queue (socks listening_stack 0) = []"
  by (auto simp: est_ok_def connected_def listening_stack_def stack_bss_def zero_sock_def alloc_new_iss_def Let_def
      empty_socket_def inj_on_def stack.defs net.defs bss_def)

theorem passive_open_witness:
  "\<exists>w1 w2 w3. w1 = tcp_process (veth_xmit (\<lambda>_. 0)) (fst (alloc_pkb 54 bss)) (ctl_seg 2 100 0) (Some 0) listening_stack \<and>
     w2 = tcp_process (veth_xmit (\<lambda>_. 0)) (fst (alloc_pkb 54 bss)) (ctl_seg 16 101 12345680) (Some 1) w1 \<and>
     tcp_accept_wake 0 w2 = (Return (Some 1), w3) \<and> state (socks w3 1) = TCP_ESTABLISHED"
proof -
  let ?s = "ctl_seg 2 100 0" and ?a = "ctl_seg 16 101 12345680"
  have f: "syn (seg_ctl ?s)" "\<not> ack (seg_ctl ?s)" "\<not> rst (seg_ctl ?s)" "bare_ack ?a"
    by (simp_all add: bare_ack_def ctl_seg_flags) (simp_all add: no_ctl_def ctl_of_def bit_iff_and_drop_bit_eq_1)
  note F = listening_stack_facts
  show ?thesis
    using passive_open [of listening_stack 0 0 ?s ?a, OF _ _ _ _ _ _ _ _ _ _ _ _ _ _ _ _ _ refl refl refl,
        of "\<lambda>_. 0" "fst (alloc_pkb 54 bss)" "fst (alloc_pkb 54 bss)"] f
    by (auto simp: F wait_init_def)
qed

text \<open>A handshake that completes while nobody waits in \<^verbatim>\<open>accept\<close> ends the process: the
  connection is put into the accept queue and \<^verbatim>\<open>tcp_synrecv_ack\<close> then wakes the waiting
  thread through a pointer that is \<^verbatim>\<open>NULL\<close>.
\<close>

theorem unattended_handshake_crashes:
  assumes "state (socks w c) = TCP_SYN_RECV" "parent (socks w c) = Parent i" "state (socks w i) = TCP_LISTEN"
    "accept_backlog (socks w i) < backlog (socks w i)" "wait_accept (socks w i) = None" "c \<noteq> i"
    "snd_una (socks w c) \<le> seg_ack seg" "seg_ack seg \<le> snd_nxt (socks w c)" "seq_check seg (socks w c) = 0"
    "bare_ack seg" "\<not> f_acknow (socks w c)" "\<not> f_ackdelay (socks w c)"
  shows "exited (tcp_process xmit pkb seg (Some c) w)"
  using handshake_ack [OF assms(1-3) _ assms(7-12,6), of xmit pkb] assms(4,5)
  by (simp add: tcp_accept_queue_full_def wake_deref_def crash_def upd_sk_def)

theorem unattended_handshake_crashes_witness:
  "exited (tcp_process (veth_xmit (\<lambda>_. 0)) (fst (alloc_pkb 54 bss)) (ctl_seg 16 101 6) (Some 1)
     (stack_bss\<lparr>socks := (\<lambda>_. zero_sock TCP_OPS)
        (0 := (zero_sock TCP_OPS)\<lparr>state := TCP_LISTEN, backlog := 5\<rparr>,
         1 := (zero_sock TCP_OPS)\<lparr>state := TCP_SYN_RECV, parent := Parent 0, snd_una := 5, snd_nxt := 6,
                rcv_nxt := 101, rcv_wnd := 4096\<rparr>)\<rparr>))"
  by (rule unattended_handshake_crashes [where i = 0])
    (simp_all add: zero_sock_def bare_ack_def ctl_seg_flags seq_check_def
      no_ctl_def ctl_of_def bit_iff_and_drop_bit_eq_1)

section \<open>The active open\<close>

text \<open>The sock while \<^verbatim>\<open>connect\<close> waits for the answer to its SYN.\<close>

definition syn_sent_sock :: "sock_addr \<Rightarrow> u32 \<Rightarrow> tcp_sock \<Rightarrow> tcp_sock" where
  "syn_sent_sock a s sk =
     (let sk1 = sk\<lparr>sk_daddr := dst_addr a, sk_dport := dst_port a, state := TCP_SYN_SENT, iss := s, snd_una := s,
                   snd_nxt := s + 1\<rparr>
      in sk1\<lparr>sk_hash := conn_hash sk1, hash_list := Some (HEst (conn_hash sk1)), sk_refcnt := sk_refcnt sk + 1,
             wait_connect := sk_sock sk\<rparr>)"

text \<open>
  The octets of a SYN of the sock \<open>sk\<close> to \<open>a\<close> with the sequence number \<open>s\<close>, in a packet or a frame;
  the route and the next hop a segment takes; and where the stack leaves a packet for that hop:
  on the tap device if its hardware address is known, otherwise in the queue of the ARP entry
  that waits for it, which may be a new one.
\<close>

definition syn_octets :: "'a sock_scheme \<Rightarrow> sock_addr \<Rightarrow> u32 \<Rightarrow> octets \<Rightarrow> bool" where
  "syn_octets sk a s b \<longleftrightarrow>
     length b = 54 \<and> ip_len b = htons 40 \<and> ip_pro b = IP_P_TCP \<and> ip_src b = sk_saddr sk \<and> ip_dst b = dst_addr a \<and>
     tcp_src 34 b = sk_sport sk \<and> tcp_dst 34 b = dst_port a \<and> tcp_seq 34 b = htonl s \<and>
     tcp_flags 34 b = no_ctl\<lparr>syn := True\<rparr>"

definition route_to :: "'b sock_scheme \<Rightarrow> u32 \<Rightarrow> 'a stack_scheme \<Rightarrow> rtentry option" where
  "route_to sk dst w = (case sk_dst sk of Some rt \<Rightarrow> Some rt | None \<Rightarrow> rt_lookup dst w)"

definition hop_of :: "rtentry \<Rightarrow> u32 \<Rightarrow> u32" where
  "hop_of rt dst = (if rt_flags rt AND RT_DEFAULT \<noteq> 0 \<or> rt_metric rt > 0 then rt_gw rt else dst)"

definition handed_over ::
  "(octets \<Rightarrow> bool) \<Rightarrow> (octets \<Rightarrow> int) \<Rightarrow> u32 \<Rightarrow> 'a net_scheme \<Rightarrow> 'a net_scheme \<Rightarrow> bool" where
  "handed_over P tap_write hop w w' \<longleftrightarrow>
     (case arp_lookup ETH_P_IP hop w of
        Some n \<Rightarrow>
          if ae_state (arp_cache w ! n) = ARP_WAITING
          then \<exists>p. ae_list (arp_cache w' ! n) = ae_list (arp_cache w ! n) @ [p] \<and> P (pk_data p)
          else (\<forall>f. tap_write f = int (length f)) \<longrightarrow> (\<exists>f. tap_out w' = tap_out w @ [f] \<and> P f)
      | None \<Rightarrow>
          (\<forall>n. fst (arp_alloc w) = Some n \<longrightarrow>
             ae_state (arp_cache w' ! n) = ARP_WAITING \<and> ae_ipaddr (arp_cache w' ! n) = hop \<and>
             (\<exists>p. ae_list (arp_cache w' ! n) = [p] \<and> P (pk_data p))))"

lemma rd_memcpy:
  assumes "off + length src \<le> k" "off + length src \<le> length b"
  shows "rd8 (memcpy_at off src b) k = rd8 b k" "rd16 (memcpy_at off src b) k = rd16 b k" "rd32 (memcpy_at off src b) k = rd32 b k"
proof -
  have "rd8 (memcpy_at off src b) j = rd8 b j" if "off + length src \<le> j" for j
    using that assms(2) nth_memcpy_at [of off src b j] by (simp add: rd8_def)
  then show "rd8 (memcpy_at off src b) k = rd8 b k" "rd16 (memcpy_at off src b) k = rd16 b k" "rd32 (memcpy_at off src b) k = rd32 b k"
    using assms(1) by (simp_all add: rd16_def rd32_def)
qed

lemma syn_octets_frame:
  assumes "syn_octets sk a s b"
  shows "length (tx_frame lit dev 40 proto b) = 54" "syn_octets sk a s (tx_frame lit dev 40 proto b)"
proof -
  have l: "length b = 54" using assms by (simp add: syn_octets_def)
  then show "length (tx_frame lit dev 40 proto b) = 54" by (simp add: tx_frame_def hwacpy_def)
  then show "syn_octets sk a s (tx_frame lit dev 40 proto b)"
    using assms l
    by (simp add: syn_octets_def tx_frame_def hwacpy_def ip_field_defs tcp_src_def tcp_dst_def tcp_seq_def tcp_flags_def
        rd_take rd_memcpy octet_simps)
qed

lemma syn_octets_built:
  assumes "sk_dport sk = dst_port a" "length b0 = 54"
  shows "syn_octets sk a s (ip_set_checksum (tcp_set_checksum 34 (set_ip_src (sk_saddr sk) (set_ip_dst (dst_addr a)
     (set_ip_pro IP_P_TCP (set_ip_ttl 64 (set_ip_fragoff 0 (set_ip_id v (set_ip_len (htons 40) (set_ip_tos 0 (set_ip_ver_hlen 4 5
       (put_tcp (sk_sport sk) (sk_dport sk) (htonl s) 0 (no_ctl\<lparr>syn := True\<rparr>) win b0))))))))))))"
proof -
  obtain c1 where c1: "tcp_set_checksum 34 b = wr16 50 (c1 b) b" for b by (rule that) (simp add: tcp_set_checksum_def Let_def)
  obtain c2 where c2: "ip_set_checksum b = wr16 24 (c2 b) b" for b using ip_set_checksum_wr by metis
  show ?thesis
    using assms
    by (simp add: c1 c2 syn_octets_def put_tcp_def Let_def ip_field_defs set_ip_field_defs tcp_src_def tcp_dst_def tcp_seq_def
        tcp_flags_def octet_simps)
qed

text \<open>Output of such a packet over a route whose first hop is not this host.\<close>

lemma arp_lookup_bound: "arp_lookup pro addr w = Some n \<Longrightarrow> n < 20"
  by (auto simp: arp_lookup_def find_Some_iff)

lemma send_dev_hands_over:
  assumes "pk_rtdst p = Some rt" "rt_flags rt AND RT_LOCALHOST = 0" "pk_len p = 54" "syn_octets sk a s (pk_data p)" "arp_ok w"
  shows "handed_over (syn_octets sk a s) tap_write (hop_of rt (dst_addr a)) w (ip_send_dev (veth_xmit tap_write) d p w)"
proof -
  let ?h = "hop_of rt (dst_addr a)" and ?w' = "ip_send_dev (veth_xmit tap_write) d p w"
  have len: "length (arp_cache w) = 20" and nxt: "arp_next w < 20" using assms(5) by (simp_all add: arp_ok_def cache_ok_def)
  have hop: "next_hop rt (pk_data p) = ?h" using assms(4) by (simp add: next_hop_def hop_of_def syn_octets_def)
  show ?thesis
  proof (cases "arp_lookup ETH_P_IP ?h w")
    case (Some n)
    have n: "n < 20" using Some by (rule arp_lookup_bound)
    show ?thesis
    proof (cases "ae_state (arp_cache w ! n) = ARP_WAITING")
      case True
      then show ?thesis using assms(1,2,4) Some hop n len by (auto simp: handed_over_def ip_send_dev_def upd_ae_def Let_def)
    next
      case False
      have "tap_out ?w' = tap_out w @ [tx_frame (lit_empty w) (devs w d) 40 ETH_P_IP (pk_data p)]"
        if "\<forall>f. tap_write f = int (length f)"
        using assms(1-3) Some hop False that veth_tx(1) [of tap_write w d 40 ETH_P_IP p] syn_octets_frame(1) [OF assms(4)]
        by (simp add: ip_send_dev_def Let_def)
      then show ?thesis using Some False syn_octets_frame(2) [OF assms(4)] by (auto simp: handed_over_def)
    qed
  next
    case None
    show ?thesis
    proof (cases "arp_alloc w")
      case (Pair r w1)
      show ?thesis
      proof (cases r)
        case None': None
        then show ?thesis using None Pair by (simp add: handed_over_def)
      next
        case (Some n)
        note al = arp_alloc_SomeD [OF Pair [unfolded Some] nxt]
        have "arp_cache ?w' = (arp_cache w1)[n := (arp_cache w1 ! n)\<lparr>ae_ipaddr := ?h, ae_dev := Some d,
            ae_list := ae_list (arp_cache w1 ! n) @ [p]\<rparr>]"
          using assms(1,2) None Pair Some hop by (simp add: ip_send_dev_def Let_def) (simp add: upd_ae_def)
        then show ?thesis using None Pair Some al(1,4) len assms(4) by (simp add: handed_over_def)
      qed
    qed
  qed
qed

lemma handed_over_cong:
  assumes "arp_cache v = arp_cache w" "arp_next v = arp_next w" "tap_out v = tap_out w"
  shows "handed_over P tap_write hop v w' = handed_over P tap_write hop w w'"
  using assms by (simp add: handed_over_def arp_lookup_def arp_alloc_def split: prod.split bool.split option.split)

lemma set_ip_src_idem: "set_ip_src u (set_ip_src v b) = set_ip_src u b"
  by (simp add: set_ip_src_def wr32_def wr16_commute [of 26 28])

lemma send_syn_hands_over:
  assumes "route_to (socks w i) (dst_addr a) w = Some rt" "rt_flags rt AND RT_LOCALHOST = 0"
    "40 \<le> net_mtu (devs w (rt_dev rt))" "arp_ok w" "sk_dport (socks w i) = dst_port a" "sk_daddr (socks w i) = dst_addr a"
    "iss (socks w i) = s"
  shows "handed_over (syn_octets (socks w i) a s) tap_write (hop_of rt (dst_addr a)) w (tcp_send_syn (veth_xmit tap_write) i None w)"
proof -
  define pk where "pk = fst (alloc_pkb 54 w)"
  define w1 where "w1 = snd (alloc_pkb 54 w)"
  have al: "alloc_pkb 54 w = (pk, w1)" by (simp add: pk_def w1_def)
  have w1: "socks w1 = socks w" "arp_cache w1 = arp_cache w" "arp_next w1 = arp_next w" "tap_out w1 = tap_out w" "devs w1 = devs w"
    "rt_head w1 = rt_head w"
    by (simp_all add: w1_def alloc_pkb_def pkb_safe_def Let_def)
  have pk: "pk_len pk = 54" "length (pk_data pk) = 54" by (simp_all add: pk_def alloc_pkb_def Let_def)
  define b where "b = put_tcp (sk_sport (socks w i)) (sk_dport (socks w i)) (htonl s) 0 (no_ctl\<lparr>syn := True\<rparr>)
      (htons (ucast (rcv_wnd (socks w i)))) (pk_data pk)"
  define d where "d = tcp_set_checksum 34 (set_ip_src (sk_saddr (socks w i)) (set_ip_dst (dst_addr a) (set_ip_pro IP_P_TCP (set_ip_ttl 64
      (set_ip_fragoff 0 (set_ip_id (htons (ucast (tcp_id w1))) (set_ip_len (htons 40) (set_ip_tos 0 (set_ip_ver_hlen 4 5 b)))))))))"
  have syn: "syn_octets (socks w i) a s (ip_set_checksum d)"
    unfolding d_def b_def by (rule syn_octets_built) (use assms(5) pk(2) in simp_all)
  define v where "v = (case sk_dst (socks w i) of Some _ \<Rightarrow> w1 | None \<Rightarrow> upd_sk i (\<lambda>sk. sk\<lparr>sk_dst := Some rt\<rparr>) w1)"
  have v: "arp_cache v = arp_cache w" "arp_next v = arp_next w" "tap_out v = tap_out w" "devs v = devs w"
    by (simp_all add: v_def w1 upd_sk_def split: option.split)
  define p where "p = pk\<lparr>pk_rtdst := Some rt, pk_data := d\<rparr>"
  have ini: "tcp_init_pkb (Some i) (pk\<lparr>pk_data := b\<rparr>) (sk_saddr (socks w i)) (dst_addr a) w1 =
      Some (pk\<lparr>pk_rtdst := Some rt, pk_data := set_ip_src (sk_saddr (socks w i)) (set_ip_dst (dst_addr a) (set_ip_pro IP_P_TCP (set_ip_ttl 64
      (set_ip_fragoff 0 (set_ip_id (htons (ucast (tcp_id w1))) (set_ip_len (htons 40) (set_ip_tos 0 (set_ip_ver_hlen 4 5 b))))))))\<rparr>, v)"
    using assms(1) pk(2) w1
    by (auto simp: tcp_init_pkb_def rt_output_def route_to_def rt_lookup_def v_def pk(1) b_def put_tcp_def set_ip_src_idem Let_def
        ip_dst_def set_ip_dst_def octet_simps split: option.splits)
  have "tcp_send_syn (veth_xmit tap_write) i None w = ip_send_out (veth_xmit tap_write) p v"
    using al w1(1) assms(6,7) ini by (simp add: tcp_send_syn_def tcp_send_out_def b_def [symmetric] p_def d_def Let_def)
  also have "\<dots> = ip_send_dev (veth_xmit tap_write) (rt_dev rt) (p\<lparr>pk_pro := ETH_P_IP, pk_data := ip_set_checksum d\<rparr>) v"
    using syn assms(3) by (simp add: ip_send_out_def p_def v(4) syn_octets_def Let_def)
  finally have run: "tcp_send_syn (veth_xmit tap_write) i None w =
      ip_send_dev (veth_xmit tap_write) (rt_dev rt) (p\<lparr>pk_pro := ETH_P_IP, pk_data := ip_set_checksum d\<rparr>) v" .
  have "arp_ok v" using assms(4) by (simp add: arp_ok_def v)
  then have "handed_over (syn_octets (socks w i) a s) tap_write (hop_of rt (dst_addr a)) v (tcp_send_syn (veth_xmit tap_write) i None w)"
    unfolding run by (intro send_dev_hands_over assms(2)) (simp_all add: p_def pk(1) syn)
  then show ?thesis using handed_over_cong v by metis
qed

lemma send_syn_no_route:
  assumes "route_to (socks w i) (dst_addr a) w = None" "sk_daddr (socks w i) = dst_addr a"
  shows "tap_out (tcp_send_syn (veth_xmit tap_write) i None w) = tap_out w"
    "arp_cache (tcp_send_syn (veth_xmit tap_write) i None w) = arp_cache w"
proof -
  define pk where "pk = fst (alloc_pkb 54 w)"
  define w1 where "w1 = snd (alloc_pkb 54 w)"
  have al: "alloc_pkb 54 w = (pk, w1)" by (simp add: pk_def w1_def)
  have w1: "socks w1 = socks w" "arp_cache w1 = arp_cache w" "tap_out w1 = tap_out w" "rt_head w1 = rt_head w"
    by (simp_all add: w1_def alloc_pkb_def pkb_safe_def Let_def)
  have l: "length (pk_data pk) = 54" by (simp add: pk_def alloc_pkb_def Let_def)
  have "tcp_init_pkb (Some i) (pk\<lparr>pk_data := b\<rparr>) s (dst_addr a) w1 = None" if "length b = 54" for b s
    using assms(1) w1 that
    by (auto simp: tcp_init_pkb_def rt_output_def route_to_def rt_lookup_def Let_def ip_dst_def set_ip_dst_def octet_simps
        split: option.splits)
  moreover have "length (put_tcp sp dp sq an f wnd (pk_data pk)) = 54" for sp dp sq an f wnd by (simp add: put_tcp_def Let_def l)
  ultimately have "\<exists>q. tcp_send_syn (veth_xmit tap_write) i None w = free_pkb q w1"
    using al w1(1) assms(2) by (auto simp: tcp_send_syn_def tcp_send_out_def Let_def)
  then obtain q where "tcp_send_syn (veth_xmit tap_write) i None w = free_pkb q w1" by blast
  then show "tap_out (tcp_send_syn (veth_xmit tap_write) i None w) = tap_out w"
    "arp_cache (tcp_send_syn (veth_xmit tap_write) i None w) = arp_cache w"
    using w1 by (simp_all add: free_pkb_def Let_def)
qed

text \<open>What \<^verbatim>\<open>connect\<close> has done with its SYN when it waits.\<close>

definition syn_handled :: "(octets \<Rightarrow> int) \<Rightarrow> tcp_sock \<Rightarrow> sock_addr \<Rightarrow> u32 \<Rightarrow> 'a stack_scheme \<Rightarrow> 'a stack_scheme \<Rightarrow> bool" where
  "syn_handled tap_write sk a s w w' \<longleftrightarrow>
     (case route_to sk (dst_addr a) w of
        None \<Rightarrow> tap_out w' = tap_out w \<and> arp_cache w' = arp_cache w
      | Some rt \<Rightarrow>
          rt_flags rt AND RT_LOCALHOST = 0 \<and> 40 \<le> net_mtu (devs w (rt_dev rt)) \<and> arp_ok w \<longrightarrow>
          handed_over (syn_octets sk a s) tap_write (hop_of rt (dst_addr a)) w w')"

lemma handed_over_result:
  assumes "arp_cache v = arp_cache w'" "tap_out v = tap_out w'"
  shows "handed_over P tap_write hop w v = handed_over P tap_write hop w w'"
  using assms by (simp add: handed_over_def split: option.split)

lemma send_syn_handled:
  assumes "w5 = tcp_send_syn (veth_xmit tap_write) i None w4" "socks w4 i = syn_sent_sock a s sk"
    "arp_cache w4 = arp_cache w" "arp_next w4 = arp_next w" "tap_out w4 = tap_out w" "rt_head w4 = rt_head w" "devs w4 = devs w"
  shows "syn_handled tap_write sk a s w w5"
proof -
  have sk: "sk_dport (socks w4 i) = dst_port a" "sk_daddr (socks w4 i) = dst_addr a" "iss (socks w4 i) = s"
    "sk_dst (socks w4 i) = sk_dst sk"
    by (simp_all add: assms(2) syn_sent_sock_def Let_def)
  have same: "syn_octets (socks w4 i) a s = syn_octets sk a s"
    by (simp add: assms(2) syn_sent_sock_def Let_def syn_octets_def fun_eq_iff)
  have r: "route_to (socks w4 i) (dst_addr a) w4 = route_to sk (dst_addr a) w"
    by (simp add: route_to_def sk(4) rt_lookup_def assms(6) split: option.split)
  show ?thesis
  proof (cases "route_to sk (dst_addr a) w")
    case None
    then show ?thesis using send_syn_no_route [of w4 i a] r sk(2) assms(1,3,5) by (simp add: syn_handled_def)
  next
    case (Some rt)
    then show ?thesis
      using send_syn_hands_over [of w4 i a rt s tap_write] r sk(1-3) same assms(1,7) handed_over_cong [OF assms(3-5)]
      by (auto simp: syn_handled_def arp_ok_def assms(3,4))
  qed
qed

lemma connect_sends_syn:
  assumes "state (socks w i) = TCP_CLOSED" "sk_sock (socks w i) = Some so" "so_sleep (sockets w so) = wait_init"
    "est_ok w" "hash_list (socks w i) = None"
    "\<forall>j \<in> connected w. conn_id (socks w j) \<noteq>
       (sk_saddr (socks w i), dst_addr a, sk_sport (socks w i), dst_port a)"
  obtains w1 where "tcp_connect (veth_xmit tap_write) i a w = (Sleeping, w1)"
    "unrouted (socks w1 i) = unrouted (syn_sent_sock a (fst (alloc_new_iss w)) (socks w i))"
    "est_ok w1" "i \<in> connected w1" "so_sleep (sockets w1 so) = wait_init\<lparr>sleep := True\<rparr>"
    "syn_handled tap_write (socks w i) a (fst (alloc_new_iss w)) w w1"
proof -
  define s where "s = fst (alloc_new_iss w)"
  define sk1 where "sk1 = (socks w i)\<lparr>sk_daddr := dst_addr a, sk_dport := dst_port a, state := TCP_SYN_SENT,
      iss := s, snd_una := s, snd_nxt := s + 1\<rparr>"
  define w2 where "w2 = upd_sk i (\<lambda>_. sk1) (w\<lparr>tcp_iss := s\<rparr>)"
  have i2: "socks w2 i = sk1" by (simp add: w2_def upd_sk_def)
  have hl: "hash_list (socks w2 j) = hash_list (socks w j)" for j by (simp add: w2_def upd_sk_def sk1_def)
  have "conn_id (socks w2 j) = conn_id (socks w j)" if "j \<noteq> i" for j using that by (simp add: w2_def upd_sk_def)
  note ok2 = est_ok_fresh [OF assms(4,5), of w2, OF _ hl this]
  have ok: "est_ok w2" "connected w2 = connected w" by (rule ok2; simp add: w2_def upd_sk_def)+
  have free: "\<forall>j \<in> connected w2. conn_id (socks w2 j) \<noteq> conn_id (socks w2 i)"
  proof
    fix j assume j: "j \<in> connected w2"
    then have "j \<noteq> i" using assms(5) unfolding ok by (auto simp: connected_def)
    then show "conn_id (socks w2 j) \<noteq> conn_id (socks w2 i)"
      using assms(6) j unfolding ok by (simp add: w2_def upd_sk_def sk1_def conn_id_def)
  qed
  define w3 where "w3 = sock_add_hash i (HEst (conn_hash sk1)) (upd_sk i (\<lambda>sk. sk\<lparr>sk_hash := conn_hash sk1\<rparr>) w2)"
  have h: "tcp_hash i w2 = (0, w3)"
    using tcp_hash_est [of w2 i] ok(1) free by (auto simp: i2 w3_def sk1_def)
  define w4 where "w4 = upd_sk i (\<lambda>sk. sk\<lparr>wait_connect := sk_sock sk\<rparr>) w3"
  define w5 where "w5 = tcp_send_syn (veth_xmit tap_write) i None w4"
  have s45: "same_conns w4 w5" unfolding w5_def by (rule veth.tcp_sends_conns)
  note d = same_connsD [OF s45]
  have i4: "socks w4 i = syn_sent_sock a s (socks w i)"
    by (simp add: w4_def w3_def w2_def sock_add_hash_def get_sock_def upd_sk_def Let_def syn_sent_sock_def sk1_def)
  have "syn_handled tap_write (socks w i) a s w w5"
    by (rule send_syn_handled [OF w5_def i4]; simp add: w4_def w3_def w2_def sock_add_hash_def get_sock_def upd_sk_def Let_def)
  note syn5 = this [unfolded syn_handled_def]
  have f4: "conn_id (socks w4 j) = conn_id (socks w2 j)"
    "hash_list (socks w4 j) = (if j = i then Some (HEst (conn_hash sk1)) else hash_list (socks w2 j))"
    "htab w4 g = (if g = HEst (conn_hash sk1) then i # htab w2 g else htab w2 g)" for j g
    by (simp_all add: w4_def w3_def get_sock_def sock_add_hash_def upd_sk_def conn_id_def Let_def)
  have n2: "hash_list (socks w2 i) = None" using assms(5) hl [of i] by simp
  have "conn_hash sk1 = conn_hash (socks w2 i)" by (simp add: i2)
  note est_ok_add [OF ok(1) n2 free f4 this]
  then have ok5: "est_ok w5" "i \<in> connected w5" using est_ok_sends [OF s45] by simp_all
  have i5: "unrouted (socks w5 i) = unrouted (syn_sent_sock a s (socks w i))" using d(1) [of i] by (simp add: i4)
  have wc: "wait_connect (socks w5 i) = Some so"
    using unroutedD(22) [OF i5] assms(2) by (simp add: syn_sent_sock_def Let_def)
  have so5: "so_sleep (sockets w5 so) = wait_init"
    using d(8) assms(3) by (simp add: w4_def w3_def w2_def sock_add_hash_def get_sock_def upd_sk_def Let_def)
  define w6 where "w6 = upd_so so (\<lambda>o'. o'\<lparr>so_sleep := wait_init\<lparr>sleep := True\<rparr>\<rparr>) w5"
  have sl: "sleep_socket (Some so) w5 = (None, w6)"
    by (simp add: sleep_socket_def so5 sleep_enter_def wait_init_def w6_def Let_def)
  have al: "alloc_new_iss (upd_sk i f w) = (s, (upd_sk i f w)\<lparr>tcp_iss := s\<rparr>)" for f
    by (simp add: alloc_new_iss_def s_def Let_def upd_sk_def)
  have "upd_sk i (\<lambda>sk. sk\<lparr>iss := s, snd_una := s, snd_nxt := s + 1\<rparr>)
      ((upd_sk i (\<lambda>sk. sk\<lparr>sk_daddr := dst_addr a, sk_dport := dst_port a, state := TCP_SYN_SENT\<rparr>) w)\<lparr>tcp_iss := s\<rparr>) = w2"
    by (simp add: w2_def sk1_def upd_sk_def)
  then have run: "tcp_connect (veth_xmit tap_write) i a w = (Sleeping, w6)"
    using assms(1) by (simp add: tcp_connect_def al h w4_def [symmetric] w5_def [symmetric] wc sl Let_def)
  have "est_ok w6" "connected w6 = connected w5"
    using est_ok_vars [of w6 w5] ok5 by (simp_all add: w6_def upd_so_def)
  moreover have "syn_handled tap_write (socks w i) a s w w6"
    using syn5 handed_over_result [of w6 w5]
    by (cases "route_to (socks w i) (dst_addr a) w") (simp_all add: syn_handled_def w6_def upd_so_def)
  ultimately show ?thesis
    using that [OF run] i5 ok5(2) by (simp add: w6_def upd_so_def s_def)
qed

lemma connect_woken:
  assumes "wait_connect (socks w i) = Some so" "\<not> dead (so_sleep (sockets w so))"
  obtains w' where "tcp_connect_wake i w = tcp_connect_done i 0 w'" "socks w' = socks w" "htab w' = htab w"
  using assms that [of "snd (leave_socket (Some so) w)"]
  by (simp add: tcp_connect_wake_def leave_socket_def sleep_leave_def Let_def upd_so_def)

lemma unbhash_hash_list [simp]: "hash_list (socks (tcp_unbhash i w) j) = hash_list (socks w j)"
  by (simp add: tcp_unbhash_def free_sock_def upd_sk_def tcp_unset_sport_def Let_def)

text \<open>The two answers to a SYN.\<close>

lemma synack_arrives:
  assumes i1: "state (socks w1 i) = TCP_SYN_SENT" "snd_nxt (socks w1 i) = iss (socks w1 i) + 1"
      "wait_connect (socks w1 i) = Some so" "\<not> dead (so_sleep (sockets w1 so))"
    and seg: "ack (seg_ctl seg)" "iss (socks w1 i) < seg_ack seg" "seg_ack seg = iss (socks w1 i) + 1"
    and w2: "w2 = tcp_process (veth_xmit tap_write) pkb seg (Some i) w1"
    and fl: "syn (seg_ctl seg)" "\<not> rst (seg_ctl seg)"
  shows "\<exists>w3. tcp_connect_wake i w2 = (0, w3) \<and> state (socks w3 i) = TCP_ESTABLISHED \<and>
          rcv_nxt (socks w3 i) = seg_seq seg + 1 \<and> snd_una (socks w3 i) = seg_ack seg \<and>
          snd_nxt (socks w3 i) = seg_ack seg"
proof -
  define u where "u = upd_sk i (\<lambda>sk. sk\<lparr>irs := seg_seq seg, rcv_nxt := seg_seq seg + 1, snd_una := seg_ack seg,
      state := TCP_ESTABLISHED, snd_wnd := seg_wnd seg, snd_wl1 := seg_seq seg, snd_wl2 := seg_ack seg\<rparr>) w1"
  define u1 where "u1 = tcp_send_ack (veth_xmit tap_write) i (Some seg) u"
  have su: "same_conns u u1" unfolding u1_def by (rule veth.tcp_sends_conns)
  note g = unroutedD [OF same_connsD(1) [OF su, of i]]
  have iu: "state (socks u1 i) = TCP_ESTABLISHED" "rcv_nxt (socks u1 i) = seg_seq seg + 1" "snd_una (socks u1 i) = seg_ack seg"
    "snd_nxt (socks u1 i) = seg_ack seg" "wait_connect (socks u1 i) = Some so"
    using i1(2,3) seg(3) by (simp_all add: g u_def upd_sk_def)
  have "w2 = free_pkb pkb (wake_deref (wait_connect (socks u1 i)) u1)"
    using fl seg w2 by (simp add: tcp_process_def tcp_synsent_def i1(1-3) u1_def u_def upd_sk_def Let_def)
  then have e2: "w2 = free_pkb pkb (wake_socket so u1)" by (simp add: iu wake_deref_def)
  have "\<not> dead (so_sleep (sockets w2 so))"
    using i1(4) same_connsD(8) [OF su] by (simp add: e2 wake_socket_def upd_so_def wake_up_def u_def upd_sk_def)
  moreover have s2: "socks w2 = socks u1" by (simp add: e2 wake_socket_def upd_so_def)
  ultimately obtain w' where "tcp_connect_wake i w2 = tcp_connect_done i 0 w'" "socks w' = socks w2"
    using connect_woken [of w2 i so] iu(5) by auto
  then show ?thesis using iu s2 by (simp add: tcp_connect_done_def upd_sk_def Let_def)
qed

lemma reset_arrives:
  assumes i1: "state (socks w1 i) = TCP_SYN_SENT" "snd_nxt (socks w1 i) = iss (socks w1 i) + 1"
      "wait_connect (socks w1 i) = Some so" "\<not> dead (so_sleep (sockets w1 so))"
    and seg: "ack (seg_ctl seg)" "iss (socks w1 i) < seg_ack seg" "seg_ack seg = iss (socks w1 i) + 1"
    and w2: "w2 = tcp_process (veth_xmit tap_write) pkb seg (Some i) w1"
    and fl: "rst (seg_ctl seg)"
  shows "\<exists>w3. tcp_connect_wake i w2 = (-1, w3) \<and> state (socks w3 i) = TCP_CLOSED \<and> i \<notin> connected w3"
proof -
  have e2: "w2 = free_pkb pkb (wake_socket so (tcp_set_state i TCP_CLOSED w1))"
    using fl seg w2 by (simp add: tcp_process_def tcp_synsent_def i1(1-3) wake_ptr_def Let_def)
  have "\<not> dead (so_sleep (sockets w2 so))" "wait_connect (socks w2 i) = Some so" "state (socks w2 i) = TCP_CLOSED"
    using i1(3,4) by (simp_all add: e2 wake_socket_def upd_so_def wake_up_def tcp_set_state_def upd_sk_def)
  moreover obtain w' where "tcp_connect_wake i w2 = tcp_connect_done i 0 w'" "socks w' = socks w2"
    using connect_woken [OF calculation(2,1)] by blast
  ultimately show ?thesis
    by (simp add: tcp_connect_done_def upd_sk_def [of i "state_update f" for f] Let_def)
      (simp add: connected_def tcp_unhash_def sock_del_hash_frame)
qed

text \<open>C15. The active open, over the tap device. \<^verbatim>\<open>connect\<close> on a closed sock whose four-tuple is free
  sends its SYN, with its ports and addresses, the new initial sequence number and no other
  control bit, to the next hop of the route to the peer: onto the tap if the hardware address of
  the hop is known, otherwise into the queue of the ARP entry of the hop, which may be a new one;
  without a route nothing is sent, and \<^verbatim>\<open>connect\<close> waits all the same. It then waits, and the table of connections delivers the segments of the peer to it. A SYN that
  acknowledges the SYN establishes the connection and \<^verbatim>\<open>connect\<close> returns 0; a reset that
  acknowledges it makes \<^verbatim>\<open>connect\<close> return -1 and the sock is closed and out of the table.
\<close>

theorem active_open:
  assumes "state (socks w i) = TCP_CLOSED" "sk_sock (socks w i) = Some so" "so_sleep (sockets w so) = wait_init"
    and "est_ok w" "hash_list (socks w i) = None"
    and "\<forall>j \<in> connected w. conn_id (socks w j) \<noteq> (sk_saddr (socks w i), dst_addr a, sk_sport (socks w i), dst_port a)"
    and "ack (seg_ctl seg)" "seg_ack seg = fst (alloc_new_iss w) + 1"
    and "(r, w1) = tcp_connect (veth_xmit tap_write) i a w" "w2 = tcp_process (veth_xmit tap_write) pkb seg (Some i) w1"
  shows "r = Sleeping \<and> state (socks w1 i) = TCP_SYN_SENT \<and>
    (case route_to (socks w i) (dst_addr a) w of
       None \<Rightarrow> tap_out w1 = tap_out w \<and> arp_cache w1 = arp_cache w
     | Some rt \<Rightarrow>
         rt_flags rt AND RT_LOCALHOST = 0 \<and> 40 \<le> net_mtu (devs w (rt_dev rt)) \<and> arp_ok w \<longrightarrow>
         handed_over (syn_octets (socks w i) a (fst (alloc_new_iss w))) tap_write (hop_of rt (dst_addr a)) w w1) \<and>
    tcp_lookup_sock_establish (dst_addr a) (sk_saddr (socks w i)) (dst_port a) (sk_sport (socks w i)) w1 = Some i \<and>
    (syn (seg_ctl seg) \<and> \<not> rst (seg_ctl seg) \<longrightarrow>
       (\<exists>w3. tcp_connect_wake i w2 = (0, w3) \<and> state (socks w3 i) = TCP_ESTABLISHED \<and>
          rcv_nxt (socks w3 i) = seg_seq seg + 1 \<and> snd_una (socks w3 i) = seg_ack seg \<and>
          snd_nxt (socks w3 i) = seg_ack seg)) \<and>
    (rst (seg_ctl seg) \<longrightarrow>
       (\<exists>w3. tcp_connect_wake i w2 = (-1, w3) \<and> state (socks w3 i) = TCP_CLOSED \<and> i \<notin> connected w3))"
proof -
  let ?s = "fst (alloc_new_iss w)"
  obtain v where v: "tcp_connect (veth_xmit tap_write) i a w = (Sleeping, v)"
    "unrouted (socks v i) = unrouted (syn_sent_sock a ?s (socks w i))"
    "est_ok v" "i \<in> connected v" "so_sleep (sockets v so) = wait_init\<lparr>sleep := True\<rparr>"
    "syn_handled tap_write (socks w i) a ?s w v"
    using connect_sends_syn [OF assms(1-6)] by blast
  have w1: "r = Sleeping" "w1 = v" using v(1) assms(9) by simp_all
  note f = unroutedD [OF v(2), folded w1]
  have i1: "state (socks w1 i) = TCP_SYN_SENT" "iss (socks w1 i) = ?s" "snd_nxt (socks w1 i) = ?s + 1"
    "wait_connect (socks w1 i) = Some so"
    "conn_id (socks w1 i) = (sk_saddr (socks w i), dst_addr a, sk_sport (socks w i), dst_port a)"
    using assms(2) by (simp_all add: f conn_id_def) (simp_all add: syn_sent_sock_def Let_def)
  have lk: "tcp_lookup_sock_establish (dst_addr a) (sk_saddr (socks w i)) (dst_port a) (sk_sport (socks w i)) w1 = Some i"
    using lookup_establish_iff [OF v(3)] v(4) i1(5) w1 by simp
  have gt: "?s < seg_ack seg" "\<not> ?s + 1 < seg_ack seg" using new_iss [of w] assms(8) by (auto simp: less_le)
  have alive: "\<not> dead (so_sleep (sockets w1 so))" using v(5) w1 by (simp add: wait_init_def)
  have "snd_nxt (socks w1 i) = iss (socks w1 i) + 1" "iss (socks w1 i) < seg_ack seg" "seg_ack seg = iss (socks w1 i) + 1"
    using i1 gt assms(8) by simp_all
  note ans = i1(1) this(1) i1(4) alive assms(7) this(2,3) assms(10)
  show ?thesis using synack_arrives [OF ans] reset_arrives [OF ans] i1(1) lk w1(1) v(6) [unfolded syn_handled_def, folded w1(2)]
    by (intro conjI) (simp_all split: option.split)
qed

definition open_sample :: stack where
  "open_sample =
     (let e = arp_cache bss ! 0
      in stack_bss\<lparr>socks := (\<lambda>_. zero_sock TCP_OPS)(0 := (zero_sock TCP_OPS)\<lparr>sk_sock := Some 0\<rparr>),
           rt_head := [rt_alloc 0 0 0 0 0 Veth], devs := (\<lambda>d. (devs bss d)\<lparr>net_mtu := 1500\<rparr>),
           arp_cache := (replicate 20 (e\<lparr>ae_state := ARP_FREE\<rparr>))
             [0 := e\<lparr>ae_state := ARP_RESOLVED, ae_pro := ETH_P_IP, ae_ipaddr := 9, ae_list := []\<rparr>]\<rparr>)"

lemma open_sample_link:
  "arp_ok open_sample" "arp_lookup ETH_P_IP 9 open_sample = Some 0" "ae_state (arp_cache open_sample ! 0) = ARP_RESOLVED"
  "route_to (socks open_sample 0) 9 open_sample = Some (rt_alloc 0 0 0 0 0 Veth)" "net_mtu (devs open_sample d) = 1500"
  "tap_out open_sample = []"
proof -
  show "arp_ok open_sample"
    by (auto simp: arp_ok_def cache_ok_def open_sample_def Let_def nth_list_update ae_serves_def stack_bss_def net.extend_def bss_def)
  show "arp_lookup ETH_P_IP 9 open_sample = Some 0"
    by (simp add: arp_lookup_def upt_rec [of 0 20] open_sample_def Let_def ae_serves_def)
qed (simp_all add: open_sample_def Let_def route_to_def rt_lookup_def rt_matches_def rt_alloc_def zero_sock_def stack_bss_def
    net.extend_def stack.fields_def bss_def)

theorem active_open_witness:
  "\<exists>w1 w2 w3 f. (Sleeping, w1) = tcp_connect (veth_xmit (\<lambda>f. int (length f))) 0 \<lparr>src_addr = 0, dst_addr = 9, src_port = 0, dst_port = 8\<rparr>
       open_sample \<and>
     tap_out w1 = [f] \<and> tcp_flags 34 f = no_ctl\<lparr>syn := True\<rparr> \<and> tcp_seq 34 f = htonl 12345679 \<and>
     w2 = tcp_process (veth_xmit (\<lambda>f. int (length f))) (fst (alloc_pkb 54 bss)) (ctl_seg 18 7 12345680) (Some 0) w1 \<and>
     tcp_connect_wake 0 w2 = (0, w3) \<and> state (socks w3 0) = TCP_ESTABLISHED \<and> rcv_nxt (socks w3 0) = 8"
proof -
  let ?w = open_sample and ?t = "\<lambda>f :: octets. int (length f)"
  let ?a = "\<lparr>src_addr = 0, dst_addr = 9, src_port = 0, dst_port = 8\<rparr>" and ?s = "ctl_seg 18 7 12345680"
  obtain r w1 where r: "(r, w1) = tcp_connect (veth_xmit ?t) 0 ?a ?w" by (metis surj_pair)
  have c: "connected ?w = {}" by (auto simp: connected_def zero_sock_def open_sample_def Let_def)
  have o: "est_ok ?w" "so_sleep (sockets ?w 0) = wait_init"
    by (auto simp: est_ok_def connected_def inj_on_def open_sample_def Let_def zero_sock_def stack_bss_def empty_socket_def
        stack.defs net.defs bss_def)
  have n: "fst (alloc_new_iss ?w) = 12345679"
    by (simp add: alloc_new_iss_def open_sample_def stack_bss_def stack.defs net.defs bss_def Let_def)
  have f: "ack (seg_ctl ?s)" "syn (seg_ctl ?s)" "\<not> rst (seg_ctl ?s)"
    by (simp_all add: ctl_seg_flags ctl_of_def bit_iff_and_drop_bit_eq_1)
  have z: "state (socks ?w 0) = TCP_CLOSED" "sk_sock (socks ?w 0) = Some 0" "hash_list (socks ?w 0) = None"
    by (simp_all add: zero_sock_def open_sample_def Let_def)
  have h: "hop_of (rt_alloc 0 0 0 0 0 Veth) 9 = 9" "rt_flags (rt_alloc 0 0 0 0 0 Veth) = 0" "rt_dev (rt_alloc 0 0 0 0 0 Veth) = Veth"
    by (simp_all add: hop_of_def rt_alloc_def)
  note ao = active_open [OF z(1,2) o(2,1) z(3) _ f(1) _ r refl, of "fst (alloc_pkb 54 bss)"]
  have "r = Sleeping \<and> (\<exists>f. tap_out w1 = [f] \<and> syn_octets (socks ?w 0) ?a 12345679 f)"
    using ao by (simp add: c n h open_sample_link handed_over_def)
  moreover have "\<exists>w3. tcp_connect_wake 0 (tcp_process (veth_xmit ?t) (fst (alloc_pkb 54 bss)) ?s (Some 0) w1) = (0, w3) \<and>
      state (socks w3 0) = TCP_ESTABLISHED \<and> rcv_nxt (socks w3 0) = 8"
    using ao f by (auto simp: c n)
  ultimately show ?thesis using r by (auto simp: syn_octets_def)
qed

end
