(* ===== verification/Linked_List.thy ===== *)
theory Linked_List
  imports Main
begin

text \<open>
  The intrusive lists of \<^verbatim>\<open>tapip/include/list.h\<close> on the pointers they are made of: the circular
  doubly linked lists of \<^verbatim>\<open>struct list_head\<close> and the hash chains of \<^verbatim>\<open>struct hlist_node\<close>, whose
  \<^verbatim>\<open>pprev\<close> is the address of the cell that points to the node. The other theories use lists of
  HOL in their place; the refinements below justify it. An address is a natural number and
  \<open>0\<close> is \<^verbatim>\<open>NULL\<close>; a node and the structure it is a member of are identified.
\<close>

section \<open>Circular lists\<close>

record list_heap =
  nexts :: "nat \<Rightarrow> nat"
  prevs :: "nat \<Rightarrow> nat"

definition set_next :: "nat \<Rightarrow> nat \<Rightarrow> list_heap \<Rightarrow> list_heap" where
  "set_next p v h = h\<lparr>nexts := (nexts h)(p := v)\<rparr>"

definition set_prev :: "nat \<Rightarrow> nat \<Rightarrow> list_heap \<Rightarrow> list_heap" where
  "set_prev p v h = h\<lparr>prevs := (prevs h)(p := v)\<rparr>"

definition list_init :: "nat \<Rightarrow> list_heap \<Rightarrow> list_heap" where
  "list_init head h = set_prev head head (set_next head head h)"

definition list_add_between :: "nat \<Rightarrow> nat \<Rightarrow> nat \<Rightarrow> list_heap \<Rightarrow> list_heap" where
  "list_add_between lst prev nxt h =
     (let h1 = set_prev lst prev h;
          h2 = set_next lst nxt h1;
          h3 = set_prev nxt lst h2
      in set_next prev lst h3)"

definition list_add :: "nat \<Rightarrow> nat \<Rightarrow> list_heap \<Rightarrow> list_heap" where
  "list_add lst head h = list_add_between lst head (nexts h head) h"

definition list_add_tail :: "nat \<Rightarrow> nat \<Rightarrow> list_heap \<Rightarrow> list_heap" where
  "list_add_tail lst head h = list_add_between lst (prevs h head) head h"

definition list_del_between :: "nat \<Rightarrow> nat \<Rightarrow> list_heap \<Rightarrow> list_heap" where
  "list_del_between prev nxt h = set_prev nxt prev (set_next prev nxt h)"

definition list_del :: "nat \<Rightarrow> list_heap \<Rightarrow> list_heap" where
  "list_del lst h =
     (let h1 = list_del_between (prevs h lst) (nexts h lst) h
      in set_next lst 0 (set_prev lst 0 h1))"

definition list_del_init :: "nat \<Rightarrow> list_heap \<Rightarrow> list_heap" where
  "list_del_init lst h =
     (let h1 = list_del_between (prevs h lst) (nexts h lst) h
      in set_next lst lst (set_prev lst lst h1))"

definition list_empty :: "nat \<Rightarrow> list_heap \<Rightarrow> bool" where
  "list_empty head h \<longleftrightarrow> head = nexts h head"

text \<open>
  The loops of the macros over a body that may change the heap. \<open>None\<close> is a loop that does not
  end, \<open>Null_Deref\<close> a loop that reads a member of \<^verbatim>\<open>NULL\<close>. The plain loop reads the next pointer
  after the body, the safe loop before.
\<close>

datatype 's walk = Null_Deref | Done 's

partial_function (option) list_for_each_entry_continue ::
  "('s \<Rightarrow> list_heap) \<Rightarrow> (nat \<Rightarrow> 's \<Rightarrow> 's) \<Rightarrow> nat \<Rightarrow> nat \<Rightarrow> 's \<Rightarrow> 's walk option" where
  "list_for_each_entry_continue hp f head entry s =
     (if entry = head then Some (Done s)
      else if entry = 0 then Some Null_Deref
      else (let s1 = f entry s in list_for_each_entry_continue hp f head (nexts (hp s1) entry) s1))"

definition list_for_each_entry ::
  "('s \<Rightarrow> list_heap) \<Rightarrow> (nat \<Rightarrow> 's \<Rightarrow> 's) \<Rightarrow> nat \<Rightarrow> 's \<Rightarrow> 's walk option" where
  "list_for_each_entry hp f head s = list_for_each_entry_continue hp f head (nexts (hp s) head) s"

partial_function (option) list_for_each_safe_loop ::
  "('s \<Rightarrow> list_heap) \<Rightarrow> (nat \<Rightarrow> 's \<Rightarrow> 's) \<Rightarrow> nat \<Rightarrow> nat \<Rightarrow> nat \<Rightarrow> 's \<Rightarrow> 's walk option" where
  "list_for_each_safe_loop hp f head entry nxt s =
     (if entry = head then Some (Done s)
      else if entry = 0 \<or> nxt = 0 then Some Null_Deref
      else (let s1 = f entry s in list_for_each_safe_loop hp f head nxt (nexts (hp s1) nxt) s1))"

definition list_for_each_entry_safe ::
  "('s \<Rightarrow> list_heap) \<Rightarrow> (nat \<Rightarrow> 's \<Rightarrow> 's) \<Rightarrow> nat \<Rightarrow> 's \<Rightarrow> 's walk option" where
  "list_for_each_entry_safe hp f head s =
     (let entry = nexts (hp s) head in list_for_each_safe_loop hp f head entry (nexts (hp s) entry) s)"

partial_function (option) list_for_each_reverse_loop ::
  "('s \<Rightarrow> list_heap) \<Rightarrow> (nat \<Rightarrow> 's \<Rightarrow> 's) \<Rightarrow> nat \<Rightarrow> nat \<Rightarrow> 's \<Rightarrow> 's walk option" where
  "list_for_each_reverse_loop hp f head entry s =
     (if entry = head then Some (Done s)
      else if entry = 0 then Some Null_Deref
      else (let s1 = f entry s in list_for_each_reverse_loop hp f head (prevs (hp s1) entry) s1))"

definition list_for_each_entry_reverse ::
  "('s \<Rightarrow> list_heap) \<Rightarrow> (nat \<Rightarrow> 's \<Rightarrow> 's) \<Rightarrow> nat \<Rightarrow> 's \<Rightarrow> 's walk option" where
  "list_for_each_entry_reverse hp f head s = list_for_each_reverse_loop hp f head (prevs (hp s) head) s"

section \<open>Hash chains\<close>

datatype cell = First nat | Next nat

record hlist_heap =
  cells :: "cell \<Rightarrow> nat"
  pprevs :: "nat \<Rightarrow> cell option"

definition set_cell :: "cell \<Rightarrow> nat \<Rightarrow> hlist_heap \<Rightarrow> hlist_heap" where
  "set_cell c v h = h\<lparr>cells := (cells h)(c := v)\<rparr>"

definition set_pprev :: "nat \<Rightarrow> cell option \<Rightarrow> hlist_heap \<Rightarrow> hlist_heap" where
  "set_pprev n c h = h\<lparr>pprevs := (pprevs h)(n := c)\<rparr>"

definition hlist_unhashed :: "nat \<Rightarrow> hlist_heap \<Rightarrow> bool" where
  "hlist_unhashed node h \<longleftrightarrow> pprevs h node = None"

definition hlist_empty :: "nat \<Rightarrow> hlist_heap \<Rightarrow> bool" where
  "hlist_empty head h \<longleftrightarrow> cells h (First head) = 0"

definition hlist_head_init :: "nat \<Rightarrow> hlist_heap \<Rightarrow> hlist_heap" where
  "hlist_head_init head h = set_cell (First head) 0 h"

definition hlist_node_init :: "nat \<Rightarrow> hlist_heap \<Rightarrow> hlist_heap" where
  "hlist_node_init node h = set_pprev node None (set_cell (Next node) 0 h)"

text \<open>Writing through a null \<^verbatim>\<open>pprev\<close>, which ends the program, is \<open>None\<close>.\<close>

definition hlist_unlink :: "nat \<Rightarrow> hlist_heap \<Rightarrow> hlist_heap option" where
  "hlist_unlink n h =
     (case pprevs h n of
        None \<Rightarrow> None
      | Some c \<Rightarrow>
          (let h1 = set_cell c (cells h (Next n)) h; nx = cells h1 (Next n)
           in Some (if nx \<noteq> 0 then set_pprev nx (pprevs h1 n) h1 else h1)))"

definition hlist_del :: "nat \<Rightarrow> hlist_heap \<Rightarrow> hlist_heap option" where
  "hlist_del n h = map_option (\<lambda>h1. set_pprev n None (set_cell (Next n) 0 h1)) (hlist_unlink n h)"

definition hlist_add_head :: "nat \<Rightarrow> nat \<Rightarrow> hlist_heap \<Rightarrow> hlist_heap" where
  "hlist_add_head n head h =
     (let h1 = set_cell (Next n) (cells h (First head)) h;
          h2 = set_pprev n (Some (First head)) h1;
          f = cells h2 (First head);
          h3 = (if f \<noteq> 0 then set_pprev f (Some (Next n)) h2 else h2)
      in set_cell (First head) n h3)"

definition hlist_add_before :: "nat \<Rightarrow> nat \<Rightarrow> hlist_heap \<Rightarrow> hlist_heap option" where
  "hlist_add_before n nxt h =
     (let h1 = set_cell (Next n) nxt h;
          h2 = set_pprev n (pprevs h1 nxt) h1
      in case pprevs h2 nxt of
           None \<Rightarrow> None
         | Some c \<Rightarrow> Some (set_pprev nxt (Some (Next n)) (set_cell c n h2)))"

definition hlist_add_after :: "nat \<Rightarrow> nat \<Rightarrow> hlist_heap \<Rightarrow> hlist_heap" where
  "hlist_add_after n nxt h =
     (let h1 = set_cell (Next nxt) (cells h (Next n)) h;
          h2 = set_pprev nxt (Some (Next n)) h1;
          f = cells h2 (Next n);
          h3 = (if f \<noteq> 0 then set_pprev f (Some (Next nxt)) h2 else h2)
      in set_cell (Next n) nxt h3)"

partial_function (option) hlist_for_each_loop ::
  "('s \<Rightarrow> hlist_heap) \<Rightarrow> (nat \<Rightarrow> 's \<Rightarrow> 's) \<Rightarrow> nat \<Rightarrow> 's \<Rightarrow> 's option" where
  "hlist_for_each_loop hp f node s =
     (if node = 0 then Some s
      else (let s1 = f node s in hlist_for_each_loop hp f (cells (hp s1) (Next node)) s1))"

definition hlist_for_each_entry ::
  "('s \<Rightarrow> hlist_heap) \<Rightarrow> (nat \<Rightarrow> 's \<Rightarrow> 's) \<Rightarrow> nat \<Rightarrow> 's \<Rightarrow> 's option" where
  "hlist_for_each_entry hp f head s = hlist_for_each_loop hp f (cells (hp s) (First head)) s"

section \<open>What the pointers represent\<close>

text \<open>The nodes \<open>xs\<close> linked in both directions from \<open>p\<close> to \<open>q\<close>, and a whole list with its head.\<close>

fun links :: "list_heap \<Rightarrow> nat \<Rightarrow> nat list \<Rightarrow> nat \<Rightarrow> bool" where
  "links h p [] q \<longleftrightarrow> nexts h p = q \<and> prevs h q = p"
| "links h p (x # xs) q \<longleftrightarrow> nexts h p = x \<and> prevs h x = p \<and> links h x xs q"

definition ring :: "list_heap \<Rightarrow> nat \<Rightarrow> nat list \<Rightarrow> bool" where
  "ring h d xs \<longleftrightarrow> 0 \<notin> set (d # xs) \<and> distinct (d # xs) \<and> links h d xs d"

fun hlinks :: "hlist_heap \<Rightarrow> cell \<Rightarrow> nat list \<Rightarrow> bool" where
  "hlinks h c [] \<longleftrightarrow> cells h c = 0"
| "hlinks h c (x # xs) \<longleftrightarrow> cells h c = x \<and> pprevs h x = Some c \<and> hlinks h (Next x) xs"

definition chain :: "hlist_heap \<Rightarrow> nat \<Rightarrow> nat list \<Rightarrow> bool" where
  "chain h d xs \<longleftrightarrow> 0 \<notin> set xs \<and> distinct (d # xs) \<and> hlinks h (First d) xs"

lemmas heap_writes = set_next_def set_prev_def set_cell_def set_pprev_def

lemma links_cong:
  "\<lbrakk>\<forall>a \<in> set (p # xs). nexts h' a = nexts h a; \<forall>a \<in> set (xs @ [q]). prevs h' a = prevs h a\<rbrakk>
   \<Longrightarrow> links h' p xs q = links h p xs q"
  by (induction xs arbitrary: p) auto

lemma hlinks_cong:
  "\<lbrakk>\<forall>a \<in> insert c (Next ` set xs). cells h' a = cells h a; \<forall>a \<in> set xs. pprevs h' a = pprevs h a\<rbrakk>
   \<Longrightarrow> hlinks h' c xs = hlinks h c xs"
  by (induction xs arbitrary: c) auto

lemma links_append: "links h p (xs @ y # ys) q \<longleftrightarrow> links h p xs y \<and> links h y ys q"
  by (induction xs arbitrary: p) auto

lemma links_ends: "links h p (us @ x # vs) q \<Longrightarrow> prevs h x = last (p # us) \<and> nexts h x = hd (vs @ [q])"
  by (cases us rule: rev_cases; cases vs) (auto simp: links_append)

lemma links_first: "links h p xs q \<Longrightarrow> nexts h p = hd (xs @ [q])"
  by (cases xs) auto

lemma links_last: "links h p xs q \<Longrightarrow> prevs h q = last (p # xs)"
  by (cases xs rule: rev_cases) (auto simp: links_append)

lemma links_insert:
  "\<lbrakk>links h p (us @ vs) q; distinct (p # us @ vs); q \<notin> set (us @ vs); n \<notin> insert q (set (p # us @ vs))\<rbrakk>
   \<Longrightarrow> links (list_add_between n (last (p # us)) (hd (vs @ [q])) h) p (us @ n # vs) q"
proof (induction us arbitrary: p)
  case Nil
  show ?case
  proof (cases vs)
    case Nil
    then show ?thesis using \<open>n \<notin> insert q (set (p # [] @ vs))\<close> by (simp add: list_add_between_def heap_writes Let_def)
  next
    case (Cons v vs')
    have "links (list_add_between n p v h) v vs' q = links h v vs' q"
      by (rule links_cong) (use Nil.prems Cons in \<open>auto simp: list_add_between_def heap_writes Let_def\<close>)
    then show ?thesis using Nil.prems Cons by (simp add: list_add_between_def heap_writes Let_def)
  qed
next
  case (Cons u us)
  let ?h = "list_add_between n (last (u # us)) (hd (vs @ [q])) h"
  have "links ?h u (us @ n # vs) q" using Cons.IH [of u] Cons.prems by simp
  moreover have "last (u # us) \<noteq> p" using Cons.prems by (metis UnCI distinct.simps(2) last_in_set list.discI set_append append_Cons)
  moreover have "hd (vs @ [q]) \<noteq> u" using Cons.prems by (cases vs) auto
  ultimately show ?case using Cons.prems by (auto simp: list_add_between_def heap_writes Let_def)
qed

lemma links_remove:
  "\<lbrakk>links h p (us @ x # vs) q; distinct (p # us @ x # vs); q \<notin> set (us @ x # vs)\<rbrakk>
   \<Longrightarrow> links (list_del_between (last (p # us)) (hd (vs @ [q])) h) p (us @ vs) q"
proof (induction us arbitrary: p)
  case Nil
  show ?case
  proof (cases vs)
    case Nil
    then show ?thesis using \<open>links h p ([] @ x # vs) q\<close> by (simp add: list_del_between_def heap_writes Let_def)
  next
    case (Cons v vs')
    have "links (list_del_between p v h) v vs' q = links h v vs' q"
      by (rule links_cong) (use Nil.prems Cons in \<open>auto simp: list_del_between_def heap_writes Let_def\<close>)
    then show ?thesis using Nil.prems Cons by (simp add: list_del_between_def heap_writes Let_def)
  qed
next
  case (Cons u us)
  let ?h = "list_del_between (last (u # us)) (hd (vs @ [q])) h"
  have "links ?h u (us @ vs) q" using Cons.IH [of u] Cons.prems by simp
  moreover have "last (u # us) \<noteq> p" using Cons.prems by (metis UnCI distinct.simps(2) last_in_set list.discI set_append append_Cons)
  moreover have "hd (vs @ [q]) \<noteq> u" using Cons.prems by (cases vs) auto
  ultimately show ?case using Cons.prems by (auto simp: list_del_between_def heap_writes Let_def)
qed

lemma ring_list_init: "d \<noteq> 0 \<Longrightarrow> ring (list_init d h) d []"
  by (simp add: ring_def list_init_def heap_writes)

lemma ring_list_add: "\<lbrakk>ring h d xs; n \<noteq> 0; n \<notin> set (d # xs)\<rbrakk> \<Longrightarrow> ring (list_add n d h) d (n # xs)"
  using links_insert [of h d "[]" xs d n] links_first [of h d xs d] by (auto simp: ring_def list_add_def)

lemma ring_list_add_tail: "\<lbrakk>ring h d xs; n \<noteq> 0; n \<notin> set (d # xs)\<rbrakk> \<Longrightarrow> ring (list_add_tail n d h) d (xs @ [n])"
  using links_insert [of h d xs "[]" d n] links_last [of h d xs d] by (auto simp: ring_def list_add_tail_def)

text \<open>A removed node is out of the list, whatever is then written to its own pointers.\<close>

lemma ring_unlink:
  assumes "ring h d xs" "x \<in> set xs"
    and "h1 = list_del_between (prevs h x) (nexts h x) h"
    and "\<forall>a. a \<noteq> x \<longrightarrow> nexts h2 a = nexts h1 a \<and> prevs h2 a = prevs h1 a"
  shows "ring h2 d (remove1 x xs)"
proof -
  obtain us vs where xs: "xs = us @ x # vs" "x \<notin> set us" using split_list_first [OF assms(2)] by blast
  have links: "links h d (us @ x # vs) d" and dist: "distinct (d # us @ x # vs)" "0 \<notin> set (d # xs)"
    using assms(1) xs by (auto simp: ring_def)
  have "links h1 d (us @ vs) d"
    using links_remove [OF links] dist links_ends [OF links] assms(3) by auto
  then have "links h2 d (us @ vs) d"
    by (rule links_cong [THEN iffD2, rotated 2]) (use assms(4) dist in auto)
  then show ?thesis using dist xs by (auto simp: ring_def remove1_append)
qed

lemma ring_list_del:
  assumes "ring h d xs" "x \<in> set xs"
  shows "ring (list_del x h) d (remove1 x xs)" "ring (list_del_init x h) d (remove1 x xs)" "ring (list_del_init x h) x []"
proof -
  show "ring (list_del x h) d (remove1 x xs)" "ring (list_del_init x h) d (remove1 x xs)"
    by (rule ring_unlink [OF assms refl]; simp add: list_del_def list_del_init_def Let_def heap_writes)+
  show "ring (list_del_init x h) x []"
    using assms by (cases "x = 0") (auto simp: ring_def list_del_init_def Let_def heap_writes)
qed

text \<open>Operations on one list leave every other list as it was.\<close>

lemma ring_apart:
  "\<lbrakk>ring h e ys; \<forall>a \<in> set (e # ys). nexts h' a = nexts h a \<and> prevs h' a = prevs h a\<rbrakk> \<Longrightarrow> ring h' e ys"
  using links_cong [of e ys h' h e] by (auto simp: ring_def)

lemma ring_hd_in: "ring h d xs \<Longrightarrow> nexts h d \<in> set (d # xs) \<and> prevs h d \<in> set (d # xs)"
  using links_first [of h d xs d] links_last [of h d xs d] hd_in_set [of "xs @ [d]"] last_in_set [of "d # xs"]
  by (simp add: ring_def)

lemma ring_nb_in:
  assumes "ring h d xs" "x \<in> set xs"
  shows "nexts h x \<in> set (d # xs) \<and> prevs h x \<in> set (d # xs)"
proof -
  obtain us vs where "xs = us @ x # vs" using split_list [OF assms(2)] by blast
  then show ?thesis
    using assms(1) links_ends [of h d us x vs d] hd_in_set [of "vs @ [d]"] last_in_set [of "d # us"]
    by (auto simp: ring_def)
qed

text \<open>The three insertions into a hash chain all splice the node in at a cell, a deletion cuts it out.\<close>

definition splice :: "nat \<Rightarrow> cell \<Rightarrow> hlist_heap \<Rightarrow> hlist_heap" where
  "splice n c h =
     (let v = cells h c; h1 = set_cell c n (set_cell (Next n) v (set_pprev n (Some c) h))
      in if v \<noteq> 0 then set_pprev v (Some (Next n)) h1 else h1)"

definition cut :: "nat \<Rightarrow> cell \<Rightarrow> hlist_heap \<Rightarrow> hlist_heap" where
  "cut x c h = (let v = cells h (Next x); h1 = set_cell c v h in if v \<noteq> 0 then set_pprev v (Some c) h1 else h1)"

lemma hlist_add_is_splice:
  "First d \<noteq> Next n \<Longrightarrow> cells h (First d) \<noteq> n \<Longrightarrow> hlist_add_head n d h = splice n (First d) h"
  "x \<noteq> n \<Longrightarrow> cells h (Next x) \<noteq> n \<Longrightarrow> hlist_add_after x n h = splice n (Next x) h"
  "\<lbrakk>pprevs h x = Some c; cells h c = x; x \<noteq> 0; x \<noteq> n; c \<noteq> Next n\<rbrakk> \<Longrightarrow> hlist_add_before n x h = Some (splice n c h)"
  by (auto simp: hlist_add_head_def hlist_add_after_def hlist_add_before_def splice_def heap_writes Let_def fun_upd_twist)

lemma hlist_unlink_is_cut:
  "\<lbrakk>pprevs h x = Some c; c \<noteq> Next x\<rbrakk> \<Longrightarrow> hlist_unlink x h = Some (cut x c h)"
  by (auto simp: hlist_unlink_def cut_def heap_writes Let_def)

definition cell_before :: "cell \<Rightarrow> nat list \<Rightarrow> cell" where
  "cell_before c us = (if us = [] then c else Next (last us))"

lemma cell_before_Cons: "cell_before c (u # us) = cell_before (Next u) us"
  by (simp add: cell_before_def)

lemma hlinks_cell: "hlinks h c (us @ vs) \<Longrightarrow> cells h (cell_before c us) = (if vs = [] then 0 else hd vs)"
  by (induction us arbitrary: c) (cases vs, auto simp: cell_before_def)

lemma hlinks_pprev: "hlinks h c (us @ x # vs) \<Longrightarrow> pprevs h x = Some (cell_before c us)"
  by (induction us arbitrary: c) (auto simp: cell_before_def)

lemma hlinks_next: "hlinks h c (us @ x # vs) \<Longrightarrow> cells h (Next x) = (if vs = [] then 0 else hd vs)"
  by (induction us arbitrary: c) (cases vs, auto)

lemma hlinks_splice:
  "\<lbrakk>hlinks h c (us @ vs); n \<noteq> 0; 0 \<notin> set (us @ vs); distinct (us @ vs); n \<notin> set (us @ vs);
    c \<notin> Next ` insert n (set (us @ vs))\<rbrakk>
   \<Longrightarrow> hlinks (splice n (cell_before c us) h) c (us @ n # vs)"
proof (induction us arbitrary: c)
  case Nil
  show ?case
  proof (cases vs)
    case Nil
    then show ?thesis using Nil.prems by (auto simp: splice_def cell_before_def heap_writes Let_def)
  next
    case (Cons v vs')
    have "hlinks (splice n c h) (Next v) vs' = hlinks h (Next v) vs'"
      by (rule hlinks_cong) (use Nil.prems Cons in \<open>auto simp: splice_def heap_writes Let_def\<close>)
    then show ?thesis using Nil.prems Cons by (auto simp: splice_def cell_before_def heap_writes Let_def)
  qed
next
  case (Cons u us)
  let ?h = "splice n (cell_before (Next u) us) h"
  have IH: "hlinks ?h (Next u) (us @ n # vs)" using Cons.IH [of "Next u"] Cons.prems by auto
  have "cells h (cell_before (Next u) us) \<noteq> u"
    using hlinks_cell [of h "Next u" us vs] Cons.prems by (cases vs) auto
  moreover have "cell_before (Next u) us \<noteq> c" using Cons.prems by (auto simp: cell_before_def)
  ultimately have "cells ?h c = cells h c" "pprevs ?h u = pprevs h u"
    using Cons.prems by (auto simp: splice_def heap_writes Let_def)
  then show ?case using IH Cons.prems by (simp add: cell_before_Cons)
qed

lemma hlinks_cut:
  "\<lbrakk>hlinks h c (us @ x # vs); 0 \<notin> set (us @ x # vs); distinct (us @ x # vs); c \<notin> Next ` set (us @ x # vs)\<rbrakk>
   \<Longrightarrow> hlinks (cut x (cell_before c us) h) c (us @ vs)"
proof (induction us arbitrary: c)
  case Nil
  show ?case
  proof (cases vs)
    case Nil
    then show ?thesis using Nil.prems by (auto simp: cut_def cell_before_def heap_writes Let_def)
  next
    case (Cons v vs')
    have "hlinks (cut x c h) (Next v) vs' = hlinks h (Next v) vs'"
      by (rule hlinks_cong) (use Nil.prems Cons in \<open>auto simp: cut_def heap_writes Let_def\<close>)
    then show ?thesis using Nil.prems Cons by (auto simp: cut_def cell_before_def heap_writes Let_def)
  qed
next
  case (Cons u us)
  let ?h = "cut x (cell_before (Next u) us) h"
  have IH: "hlinks ?h (Next u) (us @ vs)" using Cons.IH [of "Next u"] Cons.prems by auto
  have "cells h (Next x) \<noteq> u"
    using hlinks_next [of h "Next u" us x vs] Cons.prems by (cases vs) auto
  moreover have "cell_before (Next u) us \<noteq> c" using Cons.prems by (auto simp: cell_before_def)
  ultimately have "cells ?h c = cells h c" "pprevs ?h u = pprevs h u"
    using Cons.prems by (auto simp: cut_def heap_writes Let_def)
  then show ?case using IH Cons.prems by (simp add: cell_before_Cons)
qed

section \<open>Any number of lists and operations\<close>

text \<open>
  What a set of intrusive lists promises, whatever the pointers: a node that is in no list can
  be put into a list at the place its operation names, and a node can be removed from
  whichever list it is in; the list represented changes accordingly and the others stay as
  they are.
\<close>

datatype 'k list_op = PutOp 'k nat nat | DelOp nat

fun run_op :: "('k \<Rightarrow> nat \<Rightarrow> nat \<Rightarrow> 'h \<Rightarrow> 'h option) \<Rightarrow> (nat \<Rightarrow> 'h \<Rightarrow> 'h option) \<Rightarrow> 'k list_op \<Rightarrow> 'h \<Rightarrow> 'h option" where
  "run_op put del (PutOp k n d) h = put k n d h"
| "run_op put del (DelOp x) h = del x h"

fun run_ops :: "('k \<Rightarrow> nat \<Rightarrow> nat \<Rightarrow> 'h \<Rightarrow> 'h option) \<Rightarrow> (nat \<Rightarrow> 'h \<Rightarrow> 'h option) \<Rightarrow> 'k list_op list \<Rightarrow> 'h \<Rightarrow> 'h option" where
  "run_ops put del [] h = Some h"
| "run_ops put del (a # as) h = Option.bind (run_op put del a h) (run_ops put del as)"

text \<open>The same operations on lists of nodes; \<open>None\<close> where the caller breaks the contract.\<close>

fun spec_op ::
  "('k \<Rightarrow> nat \<Rightarrow> nat list \<Rightarrow> nat list option) \<Rightarrow> nat list \<Rightarrow> 'k list_op \<Rightarrow> (nat \<Rightarrow> nat list) \<Rightarrow> (nat \<Rightarrow> nat list) option" where
  "spec_op place D (PutOp k n d) L =
     (if d \<in> set D \<and> n \<noteq> 0 \<and> n \<notin> set D \<and> (\<forall>e \<in> set D. n \<notin> set (L e))
      then map_option (\<lambda>ys. L(d := ys)) (place k n (L d)) else None)"
| "spec_op place D (DelOp x) L = (if \<exists>d \<in> set D. x \<in> set (L d) then Some (\<lambda>d. remove1 x (L d)) else None)"

fun spec_ops ::
  "('k \<Rightarrow> nat \<Rightarrow> nat list \<Rightarrow> nat list option) \<Rightarrow> nat list \<Rightarrow> 'k list_op list \<Rightarrow> (nat \<Rightarrow> nat list) \<Rightarrow> (nat \<Rightarrow> nat list) option" where
  "spec_ops place D [] L = Some L"
| "spec_ops place D (a # as) L = Option.bind (spec_op place D a L) (spec_ops place D as)"

definition pool :: "('h \<Rightarrow> nat \<Rightarrow> nat list \<Rightarrow> bool) \<Rightarrow> 'h \<Rightarrow> nat list \<Rightarrow> (nat \<Rightarrow> nat list) \<Rightarrow> bool" where
  "pool rep h D L \<longleftrightarrow>
     (\<forall>d \<in> set D. rep h d (L d)) \<and>
     (\<forall>d \<in> set D. \<forall>e \<in> set D. d \<noteq> e \<longrightarrow> set (d # L d) \<inter> set (e # L e) = {})"

locale intrusive_list =
  fixes rep :: "'h \<Rightarrow> nat \<Rightarrow> nat list \<Rightarrow> bool"
    and put :: "'k \<Rightarrow> nat \<Rightarrow> nat \<Rightarrow> 'h \<Rightarrow> 'h option"
    and place :: "'k \<Rightarrow> nat \<Rightarrow> nat list \<Rightarrow> nat list option"
    and del :: "nat \<Rightarrow> 'h \<Rightarrow> 'h option"
  assumes rep_put: "\<lbrakk>rep h d xs; n \<noteq> 0; n \<notin> set (d # xs); place k n xs = Some ys\<rbrakk>
      \<Longrightarrow> \<exists>h'. put k n d h = Some h' \<and> rep h' d ys \<and>
        (\<forall>e zs. rep h e zs \<longrightarrow> set (e # zs) \<inter> set (n # d # xs) = {} \<longrightarrow> rep h' e zs)"
    and place_set: "\<lbrakk>place k n xs = Some ys\<rbrakk> \<Longrightarrow> set ys = insert n (set xs)"
    and rep_del: "\<lbrakk>rep h d xs; x \<in> set xs\<rbrakk>
      \<Longrightarrow> \<exists>h'. del x h = Some h' \<and> rep h' d (remove1 x xs) \<and>
        (\<forall>e zs. rep h e zs \<longrightarrow> set (e # zs) \<inter> set (d # xs) = {} \<longrightarrow> rep h' e zs)"
begin

lemma op_refines:
  assumes pool: "pool rep h D L" and spec: "spec_op place D a L = Some L'"
  shows "\<exists>h'. run_op put del a h = Some h' \<and> pool rep h' D L'"
proof (cases a)
  case (PutOp k n d)
  then obtain ys where pre: "d \<in> set D" "n \<noteq> 0" "n \<notin> set D" "\<forall>e \<in> set D. n \<notin> set (L e)"
    and ys: "place k n (L d) = Some ys" and L': "L' = L(d := ys)"
    using spec by (auto split: if_splits)
  have d: "rep h d (L d)" "n \<notin> set (d # L d)" using pool pre by (auto simp: pool_def)
  obtain h' where h': "put k n d h = Some h'" "rep h' d ys"
    and frame: "\<And>e zs. rep h e zs \<Longrightarrow> set (e # zs) \<inter> set (n # d # L d) = {} \<Longrightarrow> rep h' e zs"
    using rep_put [OF d(1) pre(2) d(2) ys] by blast
  have apart: "set (e # L e) \<inter> set (n # d # L d) = {}" if "e \<in> set D" "e \<noteq> d" for e
  proof -
    have "set (e # L e) \<inter> set (d # L d) = {}" using pool pre(1) that unfolding pool_def by blast
    then show ?thesis using pre(3,4) that by auto
  qed
  have "pool rep h' D L'"
    unfolding pool_def
  proof (intro conjI ballI impI)
    fix e assume e: "e \<in> set D"
    show "rep h' e (L' e)"
      using frame apart [OF e] h'(2) pool e by (cases "e = d") (auto simp: L' pool_def)
  next
    fix e g assume "e \<in> set D" "g \<in> set D" "e \<noteq> g"
    moreover from this have "set (e # L e) \<inter> set (g # L g) = {}" using pool unfolding pool_def by blast
    moreover have "set ys = insert n (set (L d))" by (rule place_set [OF ys])
    ultimately show "set (e # L' e) \<inter> set (g # L' g) = {}"
      using apart [of e] apart [of g] by (cases "e = d"; cases "g = d") (auto simp: L')
  qed
  then show ?thesis using PutOp h'(1) by simp
next
  case (DelOp x)
  then obtain d where d: "d \<in> set D" "x \<in> set (L d)" and L': "L' = (\<lambda>d. remove1 x (L d))"
    using spec by (auto split: if_splits)
  have rep: "rep h d (L d)" using pool d by (auto simp: pool_def)
  obtain h' where h': "del x h = Some h'" "rep h' d (remove1 x (L d))"
    and frame: "\<And>e zs. rep h e zs \<Longrightarrow> set (e # zs) \<inter> set (d # L d) = {} \<Longrightarrow> rep h' e zs"
    using rep_del [OF rep d(2)] by blast
  have other: "rep h' e (remove1 x (L e))" if "e \<in> set D" "e \<noteq> d" for e
  proof -
    have "set (e # L e) \<inter> set (d # L d) = {}" "rep h e (L e)" using pool d(1) that unfolding pool_def by blast+
    moreover from this have "remove1 x (L e) = L e" using d(2) by (intro remove1_idem) auto
    ultimately show ?thesis using frame by simp
  qed
  have "pool rep h' D L'"
    unfolding pool_def L'
  proof (intro conjI ballI impI)
    fix e assume "e \<in> set D"
    then show "rep h' e (remove1 x (L e))" using other h'(2) by (cases "e = d") auto
  next
    fix e g assume "e \<in> set D" "g \<in> set D" "e \<noteq> g"
    then have "set (e # L e) \<inter> set (g # L g) = {}" using pool unfolding pool_def by blast
    then show "set (e # remove1 x (L e)) \<inter> set (g # remove1 x (L g)) = {}"
      using set_remove1_subset [of x "L e"] set_remove1_subset [of x "L g"] by auto
  qed
  then show ?thesis using DelOp h'(1) by simp
qed

lemma ops_refine:
  "\<lbrakk>pool rep h D L; spec_ops place D as L = Some L'\<rbrakk> \<Longrightarrow> \<exists>h'. run_ops put del as h = Some h' \<and> pool rep h' D L'"
proof (induction as arbitrary: h L)
  case (Cons a as)
  then obtain L1 where L1: "spec_op place D a L = Some L1" "spec_ops place D as L1 = Some L'"
    by (auto simp: bind_eq_Some_conv)
  then obtain h1 where "run_op put del a h = Some h1" "pool rep h1 D L1" using op_refines [OF Cons.prems(1)] by blast
  then show ?case using Cons.IH L1(2) by auto
qed simp

end

text \<open>The circular lists.\<close>

datatype list_at = Front | Back

fun list_put :: "list_at \<Rightarrow> nat \<Rightarrow> nat \<Rightarrow> list_heap \<Rightarrow> list_heap option" where
  "list_put Front n d h = Some (list_add n d h)"
| "list_put Back n d h = Some (list_add_tail n d h)"

fun list_place :: "list_at \<Rightarrow> nat \<Rightarrow> nat list \<Rightarrow> nat list option" where
  "list_place Front n xs = Some (n # xs)"
| "list_place Back n xs = Some (xs @ [n])"

lemma ring_add_apart:
  assumes "ring h d xs" "ring h e zs" "set (e # zs) \<inter> set (n # d # xs) = {}"
  shows "ring (list_add n d h) e zs" "ring (list_add_tail n d h) e zs"
  using ring_hd_in [OF assms(1)] assms(3)
  by (auto intro!: ring_apart [OF assms(2)] simp: list_add_def list_add_tail_def list_add_between_def heap_writes Let_def)

lemma ring_del_apart:
  assumes "ring h d xs" "x \<in> set xs" "ring h e zs" "set (e # zs) \<inter> set (d # xs) = {}"
  shows "ring (list_del x h) e zs" "ring (list_del_init x h) e zs"
  using ring_nb_in [OF assms(1,2)] assms(2,4)
  by (auto intro!: ring_apart [OF assms(3)] simp: list_del_def list_del_init_def list_del_between_def heap_writes Let_def)

interpretation circular: intrusive_list ring list_put list_place "\<lambda>x h. Some (list_del x h)"
proof (unfold_locales, goal_cases)
  case (1 h d xs n k ys)
  then show ?case
    using ring_list_add ring_list_add_tail ring_add_apart [OF 1(1)] by (cases k) (auto simp del: list.set)
next
  case (2 k n xs ys)
  then show ?case by (cases k) auto
next
  case (3 h d xs x)
  then show ?case using ring_list_del(1) [OF 3] ring_del_apart(1) [OF 3] by auto
qed

interpretation circular_init: intrusive_list ring list_put list_place "\<lambda>x h. Some (list_del_init x h)"
proof (unfold_locales, goal_cases)
  case (1 h d xs n k ys)
  then show ?case by (rule circular.rep_put)
next
  case (2 k n xs ys)
  then show ?case by (rule circular.place_set)
next
  case (3 h d xs x)
  then show ?case using ring_list_del(2) [OF 3] ring_del_apart(2) [OF 3] by auto
qed

text \<open>The hash chains.\<close>

datatype hlist_at = AtHead | Before nat | After nat

fun hlist_put :: "hlist_at \<Rightarrow> nat \<Rightarrow> nat \<Rightarrow> hlist_heap \<Rightarrow> hlist_heap option" where
  "hlist_put AtHead n d h = Some (hlist_add_head n d h)"
| "hlist_put (Before x) n d h = hlist_add_before n x h"
| "hlist_put (After x) n d h = Some (hlist_add_after x n h)"

fun hlist_place :: "hlist_at \<Rightarrow> nat \<Rightarrow> nat list \<Rightarrow> nat list option" where
  "hlist_place AtHead n xs = Some (n # xs)"
| "hlist_place (Before x) n xs =
     (if x \<in> set xs then Some (takeWhile (\<lambda>a. a \<noteq> x) xs @ n # dropWhile (\<lambda>a. a \<noteq> x) xs) else None)"
| "hlist_place (After x) n xs =
     (if x \<in> set xs then Some (takeWhile (\<lambda>a. a \<noteq> x) xs @ x # n # tl (dropWhile (\<lambda>a. a \<noteq> x) xs)) else None)"

lemma hlist_place_split:
  "hlist_place k n xs = Some ys \<Longrightarrow>
   \<exists>us vs. xs = us @ vs \<and> ys = us @ n # vs \<and>
     (case k of AtHead \<Rightarrow> us = [] | Before x \<Rightarrow> vs \<noteq> [] \<and> hd vs = x | After x \<Rightarrow> us \<noteq> [] \<and> last us = x)"
proof (cases k)
  case (Before x)
  moreover assume "hlist_place k n xs = Some ys"
  ultimately have "x \<in> set xs" "ys = takeWhile (\<lambda>a. a \<noteq> x) xs @ n # dropWhile (\<lambda>a. a \<noteq> x) xs" by (auto split: if_splits)
  moreover from this have "dropWhile (\<lambda>a. a \<noteq> x) xs \<noteq> []" "hd (dropWhile (\<lambda>a. a \<noteq> x) xs) = x"
    using hd_dropWhile [of "\<lambda>a. a \<noteq> x" xs] by auto
  ultimately show ?thesis using Before
    by (intro exI [of _ "takeWhile (\<lambda>a. a \<noteq> x) xs"] exI [of _ "dropWhile (\<lambda>a. a \<noteq> x) xs"]) auto
next
  case (After x)
  moreover assume "hlist_place k n xs = Some ys"
  ultimately have x: "x \<in> set xs" and ys: "ys = takeWhile (\<lambda>a. a \<noteq> x) xs @ x # n # tl (dropWhile (\<lambda>a. a \<noteq> x) xs)"
    by (auto split: if_splits)
  then have "dropWhile (\<lambda>a. a \<noteq> x) xs = x # tl (dropWhile (\<lambda>a. a \<noteq> x) xs)"
    using hd_dropWhile [of "\<lambda>a. a \<noteq> x" xs] by (cases "dropWhile (\<lambda>a. a \<noteq> x) xs") auto
  then have "xs = (takeWhile (\<lambda>a. a \<noteq> x) xs @ [x]) @ tl (dropWhile (\<lambda>a. a \<noteq> x) xs)"
    by (metis append.assoc append_Cons append_Nil takeWhile_dropWhile_id)
  then show ?thesis using After ys
    by (intro exI [of _ "takeWhile (\<lambda>a. a \<noteq> x) xs @ [x]"] exI [of _ "tl (dropWhile (\<lambda>a. a \<noteq> x) xs)"]) auto
qed auto

lemma chain_splice:
  assumes "chain h d (us @ vs)" "n \<noteq> 0" "n \<notin> set (d # us @ vs)"
  shows "chain (splice n (cell_before (First d) us) h) d (us @ n # vs)"
  using hlinks_splice [of h "First d" us vs n] assms by (auto simp: chain_def)

lemma chain_apart:
  "\<lbrakk>chain h e zs; \<forall>a \<in> insert (First e) (Next ` set zs). cells h' a = cells h a; \<forall>a \<in> set zs. pprevs h' a = pprevs h a\<rbrakk>
   \<Longrightarrow> chain h' e zs"
  using hlinks_cong [of "First e" zs h' h] by (auto simp: chain_def)

lemma chain_splice_apart:
  assumes "chain h d (us @ vs)" "chain h e zs" "set (e # zs) \<inter> set (n # d # us @ vs) = {}"
  shows "chain (splice n (cell_before (First d) us) h) e zs"
proof (rule chain_apart [OF assms(2)])
  have v: "cells h (cell_before (First d) us) \<notin> set zs"
    using hlinks_cell [of h "First d" us vs] assms by (cases vs) (auto simp: chain_def)
  have c: "cell_before (First d) us \<in> insert (First d) (Next ` set us)"
    by (auto simp: cell_before_def)
  show "\<forall>a \<in> insert (First e) (Next ` set zs). cells (splice n (cell_before (First d) us) h) a = cells h a"
    using c assms(3) by (auto simp: splice_def heap_writes Let_def)
  show "\<forall>a \<in> set zs. pprevs (splice n (cell_before (First d) us) h) a = pprevs h a"
    using v assms(3) by (auto simp: splice_def heap_writes Let_def)
qed

lemma hlist_put_splice:
  assumes "chain h d (us @ vs)" "n \<noteq> 0" "n \<notin> set (d # us @ vs)"
    and "case k of AtHead \<Rightarrow> us = [] | Before x \<Rightarrow> vs \<noteq> [] \<and> hd vs = x | After x \<Rightarrow> us \<noteq> [] \<and> last us = x"
  shows "hlist_put k n d h = Some (splice n (cell_before (First d) us) h)"
proof -
  have links: "hlinks h (First d) (us @ vs)" "0 \<notin> set (us @ vs)" using assms(1) by (auto simp: chain_def)
  have "hd vs \<in> set vs" if "vs \<noteq> []" using that by simp
  then have v: "cells h (cell_before (First d) us) \<noteq> n" using hlinks_cell [OF links(1)] assms(2,3) by (cases "vs = []") auto
  have c: "cell_before (First d) us \<noteq> Next n" using assms(3) by (auto simp: cell_before_def)
  show ?thesis
  proof (cases k)
    case AtHead
    then show ?thesis using assms(4) v hlist_add_is_splice(1) [of d n h] by (simp add: cell_before_def)
  next
    case (Before x)
    then obtain vs' where "vs = x # vs'" using assms(4) by (cases vs) auto
    then show ?thesis
      using Before hlist_add_is_splice(3) [OF hlinks_pprev] links hlinks_cell [OF links(1)] c assms(3) by auto
  next
    case (After x)
    then have "x \<in> set us" using assms(4) by auto
    then show ?thesis using After assms(3,4) v hlist_add_is_splice(2) [of x n h] by (auto simp: cell_before_def)
  qed
qed

lemma chain_cut:
  assumes "chain h d xs" "x \<in> set xs"
  shows "\<exists>h'. hlist_del x h = Some h' \<and> chain h' d (remove1 x xs) \<and>
    (\<forall>e zs. chain h e zs \<longrightarrow> set (e # zs) \<inter> set (d # xs) = {} \<longrightarrow> chain h' e zs)"
proof -
  obtain us vs where xs: "xs = us @ x # vs" "x \<notin> set us" using split_list_first [OF assms(2)] by blast
  let ?c = "cell_before (First d) us"
  let ?h = "set_pprev x None (set_cell (Next x) 0 (cut x ?c h))"
  have links: "hlinks h (First d) (us @ x # vs)" "0 \<notin> set (us @ x # vs)" "distinct (d # us @ x # vs)"
    using assms(1) xs by (auto simp: chain_def)
  have c: "?c \<in> insert (First d) (Next ` set us)" by (auto simp: cell_before_def)
  have v: "cells h (Next x) \<in> insert 0 (set vs)" using hlinks_next [OF links(1)] by (cases vs) auto
  have del: "hlist_del x h = Some ?h"
    using hlist_unlink_is_cut [OF hlinks_pprev [OF links(1)]] c xs(2) by (fastforce simp: hlist_del_def)
  have "hlinks (cut x ?c h) (First d) (us @ vs)" using hlinks_cut [OF links(1,2)] links(3) by auto
  then have "hlinks ?h (First d) (us @ vs)"
    by (rule hlinks_cong [THEN iffD2, rotated 2]) (use links(3) in \<open>auto simp: heap_writes\<close>)
  then have "chain ?h d (remove1 x xs)" using links xs by (auto simp: chain_def remove1_append)
  moreover have "chain ?h e zs" if "chain h e zs" "set (e # zs) \<inter> set (d # xs) = {}" for e zs
    by (rule chain_apart [OF that(1)])
      (use c v that xs in \<open>auto simp: cut_def heap_writes Let_def chain_def\<close>)
  ultimately show ?thesis using del by auto
qed

interpretation hash_chain: intrusive_list chain hlist_put hlist_place hlist_del
proof (unfold_locales, goal_cases)
  case (1 h d xs n k ys)
  then obtain us vs where split: "xs = us @ vs" "ys = us @ n # vs"
    "case k of AtHead \<Rightarrow> us = [] | Before x \<Rightarrow> vs \<noteq> [] \<and> hd vs = x | After x \<Rightarrow> us \<noteq> [] \<and> last us = x"
    using hlist_place_split by blast
  then show ?case
    using hlist_put_splice [of h d us vs n k] chain_splice [of h d us vs n] chain_splice_apart [of h d us vs] 1 by auto
next
  case (2 k n xs ys)
  then obtain us vs where "xs = us @ vs" "ys = us @ n # vs" using hlist_place_split by blast
  then show ?case by simp
next
  case (3 h d xs x)
  then show ?case by (rule chain_cut)
qed

section \<open>Traversals\<close>

lemmas loop_unfold =
  list_for_each_entry_continue.simps list_for_each_safe_loop.simps list_for_each_reverse_loop.simps hlist_for_each_loop.simps

lemma ring_next: "ring h d (ys @ z # zs) \<Longrightarrow> nexts h z = hd (zs @ [d])"
  using links_ends by (auto simp: ring_def)

lemma ring_prev: "ring h d (ys @ z # zs) \<Longrightarrow> prevs h z = last (d # ys)"
  using links_ends by (auto simp: ring_def)

lemma forward_walk:
  "ring h d (ys @ zs) \<Longrightarrow>
   list_for_each_entry_continue fst (\<lambda>x (h, s). (h, f x s)) d (hd (zs @ [d])) (h, s) = Some (Done (h, fold f zs s))"
proof (induction zs arbitrary: ys s)
  case Nil
  show ?case by (subst loop_unfold) simp
next
  case (Cons z zs)
  have "z \<noteq> d" "z \<noteq> 0" using Cons.prems by (auto simp: ring_def)
  then show ?case using Cons.IH [of "ys @ [z]" "f z s"] Cons.prems ring_next [OF Cons.prems] by (subst loop_unfold) simp
qed

lemma backward_walk:
  "ring h d (ys @ zs) \<Longrightarrow>
   list_for_each_reverse_loop fst (\<lambda>x (h, s). (h, f x s)) d (last (d # ys)) (h, s) = Some (Done (h, fold f (rev ys) s))"
proof (induction ys arbitrary: zs s rule: rev_induct)
  case Nil
  show ?case by (subst loop_unfold) simp
next
  case (snoc y ys)
  have "y \<noteq> d" "y \<noteq> 0" using snoc.prems by (auto simp: ring_def)
  then show ?case using snoc.IH [of "y # zs" "f y s"] snoc.prems ring_prev [of h d ys y zs] by (subst loop_unfold) simp
qed

definition removing :: "(nat \<Rightarrow> bool) \<Rightarrow> (nat \<Rightarrow> 's \<Rightarrow> 's) \<Rightarrow> nat \<Rightarrow> list_heap \<times> 's \<Rightarrow> list_heap \<times> 's" where
  "removing P f x = (\<lambda>(h, s). (if P x then list_del x h else h, f x s))"

lemma removing_app [simp]: "removing P f x (h, s) = (if P x then list_del x h else h, f x s)"
  by (simp add: removing_def)

lemma removing_walk:
  "ring h d (ys @ zs) \<Longrightarrow>
   \<exists>h'. list_for_each_safe_loop fst (removing P f) d (hd (zs @ [d])) (nexts h (hd (zs @ [d]))) (h, s)
       = Some (Done (h', fold f zs s)) \<and> ring h' d (ys @ filter (\<lambda>x. \<not> P x) zs)"
proof (induction zs arbitrary: ys h s)
  case Nil
  then show ?case by (subst loop_unfold) simp
next
  case (Cons z zs)
  have z: "z \<noteq> d" "z \<noteq> 0" "z \<notin> set ys" "hd (zs @ [d]) \<noteq> 0" using Cons.prems by (cases zs; auto simp: ring_def)+
  have h1: "ring (list_del z h) d (ys @ zs)"
    using ring_list_del(1) [OF Cons.prems, of z] z(3) by (simp add: remove1_append)
  show ?case
  proof (cases "P z")
    case True
    then show ?thesis using Cons.IH [OF h1] z ring_next [OF Cons.prems] by (subst loop_unfold) auto
  next
    case False
    then show ?thesis
      using Cons.IH [of h "ys @ [z]"] Cons.prems z ring_next [OF Cons.prems] by (subst loop_unfold) auto
  qed
qed

lemma unsafe_removing_walk:
  "\<lbrakk>ring h d (ys @ zs); \<exists>z \<in> set zs. P z\<rbrakk>
   \<Longrightarrow> list_for_each_entry_continue fst (removing P f) d (hd (zs @ [d])) (h, s) = Some Null_Deref"
proof (induction zs arbitrary: ys s)
  case (Cons z zs)
  have z: "z \<noteq> d" "z \<noteq> 0" "d \<noteq> 0" using Cons.prems by (auto simp: ring_def)
  show ?case
  proof (cases "P z")
    case True
    have "nexts (list_del z h) z = 0" by (simp add: list_del_def Let_def heap_writes)
    moreover have "list_for_each_entry_continue fst (removing P f) d 0 (list_del z h, f z s) = Some Null_Deref"
      using z by (subst loop_unfold) simp
    ultimately show ?thesis using True z by (subst loop_unfold) simp
  next
    case False
    then show ?thesis
      using Cons.IH [of "ys @ [z]" "f z s"] Cons.prems z ring_next [OF Cons.prems(1)] by (subst loop_unfold) simp
  qed
qed simp

lemma chain_walk:
  "\<lbrakk>hlinks h c zs; 0 \<notin> set zs\<rbrakk>
   \<Longrightarrow> hlist_for_each_loop fst (\<lambda>x (h, s). (h, f x s)) (cells h c) (h, s) = Some (h, fold f zs s)"
  by (induction zs arbitrary: c s; subst loop_unfold) auto

text \<open>C12. The circular lists of \<^verbatim>\<open>struct list_head\<close> implement lists. For any number of lists that
  share no node, every sequence of \<^verbatim>\<open>list_add\<close>, \<^verbatim>\<open>list_add_tail\<close> and \<^verbatim>\<open>list_del\<close> (or
  \<^verbatim>\<open>list_del_init\<close>) whose callers insert only nodes that are in no list and remove only nodes
  that are in one leaves pointers that represent, in both directions and for every head, the
  list which the same operations give on sequences.
\<close>

theorem list_ops_refine:
  assumes "pool ring h D L" and "spec_ops list_place D as L = Some L'"
  shows "(\<exists>h'. run_ops list_put (\<lambda>x h. Some (list_del x h)) as h = Some h' \<and> pool ring h' D L') \<and>
    (\<exists>h'. run_ops list_put (\<lambda>x h. Some (list_del_init x h)) as h = Some h' \<and> pool ring h' D L')"
  using circular.ops_refine [OF assms] circular_init.ops_refine [OF assms] by blast

definition two_lists :: list_heap where
  "two_lists = list_init 2 (list_init 1 \<lparr>nexts = (\<lambda>_. 0), prevs = (\<lambda>_. 0)\<rparr>)"

theorem list_ops_refine_witness:
  "\<exists>h'. run_ops list_put (\<lambda>x h. Some (list_del x h)) [PutOp Back 11 1, PutOp Front 12 1, DelOp 11, PutOp Back 11 2] two_lists = Some h' \<and>
     ring h' 1 [12] \<and> ring h' 2 [11]"
proof -
  have "pool ring two_lists [1, 2] (\<lambda>_. [])"
    by (simp add: pool_def ring_def two_lists_def list_init_def heap_writes)
  moreover have "spec_ops list_place [1, 2] [PutOp Back 11 1, PutOp Front 12 1, DelOp 11, PutOp Back 11 2] (\<lambda>_. [])
      = Some ((\<lambda>d. remove1 11 (((\<lambda>_. [])(1 := [12, 11])) d))(2 := [11]))"
    by (simp add: fun_eq_iff)
  ultimately show ?thesis using list_ops_refine [of two_lists "[1, 2]" "\<lambda>_. []"] by (fastforce simp: pool_def)
qed

text \<open>C24. The hash chains of \<^verbatim>\<open>struct hlist_node\<close> implement lists. For any number of chains that
  share no node, every sequence of \<^verbatim>\<open>hlist_add_head\<close>, \<^verbatim>\<open>hlist_add_before\<close>, \<^verbatim>\<open>hlist_add_after\<close> and
  \<^verbatim>\<open>hlist_del\<close> within the contract never writes through a null pointer and leaves chains that
  represent the lists which the same operations give on sequences, and \<^verbatim>\<open>hlist_for_each_entry\<close>
  visits exactly these lists in order.
\<close>

theorem hlist_ops_refine:
  assumes "pool chain h D L" and "spec_ops hlist_place D as L = Some L'"
  shows "\<exists>h'. run_ops hlist_put hlist_del as h = Some h' \<and> pool chain h' D L' \<and>
    (\<forall>d \<in> set D. hlist_for_each_entry fst (\<lambda>x (h, s). (h, f x s)) d (h', s) = Some (h', fold f (L' d) s))"
proof -
  obtain h' where "run_ops hlist_put hlist_del as h = Some h'" "pool chain h' D L'"
    using hash_chain.ops_refine [OF assms] by blast
  moreover have "hlist_for_each_entry fst (\<lambda>x (h, s). (h, f x s)) d (h', s) = Some (h', fold f (L' d) s)" if "chain h' d (L' d)" for d
    using chain_walk [of h' "First d" "L' d" f s] that by (auto simp: chain_def hlist_for_each_entry_def)
  ultimately show ?thesis unfolding pool_def by blast
qed

theorem hlist_ops_refine_witness:
  "\<exists>h'. run_ops hlist_put hlist_del [PutOp AtHead 11 1, PutOp (After 11) 12 1, PutOp (Before 12) 13 1, DelOp 11]
       \<lparr>cells = (\<lambda>_. 0), pprevs = (\<lambda>_. None)\<rparr> = Some h' \<and> chain h' 1 [13, 12]"
proof -
  have "pool chain \<lparr>cells = (\<lambda>_. 0), pprevs = (\<lambda>_. None)\<rparr> [1] (\<lambda>_. [])" by (simp add: pool_def chain_def)
  moreover have "spec_ops hlist_place [1] [PutOp AtHead 11 1, PutOp (After 11) 12 1, PutOp (Before 12) 13 1, DelOp 11] (\<lambda>_. [])
      = Some (\<lambda>d. remove1 11 (((\<lambda>_. [])(1 := [11, 13, 12])) d))"
    by (simp add: fun_eq_iff)
  ultimately show ?thesis
    using hlist_ops_refine [of "\<lparr>cells = (\<lambda>_. 0), pprevs = (\<lambda>_. None)\<rparr>" "[1]" "\<lambda>_. []"] by (fastforce simp: pool_def)
qed

text \<open>C39. The traversals of a circular list end and visit every entry once, forwards and backwards.
  The safe traversal does so too when its body deletes entries, and leaves the list of the
  entries it kept; the plain traversal reads the null pointer of the first entry its body
  deletes.
\<close>

theorem list_traversals:
  assumes "ring h d xs"
  shows "list_for_each_entry fst (\<lambda>x (h, s). (h, f x s)) d (h, s) = Some (Done (h, fold f xs s)) \<and>
    list_for_each_entry_reverse fst (\<lambda>x (h, s). (h, f x s)) d (h, s) = Some (Done (h, fold f (rev xs) s)) \<and>
    (\<exists>h'. list_for_each_entry_safe fst (removing P f) d (h, s) = Some (Done (h', fold f xs s)) \<and>
       ring h' d (filter (\<lambda>x. \<not> P x) xs)) \<and>
    ((\<exists>x \<in> set xs. P x) \<longrightarrow> list_for_each_entry fst (removing P f) d (h, s) = Some Null_Deref)"
proof -
  have first: "nexts h d = hd (xs @ [d])" "prevs h d = last (d # xs)"
    using assms links_first links_last by (auto simp: ring_def)
  show ?thesis
    using forward_walk [of h d "[]" xs f s] backward_walk [of h d xs "[]" f s] removing_walk [of h d "[]" xs P f s]
      unsafe_removing_walk [of h d "[]" xs P f s] assms
    by (auto simp: list_for_each_entry_def list_for_each_entry_reverse_def list_for_each_entry_safe_def Let_def first)
qed

theorem list_traversals_witness:
  "\<exists>h'. list_for_each_entry_safe fst (removing (\<lambda>x. x = 12) (\<lambda>x s. s @ [x])) 1
       (list_add_tail 13 1 (list_add_tail 12 1 (list_add_tail 11 1 two_lists)), [])
     = Some (Done (h', [11, 12, 13])) \<and> ring h' 1 [11, 13]"
proof -
  have "ring two_lists 1 []" by (simp add: ring_def two_lists_def list_init_def heap_writes)
  then have "ring (list_add_tail 13 1 (list_add_tail 12 1 (list_add_tail 11 1 two_lists))) 1 [11, 12, 13]"
    using ring_list_add_tail [of _ 1 "[]" 11] ring_list_add_tail [of _ 1 "[11]" 12] ring_list_add_tail [of _ 1 "[11, 12]" 13] by simp
  from list_traversals [OF this, of "\<lambda>x s. s @ [x]" "[]" "\<lambda>x. x = 12"] show ?thesis by simp
qed

end
