(* ===== verification/Connector.thy ===== *)
theory Connector
  imports Main
begin

text \<open>
  The client side of a connection attempt, \<^verbatim>\<open>easy_net/net/connector.cpp\<close>: a non-blocking
  \<^verbatim>\<open>connect\<close>, the writable event that ends it, and retries with a growing delay. The answers of
  the system calls are arguments. The record keeps, beside the members of the class, whether the
  event is registered, the delays of the timers armed, the descriptors closed, the attempts made
  and the descriptor handed to the client.
\<close>

section \<open>The code\<close>

datatype ConnectState = DISCONNECTED | CONNECTING | CONNECTED | CONNERROR

datatype connect_errno =
  C_OK | EINPROGRESS | C_EINTR | EISCONN |
  C_EAGAIN | EADDRINUSE | EADDRNOTAVAIL | ECONNREFUSED | ENETUNREACH |
  EACCES | EPERM | EAFNOSUPPORT | EALREADY | C_EBADF | EFAULT | ENOTSOCK | C_OTHER

record connector =
  m_fd :: int
  m_status :: ConnectState
  m_retry_delay_ms :: int
  watching :: bool
  timers :: "int list"
  closed :: "int list"
  attempts :: nat
  handed_over :: "int option"
  gave_up :: bool

definition KMaxRetryTimeMS :: int where "KMaxRetryTimeMS = 5 * 1000"
definition KInitRetryTimeMS :: int where "KInitRetryTimeMS = 500"
definition KInvalidFD :: int where "KInvalidFD = -1"

definition Connector_init :: connector where
  "Connector_init =
     \<lparr>m_fd = -1, m_status = DISCONNECTED, m_retry_delay_ms = KInitRetryTimeMS, watching = False, timers = [],
      closed = [], attempts = 0, handed_over = None, gave_up = False\<rparr>"

definition Retry :: "connector \<Rightarrow> connector" where
  "Retry k =
     (let k1 = (if m_status k = CONNECTING then k\<lparr>watching := False\<rparr> else k)
      in k1\<lparr>m_status := DISCONNECTED, closed := closed k1 @ [m_fd k1], timers := timers k1 @ [m_retry_delay_ms k1],
            m_retry_delay_ms := m_retry_delay_ms k1 * 2\<rparr>)"

text \<open>\<open>fd\<close> is the descriptor \<^verbatim>\<open>socket\<close> returned and \<open>e\<close> the error of \<^verbatim>\<open>connect\<close>.\<close>

definition Start :: "int \<Rightarrow> connect_errno \<Rightarrow> connector \<Rightarrow> connector" where
  "Start fd e k =
     (let k1 = k\<lparr>m_fd := fd, attempts := attempts k + 1\<rparr> in
      if e \<in> {C_OK, EINPROGRESS, C_EINTR, EISCONN} then k1\<lparr>m_status := CONNECTING, watching := True\<rparr>
      else if e \<in> {C_EAGAIN, EADDRINUSE, EADDRNOTAVAIL, ECONNREFUSED, ENETUNREACH} then Retry k1
      else k1\<lparr>closed := closed k1 @ [m_fd k1]\<rparr>)"

text \<open>\<open>err\<close> is the pending error of the socket, \<open>self\<close> whether it is connected to itself.\<close>

definition ProcessWriteEvent :: "int \<Rightarrow> bool \<Rightarrow> connector \<Rightarrow> connector" where
  "ProcessWriteEvent err self k =
     (if m_status k = CONNECTING
      then (let k1 = k\<lparr>watching := False\<rparr> in
            if err \<noteq> 0 then Retry (k1\<lparr>m_status := CONNERROR\<rparr>)
            else if self then Retry (k1\<lparr>m_status := CONNERROR\<rparr>)
            else k1\<lparr>m_status := CONNECTED, handed_over := Some (m_fd k1), m_fd := KInvalidFD\<rparr>)
      else k)"

definition ReConnect :: "int \<Rightarrow> connect_errno \<Rightarrow> connector \<Rightarrow> connector" where
  "ReConnect fd e k =
     (if m_status k = DISCONNECTED
      then (if m_retry_delay_ms k \<le> KMaxRetryTimeMS then Start fd e k else k\<lparr>gave_up := True\<rparr>)
      else k)"

section \<open>A sequence of attempts\<close>

text \<open>How one attempt ends: at once, or with the writable event.\<close>

datatype outcome = Refused connect_errno | Failed int bool | Succeeded

fun outcome_errno :: "outcome \<Rightarrow> connect_errno" where
  "outcome_errno (Refused e) = e"
| "outcome_errno _ = EINPROGRESS"

fun finish :: "outcome \<Rightarrow> connector \<Rightarrow> connector" where
  "finish (Refused e) k = k"
| "finish (Failed err self) k = ProcessWriteEvent err self k"
| "finish Succeeded k = ProcessWriteEvent 0 False k"

fun retryable :: "outcome \<Rightarrow> bool" where
  "retryable (Refused e) \<longleftrightarrow> e \<in> {C_EAGAIN, EADDRINUSE, EADDRNOTAVAIL, ECONNREFUSED, ENETUNREACH}"
| "retryable (Failed err self) \<longleftrightarrow> err \<noteq> 0 \<or> self"
| "retryable Succeeded \<longleftrightarrow> False"

text \<open>A timer that is armed fires and is answered by the next outcome.\<close>

fun fire_timers :: "(int \<times> outcome) list \<Rightarrow> nat \<Rightarrow> connector \<Rightarrow> connector" where
  "fire_timers [] fired k = k"
| "fire_timers ((fd, oc) # os) fired k =
     (if fired < length (timers k)
      then fire_timers os (fired + 1) (finish oc (ReConnect fd (outcome_errno oc) k))
      else k)"

fun connect_run :: "(int \<times> outcome) list \<Rightarrow> connector \<Rightarrow> connector" where
  "connect_run [] k = k"
| "connect_run ((fd, oc) # os) k = fire_timers os 0 (finish oc (Start fd (outcome_errno oc) k))"

text \<open>A failed attempt of a connector that is not connecting.\<close>

lemma failed_attempt:
  assumes "retryable oc" "m_status k \<noteq> CONNECTING" "\<not> watching k"
  shows "finish oc (Start fd (outcome_errno oc) k) =
    k\<lparr>m_fd := fd, m_status := DISCONNECTED, closed := closed k @ [fd], timers := timers k @ [m_retry_delay_ms k],
      m_retry_delay_ms := m_retry_delay_ms k * 2, attempts := attempts k + 1\<rparr>"
  using assms by (cases oc; cases k) (auto simp: Start_def Retry_def ProcessWriteEvent_def Let_def)

text \<open>The steps after a timer: another failure, giving up, success; and no timer left.\<close>

lemma failed_reconnect:
  "\<lbrakk>retryable oc; m_status k = DISCONNECTED; \<not> watching k; m_retry_delay_ms k \<le> KMaxRetryTimeMS\<rbrakk> \<Longrightarrow>
   finish oc (ReConnect fd (outcome_errno oc) k) =
     k\<lparr>m_fd := fd, m_status := DISCONNECTED, closed := closed k @ [fd], timers := timers k @ [m_retry_delay_ms k],
       m_retry_delay_ms := m_retry_delay_ms k * 2, attempts := attempts k + 1\<rparr>"
  by (simp add: ReConnect_def failed_attempt)

lemma reconnect_gives_up:
  "\<lbrakk>m_status k = DISCONNECTED; KMaxRetryTimeMS < m_retry_delay_ms k\<rbrakk> \<Longrightarrow> finish oc (ReConnect fd e k) = k\<lparr>gave_up := True\<rparr>"
  by (cases oc) (simp_all add: ReConnect_def ProcessWriteEvent_def)

lemma reconnect_succeeds:
  "\<lbrakk>m_status k = DISCONNECTED; m_retry_delay_ms k \<le> KMaxRetryTimeMS\<rbrakk> \<Longrightarrow>
   ProcessWriteEvent 0 False (ReConnect fd EINPROGRESS k) =
     k\<lparr>m_fd := KInvalidFD, m_status := CONNECTED, watching := False, attempts := attempts k + 1, handed_over := Some fd\<rparr>"
  by (cases k) (simp add: ReConnect_def Start_def ProcessWriteEvent_def Let_def)

lemma no_timer_left: "length (timers k) \<le> n \<Longrightarrow> fire_timers os n k = k"
  by (cases os) auto

lemmas connect_steps =
  failed_attempt failed_reconnect reconnect_gives_up reconnect_succeeds no_timer_left
  Connector_init_def KInitRetryTimeMS_def KMaxRetryTimeMS_def

lemma all_attempts_fail:
  assumes "list_all (retryable \<circ> snd) os" "length os > 4"
  shows "connect_run os Connector_init =
    \<lparr>m_fd = fst (os ! 3), m_status = DISCONNECTED, m_retry_delay_ms = 8000, watching = False,
     timers = [500, 1000, 2000, 4000], closed = map fst (take 4 os), attempts = 4, handed_over = None, gave_up = True\<rparr>"
proof -
  obtain f1 o1 f2 o2 f3 o3 f4 o4 f5 o5 r
    where os: "os = (f1, o1) # (f2, o2) # (f3, o3) # (f4, o4) # (f5, o5) # r"
    using assms(2) by (auto simp: Suc_le_length_iff less_eq_Suc_le eval_nat_numeral)
  then have "retryable o1" "retryable o2" "retryable o3" "retryable o4" using assms(1) by simp_all
  then show ?thesis by (simp add: os connect_steps)
qed

lemma attempt_succeeds:
  assumes "list_all (retryable \<circ> snd) os" "length os < 4"
  shows "\<exists>k. k = connect_run (os @ [(fd, Succeeded)]) Connector_init \<and> handed_over k = Some fd \<and>
    m_status k = CONNECTED \<and> closed k = map fst os \<and> attempts k = length os + 1 \<and> \<not> watching k"
proof -
  consider "os = []" | f1 o1 where "os = [(f1, o1)]" | f1 o1 f2 o2 where "os = [(f1, o1), (f2, o2)]"
    | f1 o1 f2 o2 f3 o3 where "os = [(f1, o1), (f2, o2), (f3, o3)]"
    using assms(2) by (cases os rule: remdups_adj.cases; fastforce simp: length_Suc_conv less_Suc_eq eval_nat_numeral)
  then show ?thesis
  proof cases
    case 1
    then show ?thesis by (simp add: connect_steps Start_def ProcessWriteEvent_def Let_def)
  qed (use assms(1) in \<open>simp_all add: connect_steps\<close>)
qed

text \<open>C37. Retries are bounded. A connector whose attempts keep failing in any of the ways that it
  retries makes four attempts, closes the descriptor of each, waits 500, 1000, 2000 and 4000
  milliseconds, and gives up when the last timer fires; it is not registered with the poller
  then. If the attempt after fewer than four failures succeeds, the client gets its descriptor
  and no other stays open.\<close>

theorem connect_retries:
  assumes "list_all (retryable \<circ> snd) os"
  shows "(length os > 4 \<longrightarrow> (\<exists>k. k = connect_run os Connector_init \<and> attempts k = 4 \<and>
      timers k = [500, 1000, 2000, 4000] \<and> closed k = map fst (take 4 os) \<and> gave_up k \<and> \<not> watching k \<and>
      handed_over k = None)) \<and>
    (length os < 4 \<longrightarrow> (\<exists>k. k = connect_run (os @ [(fd, Succeeded)]) Connector_init \<and> handed_over k = Some fd \<and>
      m_status k = CONNECTED \<and> closed k = map fst os \<and> attempts k = length os + 1 \<and> \<not> watching k))"
  using all_attempts_fail [OF assms] attempt_succeeds [OF assms] by simp

theorem connect_retries_witness:
  "\<exists>k. k = connect_run (map (\<lambda>n. (n, Refused ECONNREFUSED)) [3, 4, 5, 6, 7]) Connector_init \<and> attempts k = 4 \<and>
     timers k = [500, 1000, 2000, 4000] \<and> gave_up k"
  using connect_retries [of "map (\<lambda>n. (n, Refused ECONNREFUSED)) [3, 4, 5, 6, 7]"] by auto

text \<open>An error that is not retried leaves the closed descriptor in \<^verbatim>\<open>m_fd\<close>, which the destructor closes again.\<close>

lemma hard_error_keeps_fd:
  "e \<in> {EACCES, EPERM, EAFNOSUPPORT, EALREADY, C_EBADF, EFAULT, ENOTSOCK, C_OTHER} \<Longrightarrow>
     m_fd (Start fd e k) = fd \<and> closed (Start fd e k) = closed k @ [fd] \<and> m_status (Start fd e k) = m_status k"
  by (auto simp: Start_def Let_def)

end
