(* ===== verification/Latch.thy ===== *)
theory Latch
  imports Main
begin

text \<open>
  The countdown latch of \<^verbatim>\<open>easy_net/base/countdown_latch.h\<close> among any number of threads.
  Every access to the atomic counter, every locking of the mutex and the wait on the
  condition variable is a step of its own; the counter is decremented outside the mutex, and
  only the notification is made inside.
\<close>

section \<open>The code\<close>

text \<open>
  Where a thread stands: \<open>W_\<close> in \<^verbatim>\<open>Wait\<close>, \<open>C_\<close> in \<^verbatim>\<open>CountDown\<close>, with the local \<^verbatim>\<open>old_c\<close>.
\<close>

datatype pc =
  Idle |
  W_Start | W_Lock | W_Check | W_Sleep | W_Blocked | W_Woken | W_Done |
  C_Load | C_Cas int | C_Lock | C_Notify

record latch =
  m_count :: int
  m_mtx :: "nat option"
  at :: "nat \<Rightarrow> pc"

definition goto :: "nat \<Rightarrow> pc \<Rightarrow> latch \<Rightarrow> latch" where
  "goto t p l = l\<lparr>at := (at l)(t := p)\<rparr>"

text \<open>
  \<^verbatim>\<open>Wait\<close>: the test without the mutex, and the loop of \<^verbatim>\<open>m_cv.wait\<close>: the predicate under the
  mutex, and the wait, which gives the mutex up as it blocks.
\<close>

definition Wait_start :: "nat \<Rightarrow> latch \<Rightarrow> latch" where
  "Wait_start t l = goto t (if m_count l = 0 then W_Done else W_Lock) l"

definition Wait_check :: "nat \<Rightarrow> latch \<Rightarrow> latch" where
  "Wait_check t l = (if m_count l = 0 then goto t W_Done (l\<lparr>m_mtx := None\<rparr>) else goto t W_Sleep l)"

definition Wait_sleep :: "nat \<Rightarrow> latch \<Rightarrow> latch" where
  "Wait_sleep t l = goto t W_Blocked (l\<lparr>m_mtx := None\<rparr>)"

text \<open>\<^verbatim>\<open>CountDown\<close>: the load, the compare and exchange, and the notification.\<close>

definition CountDown_load :: "nat \<Rightarrow> latch \<Rightarrow> latch" where
  "CountDown_load t l = goto t (if m_count l > 0 then C_Cas (m_count l) else Idle) l"

definition CountDown_cas :: "nat \<Rightarrow> int \<Rightarrow> latch \<Rightarrow> latch" where
  "CountDown_cas t old_c l =
     (if m_count l = old_c
      then goto t (if old_c = 1 then C_Lock else Idle) (l\<lparr>m_count := old_c - 1\<rparr>)
      else goto t C_Load l)"

definition notify_all :: "latch \<Rightarrow> latch" where
  "notify_all l = l\<lparr>at := (\<lambda>t. if at l t = W_Blocked then W_Woken else at l t)\<rparr>"

definition CountDown_notify :: "nat \<Rightarrow> latch \<Rightarrow> latch" where
  "CountDown_notify t l = goto t Idle ((notify_all l)\<lparr>m_mtx := None\<rparr>)"

definition CountDownLatch_init :: "int \<Rightarrow> latch" where
  "CountDownLatch_init count = \<lparr>m_count = count, m_mtx = None, at = (\<lambda>_. Idle)\<rparr>"

section \<open>Any number of threads\<close>

text \<open>A blocked thread may also wake without a notification.\<close>

inductive latch_step :: "latch \<Rightarrow> latch \<Rightarrow> bool" where
  call_wait: "at l t = Idle \<Longrightarrow> latch_step l (goto t W_Start l)"
| call_count_down: "at l t = Idle \<Longrightarrow> latch_step l (goto t C_Load l)"
| wait_start: "at l t = W_Start \<Longrightarrow> latch_step l (Wait_start t l)"
| lock: "\<lbrakk>at l t = W_Lock \<or> at l t = W_Woken; m_mtx l = None\<rbrakk> \<Longrightarrow> latch_step l (goto t W_Check (l\<lparr>m_mtx := Some t\<rparr>))"
| check: "at l t = W_Check \<Longrightarrow> latch_step l (Wait_check t l)"
| block: "at l t = W_Sleep \<Longrightarrow> latch_step l (Wait_sleep t l)"
| spurious: "at l t = W_Blocked \<Longrightarrow> latch_step l (goto t W_Woken l)"
| load: "at l t = C_Load \<Longrightarrow> latch_step l (CountDown_load t l)"
| cas: "at l t = C_Cas old_c \<Longrightarrow> latch_step l (CountDown_cas t old_c l)"
| lock_notify: "\<lbrakk>at l t = C_Lock; m_mtx l = None\<rbrakk> \<Longrightarrow> latch_step l (goto t C_Notify (l\<lparr>m_mtx := Some t\<rparr>))"
| notify: "at l t = C_Notify \<Longrightarrow> latch_step l (CountDown_notify t l)"

inductive latch_reachable :: "int \<Rightarrow> latch \<Rightarrow> bool" for n where
  start: "latch_reachable n (CountDownLatch_init n)"
| step: "\<lbrakk>latch_reachable n l; latch_step l l'\<rbrakk> \<Longrightarrow> latch_reachable n l'"

inductive_cases latch_stepE: "latch_step l l'"

lemmas latch_ops =
  Wait_start_def Wait_check_def Wait_sleep_def CountDown_load_def CountDown_cas_def CountDown_notify_def notify_all_def goto_def

lemma at_goto [simp]: "at (goto t p l) u = (if u = t then p else at l u)" "m_count (goto t p l) = m_count l" "m_mtx (goto t p l) = m_mtx l"
  by (simp_all add: goto_def)

text \<open>The mutex is held exactly by the thread inside it.\<close>

fun inside :: "pc \<Rightarrow> bool" where
  "inside W_Check = True"
| "inside W_Sleep = True"
| "inside C_Notify = True"
| "inside _ = False"

definition mutex_inv :: "latch \<Rightarrow> bool" where
  "mutex_inv l \<longleftrightarrow> (\<forall>t. inside (at l t) = (m_mtx l = Some t))"

text \<open>The counter goes down to zero and stays there.\<close>

fun needs_zero :: "pc \<Rightarrow> bool" where
  "needs_zero W_Done = True"
| "needs_zero C_Lock = True"
| "needs_zero C_Notify = True"
| "needs_zero _ = False"

definition count_inv :: "int \<Rightarrow> latch \<Rightarrow> bool" where
  "count_inv n l \<longleftrightarrow> 0 \<le> m_count l \<and> m_count l \<le> n \<and> (\<forall>t. needs_zero (at l t) \<longrightarrow> m_count l = 0) \<and>
     (\<forall>t old_c. at l t = C_Cas old_c \<longrightarrow> 0 < old_c)"

text \<open>Whoever goes to sleep or is blocked while the counter is zero has the notification still ahead.\<close>

fun asleep :: "pc \<Rightarrow> bool" where
  "asleep W_Sleep = True"
| "asleep W_Blocked = True"
| "asleep _ = False"

fun notifying :: "pc \<Rightarrow> bool" where
  "notifying C_Lock = True"
| "notifying C_Notify = True"
| "notifying _ = False"

definition wake_inv :: "latch \<Rightarrow> bool" where
  "wake_inv l \<longleftrightarrow> (m_count l = 0 \<longrightarrow> (\<exists>t. asleep (at l t)) \<longrightarrow> (\<exists>t. notifying (at l t)))"

lemma mutex_inv_step:
  assumes "mutex_inv l" "latch_step l l'"
  shows "mutex_inv l'"
proof -
  have inv: "inside (at l t) = (m_mtx l = Some t)" for t using assms(1) by (simp add: mutex_inv_def)
  show ?thesis
    using assms(2)
  proof (cases rule: latch_step.cases)
    case (lock t)
    then show ?thesis using inv by (auto simp: mutex_inv_def)
  next
    case (check t)
    then show ?thesis using inv inv [of t] by (auto simp: mutex_inv_def Wait_check_def)
  next
    case (block t)
    then show ?thesis using inv inv [of t] by (auto simp: mutex_inv_def Wait_sleep_def)
  next
    case (notify t)
    then have "\<not> inside (at l u)" if "u \<noteq> t" for u using inv [of t] inv [of u] that by auto
    then show ?thesis using inv notify by (auto simp: mutex_inv_def CountDown_notify_def notify_all_def)
  qed (use inv in \<open>auto simp: mutex_inv_def Wait_start_def CountDown_load_def CountDown_cas_def simp flip: inv\<close>)
qed

lemma count_zero: "\<lbrakk>count_inv n l; needs_zero (at l t)\<rbrakk> \<Longrightarrow> m_count l = 0"
  unfolding count_inv_def by blast

lemma count_inv_step:
  assumes "count_inv n l" "latch_step l l'"
  shows "count_inv n l'"
  using assms(2)
proof (cases rule: latch_step.cases)
  case (cas t old_c)
  have pos: "0 < old_c" using assms(1) cas(2) by (auto simp: count_inv_def)
  then have "\<not> needs_zero (at l u)" if "m_count l = old_c" for u using assms(1) that by (auto simp: count_inv_def)
  then show ?thesis using cas assms(1) pos by (auto simp: count_inv_def CountDown_cas_def)
next
  case (notify t)
  then show ?thesis using assms(1) by (auto simp: count_inv_def CountDown_notify_def notify_all_def split: if_splits)
next
  case (lock_notify t)
  then have "m_count l = 0" using count_zero [OF assms(1), of t] by simp
  then show ?thesis using lock_notify assms(1) by (auto simp: count_inv_def)
qed (use assms(1) in \<open>auto simp: count_inv_def Wait_start_def Wait_check_def Wait_sleep_def CountDown_load_def split: if_splits\<close>)

lemma wake_inv_step:
  assumes "mutex_inv l" "count_inv n l" "wake_inv l" "latch_step l l'"
  shows "wake_inv l'"
proof -
  have wake: "\<exists>t. notifying (at l t)" if "m_count l = 0" "asleep (at l t)" for t using assms(3) that by (auto simp: wake_inv_def)
  have keep: "wake_inv l'" if "m_count l' = m_count l" "\<And>u. asleep (at l' u) \<Longrightarrow> m_count l = 0 \<Longrightarrow> asleep (at l u)"
      "\<And>u. notifying (at l u) \<Longrightarrow> notifying (at l' u)"
    using wake that unfolding wake_inv_def by metis
  show ?thesis
    using assms(4)
  proof (cases rule: latch_step.cases)
    case (cas t old_c)
    show ?thesis
    proof (cases "m_count l = old_c")
      case True
      then show ?thesis using cas by (auto simp: wake_inv_def CountDown_cas_def intro!: exI [of _ t])
    next
      case False
      then show ?thesis using cas by (intro keep) (auto simp: CountDown_cas_def split: if_splits)
    qed
  next
    case (notify t)
    have inside: "inside (at l u) \<longleftrightarrow> m_mtx l = Some u" for u using assms(1) by (simp add: mutex_inv_def)
    then have "\<not> inside (at l u)" if "u \<noteq> t" for u using inside [of t] notify that by simp
    then have "at l u \<noteq> W_Sleep" for u using notify by (cases "u = t"; force)
    then have "\<not> asleep (at l' u)" for u using notify by (cases "at l u") (auto simp: CountDown_notify_def notify_all_def)
    then show ?thesis by (auto simp: wake_inv_def)
  qed (rule keep; fastforce simp: Wait_start_def Wait_check_def Wait_sleep_def CountDown_load_def split: if_splits)+
qed

lemma latch_invariants:
  assumes "latch_reachable n l" "0 < n"
  shows "mutex_inv l \<and> count_inv n l \<and> wake_inv l"
  using assms(1)
proof (induction rule: latch_reachable.induct)
  case start
  then show ?case
    using assms(2) by (simp add: mutex_inv_def count_inv_def wake_inv_def CountDownLatch_init_def)
next
  case (step l l')
  then show ?case using mutex_inv_step count_inv_step wake_inv_step by blast
qed

text \<open>C23. The countdown latch. However the calls of any number of threads are interleaved, and
  with spurious wake-ups, the counter stays between zero and its initial value, a thread
  returns from \<^verbatim>\<open>Wait\<close> only when the counter is zero, at most one thread is inside the mutex,
  and no wake-up is lost: while the counter is zero and a thread is blocked in the wait, or
  has tested the counter before it became zero and is about to block, the thread that
  brought the counter to zero has still to notify.
\<close>

theorem latch_no_lost_wakeup:
  assumes "latch_reachable n l" "0 < n"
  shows "0 \<le> m_count l \<and> m_count l \<le> n \<and>
    (at l t = W_Done \<longrightarrow> m_count l = 0) \<and>
    (inside (at l t) \<and> inside (at l u) \<longrightarrow> t = u) \<and>
    (m_count l = 0 \<and> at l t \<in> {W_Sleep, W_Blocked} \<longrightarrow> (\<exists>u. at l u \<in> {C_Lock, C_Notify}))"
proof -
  have inv: "mutex_inv l" "count_inv n l" "wake_inv l" using latch_invariants [OF assms] by auto
  have not: "notifying p \<Longrightarrow> p \<in> {C_Lock, C_Notify}" for p by (cases p) auto
  have "\<exists>u. at l u \<in> {C_Lock, C_Notify}" if "m_count l = 0" "at l t \<in> {W_Sleep, W_Blocked}"
  proof -
    have "asleep (at l t)" using that(2) by auto
    then show ?thesis using inv(3) that(1) not unfolding wake_inv_def by blast
  qed
  moreover have "t = u" if "inside (at l t)" "inside (at l u)" using inv(1) that by (simp add: mutex_inv_def)
  moreover have "m_count l = 0" if "at l t = W_Done"
    using count_zero [OF inv(2), of t] that by simp
  ultimately show ?thesis using inv(2) by (auto simp: count_inv_def)
qed

text \<open>A latch of one: a thread tests the counter, another brings it to zero, the first blocks.\<close>

definition race :: latch where
  "race = Wait_sleep 0 (CountDown_cas 1 1 (CountDown_load 1 (goto 1 C_Load (Wait_check 0
     (goto 0 W_Check ((Wait_start 0 (goto 0 W_Start (CountDownLatch_init 1)))\<lparr>m_mtx := Some 0\<rparr>))))))"

lemma race_reachable: "latch_reachable 1 race"
  unfolding race_def
  by (intro latch_reachable.step [OF _ latch_step.block] latch_reachable.step [OF _ latch_step.cas]
      latch_reachable.step [OF _ latch_step.load] latch_reachable.step [OF _ latch_step.call_count_down]
      latch_reachable.step [OF _ latch_step.check] latch_reachable.step [OF _ latch_step.lock]
      latch_reachable.step [OF _ latch_step.wait_start] latch_reachable.step [OF _ latch_step.call_wait] latch_reachable.start)
    (simp_all add: CountDown_cas_def CountDown_load_def Wait_check_def Wait_start_def CountDownLatch_init_def)

theorem latch_no_lost_wakeup_witness: "at race 0 = W_Blocked \<and> m_count race = 0 \<and> (\<exists>u. at race u \<in> {C_Lock, C_Notify})"
proof -
  have "at race 0 = W_Blocked" "m_count race = 0"
    by (simp_all add: race_def Wait_sleep_def CountDown_cas_def CountDown_load_def Wait_check_def Wait_start_def CountDownLatch_init_def)
  then show ?thesis using latch_no_lost_wakeup [OF race_reachable, of 0 0] by simp
qed

end
