(* ===== verification/Http_Url.thy ===== *)
theory Http_Url
  imports Main
begin

text \<open>
  The parser of URLs, \<^verbatim>\<open>easy_net/protocol/http/http_url.cpp\<close>, with \<^verbatim>\<open>split_string\<close> of
  \<^verbatim>\<open>easy_net/base/string_util.h\<close> for the one separator it is used with. One iteration of
  the loop of \<^verbatim>\<open>Parse\<close> is \<open>url_step\<close>; the consecutive tests of a state see the members and
  locals as the tests before left them.
\<close>

section \<open>The code\<close>

record url_data =
  protocol :: string
  host :: string
  port :: string
  path :: string
  query :: "string \<rightharpoonup> string"
  fragment :: string

datatype url_state =
  URL_STATE_START | URL_STATE_PROTOCOL | URL_STATE_HOST | URL_STATE_PORT | URL_STATE_PATH |
  URL_STATE_QUERY | URL_STATE_FRAGMENT | URL_STATE_END

record url_parser =
  url :: url_data
  m_state :: url_state
  u_begin :: nat
  u_end :: nat
  has_port :: bool

definition KProtocolMinLen :: nat where "KProtocolMinLen = 7"

definition substr :: "string \<Rightarrow> nat \<Rightarrow> nat \<Rightarrow> string" where
  "substr s pos n = take n (drop pos s)"

function split_string :: "string \<Rightarrow> char \<Rightarrow> string list" where
  "split_string s c =
     (if c \<in> set s
      then takeWhile (\<lambda>x. x \<noteq> c) s # split_string (tl (dropWhile (\<lambda>x. x \<noteq> c) s)) c
      else if s = [] then [] else [s])"
  by pat_completeness auto
termination
proof (relation "measure (\<lambda>(s, c). length s)", goal_cases)
  case (2 s c)
  then have "dropWhile (\<lambda>x. x \<noteq> c) s \<noteq> []" by auto
  then show ?case using length_dropWhile_le [of "\<lambda>x. x \<noteq> c" s] by (cases "dropWhile (\<lambda>x. x \<noteq> c) s") auto
qed simp

declare split_string.simps [simp del]

text \<open>The loop over the tokens: it stops at the first token without an equals sign.\<close>

fun add_tokens :: "string list \<Rightarrow> (string \<rightharpoonup> string) \<Rightarrow> (string \<rightharpoonup> string)" where
  "add_tokens [] q = q"
| "add_tokens (t # ts) q =
     (if CHR ''='' \<in> set t
      then add_tokens ts (q(takeWhile (\<lambda>x. x \<noteq> CHR ''='') t \<mapsto> tl (dropWhile (\<lambda>x. x \<noteq> CHR ''='') t)))
      else q)"

definition step_protocol :: "string \<Rightarrow> url_parser \<Rightarrow> url_parser" where
  "step_protocol m p =
     (if m ! u_end p = CHR '':''
      then p\<lparr>url := (url p)\<lparr>protocol := substr m (u_begin p) (u_end p - u_begin p)\<rparr>, u_begin := u_end p + 3,
             u_end := u_end p + 3, m_state := URL_STATE_HOST\<rparr>
      else p\<lparr>u_end := u_end p + 1\<rparr>)"

definition step_host :: "string \<Rightarrow> url_parser \<Rightarrow> url_parser" where
  "step_host m p =
     (let e = u_end p;
          p1 = (if e + 1 = length m
                then p\<lparr>url := (url p)\<lparr>host := substr m (u_begin p) (e + 1 - u_begin p)\<rparr>, m_state := URL_STATE_END\<rparr>
                else p);
          p2 = (if m ! e = CHR '':''
                then p1\<lparr>url := (url p1)\<lparr>host := substr m (u_begin p1) (e - u_begin p1)\<rparr>, u_begin := e + 1,
                        m_state := URL_STATE_PORT\<rparr>
                else p1);
          p3 = (if m ! e = CHR ''/''
                then p2\<lparr>url := (url p2)\<lparr>host := substr m (u_begin p2) (e - u_begin p2)\<rparr>, u_begin := e,
                        m_state := URL_STATE_PATH\<rparr>
                else p2)
      in p3\<lparr>u_end := e + 1\<rparr>)"

definition step_port :: "string \<Rightarrow> url_parser \<Rightarrow> url_parser" where
  "step_port m p =
     (let e = u_end p;
          p1 = (if m ! e = CHR ''/''
                then p\<lparr>url := (url p)\<lparr>port := substr m (u_begin p) (e - u_begin p)\<rparr>, u_begin := e,
                       m_state := URL_STATE_PATH, has_port := True\<rparr>
                else p);
          p2 = (if e + 1 = length m
                then p1\<lparr>url := (url p1)\<lparr>port := substr m (u_begin p1) (e + 1 - u_begin p1)\<rparr>,
                        m_state := URL_STATE_END, has_port := True\<rparr>
                else p1)
      in p2\<lparr>u_end := e + 1\<rparr>)"

definition step_path :: "string \<Rightarrow> url_parser \<Rightarrow> url_parser" where
  "step_path m p =
     (let p1 = (if m ! u_end p = CHR ''?''
                then p\<lparr>url := (url p)\<lparr>path := substr m (u_begin p) (u_end p - u_begin p)\<rparr>,
                       u_begin := u_end p + 1, u_end := u_end p + 1, m_state := URL_STATE_QUERY\<rparr>
                else p);
          e = u_end p1;
          p2 = (if e + 1 = length m
                then p1\<lparr>url := (url p1)\<lparr>path := substr m (u_begin p1) (e - u_begin p1)\<rparr>, m_state := URL_STATE_END\<rparr>
                else p1)
      in p2\<lparr>u_end := e + 1\<rparr>)"

text \<open>At a fragment the tokens of the query are looked at and dropped.\<close>

definition step_query :: "string \<Rightarrow> url_parser \<Rightarrow> url_parser" where
  "step_query m p =
     (let e = u_end p;
          p1 = (if m ! e = CHR ''#'' then p\<lparr>u_begin := e + 1, m_state := URL_STATE_FRAGMENT\<rparr> else p);
          p2 = (if e + 1 = length m
                then p1\<lparr>url := (url p1)\<lparr>query := add_tokens (split_string (substr m (u_begin p1) (e - u_begin p1)) CHR ''&'')
                                               (query (url p1))\<rparr>, m_state := URL_STATE_END\<rparr>
                else p1)
      in p2\<lparr>u_end := e + 1\<rparr>)"

definition step_fragment :: "string \<Rightarrow> url_parser \<Rightarrow> url_parser" where
  "step_fragment m p =
     (let e = u_end p;
          p1 = (if e + 1 = length m
                then p\<lparr>url := (url p)\<lparr>fragment := substr m (u_begin p) (e + 1 - u_begin p)\<rparr>, m_state := URL_STATE_END\<rparr>
                else p)
      in p1\<lparr>u_end := e + 1\<rparr>)"

text \<open>\<open>None\<close> is the early return of \<^verbatim>\<open>false\<close>.\<close>

definition url_step :: "string \<Rightarrow> url_parser \<Rightarrow> url_parser option" where
  "url_step m p =
     (case m_state p of
        URL_STATE_START \<Rightarrow>
          if length m < KProtocolMinLen then None
          else Some (p\<lparr>m_state := URL_STATE_PROTOCOL, u_end := u_end p + 1\<rparr>)
      | URL_STATE_PROTOCOL \<Rightarrow> Some (step_protocol m p)
      | URL_STATE_HOST \<Rightarrow> Some (step_host m p)
      | URL_STATE_PORT \<Rightarrow> Some (step_port m p)
      | URL_STATE_PATH \<Rightarrow> Some (step_path m p)
      | URL_STATE_QUERY \<Rightarrow> Some (step_query m p)
      | URL_STATE_FRAGMENT \<Rightarrow> Some (step_fragment m p)
      | URL_STATE_END \<Rightarrow> Some (p\<lparr>u_end := u_end p + 1\<rparr>))"

lemma url_step_end: "url_step m p = Some p' \<Longrightarrow> u_end p < u_end p'"
  by (cases "m_state p")
    (auto simp: url_step_def step_protocol_def step_host_def step_port_def step_path_def step_query_def
      step_fragment_def Let_def split: if_splits)

function url_loop :: "string \<Rightarrow> url_parser \<Rightarrow> url_parser option" where
  "url_loop m p =
     (if m_state p = URL_STATE_END \<or> u_end p \<ge> length m then Some p
      else (case url_step m p of None \<Rightarrow> None | Some p1 \<Rightarrow> url_loop m p1))"
  by pat_completeness auto
termination
proof (relation "measure (\<lambda>(m, p). length m - u_end p)", goal_cases)
  case (2 m p p1)
  then show ?case using url_step_end [of m p p1] by (auto intro: diff_less_mono2)
qed simp

declare url_loop.simps [simp del]

definition parser_init :: url_parser where
  "parser_init =
     \<lparr>url = \<lparr>protocol = [], host = [], port = [], path = [], query = (\<lambda>_. None), fragment = []\<rparr>,
      m_state = URL_STATE_START, u_begin = 0, u_end = 0, has_port = False\<rparr>"

definition Parse :: "string \<Rightarrow> url_data option" where
  "Parse m =
     (if m = [] then None
      else
        map_option
          (\<lambda>p. if has_port p then url p
               else if protocol (url p) = ''http'' then (url p)\<lparr>port := ''80''\<rparr>
               else if protocol (url p) = ''https'' then (url p)\<lparr>port := ''443''\<rparr>
               else url p)
          (url_loop m parser_init))"

section \<open>The parts of a URL\<close>

text \<open>In each state the loop only moves on until one of these characters.\<close>

fun stops :: "url_state \<Rightarrow> char set" where
  "stops URL_STATE_PROTOCOL = {CHR '':''}"
| "stops URL_STATE_HOST = {CHR '':'', CHR ''/''}"
| "stops URL_STATE_PORT = {CHR ''/''}"
| "stops URL_STATE_PATH = {CHR ''?''}"
| "stops URL_STATE_QUERY = {CHR ''#''}"
| "stops URL_STATE_FRAGMENT = {}"
| "stops _ = UNIV"

lemmas url_steps =
  url_step_def step_protocol_def step_host_def step_port_def step_path_def step_query_def step_fragment_def Let_def

lemma url_loop_step:
  "\<lbrakk>m_state p \<noteq> URL_STATE_END; u_end p < length m\<rbrakk>
   \<Longrightarrow> url_loop m p = (case url_step m p of None \<Rightarrow> None | Some p1 \<Rightarrow> url_loop m p1)"
  by (subst url_loop.simps) simp

lemma url_loop_done: "m_state p = URL_STATE_END \<or> length m \<le> u_end p \<Longrightarrow> url_loop m p = Some p"
  by (subst url_loop.simps) auto

lemma url_step_idle:
  "\<lbrakk>m ! u_end p \<notin> stops (m_state p); u_end p + 1 < length m\<rbrakk> \<Longrightarrow> url_step m p = Some (p\<lparr>u_end := u_end p + 1\<rparr>)"
  by (cases "m_state p") (auto simp: url_steps)

lemma url_scan:
  "\<lbrakk>\<And>i. u_end p \<le> i \<Longrightarrow> i < u_end p + n \<Longrightarrow> m ! i \<notin> stops (m_state p); u_end p + n < length m\<rbrakk>
   \<Longrightarrow> url_loop m p = url_loop m (p\<lparr>u_end := u_end p + n\<rparr>)"
proof (induction n arbitrary: p)
  case (Suc n)
  have idle: "m ! u_end p \<notin> stops (m_state p)" using Suc.prems(1) by simp
  then have "m_state p \<noteq> URL_STATE_END" by auto
  then have "url_loop m p = url_loop m (p\<lparr>u_end := u_end p + 1\<rparr>)"
    using url_step_idle [OF idle] Suc.prems(2) by (simp add: url_loop_step)
  then show ?case using Suc.IH [of "p\<lparr>u_end := u_end p + 1\<rparr>"] Suc.prems by simp
qed simp

text \<open>The same where the string is known as a prefix, a stretch and a rest.\<close>

lemma url_skip:
  assumes "m = a @ w @ c # r" "length a = u_end p" "set w \<inter> stops (m_state p) = {}"
  shows "url_loop m p = url_loop m (p\<lparr>u_end := u_end p + length w\<rparr>)"
proof (rule url_scan)
  fix i assume "u_end p \<le> i" "i < u_end p + length w"
  then have "m ! i \<in> set w" using assms(1,2) by (auto simp: nth_append)
  then show "m ! i \<notin> stops (m_state p)" using assms(3) by auto
qed (use assms in simp)

definition at_host :: "string \<Rightarrow> url_parser" where
  "at_host pr = parser_init\<lparr>url := (url parser_init)\<lparr>protocol := pr\<rparr>, m_state := URL_STATE_HOST,
     u_begin := length pr + 3, u_end := length pr + 3\<rparr>"

lemma url_to_host:
  assumes "m = pr @ ''://'' @ r" "pr \<noteq> []" "CHR '':'' \<notin> set pr" "7 \<le> length m"
  shows "url_loop m parser_init = url_loop m (at_host pr)"
proof -
  let ?p = "parser_init\<lparr>m_state := URL_STATE_PROTOCOL, u_end := 1\<rparr>"
  let ?q = "parser_init\<lparr>m_state := URL_STATE_PROTOCOL, u_end := length pr\<rparr>"
  obtain a w where pr: "pr = a # w" using assms(2) by (cases pr) auto
  have "url_loop m parser_init = url_loop m ?p"
    using assms(4) by (subst url_loop_step) (auto simp: url_steps parser_init_def KProtocolMinLen_def)
  also have "\<dots> = url_loop m (?p\<lparr>u_end := u_end ?p + length w\<rparr>)"
    by (rule url_skip [where a = "[a]" and c = "CHR '':''" and r = "''//'' @ r"]) (use assms(1,3) pr in auto)
  also have "?p\<lparr>u_end := u_end ?p + length w\<rparr> = ?q" by (simp add: pr)
  also have "url_loop m ?q = url_loop m (at_host pr)"
    using assms(1)
    by (subst url_loop_step) (auto simp: url_steps parser_init_def at_host_def nth_append substr_def)
  finally show ?thesis .
qed

text \<open>A host and a port, with the parser standing behind the slash that ends the port.\<close>

definition at_path :: "string \<Rightarrow> string \<Rightarrow> string \<Rightarrow> url_parser" where
  "at_path pr h po = parser_init\<lparr>url := (url parser_init)\<lparr>protocol := pr, host := h, port := po\<rparr>, m_state := URL_STATE_PATH,
     u_begin := length (pr @ ''://'' @ h @ '':'' @ po), u_end := length (pr @ ''://'' @ h @ '':'' @ po) + 1, has_port := True\<rparr>"

lemma url_to_port:
  assumes "m = pr @ ''://'' @ h @ '':'' @ po @ CHR ''/'' # r" "set h \<inter> {CHR '':'', CHR ''/''} = {}" "CHR ''/'' \<notin> set po"
  shows "url_loop m (at_host pr)
    = url_loop m (parser_init\<lparr>url := (url parser_init)\<lparr>protocol := pr, host := h\<rparr>, m_state := URL_STATE_PORT,
        u_begin := length (pr @ ''://'' @ h @ '':''), u_end := length (pr @ ''://'' @ h @ '':'' @ po)\<rparr>)"
    (is "_ = url_loop m ?r")
proof -
  let ?p = "(at_host pr)\<lparr>u_end := u_end (at_host pr) + length h\<rparr>"
  let ?q = "?r\<lparr>u_end := length (pr @ ''://'' @ h @ '':'')\<rparr>"
  have "url_loop m (at_host pr) = url_loop m ?p"
    by (rule url_skip [where a = "pr @ ''://''" and c = "CHR '':''" and r = "po @ CHR ''/'' # r"])
      (use assms in \<open>auto simp: at_host_def\<close>)
  also have "\<dots> = url_loop m ?q"
    using assms(1) by (subst url_loop_step) (auto simp: url_steps at_host_def nth_append substr_def parser_init_def numeral_eq_Suc)
  also have "\<dots> = url_loop m (?q\<lparr>u_end := u_end ?q + length po\<rparr>)"
    by (rule url_skip [where a = "pr @ ''://'' @ h @ '':''" and c = "CHR ''/''" and r = r])
      (use assms in auto)
  finally show ?thesis by (simp add: add.assoc)
qed

lemma url_to_path:
  assumes "m = pr @ ''://'' @ h @ '':'' @ po @ CHR ''/'' # r" "pr \<noteq> []" "CHR '':'' \<notin> set pr"
    "set h \<inter> {CHR '':'', CHR ''/''} = {}" "CHR ''/'' \<notin> set po" "7 \<le> length m" "r \<noteq> []"
  shows "url_loop m parser_init = url_loop m (at_path pr h po)"
proof -
  have "url_loop m parser_init = url_loop m (at_host pr)"
    by (rule url_to_host [where r = "h @ '':'' @ po @ CHR ''/'' # r"]) (use assms in auto)
  also note url_to_port [OF assms(1,4,5)]
  finally show ?thesis
    using assms(1,7) by (subst (asm) (2) url_loop_step)
      (auto simp: url_steps at_path_def nth_append substr_def parser_init_def numeral_eq_Suc)
qed

text \<open>What follows the slash: a path alone, a path and a query, and all three parts.\<close>

lemma url_path_only:
  assumes "m = pr @ ''://'' @ h @ '':'' @ po @ CHR ''/'' # r" "r \<noteq> []" "CHR ''?'' \<notin> set r"
  shows "url_loop m (at_path pr h po)
    = Some ((at_path pr h po)\<lparr>url := (url (at_path pr h po))\<lparr>path := CHR ''/'' # butlast r\<rparr>, m_state := URL_STATE_END,
        u_end := length m\<rparr>)"
proof -
  obtain w c where r: "r = w @ [c]" using assms(2) by (cases r rule: rev_cases) auto
  have "url_loop m (at_path pr h po) = url_loop m ((at_path pr h po)\<lparr>u_end := u_end (at_path pr h po) + length w\<rparr>)"
    by (rule url_skip [where a = "pr @ ''://'' @ h @ '':'' @ po @ ''/''" and c = c and r = "[]"])
      (use assms in \<open>auto simp: r at_path_def\<close>)
  also have "\<dots> = Some ((at_path pr h po)\<lparr>url := (url (at_path pr h po))\<lparr>path := CHR ''/'' # butlast r\<rparr>,
        m_state := URL_STATE_END, u_end := length m\<rparr>)"
    using assms(1,3)
    by (subst url_loop_step)
      (auto simp: url_steps r at_path_def nth_append substr_def parser_init_def url_loop_done numeral_eq_Suc)
  finally show ?thesis .
qed

definition at_query :: "string \<Rightarrow> string \<Rightarrow> string \<Rightarrow> string \<Rightarrow> url_parser" where
  "at_query pr h po pa = parser_init\<lparr>
     url := (url parser_init)\<lparr>protocol := pr, host := h, port := po, path := CHR ''/'' # pa\<rparr>, m_state := URL_STATE_QUERY,
     u_begin := length (pr @ ''://'' @ h @ '':'' @ po @ ''/'' @ pa @ ''?''),
     u_end := length (pr @ ''://'' @ h @ '':'' @ po @ ''/'' @ pa @ ''?'') + 1, has_port := True\<rparr>"

lemma url_to_query:
  assumes "m = pr @ ''://'' @ h @ '':'' @ po @ ''/'' @ pa @ ''?'' @ q" "2 \<le> length q" "CHR ''?'' \<notin> set pa"
  shows "url_loop m (at_path pr h po) = url_loop m (at_query pr h po pa)"
proof -
  have "url_loop m (at_path pr h po) = url_loop m ((at_path pr h po)\<lparr>u_end := u_end (at_path pr h po) + length pa\<rparr>)"
    by (rule url_skip [where a = "pr @ ''://'' @ h @ '':'' @ po @ ''/''" and c = "CHR ''?''" and r = q])
      (use assms in \<open>auto simp: at_path_def\<close>)
  also have "\<dots> = url_loop m (at_query pr h po pa)"
    using assms(1,2)
    by (subst url_loop_step)
      (auto simp: url_steps at_path_def at_query_def nth_append substr_def parser_init_def numeral_eq_Suc add.assoc)
  finally show ?thesis .
qed

lemma url_query_only:
  assumes "m = pr @ ''://'' @ h @ '':'' @ po @ ''/'' @ pa @ ''?'' @ q" "2 \<le> length q" "CHR ''#'' \<notin> set q"
  shows "url_loop m (at_query pr h po pa)
    = Some ((at_query pr h po pa)\<lparr>url := (url (at_query pr h po pa))\<lparr>
        query := add_tokens (split_string (butlast q) CHR ''&'') (\<lambda>_. None)\<rparr>, m_state := URL_STATE_END, u_end := length m\<rparr>)"
proof -
  obtain a w c where q: "q = a # w @ [c]"
    using assms(2) by (cases q rule: rev_cases; cases "butlast q") auto
  have "url_loop m (at_query pr h po pa)
      = url_loop m ((at_query pr h po pa)\<lparr>u_end := u_end (at_query pr h po pa) + length w\<rparr>)"
    by (rule url_skip [where a = "pr @ ''://'' @ h @ '':'' @ po @ ''/'' @ pa @ ''?'' @ [a]" and c = c and r = "[]"])
      (use assms in \<open>auto simp: q at_query_def\<close>)
  also have "\<dots> = Some ((at_query pr h po pa)\<lparr>url := (url (at_query pr h po pa))\<lparr>
        query := add_tokens (split_string (butlast q) CHR ''&'') (\<lambda>_. None)\<rparr>, m_state := URL_STATE_END, u_end := length m\<rparr>)"
    using assms(1,3)
    by (subst url_loop_step)
      (auto simp: url_steps q at_query_def nth_append substr_def parser_init_def url_loop_done numeral_eq_Suc butlast_append)
  finally show ?thesis .
qed

lemma url_query_fragment:
  assumes "m = pr @ ''://'' @ h @ '':'' @ po @ ''/'' @ pa @ ''?'' @ q @ ''#'' @ f" "q \<noteq> []" "f \<noteq> []" "CHR ''#'' \<notin> set q"
  shows "\<exists>p. url_loop m (at_query pr h po pa) = Some p \<and> has_port p \<and>
    url p = (url (at_query pr h po pa))\<lparr>fragment := f\<rparr>"
proof -
  obtain a w where q: "q = a # w" using assms(2) by (cases q) auto
  obtain u c where f: "f = u @ [c]" using assms(3) by (cases f rule: rev_cases) auto
  let ?n = "length (pr @ ''://'' @ h @ '':'' @ po @ ''/'' @ pa @ ''?'' @ q @ ''#'')"
  let ?p = "(at_query pr h po pa)\<lparr>m_state := URL_STATE_FRAGMENT, u_begin := ?n, u_end := ?n\<rparr>"
  have "url_loop m (at_query pr h po pa)
      = url_loop m ((at_query pr h po pa)\<lparr>u_end := u_end (at_query pr h po pa) + length w\<rparr>)"
    by (rule url_skip [where a = "pr @ ''://'' @ h @ '':'' @ po @ ''/'' @ pa @ ''?'' @ [a]" and c = "CHR ''#''" and r = f])
      (use assms in \<open>auto simp: q at_query_def\<close>)
  also have "\<dots> = url_loop m ?p"
    using assms(1,3)
    by (subst url_loop_step) (auto simp: url_steps q at_query_def nth_append parser_init_def numeral_eq_Suc add.assoc)
  also have "\<dots> = url_loop m (?p\<lparr>u_end := u_end ?p + length u\<rparr>)"
    by (rule url_skip [where a = "pr @ ''://'' @ h @ '':'' @ po @ ''/'' @ pa @ ''?'' @ q @ ''#''" and c = c and r = "[]"])
      (use assms in \<open>auto simp: f\<close>)
  also have "\<dots> = Some (?p\<lparr>url := (url ?p)\<lparr>fragment := f\<rparr>, m_state := URL_STATE_END, u_end := length m\<rparr>)"
    using assms(1)
    by (subst url_loop_step)
      (auto simp: url_steps f at_query_def nth_append substr_def parser_init_def url_loop_done numeral_eq_Suc)
  finally show ?thesis by (simp add: at_query_def)
qed

text \<open>Pairs written out as a query are read back, the later ones over the earlier.\<close>

fun join_query :: "(string \<times> string) list \<Rightarrow> string" where
  "join_query [] = []"
| "join_query [(k, v)] = k @ ''='' @ v"
| "join_query ((k, v) # kvs) = k @ ''='' @ v @ ''&'' @ join_query kvs"

lemma split_query_single: "\<lbrakk>s \<noteq> []; c \<notin> set s\<rbrakk> \<Longrightarrow> split_string s c = [s]"
  by (subst split_string.simps) simp

lemma takeWhile_upto: "c \<notin> set s \<Longrightarrow> takeWhile (\<lambda>x. x \<noteq> c) (s @ c # r) = s"
  by (induction s) auto

lemma dropWhile_upto: "c \<notin> set s \<Longrightarrow> dropWhile (\<lambda>x. x \<noteq> c) (s @ c # r) = c # r"
  by (induction s) auto

lemma split_query_step: "c \<notin> set s \<Longrightarrow> split_string (s @ c # r) c = s # split_string r c"
  by (subst split_string.simps) (simp add: takeWhile_upto dropWhile_upto)

lemma add_query_token: "CHR ''='' \<notin> set k \<Longrightarrow> add_tokens ((k @ CHR ''='' # v) # ts) q = add_tokens ts (q(k \<mapsto> v))"
  by (simp add: takeWhile_upto dropWhile_upto)

lemma query_read_back:
  "\<forall>(k, v) \<in> set kvs. set k \<inter> {CHR ''&'', CHR ''=''} = {} \<and> CHR ''&'' \<notin> set v
   \<Longrightarrow> add_tokens (split_string (join_query kvs) CHR ''&'') q = q ++ map_of (rev kvs)"
proof (induction kvs arbitrary: q rule: join_query.induct)
  case 1
  then show ?case by (subst split_string.simps) simp
next
  case (2 k v)
  then show ?case by (simp add: split_query_single add_query_token del: add_tokens.simps(2)) (simp add: fun_eq_iff map_add_def)
next
  case (3 k v kv kvs)
  have "split_string (join_query ((k, v) # kv # kvs)) CHR ''&'' = (k @ CHR ''='' # v) # split_string (join_query (kv # kvs)) CHR ''&''"
    using 3 split_query_step [of "CHR ''&''" "k @ CHR ''='' # v" "join_query (kv # kvs)"] by auto
  moreover have "add_tokens ((k @ CHR ''='' # v) # split_string (join_query (kv # kvs)) CHR ''&'') q
      = add_tokens (split_string (join_query (kv # kvs)) CHR ''&'') (q(k \<mapsto> v))"
    by (rule add_query_token) (use 3 in auto)
  moreover have "(q(k \<mapsto> v)) ++ map_of (rev (kv # kvs)) = q ++ map_of (rev ((k, v) # kv # kvs))"
    by (auto simp: fun_eq_iff map_add_def split: option.split)
  ultimately show ?case using 3 by simp
qed

text \<open>
  The trailing slash of a URL that ends with it is taken both as the end of the port and as the
  end of the URL.
\<close>

lemma url_slash_only:
  assumes "m = pr @ ''://'' @ h @ '':'' @ po @ ''/''" "pr \<noteq> []" "CHR '':'' \<notin> set pr"
    "set h \<inter> {CHR '':'', CHR ''/''} = {}" "CHR ''/'' \<notin> set po" "7 \<le> length m"
  shows "\<exists>p. url_loop m parser_init = Some p \<and> has_port p \<and>
    url p = (url parser_init)\<lparr>protocol := pr, host := h, port := ''/''\<rparr>"
proof -
  have "url_loop m parser_init = url_loop m (at_host pr)"
    by (rule url_to_host [where r = "h @ '':'' @ po @ ''/''"]) (use assms in auto)
  also have "\<dots> = url_loop m (parser_init\<lparr>url := (url parser_init)\<lparr>protocol := pr, host := h\<rparr>, m_state := URL_STATE_PORT,
        u_begin := length (pr @ ''://'' @ h @ '':''), u_end := length (pr @ ''://'' @ h @ '':'' @ po)\<rparr>)"
    by (rule url_to_port) (use assms in auto)
  finally show ?thesis
    using assms(1) by (subst (asm) (2) url_loop_step)
      (auto simp: url_steps at_path_def nth_append substr_def parser_init_def url_loop_done numeral_eq_Suc)
qed

lemma Parse_at_port:
  "\<lbrakk>m \<noteq> []; url_loop m parser_init = Some p; has_port p\<rbrakk> \<Longrightarrow> Parse m = Some (url p)"
  by (simp add: Parse_def)

lemma join_query_set:
  "\<lbrakk>\<forall>(k, v) \<in> set kvs. set k \<inter> {CHR ''&'', CHR ''='', CHR ''#''} = {} \<and> set v \<inter> {CHR ''&'', CHR ''#''} = {}; kvs \<noteq> []\<rbrakk>
   \<Longrightarrow> join_query kvs \<noteq> [] \<and> CHR ''#'' \<notin> set (join_query kvs)"
  by (induction kvs rule: join_query.induct) auto

text \<open>The URLs of the property: the part up to the path, and the rest of the string.\<close>

definition url_upto_path :: "string \<Rightarrow> string \<Rightarrow> string \<Rightarrow> string" where
  "url_upto_path pr h po = pr @ ''://'' @ h @ '':'' @ po @ ''/''"

definition clean_parts :: "string \<Rightarrow> string \<Rightarrow> string \<Rightarrow> bool" where
  "clean_parts pr h po \<longleftrightarrow>
     pr \<noteq> [] \<and> CHR '':'' \<notin> set pr \<and> set h \<inter> {CHR '':'', CHR ''/''} = {} \<and> CHR ''/'' \<notin> set po"

lemma Parse_path:
  assumes "clean_parts pr h po" "pa \<noteq> []" "CHR ''?'' \<notin> set pa"
  shows "Parse (url_upto_path pr h po @ pa)
      = Some \<lparr>protocol = pr, host = h, port = po, path = CHR ''/'' # butlast pa, query = (\<lambda>_. None), fragment = []\<rparr>"
proof -
  define m where "m = pr @ ''://'' @ h @ '':'' @ po @ CHR ''/'' # pa"
  have len: "7 \<le> length m" using assms by (cases pr; cases pa) (auto simp: m_def clean_parts_def)
  show ?thesis
    using Parse_at_port [OF _ trans [OF url_to_path [OF m_def _ _ _ _ len] url_path_only [OF m_def]]] assms
    by (simp add: url_upto_path_def clean_parts_def m_def) (simp add: at_path_def parser_init_def)
qed

lemma Parse_query:
  assumes "clean_parts pr h po" "CHR ''?'' \<notin> set pa" "q \<noteq> []" "CHR ''#'' \<notin> set q" "c \<noteq> CHR ''#''"
  shows "Parse (url_upto_path pr h po @ pa @ ''?'' @ q @ [c])
      = Some \<lparr>protocol = pr, host = h, port = po, path = CHR ''/'' # pa,
          query = add_tokens (split_string q CHR ''&'') (\<lambda>_. None), fragment = []\<rparr>"
proof -
  define m where "m = pr @ ''://'' @ h @ '':'' @ po @ ''/'' @ pa @ ''?'' @ q @ [c]"
  have len: "7 \<le> length m" "2 \<le> length (q @ [c])" using assms by (cases pr; cases q; auto simp: m_def clean_parts_def)+
  have "url_loop m parser_init = url_loop m (at_path pr h po)"
    by (rule url_to_path [where r = "pa @ ''?'' @ q @ [c]"]) (use assms len in \<open>auto simp: m_def clean_parts_def\<close>)
  also note url_to_query [OF m_def len(2) assms(2)]
  also have "url_loop m (at_query pr h po pa)
    = Some ((at_query pr h po pa)\<lparr>url := (url (at_query pr h po pa))\<lparr>
        query := add_tokens (split_string (butlast (q @ [c])) CHR ''&'') (\<lambda>_. None)\<rparr>, m_state := URL_STATE_END, u_end := length m\<rparr>)"
    by (rule url_query_only [OF m_def len(2)]) (use assms in auto)
  finally show ?thesis
    by (subst Parse_at_port) (auto simp: url_upto_path_def m_def at_query_def parser_init_def)
qed

lemma Parse_fragment:
  assumes "clean_parts pr h po" "CHR ''?'' \<notin> set pa" "q \<noteq> []" "CHR ''#'' \<notin> set q" "f \<noteq> []"
  shows "Parse (url_upto_path pr h po @ pa @ ''?'' @ q @ ''#'' @ f)
      = Some \<lparr>protocol = pr, host = h, port = po, path = CHR ''/'' # pa, query = (\<lambda>_. None), fragment = f\<rparr>"
proof -
  define m where "m = pr @ ''://'' @ h @ '':'' @ po @ ''/'' @ pa @ ''?'' @ q @ ''#'' @ f"
  have len: "7 \<le> length m" "2 \<le> length (q @ ''#'' @ f)" using assms by (cases pr; cases q; auto simp: m_def clean_parts_def)+
  have "url_loop m parser_init = url_loop m (at_path pr h po)"
    by (rule url_to_path [where r = "pa @ ''?'' @ q @ ''#'' @ f"]) (use assms len in \<open>auto simp: m_def clean_parts_def\<close>)
  also note url_to_query [OF m_def len(2) assms(2)]
  finally show ?thesis
    using url_query_fragment [OF m_def assms(3,5,4)] Parse_at_port [of m]
    by (auto simp: url_upto_path_def m_def at_query_def parser_init_def)
qed

lemma Parse_slash:
  assumes "clean_parts pr h po" "2 \<le> length (pr @ h @ po)"
  shows "Parse (url_upto_path pr h po)
      = Some \<lparr>protocol = pr, host = h, port = ''/'', path = [], query = (\<lambda>_. None), fragment = []\<rparr>"
proof -
  obtain p where "url_loop (url_upto_path pr h po) parser_init = Some p" "has_port p"
      "url p = (url parser_init)\<lparr>protocol := pr, host := h, port := ''/''\<rparr>"
    using assms by (auto simp: url_upto_path_def clean_parts_def
      dest!: url_slash_only [of "pr @ ''://'' @ h @ '':'' @ po @ ''/''" pr h po, rotated 1])
  then show ?thesis by (subst Parse_at_port) (auto simp: url_upto_path_def parser_init_def)
qed

text \<open>C38. Parsing of an absolute URL with a port. The protocol, the host and the port are the parts
  of the string. Behind them a path comes out without its last character; a path followed by
  a query comes out whole, and the query, less the last character of the string, as the map of
  its pairs, a later pair taking the place of an earlier one with its key; with a fragment
  behind the query, the fragment comes out whole and the query is lost; and a URL that ends
  with the slash behind the port has this slash as its port.
\<close>

theorem url_parts:
  assumes "clean_parts pr h po" "CHR ''?'' \<notin> set pa" "kvs \<noteq> []"
    and "\<forall>(k, v) \<in> set kvs. set k \<inter> {CHR ''&'', CHR ''='', CHR ''#''} = {} \<and> set v \<inter> {CHR ''&'', CHR ''#''} = {}"
    and "c \<noteq> CHR ''#''" "f \<noteq> []"
  shows "(pa \<noteq> [] \<longrightarrow> Parse (url_upto_path pr h po @ pa)
        = Some \<lparr>protocol = pr, host = h, port = po, path = CHR ''/'' # butlast pa, query = (\<lambda>_. None), fragment = []\<rparr>) \<and>
    Parse (url_upto_path pr h po @ pa @ ''?'' @ join_query kvs @ [c])
      = Some \<lparr>protocol = pr, host = h, port = po, path = CHR ''/'' # pa, query = map_of (rev kvs), fragment = []\<rparr> \<and>
    Parse (url_upto_path pr h po @ pa @ ''?'' @ join_query kvs @ ''#'' @ f)
      = Some \<lparr>protocol = pr, host = h, port = po, path = CHR ''/'' # pa, query = (\<lambda>_. None), fragment = f\<rparr> \<and>
    (2 \<le> length (pr @ h @ po) \<longrightarrow> Parse (url_upto_path pr h po)
      = Some \<lparr>protocol = pr, host = h, port = ''/'', path = [], query = (\<lambda>_. None), fragment = []\<rparr>)"
proof -
  have q: "join_query kvs \<noteq> []" "CHR ''#'' \<notin> set (join_query kvs)" using join_query_set [OF assms(4,3)] by auto
  have "\<forall>(k, v) \<in> set kvs. set k \<inter> {CHR ''&'', CHR ''=''} = {} \<and> CHR ''&'' \<notin> set v" using assms(4) by fastforce
  then have "add_tokens (split_string (join_query kvs) CHR ''&'') (\<lambda>_. None) = map_of (rev kvs)"
    using query_read_back by fastforce
  then show ?thesis
    using Parse_path [OF assms(1) _ assms(2)] Parse_query [OF assms(1,2) q assms(5)] Parse_fragment [OF assms(1,2) q assms(6)]
      Parse_slash [OF assms(1)] by simp
qed

theorem url_parts_witness:
  "Parse ''http://www.hlllz.cn:8080/v1?name=xxx&age=18'' =
     Some \<lparr>protocol = ''http'', host = ''www.hlllz.cn'', port = ''8080'', path = ''/v1'',
       query = map_of (rev [(''name'', ''xxx''), (''age'', ''1'')]), fragment = []\<rparr>"
  using url_parts [of "''http''" "''www.hlllz.cn''" "''8080''" "''v1''" "[(''name'', ''xxx''), (''age'', ''1'')]" "CHR ''8''" "''x''"]
  by (simp add: clean_parts_def url_upto_path_def)

end
