(* ===== verification/Http_Message.thy ===== *)
theory Http_Message
  imports Prelude "HOL-Library.List_Lexorder"
begin

text \<open>
  Requests, responses and their headers as octets on the wire: \<^verbatim>\<open>http_headers.cpp\<close>,
  \<^verbatim>\<open>http_request.cpp\<close> and \<^verbatim>\<open>http_response.cpp\<close> of \<^verbatim>\<open>easy_net/protocol/http\<close>. A
  \<^verbatim>\<open>std::map\<close> is the list of its pairs in ascending order of the keys, as its iterator
  visits them; strings compare by unsigned octets.
\<close>

section \<open>The code\<close>

type_synonym header_map = "(octets \<times> octets) list"

text \<open>\<^verbatim>\<open>m[key] = val\<close>\<close>

fun map_assign :: "octets \<Rightarrow> 'v \<Rightarrow> (octets \<times> 'v) list \<Rightarrow> (octets \<times> 'v) list" where
  "map_assign k v [] = [(k, v)]"
| "map_assign k v ((k', v') # m) =
     (if k = k' then (k, v) # m else if k < k' then (k, v) # (k', v') # m else (k', v') # map_assign k v m)"

definition SetHeader :: "octets \<Rightarrow> octets \<Rightarrow> header_map \<Rightarrow> header_map" where
  "SetHeader key val hs = map_assign key val hs"

definition SetHeaders :: "header_map \<Rightarrow> header_map \<Rightarrow> header_map" where
  "SetHeaders headers hs = fold (\<lambda>(k, v). SetHeader k v) headers hs"

definition Headers_SerializeToString :: "header_map \<Rightarrow> octets" where
  "Headers_SerializeToString hs = concat (map (\<lambda>(k, v). k @ str '': '' @ v @ CRLF) hs)"

record HttpMessage =
  m_version :: octets
  m_headers :: header_map
  m_body :: octets

record HttpRequest = HttpMessage +
  m_method :: octets
  m_url :: octets

record HttpResponse = HttpMessage +
  m_status_code :: octets
  m_status_code_msg :: octets

definition HttpRequest_init :: HttpRequest where
  "HttpRequest_init = \<lparr>m_version = str ''HTTP/1.1'', m_headers = [], m_body = [], m_method = [], m_url = []\<rparr>"

definition HttpResponse_init :: HttpResponse where
  "HttpResponse_init =
     \<lparr>m_version = str ''HTTP/1.1'', m_headers = [], m_body = [], m_status_code = [], m_status_code_msg = []\<rparr>"

definition SetBody :: "octets \<Rightarrow> 'a HttpMessage_scheme \<Rightarrow> 'a HttpMessage_scheme" where
  "SetBody body r = r\<lparr>m_body := body\<rparr>"

definition SetStatusCode :: "octets \<Rightarrow> HttpResponse \<Rightarrow> HttpResponse" where
  "SetStatusCode code r = r\<lparr>m_status_code := code\<rparr>"

definition SetStatusCodeMsg :: "octets \<Rightarrow> HttpResponse \<Rightarrow> HttpResponse" where
  "SetStatusCodeMsg msg r = r\<lparr>m_status_code_msg := msg\<rparr>"

text \<open>\<^verbatim>\<open>std::to_string\<close> of an unsigned number.\<close>

fun to_string :: "nat \<Rightarrow> octets" where
  "to_string n = (if n < 10 then [48 + of_nat n] else to_string (n div 10) @ [48 + of_nat (n mod 10)])"

declare to_string.simps [simp del]

definition Request_SerializeToString :: "HttpRequest \<Rightarrow> octets" where
  "Request_SerializeToString r =
     m_method r @ str '' '' @ m_url r @ str '' '' @ m_version r @ CRLF @
     Headers_SerializeToString (m_headers r) @ CRLF @ m_body r"

text \<open>The response stores the three headers it sets before it writes them.\<close>

definition Response_SerializeToString :: "HttpResponse \<Rightarrow> octets \<times> HttpResponse" where
  "Response_SerializeToString r =
     (let h1 = SetHeader (str ''Content-Length'') (to_string (length (m_body r))) (m_headers r);
          h2 = SetHeader (str ''Connection'') (str ''keep-alive'') h1;
          h3 = SetHeader (str ''Content-Type'') (str ''text/html'') h2;
          r1 = r\<lparr>m_headers := h3\<rparr>
      in (m_version r1 @ str '' '' @ m_status_code r1 @ str '' '' @ m_status_code_msg r1 @ CRLF @
          Headers_SerializeToString (m_headers r1) @ CRLF @ m_body r1, r1))"

section \<open>Maps\<close>

abbreviation map_ok :: "(octets \<times> 'v) list \<Rightarrow> bool" where
  "map_ok m \<equiv> sorted_wrt (<) (map fst m)"

lemma set_map_assign: "set (map fst (map_assign k v m)) = insert k (set (map fst m))"
  by (induction k v m rule: map_assign.induct) auto

lemma map_ok_assign: "map_ok m \<Longrightarrow> map_ok (map_assign k v m)"
proof (induction k v m rule: map_assign.induct)
  case (2 k v k' v' m)
  then show ?case using set_map_assign [of k v m] by auto
qed simp

lemma map_of_assign: "map_ok m \<Longrightarrow> map_of (map_assign k v m) = (map_of m)(k \<mapsto> v)"
proof (induction k v m rule: map_assign.induct)
  case (2 k v k' v' m)
  then show ?case by (auto simp: fun_eq_iff)
qed (simp add: fun_eq_iff)

lemma map_assign_subset: "set (map_assign k v m) \<subseteq> insert (k, v) (set m)"
  by (induction k v m rule: map_assign.induct) auto

section \<open>Reading a message back\<close>

fun read_line :: "octets \<Rightarrow> (octets \<times> octets) option" where
  "read_line [] = None"
| "read_line (x # xs) =
     (if x = 13 \<and> xs \<noteq> [] \<and> hd xs = 10 then Some ([], tl xs)
      else map_option (\<lambda>(l, r). (x # l, r)) (read_line xs))"

lemma read_line_shorter: "read_line xs = Some (l, r) \<Longrightarrow> length r < length xs"
  by (induction xs arbitrary: l) (auto split: if_splits)

definition read_header :: "octets \<Rightarrow> octets \<times> octets" where
  "read_header l = (takeWhile (\<lambda>x. x \<noteq> 58) l, drop 2 (dropWhile (\<lambda>x. x \<noteq> 58) l))"

function read_headers :: "octets \<Rightarrow> (header_map \<times> octets) option" where
  "read_headers xs =
     (case read_line xs of
        None \<Rightarrow> None
      | Some (l, r) \<Rightarrow>
          if l = [] then Some ([], r)
          else map_option (\<lambda>(hs, b). (read_header l # hs, b)) (read_headers r))"
  by pat_completeness auto
termination
  by (relation "measure length") (auto dest: read_line_shorter)

declare read_headers.simps [simp del]

definition read_message :: "octets \<Rightarrow> (octets \<times> header_map \<times> octets) option" where
  "read_message xs = Option.bind (read_line xs) (\<lambda>(l, r). map_option (\<lambda>(hs, b). (l, hs, b)) (read_headers r))"

definition read_decimal :: "octets \<Rightarrow> nat" where
  "read_decimal xs = foldl (\<lambda>n x. 10 * n + (unat x - 48)) 0 xs"

text \<open>Without a carriage return a line is read up to its end.\<close>

lemma read_line_append: "13 \<notin> set l \<Longrightarrow> read_line (l @ CRLF @ r) = Some (l, r)"
  by (induction l) (auto simp: CRLF_def)

definition clean_headers :: "header_map \<Rightarrow> bool" where
  "clean_headers hs \<longleftrightarrow> (\<forall>(k, v) \<in> set hs. 13 \<notin> set k \<and> 58 \<notin> set k \<and> 13 \<notin> set v)"

lemma read_header_line: "58 \<notin> set k \<Longrightarrow> read_header (k @ str '': '' @ v) = (k, v)"
proof -
  assume "58 \<notin> set k"
  then have "takeWhile (\<lambda>x. x \<noteq> 58) (k @ 58 # 32 # v) = k" "dropWhile (\<lambda>x. x \<noteq> 58) (k @ 58 # 32 # v) = 58 # 32 # v"
    by (induction k) auto
  then show ?thesis by (simp add: read_header_def str_def)
qed

lemma read_headers_serialized:
  "clean_headers hs \<Longrightarrow> read_headers (Headers_SerializeToString hs @ CRLF @ b) = Some (hs, b)"
proof (induction hs)
  case Nil
  then show ?case using read_line_append [of "[]" b] by (subst read_headers.simps) (simp add: Headers_SerializeToString_def)
next
  case (Cons kv hs)
  obtain k v where kv: "kv = (k, v)" by fastforce
  let ?r = "Headers_SerializeToString hs @ CRLF @ b"
  have "read_line ((k @ str '': '' @ v) @ CRLF @ ?r) = Some (k @ str '': '' @ v, ?r)"
    by (rule read_line_append) (use Cons.prems in \<open>auto simp: clean_headers_def kv str_def\<close>)
  moreover have "Headers_SerializeToString (kv # hs) @ CRLF @ b = (k @ str '': '' @ v) @ CRLF @ ?r"
    by (simp add: Headers_SerializeToString_def kv)
  moreover have "read_header (k @ str '': '' @ v) = (k, v)"
    by (rule read_header_line) (use Cons.prems in \<open>auto simp: clean_headers_def kv\<close>)
  moreover have "k @ str '': '' @ v \<noteq> []" by (simp add: str_def)
  moreover have "read_headers ?r = Some (hs, b)" using Cons by (auto simp: clean_headers_def)
  ultimately show ?case by (subst read_headers.simps) (simp add: kv)
qed

lemma read_message_serialized:
  "\<lbrakk>clean_headers hs; 13 \<notin> set l\<rbrakk>
   \<Longrightarrow> read_message (l @ CRLF @ Headers_SerializeToString hs @ CRLF @ b) = Some (l, hs, b)"
  by (simp add: read_message_def read_line_append read_headers_serialized)

text \<open>Decimal numbers.\<close>

lemma digit_octet: "d < 10 \<Longrightarrow> unat (48 + of_nat d :: u8) = 48 + d"
  by (simp add: unat_word_ariths unsigned_of_nat take_bit_nat_eq_self)

lemma read_decimal_to_string: "read_decimal (to_string n) = n"
proof (induction n rule: to_string.induct)
  case (1 n)
  show ?case
  proof (cases "n < 10")
    case True
    then show ?thesis by (subst to_string.simps) (simp add: digit_octet read_decimal_def)
  next
    case False
    then show ?thesis using 1 by (subst to_string.simps) (simp add: digit_octet read_decimal_def)
  qed
qed

lemma to_string_digits: "x \<in> set (to_string n) \<Longrightarrow> 48 \<le> x \<and> x \<le> 57"
proof (induction n rule: to_string.induct)
  case (1 n)
  have "48 \<le> (48 + of_nat d :: u8) \<and> (48 + of_nat d :: u8) \<le> 57" if "d < 10" for d
    using that by (simp add: word_le_nat_alt digit_octet)
  then show ?case using 1 by (subst (asm) (2) to_string.simps) (auto split: if_splits)
qed

lemma to_string_clean: "13 \<notin> set (to_string n)"
  using to_string_digits [of 13 n] by auto

lemma clean_headers_assign:
  "\<lbrakk>clean_headers hs; 13 \<notin> set k; 58 \<notin> set k; 13 \<notin> set v\<rbrakk> \<Longrightarrow> clean_headers (map_assign k v hs)"
  using map_assign_subset [of k v hs] by (fastforce simp: clean_headers_def)

text \<open>Messages on the wire can be read back. A reader that takes the first line, the header
  lines up to the empty line and the rest as the body recovers from a serialised request its
  request line, all its headers in the order of their names, and its body; and from
  a serialised response its status line, its body, and the headers it was given with
  \<^verbatim>\<open>Content-Length\<close>, \<^verbatim>\<open>Connection\<close> and \<^verbatim>\<open>Content-Type\<close> set over them, each name once, the first
  being the length of the body in decimal. The names and values must hold no carriage
  return, the names no colon.
\<close>

theorem message_roundtrip:
  assumes "clean_headers (m_headers q)" "13 \<notin> set (m_method q @ m_url q @ m_version q)"
    and "clean_headers (m_headers r)" "13 \<notin> set (m_version r @ m_status_code r @ m_status_code_msg r)" "map_ok (m_headers r)"
  shows "read_message (Request_SerializeToString q)
      = Some (m_method q @ str '' '' @ m_url q @ str '' '' @ m_version q, m_headers q, m_body q) \<and>
    (\<exists>hs. read_message (fst (Response_SerializeToString r))
        = Some (m_version r @ str '' '' @ m_status_code r @ str '' '' @ m_status_code_msg r, hs, m_body r) \<and>
      map_ok hs \<and>
      map_of hs = (map_of (m_headers r))(str ''Content-Length'' \<mapsto> to_string (length (m_body r)),
        str ''Connection'' \<mapsto> str ''keep-alive'', str ''Content-Type'' \<mapsto> str ''text/html'') \<and>
      read_decimal (to_string (length (m_body r))) = length (m_body r))"
proof
  have "13 \<notin> set (str '' '')" by (simp add: str_def)
  then show "read_message (Request_SerializeToString q)
      = Some (m_method q @ str '' '' @ m_url q @ str '' '' @ m_version q, m_headers q, m_body q)"
    using read_message_serialized [of "m_headers q" "m_method q @ str '' '' @ m_url q @ str '' '' @ m_version q"] assms(1,2)
    by (simp add: Request_SerializeToString_def)
  let ?h1 = "SetHeader (str ''Content-Length'') (to_string (length (m_body r))) (m_headers r)"
  let ?h2 = "SetHeader (str ''Connection'') (str ''keep-alive'') ?h1"
  let ?h3 = "SetHeader (str ''Content-Type'') (str ''text/html'') ?h2"
  have ok: "map_ok ?h1" "map_ok ?h2" "map_ok ?h3" using assms(5) by (simp_all add: SetHeader_def map_ok_assign)
  have "clean_headers ?h3"
    unfolding SetHeader_def
    by (intro clean_headers_assign assms(3) to_string_clean) (simp_all add: str_def)
  then have "read_message (fst (Response_SerializeToString r))
      = Some (m_version r @ str '' '' @ m_status_code r @ str '' '' @ m_status_code_msg r, ?h3, m_body r)"
    using read_message_serialized [of ?h3 "m_version r @ str '' '' @ m_status_code r @ str '' '' @ m_status_code_msg r"]
      assms(4) \<open>13 \<notin> set (str '' '')\<close>
    by (simp add: Response_SerializeToString_def Let_def)
  moreover have "map_of ?h3 = (map_of (m_headers r))(str ''Content-Length'' \<mapsto> to_string (length (m_body r)),
        str ''Connection'' \<mapsto> str ''keep-alive'', str ''Content-Type'' \<mapsto> str ''text/html'')"
    using ok assms(5) by (simp add: SetHeader_def map_of_assign map_ok_assign)
  ultimately show "\<exists>hs. read_message (fst (Response_SerializeToString r))
        = Some (m_version r @ str '' '' @ m_status_code r @ str '' '' @ m_status_code_msg r, hs, m_body r) \<and>
      map_ok hs \<and>
      map_of hs = (map_of (m_headers r))(str ''Content-Length'' \<mapsto> to_string (length (m_body r)),
        str ''Connection'' \<mapsto> str ''keep-alive'', str ''Content-Type'' \<mapsto> str ''text/html'') \<and>
      read_decimal (to_string (length (m_body r))) = length (m_body r)"
    using ok(3) read_decimal_to_string by blast
qed

theorem message_roundtrip_witness:
  "\<exists>hs. read_message (fst (Response_SerializeToString
        (SetBody (str ''hello'') (SetStatusCodeMsg (str ''OK'') (SetStatusCode (str ''200'') HttpResponse_init)))))
     = Some (str ''HTTP/1.1 200 OK'', hs, str ''hello'') \<and> map_of hs (str ''Content-Length'') = Some (str ''5'')"
proof -
  let ?r = "SetBody (str ''hello'') (SetStatusCodeMsg (str ''OK'') (SetStatusCode (str ''200'') HttpResponse_init))"
  have "to_string (Suc (Suc (Suc (Suc (Suc 0))))) = str ''5''" by (subst to_string.simps) (simp add: str_def)
  then show ?thesis
    using message_roundtrip [of HttpRequest_init ?r]
    by (auto simp: HttpResponse_init_def HttpRequest_init_def SetBody_def SetStatusCode_def SetStatusCodeMsg_def
        clean_headers_def str_def)
qed

end
