(* ===== verification/Http_Parser.thy ===== *)
theory Http_Parser
  imports Prelude
begin

text \<open>
  The parser of HTTP messages, \<^verbatim>\<open>easy_net/protocol/http/http_parser.c\<close> and its header, in the
  strict mode in which it is built. The structure \<^verbatim>\<open>http_parser\<close> is a record; \<^verbatim>\<open>void *data\<close> is
  the object it points to. A callback is a function on that structure which also gives the
  number it returns; the macros paste the name of a callback into that of the mark, of
  the setting and of the error, which here are indexed by it. Characters are octets, and
  positions \<^verbatim>\<open>p - data\<close> are natural numbers.

  One case of the switch in \<^verbatim>\<open>http_parser_execute\<close> is one definition \<open>st_...\<close>, from the locals of
  the function to what leaves the switch: \<^verbatim>\<open>break\<close>, \<^verbatim>\<open>goto reexecute\<close>, \<^verbatim>\<open>goto error\<close>, a return,
  a failed assertion or a read outside an array. The latter two, and a parser that
  reexecutes without end, are values of the model so that their absence can be proved.
\<close>

section \<open>Data\<close>

abbreviation oct :: "char \<Rightarrow> u8" where "oct c \<equiv> of_char c"

abbreviation (input) CR :: u8 where "CR \<equiv> 13"

abbreviation (input) LF :: u8 where "LF \<equiv> 10"

datatype http_parser_type = HTTP_REQUEST | HTTP_RESPONSE | HTTP_BOTH

datatype (plugins only: code) http_method =
  HTTP_DELETE | HTTP_GET | HTTP_HEAD | HTTP_POST | HTTP_PUT | HTTP_CONNECT | HTTP_OPTIONS | HTTP_TRACE |
  HTTP_COPY | HTTP_LOCK | HTTP_MKCOL | HTTP_MOVE | HTTP_PROPFIND | HTTP_PROPPATCH | HTTP_SEARCH | HTTP_UNLOCK |
  HTTP_BIND | HTTP_REBIND | HTTP_UNBIND | HTTP_ACL | HTTP_REPORT | HTTP_MKACTIVITY | HTTP_CHECKOUT | HTTP_MERGE |
  HTTP_MSEARCH | HTTP_NOTIFY | HTTP_SUBSCRIBE | HTTP_UNSUBSCRIBE | HTTP_PATCH | HTTP_PURGE | HTTP_MKCALENDAR |
  HTTP_LINK | HTTP_UNLINK | HTTP_SOURCE

fun http_method_str :: "http_method \<Rightarrow> octets" where
  "http_method_str HTTP_DELETE = str ''DELETE''"
| "http_method_str HTTP_GET = str ''GET''"
| "http_method_str HTTP_HEAD = str ''HEAD''"
| "http_method_str HTTP_POST = str ''POST''"
| "http_method_str HTTP_PUT = str ''PUT''"
| "http_method_str HTTP_CONNECT = str ''CONNECT''"
| "http_method_str HTTP_OPTIONS = str ''OPTIONS''"
| "http_method_str HTTP_TRACE = str ''TRACE''"
| "http_method_str HTTP_COPY = str ''COPY''"
| "http_method_str HTTP_LOCK = str ''LOCK''"
| "http_method_str HTTP_MKCOL = str ''MKCOL''"
| "http_method_str HTTP_MOVE = str ''MOVE''"
| "http_method_str HTTP_PROPFIND = str ''PROPFIND''"
| "http_method_str HTTP_PROPPATCH = str ''PROPPATCH''"
| "http_method_str HTTP_SEARCH = str ''SEARCH''"
| "http_method_str HTTP_UNLOCK = str ''UNLOCK''"
| "http_method_str HTTP_BIND = str ''BIND''"
| "http_method_str HTTP_REBIND = str ''REBIND''"
| "http_method_str HTTP_UNBIND = str ''UNBIND''"
| "http_method_str HTTP_ACL = str ''ACL''"
| "http_method_str HTTP_REPORT = str ''REPORT''"
| "http_method_str HTTP_MKACTIVITY = str ''MKACTIVITY''"
| "http_method_str HTTP_CHECKOUT = str ''CHECKOUT''"
| "http_method_str HTTP_MERGE = str ''MERGE''"
| "http_method_str HTTP_MSEARCH = str ''M-SEARCH''"
| "http_method_str HTTP_NOTIFY = str ''NOTIFY''"
| "http_method_str HTTP_SUBSCRIBE = str ''SUBSCRIBE''"
| "http_method_str HTTP_UNSUBSCRIBE = str ''UNSUBSCRIBE''"
| "http_method_str HTTP_PATCH = str ''PATCH''"
| "http_method_str HTTP_PURGE = str ''PURGE''"
| "http_method_str HTTP_MKCALENDAR = str ''MKCALENDAR''"
| "http_method_str HTTP_LINK = str ''LINK''"
| "http_method_str HTTP_UNLINK = str ''UNLINK''"
| "http_method_str HTTP_SOURCE = str ''SOURCE''"

datatype flag =
  F_CHUNKED | F_CONNECTION_KEEP_ALIVE | F_CONNECTION_CLOSE | F_CONNECTION_UPGRADE | F_TRAILING | F_UPGRADE |
  F_SKIPBODY | F_CONTENTLENGTH

text \<open>The callbacks: those that only notify, and those that get a piece of the input.\<close>

datatype notify_cb = message_begin | headers_complete | message_complete | chunk_header | chunk_complete

datatype data_cb = url | status | header_field | header_value | body

datatype http_errno =
  HPE_OK | HPE_CB_notify notify_cb | HPE_CB_data data_cb |
  HPE_INVALID_EOF_STATE | HPE_HEADER_OVERFLOW | HPE_CLOSED_CONNECTION | HPE_INVALID_VERSION | HPE_INVALID_STATUS |
  HPE_INVALID_METHOD | HPE_INVALID_URL | HPE_INVALID_HOST | HPE_INVALID_PORT | HPE_INVALID_PATH |
  HPE_INVALID_QUERY_STRING | HPE_INVALID_FRAGMENT | HPE_LF_EXPECTED | HPE_INVALID_HEADER_TOKEN |
  HPE_INVALID_CONTENT_LENGTH | HPE_UNEXPECTED_CONTENT_LENGTH | HPE_INVALID_CHUNK_SIZE | HPE_INVALID_CONSTANT |
  HPE_INVALID_INTERNAL_STATE | HPE_STRICT | HPE_PAUSED | HPE_UNKNOWN | HPE_INVALID_TRANSFER_ENCODING

datatype (plugins only: code) state =
  s_dead | s_start_req_or_res | s_res_or_resp_H | s_start_res | s_res_H | s_res_HT | s_res_HTT | s_res_HTTP |
  s_res_http_major | s_res_http_dot | s_res_http_minor | s_res_http_end | s_res_first_status_code | s_res_status_code |
  s_res_status_start | s_res_status | s_res_line_almost_done | s_start_req | s_req_method | s_req_spaces_before_url |
  s_req_schema | s_req_schema_slash | s_req_schema_slash_slash | s_req_server_start | s_req_server |
  s_req_server_with_at | s_req_path | s_req_query_string_start | s_req_query_string | s_req_fragment_start |
  s_req_fragment | s_req_http_start | s_req_http_H | s_req_http_HT | s_req_http_HTT | s_req_http_HTTP | s_req_http_I |
  s_req_http_IC | s_req_http_major | s_req_http_dot | s_req_http_minor | s_req_http_end | s_req_line_almost_done |
  s_header_field_start | s_header_field | s_header_value_discard_ws | s_header_value_discard_ws_almost_done |
  s_header_value_discard_lws | s_header_value_start | s_header_value | s_header_value_lws | s_header_almost_done |
  s_chunk_size_start | s_chunk_size | s_chunk_parameters | s_chunk_size_almost_done | s_headers_almost_done |
  s_headers_done | s_chunk_data | s_chunk_data_almost_done | s_chunk_data_done | s_body_identity | s_body_identity_eof |
  s_message_done

definition PARSING_HEADER :: "state \<Rightarrow> bool" where
  "PARSING_HEADER s \<longleftrightarrow>
     s \<notin> {s_chunk_data, s_chunk_data_almost_done, s_chunk_data_done, s_body_identity, s_body_identity_eof, s_message_done}"

datatype (plugins only: code) header_states =
  h_general | h_C | h_CO | h_CON | h_matching_connection | h_matching_proxy_connection | h_matching_content_length |
  h_matching_transfer_encoding | h_matching_upgrade | h_connection | h_content_length | h_content_length_num |
  h_content_length_ws | h_transfer_encoding | h_upgrade | h_matching_transfer_encoding_token_start |
  h_matching_transfer_encoding_chunked | h_matching_transfer_encoding_token | h_matching_connection_token_start |
  h_matching_connection_keep_alive | h_matching_connection_close | h_matching_connection_upgrade |
  h_matching_connection_token | h_transfer_encoding_chunked | h_connection_keep_alive | h_connection_close |
  h_connection_upgrade

text \<open>The bit fields of one bit are booleans, the field of flags is the set of its bits; \<^verbatim>\<open>index\<close> has five bits.\<close>

record 'u http_parser =
  ptype :: http_parser_type
  flags :: "flag set"
  state :: state
  header_state :: header_states
  index :: nat
  uses_transfer_encoding :: bool
  allow_chunked_length :: bool
  lenient_http_headers :: bool
  nread :: u32
  content_length :: u64
  http_major :: nat
  http_minor :: nat
  status_code :: nat
  p_method :: http_method
  http_errno :: http_errno
  upgrade :: bool
  data :: 'u

definition ULLONG_MAX :: u64 where "ULLONG_MAX = - 1"

record 'u http_parser_settings =
  on_notify :: "notify_cb \<Rightarrow> ('u http_parser \<Rightarrow> int \<times> 'u http_parser) option"
  on_data :: "data_cb \<Rightarrow> (octets \<Rightarrow> 'u http_parser \<Rightarrow> int \<times> 'u http_parser) option"

section \<open>Characters\<close>

definition LOWER :: "u8 \<Rightarrow> u8" where "LOWER c = c OR 0x20"

definition IS_ALPHA :: "u8 \<Rightarrow> bool" where "IS_ALPHA c \<longleftrightarrow> oct CHR ''a'' \<le> LOWER c \<and> LOWER c \<le> oct CHR ''z''"

definition IS_NUM :: "u8 \<Rightarrow> bool" where "IS_NUM c \<longleftrightarrow> oct CHR ''0'' \<le> c \<and> c \<le> oct CHR ''9''"

definition IS_ALPHANUM :: "u8 \<Rightarrow> bool" where "IS_ALPHANUM c \<longleftrightarrow> IS_ALPHA c \<or> IS_NUM c"

definition IS_HEX :: "u8 \<Rightarrow> bool" where
  "IS_HEX c \<longleftrightarrow> IS_NUM c \<or> (oct CHR ''a'' \<le> LOWER c \<and> LOWER c \<le> oct CHR ''f'')"

definition IS_MARK :: "u8 \<Rightarrow> bool" where
  "IS_MARK c \<longleftrightarrow> c \<in> set (str ''-_.!~*'' @ [39] @ str ''()'')"

definition IS_USERINFO_CHAR :: "u8 \<Rightarrow> bool" where
  "IS_USERINFO_CHAR c \<longleftrightarrow> IS_ALPHANUM c \<or> IS_MARK c \<or> c \<in> set (str ''%;:&=+$,'')"

text \<open>The initialisers of the tables leave the entries from 128 on zero, also in \<^verbatim>\<open>unhex\<close>.\<close>

definition tokens :: "u8 list" where
  "tokens =
     replicate 32 0 @
     str '' !'' @ [0] @ str ''#$%&'' @ [39] @
     [0, 0] @ str ''*+'' @ [0] @ str ''-.'' @ [0] @
     str ''01234567'' @
     str ''89'' @ [0, 0, 0, 0, 0, 0] @
     [0] @ str ''abcdefg'' @ str ''hijklmno'' @ str ''pqrstuvw'' @ str ''xyz'' @ [0, 0, 0] @ str ''^_'' @
     [96] @ str ''abcdefg'' @ str ''hijklmno'' @ str ''pqrstuvw'' @ str ''xyz'' @ [0] @ str ''|'' @ [0] @ str ''~'' @ [0] @
     replicate 128 0"

definition unhex :: "int list" where
  "unhex =
     replicate 48 (- 1) @ [0, 1, 2, 3, 4, 5, 6, 7, 8, 9] @ replicate 6 (- 1) @
     [- 1, 10, 11, 12, 13, 14, 15] @ replicate 9 (- 1) @ replicate 16 (- 1) @
     [- 1, 10, 11, 12, 13, 14, 15] @ replicate 9 (- 1) @ replicate 16 (- 1) @
     replicate 128 0"

definition normal_url_char :: "u8 list" where
  "normal_url_char = [0, 0, 0, 0, 246, 255, 255, 127, 255, 255, 255, 255, 255, 255, 255, 127] @ replicate 16 0"

definition BIT_AT :: "u8 list \<Rightarrow> u8 \<Rightarrow> bool" where
  "BIT_AT a i \<longleftrightarrow> bit (a ! (unat i div 8)) (unat i mod 8)"

definition STRICT_TOKEN :: "u8 \<Rightarrow> u8" where
  "STRICT_TOKEN c = (if c = oct CHR '' '' then 0 else tokens ! unat c)"

definition TOKEN :: "u8 \<Rightarrow> u8" where "TOKEN c = STRICT_TOKEN c"

definition IS_URL_CHAR :: "u8 \<Rightarrow> bool" where "IS_URL_CHAR c \<longleftrightarrow> BIT_AT normal_url_char c"

definition IS_HOST_CHAR :: "u8 \<Rightarrow> bool" where
  "IS_HOST_CHAR c \<longleftrightarrow> IS_ALPHANUM c \<or> c = oct CHR ''.'' \<or> c = oct CHR ''-''"

definition IS_HEADER_CHAR :: "u8 \<Rightarrow> bool" where
  "IS_HEADER_CHAR c \<longleftrightarrow> c = CR \<or> c = LF \<or> c = 9 \<or> (c > 31 \<and> c \<noteq> 127)"

section \<open>URLs, one character at a time\<close>

definition url_server_char :: "u8 \<Rightarrow> state" where
  "url_server_char ch =
     (if ch = oct CHR ''/'' then s_req_path
      else if ch = oct CHR ''?'' then s_req_query_string_start
      else if ch = oct CHR ''@'' then s_req_server_with_at
      else if IS_USERINFO_CHAR ch \<or> ch = oct CHR ''['' \<or> ch = oct CHR '']'' then s_req_server
      else s_dead)"

definition parse_url_char :: "state \<Rightarrow> u8 \<Rightarrow> state" where
  "parse_url_char s ch =
     (if ch = oct CHR '' '' \<or> ch = CR \<or> ch = LF then s_dead
      else if ch = 9 \<or> ch = 12 then s_dead
      else case s of
        s_req_spaces_before_url \<Rightarrow>
          if ch = oct CHR ''/'' \<or> ch = oct CHR ''*'' then s_req_path
          else if IS_ALPHA ch then s_req_schema else s_dead
      | s_req_schema \<Rightarrow>
          if IS_ALPHA ch then s else if ch = oct CHR '':'' then s_req_schema_slash else s_dead
      | s_req_schema_slash \<Rightarrow> if ch = oct CHR ''/'' then s_req_schema_slash_slash else s_dead
      | s_req_schema_slash_slash \<Rightarrow> if ch = oct CHR ''/'' then s_req_server_start else s_dead
      | s_req_server_with_at \<Rightarrow> if ch = oct CHR ''@'' then s_dead else url_server_char ch
      | s_req_server_start \<Rightarrow> url_server_char ch
      | s_req_server \<Rightarrow> url_server_char ch
      | s_req_path \<Rightarrow>
          if IS_URL_CHAR ch then s
          else if ch = oct CHR ''?'' then s_req_query_string_start
          else if ch = oct CHR ''#'' then s_req_fragment_start else s_dead
      | s_req_query_string_start \<Rightarrow>
          if IS_URL_CHAR ch \<or> ch = oct CHR ''?'' then s_req_query_string
          else if ch = oct CHR ''#'' then s_req_fragment_start else s_dead
      | s_req_query_string \<Rightarrow>
          if IS_URL_CHAR ch \<or> ch = oct CHR ''?'' then s_req_query_string
          else if ch = oct CHR ''#'' then s_req_fragment_start else s_dead
      | s_req_fragment_start \<Rightarrow>
          if IS_URL_CHAR ch \<or> ch = oct CHR ''?'' then s_req_fragment
          else if ch = oct CHR ''#'' then s else s_dead
      | s_req_fragment \<Rightarrow>
          if IS_URL_CHAR ch \<or> ch = oct CHR ''?'' \<or> ch = oct CHR ''#'' then s else s_dead
      | _ \<Rightarrow> s_dead)"

section \<open>The locals of \<^verbatim>\<open>http_parser_execute\<close> and the macros on them\<close>

text \<open>What does not change during a call: the arguments, and two members read at its start.\<close>

record 'u exec_env =
  settings :: "'u http_parser_settings"
  buf :: octets
  max_header_size :: u32
  lenient :: bool
  allow_chunked :: bool

record 'u exec_locals =
  parser :: "'u http_parser"
  l_p :: nat
  l_ch :: u8
  marks :: "data_cb \<Rightarrow> nat option"
  p_state :: state
  l_nread :: u32

datatype 'u outcome =
  Break "'u exec_locals" | Reexecute "'u exec_locals" | Error "'u exec_locals" | Return nat "'u http_parser" |
  Assertion_failed | Out_of_bounds | Endless

definition upd_parser :: "('u http_parser \<Rightarrow> 'u http_parser) \<Rightarrow> 'u exec_locals \<Rightarrow> 'u exec_locals" where
  "upd_parser f l = l\<lparr>parser := f (parser l)\<rparr>"

definition UPDATE_STATE :: "state \<Rightarrow> 'u exec_locals \<Rightarrow> 'u exec_locals" where
  "UPDATE_STATE s l = l\<lparr>p_state := s\<rparr>"

definition SET_ERRNO :: "http_errno \<Rightarrow> 'u exec_locals \<Rightarrow> 'u exec_locals" where
  "SET_ERRNO e l = upd_parser (\<lambda>pr. pr\<lparr>nread := l_nread l, http_errno := e\<rparr>) l"

definition RETURN :: "nat \<Rightarrow> 'u exec_locals \<Rightarrow> 'u outcome" where
  "RETURN v l = Return v ((parser l)\<lparr>nread := l_nread l, state := p_state l\<rparr>)"

text \<open>\<^verbatim>\<open>SET_ERRNO(e); goto error;\<close>\<close>

definition goto_error :: "http_errno \<Rightarrow> 'u exec_locals \<Rightarrow> 'u outcome" where
  "goto_error e l = Error (SET_ERRNO e l)"

definition STRICT_CHECK :: "bool \<Rightarrow> 'u exec_locals \<Rightarrow> ('u exec_locals \<Rightarrow> 'u outcome) \<Rightarrow> 'u outcome" where
  "STRICT_CHECK cond l rest = (if cond then goto_error HPE_STRICT l else rest l)"

definition assertion :: "bool \<Rightarrow> 'u outcome \<Rightarrow> 'u outcome" where
  "assertion cond rest = (if cond then rest else Assertion_failed)"

definition MARK :: "data_cb \<Rightarrow> 'u exec_locals \<Rightarrow> 'u exec_locals" where
  "MARK k l = (if marks l k = None then l\<lparr>marks := (marks l)(k := Some (l_p l))\<rparr> else l)"

definition COUNT_HEADER_SIZE :: "'u exec_env \<Rightarrow> nat \<Rightarrow> 'u exec_locals \<Rightarrow> ('u exec_locals \<Rightarrow> 'u outcome) \<Rightarrow> 'u outcome" where
  "COUNT_HEADER_SIZE E v l rest =
     (let l1 = l\<lparr>l_nread := l_nread l + of_nat v\<rparr>
      in if l_nread l1 > max_header_size E then goto_error HPE_HEADER_OVERFLOW l1 else rest l1)"

text \<open>What both macros do with the callback they found: the call, the error it may report, and the state it leaves.\<close>

definition run_callback ::
  "('u http_parser \<Rightarrow> int \<times> 'u http_parser) \<Rightarrow> http_errno \<Rightarrow> nat \<Rightarrow> 'u exec_locals \<Rightarrow> ('u exec_locals \<Rightarrow> 'u outcome) \<Rightarrow> 'u outcome"
where
  "run_callback f err ER l rest =
     (let (r, pr) = f ((parser l)\<lparr>state := p_state l\<rparr>);
          l1 = l\<lparr>parser := pr\<rparr>;
          l2 = (if r \<noteq> 0 then SET_ERRNO err l1 else l1);
          l3 = UPDATE_STATE (state (parser l2)) l2
      in if http_errno (parser l3) \<noteq> HPE_OK then Return ER (parser l3) else rest l3)"

definition CALLBACK_NOTIFY_at ::
  "'u exec_env \<Rightarrow> notify_cb \<Rightarrow> nat \<Rightarrow> 'u exec_locals \<Rightarrow> ('u exec_locals \<Rightarrow> 'u outcome) \<Rightarrow> 'u outcome"
where
  "CALLBACK_NOTIFY_at E k ER l rest =
     assertion (http_errno (parser l) = HPE_OK)
      (case on_notify (settings E) k of
         None \<Rightarrow> rest l
       | Some f \<Rightarrow> run_callback f (HPE_CB_notify k) ER l rest)"

definition CALLBACK_NOTIFY :: "'u exec_env \<Rightarrow> notify_cb \<Rightarrow> 'u exec_locals \<Rightarrow> ('u exec_locals \<Rightarrow> 'u outcome) \<Rightarrow> 'u outcome" where
  "CALLBACK_NOTIFY E k l = CALLBACK_NOTIFY_at E k (l_p l + 1) l"

definition CALLBACK_NOTIFY_NOADVANCE ::
  "'u exec_env \<Rightarrow> notify_cb \<Rightarrow> 'u exec_locals \<Rightarrow> ('u exec_locals \<Rightarrow> 'u outcome) \<Rightarrow> 'u outcome" where
  "CALLBACK_NOTIFY_NOADVANCE E k l = CALLBACK_NOTIFY_at E k (l_p l) l"

text \<open>The length \<^verbatim>\<open>LEN\<close> is given by the end of the piece.\<close>

definition CALLBACK_DATA_at ::
  "'u exec_env \<Rightarrow> data_cb \<Rightarrow> nat \<Rightarrow> nat \<Rightarrow> 'u exec_locals \<Rightarrow> ('u exec_locals \<Rightarrow> 'u outcome) \<Rightarrow> 'u outcome"
where
  "CALLBACK_DATA_at E k e ER l rest =
     assertion (http_errno (parser l) = HPE_OK)
      (case marks l k of
         None \<Rightarrow> rest l
       | Some m \<Rightarrow>
           let clear = (\<lambda>l. rest (l\<lparr>marks := (marks l)(k := None)\<rparr>))
           in case on_data (settings E) k of
                None \<Rightarrow> clear l
              | Some f \<Rightarrow> run_callback (f (sub_octets (buf E) m (e - m))) (HPE_CB_data k) ER l clear)"

definition CALLBACK_DATA :: "'u exec_env \<Rightarrow> data_cb \<Rightarrow> 'u exec_locals \<Rightarrow> ('u exec_locals \<Rightarrow> 'u outcome) \<Rightarrow> 'u outcome" where
  "CALLBACK_DATA E k l = CALLBACK_DATA_at E k (l_p l) (l_p l + 1) l"

definition CALLBACK_DATA_NOADVANCE ::
  "'u exec_env \<Rightarrow> data_cb \<Rightarrow> 'u exec_locals \<Rightarrow> ('u exec_locals \<Rightarrow> 'u outcome) \<Rightarrow> 'u outcome" where
  "CALLBACK_DATA_NOADVANCE E k l = CALLBACK_DATA_at E k (l_p l) (l_p l) l"

text \<open>The lines up to the end of a loop, then the lines after it.\<close>

definition after :: "'u outcome \<Rightarrow> ('u exec_locals \<Rightarrow> 'u outcome) \<Rightarrow> 'u outcome" where
  "after r rest = (case r of Break l \<Rightarrow> rest l | _ \<Rightarrow> r)"

text \<open>A character of a literal with its final null, for an index inside it.\<close>

definition c_at :: "octets \<Rightarrow> nat \<Rightarrow> u8" where
  "c_at s i = (s @ [0]) ! i"

section \<open>The end of a message\<close>

definition http_message_needs_eof :: "'u http_parser \<Rightarrow> bool" where
  "http_message_needs_eof pr =
     (if ptype pr = HTTP_REQUEST then False
      else if status_code pr div 100 = 1 \<or> status_code pr = 204 \<or> status_code pr = 304 \<or> F_SKIPBODY \<in> flags pr then False
      else if uses_transfer_encoding pr \<and> F_CHUNKED \<notin> flags pr then True
      else if F_CHUNKED \<in> flags pr \<or> content_length pr \<noteq> ULLONG_MAX then False
      else True)"

definition http_should_keep_alive :: "'u http_parser \<Rightarrow> bool" where
  "http_should_keep_alive pr =
     (if http_major pr > 0 \<and> http_minor pr > 0
      then if F_CONNECTION_CLOSE \<in> flags pr then False else \<not> http_message_needs_eof pr
      else if F_CONNECTION_KEEP_ALIVE \<notin> flags pr then False else \<not> http_message_needs_eof pr)"

definition start_state :: "'u http_parser \<Rightarrow> state" where
  "start_state pr = (if ptype pr = HTTP_REQUEST then s_start_req else s_start_res)"

definition NEW_MESSAGE :: "'u http_parser \<Rightarrow> state" where
  "NEW_MESSAGE pr = (if http_should_keep_alive pr then start_state pr else s_dead)"

section \<open>The status line and the request line\<close>

definition st_dead :: "'u exec_env \<Rightarrow> 'u exec_locals \<Rightarrow> 'u outcome" where
  "st_dead E l = (if l_ch l = CR \<or> l_ch l = LF then Break l else goto_error HPE_CLOSED_CONNECTION l)"

definition fresh_message :: "'u exec_locals \<Rightarrow> 'u exec_locals" where
  "fresh_message l = upd_parser (\<lambda>pr. pr\<lparr>flags := {}, uses_transfer_encoding := False, content_length := ULLONG_MAX\<rparr>) l"

definition st_start_req_or_res :: "'u exec_env \<Rightarrow> 'u exec_locals \<Rightarrow> 'u outcome" where
  "st_start_req_or_res E l =
     (if l_ch l = CR \<or> l_ch l = LF then Break l
      else let l1 = fresh_message l
           in if l_ch l = oct CHR ''H''
              then CALLBACK_NOTIFY E message_begin (UPDATE_STATE s_res_or_resp_H l1) Break
              else Reexecute (UPDATE_STATE s_start_req (upd_parser (\<lambda>pr. pr\<lparr>ptype := HTTP_REQUEST\<rparr>) l1)))"

definition st_res_or_resp_H :: "'u exec_env \<Rightarrow> 'u exec_locals \<Rightarrow> 'u outcome" where
  "st_res_or_resp_H E l =
     (if l_ch l = oct CHR ''T''
      then Break (UPDATE_STATE s_res_HT (upd_parser (\<lambda>pr. pr\<lparr>ptype := HTTP_RESPONSE\<rparr>) l))
      else if l_ch l \<noteq> oct CHR ''E'' then goto_error HPE_INVALID_CONSTANT l
      else Break (UPDATE_STATE s_req_method (upd_parser (\<lambda>pr. pr\<lparr>ptype := HTTP_REQUEST, p_method := HTTP_HEAD, index := 2\<rparr>) l)))"

definition st_start_res :: "'u exec_env \<Rightarrow> 'u exec_locals \<Rightarrow> 'u outcome" where
  "st_start_res E l =
     (if l_ch l = CR \<or> l_ch l = LF then Break l
      else let l1 = fresh_message l
           in if l_ch l = oct CHR ''H''
              then CALLBACK_NOTIFY E message_begin (UPDATE_STATE s_res_H l1) Break
              else goto_error HPE_INVALID_CONSTANT l1)"

text \<open>The states that want one character: \<^verbatim>\<open>STRICT_CHECK(ch != c); UPDATE_STATE(s); break;\<close>\<close>

definition st_expect :: "u8 \<Rightarrow> state \<Rightarrow> 'u exec_locals \<Rightarrow> 'u outcome" where
  "st_expect c s l = STRICT_CHECK (l_ch l \<noteq> c) l (\<lambda>l. Break (UPDATE_STATE s l))"

definition st_http_major :: "state \<Rightarrow> 'u exec_locals \<Rightarrow> 'u outcome" where
  "st_http_major next l =
     (if \<not> IS_NUM (l_ch l) then goto_error HPE_INVALID_VERSION l
      else Break (UPDATE_STATE next (upd_parser (\<lambda>pr. pr\<lparr>http_major := unat (l_ch l) - 48\<rparr>) l)))"

definition st_http_dot :: "state \<Rightarrow> 'u exec_locals \<Rightarrow> 'u outcome" where
  "st_http_dot next l =
     (if l_ch l \<noteq> oct CHR ''.'' then goto_error HPE_INVALID_VERSION l else Break (UPDATE_STATE next l))"

definition st_http_minor :: "state \<Rightarrow> 'u exec_locals \<Rightarrow> 'u outcome" where
  "st_http_minor next l =
     (if \<not> IS_NUM (l_ch l) then goto_error HPE_INVALID_VERSION l
      else Break (UPDATE_STATE next (upd_parser (\<lambda>pr. pr\<lparr>http_minor := unat (l_ch l) - 48\<rparr>) l)))"

definition st_res_http_end :: "'u exec_env \<Rightarrow> 'u exec_locals \<Rightarrow> 'u outcome" where
  "st_res_http_end E l =
     (if l_ch l \<noteq> oct CHR '' '' then goto_error HPE_INVALID_VERSION l else Break (UPDATE_STATE s_res_first_status_code l))"

definition st_res_first_status_code :: "'u exec_env \<Rightarrow> 'u exec_locals \<Rightarrow> 'u outcome" where
  "st_res_first_status_code E l =
     (if \<not> IS_NUM (l_ch l)
      then if l_ch l = oct CHR '' '' then Break l else goto_error HPE_INVALID_STATUS l
      else Break (UPDATE_STATE s_res_status_code (upd_parser (\<lambda>pr. pr\<lparr>status_code := unat (l_ch l) - 48\<rparr>) l)))"

definition st_res_status_code :: "'u exec_env \<Rightarrow> 'u exec_locals \<Rightarrow> 'u outcome" where
  "st_res_status_code E l =
     (if \<not> IS_NUM (l_ch l)
      then if l_ch l = oct CHR '' '' then Break (UPDATE_STATE s_res_status_start l)
           else if l_ch l = CR \<or> l_ch l = LF then Reexecute (UPDATE_STATE s_res_status_start l)
           else goto_error HPE_INVALID_STATUS l
      else let l1 = upd_parser (\<lambda>pr. pr\<lparr>status_code := status_code pr * 10 + (unat (l_ch l) - 48)\<rparr>) l
           in if status_code (parser l1) > 999 then goto_error HPE_INVALID_STATUS l1 else Break l1)"

definition st_res_status_start :: "'u exec_env \<Rightarrow> 'u exec_locals \<Rightarrow> 'u outcome" where
  "st_res_status_start E l =
     (let l1 = upd_parser (\<lambda>pr. pr\<lparr>index := 0\<rparr>) (UPDATE_STATE s_res_status (MARK status l))
      in if l_ch l = CR \<or> l_ch l = LF then Reexecute l1 else Break l1)"

definition st_res_status :: "'u exec_env \<Rightarrow> 'u exec_locals \<Rightarrow> 'u outcome" where
  "st_res_status E l =
     (if l_ch l = CR then CALLBACK_DATA E status (UPDATE_STATE s_res_line_almost_done l) Break
      else if l_ch l = LF then CALLBACK_DATA E status (UPDATE_STATE s_header_field_start l) Break
      else Break l)"

definition first_method :: "u8 \<Rightarrow> http_method option" where
  "first_method ch =
     map_of (zip (str ''ABCDGHLMNOPRSTU'')
       [HTTP_ACL, HTTP_BIND, HTTP_CONNECT, HTTP_DELETE, HTTP_GET, HTTP_HEAD, HTTP_LOCK, HTTP_MKCOL, HTTP_NOTIFY,
        HTTP_OPTIONS, HTTP_POST, HTTP_REPORT, HTTP_SUBSCRIBE, HTTP_TRACE, HTTP_UNLOCK]) ch"

definition st_start_req :: "'u exec_env \<Rightarrow> 'u exec_locals \<Rightarrow> 'u outcome" where
  "st_start_req E l =
     (if l_ch l = CR \<or> l_ch l = LF then Break l
      else let l1 = fresh_message l
           in if \<not> IS_ALPHA (l_ch l) then goto_error HPE_INVALID_METHOD l1
              else let l2 = upd_parser (\<lambda>pr. pr\<lparr>p_method := HTTP_DELETE, index := 1\<rparr>) l1
                   in case first_method (l_ch l) of
                        None \<Rightarrow> goto_error HPE_INVALID_METHOD l2
                      | Some m \<Rightarrow>
                          CALLBACK_NOTIFY E message_begin (UPDATE_STATE s_req_method (upd_parser (\<lambda>pr. pr\<lparr>p_method := m\<rparr>) l2)) Break)"

text \<open>The table of the macro \<^verbatim>\<open>XX(meth, pos, ch, new_meth)\<close>.\<close>

definition method_switch :: "http_method \<Rightarrow> nat \<Rightarrow> u8 \<Rightarrow> http_method option" where
  "method_switch m i ch =
     map_of
       [((HTTP_POST, 1, oct CHR ''U''), HTTP_PUT), ((HTTP_POST, 1, oct CHR ''A''), HTTP_PATCH),
        ((HTTP_POST, 1, oct CHR ''R''), HTTP_PROPFIND), ((HTTP_PUT, 2, oct CHR ''R''), HTTP_PURGE),
        ((HTTP_CONNECT, 1, oct CHR ''H''), HTTP_CHECKOUT), ((HTTP_CONNECT, 2, oct CHR ''P''), HTTP_COPY),
        ((HTTP_MKCOL, 1, oct CHR ''O''), HTTP_MOVE), ((HTTP_MKCOL, 1, oct CHR ''E''), HTTP_MERGE),
        ((HTTP_MKCOL, 1, oct CHR ''-''), HTTP_MSEARCH), ((HTTP_MKCOL, 2, oct CHR ''A''), HTTP_MKACTIVITY),
        ((HTTP_MKCOL, 3, oct CHR ''A''), HTTP_MKCALENDAR), ((HTTP_SUBSCRIBE, 1, oct CHR ''E''), HTTP_SEARCH),
        ((HTTP_SUBSCRIBE, 1, oct CHR ''O''), HTTP_SOURCE), ((HTTP_REPORT, 2, oct CHR ''B''), HTTP_REBIND),
        ((HTTP_PROPFIND, 4, oct CHR ''P''), HTTP_PROPPATCH), ((HTTP_LOCK, 1, oct CHR ''I''), HTTP_LINK),
        ((HTTP_UNLOCK, 2, oct CHR ''S''), HTTP_UNSUBSCRIBE), ((HTTP_UNLOCK, 2, oct CHR ''B''), HTTP_UNBIND),
        ((HTTP_UNLOCK, 3, oct CHR ''I''), HTTP_UNLINK)] (m, i, ch)"

definition inc_index :: "'u http_parser \<Rightarrow> 'u http_parser" where
  "inc_index pr = pr\<lparr>index := (index pr + 1) mod 32\<rparr>"

definition st_req_method :: "'u exec_env \<Rightarrow> 'u exec_locals \<Rightarrow> 'u outcome" where
  "st_req_method E l =
     (let ch = l_ch l; pr = parser l; matcher = http_method_str (p_method pr)
      in if ch = 0 then goto_error HPE_INVALID_METHOD l
         else if index pr > length matcher then Out_of_bounds
         else if ch = oct CHR '' '' \<and> c_at matcher (index pr) = 0
              then Break (upd_parser inc_index (UPDATE_STATE s_req_spaces_before_url l))
         else if ch = c_at matcher (index pr) then Break (upd_parser inc_index l)
         else if (oct CHR ''A'' \<le> ch \<and> ch \<le> oct CHR ''Z'') \<or> ch = oct CHR ''-''
              then (case method_switch (p_method pr) (index pr) ch of
                      Some m \<Rightarrow> Break (upd_parser (\<lambda>pr. inc_index (pr\<lparr>p_method := m\<rparr>)) l)
                    | None \<Rightarrow> goto_error HPE_INVALID_METHOD l)
         else goto_error HPE_INVALID_METHOD l)"

text \<open>\<^verbatim>\<open>UPDATE_STATE(parse_url_char(CURRENT_STATE(), ch)); if (CURRENT_STATE() == s_dead) ...\<close>\<close>

definition url_char_step :: "'u exec_locals \<Rightarrow> 'u outcome" where
  "url_char_step l =
     (let l1 = UPDATE_STATE (parse_url_char (p_state l) (l_ch l)) l
      in if p_state l1 = s_dead then goto_error HPE_INVALID_URL l1 else Break l1)"

definition st_req_spaces_before_url :: "'u exec_env \<Rightarrow> 'u exec_locals \<Rightarrow> 'u outcome" where
  "st_req_spaces_before_url E l =
     (if l_ch l = oct CHR '' '' then Break l
      else let l1 = MARK url l
           in url_char_step (if p_method (parser l1) = HTTP_CONNECT then UPDATE_STATE s_req_server_start l1 else l1))"

definition st_req_schema :: "'u exec_env \<Rightarrow> 'u exec_locals \<Rightarrow> 'u outcome" where
  "st_req_schema E l =
     (if l_ch l = oct CHR '' '' \<or> l_ch l = CR \<or> l_ch l = LF then goto_error HPE_INVALID_URL l else url_char_step l)"

definition st_req_url :: "'u exec_env \<Rightarrow> 'u exec_locals \<Rightarrow> 'u outcome" where
  "st_req_url E l =
     (if l_ch l = oct CHR '' '' then CALLBACK_DATA E url (UPDATE_STATE s_req_http_start l) Break
      else if l_ch l = CR \<or> l_ch l = LF
      then CALLBACK_DATA E url
             (UPDATE_STATE (if l_ch l = CR then s_req_line_almost_done else s_header_field_start)
               (upd_parser (\<lambda>pr. pr\<lparr>http_major := 0, http_minor := 9\<rparr>) l)) Break
      else url_char_step l)"

definition st_req_http_start :: "'u exec_env \<Rightarrow> 'u exec_locals \<Rightarrow> 'u outcome" where
  "st_req_http_start E l =
     (if l_ch l = oct CHR '' '' then Break l
      else if l_ch l = oct CHR ''H'' then Break (UPDATE_STATE s_req_http_H l)
      else if l_ch l = oct CHR ''I'' \<and> p_method (parser l) = HTTP_SOURCE then Break (UPDATE_STATE s_req_http_I l)
      else goto_error HPE_INVALID_CONSTANT l)"

definition st_req_http_end :: "'u exec_env \<Rightarrow> 'u exec_locals \<Rightarrow> 'u outcome" where
  "st_req_http_end E l =
     (if l_ch l = CR then Break (UPDATE_STATE s_req_line_almost_done l)
      else if l_ch l = LF then Break (UPDATE_STATE s_header_field_start l)
      else goto_error HPE_INVALID_VERSION l)"

definition st_req_line_almost_done :: "'u exec_env \<Rightarrow> 'u exec_locals \<Rightarrow> 'u outcome" where
  "st_req_line_almost_done E l =
     (if l_ch l \<noteq> LF then goto_error HPE_LF_EXPECTED l else Break (UPDATE_STATE s_header_field_start l))"

section \<open>Headers\<close>

definition field_start_state :: "u8 \<Rightarrow> header_states" where
  "field_start_state c =
     (if c = oct CHR ''c'' then h_C
      else if c = oct CHR ''p'' then h_matching_proxy_connection
      else if c = oct CHR ''t'' then h_matching_transfer_encoding
      else if c = oct CHR ''u'' then h_matching_upgrade
      else h_general)"

definition st_header_field_start :: "'u exec_env \<Rightarrow> 'u exec_locals \<Rightarrow> 'u outcome" where
  "st_header_field_start E l =
     (if l_ch l = CR then Break (UPDATE_STATE s_headers_almost_done l)
      else if l_ch l = LF then Reexecute (UPDATE_STATE s_headers_almost_done l)
      else let c = TOKEN (l_ch l)
           in if c = 0 then goto_error HPE_INVALID_HEADER_TOKEN l
              else Break (UPDATE_STATE s_header_field
                     (upd_parser (\<lambda>pr. pr\<lparr>index := 0, header_state := field_start_state c\<rparr>) (MARK header_field l))))"

text \<open>\<^verbatim>\<open>while (p+1 < pe && TOKEN(p[1])) p++;\<close>\<close>

function skip_tokens :: "octets \<Rightarrow> nat \<Rightarrow> nat \<Rightarrow> nat" where
  "skip_tokens b pe p = (if p + 1 < pe \<and> TOKEN (b ! (p + 1)) \<noteq> 0 then skip_tokens b pe (p + 1) else p)"
  by pat_completeness auto
termination
  by (relation "measure (\<lambda>(b, pe, p). pe - p)") auto

declare skip_tokens.simps [simp del]

text \<open>One more character of a name that is being recognised.\<close>

definition match_name :: "octets \<Rightarrow> header_states \<Rightarrow> u8 \<Rightarrow> 'u http_parser \<Rightarrow> 'u http_parser" where
  "match_name name h c pr =
     (let pr1 = inc_index pr
      in if index pr1 > length name \<or> c \<noteq> c_at name (index pr1) then pr1\<lparr>header_state := h_general\<rparr>
         else if index pr1 = length name - 1 then pr1\<lparr>header_state := h\<rparr>
         else pr1)"

definition CONNECTION :: octets where "CONNECTION = str ''connection''"

definition PROXY_CONNECTION :: octets where "PROXY_CONNECTION = str ''proxy-connection''"

definition CONTENT_LENGTH :: octets where "CONTENT_LENGTH = str ''content-length''"

definition TRANSFER_ENCODING :: octets where "TRANSFER_ENCODING = str ''transfer-encoding''"

definition UPGRADE :: octets where "UPGRADE = str ''upgrade''"

definition CHUNKED :: octets where "CHUNKED = str ''chunked''"

definition KEEP_ALIVE :: octets where "KEEP_ALIVE = str ''keep-alive''"

definition CLOSE :: octets where "CLOSE = str ''close''"

text \<open>The end of the window of at most \<^verbatim>\<open>max_header_size\<close> characters from \<^verbatim>\<open>p\<close> on.\<close>

definition window_end :: "'u exec_env \<Rightarrow> nat \<Rightarrow> nat" where
  "window_end E p = p + min (length (buf E) - p) (unat (max_header_size E))"

definition field_switch :: "'u exec_env \<Rightarrow> u8 \<Rightarrow> 'u exec_locals \<Rightarrow> 'u outcome" where
  "field_switch E c l =
     (case header_state (parser l) of
        h_general \<Rightarrow> Break (l\<lparr>l_p := skip_tokens (buf E) (window_end E (l_p l)) (l_p l)\<rparr>)
      | h_C \<Rightarrow>
          Break (upd_parser (\<lambda>pr. (inc_index pr)\<lparr>header_state := if c = oct CHR ''o'' then h_CO else h_general\<rparr>) l)
      | h_CO \<Rightarrow>
          Break (upd_parser (\<lambda>pr. (inc_index pr)\<lparr>header_state := if c = oct CHR ''n'' then h_CON else h_general\<rparr>) l)
      | h_CON \<Rightarrow>
          Break (upd_parser (\<lambda>pr. (inc_index pr)\<lparr>header_state :=
            if c = oct CHR ''n'' then h_matching_connection
            else if c = oct CHR ''t'' then h_matching_content_length else h_general\<rparr>) l)
      | h_matching_connection \<Rightarrow> Break (upd_parser (match_name CONNECTION h_connection c) l)
      | h_matching_proxy_connection \<Rightarrow> Break (upd_parser (match_name PROXY_CONNECTION h_connection c) l)
      | h_matching_content_length \<Rightarrow> Break (upd_parser (match_name CONTENT_LENGTH h_content_length c) l)
      | h_matching_transfer_encoding \<Rightarrow>
          Break (upd_parser (\<lambda>pr. let pr1 = match_name TRANSFER_ENCODING h_transfer_encoding c pr
                                  in if header_state pr1 = h_transfer_encoding then pr1\<lparr>uses_transfer_encoding := True\<rparr> else pr1) l)
      | h_matching_upgrade \<Rightarrow> Break (upd_parser (match_name UPGRADE h_upgrade c) l)
      | h_connection \<Rightarrow> Break (upd_parser (\<lambda>pr. if l_ch l \<noteq> oct CHR '' '' then pr\<lparr>header_state := h_general\<rparr> else pr) l)
      | h_content_length \<Rightarrow> Break (upd_parser (\<lambda>pr. if l_ch l \<noteq> oct CHR '' '' then pr\<lparr>header_state := h_general\<rparr> else pr) l)
      | h_transfer_encoding \<Rightarrow> Break (upd_parser (\<lambda>pr. if l_ch l \<noteq> oct CHR '' '' then pr\<lparr>header_state := h_general\<rparr> else pr) l)
      | h_upgrade \<Rightarrow> Break (upd_parser (\<lambda>pr. if l_ch l \<noteq> oct CHR '' '' then pr\<lparr>header_state := h_general\<rparr> else pr) l)
      | _ \<Rightarrow> Assertion_failed)"

lemma skip_tokens_le: "p \<le> skip_tokens b pe p"
  by (induction b pe p rule: skip_tokens.induct) (subst skip_tokens.simps, auto)

lemma skip_tokens_less: "p < n \<Longrightarrow> pe \<le> n \<Longrightarrow> skip_tokens b pe p < n"
  by (induction b pe p rule: skip_tokens.induct) (subst skip_tokens.simps, auto)

lemma window_end_le: "p \<le> length (buf E) \<Longrightarrow> window_end E p \<le> length (buf E)" "p \<le> window_end E p"
  by (auto simp: window_end_def)

lemma field_switch_p:
  "field_switch E c l = Break l' \<Longrightarrow> l_p l < length (buf E) \<Longrightarrow> l_p l \<le> l_p l' \<and> l_p l' < length (buf E)"
  by (auto simp: field_switch_def upd_parser_def skip_tokens_le skip_tokens_less window_end_le split: header_states.splits)

text \<open>The loop over the characters of a name; a pointer never passes the end of the data.\<close>

function field_loop :: "'u exec_env \<Rightarrow> 'u exec_locals \<Rightarrow> 'u outcome" where
  "field_loop E l =
     (if l_p l \<ge> length (buf E) then Break l
      else let l1 = l\<lparr>l_ch := buf E ! l_p l\<rparr>; c = TOKEN (l_ch l1)
           in if c = 0 then Break l1
              else case field_switch E c l1 of
                     Break l2 \<Rightarrow> field_loop E (l2\<lparr>l_p := l_p l2 + 1\<rparr>)
                   | r \<Rightarrow> r)"
  by pat_completeness auto
termination
  by (relation "measure (\<lambda>(E, l). length (buf E) - l_p l)") (auto dest!: field_switch_p)

declare field_loop.simps [simp del]

definition st_header_field :: "'u exec_env \<Rightarrow> 'u exec_locals \<Rightarrow> 'u outcome" where
  "st_header_field E l =
     after (field_loop E l) (\<lambda>l1.
       if l_p l1 = length (buf E)
       then COUNT_HEADER_SIZE E (l_p l1 - 1 - l_p l) (l1\<lparr>l_p := l_p l1 - 1\<rparr>) Break
       else COUNT_HEADER_SIZE E (l_p l1 - l_p l) l1 (\<lambda>l2.
              if l_ch l2 = oct CHR '':''
              then CALLBACK_DATA E header_field (UPDATE_STATE s_header_value_discard_ws l2) Break
              else goto_error HPE_INVALID_HEADER_TOKEN l2))"

definition st_header_value_start :: "'u exec_env \<Rightarrow> 'u exec_locals \<Rightarrow> 'u outcome" where
  "st_header_value_start E l =
     (let l1 = upd_parser (\<lambda>pr. pr\<lparr>index := 0\<rparr>) (UPDATE_STATE s_header_value (MARK header_value l));
          c = LOWER (l_ch l);
          become = (\<lambda>h. Break (upd_parser (\<lambda>pr. pr\<lparr>header_state := h\<rparr>) l1))
      in case header_state (parser l1) of
           h_upgrade \<Rightarrow> Break (upd_parser (\<lambda>pr. pr\<lparr>flags := insert F_UPGRADE (flags pr), header_state := h_general\<rparr>) l1)
         | h_transfer_encoding \<Rightarrow>
             become (if c = oct CHR ''c'' then h_matching_transfer_encoding_chunked else h_matching_transfer_encoding_token)
         | h_matching_transfer_encoding_token_start \<Rightarrow> Break l1
         | h_content_length \<Rightarrow>
             if \<not> IS_NUM (l_ch l) then goto_error HPE_INVALID_CONTENT_LENGTH l1
             else if F_CONTENTLENGTH \<in> flags (parser l1) then goto_error HPE_UNEXPECTED_CONTENT_LENGTH l1
             else Break (upd_parser (\<lambda>pr. pr\<lparr>flags := insert F_CONTENTLENGTH (flags pr),
                    content_length := of_nat (unat (l_ch l) - 48), header_state := h_content_length_num\<rparr>) l1)
         | h_content_length_ws \<Rightarrow> Break l1
         | h_connection \<Rightarrow>
             become (if c = oct CHR ''k'' then h_matching_connection_keep_alive
                     else if c = oct CHR ''c'' then h_matching_connection_close
                     else if c = oct CHR ''u'' then h_matching_connection_upgrade
                     else h_matching_connection_token)
         | h_matching_connection_token_start \<Rightarrow> Break l1
         | _ \<Rightarrow> become h_general)"

definition st_header_value_discard_ws :: "'u exec_env \<Rightarrow> 'u exec_locals \<Rightarrow> 'u outcome" where
  "st_header_value_discard_ws E l =
     (if l_ch l = oct CHR '' '' \<or> l_ch l = 9 then Break l
      else if l_ch l = CR then Break (UPDATE_STATE s_header_value_discard_ws_almost_done l)
      else if l_ch l = LF then Break (UPDATE_STATE s_header_value_discard_lws l)
      else st_header_value_start E l)"

text \<open>The inner loop for values of no interest, \<^verbatim>\<open>for (; p != pe; p++)\<close>.\<close>

function value_general :: "'u exec_env \<Rightarrow> nat \<Rightarrow> 'u exec_locals \<Rightarrow> 'u outcome" where
  "value_general E pe l =
     (if l_p l \<ge> pe then Break l
      else let l1 = l\<lparr>l_ch := buf E ! l_p l\<rparr>
           in if l_ch l1 = CR \<or> l_ch l1 = LF then Break (l1\<lparr>l_p := l_p l1 - 1\<rparr>)
              else if \<not> lenient E \<and> \<not> IS_HEADER_CHAR (l_ch l1) then goto_error HPE_INVALID_HEADER_TOKEN l1
              else value_general E pe (l1\<lparr>l_p := l_p l1 + 1\<rparr>))"
  by pat_completeness auto
termination
  by (relation "measure (\<lambda>(E, pe, l). pe - l_p l)") auto

declare value_general.simps [simp del]

text \<open>One more character of a token that is being recognised: the local \<^verbatim>\<open>h_state\<close> and the parser.\<close>

definition match_value ::
  "octets \<Rightarrow> header_states \<Rightarrow> header_states \<Rightarrow> u8 \<Rightarrow> header_states \<Rightarrow> 'u exec_locals \<Rightarrow> (header_states \<times> 'u exec_locals) + 'u outcome"
where
  "match_value name other found c h l =
     (let l1 = upd_parser inc_index l; i = index (parser l1)
      in Inl (if i > length name \<or> c \<noteq> c_at name i then other else if i = length name - 1 then found else h, l1))"

definition flag_of :: "header_states \<Rightarrow> flag" where
  "flag_of h =
     (if h = h_connection_keep_alive then F_CONNECTION_KEEP_ALIVE
      else if h = h_connection_close then F_CONNECTION_CLOSE else F_CONNECTION_UPGRADE)"

text \<open>The digits of a length; errors leave \<^verbatim>\<open>h_state\<close> in the parser.\<close>

definition length_digit :: "header_states \<Rightarrow> 'u exec_locals \<Rightarrow> (header_states \<times> 'u exec_locals) + 'u outcome" where
  "length_digit h l =
     (let wrong = Inr (goto_error HPE_INVALID_CONTENT_LENGTH (upd_parser (\<lambda>pr. pr\<lparr>header_state := h\<rparr>) l));
          t = content_length (parser l) * 10 + of_nat (unat (l_ch l) - 48)
      in if l_ch l = oct CHR '' '' then Inl (h_content_length_ws, l)
         else if \<not> IS_NUM (l_ch l) then wrong
         else if (ULLONG_MAX - 10) div 10 < content_length (parser l) then wrong
         else Inl (h, upd_parser (\<lambda>pr. pr\<lparr>content_length := t\<rparr>) l))"

definition value_switch ::
  "'u exec_env \<Rightarrow> header_states \<Rightarrow> 'u exec_locals \<Rightarrow> (header_states \<times> 'u exec_locals) + 'u outcome"
where
  "value_switch E h l =
     (let ch = l_ch l; c = LOWER ch;
          comma = (\<lambda>h' l. Inl (if ch = oct CHR '','' then (h', upd_parser (\<lambda>pr. pr\<lparr>index := 0\<rparr>) l) else (h, l)))
      in case h of
           h_general \<Rightarrow>
             (case value_general E (window_end E (l_p l)) l of
                Break l1 \<Rightarrow> Inl (h, if l_p l1 = length (buf E) then l1\<lparr>l_p := l_p l1 - 1\<rparr> else l1)
              | r \<Rightarrow> Inr r)
         | h_connection \<Rightarrow> Inr Assertion_failed
         | h_transfer_encoding \<Rightarrow> Inr Assertion_failed
         | h_content_length \<Rightarrow> if ch = oct CHR '' '' then Inl (h, l) else length_digit h_content_length_num l
         | h_content_length_num \<Rightarrow> length_digit h l
         | h_content_length_ws \<Rightarrow>
             if ch = oct CHR '' '' then Inl (h, l)
             else Inr (goto_error HPE_INVALID_CONTENT_LENGTH (upd_parser (\<lambda>pr. pr\<lparr>header_state := h\<rparr>) l))
         | h_matching_transfer_encoding_token_start \<Rightarrow>
             Inl (if c = oct CHR ''c'' then h_matching_transfer_encoding_chunked
                  else if STRICT_TOKEN c \<noteq> 0 then h_matching_transfer_encoding_token
                  else if c = oct CHR '' '' \<or> c = 9 then h else h_general, l)
         | h_matching_transfer_encoding_chunked \<Rightarrow>
             match_value CHUNKED h_matching_transfer_encoding_token h_transfer_encoding_chunked c h l
         | h_matching_transfer_encoding_token \<Rightarrow> comma h_matching_transfer_encoding_token_start l
         | h_matching_connection_token_start \<Rightarrow>
             Inl (if c = oct CHR ''k'' then h_matching_connection_keep_alive
                  else if c = oct CHR ''c'' then h_matching_connection_close
                  else if c = oct CHR ''u'' then h_matching_connection_upgrade
                  else if STRICT_TOKEN c \<noteq> 0 then h_matching_connection_token
                  else if c = oct CHR '' '' \<or> c = 9 then h else h_general, l)
         | h_matching_connection_keep_alive \<Rightarrow> match_value KEEP_ALIVE h_matching_connection_token h_connection_keep_alive c h l
         | h_matching_connection_close \<Rightarrow> match_value CLOSE h_matching_connection_token h_connection_close c h l
         | h_matching_connection_upgrade \<Rightarrow> match_value UPGRADE h_matching_connection_token h_connection_upgrade c h l
         | h_matching_connection_token \<Rightarrow> comma h_matching_connection_token_start l
         | h_transfer_encoding_chunked \<Rightarrow>
             Inl (if ch \<noteq> oct CHR '' '' then h_matching_transfer_encoding_token else h, l)
         | _ \<Rightarrow>
             if h \<in> {h_connection_keep_alive, h_connection_close, h_connection_upgrade}
             then Inl (if ch = oct CHR '',''
                       then (h_matching_connection_token_start,
                             upd_parser (\<lambda>pr. pr\<lparr>flags := insert (flag_of h) (flags pr), index := 0\<rparr>) l)
                       else if ch \<noteq> oct CHR '' '' then (h_matching_connection_token, l) else (h, l))
             else Inl (h_general, UPDATE_STATE s_header_value l))"

text \<open>The lines after the loop.\<close>

definition value_done :: "'u exec_env \<Rightarrow> nat \<Rightarrow> header_states \<Rightarrow> 'u exec_locals \<Rightarrow> 'u outcome" where
  "value_done E start h l =
     (let l1 = upd_parser (\<lambda>pr. pr\<lparr>header_state := h\<rparr>) l;
          l2 = (if l_p l1 = length (buf E) then l1\<lparr>l_p := l_p l1 - 1\<rparr> else l1)
      in COUNT_HEADER_SIZE E (l_p l2 - start) l2 Break)"

lemma value_general_ge:
  "value_general E pe l = Break l' \<Longrightarrow> n \<le> l_p l \<Longrightarrow> (l_p l < pe \<and> n = l_p l \<longrightarrow> buf E ! l_p l \<noteq> CR \<and> buf E ! l_p l \<noteq> LF)
    \<Longrightarrow> n \<le> l_p l' \<and> l_p l' \<le> max pe (l_p l)"
proof (induction E pe l rule: value_general.induct)
  case (1 E pe l)
  show ?case
  proof (cases "l_p l < pe")
    case True
    then show ?thesis using 1 by (subst (asm) value_general.simps) (force simp: Let_def goto_error_def split: if_splits)
  qed (use 1 in \<open>subst (asm) value_general.simps, auto\<close>)
qed

lemma value_switch_p:
  assumes "value_switch E h l = Inl (h', l')" "l_p l < length (buf E)" "buf E ! l_p l \<noteq> CR" "buf E ! l_p l \<noteq> LF"
  shows "l_p l \<le> l_p l' \<and> l_p l' < length (buf E)"
proof (cases "h = h_general")
  case True
  then show ?thesis
    using assms value_general_ge [of E "window_end E (l_p l)" l _ "l_p l"] window_end_le [of "l_p l" E]
    by (fastforce simp: value_switch_def split: outcome.splits if_splits)
next
  case False
  then show ?thesis
    using assms
    by (cases h) (auto simp: value_switch_def length_digit_def match_value_def upd_parser_def UPDATE_STATE_def Let_def split: if_splits)
qed

text \<open>The loop over the characters of a value.\<close>

function value_loop :: "'u exec_env \<Rightarrow> nat \<Rightarrow> header_states \<Rightarrow> 'u exec_locals \<Rightarrow> 'u outcome" where
  "value_loop E start h l =
     (if l_p l \<ge> length (buf E) then value_done E start h l
      else let l1 = l\<lparr>l_ch := buf E ! l_p l\<rparr>; ch = l_ch l1;
               keep = upd_parser (\<lambda>pr. pr\<lparr>header_state := h\<rparr>)
           in if ch = CR
              then CALLBACK_DATA E header_value (keep (UPDATE_STATE s_header_almost_done l1)) (value_done E start h)
              else if ch = LF
              then COUNT_HEADER_SIZE E (l_p l1 - start) (UPDATE_STATE s_header_almost_done l1)
                     (\<lambda>l2. CALLBACK_DATA_NOADVANCE E header_value (keep l2) Reexecute)
              else if \<not> lenient E \<and> \<not> IS_HEADER_CHAR ch then goto_error HPE_INVALID_HEADER_TOKEN l1
              else case value_switch E h l1 of
                     Inl (h', l2) \<Rightarrow> value_loop E start h' (l2\<lparr>l_p := l_p l2 + 1\<rparr>)
                   | Inr r \<Rightarrow> r)"
  by pat_completeness auto
termination
  by (relation "measure (\<lambda>(E, start, h, l). length (buf E) - l_p l)") (auto dest!: value_switch_p)

declare value_loop.simps [simp del]

definition st_header_value :: "'u exec_env \<Rightarrow> 'u exec_locals \<Rightarrow> 'u outcome" where
  "st_header_value E l = value_loop E (l_p l) (header_state (parser l)) l"

definition st_header_almost_done :: "'u exec_env \<Rightarrow> 'u exec_locals \<Rightarrow> 'u outcome" where
  "st_header_almost_done E l =
     (if l_ch l \<noteq> LF then goto_error HPE_LF_EXPECTED l else Break (UPDATE_STATE s_header_value_lws l))"

text \<open>The flag that a finished header sets.\<close>

definition finish_header :: "'u http_parser \<Rightarrow> 'u http_parser" where
  "finish_header pr =
     (case header_state pr of
        h_connection_keep_alive \<Rightarrow> pr\<lparr>flags := insert F_CONNECTION_KEEP_ALIVE (flags pr)\<rparr>
      | h_connection_close \<Rightarrow> pr\<lparr>flags := insert F_CONNECTION_CLOSE (flags pr)\<rparr>
      | h_transfer_encoding_chunked \<Rightarrow> pr\<lparr>flags := insert F_CHUNKED (flags pr)\<rparr>
      | h_connection_upgrade \<Rightarrow> pr\<lparr>flags := insert F_CONNECTION_UPGRADE (flags pr)\<rparr>
      | _ \<Rightarrow> pr)"

definition st_header_value_lws :: "'u exec_env \<Rightarrow> 'u exec_locals \<Rightarrow> 'u outcome" where
  "st_header_value_lws E l =
     (if l_ch l = oct CHR '' '' \<or> l_ch l = 9
      then Reexecute (UPDATE_STATE s_header_value_start
             (upd_parser (\<lambda>pr. if header_state pr = h_content_length_num then pr\<lparr>header_state := h_content_length_ws\<rparr> else pr) l))
      else Reexecute (UPDATE_STATE s_header_field_start (upd_parser finish_header l)))"

definition st_header_value_discard_lws :: "'u exec_env \<Rightarrow> 'u exec_locals \<Rightarrow> 'u outcome" where
  "st_header_value_discard_lws E l =
     (if l_ch l = oct CHR '' '' \<or> l_ch l = 9 then Break (UPDATE_STATE s_header_value_discard_ws l)
      else if header_state (parser l) = h_content_length then goto_error HPE_INVALID_CONTENT_LENGTH l
      else CALLBACK_DATA_NOADVANCE E header_value
             (UPDATE_STATE s_header_field_start (MARK header_value (upd_parser finish_header l))) Reexecute)"

section \<open>The end of the headers\<close>

definition set_upgrade :: "'u http_parser \<Rightarrow> 'u http_parser" where
  "set_upgrade pr =
     pr\<lparr>upgrade := (if F_UPGRADE \<in> flags pr \<and> F_CONNECTION_UPGRADE \<in> flags pr
                    then ptype pr = HTTP_REQUEST \<or> status_code pr = 101
                    else p_method pr = HTTP_CONNECT)\<rparr>"

text \<open>The call of \<^verbatim>\<open>on_headers_complete\<close>, whose results 1 and 2 have a meaning of their own.\<close>

definition headers_complete_call :: "'u exec_env \<Rightarrow> 'u exec_locals \<Rightarrow> 'u outcome" where
  "headers_complete_call E l =
     (let finally = (\<lambda>l. if http_errno (parser l) \<noteq> HPE_OK then RETURN (l_p l) l else Reexecute l)
      in case on_notify (settings E) headers_complete of
           None \<Rightarrow> finally l
         | Some f \<Rightarrow>
             let (r, pr) = f (parser l); l1 = l\<lparr>parser := pr\<rparr>;
                 skip = (\<lambda>pr. pr\<lparr>flags := insert F_SKIPBODY (flags pr)\<rparr>)
             in if r = 0 then finally l1
                else if r = 2 then finally (upd_parser (\<lambda>pr. skip (pr\<lparr>upgrade := True\<rparr>)) l1)
                else if r = 1 then finally (upd_parser skip l1)
                else let l2 = SET_ERRNO (HPE_CB_notify headers_complete) l1 in RETURN (l_p l2) l2)"

definition st_headers_almost_done :: "'u exec_env \<Rightarrow> 'u exec_locals \<Rightarrow> 'u outcome" where
  "st_headers_almost_done E l =
     STRICT_CHECK (l_ch l \<noteq> LF) l (\<lambda>l.
       if F_TRAILING \<in> flags (parser l)
       then CALLBACK_NOTIFY_NOADVANCE E chunk_complete (UPDATE_STATE s_message_done l) Reexecute
       else if uses_transfer_encoding (parser l) \<and> F_CONTENTLENGTH \<in> flags (parser l) \<and>
               (if F_CHUNKED \<in> flags (parser l) then \<not> allow_chunked E else \<not> lenient E)
       then goto_error HPE_UNEXPECTED_CONTENT_LENGTH l
       else headers_complete_call E (upd_parser set_upgrade (UPDATE_STATE s_headers_done l)))"

definition zero_nread :: "'u exec_locals \<Rightarrow> 'u exec_locals" where
  "zero_nread l = (upd_parser (\<lambda>pr. pr\<lparr>nread := 0\<rparr>) l)\<lparr>l_nread := 0\<rparr>"

definition new_message :: "'u exec_locals \<Rightarrow> 'u exec_locals" where
  "new_message l = UPDATE_STATE (NEW_MESSAGE (parser l)) l"

definition hasBody :: "'u http_parser \<Rightarrow> bool" where
  "hasBody pr \<longleftrightarrow> F_CHUNKED \<in> flags pr \<or> (content_length pr > 0 \<and> content_length pr \<noteq> ULLONG_MAX)"

definition st_headers_done :: "'u exec_env \<Rightarrow> 'u exec_locals \<Rightarrow> 'u outcome" where
  "st_headers_done E l =
     STRICT_CHECK (l_ch l \<noteq> LF) l (\<lambda>l.
       let l1 = zero_nread l; pr = parser l1;
           complete = CALLBACK_NOTIFY E message_complete (new_message l1)
       in if upgrade pr \<and> (p_method pr = HTTP_CONNECT \<or> F_SKIPBODY \<in> flags pr \<or> \<not> hasBody pr)
          then complete (\<lambda>l. RETURN (l_p l + 1) l)
          else if F_SKIPBODY \<in> flags pr then complete Break
          else if F_CHUNKED \<in> flags pr then Break (UPDATE_STATE s_chunk_size_start l1)
          else if uses_transfer_encoding pr
          then if ptype pr = HTTP_REQUEST \<and> \<not> lenient E
               then let l2 = SET_ERRNO HPE_INVALID_TRANSFER_ENCODING l1 in RETURN (l_p l2) l2
               else Break (UPDATE_STATE s_body_identity_eof l1)
          else if content_length pr = 0 then complete Break
          else if content_length pr \<noteq> ULLONG_MAX then Break (UPDATE_STATE s_body_identity l1)
          else if \<not> http_message_needs_eof pr then complete Break
          else Break (UPDATE_STATE s_body_identity_eof l1))"

section \<open>Bodies\<close>

text \<open>\<^verbatim>\<open>MARK(body); parser->content_length -= to_read; p += to_read - 1;\<close>\<close>

definition read_body :: "'u exec_env \<Rightarrow> 'u exec_locals \<Rightarrow> 'u exec_locals" where
  "read_body E l =
     (let to_read = min (unat (content_length (parser l))) (length (buf E) - l_p l);
          l1 = upd_parser (\<lambda>pr. pr\<lparr>content_length := content_length pr - of_nat to_read\<rparr>) (MARK body l)
      in l1\<lparr>l_p := l_p l1 + to_read - 1\<rparr>)"

definition st_body_identity :: "'u exec_env \<Rightarrow> 'u exec_locals \<Rightarrow> 'u outcome" where
  "st_body_identity E l =
     assertion (content_length (parser l) \<noteq> 0 \<and> content_length (parser l) \<noteq> ULLONG_MAX)
      (let l1 = read_body E l
       in if content_length (parser l1) = 0
          then CALLBACK_DATA_at E body (l_p l1 + 1) (l_p l1) (UPDATE_STATE s_message_done l1) Reexecute
          else Break l1)"

definition st_body_identity_eof :: "'u exec_env \<Rightarrow> 'u exec_locals \<Rightarrow> 'u outcome" where
  "st_body_identity_eof E l = Break ((MARK body l)\<lparr>l_p := length (buf E) - 1\<rparr>)"

definition st_message_done :: "'u exec_env \<Rightarrow> 'u exec_locals \<Rightarrow> 'u outcome" where
  "st_message_done E l =
     CALLBACK_NOTIFY E message_complete (new_message l) (\<lambda>l. if upgrade (parser l) then RETURN (l_p l + 1) l else Break l)"

definition is_chunked :: "'u exec_locals \<Rightarrow> bool" where
  "is_chunked l \<longleftrightarrow> F_CHUNKED \<in> flags (parser l)"

definition st_chunk_size_start :: "'u exec_env \<Rightarrow> 'u exec_locals \<Rightarrow> 'u outcome" where
  "st_chunk_size_start E l =
     assertion (l_nread l = 1 \<and> is_chunked l)
      (let unhex_val = unhex ! unat (l_ch l)
       in if unhex_val = - 1 then goto_error HPE_INVALID_CHUNK_SIZE l
          else Break (UPDATE_STATE s_chunk_size (upd_parser (\<lambda>pr. pr\<lparr>content_length := of_int unhex_val\<rparr>) l)))"

definition st_chunk_size :: "'u exec_env \<Rightarrow> 'u exec_locals \<Rightarrow> 'u outcome" where
  "st_chunk_size E l =
     assertion (is_chunked l)
      (if l_ch l = CR then Break (UPDATE_STATE s_chunk_size_almost_done l)
       else let unhex_val = unhex ! unat (l_ch l)
            in if unhex_val = - 1
               then if l_ch l = oct CHR '';'' \<or> l_ch l = oct CHR '' '' then Break (UPDATE_STATE s_chunk_parameters l)
                    else goto_error HPE_INVALID_CHUNK_SIZE l
               else if (ULLONG_MAX - 16) div 16 < content_length (parser l) then goto_error HPE_INVALID_CONTENT_LENGTH l
               else Break (upd_parser (\<lambda>pr. pr\<lparr>content_length := content_length pr * 16 + of_int unhex_val\<rparr>) l))"

definition st_chunk_parameters :: "'u exec_env \<Rightarrow> 'u exec_locals \<Rightarrow> 'u outcome" where
  "st_chunk_parameters E l =
     assertion (is_chunked l)
      (if l_ch l = CR then Break (UPDATE_STATE s_chunk_size_almost_done l) else Break l)"

definition st_chunk_size_almost_done :: "'u exec_env \<Rightarrow> 'u exec_locals \<Rightarrow> 'u outcome" where
  "st_chunk_size_almost_done E l =
     assertion (is_chunked l)
      (STRICT_CHECK (l_ch l \<noteq> LF) l (\<lambda>l.
         let l1 = zero_nread l;
             l2 = (if content_length (parser l1) = 0
                   then UPDATE_STATE s_header_field_start (upd_parser (\<lambda>pr. pr\<lparr>flags := insert F_TRAILING (flags pr)\<rparr>) l1)
                   else UPDATE_STATE s_chunk_data l1)
         in CALLBACK_NOTIFY E chunk_header l2 Break))"

definition st_chunk_data :: "'u exec_env \<Rightarrow> 'u exec_locals \<Rightarrow> 'u outcome" where
  "st_chunk_data E l =
     assertion (is_chunked l \<and> content_length (parser l) \<noteq> 0 \<and> content_length (parser l) \<noteq> ULLONG_MAX)
      (let l1 = read_body E l
       in Break (if content_length (parser l1) = 0 then UPDATE_STATE s_chunk_data_almost_done l1 else l1))"

definition st_chunk_data_almost_done :: "'u exec_env \<Rightarrow> 'u exec_locals \<Rightarrow> 'u outcome" where
  "st_chunk_data_almost_done E l =
     assertion (is_chunked l \<and> content_length (parser l) = 0)
      (STRICT_CHECK (l_ch l \<noteq> CR) l (\<lambda>l. CALLBACK_DATA E body (UPDATE_STATE s_chunk_data_done l) Break))"

definition st_chunk_data_done :: "'u exec_env \<Rightarrow> 'u exec_locals \<Rightarrow> 'u outcome" where
  "st_chunk_data_done E l =
     assertion (is_chunked l)
      (STRICT_CHECK (l_ch l \<noteq> LF) l (\<lambda>l.
         CALLBACK_NOTIFY E chunk_complete (UPDATE_STATE s_chunk_size_start (zero_nread l)) Break))"

section \<open>The loop\<close>

definition switch :: "'u exec_env \<Rightarrow> 'u exec_locals \<Rightarrow> 'u outcome" where
  "switch E l =
     (case p_state l of
        s_dead \<Rightarrow> st_dead E l
      | s_start_req_or_res \<Rightarrow> st_start_req_or_res E l
      | s_res_or_resp_H \<Rightarrow> st_res_or_resp_H E l
      | s_start_res \<Rightarrow> st_start_res E l
      | s_res_H \<Rightarrow> st_expect (oct CHR ''T'') s_res_HT l
      | s_res_HT \<Rightarrow> st_expect (oct CHR ''T'') s_res_HTT l
      | s_res_HTT \<Rightarrow> st_expect (oct CHR ''P'') s_res_HTTP l
      | s_res_HTTP \<Rightarrow> st_expect (oct CHR ''/'') s_res_http_major l
      | s_res_http_major \<Rightarrow> st_http_major s_res_http_dot l
      | s_res_http_dot \<Rightarrow> st_http_dot s_res_http_minor l
      | s_res_http_minor \<Rightarrow> st_http_minor s_res_http_end l
      | s_res_http_end \<Rightarrow> st_res_http_end E l
      | s_res_first_status_code \<Rightarrow> st_res_first_status_code E l
      | s_res_status_code \<Rightarrow> st_res_status_code E l
      | s_res_status_start \<Rightarrow> st_res_status_start E l
      | s_res_status \<Rightarrow> st_res_status E l
      | s_res_line_almost_done \<Rightarrow> st_expect LF s_header_field_start l
      | s_start_req \<Rightarrow> st_start_req E l
      | s_req_method \<Rightarrow> st_req_method E l
      | s_req_spaces_before_url \<Rightarrow> st_req_spaces_before_url E l
      | s_req_schema \<Rightarrow> st_req_schema E l
      | s_req_schema_slash \<Rightarrow> st_req_schema E l
      | s_req_schema_slash_slash \<Rightarrow> st_req_schema E l
      | s_req_server_start \<Rightarrow> st_req_schema E l
      | s_req_server \<Rightarrow> st_req_url E l
      | s_req_server_with_at \<Rightarrow> st_req_url E l
      | s_req_path \<Rightarrow> st_req_url E l
      | s_req_query_string_start \<Rightarrow> st_req_url E l
      | s_req_query_string \<Rightarrow> st_req_url E l
      | s_req_fragment_start \<Rightarrow> st_req_url E l
      | s_req_fragment \<Rightarrow> st_req_url E l
      | s_req_http_start \<Rightarrow> st_req_http_start E l
      | s_req_http_H \<Rightarrow> st_expect (oct CHR ''T'') s_req_http_HT l
      | s_req_http_HT \<Rightarrow> st_expect (oct CHR ''T'') s_req_http_HTT l
      | s_req_http_HTT \<Rightarrow> st_expect (oct CHR ''P'') s_req_http_HTTP l
      | s_req_http_I \<Rightarrow> st_expect (oct CHR ''C'') s_req_http_IC l
      | s_req_http_IC \<Rightarrow> st_expect (oct CHR ''E'') s_req_http_HTTP l
      | s_req_http_HTTP \<Rightarrow> st_expect (oct CHR ''/'') s_req_http_major l
      | s_req_http_major \<Rightarrow> st_http_major s_req_http_dot l
      | s_req_http_dot \<Rightarrow> st_http_dot s_req_http_minor l
      | s_req_http_minor \<Rightarrow> st_http_minor s_req_http_end l
      | s_req_http_end \<Rightarrow> st_req_http_end E l
      | s_req_line_almost_done \<Rightarrow> st_req_line_almost_done E l
      | s_header_field_start \<Rightarrow> st_header_field_start E l
      | s_header_field \<Rightarrow> st_header_field E l
      | s_header_value_discard_ws \<Rightarrow> st_header_value_discard_ws E l
      | s_header_value_start \<Rightarrow> st_header_value_start E l
      | s_header_value \<Rightarrow> st_header_value E l
      | s_header_almost_done \<Rightarrow> st_header_almost_done E l
      | s_header_value_lws \<Rightarrow> st_header_value_lws E l
      | s_header_value_discard_ws_almost_done \<Rightarrow> st_expect LF s_header_value_discard_lws l
      | s_header_value_discard_lws \<Rightarrow> st_header_value_discard_lws E l
      | s_headers_almost_done \<Rightarrow> st_headers_almost_done E l
      | s_headers_done \<Rightarrow> st_headers_done E l
      | s_body_identity \<Rightarrow> st_body_identity E l
      | s_body_identity_eof \<Rightarrow> st_body_identity_eof E l
      | s_message_done \<Rightarrow> st_message_done E l
      | s_chunk_size_start \<Rightarrow> st_chunk_size_start E l
      | s_chunk_size \<Rightarrow> st_chunk_size E l
      | s_chunk_parameters \<Rightarrow> st_chunk_parameters E l
      | s_chunk_size_almost_done \<Rightarrow> st_chunk_size_almost_done E l
      | s_chunk_data \<Rightarrow> st_chunk_data E l
      | s_chunk_data_almost_done \<Rightarrow> st_chunk_data_almost_done E l
      | s_chunk_data_done \<Rightarrow> st_chunk_data_done E l)"

end
