(* ===== verification/Http_Execute.thy ===== *)
theory Http_Execute
  imports Http_Parser
begin

text \<open>
  \<^verbatim>\<open>http_parser_execute\<close>: the label \<^verbatim>\<open>reexecute\<close>, the loop over the characters, which ends because
  no case of the switch moves the pointer back or past the end, the flush of the marks
  at the end, the label \<^verbatim>\<open>error\<close>, and the small functions of \<^verbatim>\<open>http_parser.c\<close> beside it.
\<close>

section \<open>The pointer moves forward\<close>

text \<open>
  Where a case of the switch may leave the pointer: not before where it was, and inside
  the data. A value returned is at most the length of the data.
\<close>

definition moves :: "'u exec_env \<Rightarrow> nat \<Rightarrow> 'u outcome \<Rightarrow> bool" where
  "moves E n r =
     (case r of
        Break l \<Rightarrow> n \<le> l_p l \<and> l_p l < length (buf E)
      | Reexecute l \<Rightarrow> n \<le> l_p l \<and> l_p l < length (buf E)
      | Error l \<Rightarrow> n \<le> l_p l \<and> l_p l < length (buf E)
      | Return v pr \<Rightarrow> v \<le> length (buf E)
      | _ \<Rightarrow> True)"

named_theorems moves_intros

lemma moves_simps [simp]:
  "moves E n (Break l) = (n \<le> l_p l \<and> l_p l < length (buf E))"
  "moves E n (Reexecute l) = (n \<le> l_p l \<and> l_p l < length (buf E))"
  "moves E n (Error l) = (n \<le> l_p l \<and> l_p l < length (buf E))"
  "moves E n (Return v pr) = (v \<le> length (buf E))"
  "moves E n (goto_error e l) = (n \<le> l_p l \<and> l_p l < length (buf E))"
  "moves E n (RETURN v l) = (v \<le> length (buf E))"
  "moves E n Assertion_failed" "moves E n Out_of_bounds" "moves E n Endless"
  by (simp_all add: moves_def goto_error_def SET_ERRNO_def upd_parser_def RETURN_def)

lemma p_simps [simp]:
  "l_p (upd_parser f l) = l_p l" "l_p (UPDATE_STATE s l) = l_p l" "l_p (SET_ERRNO e l) = l_p l" "l_p (MARK k l) = l_p l"
  "l_p (zero_nread l) = l_p l" "l_p (new_message l) = l_p l" "l_p (fresh_message l) = l_p l"
  by (simp_all add: upd_parser_def UPDATE_STATE_def SET_ERRNO_def MARK_def zero_nread_def new_message_def fresh_message_def)

lemma moves_count [moves_intros]:
  "n \<le> l_p l \<Longrightarrow> l_p l < length (buf E) \<Longrightarrow> (\<And>l'. l_p l' = l_p l \<Longrightarrow> moves E n (rest l')) \<Longrightarrow> moves E n (COUNT_HEADER_SIZE E v l rest)"
  by (simp add: COUNT_HEADER_SIZE_def Let_def)

lemma moves_strict [moves_intros]:
  "n \<le> l_p l \<Longrightarrow> l_p l < length (buf E) \<Longrightarrow> moves E n (rest l) \<Longrightarrow> moves E n (STRICT_CHECK c l rest)"
  by (simp add: STRICT_CHECK_def)

lemma moves_assertion [moves_intros]: "moves E n r \<Longrightarrow> moves E n (assertion c r)"
  by (simp add: assertion_def)

lemma moves_callback:
  "ER \<le> length (buf E) \<Longrightarrow> (\<And>l'. l_p l' = l_p l \<Longrightarrow> moves E n (rest l')) \<Longrightarrow> moves E n (run_callback f e ER l rest)"
  by (auto simp: run_callback_def Let_def split: prod.split)

lemma moves_notify [moves_intros]:
  assumes "l_p l < length (buf E)" "\<And>l'. l_p l' = l_p l \<Longrightarrow> moves E n (rest l')"
  shows "moves E n (CALLBACK_NOTIFY E k l rest)" "moves E n (CALLBACK_NOTIFY_NOADVANCE E k l rest)"
  using assms
  by (auto simp: CALLBACK_NOTIFY_def CALLBACK_NOTIFY_NOADVANCE_def CALLBACK_NOTIFY_at_def
      intro!: moves_assertion moves_callback split: option.split)

lemma moves_data_at:
  assumes "ER \<le> length (buf E)" "\<And>l'. l_p l' = l_p l \<Longrightarrow> moves E n (rest l')"
  shows "moves E n (CALLBACK_DATA_at E k e ER l rest)"
  using assms by (auto simp: CALLBACK_DATA_at_def Let_def intro!: moves_assertion moves_callback split: option.split)

lemma moves_data [moves_intros]:
  assumes "l_p l < length (buf E)" "\<And>l'. l_p l' = l_p l \<Longrightarrow> moves E n (rest l')"
  shows "moves E n (CALLBACK_DATA E k l rest)" "moves E n (CALLBACK_DATA_NOADVANCE E k l rest)"
  using assms by (auto simp: CALLBACK_DATA_def CALLBACK_DATA_NOADVANCE_def intro!: moves_data_at)

text \<open>The loops over a name and over a value.\<close>

lemma field_switch_moves: "l_p l < length (buf E) \<Longrightarrow> moves E (l_p l) (field_switch E c l)"
  by (auto simp: field_switch_def skip_tokens_le skip_tokens_less window_end_le split: header_states.split)

lemma moves_mono: "moves E n r \<Longrightarrow> m \<le> n \<Longrightarrow> moves E m r"
  by (cases r) auto

lemma field_loop_moves:
  "l_p l \<le> length (buf E) \<Longrightarrow>
   (case field_loop E l of Break l' \<Rightarrow> l_p l \<le> l_p l' \<and> l_p l' \<le> length (buf E) | r \<Rightarrow> moves E (l_p l) r)"
proof (induction E l rule: field_loop.induct)
  case (1 E l)
  show ?case
  proof (cases "l_p l < length (buf E) \<and> TOKEN (buf E ! l_p l) \<noteq> 0")
    case True
    let ?l1 = "l\<lparr>l_ch := buf E ! l_p l\<rparr>" and ?c = "TOKEN (buf E ! l_p l)"
    have mv: "moves E (l_p l) (field_switch E ?c ?l1)" using field_switch_moves [of ?l1 E] True by simp
    show ?thesis
    proof (cases "field_switch E ?c ?l1")
      case (Break l2)
      then show ?thesis
        using 1(1) [of ?l1 ?c l2] True mv
        by (subst field_loop.simps) (auto simp: Let_def split: outcome.splits elim: moves_mono)
    qed (use mv True in \<open>subst field_loop.simps, simp add: Let_def\<close>)+
  next
    case False
    then show ?thesis using 1(2) by (subst field_loop.simps) (auto simp: Let_def)
  qed
qed

lemma st_header_field_moves:
  assumes "l_p l < length (buf E)"
  shows "moves E (l_p l) (st_header_field E l)"
proof (cases "field_loop E l")
  case (Break l1)
  then show ?thesis
    using field_loop_moves [of l E] assms
    by (auto simp: st_header_field_def after_def intro!: moves_intros)
qed (use field_loop_moves [of l E] assms in \<open>simp_all add: st_header_field_def after_def\<close>)

lemma value_general_moves:
  "\<lbrakk>pe \<le> length (buf E); n \<le> l_p l; l_p l \<le> pe\<rbrakk> \<Longrightarrow>
   (case value_general E pe l of Break l' \<Rightarrow> True | r \<Rightarrow> moves E n r)"
proof (induction E pe l rule: value_general.induct)
  case (1 E pe l)
  show ?case
    using 1 by (subst value_general.simps) (auto simp: Let_def goto_error_def)
qed

lemma value_switch_moves:
  assumes "l_p l < length (buf E)" "value_switch E h l = Inr r"
  shows "moves E (l_p l) r"
proof (cases "h = h_general")
  case True
  then have vg: "value_general E (window_end E (l_p l)) l = r \<and> (\<forall>l'. r \<noteq> Break l')"
    using assms by (cases "value_general E (window_end E (l_p l)) l") (auto simp: value_switch_def)
  show ?thesis
    using value_general_moves [of "window_end E (l_p l)" E "l_p l" l] window_end_le [of "l_p l" E] assms(1) vg by (cases r) auto
next
  case False
  then show ?thesis
    using assms
    by (cases h) (auto simp: value_switch_def length_digit_def match_value_def Let_def split: if_splits)
qed

lemma value_done_moves: "n \<le> l_p l \<Longrightarrow> n < length (buf E) \<Longrightarrow> l_p l \<le> length (buf E) \<Longrightarrow> moves E n (value_done E start h l)"
  by (auto simp: value_done_def Let_def intro!: moves_count)

lemma value_loop_moves:
  "\<lbrakk>n \<le> l_p l; n < length (buf E); l_p l \<le> length (buf E)\<rbrakk> \<Longrightarrow> moves E n (value_loop E start h l)"
proof (induction "length (buf E) - l_p l" arbitrary: h l rule: less_induct)
  case less
  let ?l1 = "l\<lparr>l_ch := buf E ! l_p l\<rparr>" and ?ch = "buf E ! l_p l"
  consider "\<not> l_p l < length (buf E)" | "l_p l < length (buf E)" "?ch = CR" | "l_p l < length (buf E)" "?ch = LF"
    | "l_p l < length (buf E)" "?ch \<noteq> CR" "?ch \<noteq> LF" by blast
  then show ?case
  proof cases
    case 1
    then show ?thesis using less.prems by (subst value_loop.simps) (simp add: value_done_moves)
  next
    case 2
    then show ?thesis using less.prems by (subst value_loop.simps) (simp add: Let_def moves_data value_done_moves)
  next
    case 3
    then show ?thesis using less.prems by (subst value_loop.simps) (simp add: Let_def moves_data moves_count)
  next
    case 4
    show ?thesis
    proof (cases "value_switch E h ?l1")
      case (Inl a)
      obtain h' l2 where a: "a = (h', l2)" by fastforce
      have "l_p l \<le> l_p l2 \<and> l_p l2 < length (buf E)"
        using value_switch_p [of E h ?l1 h' l2] 4 Inl a by simp
      then have "moves E n (value_loop E start h' (l2\<lparr>l_p := l_p l2 + 1\<rparr>))"
        using less.hyps [of "l2\<lparr>l_p := l_p l2 + 1\<rparr>" h'] less.prems 4(1) by (auto intro: diff_less_mono2)
      then show ?thesis using less.prems 4 Inl a by (subst value_loop.simps) (simp add: Let_def)
    next
      case (Inr r)
      then have "moves E n r" using value_switch_moves [of ?l1 E h r] 4 less.prems moves_mono [of E "l_p l" r n] by simp
      then show ?thesis using less.prems 4 Inr by (subst value_loop.simps) (simp add: Let_def)
    qed
  qed
qed

lemma st_header_value_moves: "l_p l < length (buf E) \<Longrightarrow> moves E (l_p l) (st_header_value E l)"
  by (simp add: st_header_value_def value_loop_moves)

lemma read_body_p:
  "\<lbrakk>content_length (parser l) \<noteq> 0; l_p l < length (buf E)\<rbrakk> \<Longrightarrow>
   l_p l \<le> l_p (read_body E l) \<and> l_p (read_body E l) < length (buf E)"
  using unat_gt_0 [of "content_length (parser l)"] by (auto simp: read_body_def Let_def min_def)

lemmas case_defs =
  st_dead_def st_start_req_or_res_def st_res_or_resp_H_def st_start_res_def st_expect_def st_http_major_def st_http_dot_def
  st_http_minor_def st_res_http_end_def st_res_first_status_code_def st_res_status_code_def st_res_status_start_def
  st_res_status_def st_start_req_def st_req_method_def st_req_spaces_before_url_def st_req_schema_def st_req_url_def
  st_req_http_start_def st_req_http_end_def st_req_line_almost_done_def st_header_field_start_def st_header_value_start_def
  st_header_value_discard_ws_def st_header_almost_done_def st_header_value_lws_def st_header_value_discard_lws_def
  st_message_done_def st_chunk_size_start_def st_chunk_size_def st_chunk_parameters_def st_chunk_size_almost_done_def
  st_chunk_data_almost_done_def st_chunk_data_done_def url_char_step_def

lemma st_header_value_start_moves: "l_p l < length (buf E) \<Longrightarrow> moves E (l_p l) (st_header_value_start E l)"
  by (cases "header_state (parser l)")
    (simp_all add: st_header_value_start_def Let_def upd_parser_def UPDATE_STATE_def MARK_def goto_error_def SET_ERRNO_def)

lemma headers_complete_moves: "l_p l < length (buf E) \<Longrightarrow> moves E (l_p l) (headers_complete_call E l)"
  by (auto simp: headers_complete_call_def Let_def split: option.split prod.split)

lemma switch_moves:
  assumes "l_p l < length (buf E)"
  shows "moves E (l_p l) (switch E l)"
proof (cases "p_state l \<in> {s_header_field, s_header_value, s_header_value_start, s_header_value_discard_ws, s_headers_almost_done,
    s_headers_done, s_body_identity, s_body_identity_eof, s_chunk_data}")
  case True
  then show ?thesis
    using assms st_header_value_start_moves [of l E] read_body_p [of l E]
    by (auto simp: switch_def st_header_field_moves st_header_value_moves st_header_value_discard_ws_def st_headers_almost_done_def
        st_headers_done_def st_body_identity_def st_body_identity_eof_def st_chunk_data_def assertion_def Let_def
        intro!: moves_strict moves_notify headers_complete_moves [THEN moves_mono] moves_data_at)
next
  case False
  then show ?thesis
    using assms
    by (cases "p_state l") (auto simp: switch_def case_defs Let_def intro!: moves_intros split: option.split)
qed

text \<open>
  \<^verbatim>\<open>goto reexecute\<close>. A callback may change \<^verbatim>\<open>parser->state\<close>, so that nothing bounds the number of
  jumps in general; the argument bounds it here, and \<open>Endless\<close> is the result of a longer chain.
\<close>

fun reexecute :: "nat \<Rightarrow> 'u exec_env \<Rightarrow> 'u exec_locals \<Rightarrow> 'u outcome" where
  "reexecute 0 E l = Endless"
| "reexecute (Suc n) E l = (case switch E l of Reexecute l1 \<Rightarrow> reexecute n E l1 | r \<Rightarrow> r)"

definition REEXECUTE_MAX :: nat where "REEXECUTE_MAX = 5"

lemma reexecute_moves: "l_p l < length (buf E) \<Longrightarrow> moves E (l_p l) (reexecute n E l)"
proof (induction n arbitrary: l)
  case (Suc n)
  then show ?case using switch_moves [of l E] by (auto split: outcome.split intro: Suc.IH [THEN moves_mono])
qed simp

definition byte_step :: "'u exec_env \<Rightarrow> 'u exec_locals \<Rightarrow> 'u outcome" where
  "byte_step E l =
     (let l1 = l\<lparr>l_ch := buf E ! l_p l\<rparr>
      in if PARSING_HEADER (p_state l1) then COUNT_HEADER_SIZE E 1 l1 (reexecute REEXECUTE_MAX E)
         else reexecute REEXECUTE_MAX E l1)"

lemma byte_step_moves:
  assumes "l_p l < length (buf E)"
  shows "moves E (l_p l) (byte_step E l)"
proof -
  have "moves E (l_p l) (reexecute REEXECUTE_MAX E l')" if "l_p l' = l_p l" for l'
    using reexecute_moves [of l' E] assms that by simp
  then show ?thesis using assms by (auto simp: byte_step_def Let_def intro!: moves_count)
qed

text \<open>After the last character the callbacks for the marks that are still set; the label \<^verbatim>\<open>error\<close>.\<close>

definition end_of_data :: "'u exec_env \<Rightarrow> 'u exec_locals \<Rightarrow> 'u outcome" where
  "end_of_data E l =
     assertion (length (filter (\<lambda>k. marks l k \<noteq> None) [header_field, header_value, url, body, status]) \<le> 1)
      (CALLBACK_DATA_NOADVANCE E header_field l (\<lambda>l.
       CALLBACK_DATA_NOADVANCE E header_value l (\<lambda>l.
       CALLBACK_DATA_NOADVANCE E url l (\<lambda>l.
       CALLBACK_DATA_NOADVANCE E body l (\<lambda>l.
       CALLBACK_DATA_NOADVANCE E status l (RETURN (length (buf E))))))))"

definition at_error :: "'u exec_locals \<Rightarrow> 'u outcome" where
  "at_error l = RETURN (l_p l) (if http_errno (parser l) = HPE_OK then SET_ERRNO HPE_UNKNOWN l else l)"

function exec_loop :: "'u exec_env \<Rightarrow> 'u exec_locals \<Rightarrow> 'u outcome" where
  "exec_loop E l =
     (if l_p l \<ge> length (buf E) then end_of_data E l
      else case byte_step E l of
             Break l1 \<Rightarrow> exec_loop E (l1\<lparr>l_p := l_p l1 + 1\<rparr>)
           | Error l1 \<Rightarrow> at_error l1
           | r \<Rightarrow> r)"
  by pat_completeness auto
termination
proof (relation "measure (\<lambda>(E, l). length (buf E) - l_p l)", goal_cases)
  case (2 E l l1)
  then show ?case using byte_step_moves [of l E] by auto
qed simp

declare exec_loop.simps [simp del]

definition entry_marks :: "state \<Rightarrow> data_cb \<Rightarrow> nat option" where
  "entry_marks s =
     (\<lambda>_. None)
       (header_field := if s = s_header_field then Some 0 else None,
        header_value := if s = s_header_value then Some 0 else None,
        url := if s \<in> {s_req_path, s_req_schema, s_req_schema_slash, s_req_schema_slash_slash, s_req_server_start, s_req_server,
                       s_req_server_with_at, s_req_query_string_start, s_req_query_string, s_req_fragment_start, s_req_fragment}
               then Some 0 else None,
        status := if s = s_res_status then Some 0 else None)"

definition http_parser_execute :: "'u http_parser_settings \<Rightarrow> u32 \<Rightarrow> octets \<Rightarrow> 'u http_parser \<Rightarrow> 'u outcome" where
  "http_parser_execute S max_size xs pr =
     (let E = \<lparr>settings = S, buf = xs, max_header_size = max_size, lenient = lenient_http_headers pr,
               allow_chunked = allow_chunked_length pr\<rparr>;
          l = \<lparr>parser = pr, l_p = 0, l_ch = 0, marks = entry_marks (state pr), p_state = state pr, l_nread = nread pr\<rparr>
      in if http_errno pr \<noteq> HPE_OK then Return 0 pr
         else if xs = []
         then (if p_state l = s_body_identity_eof
               then CALLBACK_NOTIFY_NOADVANCE E message_complete (l\<lparr>marks := \<lambda>_. None\<rparr>) (\<lambda>l. Return 0 (parser l))
               else if p_state l \<in> {s_dead, s_start_req_or_res, s_start_res, s_start_req} then Return 0 pr
               else Return 1 (parser (SET_ERRNO HPE_INVALID_EOF_STATE l)))
         else exec_loop E l)"

section \<open>The other operations\<close>

definition http_parser_init :: "http_parser_type \<Rightarrow> 'u \<Rightarrow> 'u http_parser" where
  "http_parser_init t d =
     \<lparr>ptype = t, flags = {}, state = (if t = HTTP_REQUEST then s_start_req else if t = HTTP_RESPONSE then s_start_res else s_start_req_or_res),
      header_state = h_general, index = 0, uses_transfer_encoding = False, allow_chunked_length = False,
      lenient_http_headers = False, nread = 0, content_length = 0, http_major = 0, http_minor = 0, status_code = 0,
      p_method = HTTP_DELETE, http_errno = HPE_OK, upgrade = False, data = d\<rparr>"

definition http_parser_pause :: "bool \<Rightarrow> 'u http_parser \<Rightarrow> 'u http_parser option" where
  "http_parser_pause paused pr =
     (if http_errno pr = HPE_OK \<or> http_errno pr = HPE_PAUSED
      then Some (pr\<lparr>http_errno := if paused then HPE_PAUSED else HPE_OK\<rparr>) else None)"

definition http_body_is_final :: "'u http_parser \<Rightarrow> bool" where
  "http_body_is_final pr \<longleftrightarrow> state pr = s_message_done"

definition HTTP_MAX_HEADER_SIZE :: u32 where "HTTP_MAX_HEADER_SIZE = 80 * 1024"

end
