(* ===== verification/Http_Safety.thy ===== *)
theory Http_Safety
  imports Http_Execute
begin

text \<open>
  The parser of HTTP messages with callbacks that return 0 and change nothing but the user's
  object, as those of \<^verbatim>\<open>http_context.cpp\<close> do. The invariant of the structure between two calls
  and of the locals between two characters shows that no assertion fails, no array is
  read outside its bounds, and the jumps to \<^verbatim>\<open>reexecute\<close> end.
\<close>

section \<open>Callbacks that never fail\<close>

datatype event = Notify notify_cb | Data data_cb octets

definition pure_settings :: "(event \<Rightarrow> 'u \<Rightarrow> 'u) \<Rightarrow> 'u http_parser_settings" where
  "pure_settings f =
     \<lparr>on_notify = (\<lambda>k. Some (\<lambda>pr. (0, pr\<lparr>data := f (Notify k) (data pr)\<rparr>))),
      on_data = (\<lambda>k. Some (\<lambda>xs pr. (0, pr\<lparr>data := f (Data k xs) (data pr)\<rparr>)))\<rparr>"

lemma run_callback_pure:
  "http_errno (parser l) = HPE_OK \<Longrightarrow>
   run_callback (\<lambda>pr. (0, pr\<lparr>data := g (data pr)\<rparr>)) e ER l rest
     = rest (l\<lparr>parser := (parser l)\<lparr>state := p_state l, data := g (data (parser l))\<rparr>\<rparr>)"
  by (simp add: run_callback_def UPDATE_STATE_def Let_def)

definition notified :: "(event \<Rightarrow> 'u \<Rightarrow> 'u) \<Rightarrow> notify_cb \<Rightarrow> 'u exec_locals \<Rightarrow> 'u exec_locals" where
  "notified f k l = l\<lparr>parser := (parser l)\<lparr>state := p_state l, data := f (Notify k) (data (parser l))\<rparr>\<rparr>"

definition delivered :: "(event \<Rightarrow> 'u \<Rightarrow> 'u) \<Rightarrow> 'u exec_env \<Rightarrow> data_cb \<Rightarrow> nat \<Rightarrow> 'u exec_locals \<Rightarrow> 'u exec_locals" where
  "delivered f E k e l =
     (case marks l k of
        None \<Rightarrow> l
      | Some m \<Rightarrow>
          l\<lparr>parser := (parser l)\<lparr>state := p_state l, data := f (Data k (sub_octets (buf E) m (e - m))) (data (parser l))\<rparr>,
            marks := (marks l)(k := None)\<rparr>)"

lemma callbacks_pure:
  assumes "settings E = pure_settings f" "http_errno (parser l) = HPE_OK"
  shows "CALLBACK_NOTIFY E k l rest = rest (notified f k l)"
    "CALLBACK_NOTIFY_NOADVANCE E k l rest = rest (notified f k l)"
    "CALLBACK_DATA_at E d e ER l rest = rest (delivered f E d e l)"
    "CALLBACK_DATA E d l rest = rest (delivered f E d (l_p l) l)"
    "CALLBACK_DATA_NOADVANCE E d l rest = rest (delivered f E d (l_p l) l)"
  using assms
  by (auto simp: CALLBACK_NOTIFY_def CALLBACK_NOTIFY_NOADVANCE_def CALLBACK_NOTIFY_at_def CALLBACK_DATA_def
      CALLBACK_DATA_NOADVANCE_def CALLBACK_DATA_at_def pure_settings_def run_callback_pure notified_def delivered_def
      assertion_def Let_def split: option.split)

lemma headers_complete_pure:
  "\<lbrakk>settings E = pure_settings f; http_errno (parser l) = HPE_OK\<rbrakk> \<Longrightarrow>
   headers_complete_call E l
     = Reexecute (l\<lparr>parser := (parser l)\<lparr>data := f (Notify headers_complete) (data (parser l))\<rparr>\<rparr>)"
  by (simp add: headers_complete_call_def pure_settings_def Let_def)

section \<open>The invariant\<close>

definition url_states :: "state set" where
  "url_states = {s_req_path, s_req_schema, s_req_schema_slash, s_req_schema_slash_slash, s_req_server_start, s_req_server,
     s_req_server_with_at, s_req_query_string_start, s_req_query_string, s_req_fragment_start, s_req_fragment}"

definition body_states :: "state set" where
  "body_states = {s_body_identity, s_body_identity_eof, s_chunk_data, s_chunk_data_almost_done}"

definition marks_ok :: "state \<Rightarrow> nat \<Rightarrow> (data_cb \<Rightarrow> nat option) \<Rightarrow> bool" where
  "marks_ok s n m \<longleftrightarrow>
     (m header_field = None) = (s \<noteq> s_header_field) \<and> (m header_value = None) = (s \<noteq> s_header_value) \<and>
     (m url = None) = (s \<notin> url_states) \<and> (m status = None) = (s \<noteq> s_res_status) \<and>
     (s \<notin> body_states \<longrightarrow> m body = None) \<and> (\<forall>k i. m k = Some i \<longrightarrow> i \<le> n)"

definition field_states :: "header_states set" where
  "field_states = {h_general, h_C, h_CO, h_CON, h_matching_connection, h_matching_proxy_connection, h_matching_content_length,
     h_matching_transfer_encoding, h_matching_upgrade, h_connection, h_content_length, h_transfer_encoding, h_upgrade}"

text \<open>What the structure promises in state \<open>s\<close>; \<open>c\<close> is the count of octets on entry to the size of a chunk.\<close>

definition pinv :: "u32 \<Rightarrow> u32 \<Rightarrow> state \<Rightarrow> 'u http_parser \<Rightarrow> bool" where
  "pinv c n s pr \<longleftrightarrow>
     http_errno pr = HPE_OK \<and>
     (s = s_req_method \<longrightarrow> index pr \<le> length (http_method_str (p_method pr))) \<and>
     (s = s_header_field \<longrightarrow> header_state pr \<in> field_states) \<and>
     (s = s_header_value \<longrightarrow> header_state pr \<noteq> h_connection \<and> header_state pr \<noteq> h_transfer_encoding) \<and>
     (s = s_chunk_size_start \<longrightarrow> n = c) \<and>
     (s \<in> {s_chunk_size_start, s_chunk_size, s_chunk_parameters, s_chunk_size_almost_done, s_chunk_data, s_chunk_data_almost_done,
           s_chunk_data_done} \<longrightarrow> F_CHUNKED \<in> flags pr) \<and>
     (s \<in> {s_chunk_size, s_chunk_parameters, s_chunk_size_almost_done, s_chunk_data, s_body_identity}
        \<longrightarrow> content_length pr \<noteq> ULLONG_MAX) \<and>
     (s \<in> {s_chunk_data, s_body_identity} \<longrightarrow> content_length pr \<noteq> 0) \<and>
     (s = s_chunk_data_almost_done \<longrightarrow> content_length pr = 0)"

definition linv :: "u32 \<Rightarrow> nat \<Rightarrow> 'u exec_locals \<Rightarrow> bool" where
  "linv c n l \<longleftrightarrow> marks_ok (p_state l) n (marks l) \<and> pinv c (l_nread l) (p_state l) (parser l)"

definition rank :: "state \<Rightarrow> nat" where
  "rank s =
     (if s = s_header_value_discard_lws \<or> s = s_header_value_lws then 4
      else if s = s_header_field_start \<or> s = s_res_status_code then 3
      else if s \<in> {s_headers_almost_done, s_header_value, s_res_status_start, s_start_req_or_res, s_body_identity} then 2
      else 1)"

text \<open>The two members that a call reads only at its start.\<close>

abbreviation opts :: "'u http_parser \<Rightarrow> bool \<times> bool" where
  "opts pr \<equiv> (lenient_http_headers pr, allow_chunked_length pr)"

text \<open>The parser has left a connection to another protocol: what follows is not for it.\<close>

definition start_states :: "state set" where
  "start_states = {s_start_req, s_start_res, s_start_req_or_res, s_dead}"

definition exited :: "'u http_parser \<Rightarrow> bool" where
  "exited pr \<longleftrightarrow> upgrade pr \<and> state pr \<in> start_states"

text \<open>What a case of the switch may do, with the invariant at the next character or at the label \<^verbatim>\<open>reexecute\<close>.\<close>

definition good :: "nat \<Rightarrow> 'u outcome \<Rightarrow> bool" where
  "good r out =
     (case out of
        Break l \<Rightarrow> linv 0 (l_p l + 1) l
      | Reexecute l \<Rightarrow> linv 1 (l_p l) l \<and> rank (p_state l) < r
      | Error l \<Rightarrow> http_errno (parser l) \<noteq> HPE_OK
      | Return v pr \<Rightarrow> http_errno pr \<noteq> HPE_OK \<or> (pinv 0 (nread pr) (state pr) pr \<and> exited pr)
      | _ \<Rightarrow> False)"

lemma good_simps [simp]:
  "good r (Break l) = linv 0 (l_p l + 1) l"
  "good r (Reexecute l) = (linv 1 (l_p l) l \<and> rank (p_state l) < r)"
  "good r (Error l) = (http_errno (parser l) \<noteq> HPE_OK)"
  "good r (Return v pr) = (http_errno pr \<noteq> HPE_OK \<or> (pinv 0 (nread pr) (state pr) pr \<and> exited pr))"
  "\<not> good r Assertion_failed" "\<not> good r Out_of_bounds" "\<not> good r Endless"
  "good r (goto_error e l) = (e \<noteq> HPE_OK)"
  by (simp_all add: good_def goto_error_def SET_ERRNO_def upd_parser_def)

lemma parse_url_char_states: "parse_url_char s ch \<in> insert s_dead url_states"
  by (cases s) (auto simp: parse_url_char_def url_states_def url_server_char_def)

lemma url_states_pinv:
  "s \<in> url_states \<Longrightarrow> pinv c n s pr = (http_errno pr = HPE_OK)"
  "s \<in> url_states \<Longrightarrow> s \<noteq> s_header_field \<and> s \<noteq> s_header_value \<and> s \<noteq> s_res_status \<and> s \<notin> body_states \<and> rank s = 1"
  by (auto simp: url_states_def pinv_def body_states_def rank_def)

lemma url_step_good:
  assumes "marks l url \<noteq> None" "\<forall>k. k \<noteq> url \<longrightarrow> marks l k = None" "\<forall>i. marks l url = Some i \<longrightarrow> i \<le> l_p l"
    and "http_errno (parser l) = HPE_OK"
  shows "good r (url_char_step l)"
proof -
  define s where "s = parse_url_char (p_state l) (l_ch l)"
  have "s = s_dead \<or> s \<in> url_states" using parse_url_char_states [of "p_state l" "l_ch l"] by (simp add: s_def)
  moreover have "good r (Break (UPDATE_STATE s l))" if "s \<in> url_states"
  proof -
    have "marks l k = Some i \<Longrightarrow> i \<le> Suc (l_p l)" for k i using assms(2,3) by (cases "k = url") (auto intro: le_SucI)
    then show ?thesis
      using that assms(1,2,4) url_states_pinv(2) [OF that]
      by (simp add: linv_def marks_ok_def UPDATE_STATE_def url_states_pinv(1))
  qed
  ultimately show ?thesis by (auto simp: url_char_step_def s_def [symmetric] UPDATE_STATE_def Let_def)
qed

lemmas local_defs = upd_parser_def UPDATE_STATE_def MARK_def zero_nread_def fresh_message_def notified_def delivered_def

lemma no_marks:
  "marks_ok s n m \<Longrightarrow> s \<notin> url_states \<Longrightarrow> s \<notin> body_states \<Longrightarrow> s \<noteq> s_header_field \<Longrightarrow> s \<noteq> s_header_value \<Longrightarrow> s \<noteq> s_res_status
   \<Longrightarrow> m = (\<lambda>_. None)"
proof -
  assume a: "marks_ok s n m" "s \<notin> url_states" "s \<notin> body_states" "s \<noteq> s_header_field" "s \<noteq> s_header_value" "s \<noteq> s_res_status"
  have "m k = None" for k using a by (cases k) (auto simp: marks_ok_def)
  then show ?thesis by auto
qed

lemma plain_ok [simp]: "marks_ok s n (\<lambda>_. None) = (s \<notin> url_states \<and> s \<noteq> s_header_field \<and> s \<noteq> s_header_value \<and> s \<noteq> s_res_status)"
  by (auto simp: marks_ok_def)

lemma first_method_index: "first_method ch = Some m \<Longrightarrow> Suc 0 \<le> length (http_method_str m)"
  by (cases m) (simp_all add: str_def)

lemma good_RETURN [simp]: "good r (RETURN v l) = good r (Return v ((parser l)\<lparr>nread := l_nread l, state := p_state l\<rparr>))"
  by (simp add: RETURN_def)

lemma new_message_state: "NEW_MESSAGE pr \<in> {s_start_req, s_start_res, s_dead}"
  by (simp add: NEW_MESSAGE_def start_state_def)

lemma exited_new_message [simp]: "exited (pr\<lparr>state := NEW_MESSAGE q\<rparr>) = upgrade pr"
  using new_message_state [of q] by (auto simp: exited_def start_states_def)

lemma NEW_MESSAGE_neq [simp]: "s \<notin> {s_start_req, s_start_res, s_dead} \<Longrightarrow> NEW_MESSAGE pr \<noteq> s"
  using new_message_state [of pr] by auto

lemma unat_u8: "unat (c :: u8) < 256"
  using unsigned_less [of c, where 'a = nat] by simp

lemma unhex_range: "unhex ! unat (c :: u8) \<in> {-1..15}"
proof -
  have "list_all (\<lambda>x. x \<in> {-1..15}) unhex" "length unhex = 256" by (simp_all add: unhex_def list_all_iff)
  then show ?thesis using unat_u8 [of c] by (metis list_all_length)
qed

lemma method_switch_index:
  "method_switch m i ch = Some m' \<Longrightarrow> Suc i \<le> length (http_method_str m') \<and> i < 31"
  by (auto simp: method_switch_def str_def split: if_splits)

lemma c_at_nonzero: "i \<le> length s \<Longrightarrow> c_at s i \<noteq> 0 \<Longrightarrow> i < length s"
  by (cases "i = length s") (auto simp: c_at_def nth_append)

lemma method_length: "length (http_method_str m) < 31"
  by (cases m) (simp_all add: str_def)

lemma req_method_good:
  assumes "http_errno (parser l) = HPE_OK" "marks l = (\<lambda>_. None)" "index (parser l) \<le> length (http_method_str (p_method (parser l)))" "p_state l = s_req_method"
  shows "good r (st_req_method E l)"
proof -
  let ?m = "p_method (parser l)" and ?i = "index (parser l)"
  have "Suc ?i mod 32 \<le> length (http_method_str ?m)" if "l_ch l = c_at (http_method_str ?m) ?i" "l_ch l \<noteq> 0"
    using c_at_nonzero [OF assms(3)] that method_length [of ?m] by simp
  moreover have "Suc ?i mod 32 \<le> length (http_method_str m')" if "method_switch ?m ?i (l_ch l) = Some m'" for m'
    using method_switch_index [OF that] by simp
  ultimately show ?thesis
    using assms
    by (simp add: st_req_method_def Let_def local_defs inc_index_def linv_def pinv_def url_states_def split: option.split)
qed

lemma chunk_size_no_max:
  fixes n :: u64
  assumes "\<not> (ULLONG_MAX - 16) div 16 < n" "d \<in> {0..15}"
  shows "n * 16 + of_int d \<noteq> ULLONG_MAX"
proof -
  have "n \<le> 0xffffffffffffffe" using assms(1) by (simp add: ULLONG_MAX_def not_less)
  then have n: "uint n \<le> 0xffffffffffffffe" by (simp add: word_le_def)
  have "uint (n * 16 + of_int d) = uint n * 16 + d"
    using n assms(2) uint_ge_0 [of n] by (simp add: uint_word_ariths uint_word_of_int)
  moreover have "uint ULLONG_MAX = 2 ^ 64 - 1" by (simp add: ULLONG_MAX_def unsigned_minus_1_eq_mask mask_eq_exp_minus_1)
  ultimately show ?thesis using n assms(2) by auto
qed

lemma small_no_max: "d \<in> {0..15} \<Longrightarrow> (of_int d :: u64) \<noteq> ULLONG_MAX"
  using chunk_size_no_max [of 0 d] by simp



lemmas good_defs = local_defs linv_def pinv_def marks_ok_def rank_def url_states_def body_states_def STRICT_CHECK_def assertion_def
  is_chunked_def new_message_def SET_ERRNO_def

lemma unmarked_good_1:
  assumes "settings E = pure_settings f" "http_errno (parser l) = HPE_OK" "marks l = (\<lambda>_. None)"
    and "p_state l \<in> {s_dead, s_start_req_or_res, s_res_or_resp_H, s_start_res, s_res_H, s_res_HT, s_res_HTT, s_res_HTTP,
      s_res_http_major, s_res_http_dot, s_res_http_minor, s_res_http_end, s_res_first_status_code, s_res_status_code,
      s_res_status_start, s_res_line_almost_done, s_start_req}"
  shows "good (rank (p_state l)) (switch E l)"
  using assms(4)
  by (elim insertE emptyE; simp only: switch_def state.case)
    (simp_all add: assms(1-3) callbacks_pure [OF assms(1)] case_defs good_defs str_def first_method_index Let_def split: option.split)

lemma unmarked_good_2:
  assumes "settings E = pure_settings f" "http_errno (parser l) = HPE_OK" "marks l = (\<lambda>_. None)"
    and "p_state l \<in> {s_req_http_start, s_req_http_H, s_req_http_HT, s_req_http_HTT, s_req_http_HTTP, s_req_http_I, s_req_http_IC,
      s_req_http_major, s_req_http_dot, s_req_http_minor, s_req_http_end, s_req_line_almost_done,
      s_header_value_discard_ws_almost_done, s_header_almost_done, s_header_value_lws, s_header_field_start,
      s_header_value_discard_lws}"
  shows "good (rank (p_state l)) (switch E l)"
  using assms(4)
  by (elim insertE emptyE; simp only: switch_def state.case)
    (simp_all add: assms(1-3) callbacks_pure [OF assms(1)] case_defs good_defs finish_header_def field_start_state_def field_states_def
      Let_def split: header_states.split)

lemma value_start_good:
  assumes "http_errno (parser l) = HPE_OK" "marks l = (\<lambda>_. None)"
  shows "good r (st_header_value_start E l)"
  by (cases "header_state (parser l)") (simp_all add: assms case_defs good_defs Let_def)

lemma unmarked_good_3:
  assumes "settings E = pure_settings f" "http_errno (parser l) = HPE_OK" "marks l = (\<lambda>_. None)"
    and "p_state l \<in> {s_headers_almost_done, s_headers_done, s_header_value_start, s_header_value_discard_ws}"
  shows "good (rank (p_state l)) (switch E l)"
  using assms(4) value_start_good [OF assms(2,3)]
  by (elim insertE emptyE; simp only: switch_def state.case)
    (simp_all add: assms(1-3) st_headers_almost_done_def st_headers_done_def st_header_value_discard_ws_def set_upgrade_def
      headers_complete_pure [OF assms(1)] callbacks_pure [OF assms(1)] good_defs Let_def)

lemma unmarked_good_4:
  assumes "settings E = pure_settings f" "http_errno (parser l) = HPE_OK" "marks l = (\<lambda>_. None)"
    and "pinv 1 (l_nread l) (p_state l) (parser l)"
    and "p_state l \<in> {s_message_done, s_chunk_size_start, s_chunk_size, s_chunk_parameters, s_chunk_size_almost_done, s_chunk_data_done}"
  shows "good (rank (p_state l)) (switch E l)"
  using assms(5,4) unhex_range [of "l_ch l"]
  by (elim insertE emptyE; simp only: switch_def state.case)
    (simp_all add: assms(1-3) callbacks_pure [OF assms(1)] case_defs good_defs chunk_size_no_max small_no_max Let_def)

lemma url_mark_good:
  assumes "settings E = pure_settings f" "http_errno (parser l) = HPE_OK" "marks l = (\<lambda>_. None)(url := Some i)" "i \<le> l_p l"
  shows "good r (st_req_url E l)" "good r (st_req_schema E l)"
proof -
  have "good r (url_char_step l)" by (rule url_step_good) (simp_all add: assms)
  then show "good r (st_req_url E l)" "good r (st_req_schema E l)"
    by (simp_all add: st_req_url_def st_req_schema_def assms(2-4) local_defs callbacks_pure [OF assms(1)] linv_def pinv_def url_states_def)
qed

lemma url_start_good:
  assumes "http_errno (parser l) = HPE_OK" "marks l = (\<lambda>_. None)" "p_state l = s_req_spaces_before_url"
  shows "good r (st_req_spaces_before_url E l)"
  by (simp add: st_req_spaces_before_url_def assms linv_def pinv_def url_states_def Let_def)
    (auto simp: assms local_defs intro!: url_step_good)

lemma one_mark_of:
  assumes "marks_ok s n m" "\<And>k'. k' \<noteq> k \<Longrightarrow> m k' = None"
  shows "m k \<noteq> None \<Longrightarrow> \<exists>i\<le>n. m = (\<lambda>_. None)(k := Some i)" "m k = None \<Longrightarrow> m = (\<lambda>_. None)"
proof -
  have "\<forall>i. m k = Some i \<longrightarrow> i \<le> n" using assms(1) by (simp add: marks_ok_def)
  then show "m k \<noteq> None \<Longrightarrow> \<exists>i\<le>n. m = (\<lambda>_. None)(k := Some i)" using assms(2) by (auto simp: fun_eq_iff)
  show "m k = None \<Longrightarrow> m = (\<lambda>_. None)" using assms(2) by (metis ext)
qed

lemma one_mark:
  assumes "marks_ok s n m"
  shows "s = s_header_field \<Longrightarrow> \<exists>i\<le>n. m = (\<lambda>_. None)(header_field := Some i)"
    "s = s_header_value \<Longrightarrow> \<exists>i\<le>n. m = (\<lambda>_. None)(header_value := Some i)"
    "s = s_res_status \<Longrightarrow> \<exists>i\<le>n. m = (\<lambda>_. None)(status := Some i)"
    "s \<in> url_states \<Longrightarrow> \<exists>i\<le>n. m = (\<lambda>_. None)(url := Some i)"
    "s \<in> body_states \<Longrightarrow> m = (\<lambda>_. None) \<or> (\<exists>i\<le>n. m = (\<lambda>_. None)(body := Some i))"
proof -
  have none: "m k' = None" if "s = s_header_field \<and> k' \<noteq> header_field \<or> s = s_header_value \<and> k' \<noteq> header_value \<or>
     s = s_res_status \<and> k' \<noteq> status \<or> s \<in> url_states \<and> k' \<noteq> url \<or> s \<in> body_states \<and> k' \<noteq> body" for k'
    using that assms by (cases k') (auto simp: marks_ok_def url_states_def body_states_def)
  have some: "s = s_header_field \<Longrightarrow> m header_field \<noteq> None" "s = s_header_value \<Longrightarrow> m header_value \<noteq> None"
    "s = s_res_status \<Longrightarrow> m status \<noteq> None" "s \<in> url_states \<Longrightarrow> m url \<noteq> None"
    using assms by (simp_all add: marks_ok_def)
  note one = one_mark_of [OF assms]
  show "s = s_header_field \<Longrightarrow> \<exists>i\<le>n. m = (\<lambda>_. None)(header_field := Some i)" using one(1) none some(1) by simp
  show "s = s_header_value \<Longrightarrow> \<exists>i\<le>n. m = (\<lambda>_. None)(header_value := Some i)" using one(1) none some(2) by simp
  show "s = s_res_status \<Longrightarrow> \<exists>i\<le>n. m = (\<lambda>_. None)(status := Some i)" using one(1) none some(3) by simp
  show "s \<in> url_states \<Longrightarrow> \<exists>i\<le>n. m = (\<lambda>_. None)(url := Some i)" using one(1) none some(4) by simp
  show "s \<in> body_states \<Longrightarrow> m = (\<lambda>_. None) \<or> (\<exists>i\<le>n. m = (\<lambda>_. None)(body := Some i))"
    using one [of body] none by blast
qed

lemma status_good:
  assumes "settings E = pure_settings f" "http_errno (parser l) = HPE_OK" "marks l = (\<lambda>_. None)(status := Some i)" "i \<le> l_p l"
  and "p_state l = s_res_status"
  shows "good (rank (p_state l)) (switch E l)"
  using assms(4) by (simp_all add: switch_def assms(2,3,5) st_res_status_def local_defs callbacks_pure[OF assms(1)] linv_def pinv_def marks_ok_def url_states_def body_states_def Let_def)

lemma read_body_simps [simp]:
  "p_state (read_body E l) = p_state l" "marks (read_body E l) = marks (MARK body l)" "l_nread (read_body E l) = l_nread l" 
  "http_errno (parser (read_body E l)) = http_errno (parser l)" "flags (parser (read_body E l)) = flags (parser l)"
  by (simp_all add: read_body_def Let_def local_defs)

lemma read_body_left:
  "unat (content_length (parser (read_body E l))) \<le> unat (content_length (parser l))"
  "content_length (parser l) \<noteq> ULLONG_MAX \<Longrightarrow> content_length (parser (read_body E l)) \<noteq> ULLONG_MAX"
proof -
  let ?c = "content_length (parser l)" and ?t = "min (unat (content_length (parser l))) (length (buf E) - l_p l)"
  have "?t < 2 ^ 64" using unsigned_less [of ?c, where 'a = nat] by simp
  then have t: "unat (of_nat ?t :: u64) = ?t" by (simp add: unsigned_of_nat take_bit_nat_eq_self)
  then have "unat (?c - of_nat ?t) = unat ?c - ?t" by (simp add: unat_sub word_le_nat_alt)
  then show le: "unat (content_length (parser (read_body E l))) \<le> unat ?c"
    by (simp add: read_body_def upd_parser_def MARK_def Let_def)
  have "unat x = 2 ^ 64 - 1 \<longleftrightarrow> x = ULLONG_MAX" for x :: u64
    using word_unat_eq_iff [of x ULLONG_MAX] by (simp add: ULLONG_MAX_def unsigned_minus_1_eq_mask mask_eq_exp_minus_1)
  moreover have "unat ?c < 2 ^ 64" using unsigned_less [of ?c, where 'a = nat] by simp
  ultimately have "content_length (parser (read_body E l)) = ULLONG_MAX \<Longrightarrow> ?c = ULLONG_MAX"
    using le by (metis Suc_leI Suc_pred' le_antisym less_Suc_eq_le zero_less_numeral zero_less_power)
  then show "?c \<noteq> ULLONG_MAX \<Longrightarrow> content_length (parser (read_body E l)) \<noteq> ULLONG_MAX" by blast
qed

lemma MARK_simps [simp]:
  "p_state (MARK k l) = p_state l" "parser (MARK k l) = parser l" "l_nread (MARK k l) = l_nread l" "l_ch (MARK k l) = l_ch l"
  by (simp_all add: MARK_def)

lemma body_good:
  assumes "settings E = pure_settings f" "http_errno (parser l) = HPE_OK" "marks l = (\<lambda>_. None) \<or> (\<exists>i\<le>l_p l. marks l = (\<lambda>_. None)(body := Some i))"
   "pinv 1 (l_nread l) (p_state l) (parser l)" "l_p l < length (buf E)" "p_state l \<in> body_states"
  shows "good (rank (p_state l)) (switch E l)"
proof -
  obtain i where i: "marks (MARK body l) = (\<lambda>_. None)(body := Some i)" "i \<le> l_p l" 
     using assms(3) by (auto simp: MARK_def)
  have m: "marks_ok s n (marks (MARK body l))" if "l_p l \<le> n" "s \<in> body_states" for s n
    using i that by (auto simp: marks_ok_def body_states_def url_states_def)
  have p: "l_p l \<le> l_p (read_body E l)" if "content_length (parser l) \<noteq> 0"
    using read_body_p [OF that assms(5)] by simp
  consider "p_state l = s_body_identity" | "p_state l = s_body_identity_eof" | "p_state l = s_chunk_data" | "p_state l = s_chunk_data_almost_done"
    using assms(6) by (auto simp: body_states_def)
  then show ?thesis
  proof cases
    case 1
    then have "content_length (parser l) \<noteq> 0" "content_length (parser l) \<noteq> ULLONG_MAX" using assms(4) by (simp_all add: pinv_def)
    then show ?thesis using p m [of "l_p (read_body E l) + 1" s_body_identity] read_body_left(2) [of l] i(1)
    by (simp add: switch_def 1 st_body_identity_def assertion_def assms(2) UPDATE_STATE_def Let_def callbacks_pure[OF assms(1)] rank_def delivered_def linv_def pinv_def url_states_def body_states_def)
  next
    case 2
    then show ?thesis using m [of "Suc (length (buf E) - Suc 0)" s_body_identity_eof] assms(2,5)
     by (simp add: switch_def st_body_identity_eof_def linv_def pinv_def body_states_def)
  next
    case 3
    then have "content_length (parser l) \<noteq> 0" "content_length (parser l) \<noteq> ULLONG_MAX" "F_CHUNKED \<in> flags (parser l)" using assms(4) by (simp_all add: pinv_def)
    then show ?thesis using p m [of "l_p (read_body E l) + 1"] read_body_left(2) [of l] i(1)
    by (simp add: switch_def 3 st_chunk_data_def is_chunked_def assertion_def assms(2) UPDATE_STATE_def Let_def linv_def pinv_def body_states_def)
  next
    case 4
    then show ?thesis using assms(3,4)
    by (auto simp: switch_def st_chunk_data_almost_done_def is_chunked_def assertion_def assms(2) UPDATE_STATE_def Let_def linv_def pinv_def 
      STRICT_CHECK_def callbacks_pure[OF assms(1)] delivered_def url_states_def)
  qed
qed

lemma field_switch_good:
  assumes "header_state (parser l) \<in> field_states"
  shows "\<exists>l'. field_switch E c l = Break l' \<and> header_state (parser l') \<in> field_states \<and> http_errno (parser l') = http_errno (parser l) \<and>
     p_state l' = p_state l \<and> marks l' = marks l \<and> l_nread l' = l_nread l \<and> data (parser l') = data (parser l) \<and> opts (parser l') = opts (parser l)"
  using assms unfolding field_states_def
  by (elim insertE emptyE) (simp_all add: field_switch_def upd_parser_def match_name_def inc_index_def Let_def)

lemma field_loop_good:
  "header_state (parser l) \<in> field_states \<Longrightarrow>
   \<exists>l'. field_loop E l = Break l' \<and> header_state (parser l') \<in> field_states \<and> http_errno (parser l') = http_errno (parser l) \<and>
     p_state l' = p_state l \<and> marks l' = marks l \<and> l_nread l' = l_nread l \<and> data (parser l') = data (parser l) \<and> opts (parser l') = opts (parser l)"
proof (induction "length (buf E) - l_p l" arbitrary: l rule: less_induct)
  case less
  show ?case
  proof (cases "l_p l < length (buf E) \<and> TOKEN (buf E ! l_p l) \<noteq> 0")
    case True
    let ?l1 = "l\<lparr>l_ch := buf E ! l_p l\<rparr>" and ?c = "TOKEN (buf E ! l_p l)"
    obtain l2 where l2: "field_switch E ?c ?l1 = Break l2" "header_state (parser l2) \<in> field_states"
      "http_errno (parser l2) = http_errno (parser l)" "p_state l2 = p_state l" "marks l2 = marks l" "l_nread l2 = l_nread l"
      "data (parser l2) = data (parser l)" "opts (parser l2) = opts (parser l)"
      using field_switch_good [of ?l1 E ?c] less.prems by auto
    have "length (buf E) - (l_p l2 + 1) < length (buf E) - l_p l"
      using field_switch_p [OF l2(1)] True by (auto intro: diff_less_mono2)
    then obtain l' where "field_loop E (l2\<lparr>l_p := l_p l2 + 1\<rparr>) = Break l'" "header_state (parser l') \<in> field_states"
      "http_errno (parser l') = http_errno (parser l)" "p_state l' = p_state l" "marks l' = marks l" "l_nread l' = l_nread l"
      "data (parser l') = data (parser l)" "opts (parser l') = opts (parser l)"
      using less.hyps [of "l2\<lparr>l_p := l_p l2 + 1\<rparr>"] l2 by auto
    then show ?thesis using True l2(1) by (subst field_loop.simps) (simp add: Let_def)
  next
    case False
    then show ?thesis using less.prems by (subst field_loop.simps) (auto simp: Let_def)
  qed
qed

lemma good_count: "good r (rest (l\<lparr>l_nread := l_nread l + of_nat v\<rparr>)) \<Longrightarrow> good r (COUNT_HEADER_SIZE E v l rest)"
  by (simp add: COUNT_HEADER_SIZE_def Let_def)

lemma header_field_good:
  assumes "settings E = pure_settings f" "linv 1 (l_p l) l" "l_p l < length (buf E)" "p_state l = s_header_field"
  shows "good r (st_header_field E l)"
proof -
  obtain i where i: "marks l = (\<lambda>_. None)(header_field := Some i)" "i \<le> l_p l"
    using one_mark(1) assms(2,4) unfolding linv_def by metis
  obtain l1 where l1: "field_loop E l = Break l1" "header_state (parser l1) \<in> field_states" "http_errno (parser l1) = HPE_OK"
     "p_state l1 = s_header_field" "marks l1 = marks l" "l_nread l1 = l_nread l"
    using field_loop_good [of l E] assms(2,4) by (auto simp: linv_def pinv_def)
  have p: "l_p l \<le> l_p l1" using field_loop_moves [of l E] assms(3) l1(1) by simp
  show ?thesis using i p assms(3)
   by (auto simp: st_header_field_def l1 after_def callbacks_pure[OF assms(1)] delivered_def UPDATE_STATE_def linv_def pinv_def marks_ok_def
       url_states_def body_states_def intro!: good_count)
qed

definition kept :: "nat \<Rightarrow> 'u exec_locals \<Rightarrow> 'u outcome \<Rightarrow> bool" where
  "kept n l r =
     (case r of
        Break l' \<Rightarrow> parser l' = parser l \<and> p_state l' = p_state l \<and> marks l' = marks l \<and> l_nread l' = l_nread l
      | _ \<Rightarrow> good n r)"

lemma kept_step [simp]: "kept n (l\<lparr>l_ch := c, l_p := q\<rparr>) r = kept n l r"
  by (cases r) (simp_all add: kept_def)

lemma value_general_good: "http_errno (parser l) = HPE_OK \<Longrightarrow> kept n l (value_general E pe l)"
proof (induction "pe - l_p l" arbitrary: l rule: less_induct)
  case less
  show ?case
  proof (cases "l_p l < pe")
    case True
    let ?l = "l\<lparr>l_ch := buf E ! l_p l, l_p := l_p l + 1\<rparr>"
    have "kept n ?l (value_general E pe ?l)" using less.hyps [of ?l] less.prems True by (simp add: diff_less_mono2)
    then show ?thesis by (subst value_general.simps) (simp add: Let_def, simp add: kept_def goto_error_def SET_ERRNO_def upd_parser_def)
  qed (subst value_general.simps, simp add: kept_def)
qed

definition value_states :: "header_states set" where
  "value_states = - {h_connection, h_transfer_encoding}"

lemma value_switch_good:
  assumes "http_errno (parser l) = HPE_OK" "h \<in> value_states" "p_state l = s_header_value"
  shows "case value_switch E h l of Inl (h', l') \<Rightarrow> h' \<in> value_states \<and> http_errno (parser l') = HPE_OK \<and>
     p_state l' = s_header_value \<and> marks l' = marks l \<and> l_nread l' = l_nread l \<and> data (parser l') = data (parser l) \<and>
     opts (parser l') = opts (parser l) | Inr r \<Rightarrow> good n r"
proof (cases "h = h_general")
  case True
  then show ?thesis using value_general_good [of l n E "window_end E (l_p l)"] assms
    by (auto simp: value_switch_def value_states_def kept_def split: outcome.splits)
next
  case False
  then show ?thesis
    using assms
    by (cases h) (simp_all add: value_states_def value_switch_def length_digit_def match_value_def upd_parser_def inc_index_def UPDATE_STATE_def Let_def )
qed


lemma value_done_good:
  assumes "h \<in> value_states" "http_errno (parser l) = HPE_OK" "p_state l \<in> {s_header_value, s_header_almost_done}"
    "marks_ok (p_state l) n (marks l)" "n \<le> l_p l" 
  shows "good r (value_done E start h l)"
proof -
  have "marks_ok (p_state l) n' (marks l)" if "n \<le> n'" for n' using assms(4) that by (auto simp: marks_ok_def intro: le_trans)
  then show ?thesis using assms(1-3,5)
    by (auto simp: value_done_def value_states_def upd_parser_def linv_def pinv_def Let_def intro!: good_count)
qed

lemma value_loop_good:
  assumes "settings E = pure_settings f"
  shows "\<lbrakk>h \<in> value_states; http_errno (parser l) = HPE_OK; p_state l = s_header_value; marks l = (\<lambda>_. None)(header_value := Some i);
    i \<le> l_p l\<rbrakk>
   \<Longrightarrow> good 2 (value_loop E start h l)"
proof (induction "length (buf E) - l_p l" arbitrary: h l rule: less_induct)
  case less
  let ?l1 = "l\<lparr>l_ch := buf E ! l_p l\<rparr>" and ?ch = "buf E ! l_p l"
  consider "\<not> l_p l < length (buf E)" | "l_p l < length (buf E)" "?ch = CR" | "l_p l < length (buf E)" "?ch = LF"
    | "l_p l < length (buf E)" "?ch \<noteq> CR" "?ch \<noteq> LF" by blast
  then show ?case
  proof cases
    case 1
    then show ?thesis using less.prems value_done_good [of h l i]
      by (subst value_loop.simps) (simp add: marks_ok_def url_states_def body_states_def)
  next
    case 2
    then show ?thesis
      using less.prems 
      by (subst value_loop.simps) (auto simp: Let_def callbacks_pure [OF assms] upd_parser_def UPDATE_STATE_def delivered_def url_states_def intro!: value_done_good)
  next
    case 3
    then show ?thesis
      using less.prems
      by (subst value_loop.simps)
        (auto simp: Let_def callbacks_pure [OF assms] upd_parser_def UPDATE_STATE_def delivered_def url_states_def linv_def pinv_def rank_def intro!: good_count)
  next
    case 4
    note vs = value_switch_good [of ?l1 h 2 E]
    show ?thesis
    proof (cases "value_switch E h ?l1")
      case (Inl a)
      obtain h' l2 where a: "a = (h', l2)" by fastforce
      have p: "l_p l \<le> l_p l2 \<and> l_p l2 < length (buf E)"
        using value_switch_p [of E h ?l1 h' l2] 4 Inl a by simp
      then have "good 2 (value_loop E start h' (l2\<lparr>l_p := l_p l2 + 1\<rparr>))"
        using less.prems 4(1) Inl a vs by (intro less.hyps) (auto intro: diff_less_mono2)
      then show ?thesis using 4 Inl a by (subst value_loop.simps) (simp add: Let_def)
    next
      case (Inr r)
      then show ?thesis using less.prems 4 Inr vs by (subst value_loop.simps) (simp add: Let_def)
    qed
  qed
qed

text \<open>The switch, the label \<^verbatim>\<open>reexecute\<close> and the loop.\<close>

lemma switch_good:
  assumes E: "settings E = pure_settings f" and l: "linv 1 (l_p l) l" "l_p l < length (buf E)"
  shows "good (rank (p_state l)) (switch E l)"
proof -
  have pr: "http_errno (parser l) = HPE_OK" "marks_ok (p_state l) (l_p l) (marks l)" "pinv 1 (l_nread l) (p_state l) (parser l)"
    using l(1) by (simp_all add: linv_def pinv_def)
  note none = no_marks [OF pr(2)] and one = one_mark [OF pr(2)]
  show ?thesis
  proof (cases "p_state l \<in> url_states \<union> body_states \<union> {s_header_field, s_header_value, s_res_status}")
    case True
    then consider "p_state l \<in> url_states" | "p_state l \<in> body_states" | "p_state l = s_header_field" | "p_state l = s_header_value"
      | "p_state l = s_res_status" by blast
    then show ?thesis
    proof cases
      case 1
      then obtain i where "i \<le> l_p l" "marks l = (\<lambda>_. None)(url := Some i)" using one(4) by blast
      then show ?thesis
        using url_mark_good [OF E pr(1)] 1 unfolding url_states_def by (elim insertE emptyE) (simp_all add: switch_def)
    next
      case 2
      then show ?thesis using body_good [OF E pr(1) _ pr(3) l(2)] one(5) by blast
    next
      case 3
      then show ?thesis using header_field_good [OF E l] by (simp add: switch_def)
    next
      case 4
      then obtain i where "i \<le> l_p l" "marks l = (\<lambda>_. None)(header_value := Some i)" using one(2) by blast
      then show ?thesis
        using value_loop_good [OF E, of "header_state (parser l)" l i] pr 4
        by (simp add: switch_def st_header_value_def rank_def value_states_def pinv_def)
    next
      case 5
      then show ?thesis using status_good [OF E pr(1)] one(3) by blast
    qed
  next
    case False
    then have m: "marks l = (\<lambda>_. None)" using none by blast
    show ?thesis
      using False pr(3) unmarked_good_1 [OF E pr(1) m] unmarked_good_2 [OF E pr(1) m] unmarked_good_3 [OF E pr(1) m]
        unmarked_good_4 [OF E pr(1) m pr(3)] req_method_good [OF pr(1) m] url_start_good [OF pr(1) m]
      by (cases "p_state l") (simp_all add: url_states_def body_states_def switch_def pinv_def)
  qed
qed

lemma rank_bound: "1 \<le> rank s" "rank s \<le> 4"
  by (simp_all add: rank_def)

lemma good_mono: "good r out \<Longrightarrow> r \<le> r' \<Longrightarrow> good r' out"
  by (cases out) auto

lemma reexecute_good:
  assumes "settings E = pure_settings f"
  shows "\<lbrakk>linv 1 (l_p l) l; l_p l < length (buf E); rank (p_state l) \<le> n\<rbrakk> \<Longrightarrow> good 0 (reexecute n E l)"
proof (induction n arbitrary: l)
  case 0
  then show ?case using rank_bound(1) [of "p_state l"] by simp
next
  case (Suc n)
  note sw = switch_good [OF assms Suc.prems(1,2)] switch_moves [OF Suc.prems(2)]
  show ?case
  proof (cases "switch E l")
    case (Reexecute l1)
    then have "good 0 (reexecute n E l1)" using sw Suc.prems(3) by (intro Suc.IH) simp_all
    then show ?thesis using Reexecute by simp
  qed (use sw in simp_all)
qed

lemma pinv_enter:
  "pinv 0 n s pr \<Longrightarrow> pinv 1 (n + 1) s pr" "\<lbrakk>pinv c n s pr; s \<noteq> s_chunk_size_start\<rbrakk> \<Longrightarrow> pinv c' n' s pr"
  by (simp_all add: pinv_def)

lemma byte_step_good:
  assumes "settings E = pure_settings f" "linv 0 (l_p l) l" "l_p l < length (buf E)"
  shows "good 0 (byte_step E l)"
proof -
  let ?l1 = "l\<lparr>l_ch := buf E ! l_p l\<rparr>" and ?l2 = "l\<lparr>l_ch := buf E ! l_p l, l_nread := l_nread l + 1\<rparr>"
  have "linv 1 (l_p ?l2) ?l2" "\<not> PARSING_HEADER (p_state l) \<Longrightarrow> linv 1 (l_p ?l1) ?l1"
    using assms(2) pinv_enter(2) [of 0 "l_nread l" "p_state l" "parser l"] by (auto simp: linv_def pinv_enter(1) PARSING_HEADER_def)
  then have "good 0 (reexecute REEXECUTE_MAX E ?l2)" "\<not> PARSING_HEADER (p_state l) \<Longrightarrow> good 0 (reexecute REEXECUTE_MAX E ?l1)"
    using reexecute_good [OF assms(1), of _ REEXECUTE_MAX] assms(3) rank_bound(2) [of "p_state l"]
    by (simp_all add: REEXECUTE_MAX_def)
  then show ?thesis by (simp add: byte_step_def COUNT_HEADER_SIZE_def Let_def)
qed

definition well :: "'u exec_env \<Rightarrow> 'u outcome \<Rightarrow> bool" where
  "well E out =
     (case out of
        Return n pr \<Rightarrow> n \<le> length (buf E) \<and>
          (http_errno pr \<noteq> HPE_OK \<or> (pinv 0 (nread pr) (state pr) pr \<and> (n = length (buf E) \<or> exited pr)))
      | _ \<Rightarrow> False)"

lemma pinv_data [simp]: "pinv c n s (pr\<lparr>data := d\<rparr>) = pinv c n s pr" "pinv c n s (pr\<lparr>state := s'\<rparr>) = pinv c n s pr" "pinv c n s (pr\<lparr>nread := m\<rparr>) = pinv c n s pr"
  by (simp_all add: pinv_def)

lemma end_of_data_well:
  assumes "settings E = pure_settings f" "linv 0 (l_p l) l"
  shows "well E (end_of_data E l)"
proof -
  have pr: "http_errno (parser l) = HPE_OK" "marks_ok (p_state l) (l_p l) (marks l)" "pinv 0 (l_nread l) (p_state l) (parser l)"
    using assms(2) by (simp_all add: linv_def pinv_def)
  have "marks l = (\<lambda>_. None) \<or> (\<exists>k i. marks l = (\<lambda>_. None)(k := Some i))"
    using no_marks [OF pr(2)] one_mark [OF pr(2)] by blast
  then consider "marks l = (\<lambda>_. None)" | k i where "marks l = (\<lambda>_. None)(k := Some i)" by blast
  then show ?thesis
  proof cases
    case 1
    then show ?thesis
      using pr(1,3) by (simp add: end_of_data_def assertion_def callbacks_pure [OF assms(1)] delivered_def RETURN_def well_def)
  next
    case 2
    then show ?thesis
      using pr(1,3)
      by (cases k) (simp_all add: end_of_data_def assertion_def callbacks_pure [OF assms(1)] delivered_def RETURN_def well_def)
  qed
qed

lemma exec_loop_well:
  assumes "settings E = pure_settings f"
  shows "\<lbrakk>linv 0 (l_p l) l; l_p l \<le> length (buf E)\<rbrakk> \<Longrightarrow> well E (exec_loop E l)"
proof (induction "length (buf E) - l_p l" arbitrary: l rule: less_induct)
  case less
  show ?case
  proof (cases "l_p l < length (buf E)")
    case True
    note step = byte_step_good [OF assms less.prems(1) True] byte_step_moves [OF True]
    show ?thesis
    proof (cases "byte_step E l")
      case (Break l1)
      then have "well E (exec_loop E (l1\<lparr>l_p := l_p l1 + 1\<rparr>))"
        using step True by (intro less.hyps) (auto simp: linv_def)
      then show ?thesis using Break True by (subst exec_loop.simps) simp
    qed (use step True in \<open>subst exec_loop.simps, simp add: at_error_def RETURN_def well_def\<close>)+
  next
    case False
    then show ?thesis using less.prems end_of_data_well [OF assms] by (subst exec_loop.simps) simp
  qed
qed

section \<open>Every call returns\<close>

text \<open>The structures that a sequence of calls can lead to.\<close>

inductive http_reachable :: "(event \<Rightarrow> 'u \<Rightarrow> 'u) \<Rightarrow> u32 \<Rightarrow> 'u http_parser \<Rightarrow> bool" for f M where
  reach_init: "http_reachable f M ((http_parser_init t d)\<lparr>lenient_http_headers := a, allow_chunked_length := b\<rparr>)"
| reach_execute:
    "\<lbrakk>http_reachable f M pr; http_parser_execute (pure_settings f) M xs pr = Return n pr'\<rbrakk> \<Longrightarrow> http_reachable f M pr'"

lemma execute_well:
  assumes "pinv 0 (nread pr) (state pr) pr" "xs \<noteq> []"
  shows "\<exists>n pr'. http_parser_execute (pure_settings f) M xs pr = Return n pr' \<and> n \<le> length xs \<and>
    (http_errno pr' \<noteq> HPE_OK \<or> (pinv 0 (nread pr') (state pr') pr' \<and> (n = length xs \<or> exited pr')))"
proof -
  let ?E = "\<lparr>settings = pure_settings f, buf = xs, max_header_size = M, lenient = lenient_http_headers pr,
               allow_chunked = allow_chunked_length pr\<rparr>"
  let ?l = "\<lparr>parser = pr, l_p = 0, l_ch = 0, marks = entry_marks (state pr), p_state = state pr, l_nread = nread pr\<rparr>"
  have "entry_marks s k = Some i \<Longrightarrow> i = 0" for s k i
    by (cases k) (auto simp: entry_marks_def split: if_splits)
  then have "marks_ok (state pr) 0 (entry_marks (state pr))"
    by (simp add: marks_ok_def) (simp add: entry_marks_def url_states_def)
  then have "well ?E (exec_loop ?E ?l)" using assms(1) by (intro exec_loop_well) (simp_all add: linv_def)
  moreover have "http_parser_execute (pure_settings f) M xs pr = exec_loop ?E ?l"
    using assms by (simp add: http_parser_execute_def pinv_def)
  ultimately show ?thesis by (simp add: well_def split: outcome.splits)
qed

lemma execute_empty:
  "http_errno pr = HPE_OK \<Longrightarrow> \<exists>n pr'. http_parser_execute (pure_settings f) M [] pr = Return n pr' \<and> n \<le> 1 \<and>
     (http_errno pr' = HPE_OK \<longrightarrow> n = 0 \<and> (\<exists>d. pr' = pr\<lparr>data := d\<rparr>))"
proof -
  assume ok: "http_errno pr = HPE_OK"
  have same: "pr\<lparr>state := state pr, data := d\<rparr> = pr\<lparr>data := d\<rparr>" "pr\<lparr>data := data pr\<rparr> = pr" for d by simp_all
  consider "state pr = s_body_identity_eof" | "state pr \<in> {s_dead, s_start_req_or_res, s_start_res, s_start_req}"
    | "state pr \<noteq> s_body_identity_eof" "state pr \<notin> {s_dead, s_start_req_or_res, s_start_res, s_start_req}" by blast
  then show ?thesis
  proof cases
    case 1
    then have "http_parser_execute (pure_settings f) M [] pr = Return 0 (pr\<lparr>data := f (Notify message_complete) (data pr)\<rparr>)"
      using ok same(1) by (simp add: http_parser_execute_def callbacks_pure notified_def Let_def)
    then show ?thesis by blast
  next
    case 2
    then have "http_parser_execute (pure_settings f) M [] pr = Return 0 pr" using ok by (auto simp: http_parser_execute_def Let_def)
    then show ?thesis using same(2) by (metis outcome.inject(4) zero_le)
  next
    case 3
    then show ?thesis using ok by (simp add: http_parser_execute_def SET_ERRNO_def upd_parser_def Let_def)
  qed
qed

lemma reachable_pinv: "http_reachable f M pr \<Longrightarrow> http_errno pr = HPE_OK \<Longrightarrow> pinv 0 (nread pr) (state pr) pr"
proof (induction rule: http_reachable.induct)
  case (reach_init t d a b)
  then show ?case by (simp add: http_parser_init_def pinv_def)
next
  case (reach_execute pr xs n pr')
  show ?case
  proof (cases "http_errno pr = HPE_OK")
    case True
    show ?thesis
    proof (cases "xs = []")
      case True
      then obtain d where "pr' = pr\<lparr>data := d\<rparr>"
        using execute_empty [OF \<open>http_errno pr = HPE_OK\<close>, of f M] reach_execute.hyps(2) reach_execute.prems by auto
      then show ?thesis using reach_execute.IH [OF \<open>http_errno pr = HPE_OK\<close>] by simp
    next
      case False
      obtain m q where "http_parser_execute (pure_settings f) M xs pr = Return m q"
          "http_errno q \<noteq> HPE_OK \<or> pinv 0 (nread q) (state q) q"
        using execute_well [OF reach_execute.IH [OF True] False, of f M] by blast
      then show ?thesis using reach_execute.hyps(2) reach_execute.prems by simp
    qed
  next
    case False
    then show ?thesis using reach_execute by (simp add: http_parser_execute_def)
  qed
qed

text \<open>C2. The HTTP parser is safe on every input. Whatever was fed to it since
  \<^verbatim>\<open>http_parser_init\<close>, in whatever pieces, a call of \<^verbatim>\<open>http_parser_execute\<close> returns: no assertion fails,
  the method matcher is never read past its end, and the jumps to \<^verbatim>\<open>reexecute\<close> end. It
  returns at most the number of octets it was given (or 1 at an unexpected end of the
  input), and exactly that number unless it reports an error or an upgrade.
\<close>

theorem http_parser_safe:
  assumes "http_reachable f M pr"
  shows "\<exists>n pr'. http_parser_execute (pure_settings f) M xs pr = Return n pr' \<and> n \<le> max 1 (length xs) \<and>
    (http_errno pr' = HPE_OK \<and> \<not> exited pr' \<longrightarrow> n = length xs)"
proof (cases "http_errno pr = HPE_OK")
  case True
  show ?thesis
  proof (cases "xs = []")
    case True
    then show ?thesis using execute_empty [OF \<open>http_errno pr = HPE_OK\<close>, of f M] by auto
  next
    case False
    obtain n pr' where "http_parser_execute (pure_settings f) M xs pr = Return n pr'" "n \<le> length xs"
        "http_errno pr' \<noteq> HPE_OK \<or> n = length xs \<or> exited pr'"
      using execute_well [OF reachable_pinv [OF assms True] False, of f M] by blast
    then show ?thesis by auto
  qed
next
  case False
  then show ?thesis by (simp add: http_parser_execute_def)
qed

theorem http_parser_safe_witness:
  "\<exists>pr'. http_parser_execute (pure_settings (\<lambda>e d. d)) 100 (str ''GET /a'') (http_parser_init HTTP_REQUEST ()) = Return 6 pr' \<and>
     http_errno pr' = HPE_OK"
proof -
  let ?pr = "http_parser_init HTTP_REQUEST ()" and ?f = "\<lambda>(e :: event) (d :: unit). d"
  have "http_reachable ?f 100 (?pr\<lparr>lenient_http_headers := False, allow_chunked_length := False\<rparr>)" by (rule reach_init)
  then have "http_reachable ?f 100 ?pr" by (simp add: http_parser_init_def)
  moreover have "case http_parser_execute (pure_settings ?f) 100 (str ''GET /a'') ?pr of
      Return n q \<Rightarrow> http_errno q = HPE_OK \<and> \<not> upgrade q | _ \<Rightarrow> False" by code_simp
  ultimately show ?thesis using http_parser_safe [of ?f 100 ?pr "str ''GET /a''"] by (auto simp: exited_def str_def)
qed

end
