(* ===== verification/Buffer.thy ===== *)
theory Buffer
  imports Prelude
begin

text \<open>
  The growing buffer of the reactor library, \<^verbatim>\<open>easy_net/base/buffer.cpp\<close> and
  \<^verbatim>\<open>buffer.h\<close>. The indices are \<^verbatim>\<open>size_t\<close>, 64 bits wide; the functions that take an
  \<^verbatim>\<open>int\<close> convert it, sign extended, as the code does. A copy beyond the vector is undefined
  in C++: it is the result \<open>None\<close>. Allocation is taken to succeed.
\<close>

section \<open>The code\<close>

record buffer =
  m_data :: octets
  m_writeidx :: u64
  m_readidx :: u64

definition KInitalSize :: nat where "KInitalSize = 1024"

definition Buffer_init :: "nat \<Rightarrow> buffer" where
  "Buffer_init initialSize = \<lparr>m_data = replicate initialSize 0, m_writeidx = 0, m_readidx = 0\<rparr>"

definition Clear :: "buffer \<Rightarrow> buffer" where
  "Clear b = b\<lparr>m_data := [], m_writeidx := 0, m_readidx := 0\<rparr>"

definition GetPrependableSize :: "buffer \<Rightarrow> u64" where
  "GetPrependableSize b = m_readidx b"

definition GetReadableSize :: "buffer \<Rightarrow> u64" where
  "GetReadableSize b = m_writeidx b - m_readidx b"

definition GetWriteableSize :: "buffer \<Rightarrow> u64" where
  "GetWriteableSize b = of_nat (length (m_data b)) - m_writeidx b"

definition GetBufferSize :: "buffer \<Rightarrow> u64" where
  "GetBufferSize b = of_nat (length (m_data b))"

definition SetReaderAddr :: "i32 \<Rightarrow> buffer \<Rightarrow> buffer" where
  "SetReaderAddr idx b = b\<lparr>m_readidx := scast idx\<rparr>"

definition SetWriterAddr :: "i32 \<Rightarrow> buffer \<Rightarrow> buffer" where
  "SetWriterAddr idx b = b\<lparr>m_writeidx := scast idx\<rparr>"

definition AdvanceReader :: "i32 \<Rightarrow> buffer \<Rightarrow> buffer" where
  "AdvanceReader step b = b\<lparr>m_readidx := m_readidx b + scast step\<rparr>"

definition AdvanceWriter :: "i32 \<Rightarrow> buffer \<Rightarrow> buffer" where
  "AdvanceWriter step b = b\<lparr>m_writeidx := m_writeidx b + scast step\<rparr>"

text \<open>\<^verbatim>\<open>std::vector::resize\<close>: new elements are zero.\<close>

definition vec_resize :: "nat \<Rightarrow> octets \<Rightarrow> octets" where
  "vec_resize n d = take n d @ replicate (n - length d) 0"

text \<open>The comparisons of \<^verbatim>\<open>int\<close> with \<^verbatim>\<open>size_t\<close> are unsigned.\<close>

definition ensureEnoughBytes :: "i32 \<Rightarrow> buffer \<Rightarrow> buffer" where
  "ensureEnoughBytes needsz b =
     (let n = scast needsz :: u64 in
      if n > GetWriteableSize b
      then (if GetPrependableSize b + GetWriteableSize b \<ge> n
            then (let contentlen = GetReadableSize b
                  in b\<lparr>m_data := memcpy_at 0 (sub_octets (m_data b) (unat (m_readidx b)) (unat contentlen)) (m_data b),
                       m_readidx := 0, m_writeidx := contentlen\<rparr>)
            else b\<lparr>m_data := vec_resize (unat (push_bit 1 (m_writeidx b) + n)) (m_data b)\<rparr>)
      else b)"

definition Append :: "octets \<Rightarrow> buffer \<Rightarrow> buffer option" where
  "Append data b =
     (let sz = of_nat (length data) :: u64;
          b1 = ensureEnoughBytes (ucast sz) b
      in if unat (m_writeidx b1) + length data \<le> length (m_data b1)
         then Some (AdvanceWriter (ucast sz) (b1\<lparr>m_data := memcpy_at (unat (m_writeidx b1)) data (m_data b1)\<rparr>))
         else None)"

definition RetriveAsString :: "u64 \<Rightarrow> buffer \<Rightarrow> (octets \<times> buffer) option" where
  "RetriveAsString sz b =
     (if unat (m_readidx b) + unat sz \<le> length (m_data b)
      then Some (sub_octets (m_data b) (unat (m_readidx b)) (unat sz), AdvanceReader (ucast sz) b)
      else None)"

definition reset_idx :: "buffer \<Rightarrow> buffer" where
  "reset_idx b = b\<lparr>m_readidx := 0, m_writeidx := 0\<rparr>"

definition RetriveAllAsString :: "buffer \<Rightarrow> (octets \<times> buffer) option" where
  "RetriveAllAsString b =
     (let contentLen = GetReadableSize b in
      if unat (m_readidx b) + unat contentLen \<le> length (m_data b)
      then Some (sub_octets (m_data b) (unat (m_readidx b)) (unat contentLen), reset_idx b)
      else None)"

section \<open>The content\<close>

definition buf_ok :: "buffer \<Rightarrow> bool" where
  "buf_ok b \<longleftrightarrow> unat (m_readidx b) \<le> unat (m_writeidx b) \<and> unat (m_writeidx b) \<le> length (m_data b) \<and>
     length (m_data b) < 2 ^ 63"

definition content :: "buffer \<Rightarrow> octets" where
  "content b = sub_octets (m_data b) (unat (m_readidx b)) (unat (m_writeidx b) - unat (m_readidx b))"

lemma length_content: "buf_ok b \<Longrightarrow> length (content b) = unat (m_writeidx b) - unat (m_readidx b)"
  by (auto simp: buf_ok_def content_def sub_octets_def)

lemma unat_small: "n < 2 ^ 63 \<Longrightarrow> unat (of_nat n :: u64) = n"
  by (simp add: unsigned_of_nat take_bit_nat_eq_self)

lemma unat_readable: "buf_ok b \<Longrightarrow> unat (GetReadableSize b) = length (content b)"
  by (simp add: length_content buf_ok_def GetReadableSize_def unat_sub_if')

lemma unat_writeable: "buf_ok b \<Longrightarrow> unat (GetWriteableSize b) = length (m_data b) - unat (m_writeidx b)"
  by (simp add: buf_ok_def GetWriteableSize_def unat_sub_if' unat_small)

text \<open>An amount below \<^verbatim>\<open>INT_MAX\<close> survives the passage through \<^verbatim>\<open>int\<close>.\<close>

lemma scast_small:
  assumes "n < 2 ^ 31"
  shows "(scast (ucast (of_nat n :: u64) :: i32) :: u64) = of_nat n"
  using assms by (simp add: unsigned_of_nat take_bit_nat_eq_self signed_of_nat signed_take_bit_int_eq_self)

lemma content_prefix:
  assumes "take (unat (m_writeidx b)) d = take (unat (m_writeidx b)) (m_data b)"
  shows "content (b\<lparr>m_data := d\<rparr>) = content b"
proof -
  have e: "take k (drop r e) = drop r (take (r + k) e)" for k r and e :: octets by (simp add: take_drop add.commute)
  show ?thesis
  proof (cases "unat (m_readidx b) \<le> unat (m_writeidx b)")
    case True
    then show ?thesis using assms by (simp add: content_def sub_octets_def e)
  qed (simp add: content_def sub_octets_def)
qed

lemma ensure_resize:
  assumes "buf_ok b" "n < 2 ^ 31" "unat (m_writeidx b) < 2 ^ 60" "length (m_data b) - unat (m_writeidx b) < n"
  shows "buf_ok (b\<lparr>m_data := vec_resize (2 * unat (m_writeidx b) + n) (m_data b)\<rparr>)"
    and "content (b\<lparr>m_data := vec_resize (2 * unat (m_writeidx b) + n) (m_data b)\<rparr>) = content b"
proof -
  let ?d = "vec_resize (2 * unat (m_writeidx b) + n) (m_data b)"
  have "length ?d = 2 * unat (m_writeidx b) + n" by (auto simp: vec_resize_def)
  then show "buf_ok (b\<lparr>m_data := ?d\<rparr>)" using assms by (simp add: buf_ok_def)
  show "content (b\<lparr>m_data := ?d\<rparr>) = content b"
    using assms(1) by (intro content_prefix) (simp add: vec_resize_def buf_ok_def)
qed

lemma ensure_move:
  assumes "buf_ok b"
  defines "b1 \<equiv> b\<lparr>m_data := memcpy_at 0 (sub_octets (m_data b) (unat (m_readidx b)) (length (content b))) (m_data b),
      m_readidx := 0, m_writeidx := GetReadableSize b\<rparr>"
  shows "buf_ok b1" and "content b1 = content b"
proof -
  have c: "sub_octets (m_data b) (unat (m_readidx b)) (length (content b)) = content b"
    using length_content [OF assms(1)] by (simp add: content_def)
  have l: "length (content b) \<le> length (m_data b)" by (simp add: content_def sub_octets_def)
  then show "buf_ok b1" using assms(1) unat_readable [OF assms(1)] by (simp add: b1_def buf_ok_def c)
  show "content b1 = content b"
    using unat_readable [OF assms(1)] by (simp add: b1_def content_def [of "b\<lparr>m_data := d, m_readidx := r, m_writeidx := w\<rparr>" for d r w]
        c) (simp add: sub_octets_def memcpy_at_def)
qed

lemma ensureEnoughBytes_spec:
  assumes "buf_ok b" "n < 2 ^ 31" "unat (m_writeidx b) < 2 ^ 60"
    and "b1 = ensureEnoughBytes (ucast (of_nat n :: u64)) b"
  shows "buf_ok b1" "content b1 = content b" "unat (m_writeidx b1) \<le> unat (m_writeidx b)"
    "unat (m_writeidx b1) + n \<le> length (m_data b1)"
proof -
  have un: "unat (of_nat n :: u64) = n" using assms(2) by (intro unat_small) simp
  have gt: "of_nat n > GetWriteableSize b \<longleftrightarrow> n > length (m_data b) - unat (m_writeidx b)"
    by (simp only: word_less_nat_alt un unat_writeable [OF assms(1)])
  have room: "unat (GetPrependableSize b + GetWriteableSize b) = length (m_data b) - length (content b)"
    using assms(1) unat_writeable [OF assms(1)] length_content [OF assms(1)]
    by (subst unat_add_lem [THEN iffD1]) (auto simp: buf_ok_def GetPrependableSize_def)
  have ge: "GetPrependableSize b + GetWriteableSize b \<ge> of_nat n \<longleftrightarrow> length (m_data b) - length (content b) \<ge> n"
    by (simp only: word_le_nat_alt un room)
  have new: "unat (push_bit 1 (m_writeidx b) + of_nat n :: u64) = 2 * unat (m_writeidx b) + n"
    using assms(2,3) by (simp add: push_bit_eq_mult unat_word_ariths un)
  have e: "b1 = (if n > length (m_data b) - unat (m_writeidx b)
      then (if length (m_data b) - length (content b) \<ge> n
            then b\<lparr>m_data := memcpy_at 0 (sub_octets (m_data b) (unat (m_readidx b)) (length (content b))) (m_data b),
                   m_readidx := 0, m_writeidx := GetReadableSize b\<rparr>
            else b\<lparr>m_data := vec_resize (2 * unat (m_writeidx b) + n) (m_data b)\<rparr>)
      else b)"
    unfolding assms(4) ensureEnoughBytes_def scast_small [OF assms(2)] Let_def gt ge new unat_readable [OF assms(1)] ..
  have l: "length (content b) \<le> length (m_data b)" by (simp add: content_def sub_octets_def)
  show "buf_ok b1" "content b1 = content b"
    unfolding e using ensure_move [OF assms(1)] ensure_resize [OF assms(1-3)] assms(1) by simp_all
  show "unat (m_writeidx b1) \<le> unat (m_writeidx b)"
    unfolding e using unat_readable [OF assms(1)] length_content [OF assms(1)] by simp
  show "unat (m_writeidx b1) + n \<le> length (m_data b1)"
    unfolding e using unat_readable [OF assms(1)] l assms(1)
    by (auto simp: buf_ok_def vec_resize_def content_def sub_octets_def memcpy_at_def)
qed

lemma Append_spec:
  assumes "buf_ok b" "length xs < 2 ^ 31" "unat (m_writeidx b) < 2 ^ 60"
  shows "\<exists>b'. Append xs b = Some b' \<and> buf_ok b' \<and> content b' = content b @ xs \<and>
    unat (m_writeidx b') \<le> unat (m_writeidx b) + length xs"
proof -
  define b1 where "b1 = ensureEnoughBytes (ucast (of_nat (length xs) :: u64)) b"
  note e = ensureEnoughBytes_spec [OF assms b1_def]
  let ?k = "unat (m_writeidx b1)"
  define b2 where "b2 = AdvanceWriter (ucast (of_nat (length xs) :: u64)) (b1\<lparr>m_data := memcpy_at ?k xs (m_data b1)\<rparr>)"
  have a: "Append xs b = Some b2" using e(4) by (simp add: Append_def Let_def b1_def [symmetric] b2_def)
  have b: "unat (m_readidx b1) \<le> ?k" "?k \<le> length (m_data b1)" "length (m_data b1) < 2 ^ 63"
    using e(1) by (simp_all add: buf_ok_def)
  have w: "unat (m_writeidx b1 + of_nat (length xs)) = ?k + length xs"
    using assms(2,3) e(3) unat_small [of "length xs"] by (simp add: unat_word_ariths)
  have f: "m_readidx b2 = m_readidx b1" "unat (m_writeidx b2) = ?k + length xs" "m_data b2 = memcpy_at ?k xs (m_data b1)"
    by (simp_all add: b2_def AdvanceWriter_def scast_small [OF assms(2)] w)
  have "content b2 = content b1 @ xs"
    using b by (simp add: content_def f sub_octets_def memcpy_at_def min_def) (simp add: drop_take)
  moreover have "buf_ok b2" using b e(4) by (simp add: buf_ok_def f)
  ultimately show ?thesis using a e(2,3) f(2) by simp
qed

lemma RetriveAsString_spec:
  assumes "buf_ok b" "n \<le> length (content b)" "n < 2 ^ 31"
  shows "\<exists>b'. RetriveAsString (of_nat n) b = Some (take n (content b), b') \<and> buf_ok b' \<and>
    content b' = drop n (content b) \<and> m_writeidx b' = m_writeidx b"
proof -
  have un: "unat (of_nat n :: u64) = n" using assms(3) by (intro unat_small) simp
  have b: "unat (m_readidx b) + n \<le> unat (m_writeidx b)" "unat (m_writeidx b) \<le> length (m_data b)"
      "length (m_data b) < 2 ^ 63"
    using assms(1,2) length_content [OF assms(1)] by (auto simp: buf_ok_def)
  define b1 where "b1 = AdvanceReader (ucast (of_nat n :: u64)) b"
  have r: "unat (m_readidx b + of_nat n) = unat (m_readidx b) + n"
    using b by (simp add: unat_word_ariths un)
  have f: "unat (m_readidx b1) = unat (m_readidx b) + n" "m_writeidx b1 = m_writeidx b" "m_data b1 = m_data b"
    by (simp_all add: b1_def AdvanceReader_def scast_small [OF assms(3)] r)
  have "RetriveAsString (of_nat n) b = Some (take n (content b), b1)"
    using b by (simp add: RetriveAsString_def un b1_def content_def sub_octets_def)
  moreover have "content b1 = drop n (content b)"
    by (simp add: content_def sub_octets_def f drop_take add.commute)
  ultimately show ?thesis using b f by (simp add: buf_ok_def)
qed

lemma RetriveAll_spec:
  assumes "buf_ok b"
  shows "\<exists>b'. RetriveAllAsString b = Some (content b, b') \<and> buf_ok b' \<and> content b' = [] \<and> m_writeidx b' = 0"
  using assms unat_readable [OF assms] length_content [OF assms]
  by (auto simp: RetriveAllAsString_def reset_idx_def Let_def buf_ok_def content_def sub_octets_def)

section \<open>The buffer as a pipe\<close>

text \<open>
  What the users of the buffer rely on: an unbounded first-in first-out pipe of octets, as
  long as the octets ever put in stay below the range of \<^verbatim>\<open>int\<close>. \<open>mark\<close> bounds the write
  index.
\<close>

datatype pipe_op = PutOp octets | GetOp nat | AllOp

fun op_octets :: "pipe_op \<Rightarrow> octets" where
  "op_octets (PutOp xs) = xs"
| "op_octets _ = []"

fun pipe_run ::
  "(octets \<Rightarrow> 'q \<Rightarrow> 'q option) \<Rightarrow> (nat \<Rightarrow> 'q \<Rightarrow> (octets \<times> 'q) option) \<Rightarrow> ('q \<Rightarrow> (octets \<times> 'q) option) \<Rightarrow>
     pipe_op list \<Rightarrow> 'q \<Rightarrow> (octets \<times> 'q) option" where
  "pipe_run put get all [] q = Some ([], q)"
| "pipe_run put get all (PutOp xs # ops) q =
     (case put xs q of None \<Rightarrow> None | Some q1 \<Rightarrow> pipe_run put get all ops q1)"
| "pipe_run put get all (GetOp n # ops) q =
     (case get n q of None \<Rightarrow> None
      | Some (xs, q1) \<Rightarrow> map_option (\<lambda>(ys, q2). (xs @ ys, q2)) (pipe_run put get all ops q1))"
| "pipe_run put get all (AllOp # ops) q =
     (case all q of None \<Rightarrow> None
      | Some (xs, q1) \<Rightarrow> map_option (\<lambda>(ys, q2). (xs @ ys, q2)) (pipe_run put get all ops q1))"

locale byte_pipe =
  fixes put :: "octets \<Rightarrow> 'q \<Rightarrow> 'q option"
    and get :: "nat \<Rightarrow> 'q \<Rightarrow> (octets \<times> 'q) option"
    and all :: "'q \<Rightarrow> (octets \<times> 'q) option"
    and held :: "'q \<Rightarrow> octets"
    and mark :: "'q \<Rightarrow> nat"
    and invar :: "'q \<Rightarrow> bool"
  assumes put_ok: "invar q \<Longrightarrow> mark q + length xs < 2 ^ 31 \<Longrightarrow>
      \<exists>q'. put xs q = Some q' \<and> invar q' \<and> held q' = held q @ xs \<and> mark q' \<le> mark q + length xs"
    and get_ok: "invar q \<Longrightarrow> mark q < 2 ^ 31 \<Longrightarrow>
      \<exists>q'. get n q = Some (take n (held q), q') \<and> invar q' \<and> held q' = drop n (held q) \<and> mark q' \<le> mark q"
    and all_ok: "invar q \<Longrightarrow> \<exists>q'. all q = Some (held q, q') \<and> invar q' \<and> held q' = [] \<and> mark q' \<le> mark q"
begin

lemma pipe_run_stream:
  "invar q \<Longrightarrow> mark q + length (concat (map op_octets ops)) < 2 ^ 31 \<Longrightarrow>
     \<exists>out q'. pipe_run put get all ops q = Some (out, q') \<and> invar q' \<and>
       out @ held q' = held q @ concat (map op_octets ops)"
proof (induction ops arbitrary: q)
  case (Cons op ops)
  show ?case
  proof (cases op)
    case (PutOp xs)
    obtain q1 where q1: "put xs q = Some q1" "invar q1" "held q1 = held q @ xs" "mark q1 \<le> mark q + length xs"
      using put_ok [OF Cons.prems(1), of xs] Cons.prems(2) PutOp by auto
    then show ?thesis using Cons.IH [of q1] Cons.prems(2) PutOp by auto
  next
    case (GetOp n)
    obtain q1 where q1: "get n q = Some (take n (held q), q1)" "invar q1" "held q1 = drop n (held q)" "mark q1 \<le> mark q"
      using get_ok [OF Cons.prems(1), of n] Cons.prems(2) by auto
    then obtain out q2 where "pipe_run put get all ops q1 = Some (out, q2)" "invar q2"
      "out @ held q2 = held q1 @ concat (map op_octets ops)"
      using Cons.IH [of q1] Cons.prems(2) GetOp by auto
    then show ?thesis using q1 GetOp by simp
  next
    case AllOp
    obtain q1 where q1: "all q = Some (held q, q1)" "invar q1" "held q1 = []" "mark q1 \<le> mark q"
      using all_ok [OF Cons.prems(1)] by auto
    then show ?thesis using Cons.IH [of q1] Cons.prems(2) AllOp by auto
  qed
qed simp

end

text \<open>A reader that asks for no more than \<^verbatim>\<open>GetReadableSize\<close>.\<close>

definition retrieve_upto :: "nat \<Rightarrow> buffer \<Rightarrow> (octets \<times> buffer) option" where
  "retrieve_upto n b = RetriveAsString (of_nat (min n (unat (GetReadableSize b)))) b"

interpretation buf_pipe: byte_pipe Append retrieve_upto RetriveAllAsString content "\<lambda>b. unat (m_writeidx b)" buf_ok
proof
  fix q :: buffer and xs :: octets
  assume "buf_ok q" "unat (m_writeidx q) + length xs < 2 ^ 31"
  then show "\<exists>q'. Append xs q = Some q' \<and> buf_ok q' \<and> content q' = content q @ xs \<and>
      unat (m_writeidx q') \<le> unat (m_writeidx q) + length xs"
    by (intro Append_spec) simp_all
next
  fix q :: buffer and n :: nat
  assume q: "buf_ok q" "unat (m_writeidx q) < 2 ^ 31"
  have "length (content q) < 2 ^ 31" using q length_content [OF q(1)] by simp
  moreover have "take (min n (length c)) c = take n c" "drop (min n (length c)) c = drop n c" for c :: octets
    by (simp_all add: min_def)
  moreover have "min n (length (content q)) < 2 ^ 31" using calculation(1) by simp
  ultimately show "\<exists>q'. retrieve_upto n q = Some (take n (content q), q') \<and> buf_ok q' \<and> content q' = drop n (content q) \<and>
      unat (m_writeidx q') \<le> unat (m_writeidx q)"
    using RetriveAsString_spec [OF q(1), of "min n (length (content q))"] unat_readable [OF q(1)]
    by (fastforce simp: retrieve_upto_def)
next
  fix q :: buffer
  assume "buf_ok q"
  then show "\<exists>q'. RetriveAllAsString q = Some (content q, q') \<and> buf_ok q' \<and> content q' = [] \<and>
      unat (m_writeidx q') \<le> unat (m_writeidx q)"
    using RetriveAll_spec by fastforce
qed

section \<open>Properties\<close>

text \<open>C10. The buffer is a pipe. On a new buffer of any initial size, every sequence of appends,
  reads of at most the readable size, and reads of everything runs without leaving the vector
  (through moves and growths alike), and the octets read, followed by what is still readable,
  are the octets appended, in order, as long as fewer than \<^verbatim>\<open>INT_MAX\<close> octets are appended in all.
  Reading more than is readable, in contrast, is not detected as long as it stays inside the
  vector, and then the readable size wraps around.\<close>

theorem buffer_is_a_pipe:
  assumes "length (concat (map op_octets ops)) < 2 ^ 31" "sz < 2 ^ 63"
  shows "(\<exists>out b. pipe_run Append retrieve_upto RetriveAllAsString ops (Buffer_init sz) = Some (out, b) \<and>
       out @ content b = concat (map op_octets ops) \<and> buf_ok b \<and>
       unat (GetReadableSize b) = length (concat (map op_octets ops)) - length out) \<and>
    (0 < sz \<longrightarrow> (\<exists>x b. RetriveAsString 1 (Buffer_init sz) = Some (x, b) \<and> GetReadableSize b = 2 ^ 64 - 1))"
proof -
  have i: "buf_ok (Buffer_init sz)" "content (Buffer_init sz) = []" "unat (m_writeidx (Buffer_init sz)) = 0"
    using assms(2) by (simp_all add: Buffer_init_def buf_ok_def content_def sub_octets_def)
  obtain out b where r: "pipe_run Append retrieve_upto RetriveAllAsString ops (Buffer_init sz) = Some (out, b)"
    "buf_ok b" "out @ content b = concat (map op_octets ops)"
    using buf_pipe.pipe_run_stream [OF i(1), of ops] i assms(1) by auto
  then have "unat (GetReadableSize b) = length (concat (map op_octets ops)) - length out"
    using unat_readable [OF r(2)] by (metis add_diff_cancel_left' length_append)
  moreover have "scast (1 :: i32) = (1 :: u64)" by simp
  ultimately show ?thesis
    using r by (simp add: RetriveAsString_def Buffer_init_def AdvanceReader_def GetReadableSize_def)
qed

theorem buffer_is_a_pipe_witness:
  "\<exists>out b. pipe_run Append retrieve_upto RetriveAllAsString [PutOp [1, 2, 3], GetOp 2, PutOp [4, 5, 6]] (Buffer_init 4) =
     Some (out, b) \<and> out @ content b = [1, 2, 3, 4, 5, 6]"
  using buffer_is_a_pipe [of "[PutOp [1, 2, 3], GetOp 2, PutOp [4, 5, 6]]" 4] by auto

end
