(* ===== verification/Std_Heap.thy ===== *)
theory Std_Heap
  imports Main "HOL-Library.Multiset"
begin

text \<open>
  The heap behind \<^verbatim>\<open>std::priority_queue\<close>, which \<^verbatim>\<open>easy_net/net/timer_policy.h\<close> uses:
  a vector with the algorithms \<^verbatim>\<open>std::push_heap\<close> and \<^verbatim>\<open>std::pop_heap\<close> of the C++
  library, over the comparison \<open>gt\<close> the program supplies (its \<^verbatim>\<open>TimerGreater\<close>). Both move
  a hole through the vector and put the value in at the end. The order of elements that
  compare equal is the one these algorithms give.
\<close>

section \<open>The algorithms\<close>

fun push_up :: "('a \<Rightarrow> 'a \<Rightarrow> bool) \<Rightarrow> 'a list \<Rightarrow> nat \<Rightarrow> 'a \<Rightarrow> 'a list" where
  "push_up gt h hole v =
     (if hole > 0 \<and> gt (h ! ((hole - 1) div 2)) v
      then push_up gt (h[hole := h ! ((hole - 1) div 2)]) ((hole - 1) div 2) v
      else h[hole := v])"

declare push_up.simps [simp del]

definition min_child :: "('a \<Rightarrow> 'a \<Rightarrow> bool) \<Rightarrow> 'a list \<Rightarrow> nat \<Rightarrow> nat" where
  "min_child gt h hole =
     (let second = 2 * (hole + 1) in if gt (h ! second) (h ! (second - 1)) then second - 1 else second)"

function adjust_heap :: "('a \<Rightarrow> 'a \<Rightarrow> bool) \<Rightarrow> 'a list \<Rightarrow> nat \<Rightarrow> 'a \<Rightarrow> 'a list" where
  "adjust_heap gt h hole v =
     (let len = length h in
      if hole < (len - 1) div 2
      then (let c = min_child gt h hole in adjust_heap gt (h[hole := h ! c]) c v)
      else if even len \<and> hole = (len - 2) div 2
      then (let c = 2 * (hole + 1) - 1 in push_up gt (h[hole := h ! c]) c v)
      else push_up gt h hole v)"
  by pat_completeness auto
termination by (relation "measure (\<lambda>(gt, h, hole, v). length h - hole)") (auto simp: min_child_def Let_def)

declare adjust_heap.simps [simp del]

definition heap_push :: "('a \<Rightarrow> 'a \<Rightarrow> bool) \<Rightarrow> 'a \<Rightarrow> 'a list \<Rightarrow> 'a list" where
  "heap_push gt v h = push_up gt (h @ [v]) (length h) v"

text \<open>\<^verbatim>\<open>pop\<close> of an empty queue is undefined.\<close>

definition heap_pop :: "('a \<Rightarrow> 'a \<Rightarrow> bool) \<Rightarrow> 'a list \<Rightarrow> 'a list option" where
  "heap_pop gt h =
     (if h = [] then None
      else if length h > 1 then Some (adjust_heap gt (butlast h) 0 (last h))
      else Some [])"

section \<open>What they keep\<close>

lemma length_push_up [simp]: "length (push_up gt h hole v) = length h"
  by (induction gt h hole v rule: push_up.induct) (subst push_up.simps, simp)

text \<open>Moving the element \<open>j\<close> into the hole \<open>i\<close> moves the hole.\<close>

lemma mset_move_hole:
  assumes "i < length h" "j < length h" "i \<noteq> j"
  shows "mset (h[i := h ! j, j := v]) = mset (h[i := v])"
  using assms by (simp add: mset_update nth_list_update) 

lemma mset_push_up: "hole < length h \<Longrightarrow> mset (push_up gt h hole v) = mset (h[hole := v])"
proof (induction gt h hole v rule: push_up.induct)
  case (1 gt h hole v)
  show ?case
  proof (cases "hole > 0 \<and> gt (h ! ((hole - 1) div 2)) v")
    case True
    then have "(hole - 1) div 2 < length h" "hole \<noteq> (hole - 1) div 2" using "1.prems" by auto
    then show ?thesis using True 1 mset_move_hole [of hole h "(hole - 1) div 2" v] by (subst push_up.simps) simp
  next
    case False
    then show ?thesis by (subst push_up.simps) auto
  qed
qed

lemma mset_adjust_heap: "hole < length h \<Longrightarrow> mset (adjust_heap gt h hole v) = mset (h[hole := v])"
proof (induction gt h hole v rule: adjust_heap.induct)
  case (1 gt h hole v)
  let ?c = "min_child gt h hole"
  consider (down) "hole < (length h - 1) div 2"
    | (left) "\<not> hole < (length h - 1) div 2" "even (length h)" "hole = (length h - 2) div 2"
    | (leaf) "\<not> hole < (length h - 1) div 2" "\<not> (even (length h) \<and> hole = (length h - 2) div 2)"
    by blast
  then show ?case
  proof cases
    case down
    then have "?c < length h" "hole \<noteq> ?c" by (auto simp: min_child_def Let_def)
    then show ?thesis
      using 1(1) [OF refl down refl] mset_move_hole [of hole h ?c v] 1(2) down
      by (subst adjust_heap.simps) (simp add: Let_def)
  next
    case left
    have "2 \<le> length h" using left(2) 1(2) by presburger
    then have "2 * (hole + 1) - 1 < length h" "hole \<noteq> 2 * (hole + 1) - 1" using left by auto
    then show ?thesis
      using left mset_move_hole [of hole h "2 * (hole + 1) - 1" v] 1(2)
      by (subst adjust_heap.simps) (simp add: Let_def mset_push_up)
  next
    case leaf
    then show ?thesis using 1(2) by (subst adjust_heap.simps) (auto simp: Let_def mset_push_up)
  qed
qed

lemma mset_heap_push: "mset (heap_push gt v h) = add_mset v (mset h)"
  by (simp add: heap_push_def mset_push_up)

lemma mset_heap_pop:
  assumes "h \<noteq> []"
  shows "\<exists>h'. heap_pop gt h = Some h' \<and> mset h' = mset h - {#hd h#}"
proof (cases "length h > 1")
  case True
  obtain x xs where h: "h = x # xs" "xs \<noteq> []" using True by (cases h) auto
  have "mset (adjust_heap gt (butlast h) 0 (last h)) = mset ((butlast h)[0 := last h])"
    using h by (intro mset_adjust_heap) simp
  also have "\<dots> = mset xs"
  proof -
    have "add_mset (last xs) (mset (butlast xs)) = mset (butlast xs @ [last xs])" by simp
    also have "\<dots> = mset xs" by (simp only: append_butlast_last_id [OF h(2)])
    finally show ?thesis using h by simp
  qed
  finally show ?thesis using True h by (simp add: heap_pop_def)
next
  case False
  then show ?thesis using assms by (cases h) (auto simp: heap_pop_def)
qed

section \<open>The heap order\<close>

definition up :: "nat \<Rightarrow> nat" where
  "up i = (i - 1) div 2"

lemma up_less: "0 < i \<Longrightarrow> up i < i"
  by (simp add: up_def) 

lemma children: "0 < i \<Longrightarrow> up i = j \<longleftrightarrow> i = 2 * j + 1 \<or> i = 2 * j + 2"
  by (auto simp: up_def)

text \<open>
  All the algorithms need of the comparison is that it is the order of some key, strict or
  not; \<^verbatim>\<open>TimerGreater\<close> is the reflexive one.
\<close>

locale heap_order =
  fixes gt :: "'a \<Rightarrow> 'a \<Rightarrow> bool" and key :: "'a \<Rightarrow> 'k :: linorder"
  assumes gt_iff: "gt a b \<longleftrightarrow> key b \<le> key a"
begin

definition is_heap :: "'a list \<Rightarrow> bool" where
  "is_heap h \<longleftrightarrow> (\<forall>i. 0 < i \<and> i < length h \<longrightarrow> key (h ! up i) \<le> key (h ! i))"

text \<open>A heap but for the element at \<open>hole\<close>.\<close>

definition holed :: "'a list \<Rightarrow> nat \<Rightarrow> bool" where
  "holed h hole \<longleftrightarrow> hole < length h \<and>
     (\<forall>i. 0 < i \<and> i < length h \<and> i \<noteq> hole \<and> up i \<noteq> hole \<longrightarrow> key (h ! up i) \<le> key (h ! i)) \<and>
     (\<forall>i. 0 < hole \<and> 0 < i \<and> i < length h \<and> up i = hole \<longrightarrow> key (h ! up hole) \<le> key (h ! i))"

lemma holedD:
  assumes "holed h hole"
  shows "hole < length h"
    "0 < i \<Longrightarrow> i < length h \<Longrightarrow> i \<noteq> hole \<Longrightarrow> up i \<noteq> hole \<Longrightarrow> key (h ! up i) \<le> key (h ! i)"
    "0 < hole \<Longrightarrow> 0 < i \<Longrightarrow> i < length h \<Longrightarrow> up i = hole \<Longrightarrow> key (h ! up hole) \<le> key (h ! i)"
  using assms unfolding holed_def by blast+

lemma is_heap_push_up:
  "holed h hole \<Longrightarrow> (\<And>i. 0 < i \<Longrightarrow> i < length h \<Longrightarrow> up i = hole \<Longrightarrow> key v \<le> key (h ! i)) \<Longrightarrow>
     is_heap (push_up gt h hole v)"
proof (induction hole arbitrary: h rule: less_induct)
  case (less hole)
  note H = holedD [OF less.prems(1)] and ch = less.prems(2)
  show ?case
  proof (cases "hole > 0 \<and> gt (h ! up hole) v")
    case True
    let ?p = "up hole" and ?h = "h[hole := h ! up hole]"
    have p: "?p < hole" "?p < length h" using True up_less [of hole] H(1) by auto
    have k: "key v \<le> key (h ! ?p)" using True gt_iff by blast
    have sib: "key (h ! ?p) \<le> key (?h ! i)" if "0 < i" "i < length h" "up i = ?p" for i
      using that H(1) H(2) [of i] p by (cases "i = hole") auto
    have "holed ?h ?p"
      unfolding holed_def
    proof (intro conjI allI impI)
      fix i assume i: "0 < i \<and> i < length ?h \<and> i \<noteq> ?p \<and> up i \<noteq> ?p"
      then have "i \<noteq> hole" by auto
      then show "key (?h ! up i) \<le> key (?h ! i)"
        using i True H(1) H(2) [of i] H(3) [of i] by (cases "up i = hole") auto
    next
      fix i assume i: "0 < ?p \<and> 0 < i \<and> i < length ?h \<and> up i = ?p"
      have "key (h ! up ?p) \<le> key (h ! ?p)" using i p up_less [of ?p] H(2) [of ?p] by auto
      then show "key (?h ! up ?p) \<le> key (?h ! i)" using i p up_less [of ?p] sib [of i] by auto
    qed (simp add: p)
    moreover have "key v \<le> key (?h ! i)" if "0 < i" "i < length ?h" "up i = ?p" for i
      using sib [of i] that k by auto
    ultimately have "is_heap (push_up gt ?h ?p v)" by (intro less.IH p(1)) auto
    then show ?thesis using True by (subst push_up.simps) (simp add: up_def)
  next
    case False
    have "is_heap (h[hole := v])"
      unfolding is_heap_def
    proof (intro allI impI)
      fix i assume i: "0 < i \<and> i < length (h[hole := v])"
      consider "i = hole" | "up i = hole" "i \<noteq> hole" | "i \<noteq> hole" "up i \<noteq> hole" by blast
      then show "key (h[hole := v] ! up i) \<le> key (h[hole := v] ! i)"
      proof cases
        case 1
        then show ?thesis using i False gt_iff up_less [of i] by (auto simp: not_le)
      next
        case 2
        then show ?thesis using i H(1) ch [of i] by auto
      next
        case 3
        then show ?thesis using i H(2) [of i] by auto
      qed
    qed
    then show ?thesis using False by (subst push_up.simps) (auto simp: up_def)
  qed
qed

lemma is_heap_adjust: "holed h hole \<Longrightarrow> is_heap (adjust_heap gt h hole v)"
proof (induction "length h - hole" arbitrary: h hole rule: less_induct)
  case less
  note H = holedD [OF less.prems]
  have move: "holed (h[hole := h ! c]) c"
    if c: "0 < c" "c < length h" "up c = hole" and
      least: "\<And>i. 0 < i \<Longrightarrow> i < length h \<Longrightarrow> up i = hole \<Longrightarrow> key (h ! c) \<le> key (h ! i)" for c
    unfolding holed_def
  proof (intro conjI allI impI)
    have hc: "hole < c" using up_less c by auto
    fix i assume i: "0 < i \<and> i < length (h[hole := h ! c]) \<and> i \<noteq> c \<and> up i \<noteq> c"
    consider "i = hole" | "up i = hole" "i \<noteq> hole" | "i \<noteq> hole" "up i \<noteq> hole" by blast
    then show "key (h[hole := h ! c] ! up i) \<le> key (h[hole := h ! c] ! i)"
    proof cases
      case 1
      then show ?thesis using i c H(3) [of c] up_less [of i] by auto
    next
      case 2
      then show ?thesis using i H(1) least [of i] by auto
    next
      case 3
      then show ?thesis using i H(2) [of i] by auto
    qed
  next
    have hc: "hole < c" using up_less c by auto
    fix i assume i: "0 < c \<and> 0 < i \<and> i < length (h[hole := h ! c]) \<and> up i = c"
    then have "c < i" using up_less [of i] by auto
    then show "key (h[hole := h ! c] ! up c) \<le> key (h[hole := h ! c] ! i)"
      using i c hc H(1) H(2) [of i] by auto
  qed (simp add: c)
  let ?c = "min_child gt h hole"
  consider (down) "hole < (length h - 1) div 2"
    | (left) "\<not> hole < (length h - 1) div 2" "even (length h)" "hole = (length h - 2) div 2"
    | (leaf) "\<not> hole < (length h - 1) div 2" "\<not> (even (length h) \<and> hole = (length h - 2) div 2)"
    by blast
  then show ?case
  proof cases
    case down
    have c: "0 < ?c" "?c < length h" "up ?c = hole" "hole < ?c"
      using down by (auto simp: min_child_def Let_def up_def)
    have "key (h ! ?c) \<le> key (h ! i)" if "0 < i" "up i = hole" for i
      using that gt_iff by (auto simp: children min_child_def Let_def)
    then have "holed (h[hole := h ! ?c]) ?c" using move [OF c(1-3)] by blast
    then have "is_heap (adjust_heap gt (h[hole := h ! ?c]) ?c v)" using c less.hyps by auto
    then show ?thesis using down by (subst adjust_heap.simps) (simp add: Let_def)
  next
    case left
    let ?l = "2 * (hole + 1) - 1"
    have "2 \<le> length h" using left(2) H(1) by presburger
    then have e: "length h = 2 * hole + 2" using left(2,3) by auto
    then have l: "0 < ?l" "?l < length h" "up ?l = hole" and only: "\<And>i. 0 < i \<Longrightarrow> i < length h \<Longrightarrow> up i = hole \<Longrightarrow> i = ?l"
      by (auto simp: up_def)
    then have "holed (h[hole := h ! ?l]) ?l" using move [OF l] by auto
    moreover have "\<And>i. 0 < i \<Longrightarrow> i < length h \<Longrightarrow> up i \<noteq> ?l" using e by (auto simp: children)
    ultimately have "is_heap (push_up gt (h[hole := h ! ?l]) ?l v)" by (intro is_heap_push_up) auto
    then show ?thesis using left by (subst adjust_heap.simps) (simp add: Let_def)
  next
    case leaf
    have "\<And>i. 0 < i \<Longrightarrow> i < length h \<Longrightarrow> up i \<noteq> hole"
      using leaf by (simp add: children) presburger
    then have "is_heap (push_up gt h hole v)" using less.prems by (intro is_heap_push_up) auto
    then show ?thesis using leaf by (subst adjust_heap.simps) (auto simp: Let_def)
  qed
qed

lemma is_heap_push: "is_heap h \<Longrightarrow> is_heap (heap_push gt v h)"
proof -
  assume h: "is_heap h"
  have "key ((h @ [v]) ! up i) \<le> key ((h @ [v]) ! i)" if "0 < i" "i < length h" for i
    using that h up_less [of i] by (simp add: is_heap_def nth_append)
  moreover have "up i \<noteq> length h" if "0 < i" "i < length (h @ [v])" for i using up_less [of i] that by auto
  ultimately show ?thesis
    unfolding heap_push_def by (intro is_heap_push_up) (auto simp: holed_def)
qed

lemma is_heap_pop: "is_heap h \<Longrightarrow> heap_pop gt h = Some h' \<Longrightarrow> is_heap h'"
proof -
  assume h: "is_heap h" "heap_pop gt h = Some h'"
  have "key (butlast h ! up i) \<le> key (butlast h ! i)" if "0 < i" "i < length h - 1" for i
    using that h(1) up_less [of i] by (simp add: is_heap_def nth_butlast)
  then have "length h > 1 \<Longrightarrow> holed (butlast h) 0" by (auto simp: holed_def)
  then show ?thesis
    using h(2) is_heap_adjust [of "butlast h" 0 "last h"] by (auto simp: heap_pop_def is_heap_def split: if_splits)
qed

lemma heap_min:
  assumes "is_heap h" "x \<in> set h"
  shows "key (hd h) \<le> key x"
proof -
  have "i < length h \<Longrightarrow> key (h ! 0) \<le> key (h ! i)" for i
  proof (induction i rule: less_induct)
    case (less i)
    show ?case
    proof (cases "i = 0")
      case False
      then have "up i < i" "key (h ! up i) \<le> key (h ! i)" using up_less assms(1) less.prems by (auto simp: is_heap_def)
      then show ?thesis using less.IH [of "up i"] less.prems by (metis less_trans order_trans)
    qed simp
  qed
  then show ?thesis using assms(2) by (metis in_set_conv_nth hd_conv_nth empty_iff list.set(1))
qed

end

end
