(* ===== verification/Timers.thy ===== *)
theory Timers
  imports Prelude Std_Heap "HOL-Library.Product_Lexorder" "HOL-Library.Signed_Division"
begin

text \<open>
  The timers of the reactor library, \<^verbatim>\<open>easy_net/net/timer.h\<close> and
  \<^verbatim>\<open>easy_net/net/timer_policy.h\<close>: the timer itself, the heap \<^verbatim>\<open>MiniHeapTimer\<close> the event
  loop uses, and the list \<^verbatim>\<open>ListTimer\<close>. The clock is the argument \<open>clk\<close>: the \<open>n\<close>-th call of
  \<^verbatim>\<open>clock_gettime\<close> returns \<open>clk n\<close>. A callback is a number, and the argument \<open>cb\<close> says what
  the callback does to the queue of timers. Times are unbounded integers here; division
  truncates as in C++.
\<close>

section \<open>A timer\<close>

record timespec =
  tv_sec :: int
  tv_nsec :: int

datatype TimerType = E_EVERY | E_AFTER | E_AT

record timer =
  m_id :: u64
  m_cb :: nat
  m_expried_time :: timespec
  m_type :: TimerType
  m_interval :: int

text \<open>\<open>s_current_time\<close> and the counter of identifiers are static; \<open>ran\<close> records the callbacks that ran.\<close>

record timer_queue =
  m_timers :: "timer list"
  s_current_time :: timespec
  s_timer_id :: u64
  clock_reads :: nat
  ran :: "u64 list"
  undefined_behaviour :: bool

type_synonym clock = "nat \<Rightarrow> timespec"
type_synonym callbacks = "nat \<Rightarrow> timer_queue \<Rightarrow> timer_queue"

definition read_clock :: "clock \<Rightarrow> timer_queue \<Rightarrow> timespec \<times> timer_queue" where
  "read_clock clk q = (clk (clock_reads q), q\<lparr>clock_reads := clock_reads q + 1\<rparr>)"

definition update_curr_time :: "clock \<Rightarrow> timer_queue \<Rightarrow> timer_queue" where
  "update_curr_time clk q = (let (now, q1) = read_clock clk q in q1\<lparr>s_current_time := now\<rparr>)"

definition expiry_after :: "timespec \<Rightarrow> int \<Rightarrow> timespec" where
  "expiry_after now interval =
     \<lparr>tv_sec = tv_sec now + interval sdiv 1000, tv_nsec = tv_nsec now + (interval smod 1000) * 1000 * 1000\<rparr>"

definition Timer_init ::
  "clock \<Rightarrow> u64 \<Rightarrow> TimerType \<Rightarrow> nat \<Rightarrow> int \<Rightarrow> timer_queue \<Rightarrow> timer \<times> timer_queue" where
  "Timer_init clk i ty c interval q =
     (let q1 = update_curr_time clk q
      in (\<lparr>m_id = i, m_cb = c, m_expried_time = expiry_after (s_current_time q1) interval, m_type = ty,
           m_interval = interval\<rparr>, q1))"

definition timer_gt :: "timer \<Rightarrow> timer \<Rightarrow> bool" where
  "timer_gt a b \<longleftrightarrow>
     tv_sec (m_expried_time a) > tv_sec (m_expried_time b) \<or>
     tv_sec (m_expried_time a) = tv_sec (m_expried_time b) \<and> tv_nsec (m_expried_time a) \<ge> tv_nsec (m_expried_time b)"

definition expired :: "timespec \<Rightarrow> timer \<Rightarrow> bool" where
  "expired now t =
     (case m_type t of
        E_AT \<Rightarrow> False
      | _ \<Rightarrow>
          (let diff_s = tv_sec now - tv_sec (m_expried_time t);
               diff_ms = tv_nsec now sdiv 1000000 - tv_nsec (m_expried_time t) sdiv 1000000
           in diff_s > 0 \<or> diff_s = 0 \<and> diff_ms \<ge> 0))"

definition update_expired_time :: "clock \<Rightarrow> timer \<Rightarrow> timer_queue \<Rightarrow> timer \<times> timer_queue" where
  "update_expired_time clk t q =
     (let (now, q1) = read_clock clk q in (t\<lparr>m_expried_time := expiry_after now (m_interval t)\<rparr>, q1))"

definition get_expired_time :: "timespec \<Rightarrow> timer \<Rightarrow> int" where
  "get_expired_time now t =
     (let tm = (tv_sec (m_expried_time t) - tv_sec now) * 1000 +
               (tv_nsec (m_expried_time t) - tv_nsec now) sdiv 1000000
      in if tm < 0 then 0 else tm)"

definition run_task :: "callbacks \<Rightarrow> timer \<Rightarrow> timer_queue \<Rightarrow> timer_queue" where
  "run_task cb t q = cb (m_cb t) (q\<lparr>ran := ran q @ [m_id t]\<rparr>)"

definition GenTimerID :: "timer_queue \<Rightarrow> u64 \<times> timer_queue" where
  "GenTimerID q = (let i = s_timer_id q + 1 in (i, q\<lparr>s_timer_id := i\<rparr>))"

definition KDefaultWaitTimeMS :: int where "KDefaultWaitTimeMS = 10"

section \<open>The heap of timers\<close>

definition MiniHeap_GetNextExpiredTime :: "timer_queue \<Rightarrow> int" where
  "MiniHeap_GetNextExpiredTime q =
     (case m_timers q of [] \<Rightarrow> KDefaultWaitTimeMS | t # _ \<Rightarrow> get_expired_time (s_current_time q) t)"

definition MiniHeap_AddTimer ::
  "clock \<Rightarrow> int \<Rightarrow> TimerType \<Rightarrow> nat \<Rightarrow> timer_queue \<Rightarrow> u64 \<times> timer_queue" where
  "MiniHeap_AddTimer clk tm ty c q =
     (let (i, q1) = GenTimerID q;
          (t, q2) = Timer_init clk i ty c tm q1
      in (i, q2\<lparr>m_timers := heap_push timer_gt t (m_timers q2)\<rparr>))"

text \<open>The loop of \<^verbatim>\<open>CancelTimer\<close> empties the queue into \<open>tmp\<close>; each round pops one element.\<close>

fun cancel_rounds :: "nat \<Rightarrow> u64 \<Rightarrow> timer list \<Rightarrow> timer list \<Rightarrow> timer list" where
  "cancel_rounds 0 i h tmp = tmp"
| "cancel_rounds (Suc n) i h tmp =
     (case heap_pop timer_gt h of
        None \<Rightarrow> tmp
      | Some h1 \<Rightarrow> cancel_rounds n i h1 (if m_id (hd h) \<noteq> i then heap_push timer_gt (hd h) tmp else tmp))"

definition MiniHeap_CancelTimer :: "u64 \<Rightarrow> timer_queue \<Rightarrow> timer_queue" where
  "MiniHeap_CancelTimer i q =
     q\<lparr>m_timers := cancel_rounds (length (m_timers q)) i (m_timers q) []\<rparr>"

text \<open>
  The loop of \<^verbatim>\<open>HandleExpiredTimer\<close> for at most \<open>n\<close> rounds; \<open>None\<close> is a loop that is still
  running then. It pops the queue as the callback left it; a callback that emptied it makes
  that undefined.
\<close>

definition pop_timer :: "timer_queue \<Rightarrow> timer_queue option" where
  "pop_timer q = map_option (\<lambda>h. q\<lparr>m_timers := h\<rparr>) (heap_pop timer_gt (m_timers q))"

fun MiniHeap_HandleExpiredTimer :: "nat \<Rightarrow> clock \<Rightarrow> callbacks \<Rightarrow> timer_queue \<Rightarrow> timer_queue option" where
  "MiniHeap_HandleExpiredTimer 0 clk cb q = None"
| "MiniHeap_HandleExpiredTimer (Suc n) clk cb q =
     (case m_timers q of
        [] \<Rightarrow> Some q
      | t # _ \<Rightarrow>
          (let q1 = update_curr_time clk q in
           if expired (s_current_time q1) t
           then (case m_type t of
                   E_EVERY \<Rightarrow>
                     (let q2 = update_curr_time clk (run_task cb t q1);
                          (t1, q3) = update_expired_time clk t q2
                      in case pop_timer q3 of
                           None \<Rightarrow> Some (q3\<lparr>undefined_behaviour := True\<rparr>)
                         | Some q4 \<Rightarrow>
                             MiniHeap_HandleExpiredTimer n clk cb
                               (q4\<lparr>m_timers := heap_push timer_gt t1 (m_timers q4)\<rparr>))
                 | E_AFTER \<Rightarrow>
                     (let q2 = run_task cb t q1
                      in case pop_timer q2 of
                           None \<Rightarrow> Some (q2\<lparr>undefined_behaviour := True\<rparr>)
                         | Some q3 \<Rightarrow> MiniHeap_HandleExpiredTimer n clk cb q3)
                 | E_AT \<Rightarrow> MiniHeap_HandleExpiredTimer n clk cb q1)
           else Some q1))"

section \<open>The list of timers\<close>

definition List_GetNextExpiredTime :: "timer_queue \<Rightarrow> int" where
  "List_GetNextExpiredTime q =
     (case m_timers q of [] \<Rightarrow> KDefaultWaitTimeMS | t # _ \<Rightarrow> get_expired_time (s_current_time q) t)"

text \<open>The new timer goes before the first one that expires later than \<open>tm\<close> from the time last read.\<close>

definition List_AddTimer ::
  "clock \<Rightarrow> int \<Rightarrow> TimerType \<Rightarrow> nat \<Rightarrow> timer_queue \<Rightarrow> u64 \<times> timer_queue" where
  "List_AddTimer clk tm ty c q =
     (let (i, q1) = GenTimerID q;
          earlier = (\<lambda>t. \<not> tm < get_expired_time (s_current_time q1) t);
          before = takeWhile earlier (m_timers q1);
          behind = dropWhile earlier (m_timers q1);
          (t, q2) = Timer_init clk i ty c tm q1
      in (i, q2\<lparr>m_timers := before @ t # behind\<rparr>))"

definition List_CancelTimer :: "u64 \<Rightarrow> timer_queue \<Rightarrow> timer_queue" where
  "List_CancelTimer i q = q\<lparr>m_timers := filter (\<lambda>t. m_id t \<noteq> i) (m_timers q)\<rparr>"

text \<open>
  The iteration of \<^verbatim>\<open>ListTimer::HandleExpiredTimer\<close> over the timers from the iterator on,
  for callbacks that leave the list alone. A one-shot timer is erased with
  \<^verbatim>\<open>erase(it++)\<close>, and the \<^verbatim>\<open>++it\<close> of the loop then passes over the timer behind it;
  behind the last one it advances past the end, which is undefined (\<open>None\<close>).
\<close>

fun list_handle :: "clock \<Rightarrow> callbacks \<Rightarrow> timer list \<Rightarrow> timer_queue \<Rightarrow> (timer list \<times> timer_queue) option" where
  "list_handle clk cb [] q = Some ([], q)"
| "list_handle clk cb (t # rest) q =
     (let q1 = update_curr_time clk q in
      if expired (s_current_time q1) t
      then (case m_type t of
              E_EVERY \<Rightarrow>
                (let (t1, q2) = update_expired_time clk t (run_task cb t q1)
                 in map_option (\<lambda>(ts, q'). (t1 # ts, q')) (list_handle clk cb rest (update_curr_time clk q2)))
            | E_AFTER \<Rightarrow>
                (let q2 = run_task cb t q1
                 in case rest of
                      [] \<Rightarrow> None
                    | t' # rest' \<Rightarrow> map_option (\<lambda>(ts, q'). (t' # ts, q')) (list_handle clk cb rest' q2))
            | E_AT \<Rightarrow> map_option (\<lambda>(ts, q'). (t # ts, q')) (list_handle clk cb rest q1))
      else map_option (\<lambda>(ts, q'). (t # ts, q')) (list_handle clk cb rest q1))"

definition List_HandleExpiredTimer :: "clock \<Rightarrow> callbacks \<Rightarrow> timer_queue \<Rightarrow> timer_queue option" where
  "List_HandleExpiredTimer clk cb q =
     map_option (\<lambda>(ts, q1). q1\<lparr>m_timers := sort_key (get_expired_time (s_current_time q1)) ts\<rparr>)
       (list_handle clk cb (m_timers q) q)"

section \<open>When a timer expires\<close>

lemma sdiv_nonneg: "0 \<le> k \<Longrightarrow> 0 < l \<Longrightarrow> k sdiv l = k div l" for k l :: int
  by (simp add: signed_divide_int_def sgn_if)

lemma smod_nonneg: "0 \<le> k \<Longrightarrow> 0 < l \<Longrightarrow> k smod l = k mod l" for k l :: int
  by (cases "k = 0") (simp_all add: signed_modulo_int_def)

definition normal :: "timespec \<Rightarrow> bool" where
  "normal t \<longleftrightarrow> 0 \<le> tv_nsec t \<and> tv_nsec t < 1000000000"

text \<open>Milliseconds of a time.\<close>

definition msecs :: "timespec \<Rightarrow> int" where
  "msecs t = 1000 * tv_sec t + tv_nsec t div 1000000"

lemma expired_iff:
  assumes "m_type t \<noteq> E_AT" "0 \<le> tv_nsec now" "0 \<le> tv_nsec (m_expried_time t)"
  shows "expired now t \<longleftrightarrow>
    (tv_sec (m_expried_time t), tv_nsec (m_expried_time t) div 1000000) \<le> (tv_sec now, tv_nsec now div 1000000)"
  using assms by (cases "m_type t") (auto simp: expired_def Let_def sdiv_nonneg)

lemma msecs_lex:
  fixes s N m M :: int
  assumes "0 \<le> m" "m < 1000" "0 \<le> M" "M < 1000"
  shows "s < N \<or> s = N \<and> m \<le> M \<longleftrightarrow> 1000 * s + m \<le> 1000 * N + M"
  using assms by auto

text \<open>When a timer fires. A timer armed at the time \<open>a\<close> for \<open>i\<close> milliseconds asks the poller to
  wait exactly \<open>i\<close> milliseconds. If the sum of the nanoseconds stays below a second it is
  expired exactly from \<open>i\<close> milliseconds after \<open>a\<close> on. Otherwise the carry into the seconds is
  missing: it is expired as soon as the second counter passes \<^verbatim>\<open>tv_sec\<close>, which is earlier than
  that by the part of the nanoseconds above a second.\<close>

theorem timer_expiry:
  assumes "normal a" "normal now" "0 \<le> i" "m_type t \<noteq> E_AT" "m_expried_time t = expiry_after a i"
  shows "get_expired_time a t = i \<and>
    (tv_nsec a + (i mod 1000) * 1000000 < 1000000000 \<longrightarrow> (expired now t \<longleftrightarrow> msecs a + i \<le> msecs now)) \<and>
    (tv_nsec a + (i mod 1000) * 1000000 \<ge> 1000000000 \<longrightarrow>
       (expired now t \<longleftrightarrow> tv_sec a + i div 1000 < tv_sec now) \<and>
       (now = \<lparr>tv_sec = tv_sec a + i div 1000 + 1, tv_nsec = 0\<rparr> \<longrightarrow>
          expired now t \<and> msecs a + i - msecs now = tv_nsec a div 1000000 + i mod 1000 - 1000))"
proof -
  let ?d = "tv_nsec a + (i mod 1000) * 1000000"
  have e: "tv_sec (m_expried_time t) = tv_sec a + i div 1000" "tv_nsec (m_expried_time t) = ?d"
    using assms(3,5) by (simp_all add: expiry_after_def sdiv_nonneg smod_nonneg)
  have nn: "0 \<le> tv_nsec a" "0 \<le> tv_nsec now" "tv_nsec now div 1000000 < 1000" "0 \<le> tv_nsec now div 1000000" "0 \<le> ?d"
    using assms(1,2) by (auto simp: normal_def)
  have g: "get_expired_time a t = i"
    using assms(3) by (simp add: get_expired_time_def e Let_def sdiv_nonneg)
  have dv: "?d div 1000000 = tv_nsec a div 1000000 + i mod 1000" by simp
  have x: "expired now t \<longleftrightarrow> tv_sec a + i div 1000 < tv_sec now \<or>
      tv_sec a + i div 1000 = tv_sec now \<and> tv_nsec a div 1000000 + i mod 1000 \<le> tv_nsec now div 1000000"
    using expired_iff [OF assms(4) nn(2)] nn(5) unfolding e dv by auto
  have "expired now t \<longleftrightarrow> msecs a + i \<le> msecs now" if "?d < 1000000000"
  proof -
    have "tv_nsec a div 1000000 + i mod 1000 < 1000" using that unfolding dv [symmetric] by simp
    moreover have "0 \<le> tv_nsec a div 1000000 + i mod 1000" using nn(1) by (intro add_nonneg_nonneg) simp_all
    ultimately have "expired now t \<longleftrightarrow>
        1000 * (tv_sec a + i div 1000) + (tv_nsec a div 1000000 + i mod 1000) \<le> 1000 * tv_sec now + tv_nsec now div 1000000"
      unfolding x using nn(3,4) by (intro msecs_lex) simp_all
    moreover have "1000 * (tv_sec a + i div 1000) + (tv_nsec a div 1000000 + i mod 1000) = msecs a + i"
      using mult_div_mod_eq [of 1000 i] by (simp add: msecs_def)
    ultimately show ?thesis by (simp only:) (simp add: msecs_def add.commute)
  qed
  moreover have "expired now t \<longleftrightarrow> tv_sec a + i div 1000 < tv_sec now" if "?d \<ge> 1000000000"
  proof -
    have "tv_nsec a div 1000000 + i mod 1000 \<ge> 1000" using that unfolding dv [symmetric] by simp
    then show ?thesis unfolding x using nn(3) by auto
  qed
  ultimately show ?thesis using g by (auto simp: msecs_def minus_mult_div_eq_mod)
qed

theorem timer_expiry_witness:
  "expired \<lparr>tv_sec = 11, tv_nsec = 0\<rparr>
     \<lparr>m_id = 1, m_cb = 0, m_expried_time = expiry_after \<lparr>tv_sec = 10, tv_nsec = 900000000\<rparr> 900, m_type = E_AFTER,
      m_interval = 900\<rparr> \<and>
   msecs \<lparr>tv_sec = 10, tv_nsec = 900000000\<rparr> + 900 - msecs \<lparr>tv_sec = 11, tv_nsec = 0\<rparr> = 800"
  using timer_expiry [of "\<lparr>tv_sec = 10, tv_nsec = 900000000\<rparr>" "\<lparr>tv_sec = 11, tv_nsec = 0\<rparr>" 900
      "\<lparr>m_id = 1, m_cb = 0, m_expried_time = expiry_after \<lparr>tv_sec = 10, tv_nsec = 900000000\<rparr> 900, m_type = E_AFTER,
      m_interval = 900\<rparr>"]
  by (simp add: normal_def)

section \<open>One pass over the heap\<close>

definition timer_key :: "timer \<Rightarrow> int \<times> int" where
  "timer_key t = (tv_sec (m_expried_time t), tv_nsec (m_expried_time t))"

interpretation timer_heap: heap_order timer_gt timer_key
  by unfold_locales (auto simp: timer_gt_def timer_key_def)

text \<open>Callbacks that leave the queue alone; they may take any time.\<close>

abbreviation (input) quiet :: callbacks where "quiet \<equiv> \<lambda>c q. q"

definition timer_ok :: "timer \<Rightarrow> bool" where
  "timer_ok t \<longleftrightarrow> m_type t \<noteq> E_AT \<and> 0 < m_interval t \<and> 0 \<le> tv_nsec (m_expried_time t)"

lemma expired_mono:
  assumes "timer_ok s" "timer_ok t" "0 \<le> tv_nsec now" "timer_key s \<le> timer_key t" "expired now t"
  shows "expired now s"
proof -
  have "tv_nsec (m_expried_time s) \<le> tv_nsec (m_expried_time t) \<Longrightarrow>
      tv_nsec (m_expried_time s) div 1000000 \<le> tv_nsec (m_expried_time t) div 1000000"
    by (rule zdiv_mono1) simp_all
  then show ?thesis
    using assms expired_iff [of s now] expired_iff [of t now] by (auto simp: timer_ok_def timer_key_def)
qed

lemma rearmed_not_expired:
  assumes "0 < m_interval t" "0 \<le> tv_nsec now" "m_type t \<noteq> E_AT"
  shows "\<not> expired now (t\<lparr>m_expried_time := expiry_after now (m_interval t)\<rparr>)"
proof -
  let ?t = "t\<lparr>m_expried_time := expiry_after now (m_interval t)\<rparr>"
  let ?r = "m_interval t mod 1000" and ?k = "m_interval t div 1000"
  have r: "0 \<le> ?r" "0 \<le> ?k" "m_interval t = 1000 * ?k + ?r" using assms(1) by simp_all
  then have kr: "0 < ?k \<or> ?k = 0 \<and> 0 < ?r" using assms(1) by linarith
  have e: "tv_sec (m_expried_time ?t) = tv_sec now + ?k" "tv_nsec (m_expried_time ?t) = tv_nsec now + ?r * 1000000"
    using assms(1) by (simp_all add: expiry_after_def sdiv_nonneg smod_nonneg)
  have dv: "(tv_nsec now + ?r * 1000000) div 1000000 = tv_nsec now div 1000000 + ?r" by simp
  have "expired now ?t \<longleftrightarrow>
      (tv_sec (m_expried_time ?t), tv_nsec (m_expried_time ?t) div 1000000) \<le> (tv_sec now, tv_nsec now div 1000000)"
    by (rule expired_iff, unfold e) (use assms(2,3) r(1) in simp_all)
  then show ?thesis using kr unfolding e dv by (simp only: less_eq_prod_def fst_conv snd_conv) linarith
qed

definition rearm :: "timespec \<Rightarrow> timer \<Rightarrow> timer" where
  "rearm now t = t\<lparr>m_expried_time := expiry_after now (m_interval t)\<rparr>"

text \<open>What is due, and what remains of a collection of timers after the pass at the time \<open>now\<close>.\<close>

definition due :: "timespec \<Rightarrow> timer multiset \<Rightarrow> timer multiset" where
  "due now T = filter_mset (expired now) T"

definition after_tick :: "timespec \<Rightarrow> timer multiset \<Rightarrow> timer multiset" where
  "after_tick now T =
     filter_mset (\<lambda>t. \<not> expired now t) T +
     image_mset (rearm now) (filter_mset (\<lambda>t. m_type t = E_EVERY) (due now T))"

definition q_ok :: "timer_queue \<Rightarrow> bool" where
  "q_ok q \<longleftrightarrow> timer_heap.is_heap (m_timers q) \<and> (\<forall>t \<in> set (m_timers q). timer_ok t) \<and> \<not> undefined_behaviour q"

lemma pop_top:
  assumes "timer_heap.is_heap (t # ts)"
  obtains h where "heap_pop timer_gt (t # ts) = Some h" "timer_heap.is_heap h" "mset h = mset ts"
  using mset_heap_pop [of "t # ts" timer_gt] timer_heap.is_heap_pop [OF assms] by auto

lemma tick_simps:
  "expired now t \<Longrightarrow> due now (add_mset t T) = add_mset t (due now T)"
  "\<not> expired now t \<Longrightarrow> due now (add_mset t T) = due now T"
  "\<not> expired now t \<Longrightarrow> after_tick now (add_mset t T) = add_mset t (after_tick now T)"
  "expired now t \<Longrightarrow> m_type t = E_AFTER \<Longrightarrow> after_tick now (add_mset t T) = after_tick now T"
  "expired now t \<Longrightarrow> m_type t = E_EVERY \<Longrightarrow> after_tick now (add_mset t T) = add_mset (rearm now t) (after_tick now T)"
  by (simp_all add: due_def after_tick_def)

lemma nothing_due:
  assumes "q_ok q" "m_timers q = t # ts" "0 \<le> tv_nsec now" "\<not> expired now t"
  shows "due now (mset (m_timers q)) = {#}" "after_tick now (mset (m_timers q)) = mset (m_timers q)"
proof -
  have "\<not> expired now s" if "s \<in> set (m_timers q)" for s
    using expired_mono [of t s now] timer_heap.heap_min [of "m_timers q" s] that assms by (auto simp: q_ok_def)
  then have "due now (mset (m_timers q)) = {#}" "filter_mset (\<lambda>t. \<not> expired now t) (mset (m_timers q)) = mset (m_timers q)"
    by (auto simp: due_def filter_mset_eq_conv intro!: multiset_eqI)
  then show "due now (mset (m_timers q)) = {#}" "after_tick now (mset (m_timers q)) = mset (m_timers q)"
    by (simp_all add: after_tick_def)
qed

lemma rearm_ok:
  assumes "timer_ok t" "0 \<le> tv_nsec now"
  shows "timer_ok (rearm now t)" "\<not> expired now (rearm now t)"
  using assms rearmed_not_expired [of t now] by (simp_all add: rearm_def timer_ok_def expiry_after_def smod_nonneg)

lemmas clock_defs = update_curr_time_def read_clock_def update_expired_time_def run_task_def pop_timer_def

text \<open>
  One round: the timers after \<open>t\<close> has run, re-armed from the time \<open>now\<close> if it is periodic, and
  the clock readings the round makes.
\<close>

definition next_timers :: "timespec \<Rightarrow> timer \<Rightarrow> timer multiset \<Rightarrow> timer multiset" where
  "next_timers now t T = T - {#t#} + (if m_type t = E_EVERY then {#rearm now t#} else {#})"

definition reads_of :: "timer \<Rightarrow> nat" where
  "reads_of t = (if m_type t = E_EVERY then 3 else 1)"

lemma handle_round:
  assumes "q_ok q" "m_timers q = t # ts" "expired (clk (clock_reads q)) t" "\<And>k. 0 \<le> tv_nsec (clk k)"
  obtains q1 where "\<And>n. MiniHeap_HandleExpiredTimer (Suc n) clk quiet q = MiniHeap_HandleExpiredTimer n clk quiet q1"
    "q_ok q1" "mset (m_timers q1) = next_timers (clk (clock_reads q + 2)) t (mset (m_timers q))"
    "clock_reads q1 = clock_reads q + reads_of t" "ran q1 = ran q @ [m_id t]"
proof -
  let ?r = "rearm (clk (clock_reads q + 2)) t"
  have ok: "timer_heap.is_heap (t # ts)" "timer_ok t" "\<forall>s \<in> set ts. timer_ok s" "\<not> undefined_behaviour q"
    using assms(1,2) by (auto simp: q_ok_def)
  obtain h where h: "heap_pop timer_gt (t # ts) = Some h" "timer_heap.is_heap h" "mset h = mset ts"
    by (rule pop_top [OF ok(1)])
  have ty: "m_type t = E_EVERY \<or> m_type t = E_AFTER" using ok(2) by (cases "m_type t") (auto simp: timer_ok_def)
  define T where "T = (if m_type t = E_EVERY then heap_push timer_gt ?r h else h)"
  define q1 where "q1 = q\<lparr>m_timers := T, s_current_time := clk (clock_reads q + (if m_type t = E_EVERY then 1 else 0)),
    clock_reads := clock_reads q + reads_of t, ran := ran q @ [m_id t]\<rparr>"
  have mT: "mset T = (if m_type t = E_EVERY then add_mset ?r (mset ts) else mset ts)"
    by (simp add: T_def mset_heap_push h(3))
  then have "set T \<subseteq> insert ?r (set ts)"
    by (metis set_mset_mset set_mset_add_mset_insert subset_insertI subset_refl)
  then have "timer_heap.is_heap T" "\<forall>s \<in> set T. timer_ok s"
    using ok(3) rearm_ok(1) [OF ok(2) assms(4)] h(2) by (auto simp: T_def timer_heap.is_heap_push)
  then have "q_ok q1" using ok(4) by (simp add: q_ok_def q1_def)
  moreover have "MiniHeap_HandleExpiredTimer (Suc n) clk quiet q = MiniHeap_HandleExpiredTimer n clk quiet q1" for n
    using ty assms(2,3) h(1)
    by (cases q) (auto simp: clock_defs Let_def q1_def T_def rearm_def reads_of_def eval_nat_numeral)
  moreover have "mset (m_timers q1) = next_timers (clk (clock_reads q + 2)) t (mset (m_timers q))"
    by (simp add: q1_def mT next_timers_def assms(2))
  ultimately show thesis using that by (simp add: q1_def)
qed

lemma handle_stop:
  assumes "m_timers q = t # ts" "\<not> expired (clk (clock_reads q)) t"
  shows "MiniHeap_HandleExpiredTimer (Suc n) clk cb q = Some (update_curr_time clk q)"
  using assms by (simp add: clock_defs)

lemma first_least:
  assumes "q_ok q" "m_timers q = t # ts"
  shows "t \<in># mset (m_timers q)" "\<forall>s \<in># mset (m_timers q). timer_key t \<le> timer_key s"
  using timer_heap.heap_min [of "m_timers q"] assms by (auto simp: q_ok_def)

text \<open>
  What a pass is to do with a collection of timers, whatever time the callbacks take: it starts
  with the clock reading \<open>k\<close>; as long as the earliest timer is expired at the reading of the
  round, that one runs, and a periodic one is armed again from a reading behind its callback. It
  ends when no timer is expired. The timers that ran are listed with the reading of their round.
\<close>

inductive pass :: "clock \<Rightarrow> nat \<Rightarrow> timer multiset \<Rightarrow> (timer \<times> nat) list \<Rightarrow> nat \<Rightarrow> timer multiset \<Rightarrow> bool" for clk where
  pass_empty: "pass clk k {#} [] k {#}"
| pass_done: "due (clk k) T = {#} \<Longrightarrow> pass clk k T [] (k + 1) T"
| pass_run: "t \<in># T \<Longrightarrow> \<forall>s \<in># T. timer_key t \<le> timer_key s \<Longrightarrow> expired (clk k) t \<Longrightarrow>
    pass clk (k + reads_of t) (next_timers (clk (k + 2)) t T) rs k' T' \<Longrightarrow> pass clk k T ((t, k) # rs) k' T'"

lemma handle_is_pass:
  assumes "\<And>k. 0 \<le> tv_nsec (clk k)"
  shows "q_ok q \<Longrightarrow> MiniHeap_HandleExpiredTimer n clk quiet q = Some q' \<Longrightarrow>
    q_ok q' \<and> (\<exists>rs. ran q' = ran q @ map (m_id \<circ> fst) rs \<and>
      pass clk (clock_reads q) (mset (m_timers q)) rs (clock_reads q') (mset (m_timers q')))"
proof (induction n arbitrary: q)
  case (Suc n)
  show ?case
  proof (cases "m_timers q")
    case Nil
    then show ?thesis using Suc.prems by (auto intro: pass_empty)
  next
    case (Cons t ts)
    show ?thesis
    proof (cases "expired (clk (clock_reads q)) t")
      case False
      then have "q' = update_curr_time clk q" using Suc.prems(2) handle_stop [OF Cons] by simp
      then show ?thesis
        using nothing_due(1) [OF Suc.prems(1) Cons assms False] Suc.prems(1)
        by (auto simp: clock_defs q_ok_def intro!: pass_done [simplified])
    next
      case True
      obtain q1 where q1: "MiniHeap_HandleExpiredTimer n clk quiet q1 = Some q'" "q_ok q1"
        "mset (m_timers q1) = next_timers (clk (clock_reads q + 2)) t (mset (m_timers q))"
        "clock_reads q1 = clock_reads q + reads_of t" "ran q1 = ran q @ [m_id t]"
        using handle_round [where clk = clk, OF Suc.prems(1) Cons True assms] Suc.prems(2) by metis
      obtain rs where "q_ok q'" "ran q' = ran q1 @ map (m_id \<circ> fst) rs"
        "pass clk (clock_reads q1) (mset (m_timers q1)) rs (clock_reads q') (mset (m_timers q'))"
        using Suc.IH [OF q1(2,1)] by blast
      then show ?thesis
        using pass_run [where clk = clk and k = "clock_reads q", OF first_least [OF Suc.prems(1) Cons] True] q1(3-5)
        by (intro conjI exI [of _ "(t, clock_reads q) # rs"]) simp_all
    qed
  qed
qed simp

text \<open>
  A pass in which the clock advances by less than the interval of any periodic timer, so that
  none that was armed again is due again: the readings of \<open>m\<close> rounds from the \<open>k\<close>-th on.
\<close>

definition unhurried :: "clock \<Rightarrow> nat \<Rightarrow> nat \<Rightarrow> timer multiset \<Rightarrow> bool" where
  "unhurried clk k m T \<longleftrightarrow>
     (\<forall>t \<in># T. m_type t = E_EVERY \<longrightarrow>
        (\<forall>i j. k \<le> i \<and> i \<le> j \<and> j \<le> k + 3 * m \<longrightarrow> \<not> expired (clk j) (rearm (clk i) t)))"

lemma unhurried_next:
  assumes "unhurried clk k (Suc m) T" "U \<subseteq># T"
  shows "unhurried clk (k + reads_of t) m U"
  unfolding unhurried_def
proof (intro ballI allI impI)
  fix s i j assume s: "s \<in># U" "m_type s = E_EVERY" and "k + reads_of t \<le> i \<and> i \<le> j \<and> j \<le> k + reads_of t + 3 * m"
  then have "k \<le> i \<and> i \<le> j \<and> j \<le> k + 3 * Suc m" by (auto simp: reads_of_def split: if_splits)
  then show "\<not> expired (clk j) (rearm (clk i) s)"
    using s mset_subset_eqD [OF assms(2)] assms(1) unfolding unhurried_def by blast
qed

text \<open>The timers that were armed again.\<close>

definition rearmed :: "clock \<Rightarrow> (timer \<times> nat) list \<Rightarrow> timer multiset" where
  "rearmed clk rs = mset (map (\<lambda>(t, k). rearm (clk (k + 2)) t) (filter (\<lambda>(t, k). m_type t = E_EVERY) rs))"

text \<open>
  The collection splits into the timers \<open>U\<close> that have not run and the timers \<open>V\<close> that were armed
  again; \<open>V\<close> is not due at any reading to come.
\<close>

definition pass_result :: "clock \<Rightarrow> timer_queue \<Rightarrow> timer multiset \<Rightarrow> timer multiset \<Rightarrow> timer_queue \<Rightarrow> (timer \<times> nat) list \<Rightarrow> bool" where
  "pass_result clk q U V q' rs \<longleftrightarrow>
     ran q' = ran q @ map (m_id \<circ> fst) rs \<and> sorted (map (timer_key \<circ> fst) rs) \<and> mset (map fst rs) \<subseteq># U \<and>
     (\<forall>(t, k) \<in> set rs. expired (clk k) t) \<and>
     mset (m_timers q') = U - mset (map fst rs) + V + rearmed clk rs \<and>
     clock_reads q \<le> clock_reads q' \<and> (clock_reads q < clock_reads q' \<or> m_timers q = []) \<and>
     due (clk (clock_reads q' - 1)) (mset (m_timers q')) = {#}"

lemma unhurried_pass:
  assumes "\<And>k. 0 \<le> tv_nsec (clk k)"
  shows "q_ok q \<Longrightarrow> mset (m_timers q) = U + V \<Longrightarrow> size U < n \<Longrightarrow> unhurried clk (clock_reads q) (size U) U \<Longrightarrow>
    \<forall>v \<in># V. \<forall>j. clock_reads q \<le> j \<and> j \<le> clock_reads q + 3 * size U \<longrightarrow> \<not> expired (clk j) v \<Longrightarrow>
    \<exists>q' rs. MiniHeap_HandleExpiredTimer n clk quiet q = Some q' \<and> pass_result clk q U V q' rs"
proof (induction n arbitrary: q U V)
  case (Suc n)
  show ?case
  proof (cases "m_timers q")
    case Nil
    then show ?thesis using Suc.prems(2) by (auto simp: pass_result_def rearmed_def due_def intro!: exI [of _ "[]"])
  next
    case (Cons t ts)
    show ?thesis
    proof (cases "expired (clk (clock_reads q)) t")
      case False
      have "MiniHeap_HandleExpiredTimer (Suc n) clk quiet q = Some (update_curr_time clk q)"
        using handle_stop [OF Cons] False by simp
      then show ?thesis
        using nothing_due(1) [OF Suc.prems(1) Cons assms False] Suc.prems(2)
        by (auto simp: pass_result_def clock_defs rearmed_def intro!: exI [of _ "[]"])
    next
      case True
      let ?k = "clock_reads q" and ?U = "U - {#t#}"
      let ?W = "if m_type t = E_EVERY then {#rearm (clk (?k + 2)) t#} else {#}"
      have tin: "t \<in># U" using True Suc.prems(2,5) Cons by (metis first_least(1) Suc.prems(1) le_add1 order_refl union_iff)
      then have sz: "size U = Suc (size ?U)" "U = add_mset t ?U" by (simp_all add: size_Suc_Diff1)
      obtain q1 where q1: "\<And>n. MiniHeap_HandleExpiredTimer (Suc n) clk quiet q = MiniHeap_HandleExpiredTimer n clk quiet q1"
        "q_ok q1" "mset (m_timers q1) = next_timers (clk (?k + 2)) t (mset (m_timers q))"
        "clock_reads q1 = ?k + reads_of t" "ran q1 = ran q @ [m_id t]"
        using handle_round [where clk = clk, OF Suc.prems(1) Cons True assms] by metis
      have r3: "reads_of t \<le> 3" "0 < reads_of t" by (simp_all add: reads_of_def)
      have split: "mset (m_timers q1) = ?U + (V + ?W)" using q1(3) Suc.prems(2) tin by (simp add: next_timers_def)
      have un: "unhurried clk (clock_reads q1) (size ?U) ?U"
        using unhurried_next [of clk ?k "size ?U" U ?U t] Suc.prems(4) sz(1) q1(4) by simp
      have quietV: "\<forall>v \<in># V + ?W. \<forall>j. clock_reads q1 \<le> j \<and> j \<le> clock_reads q1 + 3 * size ?U \<longrightarrow> \<not> expired (clk j) v"
      proof (intro ballI allI impI)
        fix v j assume v: "v \<in># V + ?W" and "clock_reads q1 \<le> j \<and> j \<le> clock_reads q1 + 3 * size ?U"
        then have j: "?k + reads_of t \<le> j" "j \<le> ?k + 3 * size U" using q1(4) sz(1) r3 by auto
        show "\<not> expired (clk j) v"
        proof (cases "v \<in># V")
          case True
          then show ?thesis using Suc.prems(5) j by simp
        next
          case False
          then have "m_type t = E_EVERY" "v = rearm (clk (?k + 2)) t" using v by (auto split: if_splits)
          then show ?thesis using Suc.prems(4) tin j unfolding unhurried_def by (auto simp: reads_of_def)
        qed
      qed
      obtain q' rs where q': "MiniHeap_HandleExpiredTimer n clk quiet q1 = Some q'" "pass_result clk q1 ?U (V + ?W) q' rs"
        using Suc.IH [OF q1(2) split _ un quietV] Suc.prems(3) sz(1) by (metis Suc_less_eq)
      let ?rs = "(t, ?k) # rs"
      have sub: "mset (map fst rs) \<subseteq># ?U" using q'(2) by (simp add: pass_result_def)
      have "s \<in># U" if "s \<in># mset (map fst rs)" for s using in_diffD mset_subset_eqD [OF sub that] by metis
      then have "sorted (map (timer_key \<circ> fst) ?rs)"
        using q'(2) first_least(2) [OF Suc.prems(1) Cons] Suc.prems(2) by (auto simp: pass_result_def image_iff)
      moreover have "mset (map fst ?rs) \<subseteq># U" using sub tin by (simp add: insert_subset_eq_iff)
      moreover have "mset (m_timers q') = U - mset (map fst ?rs) + V + rearmed clk ?rs"
        using q'(2) by (simp add: pass_result_def rearmed_def)
      ultimately have "pass_result clk q U V q' ?rs"
        using q'(2) q1(4,5) r3(2) True unfolding pass_result_def by (elim conjE, intro conjI) simp_all
      then show ?thesis using q1(1) q'(1) by auto
    qed
  qed
qed simp

text \<open>A clock that does not go back.\<close>

definition time_le :: "timespec \<Rightarrow> timespec \<Rightarrow> bool" where
  "time_le a b \<longleftrightarrow> (tv_sec a, tv_nsec a) \<le> (tv_sec b, tv_nsec b)"

lemma expired_later:
  assumes "timer_ok t" "0 \<le> tv_nsec a" "0 \<le> tv_nsec b" "time_le a b" "expired a t"
  shows "expired b t"
proof -
  have "tv_nsec a \<le> tv_nsec b \<Longrightarrow> tv_nsec a div 1000000 \<le> tv_nsec b div 1000000" by (rule zdiv_mono1) simp_all
  then show ?thesis
    using assms expired_iff [of t a] expired_iff [of t b] by (auto simp: timer_ok_def time_le_def)
qed

text \<open>
  Two timers of two seconds whose callbacks take three: when the one is armed again the other is
  due, for ever.
\<close>

definition slow_clock :: clock where
  "slow_clock k = \<lparr>tv_sec = 3 * ((int k + 2) div 3), tv_nsec = 0\<rparr>"

definition beat :: "int \<Rightarrow> timer \<Rightarrow> bool" where
  "beat e t \<longleftrightarrow> m_type t = E_EVERY \<and> m_interval t = 2000 \<and> tv_sec (m_expried_time t) \<le> e \<and> tv_nsec (m_expried_time t) = 0"

lemma beat_facts:
  "beat e t \<Longrightarrow> e \<le> e' \<Longrightarrow> beat e' t"
  "beat (3 * int r) t \<Longrightarrow> expired (slow_clock (3 * r)) t"
  "beat e t \<Longrightarrow> beat (3 * int (Suc r) + 2) (rearm (slow_clock (3 * r + 2)) t)"
  "beat e t \<Longrightarrow> reads_of t = 3"
  by (simp_all add: beat_def expired_def slow_clock_def rearm_def expiry_after_def sdiv_nonneg smod_nonneg reads_of_def Let_def) auto

lemma slow_callbacks_never_end:
  "q_ok q \<Longrightarrow> clock_reads q = 3 * r \<Longrightarrow> mset (m_timers q) = {#s, t#} \<Longrightarrow> beat (3 * int r) s \<Longrightarrow> beat (3 * int r + 2) t \<Longrightarrow>
    MiniHeap_HandleExpiredTimer n slow_clock quiet q = None"
proof (induction n arbitrary: q r s t)
  case (Suc n)
  obtain u us where u: "m_timers q = u # us" using Suc.prems(3) by (cases "m_timers q") auto
  have nn: "0 \<le> tv_nsec (slow_clock k)" for k by (simp add: slow_clock_def)
  have ok: "timer_ok u" "timer_ok s" "u = s \<or> u = t"
    using Suc.prems(1,3) first_least(1) [OF Suc.prems(1) u] by (auto simp: q_ok_def simp flip: set_mset_mset)
  have "expired (slow_clock (clock_reads q)) u"
    using expired_mono [OF ok(1,2) nn, of "clock_reads q"] first_least(2) [OF Suc.prems(1) u] beat_facts(2) [OF Suc.prems(4)] Suc.prems(2,3)
    by simp
  then obtain q1 where q1: "MiniHeap_HandleExpiredTimer (Suc n) slow_clock quiet q = MiniHeap_HandleExpiredTimer n slow_clock quiet q1"
    "q_ok q1" "mset (m_timers q1) = next_timers (slow_clock (clock_reads q + 2)) u (mset (m_timers q))"
    "clock_reads q1 = clock_reads q + reads_of u"
    using handle_round [OF Suc.prems(1) u, of slow_clock] nn by metis
  obtain v where v: "{#s, t#} = {#u, v#}" "v = s \<or> v = t" using ok(3) by fastforce
  have bu: "beat (3 * int r + 2) u" "beat (3 * int r + 2) v"
    using ok(3) v(2) Suc.prems(5) beat_facts(1) [OF Suc.prems(4), of "3 * int r + 2"] by auto
  have "mset (m_timers q1) = {#v, rearm (slow_clock (3 * r + 2)) u#}"
    using q1(3) bu(1) Suc.prems(2,3) v(1) by (simp add: next_timers_def beat_def)
  moreover have "beat (3 * int (Suc r)) v" using beat_facts(1) [OF bu(2)] by simp
  moreover have "clock_reads q1 = 3 * Suc r" using q1(4) Suc.prems(2) beat_facts(4) [OF bu(1)] by simp
  ultimately have "MiniHeap_HandleExpiredTimer n slow_clock quiet q1 = None"
    using Suc.IH [OF q1(2)] beat_facts(3) [OF bu(1), of r] by blast
  then show ?case using q1(1) by simp
qed simp

text \<open>What a pass that ended left out was not due at its start; with a still clock it is what the time says.\<close>

lemma nothing_due_before:
  assumes "q_ok q" "\<And>k. 0 \<le> tv_nsec (clk k)" "\<And>i j. i \<le> j \<Longrightarrow> time_le (clk i) (clk j)"
    "clock_reads q < k' \<or> m_timers q = []" "due (clk (k' - 1)) T' = {#}" "U \<subseteq># T'" "U \<subseteq># mset (m_timers q)"
  shows "due (clk (clock_reads q)) U = {#}"
proof -
  have "\<not> expired (clk (clock_reads q)) t" if t: "t \<in># U" for t
  proof
    assume e: "expired (clk (clock_reads q)) t"
    have "timer_ok t" using assms(1,7) t by (auto simp: q_ok_def dest: mset_subset_eqD)
    moreover have "clock_reads q \<le> k' - 1" using assms(4,7) t by auto
    ultimately have "expired (clk (k' - 1)) t" using expired_later e assms(2,3) by blast
    then have "t \<in># due (clk (k' - 1)) T'" using mset_subset_eqD [OF assms(6) t] by (simp add: due_def)
    then show False using assms(5) by simp
  qed
  then show ?thesis by (auto simp: due_def intro!: multiset_eqI)
qed

lemma due_in_run: "due now (T - M) = {#} \<Longrightarrow> due now T \<subseteq># M"
  by (rule mset_subset_eqI) (metis count_diff count_empty count_filter_mset diff_is_0_eq due_def le0)

lemma rearmed_still: "rearmed (\<lambda>_. now) rs = image_mset (rearm now) (filter_mset (\<lambda>t. m_type t = E_EVERY) (mset (map fst rs)))"
  by (induction rs) (auto simp: rearmed_def)

lemma still_clock:
  assumes "mset (map fst rs) \<subseteq># T" "\<forall>(t, k) \<in> set rs. expired now t" "due now T \<subseteq># mset (map fst rs)"
  shows "mset (map fst rs) = due now T" "T - mset (map fst rs) + rearmed (\<lambda>_. now) rs = after_tick now T"
proof -
  have "filter_mset (expired now) (mset (map fst rs)) = mset (map fst rs)" using assms(2) by (auto simp: filter_mset_eq_conv)
  then show eq: "mset (map fst rs) = due now T"
    using assms(1,3) multiset_filter_mono [OF assms(1), of "expired now"] by (metis due_def subset_mset.antisym)
  have "T - due now T = filter_mset (\<lambda>t. \<not> expired now t) T" by (simp add: due_def) (metis add_diff_cancel_left' multiset_partition)
  then show "T - mset (map fst rs) + rearmed (\<lambda>_. now) rs = after_tick now T"
    by (simp only: rearmed_still eq after_tick_def)
qed

definition sample_timer :: "u64 \<Rightarrow> int \<Rightarrow> TimerType \<Rightarrow> timer" where
  "sample_timer i at ty = \<lparr>m_id = i, m_cb = 0, m_expried_time = \<lparr>tv_sec = at, tv_nsec = 0\<rparr>, m_type = ty, m_interval = 2000\<rparr>"



section \<open>Adding and cancelling\<close>

lemma cancel_rounds_spec:
  "timer_heap.is_heap h \<Longrightarrow> timer_heap.is_heap tmp \<Longrightarrow> length h = n \<Longrightarrow>
     timer_heap.is_heap (cancel_rounds n i h tmp) \<and>
     mset (cancel_rounds n i h tmp) = mset tmp + filter_mset (\<lambda>t. m_id t \<noteq> i) (mset h)"
proof (induction n arbitrary: h tmp)
  case (Suc n)
  obtain t ts where h: "h = t # ts" using Suc.prems(3) by (cases h) auto
  obtain h1 where h1: "heap_pop timer_gt (t # ts) = Some h1" "timer_heap.is_heap h1" "mset h1 = mset ts"
    using pop_top Suc.prems(1) h by blast
  have "length h1 = n" using h1(3) Suc.prems(3) h by (metis length_Cons nat.inject size_mset)
  then show ?case
    using Suc.IH [OF h1(2), of "if m_id t \<noteq> i then heap_push timer_gt t tmp else tmp"] Suc.prems(2) h h1
    by (auto simp: mset_heap_push timer_heap.is_heap_push)
qed simp

text \<open>C35. Adding and cancelling. A new timer gets the next identifier and the expiry its interval gives
  from now, and joins the queue; cancelling an identifier removes exactly the timers that have
  it. Both keep the invariant of the queue, and the wait the loop asks the poller for is the
  shortest of all timers.\<close>

theorem timer_add_cancel:
  assumes "q_ok q" "\<And>n. 0 \<le> tv_nsec (clk n)" "0 < tm" "ty \<noteq> E_AT"
    and "(i, q') = MiniHeap_AddTimer clk tm ty c q"
  shows "q_ok q' \<and> i = s_timer_id q + 1 \<and>
    (\<exists>t. mset (m_timers q') = add_mset t (mset (m_timers q)) \<and> m_id t = i \<and> m_cb t = c \<and>
       m_expried_time t = expiry_after (clk (clock_reads q)) tm) \<and>
    q_ok (MiniHeap_CancelTimer j q') \<and>
    mset (m_timers (MiniHeap_CancelTimer j q')) = filter_mset (\<lambda>t. m_id t \<noteq> j) (mset (m_timers q')) \<and>
    (\<forall>t \<in> set (m_timers q'). timer_key (hd (m_timers q')) \<le> timer_key t)"
proof -
  define t where "t = \<lparr>m_id = s_timer_id q + 1, m_cb = c, m_expried_time = expiry_after (clk (clock_reads q)) tm,
      m_type = ty, m_interval = tm\<rparr>"
  have q': "i = s_timer_id q + 1" "m_timers q' = heap_push timer_gt t (m_timers q)"
      "undefined_behaviour q' = undefined_behaviour q"
    using assms(5) by (simp_all add: MiniHeap_AddTimer_def GenTimerID_def Timer_init_def update_curr_time_def
        read_clock_def Let_def t_def)
  have t: "timer_ok t" using assms(2-4) by (simp add: timer_ok_def t_def expiry_after_def smod_nonneg)
  have m: "mset (m_timers q') = add_mset t (mset (m_timers q))" by (simp add: q'(2) mset_heap_push)
  then have "set (m_timers q') = insert t (set (m_timers q))" by (metis set_mset_mset set_mset_add_mset_insert)
  then have ok: "q_ok q'"
    using assms(1) t by (simp add: q_ok_def q'(2,3) timer_heap.is_heap_push)
  then have c: "timer_heap.is_heap (m_timers (MiniHeap_CancelTimer j q'))"
    "mset (m_timers (MiniHeap_CancelTimer j q')) = filter_mset (\<lambda>t. m_id t \<noteq> j) (mset (m_timers q'))"
    using cancel_rounds_spec [of "m_timers q'" "[]"] by (simp_all add: MiniHeap_CancelTimer_def q_ok_def timer_heap.is_heap_def)
  then have "set (m_timers (MiniHeap_CancelTimer j q')) \<subseteq> set (m_timers q')"
    by (simp add: subset_iff flip: set_mset_mset)
  then have "q_ok (MiniHeap_CancelTimer j q')" using ok c(1) by (auto simp: q_ok_def MiniHeap_CancelTimer_def)
  moreover have "\<forall>s \<in> set (m_timers q'). timer_key (hd (m_timers q')) \<le> timer_key s"
    using timer_heap.heap_min ok by (simp add: q_ok_def)
  moreover have "m_id t = i" "m_cb t = c" "m_expried_time t = expiry_after (clk (clock_reads q)) tm"
    by (simp_all add: t_def q'(1))
  ultimately show ?thesis using ok q'(1) m c(2) by blast
qed

theorem timer_add_cancel_witness:
  "\<exists>i q'. (i, q') = MiniHeap_AddTimer (\<lambda>_. \<lparr>tv_sec = 7, tv_nsec = 0\<rparr>) 500 E_AFTER 0
       \<lparr>m_timers = [], s_current_time = \<lparr>tv_sec = 0, tv_nsec = 0\<rparr>, s_timer_id = 3, clock_reads = 0, ran = [],
        undefined_behaviour = False\<rparr> \<and> i = 4 \<and> q_ok (MiniHeap_CancelTimer 4 q')"
proof -
  let ?q = "\<lparr>m_timers = [], s_current_time = \<lparr>tv_sec = 0, tv_nsec = 0\<rparr>, s_timer_id = 3, clock_reads = 0, ran = [],
        undefined_behaviour = False\<rparr>"
  let ?clk = "\<lambda>_ :: nat. \<lparr>tv_sec = 7, tv_nsec = 0\<rparr>"
  obtain i q' where r: "(i, q') = MiniHeap_AddTimer ?clk 500 E_AFTER 0 ?q" by (metis surj_pair)
  have "q_ok ?q" by (simp add: q_ok_def timer_heap.is_heap_def)
  then show ?thesis using timer_add_cancel [of ?q ?clk 500 E_AFTER i q' 0 4] r by auto
qed

section \<open>The list loses timers\<close>

text \<open>The pass of \<^verbatim>\<open>ListTimer\<close>. A one-shot timer that is due makes the loop pass over the timer
  behind it, so that this one does not run although it is due; and a one-shot timer that is due
  at the end of the list advances the iterator past the end.\<close>

theorem list_timer_skips:
  assumes "expired now s" "m_type s = E_AFTER" "m_timers q = [s, t]" "m_timers q1 = [s]"
  shows "(\<exists>q'. List_HandleExpiredTimer (\<lambda>_. now) (\<lambda>c q. q) q = Some q' \<and> m_timers q' = [t] \<and> ran q' = ran q @ [m_id s]) \<and>
    List_HandleExpiredTimer (\<lambda>_. now) (\<lambda>c q. q) q1 = None"
  using assms by (simp add: List_HandleExpiredTimer_def update_curr_time_def read_clock_def run_task_def Let_def)

theorem list_timer_skips_witness:
  "List_HandleExpiredTimer (\<lambda>_. \<lparr>tv_sec = 7, tv_nsec = 0\<rparr>) (\<lambda>c q. q)
     \<lparr>m_timers = [sample_timer 1 3 E_AFTER], s_current_time = \<lparr>tv_sec = 0, tv_nsec = 0\<rparr>, s_timer_id = 3,
      clock_reads = 0, ran = [], undefined_behaviour = False\<rparr> = None"
proof -
  let ?q = "\<lambda>ts. \<lparr>m_timers = ts, s_current_time = \<lparr>tv_sec = 0, tv_nsec = 0\<rparr>, s_timer_id = 3,
      clock_reads = 0, ran = [], undefined_behaviour = False\<rparr>"
  show ?thesis
    using list_timer_skips [of "\<lparr>tv_sec = 7, tv_nsec = 0\<rparr>" "sample_timer 1 3 E_AFTER"
        "?q [sample_timer 1 3 E_AFTER, sample_timer 2 3 E_AFTER]" "sample_timer 2 3 E_AFTER" "?q [sample_timer 1 3 E_AFTER]"]
    by (simp add: expired_def sample_timer_def Let_def)
qed

end
