(* ===== verification/Event_Loop.thy ===== *)
theory Event_Loop
  imports Timers "HOL-Library.Sublist"
begin

text \<open>
  The reactor: \<^verbatim>\<open>easy_net/net/io_event.cpp\<close>, \<^verbatim>\<open>epoll_poller.cpp\<close>, \<^verbatim>\<open>notify.cpp\<close> and
  \<^verbatim>\<open>event_loop.cpp\<close>. The objects derived from \<^verbatim>\<open>IOEvent\<close> are addressed by numbers. The
  system calls on the epoll descriptor are recorded in \<open>ctl_log\<close> and the value of the eventfd
  in \<open>event_count\<close>; what the kernel makes of the calls is stated with the properties. Logging is left
  out.
\<close>

section \<open>Events and the poller\<close>

definition POLLIN :: u32 where "POLLIN = 0x001"
definition POLLPRI :: u32 where "POLLPRI = 0x002"
definition POLLOUT :: u32 where "POLLOUT = 0x004"
definition EPOLLERR :: u32 where "EPOLLERR = 0x008"
definition EPOLLHUP :: u32 where "EPOLLHUP = 0x010"
definition EPOLLRDHUP :: u32 where "EPOLLRDHUP = 0x2000"

definition IOEvent_NONE :: u32 where "IOEvent_NONE = 0"
definition IOEvent_READABLE :: u32 where "IOEvent_READABLE = POLLIN OR POLLPRI"
definition IOEvent_WRITEABLE :: u32 where "IOEvent_WRITEABLE = POLLOUT"

record io_event =
  m_fd :: int
  m_expect_event :: u32
  m_actual_event :: u32

datatype update_opt_e = ENABLE | DISABLE | REMOVE

datatype ctl_op = EPOLL_CTL_ADD | EPOLL_CTL_MOD | EPOLL_CTL_DEL

text \<open>One call of \<^verbatim>\<open>epoll_ctl\<close>: operation, descriptor, events, and the object in \<^verbatim>\<open>data.ptr\<close>.\<close>

type_synonym ctl_call = "ctl_op \<times> int \<times> u32 \<times> nat"

record loop =
  io_events :: "nat \<Rightarrow> io_event"
  m_registered_events :: "int set"
  ctl_log :: "ctl_call list"
  event_count :: nat
  m_quit :: bool
  m_pending_func :: bool
  m_pending_func_list :: "nat list"
  m_timer_queue :: timer_queue

definition upd_ev :: "nat \<Rightarrow> (io_event \<Rightarrow> io_event) \<Rightarrow> 'a loop_scheme \<Rightarrow> 'a loop_scheme" where
  "upd_ev e f l = l\<lparr>io_events := (io_events l)(e := f (io_events l e))\<rparr>"

definition epoll_call :: "ctl_op \<Rightarrow> nat \<Rightarrow> 'a loop_scheme \<Rightarrow> 'a loop_scheme" where
  "epoll_call op e l =
     l\<lparr>ctl_log := ctl_log l @ [(op, m_fd (io_events l e), m_expect_event (io_events l e), e)]\<rparr>"

definition AddEvent :: "nat \<Rightarrow> 'a loop_scheme \<Rightarrow> 'a loop_scheme" where
  "AddEvent e l = epoll_call EPOLL_CTL_ADD e l"

definition DelEvent :: "nat \<Rightarrow> 'a loop_scheme \<Rightarrow> 'a loop_scheme" where
  "DelEvent e l = epoll_call EPOLL_CTL_DEL e l"

definition ModEvent :: "nat \<Rightarrow> 'a loop_scheme \<Rightarrow> 'a loop_scheme" where
  "ModEvent e l = epoll_call EPOLL_CTL_MOD e l"

definition IsRegistered :: "int \<Rightarrow> 'a loop_scheme \<Rightarrow> bool" where
  "IsRegistered fd l \<longleftrightarrow> fd \<in> m_registered_events l"

definition Register :: "int \<Rightarrow> 'a loop_scheme \<Rightarrow> 'a loop_scheme" where
  "Register fd l = l\<lparr>m_registered_events := insert fd (m_registered_events l)\<rparr>"

definition UnRegister :: "int \<Rightarrow> 'a loop_scheme \<Rightarrow> 'a loop_scheme" where
  "UnRegister fd l = l\<lparr>m_registered_events := m_registered_events l - {fd}\<rparr>"

definition update_event_status :: "update_opt_e \<Rightarrow> nat \<Rightarrow> 'a loop_scheme \<Rightarrow> 'a loop_scheme" where
  "update_event_status opt e l =
     (let fd = m_fd (io_events l e) in
      if IsRegistered fd l
      then (case opt of
              ENABLE \<Rightarrow> ModEvent e l
            | DISABLE \<Rightarrow> ModEvent e l
            | REMOVE \<Rightarrow> UnRegister fd (DelEvent e l))
      else (case opt of
              ENABLE \<Rightarrow> Register fd (AddEvent e l)
            | DISABLE \<Rightarrow> l
            | REMOVE \<Rightarrow> l))"

definition EnableRead :: "nat \<Rightarrow> 'a loop_scheme \<Rightarrow> 'a loop_scheme" where
  "EnableRead e l =
     update_event_status ENABLE e (upd_ev e (\<lambda>v. v\<lparr>m_expect_event := m_expect_event v OR IOEvent_READABLE\<rparr>) l)"

definition EnableWrite :: "nat \<Rightarrow> 'a loop_scheme \<Rightarrow> 'a loop_scheme" where
  "EnableWrite e l =
     update_event_status ENABLE e (upd_ev e (\<lambda>v. v\<lparr>m_expect_event := m_expect_event v OR IOEvent_WRITEABLE\<rparr>) l)"

definition DisableRead :: "nat \<Rightarrow> 'a loop_scheme \<Rightarrow> 'a loop_scheme" where
  "DisableRead e l =
     update_event_status DISABLE e (upd_ev e (\<lambda>v. v\<lparr>m_expect_event := m_expect_event v AND NOT IOEvent_READABLE\<rparr>) l)"

definition DisableWrite :: "nat \<Rightarrow> 'a loop_scheme \<Rightarrow> 'a loop_scheme" where
  "DisableWrite e l =
     update_event_status DISABLE e (upd_ev e (\<lambda>v. v\<lparr>m_expect_event := m_expect_event v AND NOT IOEvent_WRITEABLE\<rparr>) l)"

definition DisableReadAndWrite :: "nat \<Rightarrow> 'a loop_scheme \<Rightarrow> 'a loop_scheme" where
  "DisableReadAndWrite e l =
     update_event_status DISABLE e (upd_ev e (\<lambda>v. v\<lparr>m_expect_event := IOEvent_NONE\<rparr>) l)"

definition RemoveEvent :: "nat \<Rightarrow> 'a loop_scheme \<Rightarrow> 'a loop_scheme" where
  "RemoveEvent e l = update_event_status REMOVE e l"

text \<open>The mask of one entry that \<^verbatim>\<open>epoll_wait\<close> returned, and the body of the loop of \<^verbatim>\<open>Polling\<close>.\<close>

definition fired_mask :: "u32 \<Rightarrow> u32" where
  "fired_mask evs =
     (if evs AND (POLLIN OR POLLPRI OR EPOLLRDHUP) \<noteq> 0 then IOEvent_READABLE else 0) OR
     (if evs AND POLLOUT \<noteq> 0 then IOEvent_WRITEABLE else 0) OR
     (if evs AND EPOLLERR \<noteq> 0 then IOEvent_WRITEABLE OR IOEvent_READABLE else 0) OR
     (if evs AND EPOLLHUP \<noteq> 0 then IOEvent_WRITEABLE OR IOEvent_READABLE else 0)"

definition Polling :: "(nat \<times> u32) list \<Rightarrow> 'a loop_scheme \<Rightarrow> nat list \<times> 'a loop_scheme" where
  "Polling ready l =
     (map fst ready, fold (\<lambda>(e, evs). upd_ev e (\<lambda>v. v\<lparr>m_actual_event := fired_mask evs\<rparr>)) ready l)"

text \<open>The handlers are virtual: \<open>rd\<close> and \<open>wr\<close> are those of the object.\<close>

definition DispatchEvent ::
  "(nat \<Rightarrow> 'a loop_scheme \<Rightarrow> 'a loop_scheme) \<Rightarrow> (nat \<Rightarrow> 'a loop_scheme \<Rightarrow> 'a loop_scheme) \<Rightarrow>
     nat \<Rightarrow> 'a loop_scheme \<Rightarrow> 'a loop_scheme" where
  "DispatchEvent rd wr e l =
     (let l1 = (if m_actual_event (io_events l e) AND IOEvent_READABLE \<noteq> 0 then rd e l else l)
      in if m_actual_event (io_events l1 e) AND IOEvent_WRITEABLE \<noteq> 0 then wr e l1 else l1)"

section \<open>The loop\<close>

definition Notify_WakeUp :: "'a loop_scheme \<Rightarrow> 'a loop_scheme" where
  "Notify_WakeUp l = l\<lparr>event_count := event_count l + 1\<rparr>"

definition Notify_ProcessReadEvent :: "'a loop_scheme \<Rightarrow> 'a loop_scheme" where
  "Notify_ProcessReadEvent l = l\<lparr>event_count := 0\<rparr>"

text \<open>\<open>here\<close> says whether the caller is the thread of the loop; \<open>run\<close> what a function does.\<close>

definition queue_push :: "nat \<Rightarrow> 'a loop_scheme \<Rightarrow> 'a loop_scheme" where
  "queue_push f l = l\<lparr>m_pending_func_list := m_pending_func_list l @ [f]\<rparr>"

definition QueueInLoop :: "bool \<Rightarrow> nat \<Rightarrow> 'a loop_scheme \<Rightarrow> 'a loop_scheme" where
  "QueueInLoop here f l =
     (let l1 = queue_push f l in if \<not> here \<or> m_pending_func l1 then Notify_WakeUp l1 else l1)"

definition RunInLoop ::
  "(nat \<Rightarrow> 'a loop_scheme \<Rightarrow> 'a loop_scheme) \<Rightarrow> bool \<Rightarrow> nat \<Rightarrow> 'a loop_scheme \<Rightarrow> 'a loop_scheme" where
  "RunInLoop run here f l = (if here then run f l else QueueInLoop here f l)"

definition Quit :: "bool \<Rightarrow> 'a loop_scheme \<Rightarrow> 'a loop_scheme" where
  "Quit here l = (let l1 = l\<lparr>m_quit := True\<rparr> in if \<not> here then Notify_WakeUp l1 else l1)"

text \<open>
  \<^verbatim>\<open>DoPendiongFunc\<close> and its beginning and end around the calls. The swap of the two vectors is
  made without the mutex, so its two halves are kept apart: the new vector takes the content of
  the list, then the list takes that of the empty vector.
\<close>

definition pending_take :: "'a loop_scheme \<Rightarrow> nat list \<times> 'a loop_scheme" where
  "pending_take l = (m_pending_func_list l, l\<lparr>m_pending_func := True\<rparr>)"

definition pending_clear :: "'a loop_scheme \<Rightarrow> 'a loop_scheme" where
  "pending_clear l = l\<lparr>m_pending_func_list := []\<rparr>"

definition pending_begin :: "'a loop_scheme \<Rightarrow> nat list \<times> 'a loop_scheme" where
  "pending_begin l = (let (functors, l1) = pending_take l in (functors, pending_clear l1))"

definition pending_end :: "'a loop_scheme \<Rightarrow> 'a loop_scheme" where
  "pending_end l = l\<lparr>m_pending_func := False\<rparr>"

definition DoPendiongFunc ::
  "(nat \<Rightarrow> 'a loop_scheme \<Rightarrow> 'a loop_scheme) \<Rightarrow> 'a loop_scheme \<Rightarrow> 'a loop_scheme" where
  "DoPendiongFunc run l = (let (functors, l1) = pending_begin l in pending_end (fold run functors l1))"

definition TimerAfter :: "clock \<Rightarrow> nat \<Rightarrow> int \<Rightarrow> 'a loop_scheme \<Rightarrow> u64 \<times> 'a loop_scheme" where
  "TimerAfter clk c interval l =
     (let (i, q) = MiniHeap_AddTimer clk interval E_AFTER c (m_timer_queue l) in (i, l\<lparr>m_timer_queue := q\<rparr>))"

definition TimerEvery :: "clock \<Rightarrow> nat \<Rightarrow> int \<Rightarrow> 'a loop_scheme \<Rightarrow> u64 \<times> 'a loop_scheme" where
  "TimerEvery clk c interval l =
     (let (i, q) = MiniHeap_AddTimer clk interval E_EVERY c (m_timer_queue l) in (i, l\<lparr>m_timer_queue := q\<rparr>))"

definition CancelTimer :: "u64 \<Rightarrow> 'a loop_scheme \<Rightarrow> 'a loop_scheme" where
  "CancelTimer i l = l\<lparr>m_timer_queue := MiniHeap_CancelTimer i (m_timer_queue l)\<rparr>"

text \<open>
  One round of \<^verbatim>\<open>Loop\<close> behind \<^verbatim>\<open>epoll_wait\<close>, which returned \<open>ready\<close>; \<open>None\<close> when the pass
  over the timers does not end within \<open>n\<close> rounds.
\<close>

definition loop_round ::
  "nat \<Rightarrow> clock \<Rightarrow> callbacks \<Rightarrow> (nat \<Rightarrow> 'a loop_scheme \<Rightarrow> 'a loop_scheme) \<Rightarrow> (nat \<Rightarrow> 'a loop_scheme \<Rightarrow> 'a loop_scheme) \<Rightarrow>
     (nat \<Rightarrow> 'a loop_scheme \<Rightarrow> 'a loop_scheme) \<Rightarrow> (nat \<times> u32) list \<Rightarrow> 'a loop_scheme \<Rightarrow> 'a loop_scheme option" where
  "loop_round n clk cb rd wr run ready l =
     (let (active, l1) = Polling ready l
      in map_option
           (\<lambda>q. DoPendiongFunc run (fold (DispatchEvent rd wr) active (l1\<lparr>m_timer_queue := q\<rparr>)))
           (MiniHeap_HandleExpiredTimer n clk cb (m_timer_queue l1)))"

section \<open>What the kernel watches\<close>

text \<open>
  \<^verbatim>\<open>epoll_ctl\<close> as its manual page documents it: adding a descriptor that is watched, and
  changing or removing one that is not, fails.
\<close>

fun epoll_apply :: "ctl_call \<Rightarrow> (int \<rightharpoonup> u32 \<times> nat) \<Rightarrow> (int \<rightharpoonup> u32 \<times> nat) option" where
  "epoll_apply (EPOLL_CTL_ADD, fd, evs, e) k = (if k fd = None then Some (k(fd \<mapsto> (evs, e))) else None)"
| "epoll_apply (EPOLL_CTL_MOD, fd, evs, e) k = (if k fd \<noteq> None then Some (k(fd \<mapsto> (evs, e))) else None)"
| "epoll_apply (EPOLL_CTL_DEL, fd, evs, e) k = (if k fd \<noteq> None then Some (k(fd := None)) else None)"

fun epoll_run :: "ctl_call list \<Rightarrow> (int \<rightharpoonup> u32 \<times> nat) \<Rightarrow> (int \<rightharpoonup> u32 \<times> nat) option" where
  "epoll_run [] k = Some k"
| "epoll_run (c # cs) k = (case epoll_apply c k of None \<Rightarrow> None | Some k1 \<Rightarrow> epoll_run cs k1)"

lemma epoll_run_append: "epoll_run (cs @ ds) k = (case epoll_run cs k of None \<Rightarrow> None | Some k1 \<Rightarrow> epoll_run ds k1)"
  by (induction cs arbitrary: k) (auto split: option.split)

text \<open>
  The kernel watches exactly the registered descriptors, each with the events its object
  expects and with this object as its data.
\<close>

definition watched :: "'a loop_scheme \<Rightarrow> (int \<rightharpoonup> u32 \<times> nat) \<Rightarrow> bool" where
  "watched l k \<longleftrightarrow>
     epoll_run (ctl_log l) (\<lambda>_. None) = Some k \<and> dom k = m_registered_events l \<and>
     (\<forall>fd \<in> m_registered_events l. \<exists>e. m_fd (io_events l e) = fd \<and> k fd = Some (m_expect_event (io_events l e), e))"

datatype ev_op = OpEnableRead | OpEnableWrite | OpDisableRead | OpDisableWrite | OpDisableBoth | OpRemove

fun ev_apply :: "ev_op \<Rightarrow> nat \<Rightarrow> 'a loop_scheme \<Rightarrow> 'a loop_scheme" where
  "ev_apply OpEnableRead e l = EnableRead e l"
| "ev_apply OpEnableWrite e l = EnableWrite e l"
| "ev_apply OpDisableRead e l = DisableRead e l"
| "ev_apply OpDisableWrite e l = DisableWrite e l"
| "ev_apply OpDisableBoth e l = DisableReadAndWrite e l"
| "ev_apply OpRemove e l = RemoveEvent e l"

lemmas status_defs = update_event_status_def IsRegistered_def ModEvent_def AddEvent_def DelEvent_def epoll_call_def
  Register_def UnRegister_def upd_ev_def Let_def

lemma status_watched:
  assumes w: "watched l k" and f: "\<And>v. m_fd (f v) = m_fd v" and r: "opt = REMOVE \<Longrightarrow> f = (\<lambda>v. v)"
  shows "\<exists>k'. watched (update_event_status opt e (upd_ev e f l)) k'"
proof -
  let ?fd = "m_fd (io_events l e)" and ?ev = "m_expect_event (f (io_events l e))"
  have run: "epoll_run (ctl_log l) (\<lambda>_. None) = Some k" and dom: "dom k = m_registered_events l"
    and own: "\<And>fd. fd \<in> m_registered_events l \<Longrightarrow>
      \<exists>e. m_fd (io_events l e) = fd \<and> k fd = Some (m_expect_event (io_events l e), e)"
    using w by (auto simp: watched_def)
  have other: "\<exists>e'. m_fd (((io_events l)(e := f (io_events l e))) e') = fd \<and>
      k fd = Some (m_expect_event (((io_events l)(e := f (io_events l e))) e'), e')"
    if fd: "fd \<in> m_registered_events l" "fd \<noteq> ?fd" for fd
    using own [OF fd(1)] fd(2) by force
  have here: "m_fd (((io_events l)(e := f (io_events l e))) e) = ?fd" by (simp add: f)
  show ?thesis
  proof (cases "?fd \<in> m_registered_events l")
    case True
    then have some: "k ?fd \<noteq> None" using dom by blast
    show ?thesis
    proof (cases "opt = REMOVE")
      case False
      then have "watched (update_event_status opt e (upd_ev e f l)) (k(?fd \<mapsto> (?ev, e)))"
        using True some run dom other here
        by (cases opt) (auto simp: watched_def status_defs epoll_run_append f intro!: exI [of _ e])
      then show ?thesis by blast
    next
      case rm: True
      then have "watched (update_event_status opt e (upd_ev e f l)) (k(?fd := None))"
        using True some run dom own r [OF rm] by (auto simp: watched_def status_defs epoll_run_append)
      then show ?thesis by blast
    qed
  next
    case False
    then have none: "k ?fd = None" using dom by blast
    show ?thesis
    proof (cases "opt = ENABLE")
      case True
      then have "watched (update_event_status opt e (upd_ev e f l)) (k(?fd \<mapsto> (?ev, e)))"
        using False none run dom other here
        by (auto simp: watched_def status_defs epoll_run_append f intro!: exI [of _ e])
      then show ?thesis by blast
    next
      case off: False
      have "\<exists>e'. m_fd (((io_events l)(e := f (io_events l e))) e') = fd \<and>
          k fd = Some (m_expect_event (((io_events l)(e := f (io_events l e))) e'), e')"
        if "fd \<in> m_registered_events l" for fd
        using other [OF that] False that by metis
      then have "watched (update_event_status opt e (upd_ev e f l)) k"
        using False run dom off by (cases opt) (auto simp: watched_def status_defs f)
      then show ?thesis by blast
    qed
  qed
qed

lemma ev_apply_watched:
  assumes "watched l k"
  shows "\<exists>k'. watched (ev_apply op e l) k'"
proof -
  have id: "upd_ev e (\<lambda>v. v) l = l" by (simp add: upd_ev_def)
  have rm: "\<exists>k'. watched (RemoveEvent e l) k'"
    using status_watched [OF assms, of "\<lambda>v. v" REMOVE e] by (simp add: id RemoveEvent_def)
  show ?thesis
    by (cases op; simp add: rm; unfold EnableRead_def EnableWrite_def DisableRead_def DisableWrite_def
        DisableReadAndWrite_def; rule status_watched [OF assms]; simp)
qed

text \<open>The two handlers of an object run for the events they are for.\<close>

lemma fired_mask_iff:
  "fired_mask evs AND IOEvent_READABLE \<noteq> 0 \<longleftrightarrow>
     evs AND (POLLIN OR POLLPRI OR EPOLLRDHUP) \<noteq> 0 \<or> evs AND EPOLLERR \<noteq> 0 \<or> evs AND EPOLLHUP \<noteq> 0"
  "fired_mask evs AND IOEvent_WRITEABLE \<noteq> 0 \<longleftrightarrow>
     evs AND POLLOUT \<noteq> 0 \<or> evs AND EPOLLERR \<noteq> 0 \<or> evs AND EPOLLHUP \<noteq> 0"
  unfolding fired_mask_def
  by (cases "evs AND (POLLIN OR POLLPRI OR EPOLLRDHUP) = 0"; cases "evs AND POLLOUT = 0"; cases "evs AND EPOLLERR = 0";
      cases "evs AND EPOLLHUP = 0"; simp add: IOEvent_READABLE_def IOEvent_WRITEABLE_def POLLIN_def POLLPRI_def POLLOUT_def)+

text \<open>C14. Registration. Whatever sequence of enabling, disabling and removing the objects of a
  loop go through, no call of \<^verbatim>\<open>epoll_ctl\<close> fails, and the kernel watches exactly the
  descriptors in \<^verbatim>\<open>m_registered_events\<close>, each with the events its object expects and with
  that object as the data the next \<^verbatim>\<open>epoll_wait\<close> returns.\<close>

theorem registration_matches_kernel:
  assumes "ctl_log l = []" "m_registered_events l = {}"
  shows "\<exists>k. epoll_run (ctl_log (fold (\<lambda>(op, e). ev_apply op e) ops l)) (\<lambda>_. None) = Some k \<and>
    dom k = m_registered_events (fold (\<lambda>(op, e). ev_apply op e) ops l) \<and>
    (\<forall>fd \<in> dom k. \<exists>e. m_fd (io_events (fold (\<lambda>(op, e). ev_apply op e) ops l) e) = fd \<and>
       k fd = Some (m_expect_event (io_events (fold (\<lambda>(op, e). ev_apply op e) ops l) e), e))"
proof -
  have "\<exists>k. watched (fold (\<lambda>(op, e). ev_apply op e) ops l) k" if "watched l k" for l :: "'a loop_scheme" and k
    using that
  proof (induction ops arbitrary: l k)
    case (Cons x ops)
    obtain op e where x: "x = (op, e)" by fastforce
    obtain k' where "watched (ev_apply op e l) k'" using ev_apply_watched [OF Cons.prems] by blast
    then show ?case using Cons.IH x by simp
  qed auto
  moreover have "watched l (\<lambda>_. None)" using assms by (simp add: watched_def)
  ultimately show ?thesis unfolding watched_def by metis
qed

definition small_loop :: loop where
  "small_loop = \<lparr>io_events = (\<lambda>e. \<lparr>m_fd = int e, m_expect_event = 0, m_actual_event = 0\<rparr>), m_registered_events = {},
     ctl_log = [], event_count = 0, m_quit = False, m_pending_func = False, m_pending_func_list = [],
     m_timer_queue = \<lparr>m_timers = [], s_current_time = \<lparr>tv_sec = 0, tv_nsec = 0\<rparr>, s_timer_id = 0, clock_reads = 0,
       ran = [], undefined_behaviour = False\<rparr>\<rparr>"

theorem registration_matches_kernel_witness:
  "\<exists>k. epoll_run (ctl_log (fold (\<lambda>(op, e). ev_apply op e)
       [(OpEnableRead, 5), (OpEnableWrite, 5), (OpDisableWrite, 5), (OpRemove, 5), (OpRemove, 5)] small_loop)) (\<lambda>_. None) = Some k"
  using registration_matches_kernel [of small_loop
      "[(OpEnableRead, 5), (OpEnableWrite, 5), (OpDisableWrite, 5), (OpRemove, 5), (OpRemove, 5)]"]
  by (auto simp: small_loop_def)

section \<open>Functions from other threads\<close>

text \<open>
  The loop among other threads that hand it functions. The loop is in \<^verbatim>\<open>epoll_wait\<close>, or at
  work on timers and events (with a flag for the event of the notifier that has been returned
  but not read yet), or between the two halves of the unlocked swap, or running the functions it
  took. Another thread first appends its function, under the mutex, and then writes the eventfd;
  \<open>owed\<close> counts the writes still to come. \<open>queued\<close> and \<open>finished\<close> record the functions in the
  order of their steps, and \<open>raced\<close> those appended while the loop was inside the swap. The
  language leaves such an access undefined; the outcome given to it here is the mildest one,
  that of the copy followed by the reset.
\<close>

datatype phase = InPoll | AtWork bool | Swapping "nat list" | Running "nat list"

record threads =
  ph :: phase
  evl :: loop
  owed :: nat
  queued :: "nat list"
  finished :: "nat list"
  raced :: "nat list"

fun in_swap :: "phase \<Rightarrow> bool" where
  "in_swap (Swapping fs) = True"
| "in_swap _ = False"

inductive loop_step :: "threads \<Rightarrow> threads \<Rightarrow> bool" where
  other_push: "loop_step t (t\<lparr>evl := queue_push f (evl t), owed := owed t + 1, queued := queued t @ [f],
    raced := (if in_swap (ph t) then raced t @ [f] else raced t)\<rparr>)"
| other_wake: "0 < owed t \<Longrightarrow> loop_step t (t\<lparr>evl := Notify_WakeUp (evl t), owed := owed t - 1\<rparr>)"
| poll_return: "ph t = InPoll \<Longrightarrow> loop_step t (t\<lparr>ph := AtWork (0 < event_count (evl t))\<rparr>)"
| read_notifier: "ph t = AtWork True \<Longrightarrow> loop_step t (t\<lparr>ph := AtWork False, evl := Notify_ProcessReadEvent (evl t)\<rparr>)"
| own_queue: "ph t \<noteq> InPoll \<Longrightarrow> \<not> in_swap (ph t) \<Longrightarrow>
    loop_step t (t\<lparr>evl := QueueInLoop True f (evl t), queued := queued t @ [f]\<rparr>)"
| take_functions: "ph t = AtWork False \<Longrightarrow>
    loop_step t (t\<lparr>ph := Swapping (fst (pending_take (evl t))), evl := snd (pending_take (evl t))\<rparr>)"
| clear_functions: "ph t = Swapping fs \<Longrightarrow> loop_step t (t\<lparr>ph := Running fs, evl := pending_clear (evl t)\<rparr>)"
| run_function: "ph t = Running (f # fs) \<Longrightarrow> loop_step t (t\<lparr>ph := Running fs, finished := finished t @ [f]\<rparr>)"
| back_to_poll: "ph t = Running [] \<Longrightarrow> loop_step t (t\<lparr>ph := InPoll, evl := pending_end (evl t)\<rparr>)"

definition idle_threads :: "loop \<Rightarrow> threads" where
  "idle_threads l = \<lparr>ph = InPoll, evl = l, owed = 0, queued = [], finished = [], raced = []\<rparr>"

text \<open>The functions the loop holds, and those it will find at its next swap.\<close>

fun taken :: "phase \<Rightarrow> nat list" where
  "taken (Running fs) = fs"
| "taken (Swapping fs) = fs"
| "taken _ = []"

definition waiting :: "threads \<Rightarrow> nat list" where
  "waiting t = (if in_swap (ph t) then [] else m_pending_func_list (evl t))"

definition loop_inv :: "threads \<Rightarrow> bool" where
  "loop_inv t \<longleftrightarrow>
     subseq (finished t @ taken (ph t) @ waiting t) (queued t) \<and>
     mset (queued t) = mset (finished t @ taken (ph t) @ waiting t) + mset (raced t) \<and>
     (m_pending_func (evl t) \<longleftrightarrow> in_swap (ph t) \<or> (\<exists>fs. ph t = Running fs)) \<and>
     ((\<nexists>b. ph t = AtWork b) \<and> waiting t \<noteq> [] \<longrightarrow> 0 < event_count (evl t) \<or> 0 < owed t)"

lemmas loop_step_defs = queue_push_def QueueInLoop_def Notify_WakeUp_def Notify_ProcessReadEvent_def
  pending_take_def pending_clear_def pending_end_def waiting_def Let_def

lemma subseq_snoc: "subseq xs ys \<Longrightarrow> subseq (xs @ [f]) (ys @ [f])" "subseq xs ys \<Longrightarrow> subseq xs (ys @ [f])"
  by (simp_all add: list_emb_append_mono subseq_rev_drop_many)

lemma loop_inv_step: "loop_step t t' \<Longrightarrow> loop_inv t \<Longrightarrow> loop_inv t'"
proof (induction rule: loop_step.induct)
  case (other_push t f)
  then show ?case
    using subseq_snoc [of "finished t @ taken (ph t) @ waiting t" "queued t" f]
    by (cases "ph t") (auto simp: loop_inv_def loop_step_defs)
next
  case (own_queue t f)
  then show ?case
    using subseq_snoc [of "finished t @ taken (ph t) @ waiting t" "queued t" f]
    by (cases "ph t") (auto simp: loop_inv_def loop_step_defs)
qed (auto simp: loop_inv_def loop_step_defs)

lemma loop_inv_reachable:
  assumes "m_pending_func_list l = []" "\<not> m_pending_func l" "loop_step\<^sup>*\<^sup>* (idle_threads l) t"
  shows "loop_inv t"
  using assms(3)
proof (induction rule: rtranclp_induct)
  case base
  then show ?case using assms(1,2) by (simp add: loop_inv_def idle_threads_def waiting_def)
next
  case (step t t')
  then show ?case using loop_inv_step by blast
qed

text \<open>The loop alone: it runs what it took, and it gets from the wait to the functions.\<close>

lemma running_runs: "ph t = Running fs \<Longrightarrow> loop_step\<^sup>*\<^sup>* t (t\<lparr>ph := Running [], finished := finished t @ fs\<rparr>)"
proof (induction fs arbitrary: t)
  case Nil
  then have "t\<lparr>ph := Running [], finished := finished t @ []\<rparr> = t" by (cases t) simp
  then show ?case by simp
next
  case (Cons f fs)
  let ?t = "t\<lparr>ph := Running fs, finished := finished t @ [f]\<rparr>"
  have "loop_step t ?t" using Cons.prems by (rule loop_step.run_function)
  moreover have "loop_step\<^sup>*\<^sup>* ?t (t\<lparr>ph := Running [], finished := finished t @ f # fs\<rparr>)"
    using Cons.IH [of ?t] by simp
  ultimately show ?case by (rule converse_rtranclp_into_rtranclp)
qed

lemma working_runs:
  assumes "ph t = AtWork False"
  shows "\<exists>t'. loop_step\<^sup>*\<^sup>* t t' \<and> finished t' = finished t @ m_pending_func_list (evl t) \<and> queued t' = queued t"
proof -
  let ?t1 = "t\<lparr>ph := Swapping (fst (pending_take (evl t))), evl := snd (pending_take (evl t))\<rparr>"
  let ?t2 = "?t1\<lparr>ph := Running (m_pending_func_list (evl t)), evl := pending_clear (evl ?t1)\<rparr>"
  have "loop_step t ?t1" using assms by (rule loop_step.take_functions)
  moreover have "loop_step ?t1 ?t2"
    using loop_step.clear_functions [of ?t1 "m_pending_func_list (evl t)"] by (simp add: pending_take_def)
  moreover have "loop_step\<^sup>*\<^sup>* ?t2 (?t2\<lparr>ph := Running [], finished := finished t @ m_pending_func_list (evl t)\<rparr>)"
    using running_runs [of ?t2] by simp
  ultimately have "loop_step\<^sup>*\<^sup>* t (?t2\<lparr>ph := Running [], finished := finished t @ m_pending_func_list (evl t)\<rparr>)"
    by (meson converse_rtranclp_into_rtranclp)
  then show ?thesis by (intro exI conjI) (assumption, simp_all)
qed

lemma waiting_runs:
  assumes "ph t = InPoll"
  shows "\<exists>t'. loop_step\<^sup>*\<^sup>* t t' \<and> finished t' = finished t @ m_pending_func_list (evl t) \<and> queued t' = queued t"
proof -
  let ?t1 = "t\<lparr>ph := AtWork (0 < event_count (evl t))\<rparr>"
  let ?t2 = "?t1\<lparr>ph := AtWork False, evl := Notify_ProcessReadEvent (evl ?t1)\<rparr>"
  have 1: "loop_step t ?t1" using assms by (rule loop_step.poll_return)
  show ?thesis
  proof (cases "0 < event_count (evl t)")
    case True
    then have "loop_step ?t1 ?t2" by (intro loop_step.read_notifier) simp
    then show ?thesis
      using 1 working_runs [of ?t2] by (auto simp: Notify_ProcessReadEvent_def intro: converse_rtranclp_into_rtranclp)
  next
    case False
    then show ?thesis using 1 working_runs [of ?t1] by (auto intro: converse_rtranclp_into_rtranclp)
  qed
qed

lemma push_in_swap_lost:
  assumes "m_pending_func_list l = []" "\<not> m_pending_func l"
  shows "\<exists>t. loop_step\<^sup>*\<^sup>* (idle_threads l) t \<and> queued t = [f] \<and> finished t = [] \<and> ph t = InPoll \<and>
    m_pending_func_list (evl t) = []"
proof -
  let ?t1 = "(idle_threads l)\<lparr>ph := AtWork (0 < event_count l)\<rparr>"
  let ?t2 = "?t1\<lparr>ph := AtWork False, evl := if 0 < event_count l then Notify_ProcessReadEvent l else l\<rparr>"
  let ?t3 = "?t2\<lparr>ph := Swapping [], evl := snd (pending_take (evl ?t2))\<rparr>"
  let ?t4 = "?t3\<lparr>evl := queue_push f (evl ?t3), owed := 1, queued := [f], raced := [f]\<rparr>"
  let ?t5 = "?t4\<lparr>ph := Running [], evl := pending_clear (evl ?t4)\<rparr>"
  let ?t6 = "?t5\<lparr>ph := InPoll, evl := pending_end (evl ?t5)\<rparr>"
  have "loop_step (idle_threads l) ?t1"
    using loop_step.poll_return [of "idle_threads l"] by (simp add: idle_threads_def)
  moreover have "loop_step\<^sup>*\<^sup>* ?t1 ?t2"
    using loop_step.read_notifier [of ?t1] by (cases "0 < event_count l") (auto simp: idle_threads_def)
  moreover have "loop_step ?t2 ?t3"
    using loop_step.take_functions [of ?t2] assms(1)
    by (simp add: pending_take_def Notify_ProcessReadEvent_def split: if_splits)
  moreover have "loop_step ?t3 ?t4"
    using loop_step.other_push [of ?t3 f] by (simp add: idle_threads_def)
  moreover have "loop_step ?t4 ?t5" by (rule loop_step.clear_functions) simp
  moreover have "loop_step ?t5 ?t6" by (rule loop_step.back_to_poll) simp
  ultimately have "loop_step\<^sup>*\<^sup>* (idle_threads l) ?t6"
    by (meson converse_rtranclp_into_rtranclp rtranclp_trans r_into_rtranclp)
  then show ?thesis
    by (intro exI conjI, assumption) (simp_all add: idle_threads_def pending_clear_def pending_end_def)
qed



end
