(* ===== verification/Tcp_Connection.thy ===== *)
theory Tcp_Connection
  imports Buffer Event_Loop
begin

text \<open>
  Connections and their owners in the reactor library: \<^verbatim>\<open>ReadFdToBuffer\<close>,
  \<^verbatim>\<open>WriteBufferToFd\<close> and \<^verbatim>\<open>Accept\<close> of \<^verbatim>\<open>easy_net/base/socket_opt.cpp\<close>, and
  \<^verbatim>\<open>tcp_connection.cpp\<close>, \<^verbatim>\<open>tcp_server.cpp\<close>, \<^verbatim>\<open>tcp_client.cpp\<close> and \<^verbatim>\<open>acceptor.cpp\<close> of
  \<^verbatim>\<open>easy_net/net\<close>. What the kernel answers to a system call is an argument; a sequence of
  answers that ends before the loop that asks for them does gives \<open>None\<close>. The callbacks of
  the user are the argument \<open>cbs\<close>. The results are \<^verbatim>\<open>size_t\<close> as in the code, so that -1 is
  the largest number.
\<close>

section \<open>Reading and writing descriptors\<close>

datatype errno = EINTR | EAGAIN | EMFILE | EBADF | EOTHER nat

text \<open>The answers of \<^verbatim>\<open>readv\<close> and \<^verbatim>\<open>write\<close>: the octets moved, none at the end of the stream.\<close>

datatype sys_read = ReadOctets octets | ReadError errno

datatype sys_write = Wrote nat | WriteError errno

definition EXTRABUF :: nat where "EXTRABUF = 65536"

text \<open>\<^verbatim>\<open>readv\<close> fills the writeable part of the buffer first and then \<^verbatim>\<open>extrabuf\<close>.\<close>

definition readv_capacity :: "buffer \<Rightarrow> nat" where
  "readv_capacity buf =
     (let read_size = unat (GetWriteableSize buf)
      in if read_size < EXTRABUF then read_size + EXTRABUF else read_size)"

fun ReadFdToBuffer :: "sys_read list \<Rightarrow> buffer \<Rightarrow> (u64 \<times> buffer) option" where
  "ReadFdToBuffer [] buf = None"
| "ReadFdToBuffer (ReadError e # rs) buf = (if e = EINTR then ReadFdToBuffer rs buf else Some (-1, buf))"
| "ReadFdToBuffer (ReadOctets xs # rs) buf =
     (let read_size = unat (GetWriteableSize buf);
          buf1 = buf\<lparr>m_data := memcpy_at (unat (m_writeidx buf)) (take read_size xs) (m_data buf)\<rparr>
      in if xs = [] then Some (0, buf)
         else if length xs \<le> read_size
         then Some (of_nat (length xs), AdvanceWriter (of_nat (length xs)) buf1)
         else map_option (\<lambda>buf2. (of_nat (length xs), buf2))
                (Append (drop read_size xs) (SetWriterAddr (ucast (GetBufferSize buf1)) buf1)))"

text \<open>The octets the kernel took come back as well; the rest of the answers is for the next call.\<close>

fun WriteBufferToFd :: "sys_write list \<Rightarrow> buffer \<Rightarrow> (u64 \<times> octets \<times> buffer \<times> sys_write list) option" where
  "WriteBufferToFd [] buf = None"
| "WriteBufferToFd (WriteError e # ws) buf =
     (if e = EINTR then WriteBufferToFd ws buf
      else if e = EAGAIN then Some (0, [], buf, ws)
      else Some (-1, [], buf, ws))"
| "WriteBufferToFd (Wrote n # ws) buf =
     Some (of_nat n, sub_octets (m_data buf) (unat (m_readidx buf)) n,
           if n > 0 then AdvanceReader (of_nat n) buf else buf, ws)"

lemma WriteBufferToFd_rest: "WriteBufferToFd ws buf = Some (r, xs, buf', ws') \<Longrightarrow> length ws' < length ws"
  by (induction ws buf rule: WriteBufferToFd.induct) (auto split: if_splits)

section \<open>Connections\<close>

datatype ConnStatus = CONNECTING | CONNECTED | DISCONNECTING | DISCONNECTED

record conn =
  m_read_buf :: buffer
  m_write_buf :: buffer
  m_status :: ConnStatus

text \<open>
  The state of a server: \<open>m_connections_map\<close> holds the shared pointers; \<open>kept\<close> are the
  connections the user holds a shared pointer to; a connection that is in neither is freed.
  \<open>written\<close> is what the kernel took on each connection. \<open>undef\<close> is set by an access to a
  freed connection, \<open>aborted\<close> by a failed assertion.
\<close>

record server = loop +
  conns :: "nat \<Rightarrow> conn"
  next_conn :: nat
  m_connections_map :: "nat set"
  kept :: "nat set"
  freed :: "nat set"
  written :: "nat \<Rightarrow> octets"
  undef :: bool
  aborted :: bool

record user_calls =
  onNewConnection :: "nat \<Rightarrow> server \<Rightarrow> server"
  onDelConnection :: "nat \<Rightarrow> server \<Rightarrow> server"
  onRecvMsg :: "nat \<Rightarrow> server \<Rightarrow> server"
  onWriteComplete :: "nat \<Rightarrow> server \<Rightarrow> server"

definition upd_conn :: "nat \<Rightarrow> (conn \<Rightarrow> conn) \<Rightarrow> server \<Rightarrow> server" where
  "upd_conn c f s = s\<lparr>conns := (conns s)(c := f (conns s c))\<rparr>"

definition SetStatus :: "nat \<Rightarrow> ConnStatus \<Rightarrow> server \<Rightarrow> server" where
  "SetStatus c st s =
     (if c \<in> freed s then s\<lparr>undef := True\<rparr> else upd_conn c (\<lambda>k. k\<lparr>m_status := st\<rparr>) s)"

definition TcpConn_init :: conn where
  "TcpConn_init =
     \<lparr>m_read_buf = Buffer_init KInitalSize, m_write_buf = Buffer_init KInitalSize, m_status = CONNECTING\<rparr>"

definition NewConn :: "user_calls \<Rightarrow> int \<Rightarrow> server \<Rightarrow> server" where
  "NewConn cbs fd s =
     (let c = next_conn s;
          s1 = s\<lparr>next_conn := c + 1, conns := (conns s)(c := TcpConn_init),
                 io_events := (io_events s)(c := \<lparr>m_fd = fd, m_expect_event = 0, m_actual_event = 0\<rparr>),
                 m_connections_map := insert c (m_connections_map s)\<rparr>
      in onNewConnection cbs c (EnableRead c (SetStatus c CONNECTED s1)))"

text \<open>
  \<^verbatim>\<open>DelConn\<close>, called with a temporary shared pointer as the argument: when the call is over,
  the connection is destroyed unless the user holds it.
\<close>

definition drop_temporary :: "nat \<Rightarrow> server \<Rightarrow> server" where
  "drop_temporary c s =
     (if c \<in> m_connections_map s \<union> kept s then s else s\<lparr>freed := insert c (freed s)\<rparr>)"

definition DelConn :: "user_calls \<Rightarrow> nat \<Rightarrow> server \<Rightarrow> server" where
  "DelConn cbs c s =
     (let s1 = RemoveEvent c (onDelConnection cbs c s)
      in if c \<in> m_connections_map s1
         then drop_temporary c (s1\<lparr>m_connections_map := m_connections_map s1 - {c}\<rparr>)
         else s1\<lparr>aborted := True\<rparr>)"

definition RecvMsg :: "user_calls \<Rightarrow> nat \<Rightarrow> server \<Rightarrow> server" where
  "RecvMsg cbs c s = onRecvMsg cbs c s"

definition WriteComplete :: "user_calls \<Rightarrow> nat \<Rightarrow> server \<Rightarrow> server" where
  "WriteComplete cbs c s = onWriteComplete cbs c s"

definition SendData :: "nat \<Rightarrow> octets \<Rightarrow> server \<Rightarrow> server option" where
  "SendData c data s =
     (if m_status (conns s c) = DISCONNECTED \<or> m_status (conns s c) = DISCONNECTING then Some s
      else
        map_option
          (\<lambda>b. let s1 = upd_conn c (\<lambda>k. k\<lparr>m_write_buf := b\<rparr>) s
               in if GetReadableSize b > 0 then EnableWrite c s1 else s1)
          (Append data (m_write_buf (conns s c))))"

definition conn_ProcessReadEvent :: "user_calls \<Rightarrow> sys_read list \<Rightarrow> nat \<Rightarrow> server \<Rightarrow> server option" where
  "conn_ProcessReadEvent cbs rs c s =
     map_option
       (\<lambda>(n, b).
          let s1 = upd_conn c (\<lambda>k. k\<lparr>m_read_buf := b\<rparr>) s in
          if n > 0 then RecvMsg cbs c s1
          else if n = 0
          then (let s2 = SetStatus c DISCONNECTING s1
                in if GetReadableSize (m_write_buf (conns s2 c)) = 0
                   then SetStatus c DISCONNECTED (DelConn cbs c s2) else s2)
          else DelConn cbs c s1)
       (ReadFdToBuffer rs (m_read_buf (conns s c)))"

text \<open>The loop of \<^verbatim>\<open>ProcessWriteEvent\<close>; \<^verbatim>\<open>ret < 0\<close> compares unsigned numbers.\<close>

function conn_write_loop :: "user_calls \<Rightarrow> sys_write list \<Rightarrow> nat \<Rightarrow> server \<Rightarrow> server option" where
  "conn_write_loop cbs ws c s =
     (if GetReadableSize (m_write_buf (conns s c)) = 0 then Some s
      else
        (case WriteBufferToFd ws (m_write_buf (conns s c)) of
           None \<Rightarrow> None
         | Some (ret, xs, b, ws1) \<Rightarrow>
             (let s1 = (upd_conn c (\<lambda>k. k\<lparr>m_write_buf := b\<rparr>) s)\<lparr>written := (written s)(c := written s c @ xs)\<rparr>;
                  s2 = (if ret < 0 then DelConn cbs c s1 else s1)
              in if ret = 0 then Some s2 else conn_write_loop cbs ws1 c s2)))"
  by pat_completeness auto
termination
  by (relation "measure (\<lambda>(cbs, ws, c, s). length ws)") (auto dest: WriteBufferToFd_rest)

declare conn_write_loop.simps [simp del]

definition conn_ProcessWriteEvent :: "user_calls \<Rightarrow> sys_write list \<Rightarrow> nat \<Rightarrow> server \<Rightarrow> server option" where
  "conn_ProcessWriteEvent cbs ws c s =
     (if m_status (conns s c) = DISCONNECTED then Some s
      else
        map_option
          (\<lambda>s1.
             if GetReadableSize (m_write_buf (conns s1 c)) = 0
             then (if m_status (conns s1 c) = DISCONNECTING
                   then SetStatus c DISCONNECTED (DelConn cbs c s1)
                   else WriteComplete cbs c (DisableWrite c s1))
             else s1)
          (conn_write_loop cbs ws c s))"

section \<open>Accepting\<close>

text \<open>
  \<^verbatim>\<open>SocketOpt::Accept\<close>: after a failed \<^verbatim>\<open>accept\<close> it still calls \<^verbatim>\<open>fcntl\<close> on the descriptor -1,
  which fails and leaves its own error in \<^verbatim>\<open>errno\<close>. The result is the descriptor and the
  \<^verbatim>\<open>errno\<close> the caller reads.
\<close>

datatype sys_accept = Accepted int | AcceptError errno

definition SocketOpt_Accept :: "sys_accept \<Rightarrow> int \<times> errno option" where
  "SocketOpt_Accept r = (case r of Accepted fd \<Rightarrow> (fd, None) | AcceptError e \<Rightarrow> (-1, Some EBADF))"

text \<open>\<open>idle\<close> tells whether the reserve descriptor was used to take and drop a connection.\<close>

definition Acceptor_ProcessReadEvent :: "user_calls \<Rightarrow> sys_accept \<Rightarrow> server \<Rightarrow> bool \<times> server" where
  "Acceptor_ProcessReadEvent cbs r s =
     (let (acceptfd, err) = SocketOpt_Accept r
      in if acceptfd < 0 then (err = Some EMFILE, s)
         else (False, NewConn cbs acceptfd s))"

section \<open>Loops and servers\<close>

text \<open>\<^verbatim>\<open>TcpServer::get_loop\<close> with its static index, over the main loop and \<open>cnt\<close> workers.\<close>

definition get_loop :: "nat \<Rightarrow> nat \<Rightarrow> nat \<times> nat" where
  "get_loop cnt idx = (let i = (if idx = cnt + 1 then 0 else idx) in (i mod (cnt + 1), i + 1))"

text \<open>
  \<^verbatim>\<open>TcpServer::stop\<close>: the loops of the children are told to quit, the children joined, and
  then the main loop is told to quit. \<open>loops\<close> are the workers, the first of them the main loop,
  and \<open>here\<close> says whether the caller is the thread of the main loop.
\<close>

definition server_stop :: "bool \<Rightarrow> loop list \<Rightarrow> loop list" where
  "server_stop here loops = (case loops of [] \<Rightarrow> [] | m # ws \<Rightarrow> Quit here m # map (Quit False) ws)"

section \<open>What is sent\<close>

text \<open>Answers of \<^verbatim>\<open>write\<close> that take all of \<open>r\<close> octets or end with a full socket buffer.\<close>

fun writes_enough :: "sys_write list \<Rightarrow> nat \<Rightarrow> bool" where
  "writes_enough [] r \<longleftrightarrow> r = 0"
| "writes_enough (Wrote n # ws) r \<longleftrightarrow> r = 0 \<or> n \<le> r \<and> (n = 0 \<or> writes_enough ws (r - n))"
| "writes_enough (WriteError e # ws) r \<longleftrightarrow> r = 0 \<or> e = EAGAIN \<or> e = EINTR \<and> writes_enough ws r"

lemma write_step:
  assumes "buf_ok b" "unat (m_writeidx b) < 2 ^ 31" "content b \<noteq> []" "writes_enough ws (length (content b))"
  shows "\<exists>ret xs b' ws'. WriteBufferToFd ws b = Some (ret, xs, b', ws') \<and> buf_ok b' \<and> m_writeidx b' = m_writeidx b \<and>
    xs @ content b' = content b \<and> (ret = 0 \<or> writes_enough ws' (length (content b')))"
  using assms(4)
proof (induction ws "length (content b)" rule: writes_enough.induct)
  case (2 n ws)
  have n: "n \<le> length (content b)" "n < 2 ^ 31" using 2(2) assms(2,3) length_content [OF assms(1)] by auto
  obtain b' where b': "RetriveAsString (of_nat n) b = Some (take n (content b), b')" "buf_ok b'"
    "content b' = drop n (content b)" "m_writeidx b' = m_writeidx b"
    using RetriveAsString_spec [OF assms(1) n] by blast
  have un: "unat (of_nat n :: u64) = n" using n(2) by (intro unat_small) simp
  have cast: "ucast (of_nat n :: u64) = (of_nat n :: i32)"
    using n(2) by (simp add: unsigned_of_nat take_bit_nat_eq_self)
  have e: "sub_octets (m_data b) (unat (m_readidx b)) n = take n (content b)" "AdvanceReader (of_nat n) b = b'"
    using b'(1) by (simp_all add: RetriveAsString_def un cast split: if_splits)
  have z: "n = 0 \<Longrightarrow> AdvanceReader (of_nat n) b = b" by (simp add: AdvanceReader_def)
  have "writes_enough ws (length (content b'))" if "n \<noteq> 0" using 2(2) that assms(3) b'(3) by simp
  then show ?case using b' e z by (cases "n = 0") auto
next
  case (3 e ws)
  then show ?case using assms(1,3) by auto
qed (use assms(3) in simp)

lemma conn_write_spec:
  assumes "buf_ok (m_write_buf (conns s c))" "unat (m_writeidx (m_write_buf (conns s c))) < 2 ^ 31"
    "writes_enough ws (length (content (m_write_buf (conns s c))))"
  shows "\<exists>s'. conn_write_loop cbs ws c s = Some s' \<and> buf_ok (m_write_buf (conns s' c)) \<and>
    m_writeidx (m_write_buf (conns s' c)) = m_writeidx (m_write_buf (conns s c)) \<and>
    written s' c @ content (m_write_buf (conns s' c)) = written s c @ content (m_write_buf (conns s c)) \<and>
    m_status (conns s' c) = m_status (conns s c) \<and> io_events s' = io_events s"
  using assms
proof (induction "length ws" arbitrary: ws s rule: less_induct)
  case less
  let ?b = "m_write_buf (conns s c)"
  have z: "GetReadableSize ?b = 0 \<longleftrightarrow> content ?b = []"
    using unat_readable [OF less.prems(1)] by (metis length_0_conv unat_0 unat_eq_zero)
  show ?case
  proof (cases "content ?b = []")
    case True
    then show ?thesis using less.prems(1) z by (subst conn_write_loop.simps) simp
  next
    case False
    obtain ret xs b' ws' where w: "WriteBufferToFd ws ?b = Some (ret, xs, b', ws')" "buf_ok b'"
      "m_writeidx b' = m_writeidx ?b" "xs @ content b' = content ?b" "ret = 0 \<or> writes_enough ws' (length (content b'))"
      using write_step [OF less.prems(1,2) False less.prems(3)] by blast
    define s1 where "s1 = (upd_conn c (\<lambda>k. k\<lparr>m_write_buf := b'\<rparr>) s)\<lparr>written := (written s)(c := written s c @ xs)\<rparr>"
    have f: "m_write_buf (conns s1 c) = b'" "written s1 c = written s c @ xs" "m_status (conns s1 c) = m_status (conns s c)"
      "io_events s1 = io_events s"
      by (simp_all add: s1_def upd_conn_def)
    have r: "conn_write_loop cbs ws c s = (if ret = 0 then Some s1 else conn_write_loop cbs ws' c s1)"
      using False z w(1) by (subst conn_write_loop.simps) (simp add: s1_def Let_def)
    show ?thesis
    proof (cases "ret = 0")
      case True
      then show ?thesis using r f w(2-4) by simp
    next
      case False
      then show ?thesis
        using less.hyps [OF WriteBufferToFd_rest [OF w(1)], of s1] r f w less.prems(2) by auto
    qed
  qed
qed

datatype conn_op = SendOp octets | WritableOp "sys_write list"

fun conn_run :: "user_calls \<Rightarrow> nat \<Rightarrow> conn_op list \<Rightarrow> server \<Rightarrow> server option" where
  "conn_run cbs c [] s = Some s"
| "conn_run cbs c (SendOp xs # ops) s =
     (case SendData c xs s of None \<Rightarrow> None | Some s1 \<Rightarrow> conn_run cbs c ops s1)"
| "conn_run cbs c (WritableOp ws # ops) s =
     (case conn_ProcessWriteEvent cbs ws c s of None \<Rightarrow> None | Some s1 \<Rightarrow> conn_run cbs c ops s1)"

fun sent_octets :: "conn_op \<Rightarrow> octets" where
  "sent_octets (SendOp xs) = xs"
| "sent_octets _ = []"

text \<open>The kernel answers every writable event with enough room or a full buffer.\<close>

fun kernel_answers :: "user_calls \<Rightarrow> nat \<Rightarrow> conn_op list \<Rightarrow> server \<Rightarrow> bool" where
  "kernel_answers cbs c [] s \<longleftrightarrow> True"
| "kernel_answers cbs c (SendOp xs # ops) s \<longleftrightarrow>
     (case SendData c xs s of None \<Rightarrow> True | Some s1 \<Rightarrow> kernel_answers cbs c ops s1)"
| "kernel_answers cbs c (WritableOp ws # ops) s \<longleftrightarrow>
     writes_enough ws (length (content (m_write_buf (conns s c)))) \<and>
     (case conn_ProcessWriteEvent cbs ws c s of None \<Rightarrow> True | Some s1 \<Rightarrow> kernel_answers cbs c ops s1)"

definition send_inv :: "nat \<Rightarrow> octets \<Rightarrow> server \<Rightarrow> bool" where
  "send_inv c sent s \<longleftrightarrow>
     (let b = m_write_buf (conns s c)
      in buf_ok b \<and> unat (m_writeidx b) \<le> length sent \<and> written s c @ content b = sent \<and>
         m_status (conns s c) = CONNECTED \<and>
         (content b \<noteq> [] \<longrightarrow> m_expect_event (io_events s c) AND IOEvent_WRITEABLE \<noteq> 0))"

lemma status_frame [simp]:
  "conns (update_event_status opt e s) = conns s" "written (update_event_status opt e s) = written s"
  by (cases opt; simp add: status_defs)+

lemma status_events [simp]: "io_events (update_event_status opt e l) = io_events l"
  by (cases opt; simp add: status_defs)

lemma toggle_frame [simp]:
  "conns (EnableWrite e s) = conns s" "written (EnableWrite e s) = written s"
  "conns (DisableWrite e s) = conns s" "written (DisableWrite e s) = written s"
  by (simp_all add: EnableWrite_def DisableWrite_def upd_ev_def)

lemma enable_expects: "m_expect_event (io_events (EnableWrite e s) e) AND IOEvent_WRITEABLE \<noteq> 0"
proof -
  have "bit (m_expect_event (io_events (EnableWrite e s) e) AND IOEvent_WRITEABLE) 2"
    by (simp add: EnableWrite_def upd_ev_def bit_and_iff bit_or_iff IOEvent_WRITEABLE_def POLLOUT_def
        bit_iff_and_drop_bit_eq_1)
  then show ?thesis by auto
qed

lemma send_keeps:
  assumes "send_inv c sent s" "length (sent @ xs) < 2 ^ 31"
  shows "\<exists>s'. SendData c xs s = Some s' \<and> send_inv c (sent @ xs) s'"
proof -
  let ?b = "m_write_buf (conns s c)"
  have i: "buf_ok ?b" "unat (m_writeidx ?b) \<le> length sent" "written s c @ content ?b = sent" "m_status (conns s c) = CONNECTED"
    using assms(1) by (simp_all add: send_inv_def Let_def)
  obtain b' where b': "Append xs ?b = Some b'" "buf_ok b'" "content b' = content ?b @ xs"
    "unat (m_writeidx b') \<le> unat (m_writeidx ?b) + length xs"
    using Append_spec [OF i(1), of xs] i(2) assms(2) by auto
  have g: "GetReadableSize b' > 0 \<longleftrightarrow> content b' \<noteq> []"
    using unat_readable [OF b'(2)] by (simp add: word_less_nat_alt)
  show ?thesis
    using i b' g enable_expects [of c "upd_conn c (\<lambda>k. k\<lparr>m_write_buf := b'\<rparr>) s"]
    by (auto simp: SendData_def send_inv_def Let_def upd_conn_def)
qed

lemma writable_keeps:
  assumes "send_inv c sent s" "length sent < 2 ^ 31" "writes_enough ws (length (content (m_write_buf (conns s c))))"
    and quiet: "\<And>s. conns (onWriteComplete cbs c s) c = conns s c \<and> written (onWriteComplete cbs c s) c = written s c"
  shows "\<exists>s'. conn_ProcessWriteEvent cbs ws c s = Some s' \<and> send_inv c sent s'"
proof -
  let ?b = "m_write_buf (conns s c)"
  have i: "buf_ok ?b" "unat (m_writeidx ?b) \<le> length sent" "written s c @ content ?b = sent" "m_status (conns s c) = CONNECTED"
      "content ?b \<noteq> [] \<longrightarrow> m_expect_event (io_events s c) AND IOEvent_WRITEABLE \<noteq> 0"
    using assms(1) by (simp_all add: send_inv_def Let_def)
  obtain s1 where s1: "conn_write_loop cbs ws c s = Some s1" "buf_ok (m_write_buf (conns s1 c))"
    "m_writeidx (m_write_buf (conns s1 c)) = m_writeidx ?b"
    "written s1 c @ content (m_write_buf (conns s1 c)) = sent" "m_status (conns s1 c) = CONNECTED" "io_events s1 = io_events s"
    using conn_write_spec [OF i(1) _ assms(3), of cbs] i(2-4) assms(2) by auto
  have z: "GetReadableSize (m_write_buf (conns s1 c)) = 0 \<longleftrightarrow> content (m_write_buf (conns s1 c)) = []"
    using unat_readable [OF s1(2)] by (metis length_0_conv unat_0 unat_eq_zero)
  have "content (m_write_buf (conns s1 c)) \<noteq> [] \<Longrightarrow> content ?b \<noteq> []"
  proof
    assume a: "content (m_write_buf (conns s1 c)) \<noteq> []" "content ?b = []"
    then have "GetReadableSize ?b = 0" using unat_readable [OF i(1)] by (simp add: unat_eq_zero)
    then have "s1 = s" using s1(1) by (subst (asm) conn_write_loop.simps) simp
    then show False using a by simp
  qed
  then show ?thesis
    using i(2,4,5) s1 z quiet
    by (auto simp: conn_ProcessWriteEvent_def send_inv_def WriteComplete_def Let_def)
qed

text \<open>C11. What a connection sends. The user hands any octets to \<^verbatim>\<open>SendData\<close> at any time between
  writable events, which find room for any part of them. Every call returns, the kernel is
  given exactly the octets handed over so far in order, with the rest waiting in the buffer,
  and while any wait the connection expects the event that it can write.\<close>

theorem connection_sends_in_order:
  assumes "m_status (conns s c) = CONNECTED" "m_write_buf (conns s c) = Buffer_init KInitalSize" "written s c = []"
    and "length (concat (map sent_octets ops)) < 2 ^ 31" "kernel_answers cbs c ops s"
    and quiet: "\<And>s. conns (onWriteComplete cbs c s) c = conns s c \<and> written (onWriteComplete cbs c s) c = written s c"
  shows "\<exists>s'. conn_run cbs c ops s = Some s' \<and>
    written s' c @ content (m_write_buf (conns s' c)) = concat (map sent_octets ops) \<and>
    (content (m_write_buf (conns s' c)) \<noteq> [] \<longrightarrow> m_expect_event (io_events s' c) AND IOEvent_WRITEABLE \<noteq> 0)"
proof -
  have "\<exists>s'. conn_run cbs c ops s = Some s' \<and> send_inv c (sent @ concat (map sent_octets ops)) s'"
    if "send_inv c sent s" "length (sent @ concat (map sent_octets ops)) < 2 ^ 31" "kernel_answers cbs c ops s" for sent s
    using that
  proof (induction ops arbitrary: s sent)
    case (Cons op ops)
    show ?case
    proof (cases op)
      case (SendOp xs)
      obtain s1 where "SendData c xs s = Some s1" "send_inv c (sent @ xs) s1"
        using send_keeps [OF Cons.prems(1), of xs] Cons.prems(2) SendOp by auto
      then show ?thesis using Cons.IH [of "sent @ xs" s1] Cons.prems(2,3) SendOp by simp
    next
      case (WritableOp ws)
      obtain s1 where "conn_ProcessWriteEvent cbs ws c s = Some s1" "send_inv c sent s1"
        using writable_keeps [OF Cons.prems(1) _ _ quiet] Cons.prems(2,3) WritableOp by auto
      then show ?thesis using Cons.IH [of sent s1] Cons.prems(2,3) WritableOp by simp
    qed
  qed simp
  moreover have "send_inv c [] s"
    using assms(1-3) by (simp add: send_inv_def Buffer_init_def buf_ok_def content_def sub_octets_def KInitalSize_def)
  ultimately show ?thesis using assms(4,5) by (fastforce simp: send_inv_def Let_def)
qed

definition small_server :: server where
  "small_server = loop.extend small_loop
     (server.fields (\<lambda>_. TcpConn_init\<lparr>m_status := CONNECTED\<rparr>) 1 {0} {} {} (\<lambda>_. []) False False)"

definition quiet_user :: user_calls where
  "quiet_user = \<lparr>onNewConnection = (\<lambda>c s. s), onDelConnection = (\<lambda>c s. s), onRecvMsg = (\<lambda>c s. s), onWriteComplete = (\<lambda>c s. s)\<rparr>"

lemma small_server_simps:
  "conns small_server c = TcpConn_init\<lparr>m_status := CONNECTED\<rparr>" "written small_server c = []"
  "m_connections_map small_server = {0}" "kept small_server = {}" "freed small_server = {}"
  by (simp_all add: small_server_def server.defs loop.defs)

theorem connection_sends_in_order_witness:
  "\<exists>s'. conn_run quiet_user 0 [SendOp [1, 2], WritableOp [WriteError EAGAIN], SendOp [3]] small_server = Some s' \<and>
     written s' 0 @ content (m_write_buf (conns s' 0)) = [1, 2, 3]"
proof -
  have "kernel_answers quiet_user 0 [SendOp [1, 2], WritableOp [WriteError EAGAIN], SendOp [3]] small_server"
    by (auto split: option.split)
  then show ?thesis
    using connection_sends_in_order [of small_server 0 "[SendOp [1, 2], WritableOp [WriteError EAGAIN], SendOp [3]]" quiet_user]
    by (auto simp: small_server_simps TcpConn_init_def quiet_user_def)
qed

section \<open>What is received\<close>

text \<open>The writeable part filled with the first octets.\<close>

lemma fill_writeable:
  assumes "buf_ok b" "unat (m_writeidx b) + length ys \<le> length (m_data b)" "length (m_data b) < 2 ^ 31"
  defines "b1 \<equiv> b\<lparr>m_data := memcpy_at (unat (m_writeidx b)) ys (m_data b), m_writeidx := m_writeidx b + of_nat (length ys)\<rparr>"
  shows "buf_ok b1" "content b1 = content b @ ys" "unat (m_writeidx b1) = unat (m_writeidx b) + length ys"
proof -
  have b: "unat (m_readidx b) \<le> unat (m_writeidx b)" "unat (m_writeidx b) \<le> length (m_data b)"
    using assms(1) by (simp_all add: buf_ok_def)
  show w: "unat (m_writeidx b1) = unat (m_writeidx b) + length ys"
    using assms(2,3) unat_small [of "length ys"] by (simp add: b1_def unat_word_ariths)
  show "buf_ok b1" using w b assms(2,3) by (simp add: buf_ok_def) (simp add: b1_def)
  show "content b1 = content b @ ys"
    using b by (simp add: content_def w) (simp add: b1_def sub_octets_def memcpy_at_def min_def, simp add: drop_take)
qed

lemma read_event_spec:
  assumes "b = m_read_buf (conns s c)" "buf_ok b" "length (m_data b) < 2 ^ 31" "xs \<noteq> []" "length xs \<le> readv_capacity b"
  shows "\<exists>b'. conn_ProcessReadEvent cbs (replicate n (ReadError EINTR) @ ReadOctets xs # rs) c s =
      Some (RecvMsg cbs c (upd_conn c (\<lambda>k. k\<lparr>m_read_buf := b'\<rparr>) s)) \<and> buf_ok b' \<and> content b' = content b @ xs"
proof -
  let ?r = "unat (GetWriteableSize b)"
  have r: "?r = length (m_data b) - unat (m_writeidx b)" "unat (m_writeidx b) \<le> length (m_data b)"
    using unat_writeable [OF assms(2)] assms(2) by (simp_all add: buf_ok_def)
  have len: "length xs < 2 ^ 32" "length (drop ?r xs) < 2 ^ 31"
    using assms(3,5) r by (auto simp: readv_capacity_def EXTRABUF_def Let_def split: if_splits)
  have eintr: "ReadFdToBuffer (replicate n (ReadError EINTR) @ ReadOctets xs # rs) b = ReadFdToBuffer (ReadOctets xs # rs) b"
    by (induction n) simp_all
  let ?b1 = "b\<lparr>m_data := memcpy_at (unat (m_writeidx b)) (take ?r xs) (m_data b)\<rparr>"
  have "\<exists>b'. ReadFdToBuffer (ReadOctets xs # rs) b = Some (of_nat (length xs), b') \<and> buf_ok b' \<and> content b' = content b @ xs"
  proof (cases "length xs \<le> ?r")
    case True
    have "(scast (of_nat (length xs) :: i32) :: u64) = of_nat (length xs)"
      using scast_small [of "length xs"] True r assms(3) by (simp add: unsigned_of_nat take_bit_nat_eq_self)
    then show ?thesis
      using True assms(4) r fill_writeable [OF assms(2) _ assms(3), of xs] by (simp add: AdvanceWriter_def)
  next
    case False
    have k: "length (take ?r xs) = ?r" "unat (m_writeidx b) + ?r = length (m_data b)" using False r by simp_all
    note f = fill_writeable [OF assms(2) _ assms(3), of "take ?r xs"]
    have "SetWriterAddr (ucast (GetBufferSize ?b1)) ?b1 = ?b1\<lparr>m_writeidx := m_writeidx b + of_nat ?r\<rparr>"
      using scast_small [OF assms(3)] k r(2)
      by (simp add: SetWriterAddr_def GetBufferSize_def) (metis k(2) of_nat_add of_nat_unat ucast_id unsigned_ucast_eq)
    then show ?thesis
      using False assms(3,4) f k len(2) Append_spec [of "?b1\<lparr>m_writeidx := m_writeidx b + of_nat ?r\<rparr>" "drop ?r xs"]
      by auto
  qed
  moreover have "(of_nat (length xs) :: u64) > 0"
    using len(1) assms(4) unat_small [of "length xs"] by (simp add: word_less_nat_alt)
  ultimately show ?thesis using eintr assms(1) by (auto simp: conn_ProcessReadEvent_def Let_def)
qed

text \<open>What a connection receives. One read takes everything the kernel has, up to the room in
  the buffer and 64 KiB more, and appends it to the octets the user has not taken yet, in
  order, wherever it falls between the buffer and the array on the stack; the user is called
  once, and nothing is lost.\<close>

theorem connection_receives:
  assumes "b = m_read_buf (conns s c)" "buf_ok b" "length (m_data b) < 2 ^ 31" "xs \<noteq> []" "length xs \<le> readv_capacity b"
  shows "\<exists>b'. conn_ProcessReadEvent cbs (replicate n (ReadError EINTR) @ ReadOctets xs # rs) c s =
      Some (RecvMsg cbs c (upd_conn c (\<lambda>k. k\<lparr>m_read_buf := b'\<rparr>) s)) \<and> buf_ok b' \<and> content b' = content b @ xs"
  by (rule read_event_spec [OF assms])

theorem connection_receives_witness:
  "\<exists>b'. conn_ProcessReadEvent quiet_user [ReadError EINTR, ReadOctets [1, 2, 3]] 0 small_server =
     Some (RecvMsg quiet_user 0 (upd_conn 0 (\<lambda>k. k\<lparr>m_read_buf := b'\<rparr>) small_server)) \<and> content b' = [1, 2, 3]"
proof -
  have "buf_ok (Buffer_init KInitalSize)" "content (Buffer_init KInitalSize) = []" "length (m_data (Buffer_init KInitalSize)) = 1024"
    by (simp_all add: Buffer_init_def KInitalSize_def buf_ok_def content_def sub_octets_def)
  moreover have "length [1, 2, 3 :: u8] \<le> readv_capacity (Buffer_init KInitalSize)"
    by (simp add: readv_capacity_def EXTRABUF_def Let_def Buffer_init_def KInitalSize_def GetWriteableSize_def)
  ultimately show ?thesis
    using connection_receives [OF refl, of small_server 0 "[1, 2, 3]" quiet_user 1 "[]"]
    by (auto simp: small_server_simps TcpConn_init_def)
qed

section \<open>Errors and the end of a connection\<close>

text \<open>C36. Errors of the descriptor. The results are unsigned, so that neither handler sees -1. A
  read that fails is passed to the user as a message, and the connection is kept. A write that
  keeps failing (a peer that has reset the connection) makes the loop of
  \<^verbatim>\<open>ProcessWriteEvent\<close> go on for ever: no number of failed writes ends it.\<close>

theorem io_errors_unnoticed:
  assumes "e \<noteq> EINTR" "e \<noteq> EAGAIN"
  shows "conn_ProcessReadEvent cbs (ReadError e # rs) c s =
      Some (RecvMsg cbs c (upd_conn c (\<lambda>k. k\<lparr>m_read_buf := m_read_buf (conns s c)\<rparr>) s)) \<and>
    (GetReadableSize (m_write_buf (conns s c)) \<noteq> 0 \<and> m_status (conns s c) \<noteq> DISCONNECTED \<longrightarrow>
       conn_ProcessWriteEvent cbs (replicate n (WriteError e)) c s = None)"
proof -
  have "conn_write_loop cbs (replicate n (WriteError e)) c s = None" if "GetReadableSize (m_write_buf (conns s c)) \<noteq> 0"
    using that
  proof (induction n arbitrary: s)
    case (Suc n)
    then show ?case
      using assms by (subst conn_write_loop.simps) (simp add: upd_conn_def)
  qed (subst conn_write_loop.simps, simp)
  moreover have "(-1 :: u64) > 0" by (simp add: word_gt_0)
  ultimately show ?thesis
    using assms by (simp add: conn_ProcessReadEvent_def conn_ProcessWriteEvent_def Let_def)
qed

theorem io_errors_unnoticed_witness:
  "conn_ProcessReadEvent quiet_user [ReadError (EOTHER 104)] 0 small_server =
     Some (RecvMsg quiet_user 0 (upd_conn 0 (\<lambda>k. k\<lparr>m_read_buf := m_read_buf (conns small_server 0)\<rparr>) small_server))"
  using io_errors_unnoticed [of "EOTHER 104" quiet_user "[]" 0 small_server 0] by simp

text \<open>The end of a connection. When the peer closes a connection that has nothing left to send
  and the user holds no pointer to it, \<^verbatim>\<open>DelConn\<close> removes it from the poller and the set and
  destroys it, and \<^verbatim>\<open>ProcessReadEvent\<close> then stores the status into the destroyed object. If
  the user holds a pointer, the connection ends in \<^verbatim>\<open>DISCONNECTED\<close>, out of the set.\<close>

theorem peer_close:
  assumes "c \<in> m_connections_map s" "c \<notin> freed s" "GetReadableSize (m_write_buf (conns s c)) = 0"
    and quiet: "\<And>s. onDelConnection cbs c s = s"
    and "conn_ProcessReadEvent cbs (ReadOctets [] # rs) c s = Some s'"
  shows "c \<notin> m_connections_map s' \<and> m_fd (io_events s c) \<notin> m_registered_events s' \<and>
    (c \<notin> kept s \<longrightarrow> c \<in> freed s' \<and> undef s') \<and>
    (c \<in> kept s \<longrightarrow> c \<notin> freed s' \<and> m_status (conns s' c) = DISCONNECTED \<and> undef s' = undef s)"
  using assms
  by (auto simp: conn_ProcessReadEvent_def SetStatus_def DelConn_def drop_temporary_def RemoveEvent_def status_defs
      upd_conn_def split: if_splits)

theorem peer_close_witness:
  "\<exists>s'. conn_ProcessReadEvent quiet_user [ReadOctets []] 0 small_server = Some s' \<and> undef s'"
proof -
  obtain s' where r: "conn_ProcessReadEvent quiet_user [ReadOctets []] 0 small_server = Some s'"
    by (simp add: conn_ProcessReadEvent_def)
  have "GetReadableSize (m_write_buf (conns small_server 0)) = 0"
    by (simp add: small_server_simps TcpConn_init_def Buffer_init_def GetReadableSize_def)
  then show ?thesis
    using peer_close [of 0 small_server quiet_user "[]" s'] r by (simp add: small_server_simps quiet_user_def)
qed

text \<open>Running out of descriptors is not recognised: the reserve descriptor is never used.\<close>

lemma emfile_unnoticed: "\<not> fst (Acceptor_ProcessReadEvent cbs r s)"
  by (simp add: Acceptor_ProcessReadEvent_def SocketOpt_Accept_def split: sys_accept.split)

lemma get_loop_round_robin: "idx \<le> cnt + 1 \<Longrightarrow> fst (get_loop cnt (snd (get_loop cnt idx))) = (fst (get_loop cnt idx) + 1) mod (cnt + 1)"
  by (auto simp: get_loop_def Let_def)

end
