(* ===== verification/Http_Server.thy ===== *)
theory Http_Server
  imports Http_Message Http_Safety Tcp_Connection
begin

text \<open>
  The HTTP server of the reactor library: the callbacks which \<^verbatim>\<open>http_context.cpp\<close> gives to the
  parser, the router of \<^verbatim>\<open>http_router.h\<close>, and \<^verbatim>\<open>http_server.cpp\<close>, which puts them between the
  read and the write buffer of a connection. The parser is that of \<open>Http_Parser\<close> and
  \<open>Http_Execute\<close>; a context and the structure \<^verbatim>\<open>m_parser\<close> inside it, which points back to it, are one
  structure whose \<^verbatim>\<open>data\<close> are the other members of the context.
\<close>

section \<open>The code\<close>

record HttpContext =
  m_type :: http_parser_type
  m_req :: HttpRequest
  m_rsp :: HttpResponse
  m_header_filed :: octets
  m_header_value :: octets

definition upd_req :: "(HttpRequest \<Rightarrow> HttpRequest) \<Rightarrow> HttpContext \<Rightarrow> HttpContext" where
  "upd_req f ctx = ctx\<lparr>m_req := f (m_req ctx)\<rparr>"

definition upd_rsp :: "(HttpResponse \<Rightarrow> HttpResponse) \<Rightarrow> HttpContext \<Rightarrow> HttpContext" where
  "upd_rsp f ctx = ctx\<lparr>m_rsp := f (m_rsp ctx)\<rparr>"

definition on_url :: "octets \<Rightarrow> HttpContext \<Rightarrow> HttpContext" where
  "on_url at ctx = (if m_type ctx = HTTP_REQUEST then upd_req (\<lambda>r. r\<lparr>m_url := at\<rparr>) ctx else ctx)"

definition on_status :: "octets \<Rightarrow> HttpContext \<Rightarrow> HttpContext" where
  "on_status at ctx = (if m_type ctx = HTTP_RESPONSE then upd_rsp (\<lambda>r. r\<lparr>m_status_code := at\<rparr>) ctx else ctx)"

definition on_header_field :: "octets \<Rightarrow> HttpContext \<Rightarrow> HttpContext" where
  "on_header_field at ctx = ctx\<lparr>m_header_filed := at\<rparr>"

definition on_header_value :: "octets \<Rightarrow> HttpContext \<Rightarrow> HttpContext" where
  "on_header_value at ctx =
     (let c1 = ctx\<lparr>m_header_value := at\<rparr>
      in if m_header_filed c1 \<noteq> [] \<and> m_header_value c1 \<noteq> []
         then (let set = SetHeader (m_header_filed c1) (m_header_value c1);
                   c2 = (case m_type c1 of
                           HTTP_REQUEST \<Rightarrow> upd_req (\<lambda>r. r\<lparr>m_headers := set (m_headers r)\<rparr>) c1
                         | HTTP_RESPONSE \<Rightarrow> upd_rsp (\<lambda>r. r\<lparr>m_headers := set (m_headers r)\<rparr>) c1
                         | HTTP_BOTH \<Rightarrow> c1)
               in c2\<lparr>m_header_filed := [], m_header_value := []\<rparr>)
         else c1)"

definition on_body :: "octets \<Rightarrow> HttpContext \<Rightarrow> HttpContext" where
  "on_body at ctx =
     (case m_type ctx of
        HTTP_REQUEST \<Rightarrow> upd_req (\<lambda>r. r\<lparr>m_body := at\<rparr>) ctx
      | HTTP_RESPONSE \<Rightarrow> upd_rsp (\<lambda>r. r\<lparr>m_body := at\<rparr>) ctx
      | HTTP_BOTH \<Rightarrow> ctx)"

text \<open>\<^verbatim>\<open>s_parser_settings\<close>; the callbacks that only notify do nothing.\<close>

fun on_data_call :: "data_cb \<Rightarrow> octets \<Rightarrow> HttpContext \<Rightarrow> HttpContext" where
  "on_data_call url = on_url"
| "on_data_call status = on_status"
| "on_data_call header_field = on_header_field"
| "on_data_call header_value = on_header_value"
| "on_data_call body = on_body"

definition parser_settings :: "HttpContext http_parser_settings" where
  "parser_settings =
     \<lparr>on_notify = (\<lambda>k. Some (\<lambda>pr. (0, pr))),
      on_data = (\<lambda>k. Some (\<lambda>at pr. (0, pr\<lparr>data := on_data_call k at (data pr)\<rparr>)))\<rparr>"

definition HttpContext_init :: "http_parser_type \<Rightarrow> HttpContext http_parser" where
  "HttpContext_init type =
     http_parser_init type
       \<lparr>m_type = type, m_req = HttpRequest_init, m_rsp = HttpResponse_init, m_header_filed = [], m_header_value = []\<rparr>"

datatype ParseSatatus = PARSE_OK | PARSE_ERROR

text \<open>
  The two \<^verbatim>\<open>Parse\<close> functions, with the status, the parsed length and the message filled in; no
  result when the parser aborts.
\<close>

definition Parse_Request :: "octets \<Rightarrow> HttpRequest \<Rightarrow> HttpContext http_parser \<Rightarrow> ((ParseSatatus \<times> u64) \<times> HttpRequest) option" where
  "Parse_Request xs req ctx =
     (case http_parser_execute parser_settings HTTP_MAX_HEADER_SIZE xs (ctx\<lparr>data := (data ctx)\<lparr>m_req := req\<rparr>\<rparr>) of
        Return parsed m_parser \<Rightarrow>
          if http_errno m_parser = HPE_OK
          then Some ((PARSE_OK, of_nat parsed),
                 (m_req (data m_parser))\<lparr>m_method := http_method_str (p_method m_parser),
                   m_version := str ''HTTP/'' @ to_string (http_major m_parser) @ str ''.'' @ to_string (http_minor m_parser)\<rparr>)
          else Some ((PARSE_ERROR, of_nat parsed), m_req (data m_parser))
      | _ \<Rightarrow> None)"

definition Parse_Response :: "octets \<Rightarrow> HttpResponse \<Rightarrow> HttpContext http_parser \<Rightarrow> ((ParseSatatus \<times> u64) \<times> HttpResponse) option" where
  "Parse_Response xs rsp ctx =
     (case http_parser_execute parser_settings HTTP_MAX_HEADER_SIZE xs (ctx\<lparr>data := (data ctx)\<lparr>m_rsp := rsp\<rparr>\<rparr>) of
        Return parsed m_parser \<Rightarrow>
          Some ((if http_errno m_parser = HPE_OK then PARSE_OK else PARSE_ERROR, of_nat parsed), m_rsp (data m_parser))
      | _ \<Rightarrow> None)"

type_synonym HttpCallBack = "HttpRequest \<Rightarrow> HttpResponse \<Rightarrow> HttpResponse"

record HttpRouter =
  m_get_router :: "(octets \<times> HttpCallBack) list"
  m_post_router :: "(octets \<times> HttpCallBack) list"

definition GET :: "octets \<Rightarrow> HttpCallBack \<Rightarrow> HttpRouter \<Rightarrow> HttpRouter" where
  "GET cmd cb r = r\<lparr>m_get_router := map_assign cmd cb (m_get_router r)\<rparr>"

definition POST :: "octets \<Rightarrow> HttpCallBack \<Rightarrow> HttpRouter \<Rightarrow> HttpRouter" where
  "POST cmd cb r = r\<lparr>m_post_router := map_assign cmd cb (m_post_router r)\<rparr>"

definition not_found :: "HttpResponse \<Rightarrow> HttpResponse" where
  "not_found resp = SetBody (str ''Not Found'') (SetStatusCodeMsg (str ''Not Found'') (SetStatusCode (str ''404'') resp))"

definition Routing :: "HttpRouter \<Rightarrow> HttpRequest \<Rightarrow> HttpResponse \<Rightarrow> HttpResponse" where
  "Routing r req resp =
     (let post =
          (if m_method req = str ''POST''
           then (case map_of (m_post_router r) (m_url req) of Some cb \<Rightarrow> cb req resp | None \<Rightarrow> not_found resp)
           else not_found resp)
      in if m_method req = str ''GET''
         then (case map_of (m_get_router r) (m_url req) of Some cb \<Rightarrow> cb req resp | None \<Rightarrow> post)
         else post)"

definition on_recv_msg :: "HttpRouter \<Rightarrow> nat \<Rightarrow> server \<Rightarrow> server option" where
  "on_recv_msg router c s =
     (let ctx = HttpContext_init HTTP_REQUEST;
          b = m_read_buf (conns s c)
      in case Parse_Request (sub_octets (m_data b) (unat (m_readidx b)) (unat (GetReadableSize b))) HttpRequest_init ctx of
           None \<Rightarrow> None
         | Some ((st, parsed_len), req) \<Rightarrow>
             if st = PARSE_OK
             then (let s1 = upd_conn c (\<lambda>k. k\<lparr>m_read_buf := AdvanceReader (ucast parsed_len) (m_read_buf k)\<rparr>) s;
                       resp = Routing router req HttpResponse_init
                   in SendData c (fst (Response_SerializeToString resp)) s1)
             else Some s)"

text \<open>The callbacks of the server, \<^verbatim>\<open>HttpServer::HttpServer\<close>; all but one only write to the log.\<close>

definition http_calls :: "HttpRouter \<Rightarrow> user_calls" where
  "http_calls router =
     \<lparr>onNewConnection = (\<lambda>c s. s), onDelConnection = (\<lambda>c s. s),
      onRecvMsg = (\<lambda>c s. case on_recv_msg router c s of Some s1 \<Rightarrow> s1 | None \<Rightarrow> s\<lparr>undef := True\<rparr>),
      onWriteComplete = (\<lambda>c s. s)\<rparr>"

text \<open>The client's side of a message received, \<^verbatim>\<open>AsyncHttpClient::_on_recv_msg\<close>.\<close>

definition client_on_recv_msg :: "nat \<Rightarrow> server \<Rightarrow> server option" where
  "client_on_recv_msg c s =
     (let b = m_read_buf (conns s c)
      in case Parse_Response (sub_octets (m_data b) (unat (m_readidx b)) (unat (GetReadableSize b))) HttpResponse_init
                (HttpContext_init HTTP_RESPONSE) of
           None \<Rightarrow> None
         | Some ((st, parsed_len), rsp) \<Rightarrow>
             if st = PARSE_OK
             then Some (upd_conn c (\<lambda>k. k\<lparr>m_read_buf := AdvanceReader (ucast parsed_len) (m_read_buf k)\<rparr>) s)
             else Some s)"

section \<open>From the octets read to the octets sent\<close>

lemma Routing_hit:
  "\<lbrakk>m_method req = str ''GET''; map_of (m_get_router r) (m_url req) = Some cb\<rbrakk> \<Longrightarrow> Routing r req resp = cb req resp"
  "\<lbrakk>m_method req = str ''POST''; map_of (m_post_router r) (m_url req) = Some cb\<rbrakk> \<Longrightarrow> Routing r req resp = cb req resp"
  by (auto simp: Routing_def str_def)

lemma Routing_miss:
  "\<lbrakk>m_method req = str ''GET'' \<longrightarrow> map_of (m_get_router r) (m_url req) = None;
    m_method req = str ''POST'' \<longrightarrow> map_of (m_post_router r) (m_url req) = None\<rbrakk> \<Longrightarrow> Routing r req resp = not_found resp"
  by (auto simp: Routing_def Let_def)

text \<open>The callbacks as a function of what is reported, and the result of the parser on the octets of a buffer.\<close>

fun context_event :: "event \<Rightarrow> HttpContext \<Rightarrow> HttpContext" where
  "context_event (Data k at) = on_data_call k at"
| "context_event (Notify k) = (\<lambda>ctx. ctx)"

lemma parser_settings_pure: "parser_settings = pure_settings context_event"
  by (simp add: parser_settings_def pure_settings_def)

abbreviation parse_request :: "octets \<Rightarrow> HttpContext outcome" where
  "parse_request xs \<equiv> http_parser_execute parser_settings HTTP_MAX_HEADER_SIZE xs (HttpContext_init HTTP_REQUEST)"

definition request_of :: "HttpContext http_parser \<Rightarrow> HttpRequest" where
  "request_of pr =
     (m_req (data pr))\<lparr>m_method := http_method_str (p_method pr),
        m_version := str ''HTTP/'' @ to_string (http_major pr) @ str ''.'' @ to_string (http_minor pr)\<rparr>"

lemma init_pinv: "pinv 0 (nread (http_parser_init t d)) (state (http_parser_init t d)) (http_parser_init t d)"
  by (simp add: http_parser_init_def pinv_def)

lemma parse_request_returns: "xs \<noteq> [] \<Longrightarrow> \<exists>n pr. parse_request xs = Return n pr \<and> n \<le> length xs"
  using execute_well [OF init_pinv, where xs = xs and f = context_event and M = HTTP_MAX_HEADER_SIZE]
  unfolding parser_settings_pure HttpContext_init_def by blast

lemma Parse_Request_cases:
  "parse_request xs = Return n pr \<Longrightarrow>
   Parse_Request xs HttpRequest_init (HttpContext_init HTTP_REQUEST)
     = Some (if http_errno pr = HPE_OK then ((PARSE_OK, of_nat n), request_of pr) else ((PARSE_ERROR, of_nat n), m_req (data pr)))"
  by (simp add: Parse_Request_def request_of_def HttpContext_init_def http_parser_init_def)

lemma advance_content:
  fixes n :: u64
  assumes "buf_ok b" "unat n \<le> length (content b)" "length (content b) < 2 ^ 31"
  shows "buf_ok (AdvanceReader (ucast n) b) \<and> content (AdvanceReader (ucast n) b) = drop (unat n) (content b)"
proof -
  have "unat n < 2 ^ 31" using assms(2,3) by linarith
  from RetriveAsString_spec [OF assms(1,2) this] show ?thesis
    by (auto simp: RetriveAsString_def split: if_splits)
qed

lemma readable_octets:
  "buf_ok b \<Longrightarrow> sub_octets (m_data b) (unat (m_readidx b)) (unat (GetReadableSize b)) = content b"
  by (simp add: unat_readable length_content) (simp add: content_def)

text \<open>Sending on an open connection, whatever was sent before.\<close>

lemma SendData_spec:
  assumes "m_status (conns s c) = CONNECTED" "buf_ok (m_write_buf (conns s c))"
    and "unat (m_writeidx (m_write_buf (conns s c))) < 2 ^ 60" "length xs < 2 ^ 31" "xs \<noteq> []"
  shows "\<exists>s'. SendData c xs s = Some s' \<and> m_read_buf (conns s' c) = m_read_buf (conns s c) \<and>
    content (m_write_buf (conns s' c)) = content (m_write_buf (conns s c)) @ xs \<and>
    m_expect_event (io_events s' c) AND IOEvent_WRITEABLE \<noteq> 0"
proof -
  obtain b' where b': "Append xs (m_write_buf (conns s c)) = Some b'" "buf_ok b'"
    "content b' = content (m_write_buf (conns s c)) @ xs"
    using Append_spec [OF assms(2,4,3)] by auto
  have "GetReadableSize b' > 0" using unat_readable [OF b'(2)] b'(3) assms(5) by (simp add: word_less_nat_alt)
  then show ?thesis
    using assms(1) b' enable_expects [of c "upd_conn c (\<lambda>k. k\<lparr>m_write_buf := b'\<rparr>) s"]
    by (auto simp: SendData_def Let_def upd_conn_def)
qed

lemma response_not_empty: "fst (Response_SerializeToString r) \<noteq> []"
  by (simp add: Response_SerializeToString_def Let_def CRLF_def)

lemma on_recv_msg_error:
  "\<lbrakk>buf_ok (m_read_buf (conns s c)); parse_request (content (m_read_buf (conns s c))) = Return n pr; http_errno pr \<noteq> HPE_OK\<rbrakk>
   \<Longrightarrow> on_recv_msg router c s = Some s"
  by (simp add: on_recv_msg_def readable_octets Parse_Request_cases)

lemma on_recv_msg_ok:
  assumes "buf_ok (m_read_buf (conns s c))" "parse_request (content (m_read_buf (conns s c))) = Return n pr" "http_errno pr = HPE_OK"
    and "n \<le> length (content (m_read_buf (conns s c)))" "length (content (m_read_buf (conns s c))) < 2 ^ 31"
    and "m_status (conns s c) = CONNECTED" "buf_ok (m_write_buf (conns s c))"
    and "unat (m_writeidx (m_write_buf (conns s c))) < 2 ^ 60"
    and "out = fst (Response_SerializeToString (Routing router (request_of pr) HttpResponse_init))" "length out < 2 ^ 31"
  shows "\<exists>s'. on_recv_msg router c s = Some s' \<and>
    content (m_read_buf (conns s' c)) = drop n (content (m_read_buf (conns s c))) \<and>
    content (m_write_buf (conns s' c)) = content (m_write_buf (conns s c)) @ out \<and>
    m_expect_event (io_events s' c) AND IOEvent_WRITEABLE \<noteq> 0"
proof -
  let ?n = "of_nat n :: u64"
  let ?s = "upd_conn c (\<lambda>k. k\<lparr>m_read_buf := AdvanceReader (ucast ?n) (m_read_buf k)\<rparr>) s"
  have n: "unat ?n = n" using assms(4,5) by (simp add: unat_of_nat)
  have "on_recv_msg router c s = SendData c out ?s"
    using assms(1,2,3,9) by (simp add: on_recv_msg_def readable_octets Parse_Request_cases)
  then show ?thesis
    using SendData_spec [of ?s c out] advance_content [of "m_read_buf (conns s c)" ?n] assms(1,4-10) response_not_empty
    by (auto simp: upd_conn_def n)
qed

lemma read_event_replies:
  assumes "b = m_read_buf (conns s c)" "buf_ok b" "length (m_data b) < 2 ^ 31" "xs \<noteq> []" "length xs \<le> readv_capacity b"
    and "length (content b @ xs) < 2 ^ 31"
    and "m_status (conns s c) = CONNECTED" "buf_ok (m_write_buf (conns s c))"
    and "unat (m_writeidx (m_write_buf (conns s c))) < 2 ^ 60"
    and reply: "\<And>req. length (fst (Response_SerializeToString (Routing router req HttpResponse_init))) < 2 ^ 31"
  shows "\<exists>n pr s'. http_parser_execute parser_settings HTTP_MAX_HEADER_SIZE (content b @ xs) (HttpContext_init HTTP_REQUEST) = Return n pr \<and>
    conn_ProcessReadEvent (http_calls router) (ReadOctets xs # rs) c s = Some s' \<and>
    (http_errno pr = HPE_OK \<longrightarrow>
       content (m_read_buf (conns s' c)) = drop n (content b @ xs) \<and>
       content (m_write_buf (conns s' c)) = content (m_write_buf (conns s c)) @
         fst (Response_SerializeToString (Routing router (request_of pr) HttpResponse_init)) \<and>
       m_expect_event (io_events s' c) AND IOEvent_WRITEABLE \<noteq> 0) \<and>
    (http_errno pr \<noteq> HPE_OK \<longrightarrow>
       content (m_read_buf (conns s' c)) = content b @ xs \<and> m_write_buf (conns s' c) = m_write_buf (conns s c))"
proof -
  obtain b' where b': "conn_ProcessReadEvent (http_calls router) (ReadOctets xs # rs) c s =
      Some (RecvMsg (http_calls router) c (upd_conn c (\<lambda>k. k\<lparr>m_read_buf := b'\<rparr>) s))" "buf_ok b'" "content b' = content b @ xs"
    using read_event_spec [OF assms(1-5), of "http_calls router" 0 rs] by auto
  obtain n pr where pr: "parse_request (content b @ xs) = Return n pr" "n \<le> length (content b @ xs)"
    using parse_request_returns [of "content b @ xs"] assms(4) by auto
  let ?s = "upd_conn c (\<lambda>k. k\<lparr>m_read_buf := b'\<rparr>) s"
  have k: "m_read_buf (conns ?s c) = b'" "m_write_buf (conns ?s c) = m_write_buf (conns s c)"
      "m_status (conns ?s c) = m_status (conns s c)"
    by (simp_all add: upd_conn_def)
  show ?thesis
  proof (cases "http_errno pr = HPE_OK")
    case True
    obtain s' where "on_recv_msg router c ?s = Some s'"
        "content (m_read_buf (conns s' c)) = drop n (content b @ xs)"
        "content (m_write_buf (conns s' c)) = content (m_write_buf (conns s c)) @
           fst (Response_SerializeToString (Routing router (request_of pr) HttpResponse_init))"
        "m_expect_event (io_events s' c) AND IOEvent_WRITEABLE \<noteq> 0"
      using on_recv_msg_ok [of ?s c n pr, OF _ _ True _ _ _ _ _ refl reply] pr assms(6-9) b'(2,3) by (auto simp: k)
    then show ?thesis using b'(1) True pr(1) by (simp add: RecvMsg_def http_calls_def)
  next
    case False
    then show ?thesis
      using on_recv_msg_error [of ?s c n pr router] b' pr(1) by (simp add: k RecvMsg_def http_calls_def)
  qed
qed

text \<open>C18. From a request to its reply. When octets arrive on a connection of the HTTP server, the
  parser runs over everything that waits in the read buffer and returns. If it reports no error,
  what it parsed is consumed and exactly one reply follows the octets still to be sent: the
  response of the handler the router finds for the method and URL, or the 404 response, on
  a request made of what the callbacks gave, and the connection waits to write. This
  happens whether or not a message was complete, and once however many messages there
  were. If the parser reports an error, nothing is consumed or sent.
\<close>

theorem http_server_replies:
  assumes "b = m_read_buf (conns s c)" "buf_ok b" "length (m_data b) < 2 ^ 31" "xs \<noteq> []" "length xs \<le> readv_capacity b"
    and "length (content b @ xs) < 2 ^ 31"
    and "m_status (conns s c) = CONNECTED" "buf_ok (m_write_buf (conns s c))"
    and "unat (m_writeidx (m_write_buf (conns s c))) < 2 ^ 60"
    and reply: "\<And>req. length (fst (Response_SerializeToString (Routing router req HttpResponse_init))) < 2 ^ 31"
  shows "\<exists>n pr s'. http_parser_execute parser_settings HTTP_MAX_HEADER_SIZE (content b @ xs) (HttpContext_init HTTP_REQUEST) = Return n pr \<and>
    conn_ProcessReadEvent (http_calls router) (ReadOctets xs # rs) c s = Some s' \<and>
    (http_errno pr = HPE_OK \<longrightarrow>
       content (m_read_buf (conns s' c)) = drop n (content b @ xs) \<and>
       content (m_write_buf (conns s' c)) = content (m_write_buf (conns s c)) @
         fst (Response_SerializeToString (Routing router (request_of pr) HttpResponse_init)) \<and>
       m_expect_event (io_events s' c) AND IOEvent_WRITEABLE \<noteq> 0) \<and>
    (http_errno pr \<noteq> HPE_OK \<longrightarrow>
       content (m_read_buf (conns s' c)) = content b @ xs \<and> m_write_buf (conns s' c) = m_write_buf (conns s c))"
  using read_event_replies [OF assms] .

lemma not_found_short: "length (fst (Response_SerializeToString (not_found HttpResponse_init))) < 2 ^ 31"
proof -
  have "length (to_string (Suc (Suc (Suc (Suc (Suc (Suc (Suc (Suc (Suc 0)))))))))) = 1" by (subst to_string.simps) simp
  then show ?thesis
    by (simp add: Response_SerializeToString_def not_found_def SetBody_def SetStatusCode_def SetStatusCodeMsg_def SetHeader_def
        HttpResponse_init_def Headers_SerializeToString_def CRLF_def str_def Let_def)
qed

lemma Buffer_init_facts:
  "buf_ok (Buffer_init KInitalSize)" "content (Buffer_init KInitalSize) = []" "length (m_data (Buffer_init KInitalSize)) = 1024"
  "unat (m_writeidx (Buffer_init KInitalSize)) = 0" "readv_capacity (Buffer_init KInitalSize) > 1000"
  by (simp_all add: Buffer_init_def KInitalSize_def buf_ok_def content_def sub_octets_def readv_capacity_def EXTRABUF_def
      Let_def GetWriteableSize_def)

lemma small_server_conn:
  "m_read_buf (conns small_server 0) = Buffer_init KInitalSize" "m_write_buf (conns small_server 0) = Buffer_init KInitalSize"
  "m_status (conns small_server 0) = CONNECTED"
  by (simp_all add: small_server_simps TcpConn_init_def)

theorem http_server_replies_witness:
  "\<exists>n pr s'. http_parser_execute parser_settings HTTP_MAX_HEADER_SIZE (str ''GET /a HTTP/1.1'') (HttpContext_init HTTP_REQUEST) = Return n pr \<and>
     conn_ProcessReadEvent (http_calls \<lparr>m_get_router = [], m_post_router = []\<rparr>)
       [ReadOctets (str ''GET /a HTTP/1.1'')] 0 small_server = Some s' \<and>
     (http_errno pr = HPE_OK \<longrightarrow> content (m_read_buf (conns s' 0)) = drop n (str ''GET /a HTTP/1.1'') \<and>
        content (m_write_buf (conns s' 0)) = fst (Response_SerializeToString (not_found HttpResponse_init)))"
proof -
  let ?xs = "str ''GET /a HTTP/1.1''" and ?r = "\<lparr>m_get_router = [], m_post_router = []\<rparr>"
  have route: "Routing ?r q HttpResponse_init = not_found HttpResponse_init" for q by (rule Routing_miss) simp_all
  have len: "length ?xs = 15" "?xs \<noteq> []" by (simp_all add: str_def)
  show ?thesis
    using http_server_replies [OF refl, of small_server 0 ?xs ?r "[]"] small_server_conn Buffer_init_facts route len not_found_short
    by auto
qed

end
