(* ===== verification/Http_Incremental.thy ===== *)
theory Http_Incremental
  imports Http_Safety
begin

text \<open>
  Input in pieces. A callback that gets data must expect a string in several pieces; if it
  appends them, then the pieces in which the input arrives make no difference. The
  proof relates the run on \<open>x # ys\<close> with the run on \<open>ys\<close> after a call with \<open>x\<close> alone: the same
  state, positions one apart, and marks that stand for the octet already delivered.
\<close>

definition merges :: "(event \<Rightarrow> 'u \<Rightarrow> 'u) \<Rightarrow> bool" where
  "merges f \<longleftrightarrow> (\<forall>k xs ys d. f (Data k ys) (f (Data k xs) d) = f (Data k (xs @ ys)) d)"

section \<open>The relation\<close>

definition shifted :: "(data_cb \<Rightarrow> nat option) \<Rightarrow> data_cb \<Rightarrow> nat option" where
  "shifted m = (\<lambda>k. map_option Suc (m k))"

lemma shifted_simps [simp]:
  "shifted (\<lambda>_. None) = (\<lambda>_. None)" "shifted (m(k := v)) = (shifted m)(k := map_option Suc v)"
  by (auto simp: shifted_def)

text \<open>Marks and user data of the long run, marks and user data of the short run at position \<open>p\<close>.\<close>

definition carry :: "(event \<Rightarrow> 'u \<Rightarrow> 'u) \<Rightarrow> u8 \<Rightarrow> (data_cb \<Rightarrow> nat option) \<Rightarrow> 'u \<Rightarrow> (data_cb \<Rightarrow> nat option) \<Rightarrow> 'u \<Rightarrow> nat \<Rightarrow> bool" where
  "carry f x m1 d1 m2 d2 p \<longleftrightarrow>
     (m1 = shifted m2 \<and> d1 = d2) \<or>
     (\<exists>k. m1 = (\<lambda>_. None)(k := Some 0) \<and> d2 = f (Data k [x]) d1 \<and>
          (m2 = (\<lambda>_. None)(k := Some 0) \<or> (k = body \<and> m2 = (\<lambda>_. None) \<and> p = 0)))"

lemma none_neq_one: "(\<lambda>_. None) \<noteq> (\<lambda>_. None :: nat option)(k := Some i)"
  by (metis fun_upd_same option.distinct(1))

lemma one_eq_one: "(\<lambda>_. None :: nat option)(k := Some i) = (\<lambda>_. None)(k' := Some j) \<longleftrightarrow> k = k' \<and> i = j"
  by (metis fun_upd_other fun_upd_same option.inject option.distinct(1))

lemma carry_simps [simp]:
  "carry f x (\<lambda>_. None) d1 (\<lambda>_. None) d2 p = (d1 = d2)"
  "carry f x ((\<lambda>_. None)(k := Some (Suc i))) d ((\<lambda>_. None)(k := Some i)) d p"
proof -
  show "carry f x (\<lambda>_. None) d1 (\<lambda>_. None) d2 p = (d1 = d2)" by (auto simp: carry_def none_neq_one)
qed (simp add: carry_def)

definition eqv :: "'u http_parser \<Rightarrow> 'u http_parser \<Rightarrow> bool" where
  "eqv p q \<longleftrightarrow>
     ptype p = ptype q \<and> flags p = flags q \<and> header_state p = header_state q \<and> index p = index q \<and>
     uses_transfer_encoding p = uses_transfer_encoding q \<and> allow_chunked_length p = allow_chunked_length q \<and>
     lenient_http_headers p = lenient_http_headers q \<and> content_length p = content_length q \<and>
     http_major p = http_major q \<and> http_minor p = http_minor q \<and> status_code p = status_code q \<and> p_method p = p_method q \<and>
     http_errno p = http_errno q \<and> upgrade p = upgrade q"

lemma eqv_eq: "eqv p q \<longleftrightarrow> p = q\<lparr>state := state p, nread := nread p, data := data p\<rparr>"
  by (cases p; cases q) (auto simp: eqv_def)

definition sim :: "(event \<Rightarrow> 'u \<Rightarrow> 'u) \<Rightarrow> u8 \<Rightarrow> 'u exec_locals \<Rightarrow> 'u exec_locals \<Rightarrow> bool" where
  "sim f x l1 l2 \<longleftrightarrow>
     l_p l1 = Suc (l_p l2) \<and> p_state l1 = p_state l2 \<and> l_nread l1 = l_nread l2 \<and> eqv (parser l1) (parser l2) \<and>
     carry f x (marks l1) (data (parser l1)) (marks l2) (data (parser l2)) (l_p l2)"

text \<open>Neither run got through.\<close>

definition bad :: "'u outcome \<Rightarrow> bool" where
  "bad out = (case out of Break l \<Rightarrow> False | Reexecute l \<Rightarrow> False | Return n pr \<Rightarrow> http_errno pr \<noteq> HPE_OK | _ \<Rightarrow> True)"

definition sim_out :: "(event \<Rightarrow> 'u \<Rightarrow> 'u) \<Rightarrow> u8 \<Rightarrow> 'u outcome \<Rightarrow> 'u outcome \<Rightarrow> bool" where
  "sim_out f x o1 o2 \<longleftrightarrow>
     (bad o1 \<and> bad o2) \<or>
     (\<exists>l1 l2. o1 = Break l1 \<and> o2 = Break l2 \<and> sim f x (l1\<lparr>l_p := l_p l1 + 1\<rparr>) (l2\<lparr>l_p := l_p l2 + 1\<rparr>)) \<or>
     (\<exists>l1 l2. o1 = Reexecute l1 \<and> o2 = Reexecute l2 \<and> sim f x l1 l2 \<and> l_ch l1 = l_ch l2) \<or>
     (\<exists>n pr. o1 = Return (Suc n) pr \<and> o2 = Return n pr)"

lemma bad_simps [simp]:
  "\<not> bad (Break l)" "\<not> bad (Reexecute l)" "bad (Error l)" "bad (Return n pr) = (http_errno pr \<noteq> HPE_OK)" "bad Assertion_failed"
  "bad Out_of_bounds" "bad Endless" "bad (goto_error e l)"
  by (simp_all add: bad_def goto_error_def)

lemma sim_out_simps [simp]:
  "sim_out f x (Break l1) (Break l2) = sim f x (l1\<lparr>l_p := l_p l1 + 1\<rparr>) (l2\<lparr>l_p := l_p l2 + 1\<rparr>)"
  "sim_out f x (Reexecute l1) (Reexecute l2) = (sim f x l1 l2 \<and> l_ch l1 = l_ch l2)"
  "sim_out f x (goto_error e l1) (goto_error e' l2)" "sim_out f x Assertion_failed Assertion_failed"
  "sim_out f x Out_of_bounds Out_of_bounds"
  "sim_out f x (Return n1 pr1) (Return n2 pr2) =
     (http_errno pr1 \<noteq> HPE_OK \<and> http_errno pr2 \<noteq> HPE_OK \<or> n1 = Suc n2 \<and> pr1 = pr2)"
  "sim_out f x (RETURN n1 l1) (RETURN n2 l2) =
     sim_out f x (Return n1 ((parser l1)\<lparr>nread := l_nread l1, state := p_state l1\<rparr>)) (Return n2 ((parser l2)\<lparr>nread := l_nread l2, state := p_state l2\<rparr>))"
  by (auto simp: sim_out_def RETURN_def)

text \<open>The long run in terms of the short one; what the structure holds of the state and of the count is not read.\<close>

definition ahead :: "state \<times> u32 \<Rightarrow> 'u \<Rightarrow> (data_cb \<Rightarrow> nat option) \<Rightarrow> 'u exec_locals \<Rightarrow> 'u exec_locals" where
  "ahead s d m l = l\<lparr>parser := (parser l)\<lparr>state := fst s, nread := snd s, data := d\<rparr>, l_p := Suc (l_p l), marks := m\<rparr>"

lemma sim_ahead:
  assumes "sim f x l1 l2" "l_ch l1 = l_ch l2"
  shows "l1 = ahead (state (parser l1), nread (parser l1)) (data (parser l1)) (marks l1) l2"
  using assms by (cases l1; cases l2) (auto simp: sim_def ahead_def eqv_eq)

lemmas sim_defs = local_defs STRICT_CHECK_def assertion_def is_chunked_def new_message_def SET_ERRNO_def ahead_def sim_def eqv_def

lemma unmarked_sim_1:
  assumes "settings E = pure_settings f" "http_errno (parser l) = HPE_OK" "marks l = (\<lambda>_. None)"
    and "p_state l \<in> {s_dead, s_start_req_or_res, s_res_or_resp_H, s_start_res, s_res_H, s_res_HT, s_res_HTT, s_res_HTTP,
      s_res_http_major, s_res_http_dot, s_res_http_minor, s_res_http_end, s_res_first_status_code, s_res_status_code,
      s_res_status_start, s_res_line_almost_done, s_start_req}"
  shows "sim_out f x (switch (E\<lparr>buf := x # buf E\<rparr>) (ahead s (data (parser l)) (\<lambda>_. None) l)) (switch E l)"
  using assms(4)
  by (elim insertE emptyE; simp only: switch_def state.case)
    (simp_all add: assms(1-3) callbacks_pure [of _ f] case_defs sim_defs Let_def split: option.split)

lemma unmarked_sim_2:
  assumes "settings E = pure_settings f" "http_errno (parser l) = HPE_OK" "marks l = (\<lambda>_. None)"
    and "p_state l \<in> {s_req_http_start, s_req_http_H, s_req_http_HT, s_req_http_HTT, s_req_http_HTTP, s_req_http_I, s_req_http_IC,
      s_req_http_major, s_req_http_dot, s_req_http_minor, s_req_http_end, s_req_line_almost_done,
      s_header_value_discard_ws_almost_done, s_header_almost_done, s_header_value_lws, s_header_field_start,
      s_header_value_discard_lws}"
  shows "sim_out f x (switch (E\<lparr>buf := x # buf E\<rparr>) (ahead s (data (parser l)) (\<lambda>_. None) l)) (switch E l)"
  using assms(4)
  by (elim insertE emptyE; simp only: switch_def state.case)
    (simp_all add: assms(1-3) callbacks_pure [of _ f] case_defs sim_defs finish_header_def sub_octets_def Let_def split: header_states.split)

lemma value_start_sim:
  assumes "marks l = (\<lambda>_. None)"
  shows "sim_out f x (st_header_value_start E' (ahead s (data (parser l)) (\<lambda>_. None) l)) (st_header_value_start E l)"
  by (cases "header_state (parser l)") (simp_all add: assms case_defs sim_defs Let_def)

lemma same_verdict [simp]:
  "http_message_needs_eof (pr\<lparr>state := s\<rparr>) = http_message_needs_eof pr" "NEW_MESSAGE (pr\<lparr>state := s\<rparr>) = NEW_MESSAGE pr"
  "http_message_needs_eof (pr\<lparr>nread := n\<rparr>) = http_message_needs_eof pr" "NEW_MESSAGE (pr\<lparr>nread := n\<rparr>) = NEW_MESSAGE pr"
  "http_message_needs_eof (pr\<lparr>data := d\<rparr>) = http_message_needs_eof pr" "NEW_MESSAGE (pr\<lparr>data := d\<rparr>) = NEW_MESSAGE pr"
  "hasBody (pr\<lparr>state := s\<rparr>) = hasBody pr" "hasBody (pr\<lparr>nread := n\<rparr>) = hasBody pr" "hasBody (pr\<lparr>data := d\<rparr>) = hasBody pr"
  by (simp_all add: http_message_needs_eof_def NEW_MESSAGE_def http_should_keep_alive_def start_state_def hasBody_def)

lemma headers_done_sim:
  assumes "settings E = pure_settings f" "http_errno (parser l) = HPE_OK" "marks l = (\<lambda>_. None)" "p_state l = s_headers_done"
  shows "sim_out f x (st_headers_done (E\<lparr>buf := x # buf E\<rparr>) (ahead s (data (parser l)) (\<lambda>_. None) l)) (st_headers_done E l)"
proof (cases "l_ch l = LF")
  case True
  then show ?thesis
    by (cases "upgrade (parser l) \<and> (p_method (parser l) = HTTP_CONNECT \<or> F_SKIPBODY \<in> flags (parser l) \<or> \<not> hasBody (parser l))")
      (simp_all add: assms st_headers_done_def callbacks_pure [of _ f] sim_defs Let_def)
qed (simp add: st_headers_done_def STRICT_CHECK_def ahead_def)

lemma unmarked_sim_3:
  assumes "settings E = pure_settings f" "http_errno (parser l) = HPE_OK" "marks l = (\<lambda>_. None)"
    and "p_state l \<in> {s_headers_almost_done, s_header_value_start, s_header_value_discard_ws}"
  shows "sim_out f x (switch (E\<lparr>buf := x # buf E\<rparr>) (ahead s (data (parser l)) (\<lambda>_. None) l)) (switch E l)"
  using assms(4) value_start_sim [OF assms(3), of f x "E\<lparr>buf := x # buf E\<rparr>" s E]
  by (elim insertE emptyE; simp only: switch_def state.case)
    (simp_all add: assms(1-3) st_headers_almost_done_def st_header_value_discard_ws_def set_upgrade_def
      headers_complete_pure [of _ f] callbacks_pure [of _ f] sim_defs Let_def)

lemma unmarked_sim_4:
  assumes "settings E = pure_settings f" "http_errno (parser l) = HPE_OK" "marks l = (\<lambda>_. None)"
    and "p_state l \<in> {s_message_done, s_chunk_size_start, s_chunk_size, s_chunk_parameters, s_chunk_size_almost_done, s_chunk_data_done,
       s_req_method}"
  shows "sim_out f x (switch (E\<lparr>buf := x # buf E\<rparr>) (ahead s (data (parser l)) (\<lambda>_. None) l)) (switch E l)"
  using assms(4)
  by (elim insertE emptyE; simp only: switch_def state.case)
    (simp_all add: assms(1-3) callbacks_pure [of _ f] case_defs sim_defs inc_index_def Let_def split: option.split)


definition only :: "data_cb \<Rightarrow> (data_cb \<Rightarrow> nat option) \<Rightarrow> bool" where
  "only k m \<longleftrightarrow> (\<forall>k'. k' \<noteq> k \<longrightarrow> m k' = None)"

lemma only_cases: "only k m \<longleftrightarrow> m = (\<lambda>_. None) \<or> (\<exists>i. m = (\<lambda>_. None)(k := Some i))"
  by (auto simp: only_def fun_eq_iff split: if_splits) (metis not_None_eq)

lemma sub_octets_Cons [simp]: "sub_octets (x # b) (Suc i) n = sub_octets b i n" "sub_octets (x # b) 0 (Suc n) = x # sub_octets b 0 n"
  by (simp_all add: sub_octets_def)

lemma delivered_sim:
  assumes "merges f" "carry f x m (d :: 'u) (marks l) (data (parser l)) (l_p l)" "only k (marks l)" "only k m"
    and "marks l k = None \<longrightarrow> e = l_p l"
  shows "marks (delivered f (E\<lparr>buf := x # buf E\<rparr>) k (Suc e) (ahead s d m l)) = (\<lambda>_. None)"
    "marks (delivered f E k e l) = (\<lambda>_. None)"
    "data (parser (delivered f (E\<lparr>buf := x # buf E\<rparr>) k (Suc e) (ahead s d m l))) = data (parser (delivered f E k e l))"
proof -
  show "marks (delivered f (E\<lparr>buf := x # buf E\<rparr>) k (Suc e) (ahead s d m l)) = (\<lambda>_. None)" "marks (delivered f E k e l) = (\<lambda>_. None)"
    using assms(3,4) by (auto simp: only_cases delivered_def ahead_def)
  show "data (parser (delivered f (E\<lparr>buf := x # buf E\<rparr>) k (Suc e) (ahead s d m l))) = data (parser (delivered f E k e l))"
    using assms by (auto simp: only_cases delivered_def ahead_def carry_def merges_def none_neq_one one_eq_one sub_octets_def)
qed


lemma carry_any: "carry f x m1 d1 m2 d2 p \<Longrightarrow> (m2 body = None \<Longrightarrow> m1 body = None) \<Longrightarrow> carry f x m1 d1 m2 d2 p'"
  by (auto simp: carry_def)

lemma ahead_simps [simp]:
  "l_p (ahead s d m l) = Suc (l_p l)" "l_ch (ahead s d m l) = l_ch l" "p_state (ahead s d m l) = p_state l"
  "l_nread (ahead s d m l) = l_nread l" "marks (ahead s d m l) = m" "parser (ahead s d m l) = (parser l)\<lparr>state := fst s, nread := snd s, data := d\<rparr>"
  "UPDATE_STATE s' (ahead s d m l) = ahead s d m (UPDATE_STATE s' l)"
  by (simp_all add: ahead_def UPDATE_STATE_def)

lemma UPDATE_STATE_simps [simp]:
  "parser (UPDATE_STATE s l) = parser l" "marks (UPDATE_STATE s l) = marks l" "l_nread (UPDATE_STATE s l) = l_nread l"
  "l_ch (UPDATE_STATE s l) = l_ch l" "p_state (UPDATE_STATE s l) = s"
  by (simp_all add: UPDATE_STATE_def)

lemma eqv_refl [simp]: "eqv p p" "eqv (p\<lparr>state := s, nread := n, data := d\<rparr>) p"
  by (simp_all add: eqv_def)

lemma delivered_simps [simp]:
  "l_p (delivered f E k e l) = l_p l" "l_ch (delivered f E k e l) = l_ch l" "p_state (delivered f E k e l) = p_state l"
  "l_nread (delivered f E k e l) = l_nread l"
  by (simp_all add: delivered_def split: option.split)

lemma eqv_delivered: "eqv (parser (delivered f E' k e' (ahead s d m l))) (parser (delivered f E k e l))"
  by (simp add: delivered_def ahead_def eqv_def split: option.split)

lemma delivered_sim_out:
  assumes "merges f" "carry f x m (d :: 'u) (marks l) (data (parser l)) (l_p l)" "only k (marks l)" "only k m"
    and "marks l k = None \<longrightarrow> e = l_p l"
  shows "sim_out f x (Break (delivered f (E\<lparr>buf := x # buf E\<rparr>) k (Suc e) (ahead s d m l))) (Break (delivered f E k e l))"
    "sim_out f x (Reexecute (delivered f (E\<lparr>buf := x # buf E\<rparr>) k (Suc e) (ahead s d m l))) (Reexecute (delivered f E k e l))"
  by (simp_all add: sim_def eqv_delivered delivered_sim [OF assms])

lemma marked_sim:
  assumes "merges f" "settings E = pure_settings f" "http_errno (parser l) = HPE_OK"
    and "carry f x m d (marks l) (data (parser l)) (l_p l)" "only k m" "only k (marks l)" "marks l k \<noteq> None" "k \<noteq> body"
  shows "k = status \<Longrightarrow> sim_out f x (st_res_status (E\<lparr>buf := x # buf E\<rparr>) (ahead s d m l)) (st_res_status E l)"
    "k = url \<Longrightarrow> sim_out f x (st_req_url (E\<lparr>buf := x # buf E\<rparr>) (ahead s d m l)) (st_req_url E l)"
    "k = url \<Longrightarrow> sim_out f x (st_req_schema (E\<lparr>buf := x # buf E\<rparr>) (ahead s d m l)) (st_req_schema E l)"
proof -
  have c: "carry f x m d (marks l) (data (parser l)) p'" for p'
    using carry_any [OF assms(4), of p'] assms(5,8) by (auto simp: only_def)
  have d: "sim_out f x (Break (delivered f (E\<lparr>buf := x # buf E\<rparr>) k (Suc (l_p l')) (ahead s d m l'))) (Break (delivered f E k (l_p l') l'))"
    if "marks l' = marks l" "data (parser l') = data (parser l)" for l'
    using assms(1,5-8) c that by (intro delivered_sim_out) simp_all
  have u: "sim_out f x (url_char_step (ahead s d m l)) (url_char_step l)"
    using c by (simp add: url_char_step_def sim_def eqv_def Let_def)
  have b: "sim_out f x (Break (ahead s d m l)) (Break l)" using c by (simp add: sim_def eqv_def)
  show "k = status \<Longrightarrow> sim_out f x (st_res_status (E\<lparr>buf := x # buf E\<rparr>) (ahead s d m l)) (st_res_status E l)"
    using d [of "UPDATE_STATE s_res_line_almost_done l"] d [of "UPDATE_STATE s_header_field_start l"] b
    by (simp add: st_res_status_def callbacks_pure [of _ f] assms(2,3))
  have upd_http_version: "http_errno (parser (upd_parser (\<lambda>pr. pr\<lparr>http_major := 0, http_minor := 9\<rparr>) l)) = HPE_OK"
    "marks (upd_parser (\<lambda>pr. pr\<lparr>http_major := 0, http_minor := 9\<rparr>) l) = marks l"
    "data (parser (upd_parser (\<lambda>pr. pr\<lparr>http_major := 0, http_minor := 9\<rparr>) l)) = data (parser l)" by (simp_all add: upd_parser_def assms(3))
  have g: "upd_parser (\<lambda>pr. pr\<lparr>http_major := 0, http_minor := 9\<rparr>) (ahead s d m l) 
     = ahead s d m (upd_parser (\<lambda>pr. pr\<lparr>http_major := 0, http_minor := 9\<rparr>) l)" by (simp add: upd_parser_def ahead_def)
  show "k = url \<Longrightarrow> sim_out f x (st_req_url (E\<lparr>buf := x # buf E\<rparr>) (ahead s d m l)) (st_req_url E l)"
    using d [of "UPDATE_STATE s_req_http_start l"] u d [of "UPDATE_STATE s_header_field_start (upd_parser (\<lambda>pr. pr\<lparr>http_major := 0, http_minor := 9\<rparr>) l)"]
      d [of "UPDATE_STATE s_req_line_almost_done (upd_parser (\<lambda>pr. pr\<lparr>http_major := 0, http_minor := 9\<rparr>) l)"]
    by (simp add: st_req_url_def callbacks_pure [of _ f] assms(2,3) g upd_http_version)
  show "k = url \<Longrightarrow> sim_out f x (st_req_schema (E\<lparr>buf := x # buf E\<rparr>) (ahead s d m l)) (st_req_schema E l)"
    using u by (simp add: st_req_schema_def)
qed

lemma url_start_sim:
  assumes "http_errno (parser l) = HPE_OK" "marks l = (\<lambda>_. None)"
  shows "sim_out f x (st_req_spaces_before_url E' (ahead s (data (parser l)) (\<lambda>_. None) l)) (st_req_spaces_before_url E l)"
  by (simp add: st_req_spaces_before_url_def url_char_step_def MARK_def assms sim_def eqv_def Let_def UPDATE_STATE_def ahead_def)

section \<open>Bodies\<close>

lemma mark_body_carry:
  assumes "carry f x m d (marks l) (data (parser l)) (l_p l)" "only body m" "only body (marks l)"
  shows "carry f x (marks (MARK body (ahead s d m l))) d (marks (MARK body l)) (data (parser l)) p'"
    "only body (marks (MARK body (ahead s d m l)))" "only body (marks (MARK body l))" "marks (MARK body l) body \<noteq> None"
  using assms by (auto simp: carry_def MARK_def only_cases none_neq_one one_eq_one none_neq_one [symmetric])

lemma read_body_ahead:
  assumes "content_length (parser l) \<noteq> 0" "l_p l < length (buf E)"
  shows "read_body (E\<lparr>buf := x # buf E\<rparr>) (ahead s d m l) = ahead s d (marks (MARK body (ahead s d m l))) (read_body E l)"
proof -
  have "0 < min (unat (content_length (parser l))) (length (buf E) - l_p l)" using assms unat_gt_0 [of "content_length (parser l)"] by simp
  then show ?thesis by (cases l) (simp add: read_body_def ahead_def MARK_def upd_parser_def Let_def)
qed

lemma body_sim:
  assumes "merges f" "settings E = pure_settings f" "http_errno (parser l) = HPE_OK"
    and "carry f x m d (marks l) (data (parser l)) (l_p l)" "only body m" "only body (marks l)"
    and "pinv 1 (l_nread l) (p_state l) (parser l)" "l_p l < length (buf E)" "p_state l \<in> body_states"
  shows "sim_out f x (switch (E\<lparr>buf := x # buf E\<rparr>) (ahead s d m l)) (switch E l)"
proof -
  note mb = mark_body_carry [OF assms(4-6)]
  let ?m = "marks (MARK body (ahead s d m l))" and ?l = "read_body E l"
  have rd: "marks ?l = marks (MARK body l)" "data (parser ?l) = data (parser l)"
    by (simp_all, simp add: read_body_def upd_parser_def Let_def)
  consider "p_state l = s_body_identity" | "p_state l = s_body_identity_eof" | "p_state l = s_chunk_data" | "p_state l = s_chunk_data_almost_done"
    using assms(9) by (auto simp: body_states_def)
  then show ?thesis
  proof cases
    case 1
    then have cl: "content_length (parser l) \<noteq> 0" "content_length (parser l) \<noteq> ULLONG_MAX" using assms(7) by (simp_all add: pinv_def)
    have "sim_out f x (Reexecute (delivered f (E\<lparr>buf := x # buf E\<rparr>) body (Suc (l_p ?l + 1)) (ahead s d ?m (UPDATE_STATE s_message_done ?l))))
        (Reexecute (delivered f E body (l_p ?l + 1) (UPDATE_STATE s_message_done ?l)))"
      using assms(1) mb by (intro delivered_sim_out) (simp_all add: rd)
    then show ?thesis
      using mb
      by (simp add: switch_def 1 st_body_identity_def assertion_def cl read_body_ahead [OF cl(1) assms(8)] callbacks_pure [of _ f] assms(2,3) Let_def)
       (simp add: sim_def rd 1)
  next
    case 2
    then show ?thesis using mb assms(8) by (simp add: switch_def st_body_identity_eof_def sim_def)
  next
    case 3
    then have cl: "content_length (parser l) \<noteq> 0" "content_length (parser l) \<noteq> ULLONG_MAX" "F_CHUNKED \<in> flags (parser l)"
      using assms(7) by (simp_all add: pinv_def)
    then show ?thesis
      using mb
      by (simp add: switch_def 3 st_chunk_data_def assertion_def is_chunked_def cl read_body_ahead [OF cl(1) assms(8)] Let_def) 
       (simp add: sim_def rd)
  next
    case 4
    have "sim_out f x (Break (delivered f (E\<lparr>buf := x # buf E\<rparr>) body (Suc (l_p l)) (ahead s d m (UPDATE_STATE s_chunk_data_done l))))
        (Break (delivered f E body (l_p l) (UPDATE_STATE s_chunk_data_done l)))"
      using assms(1,4-6) by (intro delivered_sim_out) simp_all
    then show ?thesis
      by (simp add: switch_def 4 st_chunk_data_almost_done_def assertion_def is_chunked_def STRICT_CHECK_def callbacks_pure [of _ f] assms(2,3))
  qed
qed

lemma ahead_upd [simp]:
  "(ahead s d m l)\<lparr>l_p := Suc n\<rparr> = ahead s d m (l\<lparr>l_p := n\<rparr>)" "(ahead s d m l)\<lparr>l_ch := c\<rparr> = ahead s d m (l\<lparr>l_ch := c\<rparr>)"
  "(ahead s d m l)\<lparr>l_nread := k\<rparr> = ahead s d m (l\<lparr>l_nread := k\<rparr>)"
  by (simp_all add: ahead_def)

section \<open>Names and values of headers\<close>

lemma window_ahead [simp]: "window_end (E\<lparr>buf := x # buf E\<rparr>) (Suc p) = Suc (window_end E p)"
  by (simp add: window_end_def)

lemma skip_ahead [simp]: "skip_tokens (x # b) (Suc pe) (Suc p) = Suc (skip_tokens b pe p)"
proof (induction b pe p rule: skip_tokens.induct)
  case (1 b pe p)
  then show ?case by (subst (1 2) skip_tokens.simps) simp
qed

lemma field_switch_ahead:
  assumes "field_switch E c l = Break l'"
  shows "field_switch (E\<lparr>buf := x # buf E\<rparr>) c (ahead s d m l) = Break (ahead s d m l')"
  using assms
  by (cases l; cases "header_state (parser l)")
   (auto simp: field_switch_def ahead_def upd_parser_def match_name_def inc_index_def Let_def)

lemma field_loop_ahead:
  "field_loop E l = Break l' \<Longrightarrow> field_loop (E\<lparr>buf := x # buf E\<rparr>) (ahead s d m l) = Break (ahead s d m l')"
proof (induction "length (buf E) - l_p l" arbitrary: l rule: less_induct)
  case less
  let ?l1 = "l\<lparr>l_ch := buf E ! l_p l\<rparr>" and ?c = "TOKEN (buf E ! l_p l)"
  show ?case
  proof (cases "l_p l < length (buf E) \<and> ?c \<noteq> 0")
    case True
    then obtain l2 where l2: "field_switch E ?c ?l1 = Break l2" "field_loop E (l2\<lparr>l_p := l_p l2 + 1\<rparr>) = Break l'"
      using less.prems by (subst (asm) field_loop.simps) (simp add: Let_def split: outcome.splits)
    have "length (buf E) - l_p (l2\<lparr>l_p := l_p l2 + 1\<rparr>) < length (buf E) - l_p l"
      using field_switch_p [OF l2(1)] True by (auto intro: diff_less_mono2)
    note IH = less.hyps [OF this l2(2)]
    then show ?thesis
      using True IH field_switch_ahead [OF l2(1)] by (subst field_loop.simps) (simp add: Let_def)
  next
    case False
    then show ?thesis using less.prems by (subst field_loop.simps, subst (asm) field_loop.simps) (auto simp: Let_def split: if_splits)
  qed
qed

lemma count_sim:
  assumes "sim_out f x (rest' (ahead s d m (l\<lparr>l_nread := l_nread l + of_nat v\<rparr>))) (rest (l\<lparr>l_nread := l_nread l + of_nat v\<rparr>))"
    and "max_header_size E' = max_header_size E"
  shows "sim_out f x (COUNT_HEADER_SIZE E' v (ahead s d m l) rest') (COUNT_HEADER_SIZE E v l rest)"
  using assms by (simp add: COUNT_HEADER_SIZE_def Let_def)

lemma header_field_sim:
  assumes "merges f" "settings E = pure_settings f"
    and "carry f x m d (marks l) (data (parser l)) (l_p l)" "only header_field m" "only header_field (marks l)"
    and "linv 1 (l_p l) l" "l_p l < length (buf E)" "p_state l = s_header_field"
  shows "sim_out f x (st_header_field (E\<lparr>buf := x # buf E\<rparr>) (ahead s d m l)) (st_header_field E l)"
proof -
  have c: "carry f x m d (marks l) (data (parser l)) p'" for p'
    using carry_any [OF assms(3), of p'] assms(4) by (auto simp: only_def)
  have m: "marks l header_field \<noteq> None" using assms(6,8) by (simp add: linv_def marks_ok_def)
  obtain l1 where l1: "field_loop E l = Break l1" "http_errno (parser l1) = HPE_OK"
     "p_state l1 = s_header_field" "marks l1 = marks l" "l_nread l1 = l_nread l" "data (parser l1) = data (parser l)"
    using field_loop_good [of l E] assms(6,8) by (auto simp: linv_def pinv_def)
  have p: "l_p l \<le> l_p l1 \<and> l_p l1 \<le> length (buf E)" using field_loop_moves [of l E] assms(7) l1(1) by simp
  have d: "sim_out f x (Break (delivered f (E\<lparr>buf := x # buf E\<rparr>) header_field (Suc (l_p l')) (ahead s d m l'))) (Break (delivered f E header_field (l_p l') l'))"
    if "marks l' = marks l" "data (parser l') = data (parser l)" for l'
    using assms(1,4,5) c m that by (intro delivered_sim_out) simp_all
  note loop = l1 field_loop_ahead [OF l1(1), of x s d m]
  show ?thesis
  proof (cases "l_p l1 = length (buf E)")
    case True
    obtain q where q: "length (buf E) = Suc q" using assms(7) by (cases "length (buf E)") auto
    have "sim_out f x (Break (ahead s d m (l'\<lparr>l_p := q\<rparr>))) (Break (l'\<lparr>l_p := q\<rparr>))"
      if "marks l' = marks l" "data (parser l') = data (parser l)" for l'
      using c that by (simp add: sim_def)
    then show ?thesis using q True by (auto simp: st_header_field_def after_def loop intro!: count_sim)
  next
    case False
    have "sim_out f x (CALLBACK_DATA (E\<lparr>buf := x # buf E\<rparr>) header_field (UPDATE_STATE s' (ahead s d m l')) Break)
        (CALLBACK_DATA E header_field (UPDATE_STATE s' l') Break)"
      if "marks l' = marks l" "data (parser l') = data (parser l)" "http_errno (parser l') = HPE_OK" for l' s'
      using d [of "UPDATE_STATE s' l'"] that assms(2) by (simp add: callbacks_pure [of _ f])
    then show ?thesis using False by (auto simp: st_header_field_def after_def loop intro!: count_sim)
  qed
qed

lemma value_general_ahead:
  "0 < l_p l \<or> buf E ! l_p l \<noteq> CR \<and> buf E ! l_p l \<noteq> LF \<Longrightarrow>
   (\<exists>l'. value_general E pe l = Break l' \<and> value_general (E\<lparr>buf := x # buf E\<rparr>) (Suc pe) (ahead s d m l) = Break (ahead s d m l')) \<or>
   (\<exists>a b. value_general E pe l = Error a \<and> value_general (E\<lparr>buf := x # buf E\<rparr>) (Suc pe) (ahead s d m l) = Error b)"
proof (induction "pe - l_p l" arbitrary: l rule: less_induct)
  case less
  let ?l = "l\<lparr>l_ch := buf E ! l_p l, l_p := l_p l + 1\<rparr>"
  have p: "0 < l_p l \<Longrightarrow> Suc (l_p l - Suc 0) = l_p l" by simp
  have prev: "0 < l_p l \<Longrightarrow> (ahead s d m l')\<lparr>l_p := l_p l\<rparr> = ahead s d m (l'\<lparr>l_p := l_p l - Suc 0\<rparr>)" for l' by (simp add: ahead_def)
  show ?case
  proof (cases "l_p l < pe")
    case True
    show ?thesis
      using less.hyps [of ?l] less.prems True prev
      by (subst (1 2 3 4) value_general.simps) (auto simp: Let_def goto_error_def)
  qed (subst (1 2) value_general.simps, simp)
qed

lemma value_switch_ahead:
  assumes "buf E ! l_p l \<noteq> CR" "buf E ! l_p l \<noteq> LF" "l_p l < length (buf E)"
  shows "(\<exists>h' l'. value_switch E h l = Inl (h', l') \<and> value_switch (E\<lparr>buf := x # buf E\<rparr>) h (ahead s d m l) = Inl (h', ahead s d m l')) \<or>
   (\<exists>a b. value_switch E h l = Inr a \<and> value_switch (E\<lparr>buf := x # buf E\<rparr>) h (ahead s d m l) = Inr b \<and> bad a \<and> bad b)"
proof (cases "h = h_general")
  case True
  have q: "length (buf E) = Suc (length (buf E) - Suc 0)" using assms(3) by simp
  then have len: "(ahead s d m l')\<lparr>l_p := length (buf E)\<rparr> = ahead s d m (l'\<lparr>l_p := length (buf E) - Suc 0\<rparr>)" for l'
    by (metis ahead_upd(1))
  then show ?thesis
    using value_general_ahead [of l E "window_end E (l_p l)" x s d m] assms(1,2) by (auto simp: value_switch_def True)
next
  case False
  then show ?thesis
    by (cases l; cases h) (auto simp: value_switch_def length_digit_def match_value_def upd_parser_def inc_index_def ahead_def UPDATE_STATE_def Let_def)
qed

lemma value_done_sim:
  assumes "carry f x m d (marks l) (data (parser l)) p'" "only header_value m" "l_p l \<le> length (buf E)" "0 < length (buf E)"
  shows "sim_out f x (value_done (E\<lparr>buf := x # buf E\<rparr>) (Suc start) h (ahead s d m l)) (value_done E start h l)"
proof -
  let ?l = "upd_parser (\<lambda>pr. pr\<lparr>header_state := h\<rparr>) l"
  have c: "carry f x m d (marks l) (data (parser l)) p''" for p''
    using carry_any [OF assms(1), of p''] assms(2) by (auto simp: only_def)
  have u: "upd_parser (\<lambda>pr. pr\<lparr>header_state := h\<rparr>) (ahead s d m l) = ahead s d m ?l" by (simp add: upd_parser_def ahead_def)
  have b: "sim_out f x (Break (ahead s d m l')) (Break l')" if "marks l' = marks l" "data (parser l') = data (parser l)" for l'
    using c that by (simp add: sim_def)
  have ml: "marks ?l = marks l" "data (parser ?l) = data (parser l)" by (simp_all add: upd_parser_def)
  obtain n where n: "length (buf E) = Suc n" using assms(4) by (cases "buf E") auto
  show ?thesis
  proof (cases "l_p l = length (buf E)")
    case True
    then show ?thesis using b ml n by (auto simp: value_done_def u Let_def intro!: count_sim b)
  next
    case False
    then show ?thesis using b ml by (auto simp: value_done_def u Let_def intro!: count_sim b)
  qed
qed

definition with_state :: "header_states \<Rightarrow> 'u exec_locals \<Rightarrow> 'u exec_locals" where
  "with_state h = upd_parser (\<lambda>pr. pr\<lparr>header_state := h\<rparr>)"

lemma with_state_simps [simp]:
  "marks (with_state h l) = marks l" "data (parser (with_state h l)) = data (parser l)" "l_p (with_state h l) = l_p l"
  "http_errno (parser (with_state h l)) = http_errno (parser l)" "with_state h (ahead s d m l) = ahead s d m (with_state h l)"
  by (simp_all add: with_state_def upd_parser_def ahead_def)

text \<open>The end of a value at a carriage return.\<close>

lemma value_end_sim:
  assumes "merges f" "\<And>p'. carry f x m d (marks l) (data (parser l)) p'" "only header_value m" "only header_value (marks l)"
    "marks l header_value \<noteq> None" "l_p l < length (buf E)"
  shows "sim_out f x (value_done (E\<lparr>buf := x # buf E\<rparr>) (Suc start) h (delivered f (E\<lparr>buf := x # buf E\<rparr>) header_value (Suc (l_p l)) (ahead s d m l)))
    (value_done E start h (delivered f E header_value (l_p l) l))"
proof -
  let ?E = "E\<lparr>buf := x # buf E\<rparr>" and ?l2 = "delivered f E header_value (l_p l) l"
  let ?l1 = "delivered f (E\<lparr>buf := x # buf E\<rparr>) header_value (Suc (l_p l)) (ahead s d m l)"
  have "sim_out f x (Reexecute ?l1) (Reexecute ?l2)"
    by (rule delivered_sim_out(2)) (use assms in simp_all)
  then have "sim f x ?l1 ?l2" "l_ch ?l1 = l_ch ?l2" by simp_all
  note eq = sim_ahead [OF this]
  have "marks ?l1 = (\<lambda>_. None)" "marks ?l2 = (\<lambda>_. None)" "data (parser ?l1) = data (parser ?l2)"
    using delivered_sim(1,3) [OF assms(1,2,4,3), where e = "l_p l" and E = E and s = s]
      delivered_sim(2) [OF assms(1,2,4,3), where e = "l_p l" and E = E] assms(5) by simp_all
  then show ?thesis
    by (subst eq) (rule value_done_sim [of f x _ _ _ 0]; use assms(6) in \<open>auto simp: only_def\<close>)
qed

lemma value_loop_sim:
  assumes "merges f" "settings E = pure_settings f" "only header_value m"
  shows "\<lbrakk>h \<in> value_states; http_errno (parser l) = HPE_OK; p_state l = s_header_value;
      \<And>p'. carry f x m d (marks l) (data (parser l)) p'; only header_value (marks l); marks l header_value \<noteq> None;
      l_p l \<le> length (buf E); 0 < length (buf E)\<rbrakk>
    \<Longrightarrow> sim_out f x (value_loop (E\<lparr>buf := x # buf E\<rparr>) (Suc start) h (ahead s d m l)) (value_loop E start h l)"
proof (induction "length (buf E) - l_p l" arbitrary: h l rule: less_induct)
  case less
  let ?l1 = "l\<lparr>l_ch := buf E ! l_p l\<rparr>" and ?ch = "buf E ! l_p l" and ?E = "E\<lparr>buf := x # buf E\<rparr>"
  let ?l2 = "UPDATE_STATE s_header_almost_done ?l1"
  consider "\<not> l_p l < length (buf E)" | "l_p l < length (buf E)" "?ch = CR" | "l_p l < length (buf E)" "?ch = LF"
    | "l_p l < length (buf E)" "?ch \<noteq> CR" "?ch \<noteq> LF" by blast
  then show ?case
  proof cases
    case 1
    then show ?thesis using value_done_sim [OF less.prems(4) assms(3) less.prems(7,8)] by (subst (1 2) value_loop.simps) simp
  next
    case 2
    have "sim_out f x (value_done ?E (Suc start) h (delivered f ?E header_value (Suc (l_p l)) (ahead s d m (with_state h ?l2))))
       (value_done E start h (delivered f E header_value (l_p l) (with_state h ?l2)))"
      using value_end_sim [OF assms(1), of x m d "with_state h ?l2" E start h s] less.prems 2 assms(3) by simp
    then show ?thesis
      using less.prems(2) 2 assms(2)
      by (subst (1 2) value_loop.simps) (simp add: Let_def callbacks_pure [of _ f] with_state_def [symmetric])
  next
    case 3
    have "sim_out f x (CALLBACK_DATA_NOADVANCE ?E header_value (with_state h (ahead s d m l')) Reexecute)
        (CALLBACK_DATA_NOADVANCE E header_value (with_state h l') Reexecute)"
      if "marks l' = marks l" "data (parser l') = data (parser l)" "http_errno (parser l') = HPE_OK" for l'
    proof -
      have "sim_out f x (Reexecute (delivered f ?E header_value (Suc (l_p l')) (ahead s d m (with_state h l'))))
          (Reexecute (delivered f E header_value (l_p l') (with_state h l')))"
        using delivered_sim_out(2) [OF assms(1), of x m d "with_state h l'" header_value "l_p l'" E s] less.prems that assms(3) by simp
      then show ?thesis using that(3) assms(2) by (simp add: callbacks_pure [of _ f])
    qed
    then show ?thesis
      using less.prems(2) 3
      by (subst (1 2) value_loop.simps) (auto simp: Let_def with_state_def [symmetric] simp del: with_state_simps(5) intro!: count_sim)
  next
    case 4
    show ?thesis
    proof (cases "\<not> lenient E \<and> \<not> IS_HEADER_CHAR ?ch")
      case True
      then show ?thesis using 4 by (subst (1 2) value_loop.simps) (simp add: Let_def)
    next
      case False
      have value_switch_ok: "case value_switch E h ?l1 of Inl (h', l') \<Rightarrow> h' \<in> value_states \<and> http_errno (parser l') = HPE_OK \<and>
          p_state l' = s_header_value \<and> marks l' = marks ?l1 \<and> l_nread l' = l_nread ?l1 \<and> data (parser l') = data (parser ?l1) \<and>
          opts (parser l') = opts (parser ?l1) | Inr r \<Rightarrow> good 2 r"
        using less.prems by (intro value_switch_good) simp_all
      consider (step) h' l' where "value_switch E h ?l1 = Inl (h', l')" "value_switch ?E h (ahead s d m ?l1) = Inl (h', ahead s d m l')"
        | (stop) a b where "value_switch E h ?l1 = Inr a" "value_switch ?E h (ahead s d m ?l1) = Inr b" "bad a" "bad b"
        using value_switch_ahead [of E ?l1 h x s d m] 4 by auto
      then show ?thesis
      proof cases
        case step
        have p: "l_p l \<le> l_p l' \<and> l_p l' < length (buf E)" using value_switch_p [OF step(1)] 4 by simp
        have "sim_out f x (value_loop ?E (Suc start) h' (ahead s d m (l'\<lparr>l_p := l_p l' + 1\<rparr>))) (value_loop E start h' (l'\<lparr>l_p := l_p l' + 1\<rparr>))"
          using less.prems 4(1) p value_switch_ok step(1) by (intro less.hyps) (auto intro: diff_less_mono2)
        then show ?thesis using step False 4 by (subst (1 2) value_loop.simps) (auto simp: Let_def)
      next
        case stop
        then show ?thesis using False 4 by (subst (1 2) value_loop.simps) (simp add: Let_def sim_out_def)
      qed
    qed
  qed
qed

section \<open>Two runs step by step\<close>

lemma switch_sim:
  assumes "merges f" "settings E = pure_settings f" "linv 1 (l_p l) l" "l_p l < length (buf E)"
    and "carry f x m d (marks l) (data (parser l)) (l_p l)" "marks_ok (p_state l) (Suc (l_p l)) m"
  shows "sim_out f x (switch (E\<lparr>buf := x # buf E\<rparr>) (ahead s d m l)) (switch E l)"
proof -
  have pr: "http_errno (parser l) = HPE_OK" "marks_ok (p_state l) (l_p l) (marks l)" "pinv 1 (l_nread l) (p_state l) (parser l)"
    using assms(3) by (simp_all add: linv_def pinv_def)
  note E = assms(2)
  have o: "p_state l = s_header_field \<Longrightarrow> only header_field m'" "p_state l = s_header_value \<Longrightarrow> only header_value m'"
      "p_state l = s_res_status \<Longrightarrow> only status m'" "p_state l \<in> url_states \<Longrightarrow> only url m'" "p_state l \<in> body_states \<Longrightarrow> only body m'"
    if "marks_ok (p_state l) n m'" for m' n using one_mark [OF that] by (auto simp: only_cases)
  note oo = o [OF pr(2)] o [OF assms(6)]
  have some: "p_state l = s_header_field \<Longrightarrow> marks l header_field \<noteq> None" "p_state l = s_header_value \<Longrightarrow> marks l header_value \<noteq> None"
    "p_state l = s_res_status \<Longrightarrow> marks l status \<noteq> None" "p_state l \<in> url_states \<Longrightarrow> marks l url \<noteq> None"
    using pr(2) by (simp_all add: marks_ok_def)
  show ?thesis
  proof (cases "p_state l \<in> url_states \<union> body_states \<union> {s_header_field, s_header_value, s_res_status}")
    case True
    then consider "p_state l \<in> url_states" | "p_state l \<in> body_states" | "p_state l = s_header_field" | "p_state l = s_header_value"
      | "p_state l = s_res_status" by blast
    then show ?thesis
    proof cases
      case 1
      have "sim_out f x (st_req_url (E\<lparr>buf := x # buf E\<rparr>) (ahead s d m l)) (st_req_url E l)"
        "sim_out f x (st_req_schema (E\<lparr>buf := x # buf E\<rparr>) (ahead s d m l)) (st_req_schema E l)"
        using 1 assms(1,5) E pr oo some by (auto intro!: marked_sim [of _ _ _ _ _ _ url])
      then show ?thesis using 1 unfolding url_states_def by (elim insertE emptyE) (simp_all add: switch_def)
    next
      case 2
      then show ?thesis using body_sim [OF assms(1) E pr(1) assms(5) _ _ pr(3) assms(4)] oo by blast
    next
      case 3
      then show ?thesis using header_field_sim [OF assms(1) E assms(5) _ _ assms(3,4)] oo by (simp add: switch_def)
    next
      case 4
      have "carry f x m d (marks l) (data (parser l)) p'" for p'
        using carry_any [OF assms(5), of p'] oo(7) 4 by (auto simp: only_def)
      moreover have "buf E \<noteq> []" using assms(4) by auto
      ultimately show ?thesis
        using value_loop_sim [OF assms(1) E, of m "header_state (parser l)" l x d "l_p l" s] pr 4 oo some assms(4)
        by (simp add: switch_def st_header_value_def value_states_def pinv_def)
    next
      case 5
      then show ?thesis using marked_sim(1) [OF assms(1) E pr(1) assms(5), of status] oo some by (simp add: switch_def)
    qed
  next
    case False
    then have m: "marks l = (\<lambda>_. None)" "m = (\<lambda>_. None)" using no_marks [OF pr(2)] no_marks [OF assms(6)] by blast+
    then have d: "d = data (parser l)" using assms(5) by simp
    show ?thesis
      using False unmarked_sim_1 [OF E pr(1) m(1), of x s] unmarked_sim_2 [OF E pr(1) m(1), of x s] unmarked_sim_3 [OF E pr(1) m(1), of x s]
        unmarked_sim_4 [OF E pr(1) m(1), of x s] headers_done_sim [OF E pr(1) m(1), of x s] url_start_sim [OF pr(1) m(1), of f x "E\<lparr>buf := x # buf E\<rparr>" s E]
      unfolding m(2) d
      by (cases "p_state l") (simp_all add: url_states_def body_states_def switch_def)
  qed
qed

lemma marks_ok_mono: "marks_ok s n m \<Longrightarrow> n \<le> n' \<Longrightarrow> marks_ok s n' m"
  by (auto simp: marks_ok_def intro: le_trans)

lemma reexecute_sim:
  assumes "merges f" "settings E = pure_settings f"
  shows "\<lbrakk>linv 1 (l_p l2) l2; linv 1 (l_p l1) l1; l_p l2 < length (buf E); sim f x l1 l2; l_ch l1 = l_ch l2\<rbrakk>
    \<Longrightarrow> sim_out f x (reexecute n (E\<lparr>buf := x # buf E\<rparr>) l1) (reexecute n E l2)"
proof (induction n arbitrary: l1 l2)
  case 0
  then show ?case by (simp add: sim_out_def)
next
  case (Suc n)
  let ?E = "E\<lparr>buf := x # buf E\<rparr>"
  note l1 = sim_ahead [OF Suc.prems(4,5)]
  have st: "p_state l1 = p_state l2" "l_p l1 = Suc (l_p l2)" using Suc.prems(4) by (simp_all add: sim_def)
  have sw: "sim_out f x (switch ?E l1) (switch E l2)"
    by (subst l1, rule switch_sim [OF assms Suc.prems(1,3)])
      (use Suc.prems(2,4) st in \<open>simp_all add: sim_def linv_def\<close>)
  have gd: "good (rank (p_state l2)) (switch E l2)" "good (rank (p_state l1)) (switch ?E l1)"
     "moves E (l_p l2) (switch E l2)"
    using switch_good [OF assms(2) Suc.prems(1,3)] switch_good [of ?E f l1] Suc.prems(2,3) assms(2) st switch_moves [OF Suc.prems(3)] by simp_all
  show ?case
  proof (cases "switch E l2")
    case (Reexecute l2')
    then obtain l1' where l1': "switch ?E l1 = Reexecute l1'" "sim f x l1' l2'" "l_ch l1' = l_ch l2'"
      using sw by (auto simp: sim_out_def)
    have "sim_out f x (reexecute n ?E l1') (reexecute n E l2')"
      using gd Reexecute l1' by (intro Suc.IH) simp_all
    then show ?thesis using Reexecute l1'(1) by simp
  qed (use sw in \<open>auto simp: sim_out_def split: outcome.splits\<close>)
qed

lemma byte_step_sim:
  assumes "merges f" "settings E = pure_settings f"
    and "linv 0 (l_p l2) l2" "linv 0 (l_p l1) l1" "l_p l2 < length (buf E)" "sim f x l1 l2"
  shows "sim_out f x (byte_step (E\<lparr>buf := x # buf E\<rparr>) l1) (byte_step E l2)"
proof -
  let ?E = "E\<lparr>buf := x # buf E\<rparr>"
  let ?in = "\<lambda>l. l\<lparr>l_ch := buf E ! l_p l2\<rparr>" and ?count = "\<lambda>l. l\<lparr>l_ch := buf E ! l_p l2, l_nread := l_nread l + 1\<rparr>"
  have st: "p_state l1 = p_state l2" "l_p l1 = Suc (l_p l2)" "l_nread l1 = l_nread l2" using assms(6) by (simp_all add: sim_def)
  have sm: "sim f x (?in l1) (?in l2)" "sim f x (?count l1) (?count l2)" using assms(6) by (simp_all add: sim_def)
  have li: "linv 1 (l_p l) (?count l)" "\<not> PARSING_HEADER (p_state l) \<Longrightarrow> linv 1 (l_p l) (?in l)" if "linv 0 (l_p l) l" for l
    using that pinv_enter(2) [of 0 "l_nread l" "p_state l" "parser l"] by (auto simp: linv_def pinv_enter(1) PARSING_HEADER_def)
  note re = reexecute_sim [OF assms(1,2)]
  have "\<not> PARSING_HEADER (p_state l2) \<Longrightarrow> sim_out f x (reexecute REEXECUTE_MAX ?E (?in l1)) (reexecute REEXECUTE_MAX E (?in l2))"
    using assms(5) sm li [OF assms(3)] li [OF assms(4)] st by (intro re) simp_all
  moreover have "sim_out f x (reexecute REEXECUTE_MAX ?E (?count l1)) (reexecute REEXECUTE_MAX E (?count l2))"
    using assms(5) sm li [OF assms(3)] li [OF assms(4)] by (intro re) simp_all
  ultimately show ?thesis using st by (simp add: byte_step_def COUNT_HEADER_SIZE_def Let_def)
qed

text \<open>Results with an error need not agree, all others do.\<close>

definition same_result :: "'u outcome \<Rightarrow> 'u outcome \<Rightarrow> bool" where
  "same_result o1 o2 \<longleftrightarrow> (bad o1 \<and> bad o2) \<or> (\<exists>n pr. o1 = Return (Suc n) pr \<and> o2 = Return n pr)"

definition kind :: "state \<Rightarrow> data_cb" where
  "kind s = (if s = s_header_field then header_field else if s = s_header_value then header_value
     else if s = s_res_status then status else if s \<in> url_states then url else body)"

lemma marks_only:
  assumes "marks_ok s n m"
  shows "only (kind s) m"
proof (cases "s \<in> url_states \<union> body_states \<union> {s_header_field, s_header_value, s_res_status}")
  case True
  then show ?thesis using one_mark [OF assms] by (auto simp: only_cases kind_def url_states_pinv(2))
next
  case False
  then show ?thesis using no_marks [OF assms] by (simp add: only_cases)
qed

lemma end_of_data_pure:
  assumes "settings E = pure_settings f" "http_errno (parser l) = HPE_OK" "only k (marks l)"
  shows "end_of_data E l = RETURN (length (buf E)) (delivered f E k (l_p l) l)"
proof -
  consider "marks l = (\<lambda>_. None)" | i where "marks l = (\<lambda>_. None)(k := Some i)" using assms(3) by (auto simp: only_cases)
  then show ?thesis
    by cases (cases k; simp add: end_of_data_def assertion_def callbacks_pure [OF assms(1)] assms(2) delivered_def)+
qed

lemma eqv_same: "eqv p q \<Longrightarrow> data p = data q \<Longrightarrow> p\<lparr>nread := n, state := s\<rparr> = q\<lparr>nread := n, state := s\<rparr>"
  by (cases p; cases q) (simp add: eqv_def)

lemma end_of_data_sim:
  assumes "merges f" "settings E = pure_settings f" "linv 0 (l_p l2) l2" "linv 0 (l_p l1) l1" "sim f x l1 l2"
  shows "same_result (end_of_data (E\<lparr>buf := x # buf E\<rparr>) l1) (end_of_data E l2)"
proof -
  let ?E = "E\<lparr>buf := x # buf E\<rparr>" and ?k = "kind (p_state l2)" and ?l1 = "l1\<lparr>l_ch := l_ch l2\<rparr>"
  have st: "p_state l1 = p_state l2" "l_p l1 = Suc (l_p l2)" "l_nread l1 = l_nread l2"
     "carry f x (marks l1) (data (parser l1)) (marks l2) (data (parser l2)) (l_p l2)"
    using assms(5) by (simp_all add: sim_def)
  have mo: "marks_ok (p_state l2) (l_p l1) (marks l1)" "marks_ok (p_state l2) (l_p l2) (marks l2)"
    and er: "http_errno (parser l1) = HPE_OK" "http_errno (parser l2) = HPE_OK"
    using assms(3,4) st(1) by (simp_all add: linv_def pinv_def)
  note ok = marks_only [OF mo(1)] marks_only [OF mo(2)] er
  have eq: "?l1 = ahead (state (parser l1), nread (parser l1)) (data (parser l1)) (marks l1) l2"
    using sim_ahead [of f x ?l1 l2] assms(5) by (simp add: sim_def)
  have ch: "parser (delivered f ?E ?k (Suc (l_p l2)) l1) = parser (delivered f ?E ?k (Suc (l_p l2)) ?l1)"
    by (simp add: delivered_def split: option.split)
  have "data (parser (delivered f ?E ?k (Suc (l_p l2)) ?l1)) = data (parser (delivered f E ?k (l_p l2) l2))"
    unfolding eq using delivered_sim(3) [OF assms(1) st(4) ok(2,1), of "l_p l2" E] by simp
  moreover have "eqv (parser (delivered f ?E ?k (Suc (l_p l2)) ?l1)) (parser (delivered f E ?k (l_p l2) l2))"
    unfolding eq by (rule eqv_delivered)
  ultimately have "(parser (delivered f ?E ?k (Suc (l_p l2)) l1))\<lparr>nread := l_nread l2, state := p_state l2\<rparr>
      = (parser (delivered f E ?k (l_p l2) l2))\<lparr>nread := l_nread l2, state := p_state l2\<rparr>"
    unfolding ch by (intro eqv_same)
  then show ?thesis
    using end_of_data_pure [of ?E f l1 ?k] end_of_data_pure [of E f l2 ?k] assms(2) ok st
    by (simp add: same_result_def RETURN_def)
qed

lemma exec_loop_sim:
  assumes "merges f" "settings E = pure_settings f"
  shows "\<lbrakk>linv 0 (l_p l2) l2; linv 0 (l_p l1) l1; l_p l2 \<le> length (buf E); sim f x l1 l2\<rbrakk>
    \<Longrightarrow> same_result (exec_loop (E\<lparr>buf := x # buf E\<rparr>) l1) (exec_loop E l2)"
proof (induction "length (buf E) - l_p l2" arbitrary: l1 l2 rule: less_induct)
  case less
  let ?E = "E\<lparr>buf := x # buf E\<rparr>"
  have p1: "l_p l1 = Suc (l_p l2)" using less.prems(4) by (simp add: sim_def)
  show ?case
  proof (cases "l_p l2 < length (buf E)")
    case True
    have step: "sim_out f x (byte_step ?E l1) (byte_step E l2)" using byte_step_sim [OF assms less.prems(1,2) True less.prems(4)] .
    have gd: "good 0 (byte_step E l2)" "good 0 (byte_step ?E l1)" "moves E (l_p l2) (byte_step E l2)"
      using byte_step_good [OF assms(2) less.prems(1) True] byte_step_good [of ?E f l1] byte_step_moves [OF True] less.prems(2) assms(2) True p1
      by simp_all
    show ?thesis
    proof (cases "byte_step E l2")
      case (Break l2')
      then obtain l1' where l1': "byte_step ?E l1 = Break l1'" "sim f x (l1'\<lparr>l_p := l_p l1' + 1\<rparr>) (l2'\<lparr>l_p := l_p l2' + 1\<rparr>)"
        using step by (auto simp: sim_out_def)
      have "same_result (exec_loop ?E (l1'\<lparr>l_p := l_p l1' + 1\<rparr>)) (exec_loop E (l2'\<lparr>l_p := l_p l2' + 1\<rparr>))"
        using gd Break l1' True by (intro less.hyps) (auto simp: linv_def)
      then show ?thesis using Break l1'(1) True p1 by (subst (1 2) exec_loop.simps) simp
    next
      case (Reexecute l)
      then show ?thesis using gd(1) by simp
    next
      case (Error l)
      then show ?thesis using step True p1 gd
        by (subst (1 2) exec_loop.simps) (auto simp: sim_out_def same_result_def bad_def at_error_def RETURN_def split: outcome.splits)
    next
      case (Return n pr)
      then show ?thesis using step True p1 gd
        by (subst (1 2) exec_loop.simps) (auto simp: sim_out_def same_result_def bad_def at_error_def RETURN_def split: outcome.splits)
    qed (use gd in simp_all)
  next
    case False
    then show ?thesis
      using end_of_data_sim [OF assms less.prems(1,2,4)] p1 by (subst (1 2) exec_loop.simps) simp
  qed
qed
end
