(* ===== verification/Http_Steady.thy ===== *)
theory Http_Steady
  imports Http_Incremental
begin

text \<open>
  What a step of the HTTP parser leaves alone, whatever its input: the options, the
  upgrade to another protocol, the limit on the headers, and marks at the start of the
  data when the data is one octet. A jump to \<^verbatim>\<open>reexecute\<close> never leads to a state that reads ahead.
\<close>

section \<open>What one octet leaves alone\<close>

definition live :: "'u exec_locals \<Rightarrow> bool" where
  "live l \<longleftrightarrow> \<not> (upgrade (parser l) \<and> p_state l \<in> start_states)"

text \<open>The states that look at more than one character.\<close>

definition scanning :: "state set" where
  "scanning = {s_header_field, s_header_value, s_body_identity, s_body_identity_eof, s_chunk_data}"

definition zero_marks :: "(data_cb \<Rightarrow> nat option) \<Rightarrow> bool" where
  "zero_marks m \<longleftrightarrow> (\<forall>k i. m k = Some i \<longrightarrow> i = 0)"

lemma zero_marks_upd [simp]:
  "zero_marks m \<Longrightarrow> zero_marks (m(k := None))" "zero_marks m \<Longrightarrow> zero_marks (m(k := Some 0))" "zero_marks (\<lambda>_. None)"
  by (auto simp: zero_marks_def)

definition keeps :: "'u exec_env \<Rightarrow> 'u exec_locals \<Rightarrow> 'u exec_locals \<Rightarrow> bool" where
  "keeps E l l' \<longleftrightarrow>
     opts (parser l') = opts (parser l) \<and> (live l \<longrightarrow> live l') \<and>
     (l_nread l \<le> max_header_size E \<longrightarrow> l_nread l' \<le> max_header_size E) \<and>
     (length (buf E) = 1 \<and> l_p l = 0 \<and> zero_marks (marks l) \<longrightarrow> zero_marks (marks l'))"

definition steady :: "'u exec_env \<Rightarrow> 'u exec_locals \<Rightarrow> 'u outcome \<Rightarrow> bool" where
  "steady E l out =
     (case out of
        Break l' \<Rightarrow> keeps E l l'
      | Reexecute l' \<Rightarrow> keeps E l l' \<and> p_state l' \<notin> scanning
      | Return n pr \<Rightarrow> http_errno pr = HPE_OK \<and> l_nread l \<le> max_header_size E \<longrightarrow> nread pr \<le> max_header_size E
      | _ \<Rightarrow> True)"

lemma steady_simps [simp]:
  "steady E l (Break l') = keeps E l l'"
  "steady E l (Reexecute l') = (keeps E l l' \<and> p_state l' \<notin> scanning)"
  "steady E l (Return n pr) = (http_errno pr = HPE_OK \<and> l_nread l \<le> max_header_size E \<longrightarrow> nread pr \<le> max_header_size E)"
  "steady E l (RETURN n l') = (http_errno (parser l') = HPE_OK \<and> l_nread l \<le> max_header_size E \<longrightarrow> l_nread l' \<le> max_header_size E)"
  "steady E l (goto_error e l')" "steady E l Assertion_failed" "steady E l Out_of_bounds" "steady E l (Error l')" "steady E l Endless"
  by (simp_all add: steady_def goto_error_def RETURN_def)

lemmas steady_defs = local_defs STRICT_CHECK_def assertion_def is_chunked_def new_message_def live_def start_states_def scanning_def SET_ERRNO_def keeps_def

lemma url_char_neq [simp]: "parse_url_char s ch \<noteq> s_start_req" "parse_url_char s ch \<noteq> s_start_res" "parse_url_char s ch \<noteq> s_start_req_or_res"
  using parse_url_char_states [of s ch] by (auto simp: url_states_def)

lemma steady_1:
  assumes "settings E = pure_settings f" "http_errno (parser l) = HPE_OK"
    and "p_state l \<notin> url_states \<union> body_states \<union> {s_header_field, s_header_value, s_headers_done, s_headers_almost_done, s_header_value_start, s_header_value_discard_ws}"
  shows "steady E l (switch E l)"
  using assms(3)
  by (cases "p_state l"; simp only: switch_def state.case)
    (simp_all add: assms(1,2) callbacks_pure [of _ f] case_defs steady_defs finish_header_def inc_index_def url_states_def body_states_def Let_def split: option.split header_states.split)


lemma steady_2:
  assumes "settings E = pure_settings f" "http_errno (parser l) = HPE_OK"
  shows "steady E l (st_req_url E l)" "steady E l (st_req_schema E l)" "steady E l (st_header_value_start E l)"
    "steady E l (st_headers_almost_done E l)" "p_state l = s_headers_done \<Longrightarrow> steady E l (st_headers_done E l)"
  apply (simp_all add: st_req_url_def st_req_schema_def url_char_step_def callbacks_pure [of _ f] assms steady_defs Let_def split: option.split)[2]
  apply (cases "header_state (parser l)"; simp add: st_header_value_start_def steady_defs Let_def)
  apply (simp_all add: st_headers_almost_done_def st_headers_done_def headers_complete_pure [of _ f] callbacks_pure [of _ f] set_upgrade_def assms steady_defs Let_def hasBody_def)
done
lemma steady_body:
  assumes "settings E = pure_settings f" "http_errno (parser l) = HPE_OK" "p_state l \<in> body_states"
  shows "steady E l (switch E l)"
  using assms(3) unfolding body_states_def
  by (elim insertE emptyE; simp only: switch_def state.case)
   (simp_all add: st_body_identity_def st_body_identity_eof_def st_chunk_data_def st_chunk_data_almost_done_def read_body_def callbacks_pure [of _ f] assms(1,2) steady_defs Let_def split: option.split)

lemma steady_count:
  "(\<And>n. n \<le> max_header_size E \<Longrightarrow> steady E l (rest (l1\<lparr>l_nread := n\<rparr>))) \<Longrightarrow> steady E l (COUNT_HEADER_SIZE E v l1 rest)"
  by (simp add: COUNT_HEADER_SIZE_def Let_def)

lemma keeps_live: "p_state l' \<notin> start_states \<Longrightarrow>
  keeps E l l' = (opts (parser l') = opts (parser l) \<and> (l_nread l \<le> max_header_size E \<longrightarrow> l_nread l' \<le> max_header_size E) \<and>
     (length (buf E) = 1 \<and> l_p l = 0 \<and> zero_marks (marks l) \<longrightarrow> zero_marks (marks l')))"
  by (simp add: keeps_def live_def)

lemma keeps_delivered: "keeps E l0 l \<Longrightarrow> keeps E l0 (delivered f E' k e l)"
  by (auto simp: keeps_def live_def delivered_def split: option.split)

lemma keeps_with_state: "keeps E l0 l \<Longrightarrow> keeps E l0 (with_state h l)" "p_state (with_state h l) = p_state l" "l_nread (with_state h l) = l_nread l"
  by (auto simp: keeps_def live_def with_state_def upd_parser_def)

lemma steady_field:
  assumes "settings E = pure_settings f" "linv 1 (l_p l) l" "p_state l = s_header_field"
  shows "steady E l (st_header_field E l)"
proof -
  obtain l1 where l1: "field_loop E l = Break l1" "http_errno (parser l1) = HPE_OK" "p_state l1 = s_header_field" "opts (parser l1) = opts (parser l)"
     "marks l1 = marks l"
    using field_loop_good [of l E] assms(2,3) by (auto simp: linv_def pinv_def)
  show ?thesis
    using l1(4)
    by (auto simp: st_header_field_def l1(1-3,5) after_def callbacks_pure [OF assms(1)] delivered_def UPDATE_STATE_def keeps_live start_states_def
      intro!: steady_count split: option.split)
qed

lemma steady_value:
  assumes "settings E = pure_settings f"
  shows "\<lbrakk>h \<in> value_states; http_errno (parser l) = HPE_OK; p_state l = s_header_value; keeps E l0 l\<rbrakk>
   \<Longrightarrow> steady E l0 (value_loop E start h l)"
proof (induction "length (buf E) - l_p l" arbitrary: h l rule: less_induct)
  case less
  let ?l1 = "l\<lparr>l_ch := buf E ! l_p l\<rparr>" and ?ch = "buf E ! l_p l"
  have dn: "steady E l0 (value_done E start h l')" if "keeps E l0 l'" "p_state l' \<notin> start_states" for h l'
    using that by (auto simp: value_done_def upd_parser_def keeps_live Let_def intro!: steady_count)
  note k = less.prems(4) [unfolded keeps_live [of l E l0, simplified start_states_def less.prems(3), simplified]]
  consider "\<not> l_p l < length (buf E)" | "l_p l < length (buf E)" "?ch = CR" | "l_p l < length (buf E)" "?ch = LF"
    | "l_p l < length (buf E)" "?ch \<noteq> CR" "?ch \<noteq> LF" by blast
  then show ?case
  proof cases
    case 1
    then show ?thesis using less.prems dn [of l] by (subst value_loop.simps) (simp add: start_states_def)
  next
    case 2
    have "steady E l0 (value_done E start h (delivered f E header_value (l_p l) (with_state h (UPDATE_STATE s_header_almost_done ?l1))))"
      using k by (intro dn keeps_delivered keeps_with_state) (simp_all add: keeps_live keeps_with_state start_states_def)
    then show ?thesis
      using less.prems 2 by (subst value_loop.simps) (simp add: Let_def callbacks_pure [OF assms] with_state_def [symmetric])
  next
    case 3
    have "steady E l0 (Reexecute (delivered f E header_value (l_p l) (with_state h ((UPDATE_STATE s_header_almost_done ?l1)\<lparr>l_nread := n\<rparr>))))"
      if "n \<le> max_header_size E" for n
    proof -
      have "keeps E l0 (delivered f E header_value (l_p l) (with_state h ((UPDATE_STATE s_header_almost_done ?l1)\<lparr>l_nread := n\<rparr>)))"
        using k that by (intro keeps_delivered keeps_with_state) (simp_all add: keeps_live start_states_def)
      then show ?thesis by (simp add: scanning_def keeps_with_state)
    qed
    then show ?thesis
      using less.prems 3
      by (subst value_loop.simps) (auto simp: Let_def callbacks_pure [OF assms] with_state_def [symmetric] intro!: steady_count)
  next
    case 4
    have vs: "case value_switch E h ?l1 of Inl (h', l') \<Rightarrow> h' \<in> value_states \<and> http_errno (parser l') = HPE_OK \<and>
          p_state l' = s_header_value \<and> marks l' = marks ?l1 \<and> l_nread l' = l_nread ?l1 \<and> data (parser l') = data (parser ?l1) \<and>
          opts (parser l') = opts (parser ?l1) | Inr r \<Rightarrow> good 0 r"
        using less.prems by (intro value_switch_good) simp_all
    show ?thesis
    proof (cases "value_switch E h ?l1")
      case (Inl a)
      obtain h' l2 where a: "a = (h', l2)" by fastforce
      have p: "l_p l \<le> l_p l2 \<and> l_p l2 < length (buf E)"
        using value_switch_p [of E h ?l1 h' l2] 4 Inl a by simp
      moreover have "keeps E l0 (l2\<lparr>l_p := l_p l2 + 1\<rparr>)" using k Inl a vs by (simp add: keeps_live start_states_def)
      ultimately have "steady E l0 (value_loop E start h' (l2\<lparr>l_p := l_p l2 + 1\<rparr>))"
        using less.prems 4(1) Inl a vs by (intro less.hyps) (auto intro: diff_less_mono2)
      then show ?thesis using 4 Inl a by (subst value_loop.simps) (simp add: Let_def)
    next
      case (Inr r)
      then have "bad r" using value_switch_ahead [of E ?l1 h 0 "(s_dead, 0)" "data (parser l)" "marks l"] 4 by auto
      then have "steady E l0 r" by (cases r) simp_all
      then show ?thesis using 4 Inr by (subst value_loop.simps) (simp add: Let_def)
    qed
  qed
qed

lemma switch_steady:
  assumes "settings E = pure_settings f" "linv 1 (l_p l) l"
  shows "steady E l (switch E l)"
proof -
  have ok: "http_errno (parser l) = HPE_OK" "pinv 1 (l_nread l) (p_state l) (parser l)" using assms(2) by (simp_all add: linv_def pinv_def)
  note sl = steady_2 [OF assms(1) ok(1)]
  consider "p_state l \<in> url_states" | "p_state l \<in> body_states" | "p_state l = s_header_field" | "p_state l = s_header_value"
    | "p_state l \<in> {s_headers_done, s_headers_almost_done, s_header_value_start, s_header_value_discard_ws}"
    | "p_state l \<notin> url_states \<union> body_states \<union> {s_header_field, s_header_value, s_headers_done, s_headers_almost_done, s_header_value_start, s_header_value_discard_ws}"
    by blast
  then show ?thesis
  proof cases
    case 1
    then show ?thesis using sl(1,2) unfolding url_states_def by (elim insertE emptyE) (simp_all add: switch_def)
  next
    case 2
    then show ?thesis by (rule steady_body [OF assms(1) ok(1)])
  next
    case 3
    then show ?thesis using steady_field [OF assms] by (simp add: switch_def)
  next
    case 4
    then show ?thesis
      using steady_value [OF assms(1), of "header_state (parser l)" l l] ok by (simp add: switch_def st_header_value_def value_states_def pinv_def keeps_def)
  next
    case 5
    then show ?thesis
      using sl(3-5) by (elim insertE emptyE) (simp_all add: switch_def st_header_value_discard_ws_def keeps_def live_def start_states_def UPDATE_STATE_def)
  next
    case 6
    then show ?thesis by (rule steady_1 [OF assms(1) ok(1)])
  qed
qed


lemma keeps_trans:
  assumes "keeps E l l'" "keeps E l' l''" "l_p l' < length (buf E)"
  shows "keeps E l l''"
  using assms by (auto simp: keeps_def)

lemma steady_trans: "keeps E l l' \<Longrightarrow> steady E l' r \<Longrightarrow> l_p l' < length (buf E) \<Longrightarrow> steady E l r"
  by (cases r) (auto intro: keeps_trans, simp add: keeps_def)

lemma reexecute_steady:
  assumes "settings E = pure_settings f"
  shows "\<lbrakk>linv 1 (l_p l) l; l_p l < length (buf E)\<rbrakk> \<Longrightarrow> steady E l (reexecute n E l)"
proof (induction n arbitrary: l)
  case (Suc n)
  note sw = switch_steady [OF assms Suc.prems(1)] switch_good [OF assms Suc.prems] switch_moves [OF Suc.prems(2)]
  show ?case
  proof (cases "switch E l")
    case (Reexecute l')
    then have "steady E l' (reexecute n E l')" using sw by (intro Suc.IH) simp_all
    then have "steady E l (reexecute n E l')" using steady_trans [of E l l'] Reexecute sw by simp
    then show ?thesis using Reexecute by simp
  qed (use sw in simp_all)
qed simp

lemma byte_step_steady:
  assumes "settings E = pure_settings f" "linv 0 (l_p l) l" "l_p l < length (buf E)"
  shows "steady E l (byte_step E l)"
proof -
  let ?in = "l\<lparr>l_ch := buf E ! l_p l\<rparr>" and ?count = "l\<lparr>l_ch := buf E ! l_p l, l_nread := l_nread l + 1\<rparr>"
  have "linv 1 (l_p l) ?count" "\<not> PARSING_HEADER (p_state l) \<Longrightarrow> linv 1 (l_p l) ?in"
    using assms(2) pinv_enter(2) [of 0 "l_nread l" "p_state l" "parser l"] by (auto simp: linv_def pinv_enter(1) PARSING_HEADER_def)
  then have "steady E ?count (reexecute REEXECUTE_MAX E ?count)" "\<not> PARSING_HEADER (p_state l) \<Longrightarrow> steady E ?in (reexecute REEXECUTE_MAX E ?in)"
    using reexecute_steady [OF assms(1), of ?in] reexecute_steady [OF assms(1), of ?count] assms(3) by simp_all
  moreover have "l_nread l + 1 \<le> max_header_size E \<Longrightarrow> keeps E l ?count" "keeps E l ?in" by (simp_all add: keeps_def live_def)
  ultimately show ?thesis
    using steady_trans [of E l ?in] steady_trans [of E l ?count] assms(3)
    by (simp add: byte_step_def COUNT_HEADER_SIZE_def Let_def)
qed

text \<open>The count of the octets of the headers stays below the limit.\<close>

definition counted :: "u32 \<Rightarrow> 'u outcome \<Rightarrow> bool" where
  "counted M out = (\<forall>n pr. out = Return n pr \<and> http_errno pr = HPE_OK \<longrightarrow> nread pr \<le> M)"

lemma exec_loop_counted:
  assumes "settings E = pure_settings f"
  shows "\<lbrakk>linv 0 (l_p l) l; l_p l \<le> length (buf E); l_nread l \<le> max_header_size E\<rbrakk> \<Longrightarrow> counted (max_header_size E) (exec_loop E l)"
proof (induction "length (buf E) - l_p l" arbitrary: l rule: less_induct)
  case less
  show ?case
  proof (cases "l_p l < length (buf E)")
    case True
    note step = byte_step_good [OF assms less.prems(1) True] byte_step_moves [OF True] byte_step_steady [OF assms less.prems(1) True]
    show ?thesis
    proof (cases "byte_step E l")
      case (Break l1)
      then have "counted (max_header_size E) (exec_loop E (l1\<lparr>l_p := l_p l1 + 1\<rparr>))"
        using step True less.prems(3) by (intro less.hyps) (auto simp: linv_def keeps_def)
      then show ?thesis using Break True by (subst exec_loop.simps) simp
    qed (use step True less.prems(3) in \<open>subst exec_loop.simps, force simp: at_error_def RETURN_def counted_def\<close>)+
  next
    case False
    have "marks_ok (p_state l) (l_p l) (marks l)" "http_errno (parser l) = HPE_OK"
      using less.prems(1) by (simp_all add: linv_def pinv_def)
    then show ?thesis
      using False less.prems(3) end_of_data_pure [OF assms _ marks_only] by (subst exec_loop.simps) (simp add: counted_def RETURN_def)
  qed
qed

end
