(* ===== verification/Http_First.thy ===== *)
theory Http_First
  imports Http_Steady
begin

text \<open>
  The first octet of the data of a call, alone and in front of more data: in the states
  that look at one octet it makes the same step; in a body and in the name of a header the
  step on the longer data is the step of the next call, shifted by one.
\<close>

section \<open>Octets looked at one at a time\<close>

lemma headers_done_buf:
  assumes "settings E = pure_settings f" "http_errno (parser l) = HPE_OK" "p_state l = s_headers_done"
  shows "st_headers_done (E\<lparr>buf := b\<rparr>) l = st_headers_done E l"
proof (cases "l_ch l = LF")
  case True
  then show ?thesis
    by (cases "upgrade (parser l) \<and> (p_method (parser l) = HTTP_CONNECT \<or> F_SKIPBODY \<in> flags (parser l) \<or> \<not> hasBody (parser l))")
      (simp_all add: assms st_headers_done_def callbacks_pure [of _ f] local_defs STRICT_CHECK_def new_message_def Let_def)
qed (simp add: st_headers_done_def STRICT_CHECK_def)

lemma finish_header_errno [simp]: "http_errno (finish_header pr) = http_errno pr"
  by (cases "header_state pr") (simp_all add: finish_header_def)

lemma switch_buf:
  assumes "settings E = pure_settings f" "http_errno (parser l) = HPE_OK" "l_p l = 0" "p_state l \<notin> scanning"
  shows "switch (E\<lparr>buf := b\<rparr>) l = switch E l"
proof (cases "p_state l = s_headers_done")
  case True
  then show ?thesis using headers_done_buf [OF assms(1,2)] by (simp add: switch_def)
next
  case False
  then show ?thesis
    using assms(4)
    by (cases "p_state l"; simp only: switch_def state.case)
      (simp_all add: assms(1-3) callbacks_pure [of _ f] headers_complete_pure [of _ f] case_defs st_headers_almost_done_def st_header_value_discard_ws_def
       st_chunk_data_almost_done_def local_defs STRICT_CHECK_def assertion_def set_upgrade_def sub_octets_def scanning_def new_message_def Let_def split: option.split header_states.split)
qed


lemma reexecute_buf:
  assumes "settings E = pure_settings f" "length (buf E) = 1"
  shows "\<lbrakk>linv 1 0 l; l_p l = 0; p_state l \<notin> scanning\<rbrakk> \<Longrightarrow> reexecute n (E\<lparr>buf := b\<rparr>) l = reexecute n E l"
proof (induction n arbitrary: l)
  case (Suc n)
  have l: "linv 1 (l_p l) l" "l_p l < length (buf E)" "http_errno (parser l) = HPE_OK"
    using Suc.prems(1,2) assms(2) by (simp_all add: linv_def pinv_def)
  note sw = switch_steady [OF assms(1) l(1)] switch_good [OF assms(1) l(1,2)] switch_moves [OF l(2)]
    switch_buf [OF assms(1) l(3) Suc.prems(2,3), of b]
  show ?case
  proof (cases "switch E l")
    case (Reexecute l')
    then have "reexecute n (E\<lparr>buf := b\<rparr>) l' = reexecute n E l'" using sw assms(2) by (intro Suc.IH) simp_all
    then show ?thesis using Reexecute sw(4) by simp
  qed (use sw(4) in simp_all)
qed simp


section \<open>From one call to the next\<close>

text \<open>What a call with the one octet \<open>x\<close> returns, and the locals with which the next call starts.\<close>

definition flush :: "(event \<Rightarrow> 'u \<Rightarrow> 'u) \<Rightarrow> u8 \<Rightarrow> 'u exec_locals \<Rightarrow> 'u http_parser" where
  "flush f x l =
     (parser l)\<lparr>nread := l_nread l, state := p_state l,
       data := (let k = kind (p_state l) in if marks l k = None then data (parser l) else f (Data k [x]) (data (parser l)))\<rparr>"

definition entry :: "'u http_parser \<Rightarrow> 'u exec_locals" where
  "entry pr = \<lparr>parser = pr, l_p = 0, l_ch = 0, marks = entry_marks (state pr), p_state = state pr, l_nread = nread pr\<rparr>"

lemma entry_simps [simp]:
  "parser (entry pr) = pr" "l_p (entry pr) = 0" "marks (entry pr) = entry_marks (state pr)" "p_state (entry pr) = state pr"
  "l_nread (entry pr) = nread pr"
  by (simp_all add: entry_def)

lemma flush_simps [simp]:
  "state (flush f x l) = p_state l" "nread (flush f x l) = l_nread l" "http_errno (flush f x l) = http_errno (parser l)"
  "pinv c n s (flush f x l) = pinv c n s (parser l)" "opts (flush f x l) = opts (parser l)" "eqv (flush f x l) (parser l)" "eqv (parser l) (flush f x l)"
  by (simp_all add: flush_def eqv_def pinv_def)

lemma entry_marks_ok: "marks_ok s n (entry_marks s)"
proof -
  have "entry_marks s k = Some i \<Longrightarrow> i = 0" for k i by (cases k) (auto simp: entry_marks_def split: if_splits)
  then show ?thesis by (simp add: marks_ok_def) (simp add: entry_marks_def url_states_def)
qed

lemma entry_linv: "linv c n (entry pr) = pinv c (nread pr) (state pr) pr"
  by (simp add: linv_def entry_marks_ok)

lemma entry_zero: "zero_marks (entry_marks s)"
  using entry_marks_ok [of s 0] by (simp add: marks_ok_def zero_marks_def)

lemma only_ext: "only k m \<Longrightarrow> only k m' \<Longrightarrow> m k = m' k \<Longrightarrow> m = m'"
  by (auto simp: only_cases)

lemma entry_sim:
  assumes "linv c n l" "zero_marks (marks l)" "l_p l = 0"
  shows "sim f x (l\<lparr>l_p := 1\<rparr>) (entry (flush f x l))"
proof -
  let ?k = "kind (p_state l)"
  have ok: "marks_ok (p_state l) n (marks l)" using assms(1) by (simp add: linv_def)
  have on: "only ?k (marks l)" "only ?k (entry_marks (p_state l))" using marks_only [OF ok] marks_only [OF entry_marks_ok] by blast+
  have z: "marks l = (\<lambda>_. None) \<or> marks l = (\<lambda>_. None)(?k := Some 0)"
    using on(1) assms(2) by (auto simp: only_cases zero_marks_def)
  have e: "entry_marks (p_state l) = (\<lambda>_. None) \<or> entry_marks (p_state l) = (\<lambda>_. None)(?k := Some 0)"
    using on(2) entry_zero [of "p_state l"] by (auto simp: only_cases zero_marks_def)
  have b: "(marks l ?k = None) = (entry_marks (p_state l) ?k = None)" if "?k \<noteq> body"
    using ok entry_marks_ok [of "p_state l" n] that by (cases ?k) (simp_all add: marks_ok_def)
  have n: "entry_marks (p_state l) ?k = None" if "?k = body" using that by (simp add: entry_marks_def)
  have "carry f x (marks l) (data (parser l)) (entry_marks (p_state l)) (data (flush f x l)) 0"
    using z
  proof
    assume m: "marks l = (\<lambda>_. None)"
    then have "entry_marks (p_state l) = (\<lambda>_. None)" using e b n by (cases "?k = body") (auto simp: fun_eq_iff)
    then show ?thesis using m by (simp add: flush_def)
  next
    assume m: "marks l = (\<lambda>_. None)(?k := Some 0)"
    then have "data (flush f x l) = f (Data ?k [x]) (data (parser l))" by (simp add: flush_def Let_def)
    moreover have "entry_marks (p_state l) = (\<lambda>_. None)(?k := Some 0) \<or> ?k = body \<and> entry_marks (p_state l) = (\<lambda>_. None)"
      using e b n m by (cases "?k = body") (auto simp: fun_eq_iff)
    ultimately show ?thesis using m by (auto simp: carry_def)
  qed
  then show ?thesis using assms(3) by (simp add: sim_def)
qed


section \<open>A body after its first octet\<close>

lemma read_body_one:
  assumes "l_p l = 0" "content_length (parser l) \<noteq> 0" "marks l = (\<lambda>_. None)"
  shows "read_body (E\<lparr>buf := [x]\<rparr>) l
    = l\<lparr>parser := (parser l)\<lparr>content_length := content_length (parser l) - 1\<rparr>, marks := (\<lambda>_. None)(body := Some 0)\<rparr>"
proof -
  have "0 < unat (content_length (parser l))" using assms(2) by (simp add: unat_gt_0)
  then have "min (unat (content_length (parser l))) 1 = 1" by simp
  then show ?thesis using assms(1,3) by (cases l) (simp add: read_body_def MARK_def upd_parser_def Let_def)
qed

lemma body_entry:
  assumes "p_state l \<in> {s_body_identity, s_chunk_data, s_body_identity_eof}"
  shows "entry_marks (p_state l) = (\<lambda>_. None)" "kind (p_state l) = body"
  using assms by (auto simp: entry_marks_def kind_def url_states_def)

lemma read_body_on:
  assumes "l_p l = 0" "content_length (parser l) \<noteq> 0" "content_length (parser l) \<noteq> 1" "marks l = (\<lambda>_. None)" "buf E \<noteq> []"
    and "p_state l \<in> {s_body_identity, s_chunk_data}"
  shows "read_body (E\<lparr>buf := x # buf E\<rparr>) l =
    (ahead (state (parser l), nread (parser l)) (data (parser l)) ((\<lambda>_. None)(body := Some 0))
      (read_body E (entry (flush f x (read_body (E\<lparr>buf := [x]\<rparr>) l)))))\<lparr>l_ch := l_ch l\<rparr>"
proof -
  let ?c = "content_length (parser l)" and ?n = "length (buf E)"
  have "unat ?c \<noteq> 0" "unat ?c \<noteq> 1" using assms(2,3) word_unat_eq_iff [of ?c 1] by (simp_all add: unat_eq_0)
  then have c: "unat (?c - 1) = unat ?c - 1" "0 < unat ?c - 1" using assms(2) by (simp_all add: unat_minus_one)
  define t where "t = min (unat ?c - Suc 0) ?n"
  have t: "min (unat ?c) (Suc ?n) = Suc t" "0 < t" using c(2) assms(5) by (auto simp: t_def)
  have em: "entry_marks (p_state l) = (\<lambda>_. None)" using body_entry(1) [of l] assms(6) by blast
  obtain t' where t': "t = Suc t'" using t(2) by (cases t) auto
  show ?thesis
    unfolding read_body_one [OF assms(1,2,4)]
    by (rule exec_locals.equality)
      (simp_all add: read_body_def flush_def MARK_def upd_parser_def assms(1,4) em c(1) t(1) t_def [symmetric] t' Let_def)
qed


lemma read_body_last:
  assumes "l_p l = 0" "content_length (parser l) = 1"
  shows "read_body (E\<lparr>buf := x # ys\<rparr>) l = read_body (E\<lparr>buf := [x]\<rparr>) l"
  using assms by (simp add: read_body_def Let_def)

lemma read_body_ch [simp]: "read_body E (l\<lparr>l_ch := c\<rparr>) = (read_body E l)\<lparr>l_ch := c\<rparr>"
  by (simp add: read_body_def upd_parser_def MARK_def Let_def)

definition alike :: "'u outcome \<Rightarrow> 'u outcome \<Rightarrow> bool" where
  "alike o1 o2 \<longleftrightarrow> o1 = o2 \<or> (bad o1 \<and> bad o2)"

lemma alike_simps [simp]:
  "alike r r" "alike (goto_error e l) (goto_error e' l')" "bad o1 \<Longrightarrow> bad o2 \<Longrightarrow> alike o1 o2"
  by (simp_all add: alike_def)

text \<open>The octet \<open>x\<close> in front of more data: it makes the same step as alone, or a step on the data after a call with \<open>x\<close> goes on with it.\<close>

definition goes_on :: "(event \<Rightarrow> 'u \<Rightarrow> 'u) \<Rightarrow> u8 \<Rightarrow> 'u exec_env \<Rightarrow> 'u outcome \<Rightarrow> 'u outcome \<Rightarrow> bool" where
  "goes_on f x E o1 o0 \<longleftrightarrow> (\<exists>la. o0 = Break la \<and> sim_out f x o1 (byte_step E (entry (flush f x la))))"

lemma carry_first [simp]: "carry f x ((\<lambda>_. None)(k := Some 0)) d ((\<lambda>_. None)(k := Some 0)) (f (Data k [x]) d) p"
  by (auto simp: carry_def)

lemma body_eof_on:
  assumes "l_p l = 0" "marks l = (\<lambda>_. None)" "p_state l = s_body_identity_eof" "buf E \<noteq> []"
  shows "goes_on f x E (reexecute REEXECUTE_MAX (E\<lparr>buf := x # buf E\<rparr>) l) (reexecute REEXECUTE_MAX (E\<lparr>buf := [x]\<rparr>) l)"
proof -
  let ?la = "(MARK body l)\<lparr>l_p := 0\<rparr>"
  have p: "\<not> PARSING_HEADER s_body_identity_eof" by (simp add: PARSING_HEADER_def)
  have "data (flush f x ?la) = f (Data body [x]) (data (parser l))"
    using assms body_entry [of l] by (simp add: flush_def MARK_def Let_def)
  moreover have "eqv (parser l) (flush f x ?la)" using flush_simps(7) [of ?la f x] by simp
  ultimately have "sim_out f x (Break ((MARK body l)\<lparr>l_p := length (buf E)\<rparr>))
      (Break ((MARK body ((entry (flush f x ?la))\<lparr>l_ch := buf E ! 0\<rparr>))\<lparr>l_p := length (buf E) - 1\<rparr>))"
    using assms body_entry(1) [of l] by (simp add: sim_def MARK_def)
  then show ?thesis
    unfolding goes_on_def
    by (intro exI [of _ ?la])
      (simp add: REEXECUTE_MAX_def numeral_eq_Suc switch_def st_body_identity_eof_def byte_step_def assms(3) p)
qed

lemma chunk_data_on:
  assumes "l_p l = 0" "marks l = (\<lambda>_. None)" "p_state l = s_chunk_data" "pinv 1 n s_chunk_data (parser l)" "buf E \<noteq> []"
    and "content_length (parser l) \<noteq> 1"
  shows "goes_on f x E (reexecute REEXECUTE_MAX (E\<lparr>buf := x # buf E\<rparr>) l) (reexecute REEXECUTE_MAX (E\<lparr>buf := [x]\<rparr>) l)"
proof -
  let ?la = "read_body (E\<lparr>buf := [x]\<rparr>) l"
  have p: "\<not> PARSING_HEADER s_chunk_data" by (simp add: PARSING_HEADER_def)
  have cl: "content_length (parser l) \<noteq> 0" "content_length (parser l) \<noteq> ULLONG_MAX" "F_CHUNKED \<in> flags (parser l)"
    using assms(4) by (simp_all add: pinv_def)
  note one = read_body_one [OF assms(1) cl(1) assms(2), where E = E and x = x]
  have left: "content_length (parser ?la) \<noteq> 0" "content_length (parser ?la) \<noteq> ULLONG_MAX"
    using assms(6) one by simp (rule read_body_left(2) [OF cl(2)])
  have fl: "data (flush f x ?la) = f (Data body [x]) (data (parser l))" "content_length (flush f x ?la) = content_length (parser ?la)"
     "flags (flush f x ?la) = flags (parser l)"
    using assms body_entry [of l] one by (simp_all add: flush_def Let_def)
  let ?l2 = "read_body E (entry (flush f x ?la))"
  have rb: "read_body (E\<lparr>buf := x # buf E\<rparr>) l =
      (ahead (state (parser l), nread (parser l)) (data (parser l)) ((\<lambda>_. None)(body := Some 0)) ?l2)\<lparr>l_ch := l_ch l\<rparr>"
    using read_body_on [OF assms(1) cl(1) assms(6,2,5)] assms(3) by simp
  have "data (parser ?l2) = data (flush f x ?la)" by (simp add: read_body_def upd_parser_def Let_def)
  then have "sim_out f x (switch (E\<lparr>buf := x # buf E\<rparr>) l) (switch E ((entry (flush f x ?la))\<lparr>l_ch := buf E ! 0\<rparr>))"
    using body_entry(1) [of l] assms(3) fl
    by (simp add: switch_def st_chunk_data_def assertion_def is_chunked_def cl left rb Let_def)
      (simp add: sim_def UPDATE_STATE_def MARK_def)
  then show ?thesis
    unfolding goes_on_def using left cl
    by (intro exI [of _ ?la])
     (simp add: REEXECUTE_MAX_def numeral_eq_Suc switch_def st_chunk_data_def byte_step_def assms(3) p assertion_def is_chunked_def fl Let_def)
qed


lemma sim_out_ch: "sim_out f x (Break (l\<lparr>l_ch := c\<rparr>)) r = sim_out f x (Break l) r"
  by (auto simp: sim_out_def sim_def)

lemma message_done_ch:
  assumes "settings E = pure_settings f" "http_errno (parser l) = HPE_OK"
  shows "sim_out f x (st_message_done E (l\<lparr>l_ch := c\<rparr>)) r = sim_out f x (st_message_done E l) r"
proof -
  have "notified f k (new_message (l\<lparr>l_ch := c\<rparr>)) = (notified f k (new_message l))\<lparr>l_ch := c\<rparr>" for k
    by (simp add: local_defs new_message_def)
  moreover have "http_errno (parser (new_message l)) = HPE_OK" "http_errno (parser (new_message (l\<lparr>l_ch := c\<rparr>))) = HPE_OK"
    using assms(2) by (simp_all add: local_defs new_message_def)
  ultimately show ?thesis by (simp add: st_message_done_def callbacks_pure [OF assms(1)] sim_out_ch RETURN_def)
qed

lemma set_ch:
  "(delivered f E k e l)\<lparr>l_ch := c\<rparr> = delivered f E k e (l\<lparr>l_ch := c\<rparr>)" "(UPDATE_STATE s l)\<lparr>l_ch := c\<rparr> = UPDATE_STATE s (l\<lparr>l_ch := c\<rparr>)"
  by (simp_all add: delivered_def UPDATE_STATE_def split: option.split)

lemma reexecute_done:
  assumes "settings E = pure_settings f" "http_errno (parser l) = HPE_OK" "p_state l = s_message_done"
  shows "reexecute (Suc n) E l = st_message_done E l"
proof -
  have "http_errno (parser (new_message l)) = HPE_OK" using assms(2) by (simp add: local_defs new_message_def)
  then show ?thesis by (simp add: switch_def assms(3) st_message_done_def callbacks_pure [OF assms(1)] RETURN_def)
qed

lemma body_identity_on:
  assumes "merges f" "settings E = pure_settings f"
    and "l_p l = 0" "marks l = (\<lambda>_. None)" "p_state l = s_body_identity" "pinv 1 n s_body_identity (parser l)" "buf E \<noteq> []"
    and "content_length (parser l) \<noteq> 1"
  shows "goes_on f x E (reexecute REEXECUTE_MAX (E\<lparr>buf := x # buf E\<rparr>) l) (reexecute REEXECUTE_MAX (E\<lparr>buf := [x]\<rparr>) l)"
proof -
  let ?la = "read_body (E\<lparr>buf := [x]\<rparr>) l" and ?E = "E\<lparr>buf := x # buf E\<rparr>"
  have p: "\<not> PARSING_HEADER s_body_identity" by (simp add: PARSING_HEADER_def)
  have cl: "content_length (parser l) \<noteq> 0" "content_length (parser l) \<noteq> ULLONG_MAX" and ok: "http_errno (parser l) = HPE_OK"
    using assms(6) by (simp_all add: pinv_def)
  note one = read_body_one [OF assms(3) cl(1) assms(4), where E = E and x = x]
  have left: "content_length (parser ?la) \<noteq> 0" "content_length (parser ?la) \<noteq> ULLONG_MAX"
    using assms(8) one by simp (rule read_body_left(2) [OF cl(2)])
  have fl: "data (flush f x ?la) = f (Data body [x]) (data (parser l))" "content_length (flush f x ?la) = content_length (parser ?la)"
    using assms body_entry [of l] one by (simp_all add: flush_def Let_def)
  let ?l2 = "read_body E ((entry (flush f x ?la))\<lparr>l_ch := buf E ! 0\<rparr>)" and ?m = "(\<lambda>_. None)(body := Some 0)"
  let ?s = "(state (parser l), nread (parser l))" and ?d = "data (parser l)"
  have rb: "read_body ?E l = (ahead ?s ?d ?m ?l2)\<lparr>l_ch := l_ch l\<rparr>"
    using read_body_on [OF assms(3) cl(1) assms(8,4,7)] assms(5) by simp
  have l2: "data (parser ?l2) = f (Data body [x]) ?d" "marks ?l2 = ?m" "http_errno (parser ?l2) = HPE_OK"
    using body_entry(1) [of l] assms(5) fl ok by (simp add: read_body_def upd_parser_def Let_def, simp_all add: MARK_def)
  let ?d1 = "delivered f ?E body (Suc (l_p ?l2 + 1)) (ahead ?s ?d ?m (UPDATE_STATE s_message_done ?l2))"
  let ?d2 = "delivered f E body (l_p ?l2 + 1) (UPDATE_STATE s_message_done ?l2)"
  have del: "sim f x ?d1 ?d2" "l_ch ?d1 = l_ch ?d2" "marks ?d1 = (\<lambda>_. None)" "marks ?d2 = (\<lambda>_. None)"
    using delivered_sim_out(2) [OF assms(1), of x ?m ?d "UPDATE_STATE s_message_done ?l2" body "l_p ?l2 + 1" E ?s]
      delivered_sim(1,2) [OF assms(1), of x ?m ?d "UPDATE_STATE s_message_done ?l2" body "l_p ?l2 + 1"] l2
    by (simp_all add: only_def del: read_body_ch)
  have ok2: "http_errno (parser ?d2) = HPE_OK" "http_errno (parser ?d1) = HPE_OK"
    using l2(3) by (simp_all add: delivered_def split: option.split del: read_body_ch)
  have "sim_out f x (st_message_done ?E ?d1) (st_message_done E ?d2)"
    using unmarked_sim_4 [OF assms(2) ok2(1) del(4), of x "(state (parser ?d1), nread (parser ?d1))"] sim_ahead [OF del(1,2)] del
    by (simp add: switch_def sim_def del: read_body_ch)
  then have md: "sim_out f x (st_message_done ?E (?d1\<lparr>l_ch := l_ch l\<rparr>)) (st_message_done E ?d2)"
    using message_done_ch [of ?E f ?d1 x "l_ch l"] assms(2) ok2 by simp
  have sw0: "reexecute REEXECUTE_MAX (E\<lparr>buf := [x]\<rparr>) l = Break ?la"
    using left cl by (simp add: REEXECUTE_MAX_def numeral_eq_Suc switch_def assms(5) st_body_identity_def assertion_def Let_def)
  have sw1: "switch ?E l = (if content_length (parser ?l2) = 0 then Reexecute (?d1\<lparr>l_ch := l_ch l\<rparr>) else Break (read_body ?E l))"
    using cl l2 assms(2)
    by (simp add: switch_def assms(5) st_body_identity_def assertion_def callbacks_pure [of _ f] set_ch Let_def rb del: read_body_ch)
  have sw2: "switch E ((entry (flush f x ?la))\<lparr>l_ch := buf E ! 0\<rparr>) = (if content_length (parser ?l2) = 0 then Reexecute ?d2 else Break ?l2)"
    using left l2 fl assms(2) by (simp add: switch_def assms(5) st_body_identity_def assertion_def callbacks_pure [of _ f] Let_def del: read_body_ch)
  have "sim_out f x (reexecute REEXECUTE_MAX ?E l) (reexecute REEXECUTE_MAX E ((entry (flush f x ?la))\<lparr>l_ch := buf E ! 0\<rparr>))"
  proof (cases "content_length (parser ?l2) = 0")
    case True
    then show ?thesis
      using sw1 sw2 md ok2 assms(2) 
      by (simp add: REEXECUTE_MAX_def eval_nat_numeral del: reexecute.simps read_body_ch)
       (simp add: reexecute.simps(2) [of "Suc (Suc (Suc (Suc 0)))"] reexecute_done [of _ f] del: reexecute.simps read_body_ch)
  next
    case False
    then show ?thesis
      using sw1 sw2 rb l2 by (simp add: REEXECUTE_MAX_def numeral_eq_Suc sim_out_ch sim_def del: read_body_ch)
  qed
  then show ?thesis
    unfolding goes_on_def using sw0 by (intro exI [of _ ?la]) (simp add: byte_step_def assms(5) p)
qed


section \<open>The name of a header after its first octet\<close>

definition tokens_end :: "octets \<Rightarrow> nat \<Rightarrow> nat" where
  "tokens_end b p = p + length (takeWhile (\<lambda>c. TOKEN c \<noteq> 0) (drop p b))"

lemma tokens_end_step: "p < length b \<Longrightarrow> tokens_end b p = (if TOKEN (b ! p) \<noteq> 0 then tokens_end b (Suc p) else p)"
  by (simp add: tokens_end_def Cons_nth_drop_Suc [symmetric])

lemma tokens_end_le: "p \<le> length b \<Longrightarrow> p \<le> tokens_end b p \<and> tokens_end b p \<le> length b"
  using length_takeWhile_le [of "\<lambda>c. TOKEN c \<noteq> 0" "drop p b"] by (simp add: tokens_end_def)

lemma tokens_end_Cons: "TOKEN x \<noteq> 0 \<Longrightarrow> tokens_end (x # b) 0 = Suc (tokens_end b 0)"
  by (simp add: tokens_end_def)

lemma tokens_end_skip: "pe \<le> length b \<Longrightarrow> tokens_end b (Suc (skip_tokens b pe p)) = tokens_end b (Suc p)"
proof (induction b pe p rule: skip_tokens.induct)
  case (1 b pe p)
  then show ?case by (subst skip_tokens.simps) (auto simp: tokens_end_step [of "Suc p"])
qed

lemma field_loop_general:
  "\<lbrakk>header_state (parser l) = h_general; l_p l \<le> length (buf E)\<rbrakk> \<Longrightarrow>
   \<exists>c. field_loop E l = Break (l\<lparr>l_p := tokens_end (buf E) (l_p l), l_ch := c\<rparr>) \<and>
     (tokens_end (buf E) (l_p l) < length (buf E) \<longrightarrow> c = buf E ! tokens_end (buf E) (l_p l))"
proof (induction "length (buf E) - l_p l" arbitrary: l rule: less_induct)
  case less
  let ?e = "tokens_end (buf E)"
  consider "l_p l = length (buf E)" | "l_p l < length (buf E)" "TOKEN (buf E ! l_p l) = 0" | "l_p l < length (buf E)" "TOKEN (buf E ! l_p l) \<noteq> 0"
    using less.prems(2) by fastforce
  then show ?case
  proof cases
    case 1
    then show ?thesis using less.prems tokens_end_le [of "l_p l" "buf E"] by (subst field_loop.simps) (auto intro!: exI [of _ "l_ch l"])
  next
    case 2
    then show ?thesis using tokens_end_step [OF 2(1)] by (subst field_loop.simps) (simp add: Let_def)
  next
    case 3
    let ?q = "skip_tokens (buf E) (window_end E (l_p l)) (l_p l)"
    let ?l = "l\<lparr>l_ch := buf E ! l_p l, l_p := Suc ?q\<rparr>"
    have q: "l_p l \<le> ?q" "?q < length (buf E)" "?e (Suc ?q) = ?e (l_p l)"
      using 3 skip_tokens_le skip_tokens_less [OF 3(1)] window_end_le [of "l_p l" E] tokens_end_skip [of "window_end E (l_p l)" "buf E" "l_p l"]
        tokens_end_step [OF 3(1)] by simp_all
    have "length (buf E) - l_p ?l < length (buf E) - l_p l" using q(1) 3(1) by (simp add: diff_less_mono2)
    then obtain c where "field_loop E ?l = Break (?l\<lparr>l_p := ?e (l_p l), l_ch := c\<rparr>)"
        "?e (l_p l) < length (buf E) \<longrightarrow> c = buf E ! ?e (l_p l)"
      using less.hyps [of ?l] less.prems(1) q by auto
    then show ?thesis
      using 3 less.prems by (subst field_loop.simps) (auto simp: Let_def field_switch_def)
  qed
qed

text \<open>The lines after the loop.\<close>

definition field_done :: "'u exec_env \<Rightarrow> nat \<Rightarrow> 'u exec_locals \<Rightarrow> 'u outcome" where
  "field_done E start l1 =
     (if l_p l1 = length (buf E)
      then COUNT_HEADER_SIZE E (l_p l1 - 1 - start) (l1\<lparr>l_p := l_p l1 - 1\<rparr>) Break
      else COUNT_HEADER_SIZE E (l_p l1 - start) l1 (\<lambda>l2.
             if l_ch l2 = oct CHR '':''
             then CALLBACK_DATA E header_field (UPDATE_STATE s_header_value_discard_ws l2) Break
             else goto_error HPE_INVALID_HEADER_TOKEN l2))"

lemma header_field_after: "field_loop E l = Break l1 \<Longrightarrow> st_header_field E l = field_done E (l_p l) l1"
  by (simp add: st_header_field_def after_def field_done_def)

lemma count_overflow:
  assumes "unat (max_header_size E) < unat (l_nread l) + v" "unat (l_nread l) + v < 2 ^ 32"
  shows "bad (COUNT_HEADER_SIZE E v l rest)"
proof -
  have "unat (of_nat v :: u32) = v" using assms(2) by (simp add: unsigned_of_nat take_bit_nat_eq_self)
  then have "unat (l_nread l + of_nat v) = unat (l_nread l) + v" using assms(2) by (simp add: unat_word_ariths)
  then show ?thesis using assms(1) by (simp add: COUNT_HEADER_SIZE_def word_less_nat_alt Let_def)
qed


lemma field_done_sim:
  assumes "merges f" "settings E = pure_settings f" "http_errno (parser l) = HPE_OK" "buf E \<noteq> []" "l_p l \<le> length (buf E)"
    and "\<And>p'. carry f x m d (marks l) (data (parser l)) p'" "only header_field m" "only header_field (marks l)" "marks l header_field \<noteq> None"
    and "l_nread l = n + 1" "l_p l < length (buf E) \<longrightarrow> c = l_ch l"
  shows "sim_out f x (field_done (E\<lparr>buf := x # buf E\<rparr>) 0 ((ahead s d m l)\<lparr>l_ch := c, l_nread := n\<rparr>)) (field_done E 0 l)"
proof (cases "l_p l = length (buf E)")
  case True
  obtain q where q: "length (buf E) = Suc q" using assms(4) by (cases "buf E") auto
  have "n + of_nat (Suc q) = n + 1 + of_nat q" by simp
  moreover have "sim f x ((ahead s d m l)\<lparr>l_ch := c, l_nread := k, l_p := Suc (Suc q)\<rparr>) (l\<lparr>l_nread := k, l_p := Suc q\<rparr>)" for k
    using assms(6) [of "Suc q"] by (simp add: sim_def)
  ultimately show ?thesis using q True assms(10) by (simp add: field_done_def COUNT_HEADER_SIZE_def Let_def add.assoc)
next
  case False
  then have c: "c = l_ch l" using assms(5,11) by simp
  have sum: "n + of_nat (Suc (l_p l)) = n + 1 + of_nat (l_p l)" by simp
  have "sim_out f x (CALLBACK_DATA (E\<lparr>buf := x # buf E\<rparr>) header_field (UPDATE_STATE s' (ahead s d m (l\<lparr>l_nread := k\<rparr>))) Break)
      (CALLBACK_DATA E header_field (UPDATE_STATE s' (l\<lparr>l_nread := k\<rparr>)) Break)" for k s'
    using delivered_sim_out(1) [OF assms(1), of x m d "UPDATE_STATE s' (l\<lparr>l_nread := k\<rparr>)" header_field "l_p l" E s] assms(2,3,6-9)
    by (simp add: callbacks_pure [of _ f])
  then show ?thesis using False assms(10) sum by (simp add: field_done_def COUNT_HEADER_SIZE_def c Let_def add.assoc)
qed


lemma field_switch_nread:
  assumes "field_switch E c l = Break l'"
  shows "field_switch E c (l\<lparr>l_nread := b\<rparr>) = Break (l'\<lparr>l_nread := b\<rparr>)"
  using assms
  by (cases l; cases "header_state (parser l)") (auto simp: field_switch_def upd_parser_def)

lemma field_loop_upd:
  "field_loop E l = Break l' \<Longrightarrow>
   \<exists>c. field_loop E (l\<lparr>l_ch := a, l_nread := b\<rparr>) = Break (l'\<lparr>l_ch := c, l_nread := b\<rparr>) \<and> (l_p l' < length (buf E) \<longrightarrow> c = l_ch l')"
proof (induction "length (buf E) - l_p l" arbitrary: l a rule: less_induct)
  case less
  let ?l1 = "l\<lparr>l_ch := buf E ! l_p l\<rparr>" and ?c = "TOKEN (buf E ! l_p l)"
  show ?case
  proof (cases "l_p l < length (buf E) \<and> ?c \<noteq> 0")
    case True
    then obtain l2 where l2: "field_switch E ?c ?l1 = Break l2" "field_loop E (l2\<lparr>l_p := l_p l2 + 1\<rparr>) = Break l'"
      using less.prems by (subst (asm) field_loop.simps) (simp add: Let_def split: outcome.splits)
    have "length (buf E) - l_p (l2\<lparr>l_p := l_p l2 + 1\<rparr>) < length (buf E) - l_p l"
      using field_switch_p [OF l2(1)] True by (auto intro: diff_less_mono2)
    note IH = less.hyps [OF this l2(2), of "l_ch l2"]
    have com: "l\<lparr>l_nread := b, l_ch := k\<rparr> = l\<lparr>l_ch := k, l_nread := b\<rparr>" "l2\<lparr>l_nread := b, l_p := n\<rparr> = l2\<lparr>l_p := n, l_nread := b\<rparr>" for k n
      by simp_all
    then show ?thesis using True IH field_switch_nread [OF l2(1), of b] by (subst field_loop.simps) (simp add: Let_def com)
  next
    case False
    then show ?thesis using less.prems by (subst field_loop.simps, subst (asm) field_loop.simps) (auto simp: Let_def split: if_splits)
  qed
qed

lemma ahead_eqv:
  assumes "eqv (parser l1) (parser l2)" "p_state l1 = p_state l2" "l_p l1 = Suc (l_p l2)"
  shows "l1 = (ahead (state (parser l1), nread (parser l1)) (data (parser l1)) (marks l1) l2)\<lparr>l_ch := l_ch l1, l_nread := l_nread l1\<rparr>"
  using assms by (cases l1; cases l2) (auto simp: ahead_def eqv_eq)

lemma eqv_trans: "eqv p q \<Longrightarrow> eqv q r \<Longrightarrow> eqv p r"
  by (simp add: eqv_def)

lemma field_loop_first:
  assumes "l_p l = 0" "header_state (parser l) \<in> field_states" "TOKEN x \<noteq> 0" 
  shows "\<exists>la. field_loop (E\<lparr>buf := [x]\<rparr>) l = Break (la\<lparr>l_p := 1\<rparr>) \<and> l_p la = 0 \<and> marks la = marks l \<and> l_nread la = l_nread l \<and>
     header_state (parser la) \<in> field_states \<and> data (parser la) = data (parser l) \<and> p_state la = p_state l \<and> http_errno (parser la) = http_errno (parser l) \<and>
    (\<forall>l2 l2'. eqv (parser la) (parser l2) \<and> p_state la = p_state l2 \<and> l_p l2 = 0 \<and> field_loop E l2 = Break l2' \<longrightarrow>
      (\<exists>s c. field_loop (E\<lparr>buf := x # buf E\<rparr>) l = Break ((ahead s (data (parser l)) (marks l) l2')\<lparr>l_ch := c, l_nread := l_nread l\<rparr>) \<and>
        (l_p l2' < length (buf E) \<longrightarrow> c = l_ch l2')))"
proof (cases "header_state (parser l) = h_general")
  case True
  let ?E = "E\<lparr>buf := x # buf E\<rparr>"
  have e: "tokens_end [x] 0 = 1" "tokens_end (x # buf E) 0 = Suc (tokens_end (buf E) 0)" using assms(3) by (simp_all add: tokens_end_def)
  obtain c0 where c0: "field_loop (E\<lparr>buf := [x]\<rparr>) l = Break (l\<lparr>l_p := 1, l_ch := c0\<rparr>)"
    using field_loop_general [OF True, of "E\<lparr>buf := [x]\<rparr>"] assms(1) e by auto
  obtain c1 where c1: "field_loop ?E l = Break (l\<lparr>l_p := Suc (tokens_end (buf E) 0), l_ch := c1\<rparr>)"
      "tokens_end (buf E) 0 < length (buf E) \<longrightarrow> c1 = buf E ! tokens_end (buf E) 0"
    using field_loop_general [OF True, of ?E] assms(1) e by auto
  have "\<exists>s c. field_loop ?E l = Break ((ahead s (data (parser l)) (marks l) l2')\<lparr>l_ch := c, l_nread := l_nread l\<rparr>) \<and> (l_p l2' < length (buf E) \<longrightarrow> c = l_ch l2')"
    if l2: "eqv (parser l) (parser l2)" "p_state l = p_state l2" "l_p l2 = 0" "field_loop E l2 = Break l2'" for l2 l2'
  proof -
    have "header_state (parser l2) = h_general" using l2(1) True by (simp add: eqv_def)
    then obtain c2 where c2: "l2' = l2\<lparr>l_p := tokens_end (buf E) 0, l_ch := c2\<rparr>"
        "tokens_end (buf E) 0 < length (buf E) \<longrightarrow> c2 = buf E ! tokens_end (buf E) 0"
      using field_loop_general [of l2 E] l2(3,4) by auto
    let ?l = "l\<lparr>l_p := Suc (tokens_end (buf E) 0), l_ch := c1\<rparr>"
    have "?l = (ahead (state (parser l), nread (parser l)) (data (parser l)) (marks l) l2')\<lparr>l_ch := c1, l_nread := l_nread l\<rparr>"
      using ahead_eqv [of ?l l2'] l2 c2(1) by simp
    then have "field_loop ?E l = Break ((ahead (state (parser l), nread (parser l)) (data (parser l)) (marks l) l2')\<lparr>l_ch := c1, l_nread := l_nread l\<rparr>)"
      using c1(1) by simp
    moreover have "l_p l2' < length (buf E) \<longrightarrow> c1 = l_ch l2'" using c1(2) c2 by simp
    ultimately show ?thesis by blast
  qed
  then show ?thesis using c0 True assms(1) by (intro exI [of _ "l\<lparr>l_ch := c0\<rparr>"]) (simp add: field_states_def, blast)
next
  case False
  let ?E = "E\<lparr>buf := x # buf E\<rparr>" and ?l1 = "l\<lparr>l_ch := x\<rparr>"
  obtain la where la: "field_switch (E\<lparr>buf := [x]\<rparr>) (TOKEN x) ?l1 = Break la" "header_state (parser la) \<in> field_states"
      "http_errno (parser la) = http_errno (parser l)" "p_state la = p_state l" "marks la = marks l" "l_nread la = l_nread l" "data (parser la) = data (parser l)"
    using field_switch_good [of ?l1 "E\<lparr>buf := [x]\<rparr>" "TOKEN x"] assms(2) by auto
  have p: "l_p la = 0" using field_switch_p [OF la(1)] assms(1) by simp
  have sw: "field_switch ?E (TOKEN x) ?l1 = Break la"
    using la(1) False by (cases "header_state (parser l)") (simp_all add: field_switch_def)
  have "field_loop (E\<lparr>buf := [x]\<rparr>) l = Break (la\<lparr>l_p := 1\<rparr>)"
    using la(1) assms(1,3) p by (subst field_loop.simps) (simp add: Let_def, subst field_loop.simps, simp)
  moreover have "\<exists>s c. field_loop ?E l = Break ((ahead s (data (parser l)) (marks l) l2')\<lparr>l_ch := c, l_nread := l_nread l\<rparr>) \<and> (l_p l2' < length (buf E) \<longrightarrow> c = l_ch l2')"
    if l2: "eqv (parser la) (parser l2)" "p_state la = p_state l2" "l_p l2 = 0" "field_loop E l2 = Break l2'" for l2 l2'
  proof -
    let ?s = "(state (parser la), nread (parser la))" and ?l2 = "l2\<lparr>l_ch := l_ch la, l_nread := l_nread la\<rparr>"
    obtain c where c: "field_loop E ?l2 = Break (l2'\<lparr>l_ch := c, l_nread := l_nread l\<rparr>)" "l_p l2' < length (buf E) \<longrightarrow> c = l_ch l2'"
      using field_loop_upd [OF l2(4), where a = "l_ch la" and b = "l_nread la"] la(6) by auto
    have "la\<lparr>l_p := 1\<rparr> = ahead ?s (data (parser l)) (marks l) ?l2"
      using ahead_eqv [of "la\<lparr>l_p := 1\<rparr>" l2] l2 la by simp
    then have "field_loop ?E (la\<lparr>l_p := 1\<rparr>) = Break (ahead ?s (data (parser l)) (marks l) (l2'\<lparr>l_ch := c, l_nread := l_nread l\<rparr>))"
      using field_loop_ahead [OF c(1)] by simp
    then have "field_loop ?E l = Break ((ahead ?s (data (parser l)) (marks l) l2')\<lparr>l_ch := c, l_nread := l_nread l\<rparr>)"
      using sw assms(1,3) p by (subst field_loop.simps) (simp add: Let_def)
    then show ?thesis using c(2) by blast
  qed
  ultimately show ?thesis using la p by blast
qed


lemma field_done_steps:
  "\<lbrakk>settings E = pure_settings f; http_errno (parser l) = HPE_OK\<rbrakk> \<Longrightarrow>
   (case field_done E k l of Reexecute l1 \<Rightarrow> r l1 | Break l1 \<Rightarrow> Break l1 | Error l1 \<Rightarrow> Error l1 | Return n pr \<Rightarrow> Return n pr
      | Assertion_failed \<Rightarrow> Assertion_failed | Out_of_bounds \<Rightarrow> Out_of_bounds | Endless \<Rightarrow> Endless) = field_done E k l"
  by (simp add: field_done_def COUNT_HEADER_SIZE_def callbacks_pure [of _ f] goto_error_def Let_def)

lemma header_field_on:
  assumes "merges f" "settings E = pure_settings f" "linv 1 0 l" "p_state l = s_header_field" "l_p l = 0" "zero_marks (marks l)"
    and "buf E \<noteq> []" "TOKEN x \<noteq> 0" "l_nread l \<le> max_header_size E" "unat (max_header_size E) + Suc (length (buf E)) < 2 ^ 32"
  shows "goes_on f x E (reexecute REEXECUTE_MAX (E\<lparr>buf := x # buf E\<rparr>) l) (reexecute REEXECUTE_MAX (E\<lparr>buf := [x]\<rparr>) l)"
proof -
  let ?E = "E\<lparr>buf := x # buf E\<rparr>" and ?M = "max_header_size E"
  have ok: "http_errno (parser l) = HPE_OK" "header_state (parser l) \<in> field_states" using assms(3,4) by (simp_all add: linv_def pinv_def)
  obtain i where i: "i \<le> 0" "marks l = (\<lambda>_. None)(header_field := Some i)"
    using one_mark(1) [of s_header_field 0 "marks l"] assms(3,4) by (auto simp: linv_def)
  obtain la where la: "field_loop (E\<lparr>buf := [x]\<rparr>) l = Break (la\<lparr>l_p := 1\<rparr>)" "l_p la = 0" "marks la = marks l" "l_nread la = l_nread l"
      "header_state (parser la) \<in> field_states" "data (parser la) = data (parser l)" "p_state la = s_header_field" "http_errno (parser la) = HPE_OK"
      "\<And>l2 l2'. \<lbrakk>eqv (parser la) (parser l2); p_state la = p_state l2; l_p l2 = 0; field_loop E l2 = Break l2'\<rbrakk> \<Longrightarrow>
        \<exists>s c. field_loop ?E l = Break ((ahead s (data (parser l)) (marks l) l2')\<lparr>l_ch := c, l_nread := l_nread l\<rparr>) \<and>
        (l_p l2' < length (buf E) \<longrightarrow> c = l_ch l2')"
    using field_loop_first [OF assms(5) ok(2) assms(8), of E] ok(1) assms(4) by metis
  let ?l2 = "(entry (flush f x la))\<lparr>l_ch := buf E ! 0, l_nread := l_nread l + 1\<rparr>"
  have en: "entry_marks s_header_field = (\<lambda>_. None)(header_field := Some 0)" "kind s_header_field = header_field"
    by (auto simp: entry_marks_def kind_def)
  have fl: "data (flush f x la) = f (Data header_field [x]) (data (parser l))" "header_state (flush f x la) \<in> field_states"
    using la(3,5-7) i en by (simp_all add: flush_def Let_def)
  obtain l2' where l2': "field_loop E ?l2 = Break l2'" "http_errno (parser l2') = HPE_OK" "p_state l2' = s_header_field"
      "marks l2' = (\<lambda>_. None)(header_field := Some 0)" "l_nread l2' = l_nread l + 1" "data (parser l2') = f (Data header_field [x]) (data (parser l))"
    using field_loop_good [of ?l2 E] fl la(7,8) en by auto
  obtain s c where sc: "field_loop ?E l = Break ((ahead s (data (parser l)) (marks l) l2')\<lparr>l_ch := c, l_nread := l_nread l\<rparr>)"
      "l_p l2' < length (buf E) \<longrightarrow> c = l_ch l2'"
    using la(9) [OF _ _ _ l2'(1)] la(7) by auto
  have p: "l_p l2' \<le> length (buf E)" using field_loop_moves [of ?l2 E] l2'(1) by simp
  have d: "sim_out f x (field_done ?E 0 ((ahead s (data (parser l)) (marks l) l2')\<lparr>l_ch := c, l_nread := l_nread l\<rparr>)) (field_done E 0 l2')"
    using assms(1,2,7) l2' p i sc(2) by (intro field_done_sim) (simp_all add: only_def)
  have first: "reexecute REEXECUTE_MAX (E\<lparr>buf := [x]\<rparr>) l = Break la"
  proof -
    have "la\<lparr>l_p := 0\<rparr> = la" "\<not> ?M < l_nread l" "la\<lparr>l_nread := l_nread l\<rparr> = la" using la(2,4) assms(9) by (cases la, simp)+
    then show ?thesis
      using la(4) assms(5) header_field_after [OF la(1)]
      by (simp add: REEXECUTE_MAX_def numeral_eq_Suc switch_def assms(4) field_done_def COUNT_HEADER_SIZE_def Let_def)
  qed
  have sw: "reexecute REEXECUTE_MAX ?E l = field_done ?E 0 ((ahead s (data (parser l)) (marks l) l2')\<lparr>l_ch := c, l_nread := l_nread l\<rparr>)"
    "reexecute REEXECUTE_MAX E ?l2 = field_done E 0 l2'"
    using header_field_after [OF sc(1)] header_field_after [OF l2'(1)] assms(2,4,5) la(7) l2'(2)
    by (simp_all add: REEXECUTE_MAX_def numeral_eq_Suc switch_def field_done_steps [of _ f])
  have "sim_out f x (reexecute REEXECUTE_MAX ?E l) (byte_step E (entry (flush f x la)))"
  proof (cases "?M < l_nread l + 1")
    case True
    have "unat (l_nread l) + Suc (length (buf E)) < 2 ^ 32" using assms(9,10) by (simp add: word_le_nat_alt)
    then have "bad (COUNT_HEADER_SIZE ?E v l' rest)" if "0 < v" "v \<le> Suc (length (buf E))" "l_nread l' = l_nread l" for v l' rest
      using True that unat_word_ariths(1) [of "l_nread l" 1] by (intro count_overflow) (simp_all add: word_less_nat_alt)
    then have "bad (reexecute REEXECUTE_MAX ?E l)" using assms(7) p by (simp add: sw(1) field_done_def)
    then show ?thesis
      using True la(4,7) by (simp add: sim_out_def byte_step_def PARSING_HEADER_def COUNT_HEADER_SIZE_def Let_def)
  next
    case False
    then show ?thesis using d sw la(4,7) by (simp add: byte_step_def PARSING_HEADER_def COUNT_HEADER_SIZE_def Let_def)
  qed
  then show ?thesis using first by (auto simp: goes_on_def)
qed

end
