(* ===== verification/Http_Value.thy ===== *)
theory Http_Value
  imports Http_First
begin

text \<open>
  The same for the value of a header, whose loop keeps its state in a local, counts its
  octets when it ends and skips over values of no interest in windows of the size of the
  limit. Then the first octet in every state.
\<close>

section \<open>The value of a header after its first octet\<close>

lemma value_loop_doomed:
  assumes "settings E = pure_settings f"
  shows "\<lbrakk>h \<in> value_states; http_errno (parser l) = HPE_OK; p_state l = s_header_value; l_p l \<le> length (buf E); start \<le> r; r < length (buf E);
     \<forall>i. l_p l \<le> i \<and> i < r \<longrightarrow> buf E ! i \<noteq> CR \<and> buf E ! i \<noteq> LF;
     unat (max_header_size E) < unat (l_nread l) + (r - start); unat (l_nread l) + length (buf E) < 2 ^ 32\<rbrakk>
   \<Longrightarrow> bad (value_loop E start h l)"
proof (induction "length (buf E) - l_p l" arbitrary: h l rule: less_induct)
  case less
  let ?l1 = "l\<lparr>l_ch := buf E ! l_p l\<rparr>" and ?ch = "buf E ! l_p l"
  have ov: "bad (COUNT_HEADER_SIZE E (q - start) l' rest)" if "r \<le> q" "q \<le> length (buf E)" "l_nread l' = l_nread l" for q l' rest
    using less.prems(8,9) that by (intro count_overflow) simp_all
  have dn: "bad (value_done E start h l')" if "r \<le> l_p l'" "l_p l' \<le> length (buf E)" "l_nread l' = l_nread l" for l'
    using ov [of "length (buf E) - Suc 0"] ov [of "l_p l'"] that less.prems(6) by (simp add: value_done_def upd_parser_def Let_def)
  consider "l_p l = length (buf E)" | "l_p l < length (buf E)" "?ch = CR" | "l_p l < length (buf E)" "?ch = LF"
    | "l_p l < length (buf E)" "?ch \<noteq> CR" "?ch \<noteq> LF" using less.prems(4) by linarith
  then show ?case
  proof cases
    case 1
    then show ?thesis using less.prems(6) dn by (subst value_loop.simps) simp
  next
    case 2
    then have "r \<le> l_p l" using less.prems(7) by (meson le_refl linorder_not_le)
    then show ?thesis
      using less.prems(2) 2 dn
      by (subst value_loop.simps) (simp add: Let_def callbacks_pure [OF assms] with_state_def [symmetric] keeps_with_state)
  next
    case 3
    then have "r \<le> l_p l" using less.prems(7) by (meson le_refl linorder_not_le)
    then show ?thesis using ov 3 by (subst value_loop.simps) (simp add: Let_def)
  next
    case 4
    have vs: "case value_switch E h ?l1 of Inl (h', l') \<Rightarrow> h' \<in> value_states \<and> http_errno (parser l') = HPE_OK \<and>
          p_state l' = s_header_value \<and> marks l' = marks ?l1 \<and> l_nread l' = l_nread ?l1 \<and> data (parser l') = data (parser ?l1) \<and>
          opts (parser l') = opts (parser ?l1) | Inr r \<Rightarrow> good 0 r"
      using less.prems by (intro value_switch_good) simp_all
    show ?thesis
    proof (cases "value_switch E h ?l1")
      case (Inl a)
      obtain h' l2 where a: "a = (h', l2)" by fastforce
      have p: "l_p l \<le> l_p l2 \<and> l_p l2 < length (buf E)"
        using value_switch_p [of E h ?l1 h' l2] 4 Inl a by simp
      then have "bad (value_loop E start h' (l2\<lparr>l_p := l_p l2 + 1\<rparr>))"
        using less.prems 4(1) Inl a vs by (intro less.hyps) (auto intro: diff_less_mono2)
      then show ?thesis using 4 Inl a by (subst value_loop.simps) (simp add: Let_def)
    next
      case (Inr b)
      then have "bad b" using value_switch_ahead [of E ?l1 h 0 "(s_dead, 0)" "data (parser l)" "marks l"] 4 by auto
      then show ?thesis using 4 Inr by (subst value_loop.simps) (simp add: Let_def)
    qed
  qed
qed

text \<open>The end of the window does not matter when the value ends before it.\<close>

lemma value_general_window:
  "\<lbrakk>l_p l \<le> q; q < pe; q < pe'; buf E ! q = CR \<or> buf E ! q = LF\<rbrakk> \<Longrightarrow> value_general E pe l = value_general E pe' l"
proof (induction "q - l_p l" arbitrary: l rule: less_induct)
  case less
  show ?case
  proof (cases "l_p l = q")
    case True
    then show ?thesis using less.prems by (subst (1 2) value_general.simps) (auto simp: Let_def)
  next
    case False
    then have "value_general E pe (l\<lparr>l_ch := buf E ! l_p l, l_p := l_p l + 1\<rparr>) = value_general E pe' (l\<lparr>l_ch := buf E ! l_p l, l_p := l_p l + 1\<rparr>)"
      using less.prems by (intro less.hyps) auto
    then show ?thesis using less.prems False by (subst (1 2) value_general.simps) (simp add: Let_def)
  qed
qed

lemma value_general_ch: "l_p l < pe \<Longrightarrow> value_general E pe (l\<lparr>l_ch := c\<rparr>) = value_general E pe l"
  by (subst (1 2) value_general.simps) simp

lemma value_loop_ch: "l_p l < length (buf E) \<Longrightarrow> value_loop E start h (l\<lparr>l_ch := c\<rparr>) = value_loop E start h l"
  by (subst (1 2) value_loop.simps) simp


lemma value_general_first:
  assumes "settings E = pure_settings f" "http_errno (parser l) = HPE_OK" "p_state l = s_header_value" "l_p l = 0" "2 \<le> length (buf E)"
    and "buf E ! 0 \<noteq> CR" "buf E ! 0 \<noteq> LF" "lenient E \<or> IS_HEADER_CHAR (buf E ! 0)"
    and "0 < unat (l_nread l)" "l_nread l \<le> max_header_size E" "unat (max_header_size E) + length (buf E) < 2 ^ 32"
  shows "alike (value_loop E 0 h_general l) (value_loop E 0 h_general (l\<lparr>l_ch := buf E ! 0, l_p := 1\<rparr>))"
proof -
  let ?M = "unat (max_header_size E)" and ?l = "l\<lparr>l_ch := buf E ! 0, l_p := 1\<rparr>" and ?ch = "buf E ! 1"
  have n: "unat (l_nread l) \<le> ?M" using assms(10) by (simp add: word_le_nat_alt)
  show ?thesis
  proof (cases "?M < length (buf E) \<and> (\<forall>i < ?M. buf E ! i \<noteq> CR \<and> buf E ! i \<noteq> LF)")
    case True
    then have "bad (value_loop E 0 h_general l)" "bad (value_loop E 0 h_general ?l)"
      using assms n by (auto simp: value_states_def intro!: value_loop_doomed [where r = ?M])
    then show ?thesis by simp
  next
    case False
    let ?w0 = "window_end E 0" and ?w1 = "window_end E 1" and ?q = "buf E ! 1"
    let ?l1 = "l\<lparr>l_ch := buf E ! 0, l_p := 1\<rparr>"
    have w: "?w0 = min (length (buf E)) ?M" "?w1 = 1 + min (length (buf E) - 1) ?M" by (simp_all add: window_end_def)
    obtain q where q: "?w0 = length (buf E) \<and> ?w1 = length (buf E) \<or> 1 \<le> q \<and> q < ?w0 \<and> q < ?w1 \<and> (buf E ! q = CR \<or> buf E ! q = LF)"
    proof (cases "?M < length (buf E)")
      case True
      then obtain i where i: "i < ?M" "buf E ! i = CR \<or> buf E ! i = LF" using False by blast
      then have "i \<noteq> 0" using assms(6,7) by metis
      then show ?thesis using that [of i] i True w by auto
    next
      case False
      then show ?thesis using that [of 0] w assms(5) by auto
    qed
    then have one: "1 < ?w0" "1 < ?w1" using assms(5) by auto
    have vg: "value_general E ?w0 ?l1 = value_general E ?w1 ?l1"
      using q value_general_window [of ?l1 q ?w0 ?w1 E] by auto
    have com: "l\<lparr>l_p := Suc 0, l_ch := c\<rparr> = l\<lparr>l_ch := c, l_p := Suc 0\<rparr>" for c by simp
    have g0: "value_general E ?w0 (l\<lparr>l_ch := buf E ! 0\<rparr>) = value_general E ?w0 ?l1"
      using one assms(4,6-8) by (subst value_general.simps) (auto simp: Let_def)
    have left: "value_loop E 0 h_general l =
        (case value_general E ?w0 ?l1 of
           Break l1 \<Rightarrow> value_loop E 0 h_general (if l_p l1 = length (buf E) then l1\<lparr>l_p := l_p l1 - 1 + 1\<rparr> else l1\<lparr>l_p := l_p l1 + 1\<rparr>)
         | r \<Rightarrow> r)"
      using assms(4-8) g0 by (subst value_loop.simps) (auto simp: Let_def value_switch_def split: outcome.split)
    consider "?ch = CR \<or> ?ch = LF" | "?ch \<noteq> CR" "?ch \<noteq> LF" "\<not> lenient E \<and> \<not> IS_HEADER_CHAR ?ch"
      | "?ch \<noteq> CR" "?ch \<noteq> LF" "lenient E \<or> IS_HEADER_CHAR ?ch" by blast
    then show ?thesis
    proof cases
      case 1
      then have "value_general E ?w0 ?l1 = Break (l\<lparr>l_ch := ?ch, l_p := 0\<rparr>)"
        using one by (subst value_general.simps) (auto simp: Let_def)
      then have "value_loop E 0 h_general l = value_loop E 0 h_general ?l1"
        using left assms(5) value_loop_ch [of ?l1 E 0 h_general ?ch] by (auto simp: com split: if_splits)
      then show ?thesis by simp
    next
      case 2
      then have "\<exists>l'. value_general E ?w0 ?l1 = goto_error HPE_INVALID_HEADER_TOKEN l'"
        using one by (subst value_general.simps) (simp add: Let_def, blast)
      then have "bad (value_loop E 0 h_general l)" using left by (auto simp: goto_error_def)
      moreover have "bad (value_loop E 0 h_general ?l1)" using 2 assms(5) by (subst value_loop.simps) (simp add: Let_def)
      ultimately show ?thesis by simp
    next
      case 3
      then have "value_loop E 0 h_general ?l1 =
          (case value_general E ?w1 ?l1 of
             Break l1 \<Rightarrow> value_loop E 0 h_general (if l_p l1 = length (buf E) then l1\<lparr>l_p := l_p l1 - 1 + 1\<rparr> else l1\<lparr>l_p := l_p l1 + 1\<rparr>)
           | r \<Rightarrow> r)"
        using assms(5) value_general_ch [of ?l1 ?w1 E ?ch] one by (subst value_loop.simps) (auto simp: com Let_def value_switch_def split: outcome.split)
      then show ?thesis using left vg by simp
    qed
  qed
qed


text \<open>An octet counted when the call starts instead of at the end of the value.\<close>

definition advanced :: "header_states \<Rightarrow> 'u exec_locals \<Rightarrow> 'u exec_locals" where
  "advanced h l = l\<lparr>parser := (parser l)\<lparr>header_state := h\<rparr>, l_nread := l_nread l + 1\<rparr>"

lemma advanced_simps [simp]:
  "l_p (advanced h l) = l_p l" "l_ch (advanced h l) = l_ch l" "p_state (advanced h l) = p_state l" "marks (advanced h l) = marks l"
  "l_nread (advanced h l) = l_nread l + 1" "http_errno (parser (advanced h l)) = http_errno (parser l)" "data (parser (advanced h l)) = data (parser l)"
  "(advanced h l)\<lparr>l_ch := c\<rparr> = advanced h (l\<lparr>l_ch := c\<rparr>)" "(advanced h l)\<lparr>l_p := q\<rparr> = advanced h (l\<lparr>l_p := q\<rparr>)"
  "UPDATE_STATE s (advanced h l) = advanced h (UPDATE_STATE s l)"
  by (simp_all add: advanced_def UPDATE_STATE_def)

lemma value_general_advanced:
  "(\<exists>l'. value_general E pe l = Break l' \<and> value_general E pe (advanced h l) = Break (advanced h l')) \<or>
   (\<exists>a b. value_general E pe l = Error a \<and> value_general E pe (advanced h l) = Error b)"
proof (induction "pe - l_p l" arbitrary: l rule: less_induct)
  case less
  show ?case
  proof (cases "l_p l < pe")
    case True
    show ?thesis
      using less.hyps [of "l\<lparr>l_ch := buf E ! l_p l, l_p := l_p l + 1\<rparr>"] True
      by (subst (1 2 3 4) value_general.simps) (auto simp: Let_def goto_error_def)
  qed (subst (1 2) value_general.simps, simp)
qed

lemma value_switch_advanced:
  "(\<exists>h' l'. value_switch E h l = Inl (h', l') \<and> value_switch E h (advanced h2 l) = Inl (h', advanced h2 l')) \<or>
   (\<exists>a b. value_switch E h l = Inr a \<and> value_switch E h (advanced h2 l) = Inr b \<and> bad a \<and> bad b)"
proof (cases "h = h_general")
  case True
  then show ?thesis using value_general_advanced [of E "window_end E (l_p l)" l h2] by (auto simp: value_switch_def)
next
  case False
  then show ?thesis
    by (cases h) (auto simp: value_switch_def length_digit_def match_value_def upd_parser_def inc_index_def advanced_def UPDATE_STATE_def Let_def)
qed

lemma count_advanced:
  assumes "start < q" "l_nread l2 = l_nread l1 + 1" "\<And>n. alike (rest1 (l1\<lparr>l_nread := n\<rparr>)) (rest2 (l2\<lparr>l_nread := n\<rparr>))"
  shows "alike (COUNT_HEADER_SIZE E (q - start) l1 rest1) (COUNT_HEADER_SIZE E (q - Suc start) l2 rest2)"
proof -
  have "q - start = Suc (q - Suc start)" using assms(1) by simp
  then have "l_nread l1 + of_nat (q - start) = l_nread l2 + of_nat (q - Suc start)" using assms(2) by simp
  then show ?thesis using assms(3) by (simp add: COUNT_HEADER_SIZE_def Let_def)
qed

lemma advanced_state: "with_state h (advanced h2 l) = (with_state h l)\<lparr>l_nread := l_nread l + 1\<rparr>"
  by (simp add: with_state_def advanced_def upd_parser_def)

lemma set_nread:
  "with_state h (l\<lparr>l_nread := n\<rparr>) = (with_state h l)\<lparr>l_nread := n\<rparr>" "delivered f E k e (l\<lparr>l_nread := n\<rparr>) = (delivered f E k e l)\<lparr>l_nread := n\<rparr>"
  by (simp_all add: with_state_def upd_parser_def delivered_def split: option.split)

lemma value_done_advanced:
  assumes "start < l_p l" "Suc start < length (buf E)" "with_state h l2 = (with_state h l)\<lparr>l_nread := l_nread l + 1\<rparr>"
  shows "alike (value_done E start h l) (value_done E (Suc start) h l2)"
proof -
  have "(with_state h l)\<lparr>l_nread := n, l_p := q, l_nread := n'\<rparr> = (with_state h l)\<lparr>l_p := q, l_nread := n'\<rparr>" for n q n' by simp
  then show ?thesis
    using assms(1,2) unfolding value_done_def with_state_def [symmetric] assms(3)
    by (auto simp: keeps_with_state Let_def intro!: count_advanced)
qed

lemma value_loop_advanced:
  assumes "settings E = pure_settings f" "Suc start < length (buf E)"
  shows "\<lbrakk>http_errno (parser l) = HPE_OK; h \<in> value_states; p_state l = s_header_value; start < l_p l; l_p l \<le> length (buf E)\<rbrakk> \<Longrightarrow>
    alike (value_loop E start h l) (value_loop E (Suc start) h (advanced h2 l))"
proof (induction "length (buf E) - l_p l" arbitrary: h l rule: less_induct)
  case less
  let ?l1 = "l\<lparr>l_ch := buf E ! l_p l\<rparr>" and ?ch = "buf E ! l_p l"
  let ?l2 = "UPDATE_STATE s_header_almost_done ?l1"
  consider "l_p l = length (buf E)" | "l_p l < length (buf E)" "?ch = CR" | "l_p l < length (buf E)" "?ch = LF"
    | "l_p l < length (buf E)" "?ch \<noteq> CR" "?ch \<noteq> LF" using less.prems(5) by linarith
  then show ?case
  proof cases
    case 1
    then show ?thesis
      using value_done_advanced [OF less.prems(4) assms(2) advanced_state] by (subst (1 2) value_loop.simps) simp
  next
    case 2
    have "alike (value_done E start h (delivered f E header_value (l_p l) (with_state h ?l2)))
        (value_done E (Suc start) h (delivered f E header_value (l_p l) (with_state h (advanced h2 ?l2))))"
      using less.prems(4) assms(2) by (intro value_done_advanced) (simp_all add: advanced_state set_nread keeps_with_state)
    then show ?thesis
      using less.prems(1) 2
      by (subst (1 2) value_loop.simps) (simp add: Let_def callbacks_pure [OF assms(1)] with_state_def [symmetric])
  next
    case 3
    have ws: "with_state h ((advanced h2 l')\<lparr>l_nread := n\<rparr>) = with_state h (l'\<lparr>l_nread := n\<rparr>)" for l' n
      by (simp add: set_nread advanced_state)
    then show ?thesis
      using less.prems(4) 3
      by (subst (1 2) value_loop.simps) (auto simp: Let_def with_state_def [symmetric] ws intro!: count_advanced)
  next
    case 4
    show ?thesis
    proof (cases "\<not> lenient E \<and> \<not> IS_HEADER_CHAR ?ch")
      case True
      then show ?thesis using 4 by (subst (1 2) value_loop.simps) (simp add: Let_def)
    next
      case False
      have ok: "case value_switch E h ?l1 of Inl (h', l') \<Rightarrow> h' \<in> value_states \<and> http_errno (parser l') = HPE_OK \<and>
          p_state l' = s_header_value \<and> marks l' = marks ?l1 \<and> l_nread l' = l_nread ?l1 \<and> data (parser l') = data (parser ?l1) \<and>
          opts (parser l') = opts (parser ?l1) | Inr r \<Rightarrow> good 2 r"
        using less.prems by (intro value_switch_good) simp_all
      consider (step) h' l' where "value_switch E h ?l1 = Inl (h', l')" "value_switch E h (advanced h2 ?l1) = Inl (h', advanced h2 l')"
        | (stop) a b where "value_switch E h ?l1 = Inr a" "value_switch E h (advanced h2 ?l1) = Inr b" "bad a" "bad b"
        using value_switch_advanced [of E h ?l1 h2] by auto
      then show ?thesis
      proof cases
        case step
        have p: "l_p l \<le> l_p l' \<and> l_p l' < length (buf E)" using value_switch_p [OF step(1)] 4 by simp
        have "alike (value_loop E start h' (l'\<lparr>l_p := l_p l' + 1\<rparr>)) (value_loop E (Suc start) h' (advanced h2 (l'\<lparr>l_p := l_p l' + 1\<rparr>)))"
          using less.prems 4(1) p ok step(1) by (intro less.hyps) (auto intro: diff_less_mono2)
        then show ?thesis using step False 4 by (subst (1 2) value_loop.simps) (auto simp: Let_def)
      next
        case stop
        then show ?thesis using False 4 by (subst (1 2) value_loop.simps) (simp add: Let_def)
      qed
    qed
  qed
qed


lemma reexecute_from:
  assumes "merges f" "settings E = pure_settings f" "sim_out f x (switch (E\<lparr>buf := x # buf E\<rparr>) l1) (switch E l2)"
    and "good r1 (switch (E\<lparr>buf := x # buf E\<rparr>) l1)" "good r2 (switch E l2)" "moves E q (switch E l2)"
  shows "sim_out f x (reexecute (Suc n) (E\<lparr>buf := x # buf E\<rparr>) l1) (reexecute (Suc n) E l2)"
proof (cases "switch E l2")
  case (Reexecute l2')
  then obtain l1' where l1': "switch (E\<lparr>buf := x # buf E\<rparr>) l1 = Reexecute l1'" "sim f x l1' l2'" "l_ch l1' = l_ch l2'"
    using assms(3) by (auto simp: sim_out_def)
  have "sim_out f x (reexecute n (E\<lparr>buf := x # buf E\<rparr>) l1') (reexecute n E l2')"
    using assms(4-6) Reexecute l1' by (intro reexecute_sim [OF assms(1,2)]) simp_all
  then show ?thesis using Reexecute l1'(1) by simp
qed (use assms(3) in \<open>auto simp: sim_out_def split: outcome.splits\<close>)

lemma alike_sim: "alike o1 o1' \<Longrightarrow> sim_out f x o1' o2 \<Longrightarrow> sim_out f x o1 o2"
  by (auto simp: alike_def sim_out_def)

lemma alike_trans: "alike o1 o2 \<Longrightarrow> alike o2 o3 \<Longrightarrow> alike o1 o3"
  by (auto simp: alike_def)

lemma bad_sim: "bad o1 \<Longrightarrow> bad o2 \<Longrightarrow> sim_out f x o1 o2"
  by (simp add: sim_out_def)

lemma value_switch_single:
  assumes "h \<noteq> h_general"
  shows "value_switch (E\<lparr>buf := b\<rparr>) h l = value_switch (E\<lparr>buf := b'\<rparr>) h l"
  using assms by (cases h) (simp_all add: value_switch_def)

lemma value_switch_one:
  assumes "l_p l = 0" "l_ch l = x" "x \<noteq> CR" "x \<noteq> LF" "lenient E \<or> IS_HEADER_CHAR x" "0 < max_header_size E"
  shows "value_switch (E\<lparr>buf := [x]\<rparr>) h_general l = Inl (h_general, l)"
proof -
  have "0 < unat (max_header_size E)" using assms(6) by (simp add: word_less_nat_alt)
  then have "window_end (E\<lparr>buf := [x]\<rparr>) 0 = 1" by (simp add: window_end_def)
  moreover have "value_general (E\<lparr>buf := [x]\<rparr>) 1 l = Break (l\<lparr>l_p := 1\<rparr>)"
    using assms(1-5) by (subst value_general.simps) (auto simp: Let_def, (subst value_general.simps, cases l, auto)+)
  moreover have "l\<lparr>l_p := 0\<rparr> = l" using assms(1) by (cases l) simp
  ultimately show ?thesis using assms(1) by (simp add: value_switch_def)
qed

text \<open>The rest of the value, from the octet after the first one on.\<close>

lemma value_rest_on:
  fixes x :: u8
  assumes "merges f" "settings E = pure_settings f" "buf E \<noteq> []"
    and "http_errno (parser l) = HPE_OK" "p_state l = s_header_value" "l_p l = 0" "marks l = (\<lambda>_. None)(header_value := Some 0)" "h \<in> value_states"
  defines "la \<equiv> with_state h l"
  defines "l2 \<equiv> (entry (flush f x la))\<lparr>l_ch := buf E ! 0, l_nread := l_nread l + 1\<rparr>"
  shows "sim_out f x (value_loop (E\<lparr>buf := x # buf E\<rparr>) 0 h (l\<lparr>l_p := 1\<rparr>)) (value_loop E 0 h l2)"
proof -
  let ?E = "E\<lparr>buf := x # buf E\<rparr>" and ?l = "advanced h (l\<lparr>l_p := 1\<rparr>)" and ?m = "(\<lambda>_. None)(header_value := Some 0)"
  let ?d = "data (parser l)"
  have la: "p_state la = s_header_value" "marks la = ?m" "data (parser la) = ?d" "l_nread la = l_nread l"
    by (simp_all add: la_def keeps_with_state assms(5,7))
  have en: "entry_marks s_header_value = ?m" "kind s_header_value = header_value" by (auto simp: entry_marks_def kind_def)
  have l2: "parser l2 = flush f x la" "marks l2 = ?m" "p_state l2 = s_header_value" "l_p l2 = 0"
    by (simp_all add: l2_def la en)
  have fl: "data (flush f x la) = f (Data header_value [x]) ?d" using la en by (simp add: flush_def Let_def)
  have "eqv (parser ?l) (parser l2)"
    using flush_simps(7) [of la f x] by (simp add: l2(1) advanced_def la_def with_state_def upd_parser_def)
  moreover have "l2\<lparr>l_ch := c, l_nread := l_nread l + 1\<rparr> = l2\<lparr>l_ch := c\<rparr>" for c by (simp add: l2_def)
  ultimately obtain s where eq: "?l = (ahead s ?d ?m l2)\<lparr>l_ch := l_ch l\<rparr>"
    using ahead_eqv [of ?l l2] assms(5,7) l2 by simp
  have "sim_out f x (value_loop ?E (Suc 0) h (ahead s ?d ?m l2)) (value_loop E 0 h l2)"
    using assms(1-4,8) l2 fl by (intro value_loop_sim) (simp_all add: only_def la_def)
  then have "sim_out f x (value_loop ?E (Suc 0) h ?l) (value_loop E 0 h l2)"
    using value_loop_ch [of "ahead s ?d ?m l2" ?E "Suc 0" h "l_ch l"] assms(3) l2(4) unfolding eq by simp
  moreover have "alike (value_loop ?E 0 h (l\<lparr>l_p := 1\<rparr>)) (value_loop ?E (Suc 0) h ?l)"
    using assms(2-5,8) by (intro value_loop_advanced) simp_all
  ultimately show ?thesis using alike_sim by blast
qed


lemma value_first:
  assumes "settings E = pure_settings f" "buf E \<noteq> []" "http_errno (parser l) = HPE_OK" "p_state l = s_header_value" "l_p l = 0"
    and "h \<in> value_states" "x \<noteq> CR" "x \<noteq> LF" "0 < unat (l_nread l)" "l_nread l \<le> max_header_size E"
    and "unat (max_header_size E) + Suc (length (buf E)) < 2 ^ 32"
  shows "bad (value_loop (E\<lparr>buf := x # buf E\<rparr>) 0 h l) \<and> bad (value_loop (E\<lparr>buf := [x]\<rparr>) 0 h l) \<or>
    (\<exists>h' l'. h' \<in> value_states \<and> http_errno (parser l') = HPE_OK \<and> p_state l' = s_header_value \<and> l_p l' = 0 \<and> marks l' = marks l \<and>
       l_nread l' = l_nread l \<and> value_loop (E\<lparr>buf := [x]\<rparr>) 0 h l = Break (with_state h' l') \<and>
       alike (value_loop (E\<lparr>buf := x # buf E\<rparr>) 0 h l) (value_loop (E\<lparr>buf := x # buf E\<rparr>) 0 h' (l'\<lparr>l_p := 1\<rparr>)))"
proof (cases "lenient E \<or> IS_HEADER_CHAR x")
  case True
  let ?E = "E\<lparr>buf := x # buf E\<rparr>" and ?One = "E\<lparr>buf := [x]\<rparr>" and ?l = "l\<lparr>l_ch := x\<rparr>"
  have M: "0 < max_header_size E" "\<not> max_header_size E < l_nread l"
    using assms(9,10) by (auto simp: word_le_nat_alt word_less_nat_alt)
  have step: "value_loop (E\<lparr>buf := x # ys\<rparr>) 0 h l =
      (case value_switch (E\<lparr>buf := x # ys\<rparr>) h ?l of Inl (h', l2) \<Rightarrow> value_loop (E\<lparr>buf := x # ys\<rparr>) 0 h' (l2\<lparr>l_p := l_p l2 + 1\<rparr>) | Inr r \<Rightarrow> r)" for ys
    using assms(5,7,8) True by (subst value_loop.simps) (auto simp: Let_def)
  have ok: "case value_switch ?One h ?l of Inl (h', l') \<Rightarrow> h' \<in> value_states \<and> http_errno (parser l') = HPE_OK \<and>
      p_state l' = s_header_value \<and> marks l' = marks ?l \<and> l_nread l' = l_nread ?l \<and> data (parser l') = data (parser ?l) \<and>
      opts (parser l') = opts (parser ?l) | Inr r \<Rightarrow> good 2 r"
    using assms(3,4,6) by (intro value_switch_good) simp_all
  show ?thesis
  proof (cases "value_switch ?One h ?l")
    case (Inl a)
    obtain h' l' where a: "a = (h', l')" by fastforce
    have p: "l_p l' = 0" using value_switch_p [of ?One h ?l h' l'] Inl a assms(5,7,8) by simp
    have "with_state h' (l'\<lparr>l_p := Suc 0\<rparr>)\<lparr>l_p := 0, l_nread := l_nread l\<rparr> = with_state h' l'"
      using ok Inl a p by (cases l') (simp add: with_state_def upd_parser_def)
    then have "value_loop ?One 0 h l = Break (with_state h' l')"
      using step [of "[]"] Inl a ok p M(2)
      by (simp add: value_loop.simps [of ?One 0 h' "l'\<lparr>l_p := Suc 0\<rparr>"] value_done_def with_state_def [symmetric] COUNT_HEADER_SIZE_def keeps_with_state Let_def)
    moreover have "alike (value_loop ?E 0 h l) (value_loop ?E 0 h' (l'\<lparr>l_p := 1\<rparr>))"
    proof (cases "h = h_general")
      case True
      then have "h' = h_general \<and> l' = ?l" using value_switch_one [of ?l x E] Inl a assms(5,7,8) M(1) \<open>lenient E \<or> IS_HEADER_CHAR x\<close> by simp
      moreover have "2 \<le> length (buf ?E)" using assms(2) by (simp add: numeral_eq_Suc Suc_le_eq)
      ultimately show ?thesis
        using value_general_first [of ?E f l] assms \<open>lenient E \<or> IS_HEADER_CHAR x\<close> True by simp
    next
      case False
      then show ?thesis using step [of "buf E"] value_switch_single [OF False, where E = E and b = "x # buf E" and b' = "[x]" and l = ?l] Inl a p by simp
    qed
    ultimately show ?thesis using ok Inl a p by auto
  next
    case (Inr r)
    then have "h \<noteq> h_general" using value_switch_one [of ?l x E] assms(5,7,8) M(1) True by auto
    then have "value_switch ?E h ?l = Inr r" using value_switch_single [of h, where E = E and b = "x # buf E" and b' = "[x]" and l = ?l] Inr by simp
    moreover have "bad r"
      using value_switch_ahead [of ?One ?l h 0 "(s_dead, 0)" "data (parser l)" "marks l"] Inr assms(5,7,8) by auto
    ultimately show ?thesis using step [of "buf E"] step [of "[]"] Inr by simp
  qed
next
  case False
  then show ?thesis using assms(5,7,8) by (subst (1 2) value_loop.simps) (simp add: Let_def)
qed


lemma reexecute_bad: "bad (switch E l) \<Longrightarrow> bad (reexecute (Suc n) E l)"
  by (cases "switch E l") simp_all

lemma entry_marks_value: "entry_marks s_header_value = (\<lambda>_. None)(header_value := Some 0)"
  by (auto simp: entry_marks_def)

lemma header_value_on:
  assumes "merges f" "settings E = pure_settings f" "linv 1 0 l" "p_state l = s_header_value" "l_p l = 0" "zero_marks (marks l)"
    and "buf E \<noteq> []" "x \<noteq> CR" "x \<noteq> LF" "0 < unat (l_nread l)" "l_nread l \<le> max_header_size E" "unat (max_header_size E) + Suc (length (buf E)) < 2 ^ 32"
  shows "alike (reexecute REEXECUTE_MAX (E\<lparr>buf := x # buf E\<rparr>) l) (reexecute REEXECUTE_MAX (E\<lparr>buf := [x]\<rparr>) l) \<or>
    goes_on f x E (reexecute REEXECUTE_MAX (E\<lparr>buf := x # buf E\<rparr>) l) (reexecute REEXECUTE_MAX (E\<lparr>buf := [x]\<rparr>) l)"
proof -
  let ?E = "E\<lparr>buf := x # buf E\<rparr>" and ?One = "E\<lparr>buf := [x]\<rparr>" and ?h = "header_state (parser l)" and ?m = "(\<lambda>_. None)(header_value := Some 0)"
  have ok: "http_errno (parser l) = HPE_OK" "?h \<in> value_states" using assms(3,4) by (simp_all add: linv_def pinv_def value_states_def)
  have m: "marks l = ?m" using one_mark(2) [of s_header_value 0 "marks l"] assms(3,4) by (auto simp: linv_def)
  have sw: "switch ?E l = value_loop ?E 0 ?h l" "switch ?One l = value_loop ?One 0 ?h l"
    by (simp_all add: switch_def assms(4,5) st_header_value_def)
  have five: "REEXECUTE_MAX = Suc 4" by (simp add: REEXECUTE_MAX_def)
  consider "bad (value_loop ?E 0 ?h l)" "bad (value_loop ?One 0 ?h l)"
    | h' l' where "h' \<in> value_states" "http_errno (parser l') = HPE_OK" "p_state l' = s_header_value" "l_p l' = 0" "marks l' = ?m"
       "l_nread l' = l_nread l" "value_loop ?One 0 ?h l = Break (with_state h' l')" "alike (value_loop ?E 0 ?h l) (value_loop ?E 0 h' (l'\<lparr>l_p := 1\<rparr>))"
    using value_first [OF assms(2,7) ok(1) assms(4,5) ok(2) assms(8-12)] m by auto
  then show ?thesis
  proof cases
    case 1
    then show ?thesis using sw reexecute_bad [of ?E l 4] reexecute_bad [of ?One l 4] by (simp add: five)
  next
    case (2 h' l')
    let ?la = "with_state h' l'"
    let ?l2 = "(entry (flush f x ?la))\<lparr>l_ch := buf E ! 0, l_nread := l_nread l + 1\<rparr>"
    have st: "p_state ?la = s_header_value" "l_nread ?la = l_nread l" "header_state (flush f x ?la) = h'" "http_errno (flush f x ?la) = HPE_OK"
      using 2(2,3,6) by (simp_all add: keeps_with_state, simp_all add: flush_def with_state_def upd_parser_def)
    have sim: "sim_out f x (value_loop ?E 0 ?h l) (value_loop E 0 h' ?l2)"
      using value_rest_on [OF assms(1,2,7) 2(2-5,1), of x] 2(6,8) by (auto intro: alike_sim)
    have sw2: "switch E ?l2 = value_loop E 0 h' ?l2" using st by (simp add: switch_def st_header_value_def)
    have "sim_out f x (reexecute REEXECUTE_MAX ?E l) (reexecute REEXECUTE_MAX E ?l2)"
      unfolding five
    proof (rule reexecute_from [OF assms(1,2)])
      show "sim_out f x (switch ?E l) (switch E ?l2)" using sim sw sw2 by simp
      show "good 2 (switch ?E l)" "good 2 (switch E ?l2)"
        unfolding sw sw2 using ok 2(1) assms(2,4,5) m st by (auto simp: entry_marks_value intro!: value_loop_good [of _ f])
      show "moves E 0 (switch E ?l2)" unfolding sw2 using assms(7) by (intro value_loop_moves) simp_all
    qed
    moreover have "bad (reexecute REEXECUTE_MAX ?E l)" if "max_header_size E < l_nread l + 1"
    proof -
      have "unat (l_nread l) + Suc (length (buf E)) < 2 ^ 32" using assms(11,12) by (simp add: word_le_nat_alt)
      then have "unat (max_header_size E) < unat (l_nread l) + 1"
        using that unat_word_ariths(1) [of "l_nread l" 1] by (simp add: word_less_nat_alt)
      then have "bad (value_loop ?E 0 ?h l)"
        using assms ok \<open>unat (l_nread l) + Suc (length (buf E)) < 2 ^ 32\<close> by (intro value_loop_doomed [of _ f _ _ 0 1]) simp_all
      then show ?thesis using sw reexecute_bad [of ?E l 4] by (simp add: five)
    qed
    ultimately have "sim_out f x (reexecute REEXECUTE_MAX ?E l) (byte_step E (entry (flush f x ?la)))"
      using st by (simp add: byte_step_def PARSING_HEADER_def COUNT_HEADER_SIZE_def Let_def bad_sim)
    moreover have "reexecute (Suc 4) ?One l = Break ?la" using 2(7) sw by (subst reexecute.simps) simp
    ultimately show ?thesis by (auto simp: goes_on_def five simp del: reexecute.simps)
  qed
qed


section \<open>The first octet\<close>

lemma scanning_same:
  assumes "settings E = pure_settings f" "linv 1 0 l" "l_p l = 0" "p_state l \<in> scanning" "p_state l \<noteq> s_body_identity_eof"
    and "p_state l = s_header_field \<longrightarrow> TOKEN x = 0" "p_state l = s_header_value \<longrightarrow> x = CR \<or> x = LF"
    and "p_state l \<in> {s_body_identity, s_chunk_data} \<longrightarrow> content_length (parser l) = 1"
  shows "switch (E\<lparr>buf := x # ys\<rparr>) l = switch (E\<lparr>buf := [x]\<rparr>) l"
proof -
  have ok: "http_errno (parser l) = HPE_OK" using assms(2) by (simp add: linv_def pinv_def)
  have nil: "delivered f (E\<lparr>buf := b\<rparr>) k 0 l' = delivered f E k 0 l'" for b k l'
    by (simp add: delivered_def sub_octets_def split: option.split)
  consider "p_state l = s_header_field" | "p_state l = s_header_value" | "p_state l = s_body_identity" | "p_state l = s_chunk_data"
    using assms(4,5) by (auto simp: scanning_def)
  then show ?thesis
  proof cases
    case 1
    then have "field_loop (E\<lparr>buf := x # zs\<rparr>) l = Break (l\<lparr>l_ch := x\<rparr>)" for zs
      using assms(3,6) by (subst field_loop.simps) (simp add: Let_def)
    then show ?thesis
      using assms(1,3) ok
      by (simp add: nil switch_def 1 header_field_after field_done_def COUNT_HEADER_SIZE_def callbacks_pure [of _ f] Let_def)
  next
    case 2
    have "value_loop (E\<lparr>buf := x # ys\<rparr>) 0 h l = value_loop (E\<lparr>buf := [x]\<rparr>) 0 h l" for h
      using 2 assms(1,3,7) ok
      by (subst (1 2) value_loop.simps)
        (auto simp: nil COUNT_HEADER_SIZE_def callbacks_pure [of _ f] with_state_def [symmetric] value_done_def keeps_with_state Let_def)
    then show ?thesis by (simp add: switch_def 2 st_header_value_def assms(3))
  next
    case 3
    then have rb: "read_body (E\<lparr>buf := x # ys\<rparr>) l = read_body (E\<lparr>buf := [x]\<rparr>) l" using read_body_last [OF assms(3)] assms(8) by simp
    have p: "l_p (read_body (E\<lparr>buf := [x]\<rparr>) l) = 0" using read_body_p [of l "E\<lparr>buf := [x]\<rparr>"] assms(3,8) 3 by simp
    have "sub_octets (x # ys) m (Suc 0 - m) = sub_octets [x] m (Suc 0 - m)" for m by (cases m) (simp_all add: sub_octets_def)
    then have "delivered f (E\<lparr>buf := x # ys\<rparr>) k (Suc 0) l' = delivered f (E\<lparr>buf := [x]\<rparr>) k (Suc 0) l'" for k l'
      by (simp add: delivered_def split: option.split)
    then show ?thesis
      using assms(1) ok p by (simp add: switch_def 3 st_body_identity_def rb callbacks_pure [of _ f] assertion_def Let_def)
  next
    case 4
    then have "read_body (E\<lparr>buf := x # ys\<rparr>) l = read_body (E\<lparr>buf := [x]\<rparr>) l" using read_body_last [OF assms(3)] assms(8) by simp
    then show ?thesis by (simp add: switch_def 4 st_chunk_data_def)
  qed
qed

lemma reexecute_same:
  assumes "settings E = pure_settings f" "linv 1 0 l" "l_p l = 0" "switch (E\<lparr>buf := x # ys\<rparr>) l = switch (E\<lparr>buf := [x]\<rparr>) l"
  shows "reexecute (Suc n) (E\<lparr>buf := x # ys\<rparr>) l = reexecute (Suc n) (E\<lparr>buf := [x]\<rparr>) l"
proof -
  let ?One = "E\<lparr>buf := [x]\<rparr>"
  have l: "linv 1 (l_p l) l" "l_p l < length (buf ?One)" "settings ?One = pure_settings f" using assms(1-3) by simp_all
  note sw = switch_steady [OF l(3,1)] switch_good [OF l(3,1,2)] switch_moves [OF l(2)]
  show ?thesis
  proof (cases "switch ?One l")
    case (Reexecute l')
    then have "reexecute n (?One\<lparr>buf := x # ys\<rparr>) l' = reexecute n ?One l'" using sw l(3) by (intro reexecute_buf [of _ f]) simp_all
    then show ?thesis using Reexecute assms(4) by simp
  qed (use assms(4) in simp_all)
qed

lemma reexecute_first:
  assumes "merges f" "settings E = pure_settings f" "linv 1 0 l" "l_p l = 0" "zero_marks (marks l)" "buf E \<noteq> []"
    and "PARSING_HEADER (p_state l) \<longrightarrow> 0 < unat (l_nread l) \<and> l_nread l \<le> max_header_size E" "unat (max_header_size E) + Suc (length (buf E)) < 2 ^ 32"
    and "p_state l \<in> body_states \<longrightarrow> marks l = (\<lambda>_. None)"
  shows "alike (reexecute REEXECUTE_MAX (E\<lparr>buf := x # buf E\<rparr>) l) (reexecute REEXECUTE_MAX (E\<lparr>buf := [x]\<rparr>) l) \<or>
    goes_on f x E (reexecute REEXECUTE_MAX (E\<lparr>buf := x # buf E\<rparr>) l) (reexecute REEXECUTE_MAX (E\<lparr>buf := [x]\<rparr>) l)"
proof -
  let ?E = "E\<lparr>buf := x # buf E\<rparr>" and ?One = "E\<lparr>buf := [x]\<rparr>" and ?c = "content_length (parser l)"
  have five: "REEXECUTE_MAX = Suc 4" by (simp add: REEXECUTE_MAX_def)
  have ok: "http_errno (parser l) = HPE_OK" "pinv 1 (l_nread l) (p_state l) (parser l)" using assms(3) by (simp_all add: linv_def pinv_def)
  have same: ?thesis if "switch ?E l = switch ?One l"
    using reexecute_same [OF assms(2-4) that, of 4] by (simp add: five del: reexecute.simps)
  consider "p_state l \<notin> scanning" | "p_state l = s_body_identity_eof"
    | "p_state l = s_header_field" "TOKEN x \<noteq> 0" | "p_state l = s_header_value" "x \<noteq> CR" "x \<noteq> LF"
    | "p_state l = s_body_identity" "?c \<noteq> 1" | "p_state l = s_chunk_data" "?c \<noteq> 1"
    | "p_state l \<in> scanning" "p_state l \<noteq> s_body_identity_eof" "p_state l = s_header_field \<longrightarrow> TOKEN x = 0"
      "p_state l = s_header_value \<longrightarrow> x = CR \<or> x = LF" "p_state l \<in> {s_body_identity, s_chunk_data} \<longrightarrow> ?c = 1"
    by (auto simp: scanning_def)
  then show ?thesis
  proof cases
    case 1
    then show ?thesis using same switch_buf [of E f l] assms(2,4) ok(1) by metis
  next
    case 2
    then show ?thesis using body_eof_on [OF assms(4) _ 2 assms(6)] assms(9) by (simp add: body_states_def)
  next
    case 3
    then show ?thesis using header_field_on [OF assms(1-3) _ assms(4-6)] assms(7,8) by (simp add: PARSING_HEADER_def)
  next
    case 4
    then show ?thesis using header_value_on [OF assms(1-3) _ assms(4-6)] assms(7,8) by (simp add: PARSING_HEADER_def)
  next
    case 5
    then show ?thesis using body_identity_on [OF assms(1,2,4) _ 5(1) _ assms(6) 5(2)] ok(2) assms(9) by (simp add: body_states_def)
  next
    case 6
    then show ?thesis using chunk_data_on [OF assms(4) _ 6(1) _ assms(6) 6(2)] ok(2) assms(9) by (simp add: body_states_def)
  next
    case 7
    then show ?thesis using same scanning_same [OF assms(2-4) 7] by blast
  qed
qed

end
