(* ===== verification/Http_Walk.thy ===== *)
theory Http_Walk
  imports Http_Value
begin

text \<open>
  The parser along a well-formed request, one part after the other: where the loop of
  \<^verbatim>\<open>http_parser_execute\<close> stands (\<open>facing\<close>: the state, the marks, the count of octets and the rest of the
  input), what the structure holds (\<open>part\<close>), and that the loop goes from there to a later place
  (\<open>leads\<close>). This theory covers the request line.
\<close>

section \<open>Places in the input\<close>

abbreviation no_marks_set :: "data_cb \<Rightarrow> nat option" where "no_marks_set \<equiv> \<lambda>_. None"

definition facing :: "'u exec_env \<Rightarrow> 'u exec_locals \<Rightarrow> state \<Rightarrow> (data_cb \<Rightarrow> nat option) \<Rightarrow> nat \<Rightarrow> octets \<Rightarrow> bool" where
  "facing E l s mk k xs \<longleftrightarrow>
     p_state l = s \<and> marks l = mk \<and> l_nread l = of_nat k \<and> l_p l \<le> length (buf E) \<and> drop (l_p l) (buf E) = xs"

definition part :: "'u http_parser \<Rightarrow> http_method \<Rightarrow> nat \<times> nat \<Rightarrow> flag set \<Rightarrow> u64 \<Rightarrow> 'u \<Rightarrow> bool" where
  "part pr m v fl cl d \<longleftrightarrow>
     http_errno pr = HPE_OK \<and> ptype pr = HTTP_REQUEST \<and> \<not> uses_transfer_encoding pr \<and> p_method pr = m \<and>
     (http_major pr, http_minor pr) = v \<and> flags pr = fl \<and> content_length pr = cl \<and> data pr = d"

definition leads :: "'u exec_env \<Rightarrow> 'u exec_locals \<Rightarrow> ('u exec_locals \<Rightarrow> bool) \<Rightarrow> bool" where
  "leads E l P \<longleftrightarrow> (\<exists>l'. exec_loop E l = exec_loop E l' \<and> P l')"

lemma leads_refl: "P l \<Longrightarrow> leads E l P"
  by (auto simp: leads_def)

lemma leads_trans: "leads E l P \<Longrightarrow> (\<And>l'. P l' \<Longrightarrow> leads E l' Q) \<Longrightarrow> leads E l Q"
  by (metis leads_def)

lemma leads_mono: "leads E l P \<Longrightarrow> (\<And>l'. P l' \<Longrightarrow> Q l') \<Longrightarrow> leads E l Q"
  by (auto simp: leads_def)

lemma drop_Cons: "drop p xs = c # ys \<Longrightarrow> p < length xs \<and> xs ! p = c \<and> drop (Suc p) xs = ys"
  by (metis Cons_nth_drop_Suc drop_eq_Nil linorder_not_less list.distinct(1) list.inject)

lemma of_nat_fits: "k \<le> unat (M :: u32) \<Longrightarrow> of_nat k \<le> M"
  by (simp add: word_le_nat_alt unsigned_of_nat) (metis le_trans take_bit_nat_less_eq_self)

lemma step_once:
  assumes "facing E l s mk k (c # xs)" "PARSING_HEADER s" "k < unat (max_header_size E)"
    and "reexecute REEXECUTE_MAX E (l\<lparr>l_ch := c, l_nread := of_nat (Suc k)\<rparr>) = Break l2" "P (l2\<lparr>l_p := Suc (l_p l2)\<rparr>)"
  shows "leads E l P"
proof -
  have p: "l_p l < length (buf E)" "buf E ! l_p l = c" "p_state l = s" "l_nread l = of_nat k"
    using assms(1) drop_Cons [of "l_p l" "buf E" c xs] by (auto simp: facing_def)
  have "\<not> max_header_size E < 1 + of_nat k" using of_nat_fits [of "Suc k" "max_header_size E"] assms(3) by (simp add: not_less)
  then have "byte_step E l = Break l2"
    using assms(2,4) p by (simp add: byte_step_def COUNT_HEADER_SIZE_def Let_def add.commute)
  then have "exec_loop E l = exec_loop E (l2\<lparr>l_p := Suc (l_p l2)\<rparr>)" using p by (subst exec_loop.simps) simp
  then show ?thesis using assms(5) by (auto simp: leads_def)
qed

lemma reexecute_break: "switch E l = Break l2 \<Longrightarrow> reexecute REEXECUTE_MAX E l = Break l2"
  by (simp add: REEXECUTE_MAX_def numeral_eq_Suc)

lemma reexecute_again: "switch E l = Reexecute l1 \<Longrightarrow> switch E l1 = Break l2 \<Longrightarrow> reexecute REEXECUTE_MAX E l = Break l2"
  by (simp add: REEXECUTE_MAX_def numeral_eq_Suc)

lemma facing_step:
  "\<lbrakk>facing E l s mk k (c # xs); l_p l' = Suc (l_p l); p_state l' = s'; marks l' = mk'; l_nread l' = of_nat (Suc k)\<rbrakk>
   \<Longrightarrow> facing E l' s' mk' (Suc k) xs"
  using drop_Cons [of "l_p l" "buf E" c xs] by (auto simp: facing_def)

lemma step_plain:
  assumes "facing E l s mk k (c # xs)" "PARSING_HEADER s" "k < unat (max_header_size E)"
    and "switch E (l\<lparr>l_ch := c, l_nread := of_nat (Suc k)\<rparr>) = Break l2" "l_p l2 = l_p l" "p_state l2 = s'" "marks l2 = mk'"
      "l_nread l2 = of_nat (Suc k)" "Q (parser l2)"
  shows "leads E l (\<lambda>l'. facing E l' s' mk' (Suc k) xs \<and> Q (parser l'))"
  using assms by (intro step_once [OF assms(1-3) reexecute_break [OF assms(4)]]) (auto intro!: facing_step [OF assms(1)])

section \<open>The method\<close>

fun spell :: "octets \<Rightarrow> http_method \<Rightarrow> nat \<Rightarrow> http_method option" where
  "spell [] m i = Some m"
| "spell (c # cs) m i =
     (if c = 0 \<or> i > length (http_method_str m) \<or> c = oct CHR '' '' then None
      else if c = c_at (http_method_str m) i then spell cs m (Suc i)
      else if (oct CHR ''A'' \<le> c \<and> c \<le> oct CHR ''Z'') \<or> c = oct CHR ''-''
      then (case method_switch m i c of Some m' \<Rightarrow> spell cs m' (Suc i) | None \<Rightarrow> None)
      else None)"

definition spelled :: "http_method \<Rightarrow> bool" where
  "spelled m = (case first_method (hd (http_method_str m)) of None \<Rightarrow> False | Some m0 \<Rightarrow> spell (tl (http_method_str m)) m0 1 = Some m)"

lemma method_spelled: "spelled m"
  by (cases m; (hypsubst, code_simp))

lemma method_letters:
  "\<lbrakk>facing E l s_req_method no_marks_set k (cs @ xs); part (parser l) m v fl cl d; index (parser l) = i; spell cs m i = Some m';
    i + length cs < 32; k + length cs \<le> unat (max_header_size E)\<rbrakk> \<Longrightarrow>
   leads E l (\<lambda>l'. facing E l' s_req_method no_marks_set (k + length cs) xs \<and> part (parser l') m' v fl cl d \<and> index (parser l') = i + length cs)"
proof (induction cs m i arbitrary: l k rule: spell.induct)
  case (1 m i)
  then show ?case by (intro leads_refl) simp
next
  case (2 c cs m i)
  let ?l1 = "l\<lparr>l_ch := c, l_nread := of_nat (Suc k)\<rparr>" and ?mt = "http_method_str m"
  have ne: "c \<noteq> 0" "\<not> i > length ?mt" "c \<noteq> oct CHR '' ''" using 2(6) by (auto split: if_splits)
  have st: "p_state l = s_req_method" "marks l = no_marks_set" using 2(3) by (simp_all add: facing_def)
  define m1 where "m1 = (if c = c_at ?mt i then m else the (method_switch m i c))"
  have sp: "spell cs m1 (Suc i) = Some m'" using 2(6) ne by (auto simp: m1_def split: if_splits option.splits)
  let ?l2 = "upd_parser (\<lambda>pr. inc_index (pr\<lparr>p_method := m1\<rparr>)) ?l1"
  have id: "(parser l)\<lparr>p_method := m\<rparr> = parser l" using 2(4) by (simp add: part_def)
  have sw: "switch E ?l1 = Break ?l2"
    using 2(4,5,6) ne st id
    by (auto simp: switch_def st_req_method_def part_def m1_def upd_parser_def Let_def split: if_splits option.splits)
  have "leads E l (\<lambda>l'. facing E l' s_req_method no_marks_set (Suc k) (cs @ xs) \<and> part (parser l') m1 v fl cl d \<and> index (parser l') = Suc i)"
    using 2(3-5,7,8) st
    by (intro step_plain [OF _ _ _ sw]) (auto simp: PARSING_HEADER_def upd_parser_def inc_index_def part_def)
  moreover have "leads E l' (\<lambda>l'. facing E l' s_req_method no_marks_set (k + length (c # cs)) xs \<and> part (parser l') m' v fl cl d \<and>
      index (parser l') = i + length (c # cs))"
    if "facing E l' s_req_method no_marks_set (Suc k) (cs @ xs) \<and> part (parser l') m1 v fl cl d \<and> index (parser l') = Suc i" for l'
  proof (cases "c = c_at ?mt i")
    case True
    then show ?thesis using 2(1) [of l' "Suc k"] that ne sp 2(7,8) by (auto simp: m1_def)
  next
    case False
    then obtain m2 where "method_switch m i c = Some m2" "(oct CHR ''A'' \<le> c \<and> c \<le> oct CHR ''Z'') \<or> c = oct CHR ''-''"
      using 2(6) ne by (auto split: if_splits option.splits)
    then show ?thesis using 2(2) [of m2 l' "Suc k"] that ne sp False 2(7,8) by (auto simp: m1_def)
  qed
  ultimately show ?case by (rule leads_trans)
qed


text \<open>From the first letter to the space behind the method.\<close>

lemma method_phase:
  assumes "settings E = pure_settings f" "facing E l s_start_req no_marks_set k (http_method_str m @ oct CHR '' '' # xs)"
    and "http_errno (parser l) = HPE_OK" "ptype (parser l) = HTTP_REQUEST" "data (parser l) = d"
    and "k + length (http_method_str m) < unat (max_header_size E)"
  shows "leads E l (\<lambda>l'. facing E l' s_req_spaces_before_url no_marks_set (k + length (http_method_str m) + 1) xs \<and>
    (\<exists>v. part (parser l') m v {} ULLONG_MAX (f (Notify message_begin) d)))"
proof -
  let ?d = "f (Notify message_begin) d" and ?v = "(http_major (parser l), http_minor (parser l))"
  obtain c cs where cs: "http_method_str m = c # cs" by (cases m) (simp_all add: str_def)
  obtain m0 where m0: "first_method c = Some m0" "spell cs m0 1 = Some m"
    using method_spelled [of m] cs by (auto simp: spelled_def split: option.splits)
  have "length (http_method_str m) < 32" by (cases m) (simp_all add: str_def)
  then have short: "1 + length cs < 32" using cs by simp
  have c: "c \<noteq> CR" "c \<noteq> LF" "IS_ALPHA c" using cs by (cases m; simp add: str_def IS_ALPHA_def LOWER_def)+
  have st: "p_state l = s_start_req" "marks l = no_marks_set" using assms(2) by (simp_all add: facing_def)
  let ?l1 = "l\<lparr>l_ch := c, l_nread := of_nat (Suc k)\<rparr>"
  let ?l2 = "notified f message_begin (UPDATE_STATE s_req_method (upd_parser (\<lambda>pr. pr\<lparr>p_method := m0\<rparr>)
      (upd_parser (\<lambda>pr. pr\<lparr>p_method := HTTP_DELETE, index := 1\<rparr>) (fresh_message ?l1))))"
  have sw: "switch E ?l1 = Break ?l2"
    using c m0 st assms(3) by (simp add: switch_def st_start_req_def callbacks_pure [OF assms(1)] local_defs)
  have A: "leads E l (\<lambda>l'. facing E l' s_req_method no_marks_set (Suc k) (cs @ oct CHR '' '' # xs) \<and>
      (part (parser l') m0 ?v {} ULLONG_MAX ?d \<and> index (parser l') = 1))"
    using assms(2-6) st cs
    by (intro step_plain [OF _ _ _ sw]) (auto simp: PARSING_HEADER_def local_defs part_def)
  have B: "leads E l' (\<lambda>l'. facing E l' s_req_method no_marks_set (Suc k + length cs) (oct CHR '' '' # xs) \<and>
      part (parser l') m ?v {} ULLONG_MAX ?d \<and> index (parser l') = 1 + length cs)"
    if "facing E l' s_req_method no_marks_set (Suc k) (cs @ oct CHR '' '' # xs) \<and> (part (parser l') m0 ?v {} ULLONG_MAX ?d \<and> index (parser l') = 1)"
    for l' using method_letters [of E l' "Suc k" cs "oct CHR '' '' # xs" m0 ?v "{}" ULLONG_MAX ?d 1 m] that m0 short assms(6) cs by simp
  have C: "leads E l' (\<lambda>l'. facing E l' s_req_spaces_before_url no_marks_set (Suc (Suc k + length cs)) xs \<and> (part (parser l') m ?v {} ULLONG_MAX ?d))"
    if "facing E l' s_req_method no_marks_set (Suc k + length cs) (oct CHR '' '' # xs) \<and> part (parser l') m ?v {} ULLONG_MAX ?d \<and> index (parser l') = 1 + length cs" for l'
  proof -
    let ?k = "of_nat (Suc (Suc k + length cs))" and ?m = "http_method_str m"
    have sw: "switch E (l'\<lparr>l_ch := oct CHR '' '', l_nread := ?k\<rparr>) = Break (upd_parser inc_index (UPDATE_STATE s_req_spaces_before_url (l'\<lparr>l_ch := oct CHR '' '', l_nread := ?k\<rparr>)))"
      using that cs by (simp add: switch_def st_req_method_def facing_def part_def c_at_def nth_append Let_def)
    show ?thesis
      using that assms(6) cs by (intro step_plain [OF _ _ _ sw]) (auto simp: PARSING_HEADER_def local_defs part_def inc_index_def facing_def)
  qed
  show ?thesis using leads_trans [OF leads_trans [OF A B] C] cs by (auto simp: leads_def)
qed


section \<open>The URL and the version\<close>

definition url_end :: "state set" where
  "url_end = {s_req_server, s_req_server_with_at, s_req_path, s_req_query_string_start, s_req_query_string, s_req_fragment_start, s_req_fragment}"

lemma url_char_dead: "foldl parse_url_char s_dead cs = s_dead"
  by (induction cs) (simp_all add: parse_url_char_def)

lemma url_char_alive: "parse_url_char s c \<noteq> s_dead \<Longrightarrow> c \<noteq> oct CHR '' '' \<and> c \<noteq> CR \<and> c \<noteq> LF"
  by (auto simp: parse_url_char_def)

lemma url_letters:
  "\<lbrakk>facing E l s mk k (cs @ xs); s \<in> url_states; part (parser l) m v fl cl d; foldl parse_url_char s cs \<noteq> s_dead;
    k + length cs \<le> unat (max_header_size E)\<rbrakk> \<Longrightarrow>
   leads E l (\<lambda>l'. facing E l' (foldl parse_url_char s cs) mk (k + length cs) xs \<and> part (parser l') m v fl cl d)"
proof (induction cs arbitrary: l s k)
  case Nil
  then show ?case by (intro leads_refl) simp
next
  case (Cons c cs)
  let ?l1 = "l\<lparr>l_ch := c, l_nread := of_nat (Suc k)\<rparr>" and ?s = "parse_url_char s c"
  have alive: "?s \<noteq> s_dead" using Cons.prems(4) url_char_dead [of cs] by auto
  then have s': "?s \<in> url_states" using parse_url_char_states [of s c] by blast
  have st: "p_state l = s" using Cons.prems(1) by (simp add: facing_def)
  have "url_char_step ?l1 = Break (UPDATE_STATE ?s ?l1)" using alive st by (simp add: url_char_step_def UPDATE_STATE_def)
  then have sw: "switch E ?l1 = Break (UPDATE_STATE ?s ?l1)"
    using url_char_alive [OF alive] st Cons.prems(2)
    by (auto simp: switch_def st_req_schema_def st_req_url_def url_states_def)
  have "PARSING_HEADER s" using Cons.prems(2) by (auto simp: url_states_def PARSING_HEADER_def)
  then have A: "leads E l (\<lambda>l'. facing E l' ?s mk (Suc k) (cs @ xs) \<and> part (parser l') m v fl cl d)"
    using Cons.prems by (intro step_plain [OF _ _ _ sw]) (auto simp: UPDATE_STATE_def facing_def)
  show ?case
    using Cons.IH [of _ ?s "Suc k"] Cons.prems(4,5) s' by (intro leads_trans [OF A]) auto
qed

lemma sub_octets_found: "drop p b = u @ xs \<Longrightarrow> p \<le> q \<Longrightarrow> q \<le> length b \<Longrightarrow> drop q b = xs \<Longrightarrow> sub_octets b p (q - p) = u"
proof -
  assume a: "drop p b = u @ xs" "p \<le> q" "q \<le> length b" "drop q b = xs"
  have "length b - p = length u + (length b - q)" using arg_cong [OF a(1), of length] arg_cong [OF a(4), of length] by simp
  then have "q - p = length u" using a(2,3) by linarith
  then show ?thesis using a(1) by (simp add: sub_octets_def)
qed

definition url_ok :: "octets \<Rightarrow> bool" where
  "url_ok u \<longleftrightarrow> u \<noteq> [] \<and> foldl parse_url_char s_req_spaces_before_url u \<in> url_end"

lemma url_phase:
  assumes "settings E = pure_settings f" "facing E l s_req_spaces_before_url no_marks_set k (u @ oct CHR '' '' # xs)"
    and "part (parser l) m v fl cl d" "m \<noteq> HTTP_CONNECT" "url_ok u" "k + length u < unat (max_header_size E)"
  shows "leads E l (\<lambda>l'. facing E l' s_req_http_start no_marks_set (k + length u + 1) xs \<and> part (parser l') m v fl cl (f (Data url u) d))"
proof -
  obtain c cs where u: "u = c # cs" using assms(5) by (cases u) (auto simp: url_ok_def)
  let ?l1 = "l\<lparr>l_ch := c, l_nread := of_nat (Suc k)\<rparr>" and ?s = "parse_url_char s_req_spaces_before_url c" and ?mk = "no_marks_set(url := Some (l_p l))"
  let ?s' = "foldl parse_url_char ?s cs"
  have e: "?s' \<in> url_end" using assms(5) by (simp add: url_ok_def u)
  have alive: "?s \<noteq> s_dead" using e url_char_dead [of cs] by (auto simp: url_end_def)
  have s: "?s \<in> url_states" using alive parse_url_char_states [of s_req_spaces_before_url c] by blast
  have st: "p_state l = s_req_spaces_before_url" "marks l = no_marks_set" "drop (l_p l) (buf E) = u @ oct CHR '' '' # xs" "l_p l \<le> length (buf E)"
    using assms(2) by (simp_all add: facing_def)
  have sw: "switch E ?l1 = Break (UPDATE_STATE ?s (MARK url ?l1))"
    using alive url_char_alive [OF alive] st assms(3,4)
    by (simp add: switch_def st_req_spaces_before_url_def url_char_step_def part_def local_defs)
  have A: "leads E l (\<lambda>l'. facing E l' ?s ?mk (Suc k) (cs @ oct CHR '' '' # xs) \<and> part (parser l') m v fl cl d)"
    using assms(2,3,6) u st by (intro step_plain [OF _ _ _ sw]) (auto simp: UPDATE_STATE_def MARK_def PARSING_HEADER_def)
  have B: "leads E l' (\<lambda>l'. facing E l' ?s' ?mk (Suc k + length cs) (oct CHR '' '' # xs) \<and> part (parser l') m v fl cl d)"
    if "facing E l' ?s ?mk (Suc k) (cs @ oct CHR '' '' # xs) \<and> part (parser l') m v fl cl d" for l'
    using that s e assms(6) u by (intro url_letters) (auto simp: url_end_def)
  have C: "leads E l' (\<lambda>l'. facing E l' s_req_http_start no_marks_set (Suc (Suc k + length cs)) xs \<and> part (parser l') m v fl cl (f (Data url u) d))"
    if "facing E l' ?s' ?mk (Suc k + length cs) (oct CHR '' '' # xs) \<and> part (parser l') m v fl cl d" for l'
  proof -
    let ?k = "of_nat (Suc (Suc k + length cs))"
    let ?l1 = "l'\<lparr>l_ch := oct CHR '' '', l_nread := ?k\<rparr>"
    have f: "p_state l' = ?s'" "marks l' = ?mk" "drop (l_p l') (buf E) = oct CHR '' '' # xs" "l_p l' \<le> length (buf E)"
      using that by (simp_all add: facing_def)
    have "length (buf E) - l_p l' \<le> length (buf E) - l_p l" using arg_cong [OF f(3), of length] arg_cong [OF st(3), of length] by simp
    then have "sub_octets (buf E) (l_p l) (l_p l' - l_p l) = u" using sub_octets_found [OF st(3) _ f(4,3)] f(4) st(4) by simp
    then have sw: "switch E ?l1 = Break (?l1\<lparr>p_state := s_req_http_start, parser := (parser l')\<lparr>state := s_req_http_start, data := f (Data url u) d\<rparr>,
        marks := no_marks_set\<rparr>)"
      using e f that by (auto simp: switch_def st_req_url_def url_end_def callbacks_pure [OF assms(1)] part_def local_defs fun_eq_iff)
    show ?thesis
      using that assms(6) u e
      by (intro step_plain [OF _ _ _ sw, where s = ?s' and mk = ?mk]) (auto simp: part_def url_end_def PARSING_HEADER_def simp del: foldl_Cons)
  qed
  show ?thesis using leads_trans [OF leads_trans [OF A B] C] u by simp
qed

text \<open>States that want certain characters, one after the other.\<close>

fun wants :: "'u exec_env \<Rightarrow> state \<Rightarrow> (u8 \<times> state) list \<Rightarrow> bool" where
  "wants E s [] = True"
| "wants E s ((c, s') # r) =
     (PARSING_HEADER s \<and> (\<forall>l. p_state l = s \<longrightarrow> l_ch l = c \<longrightarrow> switch E l = Break (UPDATE_STATE s' l)) \<and> wants E s' r)"

lemma wants_run:
  "\<lbrakk>wants E s r; facing E l s no_marks_set k (map fst r @ xs); part (parser l) m v fl cl d; k + length r \<le> unat (max_header_size E)\<rbrakk> \<Longrightarrow>
   leads E l (\<lambda>l'. facing E l' (last (s # map snd r)) no_marks_set (k + length r) xs \<and> part (parser l') m v fl cl d)"
proof (induction E s r arbitrary: l k rule: wants.induct)
  case (1 E s)
  then show ?case by (intro leads_refl) simp
next
  case (2 E s c s' r)
  let ?l1 = "l\<lparr>l_ch := c, l_nread := of_nat (Suc k)\<rparr>"
  have sw: "switch E ?l1 = Break (UPDATE_STATE s' ?l1)" using 2(2,3) by (simp add: facing_def)
  have A: "leads E l (\<lambda>l'. facing E l' s' no_marks_set (Suc k) (map fst r @ xs) \<and> part (parser l') m v fl cl d)"
    using 2(2-5) by (intro step_plain [OF _ _ _ sw]) (auto simp: UPDATE_STATE_def facing_def)
  show ?case using 2(1) [of _ "Suc k"] 2(2,5) by (intro leads_trans [OF A]) auto
qed

text \<open>A digit of the version.\<close>

lemma digit_step:
  assumes "facing E l s no_marks_set k (c # xs)" "part (parser l) m v fl cl d" "k < unat (max_header_size E)" "IS_NUM c"
  shows "s = s_req_http_major \<Longrightarrow>
      leads E l (\<lambda>l'. facing E l' s_req_http_dot no_marks_set (Suc k) xs \<and> part (parser l') m (unat c - 48, snd v) fl cl d)"
    and "s = s_req_http_minor \<Longrightarrow>
      leads E l (\<lambda>l'. facing E l' s_req_http_end no_marks_set (Suc k) xs \<and> part (parser l') m (fst v, unat c - 48) fl cl d)"
proof -
  let ?l1 = "l\<lparr>l_ch := c, l_nread := of_nat (Suc k)\<rparr>" and ?n = "unat c - 48"
  {
    assume s: "s = s_req_http_major"
    have sw: "switch E ?l1 = Break (UPDATE_STATE s_req_http_dot (upd_parser (\<lambda>pr. pr\<lparr>http_major := ?n\<rparr>) ?l1))"
      using assms(1,4) s by (simp add: facing_def switch_def st_http_major_def)
    show "leads E l (\<lambda>l'. facing E l' s_req_http_dot no_marks_set (Suc k) xs \<and> part (parser l') m (?n, snd v) fl cl d)"
      using assms s by (intro step_plain [OF _ _ _ sw]) (auto simp: PARSING_HEADER_def UPDATE_STATE_def upd_parser_def facing_def part_def)
  next
    assume s: "s = s_req_http_minor"
    have sw: "switch E ?l1 = Break (UPDATE_STATE s_req_http_end (upd_parser (\<lambda>pr. pr\<lparr>http_minor := ?n\<rparr>) ?l1))"
      using assms(1,4) s by (simp add: facing_def switch_def st_http_minor_def)
    show "leads E l (\<lambda>l'. facing E l' s_req_http_end no_marks_set (Suc k) xs \<and> part (parser l') m (fst v, ?n) fl cl d)"
      using assms s by (intro step_plain [OF _ _ _ sw]) (auto simp: PARSING_HEADER_def UPDATE_STATE_def upd_parser_def facing_def part_def)
  }
qed

lemma version_states:
  "wants E s_req_http_start (zip (str ''HTTP/'') [s_req_http_H, s_req_http_HT, s_req_http_HTT, s_req_http_HTTP, s_req_http_major])"
  "wants E s_req_http_dot [(oct CHR ''.'', s_req_http_minor)]"
  "wants E s_req_http_end [(CR, s_req_line_almost_done), (LF, s_header_field_start)]"
  by (simp_all add: str_def PARSING_HEADER_def switch_def st_req_http_start_def st_expect_def STRICT_CHECK_def st_http_dot_def
      st_req_http_end_def st_req_line_almost_done_def)

lemma version_phase:
  assumes "facing E l s_req_http_start no_marks_set k (str ''HTTP/'' @ [a, oct CHR ''.'', b] @ CRLF @ xs)"
    and "part (parser l) m v fl cl d" "IS_NUM a" "IS_NUM b" "k + 10 \<le> unat (max_header_size E)"
  shows "leads E l (\<lambda>l'. facing E l' s_header_field_start no_marks_set (k + 10) xs \<and> part (parser l') m (unat a - 48, unat b - 48) fl cl d)"
proof -
  let ?r = "zip (str ''HTTP/'') [s_req_http_H, s_req_http_HT, s_req_http_HTT, s_req_http_HTTP, s_req_http_major]"
  have suc: "Suc (k + 5) = k + 6" "Suc (k + 7) = k + 8" by simp_all
  have A: "leads E l (\<lambda>l'. facing E l' s_req_http_major no_marks_set (k + 5) (a # oct CHR ''.'' # b # CRLF @ xs) \<and> part (parser l') m v fl cl d)"
    using wants_run [OF version_states(1), of E l k "a # oct CHR ''.'' # b # CRLF @ xs" m v fl cl d] assms by (simp add: str_def eval_nat_numeral)
  have B: "leads E l' (\<lambda>l'. facing E l' s_req_http_dot no_marks_set (k + 6) (oct CHR ''.'' # b # CRLF @ xs) \<and> part (parser l') m (unat a - 48, snd v) fl cl d)"
    if "facing E l' s_req_http_major no_marks_set (k + 5) (a # oct CHR ''.'' # b # CRLF @ xs) \<and> part (parser l') m v fl cl d" for l'
    using that assms(5) unfolding suc(1) [symmetric] by (intro digit_step(1) assms(3)) auto
  have C: "leads E l' (\<lambda>l'. facing E l' s_req_http_minor no_marks_set (k + 7) (b # CRLF @ xs) \<and> part (parser l') m (unat a - 48, snd v) fl cl d)"
    if "facing E l' s_req_http_dot no_marks_set (k + 6) (oct CHR ''.'' # b # CRLF @ xs) \<and> part (parser l') m (unat a - 48, snd v) fl cl d" for l'
    using wants_run [OF version_states(2), of E l' "k + 6" "b # CRLF @ xs"] that assms(5) by (simp add: eval_nat_numeral)
  have D: "leads E l' (\<lambda>l'. facing E l' s_req_http_end no_marks_set (k + 8) (CRLF @ xs) \<and> part (parser l') m (unat a - 48, unat b - 48) fl cl d)"
    if "facing E l' s_req_http_minor no_marks_set (k + 7) (b # CRLF @ xs) \<and> part (parser l') m (unat a - 48, snd v) fl cl d" for l'
    using digit_step(2) [of E l' s_req_http_minor "k + 7" b "CRLF @ xs" m "(unat a - 48, snd v)"] that assms(4,5) unfolding suc(2) by auto
  have F: "leads E l' (\<lambda>l'. facing E l' s_header_field_start no_marks_set (k + 10) xs \<and> part (parser l') m (unat a - 48, unat b - 48) fl cl d)"
    if "facing E l' s_req_http_end no_marks_set (k + 8) (CRLF @ xs) \<and> part (parser l') m (unat a - 48, unat b - 48) fl cl d" for l'
    using wants_run [OF version_states(3), of E l' "k + 8" xs] that assms(5) by (simp add: CRLF_def eval_nat_numeral)
  show ?thesis by (rule leads_trans [OF leads_trans [OF leads_trans [OF leads_trans [OF A B] C] D] F])
qed

end
