(* ===== verification/Http_Walk_Header.thy ===== *)
theory Http_Walk_Header
  imports Http_Walk
begin

text \<open>
  The parser along a header line of a request: the name, which is recognised when it is one of
  those the parser treats itself, and the scan of the value.
\<close>

section \<open>The name of a header\<close>

definition name_step :: "u8 \<Rightarrow> 'u http_parser \<Rightarrow> 'u http_parser" where
  "name_step c pr =
     (case header_state pr of
        h_C \<Rightarrow> (inc_index pr)\<lparr>header_state := if c = oct CHR ''o'' then h_CO else h_general\<rparr>
      | h_CO \<Rightarrow> (inc_index pr)\<lparr>header_state := if c = oct CHR ''n'' then h_CON else h_general\<rparr>
      | h_CON \<Rightarrow> (inc_index pr)\<lparr>header_state :=
            if c = oct CHR ''n'' then h_matching_connection
            else if c = oct CHR ''t'' then h_matching_content_length else h_general\<rparr>
      | h_matching_connection \<Rightarrow> match_name CONNECTION h_connection c pr
      | h_matching_proxy_connection \<Rightarrow> match_name PROXY_CONNECTION h_connection c pr
      | h_matching_content_length \<Rightarrow> match_name CONTENT_LENGTH h_content_length c pr
      | h_matching_transfer_encoding \<Rightarrow>
          (let pr1 = match_name TRANSFER_ENCODING h_transfer_encoding c pr
           in if header_state pr1 = h_transfer_encoding then pr1\<lparr>uses_transfer_encoding := True\<rparr> else pr1)
      | h_matching_upgrade \<Rightarrow> match_name UPGRADE h_upgrade c pr
      | h_general \<Rightarrow> pr
      | _ \<Rightarrow> pr\<lparr>header_state := h_general\<rparr>)"

lemma token_no_space: "TOKEN c \<noteq> 0 \<Longrightarrow> c \<noteq> oct CHR '' ''"
  by (auto simp: TOKEN_def STRICT_TOKEN_def)

lemma field_switch_step:
  assumes "TOKEN (l_ch l) \<noteq> 0" "header_state (parser l) \<in> field_states" "header_state (parser l) \<noteq> h_general"
  shows "field_switch E (TOKEN (l_ch l)) l = Break (upd_parser (name_step (TOKEN (l_ch l))) l)"
  using assms token_no_space [OF assms(1)]
  by (cases "header_state (parser l)") (simp_all add: field_switch_def name_step_def field_states_def upd_parser_def)

lemma name_step_states: "header_state pr \<in> field_states \<Longrightarrow> header_state (name_step c pr) \<in> field_states"
  by (cases "header_state pr") (simp_all add: name_step_def field_states_def match_name_def inc_index_def Let_def)

lemma name_step_general: "header_state pr = h_general \<Longrightarrow> fold name_step cs pr = pr"
  by (induction cs) (simp_all add: name_step_def)

lemma field_loop_run:
  "\<lbrakk>drop (l_p l) (buf E) = cs @ ch # xs; \<forall>c\<in>set cs. TOKEN c \<noteq> 0; TOKEN ch = 0; header_state (parser l) \<in> field_states\<rbrakk> \<Longrightarrow>
   field_loop E l = Break (l\<lparr>parser := fold name_step (map TOKEN cs) (parser l), l_p := l_p l + length cs, l_ch := ch\<rparr>)"
proof (induction cs arbitrary: l)
  case Nil
  then show ?case using drop_Cons [of "l_p l" "buf E" ch xs] by (subst field_loop.simps) (simp add: Let_def)
next
  case (Cons c cs)
  have p: "l_p l < length (buf E)" "buf E ! l_p l = c" "drop (Suc (l_p l)) (buf E) = cs @ ch # xs" "TOKEN c \<noteq> 0"
    using drop_Cons [of "l_p l" "buf E" c "cs @ ch # xs"] Cons.prems by auto
  show ?case
  proof (cases "header_state (parser l) = h_general")
    case True
    have same: "l\<lparr>parser := parser l, l_p := a, l_ch := b\<rparr> = l\<lparr>l_p := a, l_ch := b\<rparr>" for a b by simp
    have "takeWhile (\<lambda>c. TOKEN c \<noteq> 0) (drop (l_p l) (buf E)) = c # cs"
      using Cons.prems(1-3) by (simp add: takeWhile_append)
    then have e: "tokens_end (buf E) (l_p l) = l_p l + length (c # cs)" by (simp add: tokens_end_def)
    have "drop (length (c # cs)) (drop (l_p l) (buf E)) = ch # xs" unfolding Cons.prems(1) by simp
    then have "drop (l_p l + length (c # cs)) (buf E) = ch # xs" by (simp add: add.commute)
    from drop_Cons [OF this] show ?thesis
      using field_loop_general [OF True, of E] p(1) e name_step_general [OF True, of "map TOKEN (c # cs)"] by (auto simp: same)
  next
    case False
    let ?l1 = "l\<lparr>l_ch := c\<rparr>"
    have sw: "field_switch E (TOKEN c) ?l1 = Break (upd_parser (name_step (TOKEN c)) ?l1)"
      using field_switch_step [of ?l1 E] p(4) Cons.prems(4) False by simp
    let ?l2 = "(upd_parser (name_step (TOKEN c)) ?l1)\<lparr>l_p := Suc (l_p l)\<rparr>"
    have "field_loop E ?l2 = Break (?l2\<lparr>parser := fold name_step (map TOKEN cs) (parser ?l2), l_p := l_p ?l2 + length cs, l_ch := ch\<rparr>)"
      using Cons.prems p(3) name_step_states [OF Cons.prems(4)] by (intro Cons.IH) (simp_all add: upd_parser_def)
    then show ?thesis using p sw by (subst field_loop.simps) (simp add: Let_def upd_parser_def)
  qed
qed

text \<open>What the letters read so far are when the name is not known to be without interest.\<close>

definition seen :: "octets \<Rightarrow> 'u http_parser \<Rightarrow> bool" where
  "seen w pr =
     (let so_far = (\<lambda>name. w = take (Suc (index pr)) name \<and> Suc (index pr) < length name)
      in case header_state pr of
           h_general \<Rightarrow> True
         | h_C \<Rightarrow> w = take 1 CONNECTION \<and> index pr = 0
         | h_CO \<Rightarrow> w = take 2 CONNECTION \<and> index pr = 1
         | h_CON \<Rightarrow> w = take 3 CONNECTION \<and> index pr = 2
         | h_matching_connection \<Rightarrow> so_far CONNECTION
         | h_matching_proxy_connection \<Rightarrow> so_far PROXY_CONNECTION
         | h_matching_content_length \<Rightarrow> so_far CONTENT_LENGTH
         | h_matching_transfer_encoding \<Rightarrow> so_far TRANSFER_ENCODING
         | h_matching_upgrade \<Rightarrow> so_far UPGRADE
         | h_connection \<Rightarrow> w \<in> {CONNECTION, PROXY_CONNECTION}
         | h_content_length \<Rightarrow> w = CONTENT_LENGTH
         | h_transfer_encoding \<Rightarrow> w = TRANSFER_ENCODING
         | h_upgrade \<Rightarrow> w = UPGRADE
         | _ \<Rightarrow> False)"

lemma match_name_seen:
  assumes "w = take (Suc (index pr)) name" "Suc (index pr) < length name" "length name < 32"
  shows "header_state (match_name name h c pr) = h_general \<or>
    (header_state (match_name name h c pr) = h \<and> w @ [c] = name) \<or>
    (header_state (match_name name h c pr) = header_state pr \<and> w @ [c] = take (Suc (index (match_name name h c pr))) name \<and>
       Suc (index (match_name name h c pr)) < length name)"
proof -
  let ?i = "Suc (index pr)"
  have i: "?i mod 32 = ?i" using assms by simp
  have ex: "w @ [name ! ?i] = take (Suc ?i) name" using assms by (simp add: take_Suc_conv_app_nth)
  consider "c \<noteq> name ! ?i" | "c = name ! ?i" "Suc ?i = length name" | "c = name ! ?i" "Suc ?i < length name"
    using assms(2) by linarith
  then show ?thesis
    using assms(2) i ex by cases (auto simp: match_name_def inc_index_def c_at_def nth_append Let_def)
qed

lemmas name_defs = CONNECTION_def PROXY_CONNECTION_def CONTENT_LENGTH_def TRANSFER_ENCODING_def UPGRADE_def

lemma seen_step: "seen w pr \<Longrightarrow> seen (w @ [c]) (name_step c pr)"
proof -
  assume s: "seen w pr"
  have len: "length CONNECTION < 32" "length PROXY_CONNECTION < 32" "length CONTENT_LENGTH < 32" "length TRANSFER_ENCODING < 32" "length UPGRADE < 32"
    by (simp_all add: name_defs str_def)
  show ?thesis
  proof (cases "header_state pr")
    case h_matching_connection
    then show ?thesis using match_name_seen [OF _ _ len(1), of w pr h_connection c] s by (auto simp: seen_def name_step_def Let_def)
  next
    case h_matching_proxy_connection
    then show ?thesis using match_name_seen [OF _ _ len(2), of w pr h_connection c] s by (auto simp: seen_def name_step_def Let_def)
  next
    case h_matching_content_length
    then show ?thesis using match_name_seen [OF _ _ len(3), of w pr h_content_length c] s by (auto simp: seen_def name_step_def Let_def)
  next
    case h_matching_transfer_encoding
    then show ?thesis using match_name_seen [OF _ _ len(4), of w pr h_transfer_encoding c] s by (auto simp: seen_def name_step_def Let_def)
  next
    case h_matching_upgrade
    then show ?thesis using match_name_seen [OF _ _ len(5), of w pr h_upgrade c] s by (auto simp: seen_def name_step_def Let_def)
  qed (use s in \<open>auto simp: seen_def name_step_def inc_index_def name_defs str_def Let_def\<close>)
qed

lemma seen_run: "seen w pr \<Longrightarrow> seen (w @ cs) (fold name_step cs pr)"
proof (induction cs arbitrary: w pr)
  case (Cons c cs)
  then show ?case using Cons.IH [OF seen_step [OF Cons.prems], of c] by simp
qed simp

lemma seen_start: "seen [c] (pr\<lparr>index := 0, header_state := field_start_state c\<rparr>)"
  by (auto simp: seen_def field_start_state_def name_defs str_def)

lemma name_step_keeps [simp]:
  "http_errno (name_step c pr) = http_errno pr" "ptype (name_step c pr) = ptype pr" "p_method (name_step c pr) = p_method pr"
  "http_major (name_step c pr) = http_major pr" "http_minor (name_step c pr) = http_minor pr" "flags (name_step c pr) = flags pr"
  "content_length (name_step c pr) = content_length pr" "data (name_step c pr) = data pr"
  by (cases "header_state pr"; simp add: name_step_def match_name_def inc_index_def Let_def)+

lemma name_step_te:
  "seen w pr \<Longrightarrow> w @ [c] \<noteq> TRANSFER_ENCODING \<Longrightarrow> uses_transfer_encoding (name_step c pr) = uses_transfer_encoding pr"
  using seen_step [of w pr c] by (cases "header_state pr") (auto simp: seen_def name_step_def match_name_def inc_index_def Let_def split: if_splits)


lemma te_run:
  "\<lbrakk>seen w pr; w \<noteq> TRANSFER_ENCODING; take (length TRANSFER_ENCODING) (w @ cs) \<noteq> TRANSFER_ENCODING\<rbrakk> \<Longrightarrow>
   uses_transfer_encoding (fold name_step cs pr) = uses_transfer_encoding pr"
proof (induction cs arbitrary: w pr)
  case (Cons c cs)
  have "w @ [c] \<noteq> TRANSFER_ENCODING"
  proof
    assume "w @ [c] = TRANSFER_ENCODING"
    then have "take (length TRANSFER_ENCODING) (w @ c # cs) = TRANSFER_ENCODING"
      by (metis append_Cons append_Nil append_assoc append_eq_conv_conj)
    then show False using Cons.prems(3) by simp
  qed
  then show ?case using Cons.IH [OF seen_step [OF Cons.prems(1)], of c] name_step_te [OF Cons.prems(1), of c] Cons.prems(3) by simp
qed simp

lemma part_name_run:
  "part pr m v fl cl d \<Longrightarrow> seen w pr \<Longrightarrow> w \<noteq> TRANSFER_ENCODING \<Longrightarrow> take (length TRANSFER_ENCODING) (w @ cs) \<noteq> TRANSFER_ENCODING
   \<Longrightarrow> part (fold name_step cs pr) m v fl cl d"
proof -
  assume a: "part pr m v fl cl d" "seen w pr" "w \<noteq> TRANSFER_ENCODING" "take (length TRANSFER_ENCODING) (w @ cs) \<noteq> TRANSFER_ENCODING"
  have "http_errno (fold name_step cs pr) = http_errno pr" "ptype (fold name_step cs pr) = ptype pr" "p_method (fold name_step cs pr) = p_method pr"
    "http_major (fold name_step cs pr) = http_major pr" "http_minor (fold name_step cs pr) = http_minor pr" "flags (fold name_step cs pr) = flags pr"
    "content_length (fold name_step cs pr) = content_length pr" "data (fold name_step cs pr) = data pr"
    by (induction cs arbitrary: pr) simp_all
  then show ?thesis using a(1) te_run [OF a(2-4)] by (simp add: part_def)
qed

lemma fold_states: "header_state pr \<in> field_states \<Longrightarrow> header_state (fold name_step cs pr) \<in> field_states"
  by (induction cs arbitrary: pr) (simp_all add: name_step_states)

text \<open>The name \<^verbatim>\<open>Content-Length\<close> in any mixture of cases is recognised.\<close>

lemma content_length_found:
  "header_state (fold name_step (tl CONTENT_LENGTH) (pr\<lparr>index := 0, header_state := field_start_state (hd CONTENT_LENGTH)\<rparr>)) = h_content_length"
  by (simp add: CONTENT_LENGTH_def str_def field_start_state_def name_step_def match_name_def inc_index_def c_at_def Let_def)

section \<open>A header line\<close>

definition name_ok :: "octets \<Rightarrow> bool" where
  "name_ok k \<longleftrightarrow> k \<noteq> [] \<and> (\<forall>c\<in>set k. TOKEN c \<noteq> 0) \<and> map TOKEN k \<noteq> UPGRADE \<and>
     take (length TRANSFER_ENCODING) (map TOKEN k) \<noteq> TRANSFER_ENCODING"

definition is_length :: "octets \<Rightarrow> bool" where "is_length k \<longleftrightarrow> map TOKEN k = CONTENT_LENGTH"

definition is_connection :: "octets \<Rightarrow> bool" where "is_connection k \<longleftrightarrow> map TOKEN k \<in> {CONNECTION, PROXY_CONNECTION}"

text \<open>Before a header line, or the empty line behind the last: the flags a header sets are complete with the next octet.\<close>

definition ready :: "'u exec_env \<Rightarrow> 'u exec_locals \<Rightarrow> nat \<Rightarrow> octets \<Rightarrow> ('u http_parser \<Rightarrow> bool) \<Rightarrow> bool" where
  "ready E l k xs P \<longleftrightarrow>
     (facing E l s_header_field_start no_marks_set k xs \<and> P (parser l)) \<or>
     (facing E l s_header_value_lws no_marks_set k xs \<and> P (finish_header (parser l)))"

lemma finish_header_keeps [simp]:
  "http_errno (finish_header pr) = http_errno pr" "index (finish_header pr) = index pr" "header_state (finish_header pr) = header_state pr"
  by (simp_all add: finish_header_def split: header_states.split)

lemma ready_step:
  assumes "ready E l k (c # xs) P" "k < unat (max_header_size E)" "c \<noteq> oct CHR '' ''" "c \<noteq> 9"
    and "\<And>l1. p_state l1 = s_header_field_start \<Longrightarrow> l_ch l1 = c \<Longrightarrow> l_nread l1 = of_nat (Suc k) \<Longrightarrow> marks l1 = no_marks_set \<Longrightarrow> l_p l1 = l_p l \<Longrightarrow>
       P (parser l1) \<Longrightarrow> \<exists>l2. st_header_field_start E l1 = Break l2 \<and> Q (l2\<lparr>l_p := Suc (l_p l2)\<rparr>)"
  shows "leads E l Q"
proof (cases "p_state l = s_header_field_start")
  case True
  let ?l1 = "l\<lparr>l_ch := c, l_nread := of_nat (Suc k)\<rparr>"
  have f: "facing E l s_header_field_start no_marks_set k (c # xs)" "P (parser l)" using assms(1) True by (auto simp: ready_def facing_def)
  obtain l2 where l2: "st_header_field_start E ?l1 = Break l2" "Q (l2\<lparr>l_p := Suc (l_p l2)\<rparr>)"
    using assms(5) [of ?l1] f by (auto simp: facing_def)
  have "switch E ?l1 = Break l2" using l2(1) True by (simp add: switch_def)
  then show ?thesis using step_once [OF f(1) _ assms(2) reexecute_break, of l2 Q] l2(2) by (simp add: PARSING_HEADER_def)
next
  case False
  let ?l1 = "l\<lparr>l_ch := c, l_nread := of_nat (Suc k)\<rparr>"
  let ?l0 = "UPDATE_STATE s_header_field_start (upd_parser finish_header ?l1)"
  have f: "facing E l s_header_value_lws no_marks_set k (c # xs)" "P (finish_header (parser l))" using assms(1) False by (auto simp: ready_def facing_def)
  obtain l2 where l2: "st_header_field_start E ?l0 = Break l2" "Q (l2\<lparr>l_p := Suc (l_p l2)\<rparr>)"
    using assms(5) [of ?l0] f by (auto simp: facing_def UPDATE_STATE_def upd_parser_def)
  have "switch E ?l1 = Reexecute ?l0" using f(1) assms(3,4) by (simp add: switch_def facing_def st_header_value_lws_def)
  moreover have "switch E ?l0 = Break l2" using l2(1) by (simp add: switch_def UPDATE_STATE_def)
  ultimately show ?thesis using step_once [OF f(1) _ assms(2) reexecute_again, of ?l0 l2 Q] l2(2) by (simp add: PARSING_HEADER_def)
qed


definition named :: "octets \<Rightarrow> header_states \<Rightarrow> bool" where
  "named k h \<longleftrightarrow> h \<in> field_states \<and> h \<noteq> h_transfer_encoding \<and> h \<noteq> h_upgrade \<and> (h = h_content_length) = is_length k \<and>
     (h = h_connection \<longrightarrow> is_connection k)"

lemma name_recognised:
  assumes "name_ok (c # cs)" "part pr m v fl cl d"
  defines "pr' \<equiv> fold name_step (map TOKEN cs) (pr\<lparr>index := 0, header_state := field_start_state (TOKEN c)\<rparr>)"
  shows "part pr' m v fl cl d \<and> named (c # cs) (header_state pr')"
proof -
  let ?pr = "pr\<lparr>index := 0, header_state := field_start_state (TOKEN c)\<rparr>"
  have start: "seen [TOKEN c] ?pr" by (rule seen_start)
  have te: "[TOKEN c] \<noteq> TRANSFER_ENCODING" "take (length TRANSFER_ENCODING) ([TOKEN c] @ map TOKEN cs) \<noteq> TRANSFER_ENCODING"
    using assms(1) by (simp_all add: name_ok_def) (simp add: TRANSFER_ENCODING_def str_def)
  have sn: "seen (map TOKEN (c # cs)) pr'" using seen_run [OF start, of "map TOKEN cs"] by (simp add: pr'_def)
  have "header_state ?pr \<in> field_states" by (simp add: field_start_state_def field_states_def)
  then have "header_state pr' \<in> field_states" unfolding pr'_def by (rule fold_states)
  moreover have "part pr' m v fl cl d"
    unfolding pr'_def by (rule part_name_run [OF _ start te]) (use assms(2) in \<open>simp add: part_def\<close>)
  moreover have "header_state pr' = h_content_length" if "is_length (c # cs)"
  proof -
    have "TOKEN c = hd CONTENT_LENGTH" "map TOKEN cs = tl CONTENT_LENGTH" using that by (simp_all add: is_length_def flip: that [unfolded is_length_def])
    then show ?thesis using content_length_found [of pr] by (simp add: pr'_def)
  qed
  moreover have "header_state pr' \<noteq> h_transfer_encoding"
    using sn te(2) by (auto simp: seen_def)
  ultimately show ?thesis
    using sn assms(1) by (auto simp: named_def seen_def is_length_def is_connection_def name_ok_def)
qed

lemma no_tokens: "TOKEN 13 = 0" "TOKEN 10 = 0" "TOKEN 9 = 0" "TOKEN 32 = 0" "TOKEN 58 = 0"
  by code_simp+

lemma token_not_end: "TOKEN c \<noteq> 0 \<Longrightarrow> c \<noteq> CR \<and> c \<noteq> LF \<and> c \<noteq> 9 \<and> c \<noteq> oct CHR '' ''" "TOKEN (oct CHR '':'') = 0"
  using no_tokens by auto

lemma drop_append: "drop p b = u @ xs \<Longrightarrow> drop (p + length u) b = xs"
  by (metis add.commute append_eq_conv_conj drop_drop)

lemma count_fits:
  "\<lbrakk>l_nread l = of_nat a; a + n \<le> unat (max_header_size E)\<rbrakk> \<Longrightarrow> COUNT_HEADER_SIZE E n l rest = rest (l\<lparr>l_nread := of_nat (a + n)\<rparr>)"
  using of_nat_fits [of "a + n" "max_header_size E"] by (auto simp: COUNT_HEADER_SIZE_def Let_def)

lemma field_phase:
  fixes E :: "'u exec_env"
  assumes "settings E = pure_settings f" "ready E l k (name @ oct CHR '':'' # xs) (\<lambda>pr. part pr m v fl cl d)"
    and "name_ok name" "k + length name < unat (max_header_size E)"
  shows "leads E l (\<lambda>l'. facing E l' s_header_value_discard_ws no_marks_set (k + length name + 1) xs \<and>
    part (parser l') m v fl cl (f (Data header_field name) d) \<and> named name (header_state (parser l')))"
proof -
  obtain c cs where n: "name = c # cs" using assms(3) by (cases name) (auto simp: name_ok_def)
  have tok: "TOKEN c \<noteq> 0" "\<forall>c\<in>set cs. TOKEN c \<noteq> 0" using assms(3) by (auto simp: name_ok_def n)
  let ?mk = "no_marks_set(header_field := Some (l_p l))" and ?t = "cs @ oct CHR '':'' # xs"
  let ?P = "\<lambda>l'. facing E l' s_header_field ?mk (Suc k) ?t \<and>
      (\<exists>pr. part pr m v fl cl d \<and> parser l' = pr\<lparr>index := 0, header_state := field_start_state (TOKEN c)\<rparr>)"
  have d0: "drop (l_p l) (buf E) = name @ oct CHR '':'' # xs" "l_p l \<le> length (buf E)" using assms(2) by (auto simp: ready_def facing_def)
  have A: "leads E l ?P"
  proof (rule ready_step [of E l k c ?t "\<lambda>pr. part pr m v fl cl d"])
    fix l1 :: "'u exec_locals"
    assume l1: "p_state l1 = s_header_field_start" "l_ch l1 = c" "l_nread l1 = of_nat (Suc k)" "marks l1 = no_marks_set" "l_p l1 = l_p l" "part (parser l1) m v fl cl d"
    let ?l2 = "UPDATE_STATE s_header_field (upd_parser (\<lambda>pr. pr\<lparr>index := 0, header_state := field_start_state (TOKEN c)\<rparr>) (MARK header_field l1))"
    have "st_header_field_start E l1 = Break ?l2" using l1 token_not_end(1) [OF tok(1)] tok(1) by (simp add: st_header_field_start_def)
    moreover have "?P (?l2\<lparr>l_p := Suc (l_p ?l2)\<rparr>)"
      using l1 d0 drop_Cons [of "l_p l" "buf E" c ?t] n by (auto simp: facing_def local_defs)
    ultimately show "\<exists>l2. st_header_field_start E l1 = Break l2 \<and> ?P (l2\<lparr>l_p := Suc (l_p l2)\<rparr>)" by blast
  qed (use assms(2,4) n token_not_end(1) [OF tok(1)] in auto)
  let ?Q = "\<lambda>l'. facing E l' s_header_value_discard_ws no_marks_set (k + length name + 1) xs \<and>
    part (parser l') m v fl cl (f (Data header_field name) d) \<and> named name (header_state (parser l'))"
  have B: "leads E l' ?Q" if l': "?P l'" for l'
  proof -
    obtain pr where pr: "part pr m v fl cl d" "parser l' = pr\<lparr>index := 0, header_state := field_start_state (TOKEN c)\<rparr>" using l' by blast
    obtain c' t where t: "?t = c' # t" by (cases cs) auto
    have f: "facing E l' s_header_field ?mk (Suc k) (c' # t)" using l' t by simp
    let ?l1 = "l'\<lparr>l_ch := c', l_nread := of_nat (Suc (Suc k))\<rparr>" and ?pr = "fold name_step (map TOKEN cs) (parser l')"
    have fl: "field_loop E ?l1 = Break (?l1\<lparr>parser := ?pr, l_p := l_p l' + length cs, l_ch := oct CHR '':''\<rparr>)"
      using field_loop_run [of ?l1 E cs "oct CHR '':''" xs] l' tok token_not_end(2) pr(2)
      by (auto simp: facing_def field_start_state_def field_states_def)
    have nr: "part ?pr m v fl cl d" "named name (header_state ?pr)" using name_recognised [OF assms(3) [unfolded n] pr(1)] pr(2) n by simp_all
    have p: "l_p l' + length cs < length (buf E)" "drop (Suc (l_p l' + length cs)) (buf E) = xs"
      using drop_Cons [OF drop_append [of "l_p l'" "buf E" cs "oct CHR '':'' # xs"]] l' by (auto simp: facing_def)
    have "length (buf E) - l_p l' \<le> length (buf E) - l_p l"
      using l' arg_cong [OF d0(1), of length] by (auto simp: facing_def n dest!: arg_cong [of _ _ length])
    then have le: "l_p l \<le> l_p l' + length cs" using l' d0(2) by (auto simp: facing_def)
    have sub: "sub_octets (buf E) (l_p l) (l_p l' + length cs - l_p l) = name"
      using sub_octets_found [OF d0(1) le] p l' drop_append [of "l_p l'" "buf E" cs "oct CHR '':'' # xs"] by (auto simp: facing_def)
    let ?k = "of_nat (k + length name + 1) :: u32"
    let ?lx = "?l1\<lparr>parser := ?pr, l_p := l_p l' + length cs, l_ch := oct CHR '':''\<rparr>"
    have cnt: "COUNT_HEADER_SIZE E (length cs) ?lx rest = rest (?lx\<lparr>l_nread := ?k\<rparr>)" for rest
      using count_fits [of ?lx "Suc (Suc k)" "length cs" E] assms(4) n by simp
    let ?l2 = "?lx\<lparr>l_nread := ?k, p_state := s_header_value_discard_ws\<rparr>"
    have sw: "switch E ?l1 = Break (delivered f E header_field (l_p ?l2) ?l2)"
      using f fl p(1) nr(1) cnt
      by (simp add: switch_def facing_def st_header_field_def after_def callbacks_pure [OF assms(1)] part_def UPDATE_STATE_def
          del: of_nat_Suc of_nat_add)
    show ?thesis
      using f l' p nr sub assms(4) n
      by (intro step_once [OF f _ _ reexecute_break [OF sw]]) (auto simp: PARSING_HEADER_def delivered_def facing_def part_def)
  qed
  show ?thesis by (rule leads_trans [OF A B])
qed


section \<open>The value of a header\<close>

definition text_char :: "u8 \<Rightarrow> bool" where "text_char c \<longleftrightarrow> IS_HEADER_CHAR c \<and> c \<noteq> CR \<and> c \<noteq> LF"

definition conn_values :: "header_states set" where
  "conn_values = {h_general, h_matching_connection_token_start, h_matching_connection_keep_alive, h_matching_connection_close,
     h_matching_connection_upgrade, h_matching_connection_token, h_connection_keep_alive, h_connection_close, h_connection_upgrade}"

definition conn_flags :: "flag set" where
  "conn_flags = {F_CONNECTION_KEEP_ALIVE, F_CONNECTION_CLOSE, F_CONNECTION_UPGRADE}"

lemma general_stop:
  "\<lbrakk>drop (l_p l) (buf E) = v @ CR # xs; \<forall>c\<in>set v. text_char c; l_p l + length v < pe\<rbrakk> \<Longrightarrow>
   value_general E pe l = Break (l\<lparr>l_ch := CR, l_p := l_p l + length v - 1\<rparr>)"
proof (induction v arbitrary: l)
  case Nil
  then show ?case using drop_Cons [of "l_p l" "buf E" CR xs] by (subst value_general.simps) (simp add: Let_def)
next
  case (Cons c v)
  let ?l = "l\<lparr>l_ch := c, l_p := Suc (l_p l)\<rparr>"
  have p: "buf E ! l_p l = c" "drop (Suc (l_p l)) (buf E) = v @ CR # xs" "l_p l < pe"
    using drop_Cons [of "l_p l" "buf E" c "v @ CR # xs"] Cons.prems by auto
  have "value_general E pe ?l = Break (?l\<lparr>l_ch := CR, l_p := l_p ?l + length v - 1\<rparr>)"
    using Cons.prems p by (intro Cons.IH) auto
  then show ?case using p Cons.prems(2) by (subst value_general.simps) (simp add: Let_def text_char_def)
qed

text \<open>One more character of a value that is being looked at for the tokens of \<^verbatim>\<open>Connection\<close>.\<close>

lemma conn_switch:
  assumes "h \<in> conn_values" "h \<noteq> h_general"
  shows "\<exists>h' pr'. value_switch E h l = Inl (h', l\<lparr>parser := pr'\<rparr>) \<and> h' \<in> conn_values \<and>
    (\<forall>m w fl cl d. part (parser l) m w fl cl d \<longrightarrow> part pr' m w (flags pr') cl d \<and> flags pr' - conn_flags = fl - conn_flags)"
proof -
  consider "h = h_matching_connection_token_start" | name h2 where "h \<in> {h_matching_connection_keep_alive, h_matching_connection_close, h_matching_connection_upgrade}"
      "value_switch E h l = match_value name h_matching_connection_token h2 (LOWER (l_ch l)) h l" "h2 \<in> conn_values"
    | "h = h_matching_connection_token" | "h \<in> {h_connection_keep_alive, h_connection_close, h_connection_upgrade}"
    using assms by (auto simp: conn_values_def value_switch_def Let_def)
  then show ?thesis
  proof cases
    case 1
    then show ?thesis
      by (intro exI [of _ "fst (projl (value_switch E h l))"] exI [of _ "parser l"])
        (simp add: value_switch_def conn_values_def part_def Let_def)
  next
    case 2
    then show ?thesis
      using assms
      by (intro exI [of _ "fst (projl (value_switch E h l))"] exI [of _ "inc_index (parser l)"])
        (auto simp: match_value_def upd_parser_def Let_def conn_values_def part_def inc_index_def)
  next
    case 3
    then show ?thesis
      by (intro exI [of _ "fst (projl (value_switch E h l))"] exI [of _ "parser (snd (projl (value_switch E h l)))"])
        (auto simp: value_switch_def upd_parser_def conn_values_def part_def Let_def)
  next
    case 4
    show ?thesis
    proof (cases "l_ch l = oct CHR '',''")
      case True
      have ins: "insert (flag_of h) A - conn_flags = A - conn_flags" for A by (simp add: flag_of_def conn_flags_def insert_Diff_if)
      have "value_switch E h l = Inl (h_matching_connection_token_start, l\<lparr>parser := (parser l)\<lparr>flags := insert (flag_of h) (flags (parser l)), index := 0\<rparr>\<rparr>)"
        using 4 True by (elim insertE emptyE) (simp_all add: value_switch_def upd_parser_def Let_def)
      then show ?thesis by (intro exI conjI, assumption) (auto simp: part_def conn_values_def ins)
    next
      case False
      have "value_switch E h l = Inl (if l_ch l \<noteq> oct CHR '' '' then h_matching_connection_token else h, l\<lparr>parser := parser l\<rparr>)"
        using 4 False by (elim insertE emptyE) (simp_all add: value_switch_def Let_def)
      then show ?thesis
        using assms(1)
        by (intro exI [of _ "if l_ch l \<noteq> oct CHR '' '' then h_matching_connection_token else h"] exI [of _ "parser l"])
          (auto simp: part_def conn_values_def)
    qed
  qed
qed

lemma value_loop_text_char:
  assumes "drop (l_p l) (buf E) = c # ys" "text_char c"
  shows "value_loop E start h l = (case value_switch E h (l\<lparr>l_ch := c\<rparr>) of
      Inl (h', l2) \<Rightarrow> value_loop E start h' (l2\<lparr>l_p := l_p l2 + 1\<rparr>) | Inr r \<Rightarrow> r)"
  using assms drop_Cons [OF assms(1)] by (subst value_loop.simps) (simp add: Let_def text_char_def)

lemma text_run:
  "\<lbrakk>drop (l_p l) (buf E) = v @ CR # xs; \<forall>c\<in>set v. text_char c; h \<in> conn_values; part (parser l) m w fl cl d; length v < unat (max_header_size E)\<rbrakk> \<Longrightarrow>
   \<exists>h' l'. value_loop E start h l = value_loop E start h' l' \<and> h' \<in> conn_values \<and> l_p l' = l_p l + length v \<and> marks l' = marks l \<and>
     p_state l' = p_state l \<and> l_nread l' = l_nread l \<and> part (parser l') m w (flags (parser l')) cl d \<and>
     flags (parser l') - conn_flags = fl - conn_flags \<and> (h = h_general \<longrightarrow> h' = h_general \<and> parser l' = parser l)"
proof (induction v arbitrary: h l fl)
  case Nil
  then show ?case by (intro exI [of _ h] exI [of _ l]) (simp add: part_def)
next
  case (Cons c v)
  have p: "l_p l < length (buf E)" "buf E ! l_p l = c" "drop (Suc (l_p l)) (buf E) = v @ CR # xs"
    using drop_Cons [of "l_p l" "buf E" c "v @ CR # xs"] Cons.prems(1) by auto
  have c: "text_char c" using Cons.prems(2) by simp
  note loop = value_loop_text_char [of l E c "v @ CR # xs" start h, OF _ c]
  show ?case
  proof (cases "h = h_general")
    case True
    have len: "length (buf E) - l_p l = Suc (length v + Suc (length xs))" using arg_cong [OF Cons.prems(1), of length] by simp
    then have "l_p l + length (c # v) < window_end E (l_p l)" using Cons.prems(5) by (simp add: window_end_def)
    then have g: "value_general E (window_end E (l_p l)) (l\<lparr>l_ch := c\<rparr>) = Break (l\<lparr>l_ch := CR, l_p := l_p l + length v\<rparr>)"
      using general_stop [of "l\<lparr>l_ch := c\<rparr>" E "c # v" xs] Cons.prems by simp
    have "l_p l + length v \<noteq> length (buf E)" using len p(1) by linarith
    then have "value_loop E start h l = value_loop E start h (l\<lparr>l_ch := CR, l_p := Suc (l_p l + length v)\<rparr>)"
      using loop Cons.prems(1) g True by (simp add: value_switch_def)
    then show ?thesis
      using Cons.prems True by (intro exI [of _ h] exI [of _ "l\<lparr>l_ch := CR, l_p := Suc (l_p l + length v)\<rparr>"]) (simp add: part_def)
  next
    case False
    let ?l1 = "l\<lparr>l_ch := c\<rparr>"
    from conn_switch [OF Cons.prems(3) False, of E ?l1]
    obtain h1 pr1 where s0: "value_switch E h ?l1 = Inl (h1, ?l1\<lparr>parser := pr1\<rparr>)" "h1 \<in> conn_values"
        "\<forall>m w fl cl d. part (parser ?l1) m w fl cl d \<longrightarrow> part pr1 m w (flags pr1) cl d \<and> flags pr1 - conn_flags = fl - conn_flags"
      by (elim exE conjE) (rule that)
    have "part (parser ?l1) m w fl cl d" using Cons.prems(4) by simp
    with s0(3) have "part pr1 m w (flags pr1) cl d \<and> flags pr1 - conn_flags = fl - conn_flags" by blast
    with s0(1,2) have s: "value_switch E h ?l1 = Inl (h1, ?l1\<lparr>parser := pr1\<rparr>)" "h1 \<in> conn_values"
        "part pr1 m w (flags pr1) cl d" "flags pr1 - conn_flags = fl - conn_flags"
      by blast+
    let ?l2 = "?l1\<lparr>parser := pr1, l_p := Suc (l_p l)\<rparr>"
    have eq: "value_loop E start h l = value_loop E start h1 ?l2" using loop Cons.prems(1) s(1) by simp
    have "drop (l_p ?l2) (buf E) = v @ CR # xs" "\<forall>c\<in>set v. text_char c" "part (parser ?l2) m w (flags pr1) cl d" "length v < unat (max_header_size E)"
      using p(3) Cons.prems(2,5) s(3) by simp_all
    from Cons.IH [OF this(1,2) s(2) this(3,4)] obtain h' l' where l': "value_loop E start h1 ?l2 = value_loop E start h' l'" "h' \<in> conn_values"
        "l_p l' = l_p ?l2 + length v" "marks l' = marks ?l2" "p_state l' = p_state ?l2" "l_nread l' = l_nread ?l2"
        "part (parser l') m w (flags (parser l')) cl d" "flags (parser l') - conn_flags = flags pr1 - conn_flags"
      by (elim exE conjE) (rule that)
    then show ?thesis using eq s(4) False by (intro exI [of _ h'] exI [of _ l']) simp
  qed
qed

end
