(* ===== verification/Http_Walk_Value.thy ===== *)
theory Http_Walk_Value
  imports Http_Walk_Header
begin

text \<open>
  The parser along the value of a header: the digits of a length, the tokens of a connection
  header, any other text, and the end of the line.
\<close>

definition number :: "nat \<Rightarrow> octets \<Rightarrow> nat" where
  "number n ds = foldl (\<lambda>n c. 10 * n + (unat c - 48)) n ds"

lemma number_ge: "n \<le> number n ds"
proof (induction ds arbitrary: n)
  case (Cons c ds)
  from Cons.IH [of "10 * n + (unat c - 48)"] show ?case unfolding number_def foldl_Cons by linarith
qed (simp add: number_def)

lemma digit_char: "IS_NUM c \<Longrightarrow> text_char c \<and> c \<noteq> oct CHR '' ''"
  by (auto simp: IS_NUM_def text_char_def IS_HEADER_CHAR_def word_le_nat_alt word_less_nat_alt)

lemma length_fits:
  assumes "10 * n < 2 ^ 63"
  shows "\<not> (ULLONG_MAX - 10) div 10 < of_nat n"
proof -
  have "unat (of_nat n :: u64) \<le> n" by (simp add: unsigned_of_nat take_bit_nat_less_eq_self)
  moreover have "unat ((ULLONG_MAX - 10) div 10) = 1844674407370955160" by (simp add: ULLONG_MAX_def unat_div)
  ultimately show ?thesis using assms by (simp add: word_less_nat_alt)
qed

lemma digits_run:
  "\<lbrakk>drop (l_p l) (buf E) = ds @ CR # xs; \<forall>c\<in>set ds. IS_NUM c; part (parser l) m w fl (of_nat n) d; number n ds < 2 ^ 63\<rbrakk> \<Longrightarrow>
   \<exists>l'. value_loop E start h_content_length_num l = value_loop E start h_content_length_num l' \<and> l_p l' = l_p l + length ds \<and>
     marks l' = marks l \<and> p_state l' = p_state l \<and> l_nread l' = l_nread l \<and> part (parser l') m w fl (of_nat (number n ds)) d"
proof (induction ds arbitrary: l n)
  case Nil
  then show ?case by (intro exI [of _ l]) (simp add: number_def)
next
  case (Cons c ds)
  let ?n = "10 * n + (unat c - 48)"
  have num: "number n (c # ds) = number ?n ds" by (simp add: number_def)
  have c: "IS_NUM c" "text_char c" "c \<noteq> oct CHR '' ''" using Cons.prems(2) digit_char [of c] by simp_all
  have "10 * n < 2 ^ 63" using Cons.prems(4) num number_ge [of ?n ds] by simp
  note fits = length_fits [OF this]
  let ?l1 = "l\<lparr>l_ch := c\<rparr>"
  let ?l2 = "(upd_parser (\<lambda>pr. pr\<lparr>content_length := content_length (parser l) * 10 + of_nat (unat c - 48)\<rparr>) ?l1)\<lparr>l_p := Suc (l_p l)\<rparr>"
  have "value_switch E h_content_length_num ?l1 = Inl (h_content_length_num, upd_parser (\<lambda>pr. pr\<lparr>content_length := content_length (parser l) * 10 + of_nat (unat c - 48)\<rparr>) ?l1)"
    using c fits Cons.prems(3) by (simp add: value_switch_def length_digit_def part_def Let_def)
  then have eq: "value_loop E start h_content_length_num l = value_loop E start h_content_length_num ?l2"
    using value_loop_text_char [of l E c "ds @ CR # xs" start h_content_length_num] Cons.prems(1) c(2) by (simp add: upd_parser_def)
  have "drop (l_p ?l2) (buf E) = ds @ CR # xs" using drop_Cons [of "l_p l" "buf E" c "ds @ CR # xs"] Cons.prems(1) by simp
  moreover have "part (parser ?l2) m w fl (of_nat ?n) d" using Cons.prems(3) by (simp add: part_def upd_parser_def mult.commute)
  ultimately have "\<exists>l'. value_loop E start h_content_length_num ?l2 = value_loop E start h_content_length_num l' \<and> l_p l' = l_p ?l2 + length ds \<and>
     marks l' = marks ?l2 \<and> p_state l' = p_state ?l2 \<and> l_nread l' = l_nread ?l2 \<and> part (parser l') m w fl (of_nat (number ?n ds)) d"
    using Cons.prems(2,4) num by (intro Cons.IH) simp_all
  then show ?case using eq num by (auto simp: upd_parser_def)
qed

text \<open>From the carriage return behind a value to the next line.\<close>

lemma value_end:
  assumes "settings E = pure_settings f" "p_state l = s_header_value" "marks l = no_marks_set(header_value := Some p0)"
    and "drop (l_p l) (buf E) = CR # LF # xs" "drop p0 (buf E) = v @ CR # LF # xs" "p0 \<le> l_p l"
    and "l_nread l = of_nat a" "start \<le> l_p l" "a + (l_p l - start) \<le> unat (max_header_size E)" "part (parser l) m w fl cl d"
  shows "\<exists>l2. value_loop E start h l = Break l2 \<and>
    facing E (l2\<lparr>l_p := Suc (l_p l2)\<rparr>) s_header_almost_done no_marks_set (a + (l_p l - start)) (LF # xs) \<and>
    part (parser l2) m w fl cl (f (Data header_value v) d) \<and> header_state (parser l2) = h"
proof -
  have p: "l_p l < length (buf E)" "buf E ! l_p l = CR" "drop (Suc (l_p l)) (buf E) = LF # xs" using drop_Cons [OF assms(4)] by simp_all
  have sub: "sub_octets (buf E) p0 (l_p l - p0) = v"
    using sub_octets_found [OF assms(5,6)] assms(4) p(1) by simp
  let ?l1 = "l\<lparr>l_ch := CR, p_state := s_header_almost_done, parser := (parser l)\<lparr>header_state := h, state := s_header_almost_done, data := f (Data header_value v) d\<rparr>,
      marks := no_marks_set\<rparr>"
  have cnt: "COUNT_HEADER_SIZE E (l_p l - start) (?l1\<lparr>parser := pr\<rparr>) rest = rest (?l1\<lparr>parser := pr, l_nread := of_nat (a + (l_p l - start))\<rparr>)" for pr rest
    using count_fits [of "?l1\<lparr>parser := pr\<rparr>" a "l_p l - start" E] assms(7,9) by simp
  have "value_loop E start h l = value_done E start h ?l1"
    using p assms(2,3,10) sub
    by (subst value_loop.simps) (simp add: callbacks_pure [OF assms(1)] part_def delivered_def UPDATE_STATE_def upd_parser_def fun_upd_idem Let_def)
  also have "\<dots> = Break (?l1\<lparr>parser := (parser ?l1)\<lparr>header_state := h\<rparr>, l_nread := of_nat (a + (l_p l - start))\<rparr>)"
    using p(1) cnt by (simp add: value_done_def upd_parser_def Let_def del: of_nat_add)
  finally show ?thesis using p assms(10) by (simp add: facing_def part_def)
qed


definition value_ok :: "octets \<Rightarrow> bool" where
  "value_ok v \<longleftrightarrow> v \<noteq> [] \<and> hd v \<noteq> oct CHR '' '' \<and> hd v \<noteq> 9 \<and> (\<forall>c\<in>set v. text_char c)"

text \<open>What the first character of the value does to a parser that knows the name.\<close>

definition started :: "u8 \<Rightarrow> 'u http_parser \<Rightarrow> 'u http_parser" where
  "started c pr =
     (case header_state pr of
        h_content_length \<Rightarrow> pr\<lparr>index := 0, flags := insert F_CONTENTLENGTH (flags pr),
                    content_length := of_nat (unat c - 48), header_state := h_content_length_num\<rparr>
      | h_connection \<Rightarrow> pr\<lparr>index := 0, header_state :=
          if LOWER c = oct CHR ''k'' then h_matching_connection_keep_alive
                     else if LOWER c = oct CHR ''c'' then h_matching_connection_close
                     else if LOWER c = oct CHR ''u'' then h_matching_connection_upgrade
                     else h_matching_connection_token\<rparr>
      | _ \<Rightarrow> pr\<lparr>index := 0, header_state := h_general\<rparr>)"

lemma value_started:
  assumes "header_state (parser l) \<in> field_states" "header_state (parser l) \<noteq> h_transfer_encoding" "header_state (parser l) \<noteq> h_upgrade"
    and "header_state (parser l) = h_content_length \<Longrightarrow> IS_NUM (l_ch l) \<and> F_CONTENTLENGTH \<notin> flags (parser l)"
  shows "st_header_value_start E l = Break (upd_parser (started (l_ch l)) (UPDATE_STATE s_header_value (MARK header_value l)))"
  using assms
  by (cases "header_state (parser l)")
    (simp_all add: st_header_value_start_def started_def field_states_def UPDATE_STATE_def upd_parser_def MARK_def Let_def)

text \<open>The flags and the length behind a header, for the next line.\<close>

definition header_done :: "octets \<Rightarrow> octets \<Rightarrow> flag set \<Rightarrow> u64 \<Rightarrow> http_method \<Rightarrow> nat \<times> nat \<Rightarrow> 'u \<Rightarrow> 'u http_parser \<Rightarrow> bool" where
  "header_done k v fl cl m w d pr \<longleftrightarrow>
     (let fl' = (if is_length k then insert F_CONTENTLENGTH fl else fl)
      in part pr m w (flags pr) (if is_length k then of_nat (number 0 v) else cl) d \<and> flags pr - conn_flags = fl' - conn_flags \<and>
         (\<not> is_connection k \<longrightarrow> flags pr = fl'))"

lemma finish_header_conn:
  "part pr m w fl cl d \<Longrightarrow> header_state pr \<in> conn_values \<Longrightarrow>
   part (finish_header pr) m w (flags (finish_header pr)) cl d \<and> flags (finish_header pr) - conn_flags = fl - conn_flags \<and>
   (header_state pr = h_general \<longrightarrow> flags (finish_header pr) = fl)"
  by (cases "header_state pr") (simp_all add: finish_header_def part_def conn_values_def conn_flags_def insert_Diff_if)

lemma finish_header_num:
  "header_state pr = h_content_length_num \<Longrightarrow> finish_header pr = pr"
  by (simp add: finish_header_def)

lemma value_scan:
  fixes l :: "'u exec_locals"
  assumes "part (parser l) m w fl cl d" "named k (header_state (parser l))" "value_ok (c # v)"
    and "is_length k \<longrightarrow> F_CONTENTLENGTH \<notin> fl \<and> (\<forall>c\<in>set (c # v). IS_NUM c) \<and> number 0 (c # v) < 2 ^ 63"
    and "parser l1 = started c (parser l)" "drop (l_p l1) (buf E) = v @ CR # xs" "length v < unat (max_header_size E)"
  shows "\<exists>h' l'. value_loop E start (header_state (parser l1)) l1 = value_loop E start h' l' \<and> l_p l' = l_p l1 + length v \<and>
    marks l' = marks l1 \<and> p_state l' = p_state l1 \<and> l_nread l' = l_nread l1 \<and>
    (\<forall>(pr :: 'u http_parser) d'. part pr m w (flags (parser l')) (content_length (parser l')) d' \<and> header_state pr = h' \<longrightarrow>
       header_done k (c # v) fl cl m w d' (finish_header pr)) \<and> part (parser l') m w (flags (parser l')) (content_length (parser l')) d"
proof (cases "is_length k")
  case True
  then have h: "header_state (parser l) = h_content_length" using assms(2) by (simp add: named_def)
  have pr: "part (parser l1) m w (insert F_CONTENTLENGTH fl) (of_nat (unat c - 48)) d" "header_state (parser l1) = h_content_length_num"
    using assms(1,5) h by (simp_all add: started_def part_def)
  have num: "number 0 (c # v) = number (unat c - 48) v" by (simp add: number_def)
  from digits_run [OF assms(6) _ pr(1), of start] assms(4) [THEN mp, OF True] num
  obtain l' where l': "value_loop E start h_content_length_num l1 = value_loop E start h_content_length_num l'" "l_p l' = l_p l1 + length v"
     "marks l' = marks l1" "p_state l' = p_state l1" "l_nread l' = l_nread l1" "part (parser l') m w (insert F_CONTENTLENGTH fl) (of_nat (number 0 (c # v))) d"
    by auto
  have P: "part (parser l') m w (flags (parser l')) (content_length (parser l')) d" using l'(6) by (simp add: part_def)
  have "header_done k (c # v) fl cl m w d' (finish_header pr)"
    if "part pr m w (flags (parser l')) (content_length (parser l')) d'" "header_state pr = h_content_length_num" for pr :: "'u http_parser" and d'
    using that l'(6) True finish_header_num [of pr] by (simp add: header_done_def part_def Let_def)
  then show ?thesis using l'(1-5) pr(2) P by (intro exI [of _ h_content_length_num] exI [of _ l']) simp
next
  case False
  have h: "header_state (parser l) \<noteq> h_content_length" "header_state (parser l) \<in> field_states" "header_state (parser l) = h_connection \<longrightarrow> is_connection k"
    "header_state (parser l) \<noteq> h_transfer_encoding" "header_state (parser l) \<noteq> h_upgrade"
    using assms(2) False by (simp_all add: named_def)
  have pr: "part (parser l1) m w fl cl d" "header_state (parser l1) \<in> conn_values" "\<not> is_connection k \<longrightarrow> header_state (parser l1) = h_general"
    using assms(1,5) h by (cases "header_state (parser l)"; simp add: started_def part_def conn_values_def field_states_def)+
  have tx: "\<forall>c\<in>set v. text_char c" using assms(3) by (simp add: value_ok_def)
  from text_run [OF assms(6) tx pr(2,1) assms(7), of start]
  obtain h' l' where l': "value_loop E start (header_state (parser l1)) l1 = value_loop E start h' l'" "h' \<in> conn_values" "l_p l' = l_p l1 + length v"
     "marks l' = marks l1" "p_state l' = p_state l1" "l_nread l' = l_nread l1" "part (parser l') m w (flags (parser l')) cl d"
     "flags (parser l') - conn_flags = fl - conn_flags" "header_state (parser l1) = h_general \<longrightarrow> h' = h_general \<and> parser l' = parser l1"
    by (elim exE conjE) (rule that)
  have P: "part (parser l') m w (flags (parser l')) (content_length (parser l')) d" using l'(7) by (simp add: part_def)
  have "header_done k (c # v) fl cl m w d' (finish_header pr)"
    if "part pr m w (flags (parser l')) (content_length (parser l')) d'" "header_state pr = h'" for pr :: "'u http_parser" and d'
  proof -
    have "content_length (parser l') = cl" using l'(7) by (simp add: part_def)
    then have "part (finish_header pr) m w (flags (finish_header pr)) cl d'" "flags (finish_header pr) - conn_flags = fl - conn_flags"
        "h' = h_general \<longrightarrow> flags (finish_header pr) = flags (parser l')"
      using finish_header_conn [OF that(1)] that(2) l'(2,8) by simp_all
    then show ?thesis using False l'(9) pr(1,3) by (auto simp: header_done_def part_def)
  qed
  then show ?thesis using l'(1,3-6) P by (intro exI [of _ h'] exI [of _ l']) simp
qed


lemma value_phase:
  fixes E :: "'u exec_env"
  assumes "settings E = pure_settings f" "facing E l s_header_value_discard_ws no_marks_set k (oct CHR '' '' # v @ CRLF @ xs)"
    and "part (parser l) m w fl cl d" "named name (header_state (parser l))" "value_ok v"
    and "is_length name \<longrightarrow> F_CONTENTLENGTH \<notin> fl \<and> (\<forall>c\<in>set v. IS_NUM c) \<and> number 0 v < 2 ^ 63"
    and "k + length v + 3 \<le> unat (max_header_size E)"
  shows "leads E l (\<lambda>l'. ready E l' (k + length v + 3) xs (header_done name v fl cl m w (f (Data header_value v) d)))"
proof -
  obtain c cs where v: "v = c # cs" using assms(5) by (cases v) (auto simp: value_ok_def)
  have c: "text_char c" "c \<noteq> oct CHR '' ''" "c \<noteq> 9" using assms(5) by (simp_all add: value_ok_def v)
  let ?t = "cs @ CR # LF # xs"
  let ?A = "\<lambda>l'. facing E l' s_header_value_discard_ws no_marks_set (Suc k) (c # ?t) \<and> parser l' = parser l"
  let ?l1 = "l\<lparr>l_ch := oct CHR '' '', l_nread := of_nat (Suc k)\<rparr>"
  have sw: "switch E ?l1 = Break ?l1" using assms(2) by (simp add: facing_def switch_def st_header_value_discard_ws_def)
  have A: "leads E l ?A"
    using assms(2,7) v by (intro step_plain [OF _ _ _ sw]) (auto simp: PARSING_HEADER_def facing_def CRLF_def)
  let ?B = "\<lambda>l'. \<exists>p0. facing E l' s_header_value (no_marks_set(header_value := Some p0)) (Suc (Suc k)) ?t \<and> parser l' = started c (parser l) \<and>
      drop p0 (buf E) = c # ?t \<and> l_p l' = Suc p0"
  have B: "leads E l' ?B" if l': "?A l'" for l'
  proof -
    let ?l1 = "l'\<lparr>l_ch := c, l_nread := of_nat (Suc (Suc k))\<rparr>"
    let ?l2 = "upd_parser (started c) (UPDATE_STATE s_header_value (MARK header_value ?l1))"
    have f: "facing E l' s_header_value_discard_ws no_marks_set (Suc k) (c # ?t)" "p_state l' = s_header_value_discard_ws" using l' by (simp_all add: facing_def)
    have "st_header_value_start E ?l1 = Break ?l2"
      using value_started [of ?l1 E] l' assms(3,4,6) v by (auto simp: named_def part_def)
    then have sw: "switch E ?l1 = Break ?l2" using f c by (simp add: switch_def st_header_value_discard_ws_def text_char_def)
    show ?thesis
      using f l' assms(7) v drop_Cons [of "l_p l'" "buf E" c ?t]
      by (intro step_once [OF f(1) _ _ reexecute_break [OF sw]])
        (auto simp: PARSING_HEADER_def facing_def upd_parser_def UPDATE_STATE_def MARK_def intro!: exI [of _ "l_p l'"])
  qed
  let ?k = "k + length v + 2"
  let ?C = "\<lambda>l'. facing E l' s_header_almost_done no_marks_set ?k (LF # xs) \<and> header_done name v fl cl m w (f (Data header_value v) d) (finish_header (parser l'))"
  have C: "leads E l' ?C" if "?B l'" for l'
  proof -
    obtain p0 where l': "facing E l' s_header_value (no_marks_set(header_value := Some p0)) (Suc (Suc k)) ?t" "parser l' = started c (parser l)"
        "drop p0 (buf E) = v @ CR # LF # xs" "l_p l' = Suc p0"
      using \<open>?B l'\<close> v by auto
    obtain c' t where t: "?t = c' # t" by (cases cs) auto
    let ?l1 = "l'\<lparr>l_ch := c', l_nread := of_nat (Suc (Suc (Suc k)))\<rparr>"
    have d1: "drop (l_p ?l1) (buf E) = cs @ CR # LF # xs" "parser ?l1 = started c (parser l)" using l' by (simp_all add: facing_def)
    have "length cs < unat (max_header_size E)" using assms(7) v by simp
    from value_scan [OF assms(3,4) assms(5) [unfolded v] assms(6) [unfolded v] d1(2,1) this, of "l_p l'"]
    obtain h l2 where l2: "value_loop E (l_p l') (header_state (parser ?l1)) ?l1 = value_loop E (l_p l') h l2" "l_p l2 = l_p ?l1 + length cs"
        "marks l2 = marks ?l1" "p_state l2 = p_state ?l1" "l_nread l2 = l_nread ?l1"
        "\<forall>(pr :: 'u http_parser) d'. part pr m w (flags (parser l2)) (content_length (parser l2)) d' \<and> header_state pr = h \<longrightarrow>
           header_done name (c # cs) fl cl m w d' (finish_header pr)"
        "part (parser l2) m w (flags (parser l2)) (content_length (parser l2)) d"
      by (elim exE conjE) (rule that)
    have pre: "p_state l2 = s_header_value" "marks l2 = no_marks_set(header_value := Some p0)" "drop (l_p l2) (buf E) = CR # LF # xs" "p0 \<le> l_p l2"
        "l_nread l2 = of_nat (Suc (Suc (Suc k)))" "l_p l' \<le> l_p l2" "Suc (Suc (Suc k)) + (l_p l2 - l_p l') \<le> unat (max_header_size E)"
      using l2(2-5) l'(1,4) assms(7) v drop_append [OF d1(1)] by (simp_all add: facing_def)
    from value_end [OF assms(1) pre(1-3) l'(3) pre(4-7) l2(7), of h]
    obtain l3 where l3: "value_loop E (l_p l') h l2 = Break l3"
        "facing E (l3\<lparr>l_p := Suc (l_p l3)\<rparr>) s_header_almost_done no_marks_set (Suc (Suc (Suc k)) + (l_p l2 - l_p l')) (LF # xs)"
        "part (parser l3) m w (flags (parser l2)) (content_length (parser l2)) (f (Data header_value v) d)" "header_state (parser l3) = h"
      by (elim exE conjE) (rule that)
    have k: "Suc (Suc (Suc k)) + (l_p l2 - l_p l') = ?k" using l2(2) v by simp
    have hd: "header_done name v fl cl m w (f (Data header_value v) d) (finish_header (parser l3))" using l2(6) l3(3,4) v by blast
    have f: "facing E l' s_header_value (no_marks_set(header_value := Some p0)) (Suc (Suc k)) (c' # t)" using l'(1) t by simp
    have sw: "switch E ?l1 = Break l3"
      using f l2(1) l3(1) by (simp add: facing_def switch_def st_header_value_def)
    show ?thesis
      using l3(2) hd k assms(7) v by (intro step_once [OF f _ _ reexecute_break [OF sw]]) (auto simp: PARSING_HEADER_def)
  qed
  have D: "leads E l' (\<lambda>l'. ready E l' (k + length v + 3) xs (header_done name v fl cl m w (f (Data header_value v) d)))" if l': "?C l'" for l'
  proof -
    let ?l1 = "l'\<lparr>l_ch := LF, l_nread := of_nat (Suc ?k)\<rparr>"
    have sw: "switch E ?l1 = Break (UPDATE_STATE s_header_value_lws ?l1)" using l' by (simp add: facing_def switch_def st_header_almost_done_def)
    have "leads E l' (\<lambda>l'. facing E l' s_header_value_lws no_marks_set (Suc ?k) xs \<and> header_done name v fl cl m w (f (Data header_value v) d) (finish_header (parser l')))"
      using l' assms(7) by (intro step_plain [OF _ _ _ sw]) (auto simp: PARSING_HEADER_def UPDATE_STATE_def facing_def)
    moreover have "Suc ?k = k + length v + 3" by simp
    ultimately show ?thesis unfolding ready_def by (metis (no_types, lifting) leads_def)
  qed
  show ?thesis by (rule leads_trans [OF leads_trans [OF leads_trans [OF A B] C] D])
qed

end
