(* ===== verification/Http_Requests.thy ===== *)
theory Http_Requests
  imports Http_Walk_Value Http_Message
begin

text \<open>
  Requests as \<^verbatim>\<open>http_request.cpp\<close> writes them, one or several on a connection, read by the parser of
  \<^verbatim>\<open>http_parser.c\<close>: the walk of the loop along a whole request, put together from the walks along
  its parts, and the callbacks it makes.
\<close>

section \<open>Header lines\<close>

lemma header_line:
  assumes "settings E = pure_settings f" "ready E l k (name @ str '': '' @ v @ CRLF @ xs) (\<lambda>pr. part pr m w fl cl d)"
    and "name_ok name" "value_ok v" "is_length name \<longrightarrow> F_CONTENTLENGTH \<notin> fl \<and> (\<forall>c\<in>set v. IS_NUM c) \<and> number 0 v < 2 ^ 63"
    and "k + length (name @ str '': '' @ v @ CRLF) \<le> unat (max_header_size E)"
  shows "leads E l (\<lambda>l'. ready E l' (k + length (name @ str '': '' @ v @ CRLF)) xs
    (header_done name v fl cl m w (f (Data header_value v) (f (Data header_field name) d))))"
proof -
  have A: "leads E l (\<lambda>l'. facing E l' s_header_value_discard_ws no_marks_set (k + length name + 1) (oct CHR '' '' # v @ CRLF @ xs) \<and>
    part (parser l') m w fl cl (f (Data header_field name) d) \<and> named name (header_state (parser l')))"
    using field_phase [OF assms(1) _ assms(3), of l k "oct CHR '' '' # v @ CRLF @ xs" m w fl cl d] assms(2,6) by (simp add: str_def CRLF_def)
  have n: "k + length name + 1 + length v + 3 = k + length (name @ str '': '' @ v @ CRLF)" by (simp add: str_def CRLF_def)
  show ?thesis
    using value_phase [OF assms(1) _ _ _ assms(4,5)] assms(6) unfolding n [symmetric] by (intro leads_trans [OF A]) blast
qed

definition flags_ok :: "bool \<Rightarrow> bool \<Rightarrow> flag set \<Rightarrow> bool" where
  "flags_ok b cn fl \<longleftrightarrow> fl - conn_flags = (if b then {F_CONTENTLENGTH} else {}) \<and> (\<not> cn \<longrightarrow> fl \<inter> conn_flags = {})"

fun headers_ok :: "bool \<Rightarrow> header_map \<Rightarrow> bool" where
  "headers_ok b [] = True"
| "headers_ok b ((k, v) # hs) =
     (name_ok k \<and> value_ok v \<and> (is_length k \<longrightarrow> \<not> b \<and> (\<forall>c\<in>set v. IS_NUM c) \<and> number 0 v < 2 ^ 63) \<and> headers_ok (b \<or> is_length k) hs)"

fun length_of :: "u64 \<Rightarrow> header_map \<Rightarrow> u64" where
  "length_of cl [] = cl"
| "length_of cl ((k, v) # hs) = length_of (if is_length k then of_nat (number 0 v) else cl) hs"

fun header_events :: "header_map \<Rightarrow> event list" where
  "header_events [] = []"
| "header_events ((k, v) # hs) = Data header_field k # Data header_value v # header_events hs"

definition head_state :: "http_method \<Rightarrow> nat \<times> nat \<Rightarrow> bool \<Rightarrow> bool \<Rightarrow> u64 \<Rightarrow> 'u \<Rightarrow> 'u http_parser \<Rightarrow> bool" where
  "head_state m w b cn cl d pr \<longleftrightarrow> part pr m w (flags pr) cl d \<and> flags_ok b cn (flags pr)"

lemma ready_flags: "ready E l k xs (head_state m w b cn cl d) \<Longrightarrow> \<exists>fl. ready E l k xs (\<lambda>pr. part pr m w fl cl d) \<and> flags_ok b cn fl"
  by (auto simp: ready_def head_state_def)

lemma ready_mono: "ready E l k xs P \<Longrightarrow> (\<And>pr. P pr \<Longrightarrow> Q pr) \<Longrightarrow> ready E l k xs Q"
  by (auto simp: ready_def)

lemma header_done_state:
  "\<lbrakk>header_done k v fl cl m w d pr; flags_ok b cn fl\<rbrakk> \<Longrightarrow>
   head_state m w (b \<or> is_length k) (cn \<or> is_connection k) (if is_length k then of_nat (number 0 v) else cl) d pr"
  by (auto simp: header_done_def head_state_def flags_ok_def conn_flags_def Let_def split: if_splits)

lemma header_lines:
  "\<lbrakk>settings E = pure_settings f; ready E l k (Headers_SerializeToString hs @ xs) (head_state m w b cn cl d); headers_ok b hs;
    k + length (Headers_SerializeToString hs) \<le> unat (max_header_size E)\<rbrakk> \<Longrightarrow>
   leads E l (\<lambda>l'. ready E l' (k + length (Headers_SerializeToString hs)) xs
     (head_state m w (b \<or> (\<exists>(k, v)\<in>set hs. is_length k)) (cn \<or> (\<exists>(k, v)\<in>set hs. is_connection k)) (length_of cl hs) (fold f (header_events hs) d)))"
proof (induction hs arbitrary: l k b cn cl d)
  case Nil
  then show ?case by (intro leads_refl) (simp add: Headers_SerializeToString_def)
next
  case (Cons h hs)
  obtain n v where h: "h = (n, v)" by force
  let ?s = "n @ str '': '' @ v @ CRLF" and ?d = "f (Data header_value v) (f (Data header_field n) d)"
  define cl' where "cl' = (if is_length n then of_nat (number 0 v) else cl)"
  have ser: "Headers_SerializeToString ((n, v) # hs) = ?s @ Headers_SerializeToString hs" by (simp add: Headers_SerializeToString_def)
  obtain fl where fl: "ready E l k (?s @ Headers_SerializeToString hs @ xs) (\<lambda>pr. part pr m w fl cl d)" "flags_ok b cn fl"
    using ready_flags [OF Cons.prems(2)] ser by (auto simp: h)
  have ok: "name_ok n" "value_ok v" "is_length n \<longrightarrow> \<not> b \<and> (\<forall>c\<in>set v. IS_NUM c) \<and> number 0 v < 2 ^ 63" "headers_ok (b \<or> is_length n) hs"
    using Cons.prems(3) h by simp_all
  have "\<not> b \<Longrightarrow> F_CONTENTLENGTH \<notin> fl" using fl(2) by (auto simp: flags_ok_def conn_flags_def)
  then have "leads E l (\<lambda>l'. ready E l' (k + length ?s) (Headers_SerializeToString hs @ xs) (header_done n v fl cl m w ?d))"
    using fl(1) ok Cons.prems(4) ser by (intro header_line [OF Cons.prems(1)]) (auto simp: h)
  then have A: "leads E l (\<lambda>l'. ready E l' (k + length ?s) (Headers_SerializeToString hs @ xs)
      (head_state m w (b \<or> is_length n) (cn \<or> is_connection n) cl' ?d))"
    unfolding cl'_def by (rule leads_mono) (erule ready_mono, rule header_done_state [OF _ fl(2)])
  show ?case
    using Cons.IH [OF Cons.prems(1) _ ok(4), of _ "k + length ?s" "cn \<or> is_connection n" cl' ?d] Cons.prems(4)
    by (intro leads_trans [OF A]) (simp add: ser h disj_assoc add.assoc flip: cl'_def)
qed


section \<open>The end of the headers and the body\<close>

definition whole :: "'u exec_locals \<Rightarrow> http_method \<Rightarrow> nat \<times> nat \<Rightarrow> 'u \<Rightarrow> bool" where
  "whole l m w d \<longleftrightarrow>
     http_errno (parser l) = HPE_OK \<and> ptype (parser l) = HTTP_REQUEST \<and> p_method (parser l) = m \<and>
     (http_major (parser l), http_minor (parser l)) = w \<and> data (parser l) = d"

text \<open>The state after a message: the next message, or nothing more on a connection that is not kept alive.\<close>

definition after_message :: "'u exec_env \<Rightarrow> 'u exec_locals \<Rightarrow> octets \<Rightarrow> bool \<Rightarrow> bool" where
  "after_message E l xs keep \<longleftrightarrow> (\<exists>s\<in>{s_start_req, s_dead}. facing E l s no_marks_set 0 xs \<and> (keep \<longrightarrow> s = s_start_req))"

definition keeps_alive :: "nat \<times> nat \<Rightarrow> bool \<Rightarrow> bool" where
  "keeps_alive w cn \<longleftrightarrow> fst w > 0 \<and> snd w > 0 \<and> \<not> cn"

lemma new_message_request:
  "\<lbrakk>ptype pr = HTTP_REQUEST; (http_major pr, http_minor pr) = w; flags_ok b cn (flags pr)\<rbrakk> \<Longrightarrow>
   NEW_MESSAGE pr \<in> {s_start_req, s_dead} \<and> (keeps_alive w cn \<longrightarrow> NEW_MESSAGE pr = s_start_req)"
proof -
  assume a: "ptype pr = HTTP_REQUEST" "(http_major pr, http_minor pr) = w" "flags_ok b cn (flags pr)"
  have "\<not> cn \<longrightarrow> F_CONNECTION_CLOSE \<notin> flags pr" using a(3) by (auto simp: flags_ok_def conn_flags_def)
  then show ?thesis
    using a(1,2) by (auto simp: NEW_MESSAGE_def start_state_def http_should_keep_alive_def http_message_needs_eof_def keeps_alive_def)
qed

lemma flags_ok_plain:
  "flags_ok b cn fl \<Longrightarrow> F_CHUNKED \<notin> fl \<and> F_TRAILING \<notin> fl \<and> F_UPGRADE \<notin> fl \<and> F_SKIPBODY \<notin> fl"
  by (auto simp: flags_ok_def conn_flags_def split: if_splits)

lemma head_end:
  fixes E :: "'u exec_env"
  assumes "settings E = pure_settings f" "ready E l k (CRLF @ xs) (head_state m w b cn cl d)" "m \<noteq> HTTP_CONNECT" "k + 2 \<le> unat (max_header_size E)"
  shows "leads E l (\<lambda>l'.
    if cl = 0 \<or> cl = ULLONG_MAX
    then after_message E l' xs (keeps_alive w cn) \<and> whole l' m w (f (Notify message_complete) (f (Notify headers_complete) d))
    else facing E l' s_body_identity no_marks_set 0 xs \<and> head_state m w b cn cl (f (Notify headers_complete) d) (parser l') \<and> \<not> upgrade (parser l'))"
    (is "leads E l ?R")
proof -
  let ?A = "\<lambda>l'. facing E l' s_headers_almost_done no_marks_set (Suc k) (LF # xs) \<and> head_state m w b cn cl d (parser l')"
  have A: "leads E l ?A"
  proof (rule ready_step [of E l k CR "LF # xs" "head_state m w b cn cl d"])
    fix l1 :: "'u exec_locals"
    assume l1: "p_state l1 = s_header_field_start" "l_ch l1 = CR" "l_nread l1 = of_nat (Suc k)" "marks l1 = no_marks_set" "l_p l1 = l_p l"
      "head_state m w b cn cl d (parser l1)"
    have "drop (l_p l) (buf E) = CR # LF # xs" using assms(2) by (auto simp: ready_def facing_def CRLF_def)
    from drop_Cons [OF this] show "\<exists>l2. st_header_field_start E l1 = Break l2 \<and> ?A (l2\<lparr>l_p := Suc (l_p l2)\<rparr>)"
      using l1 by (auto simp: st_header_field_start_def facing_def UPDATE_STATE_def)
  qed (use assms(2,4) in \<open>auto simp: CRLF_def\<close>)
  have B: "leads E l' ?R" if l': "?A l'" for l'
  proof -
    let ?l1 = "l'\<lparr>l_ch := LF, l_nread := of_nat (Suc (Suc k))\<rparr>"
    have f: "facing E l' s_headers_almost_done no_marks_set (Suc k) (LF # xs)" "part (parser l') m w (flags (parser l')) cl d" "flags_ok b cn (flags (parser l'))"
      using l' by (simp_all add: head_state_def)
    note fl = flags_ok_plain [OF f(3)]
    let ?l2 = "?l1\<lparr>p_state := s_headers_done, parser := (parser l')\<lparr>upgrade := False, data := f (Notify headers_complete) d\<rparr>\<rparr>"
    have s1: "switch E ?l1 = Reexecute ?l2"
      using f fl assms(3)
      by (simp add: switch_def facing_def st_headers_almost_done_def STRICT_CHECK_def part_def headers_complete_pure [OF assms(1)] UPDATE_STATE_def upd_parser_def set_upgrade_def)
    let ?l3 = "zero_nread ?l2"
    let ?nm = "NEW_MESSAGE (parser ?l3)"
    have p: "l_p l' < length (buf E)" "drop (Suc (l_p l')) (buf E) = xs" using f(1) drop_Cons [of "l_p l'" "buf E" LF xs] by (auto simp: facing_def)
    have nm: "?nm \<in> {s_start_req, s_dead}" "keeps_alive w cn \<longrightarrow> ?nm = s_start_req"
      using new_message_request [of "parser ?l3" w b cn] f(2,3) by (simp_all add: part_def zero_nread_def upd_parser_def)
    show ?thesis
    proof (cases "cl = 0 \<or> cl = ULLONG_MAX")
      case True
      have s2: "switch E ?l2 = Break (notified f message_complete (UPDATE_STATE ?nm ?l3))"
        using True f(2) fl
        by (elim disjE) (simp_all add: switch_def st_headers_done_def STRICT_CHECK_def zero_nread_def upd_parser_def Let_def part_def new_message_def
            callbacks_pure [OF assms(1)] http_message_needs_eof_def UPDATE_STATE_def ULLONG_MAX_def)
      let ?l4 = "notified f message_complete (UPDATE_STATE ?nm ?l3)"
      have "after_message E (?l4\<lparr>l_p := Suc (l_p ?l4)\<rparr>) xs (keeps_alive w cn)"
        unfolding after_message_def using p nm f(1) by (intro bexI [of _ ?nm]) (simp_all add: facing_def notified_def UPDATE_STATE_def zero_nread_def upd_parser_def)
      moreover have "whole (?l4\<lparr>l_p := Suc (l_p ?l4)\<rparr>) m w (f (Notify message_complete) (f (Notify headers_complete) d))"
        using f(2) by (simp add: whole_def part_def notified_def UPDATE_STATE_def zero_nread_def upd_parser_def)
      ultimately show ?thesis
        using assms(4) True by (intro step_once [OF f(1) _ _ reexecute_again [OF s1 s2]]) (simp_all add: PARSING_HEADER_def)
    next
      case False
      have s2: "switch E ?l2 = Break (UPDATE_STATE s_body_identity ?l3)"
        using f(2) fl False by (simp add: switch_def st_headers_done_def STRICT_CHECK_def zero_nread_def upd_parser_def Let_def part_def)
      show ?thesis
        using f assms(4) False p
        by (intro step_once [OF f(1) _ _ reexecute_again [OF s1 s2]])
          (auto simp: PARSING_HEADER_def facing_def UPDATE_STATE_def head_state_def part_def zero_nread_def upd_parser_def)
    qed
  qed
  show ?thesis by (rule leads_trans [OF A B])
qed


lemma step_body:
  assumes "facing E l s mk k (c # xs)" "\<not> PARSING_HEADER s" "reexecute REEXECUTE_MAX E (l\<lparr>l_ch := c\<rparr>) = Break l2" "P (l2\<lparr>l_p := Suc (l_p l2)\<rparr>)"
  shows "leads E l P"
proof -
  have p: "l_p l < length (buf E)" "buf E ! l_p l = c" "p_state l = s"
    using assms(1) drop_Cons [of "l_p l" "buf E" c xs] by (auto simp: facing_def)
  then have "byte_step E l = Break l2" using assms(2,3) by (simp add: byte_step_def Let_def)
  then have "exec_loop E l = exec_loop E (l2\<lparr>l_p := Suc (l_p l2)\<rparr>)" using p by (subst exec_loop.simps) simp
  then show ?thesis using assms(4) by (auto simp: leads_def)
qed

lemma of_nat_length_u64:
  assumes "bd \<noteq> []" "length bd < 2 ^ 63"
  shows "unat (of_nat (length bd) :: u64) = length bd" "(of_nat (length bd) :: u64) \<noteq> 0" "(of_nat (length bd) :: u64) \<noteq> ULLONG_MAX"
proof -
  show len: "unat (of_nat (length bd) :: u64) = length bd" using assms(2) by (simp add: unsigned_of_nat take_bit_nat_eq_self)
  have "unat ULLONG_MAX = 18446744073709551615" by (simp add: ULLONG_MAX_def unsigned_minus_1_eq_mask mask_eq_exp_minus_1)
  then have "unat (of_nat (length bd) :: u64) \<noteq> unat ULLONG_MAX" unfolding len using assms(2) by simp
  then show "(of_nat (length bd) :: u64) \<noteq> ULLONG_MAX" by metis
  show "(of_nat (length bd) :: u64) \<noteq> 0" using len assms(1) by (metis length_0_conv unat_0)
qed

lemma body_phase:
  assumes "settings E = pure_settings f" "facing E l s_body_identity no_marks_set 0 (bd @ xs)" "head_state m w b cn (of_nat (length bd)) d (parser l)"
    and "\<not> upgrade (parser l)" "bd \<noteq> []" "length bd < 2 ^ 63"
  shows "leads E l (\<lambda>l'. after_message E l' xs (keeps_alive w cn) \<and> whole l' m w (f (Notify message_complete) (f (Data body bd) d)))"
proof -
  obtain c t where t: "bd @ xs = c # t" using assms(5) by (cases bd) auto
  have f: "p_state l = s_body_identity" "marks l = no_marks_set" "drop (l_p l) (buf E) = bd @ xs" "l_p l \<le> length (buf E)" "l_nread l = 0"
    using assms(2) by (simp_all add: facing_def)
  have pr: "part (parser l) m w (flags (parser l)) (of_nat (length bd)) d" "flags_ok b cn (flags (parser l))" using assms(3) by (simp_all add: head_state_def)
  note len = of_nat_length_u64(1) [OF assms(5,6)] and big = of_nat_length_u64(2,3) [OF assms(5,6)]
  have tl: "length (buf E) - l_p l = length bd + length xs" using arg_cong [OF f(3), of length] by simp
  let ?l1 = "l\<lparr>l_ch := c\<rparr>" and ?p = "l_p l + length bd - 1"
  let ?l2 = "?l1\<lparr>marks := no_marks_set(body := Some (l_p l)), parser := (parser l)\<lparr>content_length := 0\<rparr>, l_p := ?p\<rparr>"
  have rb: "read_body E ?l1 = ?l2" using f tl pr(1) len by (simp add: read_body_def MARK_def upd_parser_def part_def Let_def)
  have suc: "Suc ?p = l_p l + length bd" using assms(5) by (cases bd) simp_all
  have sub: "sub_octets (buf E) (l_p l) (Suc ?p - l_p l) = bd" using f(3) suc by (simp add: sub_octets_def)
  let ?l3 = "?l2\<lparr>p_state := s_message_done, parser := (parser l)\<lparr>content_length := 0, state := s_message_done, data := f (Data body bd) d\<rparr>, marks := no_marks_set\<rparr>"
  have s1: "switch E ?l1 = Reexecute ?l3"
    using f(1) pr(1) big sub
    by (simp add: switch_def st_body_identity_def assertion_def part_def rb callbacks_pure [OF assms(1)] delivered_def UPDATE_STATE_def fun_upd_idem Let_def
        del: read_body_ch)
  let ?nm = "NEW_MESSAGE (parser ?l3)"
  let ?l4 = "notified f message_complete (UPDATE_STATE ?nm ?l3)"
  have s2: "switch E ?l3 = Break ?l4"
    using pr(1) assms(4) by (simp add: switch_def st_message_done_def new_message_def callbacks_pure [OF assms(1)] part_def notified_def UPDATE_STATE_def)
  have nm: "?nm \<in> {s_start_req, s_dead}" "keeps_alive w cn \<longrightarrow> ?nm = s_start_req"
    using new_message_request [of "parser ?l3" w b cn] pr by (simp_all add: part_def)
  have "drop (Suc ?p) (buf E) = xs" "Suc ?p \<le> length (buf E)" using drop_append [OF f(3)] suc tl assms(5) f(4) by (cases bd; simp)+
  then have "after_message E (?l4\<lparr>l_p := Suc (l_p ?l4)\<rparr>) xs (keeps_alive w cn)"
    unfolding after_message_def using nm f(5) by (intro bexI [of _ ?nm]) (simp_all add: facing_def notified_def UPDATE_STATE_def)
  moreover have "whole (?l4\<lparr>l_p := Suc (l_p ?l4)\<rparr>) m w (f (Notify message_complete) (f (Data body bd) d))"
    using pr(1) by (simp add: whole_def part_def notified_def UPDATE_STATE_def)
  ultimately show ?thesis
    using assms(2) t by (intro step_body [OF _ _ reexecute_again [OF s1 s2]]) (auto simp: PARSING_HEADER_def)
qed


section \<open>Whole requests\<close>

definition body_ok :: "header_map \<Rightarrow> octets \<Rightarrow> bool" where
  "body_ok hs b = (case filter (\<lambda>(k, v). is_length k) hs of [] \<Rightarrow> b = [] | (k, v) # r \<Rightarrow> number 0 v = length b)"

lemma length_of_later: "headers_ok True hs \<Longrightarrow> length_of cl hs = cl \<and> filter (\<lambda>(k, v). is_length k) hs = []"
  by (induction hs arbitrary: cl) (auto split: if_splits)

lemma length_of_body:
  "\<lbrakk>headers_ok False hs; body_ok hs b\<rbrakk> \<Longrightarrow>
   length_of cl hs = (if \<exists>(k, v)\<in>set hs. is_length k then of_nat (length b) else cl) \<and>
   ((\<exists>(k, v)\<in>set hs. is_length k) \<longrightarrow> length b < 2 ^ 63) \<and> (\<not> (\<exists>(k, v)\<in>set hs. is_length k) \<longrightarrow> b = [])"
proof (induction hs)
  case (Cons h hs)
  obtain k v where h: "h = (k, v)" by force
  show ?case
  proof (cases "is_length k")
    case True
    then show ?thesis using Cons.prems length_of_later [of hs "of_nat (number 0 v)"] by (simp add: h body_ok_def)
  next
    case False
    then show ?thesis using Cons by (simp add: h body_ok_def)
  qed
qed (simp add: body_ok_def)

definition request_is :: "HttpRequest \<Rightarrow> http_method \<Rightarrow> u8 \<Rightarrow> u8 \<Rightarrow> bool" where
  "request_is q m a b \<longleftrightarrow>
     m_method q = http_method_str m \<and> m \<noteq> HTTP_CONNECT \<and> url_ok (m_url q) \<and>
     m_version q = str ''HTTP/'' @ [a, oct CHR ''.'', b] \<and> IS_NUM a \<and> IS_NUM b \<and>
     headers_ok False (m_headers q) \<and> body_ok (m_headers q) (m_body q)"

definition request_ok :: "HttpRequest \<Rightarrow> bool" where
  "request_ok q \<longleftrightarrow> (\<exists>m a b. request_is q m a b)"

definition request_events :: "HttpRequest \<Rightarrow> event list" where
  "request_events q =
     [Notify message_begin, Data url (m_url q)] @ header_events (m_headers q) @ [Notify headers_complete] @
     (if m_body q = [] then [] else [Data body (m_body q)]) @ [Notify message_complete]"

definition head_of :: "HttpRequest \<Rightarrow> octets" where
  "head_of q = m_method q @ str '' '' @ m_url q @ str '' '' @ m_version q @ CRLF @ Headers_SerializeToString (m_headers q) @ CRLF"

lemma request_text: "Request_SerializeToString q = head_of q @ m_body q"
  by (simp add: Request_SerializeToString_def head_of_def)

definition persistent :: "HttpRequest \<Rightarrow> bool" where
  "persistent q \<longleftrightarrow> m_version q ! 5 \<noteq> oct CHR ''0'' \<and> m_version q ! 7 \<noteq> oct CHR ''0'' \<and> \<not> (\<exists>(k, v)\<in>set (m_headers q). is_connection k)"

lemma digit_positive: "IS_NUM c \<Longrightarrow> c \<noteq> oct CHR ''0'' \<Longrightarrow> unat c - 48 > 0"
proof -
  assume a: "IS_NUM c" "c \<noteq> oct CHR ''0''"
  have "48 \<le> unat c" using a(1) by (simp add: IS_NUM_def word_le_nat_alt)
  moreover have "unat c \<noteq> 48" using a(2) by (simp add: word_unat_eq_iff)
  ultimately show ?thesis by simp
qed


lemma request_walk:
  fixes E :: "'u exec_env"
  assumes "settings E = pure_settings f" "facing E l s_start_req no_marks_set 0 (Request_SerializeToString q @ xs)" "request_is q m a b"
    and "http_errno (parser l) = HPE_OK" "ptype (parser l) = HTTP_REQUEST" "data (parser l) = d"
    and "length (head_of q) \<le> unat (max_header_size E)"
  shows "leads E l (\<lambda>l'. after_message E l' xs (persistent q) \<and> whole l' m (unat a - 48, unat b - 48) (fold f (request_events q) d))"
proof -
  have q: "m_method q = http_method_str m" "m \<noteq> HTTP_CONNECT" "url_ok (m_url q)" "m_version q = str ''HTTP/'' @ [a, oct CHR ''.'', b]"
      "IS_NUM a" "IS_NUM b" "headers_ok False (m_headers q)" "body_ok (m_headers q) (m_body q)"
    using assms(3) by (simp_all add: request_is_def)
  let ?hs = "Headers_SerializeToString (m_headers q)" and ?w = "(unat a - 48, unat b - 48)"
  let ?r3 = "?hs @ CRLF @ m_body q @ xs"
  let ?r2 = "str ''HTTP/'' @ [a, oct CHR ''.'', b] @ CRLF @ ?r3" and ?n1 = "length (http_method_str m) + 1"
  let ?n2 = "?n1 + length (m_url q) + 1"
  let ?n3 = "?n2 + 10"
  let ?d1 = "f (Notify message_begin) d"
  let ?d2 = "f (Data url (m_url q)) ?d1"
  let ?d3 = "fold f (header_events (m_headers q)) ?d2"
  let ?b = "\<exists>(k, v)\<in>set (m_headers q). is_length k" and ?cn = "\<exists>(k, v)\<in>set (m_headers q). is_connection k"
  have room: "?n3 + length ?hs + 2 \<le> unat (max_header_size E)" using assms(7) q(1,4) by (simp add: head_of_def str_def CRLF_def)
  have sp: "str '' '' = [oct CHR '' '']" by (simp add: str_def)
  have "leads E l (\<lambda>l'. facing E l' s_req_spaces_before_url no_marks_set (0 + length (http_method_str m) + 1) (m_url q @ oct CHR '' '' # ?r2) \<and>
      (\<exists>v. part (parser l') m v {} ULLONG_MAX ?d1))"
    using assms(2,4-6) room q(1,4)
    by (intro method_phase [OF assms(1)]) (simp_all add: Request_SerializeToString_def sp)
  then have A: "leads E l (\<lambda>l'. facing E l' s_req_spaces_before_url no_marks_set ?n1 (m_url q @ oct CHR '' '' # ?r2) \<and>
      (\<exists>v. part (parser l') m v {} ULLONG_MAX ?d1))" by simp
  have B: "leads E l' (\<lambda>l'. facing E l' s_req_http_start no_marks_set ?n2 ?r2 \<and> (\<exists>v. part (parser l') m v {} ULLONG_MAX ?d2))"
    if l': "facing E l' s_req_spaces_before_url no_marks_set ?n1 (m_url q @ oct CHR '' '' # ?r2) \<and> (\<exists>v. part (parser l') m v {} ULLONG_MAX ?d1)" for l'
  proof -
    have lt: "?n1 + length (m_url q) < unat (max_header_size E)" using room by simp
    from l' obtain v where v: "part (parser l') m v {} ULLONG_MAX ?d1" by blast
    show ?thesis by (rule leads_mono [OF url_phase [OF assms(1) conjunct1 [OF l'] v q(2,3) lt]]) blast
  qed
  have C: "leads E l' (\<lambda>l'. facing E l' s_header_field_start no_marks_set ?n3 ?r3 \<and> part (parser l') m ?w {} ULLONG_MAX ?d2)"
    if l': "facing E l' s_req_http_start no_marks_set ?n2 ?r2 \<and> (\<exists>v. part (parser l') m v {} ULLONG_MAX ?d2)" for l'
  proof -
    from l' obtain v where "part (parser l') m v {} ULLONG_MAX ?d2" by blast
    from version_phase [OF conjunct1 [OF l'] this q(5,6)] show ?thesis using room by simp
  qed
  have D: "leads E l' (\<lambda>l'. ready E l' (?n3 + length ?hs) (CRLF @ m_body q @ xs) (head_state m ?w ?b ?cn (length_of ULLONG_MAX (m_headers q)) ?d3))"
    if l': "facing E l' s_header_field_start no_marks_set ?n3 ?r3 \<and> part (parser l') m ?w {} ULLONG_MAX ?d2" for l'
  proof -
    have "flags (parser l') = {}" using l' by (simp add: part_def)
    then have "ready E l' ?n3 ?r3 (head_state m ?w False False ULLONG_MAX ?d2)" using l' by (simp add: ready_def head_state_def flags_ok_def)
    from header_lines [OF assms(1) this q(7)] show ?thesis using room by simp
  qed
  have F: "leads E l' (\<lambda>l'. after_message E l' xs (persistent q) \<and> whole l' m ?w (fold f (request_events q) d))"
    if l': "ready E l' (?n3 + length ?hs) (CRLF @ m_body q @ xs) (head_state m ?w ?b ?cn (length_of ULLONG_MAX (m_headers q)) ?d3)" for l'
  proof -
    let ?cl = "length_of ULLONG_MAX (m_headers q)"
    have cl: "?cl = (if ?b then of_nat (length (m_body q)) else ULLONG_MAX)" "?b \<longrightarrow> length (m_body q) < 2 ^ 63" "\<not> ?b \<longrightarrow> m_body q = []"
      using length_of_body [OF q(7,8), of ULLONG_MAX] by blast+
    have keep: "persistent q \<longrightarrow> keeps_alive ?w ?cn"
      using q(4) digit_positive [OF q(5)] digit_positive [OF q(6)] by (auto simp: persistent_def keeps_alive_def str_def)
    have weak: "after_message E l xs (keeps_alive ?w ?cn) \<Longrightarrow> after_message E l xs (persistent q)" for l using keep by (auto simp: after_message_def)
    have H: "leads E l' (\<lambda>l'. if ?cl = 0 \<or> ?cl = ULLONG_MAX
        then after_message E l' (m_body q @ xs) (keeps_alive ?w ?cn) \<and> whole l' m ?w (f (Notify message_complete) (f (Notify headers_complete) ?d3))
        else facing E l' s_body_identity no_marks_set 0 (m_body q @ xs) \<and> head_state m ?w ?b ?cn ?cl (f (Notify headers_complete) ?d3) (parser l') \<and> \<not> upgrade (parser l'))"
      using room by (intro head_end [OF assms(1) l' q(2)]) simp
    show ?thesis
    proof (cases "m_body q = []")
      case True
      then have "?cl = 0 \<or> ?cl = ULLONG_MAX" using cl(1) by simp
      then show ?thesis using H True by (auto intro: leads_mono weak simp: request_events_def)
    next
      case False
      then have b: "?cl = of_nat (length (m_body q))" "length (m_body q) < 2 ^ 63" using cl by auto
      then have ne: "?cl \<noteq> 0" "?cl \<noteq> ULLONG_MAX" using of_nat_length_u64 [OF False] by simp_all
      have "leads E l1 (\<lambda>l'. after_message E l' xs (persistent q) \<and> whole l' m ?w (f (Notify message_complete) (f (Data body (m_body q)) (f (Notify headers_complete) ?d3))))"
        if "facing E l1 s_body_identity no_marks_set 0 (m_body q @ xs) \<and> head_state m ?w ?b ?cn ?cl (f (Notify headers_complete) ?d3) (parser l1) \<and> \<not> upgrade (parser l1)" for l1
        using body_phase [OF assms(1), of l1 "m_body q" xs m ?w ?b ?cn "f (Notify headers_complete) ?d3"] that b False
        by (auto intro: leads_mono weak)
      then show ?thesis using H ne False by (auto intro: leads_trans simp: request_events_def)
    qed
  qed
  show ?thesis by (rule leads_trans [OF leads_trans [OF leads_trans [OF leads_trans [OF A B] C] D] F])
qed


lemma request_walk_ok:
  assumes "settings E = pure_settings f" "facing E l s_start_req no_marks_set 0 (Request_SerializeToString q @ xs)" "request_ok q"
    and "http_errno (parser l) = HPE_OK" "ptype (parser l) = HTTP_REQUEST" "data (parser l) = d"
    and "length (head_of q) \<le> unat (max_header_size E)"
  shows "leads E l (\<lambda>l'. after_message E l' xs (persistent q) \<and> http_errno (parser l') = HPE_OK \<and> ptype (parser l') = HTTP_REQUEST \<and>
    m_method q = http_method_str (p_method (parser l')) \<and>
    m_version q = str ''HTTP/'' @ to_string (http_major (parser l')) @ str ''.'' @ to_string (http_minor (parser l')) \<and>
    data (parser l') = fold f (request_events q) d)"
proof -
  obtain m a b where q: "request_is q m a b" using assms(3) by (auto simp: request_ok_def)
  have digit: "to_string (unat c - 48) = [c]" if "IS_NUM c" for c
  proof -
    have "48 \<le> unat c" "unat c - 48 < 10" using that by (auto simp: IS_NUM_def word_le_nat_alt)
    then show ?thesis by (subst to_string.simps) (simp add: word_unat_eq_iff unsigned_of_nat of_nat_diff)
  qed
  show ?thesis
    using q digit by (intro leads_mono [OF request_walk [OF assms(1,2) q assms(4-7)]]) (auto simp: whole_def request_is_def str_def)
qed

lemma requests_walk:
  "\<lbrakk>settings E = pure_settings f; qs \<noteq> []; facing E l s_start_req no_marks_set 0 (concat (map Request_SerializeToString qs));
    \<forall>q\<in>set qs. request_ok q \<and> length (head_of q) \<le> unat (max_header_size E); \<forall>q\<in>set (butlast qs). persistent q;
    http_errno (parser l) = HPE_OK; ptype (parser l) = HTTP_REQUEST; data (parser l) = d\<rbrakk> \<Longrightarrow>
   leads E l (\<lambda>l'. after_message E l' [] (persistent (last qs)) \<and> http_errno (parser l') = HPE_OK \<and>
     m_method (last qs) = http_method_str (p_method (parser l')) \<and>
     m_version (last qs) = str ''HTTP/'' @ to_string (http_major (parser l')) @ str ''.'' @ to_string (http_minor (parser l')) \<and>
     data (parser l') = fold f (concat (map request_events qs)) d)"
proof (induction qs arbitrary: l d)
  case (Cons q qs)
  let ?xs = "concat (map Request_SerializeToString qs)"
  have A: "leads E l (\<lambda>l'. after_message E l' ?xs (persistent q) \<and> http_errno (parser l') = HPE_OK \<and> ptype (parser l') = HTTP_REQUEST \<and>
    m_method q = http_method_str (p_method (parser l')) \<and>
    m_version q = str ''HTTP/'' @ to_string (http_major (parser l')) @ str ''.'' @ to_string (http_minor (parser l')) \<and>
    data (parser l') = fold f (request_events q) d)"
    using Cons.prems by (intro request_walk_ok) simp_all
  show ?case
  proof (cases "qs = []")
    case True
    then show ?thesis by (intro leads_mono [OF A]) simp
  next
    case False
    then have keep: "persistent q" "\<forall>q\<in>set (butlast qs). persistent q" using Cons.prems(5) by simp_all
    have on: "facing E l' s_start_req no_marks_set 0 ?xs" if "after_message E l' ?xs (persistent q)" for l'
      using that keep(1) by (auto simp: after_message_def)
    show ?thesis
      by (rule leads_trans [OF A], simp only: last_ConsR [OF False] list.map concat.simps fold_append o_apply)
        (rule Cons.IH [OF Cons.prems(1) False on _ keep(2)]; use Cons.prems(4) in simp)
  qed
qed simp

lemma after_message_end:
  assumes "settings E = pure_settings f" "after_message E l [] keep" "http_errno (parser l) = HPE_OK"
  shows "exec_loop E l = Return (length (buf E)) ((parser l)\<lparr>nread := 0, state := p_state l\<rparr>)"
proof -
  have l: "marks l = no_marks_set" "l_nread l = 0" "l_p l = length (buf E)" using assms(2) by (auto simp: after_message_def facing_def)
  then have "end_of_data E l = RETURN (length (buf E)) l"
    using end_of_data_pure [OF assms(1,3), of body] by (simp add: only_def delivered_def)
  then show ?thesis using l by (subst exec_loop.simps) (simp add: RETURN_def)
qed

lemma execute_requests:
  assumes "qs \<noteq> []" "\<forall>q\<in>set qs. request_ok q \<and> length (head_of q) \<le> unat M" "\<forall>q\<in>set (butlast qs). persistent q"
  shows "\<exists>pr. http_parser_execute (pure_settings f) M (concat (map Request_SerializeToString qs)) (http_parser_init HTTP_REQUEST d)
      = Return (length (concat (map Request_SerializeToString qs))) pr \<and> http_errno pr = HPE_OK \<and>
    m_method (last qs) = http_method_str (p_method pr) \<and>
    m_version (last qs) = str ''HTTP/'' @ to_string (http_major pr) @ str ''.'' @ to_string (http_minor pr) \<and>
    data pr = fold f (concat (map request_events qs)) d"
proof -
  let ?xs = "concat (map Request_SerializeToString qs)" and ?pr = "http_parser_init HTTP_REQUEST d"
  let ?E = "\<lparr>settings = pure_settings f, buf = ?xs, max_header_size = M, lenient = lenient_http_headers ?pr, allow_chunked = allow_chunked_length ?pr\<rparr>"
  let ?l = "\<lparr>parser = ?pr, l_p = 0, l_ch = 0, marks = entry_marks (state ?pr), p_state = state ?pr, l_nread = nread ?pr\<rparr>"
  have "Request_SerializeToString q \<noteq> []" for q by (simp add: Request_SerializeToString_def str_def)
  then have ne: "?xs \<noteq> []" using assms(1) by (cases qs) simp_all
  have "entry_marks s_start_req = no_marks_set" by (simp add: entry_marks_def fun_eq_iff)
  then have "leads ?E ?l (\<lambda>l'. after_message ?E l' [] (persistent (last qs)) \<and> http_errno (parser l') = HPE_OK \<and>
     m_method (last qs) = http_method_str (p_method (parser l')) \<and>
     m_version (last qs) = str ''HTTP/'' @ to_string (http_major (parser l')) @ str ''.'' @ to_string (http_minor (parser l')) \<and>
     data (parser l') = fold f (concat (map request_events qs)) d)"
    using assms by (intro requests_walk) (simp_all add: facing_def http_parser_init_def)
  then obtain l' where l': "exec_loop ?E ?l = exec_loop ?E l'" "after_message ?E l' [] (persistent (last qs))" "http_errno (parser l') = HPE_OK"
     "m_method (last qs) = http_method_str (p_method (parser l'))"
     "m_version (last qs) = str ''HTTP/'' @ to_string (http_major (parser l')) @ str ''.'' @ to_string (http_minor (parser l'))"
     "data (parser l') = fold f (concat (map request_events qs)) d"
    unfolding leads_def by blast
  have "http_parser_execute (pure_settings f) M ?xs ?pr = exec_loop ?E ?l"
    using ne by (auto simp: http_parser_execute_def http_parser_init_def Let_def)
  then show ?thesis using after_message_end [OF _ l'(2,3), of f] l'(1,3-6) by simp
qed


text \<open>C4. The HTTP parser reports well-formed requests exactly. One call on the text of one request or of
  several behind each other consumes it all, reports no error, and makes these callbacks and no
  others: for each request in turn the begin, the URL, name and value of each header in order,
  the end of the headers, the body when it is not empty, and the end. A request is well formed when its
  method is one of those the parser knows but \<^verbatim>\<open>CONNECT\<close>, the URL is one the parser accepts, names are
  tokens, values are printable and not empty, at most one header gives the length of the body
  and does so correctly, and no header asks for an upgrade or starts like \<^verbatim>\<open>Transfer-Encoding\<close>. All but
  the last are of version 1.1 or above without \<^verbatim>\<open>Connection\<close> header; each head is at most as long as
  the limit.
\<close>

theorem http_parser_reports:
  assumes "qs \<noteq> []" "\<forall>q\<in>set qs. request_ok q \<and> length (head_of q) \<le> unat M" "\<forall>q\<in>set (butlast qs). persistent q"
  shows "\<exists>pr. http_parser_execute (pure_settings f) M (concat (map Request_SerializeToString qs)) (http_parser_init HTTP_REQUEST d)
      = Return (length (concat (map Request_SerializeToString qs))) pr \<and> http_errno pr = HPE_OK \<and>
    data pr = fold f (concat (map request_events qs)) d"
  using execute_requests [OF assms, of f d] by blast

definition sample_get :: HttpRequest where
  "sample_get = \<lparr>m_version = str ''HTTP/1.1'', m_headers = [(str ''A'', str ''b'')], m_body = [], m_method = str ''GET'', m_url = str ''/x''\<rparr>"

definition sample_post :: HttpRequest where
  "sample_post =
     \<lparr>m_version = str ''HTTP/1.0'', m_headers = [(str ''Content-Length'', str ''2'')], m_body = str ''hi'', m_method = str ''POST'', m_url = str ''/x''\<rparr>"

lemma samples_ok: "request_ok sample_get" "request_ok sample_post" "persistent sample_get"
proof -
  have tok: "map TOKEN (str ''Content-Length'') = CONTENT_LENGTH" by code_simp
  then have cl: "is_length (str ''Content-Length'')" by (simp add: is_length_def)
  have "0 \<notin> set (map TOKEN (str ''Content-Length''))" unfolding tok by (simp add: CONTENT_LENGTH_def str_def)
  then have z: "\<forall>c\<in>set (str ''Content-Length''). TOKEN c \<noteq> 0" by (metis imageI list.set_map)
  have "str ''Content-Length'' \<noteq> []" "CONTENT_LENGTH \<noteq> UPGRADE" "take (length TRANSFER_ENCODING) CONTENT_LENGTH \<noteq> TRANSFER_ENCODING"
    by (simp_all add: name_defs str_def)
  then have n1: "name_ok (str ''Content-Length'')" unfolding name_ok_def tok using z by blast
  have n2: "name_ok (str ''A'')" "\<not> is_length (str ''A'')" by code_simp+
  have vs: "value_ok (str ''b'')" "value_ok (str ''2'')" "url_ok (str ''/x'')" "IS_NUM 48" "IS_NUM 49" "IS_NUM 50" by code_simp+
  have "number 0 (str ''2'') = 2" by (simp add: number_def str_def)
  then have "request_is sample_get HTTP_GET 49 49" "request_is sample_post HTTP_POST 49 48"
    using cl n1 n2 vs by (simp_all add: request_is_def sample_get_def sample_post_def body_ok_def) (simp_all add: str_def)
  then show "request_ok sample_get" "request_ok sample_post" by (auto simp: request_ok_def)
  show "persistent sample_get" by code_simp
qed

theorem http_parser_reports_witness:
  "\<exists>pr. http_parser_execute (pure_settings (\<lambda>e es. es @ [e])) HTTP_MAX_HEADER_SIZE
      (Request_SerializeToString sample_get @ Request_SerializeToString sample_post) (http_parser_init HTTP_REQUEST [])
      = Return (length (Request_SerializeToString sample_get @ Request_SerializeToString sample_post)) pr \<and> http_errno pr = HPE_OK \<and>
    data pr = request_events sample_get @ request_events sample_post"
proof -
  have app: "fold (\<lambda>e es. es @ [e]) xs ys = ys @ xs" for xs ys :: "event list" by (induction xs arbitrary: ys) simp_all
  have "length (head_of sample_get) \<le> unat HTTP_MAX_HEADER_SIZE" "length (head_of sample_post) \<le> unat HTTP_MAX_HEADER_SIZE"
    by (simp_all add: head_of_def sample_get_def sample_post_def HTTP_MAX_HEADER_SIZE_def Headers_SerializeToString_def CRLF_def str_def)
  then show ?thesis
    using http_parser_reports [of "[sample_get, sample_post]" HTTP_MAX_HEADER_SIZE "\<lambda>e es. es @ [e]" "[]"] samples_ok app by simp
qed

end
