(* ===== verification/Http_Answer.thy ===== *)
theory Http_Answer
  imports Http_Server Http_Requests
begin

text \<open>
  From the client's request to the server's reply: what \<^verbatim>\<open>HttpRequest::SerializeToString\<close> writes is what
  \<^verbatim>\<open>HttpContext::Parse\<close> reads, and the server answers it by the handler of the router.
\<close>

section \<open>The request an \<^verbatim>\<open>HttpContext\<close> collects\<close>

lemma header_events_collected:
  "\<lbrakk>m_type c = HTTP_REQUEST; \<forall>(k, v)\<in>set hs. k \<noteq> [] \<and> v \<noteq> []\<rbrakk> \<Longrightarrow>
   m_type (fold context_event (header_events hs) c) = HTTP_REQUEST \<and>
   m_req (fold context_event (header_events hs) c) = (m_req c)\<lparr>m_headers := SetHeaders hs (m_headers (m_req c))\<rparr>"
proof (induction hs arbitrary: c)
  case (Cons h hs)
  obtain k v where h: "h = (k, v)" by force
  let ?c = "context_event (Data header_value v) (context_event (Data header_field k) c)"
  have "m_type ?c = HTTP_REQUEST" "m_req ?c = (m_req c)\<lparr>m_headers := SetHeader k v (m_headers (m_req c))\<rparr>"
    using Cons.prems by (simp_all add: h on_header_field_def on_header_value_def upd_req_def Let_def)
  then show ?case using Cons.IH [of ?c] Cons.prems(2) by (simp add: h SetHeaders_def)
qed (simp add: SetHeaders_def)

lemma assign_last: "\<forall>k'\<in>set (map fst m). k' < k \<Longrightarrow> map_assign k v m = m @ [(k, v)]"
  by (induction k v m rule: map_assign.induct) auto

lemma SetHeaders_sorted: "map_ok (acc @ hs) \<Longrightarrow> SetHeaders hs acc = acc @ hs"
proof (induction hs arbitrary: acc)
  case (Cons h hs)
  have "\<forall>k'\<in>set (map fst acc). k' < fst h" using Cons.prems by (auto simp: sorted_wrt_append)
  then have "SetHeader (fst h) (snd h) acc = acc @ [h]" using assign_last [of acc "fst h" "snd h"] by (simp add: SetHeader_def)
  then show ?case using Cons.IH [of "acc @ [h]"] Cons.prems by (simp add: SetHeaders_def split_def)
qed (simp add: SetHeaders_def)

lemma headers_ok_full: "headers_ok b hs \<Longrightarrow> \<forall>(k, v)\<in>set hs. k \<noteq> [] \<and> v \<noteq> []"
  by (induction b hs rule: headers_ok.induct) (auto simp: name_ok_def value_ok_def)

lemma request_collected:
  assumes "request_ok q" "map_ok (m_headers q)"
  shows "m_req (fold context_event (request_events q) (data (HttpContext_init HTTP_REQUEST)))
    = q\<lparr>m_version := m_version HttpRequest_init, m_method := m_method HttpRequest_init\<rparr>"
proof -
  let ?c = "data (HttpContext_init HTTP_REQUEST)"
  let ?c1 = "context_event (Data url (m_url q)) (context_event (Notify message_begin) ?c)"
  let ?c2 = "fold context_event (header_events (m_headers q)) ?c1"
  have c1: "m_type ?c1 = HTTP_REQUEST" "m_req ?c1 = HttpRequest_init\<lparr>m_url := m_url q\<rparr>"
    by (simp_all add: HttpContext_init_def http_parser_init_def on_url_def upd_req_def)
  have "headers_ok False (m_headers q)" using assms(1) by (auto simp: request_ok_def request_is_def)
  then have c2: "m_type ?c2 = HTTP_REQUEST" "m_req ?c2 = (HttpRequest_init\<lparr>m_url := m_url q\<rparr>)\<lparr>m_headers := m_headers q\<rparr>"
    using header_events_collected [OF c1(1) headers_ok_full] c1(2) SetHeaders_sorted [of "[]"] assms(2) by (simp_all add: HttpRequest_init_def)
  have "m_req (fold context_event (request_events q) ?c) = (m_req ?c2)\<lparr>m_body := m_body q\<rparr>"
  proof (cases "m_body q = []")
    case True
    then show ?thesis using c2 by (simp add: request_events_def HttpRequest_init_def)
  next
    case False
    then show ?thesis using c2 by (simp add: request_events_def on_body_def upd_req_def)
  qed
  then show ?thesis using c2(2) by (cases q) (simp add: HttpRequest_init_def)
qed

lemma parse_whole_request:
  assumes "request_ok q" "map_ok (m_headers q)" "length (head_of q) \<le> unat HTTP_MAX_HEADER_SIZE"
  shows "\<exists>pr. parse_request (Request_SerializeToString q) = Return (length (Request_SerializeToString q)) pr \<and> http_errno pr = HPE_OK \<and> request_of pr = q"
proof -
  obtain pr where pr: "parse_request (Request_SerializeToString q) = Return (length (Request_SerializeToString q)) pr" "http_errno pr = HPE_OK"
      "m_method q = http_method_str (p_method pr)" "m_version q = str ''HTTP/'' @ to_string (http_major pr) @ str ''.'' @ to_string (http_minor pr)"
      "data pr = fold context_event (request_events q) (data (HttpContext_init HTTP_REQUEST))"
    using execute_requests [of "[q]" HTTP_MAX_HEADER_SIZE context_event "data (HttpContext_init HTTP_REQUEST)"] assms
    by (auto simp: parser_settings_pure HttpContext_init_def http_parser_init_def)
  have "request_of pr = q" using request_collected [OF assms(1,2)] pr(3-5) by (simp add: request_of_def)
  then show ?thesis using pr(1,2) by blast
qed


text \<open>C17. A request survives the wire. What \<^verbatim>\<open>SerializeToString\<close> makes of a well-formed request is
  consumed whole by \<^verbatim>\<open>HttpContext::Parse\<close>, which gives back the same request: version, method, URL, headers and body.
\<close>

theorem request_roundtrip:
  assumes "request_ok q" "map_ok (m_headers q)" "length (head_of q) \<le> unat HTTP_MAX_HEADER_SIZE"
  shows "Parse_Request (Request_SerializeToString q) HttpRequest_init (HttpContext_init HTTP_REQUEST)
    = Some ((PARSE_OK, of_nat (length (Request_SerializeToString q))), q)"
  using parse_whole_request [OF assms] Parse_Request_cases by auto

lemma sample_heads: "length (head_of sample_get) \<le> unat HTTP_MAX_HEADER_SIZE" "length (head_of sample_post) \<le> unat HTTP_MAX_HEADER_SIZE"
  by (simp_all add: head_of_def sample_get_def sample_post_def HTTP_MAX_HEADER_SIZE_def Headers_SerializeToString_def CRLF_def str_def)

theorem request_roundtrip_witness:
  "Parse_Request (Request_SerializeToString sample_post) HttpRequest_init (HttpContext_init HTTP_REQUEST)
    = Some ((PARSE_OK, of_nat (length (Request_SerializeToString sample_post))), sample_post)"
  using request_roundtrip [OF samples_ok(2) _ sample_heads(2)] by (simp add: sample_post_def)

text \<open>C16. The server answers a request. When the octets that arrive on an open connection complete exactly one
  well-formed request in the read buffer, they are consumed, and the reply of the handler which
  the router has for the method and the URL, or the 404 response, made for that very request, follows
  what is still to be sent; the connection waits to write.
\<close>

theorem http_server_answers:
  assumes "b = m_read_buf (conns s c)" "buf_ok b" "length (m_data b) < 2 ^ 31" "xs \<noteq> []" "length xs \<le> readv_capacity b"
    and "m_status (conns s c) = CONNECTED" "buf_ok (m_write_buf (conns s c))"
    and "unat (m_writeidx (m_write_buf (conns s c))) < 2 ^ 60"
    and "\<And>req. length (fst (Response_SerializeToString (Routing router req HttpResponse_init))) < 2 ^ 31"
    and "content b @ xs = Request_SerializeToString q" "length (Request_SerializeToString q) < 2 ^ 31"
    and "request_ok q" "map_ok (m_headers q)" "length (head_of q) \<le> unat HTTP_MAX_HEADER_SIZE"
  shows "\<exists>s'. conn_ProcessReadEvent (http_calls router) (ReadOctets xs # rs) c s = Some s' \<and>
    content (m_read_buf (conns s' c)) = [] \<and>
    content (m_write_buf (conns s' c)) = content (m_write_buf (conns s c)) @
      fst (Response_SerializeToString (Routing router q HttpResponse_init)) \<and>
    m_expect_event (io_events s' c) AND IOEvent_WRITEABLE \<noteq> 0"
proof -
  obtain pr where pr: "parse_request (Request_SerializeToString q) = Return (length (Request_SerializeToString q)) pr" "http_errno pr = HPE_OK" "request_of pr = q"
    using parse_whole_request [OF assms(12-14)] by blast
  have "length (content b @ xs) < 2 ^ 31" using assms(10,11) by simp
  from read_event_replies [OF assms(1-5) this assms(6-9), of rs] show ?thesis unfolding assms(10) using pr by auto
qed

theorem http_server_answers_witness:
  "\<exists>s'. conn_ProcessReadEvent (http_calls (GET (str ''/x'') (\<lambda>req resp. SetBody (m_url req) resp) \<lparr>m_get_router = [], m_post_router = []\<rparr>))
       [ReadOctets (Request_SerializeToString sample_get)] 0 small_server = Some s' \<and> content (m_read_buf (conns s' 0)) = [] \<and>
     content (m_write_buf (conns s' 0)) = fst (Response_SerializeToString (SetBody (str ''/x'') HttpResponse_init))"
proof -
  let ?cb = "\<lambda>req resp. SetBody (m_url req) resp" and ?xs = "Request_SerializeToString sample_get"
  let ?r = "GET (str ''/x'') ?cb \<lparr>m_get_router = [], m_post_router = []\<rparr>"
  have out: "length (fst (Response_SerializeToString (SetBody (str ''/x'') HttpResponse_init))) < 2 ^ 31"
    by (simp add: Response_SerializeToString_def SetBody_def SetHeader_def HttpResponse_init_def Headers_SerializeToString_def CRLF_def str_def Let_def)
      (subst to_string.simps, simp)
  have route: "Routing ?r req HttpResponse_init = (if m_method req = str ''GET'' \<and> m_url req = str ''/x''
      then SetBody (str ''/x'') HttpResponse_init else not_found HttpResponse_init)" for req
    by (simp add: Routing_def GET_def Let_def)
  have q: "m_method sample_get = str ''GET''" "m_url sample_get = str ''/x''" "map_ok (m_headers sample_get)" by (simp_all add: sample_get_def)
  have len: "length ?xs < 100" "?xs \<noteq> []"
    by (simp_all add: Request_SerializeToString_def sample_get_def Headers_SerializeToString_def CRLF_def str_def)
  have short: "length (fst (Response_SerializeToString (Routing ?r req HttpResponse_init))) < 2 ^ 31" for req
    unfolding route using out not_found_short by simp
  have "\<exists>s'. conn_ProcessReadEvent (http_calls ?r) (ReadOctets ?xs # []) 0 small_server = Some s' \<and> content (m_read_buf (conns s' 0)) = [] \<and>
      content (m_write_buf (conns s' 0)) = content (m_write_buf (conns small_server 0)) @
        fst (Response_SerializeToString (Routing ?r sample_get HttpResponse_init)) \<and>
      m_expect_event (io_events s' 0) AND IOEvent_WRITEABLE \<noteq> 0"
    by (rule http_server_answers [OF refl _ _ _ _ _ _ _ short _ _ samples_ok(1) q(3) sample_heads(1)])
      (use small_server_conn Buffer_init_facts len in simp_all)
  then show ?thesis using small_server_conn(2) Buffer_init_facts(2) unfolding route by (auto simp: q)
qed

end
