(* ===== verification/Http_Pieces.thy ===== *)
theory Http_Pieces
  imports Http_Value
begin

text \<open>
  The input of the HTTP parser in pieces: the call for \<open>x # ys\<close> against the calls for \<open>x\<close> and then
  for \<open>ys\<close>, from there any cut of the input by induction.
\<close>

lemma unat_Suc_le: "\<lbrakk>n \<le> M; unat M + Suc k < 2 ^ 32\<rbrakk> \<Longrightarrow> 0 < unat (n + 1 :: u32)"
  using unat_word_ariths(1) [of n 1] by (simp add: word_le_nat_alt)

definition env :: "(event \<Rightarrow> 'u \<Rightarrow> 'u) \<Rightarrow> u32 \<Rightarrow> bool \<times> bool \<Rightarrow> octets \<Rightarrow> 'u exec_env" where
  "env f M opt xs = \<lparr>settings = pure_settings f, buf = xs, max_header_size = M, lenient = fst opt, allow_chunked = snd opt\<rparr>"

lemma env_simps [simp]:
  "settings (env f M opt xs) = pure_settings f" "buf (env f M opt xs) = xs" "max_header_size (env f M opt xs) = M"
  "(env f M opt xs)\<lparr>buf := b\<rparr> = env f M opt b"
  by (simp_all add: env_def)

lemma execute_loop:
  "\<lbrakk>http_errno pr = HPE_OK; xs \<noteq> []\<rbrakk> \<Longrightarrow> http_parser_execute (pure_settings f) M xs pr = exec_loop (env f M (opts pr) xs) (entry pr)"
  by (simp add: http_parser_execute_def env_def entry_def)

text \<open>What the calls keep of the structure while they report no error and no upgrade.\<close>

definition fit :: "u32 \<Rightarrow> 'u http_parser \<Rightarrow> bool" where
  "fit M pr \<longleftrightarrow> pinv 0 (nread pr) (state pr) pr \<and> nread pr \<le> M \<and> \<not> exited pr"

lemma fit_ok: "fit M pr \<Longrightarrow> http_errno pr = HPE_OK \<and> \<not> exited pr"
  by (simp add: fit_def pinv_def)

lemma byte_first:
  assumes "merges f" "fit M pr" "ys \<noteq> []" "unat M + Suc (length ys) < 2 ^ 32"
  shows "alike (byte_step (env f M opt (x # ys)) (entry pr)) (byte_step (env f M opt [x]) (entry pr)) \<or>
    goes_on f x (env f M opt ys) (byte_step (env f M opt (x # ys)) (entry pr)) (byte_step (env f M opt [x]) (entry pr))"
proof -
  let ?E = "env f M opt ys"
  let ?in = "(entry pr)\<lparr>l_ch := x\<rparr>" and ?count = "(entry pr)\<lparr>l_ch := x, l_nread := nread pr + 1\<rparr>"
  have inv: "pinv 0 (nread pr) (state pr) pr" "nread pr \<le> M" using assms(2) by (simp_all add: fit_def)
  have li: "linv 1 0 ?count" "\<not> PARSING_HEADER (state pr) \<Longrightarrow> linv 1 0 ?in"
    using inv(1) pinv_enter(2) [of 0 "nread pr" "state pr" pr] by (auto simp: linv_def entry_marks_ok pinv_enter(1) PARSING_HEADER_def)
  have bm: "state pr \<in> body_states \<longrightarrow> entry_marks (state pr) = (\<lambda>_. None)"
    by (auto simp: body_states_def entry_marks_def)
  have "alike (reexecute REEXECUTE_MAX (?E\<lparr>buf := x # buf ?E\<rparr>) l) (reexecute REEXECUTE_MAX (?E\<lparr>buf := [x]\<rparr>) l) \<or>
      goes_on f x ?E (reexecute REEXECUTE_MAX (?E\<lparr>buf := x # buf ?E\<rparr>) l) (reexecute REEXECUTE_MAX (?E\<lparr>buf := [x]\<rparr>) l)"
    if "l = ?in \<and> \<not> PARSING_HEADER (state pr) \<or> l = ?count \<and> nread pr + 1 \<le> M" for l
    using that assms(1,3,4) li entry_zero [of "state pr"] bm unat_Suc_le [OF inv(2) assms(4)]
    by (intro reexecute_first) auto
  then show ?thesis by (auto simp: byte_step_def COUNT_HEADER_SIZE_def Let_def)
qed

lemma exec_one:
  assumes "fit M pr" "byte_step (env f M opt [x]) (entry pr) = Break la"
  shows "exec_loop (env f M opt [x]) (entry pr) = Return 1 (flush f x la)" "linv 0 1 la" "l_p la = 0" "zero_marks (marks la)"
    "opts (parser la) = opts pr" "fit M (flush f x la)"
proof -
  let ?One = "env f M opt [x]" and ?k = "kind (p_state la)"
  have l: "linv 0 (l_p (entry pr)) (entry pr)" "l_p (entry pr) < length (buf ?One)" using assms(1) by (simp_all add: entry_linv fit_def)
  have step: "moves ?One 0 (Break la)" "good 0 (Break la)" "steady ?One (entry pr) (Break la)"
    using byte_step_moves [OF l(2)] byte_step_good [OF _ l] byte_step_steady [OF _ l] assms(2) by simp_all
  show inv: "linv 0 1 la" "l_p la = 0" "zero_marks (marks la)" "opts (parser la) = opts pr"
    using step entry_zero [of "state pr"] by (simp_all add: keeps_def)
  have lv: "live la" "l_nread la \<le> M" using step(3) assms(1) by (simp_all add: keeps_def live_def fit_def exited_def)
  have ok: "http_errno (parser la) = HPE_OK" "pinv 0 (l_nread la) (p_state la) (parser la)" "marks_ok (p_state la) 1 (marks la)"
    using inv(1) by (simp_all add: linv_def pinv_def)
  have only: "only ?k (marks la)" using marks_only [OF ok(3)] .
  have "end_of_data ?One (la\<lparr>l_p := 1\<rparr>) = RETURN 1 (delivered f ?One ?k 1 (la\<lparr>l_p := 1\<rparr>))"
    using end_of_data_pure [of ?One f "la\<lparr>l_p := 1\<rparr>" ?k] ok(1) only by simp
  also have "\<dots> = Return 1 (flush f x la)"
  proof (cases "marks la ?k")
    case (Some i)
    then have "i = 0" using inv(3) by (auto simp: zero_marks_def)
    then show ?thesis using Some by (simp add: RETURN_def delivered_def flush_def sub_octets_def Let_def)
  qed (simp add: RETURN_def delivered_def flush_def Let_def)
  finally show "exec_loop ?One (entry pr) = Return 1 (flush f x la)"
    using assms(2) inv(2) by (subst exec_loop.simps) (simp add: exec_loop.simps [of ?One "la\<lparr>l_p := Suc 0\<rparr>"])
  show "fit M (flush f x la)"
    using ok lv by (simp add: fit_def exited_def live_def) (simp add: flush_def)
qed


text \<open>The loops go on from steps that are alike.\<close>

lemma exec_from:
  assumes "merges f" "settings E = pure_settings f" "sim_out f x (byte_step (E\<lparr>buf := x # buf E\<rparr>) l1) (byte_step E l2)"
    and "linv 0 (l_p l1) l1" "linv 0 (l_p l2) l2" "l_p l1 \<le> length (buf E)" "l_p l2 < length (buf E)"
  shows "same_result (exec_loop (E\<lparr>buf := x # buf E\<rparr>) l1) (exec_loop E l2)"
proof -
  let ?E = "E\<lparr>buf := x # buf E\<rparr>"
  have gd: "good 0 (byte_step E l2)" "good 0 (byte_step ?E l1)" "moves E (l_p l2) (byte_step E l2)"
    using byte_step_good [OF assms(2,5,7)] byte_step_good [of ?E f l1] byte_step_moves [OF assms(7)] assms(2,4,6) by simp_all
  show ?thesis
  proof (cases "byte_step E l2")
    case (Break l2')
    then obtain l1' where l1': "byte_step ?E l1 = Break l1'" "sim f x (l1'\<lparr>l_p := l_p l1' + 1\<rparr>) (l2'\<lparr>l_p := l_p l2' + 1\<rparr>)"
      using assms(3) by (auto simp: sim_out_def)
    have "same_result (exec_loop ?E (l1'\<lparr>l_p := l_p l1' + 1\<rparr>)) (exec_loop E (l2'\<lparr>l_p := l_p l2' + 1\<rparr>))"
      using gd Break l1' by (intro exec_loop_sim [OF assms(1,2)]) (auto simp: linv_def)
    then show ?thesis using Break l1'(1) assms(6,7) by (subst (1 2) exec_loop.simps) simp
  next
    case (Error l)
    then show ?thesis using assms(3,6,7) gd
      by (subst (1 2) exec_loop.simps) (auto simp: sim_out_def same_result_def bad_def at_error_def RETURN_def split: outcome.splits)
  next
    case (Return n pr)
    then show ?thesis using assms(3,6,7) gd
      by (subst (1 2) exec_loop.simps) (auto simp: sim_out_def same_result_def bad_def at_error_def RETURN_def split: outcome.splits)
  qed (use gd in simp_all)
qed

lemma execute_first:
  assumes "merges f" "fit M pr" "ys \<noteq> []" "unat M + Suc (length ys) < 2 ^ 32"
  defines "run \<equiv> \<lambda>xs pr. http_parser_execute (pure_settings f) M xs pr"
  shows "(\<exists>pr1. run [x] pr = Return 1 pr1 \<and> fit M pr1 \<and> same_result (run (x # ys) pr) (run ys pr1)) \<or>
    alike (run (x # ys) pr) (run [x] pr) \<and> (\<forall>n pr1. run [x] pr = Return n pr1 \<and> http_errno pr1 = HPE_OK \<longrightarrow> exited pr1)"
proof -
  let ?E = "env f M (opts pr) ys" and ?All = "env f M (opts pr) (x # ys)" and ?One = "env f M (opts pr) [x]"
  have ok: "http_errno pr = HPE_OK" using assms(2) by (simp add: fit_def pinv_def)
  have run: "run (x # zs) pr = exec_loop (env f M (opts pr) (x # zs)) (entry pr)" for zs
    using execute_loop [OF ok] by (simp add: run_def)
  have l: "linv 0 (l_p (entry pr)) (entry pr)" using assms(2) by (simp add: entry_linv fit_def)
  have gd: "good 0 (byte_step ?One (entry pr))" "good 0 (byte_step ?All (entry pr))" by (rule byte_step_good [of _ f], use l in simp_all)+
  show ?thesis
  proof (cases "byte_step ?One (entry pr)")
    case (Break la)
    note one = exec_one [OF assms(2) Break]
    have nx: "run ys (flush f x la) = exec_loop ?E (entry (flush f x la))"
      using execute_loop [of "flush f x la" ys f M] one(5,6) assms(3) by (simp add: run_def fit_def pinv_def)
    have li: "linv 0 0 (entry (flush f x la))" using one(6) by (simp add: entry_linv fit_def)
    consider "byte_step ?All (entry pr) = Break la" | "goes_on f x ?E (byte_step ?All (entry pr)) (Break la)"
      using byte_first [OF assms(1-4), of "opts pr" x] Break by (auto simp: alike_def)
    then have "same_result (exec_loop ?All (entry pr)) (exec_loop ?E (entry (flush f x la)))"
    proof cases
      case 1
      have "same_result (exec_loop (?E\<lparr>buf := x # buf ?E\<rparr>) (la\<lparr>l_p := 1\<rparr>)) (exec_loop ?E (entry (flush f x la)))"
        using li one(2) entry_sim [OF one(2,4,3), of f x] by (intro exec_loop_sim [OF assms(1)]) (simp_all add: linv_def)
      then show ?thesis using 1 one(3) by (subst exec_loop.simps) simp
    next
      case 2
      then show ?thesis using exec_from [OF assms(1), of ?E x "entry pr" "entry (flush f x la)"] l li assms(3) by (simp add: goes_on_def)
    qed
    then show ?thesis using one(1,6) run [of ys] run [of "[]"] nx by auto
  next
    case (Reexecute l)
    then show ?thesis using gd by simp
  next
    case (Error l)
    then have "bad (byte_step ?All (entry pr))" using byte_first [OF assms(1-4), of "opts pr" x] by (auto simp: alike_def goes_on_def)
    then have "bad (run (x # ys) pr)"
      using gd run [of ys] by (cases "byte_step ?All (entry pr)") (simp_all add: exec_loop.simps at_error_def RETURN_def)
    then show ?thesis using Error gd run [of "[]"] by (simp add: exec_loop.simps at_error_def RETURN_def)
  next
    case (Return n q)
    then have "alike (byte_step ?All (entry pr)) (Return n q)" using byte_first [OF assms(1-4), of "opts pr" x] by (auto simp: goes_on_def)
    then have "alike (run (x # ys) pr) (Return n q)"
      using gd run [of ys] by (cases "byte_step ?All (entry pr)") (auto simp: exec_loop.simps at_error_def RETURN_def alike_def)
    then show ?thesis using Return gd run [of "[]"] by (simp add: exec_loop.simps)
  qed (use gd in simp_all)
qed


section \<open>The input in pieces\<close>

definition same_after :: "nat \<Rightarrow> 'u outcome \<Rightarrow> 'u outcome \<Rightarrow> bool" where
  "same_after k o1 o2 \<longleftrightarrow> (bad o1 \<and> bad o2) \<or> (\<exists>n pr. o1 = Return (k + n) pr \<and> o2 = Return n pr)"

lemma same_result_after: "same_result o1 o2 = same_after 1 o1 o2"
  by (auto simp: same_result_def same_after_def)

lemma same_after_trans: "same_after j o1 o2 \<Longrightarrow> same_after k o2 o3 \<Longrightarrow> same_after (j + k) o1 o3"
  by (auto simp: same_after_def add.assoc)

lemma same_after_alike: "same_after k o1 o1' \<Longrightarrow> same_after k o2 o2' \<Longrightarrow> alike o1' o2' \<Longrightarrow> alike o1 o2"
  by (auto simp: same_after_def alike_def)

lemma execute_append:
  fixes M :: u32
  assumes "merges f"
  defines "run \<equiv> \<lambda>xs pr. http_parser_execute (pure_settings f) M xs pr"
  shows "\<lbrakk>fit M pr; xs \<noteq> []; ys \<noteq> []; unat M + length xs + length ys < 2 ^ 32\<rbrakk> \<Longrightarrow>
    (\<exists>pr1. run xs pr = Return (length xs) pr1 \<and> fit M pr1 \<and> same_after (length xs) (run (xs @ ys) pr) (run ys pr1)) \<or>
    alike (run (xs @ ys) pr) (run xs pr) \<and> (\<forall>n pr1. run xs pr = Return n pr1 \<and> http_errno pr1 = HPE_OK \<longrightarrow> exited pr1)"
proof (induction xs arbitrary: pr)
  case (Cons x xs)
  note first = execute_first [OF assms(1) Cons.prems(1), folded run_def]
  show ?case
  proof (cases "xs = []")
    case True
    then show ?thesis using first [of ys x] Cons.prems(3,4) by (simp add: same_result_after)
  next
    case False
    have long: "(\<exists>pr1. run [x] pr = Return 1 pr1 \<and> fit M pr1 \<and> same_after 1 (run (x # zs) pr) (run zs pr1)) \<or>
        alike (run (x # zs) pr) (run [x] pr) \<and> (\<forall>n pr1. run [x] pr = Return n pr1 \<and> http_errno pr1 = HPE_OK \<longrightarrow> exited pr1)"
      if "zs = xs \<or> zs = xs @ ys" for zs
      using first [of zs x] False Cons.prems(4) that by (auto simp: same_result_after)
    show ?thesis
    proof (cases "\<forall>n q. run [x] pr = Return n q \<and> http_errno q = HPE_OK \<longrightarrow> exited q")
      case True
      then have a: "alike (run (x # xs) pr) (run [x] pr)" "alike (run (x # xs @ ys) pr) (run [x] pr)"
        using long [of xs] long [of "xs @ ys"] fit_ok by blast+
      then have "alike (run ((x # xs) @ ys) pr) (run (x # xs) pr)" by (auto simp: alike_def)
      moreover have "\<forall>n q. run (x # xs) pr = Return n q \<and> http_errno q = HPE_OK \<longrightarrow> exited q"
        using True a(1) by (metis alike_def bad_simps(4))
      ultimately show ?thesis by blast
    next
      case False
      then obtain pr1 where pr1: "run [x] pr = Return 1 pr1" "fit M pr1" "same_after 1 (run (x # xs) pr) (run xs pr1)"
        using long [of xs] by blast
      have all: "same_after 1 (run (x # xs @ ys) pr) (run (xs @ ys) pr1)" using long [of "xs @ ys"] False pr1(1) by auto
      consider (on) pr2 where "run xs pr1 = Return (length xs) pr2" "fit M pr2" "same_after (length xs) (run (xs @ ys) pr1) (run ys pr2)"
        | (stop) "alike (run (xs @ ys) pr1) (run xs pr1)" "\<forall>n q. run xs pr1 = Return n q \<and> http_errno q = HPE_OK \<longrightarrow> exited q"
        using Cons.IH [OF pr1(2)] \<open>xs \<noteq> []\<close> Cons.prems(3,4) by auto
      then show ?thesis
      proof cases
        case on
        then have "http_errno pr2 = HPE_OK" using fit_ok by blast
        then have "run (x # xs) pr = Return (length (x # xs)) pr2" using pr1(3) on(1) by (auto simp: same_after_def)
        moreover have "same_after (length (x # xs)) (run ((x # xs) @ ys) pr) (run ys pr2)"
          using same_after_trans [OF all on(3)] by simp
        ultimately show ?thesis using on(2) by blast
      next
        case stop
        then have "alike (run ((x # xs) @ ys) pr) (run (x # xs) pr)" using same_after_alike [OF all pr1(3)] by simp
        moreover have "\<forall>n q. run (x # xs) pr = Return n q \<and> http_errno q = HPE_OK \<longrightarrow> exited q"
          using pr1(3) stop(2) by (auto simp: same_after_def)
        ultimately show ?thesis by blast
      qed
    qed
  qed
qed simp

text \<open>A client that hands each piece to the parser as it arrives, until the parser reports an error or an upgrade.\<close>

fun feed :: "'u http_parser_settings \<Rightarrow> u32 \<Rightarrow> octets list \<Rightarrow> 'u http_parser \<Rightarrow> 'u outcome" where
  "feed S M [] pr = Return 0 pr"
| "feed S M (xs # xss) pr =
     (case http_parser_execute S M xs pr of
        Return n pr1 \<Rightarrow>
          if http_errno pr1 \<noteq> HPE_OK \<or> exited pr1 then Return n pr1
          else (case feed S M xss pr1 of Return m pr2 \<Rightarrow> Return (n + m) pr2 | r \<Rightarrow> r)
      | r \<Rightarrow> r)"

lemma feed_concat:
  assumes "merges f"
  shows "\<lbrakk>fit M pr; xss \<noteq> []; [] \<notin> set xss; unat M + length (concat xss) < 2 ^ 32\<rbrakk> \<Longrightarrow>
    alike (feed (pure_settings f) M xss pr) (http_parser_execute (pure_settings f) M (concat xss) pr)"
proof (induction xss arbitrary: pr)
  case (Cons xs xss)
  let ?run = "\<lambda>xs pr. http_parser_execute (pure_settings f) M xs pr"
  have pi: "pinv 0 (nread pr) (state pr) pr" "xs \<noteq> []" using Cons.prems(1,3) by (auto simp: fit_def)
  obtain n q where q: "?run xs pr = Return n q" using execute_well [OF pi] by blast
  show ?case
  proof (cases "xss = []")
    case True
    then show ?thesis using q by (simp add: alike_def)
  next
    case False
    then have ne: "concat xss \<noteq> []" using Cons.prems(3) by (cases xss) auto
    consider (on) pr1 where "?run xs pr = Return (length xs) pr1" "fit M pr1" "same_after (length xs) (?run (xs @ concat xss) pr) (?run (concat xss) pr1)"
      | (stop) "alike (?run (xs @ concat xss) pr) (?run xs pr)" "\<forall>n q. ?run xs pr = Return n q \<and> http_errno q = HPE_OK \<longrightarrow> exited q"
      using execute_append [OF assms Cons.prems(1) pi(2) ne] Cons.prems(4) by auto
    then show ?thesis
    proof cases
      case on
      have "alike (feed (pure_settings f) M xss pr1) (?run (concat xss) pr1)"
        using Cons.IH [OF on(2) False] Cons.prems(3,4) by simp
      moreover obtain m q where "?run (concat xss) pr1 = Return m q"
        using execute_well [of pr1 "concat xss" f M] on(2) ne by (auto simp: fit_def)
      moreover have "http_errno pr1 = HPE_OK" "\<not> exited pr1" using fit_ok [OF on(2)] by simp_all
      ultimately show ?thesis
        using on(1,3) by (auto simp: alike_def same_after_def bad_def split: outcome.splits)
    next
      case stop
      then show ?thesis using q by (auto simp: alike_def)
    qed
  qed
qed simp


lemma execute_returns:
  assumes "http_errno pr = HPE_OK \<Longrightarrow> pinv 0 (nread pr) (state pr) pr"
  shows "\<exists>n pr'. http_parser_execute (pure_settings f) M xs pr = Return n pr'"
proof (cases "http_errno pr = HPE_OK")
  case True
  then show ?thesis using execute_empty [OF True, of f M] execute_well [OF assms [OF True], of xs f M] by (cases "xs = []") auto
qed (simp add: http_parser_execute_def)

lemma feed_returns: "http_reachable f M pr \<Longrightarrow> \<exists>n q. feed (pure_settings f) M xss pr = Return n q"
proof (induction xss arbitrary: pr)
  case (Cons xs xss)
  obtain n q where q: "http_parser_execute (pure_settings f) M xs pr = Return n q"
    using execute_returns [OF reachable_pinv [OF Cons.prems]] by blast
  then have "http_reachable f M q" using Cons.prems http_reachable.reach_execute by blast
  then show ?case using q Cons.IH [of q] by auto
qed simp

lemma reachable_counted: "http_reachable f M pr \<Longrightarrow> http_errno pr = HPE_OK \<Longrightarrow> nread pr \<le> M"
proof (induction rule: http_reachable.induct)
  case (reach_init t d a b)
  then show ?case by (simp add: http_parser_init_def)
next
  case (reach_execute pr xs n pr')
  show ?case
  proof (cases "http_errno pr = HPE_OK")
    case True
    show ?thesis
    proof (cases "xs = []")
      case True
      then obtain d where "pr' = pr\<lparr>data := d\<rparr>"
        using execute_empty [OF \<open>http_errno pr = HPE_OK\<close>, of f M] reach_execute.hyps(2) reach_execute.prems by auto
      then show ?thesis using reach_execute.IH [OF \<open>http_errno pr = HPE_OK\<close>] by simp
    next
      case False
      have "linv 0 0 (entry pr)" using reachable_pinv [OF reach_execute.hyps(1) True] by (simp add: entry_linv)
      then have "counted M (exec_loop (env f M (opts pr) xs) (entry pr))"
        using exec_loop_counted [of "env f M (opts pr) xs" f "entry pr"] reach_execute.IH [OF True] by simp
      then show ?thesis using reach_execute.hyps(2) reach_execute.prems execute_loop [OF True False] by (simp add: counted_def)
    qed
  next
    case False
    then show ?thesis using reach_execute by (simp add: http_parser_execute_def)
  qed
qed

text \<open>C3. The pieces in which the input of the HTTP parser arrives make no difference. Whatever was
  parsed before, if the callbacks append what they get to what they have, then feeding pieces
  one by one to \<^verbatim>\<open>http_parser_execute\<close> gives the structure, the object of the callbacks and the count of
  octets that one call with the whole input gives, and it reports an error exactly when that call does. The
  input is shorter than \<^verbatim>\<open>2^32\<close> octets by at least the limit on the headers.
\<close>

theorem http_parser_pieces:
  assumes "http_reachable f M pr" "http_errno pr = HPE_OK" "\<not> exited pr" "merges f"
    and "xss \<noteq> []" "[] \<notin> set xss" "unat M + length (concat xss) < 2 ^ 32"
  shows "feed (pure_settings f) M xss pr = http_parser_execute (pure_settings f) M (concat xss) pr \<or>
    (\<exists>n q m q'. feed (pure_settings f) M xss pr = Return n q \<and> http_errno q \<noteq> HPE_OK \<and>
       http_parser_execute (pure_settings f) M (concat xss) pr = Return m q' \<and> http_errno q' \<noteq> HPE_OK)"
proof -
  have "fit M pr" using assms(2,3) reachable_pinv [OF assms(1,2)] reachable_counted [OF assms(1,2)] by (simp add: fit_def)
  then have "alike (feed (pure_settings f) M xss pr) (http_parser_execute (pure_settings f) M (concat xss) pr)"
    using feed_concat [OF assms(4) _ assms(5-7)] by blast
  then show ?thesis
    using feed_returns [OF assms(1), of xss] execute_returns [OF reachable_pinv [OF assms(1)], of f M "concat xss"] by (auto simp: alike_def)
qed

text \<open>A client that keeps the strings in order, each with the callback it came through.\<close>

definition gather :: "event \<Rightarrow> (data_cb \<times> octets) list \<Rightarrow> (data_cb \<times> octets) list" where
  "gather e d =
     (case e of
        Notify k \<Rightarrow> d
      | Data k xs \<Rightarrow>
          (case d of
             (k', ys) # r \<Rightarrow> if k = k' then (k, ys @ xs) # r else (k, xs) # d
           | [] \<Rightarrow> [(k, xs)]))"

lemma gather_merges: "merges gather"
  by (auto simp: merges_def gather_def split: list.split)

theorem http_parser_pieces_witness:
  "feed (pure_settings gather) 100 [str ''GE'', str ''T /'', str ''a''] (http_parser_init HTTP_REQUEST [])
     = http_parser_execute (pure_settings gather) 100 (str ''GET /a'') (http_parser_init HTTP_REQUEST [])"
proof -
  let ?pr = "http_parser_init HTTP_REQUEST [] :: (data_cb \<times> octets) list http_parser" and ?xss = "[str ''GE'', str ''T /'', str ''a'']"
  have "http_reachable gather 100 (?pr\<lparr>lenient_http_headers := False, allow_chunked_length := False\<rparr>)" by (rule reach_init)
  then have "http_reachable gather 100 ?pr" by (simp add: http_parser_init_def)
  moreover have "http_errno ?pr = HPE_OK" "\<not> exited ?pr" by (simp_all add: http_parser_init_def exited_def)
  moreover have "concat ?xss = str ''GET /a''" "unat (100 :: u32) + length (concat ?xss) < 2 ^ 32" "[] \<notin> set ?xss" by (simp_all add: str_def)
  moreover have "case http_parser_execute (pure_settings gather) 100 (str ''GET /a'') ?pr of Return n q \<Rightarrow> http_errno q = HPE_OK | _ \<Rightarrow> False"
    by code_simp
  ultimately show ?thesis using http_parser_pieces [of gather 100 ?pr ?xss] gather_merges by auto
qed

end
