(* ===== verification/Http_Parse_Url.thy ===== *)
theory Http_Parse_Url
  imports Http_Safety
begin

text \<open>
  \<^verbatim>\<open>http_parser_parse_url\<close> and its helpers in \<^verbatim>\<open>easy_net/protocol/http/http_parser.c\<close>: a URL is
  cut into fields, each an offset and a length of 16 bits. The bits of \<^verbatim>\<open>field_set\<close> are a set.
  A failed assertion and a read outside the buffer are the value \<open>None\<close>; any other call gives the
  number it returns and the structure it leaves, which on failure is only partly filled.
\<close>

section \<open>Data\<close>

datatype http_host_state =
  s_http_host_dead | s_http_userinfo_start | s_http_userinfo | s_http_host_start | s_http_host_v6_start | s_http_host |
  s_http_host_v6 | s_http_host_v6_end | s_http_host_v6_zone_start | s_http_host_v6_zone | s_http_host_port_start |
  s_http_host_port

datatype http_parser_url_fields = UF_SCHEMA | UF_HOST | UF_PORT | UF_PATH | UF_QUERY | UF_FRAGMENT | UF_USERINFO | UF_MAX

record url_field =
  off :: u16
  len :: u16

record http_parser_url =
  field_set :: "http_parser_url_fields set"
  port :: u16
  field_data :: "http_parser_url_fields \<Rightarrow> url_field"

definition http_parser_url_init :: http_parser_url where
  "http_parser_url_init = \<lparr>field_set = {}, port = 0, field_data = (\<lambda>_. \<lparr>off = 0, len = 0\<rparr>)\<rparr>"

section \<open>The host\<close>

fun http_parse_host_char :: "http_host_state \<Rightarrow> u8 \<Rightarrow> http_host_state" where
  "http_parse_host_char s_http_userinfo ch =
     (if ch = oct CHR ''@'' then s_http_host_start else if IS_USERINFO_CHAR ch then s_http_userinfo else s_http_host_dead)"
| "http_parse_host_char s_http_userinfo_start ch =
     (if ch = oct CHR ''@'' then s_http_host_start else if IS_USERINFO_CHAR ch then s_http_userinfo else s_http_host_dead)"
| "http_parse_host_char s_http_host_start ch =
     (if ch = oct CHR ''['' then s_http_host_v6_start else if IS_HOST_CHAR ch then s_http_host else s_http_host_dead)"
| "http_parse_host_char s_http_host ch =
     (if IS_HOST_CHAR ch then s_http_host else if ch = oct CHR '':'' then s_http_host_port_start else s_http_host_dead)"
| "http_parse_host_char s_http_host_v6_end ch = (if ch = oct CHR '':'' then s_http_host_port_start else s_http_host_dead)"
| "http_parse_host_char s_http_host_v6 ch =
     (if ch = oct CHR '']'' then s_http_host_v6_end
      else if IS_HEX ch \<or> ch = oct CHR '':'' \<or> ch = oct CHR ''.'' then s_http_host_v6
      else if ch = oct CHR ''%'' then s_http_host_v6_zone_start
      else s_http_host_dead)"
| "http_parse_host_char s_http_host_v6_start ch =
     (if IS_HEX ch \<or> ch = oct CHR '':'' \<or> ch = oct CHR ''.'' then s_http_host_v6 else s_http_host_dead)"
| "http_parse_host_char s_http_host_v6_zone ch =
     (if ch = oct CHR '']'' then s_http_host_v6_end
      else if IS_ALPHANUM ch \<or> ch \<in> set (str ''%.-_~'') then s_http_host_v6_zone
      else s_http_host_dead)"
| "http_parse_host_char s_http_host_v6_zone_start ch =
     (if IS_ALPHANUM ch \<or> ch \<in> set (str ''%.-_~'') then s_http_host_v6_zone else s_http_host_dead)"
| "http_parse_host_char s_http_host_port ch = (if IS_NUM ch then s_http_host_port else s_http_host_dead)"
| "http_parse_host_char s_http_host_port_start ch = (if IS_NUM ch then s_http_host_port else s_http_host_dead)"
| "http_parse_host_char s_http_host_dead ch = s_http_host_dead"

definition set_off :: "http_parser_url_fields \<Rightarrow> nat \<Rightarrow> http_parser_url \<Rightarrow> http_parser_url" where
  "set_off uf p u = u\<lparr>field_data := (field_data u)(uf := (field_data u uf)\<lparr>off := of_nat p\<rparr>)\<rparr>"

definition set_len :: "http_parser_url_fields \<Rightarrow> u16 \<Rightarrow> http_parser_url \<Rightarrow> http_parser_url" where
  "set_len uf n u = u\<lparr>field_data := (field_data u)(uf := (field_data u uf)\<lparr>len := n\<rparr>)\<rparr>"

definition inc_len :: "http_parser_url_fields \<Rightarrow> http_parser_url \<Rightarrow> http_parser_url" where
  "inc_len uf u = set_len uf (len (field_data u uf) + 1) u"

text \<open>\<^verbatim>\<open>off = p - buf; len = 0; field_set |= 1 << uf;\<close>\<close>

definition open_field :: "http_parser_url_fields \<Rightarrow> nat \<Rightarrow> http_parser_url \<Rightarrow> http_parser_url" where
  "open_field uf p u = (set_len uf 0 (set_off uf p u))\<lparr>field_set := insert uf (field_set u)\<rparr>"

definition host_char :: "nat \<Rightarrow> http_host_state \<Rightarrow> http_host_state \<Rightarrow> http_parser_url \<Rightarrow> http_parser_url" where
  "host_char p s new_s u =
     (if new_s = s_http_host \<or> new_s = s_http_host_v6
      then inc_len UF_HOST (if s \<noteq> new_s then set_off UF_HOST p u else u)
      else if new_s = s_http_host_v6_zone_start \<or> new_s = s_http_host_v6_zone then inc_len UF_HOST u
      else if new_s = s_http_host_port then inc_len UF_PORT (if s \<noteq> s_http_host_port then open_field UF_PORT p u else u)
      else if new_s = s_http_userinfo then inc_len UF_USERINFO (if s \<noteq> s_http_userinfo then open_field UF_USERINFO p u else u)
      else u)"

text \<open>The loop from \<open>p\<close> to \<open>e\<close>: the state it ends in, or \<open>s_http_host_dead\<close> where it returns.\<close>

function host_loop :: "octets \<Rightarrow> nat \<Rightarrow> nat \<Rightarrow> http_host_state \<Rightarrow> http_parser_url \<Rightarrow> (http_host_state \<times> http_parser_url) option" where
  "host_loop b p e s u =
     (if p \<ge> e then Some (s, u)
      else if p \<ge> length b then None
      else let new_s = http_parse_host_char s (b ! p)
           in if new_s = s_http_host_dead then Some (new_s, u)
              else host_loop b (p + 1) e new_s (host_char p s new_s u))"
  by pat_completeness auto
termination
  by (relation "measure (\<lambda>(b, p, e, s, u). e - p)") auto

declare host_loop.simps [simp del]

definition host_ends :: "http_host_state \<Rightarrow> bool" where
  "host_ends s \<longleftrightarrow> s \<in> {s_http_host, s_http_host_v6_end, s_http_host_port}"

definition http_parse_host :: "octets \<Rightarrow> http_parser_url \<Rightarrow> bool \<Rightarrow> (int \<times> http_parser_url) option" where
  "http_parse_host b u found_at =
     (let start = unat (off (field_data u UF_HOST)); e = start + unat (len (field_data u UF_HOST))
      in if UF_HOST \<notin> field_set u then None
         else map_option (\<lambda>(s, u'). (if host_ends s then 0 else 1, u'))
                (host_loop b start e (if found_at then s_http_userinfo_start else s_http_host_start) (set_len UF_HOST 0 u)))"

section \<open>The URL\<close>

text \<open>The field of a state, \<open>None\<close> for the delimiters.\<close>

definition field_of :: "state \<Rightarrow> http_parser_url_fields option option" where
  "field_of s =
     (case s of
        s_req_schema_slash \<Rightarrow> Some None
      | s_req_schema_slash_slash \<Rightarrow> Some None
      | s_req_server_start \<Rightarrow> Some None
      | s_req_query_string_start \<Rightarrow> Some None
      | s_req_fragment_start \<Rightarrow> Some None
      | s_req_schema \<Rightarrow> Some (Some UF_SCHEMA)
      | s_req_server_with_at \<Rightarrow> Some (Some UF_HOST)
      | s_req_server \<Rightarrow> Some (Some UF_HOST)
      | s_req_path \<Rightarrow> Some (Some UF_PATH)
      | s_req_query_string \<Rightarrow> Some (Some UF_QUERY)
      | s_req_fragment \<Rightarrow> Some (Some UF_FRAGMENT)
      | _ \<Rightarrow> None)"

record url_locals =
  ul_old_uf :: http_parser_url_fields
  ul_found_at :: bool
  ul_u :: http_parser_url

text \<open>The loop from position \<open>p\<close> on: \<open>Inl\<close> where it returns 1, \<open>None\<close> for the failed assertion.\<close>

fun parse_url_loop :: "nat \<Rightarrow> octets \<Rightarrow> state \<Rightarrow> url_locals \<Rightarrow> (http_parser_url + url_locals) option" where
  "parse_url_loop p [] s l = Some (Inr l)"
| "parse_url_loop p (c # cs) s l =
     (let s' = parse_url_char s c
      in if s' = s_dead then Some (Inl (ul_u l))
         else case field_of s' of
                None \<Rightarrow> None
              | Some None \<Rightarrow> parse_url_loop (p + 1) cs s' l
              | Some (Some uf) \<Rightarrow>
                  let l1 = (if s' = s_req_server_with_at then l\<lparr>ul_found_at := True\<rparr> else l)
                  in if uf = ul_old_uf l1
                     then parse_url_loop (p + 1) cs s' (l1\<lparr>ul_u := inc_len uf (ul_u l1)\<rparr>)
                     else parse_url_loop (p + 1) cs s'
                            (l1\<lparr>ul_old_uf := uf, ul_u := set_len uf 1 (open_field uf p (ul_u l1))\<rparr>))"

text \<open>The port from its characters, in an \<^verbatim>\<open>unsigned long\<close>: \<open>None\<close> above \<^verbatim>\<open>0xffff\<close>. A \<^verbatim>\<open>char\<close> is signed.\<close>

fun port_value :: "u64 \<Rightarrow> octets \<Rightarrow> u64 option" where
  "port_value v [] = Some v"
| "port_value v (c # cs) = (let v' = v * 10 + (signed c - 48) in if v' > 0xffff then None else port_value v' cs)"

definition convert_port :: "octets \<Rightarrow> http_parser_url \<Rightarrow> (int \<times> http_parser_url) option" where
  "convert_port b u =
     (let start = unat (off (field_data u UF_PORT)); n = unat (len (field_data u UF_PORT))
      in if start + n > length b then None
         else case port_value 0 (sub_octets b start n) of
                None \<Rightarrow> Some (1, u)
              | Some v \<Rightarrow> Some (0, u\<lparr>port := ucast v\<rparr>))"

definition http_parser_parse_url :: "octets \<Rightarrow> bool \<Rightarrow> http_parser_url \<Rightarrow> (int \<times> http_parser_url) option" where
  "http_parser_parse_url b is_connect u =
     (if b = [] then Some (1, u)
      else case parse_url_loop 0 b (if is_connect then s_req_server_start else s_req_spaces_before_url)
                  \<lparr>ul_old_uf = UF_MAX, ul_found_at = False, ul_u = u\<lparr>port := 0, field_set := {}\<rparr>\<rparr> of
             None \<Rightarrow> None
           | Some (Inl u1) \<Rightarrow> Some (1, u1)
           | Some (Inr l) \<Rightarrow>
               let u1 = ul_u l
               in if UF_SCHEMA \<in> field_set u1 \<and> UF_HOST \<notin> field_set u1 then Some (1, u1)
                  else case (if UF_HOST \<in> field_set u1 then http_parse_host b u1 (ul_found_at l) else Some (0, u1)) of
                         None \<Rightarrow> None
                       | Some (r, u2) \<Rightarrow>
                           if r \<noteq> 0 then Some (1, u2)
                           else if is_connect \<and> field_set u2 \<noteq> {UF_HOST, UF_PORT} then Some (1, u2)
                           else if UF_PORT \<in> field_set u2 then convert_port b u2
                           else Some (0, u2))"


section \<open>The fields lie in the buffer\<close>

definition inside :: "http_parser_url_fields set \<Rightarrow> nat \<Rightarrow> http_parser_url \<Rightarrow> bool" where
  "inside A n u \<longleftrightarrow> (\<forall>uf. uf \<in> field_set u \<longrightarrow> uf \<in> A \<longrightarrow> unat (off (field_data u uf)) + unat (len (field_data u uf)) \<le> n)"

lemmas url_defs = set_off_def set_len_def inc_len_def open_field_def

lemma unat_of_nat_le: "unat (of_nat n :: u16) \<le> n"
  by (simp add: unsigned_of_nat take_bit_nat_less_eq_self)

lemma unat_inc_le: "unat (n + 1 :: u16) \<le> Suc (unat n)"
  using unat_of_nat_le [of "Suc (unat n)"] by (simp add: add.commute)

lemma inside_mono: "inside A m u \<Longrightarrow> m \<le> n \<Longrightarrow> inside A n u"
  by (meson inside_def le_trans)

lemma inside_inc:
  assumes "inside A p u" "uf \<in> field_set u"
  shows "inside A (Suc p) (inc_len uf u)"
  using assms unat_inc_le [of "len (field_data u uf)"] by (fastforce simp: inside_def url_defs)

lemma inside_open: "inside A p u \<Longrightarrow> inside A p (open_field uf p u)"
  using unat_of_nat_le [of p] by (auto simp: inside_def url_defs)

lemma open_set [simp]: "field_set (open_field uf p u) = insert uf (field_set u)" "field_set (set_len uf n u) = field_set u"
   "field_set (inc_len uf u) = field_set u" "field_set (set_off uf p u) = field_set u"
  by (simp_all add: url_defs)

lemma open_first: "set_len uf 1 (open_field uf p u) = inc_len uf (open_field uf p u)"
  by (simp add: url_defs)

lemma field_of_states: "s \<in> url_states \<Longrightarrow> field_of s \<noteq> None"
  by (auto simp: url_states_def field_of_def)

lemma url_loop_inside:
  "\<lbrakk>inside UNIV p (ul_u l); ul_old_uf l = UF_MAX \<or> ul_old_uf l \<in> field_set (ul_u l); field_set (ul_u l) \<inter> {UF_PORT, UF_USERINFO} = {}\<rbrakk> \<Longrightarrow>
   \<exists>r. parse_url_loop p cs s l = Some r \<and>
     (\<forall>l'. r = Inr l' \<longrightarrow> inside UNIV (p + length cs) (ul_u l') \<and> field_set (ul_u l') \<inter> {UF_PORT, UF_USERINFO} = {})"
proof (induction p cs s l rule: parse_url_loop.induct)
  case (2 p c cs s l)
  let ?s = "parse_url_char s c"
  show ?case
  proof (cases "?s = s_dead")
    case False
    then obtain o' where f: "field_of ?s = Some o'" using parse_url_char_states [of s c] field_of_states [of ?s] by auto
    show ?thesis
    proof (cases o')
      case None
      then show ?thesis using 2(1) [of ?s o'] 2(4-6) False f inside_mono [of UNIV p _ "p + 1"] by (simp add: Let_def)
    next
      case (Some uf)
      let ?l1 = "if ?s = s_req_server_with_at then l\<lparr>ul_found_at := True\<rparr> else l"
      have mx: "uf \<noteq> UF_MAX" "UF_PORT \<noteq> uf" "UF_USERINFO \<noteq> uf" using f Some by (auto simp: field_of_def split: state.splits)
      show ?thesis
      proof (cases "uf = ul_old_uf l")
        case True
        then have "inside UNIV (p + 1) (inc_len uf (ul_u l))" using 2(4,5) mx inside_inc by auto
        then show ?thesis
          using 2(2) [of ?s o' uf ?l1] 2(5,6) False f Some True by (cases "?s = s_req_server_with_at") (simp_all add: Let_def)
      next
        case no: False
        have "inside UNIV (p + 1) (set_len uf 1 (open_field uf p (ul_u l)))"
          using inside_inc [OF inside_open [OF 2(4), of uf]] by (simp add: open_first)
        then show ?thesis
          using 2(3) [of ?s o' uf ?l1] 2(6) mx(2,3) False f Some no by (cases "?s = s_req_server_with_at") (simp_all add: Let_def)
      qed
    qed
  qed (simp add: Let_def)
qed simp


text \<open>While the host is not yet open its length is still 0.\<close>

definition before_host :: "http_host_state \<Rightarrow> bool" where
  "before_host s \<longleftrightarrow> s \<in> {s_http_userinfo_start, s_http_userinfo, s_http_host_start, s_http_host_v6_start}"

abbreviation "host_fields \<equiv> {UF_HOST, UF_PORT, UF_USERINFO}"

lemma host_char_inside:
  assumes "inside host_fields p u" "UF_HOST \<in> field_set u" "s = s_http_host_port \<longrightarrow> UF_PORT \<in> field_set u" "s = s_http_userinfo \<longrightarrow> UF_USERINFO \<in> field_set u"
    and "before_host s \<longrightarrow> len (field_data u UF_HOST) = 0" "t = http_parse_host_char s c" "t \<noteq> s_http_host_dead"
  shows "inside host_fields (Suc p) (host_char p s t u)" "UF_HOST \<in> field_set (host_char p s t u)"
    "t = s_http_host_port \<longrightarrow> UF_PORT \<in> field_set (host_char p s t u)" "t = s_http_userinfo \<longrightarrow> UF_USERINFO \<in> field_set (host_char p s t u)"
    "before_host t \<longrightarrow> len (field_data (host_char p s t u) UF_HOST) = 0"
proof -
  have off: "before_host s \<Longrightarrow> inside host_fields p (set_off UF_HOST p u)"
    using assms(1,5) unat_of_nat_le [of p] by (auto simp: inside_def url_defs)
  have bh: "t = s_http_host \<or> t = s_http_host_v6 \<Longrightarrow> s \<noteq> t \<Longrightarrow> before_host s"
    using assms(6,7) by (cases s) (auto simp: before_host_def split: if_splits)
  show "inside host_fields (Suc p) (host_char p s t u)"
    using assms(1-4) off bh inside_inc inside_open inside_mono [of host_fields p u "Suc p"] by (auto simp: host_char_def)
  show "UF_HOST \<in> field_set (host_char p s t u)" using assms(2) by (simp add: host_char_def)
  show "t = s_http_host_port \<longrightarrow> UF_PORT \<in> field_set (host_char p s t u)" "t = s_http_userinfo \<longrightarrow> UF_USERINFO \<in> field_set (host_char p s t u)"
    using assms(3,4) by (simp_all add: host_char_def)
  have "before_host t \<Longrightarrow> before_host s" using assms(6,7) by (cases s) (auto simp: before_host_def split: if_splits)
  then show "before_host t \<longrightarrow> len (field_data (host_char p s t u) UF_HOST) = 0"
    using assms(5) by (auto simp: host_char_def before_host_def url_defs)
qed

lemma host_char_other: "inside (- host_fields) n (host_char p s t u) = inside (- host_fields) n u"
  by (auto simp: inside_def host_char_def url_defs)

lemma inside_both: "inside host_fields n u \<Longrightarrow> inside (- host_fields) n u \<Longrightarrow> inside UNIV n u"
  by (auto simp: inside_def)

lemma host_loop_inside:
  "\<lbrakk>inside host_fields p u; inside (- host_fields) (length b) u; UF_HOST \<in> field_set u; s = s_http_host_port \<longrightarrow> UF_PORT \<in> field_set u;
    s = s_http_userinfo \<longrightarrow> UF_USERINFO \<in> field_set u; before_host s \<longrightarrow> len (field_data u UF_HOST) = 0; p \<le> length b; e \<le> length b\<rbrakk> \<Longrightarrow>
   \<exists>s' u'. host_loop b p e s u = Some (s', u') \<and> inside UNIV (length b) u'"
proof (induction "e - p" arbitrary: p s u)
  case 0
  then show ?case using inside_mono [of host_fields p u] inside_both by (subst host_loop.simps) auto
next
  case (Suc n)
  let ?t = "http_parse_host_char s (b ! p)"
  have pe: "p < e" using Suc(2) by simp
  show ?case
  proof (cases "?t = s_http_host_dead")
    case True
    then show ?thesis using pe Suc.prems inside_mono [of host_fields p u] inside_both by (subst host_loop.simps) (auto simp: Let_def)
  next
    case False
    note hc = host_char_inside [OF Suc.prems(1,3-6) refl False]
    have "\<exists>s' u'. host_loop b (Suc p) e ?t (host_char p s ?t u) = Some (s', u') \<and> inside UNIV (length b) u'"
      using hc Suc(2) pe Suc.prems(2,8) by (intro Suc.hyps(1)) (simp_all add: host_char_other)
    then show ?thesis using pe Suc.prems(8) False by (subst host_loop.simps) (simp add: Let_def)
  qed
qed

lemma parse_host_inside:
  assumes "inside UNIV (length b) u" "UF_HOST \<in> field_set u" "field_set u \<inter> {UF_PORT, UF_USERINFO} = {}"
  shows "\<exists>r u'. http_parse_host b u found_at = Some (r, u') \<and> inside UNIV (length b) u'"
proof -
  let ?p = "unat (off (field_data u UF_HOST))" and ?n = "unat (len (field_data u UF_HOST))" and ?u = "set_len UF_HOST 0 u"
  have e: "?p + ?n \<le> length b" using assms(1,2) by (simp add: inside_def)
  have "inside host_fields ?p ?u" "inside (- host_fields) (length b) ?u" "len (field_data ?u UF_HOST) = 0"
    using assms by (auto simp: inside_def url_defs)
  moreover have "(if found_at then s_http_userinfo_start else s_http_host_start) \<notin> {s_http_host_port, s_http_userinfo}" by simp
  ultimately obtain s' u' where "host_loop b ?p (?p + ?n) (if found_at then s_http_userinfo_start else s_http_host_start) ?u = Some (s', u')"
      "inside UNIV (length b) u'"
    using host_loop_inside [of ?p ?u b "if found_at then s_http_userinfo_start else s_http_host_start" "?p + ?n"] assms(2) e
    by auto
  then show ?thesis using assms(2) by (simp add: http_parse_host_def Let_def)
qed

text \<open>C20. \<^verbatim>\<open>http_parser_parse_url\<close> is safe on every string, also on those longer than its offsets of 16 bits
  can address: it never reads outside the buffer, none of its assertions fails, it
  returns 0 or 1, and if it returns 0 every field it reports lies inside the buffer.
\<close>

theorem parse_url_safe:
  "\<exists>r u'. http_parser_parse_url b is_connect u = Some (r, u') \<and> (r = 0 \<or> r = 1) \<and>
     (r = 0 \<longrightarrow> (\<forall>uf\<in>field_set u'. unat (off (field_data u' uf)) + unat (len (field_data u' uf)) \<le> length b))"
proof -
  let ?l = "\<lparr>ul_old_uf = UF_MAX, ul_found_at = False, ul_u = u\<lparr>port := 0, field_set := {}\<rparr>\<rparr>"
  let ?s = "if is_connect then s_req_server_start else s_req_spaces_before_url"
  have "inside UNIV 0 (ul_u ?l)" by (simp add: inside_def)
  then obtain r where r: "parse_url_loop 0 b ?s ?l = Some r"
      "\<forall>l'. r = Inr l' \<longrightarrow> inside UNIV (length b) (ul_u l') \<and> field_set (ul_u l') \<inter> {UF_PORT, UF_USERINFO} = {}"
    using url_loop_inside [of 0 ?l b ?s] by auto
  show ?thesis
  proof (cases r)
    case (Inl u1)
    then show ?thesis using r(1) by (auto simp: http_parser_parse_url_def)
  next
    case (Inr l)
    then have in1: "inside UNIV (length b) (ul_u l)" "field_set (ul_u l) \<inter> {UF_PORT, UF_USERINFO} = {}" using r(2) by auto
    have "\<exists>k u2. (if UF_HOST \<in> field_set (ul_u l) then http_parse_host b (ul_u l) (ul_found_at l) else Some (0, ul_u l)) = Some (k, u2) \<and>
        inside UNIV (length b) u2"
      using parse_host_inside [OF in1(1) _ in1(2)] in1(1) by auto
    then obtain k u2 where h: "(if UF_HOST \<in> field_set (ul_u l) then http_parse_host b (ul_u l) (ul_found_at l) else Some (0, ul_u l)) = Some (k, u2)"
      "inside UNIV (length b) u2" by blast
    have "UF_PORT \<in> field_set u2 \<Longrightarrow> \<exists>r u'. convert_port b u2 = Some (r, u') \<and> (r = 0 \<or> r = 1) \<and> inside UNIV (length b) u'"
      using h(2) by (auto simp: convert_port_def inside_def Let_def split: option.split)
    then show ?thesis
      using r(1) Inr h by (auto simp: http_parser_parse_url_def inside_def Let_def split: if_splits)
  qed
qed


theorem parse_url_safe_witness:
  "\<exists>u'. http_parser_parse_url (str ''http://a:80/b'') False http_parser_url_init = Some (0, u') \<and>
     unat (off (field_data u' UF_PORT)) + unat (len (field_data u' UF_PORT)) \<le> 13"
proof -
  have "case http_parser_parse_url (str ''http://a:80/b'') False http_parser_url_init of
      Some (r, u) \<Rightarrow> r = 0 \<and> UF_PORT \<in> field_set u | None \<Rightarrow> False" by code_simp
  moreover have "length (str ''http://a:80/b'') = 13" by (simp add: str_def)
  ultimately show ?thesis using parse_url_safe [of "str ''http://a:80/b''" False http_parser_url_init] by auto
qed

section \<open>A URL is cut where it was put together\<close>

definition put :: "http_parser_url_fields \<Rightarrow> nat \<Rightarrow> nat \<Rightarrow> http_parser_url \<Rightarrow> http_parser_url" where
  "put uf p n u = set_len uf (of_nat n) (open_field uf p u)"

lemma put_simps [simp]:
  "field_set (put uf p n u) = insert uf (field_set u)"
  "field_data (put uf p n u) = (field_data u)(uf := \<lparr>off = of_nat p, len = of_nat n\<rparr>)" "port (put uf p n u) = port u"
  by (cases "field_data u uf"; simp add: put_def url_defs)+

lemma inc_put: "inc_len uf (put uf p n u) = put uf p (Suc n) u" "set_len uf 1 (open_field uf p u) = put uf p (Suc 0) u"
  by (simp_all add: put_def url_defs add.commute)

lemma url_run_same:
  "\<lbrakk>field_of s = Some (Some uf); s \<noteq> s_req_server_with_at; \<forall>c\<in>set cs. parse_url_char s c = s; ul_old_uf l = uf; ul_u l = put uf q n u\<rbrakk> \<Longrightarrow>
   parse_url_loop p (cs @ r) s l = parse_url_loop (p + length cs) r s (l\<lparr>ul_u := put uf q (n + length cs) u\<rparr>)"
proof (induction cs arbitrary: p l n)
  case (Cons c cs)
  have "s \<noteq> s_dead" using Cons.prems(1) by (auto simp: field_of_def)
  then show ?case using Cons.prems Cons.IH [of "l\<lparr>ul_u := put uf q (Suc n) u\<rparr>" "Suc n" "Suc p"] by (simp add: inc_put Let_def)
next
  case Nil
  then show ?case by (cases l) simp
qed

lemma url_run:
  assumes "cs \<noteq> []" "field_of s = Some (Some uf)" "s \<noteq> s_req_server_with_at" "parse_url_char s0 (hd cs) = s" "\<forall>c\<in>set (tl cs). parse_url_char s c = s"
    and "ul_old_uf l \<noteq> uf"
  shows "parse_url_loop p (cs @ r) s0 l = parse_url_loop (p + length cs) r s (l\<lparr>ul_old_uf := uf, ul_u := put uf p (length cs) (ul_u l)\<rparr>)"
proof -
  have "s \<noteq> s_dead" using assms(2) by (auto simp: field_of_def)
  moreover obtain c cs' where "cs = c # cs'" using assms(1) by (cases cs) auto
  ultimately show ?thesis
    using assms url_run_same [of s uf cs' "l\<lparr>ul_old_uf := uf, ul_u := put uf p (Suc 0) (ul_u l)\<rparr>" p "Suc 0" "ul_u l" "Suc p" r]
    by (auto simp: inc_put Let_def)
qed

lemma url_pass: "parse_url_char s0 c = s \<Longrightarrow> field_of s = Some None \<Longrightarrow> parse_url_loop p (c # r) s0 l = parse_url_loop (Suc p) r s l"
  by (auto simp: Let_def field_of_def)

text \<open>The characters of each part.\<close>

lemma schema_chars: "IS_ALPHA c \<Longrightarrow> parse_url_char s_req_spaces_before_url c = s_req_schema \<and> parse_url_char s_req_schema c = s_req_schema"
  by (auto simp: parse_url_char_def IS_ALPHA_def LOWER_def)

lemma server_chars:
  assumes "IS_HOST_CHAR c \<or> c = oct CHR '':''" "s \<in> {s_req_server_start, s_req_server}"
  shows "parse_url_char s c = s_req_server"
proof -
  have "c \<notin> {32, 13, 10, 9, 12, 47, 63, 64}"
    using assms(1) by (auto simp: IS_HOST_CHAR_def IS_ALPHANUM_def IS_ALPHA_def IS_NUM_def LOWER_def)
  moreover have "IS_USERINFO_CHAR c" using assms(1) by (auto simp: IS_HOST_CHAR_def IS_USERINFO_CHAR_def IS_MARK_def str_def)
  ultimately show ?thesis using assms(2) by (elim insertE emptyE) (simp_all add: parse_url_char_def url_server_char_def)
qed

lemma userinfo_char_not:
  assumes "IS_USERINFO_CHAR c"
  shows "c \<notin> {32, 13, 10, 9, 12, 47, 63, 64}"
  using assms by (auto simp: IS_USERINFO_CHAR_def IS_MARK_def IS_ALPHANUM_def IS_ALPHA_def IS_NUM_def LOWER_def str_def)

lemma user_chars:
  assumes "IS_USERINFO_CHAR c" "s \<in> {s_req_server_start, s_req_server, s_req_server_with_at}"
  shows "parse_url_char s c = s_req_server"
  using userinfo_char_not [OF assms(1)] assms by (elim insertE emptyE) (simp_all add: parse_url_char_def url_server_char_def)

lemma at_sign: "parse_url_char s_req_server (oct CHR ''@'') = s_req_server_with_at"
  by (simp add: parse_url_char_def url_server_char_def)

lemma path_chars: 
  assumes "IS_URL_CHAR c"
  shows "parse_url_char s_req_path c = s_req_path" "s \<in> {s_req_query_string_start, s_req_query_string} \<Longrightarrow> parse_url_char s c = s_req_query_string"
    "s \<in> {s_req_fragment_start, s_req_fragment} \<Longrightarrow> parse_url_char s c = s_req_fragment"
proof -
  have "c \<notin> {32, 13, 10, 9, 12}" using assms by (auto simp: IS_URL_CHAR_def BIT_AT_def normal_url_char_def)
  then show "parse_url_char s_req_path c = s_req_path" "s \<in> {s_req_query_string_start, s_req_query_string} \<Longrightarrow> parse_url_char s c = s_req_query_string"
    "s \<in> {s_req_fragment_start, s_req_fragment} \<Longrightarrow> parse_url_char s c = s_req_fragment"
    using assms by (auto simp: parse_url_char_def)
qed

lemma delimiters:
  "parse_url_char s_req_schema (oct CHR '':'') = s_req_schema_slash" "parse_url_char s_req_schema_slash (oct CHR ''/'') = s_req_schema_slash_slash"
  "parse_url_char s_req_schema_slash_slash (oct CHR ''/'') = s_req_server_start" "parse_url_char s_req_server (oct CHR ''/'') = s_req_path"
  "s \<in> {s_req_path, s_req_server} \<Longrightarrow> parse_url_char s (oct CHR ''?'') = s_req_query_string_start" 
  "s \<in> {s_req_path, s_req_query_string} \<Longrightarrow> parse_url_char s (oct CHR ''#'') = s_req_fragment_start"
  by (simp_all add: parse_url_char_def url_server_char_def IS_ALPHA_def LOWER_def IS_URL_CHAR_def BIT_AT_def normal_url_char_def)
    (auto simp: url_server_char_def)


text \<open>The loop over the host as a recursion on its characters.\<close>

fun host_list :: "nat \<Rightarrow> octets \<Rightarrow> http_host_state \<Rightarrow> http_parser_url \<Rightarrow> http_host_state \<times> http_parser_url" where
  "host_list p [] s u = (s, u)"
| "host_list p (c # cs) s u =
     (let t = http_parse_host_char s c
      in if t = s_http_host_dead then (t, u) else host_list (Suc p) cs t (host_char p s t u))"

lemma host_loop_list: "host_loop (pre @ cs @ r) (length pre) (length pre + length cs) s u = Some (host_list (length pre) cs s u)"
proof (induction cs arbitrary: pre s u)
  case Nil
  then show ?case by (subst host_loop.simps) simp
next
  case (Cons c cs)
  have "(pre @ c # cs @ r) ! length pre = c" by (simp add: nth_append)
  then show ?case
    using Cons.IH [of "pre @ [c]" "http_parse_host_char s c" "host_char (length pre) s (http_parse_host_char s c) u"]
    by (subst host_loop.simps) (simp add: Let_def)
qed

definition host_at :: "u16 \<Rightarrow> u16 \<Rightarrow> http_parser_url \<Rightarrow> http_parser_url" where
  "host_at q n u = u\<lparr>field_data := (field_data u)(UF_HOST := \<lparr>off = q, len = n\<rparr>)\<rparr>"

lemma host_at_simps [simp]:
  "host_at q n (host_at q' n' u) = host_at q n u" "field_data (host_at q n u) = (field_data u)(UF_HOST := \<lparr>off = q, len = n\<rparr>)"
  "field_set (host_at q n u) = field_set u" "port (host_at q n u) = port u"
  by (simp_all add: host_at_def)

lemma host_run_host:
  "\<forall>c\<in>set cs. IS_HOST_CHAR c \<Longrightarrow> field_data u UF_HOST = \<lparr>off = q, len = of_nat n\<rparr> \<Longrightarrow>
   host_list p (cs @ r) s_http_host u
     = host_list (p + length cs) r s_http_host (host_at q (of_nat (n + length cs)) u)"
proof (induction cs arbitrary: p u n)
  case Nil
  then show ?case by (cases u) (simp add: host_at_def fun_upd_idem)
next
  case (Cons c cs)
  let ?u = "host_at q (of_nat (Suc n)) u"
  have "host_char p s_http_host s_http_host u = ?u" using Cons.prems(2) by (simp add: host_char_def url_defs host_at_def add.commute)
  then show ?case using Cons.prems Cons.IH [of ?u "Suc n" "Suc p"] by (simp add: Let_def)
qed

lemma host_run_port:
  "\<forall>c\<in>set cs. IS_NUM c \<Longrightarrow> u = put UF_PORT q n u0 \<Longrightarrow>
   host_list p cs s_http_host_port u = (s_http_host_port, put UF_PORT q (n + length cs) u0)"
proof (induction cs arbitrary: p u n)
  case (Cons c cs)
  then show ?case using Cons.IH [of "put UF_PORT q (Suc n) u0" "Suc n" "Suc p"] by (simp add: host_char_def inc_put Let_def)
qed simp

definition port_text :: "octets option \<Rightarrow> octets" where
  "port_text d = (case d of None \<Rightarrow> [] | Some ds \<Rightarrow> str '':'' @ ds)"

lemma host_whole:
  assumes "host \<noteq> []" "\<forall>c\<in>set host. IS_HOST_CHAR c" "\<forall>ds. d = Some ds \<longrightarrow> ds \<noteq> [] \<and> (\<forall>c\<in>set ds. IS_NUM c)" "len (field_data u UF_HOST) = 0"
  shows "\<exists>s. host_list p (host @ port_text d) s_http_host_start u =
      (s, (let u1 = host_at (of_nat p) (of_nat (length host)) u
           in case d of None \<Rightarrow> u1 | Some ds \<Rightarrow> put UF_PORT (p + length host + 1) (length ds) u1)) \<and> host_ends s"
proof -
  obtain h hs where h: "host = h # hs" using assms(1) by (cases host) auto
  let ?u = "host_at (of_nat p) (of_nat (Suc 0)) u"
  have hc: "host_char p s_http_host_start s_http_host u = ?u"
    using assms(4) by (cases "field_data u UF_HOST") (simp add: host_char_def url_defs host_at_def)
  have ns: "IS_HOST_CHAR c \<Longrightarrow> c \<noteq> oct CHR ''[''" for c
    by (auto simp: IS_HOST_CHAR_def IS_ALPHANUM_def IS_ALPHA_def IS_NUM_def LOWER_def)
  have step: "host_list p (host @ port_text d) s_http_host_start u
      = host_list (p + length host) (port_text d) s_http_host (host_at (of_nat p) (of_nat (length host)) u)"
    using host_run_host [of hs ?u "of_nat p" "Suc 0" "Suc p" "port_text d"] assms(2) h hc ns by (simp add: Let_def)
  show ?thesis
  proof (cases d)
    case None
    then show ?thesis using step by (simp add: port_text_def host_ends_def)
  next
    case (Some ds)
    then obtain c cs where ds: "ds = c # cs" "IS_NUM c" "\<forall>c\<in>set cs. IS_NUM c" using assms(3) by (cases ds) auto
    have colon: "\<not> IS_HOST_CHAR (oct CHR '':'')"
      by (simp add: IS_HOST_CHAR_def IS_ALPHANUM_def IS_ALPHA_def IS_NUM_def LOWER_def)
    have "host_char q s_http_host_port_start s_http_host_port v = put UF_PORT q (Suc 0) v" for q v
      by (simp add: host_char_def put_def url_defs)
    then show ?thesis
      using step Some ds colon host_run_port [OF ds(3) refl]
      by (simp add: port_text_def str_def host_ends_def host_char_def Let_def)
  qed
qed


text \<open>The user information before the host.\<close>

definition user_text :: "octets option \<Rightarrow> octets" where
  "user_text ui = (case ui of None \<Rightarrow> [] | Some x \<Rightarrow> x @ str ''@'')"

lemma host_run_user:
  "\<forall>c\<in>set cs. IS_USERINFO_CHAR c \<Longrightarrow> u = put UF_USERINFO q n u0 \<Longrightarrow>
   host_list p (cs @ r) s_http_userinfo u = host_list (p + length cs) r s_http_userinfo (put UF_USERINFO q (n + length cs) u0)"
proof (induction cs arbitrary: p u n)
  case (Cons c cs)
  have "c \<noteq> oct CHR ''@''" using userinfo_char_not [of c] Cons.prems(1) by auto
  then show ?case using Cons.prems Cons.IH [of "put UF_USERINFO q (Suc n) u0" "Suc n" "Suc p"] by (simp add: host_char_def inc_put Let_def)
qed simp

lemma host_user:
  assumes "x \<noteq> []" "\<forall>c\<in>set x. IS_USERINFO_CHAR c"
  shows "host_list p ((x @ str ''@'') @ r) s_http_userinfo_start u = host_list (p + length x + 1) r s_http_host_start (put UF_USERINFO p (length x) u)"
proof -
  obtain c cs where x: "x = c # cs" using assms(1) by (cases x) auto
  have "c \<noteq> oct CHR ''@''" using userinfo_char_not [of c] assms(2) x by auto
  moreover have "host_char p s_http_userinfo_start s_http_userinfo u = put UF_USERINFO p (Suc 0) u"
    by (simp add: host_char_def put_def url_defs)
  ultimately have "host_list p ((x @ str ''@'') @ r) s_http_userinfo_start u
      = host_list (p + length x) (str ''@'' @ r) s_http_userinfo (put UF_USERINFO p (length x) u)"
    using host_run_user [of cs "put UF_USERINFO p (Suc 0) u" p "Suc 0" u "Suc p" "str ''@'' @ r"] assms(2) x by (simp add: Let_def)
  then show ?thesis by (simp add: str_def host_char_def Let_def)
qed

lemma host_whole_user:
  fixes p :: nat and ui :: "octets option"
  assumes "\<forall>x. ui = Some x \<longrightarrow> x \<noteq> [] \<and> (\<forall>c\<in>set x. IS_USERINFO_CHAR c)" "host \<noteq> []" "\<forall>c\<in>set host. IS_HOST_CHAR c"
    and "\<forall>ds. d = Some ds \<longrightarrow> ds \<noteq> [] \<and> (\<forall>c\<in>set ds. IS_NUM c)" "len (field_data u UF_HOST) = 0"
  defines "h \<equiv> p + length (user_text ui)"
  shows "\<exists>s. host_list p (user_text ui @ host @ port_text d) (if ui \<noteq> None then s_http_userinfo_start else s_http_host_start) u =
      (s, (let u0 = (case ui of None \<Rightarrow> u | Some x \<Rightarrow> put UF_USERINFO p (length x) u);
               u1 = host_at (of_nat h) (of_nat (length host)) u0
           in case d of None \<Rightarrow> u1 | Some ds \<Rightarrow> put UF_PORT (h + length host + 1) (length ds) u1)) \<and> host_ends s"
proof (cases ui)
  case None
  then show ?thesis using host_whole [OF assms(2-5), of p] by (cases d) (simp_all add: user_text_def h_def)
next
  case (Some x)
  let ?u = "put UF_USERINFO p (length x) u"
  have "len (field_data ?u UF_HOST) = 0" using assms(5) by simp
  note host_whole [OF assms(2-4) this, of "p + length x + 1"]
  then show ?thesis using host_user [of x p "host @ port_text d" u] assms(1) Some by (cases d) (simp_all add: user_text_def h_def str_def)
qed

definition decimal :: "nat \<Rightarrow> octets \<Rightarrow> nat" where
  "decimal v ds = foldl (\<lambda>v c. v * 10 + (unat c - 48)) v ds"

lemma decimal_ge: "v \<le> decimal v ds"
proof (induction ds arbitrary: v)
  case (Cons c ds)
  have "v \<le> v * 10 + (unat c - 48)" by simp
  then show ?case using Cons.IH [of "v * 10 + (unat c - 48)"] by (simp add: decimal_def)
qed (simp add: decimal_def)

lemma digit_value:
  assumes "IS_NUM c"
  shows "(signed c - 48 :: u64) = of_nat (unat c - 48)"
proof -
  have "48 \<le> unat c" "unat c \<le> 57" using assms by (simp_all add: IS_NUM_def word_le_nat_alt)
  then have "unat c \<in> {48, 49, 50, 51, 52, 53, 54, 55, 56, 57}"
    by (simp only: insert_iff empty_iff) presburger
  then have "c \<in> {48, 49, 50, 51, 52, 53, 54, 55, 56, 57}"
    by (elim insertE emptyE) (simp_all add: word_unat_eq_iff)
  then show ?thesis by (elim insertE emptyE) simp_all
qed

lemma port_value_decimal:
  "\<lbrakk>\<forall>c\<in>set ds. IS_NUM c; decimal v ds \<le> 0xffff\<rbrakk> \<Longrightarrow> port_value (of_nat v) ds = Some (of_nat (decimal v ds))"
proof (induction ds arbitrary: v)
  case (Cons c ds)
  let ?v = "v * 10 + (unat c - 48)"
  have le: "?v \<le> 0xffff" using decimal_ge [of ?v ds] Cons.prems(2) by (simp add: decimal_def)
  have eq: "(of_nat v * 10 + (signed c - 48) :: u64) = of_nat ?v" using digit_value [of c] Cons.prems(1) by simp
  have "unat (of_nat ?v :: u64) = ?v" using le by (simp only: unsigned_of_nat) (simp add: take_bit_nat_eq_self)
  then have "\<not> (0xffff < (of_nat ?v :: u64))" using le by (simp add: word_less_nat_alt)
  then show ?case using Cons.IH [of ?v] Cons.prems eq by (simp add: decimal_def Let_def del: of_nat_add of_nat_mult)
qed (simp add: decimal_def)

definition opt_text :: "string \<Rightarrow> octets option \<Rightarrow> octets" where
  "opt_text d t = (case t of None \<Rightarrow> [] | Some xs \<Rightarrow> str d @ xs)"

definition url_text :: "octets \<Rightarrow> octets option \<Rightarrow> octets \<Rightarrow> octets option \<Rightarrow> octets \<Rightarrow> octets option \<Rightarrow> octets option \<Rightarrow> octets" where
  "url_text schema ui host d path query fragment =
     schema @ str ''://'' @ user_text ui @ host @ port_text d @ path @ opt_text ''?'' query @ opt_text ''#'' fragment"

definition field_text :: "octets \<Rightarrow> http_parser_url \<Rightarrow> http_parser_url_fields \<Rightarrow> octets option" where
  "field_text b u uf =
     (if uf \<in> field_set u then Some (sub_octets b (unat (off (field_data u uf))) (unat (len (field_data u uf)))) else None)"

text \<open>The authority: user information, host and port go into one field at first.\<close>

lemma authority_run:
  assumes "\<forall>x. ui = Some x \<longrightarrow> x \<noteq> [] \<and> (\<forall>c\<in>set x. IS_USERINFO_CHAR c)" "host \<noteq> []" "\<forall>c\<in>set host. IS_HOST_CHAR c"
    and "\<forall>ds. d = Some ds \<longrightarrow> (\<forall>c\<in>set ds. IS_NUM c)" "ul_old_uf l \<noteq> UF_HOST" "\<not> ul_found_at l"
  shows "parse_url_loop p ((user_text ui @ host @ port_text d) @ r) s_req_server_start l =
    parse_url_loop (p + length (user_text ui @ host @ port_text d)) r s_req_server
      (l\<lparr>ul_old_uf := UF_HOST, ul_found_at := (ui \<noteq> None), ul_u := put UF_HOST p (length (user_text ui @ host @ port_text d)) (ul_u l)\<rparr>)"
proof -
  let ?hp = "host @ port_text d"
  have fo: "field_of s_req_server = Some (Some UF_HOST)" "field_of s_req_server_with_at = Some (Some UF_HOST)" by (simp_all add: field_of_def)
  have "\<forall>c\<in>set ?hp. IS_USERINFO_CHAR c"
    using assms(3,4) by (auto simp: port_text_def str_def IS_HOST_CHAR_def IS_USERINFO_CHAR_def IS_MARK_def IS_ALPHANUM_def split: option.splits)
  then have sv: "\<forall>c\<in>set ?hp. s \<in> {s_req_server_start, s_req_server, s_req_server_with_at} \<longrightarrow> parse_url_char s c = s_req_server" for s
    using user_chars by blast
  obtain c cs where hp: "?hp = c # cs" using assms(2) by (cases ?hp) auto
  have one: "parse_url_char s_req_server_start c = s_req_server" "parse_url_char s_req_server_with_at c = s_req_server"
    "\<forall>c\<in>set cs. parse_url_char s_req_server c = s_req_server"
    using sv [of s_req_server_start] sv [of s_req_server_with_at] sv [of s_req_server] hp by simp_all
  show ?thesis
  proof (cases ui)
    case None
    have "l\<lparr>ul_found_at := False\<rparr> = l" using assms(6) by (cases l) simp
    then show ?thesis
      using url_run [of ?hp s_req_server UF_HOST s_req_server_start l p r] fo(1) one(1,3) assms(5) hp None
      by (cases l) (simp add: user_text_def del: parse_url_loop.simps)
  next
    case (Some x)
    then have x: "x \<noteq> []" "\<forall>c\<in>set x. IS_USERINFO_CHAR c" using assms(1) by auto
    let ?l1 = "l\<lparr>ul_old_uf := UF_HOST, ul_u := put UF_HOST p (length x) (ul_u l)\<rparr>"
    let ?l2 = "?l1\<lparr>ul_found_at := True, ul_u := put UF_HOST p (length x + 1) (ul_u l)\<rparr>"
    let ?l3 = "?l2\<lparr>ul_u := put UF_HOST p (length x + 2) (ul_u l)\<rparr>"
    have "parse_url_loop p (x @ str ''@'' @ ?hp @ r) s_req_server_start l = parse_url_loop (p + length x) (str ''@'' @ ?hp @ r) s_req_server ?l1"
      using url_run [of x s_req_server UF_HOST s_req_server_start l p] fo(1) user_chars x assms(5)
      by (metis hd_in_set insertCI list.set_sel(2) state.distinct(1) state.simps)
    also have "\<dots> = parse_url_loop (p + length x + 1) (?hp @ r) s_req_server_with_at ?l2"
      using at_sign fo(2) by (simp add: str_def inc_put Let_def)
    also have "\<dots> = parse_url_loop (p + length x + 2) (cs @ r) s_req_server ?l3"
      using one(2) fo(1) unfolding hp by (simp add: inc_put Let_def)
    also have "\<dots> = parse_url_loop (p + length x + 2 + length cs) r s_req_server (?l3\<lparr>ul_u := put UF_HOST p (length x + 2 + length cs) (ul_u l)\<rparr>)"
      by (rule url_run_same [OF fo(1)]) (use one(3) in simp_all)
    finally show ?thesis using Some arg_cong [OF hp, of length] by (cases l) (simp add: user_text_def str_def add.assoc)
  qed
qed

lemma url_loop_text:
  assumes "schema \<noteq> []" "\<forall>c\<in>set schema. IS_ALPHA c" "host \<noteq> []" "\<forall>c\<in>set host. IS_HOST_CHAR c" "\<forall>ds. d = Some ds \<longrightarrow> (\<forall>c\<in>set ds. IS_NUM c)"
    and "hd path = oct CHR ''/''" "path \<noteq> []" "\<forall>c\<in>set path. IS_URL_CHAR c"
    and "\<forall>q. query = Some q \<longrightarrow> q \<noteq> [] \<and> (\<forall>c\<in>set q. IS_URL_CHAR c)" "\<forall>g. fragment = Some g \<longrightarrow> g \<noteq> [] \<and> (\<forall>c\<in>set g. IS_URL_CHAR c)"
    and "\<forall>x. ui = Some x \<longrightarrow> x \<noteq> [] \<and> (\<forall>c\<in>set x. IS_USERINFO_CHAR c)"
  defines "p1 \<equiv> length schema + 3"
  defines "p2 \<equiv> p1 + length (user_text ui) + length host + length (port_text d)"
  defines "p3 \<equiv> p2 + length path"
  defines "p4 \<equiv> p3 + length (opt_text ''?'' query)"
  shows "\<exists>uf. parse_url_loop 0 (url_text schema ui host d path query fragment) s_req_spaces_before_url \<lparr>ul_old_uf = UF_MAX, ul_found_at = False, ul_u = u\<rparr> =
    Some (Inr \<lparr>ul_old_uf = uf, ul_found_at = (ui \<noteq> None),
      ul_u = (let u1 = put UF_PATH p2 (length path) (put UF_HOST p1 (length (user_text ui) + length host + length (port_text d)) (put UF_SCHEMA 0 (length schema) u));
                  u2 = (case query of None \<Rightarrow> u1 | Some q \<Rightarrow> put UF_QUERY (p3 + 1) (length q) u1)
              in case fragment of None \<Rightarrow> u2 | Some g \<Rightarrow> put UF_FRAGMENT (p4 + 1) (length g) u2)\<rparr>)"
proof -
  let ?hp = "user_text ui @ host @ port_text d" and ?l = "\<lambda>uf u. \<lparr>ul_old_uf = uf, ul_found_at = (ui \<noteq> None), ul_u = u\<rparr>"
    and ?k = "\<lambda>uf u. \<lparr>ul_old_uf = uf, ul_found_at = False, ul_u = u\<rparr>"
  let ?r3 = "opt_text ''#'' fragment" and ?u1 = "put UF_SCHEMA 0 (length schema) u"
  let ?r2 = "opt_text ''?'' query @ ?r3" and ?u2 = "put UF_HOST p1 (length (user_text ui) + length host + length (port_text d)) (put UF_SCHEMA 0 (length schema) u)"
  let ?u3 = "put UF_PATH p2 (length path) ?u2" and ?r1 = "path @ opt_text ''?'' query @ opt_text ''#'' fragment"
  let ?u4 = "case query of None \<Rightarrow> ?u3 | Some q \<Rightarrow> put UF_QUERY (p3 + 1) (length q) ?u3"
  let ?s4 = "case query of None \<Rightarrow> s_req_path | Some q \<Rightarrow> s_req_query_string"
  let ?f4 = "case query of None \<Rightarrow> UF_PATH | Some q \<Rightarrow> UF_QUERY"
  have fo: "field_of s_req_schema = Some (Some UF_SCHEMA)" "field_of s_req_server = Some (Some UF_HOST)" "field_of s_req_path = Some (Some UF_PATH)"
    "field_of s_req_query_string = Some (Some UF_QUERY)" "field_of s_req_fragment = Some (Some UF_FRAGMENT)"
    "field_of s_req_schema_slash = Some None" "field_of s_req_schema_slash_slash = Some None" "field_of s_req_server_start = Some None"
    "field_of s_req_query_string_start = Some None" "field_of s_req_fragment_start = Some None" by (simp_all add: field_of_def)
  have mem: "xs \<noteq> [] \<Longrightarrow> hd xs \<in> set xs" "c \<in> set (tl xs) \<Longrightarrow> c \<in> set xs" for c :: u8 and xs by (simp, cases xs, simp_all)
  have "parse_url_loop 0 (schema @ str ''://'' @ ?hp @ ?r1) s_req_spaces_before_url (?k UF_MAX u)
      = parse_url_loop (length schema) (str ''://'' @ ?hp @ ?r1) s_req_schema (?k UF_SCHEMA ?u1)"
    using url_run [OF assms(1) fo(1), of s_req_spaces_before_url "?k UF_MAX u" 0 "str ''://'' @ ?hp @ ?r1"] schema_chars assms(1,2) mem by simp
  also have "\<dots> = parse_url_loop p1 (?hp @ ?r1) s_req_server_start (?k UF_SCHEMA ?u1)"
    using url_pass [OF delimiters(1) fo(6)] url_pass [OF delimiters(2) fo(7)] url_pass [OF delimiters(3) fo(8)]
    by (simp add: str_def p1_def numeral_3_eq_3 del: parse_url_loop.simps)
  also have "\<dots> = parse_url_loop p2 ?r1 s_req_server (?l UF_HOST ?u2)"
    using authority_run [OF assms(11,3-5), of "?k UF_SCHEMA ?u1" p1 ?r1] by (simp add: p2_def add.assoc)
  also have "\<dots> = parse_url_loop p3 ?r2 s_req_path (?l UF_PATH ?u3)"
    using url_run [of path s_req_path UF_PATH s_req_server "?l UF_HOST ?u2" p2 ?r2] fo(3) delimiters(4) path_chars(1) assms(6-8) mem
    by (simp add: p3_def)
  also have "\<dots> = parse_url_loop p4 ?r3 ?s4 (?l ?f4 ?u4)"
  proof (cases query)
    case (Some q)
    then show ?thesis
      using url_pass [OF delimiters(5) fo(9), of s_req_path p3 "q @ ?r3"] path_chars(2) assms(9) mem
        url_run [of q s_req_query_string UF_QUERY s_req_query_string_start "?l UF_PATH ?u3" "p3 + 1" ?r3] fo(4)
      by (simp add: opt_text_def str_def p4_def del: parse_url_loop.simps)
  qed (simp add: opt_text_def p4_def)
  finally have *: "parse_url_loop 0 (schema @ str ''://'' @ ?hp @ ?r1) s_req_spaces_before_url (?k UF_MAX u) = parse_url_loop p4 ?r3 ?s4 (?l ?f4 ?u4)" .
  show ?thesis
  proof (cases fragment)
    case None
    then show ?thesis using * by (auto simp: url_text_def opt_text_def Let_def)
  next
    case (Some g)
    have "?s4 \<in> {s_req_path, s_req_query_string}" "?f4 \<noteq> UF_FRAGMENT" by (simp_all split: option.split)
    then have "parse_url_loop p4 ?r3 ?s4 (?l ?f4 ?u4) = Some (Inr (?l UF_FRAGMENT (put UF_FRAGMENT (p4 + 1) (length g) ?u4)))"
      using url_pass [OF delimiters(6) fo(10), of ?s4 p4 g] path_chars(3) assms(10) mem Some
        url_run [of g s_req_fragment UF_FRAGMENT s_req_fragment_start "?l ?f4 ?u4" "p4 + 1" "[]"] fo(5)
      by (simp add: opt_text_def str_def)
    then show ?thesis using * Some by (auto simp: url_text_def Let_def)
  qed
qed


lemma sub_octets_mid: "sub_octets (xs @ ys @ zs) (length xs) (length ys) = ys"
  by (simp add: sub_octets_def)

lemma u16_small: "n < 2 ^ 16 \<Longrightarrow> unat (of_nat n :: u16) = n"
  by (simp add: unsigned_of_nat take_bit_nat_eq_self)

lemma field_slice:
  assumes "uf \<in> field_set u" "field_data u uf = \<lparr>off = of_nat p, len = of_nat n\<rparr>" "b = xs @ ys @ zs" "length xs = p" "length ys = n" "length b < 2 ^ 16"
  shows "field_text b u uf = Some ys"
proof -
  have "unat (of_nat p :: u16) = p" "unat (of_nat n :: u16) = n" using assms(3-6) by (intro u16_small; simp)+
  then show ?thesis using assms(1-5) sub_octets_mid [of xs ys zs] by (simp add: field_text_def)
qed

text \<open>The structure after the loop over a URL that was put together, and after the loop over its host.\<close>

definition cut :: "octets \<Rightarrow> octets option \<Rightarrow> octets \<Rightarrow> octets option \<Rightarrow> octets \<Rightarrow> octets option \<Rightarrow> octets option \<Rightarrow> http_parser_url \<Rightarrow> http_parser_url" where
  "cut schema ui host d path query fragment u =
     (let p1 = length schema + 3; p2 = p1 + length (user_text ui) + length host + length (port_text d); p3 = p2 + length path; p4 = p3 + length (opt_text ''?'' query);
          u1 = put UF_PATH p2 (length path) (put UF_HOST p1 (length (user_text ui) + length host + length (port_text d)) (put UF_SCHEMA 0 (length schema) u));
          u2 = (case query of None \<Rightarrow> u1 | Some q \<Rightarrow> put UF_QUERY (p3 + 1) (length q) u1)
      in case fragment of None \<Rightarrow> u2 | Some g \<Rightarrow> put UF_FRAGMENT (p4 + 1) (length g) u2)"

definition cut_host :: "octets \<Rightarrow> octets option \<Rightarrow> octets \<Rightarrow> octets option \<Rightarrow> http_parser_url \<Rightarrow> http_parser_url" where
  "cut_host schema ui host d v =
     (let p1 = length schema + 3; h = p1 + length (user_text ui); v0 = set_len UF_HOST 0 v;
          w0 = (case ui of None \<Rightarrow> v0 | Some x \<Rightarrow> put UF_USERINFO p1 (length x) v0);
          w1 = host_at (of_nat h) (of_nat (length host)) w0
      in case d of None \<Rightarrow> w1 | Some ds \<Rightarrow> put UF_PORT (h + length host + 1) (length ds) w1)"

lemma cut_host_parsed:
  assumes "host \<noteq> []" "\<forall>c\<in>set host. IS_HOST_CHAR c" "\<forall>ds. d = Some ds \<longrightarrow> ds \<noteq> [] \<and> (\<forall>c\<in>set ds. IS_NUM c)"
    and "length (url_text schema ui host d path query fragment) < 2 ^ 16" "v = cut schema ui host d path query fragment u"
    and "\<forall>x. ui = Some x \<longrightarrow> x \<noteq> [] \<and> (\<forall>c\<in>set x. IS_USERINFO_CHAR c)"
  shows "http_parse_host (url_text schema ui host d path query fragment) v (ui \<noteq> None) = Some (0, cut_host schema ui host d v)"
proof -
  let ?b = "url_text schema ui host d path query fragment" and ?hp = "user_text ui @ host @ port_text d" and ?p1 = "length schema + 3"
    and ?s = "if ui \<noteq> None then s_http_userinfo_start else s_http_host_start"
  have b: "?b = (schema @ str ''://'') @ ?hp @ path @ opt_text ''?'' query @ opt_text ''#'' fragment" "length (schema @ str ''://'') = ?p1"
    by (simp_all add: url_text_def str_def)
  have vh: "field_data v UF_HOST = \<lparr>off = of_nat ?p1, len = of_nat (length ?hp)\<rparr>" "UF_HOST \<in> field_set v"
    by (simp_all add: assms(5) cut_def Let_def split: option.split)
  have sm: "unat (of_nat ?p1 :: u16) = ?p1" "unat (of_nat (length ?hp) :: u16) = length ?hp" using assms(4) b by (intro u16_small; simp)+
  have z: "len (field_data (set_len UF_HOST 0 v) UF_HOST) = 0" by (simp add: set_len_def)
  obtain s where "host_list ?p1 ?hp ?s (set_len UF_HOST 0 v) = (s, cut_host schema ui host d v)" "host_ends s"
    using host_whole_user [OF assms(6,1-3) z, of ?p1] unfolding cut_host_def Let_def by blast
  then show ?thesis
    using host_loop_list [of "schema @ str ''://''" ?hp "path @ opt_text ''?'' query @ opt_text ''#'' fragment" ?s "set_len UF_HOST 0 v"] b vh sm
    by (simp add: http_parse_host_def Let_def)
qed

lemma cut_slices:
  assumes "length (url_text schema ui host d path query fragment) < 2 ^ 16" "field_set u = {}"
    and "w = cut_host schema ui host d (cut schema ui host d path query fragment u)"
  shows "field_text (url_text schema ui host d path query fragment) w =
    (\<lambda>uf. case uf of UF_SCHEMA \<Rightarrow> Some schema | UF_HOST \<Rightarrow> Some host | UF_PORT \<Rightarrow> d | UF_PATH \<Rightarrow> Some path | UF_QUERY \<Rightarrow> query
                   | UF_FRAGMENT \<Rightarrow> fragment | UF_USERINFO \<Rightarrow> ui | UF_MAX \<Rightarrow> None)"
proof
  fix uf
  let ?b = "url_text schema ui host d path query fragment" and ?q = "opt_text ''?'' query" and ?g = "opt_text ''#'' fragment"
  let ?p0 = "length schema + 3" and ?x = "schema @ str ''://'' @ user_text ui"
  let ?p1 = "?p0 + length (user_text ui)"
  let ?p3 = "?p1 + length host + length (port_text d) + length path"
  have set: "field_set w = {UF_SCHEMA, UF_HOST, UF_PATH} \<union> (if d = None then {} else {UF_PORT}) \<union> (if query = None then {} else {UF_QUERY})
      \<union> (if fragment = None then {} else {UF_FRAGMENT}) \<union> (if ui = None then {} else {UF_USERINFO})"
    using assms(2) by (auto simp: assms(3) cut_def cut_host_def Let_def split: option.split)
  note cuts = assms(3) cut_def cut_host_def set_len_def Let_def
  show "field_text ?b w uf = (case uf of UF_SCHEMA \<Rightarrow> Some schema | UF_HOST \<Rightarrow> Some host | UF_PORT \<Rightarrow> d | UF_PATH \<Rightarrow> Some path | UF_QUERY \<Rightarrow> query
                   | UF_FRAGMENT \<Rightarrow> fragment | UF_USERINFO \<Rightarrow> ui | UF_MAX \<Rightarrow> None)"
  proof (cases uf)
    case UF_SCHEMA
    have "field_text ?b w UF_SCHEMA = Some schema"
      by (rule field_slice [of _ _ 0 "length schema" _ "[]" _ "drop (length schema) ?b"])
        (use assms(1) set in \<open>simp_all add: cuts url_text_def split: option.split\<close>)
    then show ?thesis by (simp add: UF_SCHEMA)
  next
    case UF_HOST
    have "field_text ?b w UF_HOST = Some host"
      by (rule field_slice [of _ _ ?p1 "length host" _ ?x _ "port_text d @ path @ ?q @ ?g"])
        (use assms(1) set in \<open>simp_all add: cuts url_text_def str_def split: option.split\<close>)
    then show ?thesis by (simp add: UF_HOST)
  next
    case UF_PATH
    have "field_text ?b w UF_PATH = Some path"
      by (rule field_slice [of _ _ "?p1 + length host + length (port_text d)" "length path" _ "?x @ host @ port_text d" _ "?q @ ?g"])
        (use assms(1) set in \<open>simp_all add: cuts url_text_def str_def split: option.split\<close>)
    then show ?thesis by (simp add: UF_PATH)
  next
    case UF_PORT
    have "field_text ?b w UF_PORT = Some ds" if "d = Some ds" for ds
      by (rule field_slice [of _ _ "?p1 + length host + 1" "length ds" _ "?x @ host @ str '':''" _ "path @ ?q @ ?g"])
        (use assms(1) set that in \<open>simp_all add: cuts url_text_def port_text_def str_def\<close>)
    then show ?thesis using set by (cases d) (simp_all add: UF_PORT field_text_def)
  next
    case UF_QUERY
    have "field_text ?b w UF_QUERY = Some q" if "query = Some q" for q
      by (rule field_slice [of _ _ "?p3 + 1" "length q" _ "?x @ host @ port_text d @ path @ str ''?''" _ ?g])
        (use assms(1) set that in \<open>simp_all add: cuts url_text_def opt_text_def str_def split: option.split\<close>)
    then show ?thesis using set by (cases query) (simp_all add: UF_QUERY field_text_def)
  next
    case UF_FRAGMENT
    have "field_text ?b w UF_FRAGMENT = Some g" if "fragment = Some g" for g
      by (rule field_slice [of _ _ "?p3 + length ?q + 1" "length g" _ "?x @ host @ port_text d @ path @ ?q @ str ''#''" _ "[]"])
        (use assms(1) set that in \<open>simp_all add: cuts url_text_def opt_text_def str_def split: option.split\<close>)
    then show ?thesis using set by (cases fragment) (simp_all add: UF_FRAGMENT field_text_def)
  next
    case UF_USERINFO
    have "field_text ?b w UF_USERINFO = Some x" if "ui = Some x" for x
      by (rule field_slice [of _ _ ?p0 "length x" _ "schema @ str ''://''" _ "str ''@'' @ host @ port_text d @ path @ ?q @ ?g"])
        (use assms(1) set that in \<open>simp_all add: cuts url_text_def user_text_def str_def split: option.split\<close>)
    then show ?thesis using set by (cases ui) (simp_all add: UF_USERINFO field_text_def)
  qed (use set in \<open>simp_all add: field_text_def\<close>)
qed

text \<open>C19. A URL that is put together from its parts is cut into them again: for a schema of letters, optional
  user information, a host name, an optional port of digits below \<^verbatim>\<open>2^16\<close>, a path, and optional query and fragment of
  URL characters, \<^verbatim>\<open>http_parser_parse_url\<close> succeeds, the fields it reports are exactly the parts that
  are present, the text of each is the part, and the port has the value of its digits. The
  text is shorter than \<^verbatim>\<open>2^16\<close> octets.
\<close>

theorem parse_url_roundtrip:
  assumes "schema \<noteq> []" "\<forall>c\<in>set schema. IS_ALPHA c" "host \<noteq> []" "\<forall>c\<in>set host. IS_HOST_CHAR c"
    and "\<forall>ds. d = Some ds \<longrightarrow> ds \<noteq> [] \<and> (\<forall>c\<in>set ds. IS_NUM c) \<and> decimal 0 ds \<le> 0xffff"
    and "path \<noteq> []" "hd path = oct CHR ''/''" "\<forall>c\<in>set path. IS_URL_CHAR c"
    and "\<forall>q. query = Some q \<longrightarrow> q \<noteq> [] \<and> (\<forall>c\<in>set q. IS_URL_CHAR c)" "\<forall>g. fragment = Some g \<longrightarrow> g \<noteq> [] \<and> (\<forall>c\<in>set g. IS_URL_CHAR c)"
    and "length (url_text schema ui host d path query fragment) < 2 ^ 16"
    and "\<forall>x. ui = Some x \<longrightarrow> x \<noteq> [] \<and> (\<forall>c\<in>set x. IS_USERINFO_CHAR c)"
  shows "\<exists>u'. http_parser_parse_url (url_text schema ui host d path query fragment) False u = Some (0, u') \<and>
    field_text (url_text schema ui host d path query fragment) u' =
      (\<lambda>uf. case uf of UF_SCHEMA \<Rightarrow> Some schema | UF_HOST \<Rightarrow> Some host | UF_PORT \<Rightarrow> d | UF_PATH \<Rightarrow> Some path | UF_QUERY \<Rightarrow> query
                     | UF_FRAGMENT \<Rightarrow> fragment | UF_USERINFO \<Rightarrow> ui | UF_MAX \<Rightarrow> None) \<and>
    unat (port u') = (case d of None \<Rightarrow> 0 | Some ds \<Rightarrow> decimal 0 ds)"
proof -
  let ?b = "url_text schema ui host d path query fragment" and ?u = "u\<lparr>port := 0, field_set := {}\<rparr>"
  define v where "v = cut schema ui host d path query fragment ?u"
  define w where "w = cut_host schema ui host d v"
  have dn: "\<forall>ds. d = Some ds \<longrightarrow> (\<forall>c\<in>set ds. IS_NUM c)" "\<forall>ds. d = Some ds \<longrightarrow> ds \<noteq> [] \<and> (\<forall>c\<in>set ds. IS_NUM c)" using assms(5) by blast+
  obtain uf where loop: "parse_url_loop 0 ?b s_req_spaces_before_url \<lparr>ul_old_uf = UF_MAX, ul_found_at = False, ul_u = ?u\<rparr>
      = Some (Inr \<lparr>ul_old_uf = uf, ul_found_at = (ui \<noteq> None), ul_u = v\<rparr>)"
    using url_loop_text [OF assms(1-4) dn(1) assms(7,6,8-10,12), of ?u] unfolding v_def cut_def Let_def by blast
  have host: "http_parse_host ?b v (ui \<noteq> None) = Some (0, w)" using cut_host_parsed [OF assms(3,4) dn(2) assms(11) v_def assms(12)] by (simp add: w_def)
  have fs: "field_text ?b w = (\<lambda>uf. case uf of UF_SCHEMA \<Rightarrow> Some schema | UF_HOST \<Rightarrow> Some host | UF_PORT \<Rightarrow> d | UF_PATH \<Rightarrow> Some path | UF_QUERY \<Rightarrow> query
                     | UF_FRAGMENT \<Rightarrow> fragment | UF_USERINFO \<Rightarrow> ui | UF_MAX \<Rightarrow> None)"
    using cut_slices [OF assms(11), of ?u] by (simp add: v_def w_def)
  have pw: "port w = 0" "(UF_PORT \<in> field_set w) = (d \<noteq> None)" "UF_HOST \<in> field_set v"
    by (simp_all add: w_def v_def cut_def cut_host_def set_len_def Let_def split: option.split)
  have parse: "http_parser_parse_url ?b False u = (if UF_PORT \<in> field_set w then convert_port ?b w else Some (0, w))"
    using loop host pw(3) assms(1) by (simp add: http_parser_parse_url_def url_text_def Let_def)
  show ?thesis
  proof (cases d)
    case None
    then show ?thesis using parse pw(1,2) fs unfolding None by simp
  next
    case (Some ds)
    let ?w = "w\<lparr>port := ucast (of_nat (decimal 0 ds) :: u64)\<rparr>"
    have ds: "\<forall>c\<in>set ds. IS_NUM c" "decimal 0 ds \<le> 0xffff" using assms(5) Some by auto
    have "sub_octets ?b (unat (off (field_data w UF_PORT))) (unat (len (field_data w UF_PORT))) = ds"
      using fun_cong [OF fs, of UF_PORT] Some pw(2) by (simp add: field_text_def)
    moreover have "unat (off (field_data w UF_PORT)) + unat (len (field_data w UF_PORT)) \<le> length ?b"
      using unat_of_nat_le [of "length schema + 3 + length (user_text ui) + length host + 1"] unat_of_nat_le [of "length ds"] Some
      by (simp add: w_def cut_host_def url_text_def port_text_def str_def Let_def)
    ultimately have "convert_port ?b w = Some (0, ?w)"
      using port_value_decimal [OF ds] by (simp add: convert_port_def Let_def)
    moreover have "unat (port ?w) = decimal 0 ds"
      using ds(2) by (simp add: unsigned_ucast_eq unsigned_of_nat take_bit_nat_eq_self)
    moreover have "field_text ?b ?w = field_text ?b w" by (simp add: field_text_def fun_eq_iff)
    ultimately show ?thesis using parse pw(1,2) fs unfolding Some by simp
  qed
qed

theorem parse_url_roundtrip_witness:
  "\<exists>u'. http_parser_parse_url (str ''http://me@a:80/b?c'') False http_parser_url_init = Some (0, u') \<and>
     field_text (str ''http://me@a:80/b?c'') u' UF_HOST = Some (str ''a'') \<and>
     field_text (str ''http://me@a:80/b?c'') u' UF_USERINFO = Some (str ''me'') \<and> field_text (str ''http://me@a:80/b?c'') u' UF_QUERY = Some (str ''c'') \<and>
     field_text (str ''http://me@a:80/b?c'') u' UF_FRAGMENT = None \<and> unat (port u') = 80"
proof -
  have u: "url_text (str ''http'') (Some (str ''me'')) (str ''a'') (Some (str ''80'')) (str ''/b'') (Some (str ''c'')) None = str ''http://me@a:80/b?c''"
    by (simp add: url_text_def user_text_def port_text_def opt_text_def str_def)
  have "\<exists>u'. http_parser_parse_url (str ''http://me@a:80/b?c'') False http_parser_url_init = Some (0, u') \<and>
      field_text (str ''http://me@a:80/b?c'') u' =
        (\<lambda>uf. case uf of UF_SCHEMA \<Rightarrow> Some (str ''http'') | UF_HOST \<Rightarrow> Some (str ''a'') | UF_PORT \<Rightarrow> Some (str ''80'') | UF_PATH \<Rightarrow> Some (str ''/b'')
                       | UF_QUERY \<Rightarrow> Some (str ''c'') | UF_FRAGMENT \<Rightarrow> None | UF_USERINFO \<Rightarrow> Some (str ''me'') | UF_MAX \<Rightarrow> None) \<and>
      unat (port u') = (case Some (str ''80'') of None \<Rightarrow> 0 | Some ds \<Rightarrow> decimal 0 ds)"
    unfolding u [symmetric]
    by (rule parse_url_roundtrip) (simp_all add: url_text_def user_text_def port_text_def opt_text_def str_def decimal_def IS_ALPHA_def LOWER_def IS_HOST_CHAR_def
        IS_USERINFO_CHAR_def IS_ALPHANUM_def IS_NUM_def IS_URL_CHAR_def BIT_AT_def normal_url_char_def)
  then show ?thesis by (auto simp: decimal_def str_def)
qed

end
