(* ===== verification/Spec2Isabelle.thy ===== *)
theory Spec2Isabelle
  imports Net Ping Snc Shell Tcp_Open Linked_List Connector Latch Http_Url Http_Answer Http_Pieces Http_Parse_Url
begin

text \<open>
  A verification development of eNET. The repository holds two network programs: \<^verbatim>\<open>tapip\<close>,
  a TCP/IP stack in C that runs as a process behind a tap device, and \<^verbatim>\<open>easy_net\<close>, a reactor
  library in C++ with timers, connections and HTTP on top of epoll. Both are modelled as
  functions of HOL on records with the fields of the C structures and C++ classes; the names
  are those of the source where HOL leaves them free. Paths below are relative to \<^verbatim>\<open>src\<close>.

  \<^bold>\<open>The stack.\<close> A frame arrives from the device, is dispatched by its type to ARP or IP, IP
  reassembles and delivers to ICMP, raw sockets, UDP or TCP, and answers go down through
  routing, fragmentation and ARP to the device again; sockets connect user threads to this.

  \<^item> \<^verbatim>\<open>Prelude\<close>: machine words, octet strings, big-endian reads and writes, copies.
  \<^item> \<^verbatim>\<open>Linked_List\<close> (\<^verbatim>\<open>tapip/include/list.h\<close>): the lists and hash chains on their pointers. The
    other theories use HOL lists instead; the refinements of this theory say that legal
    sequences of operations implement them, and what the traversal macros visit.
  \<^item> \<^verbatim>\<open>Cbuf\<close> (\<^verbatim>\<open>lib/cbuf.c\<close>): the ring buffer, refining a bounded queue of octets.
  \<^item> \<^verbatim>\<open>Packet\<close>, \<^verbatim>\<open>Checksum\<close> (\<^verbatim>\<open>include\<close>, \<^verbatim>\<open>lib/checksum.c\<close>): header fields and the checksum,
    equal to that of RFC 1071.
  \<^item> \<^verbatim>\<open>Netif\<close> (\<^verbatim>\<open>net/pkb.c\<close>, \<^verbatim>\<open>net/netdev.c\<close>, \<^verbatim>\<open>net/veth.c\<close>, \<^verbatim>\<open>net/loop.c\<close>): packet buffers with
    reference counts, devices.
  \<^item> \<^verbatim>\<open>Route\<close> (\<^verbatim>\<open>ip/route.c\<close>): longest prefix match. \<^verbatim>\<open>Arp\<close> (\<^verbatim>\<open>arp\<close>): the cache, its queues and
    timer. \<^verbatim>\<open>Ip_Out\<close>, \<^verbatim>\<open>Ip_Frag\<close>, \<^verbatim>\<open>Icmp\<close> (\<^verbatim>\<open>ip\<close>): output, fragmentation with reassembly in any
    order, error messages, echo, forwarding.
  \<^item> \<^verbatim>\<open>Wait\<close> (\<^verbatim>\<open>include/wait.h\<close>): sleeping and waking, with all interleavings of one sleeper.
  \<^item> \<^verbatim>\<open>Sock\<close>, \<^verbatim>\<open>Raw\<close>, \<^verbatim>\<open>Udp\<close>, \<^verbatim>\<open>Inet\<close> (\<^verbatim>\<open>socket\<close>, \<^verbatim>\<open>udp\<close>, \<^verbatim>\<open>ip/raw.c\<close>): sockets and their tables.
  \<^item> \<^verbatim>\<open>Tcp_Hash\<close>, \<^verbatim>\<open>Tcp_Out\<close>, \<^verbatim>\<open>Tcp_Text\<close>, \<^verbatim>\<open>Tcp_Timer\<close>, \<^verbatim>\<open>Tcp_State\<close>, \<^verbatim>\<open>Tcp_Sock\<close> (\<^verbatim>\<open>tcp\<close>): the tables
    of connections, segments out, text in, TIME-WAIT, the state machine of SEGMENT ARRIVES and
    the user calls. What a reader gets is a prefix of the text the peer sent, with segments in
    any order through the reassembly list. \<^verbatim>\<open>Tcp_Open\<close> composes them into the three-way handshake of both sides.
  \<^item> \<^verbatim>\<open>Net\<close> (\<^verbatim>\<open>net/net.c\<close>, \<^verbatim>\<open>shell/main.c\<close>): link input, the timer round, and start-up.

  \<^item> \<^verbatim>\<open>Lib\<close> (\<^verbatim>\<open>lib/lib.c\<close>): addresses as text. \<^verbatim>\<open>Shell\<close> (\<^verbatim>\<open>shell/shell.c\<close>, \<^verbatim>\<open>shell/net_command.c\<close>): lines into words,
    the commands, the hand-over of a command from the master to the worker thread. \<^verbatim>\<open>Ping\<close>
    (\<^verbatim>\<open>app/ping.c\<close>, \<^verbatim>\<open>shell/ping_command.c\<close>): both ping programs, the request and its reply.
    \<^verbatim>\<open>Snc\<close> (\<^verbatim>\<open>app/snc.c\<close>): the options of netcat and its loops between terminal and socket.

  The state of the stack is one record that grows from theory to theory (\<open>net\<close>, \<open>stack\<close>) so
  that the earlier operations apply to the later states. The device is a parameter that maps
  a frame and a state to a state; the loopback device re-enters the stack, and this recursion
  is cut by a number of re-entries in \<^verbatim>\<open>Net\<close>. A call that blocks is cut at its \<^verbatim>\<open>sleep_on\<close>: one
  function up to the sleep and one from the wake-up on. Dereferencing a null pointer and
  failed assertions set \<open>crash\<close>; mutexes are not modelled inside an operation, which is one
  step.

  \<^bold>\<open>The reactor library.\<close> One loop per thread waits in epoll, runs the timers that are due,
  dispatches the events of its descriptors to connections and acceptors, and then the
  functions other threads have queued.

  \<^item> \<^verbatim>\<open>Buffer\<close> (\<^verbatim>\<open>easy_net/base/buffer.cpp\<close>): the growing buffer, refining a pipe of octets.
  \<^item> \<^verbatim>\<open>Std_Heap\<close>: the heap algorithms behind \<^verbatim>\<open>std::priority_queue\<close>, correct for every order.
    \<^verbatim>\<open>Timers\<close> (\<^verbatim>\<open>net/timer.h\<close>, \<^verbatim>\<open>net/timer_policy.h\<close>): expiry times, both queues of timers, and
    the pass over the timers that are due, under a clock that advances while callbacks run.
  \<^item> \<^verbatim>\<open>Event_Loop\<close> (\<^verbatim>\<open>net/event_loop.cpp\<close>, \<^verbatim>\<open>io_event.cpp\<close>, \<^verbatim>\<open>epoll_poller.cpp\<close>, \<^verbatim>\<open>notify.cpp\<close>): the
    registered descriptors against what the kernel watches, and the queue of functions under
    all interleavings of threads. The loop takes the queue over without the lock that the
    other threads hold, which is two steps of the model; a function queued between them can
    be lost, every other one is run once and in order.
  \<^item> \<^verbatim>\<open>Tcp_Connection\<close> (\<^verbatim>\<open>net/tcp_connection.cpp\<close>, \<^verbatim>\<open>tcp_server.cpp\<close>, \<^verbatim>\<open>acceptor.cpp\<close>,
    \<^verbatim>\<open>base/socket_opt.cpp\<close>): what is sent and received, errors, the end of a connection.
    \<^verbatim>\<open>Connector\<close> (\<^verbatim>\<open>net/connector.cpp\<close>): connecting with retries.
  \<^item> \<^verbatim>\<open>Latch\<close> (\<^verbatim>\<open>base/countdown_latch.h\<close>): the countdown latch among any number of threads.
  \<^item> \<^verbatim>\<open>Http_Parser\<close>, \<^verbatim>\<open>Http_Execute\<close> (\<^verbatim>\<open>protocol/http/http_parser.c\<close>): the state machine of the parser
    of HTTP messages, one definition per case of its switch, and its loop. \<^verbatim>\<open>Http_Safety\<close> shows
    that every call returns, with no assertion failed, on every input. \<^verbatim>\<open>Http_Incremental\<close>,
    \<^verbatim>\<open>Http_Steady\<close>, \<^verbatim>\<open>Http_First\<close>, \<^verbatim>\<open>Http_Value\<close> and \<^verbatim>\<open>Http_Pieces\<close> show that it does not matter how
    the input is cut into calls: a simulation between a run on the rest of a buffer and a
    run on the whole, the cases that scan over several characters, and the composition.
    \<^verbatim>\<open>Http_Walk\<close>, \<^verbatim>\<open>Http_Walk_Header\<close>, \<^verbatim>\<open>Http_Walk_Value\<close> follow the parser through request line, header
    names and header values of a well-formed request, and \<^verbatim>\<open>Http_Requests\<close> composes them: the
    callbacks for a row of requests are exactly those of their parts.
    \<^verbatim>\<open>Http_Parse_Url\<close> is \<^verbatim>\<open>http_parser_parse_url\<close> and its round trip, user information included.
  \<^item> \<^verbatim>\<open>Http_Url\<close>, \<^verbatim>\<open>Http_Message\<close>, \<^verbatim>\<open>Http_Server\<close> (\<^verbatim>\<open>protocol/http\<close>): the other parser of URLs, messages
    on the wire, and the path from the octets read through the parser and the router to
    the reply in the write buffer. \<^verbatim>\<open>Http_Answer\<close> puts client, parser and server together: a
    serialised request is read back unchanged and answered by its handler.

  System calls are arguments: a list of the results they give, with what the manual pages
  promise of them as hypotheses. Callbacks of the user are functions on the state. Undefined
  behaviour of C++ is the result \<open>None\<close> or a flag of the state.

  \<^bold>\<open>Interfaces.\<close> Where a component relies on another only through a contract, the contract is
  a locale: \<open>byte_fifo\<close> (ring buffer), \<open>routing\<close> (lookup after insertion), \<open>quiet_link\<close>
  and \<open>link_below\<close> (a device that does not re-enter the stack), \<open>byte_pipe\<close> (buffer), \<open>heap_order\<close> (priority queue), \<open>intrusive_list\<close> (linked lists); each is interpreted
  on the definitions of the program.

  \<^bold>\<open>Loops and fuel.\<close> Loops are recursive functions with a termination proof. The exceptions: the
  pass over the timer heap takes a number of rounds, since a timer with interval zero is due
  again at once and one whose callback takes longer than its interval is due again when it
  has run; one more round than there are timers is shown to be enough when no timer comes due
  again during the pass, and that no number is enough when one always does; the scans for a free port take a number of rounds that covers every
  port; loops that wait for another thread are cut there; the list traversals are partial
  functions that are shown to return on every well-formed list; the jumps to \<^verbatim>\<open>reexecute\<close> in the
  HTTP parser are bounded by \<open>REEXECUTE_MAX\<close>, since a callback may change the state at will, and
  the bound is shown to be enough for callbacks that leave the parser alone.

  \<^bold>\<open>Not modelled.\<close> The set-up of the tap device, of sockets and of threads (system calls only);
  the commands of the shell that only print; logging and debug
  output; address conversion and DNS, which only call the C library; \<^verbatim>\<open>cyclic_barrier.h\<close>, \<^verbatim>\<open>udp_client.h\<close>,
  \<^verbatim>\<open>udp_server.h\<close> and the HTTP client, which are empty or unfinished; the programs under
  \<^verbatim>\<open>raw_examples\<close>, \<^verbatim>\<open>examples\<close>, \<^verbatim>\<open>test\<close> and \<^verbatim>\<open>tools\<close>. Left for later: an end-to-end statement of a TCP connection between two stacks.
\<close>

end
